(* ===== verification/Prelude.thy ===== *)
theory Prelude
  imports Complex_Main "HOL-Library.Word" "HOL-Library.Multiset"
begin

text \<open>
  What every component shares: Python exceptions as values of a sum type with a bind,
  bytes and their little- and big-endian integer readings, slices, stable sorting by a
  key, and the collections of facts the component proofs draw on.
\<close>

section \<open>Collections\<close>

named_theorems codec_simps \<open>lengths and round trips of encoders\<close>
named_theorems eval_simps \<open>unfolding of recursions at numeral arguments, for concrete runs\<close>
named_theorems wf_intros \<open>introduction rules of well-formedness invariants\<close>

section \<open>Exceptions as values\<close>

text \<open>
  One constructor per exception class the modelled code raises. \<open>CodecError\<close>,
  \<open>TagError\<close>, \<open>PacketError\<close> and the other module errors derive from \<open>ValueError\<close>
  in the source; \<open>is_value_error\<close> is the test an \<open>except ValueError\<close> makes.
\<close>

datatype exn =
    ValueError | TypeError | IndexError | KeyError | StructError | AssertionError
  | UnicodeError | OSError | ZeroDivisionError | ZlibError | RuntimeError
  | CodecError | TagError | PacketError | KadPacketError | NodesDatError
  | AichError | ServerMetError | KnownMetError | Ed2kLinkError | IpFilterError
  | PartFileError | DownloadQueueError | UploadQueueError | ContentPolicyError
  | UtpError | PeerCodecError | ProtocolError | SharingError | UdpObfuscationError
  | GlobalUdpSearchError | SecureIdentError | IdentityError
  | ObfuscationError | EOFError | TimeoutError | ConfigError | UploadEngineError | PeerSessionError
  | ListenerError | AttributeError | NameError | ServerSessionError | OverflowError
  | KadSearchError | PublishError | KadBootstrapError

type_synonym 'a res = "exn + 'a"

definition is_value_error :: "exn \<Rightarrow> bool" where
  "is_value_error e \<longleftrightarrow> e \<in> {ValueError, UnicodeError, CodecError, TagError, PacketError,
     KadPacketError, NodesDatError, AichError, ServerMetError, KnownMetError, Ed2kLinkError,
     IpFilterError, PeerCodecError, ProtocolError, SharingError}"

definition bindE :: "'e + 'a \<Rightarrow> ('a \<Rightarrow> 'e + 'b) \<Rightarrow> 'e + 'b" where
  "bindE m f = (case m of Inl e \<Rightarrow> Inl e | Inr x \<Rightarrow> f x)"

lemma bindE_Inl [simp]: "bindE (Inl e) f = Inl e"
  by (simp add: bindE_def)

lemma bindE_Inr [simp]: "bindE (Inr x) f = f x"
  by (simp add: bindE_def)

lemma bindE_assoc: "bindE (bindE m f) g = bindE m (\<lambda>x. bindE (f x) g)"
  by (cases m) auto

lemma bindE_eq_Inr_conv: "bindE m f = Inr y \<longleftrightarrow> (\<exists>x. m = Inr x \<and> f x = Inr y)"
  by (cases m) auto

lemma bindE_cong [fundef_cong]:
  "m = m' \<Longrightarrow> (\<And>x. m' = Inr x \<Longrightarrow> f x = g x) \<Longrightarrow> bindE m f = bindE m' g"
  by (cases m') auto

lemma bindE_split: "P (bindE m f) = ((\<forall>e. m = Inl e \<longrightarrow> P (Inl e)) \<and> (\<forall>x. m = Inr x \<longrightarrow> P (f x)))"
  by (cases m) auto

fun mapE :: "('a \<Rightarrow> 'e + 'b) \<Rightarrow> 'a list \<Rightarrow> 'e + 'b list" where
  "mapE f [] = Inr []"
| "mapE f (x # xs) = bindE (f x) (\<lambda>y. bindE (mapE f xs) (\<lambda>ys. Inr (y # ys)))"

lemma mapE_Inr: "(\<And>x. x \<in> set xs \<Longrightarrow> f x = Inr (g x)) \<Longrightarrow> mapE f xs = Inr (map g xs)"
  by (induction xs) auto

fun foldE :: "('s \<Rightarrow> 'a \<Rightarrow> 'e + 's) \<Rightarrow> 's \<Rightarrow> 'a list \<Rightarrow> 'e + 's" where
  "foldE f s [] = Inr s"
| "foldE f s (x # xs) = bindE (f s x) (\<lambda>s'. foldE f s' xs)"

lemma foldE_append: "foldE f s (xs @ ys) = bindE (foldE f s xs) (\<lambda>s'. foldE f s' ys)"
  by (induction xs arbitrary: s) (auto simp: bindE_assoc)

lemma foldE_invariant:
  assumes "foldE f s xs = Inr s'" and "P s"
    and "\<And>s x t. x \<in> set xs \<Longrightarrow> P s \<Longrightarrow> f s x = Inr t \<Longrightarrow> P t"
  shows "P s'"
  using assms
proof (induction xs arbitrary: s)
  case Nil
  then show ?case by simp
next
  case (Cons x xs)
  from Cons.prems(1) obtain t where t: "f s x = Inr t" and r: "foldE f t xs = Inr s'"
    by (auto simp: bindE_eq_Inr_conv)
  show ?case
    by (rule Cons.IH [OF r]) (use Cons.prems t in auto)
qed

section \<open>Bytes\<close>

type_synonym byte = "8 word"
type_synonym bytes = "8 word list"

text \<open>\<open>py_slice a b xs\<close> is Python's \<open>xs[a:b]\<close> for non-negative bounds.\<close>

definition py_slice :: "nat \<Rightarrow> nat \<Rightarrow> 'a list \<Rightarrow> 'a list" where
  "py_slice a b xs = take (b - a) (drop a xs)"

lemma length_py_slice [simp]: "length (py_slice a b xs) = min (b - a) (length xs - a)"
  by (simp add: py_slice_def min.commute)

lemma py_slice_append_left: "py_slice 0 (length xs) (xs @ ys) = xs"
  by (simp add: py_slice_def)

text \<open>
  \<open>le_enc n v\<close> are the \<open>n\<close> low bytes of \<open>v\<close>, least significant first, which is what
  \<open>struct.pack\<close> writes for \<open>"<H"\<close>, \<open>"<I"\<close> and \<open>"<Q"\<close>; \<open>le_dec\<close> reads them back.
\<close>

primrec le_enc :: "nat \<Rightarrow> nat \<Rightarrow> bytes" where
  "le_enc 0 v = []"
| "le_enc (Suc n) v = word_of_nat v # le_enc n (v div 256)"

primrec le_dec :: "bytes \<Rightarrow> nat" where
  "le_dec [] = 0"
| "le_dec (b # bs) = unat b + 256 * le_dec bs"

definition be_enc :: "nat \<Rightarrow> nat \<Rightarrow> bytes" where
  "be_enc n v = rev (le_enc n v)"

definition be_dec :: "bytes \<Rightarrow> nat" where
  "be_dec bs = le_dec (rev bs)"

lemma le_enc_numeral [eval_simps]:
  "le_enc (numeral k) v = word_of_nat v # le_enc (pred_numeral k) (v div 256)"
  by (simp only: numeral_eq_Suc [of k] le_enc.simps)

lemma length_le_enc [simp, codec_simps]: "length (le_enc n v) = n"
  by (induction n arbitrary: v) auto

lemma length_be_enc [simp, codec_simps]: "length (be_enc n v) = n"
  by (simp add: be_enc_def)

lemma unat_byte_of_nat: "unat (word_of_nat v :: byte) = v mod 256"
  by (simp add: unat_of_nat)

lemma uint_le_255: "uint (b :: byte) \<le> 255"
  using uint_lt2p [of b] by simp

lemma uint_byte_of_int: "0 \<le> v \<Longrightarrow> v \<le> 0xFF \<Longrightarrow> uint (word_of_int v :: byte) = v"
  by (simp add: unsigned_of_int take_bit_int_eq_self)

lemma le_dec_le_enc_mod: "le_dec (le_enc n v) = v mod 256 ^ n"
proof (induction n arbitrary: v)
  case 0
  then show ?case by simp
next
  case (Suc n)
  have "v mod 256 + 256 * (v div 256 mod 256 ^ n) = v mod (256 * 256 ^ n)"
    by (simp add: mod_mult2_eq)
  with Suc show ?case by (simp add: unat_byte_of_nat)
qed

lemma le_dec_le_enc [simp, codec_simps]: "v < 256 ^ n \<Longrightarrow> le_dec (le_enc n v) = v"
  by (simp add: le_dec_le_enc_mod)

lemma le_dec_bound: "le_dec bs < 256 ^ length bs"
proof (induction bs)
  case Nil
  then show ?case by simp
next
  case (Cons b bs)
  have "unat b < 256" using unsigned_less [of b, where ?'a = nat] by simp
  with Cons show ?case by simp
qed

lemma le_enc_le_dec [simp, codec_simps]: "le_enc (length bs) (le_dec bs) = bs"
proof (induction bs)
  case Nil
  then show ?case by simp
next
  case (Cons b bs)
  have b: "unat b < 256" using unsigned_less [of b, where ?'a = nat] by simp
  have "(word_of_nat (unat b + 256 * le_dec bs) :: byte) = b"
  proof (rule word_unat_eq_iff [THEN iffD2])
    show "unat (word_of_nat (unat b + 256 * le_dec bs) :: byte) = unat b"
      unfolding unat_byte_of_nat using b by simp
  qed
  moreover have "(unat b + 256 * le_dec bs) div 256 = le_dec bs"
    using b by simp
  ultimately show ?case using Cons by simp
qed

lemma le_enc_le_dec_n: "length bs = n \<Longrightarrow> le_enc n (le_dec bs) = bs"
  using le_enc_le_dec by blast

lemma be_dec_be_enc [simp, codec_simps]: "v < 256 ^ n \<Longrightarrow> be_dec (be_enc n v) = v"
  by (simp add: be_dec_def be_enc_def)

lemma be_dec_bound: "be_dec bs < 256 ^ length bs"
  using le_dec_bound [of "rev bs"] by (simp add: be_dec_def)

text \<open>\<open>struct.pack\<close> and \<open>struct.unpack\<close> of one little-endian unsigned field of \<open>n\<close> bytes.\<close>

definition pack_le :: "nat \<Rightarrow> nat \<Rightarrow> bytes res" where
  "pack_le n v = (if v < 256 ^ n then Inr (le_enc n v) else Inl StructError)"

definition unpack_le :: "nat \<Rightarrow> bytes \<Rightarrow> nat res" where
  "unpack_le n bs = (if length bs = n then Inr (le_dec bs) else Inl StructError)"

lemma pack_le_Inr_conv: "pack_le n v = Inr bs \<longleftrightarrow> v < 256 ^ n \<and> bs = le_enc n v"
  by (auto simp: pack_le_def)

lemma unpack_le_enc [codec_simps]: "v < 256 ^ n \<Longrightarrow> unpack_le n (le_enc n v) = Inr v"
  by (simp add: unpack_le_def)

section \<open>Lists\<close>

lemma drop_eq_append_length: "drop n xs = ys @ zs \<Longrightarrow> ys \<noteq> [] \<Longrightarrow> n + length ys \<le> length xs"
proof -
  assume a: "drop n xs = ys @ zs" and ne: "ys \<noteq> []"
  have "length xs - n = length ys + length zs"
    using arg_cong [OF a, of length] by simp
  with ne show ?thesis by (cases ys) auto
qed

lemma drop_add_append: "drop n xs = ys @ zs \<Longrightarrow> drop (n + length ys) xs = zs"
proof -
  assume a: "drop n xs = ys @ zs"
  have "drop (n + length ys) xs = drop (length ys) (drop n xs)"
    by (simp add: add.commute)
  with a show ?thesis by simp
qed

lemma sort_key_hd_le:
  assumes "sort_key f xs = y # ys" and "x \<in> set xs"
  shows "f y \<le> f x"
proof -
  have s: "sorted (map f (y # ys))"
    using assms(1) sorted_sort_key [of f xs] by simp
  have "x \<in> set (y # ys)"
    using assms set_sort [of f xs] by simp
  with s show ?thesis by auto
qed

lemma filter_partition_mset:
  "mset (filter P xs @ filter (\<lambda>x. \<not> P x) xs) = mset xs"
  by (induction xs) auto

section \<open>Fields at an offset\<close>

text \<open>\<open>struct.unpack_from\<close> of one little-endian field of \<open>n\<close> bytes.\<close>

definition get_le :: "nat \<Rightarrow> bytes \<Rightarrow> nat \<Rightarrow> nat res" where
  "get_le n data off =
     (if off + n \<le> length data then Inr (le_dec (py_slice off (off + n) data)) else Inl StructError)"

lemma get_le_enc:
  assumes "drop off data = le_enc n v @ suf" and "v < 256 ^ n" and "0 < n"
  shows "get_le n data off = Inr v" and "drop (off + n) data = suf" and "off + n \<le> length data"
proof -
  have ne: "le_enc n v \<noteq> []" using assms(3) by (metis length_0_conv length_le_enc not_less_zero)
  show l: "off + n \<le> length data" using drop_eq_append_length [OF assms(1) ne] by simp
  show "get_le n data off = Inr v" using l assms by (simp add: get_le_def py_slice_def)
  show "drop (off + n) data = suf" using drop_add_append [OF assms(1)] by simp
qed

lemma py_slice_prefix:
  assumes "drop off data = xs @ suf" and "length xs = n" and "0 < n"
  shows "py_slice off (off + n) data = xs" and "drop (off + n) data = suf" and "off + n \<le> length data"
proof -
  have ne: "xs \<noteq> []" using assms(2,3) by auto
  show "off + n \<le> length data" using drop_eq_append_length [OF assms(1) ne] assms(2) by simp
  show "py_slice off (off + n) data = xs" using assms(1,2) by (simp add: py_slice_def)
  show "drop (off + n) data = suf" using drop_add_append [OF assms(1)] assms(2) by simp
qed

end
