(* ===== verification/Py_Text.thy ===== *)
theory Py_Text
  imports Prelude
begin

text \<open>
  Python text. \<open>ustr\<close> is a \<open>str\<close> as the list of its code points, with the strict
  UTF-8 codec of \<open>str.encode\<close> and \<open>bytes.decode\<close>. Line- and field-oriented text
  (ipfilter lines, links, hashes) is \<open>string\<close>, a \<open>str\<close> whose code points are below
  256, with \<open>strip\<close>, \<open>lower\<close>, \<open>split\<close>, \<open>int\<close> and \<open>bytes.fromhex\<close> as Python
  computes them on such text.
\<close>

section \<open>UTF-8\<close>

type_synonym ustr = "nat list"

definition utf8_cp :: "nat \<Rightarrow> bytes option" where
  "utf8_cp c =
     (if c < 0x80 then Some [word_of_nat c]
      else if c < 0x800 then
        Some [word_of_nat (0xC0 + c div 64), word_of_nat (0x80 + c mod 64)]
      else if c < 0x10000 then
        (if 0xD800 \<le> c \<and> c \<le> 0xDFFF then None
         else Some [word_of_nat (0xE0 + c div 4096), word_of_nat (0x80 + c div 64 mod 64),
                    word_of_nat (0x80 + c mod 64)])
      else if c < 0x110000 then
        Some [word_of_nat (0xF0 + c div 262144), word_of_nat (0x80 + c div 4096 mod 64),
              word_of_nat (0x80 + c div 64 mod 64), word_of_nat (0x80 + c mod 64)]
      else None)"

fun utf8_encode :: "ustr \<Rightarrow> bytes option" where
  "utf8_encode [] = Some []"
| "utf8_encode (c # cs) =
     (case utf8_cp c of None \<Rightarrow> None
      | Some e \<Rightarrow> (case utf8_encode cs of None \<Rightarrow> None | Some es \<Rightarrow> Some (e @ es)))"

definition is_cont :: "byte \<Rightarrow> bool" where
  "is_cont b \<longleftrightarrow> 0x80 \<le> unat b \<and> unat b < 0xC0"

definition cont_val :: "byte \<Rightarrow> nat" where
  "cont_val b = unat b - 0x80"

fun utf8_decode :: "bytes \<Rightarrow> ustr option" where
  "utf8_decode [] = Some []"
| "utf8_decode (b # bs) =
     (let n = unat b in
      if n < 0x80 then map_option ((#) n) (utf8_decode bs)
      else if n < 0xC2 then None
      else if n < 0xE0 then
        (case bs of
           b1 # r \<Rightarrow>
             (if is_cont b1 then map_option ((#) ((n - 0xC0) * 64 + cont_val b1)) (utf8_decode r)
              else None)
         | _ \<Rightarrow> None)
      else if n < 0xF0 then
        (case bs of
           b1 # b2 # r \<Rightarrow>
             (let c = (n - 0xE0) * 4096 + cont_val b1 * 64 + cont_val b2 in
              if is_cont b1 \<and> is_cont b2 \<and> 0x800 \<le> c \<and> \<not> (0xD800 \<le> c \<and> c \<le> 0xDFFF)
              then map_option ((#) c) (utf8_decode r) else None)
         | _ \<Rightarrow> None)
      else if n < 0xF5 then
        (case bs of
           b1 # b2 # b3 # r \<Rightarrow>
             (let c = (n - 0xF0) * 262144 + cont_val b1 * 4096 + cont_val b2 * 64 + cont_val b3 in
              if is_cont b1 \<and> is_cont b2 \<and> is_cont b3 \<and> 0x10000 \<le> c \<and> c < 0x110000
              then map_option ((#) c) (utf8_decode r) else None)
         | _ \<Rightarrow> None)
      else None)"

declare utf8_decode.simps(2) [simp del]

text \<open>\<open>bytes.decode("latin-1")\<close> never fails: every byte is its own code point.\<close>

definition latin1_decode :: "bytes \<Rightarrow> ustr" where
  "latin1_decode bs = map unat bs"

lemma unat_small: "n < 256 \<Longrightarrow> unat (word_of_nat n :: byte) = n"
  by (simp add: unat_byte_of_nat)

lemma cont_small: "k < 64 \<Longrightarrow> is_cont (word_of_nat (0x80 + k)) \<and> cont_val (word_of_nat (0x80 + k)) = k"
  unfolding is_cont_def cont_val_def by (subst (1 2 3) unat_small) auto

lemma utf8_decode_1: "unat b < 0x80 \<Longrightarrow> utf8_decode (b # r) = map_option ((#) (unat b)) (utf8_decode r)"
  by (simp add: utf8_decode.simps(2))

lemma utf8_decode_2:
  assumes "0xC2 \<le> unat b" "unat b < 0xE0" "is_cont b1"
    and "(unat b - 0xC0) * 64 + cont_val b1 = c"
  shows "utf8_decode (b # b1 # r) = map_option ((#) c) (utf8_decode r)"
  using assms by (simp add: utf8_decode.simps(2) Let_def)

lemma utf8_decode_3:
  assumes "0xE0 \<le> unat b" "unat b < 0xF0" "is_cont b1" "is_cont b2"
    and "(unat b - 0xE0) * 4096 + cont_val b1 * 64 + cont_val b2 = c"
    and "0x800 \<le> c" "\<not> (0xD800 \<le> c \<and> c \<le> 0xDFFF)"
  shows "utf8_decode (b # b1 # b2 # r) = map_option ((#) c) (utf8_decode r)"
  using assms by (simp add: utf8_decode.simps(2) Let_def)

lemma utf8_decode_4:
  assumes "0xF0 \<le> unat b" "unat b < 0xF5" "is_cont b1" "is_cont b2" "is_cont b3"
    and "(unat b - 0xF0) * 262144 + cont_val b1 * 4096 + cont_val b2 * 64 + cont_val b3 = c"
    and "0x10000 \<le> c" "c < 0x110000"
  shows "utf8_decode (b # b1 # b2 # b3 # r) = map_option ((#) c) (utf8_decode r)"
  using assms by (simp add: utf8_decode.simps(2) Let_def)

lemma cont_digit: "is_cont (word_of_nat (0x80 + n mod 64))" "cont_val (word_of_nat (0x80 + n mod 64)) = n mod 64"
  using cont_small [of "n mod 64"] by simp_all

lemma digits64_3: "(c::nat) div 4096 * 4096 + c div 64 mod 64 * 64 + c mod 64 = c"
proof -
  have "c div 4096 = c div 64 div 64" by (simp add: div_mult2_eq [symmetric])
  moreover have "c div 64 = c div 64 div 64 * 64 + c div 64 mod 64" by simp
  moreover have "c = c div 64 * 64 + c mod 64" by simp
  ultimately show ?thesis by linarith
qed

lemma digits64_4:
  "(c::nat) div 262144 * 262144 + c div 4096 mod 64 * 4096 + c div 64 mod 64 * 64 + c mod 64 = c"
proof -
  have "c div 262144 = c div 4096 div 64" by (simp add: div_mult2_eq [symmetric])
  moreover have "c div 4096 = c div 4096 div 64 * 64 + c div 4096 mod 64" by simp
  ultimately show ?thesis using digits64_3 [of c] by linarith
qed

lemma utf8_cp_decode:
  assumes "utf8_cp c = Some e"
  shows "utf8_decode (e @ r) = map_option ((#) c) (utf8_decode r)"
proof -
  consider (1) "c < 0x80" "e = [word_of_nat c]"
    | (2) "0x80 \<le> c" "c < 0x800"
        "e = [word_of_nat (0xC0 + c div 64), word_of_nat (0x80 + c mod 64)]"
    | (3) "0x800 \<le> c" "c < 0x10000" "\<not> (0xD800 \<le> c \<and> c \<le> 0xDFFF)"
        "e = [word_of_nat (0xE0 + c div 4096), word_of_nat (0x80 + c div 64 mod 64),
              word_of_nat (0x80 + c mod 64)]"
    | (4) "0x10000 \<le> c" "c < 0x110000"
        "e = [word_of_nat (0xF0 + c div 262144), word_of_nat (0x80 + c div 4096 mod 64),
              word_of_nat (0x80 + c div 64 mod 64), word_of_nat (0x80 + c mod 64)]"
    using assms unfolding utf8_cp_def by (auto split: if_splits)
  then show ?thesis
  proof cases
    case 1
    have u: "unat (word_of_nat c :: byte) = c" by (rule unat_small) (use 1 in simp)
    show ?thesis using utf8_decode_1 [of "word_of_nat c" r] 1 by (simp only: u append_Cons append_Nil)
  next
    case 2
    have u: "unat (word_of_nat (0xC0 + c div 64) :: byte) = 0xC0 + c div 64"
      by (rule unat_small) (use 2 in simp)
    have d: "2 \<le> c div 64" "c div 64 < 32" using 2 by simp_all
    show ?thesis unfolding 2(3) append_Cons append_Nil
      by (rule utf8_decode_2) (simp_all only: u cont_digit, use d in simp_all)
  next
    case 3
    have u: "unat (word_of_nat (0xE0 + c div 4096) :: byte) = 0xE0 + c div 4096"
      by (rule unat_small) (use 3 in simp)
    have d: "c div 4096 < 16" using 3 by simp
    have e: "c div 4096 * 4096 + c div 64 mod 64 * 64 + c mod 64 = c" by (rule digits64_3)
    show ?thesis unfolding 3(4) append_Cons append_Nil
      by (rule utf8_decode_3) (simp_all only: u cont_digit, use d e 3 in simp_all)
  next
    case 4
    have u: "unat (word_of_nat (0xF0 + c div 262144) :: byte) = 0xF0 + c div 262144"
      by (rule unat_small) (use 4 in simp)
    have d: "c div 262144 < 5" using 4 by simp
    have e: "c div 262144 * 262144 + c div 4096 mod 64 * 4096 + c div 64 mod 64 * 64 + c mod 64 = c"
      by (rule digits64_4)
    show ?thesis unfolding 4(3) append_Cons append_Nil
      by (rule utf8_decode_4) (simp_all only: u cont_digit, use d e 4 in simp_all)
  qed
qed

lemma utf8_decode_encode [codec_simps]: "utf8_encode s = Some bs \<Longrightarrow> utf8_decode bs = Some s"
  by (induction s arbitrary: bs) (auto simp: utf8_cp_decode split: option.splits)

lemma utf8_encode_nonempty: "utf8_encode (c # s) = Some bs \<Longrightarrow> bs \<noteq> []"
  by (auto simp: utf8_cp_def split: option.splits if_splits)

section \<open>UTF-8 with replacement\<close>

text \<open>
  \<open>bytes.decode("utf-8", "replace")\<close>: a sequence that cannot be continued is replaced by one
  U+FFFD, and decoding goes on at the byte that did not fit.
\<close>

definition utf8_second_ok :: "nat \<Rightarrow> byte \<Rightarrow> bool" where
  "utf8_second_ok n b \<longleftrightarrow> is_cont b \<and> (n = 0xE0 \<longrightarrow> 0xA0 \<le> unat b) \<and> (n = 0xED \<longrightarrow> unat b < 0xA0) \<and>
     (n = 0xF0 \<longrightarrow> 0x90 \<le> unat b) \<and> (n = 0xF4 \<longrightarrow> unat b < 0x90)"

fun utf8_replace :: "bytes \<Rightarrow> ustr" where
  "utf8_replace [] = []"
| "utf8_replace (b # bs) =
     (let n = unat b in
      if n < 0x80 then n # utf8_replace bs
      else if n < 0xC2 then 0xFFFD # utf8_replace bs
      else if n < 0xE0 then
        (case bs of
           [] \<Rightarrow> [0xFFFD]
         | b1 # r \<Rightarrow> if is_cont b1 then ((n - 0xC0) * 64 + cont_val b1) # utf8_replace r else 0xFFFD # utf8_replace bs)
      else if n < 0xF0 then
        (case bs of
           [] \<Rightarrow> [0xFFFD]
         | b1 # r1 \<Rightarrow>
             if \<not> utf8_second_ok n b1 then 0xFFFD # utf8_replace bs
             else (case r1 of
                [] \<Rightarrow> [0xFFFD]
              | b2 # r2 \<Rightarrow>
                  if is_cont b2 then ((n - 0xE0) * 4096 + cont_val b1 * 64 + cont_val b2) # utf8_replace r2
                  else 0xFFFD # utf8_replace r1))
      else if n < 0xF5 then
        (case bs of
           [] \<Rightarrow> [0xFFFD]
         | b1 # r1 \<Rightarrow>
             if \<not> utf8_second_ok n b1 then 0xFFFD # utf8_replace bs
             else (case r1 of
                [] \<Rightarrow> [0xFFFD]
              | b2 # r2 \<Rightarrow>
                  if \<not> is_cont b2 then 0xFFFD # utf8_replace r1
                  else (case r2 of
                     [] \<Rightarrow> [0xFFFD]
                   | b3 # r3 \<Rightarrow>
                       if is_cont b3
                       then ((n - 0xF0) * 262144 + cont_val b1 * 4096 + cont_val b2 * 64 + cont_val b3) # utf8_replace r3
                       else 0xFFFD # utf8_replace r2)))
      else 0xFFFD # utf8_replace bs)"

declare utf8_replace.simps(2) [simp del]

lemma cont_val_bounds: "is_cont b \<Longrightarrow> unat b = 0x80 + cont_val b \<and> cont_val b < 64"
  by (auto simp: is_cont_def cont_val_def)

lemma second_ok_3:
  assumes "0xE0 \<le> n" and "n < 0xF0" and "is_cont b1" and "is_cont b2"
    and "0x800 \<le> (n - 0xE0) * 4096 + cont_val b1 * 64 + cont_val b2"
    and "\<not> (0xD800 \<le> (n - 0xE0) * 4096 + cont_val b1 * 64 + cont_val b2 \<and> (n - 0xE0) * 4096 + cont_val b1 * 64 + cont_val b2 \<le> 0xDFFF)"
  shows "utf8_second_ok n b1"
  using assms cont_val_bounds [OF assms(3)] cont_val_bounds [OF assms(4)] by (auto simp: utf8_second_ok_def)

lemma second_ok_4:
  assumes "0xF0 \<le> n" and "n < 0xF5" and "is_cont b1" and "is_cont b2" and "is_cont b3"
    and "0x10000 \<le> (n - 0xF0) * 262144 + cont_val b1 * 4096 + cont_val b2 * 64 + cont_val b3"
    and "(n - 0xF0) * 262144 + cont_val b1 * 4096 + cont_val b2 * 64 + cont_val b3 < 0x110000"
  shows "utf8_second_ok n b1"
  using assms cont_val_bounds [OF assms(3)] cont_val_bounds [OF assms(4)] cont_val_bounds [OF assms(5)]
  by (auto simp: utf8_second_ok_def)

lemma utf8_replace_decode [codec_simps]: "utf8_decode bs = Some s \<Longrightarrow> utf8_replace bs = s"
proof (induction bs arbitrary: s rule: length_induct)
  case (1 bs0)
  show ?case
  proof (cases bs0)
    case Nil
    with "1.prems" show ?thesis by simp
  next
    case (Cons b bs)
    have dec: "utf8_decode (b # bs) = Some s" using "1.prems" Cons by simp
    have IH: "utf8_replace r = t" if "length r \<le> length bs" "utf8_decode r = Some t" for r t
      using "1.IH" that Cons by auto
    have n: "unat b < 0x80 \<or> (0xC2 \<le> unat b \<and> unat b < 0xE0) \<or> (0xE0 \<le> unat b \<and> unat b < 0xF0) \<or> (0xF0 \<le> unat b \<and> unat b < 0xF5)"
      using dec by (auto simp: utf8_decode.simps(2) Let_def split: if_splits)
    consider "unat b < 0x80" | "0xC2 \<le> unat b" "unat b < 0xE0" | "0xE0 \<le> unat b" "unat b < 0xF0" | "0xF0 \<le> unat b" "unat b < 0xF5"
      using n by blast
    then have "utf8_replace (b # bs) = s"
    proof cases
      case 1
      then obtain t where "utf8_decode bs = Some t" "s = unat b # t" using dec by (auto simp: utf8_decode.simps(2))
      with IH [of bs t] 1 show ?thesis by (simp add: utf8_replace.simps(2))
    next
      case 2
      then obtain b1 r t where "bs = b1 # r" "is_cont b1" "utf8_decode r = Some t" "s = ((unat b - 0xC0) * 64 + cont_val b1) # t"
        using dec by (auto simp: utf8_decode.simps(2) Let_def split: list.splits if_splits)
      with IH [of r t] 2 show ?thesis by (simp add: utf8_replace.simps(2) Let_def)
    next
      case 3
      then obtain b1 b2 r t where bs: "bs = b1 # b2 # r" "utf8_decode r = Some t" and ok: "is_cont b1" "is_cont b2"
        "0x800 \<le> (unat b - 0xE0) * 4096 + cont_val b1 * 64 + cont_val b2"
        "\<not> (0xD800 \<le> (unat b - 0xE0) * 4096 + cont_val b1 * 64 + cont_val b2 \<and> (unat b - 0xE0) * 4096 + cont_val b1 * 64 + cont_val b2 \<le> 0xDFFF)"
        and s: "s = ((unat b - 0xE0) * 4096 + cont_val b1 * 64 + cont_val b2) # t"
        using dec by (auto simp: utf8_decode.simps(2) Let_def split: list.splits if_splits)
      show ?thesis using second_ok_3 [OF 3 ok] IH [of r t] 3 ok(1,2) bs by (simp add: s utf8_replace.simps(2) Let_def)
    next
      case 4
      then obtain b1 b2 b3 r t where bs: "bs = b1 # b2 # b3 # r" "utf8_decode r = Some t" and ok: "is_cont b1" "is_cont b2" "is_cont b3"
        "0x10000 \<le> (unat b - 0xF0) * 262144 + cont_val b1 * 4096 + cont_val b2 * 64 + cont_val b3"
        "(unat b - 0xF0) * 262144 + cont_val b1 * 4096 + cont_val b2 * 64 + cont_val b3 < 0x110000"
        and s: "s = ((unat b - 0xF0) * 262144 + cont_val b1 * 4096 + cont_val b2 * 64 + cont_val b3) # t"
        using dec by (auto simp: utf8_decode.simps(2) Let_def split: list.splits if_splits)
      show ?thesis using second_ok_4 [OF 4 ok] IH [of r t] 4 ok(1-3) bs by (simp add: s utf8_replace.simps(2) Let_def)
    qed
    then show ?thesis using Cons by simp
  qed
qed

end
