(* ===== verification/Binary_Codec.thy ===== *)
theory Binary_Codec
  imports Py_Text
begin

text \<open>
  \<open>core/codec/binary.py\<close>: the little-endian \<open>BinaryWriter\<close> and \<open>BinaryReader\<close>. A
  writer is the bytes written so far; a reader is the data with a position. Every
  operation returns the new writer or reader, or the exception it raises. The locale
  \<open>wire_codec\<close> is the contract between a value's encoder and its decoder: whatever
  follows the encoding is left unread.
\<close>

section \<open>BinaryWriter\<close>

type_synonym writer = bytes

definition write_u8 :: "int \<Rightarrow> writer \<Rightarrow> writer res" where
  "write_u8 v w = (if 0 \<le> v \<and> v \<le> 0xFF then Inr (w @ [word_of_int v]) else Inl ValueError)"

definition write_u16 :: "int \<Rightarrow> writer \<Rightarrow> writer res" where
  "write_u16 v w = (if 0 \<le> v \<and> v \<le> 0xFFFF then Inr (w @ le_enc 2 (nat v)) else Inl ValueError)"

definition write_u32 :: "int \<Rightarrow> writer \<Rightarrow> writer res" where
  "write_u32 v w = (if 0 \<le> v \<and> v \<le> 0xFFFFFFFF then Inr (w @ le_enc 4 (nat v)) else Inl ValueError)"

definition write_u64 :: "int \<Rightarrow> writer \<Rightarrow> writer res" where
  "write_u64 v w =
     (if 0 \<le> v \<and> v \<le> 0xFFFFFFFFFFFFFFFF then Inr (w @ le_enc 8 (nat v)) else Inl ValueError)"

definition write_bytes :: "bytes \<Rightarrow> writer \<Rightarrow> writer res" where
  "write_bytes d w = Inr (w @ d)"

definition write_hash16 :: "bytes \<Rightarrow> writer \<Rightarrow> writer res" where
  "write_hash16 d w = (if length d = 16 then Inr (w @ d) else Inl ValueError)"

definition write_string_utf8 :: "ustr \<Rightarrow> writer \<Rightarrow> writer res" where
  "write_string_utf8 s w =
     (case utf8_encode s of None \<Rightarrow> Inl UnicodeError
      | Some e \<Rightarrow> bindE (write_u16 (int (length e)) w) (\<lambda>w'. Inr (w' @ e)))"

text \<open>\<open>str.encode("latin-1")\<close> rejects a code point above 255.\<close>

definition latin1_encode :: "ustr \<Rightarrow> bytes option" where
  "latin1_encode s = (if \<forall>c \<in> set s. c < 256 then Some (map word_of_nat s) else None)"

definition write_string_latin1 :: "ustr \<Rightarrow> writer \<Rightarrow> writer res" where
  "write_string_latin1 s w =
     (case latin1_encode s of None \<Rightarrow> Inl UnicodeError
      | Some e \<Rightarrow> bindE (write_u16 (int (length e)) w) (\<lambda>w'. Inr (w' @ e)))"

definition write_raw_string :: "ustr \<Rightarrow> writer \<Rightarrow> writer res" where
  "write_raw_string s w =
     (case utf8_encode s of None \<Rightarrow> Inl UnicodeError | Some e \<Rightarrow> Inr (w @ e))"

section \<open>BinaryReader\<close>

record reader =
  rd_data :: bytes
  rd_pos :: nat

definition from_bytes :: "bytes \<Rightarrow> reader" where
  "from_bytes d = \<lparr>rd_data = d, rd_pos = 0\<rparr>"

definition remaining :: "reader \<Rightarrow> int" where
  "remaining r = int (length (rd_data r)) - int (rd_pos r)"

definition require :: "nat \<Rightarrow> reader \<Rightarrow> unit res" where
  "require n r = (if rd_pos r + n > length (rd_data r) then Inl CodecError else Inr ())"

definition advance :: "nat \<Rightarrow> reader \<Rightarrow> reader" where
  "advance n r = r\<lparr>rd_pos := rd_pos r + n\<rparr>"

definition read_u8 :: "reader \<Rightarrow> (nat \<times> reader) res" where
  "read_u8 r = bindE (require 1 r) (\<lambda>_. Inr (unat (rd_data r ! rd_pos r), advance 1 r))"

definition read_u16 :: "reader \<Rightarrow> (nat \<times> reader) res" where
  "read_u16 r = bindE (require 2 r)
     (\<lambda>_. Inr (le_dec (py_slice (rd_pos r) (rd_pos r + 2) (rd_data r)), advance 2 r))"

definition read_u32 :: "reader \<Rightarrow> (nat \<times> reader) res" where
  "read_u32 r = bindE (require 4 r)
     (\<lambda>_. Inr (le_dec (py_slice (rd_pos r) (rd_pos r + 4) (rd_data r)), advance 4 r))"

definition read_u64 :: "reader \<Rightarrow> (nat \<times> reader) res" where
  "read_u64 r = bindE (require 8 r)
     (\<lambda>_. Inr (le_dec (py_slice (rd_pos r) (rd_pos r + 8) (rd_data r)), advance 8 r))"

definition read_bytes :: "int \<Rightarrow> reader \<Rightarrow> (bytes \<times> reader) res" where
  "read_bytes n r =
     (if n < 0 then Inl ValueError
      else bindE (require (nat n) r)
        (\<lambda>_. Inr (py_slice (rd_pos r) (rd_pos r + nat n) (rd_data r), advance (nat n) r)))"

definition read_bytes_remaining :: "reader \<Rightarrow> bytes \<times> reader" where
  "read_bytes_remaining r = (drop (rd_pos r) (rd_data r), r\<lparr>rd_pos := length (rd_data r)\<rparr>)"

definition read_hash16 :: "reader \<Rightarrow> (bytes \<times> reader) res" where
  "read_hash16 r = read_bytes 16 r"

definition read_string_utf8 :: "reader \<Rightarrow> (ustr \<times> reader) res" where
  "read_string_utf8 r =
     bindE (read_u16 r) (\<lambda>(n, r1).
     bindE (read_bytes (int n) r1) (\<lambda>(raw, r2).
       case utf8_decode raw of None \<Rightarrow> Inl UnicodeError | Some s \<Rightarrow> Inr (s, r2)))"

definition read_string_latin1 :: "reader \<Rightarrow> (ustr \<times> reader) res" where
  "read_string_latin1 r =
     bindE (read_u16 r) (\<lambda>(n, r1).
     bindE (read_bytes (int n) r1) (\<lambda>(raw, r2). Inr (latin1_decode raw, r2)))"

definition read_raw_string :: "int \<Rightarrow> reader \<Rightarrow> (ustr \<times> reader) res" where
  "read_raw_string n r =
     bindE (read_bytes n r) (\<lambda>(raw, r1).
       case utf8_decode raw of None \<Rightarrow> Inl UnicodeError | Some s \<Rightarrow> Inr (s, r1))"

section \<open>The unread bytes of a reader\<close>

definition rest :: "reader \<Rightarrow> bytes" where
  "rest r = drop (rd_pos r) (rd_data r)"

definition reader_ok :: "reader \<Rightarrow> bool" where
  "reader_ok r \<longleftrightarrow> rd_pos r \<le> length (rd_data r)"

lemma rest_from_bytes [simp]: "rest (from_bytes d) = d"
  by (simp add: rest_def from_bytes_def)

lemma rest_advance: "rest (advance n r) = drop n (rest r)"
  by (simp add: rest_def advance_def add.commute)

lemma length_rest: "length (rest r) = length (rd_data r) - rd_pos r"
  by (simp add: rest_def)

lemma slice_rest: "py_slice (rd_pos r) (rd_pos r + n) (rd_data r) = take n (rest r)"
  by (simp add: py_slice_def rest_def)

lemma require_iff:
  "0 < n \<or> reader_ok r \<Longrightarrow> require n r = (if n \<le> length (rest r) then Inr () else Inl CodecError)"
  by (auto simp: require_def length_rest reader_ok_def)

lemma require_rest [simp]: "n \<le> length (rest r) \<Longrightarrow> 0 < n \<Longrightarrow> require n r = Inr ()"
  by (simp add: require_iff)

lemma read_u8_rest: "rest r = b # bs \<Longrightarrow> read_u8 r = Inr (unat b, advance 1 r)"
proof -
  assume a: "rest r = b # bs"
  then have l: "rd_pos r < length (rd_data r)" by (metis length_rest list.size(3) nat_neq_iff
      not_less_zero zero_less_diff length_Cons Zero_not_Suc diff_is_0_eq' linorder_not_less)
  from a have "rd_data r ! rd_pos r = b" using l by (simp add: rest_def Cons_nth_drop_Suc [symmetric])
  with a show ?thesis by (simp add: read_u8_def)
qed

lemma read_u16_rest: "rest r = e @ t \<Longrightarrow> length e = 2 \<Longrightarrow> read_u16 r = Inr (le_dec e, advance 2 r)"
  by (simp add: read_u16_def slice_rest del: add_2_eq_Suc')

lemma read_u32_rest: "rest r = e @ t \<Longrightarrow> length e = 4 \<Longrightarrow> read_u32 r = Inr (le_dec e, advance 4 r)"
  by (simp add: read_u32_def slice_rest del: add_2_eq_Suc')

lemma read_u64_rest: "rest r = e @ t \<Longrightarrow> length e = 8 \<Longrightarrow> read_u64 r = Inr (le_dec e, advance 8 r)"
  by (simp add: read_u64_def slice_rest del: add_2_eq_Suc')

lemma read_bytes_rest:
  "rest r = e @ t \<Longrightarrow> reader_ok r \<Longrightarrow> read_bytes (int (length e)) r = Inr (e, advance (length e) r)"
  by (simp add: read_bytes_def slice_rest require_iff)

lemma reader_ok_advance: "reader_ok r \<Longrightarrow> n \<le> length (rest r) \<Longrightarrow> reader_ok (advance n r)"
  by (auto simp: reader_ok_def advance_def length_rest)

lemma reader_ok_from_bytes [simp]: "reader_ok (from_bytes d)"
  by (simp add: reader_ok_def from_bytes_def)

lemmas read_rest = read_u8_rest read_u16_rest read_u32_rest read_u64_rest read_bytes_rest

lemma read_u8_progress: "read_u8 r = Inr (v, r') \<Longrightarrow> r' = advance 1 r \<and> 1 \<le> length (rest r) \<and> v < 256"
  using unsigned_less [where ?'a = nat and ?'b = 8]
  by (auto simp: read_u8_def require_iff bindE_eq_Inr_conv split: if_splits)

lemma read_u16_progress:
  "read_u16 r = Inr (v, r') \<Longrightarrow> r' = advance 2 r \<and> 2 \<le> length (rest r) \<and> v < 65536"
  using le_dec_bound [of "take 2 (rest r)"]
  by (auto simp: read_u16_def require_iff slice_rest bindE_eq_Inr_conv min_def simp del: add_2_eq_Suc'
      split: if_splits)

lemma read_u32_progress:
  "read_u32 r = Inr (v, r') \<Longrightarrow> r' = advance 4 r \<and> 4 \<le> length (rest r) \<and> v < 2 ^ 32"
  using le_dec_bound [of "take 4 (rest r)"]
  by (auto simp: read_u32_def require_iff slice_rest bindE_eq_Inr_conv min_def split: if_splits)

lemma read_u64_progress:
  "read_u64 r = Inr (v, r') \<Longrightarrow> r' = advance 8 r \<and> 8 \<le> length (rest r)"
  by (auto simp: read_u64_def require_iff bindE_eq_Inr_conv split: if_splits)

lemma read_bytes_progress:
  "read_bytes n r = Inr (v, r') \<Longrightarrow> reader_ok r \<Longrightarrow>
   r' = advance (nat n) r \<and> nat n \<le> length (rest r) \<and> v = take (nat n) (rest r)"
  by (auto simp: read_bytes_def require_iff bindE_eq_Inr_conv slice_rest split: if_splits)

lemmas read_progress = read_u8_progress read_u16_progress read_u32_progress read_u64_progress
  read_bytes_progress

text \<open>
  What one read promises the next: the data are the same, the position moved by
  \<open>k\<close> at least, and it is still inside the data.
\<close>

definition consumed :: "nat \<Rightarrow> reader \<Rightarrow> reader \<Rightarrow> bool" where
  "consumed k r r' \<longleftrightarrow> rd_data r' = rd_data r \<and> rd_pos r + k \<le> rd_pos r' \<and> reader_ok r'"

lemma consumed_refl: "reader_ok r \<Longrightarrow> consumed 0 r r"
  by (simp add: consumed_def)

lemma consumed_advance: "reader_ok r \<Longrightarrow> n \<le> length (rest r) \<Longrightarrow> k \<le> n \<Longrightarrow> consumed k r (advance n r)"
  by (auto simp: consumed_def reader_ok_def advance_def length_rest)

lemma consumed_trans: "consumed k r r' \<Longrightarrow> consumed l r' r'' \<Longrightarrow> consumed (k + l) r r''"
  by (auto simp: consumed_def)

lemma consumed_mono: "consumed k r r' \<Longrightarrow> l \<le> k \<Longrightarrow> consumed l r r'"
  by (auto simp: consumed_def)

lemma consumed_ok: "consumed k r r' \<Longrightarrow> reader_ok r'"
  by (simp add: consumed_def)

section \<open>Readers that read back an encoding\<close>

text \<open>
  \<open>reads get e x\<close>: on any reader whose unread bytes begin with \<open>e\<close>, \<open>get\<close> returns
  \<open>x\<close> and stops right behind \<open>e\<close>. The rules compose along the binds of a parser.
\<close>

definition reads :: "(reader \<Rightarrow> ('a \<times> reader) res) \<Rightarrow> bytes \<Rightarrow> 'a \<Rightarrow> bool" where
  "reads get e x \<longleftrightarrow>
     (\<forall>r t. reader_ok r \<longrightarrow> rest r = e @ t \<longrightarrow> get r = Inr (x, advance (length e) r))"

lemma advance_advance [simp]: "advance m (advance n r) = advance (n + m) r"
  by (simp add: advance_def add.assoc)

lemma advance_0 [simp]: "advance 0 r = r"
  by (simp add: advance_def)

lemma readsD: "reads get e x \<Longrightarrow> reader_ok r \<Longrightarrow> rest r = e @ t \<Longrightarrow> get r = Inr (x, advance (length e) r)"
  by (simp add: reads_def)

lemma reads_return: "reads (\<lambda>r. Inr (x, r)) [] x"
  by (simp add: reads_def)

lemma reads_bind:
  assumes "reads g e1 x" and "reads (h x) e2 y"
  shows "reads (\<lambda>r. bindE (g r) (\<lambda>(x, r1). h x r1)) (e1 @ e2) y"
  unfolding reads_def
proof (intro allI impI)
  fix r t
  assume ok: "reader_ok r" and v: "rest r = (e1 @ e2) @ t"
  from v have g: "g r = Inr (x, advance (length e1) r)"
    using assms(1) ok by (simp add: reads_def)
  have "reader_ok (advance (length e1) r)"
    using ok v by (intro reader_ok_advance) simp_all
  moreover have "rest (advance (length e1) r) = e2 @ t"
    using v by (simp add: rest_advance)
  ultimately have "h x (advance (length e1) r) = Inr (y, advance (length e2) (advance (length e1) r))"
    using assms(2) by (simp add: reads_def)
  with g show "bindE (g r) (\<lambda>(x, r1). h x r1) = Inr (y, advance (length (e1 @ e2)) r)"
    by simp
qed

lemma reads_map:
  assumes "reads g e x" shows "reads (\<lambda>r. bindE (g r) (\<lambda>(x, r1). Inr (f x, r1))) e (f x)"
  using reads_bind [OF assms reads_return, of f] by simp

lemma reads_bind_nil:
  assumes "reads g e x" and "reads (h x) [] y"
  shows "reads (\<lambda>r. bindE (g r) (\<lambda>(x, r1). h x r1)) e y"
  using reads_bind [of g e x h "[]" y] assms by simp

lemma reads_u8: "v < 256 \<Longrightarrow> reads read_u8 [word_of_nat v] v"
  by (auto simp: reads_def read_u8_rest unat_small simp del: of_nat_numeral)

lemma reads_u16: "v < 65536 \<Longrightarrow> reads read_u16 (le_enc 2 v) v"
  by (auto simp: reads_def read_u16_rest)

lemma reads_u32: "v < 2 ^ 32 \<Longrightarrow> reads read_u32 (le_enc 4 v) v"
  by (auto simp: reads_def read_u32_rest)

lemma reads_u64: "v < 2 ^ 64 \<Longrightarrow> reads read_u64 (le_enc 8 v) v"
  by (auto simp: reads_def read_u64_rest)

lemma reads_bytes: "length d = n \<Longrightarrow> reads (read_bytes (int n)) d d"
  by (auto simp: reads_def read_bytes_rest)

lemma reads_hash16: "length d = 16 \<Longrightarrow> reads read_hash16 d d"
  using reads_bytes [of d 16] by (simp add: read_hash16_def reads_def)

lemmas reads_prims = reads_u8 reads_u16 reads_u32 reads_u64 reads_bytes reads_hash16

lemma write_u8_Inr:
  "write_u8 v w = Inr w' \<longleftrightarrow> 0 \<le> v \<and> v < 256 \<and> w' = w @ [word_of_nat (nat v)]"
  by (auto simp: write_u8_def)

lemma write_u16_Inr: "write_u16 v w = Inr w' \<longleftrightarrow> 0 \<le> v \<and> v < 65536 \<and> w' = w @ le_enc 2 (nat v)"
  by (auto simp: write_u16_def)

lemma write_u32_Inr: "write_u32 v w = Inr w' \<longleftrightarrow> 0 \<le> v \<and> v < 2 ^ 32 \<and> w' = w @ le_enc 4 (nat v)"
  by (auto simp: write_u32_def)

lemma write_u64_Inr: "write_u64 v w = Inr w' \<longleftrightarrow> 0 \<le> v \<and> v < 2 ^ 64 \<and> w' = w @ le_enc 8 (nat v)"
  by (auto simp: write_u64_def)

lemma write_hash16_Inr: "write_hash16 d w = Inr w' \<longleftrightarrow> length d = 16 \<and> w' = w @ d"
  by (auto simp: write_hash16_def)

lemmas write_Inr = write_u8_Inr write_u16_Inr write_u32_Inr write_u64_Inr write_hash16_Inr

section \<open>Encoders and decoders of one value\<close>

text \<open>
  \<open>read_n\<close> is the loop \<open>for _ in range(n): xs.append(read(reader))\<close> the parsers use.
\<close>

fun read_n :: "('s \<Rightarrow> ('a \<times> 's) res) \<Rightarrow> nat \<Rightarrow> 's \<Rightarrow> ('a list \<times> 's) res" where
  "read_n get 0 s = Inr ([], s)"
| "read_n get (Suc n) s =
     bindE (get s) (\<lambda>(x, s1). bindE (read_n get n s1) (\<lambda>(xs, s2). Inr (x # xs, s2)))"

locale wire_codec =
  fixes put :: "'a \<Rightarrow> bytes"
    and get :: "'s \<Rightarrow> ('b \<times> 's) res"
    and canon :: "'a \<Rightarrow> 'b"
    and view :: "'s \<Rightarrow> bytes"
    and valid :: "'s \<Rightarrow> bool"
    and ok :: "'a \<Rightarrow> bool"
  assumes get_put:
    "ok x \<Longrightarrow> valid s \<Longrightarrow> view s = put x @ t \<Longrightarrow>
     \<exists>s'. get s = Inr (canon x, s') \<and> valid s' \<and> view s' = t"
begin

lemma read_n_put:
  "list_all ok xs \<Longrightarrow> valid s \<Longrightarrow> view s = concat (map put xs) @ t \<Longrightarrow>
   \<exists>s'. read_n get (length xs) s = Inr (map canon xs, s') \<and> valid s' \<and> view s' = t"
proof (induction xs arbitrary: s)
  case Nil
  then show ?case by simp
next
  case (Cons x xs)
  from Cons.prems have x: "ok x" and xs: "list_all ok xs"
    and v: "view s = put x @ (concat (map put xs) @ t)" by simp_all
  from get_put [OF x Cons.prems(2) v] obtain s1
    where g: "get s = Inr (canon x, s1)" "valid s1" "view s1 = concat (map put xs) @ t"
    by blast
  from Cons.IH [OF xs g(2,3)] g(1) show ?case by force
qed

end

end
