(* ===== verification/Tag_Codec.thy ===== *)
theory Tag_Codec
  imports Binary_Codec
begin

unbundle bit_operations_syntax

text \<open>
  \<open>core/codec/tags.py\<close>: the new-format ED2K tag writer and reader. A tag value is one of
  the Python types the codec tells apart with \<open>isinstance\<close>. The binary32 conversions of
  \<open>struct.pack("<f", float(v))\<close> and \<open>struct.unpack("<f", b)\<close> are arguments
  (\<open>pack_f\<close>, \<open>unpack_f\<close>) of the functions that reach them.
\<close>

section \<open>Constants (core/codec/constants.py)\<close>

definition EDONKEY :: int where "EDONKEY = 0xE3"
definition EMULE :: int where "EMULE = 0xC5"
definition PACKED :: int where "PACKED = 0xD4"
definition KAD :: int where "KAD = 0xE4"
definition KADEMLIAPACKED :: int where "KADEMLIAPACKED = 0xE5"

definition PARTSIZE :: nat where "PARTSIZE = 9728000"
definition BLOCKSIZE :: nat where "BLOCKSIZE = 184320"

definition HASH16 :: int where "HASH16 = 0x01"
definition STRING :: int where "STRING = 0x02"
definition UINT32 :: int where "UINT32 = 0x03"
definition FLOAT32 :: int where "FLOAT32 = 0x04"
definition BOOL :: int where "BOOL = 0x05"
definition BOOLARRAY :: int where "BOOLARRAY = 0x06"
definition BLOB :: int where "BLOB = 0x07"
definition UINT16 :: int where "UINT16 = 0x08"
definition UINT8 :: int where "UINT8 = 0x09"
definition BSOB :: int where "BSOB = 0x0A"
definition UINT64 :: int where "UINT64 = 0x0B"
definition STR1 :: int where "STR1 = 0x11"
definition STR16 :: int where "STR16 = 0x20"

lemmas tag_consts = HASH16_def STRING_def UINT32_def FLOAT32_def BOOL_def BOOLARRAY_def BLOB_def
  UINT16_def UINT8_def BSOB_def UINT64_def STR1_def STR16_def

section \<open>Tags\<close>

datatype 'f tag_value = VInt int | VBool bool | VStr ustr | VBytes bytes | VFloat 'f | VNone

record 'f ed2k_tag =
  t_name :: "ustr option"
  t_name_id :: "int option"
  t_type :: int
  t_value :: "'f tag_value"

text \<open>The dataclass constructor with the checks of \<open>__post_init__\<close>.\<close>

definition mk_tag :: "ustr option \<Rightarrow> int option \<Rightarrow> int \<Rightarrow> 'f tag_value \<Rightarrow> 'f ed2k_tag res" where
  "mk_tag nm nid ty v =
     (if (nm = None) = (nid = None) then Inl TagError
      else if nid \<noteq> None \<and> \<not> (0 \<le> the nid \<and> the nid \<le> 0xFF) then Inl TagError
      else Inr \<lparr>t_name = nm, t_name_id = nid, t_type = ty, t_value = v\<rparr>)"

definition tag_ok :: "'f ed2k_tag \<Rightarrow> bool" where
  "tag_ok t \<longleftrightarrow> mk_tag (t_name t) (t_name_id t) (t_type t) (t_value t) = Inr t"

section \<open>Writing\<close>

fun encoded_string :: "'f tag_value \<Rightarrow> bytes res" where
  "encoded_string (VStr s) = (case utf8_encode s of None \<Rightarrow> Inl TagError | Some e \<Rightarrow> Inr e)"
| "encoded_string (VBytes b) = Inr b"
| "encoded_string _ = Inl TagError"

fun narrow_int :: "'f tag_value \<Rightarrow> int res" where
  "narrow_int (VInt v) =
     (if 0 \<le> v \<and> v \<le> 0xFF then Inr UINT8
      else if v \<le> 0xFFFF then Inr UINT16
      else if v \<le> 0xFFFFFFFF then Inr UINT32
      else if v \<le> 0xFFFFFFFFFFFFFFFF then Inr UINT64
      else Inl TagError)"
| "narrow_int _ = Inl TagError"

definition string_wire_type :: "bytes \<Rightarrow> int" where
  "string_wire_type raw =
     (if 1 \<le> length raw \<and> length raw \<le> 16 then STR1 + int (length raw) - 1 else STRING)"

definition write_string_value :: "bytes \<Rightarrow> int \<Rightarrow> writer \<Rightarrow> writer res" where
  "write_string_value raw wt w =
     (if STR1 \<le> wt \<and> wt \<le> STR16 then write_bytes raw w
      else bindE (write_u16 (int (length raw)) w) (write_bytes raw))"

text \<open>Python's \<open>bytes(v)\<close>: a copy of a bytes object, that many zero bytes of an int.\<close>

fun py_bytes :: "'f tag_value \<Rightarrow> bytes res" where
  "py_bytes (VBytes b) = Inr b"
| "py_bytes (VInt n) = (if n < 0 then Inl ValueError else Inr (replicate (nat n) 0))"
| "py_bytes (VBool b) = Inr (replicate (if b then 1 else 0) 0)"
| "py_bytes _ = Inl TypeError"

definition is_uint_type :: "int \<Rightarrow> bool" where
  "is_uint_type wt \<longleftrightarrow> wt = UINT8 \<or> wt = UINT16 \<or> wt = UINT32 \<or> wt = UINT64"

definition is_str_type :: "int \<Rightarrow> bool" where
  "is_str_type wt \<longleftrightarrow> wt = STRING \<or> (STR1 \<le> wt \<and> wt \<le> STR16)"

fun write_uint_value :: "'f tag_value \<Rightarrow> int \<Rightarrow> writer \<Rightarrow> writer res" where
  "write_uint_value (VInt v) wt w =
     (if wt = UINT8 then write_u8 v w
      else if wt = UINT16 then write_u16 v w
      else if wt = UINT32 then write_u32 v w
      else write_u64 v w)"
| "write_uint_value _ wt w = Inl TagError"

fun write_blob_value :: "'f tag_value \<Rightarrow> writer \<Rightarrow> writer res" where
  "write_blob_value (VBytes raw) w =
     (if length raw > 0xFFFFFFFF then Inl TagError
      else bindE (write_u32 (int (length raw)) w) (write_bytes raw))"
| "write_blob_value _ w = Inl TagError"

fun write_bsob_value :: "'f tag_value \<Rightarrow> writer \<Rightarrow> writer res" where
  "write_bsob_value (VBytes raw) w =
     (if length raw > 0xFF then Inl TagError
      else bindE (write_u8 (int (length raw)) w) (write_bytes raw))"
| "write_bsob_value _ w = Inl TagError"

definition write_value ::
    "('f tag_value \<Rightarrow> bytes option) \<Rightarrow> 'f tag_value \<Rightarrow> int \<Rightarrow> writer \<Rightarrow> writer res" where
  "write_value pack_f v wt w =
     (if is_uint_type wt then write_uint_value v wt w
      else if is_str_type wt then bindE (encoded_string v) (\<lambda>raw. write_string_value raw wt w)
      else if wt = FLOAT32 then
        (case pack_f v of None \<Rightarrow> Inl TagError | Some b \<Rightarrow> write_bytes b w)
      else if wt = HASH16 then bindE (py_bytes v) (\<lambda>raw. write_hash16 raw w)
      else if wt = BOOL then
        (case v of VBool b \<Rightarrow> write_u8 (if b then 1 else 0) w | _ \<Rightarrow> Inl TagError)
      else if wt = BLOB then write_blob_value v w
      else if wt = BSOB then write_bsob_value v w
      else Inl TagError)"

definition wire_type_of :: "'f ed2k_tag \<Rightarrow> int res" where
  "wire_type_of t =
     (if is_str_type (t_type t) then
        bindE (encoded_string (t_value t)) (\<lambda>raw. Inr (string_wire_type raw))
      else if is_uint_type (t_type t) then
        (if t_type t = UINT32 then narrow_int (t_value t)
         else bindE (narrow_int (t_value t)) (\<lambda>_. Inr (t_type t)))
      else Inr (t_type t))"

definition write_tag_header :: "'f ed2k_tag \<Rightarrow> int \<Rightarrow> writer \<Rightarrow> writer res" where
  "write_tag_header t wt w =
     (case t_name_id t of
        Some nid \<Rightarrow> bindE (write_u8 (wt OR 0x80) w) (write_u8 nid)
      | None \<Rightarrow>
          (case utf8_encode (the (t_name t)) of
             None \<Rightarrow> Inl UnicodeError
           | Some nm \<Rightarrow>
               (if length nm > 0xFFFF then Inl TagError
                else bindE (write_u8 wt w) (\<lambda>w1.
                     bindE (write_u16 (int (length nm)) w1) (write_bytes nm)))))"

definition write_new_tag ::
    "('f tag_value \<Rightarrow> bytes option) \<Rightarrow> 'f ed2k_tag \<Rightarrow> writer \<Rightarrow> writer res" where
  "write_new_tag pack_f t w =
     bindE (wire_type_of t) (\<lambda>wt.
     bindE (write_tag_header t wt w) (\<lambda>w1.
     write_value pack_f (t_value t) wt w1))"

section \<open>Reading\<close>

definition read_identifier :: "reader \<Rightarrow> nat \<Rightarrow> ((ustr option \<times> int option) \<times> reader) res" where
  "read_identifier r type_byte =
     (if type_byte AND 0x80 \<noteq> 0 then
        bindE (read_u8 r) (\<lambda>(i, r1). Inr ((None, Some (int i)), r1))
      else bindE (read_u16 r) (\<lambda>(n, r1).
        if n = 1 then bindE (read_u8 r1) (\<lambda>(i, r2). Inr ((None, Some (int i)), r2))
        else bindE (read_bytes (int n) r1) (\<lambda>(raw, r2).
          case utf8_decode raw of None \<Rightarrow> Inl TagError | Some s \<Rightarrow> Inr ((Some s, None), r2))))"

definition decode_text :: "bytes \<Rightarrow> ustr" where
  "decode_text raw = (case utf8_decode raw of Some s \<Rightarrow> s | None \<Rightarrow> latin1_decode raw)"

definition read_string_value :: "reader \<Rightarrow> int \<Rightarrow> (ustr \<times> reader) res" where
  "read_string_value r ty =
     bindE (if STR1 \<le> ty \<and> ty \<le> STR16 then read_bytes (ty - STR1 + 1) r
            else bindE (read_u16 r) (\<lambda>(n, r1). read_bytes (int n) r1))
       (\<lambda>(raw, r2). Inr (decode_text raw, r2))"

definition read_value :: "(bytes \<Rightarrow> 'f) \<Rightarrow> reader \<Rightarrow> int \<Rightarrow> ('f tag_value \<times> reader) res" where
  "read_value unpack_f r ty =
     (if is_str_type ty then
        bindE (read_string_value r ty) (\<lambda>(s, r1). Inr (VStr s, r1))
      else if ty = HASH16 then bindE (read_hash16 r) (\<lambda>(h, r1). Inr (VBytes h, r1))
      else if ty = FLOAT32 then
        bindE (read_bytes 4 r) (\<lambda>(b, r1). Inr (VFloat (unpack_f b), r1))
      else if ty = BOOL then bindE (read_u8 r) (\<lambda>(b, r1). Inr (VBool (b \<noteq> 0), r1))
      else if ty = UINT8 then bindE (read_u8 r) (\<lambda>(n, r1). Inr (VInt (int n), r1))
      else if ty = UINT16 then bindE (read_u16 r) (\<lambda>(n, r1). Inr (VInt (int n), r1))
      else if ty = UINT32 then bindE (read_u32 r) (\<lambda>(n, r1). Inr (VInt (int n), r1))
      else if ty = UINT64 then bindE (read_u64 r) (\<lambda>(n, r1). Inr (VInt (int n), r1))
      else if ty = BLOB then
        bindE (read_u32 r) (\<lambda>(n, r1). bindE (read_bytes (int n) r1) (\<lambda>(b, r2). Inr (VBytes b, r2)))
      else if ty = BSOB then
        bindE (read_u8 r) (\<lambda>(n, r1). bindE (read_bytes (int n) r1) (\<lambda>(b, r2). Inr (VBytes b, r2)))
      else if ty = BOOLARRAY then
        bindE (read_u16 r) (\<lambda>(n, r1).
        bindE (read_bytes (int n div 8 + 1) r1) (\<lambda>(_, r2). Inr (VNone, r2)))
      else Inl TagError)"

definition normalized_type :: "int \<Rightarrow> int" where
  "normalized_type ty =
     (if (STR1 \<le> ty \<and> ty \<le> STR16) \<or> ty = UINT8 \<or> ty = UINT16
      then (if STR1 \<le> ty \<and> ty \<le> STR16 then STRING else UINT32)
      else ty)"

definition read_new_tag :: "(bytes \<Rightarrow> 'f) \<Rightarrow> reader \<Rightarrow> ('f ed2k_tag \<times> reader) res" where
  "read_new_tag unpack_f r =
     bindE (read_u8 r) (\<lambda>(type_byte, r1).
     let ty = int (if type_byte AND 0x80 \<noteq> 0 then type_byte AND 0x7F else type_byte) in
     bindE (read_identifier r1 type_byte) (\<lambda>((nm, nid), r2).
     bindE (read_value unpack_f r2 ty) (\<lambda>(v, r3).
     bindE (mk_tag nm nid (normalized_type ty) v) (\<lambda>t. Inr (t, r3)))))"

section \<open>Round trip\<close>

definition canon_name :: "'f ed2k_tag \<Rightarrow> ustr option \<times> int option" where
  "canon_name t =
     (case t_name_id t of
        Some i \<Rightarrow> (None, Some i)
      | None \<Rightarrow> (case utf8_encode (the (t_name t)) of
                 Some [b] \<Rightarrow> (None, Some (int (unat b)))
               | _ \<Rightarrow> (t_name t, None)))"

definition canon_type :: "'f ed2k_tag \<Rightarrow> int" where
  "canon_type t =
     (if is_str_type (t_type t) then STRING
      else if t_type t = UINT64 then UINT64
      else if t_type t = UINT32 then
        (case t_value t of VInt v \<Rightarrow> if v > 0xFFFFFFFF then UINT64 else UINT32 | _ \<Rightarrow> UINT32)
      else if is_uint_type (t_type t) then UINT32
      else t_type t)"

definition canon_value ::
    "('f tag_value \<Rightarrow> bytes option) \<Rightarrow> (bytes \<Rightarrow> 'f) \<Rightarrow> 'f ed2k_tag \<Rightarrow> 'f tag_value" where
  "canon_value pack_f unpack_f t =
     (if is_str_type (t_type t) then
        (case t_value t of VBytes raw \<Rightarrow> VStr (decode_text raw) | v \<Rightarrow> v)
      else if t_type t = HASH16 then
        (case py_bytes (t_value t) of Inr raw \<Rightarrow> VBytes raw | Inl _ \<Rightarrow> t_value t)
      else if t_type t = FLOAT32 then VFloat (unpack_f (the (pack_f (t_value t))))
      else t_value t)"

definition canon_tag ::
    "('f tag_value \<Rightarrow> bytes option) \<Rightarrow> (bytes \<Rightarrow> 'f) \<Rightarrow> 'f ed2k_tag \<Rightarrow> 'f ed2k_tag" where
  "canon_tag pack_f unpack_f t =
     \<lparr>t_name = fst (canon_name t), t_name_id = snd (canon_name t), t_type = canon_type t,
      t_value = canon_value pack_f unpack_f t\<rparr>"

lemma decode_text_utf8: "utf8_encode s = Some e \<Longrightarrow> decode_text e = s"
  by (simp add: decode_text_def utf8_decode_encode)

text \<open>The wire types a successful write uses.\<close>

definition wire_types :: "int list" where
  "wire_types = [HASH16, STRING, UINT32, FLOAT32, BOOL, BLOB, UINT16, UINT8, BSOB, UINT64]
     @ [0x11, 0x12, 0x13, 0x14, 0x15, 0x16, 0x17, 0x18, 0x19, 0x1A, 0x1B, 0x1C, 0x1D, 0x1E, 0x1F, 0x20]"

lemma is_str_type_cases: "is_str_type ty \<Longrightarrow> ty \<in> set wire_types"
proof -
  assume "is_str_type ty"
  then have "ty = 2 \<or> (17 \<le> ty \<and> ty \<le> 32)" by (simp add: is_str_type_def tag_consts)
  then show ?thesis unfolding wire_types_def tag_consts by simp presburger
qed

lemma wire_type_bits:
  "wt \<in> set wire_types \<Longrightarrow>
   0 \<le> wt \<and> wt < 128 \<and> wt OR 0x80 = wt + 128 \<and>
   nat wt AND 0x80 = 0 \<and> nat (wt + 128) AND 0x80 \<noteq> 0 \<and> nat (wt + 128) AND 0x7F = nat wt"
  unfolding wire_types_def tag_consts by auto

lemma write_value_wire:
  "write_value pack_f v wt w = Inr w' \<Longrightarrow> wt \<in> set wire_types"
  using is_str_type_cases [of wt]
  by (auto simp: write_value_def is_uint_type_def wire_types_def split: if_splits)

lemma reads_identifier:
  assumes w: "write_tag_header t wt w = Inr w'" and wt: "wt \<in> set wire_types" and ok: "tag_ok t"
  shows "\<exists>tb e. w' = w @ [word_of_nat tb] @ e \<and> tb < 256 \<and>
    int (if tb AND 0x80 \<noteq> 0 then tb AND 0x7F else tb) = wt \<and>
    reads (\<lambda>r. read_identifier r tb) e (canon_name t)"
proof (cases "t_name_id t")
  case (Some nid)
  note b = wire_type_bits [OF wt]
  from ok Some have n: "0 \<le> nid" "nid < 256"
    by (auto simp: tag_ok_def mk_tag_def split: if_splits)
  have "w' = w @ [word_of_nat (nat (wt + 128))] @ [word_of_nat (nat nid)]"
    using w Some b by (auto simp: write_tag_header_def bindE_eq_Inr_conv write_Inr)
  moreover have "reads (\<lambda>r. read_identifier r (nat (wt + 128))) [word_of_nat (nat nid)] (None, Some nid)"
    using reads_map [OF reads_u8 [of "nat nid"], of "\<lambda>i. (None, Some (int i))"] b n
      nat_less_iff [of nid 256]
    by (simp add: read_identifier_def)
  ultimately show ?thesis using b Some n
    by (intro exI [of _ "nat (wt + 128)"] exI [of _ "[word_of_nat (nat nid)]"])
      (simp add: canon_name_def nat_less_iff)
next
  case None
  note b = wire_type_bits [OF wt]
  from w None obtain nm where nm: "utf8_encode (the (t_name t)) = Some nm" and l: "length nm < 65536"
    and w': "w' = w @ [word_of_nat (nat wt)] @ le_enc 2 (length nm) @ nm"
    by (auto simp: write_tag_header_def bindE_eq_Inr_conv write_Inr write_bytes_def
        split: option.splits if_splits)
  from ok None obtain s where s: "t_name t = Some s"
    by (auto simp: tag_ok_def mk_tag_def split: if_splits)
  have "reads (\<lambda>r. read_identifier r (nat wt)) (le_enc 2 (length nm) @ nm) (canon_name t)"
  proof (cases "length nm = 1")
    case True
    then obtain c where c: "nm = [c]" by (cases nm) auto
    have h: "reads (\<lambda>r. bindE (read_u8 r) (\<lambda>(i, r2). Inr ((None :: ustr option, Some (int i)), r2)))
        [c] (None, Some (int (unat c)))"
      using reads_map [OF reads_u8, of "unat c" "\<lambda>i. (None, Some (int i))"]
        unsigned_less [of c, where ?'a = nat] by simp
    show ?thesis
      using reads_bind [OF reads_u16, of 1 "\<lambda>n r1. if n = 1 then bindE (read_u8 r1)
          (\<lambda>(i, r2). Inr ((None :: ustr option, Some (int i)), r2))
        else bindE (read_bytes (int n) r1) (\<lambda>(raw, r2).
          case utf8_decode raw of None \<Rightarrow> Inl TagError | Some s \<Rightarrow> Inr ((Some s, None), r2))"] h b nm c None
      by (simp add: read_identifier_def canon_name_def)
  next
    case False
    have h: "reads (\<lambda>r. bindE (read_bytes (int (length nm)) r) (\<lambda>(raw, r2).
          case utf8_decode raw of None \<Rightarrow> Inl TagError | Some s \<Rightarrow> Inr ((Some s, None :: int option), r2)))
        nm (Some s, None)"
      using reads_bind_nil [OF reads_bytes [OF refl], of "\<lambda>raw r2. case utf8_decode raw of
          None \<Rightarrow> Inl TagError | Some s \<Rightarrow> Inr ((Some s, None :: int option), r2)" nm "(Some s, None)"]
        nm s by (simp add: utf8_decode_encode reads_return)
    have "canon_name t = (Some s, None)"
      using False None nm s by (auto simp: canon_name_def split: list.splits)
    then show ?thesis
      using reads_bind [OF reads_u16 [OF l], of "\<lambda>n r1. if n = 1 then bindE (read_u8 r1)
          (\<lambda>(i, r2). Inr ((None :: ustr option, Some (int i)), r2))
        else bindE (read_bytes (int n) r1) (\<lambda>(raw, r2).
          case utf8_decode raw of None \<Rightarrow> Inl TagError | Some s \<Rightarrow> Inr ((Some s, None), r2))"] h b False
      by (simp add: read_identifier_def)
  qed
  with w' b show ?thesis
    by (intro exI [of _ "nat wt"] exI [of _ "le_enc 2 (length nm) @ nm"])
      (simp add: nat_less_iff)
qed


lemma string_wire_type_str: "STR1 \<le> string_wire_type raw \<Longrightarrow> string_wire_type raw \<le> STR16 \<Longrightarrow>
   string_wire_type raw - STR1 + 1 = int (length raw)"
  by (auto simp: string_wire_type_def tag_consts split: if_splits)

lemma reads_string_value:
  assumes "write_string_value raw wt w = Inr w'" and wt: "wt = string_wire_type raw"
  shows "\<exists>e. w' = w @ e \<and> reads (\<lambda>r. read_string_value r wt) e (decode_text raw)"
proof (cases "STR1 \<le> wt \<and> wt \<le> STR16")
  case True
  then have "w' = w @ raw" using assms by (simp add: write_string_value_def write_bytes_def)
  moreover have "wt - STR1 + 1 = int (length raw)" using True wt string_wire_type_str by simp
  then have "reads (\<lambda>r. read_string_value r wt) raw (decode_text raw)"
    using True reads_map [OF reads_bytes [OF refl], of raw decode_text]
    by (simp add: read_string_value_def)
  ultimately show ?thesis by blast
next
  case False
  with assms have l: "length raw < 65536" and w': "w' = w @ le_enc 2 (length raw) @ raw"
    by (auto simp: write_string_value_def bindE_eq_Inr_conv write_Inr write_bytes_def)
  have "reads (\<lambda>r. bindE (read_u16 r) (\<lambda>(n, r1). read_bytes (int n) r1))
      (le_enc 2 (length raw) @ raw) raw"
    by (rule reads_bind [OF reads_u16 [OF l]]) (rule reads_bytes [OF refl])
  from reads_map [OF this, of decode_text] False
  have "reads (\<lambda>r. read_string_value r wt) (le_enc 2 (length raw) @ raw) (decode_text raw)"
    by (auto simp: read_string_value_def)
  with w' show ?thesis by blast
qed

text \<open>Each wire type outside the strings and unsigned integers, written and read back.\<close>

lemma reads_blob:
  assumes "length raw < 2 ^ 32"
  shows "reads (\<lambda>r. bindE (read_u32 r) (\<lambda>(n, r1). bindE (read_bytes (int n) r1)
     (\<lambda>(b, r2). Inr (VBytes b, r2)))) (le_enc 4 (length raw) @ raw) (VBytes raw)"
  by (rule reads_bind [OF reads_u32 [OF assms]]) (rule reads_map [OF reads_bytes [OF refl]])

lemma reads_bsob:
  assumes "length raw < 256"
  shows "reads (\<lambda>r. bindE (read_u8 r) (\<lambda>(n, r1). bindE (read_bytes (int n) r1)
     (\<lambda>(b, r2). Inr (VBytes b, r2)))) ([word_of_nat (length raw)] @ raw) (VBytes raw)"
  by (rule reads_bind [OF reads_u8 [OF assms]]) (rule reads_map [OF reads_bytes [OF refl]])

lemma reads_uint_value:
  assumes "write_uint_value v wt w = Inr w'" and "is_uint_type wt"
  shows "\<exists>e. w' = w @ e \<and> reads (\<lambda>r. read_value unpack_f r wt) e v"
proof -
  from assms(1) obtain n where v: "v = VInt n" by (cases v) auto
  have ns: "\<not> is_str_type wt" "wt \<noteq> HASH16" "wt \<noteq> FLOAT32" "wt \<noteq> BOOL"
    using assms(2) by (auto simp: is_uint_type_def is_str_type_def tag_consts)
  consider "wt = UINT8" | "wt = UINT16" | "wt = UINT32" | "wt = UINT64"
    using assms(2) by (auto simp: is_uint_type_def)
  then show ?thesis
  proof cases
    case 1
    then show ?thesis using assms(1) v ns reads_map [OF reads_u8 [of "nat n"], of "\<lambda>k. VInt (int k)"]
      by (auto simp: write_Inr read_value_def nat_less_iff)
  next
    case 2
    then show ?thesis using assms(1) v ns reads_map [OF reads_u16 [of "nat n"], of "\<lambda>k. VInt (int k)"]
      by (auto simp: write_Inr read_value_def nat_less_iff tag_consts)
  next
    case 3
    then show ?thesis using assms(1) v ns reads_map [OF reads_u32 [of "nat n"], of "\<lambda>k. VInt (int k)"]
      by (auto simp: write_Inr read_value_def nat_less_iff tag_consts)
  next
    case 4
    then show ?thesis using assms(1) v ns reads_map [OF reads_u64 [of "nat n"], of "\<lambda>k. VInt (int k)"]
      by (auto simp: write_Inr read_value_def nat_less_iff tag_consts)
  qed
qed


lemma encoded_string_canon:
  "encoded_string v = Inr raw \<Longrightarrow>
   VStr (decode_text raw) = (case v of VBytes raw \<Rightarrow> VStr (decode_text raw) | v \<Rightarrow> v)"
  by (cases v) (auto simp: decode_text_utf8 split: option.splits)

lemma narrow_int_uint: "narrow_int v = Inr wt \<Longrightarrow> is_uint_type wt"
  by (cases v) (auto simp: is_uint_type_def split: if_splits)

lemma string_wire_type_is_str: "is_str_type (string_wire_type raw)"
  by (auto simp: string_wire_type_def is_str_type_def tag_consts)

text \<open>\<open>struct.pack("<f", x)\<close> writes four bytes.\<close>

definition float_law :: "('f tag_value \<Rightarrow> bytes option) \<Rightarrow> bool" where
  "float_law pack_f \<longleftrightarrow> (\<forall>v b. pack_f v = Some b \<longrightarrow> length b = 4)"

lemma float_lawD: "float_law pack_f \<Longrightarrow> pack_f v = Some b \<Longrightarrow> length b = 4"
  by (simp add: float_law_def)

lemma reads_value:
  fixes t :: "'f ed2k_tag"
  assumes w: "write_value pack_f (t_value t) wt w = Inr w'"
    and wt: "wire_type_of t = Inr wt"
    and f4: "float_law pack_f"
  shows "\<exists>e. w' = w @ e \<and> reads (\<lambda>r. read_value unpack_f r wt) e (canon_value pack_f unpack_f t)"
proof -
  consider (str) "is_str_type (t_type t)" | (uint) "is_uint_type (t_type t)" "\<not> is_str_type (t_type t)"
    | (other) "\<not> is_uint_type (t_type t)" "\<not> is_str_type (t_type t)" by blast
  then show ?thesis
  proof cases
    case str
    from wt str obtain raw where r: "encoded_string (t_value t) = Inr raw" "wt = string_wire_type raw"
      by (auto simp: wire_type_of_def bindE_eq_Inr_conv)
    have s: "is_str_type wt" "\<not> is_uint_type wt"
      using string_wire_type_is_str [of raw] r(2) by (auto simp: is_str_type_def is_uint_type_def tag_consts)
    from w r s have "write_string_value raw wt w = Inr w'"
      by (simp add: write_value_def)
    from reads_string_value [OF this r(2)] obtain e where
      e: "w' = w @ e" "reads (\<lambda>r. read_string_value r wt) e (decode_text raw)" by blast
    have "canon_value pack_f unpack_f t = VStr (decode_text raw)"
      using encoded_string_canon [OF r(1)] str by (simp add: canon_value_def)
    with reads_map [OF e(2), of VStr] s e(1) show ?thesis
      by (auto simp: read_value_def)
  next
    case uint
    then have u: "is_uint_type wt"
      using wt by (auto simp: wire_type_of_def bindE_eq_Inr_conv dest: narrow_int_uint split: if_splits)
    have "canon_value pack_f unpack_f t = t_value t"
      using uint by (auto simp: canon_value_def is_uint_type_def tag_consts)
    with reads_uint_value [OF _ u, of "t_value t" w w' unpack_f] w u show ?thesis
      by (simp add: write_value_def)
  next
    case other
    then have [simp]: "wt = t_type t" using wt by (simp add: wire_type_of_def)
    have c: "canon_value pack_f unpack_f t =
      (if wt = HASH16 then (case py_bytes (t_value t) of Inr raw \<Rightarrow> VBytes raw | Inl _ \<Rightarrow> t_value t)
       else if wt = FLOAT32 then VFloat (unpack_f (the (pack_f (t_value t)))) else t_value t)"
      using other by (simp add: canon_value_def)
    from w other consider
        (f) b where "wt = FLOAT32" "pack_f (t_value t) = Some b" "w' = w @ b"
      | (h) raw where "wt = HASH16" "py_bytes (t_value t) = Inr raw" "length raw = 16" "w' = w @ raw"
      | (b) b where "wt = BOOL" "t_value t = VBool b" "w' = w @ [if b then 1 else 0]"
      | (blob) raw where "wt = BLOB" "t_value t = VBytes raw" "length raw < 2 ^ 32"
          "w' = w @ le_enc 4 (length raw) @ raw"
      | (bsob) raw where "wt = BSOB" "t_value t = VBytes raw" "length raw < 256"
          "w' = w @ [word_of_nat (length raw)] @ raw"
      by (cases "t_value t") (auto simp: write_value_def write_bytes_def bindE_eq_Inr_conv write_Inr
          split: if_splits option.splits)
    then show ?thesis
    proof cases
      case f
      then show ?thesis using other c reads_map [OF reads_bytes [OF float_lawD [OF f4 f(2)]], of "\<lambda>b. VFloat (unpack_f b)"]
        by (auto simp: read_value_def tag_consts)
    next
      case h
      then show ?thesis using other c reads_map [OF reads_hash16 [OF h(3)], of VBytes]
        by (auto simp: read_value_def tag_consts)
    next
      case b
      then show ?thesis using other c reads_map [OF reads_u8 [of 1], of "\<lambda>k. VBool (k \<noteq> 0)"]
          reads_map [OF reads_u8 [of 0], of "\<lambda>k. VBool (k \<noteq> 0)"]
        by (auto simp: read_value_def tag_consts)
    next
      case blob
      then show ?thesis using other c reads_blob [OF blob(3)]
        by (auto simp: read_value_def tag_consts)
    next
      case bsob
      then show ?thesis using other c reads_bsob [OF bsob(3)]
        by (auto simp: read_value_def tag_consts)
    qed
  qed
qed

lemma wire_type_canon: "wire_type_of t = Inr wt \<Longrightarrow> normalized_type wt = canon_type t"
  by (cases "t_value t")
    (auto simp: wire_type_of_def canon_type_def normalized_type_def string_wire_type_def is_str_type_def
      is_uint_type_def bindE_eq_Inr_conv tag_consts split: if_splits)

lemma canon_name_mk:
  "tag_ok t \<Longrightarrow> mk_tag (fst (canon_name t)) (snd (canon_name t)) ty v =
     Inr \<lparr>t_name = fst (canon_name t), t_name_id = snd (canon_name t), t_type = ty, t_value = v\<rparr>"
  using uint_le_255
  by (auto simp: mk_tag_def tag_ok_def canon_name_def split: if_splits option.splits list.splits)


lemma write_new_tag_reads:
  assumes w: "write_new_tag pack_f t w = Inr w'" and ok: "tag_ok t"
    and f4: "float_law pack_f"
  shows "\<exists>e. w' = w @ e \<and> e \<noteq> [] \<and> reads (read_new_tag unpack_f) e (canon_tag pack_f unpack_f t)"
proof -
  from w obtain wt w1 where wt: "wire_type_of t = Inr wt"
    and h: "write_tag_header t wt w = Inr w1" and v: "write_value pack_f (t_value t) wt w1 = Inr w'"
    by (auto simp: write_new_tag_def bindE_eq_Inr_conv)
  note ws = write_value_wire [OF v]
  from reads_identifier [OF h ws ok] obtain tb e1 where
    tb: "tb < 256" "int (if tb AND 0x80 \<noteq> 0 then tb AND 0x7F else tb) = wt"
    and w1: "w1 = w @ [word_of_nat tb] @ e1" and r1: "reads (\<lambda>r. read_identifier r tb) e1 (canon_name t)"
    by blast
  from reads_value [OF v wt f4, where unpack_f = unpack_f] obtain e2 where
    w': "w' = w1 @ e2" and r2: "reads (\<lambda>r. read_value unpack_f r wt) e2 (canon_value pack_f unpack_f t)"
    by blast
  have r3: "reads (\<lambda>r. bindE (read_value unpack_f r wt) (\<lambda>(v, r3).
      bindE (mk_tag (fst (canon_name t)) (snd (canon_name t)) (normalized_type wt) v) (\<lambda>t. Inr (t, r3))))
      e2 (canon_tag pack_f unpack_f t)"
    by (rule reads_bind_nil [OF r2])
      (simp add: canon_name_mk [OF ok] wire_type_canon [OF wt] canon_tag_def reads_return)
  have r2': "reads (\<lambda>r. bindE (read_identifier r tb) (\<lambda>(nmid, r2).
      bindE (read_value unpack_f r2 wt) (\<lambda>(v, r3).
      bindE (mk_tag (fst nmid) (snd nmid) (normalized_type wt) v) (\<lambda>t. Inr (t, r3)))))
      (e1 @ e2) (canon_tag pack_f unpack_f t)"
    by (rule reads_bind [OF r1]) (rule r3)
  have "reads (read_new_tag unpack_f) ([word_of_nat tb] @ (e1 @ e2)) (canon_tag pack_f unpack_f t)"
    unfolding read_new_tag_def Let_def
    by (rule reads_bind [OF reads_u8 [OF tb(1)]])
      (use r2' tb(2) in \<open>simp add: case_prod_unfold\<close>)
  with w1 w' show ?thesis by (intro exI [of _ "[word_of_nat tb] @ (e1 @ e2)"]) simp
qed


text \<open>
  The values that come back as they were: all but raw bytes under a string type, something else than
  bytes under HASH16, and a float that 4 bytes do not hold.
\<close>

definition plain_value :: "('f tag_value \<Rightarrow> bytes option) \<Rightarrow> (bytes \<Rightarrow> 'f) \<Rightarrow> 'f ed2k_tag \<Rightarrow> bool" where
  "plain_value pack_f unpack_f t =
     (case t_value t of
        VBytes _ \<Rightarrow> \<not> is_str_type (t_type t) \<and> t_type t \<noteq> FLOAT32
      | VFloat f \<Rightarrow> t_type t \<noteq> HASH16 \<and>
          (t_type t = FLOAT32 \<longrightarrow> (\<exists>b \<in> set_option (pack_f (VFloat f)). unpack_f b = f))
      | _ \<Rightarrow> t_type t \<noteq> HASH16 \<and> t_type t \<noteq> FLOAT32)"

lemma plain_value_kept: "plain_value pack_f unpack_f t \<Longrightarrow> t_value (canon_tag pack_f unpack_f t) = t_value t"
  by (cases "t_value t")
    (auto simp: plain_value_def canon_tag_def canon_value_def tag_consts is_str_type_def split: if_splits option.splits)

text \<open>
  C1. Any tag the writer accepts is read back from wherever it was written, with nothing
  consumed behind it, as its canonical form: a one-byte name becomes the numeric name id of
  that byte, string types become STRING, integers up to 32 bits UINT32 (a UINT32 tag with a
  larger value UINT64). The value is unchanged where it is plain: a text under a string type, bytes under HASH16
  or a blob type, an integer or a truth value, a float that its 4 bytes represent exactly. Otherwise it is what the
  wire holds: raw bytes under a string type come back as the text they decode to, a float as the one
  of its 4 bytes, what stands under HASH16 as the bytes that \<open>bytes(value)\<close> makes of it.
\<close>

theorem tag_roundtrip:
  assumes "write_new_tag pack_f t w = Inr w'" and "tag_ok t"
    and "float_law pack_f"
  shows "read_new_tag unpack_f \<lparr>rd_data = w' @ suf, rd_pos = length w\<rparr> =
      Inr (canon_tag pack_f unpack_f t, \<lparr>rd_data = w' @ suf, rd_pos = length w'\<rparr>) \<and>
    (plain_value pack_f unpack_f t \<longrightarrow> t_value (canon_tag pack_f unpack_f t) = t_value t)"
proof -
  from write_new_tag_reads [OF assms] obtain e where
    e: "w' = w @ e" "reads (read_new_tag unpack_f) e (canon_tag pack_f unpack_f t)" by blast
  have "read_new_tag unpack_f \<lparr>rd_data = w' @ suf, rd_pos = length w\<rparr> =
      Inr (canon_tag pack_f unpack_f t, \<lparr>rd_data = w' @ suf, rd_pos = length w'\<rparr>)"
    by (subst readsD [OF e(2), where t = suf]) (simp_all add: e(1) reader_ok_def rest_def advance_def)
  with plain_value_kept show ?thesis by blast
qed

text \<open>A tag "size" with value 70000 goes over the wire as UINT32 behind two bytes.\<close>

definition sample_tag :: "unit ed2k_tag" where
  "sample_tag = \<lparr>t_name = Some [115, 122], t_name_id = None, t_type = UINT32, t_value = VInt 70000\<rparr>"

lemma sample_tag_written:
  "write_new_tag (\<lambda>_. None) sample_tag [1, 2] = Inr [1, 2, 3, 2, 0, 115, 122, 112, 17, 1, 0]"
  by (simp add: sample_tag_def write_new_tag_def wire_type_of_def tag_consts is_str_type_def
      is_uint_type_def write_tag_header_def utf8_cp_def write_u8_def write_u16_def write_u32_def
      write_bytes_def write_value_def eval_simps)

theorem tag_roundtrip_witness:
  "read_new_tag (\<lambda>_. ()) \<lparr>rd_data = [1, 2, 3, 2, 0, 115, 122, 112, 17, 1, 0] @ [9], rd_pos = length [1, 2 :: byte]\<rparr> =
   Inr (canon_tag (\<lambda>_. None) (\<lambda>_. ()) sample_tag,
     \<lparr>rd_data = [1, 2, 3, 2, 0, 115, 122, 112, 17, 1, 0] @ [9],
      rd_pos = length [1, 2, 3, 2, 0, 115, 122, 112, 17, 1, 0 :: byte]\<rparr>) \<and>
   t_value (canon_tag (\<lambda>_. None) (\<lambda>_. ()) sample_tag) = VInt 70000"
proof -
  have ok: "tag_ok sample_tag" "float_law (\<lambda>_. None)"
    by (simp_all add: tag_ok_def mk_tag_def sample_tag_def float_law_def)
  have plain: "plain_value (\<lambda>_. None) (\<lambda>_. ()) sample_tag" by (simp add: plain_value_def sample_tag_def tag_consts)
  show ?thesis
    using tag_roundtrip [OF sample_tag_written ok, of "\<lambda>_. ()" "[9]"] plain by (simp add: sample_tag_def)
qed

section \<open>Bounds and errors of the reader\<close>

text \<open>
  \<open>sound_read k get\<close>: \<open>get\<close> stays inside the data, consumes \<open>k\<close> bytes at least, and
  fails with \<open>CodecError\<close> or \<open>TagError\<close> only, the two exceptions its callers catch.
\<close>

definition sound_read :: "nat \<Rightarrow> (reader \<Rightarrow> ('a \<times> reader) res) \<Rightarrow> bool" where
  "sound_read k get \<longleftrightarrow> (\<forall>r. reader_ok r \<longrightarrow>
     (case get r of Inl e \<Rightarrow> e = CodecError \<or> e = TagError | Inr (x, r') \<Rightarrow> consumed k r r'))"

lemma sound_readD:
  assumes "sound_read k get" and "reader_ok r"
  shows "get r = Inl e \<Longrightarrow> e = CodecError \<or> e = TagError"
    and "get r = Inr (x, r') \<Longrightarrow> consumed k r r'"
  using assms by (auto simp: sound_read_def dest!: spec [of _ r])

lemma sound_require: "sound_read n (\<lambda>r. bindE (require n r) (\<lambda>_. Inr (f r, advance n r)))"
  by (auto simp: sound_read_def require_iff intro: consumed_advance)

lemma sound_prims:
  "sound_read 1 read_u8" "sound_read 2 read_u16" "sound_read 4 read_u32" "sound_read 8 read_u64"
  "0 \<le> n \<Longrightarrow> sound_read (nat n) (read_bytes n)" "sound_read 16 read_hash16"
  using sound_require [of "nat n"] sound_require [of 16]
  by (simp_all add: read_u8_def [abs_def] read_u16_def [abs_def] read_u32_def [abs_def]
      read_u64_def [abs_def] read_bytes_def [abs_def] read_hash16_def [abs_def] sound_require)

lemma sound_return: "sound_read 0 (\<lambda>r. Inr (x, r))"
  by (simp add: sound_read_def consumed_refl)

lemma sound_fail: "e = CodecError \<or> e = TagError \<Longrightarrow> sound_read k (\<lambda>r. Inl e)"
  by (auto simp: sound_read_def)

lemma sound_bind:
  assumes g: "sound_read k g" and h: "\<And>x. sound_read l (h x)"
  shows "sound_read (k + l) (\<lambda>r. bindE (g r) (\<lambda>(x, r1). h x r1))"
  unfolding sound_read_def
proof (intro allI impI)
  fix r assume ok: "reader_ok r"
  show "case bindE (g r) (\<lambda>(x, r1). h x r1) of Inl e \<Rightarrow> e = CodecError \<or> e = TagError
      | Inr (x, r') \<Rightarrow> consumed (k + l) r r'"
  proof (cases "g r")
    case (Inl e)
    with sound_readD(1) [OF g ok] show ?thesis by simp
  next
    case (Inr p)
    obtain x r1 where p: "p = (x, r1)" by (cases p)
    from sound_readD(2) [OF g ok] Inr p have c: "consumed k r r1" by simp
    from h [of x] consumed_ok [OF c]
    have "case h x r1 of Inl e \<Rightarrow> e = CodecError \<or> e = TagError | Inr (x, r') \<Rightarrow> consumed l r1 r'"
      by (simp add: sound_read_def)
    with Inr p c show ?thesis
      by (auto split: sum.splits prod.splits intro: consumed_trans)
  qed
qed

lemma sound_mono: "sound_read k g \<Longrightarrow> l \<le> k \<Longrightarrow> sound_read l g"
  by (fastforce simp: sound_read_def split: sum.splits prod.splits intro: consumed_mono)

lemma sound_map: "sound_read k g \<Longrightarrow> sound_read k (\<lambda>r. bindE (g r) (\<lambda>(x, r1). Inr (f x, r1)))"
  using sound_bind [OF _ sound_return, of k g f] by simp

lemma sound_bind_any:
  assumes "sound_read k g" and "\<And>x. \<exists>l. sound_read l (h x)"
  shows "sound_read k (\<lambda>r. bindE (g r) (\<lambda>(x, r1). h x r1))"
  using sound_bind [OF assms(1), of 0 h] assms(2) by (metis add.right_neutral sound_mono zero_le)

lemma sound_len_bytes: "sound_read 0 (\<lambda>r. read_bytes (int n) r)"
  using sound_prims(5) [of "int n"] by (auto intro: sound_mono)

lemma sound_if: "sound_read k g \<Longrightarrow> sound_read k h \<Longrightarrow> sound_read k (\<lambda>r. if b then g r else h r)"
  by (cases b) simp_all

lemma sound_map_u8: "sound_read 1 (\<lambda>r. bindE (read_u8 r) (\<lambda>(x, r1). Inr (f x, r1)))"
  by (rule sound_map [OF sound_prims(1)])

lemma sound_maps:
  "sound_read 1 (\<lambda>r. bindE (read_u16 r) (\<lambda>(x, r1). Inr (f x, r1)))"
  "sound_read 1 (\<lambda>r. bindE (read_u32 r) (\<lambda>(x, r1). Inr (f x, r1)))"
  "sound_read 1 (\<lambda>r. bindE (read_u64 r) (\<lambda>(x, r1). Inr (f x, r1)))"
  "sound_read 1 (\<lambda>r. bindE (read_hash16 r) (\<lambda>(x, r1). Inr (h x, r1)))"
  by (rule sound_mono [OF sound_map], rule sound_prims, simp)+

lemma sound_bytes4: "sound_read 1 (\<lambda>r. bindE (read_bytes 4 r) (\<lambda>(x, r1). Inr (h x, r1)))"
  by (rule sound_mono [OF sound_map [OF sound_prims(5)]]) simp_all

lemma sound_identifier: "sound_read 1 (\<lambda>r. read_identifier r tb)"
proof -
  have d: "sound_read 0 (\<lambda>r2. case utf8_decode raw of None \<Rightarrow> Inl TagError
      | Some s \<Rightarrow> Inr ((Some s, None :: int option), r2))" for raw
    by (cases "utf8_decode raw") (auto intro: sound_fail sound_return)
  have t: "sound_read 0 (\<lambda>r1. if n = 1 then bindE (read_u8 r1) (\<lambda>(i, r2). Inr ((None, Some (int i)), r2))
        else bindE (read_bytes (int n) r1) (\<lambda>(raw, r2).
          case utf8_decode raw of None \<Rightarrow> Inl TagError | Some s \<Rightarrow> Inr ((Some s, None), r2)))" for n
    using sound_bind [OF sound_len_bytes d, of n]
    by (intro sound_if sound_mono [OF sound_map_u8]) simp_all
  have u: "sound_read 1 (\<lambda>r. bindE (read_u16 r) (\<lambda>(n, r1).
      if n = 1 then bindE (read_u8 r1) (\<lambda>(i, r2). Inr ((None, Some (int i)), r2))
      else bindE (read_bytes (int n) r1) (\<lambda>(raw, r2).
        case utf8_decode raw of None \<Rightarrow> Inl TagError | Some s \<Rightarrow> Inr ((Some s, None), r2))))"
    by (rule sound_mono [OF sound_bind [OF sound_prims(2) t]]) simp
  show ?thesis
    unfolding read_identifier_def by (intro sound_if sound_map_u8 u)
qed

lemma sound_string_value: "sound_read 1 (\<lambda>r. read_string_value r ty)"
proof -
  have a: "sound_read 1 (\<lambda>r. if STR1 \<le> ty \<and> ty \<le> STR16 then read_bytes (ty - STR1 + 1) r
      else bindE (read_u16 r) (\<lambda>(n, r1). read_bytes (int n) r1))"
  proof (cases "STR1 \<le> ty \<and> ty \<le> STR16")
    case True
    have "sound_read 1 (read_bytes (ty - STR1 + 1))"
      by (rule sound_mono [OF sound_prims(5)]) (use True in arith)+
    with True show ?thesis by simp
  next
    case False
    have "sound_read 1 (\<lambda>r. bindE (read_u16 r) (\<lambda>(n, r1). read_bytes (int n) r1))"
      by (rule sound_mono [OF sound_bind [OF sound_prims(2) sound_len_bytes]]) simp
    then show ?thesis by (simp only: False if_False)
  qed
  show ?thesis unfolding read_string_value_def by (rule sound_map [OF a])
qed

lemma sound_len_value:
  assumes "sound_read k rd" "1 \<le> k"
  shows "sound_read 1 (\<lambda>r. bindE (rd r) (\<lambda>(n, r1).
    bindE (read_bytes (int n) r1) (\<lambda>(b, r2). Inr (VBytes b, r2))))"
  by (rule sound_mono [OF sound_bind [OF assms(1) sound_map [OF sound_len_bytes]]]) (use assms in simp)

lemma sound_boolarray:
  "sound_read 1 (\<lambda>r. bindE (read_u16 r) (\<lambda>(n, r1).
     bindE (read_bytes (int n div 8 + 1) r1) (\<lambda>(_, r2). Inr (v, r2))))"
proof -
  have "sound_read 0 (\<lambda>r1. bindE (read_bytes (int n div 8 + 1) r1) (\<lambda>(x, r2). Inr (v, r2)))" for n
    by (rule sound_mono [OF sound_map [OF sound_prims(5)]]) simp_all
  from sound_mono [OF sound_bind [OF sound_prims(2) this], of 1] show ?thesis by simp
qed

lemma sound_value: "sound_read 1 (\<lambda>r. read_value unpack_f r ty)"
  unfolding read_value_def
  by (intro sound_if sound_map_u8 sound_maps sound_bytes4 sound_map [OF sound_string_value]
      sound_len_value [OF sound_prims(1)] sound_len_value [OF sound_prims(3)] sound_boolarray)
    (auto intro: sound_fail)

lemma read_identifier_shape:
  "read_identifier r tb = Inr ((nm, nid), r') \<Longrightarrow> (nm = None) \<noteq> (nid = None) \<and>
   (\<forall>i. nid = Some i \<longrightarrow> 0 \<le> i \<and> i \<le> 0xFF)"
  by (auto simp: read_identifier_def bindE_eq_Inr_conv dest!: read_u8_progress
      split: if_splits option.splits)

lemma mk_tag_identifier:
  "read_identifier r tb = Inr ((nm, nid), r') \<Longrightarrow> \<exists>t. mk_tag nm nid ty v = Inr t \<and> tag_ok t"
  using read_identifier_shape [of r tb nm nid r'] by (auto simp: mk_tag_def tag_ok_def)

lemma read_new_tag_case:
  assumes "reader_ok r"
  shows "case read_new_tag unpack_f r of
      Inl e \<Rightarrow> e = CodecError \<or> e = TagError
    | Inr (t, r') \<Rightarrow> tag_ok t \<and> consumed 3 r r'"
proof (cases "read_u8 r")
  case (Inl e)
  with sound_readD(1) [OF sound_prims(1) assms] show ?thesis by (simp add: read_new_tag_def)
next
  case (Inr p)
  then obtain tb r1 where u: "read_u8 r = Inr (tb, r1)" by (cases p) auto
  let ?ty = "int (if tb AND 0x80 \<noteq> 0 then tb AND 0x7F else tb)"
  from sound_readD(2) [OF sound_prims(1) assms u] have c1: "consumed 1 r r1" .
  show ?thesis
  proof (cases "read_identifier r1 tb")
    case (Inl e)
    with sound_readD(1) [OF sound_identifier consumed_ok [OF c1]] u show ?thesis
      by (simp add: read_new_tag_def)
  next
    case (Inr q)
    then obtain nm nid r2 where i: "read_identifier r1 tb = Inr ((nm, nid), r2)" by (cases q) auto
    from sound_readD(2) [OF sound_identifier consumed_ok [OF c1] i] have c2: "consumed 1 r1 r2" .
    note sv = sound_readD [OF sound_value [of unpack_f ?ty] consumed_ok [OF c2]]
    show ?thesis
    proof (cases "read_value unpack_f r2 ?ty")
      case (Inl e)
      with sv(1) u i show ?thesis by (auto simp: read_new_tag_def)
    next
      case (Inr s)
      then obtain v r3 where v: "read_value unpack_f r2 ?ty = Inr (v, r3)" by (cases s) auto
      from mk_tag_identifier [OF i] obtain t where t: "mk_tag nm nid (normalized_type ?ty) v = Inr t" "tag_ok t"
        by blast
      have "consumed 3 r r3"
        by (rule consumed_mono [OF consumed_trans [OF consumed_trans [OF c1 c2] sv(2) [OF v]]]) simp
      with u i v t show ?thesis by (simp add: read_new_tag_def Let_def)
    qed
  qed
qed

text \<open>
  Reading a tag from arbitrary bytes never leaves the data: it either raises one of the
  two exceptions its callers handle, or returns a well-formed tag and a reader at least three
  bytes further on.
\<close>

theorem read_new_tag_sound:
  assumes "reader_ok r"
  shows "case read_new_tag unpack_f r of
      Inl e \<Rightarrow> e = CodecError \<or> e = TagError
    | Inr (t, r') \<Rightarrow> tag_ok t \<and> consumed 3 r r'"
  by (rule read_new_tag_case [OF assms])

theorem read_new_tag_sound_witness:
  "case read_new_tag (\<lambda>_. ()) (from_bytes [0x83, 2, 1]) of
      Inl e \<Rightarrow> e = CodecError \<or> e = TagError
    | Inr (t, r') \<Rightarrow> tag_ok t \<and> consumed 3 (from_bytes [0x83, 2, 1]) r'"
  by (rule read_new_tag_sound) simp

end
