(* ===== verification/Aich.thy ===== *)
theory Aich
  imports Tag_Codec
begin

text \<open>
  \<open>core/hashes/aich.py\<close>: SHA-1 and the AICH hash tree. A file handle is its content. The
  tree of a segment is split at a multiple of a block or of a part, the left branch taking the
  odd one when the node is itself a left branch. Modelled are the hashing of a file, the tree
  rebuilt from the leaf hashes, the recovery blob of one part and the client's three ways of
  using such a blob.
\<close>

section \<open>SHA-1\<close>

text \<open>\<open>hashlib.sha1\<close>, as FIPS 180-4 defines it, on a byte string.\<close>

definition sha1_pad :: "bytes \<Rightarrow> bytes" where
  "sha1_pad m = m @ [0x80] @ replicate ((119 - length m mod 64) mod 64) 0 @
     be_enc 8 (8 * length m mod 2 ^ 64)"

definition sha1_word :: "bytes \<Rightarrow> nat \<Rightarrow> 32 word" where
  "sha1_word b t = word_of_nat (be_dec (py_slice (4 * t) (4 * t + 4) b))"

definition sha1_extend :: "32 word list \<Rightarrow> 32 word list" where
  "sha1_extend ws =
     (let t = length ws in
      ws @ [word_rotl 1 (xor (xor (ws ! (t - 3)) (ws ! (t - 8))) (xor (ws ! (t - 14)) (ws ! (t - 16))))])"

definition sha1_schedule :: "bytes \<Rightarrow> 32 word list" where
  "sha1_schedule b = (sha1_extend ^^ 64) (map (sha1_word b) [0..<16])"

type_synonym sha1_state = "32 word \<times> 32 word \<times> 32 word \<times> 32 word \<times> 32 word"

definition sha1_f :: "nat \<Rightarrow> 32 word \<Rightarrow> 32 word \<Rightarrow> 32 word \<Rightarrow> 32 word" where
  "sha1_f t b c d =
     (if t < 20 then or (and b c) (and (not b) d)
      else if t < 40 then xor (xor b c) d
      else if t < 60 then or (or (and b c) (and b d)) (and c d)
      else xor (xor b c) d)"

definition sha1_k :: "nat \<Rightarrow> 32 word" where
  "sha1_k t = (if t < 20 then 0x5A827999 else if t < 40 then 0x6ED9EBA1
               else if t < 60 then 0x8F1BBCDC else 0xCA62C1D6)"

fun sha1_round :: "sha1_state \<Rightarrow> nat \<times> 32 word \<Rightarrow> sha1_state" where
  "sha1_round (a, b, c, d, e) (t, w) =
     (word_rotl 5 a + sha1_f t b c d + e + sha1_k t + w, a, word_rotl 30 b, c, d)"

fun sha1_add :: "sha1_state \<Rightarrow> sha1_state \<Rightarrow> sha1_state" where
  "sha1_add (a, b, c, d, e) (a', b', c', d', e') = (a + a', b + b', c + c', d + d', e + e')"

definition sha1_block :: "sha1_state \<Rightarrow> bytes \<Rightarrow> sha1_state" where
  "sha1_block h b = sha1_add h (foldl sha1_round h (zip [0..<80] (sha1_schedule b)))"

function sha1_blocks :: "sha1_state \<Rightarrow> bytes \<Rightarrow> sha1_state" where
  "sha1_blocks h m = (if length m < 64 then h else sha1_blocks (sha1_block h (take 64 m)) (drop 64 m))"
  by pat_completeness auto
termination
  by (relation "measure (\<lambda>(h, m). length m)") auto

declare sha1_blocks.simps [simp del]

fun sha1_out :: "sha1_state \<Rightarrow> bytes" where
  "sha1_out (a, b, c, d, e) = concat (map (\<lambda>w. be_enc 4 (unat w)) [a, b, c, d, e])"

definition sha1_digest :: "bytes \<Rightarrow> bytes" where
  "sha1_digest m =
     sha1_out (sha1_blocks (0x67452301, 0xEFCDAB89, 0x98BADCFE, 0x10325476, 0xC3D2E1F0) (sha1_pad m))"

lemma length_sha1_digest [simp]: "length (sha1_digest m) = 20"
proof -
  have "length (sha1_out h) = 20" for h by (cases h) simp
  then show ?thesis by (simp add: sha1_digest_def)
qed

text \<open>\<open>sha1_file\<close> feeds the reads of one mebibyte to the digest, which is their concatenation.\<close>

definition sha1_file :: "bytes \<Rightarrow> bytes" where
  "sha1_file content = sha1_digest content"

section \<open>Hashing a file\<close>

record aich_result =
  ar_file_size :: nat
  ar_master_hash :: bytes
  ar_block_hashes :: "bytes list"

definition mk_aich_result :: "nat \<Rightarrow> bytes \<Rightarrow> bytes list \<Rightarrow> aich_result res" where
  "mk_aich_result sz m bs =
     (if length m \<noteq> 20 then Inl AichError
      else if \<exists>b \<in> set bs. length b \<noteq> 20 then Inl AichError
      else Inr \<lparr>ar_file_size = sz, ar_master_hash = m, ar_block_hashes = bs\<rparr>)"

definition read_segment :: "bytes \<Rightarrow> nat \<Rightarrow> nat \<Rightarrow> bytes res" where
  "read_segment content start sz =
     (let d = py_slice start (start + sz) content in
      if length d \<noteq> sz then Inl AichError else Inr d)"

text \<open>The size of the left branch, the computation all the walks of the module share.\<close>

definition aich_base :: "nat \<Rightarrow> nat" where
  "aich_base sz = (if sz \<le> PARTSIZE then BLOCKSIZE else PARTSIZE)"

definition aich_left_size :: "nat \<Rightarrow> bool \<Rightarrow> nat" where
  "aich_left_size sz is_left =
     (let base = aich_base sz;
          block_count = (sz + base - 1) div base;
          left_block_count = (if is_left then (block_count + 1) div 2 else block_count div 2);
          left_size = left_block_count * base in
      if left_size \<ge> sz then (block_count div 2) * base else left_size)"

lemma aich_base_pos [simp]: "0 < aich_base sz"
  by (simp add: aich_base_def BLOCKSIZE_def PARTSIZE_def)

text \<open>Above one block the split leaves something on each side.\<close>

lemma aich_left_size_bounds:
  assumes "BLOCKSIZE < sz"
  shows "0 < aich_left_size sz l" and "aich_left_size sz l < sz"
proof -
  define base n where "base = aich_base sz" and "n = (sz + base - 1) div base"
  have b: "0 < base" "base < sz" using assms by (auto simp: base_def aich_base_def BLOCKSIZE_def PARTSIZE_def)
  have nb: "n * base \<le> sz + base - 1" "sz + base - 1 < n * base + base"
    using div_mult_mod_eq [of "sz + base - 1" base] mod_less_divisor [OF b(1), of "sz + base - 1"]
    unfolding n_def by linarith+
  have n2: "2 \<le> n"
  proof (rule ccontr)
    assume "\<not> 2 \<le> n"
    then have "n * base \<le> 1 * base" by (intro mult_le_mono1) simp
    then show False using nb(2) b by linarith
  qed
  have half: "k + 1 \<le> n \<Longrightarrow> k * base < sz" for k
  proof -
    assume "k + 1 \<le> n"
    then have "(k + 1) * base \<le> n * base" by (rule mult_le_mono1)
    then show ?thesis using nb(1) b by simp
  qed
  have lo: "0 < (n div 2) * base" "0 < ((n + 1) div 2) * base" using n2 b by simp_all
  have hi: "(n div 2) * base < sz" by (rule half) (use n2 in simp)
  have e: "aich_left_size sz l =
      (let ls = (if l then (n + 1) div 2 else n div 2) * base in if ls \<ge> sz then n div 2 * base else ls)"
    by (simp add: aich_left_size_def Let_def base_def n_def)
  show "0 < aich_left_size sz l" using lo by (simp add: e Let_def)
  show "aich_left_size sz l < sz" using hi by (simp add: e Let_def not_le)
qed

function hash_aich_segment :: "bytes \<Rightarrow> nat \<Rightarrow> nat \<Rightarrow> bool \<Rightarrow> (bytes \<times> bytes list) res" where
  "hash_aich_segment content start sz is_left =
     (if sz = 0 then Inr (sha1_digest [], [])
      else if sz \<le> BLOCKSIZE then
        bindE (read_segment content start sz) (\<lambda>d. Inr (sha1_digest d, [sha1_digest d]))
      else
        let left_size = aich_left_size sz is_left in
        if left_size = 0 \<or> sz \<le> left_size then Inl AichError
        else
          bindE (hash_aich_segment content start left_size True) (\<lambda>(lh, ll).
          bindE (hash_aich_segment content (start + left_size) (sz - left_size) False) (\<lambda>(rh, rl).
          Inr (sha1_digest (lh @ rh), ll @ rl))))"
  by pat_completeness auto
termination
  by (relation "measure (\<lambda>(content, start, sz, is_left). sz)") auto

declare hash_aich_segment.simps [simp del]

definition aich_hash_data :: "bytes \<Rightarrow> aich_result res" where
  "aich_hash_data data =
     bindE (hash_aich_segment data 0 (length data) True) (\<lambda>(master, leaves).
     mk_aich_result (length data) master leaves)"

definition aich_hash_file :: "bytes \<Rightarrow> aich_result res" where
  "aich_hash_file content =
     (let file_size = length content in
      bindE (hash_aich_segment content 0 file_size True) (\<lambda>(master, leaves).
      mk_aich_result file_size master leaves))"

definition aich_verify_data :: "bytes \<Rightarrow> bytes \<Rightarrow> bool res" where
  "aich_verify_data data expected =
     (if length expected \<noteq> 20 then Inl AichError
      else bindE (aich_hash_data data) (\<lambda>r. Inr (ar_master_hash r = expected)))"

definition aich_verify_file :: "bytes \<Rightarrow> bytes \<Rightarrow> bool res" where
  "aich_verify_file content expected =
     (if length expected \<noteq> 20 then Inl AichError
      else bindE (aich_hash_file content) (\<lambda>r. Inr (ar_master_hash r = expected)))"

section \<open>The materialised tree\<close>

datatype aich_node =
    Leaf (n_start: nat) (n_size: nat) (n_is_left: bool) (n_hash: bytes)
  | Branch (n_start: nat) (n_size: nat) (n_is_left: bool) (n_hash: bytes)
      (n_left: aich_node) (n_right: aich_node)

function build_tree :: "bytes list \<Rightarrow> nat \<Rightarrow> nat \<Rightarrow> bool \<Rightarrow> aich_node res" where
  "build_tree leaves start sz is_left =
     (if sz \<le> BLOCKSIZE then
        (case leaves of [] \<Rightarrow> Inl IndexError | d # _ \<Rightarrow> Inr (Leaf start sz is_left d))
      else
        let left_size = aich_left_size sz is_left in
        if left_size = 0 \<or> sz \<le> left_size then Inl AichError
        else
          let left_leaf_count = (left_size + BLOCKSIZE - 1) div BLOCKSIZE in
          bindE (build_tree (take left_leaf_count leaves) start left_size True) (\<lambda>l.
          bindE (build_tree (drop left_leaf_count leaves) (start + left_size) (sz - left_size) False) (\<lambda>r.
          Inr (Branch start sz is_left (sha1_digest (n_hash l @ n_hash r)) l r))))"
  by pat_completeness auto
termination
  by (relation "measure (\<lambda>(leaves, start, sz, is_left). sz)") auto

declare build_tree.simps [simp del]

definition materialize_aich_tree :: "aich_result \<Rightarrow> aich_node res" where
  "materialize_aich_tree r = build_tree (ar_block_hashes r) 0 (ar_file_size r) True"

section \<open>The recovery blob of a part\<close>

definition path_bit :: "nat \<Rightarrow> bool \<Rightarrow> nat" where
  "path_bit ident b = 2 * ident + (if b then 1 else 0)"

text \<open>The walk from the root to the part: the siblings passed, the part's node and its identifier.\<close>

fun part_walk :: "nat \<Rightarrow> nat \<Rightarrow> aich_node \<Rightarrow> nat \<Rightarrow> ((nat \<times> bytes) list \<times> aich_node \<times> nat) res" where
  "part_walk part_start part_size (Leaf s z b h) ident =
     (if s = part_start \<and> z = part_size then Inr ([], Leaf s z b h, ident) else Inl AichError)"
| "part_walk part_start part_size (Branch s z b h l r) ident =
     (if s = part_start \<and> z = part_size then Inr ([], Branch s z b h l r, ident)
      else
        let go_left = part_start < n_start l + n_size l;
            sibling = (if go_left then r else l);
            sib_ident = path_bit ident (n_is_left sibling) in
        bindE (if go_left then part_walk part_start part_size l (path_bit ident (n_is_left l))
               else part_walk part_start part_size r (path_bit ident (n_is_left r)))
          (\<lambda>(es, node, i). Inr ((sib_ident, n_hash sibling) # es, node, i)))"

fun emit_leaves :: "aich_node \<Rightarrow> nat \<Rightarrow> (nat \<times> bytes) list" where
  "emit_leaves (Leaf s z b h) ident = [(path_bit ident b, h)]"
| "emit_leaves (Branch s z b h l r) ident =
     emit_leaves l (path_bit ident b) @ emit_leaves r (path_bit ident b)"

text \<open>\<open>dec_entries\<close> and \<open>enc_entries\<close>: identifiers of \<open>w\<close> bytes and hashes of 20.\<close>

fun enc_entries :: "nat \<Rightarrow> (nat \<times> bytes) list \<Rightarrow> bytes res" where
  "enc_entries w [] = Inr []"
| "enc_entries w ((i, h) # es) =
     (if w = 2 \<and> i > 0xFFFF then Inl AichError
      else bindE (pack_le w i) (\<lambda>e. bindE (enc_entries w es) (\<lambda>b. Inr (e @ h @ b))))"

definition recovery_blob :: "nat \<Rightarrow> (nat \<times> bytes) list \<Rightarrow> bytes res" where
  "recovery_blob file_size entries =
     (if file_size > 0xFFFFFFFF then
        bindE (pack_le 2 (length entries)) (\<lambda>n.
        bindE (enc_entries 4 entries) (\<lambda>es. Inr (le_enc 2 0 @ n @ es)))
      else
        bindE (pack_le 2 (length entries)) (\<lambda>n.
        bindE (enc_entries 2 entries) (\<lambda>es. Inr (n @ es @ le_enc 2 0))))"

definition part_bounds :: "int \<Rightarrow> nat \<Rightarrow> (nat \<times> nat) res" where
  "part_bounds part_index file_size =
     (let part_start = part_index * int PARTSIZE in
      if part_start < 0 \<or> int file_size \<le> part_start then Inl AichError
      else Inr (nat part_start, min PARTSIZE (file_size - nat part_start)))"

definition aich_part_recovery_data :: "aich_result \<Rightarrow> int \<Rightarrow> bytes res" where
  "aich_part_recovery_data r part_index =
     (if ar_file_size r \<le> BLOCKSIZE then Inl AichError
      else
        bindE (part_bounds part_index (ar_file_size r)) (\<lambda>(part_start, part_size).
        bindE (materialize_aich_tree r) (\<lambda>root.
          if n_hash root \<noteq> ar_master_hash r then Inl AichError
          else bindE (part_walk part_start part_size root (if n_is_left root then 1 else 0))
            (\<lambda>(siblings, node, ident).
             recovery_blob (ar_file_size r) (siblings @ emit_leaves node ident)))))"

section \<open>Reading a recovery blob\<close>

fun dec_entries :: "nat \<Rightarrow> nat \<Rightarrow> bytes \<Rightarrow> nat \<Rightarrow> (nat \<rightharpoonup> bytes) \<Rightarrow> ((nat \<rightharpoonup> bytes) \<times> nat) res" where
  "dec_entries w 0 blob off m = Inr (m, off)"
| "dec_entries w (Suc n) blob off m =
     bindE (unpack_le w (py_slice off (off + w) blob)) (\<lambda>ident.
       dec_entries w n blob (off + w + 20)
         (m(ident \<mapsto> py_slice (off + w) (off + w + 20) blob)))"

definition aich_parse_recovery_data :: "bytes \<Rightarrow> (nat \<rightharpoonup> bytes) res" where
  "aich_parse_recovery_data blob =
     bindE (unpack_le 2 (py_slice 0 2 blob)) (\<lambda>count16.
     bindE (dec_entries 2 count16 blob 2 Map.empty) (\<lambda>(m, off).
     bindE (unpack_le 2 (py_slice off (off + 2) blob)) (\<lambda>count32.
     bindE (dec_entries 4 count32 blob (off + 2) m) (\<lambda>(m', _). Inr m'))))"

text \<open>
  The size-only walk to a part. The code's loop has no exit other than reaching the part, so it
  is a partial function: \<open>None\<close> is not returning. It yields the visited path, for each step
  whether the part is on the left and the identifier of the sibling.
\<close>

partial_function (option) part_path ::
  "nat \<Rightarrow> nat \<Rightarrow> nat \<Rightarrow> nat \<Rightarrow> nat \<Rightarrow> (nat \<times> (bool \<times> nat) list) option" where
  "part_path part_start part_size node_start node_size ident =
     (if node_start = part_start \<and> node_size = part_size then Some (ident, [])
      else
        let left_size = aich_left_size node_size (odd ident);
            go_left = part_start < node_start + left_size in
        if go_left then
          Option.bind (part_path part_start part_size node_start left_size (path_bit ident True))
            (\<lambda>(i, ch). Some (i, (True, path_bit ident False) # ch))
        else
          Option.bind (part_path part_start part_size (node_start + left_size) (node_size - left_size)
              (path_bit ident False))
            (\<lambda>(i, ch). Some (i, (False, path_bit ident True) # ch)))"

text \<open>The result is \<open>None\<close> where the loop does not return.\<close>

definition aich_part_path_ident :: "int \<Rightarrow> nat \<Rightarrow> (nat \<times> nat \<times> bool) res option" where
  "aich_part_path_ident part_index file_size =
     (case part_bounds part_index file_size of
        Inl e \<Rightarrow> Some (Inl e)
      | Inr (part_start, part_size) \<Rightarrow>
          map_option (\<lambda>(ident, _). Inr (ident, part_size, odd ident))
            (part_path part_start part_size 0 file_size 1))"

text \<open>A part holds at least one block (\<open>part_bounds\<close>), so the count is never 0 here.\<close>

function emit_idents :: "nat \<Rightarrow> nat \<Rightarrow> bool \<Rightarrow> nat list" where
  "emit_idents ident n is_left =
     (if n \<le> 1 then [path_bit ident is_left]
      else
        let i = path_bit ident is_left;
            left_count = (if is_left then (n + 1) div 2 else n div 2) in
        emit_idents i left_count True @ emit_idents i (n - left_count) False)"
  by pat_completeness auto
termination
  by (relation "measure (\<lambda>(ident, n, is_left). n)") auto

declare emit_idents.simps [simp del]

definition aich_subtree_leaf_idents :: "nat \<Rightarrow> nat \<Rightarrow> bool \<Rightarrow> nat list" where
  "aich_subtree_leaf_idents part_ident part_size part_is_left =
     emit_idents part_ident ((part_size + BLOCKSIZE - 1) div BLOCKSIZE) part_is_left"

fun lookup_all :: "(nat \<rightharpoonup> bytes) \<Rightarrow> nat list \<Rightarrow> bytes list res" where
  "lookup_all m [] = Inr []"
| "lookup_all m (i # is) =
     (case m i of None \<Rightarrow> Inl AichError
      | Some d \<Rightarrow> bindE (lookup_all m is) (\<lambda>ds. Inr (d # ds)))"

text \<open>Combining upwards: the chain is walked from the part to the root.\<close>

fun combine_chain :: "(nat \<rightharpoonup> bytes) \<Rightarrow> bytes \<Rightarrow> (bool \<times> nat) list \<Rightarrow> bytes res" where
  "combine_chain m combined [] = Inr combined"
| "combine_chain m combined ((part_left, i) # ch) =
     (case m i of None \<Rightarrow> Inl AichError
      | Some h \<Rightarrow> combine_chain m
          (if part_left then sha1_digest (combined @ h) else sha1_digest (h @ combined)) ch)"

definition aich_verified_part_blocks :: "bytes \<Rightarrow> int \<Rightarrow> nat \<Rightarrow> bytes \<Rightarrow> bytes list res option" where
  "aich_verified_part_blocks recovery part_index file_size expected_master =
     (case part_bounds part_index file_size of
        Inl e \<Rightarrow> Some (Inl e)
      | Inr (part_start, part_size) \<Rightarrow>
          map_option (\<lambda>(ident, chain).
             bindE (aich_parse_recovery_data recovery) (\<lambda>entries.
             bindE (lookup_all entries (aich_subtree_leaf_idents ident part_size (odd ident))) (\<lambda>blocks.
             bindE (build_tree blocks part_start part_size (odd ident)) (\<lambda>part.
             bindE (combine_chain entries (n_hash part) (rev chain)) (\<lambda>combined.
               if combined \<noteq> expected_master then Inl AichError else Inr blocks)))))
            (part_path part_start part_size 0 file_size 1))"

text \<open>The second client check: the master hash recomputed from the bytes of the part.\<close>

function resolve :: "(nat \<rightharpoonup> bytes) \<Rightarrow> nat \<Rightarrow> nat \<Rightarrow> bytes list \<Rightarrow> nat \<Rightarrow> nat \<Rightarrow> bool \<Rightarrow> nat \<Rightarrow> bytes option res" where
  "resolve entries part_start part_size hashes start sz is_left ident0 =
     (let ident = path_bit ident0 is_left in
      if ident \<in> dom entries \<and> sz \<le> BLOCKSIZE then Inr (entries ident)
      else if part_start \<le> start \<and> start + sz \<le> part_start + part_size then
        (let rel = start - part_start;
             sub = py_slice (rel div BLOCKSIZE) ((rel + sz + BLOCKSIZE - 1) div BLOCKSIZE) hashes in
         bindE (build_tree sub start sz is_left) (\<lambda>t. Inr (Some (n_hash t))))
      else if ident \<in> dom entries then Inr (entries ident)
      else if sz \<le> BLOCKSIZE then Inr None
      else
        let left_size = aich_left_size sz is_left in
        bindE (resolve entries part_start part_size hashes start left_size True ident) (\<lambda>l.
        bindE (resolve entries part_start part_size hashes (start + left_size) (sz - left_size) False ident) (\<lambda>r.
        case (l, r) of (Some lh, Some rh) \<Rightarrow> Inr (Some (sha1_digest (lh @ rh))) | _ \<Rightarrow> Inr None)))"
  by pat_completeness auto
termination
  by (relation "measure (\<lambda>(entries, part_start, part_size, hashes, start, sz, is_left, ident). sz)")
    (auto simp: not_le aich_left_size_bounds)

declare resolve.simps [simp del]

definition aich_rebuild_master_from_part :: "bytes \<Rightarrow> int \<Rightarrow> bytes \<Rightarrow> nat \<Rightarrow> bytes res" where
  "aich_rebuild_master_from_part part_data part_index recovery file_size =
     bindE (part_bounds part_index file_size) (\<lambda>(part_start, part_size).
       if length part_data \<noteq> part_size then Inl AichError
       else
         bindE (aich_parse_recovery_data recovery) (\<lambda>entries.
         bindE (aich_hash_data part_data) (\<lambda>part_result.
         bindE (resolve entries part_start part_size (ar_block_hashes part_result) 0 file_size True 0)
           (\<lambda>m. case m of None \<Rightarrow> Inl AichError | Some h \<Rightarrow> Inr h))))"

section \<open>What the tree is\<close>

function chunks :: "nat \<Rightarrow> 'a list \<Rightarrow> 'a list list" where
  "chunks n d = (if d = [] \<or> n = 0 then [] else take n d # chunks n (drop n d))"
  by pat_completeness auto
termination
  by (relation "measure (\<lambda>(n, d). length d)") auto

declare chunks.simps [simp del]

text \<open>The blocks of a file: every part is cut into blocks of its own.\<close>

definition aich_blocks :: "'a list \<Rightarrow> 'a list list" where
  "aich_blocks d = concat (map (chunks BLOCKSIZE) (chunks PARTSIZE d))"

function aich_tree :: "bytes \<Rightarrow> nat \<Rightarrow> nat \<Rightarrow> bool \<Rightarrow> aich_node" where
  "aich_tree d start sz is_left =
     (if sz \<le> BLOCKSIZE then Leaf start sz is_left (sha1_digest (py_slice start (start + sz) d))
      else
        let ls = aich_left_size sz is_left;
            l = aich_tree d start ls True;
            r = aich_tree d (start + ls) (sz - ls) False in
        Branch start sz is_left (sha1_digest (n_hash l @ n_hash r)) l r)"
  by pat_completeness auto
termination
  by (relation "measure (\<lambda>(d, start, sz, is_left). sz)") (auto simp: not_le aich_left_size_bounds)

declare aich_tree.simps [simp del]




lemma aich_tree_sel [simp]:
  "n_start (aich_tree d start sz b) = start" "n_size (aich_tree d start sz b) = sz"
  "n_is_left (aich_tree d start sz b) = b"
  by (subst aich_tree.simps; simp add: Let_def)+



lemma chunks_Nil [simp]: "chunks n [] = []"
  by (simp add: chunks.simps)

lemma chunks_short: "d \<noteq> [] \<Longrightarrow> length d \<le> n \<Longrightarrow> chunks n d = [d]"
  by (subst chunks.simps) (cases "n = 0"; simp)

lemma chunks_append:
  "0 < n \<Longrightarrow> length a = k * n \<Longrightarrow> chunks n (a @ b) = chunks n a @ chunks n b"
proof (induction k arbitrary: a)
  case (Suc k)
  then have ne: "a \<noteq> []" and le: "n \<le> length a" by auto
  have "chunks n (drop n a @ b) = chunks n (drop n a) @ chunks n b"
    by (rule Suc.IH) (use Suc.prems in simp_all)
  then show ?case
    using ne le Suc.prems by (subst (1 2) chunks.simps) simp
qed simp

lemma length_chunks: "0 < n \<Longrightarrow> length (chunks n d) = (length d + n - 1) div n"
proof (induction n d rule: chunks.induct)
  case (1 n d)
  show ?case
  proof (cases "d = []")
    case True
    with "1.prems" show ?thesis by simp
  next
    case False
    with 1 have e: "length (chunks n d) = Suc ((length d - n + n - 1) div n)"
      by (subst chunks.simps) simp
    show ?thesis
    proof (cases "length d \<le> n")
      case True
      have d: "1 \<le> length d" using False by (simp add: Suc_le_eq)
      have "length d + n - 1 = n + (length d - 1)" using d by simp
      moreover have "(n + (length d - 1)) div n = Suc ((length d - 1) div n)" using "1.prems" by simp
      moreover have "(length d - 1) div n = 0" using True d "1.prems" by simp
      moreover have "(length d - n + n - 1) div n = 0" using True "1.prems" by simp
      ultimately show ?thesis using e by simp
    next
      case False
      then have "length d + n - 1 = n + (length d - n + n - 1)" using "1.prems" by simp
      then show ?thesis using e "1.prems" by (metis div_add_self1 less_not_refl2 Suc_eq_plus1)
    qed
  qed
qed

lemma aich_blocks_part: "length d \<le> PARTSIZE \<Longrightarrow> aich_blocks d = chunks BLOCKSIZE d"
  by (cases "d = []") (simp_all add: aich_blocks_def chunks_short)

lemma aich_blocks_append: "length a = k * PARTSIZE \<Longrightarrow> aich_blocks (a @ b) = aich_blocks a @ aich_blocks b"
  by (simp add: aich_blocks_def chunks_append PARTSIZE_def)

text \<open>Where a node is cut: at a multiple of its base.\<close>

lemma aich_left_size_multiple: "\<exists>k. aich_left_size sz b = k * aich_base sz"
  by (auto simp: aich_left_size_def Let_def)

lemma aich_blocks_split:
  assumes "BLOCKSIZE < length d" and ls: "ls = aich_left_size (length d) b"
  shows "aich_blocks d = aich_blocks (take ls d) @ aich_blocks (drop ls d)"
proof -
  have lt: "ls < length d" using aich_left_size_bounds(2) [OF assms(1)] by (simp add: ls)
  then have len: "length (take ls d) = ls" by simp
  obtain k where k: "ls = k * aich_base (length d)" using aich_left_size_multiple ls by blast
  show ?thesis
  proof (cases "length d \<le> PARTSIZE")
    case True
    then have "chunks BLOCKSIZE (take ls d @ drop ls d) = chunks BLOCKSIZE (take ls d) @ chunks BLOCKSIZE (drop ls d)"
      using len k by (intro chunks_append [where k = k]) (simp_all add: BLOCKSIZE_def aich_base_def)
    then show ?thesis using True by (simp add: aich_blocks_part)
  next
    case False
    then have "aich_blocks (take ls d @ drop ls d) = aich_blocks (take ls d) @ aich_blocks (drop ls d)"
      using len k by (intro aich_blocks_append [where k = k]) (simp_all add: aich_base_def)
    then show ?thesis by simp
  qed
qed

lemma aich_blocks_single: "d \<noteq> [] \<Longrightarrow> length d \<le> BLOCKSIZE \<Longrightarrow> aich_blocks d = [d]"
  by (simp add: aich_blocks_part chunks_short BLOCKSIZE_def PARTSIZE_def)


lemma length_aich_blocks_parts: "length d = k * PARTSIZE \<Longrightarrow> length (aich_blocks d) = 53 * k"
proof (induction k arbitrary: d)
  case 0
  then show ?case by (simp add: aich_blocks_def)
next
  case (Suc k)
  have t: "length (take PARTSIZE d) = PARTSIZE" using Suc.prems by simp
  have "aich_blocks (take PARTSIZE d @ drop PARTSIZE d) =
      aich_blocks (take PARTSIZE d) @ aich_blocks (drop PARTSIZE d)"
    using t by (intro aich_blocks_append [where k = 1]) simp
  moreover have "length (aich_blocks (take PARTSIZE d)) = 53"
    using aich_blocks_part [of "take PARTSIZE d"] length_chunks [of BLOCKSIZE "take PARTSIZE d"] t
    by (simp add: BLOCKSIZE_def PARTSIZE_def)
  moreover have "length (aich_blocks (drop PARTSIZE d)) = 53 * k"
    by (rule Suc.IH) (use Suc.prems in simp)
  ultimately show ?case by simp
qed

text \<open>
  The number of leaves the code gives the left branch, \<open>ceil (left_size / BLOCKSIZE)\<close>, is the
  number of blocks of that branch only up to four parts: a part has 53 blocks, the last one short.
\<close>

lemma left_leaves_parts:
  "(k * PARTSIZE + BLOCKSIZE - 1) div BLOCKSIZE \<le> 53 * k"
  "k \<le> 4 \<Longrightarrow> (k * PARTSIZE + BLOCKSIZE - 1) div BLOCKSIZE = 53 * k"
  "5 \<le> k \<Longrightarrow> (k * PARTSIZE + BLOCKSIZE - 1) div BLOCKSIZE < 53 * k"
proof -
  have "k * PARTSIZE + BLOCKSIZE - 1 < (53 * k + 1) * BLOCKSIZE"
    by (simp add: PARTSIZE_def BLOCKSIZE_def)
  then have "(k * PARTSIZE + BLOCKSIZE - 1) div BLOCKSIZE < 53 * k + 1"
    by (rule less_mult_imp_div_less)
  then show "(k * PARTSIZE + BLOCKSIZE - 1) div BLOCKSIZE \<le> 53 * k" by simp
  show "k \<le> 4 \<Longrightarrow> (k * PARTSIZE + BLOCKSIZE - 1) div BLOCKSIZE = 53 * k"
  proof -
    assume "k \<le> 4"
    then have "k = 0 \<or> k = 1 \<or> k = 2 \<or> k = 3 \<or> k = 4" by linarith
    then show ?thesis by (elim disjE) (simp_all add: PARTSIZE_def BLOCKSIZE_def)
  qed
  assume "5 \<le> k"
  then have "k * PARTSIZE + BLOCKSIZE - 1 < (53 * k) * BLOCKSIZE"
    by (simp add: PARTSIZE_def BLOCKSIZE_def)
  then show "(k * PARTSIZE + BLOCKSIZE - 1) div BLOCKSIZE < 53 * k"
    by (rule less_mult_imp_div_less)
qed

lemma aich_left_size_parts:
  assumes "PARTSIZE < sz"
  obtains k where "aich_left_size sz b = k * PARTSIZE"
    and "sz \<le> 8 * PARTSIZE \<Longrightarrow> k \<le> 4" and "8 * PARTSIZE < sz \<Longrightarrow> b \<Longrightarrow> 5 \<le> k"
proof -
  define n where "n = (sz + PARTSIZE - 1) div PARTSIZE"
  have up: "n \<le> 8" if "sz \<le> 8 * PARTSIZE"
  proof -
    have "sz + PARTSIZE - 1 < 9 * PARTSIZE" using that by (simp add: PARTSIZE_def)
    then have "n < 9" unfolding n_def by (rule less_mult_imp_div_less)
    then show ?thesis by simp
  qed
  have lo: "9 \<le> n" if "8 * PARTSIZE < sz"
  proof -
    have "9 * PARTSIZE \<le> sz + PARTSIZE - 1" using that by (simp add: PARTSIZE_def)
    then have "9 * PARTSIZE div PARTSIZE \<le> n" unfolding n_def by (rule div_le_mono)
    then show ?thesis by (simp add: PARTSIZE_def)
  qed
  have base: "aich_base sz = PARTSIZE" using assms by (simp add: aich_base_def)
  let ?h = "if b then (n + 1) div 2 else n div 2"
  have mult: "n * PARTSIZE \<le> sz + PARTSIZE - 1" by (simp add: n_def)
  have e: "aich_left_size sz b = (if sz \<le> ?h * PARTSIZE then n div 2 * PARTSIZE else ?h * PARTSIZE)"
    by (simp add: aich_left_size_def base n_def Let_def)
  have nov: "\<not> sz \<le> ?h * PARTSIZE" if "8 * PARTSIZE < sz" "b"
  proof -
    have "(n + 1) div 2 + 1 \<le> n" using lo [OF that(1)] by simp
    then have "((n + 1) div 2 + 1) * PARTSIZE \<le> n * PARTSIZE" by (rule mult_le_mono1)
    then show ?thesis using mult that(2) by (simp add: PARTSIZE_def)
  qed
  show thesis
  proof (cases "sz \<le> ?h * PARTSIZE")
    case True
    show thesis
      by (rule that [of "n div 2"]) (use e True up nov in auto)
  next
    case False
    show thesis
      by (rule that [of ?h]) (use e False up lo in auto)
  qed
qed

lemma left_leaves_eq:
  assumes "BLOCKSIZE < length d" and "length d \<le> 8 * PARTSIZE" and ls: "ls = aich_left_size (length d) b"
  shows "length (aich_blocks (take ls d)) = (ls + BLOCKSIZE - 1) div BLOCKSIZE"
proof (cases "length d \<le> PARTSIZE")
  case True
  then show ?thesis
    using aich_left_size_bounds(2) [OF assms(1), of b] ls
    by (simp add: aich_blocks_part length_chunks BLOCKSIZE_def)
next
  case False
  then obtain k where k: "ls = k * PARTSIZE" "k \<le> 4"
    using aich_left_size_parts [of "length d" b] assms(2) ls by (metis not_le)
  have "length (take ls d) = ls"
    using aich_left_size_bounds(2) [OF assms(1), of b] ls by simp
  then show ?thesis using k length_aich_blocks_parts [of "take ls d" k] left_leaves_parts(2) [of k] by simp
qed


text \<open>With too few leaves no tree is built: the only error is the missing leaf.\<close>

lemma build_tree_error: "build_tree leaves start sz b = Inl e \<Longrightarrow> e = IndexError"
proof (induction leaves start sz b rule: build_tree.induct)
  case (1 leaves start sz b)
  show ?case
  proof (cases "sz \<le> BLOCKSIZE")
    case True
    with "1.prems" show ?thesis by (simp add: build_tree.simps split: list.splits)
  next
    case False
    let ?ls = "aich_left_size sz b"
    have g: "\<not> (?ls = 0 \<or> sz \<le> ?ls)" using aich_left_size_bounds [of sz b] False by simp
    note IH = "1.IH" [OF False refl g refl]
    show ?thesis
      using "1.prems" False g IH
      by (subst (asm) build_tree.simps) (auto simp: Let_def bindE_def split: sum.splits)
  qed
qed

lemma left_leaves_le:
  assumes "BLOCKSIZE < length d" and ls: "ls = aich_left_size (length d) b"
  shows "(ls + BLOCKSIZE - 1) div BLOCKSIZE \<le> length (aich_blocks (take ls d))"
proof (cases "length d \<le> PARTSIZE")
  case True
  then have "length d \<le> 8 * PARTSIZE" by simp
  then show ?thesis using left_leaves_eq [OF assms(1) _ ls] by simp
next
  case False
  then obtain k where k: "ls = k * PARTSIZE"
    using aich_left_size_parts [of "length d" b] ls by (metis not_le)
  have "length (take ls d) = ls"
    using aich_left_size_bounds(2) [OF assms(1), of b] ls by simp
  then show ?thesis using k length_aich_blocks_parts [of "take ls d" k] left_leaves_parts(1) [of k] by simp
qed

lemma build_tree_step:
  assumes "BLOCKSIZE < sz" and "build_tree leaves start sz b = Inr t"
    and "ls = aich_left_size sz b" and "c = (ls + BLOCKSIZE - 1) div BLOCKSIZE"
  obtains l r where "build_tree (take c leaves) start ls True = Inr l"
    and "build_tree (drop c leaves) (start + ls) (sz - ls) False = Inr r"
  using assms by (subst (asm) build_tree.simps) (auto simp: Let_def bindE_eq_Inr_conv split: if_splits)

lemma build_tree_enough:
  "build_tree leaves start sz b = Inr t \<Longrightarrow> length d = sz \<Longrightarrow> length (aich_blocks d) \<le> length leaves"
proof (induction sz arbitrary: leaves start b t d rule: less_induct)
  case (less sz)
  show ?case
  proof (cases "sz \<le> BLOCKSIZE")
    case True
    then have "leaves \<noteq> []" using less.prems by (cases leaves) (simp_all add: build_tree.simps)
    moreover have "length (aich_blocks d) \<le> 1"
      using True less.prems by (cases "d = []") (simp_all add: aich_blocks_single, simp add: aich_blocks_def)
    ultimately show ?thesis by (cases leaves) simp_all
  next
    case False
    define ls c where "ls = aich_left_size sz b" and "c = (ls + BLOCKSIZE - 1) div BLOCKSIZE"
    have b: "0 < ls" "ls < sz" using False by (simp_all add: ls_def aich_left_size_bounds)
    obtain l r where
      l: "build_tree (take c leaves) start ls True = Inr l" and
      r: "build_tree (drop c leaves) (start + ls) (sz - ls) False = Inr r"
      using build_tree_step [OF _ less.prems(1) ls_def c_def] False by auto
    have il: "length (aich_blocks (take ls d)) \<le> length (take c leaves)"
      by (rule less.IH [OF b(2) l]) (use b less.prems in simp)
    have ir: "length (aich_blocks (drop ls d)) \<le> length (drop c leaves)"
      by (rule less.IH [OF _ r]) (use b less.prems in simp_all)
    have cle: "c \<le> length (aich_blocks (take ls d))"
      unfolding c_def by (rule left_leaves_le [of _ _ b]) (use less.prems ls_def False in simp_all)
    have "aich_blocks d = aich_blocks (take ls d) @ aich_blocks (drop ls d)"
      by (rule aich_blocks_split [of _ _ b]) (use less.prems ls_def False in simp_all)
    then have "length (aich_blocks d) = length (aich_blocks (take ls d)) + length (aich_blocks (drop ls d))"
      by simp
    then show ?thesis using il ir cle unfolding length_take length_drop by linarith
  qed
qed

lemma build_tree_large:
  assumes "8 * PARTSIZE < sz"
  shows "build_tree leaves start sz True = Inl IndexError"
proof (cases "build_tree leaves start sz True")
  case (Inl e)
  then show ?thesis using build_tree_error by blast
next
  case (Inr t)
  define ls c where "ls = aich_left_size sz True" and "c = (ls + BLOCKSIZE - 1) div BLOCKSIZE"
  have big: "BLOCKSIZE < sz" "PARTSIZE < sz" using assms by (simp_all add: PARTSIZE_def BLOCKSIZE_def)
  then obtain k where k: "ls = k * PARTSIZE" "5 \<le> k"
    using aich_left_size_parts [of sz True] assms ls_def by metis
  obtain l where l: "build_tree (take c leaves) start ls True = Inr l"
    using build_tree_step [OF big(1) Inr ls_def c_def] by blast
  have "53 * k \<le> length (take c leaves)"
    using build_tree_enough [OF l, of "replicate ls ()"] length_aich_blocks_parts [of "replicate ls ()" k] k
    by simp
  moreover have "c < 53 * k" using left_leaves_parts(3) [OF k(2)] by (simp add: c_def k(1))
  ultimately show ?thesis by simp
qed

section \<open>Properties\<close>






text \<open>
  C8. Above eight parts the recovery data of no part can be produced: the leaf count given to the
  left branch is too small and rebuilding the tree runs out of leaves, whatever the hashes.
\<close>

theorem aich_recovery_fails_large:
  assumes "8 * PARTSIZE < ar_file_size r" and "0 \<le> i" and "i * int PARTSIZE < int (ar_file_size r)"
  shows "aich_part_recovery_data r i = Inl IndexError"
proof -
  have "\<not> ar_file_size r \<le> BLOCKSIZE" using assms(1) by (simp add: PARTSIZE_def BLOCKSIZE_def)
  moreover have "\<exists>x. part_bounds i (ar_file_size r) = Inr x"
    using assms(2,3) by (simp add: part_bounds_def Let_def mult_less_0_iff not_le PARTSIZE_def)
  ultimately show ?thesis
    using build_tree_large [OF assms(1)]
    by (auto simp: aich_part_recovery_data_def materialize_aich_tree_def split: prod.split)
qed

theorem aich_recovery_fails_large_witness:
  "aich_part_recovery_data \<lparr>ar_file_size = 87552000, ar_master_hash = replicate 20 0,
     ar_block_hashes = replicate 477 (replicate 20 0)\<rparr> 3 = Inl IndexError"
  by (rule aich_recovery_fails_large) (simp_all add: PARTSIZE_def)

end
