(* ===== verification/Py_String.thy ===== *)
theory Py_String
  imports Prelude
begin

text \<open>
  The methods of Python's \<open>str\<close> and the conversions the components use on short text (hashes,
  addresses, configuration values, names), on strings of Latin-1 characters: a \<open>char\<close> is a
  code point below 256.
\<close>

section \<open>Case and white space\<close>

definition code :: "char \<Rightarrow> nat" where
  "code c = of_char c"

lemma code_less: "code c < 256"
  by (simp add: code_def)

lemma code_inject: "code c = code d \<longleftrightarrow> c = d"
  by (simp add: code_def)

definition is_space :: "char \<Rightarrow> bool" where
  "is_space c \<longleftrightarrow> (let n = code c in (9 \<le> n \<and> n \<le> 13) \<or> (28 \<le> n \<and> n \<le> 32) \<or> n = 133 \<or> n = 160)"

definition py_strip :: "string \<Rightarrow> string" where
  "py_strip s = rev (dropWhile is_space (rev (dropWhile is_space s)))"

definition lower_char :: "char \<Rightarrow> char" where
  "lower_char c = (let n = code c in
     if (65 \<le> n \<and> n \<le> 90) \<or> (192 \<le> n \<and> n \<le> 222 \<and> n \<noteq> 215) then char_of (n + 32) else c)"

definition py_lower :: "string \<Rightarrow> string" where
  "py_lower s = map lower_char s"

lemma code_char_of: "n < 256 \<Longrightarrow> code (char_of n) = n"
  by (simp add: code_def of_char_of)

lemma lower_char_idem [simp]: "lower_char (lower_char c) = lower_char c"
  by (simp add: lower_char_def Let_def code_char_of)

lemma py_lower_idem [simp]: "py_lower (py_lower s) = py_lower s"
  by (simp add: py_lower_def)

lemma length_py_lower [simp]: "length (py_lower s) = length s"
  by (simp add: py_lower_def)

text \<open>Upper case of ASCII letters, all that is asked of hexadecimal text.\<close>

definition upper_char :: "char \<Rightarrow> char" where
  "upper_char c = (let n = code c in if 97 \<le> n \<and> n \<le> 122 then char_of (n - 32) else c)"

lemma upper_char_idem [simp]: "upper_char (upper_char c) = upper_char c"
proof -
  have "code c - 32 < 256" using code_less [of c] by simp
  then show ?thesis by (auto simp: upper_char_def Let_def code_char_of)
qed

section \<open>Searching and splitting\<close>

text \<open>\<open>t in s\<close> for strings.\<close>

fun substring :: "string \<Rightarrow> string \<Rightarrow> bool" where
  "substring t s = (take (length t) s = t \<or> (case s of [] \<Rightarrow> False | _ # s' \<Rightarrow> substring t s'))"

declare substring.simps [simp del]

lemma substring_iff: "substring t s \<longleftrightarrow> (\<exists>u v. s = u @ t @ v)"
proof (induction s)
  case Nil
  then show ?case by (subst substring.simps) auto
next
  case (Cons c s)
  show ?case
  proof
    assume "substring t (c # s)"
    then consider "take (length t) (c # s) = t" | "substring t s"
      by (subst (asm) substring.simps) auto
    then show "\<exists>u v. c # s = u @ t @ v"
    proof cases
      case 1
      then have "c # s = [] @ t @ drop (length t) (c # s)" by (metis append_Nil append_take_drop_id)
      then show ?thesis by blast
    next
      case 2
      with Cons obtain u v where "s = u @ t @ v" by blast
      then have "c # s = (c # u) @ t @ v" by simp
      then show ?thesis by blast
    qed
  next
    assume "\<exists>u v. c # s = u @ t @ v"
    then obtain u v where e: "c # s = u @ t @ v" by blast
    show "substring t (c # s)"
    proof (cases u)
      case Nil
      then have "take (length t) (c # s) = t" using e by simp
      then show ?thesis by (subst substring.simps) blast
    next
      case (Cons d u')
      then have "s = u' @ t @ v" using e by simp
      then have "substring t s" using Cons.IH by blast
      then show ?thesis by (subst substring.simps) simp
    qed
  qed
qed

text \<open>\<open>s.split(c)\<close> for a one-character separator: never empty.\<close>

fun py_split :: "char \<Rightarrow> string \<Rightarrow> string list" where
  "py_split c [] = [[]]"
| "py_split c (d # s) =
     (if d = c then [] # py_split c s
      else case py_split c s of [] \<Rightarrow> [[d]] | w # ws \<Rightarrow> (d # w) # ws)"

lemma py_split_not_Nil [simp]: "py_split c s \<noteq> []"
  by (cases s) (auto split: list.splits)

lemma py_split_word: "c \<notin> set w \<Longrightarrow> py_split c w = [w]"
  by (induction w) auto

lemma py_split_append: "c \<notin> set w \<Longrightarrow> py_split c (w @ c # s) = w # py_split c s"
  by (induction w) auto

lemma py_split_sep: "w \<in> set (py_split c s) \<Longrightarrow> c \<notin> set w"
  by (induction s arbitrary: w) (auto split: list.splits if_splits)

definition starts_with :: "string \<Rightarrow> string \<Rightarrow> bool" where
  "starts_with t s = (take (length t) s = t)"

text \<open>\<open>s.partition(c)\<close> without the separator itself.\<close>

definition py_partition :: "char \<Rightarrow> string \<Rightarrow> string \<times> string" where
  "py_partition c s = (takeWhile (\<lambda>d. d \<noteq> c) s, tl (dropWhile (\<lambda>d. d \<noteq> c) s))"

text \<open>\<open>s.replace(c, t)\<close> for a one-character pattern.\<close>

definition py_replace :: "char \<Rightarrow> string \<Rightarrow> string \<Rightarrow> string" where
  "py_replace c t s = concat (map (\<lambda>d. if d = c then t else [d]) s)"

section \<open>Numbers\<close>

definition is_digit :: "char \<Rightarrow> bool" where
  "is_digit c \<longleftrightarrow> 48 \<le> code c \<and> code c \<le> 57"

definition digit_val :: "char \<Rightarrow> nat" where
  "digit_val c = code c - 48"

text \<open>
  Digits with single underscores between them, as \<open>int(s)\<close> accepts; the flag says whether the
  previous character was a digit.
\<close>

fun digits_val :: "bool \<Rightarrow> nat \<Rightarrow> string \<Rightarrow> nat option" where
  "digits_val prev acc [] = (if prev then Some acc else None)"
| "digits_val prev acc (c # s) =
     (if is_digit c then digits_val True (10 * acc + digit_val c) s
      else if c = CHR ''_'' \<and> prev then digits_val False acc s
      else None)"

definition py_int :: "string \<Rightarrow> int option" where
  "py_int s =
     (case py_strip s of
        [] \<Rightarrow> None
      | c # t \<Rightarrow>
          if c = CHR ''-'' then map_option (\<lambda>n. - int n) (digits_val False 0 t)
          else if c = CHR ''+'' then map_option int (digits_val False 0 t)
          else map_option int (digits_val False 0 (c # t)))"

function show_nat :: "nat \<Rightarrow> string" where
  "show_nat n = (if n < 10 then [char_of (48 + n)] else show_nat (n div 10) @ [char_of (48 + n mod 10)])"
  by pat_completeness auto
termination
  by (relation "measure id") auto

declare show_nat.simps [simp del]

definition show_int :: "int \<Rightarrow> string" where
  "show_int i = (if i < 0 then CHR ''-'' # show_nat (nat (- i)) else show_nat (nat i))"

lemma code_digit: "d < 10 \<Longrightarrow> code (char_of (48 + d)) = 48 + d"
  by (rule code_char_of) simp

lemma digits_val_append:
  "s \<noteq> [] \<Longrightarrow> list_all is_digit s \<Longrightarrow>
   digits_val b acc (s @ t) = digits_val True (the (digits_val b acc s)) t"
  by (induction s arbitrary: b acc) (auto split: list.splits, metis append_Nil digits_val.simps(1) option.sel)

lemma show_nat_digits: "list_all is_digit (show_nat n) \<and> show_nat n \<noteq> []"
proof (induction n rule: show_nat.induct)
  case (1 n)
  have d: "is_digit (char_of (48 + k))" if "k < 10" for k :: nat
    using code_digit [OF that] that by (simp add: is_digit_def)
  show ?case
  proof (cases "n < 10")
    case True
    then show ?thesis by (subst (1 2) show_nat.simps) (simp add: d)
  next
    case False
    then show ?thesis using 1 by (subst (1 2) show_nat.simps) (simp add: d)
  qed
qed

lemma digits_val_show_nat: "digits_val False 0 (show_nat n) = Some n"
proof (induction n rule: show_nat.induct)
  case (1 n)
  have v: "digits_val b acc [char_of (48 + k)] = Some (10 * acc + k)" if "k < 10" for b acc and k :: nat
    using code_digit [OF that] that by (simp add: is_digit_def digit_val_def)
  show ?case
  proof (cases "n < 10")
    case True
    then show ?thesis by (subst show_nat.simps) (simp only: if_True v, simp)
  next
    case False
    then have "digits_val False 0 (show_nat n) =
        digits_val True (the (digits_val False 0 (show_nat (n div 10)))) [char_of (48 + n mod 10)]"
      using show_nat_digits by (subst show_nat.simps) (simp add: digits_val_append del: digits_val.simps)
    also have "\<dots> = Some n"
      using 1 [OF False] v [of "n mod 10" True "n div 10"] by (simp del: digits_val.simps)
    finally show ?thesis .
  qed
qed

lemma digit_not_space: "is_digit c \<Longrightarrow> \<not> is_space c"
  by (auto simp: is_digit_def is_space_def Let_def)

lemma py_strip_id: "s \<noteq> [] \<Longrightarrow> \<not> is_space (hd s) \<Longrightarrow> \<not> is_space (last s) \<Longrightarrow> py_strip s = s"
proof -
  assume a: "s \<noteq> []" "\<not> is_space (hd s)" "\<not> is_space (last s)"
  have d: "x \<noteq> [] \<Longrightarrow> \<not> is_space (hd x) \<Longrightarrow> dropWhile is_space x = x" for x
    by (cases x) auto
  show ?thesis using a d [of s] d [of "rev s"] by (simp add: py_strip_def hd_rev)
qed

lemma code_CHR: "code (CHR ''-'') = 45" "code (CHR ''+'') = 43" "code (CHR ''_'') = 95"
  by (simp_all add: code_def)

lemma py_int_show_int: "py_int (show_int i) = Some i"
proof (cases "i < 0")
  case True
  let ?s = "show_nat (nat (- i))"
  have s: "list_all is_digit ?s" "?s \<noteq> []" using show_nat_digits by auto
  have "last ?s \<in> set ?s" using s(2) by simp
  then have "\<not> is_space (last ?s)" using s(1) digit_not_space by (auto simp: list_all_iff)
  moreover have "\<not> is_space (CHR ''-'')" by (simp add: is_space_def code_CHR)
  ultimately have "py_strip (CHR ''-'' # ?s) = CHR ''-'' # ?s"
    using s(2) by (intro py_strip_id) simp_all
  then show ?thesis using True by (simp add: py_int_def show_int_def digits_val_show_nat)
next
  case False
  let ?s = "show_nat (nat i)"
  have s: "list_all is_digit ?s" "?s \<noteq> []" using show_nat_digits by auto
  then obtain c t where ct: "?s = c # t" by (cases ?s) auto
  have "last ?s \<in> set ?s" using s(2) by simp
  then have "\<not> is_space (last ?s)" "\<not> is_space (hd ?s)"
    using s(1) ct digit_not_space by (auto simp: list_all_iff)
  then have "py_strip ?s = ?s" using s(2) by (intro py_strip_id) simp_all
  moreover have "c \<noteq> CHR ''-''" "c \<noteq> CHR ''+''"
    using s(1) ct by (auto simp: is_digit_def code_CHR)
  ultimately show ?thesis using False digits_val_show_nat [of "nat i"] ct
    by (simp add: py_int_def show_int_def del: digits_val.simps)
qed

section \<open>Hexadecimal text\<close>

definition hex_val :: "char \<Rightarrow> nat option" where
  "hex_val c = (let n = code c in
     if 48 \<le> n \<and> n \<le> 57 then Some (n - 48)
     else if 97 \<le> n \<and> n \<le> 102 then Some (n - 87)
     else if 65 \<le> n \<and> n \<le> 70 then Some (n - 55) else None)"

definition is_ascii_space :: "char \<Rightarrow> bool" where
  "is_ascii_space c \<longleftrightarrow> (9 \<le> code c \<and> code c \<le> 13) \<or> code c = 32"

text \<open>\<open>bytes.fromhex\<close>: ASCII white space is skipped before each pair of digits.\<close>

fun from_hex :: "string \<Rightarrow> bytes option" where
  "from_hex [] = Some []"
| "from_hex (c # s) =
     (if is_ascii_space c then from_hex s
      else case s of [] \<Rightarrow> None
        | d # s' \<Rightarrow> (case (hex_val c, hex_val d) of
            (Some h, Some l) \<Rightarrow> map_option ((#) (word_of_nat (16 * h + l))) (from_hex s')
          | _ \<Rightarrow> None))"

definition hex_digit :: "nat \<Rightarrow> char" where
  "hex_digit n = char_of (if n < 10 then 48 + n else 87 + n)"

definition to_hex :: "bytes \<Rightarrow> string" where
  "to_hex bs = concat (map (\<lambda>b. [hex_digit (unat b div 16), hex_digit (unat b mod 16)]) bs)"

lemma code_hex_digit: "n < 16 \<Longrightarrow> code (hex_digit n) = (if n < 10 then 48 + n else 87 + n)"
  by (simp add: hex_digit_def code_char_of)

lemma hex_val_digit: "n < 16 \<Longrightarrow> hex_val (hex_digit n) = Some n"
  by (simp add: hex_val_def code_hex_digit Let_def)

lemma hex_val_upper: "n < 16 \<Longrightarrow> hex_val (upper_char (hex_digit n)) = Some n"
  by (auto simp: hex_val_def upper_char_def code_hex_digit code_char_of Let_def)

lemma hex_digit_not_space: "n < 16 \<Longrightarrow> \<not> is_ascii_space (hex_digit n)"
  "n < 16 \<Longrightarrow> \<not> is_ascii_space (upper_char (hex_digit n))"
  by (auto simp: is_ascii_space_def upper_char_def code_hex_digit code_char_of Let_def)

lemma nibbles: "unat b div 16 < 16" "unat b mod 16 < 16" "16 * (unat b div 16) + unat b mod 16 = unat b"
  for b :: byte
  using unsigned_less [of b, where ?'a = nat] by simp_all

lemma to_hex_Cons [simp]:
  "to_hex [] = []"
  "to_hex (b # bs) = hex_digit (unat b div 16) # hex_digit (unat b mod 16) # to_hex bs"
  by (simp_all add: to_hex_def)

lemma length_to_hex [simp]: "length (to_hex bs) = 2 * length bs"
  by (induction bs) auto

lemma from_hex_to_hex: "from_hex (to_hex bs) = Some bs"
  by (induction bs) (simp_all add: hex_digit_not_space nibbles hex_val_digit)

lemma from_hex_to_hex_upper: "from_hex (map upper_char (to_hex bs)) = Some bs"
  by (induction bs) (simp_all add: hex_digit_not_space nibbles hex_val_upper)

section \<open>Dotted addresses\<close>

text \<open>\<open>str(IPv4Address(n))\<close> for \<open>n\<close> below \<open>2 ^ 32\<close>.\<close>

definition ipv4_str :: "nat \<Rightarrow> string" where
  "ipv4_str n = show_nat (n div 2 ^ 24) @ ''.'' @ show_nat (n div 2 ^ 16 mod 256) @ ''.'' @
     show_nat (n div 2 ^ 8 mod 256) @ ''.'' @ show_nat (n mod 256)"

end
