(* ===== verification/Part_File.thy ===== *)
theory Part_File
  imports Py_String "HOL-Library.Product_Lexorder"
begin

text \<open>
  \<open>core/download/partfile.py\<close>: the gap list of an incomplete download, the data file it
  describes and the sidecar it is resumed from. Gap lists are related to the set of missing
  offsets: a normalised list is the canonical list of its set, filling removes an interval,
  punching adds one. The locale \<open>gap_store\<close> is the interface its clients use.
\<close>

section \<open>Gaps\<close>

datatype gap = Gap (gap_start: int) (gap_end: int)

definition gap_length :: "gap \<Rightarrow> int" where
  "gap_length g = gap_end g - gap_start g"

definition clip_gaps :: "gap list \<Rightarrow> int \<Rightarrow> (int \<times> int) list" where
  "clip_gaps gs tot =
     filter (\<lambda>(s, e). s < e)
       (map (\<lambda>g. (max 0 (min (gap_start g) tot), max 0 (min (gap_end g) tot))) gs)"

text \<open>The merging loop; the head of the list is the last merged gap of the code.\<close>

fun merge_gaps :: "(int \<times> int) list \<Rightarrow> gap list" where
  "merge_gaps [] = []"
| "merge_gaps [(s, e)] = [Gap s e]"
| "merge_gaps ((s, e) # (s', e') # gs) =
     (if s' \<le> e then merge_gaps ((s, max e e') # gs) else Gap s e # merge_gaps ((s', e') # gs))"

definition normalize_gaps :: "gap list \<Rightarrow> int \<Rightarrow> gap list" where
  "normalize_gaps gs tot = merge_gaps (sort (clip_gaps gs tot))"

definition cut_gap :: "int \<Rightarrow> int \<Rightarrow> gap \<Rightarrow> gap list" where
  "cut_gap start stop g =
     (if stop \<le> gap_start g \<or> gap_end g \<le> start then [g]
      else (if gap_start g < start then [Gap (gap_start g) start] else []) @
           (if stop < gap_end g then [Gap stop (gap_end g)] else []))"

section \<open>The part file\<close>

text \<open>
  The file system as far as one download sees it: the data file, if it exists, and the
  sidecar. \<open>json.dump\<close> and \<open>json.load\<close> of the payload give the payload back; a key that
  may be missing is an option.
\<close>

record sidecar =
  sc_file_hash :: string
  sc_name :: string
  sc_total_size :: int
  sc_sparse :: "bool option"
  sc_gaps :: "gap list"
  sc_chunk_bitmap :: "bool list"

record disk =
  d_data :: "bytes option"
  d_sidecar :: "sidecar option"

record part_file =
  pf_total_size :: int
  pf_file_hash :: string
  pf_name :: string
  pf_sparse :: bool
  pf_gaps :: "gap list"

definition mk_part_file :: "int \<Rightarrow> string \<Rightarrow> string \<Rightarrow> bool \<Rightarrow> part_file res" where
  "mk_part_file total_size file_hash name sparse =
     (if total_size \<le> 0 then Inl PartFileError
      else Inr \<lparr>pf_total_size = total_size, pf_file_hash = map upper_char file_hash, pf_name = name,
                pf_sparse = sparse, pf_gaps = [Gap 0 total_size]\<rparr>)"

definition ED2K_CHUNK_SIZE :: int where "ED2K_CHUNK_SIZE = 9728400"

definition remaining_bytes :: "part_file \<Rightarrow> int" where
  "remaining_bytes p = sum_list (map gap_length (pf_gaps p))"

definition downloaded_bytes :: "part_file \<Rightarrow> int" where
  "downloaded_bytes p = pf_total_size p - remaining_bytes p"

definition is_complete :: "part_file \<Rightarrow> bool" where
  "is_complete p \<longleftrightarrow> pf_gaps p = []"

definition chunk_count :: "part_file \<Rightarrow> int" where
  "chunk_count p =
     pf_total_size p div ED2K_CHUNK_SIZE + (if pf_total_size p mod ED2K_CHUNK_SIZE \<noteq> 0 then 1 else 0)"

definition chunk_complete :: "part_file \<Rightarrow> int \<Rightarrow> bool" where
  "chunk_complete p index =
     (let chunk_start = index * ED2K_CHUNK_SIZE;
          chunk_end = min (chunk_start + ED2K_CHUNK_SIZE) (pf_total_size p) in
      \<not> list_ex (\<lambda>g. gap_start g < chunk_end \<and> gap_end g > chunk_start) (pf_gaps p))"

definition chunk_bitmap :: "part_file \<Rightarrow> bool list" where
  "chunk_bitmap p = map (\<lambda>i. chunk_complete p (int i)) [0..<nat (chunk_count p)]"

fun first_usable :: "gap list \<Rightarrow> int \<Rightarrow> gap option" where
  "first_usable [] max_length = None"
| "first_usable (g # gs) max_length =
     (let stop = min (gap_end g) (gap_start g + max_length) in
      if gap_start g < stop then Some (Gap (gap_start g) stop) else first_usable gs max_length)"

definition first_usable_gap :: "part_file \<Rightarrow> int \<Rightarrow> gap option" where
  "first_usable_gap p max_length = first_usable (pf_gaps p) max_length"

definition apply_gap_fill :: "int \<Rightarrow> int \<Rightarrow> part_file \<Rightarrow> part_file" where
  "apply_gap_fill start stop p =
     p\<lparr>pf_gaps := normalize_gaps (concat (map (cut_gap start stop) (pf_gaps p))) (pf_total_size p)\<rparr>"

definition punch :: "int \<Rightarrow> int \<Rightarrow> part_file \<Rightarrow> part_file" where
  "punch start stop p =
     (let s = max 0 start; e = min (pf_total_size p) stop in
      if e \<le> s then p
      else p\<lparr>pf_gaps := normalize_gaps (pf_gaps p @ [Gap s e]) (pf_total_size p)\<rparr>)"

text \<open>\<open>seek\<close> and \<open>write\<close>: a write beyond the end of the file fills the hole with zeros.\<close>

definition file_write :: "nat \<Rightarrow> bytes \<Rightarrow> bytes \<Rightarrow> bytes" where
  "file_write pos d f =
     (if d = [] then f
      else take pos f @ replicate (pos - length f) 0 @ d @ drop (pos + length d) f)"

text \<open>\<open>r+b\<close> needs an existing file.\<close>

definition write_block :: "int \<Rightarrow> bytes \<Rightarrow> part_file \<times> disk \<Rightarrow> (int \<times> part_file \<times> disk) res" where
  "write_block start d = (\<lambda>(p, k).
     if start < 0 \<or> start + int (length d) > pf_total_size p then Inl PartFileError
     else case d_data k of
       None \<Rightarrow> Inl OSError
     | Some f \<Rightarrow>
         let p' = apply_gap_fill start (start + int (length d)) p in
         Inr (remaining_bytes p', p', k\<lparr>d_data := Some (file_write (nat start) d f)\<rparr>))"

definition save :: "part_file \<Rightarrow> disk \<Rightarrow> disk" where
  "save p k = k\<lparr>d_sidecar := Some \<lparr>sc_file_hash = pf_file_hash p, sc_name = pf_name p,
     sc_total_size = pf_total_size p, sc_sparse = Some (pf_sparse p), sc_gaps = pf_gaps p,
     sc_chunk_bitmap = chunk_bitmap p\<rparr>\<rparr>"

text \<open>\<open>free\<close> is what \<open>shutil.disk_usage\<close> reports.\<close>

definition check_free_space :: "int \<Rightarrow> int \<Rightarrow> bool" where
  "check_free_space free required = (free \<ge> required)"

definition open_new :: "int \<Rightarrow> part_file \<Rightarrow> disk \<Rightarrow> disk res" where
  "open_new free p k =
     bindE (if (case d_data k of Some f \<Rightarrow> int (length f) = pf_total_size p | None \<Rightarrow> False) then Inr k
            else if pf_sparse p then
              (if \<not> check_free_space free (min 1048576 (pf_total_size p)) then Inl PartFileError
               else Inr (k\<lparr>d_data := Some []\<rparr>))
            else if \<not> check_free_space free (pf_total_size p) then Inl PartFileError
            else Inr (k\<lparr>d_data := Some (replicate (nat (pf_total_size p)) 0)\<rparr>))
       (\<lambda>k2. Inr (save p k2))"

definition resume :: "disk \<Rightarrow> part_file res" where
  "resume k =
     (case d_sidecar k of
        None \<Rightarrow> Inl PartFileError
      | Some sc \<Rightarrow>
          let sparse = (case sc_sparse sc of Some b \<Rightarrow> b
                        | None \<Rightarrow> (case d_data k of Some f \<Rightarrow> int (length f) | None \<Rightarrow> sc_total_size sc)
                                   \<noteq> sc_total_size sc) in
          bindE (mk_part_file (sc_total_size sc) (sc_file_hash sc) (sc_name sc) sparse) (\<lambda>p.
            if d_data k = None then Inl OSError
            else Inr (p\<lparr>pf_gaps := normalize_gaps (sc_gaps sc) (pf_total_size p)\<rparr>)))"

section \<open>Gap lists as sets of missing offsets\<close>

definition pair_bytes :: "(int \<times> int) list \<Rightarrow> int set" where
  "pair_bytes ps = (\<Union>(s, e)\<in>set ps. {s..<e})"

definition gap_bytes :: "gap list \<Rightarrow> int set" where
  "gap_bytes gs = (\<Union>g\<in>set gs. {gap_start g..<gap_end g})"

text \<open>Canonical: in order, not touching, not empty and within the file.\<close>

fun canonical_from :: "int \<Rightarrow> int \<Rightarrow> gap list \<Rightarrow> bool" where
  "canonical_from lo tot [] = True"
| "canonical_from lo tot (g # gs) =
     (lo \<le> gap_start g \<and> gap_start g < gap_end g \<and> gap_end g \<le> tot \<and>
      canonical_from (gap_end g + 1) tot gs)"

definition canonical :: "int \<Rightarrow> gap list \<Rightarrow> bool" where
  "canonical tot gs = canonical_from 0 tot gs"

lemma gap_bytes_simps [simp]:
  "gap_bytes [] = {}" "gap_bytes (g # gs) = {gap_start g..<gap_end g} \<union> gap_bytes gs"
  "gap_bytes (gs @ hs) = gap_bytes gs \<union> gap_bytes hs"
  by (auto simp: gap_bytes_def)

lemma pair_bytes_simps [simp]:
  "pair_bytes [] = {}" "pair_bytes ((s, e) # ps) = {s..<e} \<union> pair_bytes ps"
  by (auto simp: pair_bytes_def)

lemma pair_bytes_sort [simp]: "pair_bytes (sort ps) = pair_bytes ps"
  by (simp add: pair_bytes_def)

lemma clip_interval:
  "{max 0 (min s tot)..<max 0 (min e tot)} = {s..<e} \<inter> {0..<(tot :: int)}"
  by auto

lemma clip_gaps_bytes: "pair_bytes (clip_gaps gs tot) = gap_bytes gs \<inter> {0..<tot}"
proof (induction gs)
  case Nil
  then show ?case by (simp add: clip_gaps_def)
next
  case (Cons g gs)
  have f: "pair_bytes (filter (\<lambda>(s, e). s < e) (p # ps)) =
      {fst p..<snd p} \<union> pair_bytes (filter (\<lambda>(s, e). s < e) ps)" for p ps
    by (cases p) auto
  show ?case
    using Cons unfolding clip_gaps_def list.map f by (simp add: clip_interval Int_Un_distrib2)
qed

lemma clip_gaps_bounds: "(s, e) \<in> set (clip_gaps gs tot) \<Longrightarrow> 0 \<le> s \<and> s < e \<and> (0 \<le> tot \<longrightarrow> e \<le> tot)"
  by (auto simp: clip_gaps_def)

lemma sorted_starts: "sorted (ps :: (int \<times> int) list) \<Longrightarrow> sorted (map fst ps)"
  by (induction ps) (auto simp: less_eq_prod_def)

lemma merge_gaps_bytes:
  "sorted (map fst ps) \<Longrightarrow> \<forall>p\<in>set ps. fst p < snd p \<Longrightarrow> gap_bytes (merge_gaps ps) = pair_bytes ps"
proof (induction ps rule: merge_gaps.induct)
  case (3 s e s' e' gs)
  show ?case
  proof (cases "s' \<le> e")
    case True
    have "gap_bytes (merge_gaps ((s, max e e') # gs)) = pair_bytes ((s, max e e') # gs)"
      using "3.prems" by (intro "3.IH"(1) [OF True]) auto
    moreover have "{s..<max e e'} = {s..<e} \<union> {s'..<e'}" using True "3.prems" by auto
    ultimately show ?thesis using True by auto
  next
    case False
    have "gap_bytes (merge_gaps ((s', e') # gs)) = pair_bytes ((s', e') # gs)"
      using "3.prems" by (intro "3.IH"(2) [OF False]) auto
    with False show ?thesis by simp
  qed
qed auto

lemma merge_gaps_canonical:
  "sorted (map fst ps) \<Longrightarrow> \<forall>p\<in>set ps. lo \<le> fst p \<and> fst p < snd p \<and> snd p \<le> tot \<Longrightarrow>
   canonical_from lo tot (merge_gaps ps)"
proof (induction ps arbitrary: lo rule: merge_gaps.induct)
  case (3 s e s' e' gs)
  show ?case
  proof (cases "s' \<le> e")
    case True
    have "canonical_from lo tot (merge_gaps ((s, max e e') # gs))"
      using "3.prems" by (intro "3.IH"(1) [OF True]) auto
    with True show ?thesis by simp
  next
    case False
    have "canonical_from (e + 1) tot (merge_gaps ((s', e') # gs))"
      using "3.prems" False by (intro "3.IH"(2) [OF False]) auto
    with False "3.prems" show ?thesis by simp
  qed
qed auto

lemma normalize_gaps_canonical: "0 \<le> tot \<Longrightarrow> canonical tot (normalize_gaps gs tot)"
  unfolding canonical_def normalize_gaps_def
  by (rule merge_gaps_canonical) (auto intro: sorted_starts dest: clip_gaps_bounds)

lemma normalize_gaps_bytes: "gap_bytes (normalize_gaps gs tot) = gap_bytes gs \<inter> {0..<tot}"
proof -
  have "gap_bytes (merge_gaps (sort (clip_gaps gs tot))) = pair_bytes (sort (clip_gaps gs tot))"
    by (rule merge_gaps_bytes) (auto intro: sorted_starts dest: clip_gaps_bounds)
  then show ?thesis by (simp add: normalize_gaps_def clip_gaps_bytes)
qed

text \<open>A canonical list is determined by its set.\<close>

lemma canonical_from_bytes: "canonical_from lo tot gs \<Longrightarrow> gap_bytes gs \<subseteq> {lo..<tot}"
  by (induction gs arbitrary: lo) fastforce+

lemma canonical_from_unique:
  "canonical_from lo tot gs \<Longrightarrow> canonical_from lo tot hs \<Longrightarrow> gap_bytes gs = gap_bytes hs \<Longrightarrow> gs = hs"
proof (induction gs arbitrary: lo hs)
  case Nil
  then show ?case by (cases hs) auto
next
  case (Cons g gs)
  then obtain h hs' where hs: "hs = h # hs'" by (cases hs) auto
  have sub: "gap_bytes gs \<subseteq> {gap_end g + 1..<tot}" "gap_bytes hs' \<subseteq> {gap_end h + 1..<tot}"
    using Cons.prems hs canonical_from_bytes by auto
  have ne: "gap_start g < gap_end g" "gap_start h < gap_end h" using Cons.prems hs by auto
  have eq: "x \<in> {gap_start g..<gap_end g} \<union> gap_bytes gs \<longleftrightarrow> x \<in> {gap_start h..<gap_end h} \<union> gap_bytes hs'" for x
    using Cons.prems(3) hs by auto
  have s: "gap_start g = gap_start h"
    using eq [of "gap_start g"] eq [of "gap_start h"] sub ne by fastforce
  have e: "gap_end g = gap_end h"
    using eq [of "gap_end g"] eq [of "gap_end h"] sub ne s by fastforce
  have gh: "g = h" using s e by (simp add: gap.expand)
  have "gap_bytes gs = gap_bytes hs'"
  proof (rule set_eqI)
    fix x
    show "x \<in> gap_bytes gs \<longleftrightarrow> x \<in> gap_bytes hs'"
      using eq [of x] sub gh by fastforce
  qed
  with Cons hs gh show ?case by auto
qed

lemma canonical_unique:
  "canonical tot gs \<Longrightarrow> canonical tot hs \<Longrightarrow> gap_bytes gs = gap_bytes hs \<Longrightarrow> gs = hs"
  unfolding canonical_def by (rule canonical_from_unique)

lemma canonical_bytes: "canonical tot gs \<Longrightarrow> gap_bytes gs \<subseteq> {0..<tot}"
  unfolding canonical_def by (rule canonical_from_bytes)

lemma normalize_gaps_id: "0 \<le> tot \<Longrightarrow> canonical tot gs \<Longrightarrow> normalize_gaps gs tot = gs"
  using canonical_bytes [of tot gs]
  by (intro canonical_unique [of tot]) (auto simp: normalize_gaps_canonical normalize_gaps_bytes)

lemma canonical_from_sum:
  "canonical_from lo tot gs \<Longrightarrow>
   finite (gap_bytes gs) \<and> sum_list (map gap_length gs) = int (card (gap_bytes gs))"
proof (induction gs arbitrary: lo)
  case (Cons g gs)
  then have IH: "finite (gap_bytes gs)" "sum_list (map gap_length gs) = int (card (gap_bytes gs))" by auto
  have "gap_bytes gs \<subseteq> {gap_end g + 1..<tot}" using Cons.prems canonical_from_bytes by auto
  then have "{gap_start g..<gap_end g} \<inter> gap_bytes gs = {}" by fastforce
  then have "card ({gap_start g..<gap_end g} \<union> gap_bytes gs) = nat (gap_end g - gap_start g) + card (gap_bytes gs)"
    using IH(1) by (simp add: card_Un_disjoint)
  with IH Cons.prems show ?case by (simp add: gap_length_def [of g])
qed simp

section \<open>The interface: a store of missing offsets\<close>

locale gap_store =
  fixes ok :: "'s \<Rightarrow> bool" and len :: "'s \<Rightarrow> int" and missing :: "'s \<Rightarrow> int set"
    and fill :: "int \<Rightarrow> int \<Rightarrow> 's \<Rightarrow> 's" and reopen :: "int \<Rightarrow> int \<Rightarrow> 's \<Rightarrow> 's"
  assumes missing_within: "ok s \<Longrightarrow> missing s \<subseteq> {0..<len s}"
    and fill_ok: "ok s \<Longrightarrow> ok (fill a b s)"
    and fill_len: "len (fill a b s) = len s"
    and fill_missing: "ok s \<Longrightarrow> missing (fill a b s) = missing s - {a..<b}"
    and reopen_ok: "ok s \<Longrightarrow> ok (reopen a b s)"
    and reopen_len: "len (reopen a b s) = len s"
    and reopen_missing: "ok s \<Longrightarrow> missing (reopen a b s) = missing s \<union> ({a..<b} \<inter> {0..<len s})"
begin

definition fills :: "(int \<times> int) list \<Rightarrow> 's \<Rightarrow> 's" where
  "fills rs s = fold (\<lambda>(a, b). fill a b) rs s"

lemma fills_missing: "ok s \<Longrightarrow> ok (fills rs s) \<and> missing (fills rs s) = missing s - (\<Union>(a, b)\<in>set rs. {a..<b})"
proof (induction rs arbitrary: s)
  case (Cons r rs)
  obtain a b where r: "r = (a, b)" by (cases r)
  have "missing (fills rs (fill a b s)) = missing s - {a..<b} - (\<Union>(a, b)\<in>set rs. {a..<b})"
    using Cons by (simp add: fill_ok fill_missing)
  then show ?case using Cons r by (auto simp: fills_def fill_ok)
qed (simp add: fills_def)

lemma fills_perm: "ok s \<Longrightarrow> mset rs = mset rs' \<Longrightarrow> missing (fills rs s) = missing (fills rs' s)"
  using mset_eq_setD [of rs rs'] fills_missing [of s] by metis

lemma fill_covered: "ok s \<Longrightarrow> {a..<b} \<inter> missing s = {} \<Longrightarrow> missing (fill a b s) = missing s"
  by (auto simp: fill_missing)

definition reopens :: "(int \<times> int) list \<Rightarrow> 's \<Rightarrow> 's" where
  "reopens rs s = fold (\<lambda>(a, b). reopen a b) rs s"

lemma reopens_missing:
  "ok s \<Longrightarrow> ok (reopens rs s) \<and> len (reopens rs s) = len s \<and>
   missing (reopens rs s) = missing s \<union> ((\<Union>(a, b)\<in>set rs. {a..<b}) \<inter> {0..<len s})"
proof (induction rs arbitrary: s)
  case (Cons r rs)
  obtain a b where r: "r = (a, b)" by (cases r)
  have "ok (reopen a b s)" using Cons.prems by (rule reopen_ok)
  from Cons.IH [OF this] show ?case
    using Cons.prems r by (auto simp: reopens_def reopen_len reopen_missing)
qed (simp add: reopens_def)

lemma fill_reopen:
  "ok s \<Longrightarrow> {a..<b} \<inter> missing s = {} \<Longrightarrow> missing (fill a b (reopen a b s)) = missing s"
  by (auto simp: fill_missing reopen_ok reopen_missing)

lemma reopen_fill:
  "ok s \<Longrightarrow> {a..<b} \<subseteq> missing s \<Longrightarrow> missing (reopen a b (fill a b s)) = missing s"
  using missing_within [of s] by (auto simp: fill_missing fill_ok fill_len reopen_missing)

end

definition pf_wf :: "part_file \<Rightarrow> bool" where
  "pf_wf p \<longleftrightarrow> 0 < pf_total_size p \<and> canonical (pf_total_size p) (pf_gaps p)"

definition pf_missing :: "part_file \<Rightarrow> int set" where
  "pf_missing p = gap_bytes (pf_gaps p)"

lemma cut_gaps_bytes: "gap_bytes (concat (map (cut_gap a b) gs)) = gap_bytes gs - {a..<b}"
proof (induction gs)
  case (Cons g gs)
  have "gap_bytes (cut_gap a b g) = {gap_start g..<gap_end g} - {a..<b}"
    by (auto simp: cut_gap_def)
  with Cons show ?case by auto
qed simp

lemma mk_part_file_wf: "mk_part_file n h nm sp = Inr p \<Longrightarrow> pf_wf p \<and> pf_missing p = {0..<n} \<and> pf_total_size p = n"
  by (auto simp: mk_part_file_def pf_wf_def pf_missing_def canonical_def split: if_splits)

interpretation pf: gap_store pf_wf pf_total_size pf_missing apply_gap_fill punch
proof unfold_locales
  fix p a b
  assume wf: "pf_wf p"
  then have sub: "pf_missing p \<subseteq> {0..<pf_total_size p}"
    by (simp add: pf_wf_def pf_missing_def canonical_bytes)
  then show "pf_missing p \<subseteq> {0..<pf_total_size p}" .
  show "pf_wf (apply_gap_fill a b p)" "pf_wf (punch a b p)"
    using wf by (auto simp: pf_wf_def apply_gap_fill_def punch_def Let_def normalize_gaps_canonical)
  show "pf_missing (apply_gap_fill a b p) = pf_missing p - {a..<b}"
    using sub by (auto simp: pf_missing_def apply_gap_fill_def normalize_gaps_bytes cut_gaps_bytes)
  show "pf_missing (punch a b p) = pf_missing p \<union> ({a..<b} \<inter> {0..<pf_total_size p})"
    using sub by (auto simp: pf_missing_def punch_def Let_def normalize_gaps_bytes)
qed (simp_all add: apply_gap_fill_def punch_def Let_def)

lemma pf_eqI:
  assumes "pf_wf p" "pf_wf q" "pf_missing p = pf_missing q"
    and "pf_gaps p = pf_gaps q \<Longrightarrow> p = q" and "pf_total_size p = pf_total_size q"
  shows "p = q"
  using assms canonical_unique [of "pf_total_size p" "pf_gaps p" "pf_gaps q"]
  by (auto simp: pf_wf_def pf_missing_def)

lemma pf_remaining_card: "pf_wf p \<Longrightarrow> remaining_bytes p = int (card (pf_missing p))"
  using canonical_from_sum by (auto simp: pf_wf_def canonical_def remaining_bytes_def pf_missing_def)

lemma pf_complete_iff: "pf_wf p \<Longrightarrow> is_complete p \<longleftrightarrow> pf_missing p = {}"
  by (cases "pf_gaps p") (auto simp: is_complete_def pf_missing_def pf_wf_def canonical_def)

text \<open>
  C9. The gap list of a part file is the canonical description of its missing bytes: filling a
  range removes exactly that range, punching adds the part of it inside the file, the invariant
  is kept, and the counters and the completion test are the cardinality and the emptiness of
  the set.
\<close>

theorem part_file_refines_missing_set:
  assumes "pf_wf p"
  shows "pf_wf (apply_gap_fill a b p) \<and> pf_missing (apply_gap_fill a b p) = pf_missing p - {a..<b} \<and>
    pf_wf (punch a b p) \<and> pf_missing (punch a b p) = pf_missing p \<union> ({a..<b} \<inter> {0..<pf_total_size p}) \<and>
    remaining_bytes p = int (card (pf_missing p)) \<and> (is_complete p \<longleftrightarrow> pf_missing p = {})"
  using assms by (simp add: pf.fill_ok pf.fill_missing pf.reopen_ok pf.reopen_missing
      pf_remaining_card pf_complete_iff)

definition sample_part :: part_file where
  "sample_part = \<lparr>pf_total_size = 10, pf_file_hash = [], pf_name = [], pf_sparse = False, pf_gaps = [Gap 0 10]\<rparr>"

theorem part_file_refines_missing_set_witness:
  "pf_wf (apply_gap_fill 2 4 sample_part) \<and> pf_missing (apply_gap_fill 2 4 sample_part) = pf_missing sample_part - {2..<4} \<and>
    pf_wf (punch 8 12 sample_part) \<and> pf_missing (punch 8 12 sample_part) = pf_missing sample_part \<union> ({8..<12} \<inter> {0..<pf_total_size sample_part}) \<and>
    remaining_bytes sample_part = int (card (pf_missing sample_part)) \<and>
    (is_complete sample_part \<longleftrightarrow> pf_missing sample_part = {})"
  using part_file_refines_missing_set [of sample_part 2 4] part_file_refines_missing_set [of sample_part 8 12]
  by (simp add: sample_part_def pf_wf_def canonical_def)

text \<open>
  C10. Normalisation is canonical: of all gap lists in order, disjoint, not touching and inside
  the file there is one that misses the same bytes, and it is the one the code computes,
  whatever the order and the overlaps of the gaps it was given.
\<close>

theorem normalize_gaps_characterised:
  assumes "0 \<le> n"
  shows "canonical n hs \<and> gap_bytes hs = gap_bytes gs \<inter> {0..<n} \<longleftrightarrow> hs = normalize_gaps gs n"
  using assms canonical_unique [of n hs "normalize_gaps gs n"]
  by (auto simp: normalize_gaps_canonical normalize_gaps_bytes)

theorem normalize_gaps_characterised_witness:
  "canonical 9 [Gap 1 9] \<and> gap_bytes [Gap 1 9] = gap_bytes [Gap 3 12, Gap 1 3] \<inter> {0..<9}
     \<longleftrightarrow> [Gap 1 9] = normalize_gaps [Gap 3 12, Gap 1 3] 9"
  by (rule normalize_gaps_characterised) simp

section \<open>A download on disk\<close>

lemma length_file_write: "d \<noteq> [] \<Longrightarrow> length (file_write pos d f) = max (length f) (pos + length d)"
  by (auto simp: file_write_def max_def min_def)

lemma file_write_inside: "x < length d \<Longrightarrow> file_write pos d f ! (pos + x) = d ! x"
  by (auto simp: file_write_def nth_append min_def)

lemma file_write_outside:
  "x < length f \<Longrightarrow> x < pos \<or> pos + length d \<le> x \<Longrightarrow> file_write pos d f ! x = f ! x"
  by (auto simp: file_write_def nth_append min_def)

text \<open>The steps of one download of the content \<open>c\<close>: only data of that content is written.\<close>

inductive dl_step :: "bytes \<Rightarrow> part_file \<times> disk \<Rightarrow> part_file \<times> disk \<Rightarrow> bool" for c where
  dl_write: "d = py_slice pos (pos + length d) c \<Longrightarrow> write_block (int pos) d (p, k) = Inr (n, p', k') \<Longrightarrow>
     dl_step c (p, k) (p', k')"
| dl_punch: "dl_step c (p, k) (punch a b p, k)"
| dl_save: "dl_step c (p, k) (p, save p k)"
| dl_resume: "resume k = Inr p' \<Longrightarrow> dl_step c (p, k) (p', k)"

inductive_cases dl_stepE: "dl_step c s t"

inductive dl_reach :: "bytes \<Rightarrow> part_file \<times> disk \<Rightarrow> bool" for c where
  dl_init: "mk_part_file (int (length c)) h nm sp = Inr p \<Longrightarrow> open_new free p k = Inr k' \<Longrightarrow> dl_reach c (p, k')"
| dl_next: "dl_reach c s \<Longrightarrow> dl_step c s t \<Longrightarrow> dl_reach c t"

text \<open>Outside a set of missing offsets the file on disk has the content's bytes.\<close>

definition agrees :: "bytes \<Rightarrow> bytes \<Rightarrow> int set \<Rightarrow> bool" where
  "agrees c f m \<longleftrightarrow> (\<forall>x < length c. int x \<notin> m \<longrightarrow> x < length f \<and> f ! x = c ! x)"

definition dl_inv :: "bytes \<Rightarrow> part_file \<times> disk \<Rightarrow> bool" where
  "dl_inv c s \<longleftrightarrow> (case s of (p, k) \<Rightarrow>
     pf_wf p \<and> pf_total_size p = int (length c) \<and>
     (\<exists>f. d_data k = Some f \<and> length f \<le> length c \<and> agrees c f (pf_missing p) \<and>
       (\<forall>sc. d_sidecar k = Some sc \<longrightarrow>
          sc_total_size sc = int (length c) \<and> agrees c f (gap_bytes (sc_gaps sc)))))"

lemma agrees_all: "{0..<int (length c)} \<subseteq> m \<Longrightarrow> agrees c f m"
  by (auto simp: agrees_def subset_iff)

lemma agrees_mono: "agrees c f m \<Longrightarrow> m \<subseteq> m' \<Longrightarrow> agrees c f m'"
  by (auto simp: agrees_def)

lemma agrees_write:
  assumes a: "agrees c f m" and d: "d = py_slice pos (pos + length d) c"
  shows "agrees c (file_write pos d f) (m - {int pos..<int (pos + length d)})"
proof (cases "d = []")
  case True
  then show ?thesis using a by (simp add: file_write_def agrees_def)
next
  case False
  show ?thesis unfolding agrees_def
  proof (intro allI impI)
    fix x
    assume x: "x < length c" and nm: "int x \<notin> m - {int pos..<int (pos + length d)}"
    show "x < length (file_write pos d f) \<and> file_write pos d f ! x = c ! x"
    proof (cases "pos \<le> x \<and> x < pos + length d")
      case True
      then have i: "x - pos < length d" "pos + (x - pos) = x" by auto
      have "d ! (x - pos) = c ! x"
        by (subst d) (use True i x in \<open>simp add: py_slice_def\<close>)
      then show ?thesis using file_write_inside [OF i(1), of pos f] i True False
        by (simp add: length_file_write less_max_iff_disj)
    next
      case out: False
      with nm a x have "x < length f" "f ! x = c ! x" by (auto simp: agrees_def)
      with out show ?thesis using file_write_outside [of x f pos d] False by (auto simp: length_file_write)
    qed
  qed
qed

lemma dl_inv_init:
  assumes "mk_part_file (int (length c)) h nm sp = Inr p" and "open_new free p k = Inr k'"
  shows "dl_inv c (p, k')"
proof -
  note p = mk_part_file_wf [OF assms(1)]
  have "\<exists>f. d_data k' = Some f \<and> length f \<le> length c"
    using assms(2) p by (auto simp: open_new_def save_def bindE_eq_Inr_conv split: if_splits option.splits)
  moreover have "\<exists>k2. k' = save p k2" using assms(2) by (auto simp: open_new_def bindE_eq_Inr_conv)
  ultimately show ?thesis using p
    by (auto simp: dl_inv_def save_def intro!: agrees_all) (auto simp: pf_missing_def)
qed

lemma dl_inv_step: "dl_step c s t \<Longrightarrow> dl_inv c s \<Longrightarrow> dl_inv c t"
proof (induction rule: dl_step.induct)
  case (dl_write d pos p k n p' k')
  then obtain f where f: "d_data k = Some f" "length f \<le> length c" "agrees c f (pf_missing p)"
    and sc: "\<And>sc. d_sidecar k = Some sc \<Longrightarrow> sc_total_size sc = int (length c) \<and> agrees c f (gap_bytes (sc_gaps sc))"
    and wf: "pf_wf p" "pf_total_size p = int (length c)" by (auto simp: dl_inv_def)
  have p': "p' = apply_gap_fill (int pos) (int pos + int (length d)) p"
    and k': "k' = k\<lparr>d_data := Some (file_write pos d f)\<rparr>" and le: "pos + length d \<le> length c"
    using dl_write(2) f(1) wf by (auto simp: write_block_def Let_def split: if_splits)
  have "length (file_write pos d f) \<le> length c"
    using f(2) le by (cases "d = []") (simp_all add: file_write_def length_file_write)
  moreover have "agrees c (file_write pos d f) (pf_missing p')"
    using agrees_write [OF f(3) dl_write(1)] wf by (simp add: p' pf.fill_missing)
  moreover have "agrees c (file_write pos d f) (gap_bytes (sc_gaps sc))" if "d_sidecar k = Some sc" for sc
    using agrees_write [OF _ dl_write(1), of f "gap_bytes (sc_gaps sc)"] sc [OF that] by (auto intro: agrees_mono)
  ultimately show ?case using wf sc
    by (simp add: dl_inv_def p' k' pf.fill_ok pf.fill_len)
next
  case (dl_punch p k a b)
  then show ?case by (auto simp: dl_inv_def pf.reopen_ok pf.reopen_len pf.reopen_missing intro: agrees_mono)
next
  case (dl_save p k)
  then show ?case by (auto simp: dl_inv_def save_def pf_missing_def)
next
  case (dl_resume k p' p)
  then obtain f sc where f: "d_data k = Some f" "length f \<le> length c"
    and sc: "d_sidecar k = Some sc" "sc_total_size sc = int (length c)" "agrees c f (gap_bytes (sc_gaps sc))"
    by (auto simp: dl_inv_def resume_def split: option.splits)
  then obtain p0 where p0: "pf_wf p0" "pf_total_size p0 = int (length c)"
    and p': "p' = p0\<lparr>pf_gaps := normalize_gaps (sc_gaps sc) (int (length c))\<rparr>"
    using dl_resume(1)
    by (auto simp: resume_def Let_def bindE_eq_Inr_conv split: if_splits dest!: mk_part_file_wf)
  have "agrees c f (pf_missing p')"
    using sc(3) by (auto simp: agrees_def p' pf_missing_def normalize_gaps_bytes)
  then show ?case
    using p0 f sc dl_resume(2) by (auto simp: dl_inv_def p' pf_wf_def normalize_gaps_canonical)
qed

lemma dl_reach_inv: "dl_reach c s \<Longrightarrow> dl_inv c s"
  by (induction rule: dl_reach.induct) (auto intro: dl_inv_init dl_inv_step)

lemma dl_reach_complete:
  assumes "dl_reach c (p, k)" and "pf_missing p = {}"
  shows "d_data k = Some c"
proof -
  from dl_reach_inv [OF assms(1)] obtain f where f: "d_data k = Some f" "length f \<le> length c"
    "agrees c f (pf_missing p)" by (auto simp: dl_inv_def)
  with assms(2) have "length f = length c" "\<forall>x < length c. f ! x = c ! x"
    by (auto simp: agrees_def) (metis le_antisym not_less_iff_gr_or_eq not_le)
  then have "f = c" by (auto intro: nth_equalityI)
  with f show ?thesis by simp
qed

text \<open>A block of the content can be written in every state of its download, and is then not missing.\<close>

lemma dl_reach_write:
  assumes r: "dl_reach c (p, k)" and d: "d = py_slice pos (pos + length d) c" and le: "pos + length d \<le> length c"
  shows "\<exists>n p' k'. write_block (int pos) d (p, k) = Inr (n, p', k') \<and> dl_reach c (p', k') \<and>
     pf_missing p' = pf_missing p - {int pos..<int (pos + length d)}"
proof -
  from dl_reach_inv [OF r] obtain f where f: "d_data k = Some f" and wf: "pf_wf p" "pf_total_size p = int (length c)"
    by (auto simp: dl_inv_def)
  let ?p' = "apply_gap_fill (int pos) (int pos + int (length d)) p"
  obtain n k' where w: "write_block (int pos) d (p, k) = Inr (n, ?p', k')"
    using f wf(2) le by (simp add: write_block_def Let_def)
  have "dl_reach c (?p', k')" by (rule dl_next [OF r dl_write [OF d w]])
  moreover have "pf_missing ?p' = pf_missing p - {int pos..<int (pos + length d)}"
    using wf(1) by (simp add: pf.fill_missing)
  ultimately show ?thesis using w by blast
qed

text \<open>
  C11. A download that reports completion has the file: however the blocks arrived, overlapped,
  were punched and fetched again, and however often the part file was saved and resumed from an
  older sidecar, when no gap is left the data file is the content byte for byte.
\<close>

theorem complete_download_is_content:
  assumes "dl_reach c (p, k)" and "is_complete p"
  shows "d_data k = Some c"
  by (rule dl_reach_complete [OF assms(1)]) (use assms(2) in \<open>simp add: is_complete_def pf_missing_def\<close>)

definition sample_disk :: disk where
  "sample_disk = \<lparr>d_data = None, d_sidecar = None\<rparr>"

definition sample_done :: "part_file \<times> disk" where
  "sample_done =
     (case open_new 100 (sample_part\<lparr>pf_total_size := 2, pf_gaps := [Gap 0 2]\<rparr>) sample_disk of
        Inr k \<Rightarrow> (case write_block 0 [7, 8] (sample_part\<lparr>pf_total_size := 2, pf_gaps := [Gap 0 2]\<rparr>, k) of
           Inr (n, p', k') \<Rightarrow> (p', k') | Inl _ \<Rightarrow> (sample_part, sample_disk))
      | Inl _ \<Rightarrow> (sample_part, sample_disk))"

lemmas part_eval = sample_done_def sample_part_def sample_disk_def open_new_def write_block_def save_def
  check_free_space_def apply_gap_fill_def cut_gap_def normalize_gaps_def clip_gaps_def file_write_def
  chunk_bitmap_def chunk_count_def chunk_complete_def ED2K_CHUNK_SIZE_def Let_def

lemma sample_done_reach: "dl_reach [7, 8] (fst sample_done, snd sample_done)" and
  sample_done_complete: "is_complete (fst sample_done)"
proof -
  let ?p = "sample_part\<lparr>pf_total_size := 2, pf_gaps := [Gap 0 2]\<rparr>"
  obtain k where k: "open_new 100 ?p sample_disk = Inr k" "d_data k = Some [0, 0]"
    by (simp add: part_eval numeral_2_eq_2)
  have "mk_part_file (int (length [7, 8 :: byte])) [] [] False = Inr ?p"
    by (simp add: mk_part_file_def sample_part_def)
  then have r: "dl_reach [7, 8] (?p, k)" using k(1) by (rule dl_init)
  obtain n p' k' where w: "write_block 0 [7, 8] (?p, k) = Inr (n, p', k')" "pf_gaps p' = []"
    using k(2) by (simp add: part_eval)
  have s: "sample_done = (p', k')" using k w by (simp add: sample_done_def)
  have "dl_step [7, 8] (?p, k) (p', k')"
    by (rule dl_write [of "[7, 8]" 0]) (use w in \<open>simp_all add: py_slice_def\<close>)
  with r show "dl_reach [7, 8] (fst sample_done, snd sample_done)" unfolding s by (auto intro: dl_next)
  show "is_complete (fst sample_done)" using w(2) by (simp add: s is_complete_def)
qed

theorem complete_download_is_content_witness: "d_data (snd sample_done) = Some [7, 8]"
  by (rule complete_download_is_content [OF sample_done_reach sample_done_complete])

text \<open>Saving and resuming give the part file back.\<close>

lemma resume_save:
  assumes "pf_wf p" and "pf_file_hash p = map upper_char h" and "d_data k \<noteq> None"
  shows "resume (save p k) = Inr p"
proof -
  have "map upper_char (pf_file_hash p) = pf_file_hash p" by (simp add: assms(2))
  then show ?thesis using assms
    by (auto simp: resume_def save_def mk_part_file_def pf_wf_def normalize_gaps_id Let_def)
qed

text \<open>
  A chunk bit is set exactly when no byte of the chunk is missing.
\<close>

lemma chunk_complete_iff:
  assumes "pf_wf p" and "0 \<le> i" and "i * ED2K_CHUNK_SIZE < pf_total_size p"
  shows "chunk_complete p i \<longleftrightarrow>
     pf_missing p \<inter> {i * ED2K_CHUNK_SIZE..<min ((i + 1) * ED2K_CHUNK_SIZE) (pf_total_size p)} = {}"
proof -
  have ne: "gap_start g < gap_end g" if "g \<in> set (pf_gaps p)" for g
  proof -
    have "canonical_from lo tot gs \<Longrightarrow> g \<in> set gs \<Longrightarrow> gap_start g < gap_end g" for lo tot gs
      by (induction gs arbitrary: lo) auto
    then show ?thesis using assms(1) that by (auto simp: pf_wf_def canonical_def)
  qed
  define a b where "a = i * ED2K_CHUNK_SIZE" and "b = min (a + ED2K_CHUNK_SIZE) (pf_total_size p)"
  have ab: "a < b" using assms(3) by (simp add: a_def b_def ED2K_CHUNK_SIZE_def)
  have b: "b = min ((i + 1) * ED2K_CHUNK_SIZE) (pf_total_size p)"
    by (simp add: a_def b_def distrib_right)
  have cut: "gap_start g < b \<and> a < gap_end g \<longleftrightarrow> (\<exists>x \<in> {a..<b}. x \<in> {gap_start g..<gap_end g})"
    if "g \<in> set (pf_gaps p)" for g
  proof
    assume "gap_start g < b \<and> a < gap_end g"
    then have "max a (gap_start g) \<in> {a..<b}" "max a (gap_start g) \<in> {gap_start g..<gap_end g}"
      using ne [OF that] ab by auto
    then show "\<exists>x \<in> {a..<b}. x \<in> {gap_start g..<gap_end g}" by blast
  qed auto
  have "chunk_complete p i \<longleftrightarrow> (\<forall>g \<in> set (pf_gaps p). \<not> (gap_start g < b \<and> a < gap_end g))"
    by (auto simp: chunk_complete_def Let_def list_ex_iff a_def b_def)
  also have "\<dots> \<longleftrightarrow> (\<forall>g \<in> set (pf_gaps p). \<not> (\<exists>x \<in> {a..<b}. x \<in> {gap_start g..<gap_end g}))"
    by (rule ball_cong [OF refl]) (simp only: cut)
  also have "\<dots> \<longleftrightarrow> pf_missing p \<inter> {a..<b} = {}"
    unfolding pf_missing_def gap_bytes_def by blast
  finally show ?thesis unfolding a_def b .
qed

end
