(* ===== verification/Ed2k_Hash.thy ===== *)
theory Ed2k_Hash
  imports Tag_Codec
begin

text \<open>
  \<open>core/hashes/md4.py\<close> and \<open>core/hashes/ed2k.py\<close>: the incremental ED2K hasher. MD4
  itself comes from PyCryptodome and is the argument \<open>md4\<close>; an MD4 object is the bytes fed
  to it so far. The lemmas relate the hasher, however its input is cut into blocks, to the
  hash of the whole file: full chunks of \<open>chunk_size\<close> bytes and a last shorter one, which
  is empty when the size is a multiple of the chunk size.
\<close>

section \<open>The hasher\<close>

type_synonym md4_state = bytes

definition md4_new :: md4_state where "md4_new = []"

definition md4_update :: "md4_state \<Rightarrow> bytes \<Rightarrow> md4_state" where
  "md4_update h d = (if d = [] then h else h @ d)"

definition md4_digest :: "(bytes \<Rightarrow> bytes) \<Rightarrow> bytes \<Rightarrow> bytes" where
  "md4_digest md4 d = md4 (md4_update md4_new d)"

lemma md4_digest_eq [simp]: "md4_digest md4 d = md4 d"
  by (simp add: md4_digest_def md4_update_def md4_new_def)

record ed2k_result =
  file_hash :: bytes
  r_file_size :: nat
  chunk_hashes :: "bytes list"

record ed2k_hasher =
  hs_chunk_size :: nat
  hs_size :: nat
  hs_md4 :: md4_state
  hs_chunk_hashes :: "bytes list"

definition hasher_new :: "nat \<Rightarrow> ed2k_hasher" where
  "hasher_new cs = \<lparr>hs_chunk_size = cs, hs_size = 0, hs_md4 = md4_new, hs_chunk_hashes = []\<rparr>"

text \<open>One turn of the loop of \<open>update\<close>, on the data from the current offset on.\<close>

definition hasher_take :: "ed2k_hasher \<Rightarrow> bytes \<Rightarrow> nat" where
  "hasher_take h data = min (length data) (hs_chunk_size h - hs_size h mod hs_chunk_size h)"

definition hasher_turn :: "(bytes \<Rightarrow> bytes) \<Rightarrow> ed2k_hasher \<Rightarrow> bytes \<Rightarrow> ed2k_hasher" where
  "hasher_turn md4 h data =
     (let n = hasher_take h data;
          m = md4_update (hs_md4 h) (take n data);
          s = hs_size h + n in
      if s mod hs_chunk_size h = 0
      then h\<lparr>hs_size := s, hs_md4 := md4_new, hs_chunk_hashes := hs_chunk_hashes h @ [md4 m]\<rparr>
      else h\<lparr>hs_size := s, hs_md4 := m\<rparr>)"

function hasher_update :: "(bytes \<Rightarrow> bytes) \<Rightarrow> ed2k_hasher \<Rightarrow> bytes \<Rightarrow> ed2k_hasher res" where
  "hasher_update md4 h data =
     (if data = [] then Inr h
      else if hs_chunk_size h = 0 then Inl ZeroDivisionError
      else hasher_update md4 (hasher_turn md4 h data) (drop (hasher_take h data) data))"
  by pat_completeness auto
termination
  by (relation "measure (\<lambda>(md4, h, data). length data)") (auto simp: hasher_take_def)

declare hasher_update.simps [simp del]

definition hasher_finalize :: "(bytes \<Rightarrow> bytes) \<Rightarrow> ed2k_hasher \<Rightarrow> ed2k_hasher res" where
  "hasher_finalize md4 h =
     (if hs_chunk_size h = 0 then Inl ZeroDivisionError
      else
        let remaining = hs_size h mod hs_chunk_size h;
            at_exact_boundary = (remaining = 0 \<and> hs_size h \<noteq> 0) in
        if remaining \<noteq> 0 \<or> at_exact_boundary \<or> hs_chunk_hashes h = []
        then Inr (h\<lparr>hs_chunk_hashes := hs_chunk_hashes h @ [md4 (hs_md4 h)], hs_md4 := md4_new\<rparr>)
        else Inr h)"

definition hasher_result :: "(bytes \<Rightarrow> bytes) \<Rightarrow> ed2k_hasher \<Rightarrow> (ed2k_result \<times> ed2k_hasher) res" where
  "hasher_result md4 h =
     bindE (hasher_finalize md4 h) (\<lambda>h'.
       let cs = hs_chunk_hashes h';
           fh = (if length cs = 1 then cs ! 0 else md4_digest md4 (concat cs)) in
       Inr (\<lparr>file_hash = fh, r_file_size = hs_size h', chunk_hashes = cs\<rparr>, h'))"

definition ed2k_hash_data :: "(bytes \<Rightarrow> bytes) \<Rightarrow> bytes \<Rightarrow> nat \<Rightarrow> ed2k_result res" where
  "ed2k_hash_data md4 data cs =
     bindE (hasher_update md4 (hasher_new cs) data) (\<lambda>h.
     bindE (hasher_result md4 h) (\<lambda>(r, _). Inr r))"

text \<open>A file is its content; \<open>read_blocks n\<close> is the loop of \<open>fh.read(n)\<close> calls.\<close>

function read_blocks :: "nat \<Rightarrow> bytes \<Rightarrow> bytes list" where
  "read_blocks n d = (if d = [] \<or> n = 0 then [] else take n d # read_blocks n (drop n d))"
  by pat_completeness auto
termination
  by (relation "measure (\<lambda>(n, d). length d)") auto

declare read_blocks.simps [simp del]

definition ed2k_hash_file :: "(bytes \<Rightarrow> bytes) \<Rightarrow> bytes \<Rightarrow> nat \<Rightarrow> ed2k_result res" where
  "ed2k_hash_file md4 content cs =
     bindE (foldE (hasher_update md4) (hasher_new cs) (read_blocks 65536 content)) (\<lambda>h.
     bindE (hasher_result md4 h) (\<lambda>(r, _). Inr r))"

section \<open>What the hash of a file is\<close>

function ed2k_chunks :: "nat \<Rightarrow> bytes \<Rightarrow> bytes list" where
  "ed2k_chunks cs d =
     (if cs = 0 \<or> length d < cs then [d] else take cs d # ed2k_chunks cs (drop cs d))"
  by pat_completeness auto
termination
  by (relation "measure (\<lambda>(cs, d). length d)") auto

declare ed2k_chunks.simps [simp del]

definition ed2k_spec :: "(bytes \<Rightarrow> bytes) \<Rightarrow> nat \<Rightarrow> bytes \<Rightarrow> ed2k_result" where
  "ed2k_spec md4 cs d =
     (let hs = map md4 (ed2k_chunks cs d) in
      \<lparr>file_hash = (if length hs = 1 then md4 d else md4 (concat hs)),
       r_file_size = length d, chunk_hashes = hs\<rparr>)"

lemma ed2k_chunks_short: "length d < cs \<Longrightarrow> ed2k_chunks cs d = [d]"
  by (simp add: ed2k_chunks.simps)

lemma ed2k_chunks_full: "length d = cs \<Longrightarrow> 0 < cs \<Longrightarrow> ed2k_chunks cs d = [d, []]"
  by (subst ed2k_chunks.simps) (simp add: ed2k_chunks_short)

lemma ed2k_chunks_not_Nil [simp]: "ed2k_chunks cs d \<noteq> []"
  by (subst ed2k_chunks.simps) simp

lemma ed2k_chunks_last: "0 < cs \<Longrightarrow> length (last (ed2k_chunks cs d)) = length d mod cs"
proof (induction cs d rule: ed2k_chunks.induct)
  case (1 cs d)
  then show ?case by (subst ed2k_chunks.simps) (auto simp: mod_if)
qed

lemma ed2k_chunks_append:
  "0 < cs \<Longrightarrow> ed2k_chunks cs (d @ x) =
   butlast (ed2k_chunks cs d) @ ed2k_chunks cs (last (ed2k_chunks cs d) @ x)"
proof (induction cs d rule: ed2k_chunks.induct)
  case (1 cs d)
  show ?case
  proof (cases "length d < cs")
    case True
    then show ?thesis by (simp add: ed2k_chunks_short)
  next
    case False
    with "1" have IH: "ed2k_chunks cs (drop cs d @ x) =
        butlast (ed2k_chunks cs (drop cs d)) @ ed2k_chunks cs (last (ed2k_chunks cs (drop cs d)) @ x)"
      by simp
    have "ed2k_chunks cs (d @ x) = take cs d # ed2k_chunks cs (drop cs d @ x)"
      using False "1.prems" by (subst ed2k_chunks.simps) simp
    moreover have "ed2k_chunks cs d = take cs d # ed2k_chunks cs (drop cs d)"
      using False "1.prems" by (subst ed2k_chunks.simps) simp
    ultimately show ?thesis using IH by simp
  qed
qed

text \<open>The state of a hasher that has seen the data \<open>d\<close>.\<close>

definition hashed :: "(bytes \<Rightarrow> bytes) \<Rightarrow> nat \<Rightarrow> bytes \<Rightarrow> ed2k_hasher \<Rightarrow> bool" where
  "hashed md4 cs d h \<longleftrightarrow>
     hs_chunk_size h = cs \<and> hs_size h = length d \<and>
     hs_md4 h = last (ed2k_chunks cs d) \<and>
     hs_chunk_hashes h = map md4 (butlast (ed2k_chunks cs d))"

lemma hashed_new: "0 < cs \<Longrightarrow> hashed md4 cs [] (hasher_new cs)"
  by (simp add: hashed_def hasher_new_def md4_new_def ed2k_chunks_short)

lemma hashed_turn:
  assumes h: "hashed md4 cs d h" and cs: "0 < cs" and ne: "data \<noteq> []"
  shows "hashed md4 cs (d @ take (hasher_take h data) data) (hasher_turn md4 h data)"
proof -
  let ?n = "hasher_take h data" and ?cur = "last (ed2k_chunks cs d)"
  let ?x = "take ?n data"
  have lc: "length ?cur = length d mod cs" by (rule ed2k_chunks_last [OF cs])
  have n: "?n = min (length data) (cs - length ?cur)" and lx: "length ?x = ?n"
    using h lc by (simp_all add: hasher_take_def hashed_def)
  have lt: "length ?cur < cs" using lc cs by simp
  have xne: "?x \<noteq> []" using ne n lt by auto
  have le: "length (?cur @ ?x) \<le> cs" using n lx lt by simp
  have m: "md4_update (hs_md4 h) ?x = ?cur @ ?x" using h xne by (simp add: md4_update_def hashed_def)
  have e: "length (?cur @ ?x) = cs \<longleftrightarrow> (length d + ?n) mod cs = 0"
  proof -
    have "(length d + ?n) mod cs = length (?cur @ ?x) mod cs"
      using lc lx by (simp add: mod_add_left_eq)
    then show ?thesis using le lx xne cs by (auto simp: le_less)
  qed
  show ?thesis
  proof (cases "length (?cur @ ?x) = cs")
    case True
    with e h have s: "(hs_size h + ?n) mod hs_chunk_size h = 0" by (simp add: hashed_def)
    have "ed2k_chunks cs (d @ ?x) = butlast (ed2k_chunks cs d) @ [?cur @ ?x, []]"
      using ed2k_chunks_append [OF cs, of d ?x] ed2k_chunks_full [OF True cs] by simp
    then show ?thesis using h m s lx
      by (simp add: hashed_def hasher_turn_def Let_def md4_new_def butlast_append)
  next
    case False
    with e h have s: "(hs_size h + ?n) mod hs_chunk_size h \<noteq> 0" by (simp add: hashed_def)
    have "ed2k_chunks cs (d @ ?x) = butlast (ed2k_chunks cs d) @ [?cur @ ?x]"
      using ed2k_chunks_append [OF cs, of d ?x] ed2k_chunks_short [of "?cur @ ?x" cs] False le by simp
    then show ?thesis using h m s lx
      by (simp add: hashed_def hasher_turn_def Let_def)
  qed
qed

lemma hashed_update:
  "hashed md4 cs d h \<Longrightarrow> 0 < cs \<Longrightarrow> \<exists>h'. hasher_update md4 h data = Inr h' \<and> hashed md4 cs (d @ data) h'"
proof (induction md4 h data arbitrary: d rule: hasher_update.induct)
  case (1 md4 h data)
  show ?case
  proof (cases "data = []")
    case True
    with "1.prems" show ?thesis by (simp add: hasher_update.simps)
  next
    case False
    have cs: "hs_chunk_size h \<noteq> 0" using "1.prems" by (simp add: hashed_def)
    from "1.IH" [OF False cs hashed_turn [OF "1.prems" False] "1.prems"(2)] obtain h' where
      h': "hasher_update md4 (hasher_turn md4 h data) (drop (hasher_take h data) data) = Inr h'"
        "hashed md4 cs (d @ data) h'" by auto
    have "hasher_update md4 h data = Inr h'" using h'(1) False cs by (subst hasher_update.simps) simp
    with h'(2) show ?thesis by blast
  qed
qed

lemma hashed_blocks:
  "hashed md4 cs d h \<Longrightarrow> 0 < cs \<Longrightarrow>
   \<exists>h'. foldE (hasher_update md4) h bs = Inr h' \<and> hashed md4 cs (d @ concat bs) h'"
proof (induction bs arbitrary: d h)
  case (Cons b bs)
  from hashed_update [OF Cons.prems, of b] obtain h1 where
    "hasher_update md4 h b = Inr h1" "hashed md4 cs (d @ b) h1" by blast
  with Cons.IH [of "d @ b" h1] Cons.prems show ?case by simp
qed simp

lemma hashed_result:
  assumes h: "hashed md4 cs d h" and cs: "0 < cs"
  shows "\<exists>h'. hasher_result md4 h = Inr (ed2k_spec md4 cs d, h')"
proof -
  let ?c = "ed2k_chunks cs d"
  have f: "hs_size h mod hs_chunk_size h \<noteq> 0 \<or> (hs_size h mod hs_chunk_size h = 0 \<and> hs_size h \<noteq> 0) \<or>
      hs_chunk_hashes h = []"
    using h cs by (cases "d = []") (auto simp: hashed_def ed2k_chunks_short)
  have hs: "map md4 (butlast ?c) @ [md4 (last ?c)] = map md4 ?c"
  proof -
    have "map md4 ?c = map md4 (butlast ?c @ [last ?c])" by simp
    then show ?thesis by (simp only: map_append list.map)
  qed
  have one: "length ?c = 1 \<Longrightarrow> last ?c = d"
    by (subst (asm) ed2k_chunks.simps, subst ed2k_chunks.simps) (auto split: if_splits)
  have nn: "length ?c = 1 \<Longrightarrow> map md4 ?c ! 0 = md4 d"
    using one by (cases ?c) auto
  show ?thesis
    using f h cs hs nn
    by (simp add: hasher_result_def hasher_finalize_def Let_def hashed_def ed2k_spec_def)
qed

lemma concat_read_blocks: "0 < n \<Longrightarrow> concat (read_blocks n d) = d"
proof (induction n d rule: read_blocks.induct)
  case (1 n d)
  then show ?case by (cases "d = []") (simp_all add: read_blocks.simps)
qed

text \<open>
  C6. However the data are cut into \<open>update\<close> calls, the hasher returns the ED2K hash of their
  concatenation: the MD4 of every chunk, a terminating empty chunk at an exact multiple of the
  chunk size, and as file hash the single digest or the MD4 of all of them.
\<close>

theorem hasher_blocks_spec:
  assumes "0 < cs"
  shows "\<exists>h h'. foldE (hasher_update md4) (hasher_new cs) blocks = Inr h \<and>
    hasher_result md4 h = Inr (ed2k_spec md4 cs (concat blocks), h')"
  using hashed_blocks [OF hashed_new [OF assms] assms, of md4 blocks] hashed_result [OF _ assms]
  by fastforce

theorem hasher_blocks_spec_witness:
  "\<exists>h h'. foldE (hasher_update id) (hasher_new 2) [[1], [2, 3, 4], []] = Inr h \<and>
    hasher_result id h = Inr (ed2k_spec id 2 (concat [[1], [2, 3, 4], []]), h')"
  by (rule hasher_blocks_spec) simp

lemma ed2k_hash_data_spec: "0 < cs \<Longrightarrow> ed2k_hash_data md4 d cs = Inr (ed2k_spec md4 cs d)"
  using hashed_update [OF hashed_new, of cs md4 d] hashed_result [of md4 cs d]
  by (fastforce simp: ed2k_hash_data_def)

lemma ed2k_hash_file_spec: "0 < cs \<Longrightarrow> ed2k_hash_file md4 d cs = Inr (ed2k_spec md4 cs d)"
  using hashed_blocks [OF hashed_new, of cs md4 "read_blocks 65536 d"] hashed_result [of md4 cs d]
  by (fastforce simp: ed2k_hash_file_def concat_read_blocks)

text \<open>Asking for the result twice appends one more digest: \<open>result\<close> is not idempotent.\<close>

lemma hasher_result_twice:
  assumes "0 < cs" and "d \<noteq> []" and "hasher_update md4 (hasher_new cs) d = Inr h"
    and "hasher_result md4 h = Inr (r1, h1)" and "hasher_result md4 h1 = Inr (r2, h2)"
  shows "chunk_hashes r2 = chunk_hashes r1 @ [md4 []]"
proof -
  have "hashed md4 cs d h"
    using hashed_update [OF hashed_new [OF assms(1)] assms(1), of md4 d] assms(3) by simp
  then have "hs_size h \<noteq> 0" "hs_chunk_size h = cs" using assms(2) by (simp_all add: hashed_def)
  with assms(1,4,5) show ?thesis
    by (auto simp: hasher_result_def hasher_finalize_def Let_def md4_new_def bindE_eq_Inr_conv
        split: if_splits)
qed

end
