(* ===== verification/Download_Queue.thy ===== *)
theory Download_Queue
  imports Part_File Ed2k_Hash
begin

text \<open>
  \<open>core/download/queue.py\<close> with the rows of the table \<open>downloads\<close> that \<open>state.py\<close> keeps for it.
  A queue is the list of rows, the files of each part path, the directory of finished files and
  its configuration. The SQL statements are modelled on the rows, a row being found by its hash
  in lower case; time stamps are left out. A part file is used through the contract of
  \<open>gap_store\<close>.
\<close>

section \<open>The table\<close>

datatype dl_status = QUEUED | DOWNLOADING | PAUSED | COMPLETE | ERROR

record dl_row =
  dr_hash :: string
  dr_name :: string
  dr_size :: int
  dr_part_path :: string
  dr_status :: dl_status
  dr_downloaded :: int

record dl_queue =
  dq_rows :: "dl_row list"
  dq_parts :: "string \<rightharpoonup> disk"
  dq_incoming :: "string \<rightharpoonup> bytes"
  dq_temp_dir :: string
  dq_sparse :: bool

definition row_is :: "string \<Rightarrow> dl_row \<Rightarrow> bool" where
  "row_is h r \<longleftrightarrow> py_lower (dr_hash r) = py_lower h"

definition add_download :: "string \<Rightarrow> string \<Rightarrow> int \<Rightarrow> string \<Rightarrow> dl_status \<Rightarrow> dl_row list \<Rightarrow> dl_row list" where
  "add_download h name sz path st rows =
     rows @ [\<lparr>dr_hash = map upper_char h, dr_name = name, dr_size = sz, dr_part_path = path,
              dr_status = st, dr_downloaded = 0\<rparr>]"

definition get_download :: "string \<Rightarrow> dl_row list \<Rightarrow> dl_row option" where
  "get_download h rows = List.find (row_is h) rows"

definition update_rows :: "string \<Rightarrow> (dl_row \<Rightarrow> dl_row) \<Rightarrow> dl_row list \<Rightarrow> dl_row list" where
  "update_rows h f rows = map (\<lambda>r. if row_is h r then f r else r) rows"

definition set_download_status :: "string \<Rightarrow> dl_status \<Rightarrow> dl_row list \<Rightarrow> bool \<times> dl_row list" where
  "set_download_status h st rows =
     (let rows' = update_rows h (\<lambda>r. r\<lparr>dr_status := st\<rparr>) rows in (list_ex (row_is h) rows', rows'))"

definition update_download_progress :: "string \<Rightarrow> int \<Rightarrow> dl_status \<Rightarrow> dl_row list \<Rightarrow> dl_row list" where
  "update_download_progress h n st rows =
     update_rows h (\<lambda>r. r\<lparr>dr_downloaded := n, dr_status := st\<rparr>) rows"

definition remove_download :: "string \<Rightarrow> dl_row list \<Rightarrow> bool \<times> dl_row list" where
  "remove_download h rows = (list_ex (row_is h) rows, filter (\<lambda>r. \<not> row_is h r) rows)"

section \<open>The queue\<close>

definition normalize_hash :: "string \<Rightarrow> string res" where
  "normalize_hash h =
     (let n = py_lower (py_strip h) in
      if length n \<noteq> 32 then Inl DownloadQueueError
      else case from_hex n of None \<Rightarrow> Inl ValueError | Some _ \<Rightarrow> Inr n)"

definition part_path_of :: "dl_queue \<Rightarrow> string \<Rightarrow> string" where
  "part_path_of q n = dq_temp_dir q @ ''/'' @ n @ ''.part''"

definition part_disk :: "dl_queue \<Rightarrow> string \<Rightarrow> disk" where
  "part_disk q path = (case dq_parts q path of Some k \<Rightarrow> k | None \<Rightarrow> \<lparr>d_data = None, d_sidecar = None\<rparr>)"

definition dq_get :: "string \<Rightarrow> dl_queue \<Rightarrow> dl_row option res" where
  "dq_get h q = bindE (normalize_hash h) (\<lambda>n. Inr (get_download n (dq_rows q)))"

text \<open>The lookup most operations start with: a missing row is an error.\<close>

definition dq_require :: "string \<Rightarrow> dl_queue \<Rightarrow> (string \<times> dl_row) res" where
  "dq_require h q =
     bindE (normalize_hash h) (\<lambda>n.
       case get_download n (dq_rows q) of None \<Rightarrow> Inl DownloadQueueError | Some r \<Rightarrow> Inr (n, r))"

definition dq_add :: "int \<Rightarrow> string \<Rightarrow> string \<Rightarrow> int \<Rightarrow> dl_queue \<Rightarrow> (dl_row \<times> dl_queue) res" where
  "dq_add free h name sz q =
     bindE (normalize_hash h) (\<lambda>n.
       case get_download n (dq_rows q) of
         Some r \<Rightarrow> Inr (r, q)
       | None \<Rightarrow>
           let path = part_path_of q n in
           bindE (mk_part_file sz n name (dq_sparse q)) (\<lambda>p.
           bindE (open_new free p (part_disk q path)) (\<lambda>k.
             let q' = q\<lparr>dq_parts := (dq_parts q)(path \<mapsto> k),
                        dq_rows := add_download n name sz path QUEUED (dq_rows q)\<rparr> in
             case get_download n (dq_rows q') of
               None \<Rightarrow> Inl AssertionError | Some r \<Rightarrow> Inr (r, q'))))"

definition dq_set_status :: "string \<Rightarrow> dl_status \<Rightarrow> dl_queue \<Rightarrow> (dl_row \<times> dl_queue) res" where
  "dq_set_status h st q =
     bindE (normalize_hash h) (\<lambda>n.
       let (changed, rows') = set_download_status n st (dq_rows q) in
       if \<not> changed then Inl DownloadQueueError
       else case get_download n rows' of
         None \<Rightarrow> Inl AssertionError | Some r \<Rightarrow> Inr (r, q\<lparr>dq_rows := rows'\<rparr>))"

definition dq_start :: "string \<Rightarrow> dl_queue \<Rightarrow> (dl_row \<times> dl_queue) res" where
  "dq_start h q = dq_set_status h DOWNLOADING q"

definition dq_pause :: "string \<Rightarrow> dl_queue \<Rightarrow> (dl_row \<times> dl_queue) res" where
  "dq_pause h q = dq_set_status h PAUSED q"

definition dq_resume :: "string \<Rightarrow> dl_queue \<Rightarrow> (dl_row \<times> dl_queue) res" where
  "dq_resume h q =
     bindE (dq_get h q) (\<lambda>e.
       case e of None \<Rightarrow> Inl DownloadQueueError
       | Some r \<Rightarrow> if dr_status r \<noteq> PAUSED then Inl DownloadQueueError else dq_set_status h DOWNLOADING q)"

definition dq_cancel :: "string \<Rightarrow> bool \<Rightarrow> dl_queue \<Rightarrow> (nat \<times> dl_queue) res" where
  "dq_cancel h keep_files q =
     bindE (dq_require h q) (\<lambda>(n, r).
       let k = part_disk q (dr_part_path r);
           removed = (if keep_files then 0
                      else (if d_data k \<noteq> None then 1 else 0) + (if d_sidecar k \<noteq> None then 1 else 0));
           parts' = (if keep_files then dq_parts q else (dq_parts q)(dr_part_path r := None)) in
       Inr (removed, q\<lparr>dq_parts := parts', dq_rows := snd (remove_download n (dq_rows q))\<rparr>))"

definition dq_record_block :: "string \<Rightarrow> int \<Rightarrow> bytes \<Rightarrow> dl_queue \<Rightarrow> ((int \<times> bool) \<times> dl_queue) res" where
  "dq_record_block h start d q =
     bindE (dq_require h q) (\<lambda>(n, r).
     bindE (resume (part_disk q (dr_part_path r))) (\<lambda>p.
     bindE (write_block start d (p, part_disk q (dr_part_path r))) (\<lambda>(remaining, p', k').
       let st = (if is_complete p' then COMPLETE else DOWNLOADING) in
       Inr ((remaining, is_complete p'),
            q\<lparr>dq_parts := (dq_parts q)(dr_part_path r \<mapsto> save p' k'),
              dq_rows := update_download_progress n (downloaded_bytes p') st (dq_rows q)\<rparr>))))"

definition dq_gap_ranges :: "string \<Rightarrow> dl_queue \<Rightarrow> (int \<times> int) list res" where
  "dq_gap_ranges h q =
     bindE (dq_require h q) (\<lambda>(n, r).
     bindE (resume (part_disk q (dr_part_path r))) (\<lambda>p.
       Inr (map (\<lambda>g. (gap_start g, gap_end g)) (pf_gaps p))))"

definition dq_punch_gaps :: "string \<Rightarrow> (int \<times> int) list \<Rightarrow> dl_queue \<Rightarrow> dl_queue res" where
  "dq_punch_gaps h ranges q =
     bindE (dq_require h q) (\<lambda>(n, r).
     bindE (resume (part_disk q (dr_part_path r))) (\<lambda>p.
       let p' = fold (\<lambda>(a, b). punch a b) ranges p in
       Inr (q\<lparr>dq_parts := (dq_parts q)(dr_part_path r \<mapsto> save p' (part_disk q (dr_part_path r))),
              dq_rows := update_download_progress n (downloaded_bytes p') DOWNLOADING (dq_rows q)\<rparr>)))"

text \<open>\<open>md4\<close> is the digest of PyCryptodome; the moved file leaves its sidecar behind.\<close>

definition file_hash_hex :: "(bytes \<Rightarrow> bytes) \<Rightarrow> bytes \<Rightarrow> string res" where
  "file_hash_hex md4 content =
     bindE (ed2k_hash_file md4 content PARTSIZE) (\<lambda>r. Inr (map upper_char (to_hex (file_hash r))))"

definition dq_finalize :: "(bytes \<Rightarrow> bytes) \<Rightarrow> int \<Rightarrow> string \<Rightarrow> bool \<Rightarrow> dl_queue \<Rightarrow> (string \<times> dl_queue) res" where
  "dq_finalize md4 free h verify q =
     bindE (dq_require h q) (\<lambda>(n, r).
       if dr_status r \<noteq> COMPLETE then Inl DownloadQueueError
       else
         let k = part_disk q (dr_part_path r) in
         case d_data k of
           None \<Rightarrow> Inl OSError
         | Some content \<Rightarrow>
             if free \<le> int (length content) then Inl DownloadQueueError
             else
               bindE (if verify then bindE (resume k) (\<lambda>p.
                        if \<not> is_complete p then Inl DownloadQueueError else Inr ()) else Inr ()) (\<lambda>_.
               bindE (if verify then bindE (file_hash_hex md4 content) (\<lambda>a.
                        if py_lower a \<noteq> n then Inl DownloadQueueError else Inr ()) else Inr ()) (\<lambda>_.
                 Inr (dr_name r,
                   q\<lparr>dq_incoming := (dq_incoming q)(dr_name r \<mapsto> content),
                     dq_parts := (dq_parts q)(dr_part_path r \<mapsto> k\<lparr>d_data := None\<rparr>),
                     dq_rows := snd (set_download_status n COMPLETE (dq_rows q))\<rparr>))))"

section \<open>The invariant\<close>

text \<open>
  What holds of a row whatever happened to it: its part file is the one its hash names, and a
  sidecar found there is of its size and canonical.
\<close>

definition row_wf :: "dl_queue \<Rightarrow> dl_row \<Rightarrow> bool" where
  "row_wf q r \<longleftrightarrow>
     dr_part_path r = part_path_of q (py_lower (dr_hash r)) \<and> 0 < dr_size r \<and>
     (\<forall>k sc. dq_parts q (dr_part_path r) = Some k \<and> d_sidecar k = Some sc \<longrightarrow>
        sc_total_size sc = dr_size r \<and> canonical (dr_size r) (sc_gaps sc))"

text \<open>The progress column is the number of bytes the gaps of the sidecar leave.\<close>

definition row_exact :: "dl_queue \<Rightarrow> dl_row \<Rightarrow> bool" where
  "row_exact q r \<longleftrightarrow>
     (\<exists>k sc. dq_parts q (dr_part_path r) = Some k \<and> d_sidecar k = Some sc \<and>
        dr_downloaded r = dr_size r - int (card (gap_bytes (sc_gaps sc))))"

text \<open>One row per hash; \<open>D\<close> holds the hashes whose progress may be out of date.\<close>

definition dq_inv :: "string set \<Rightarrow> dl_queue \<Rightarrow> bool" where
  "dq_inv D q \<longleftrightarrow> distinct (map (\<lambda>r. py_lower (dr_hash r)) (dq_rows q)) \<and>
     (\<forall>r\<in>set (dq_rows q). row_wf q r \<and> (py_lower (dr_hash r) \<notin> D \<longrightarrow> row_exact q r))"

lemma dq_invD:
  assumes "dq_inv D q" and "r \<in> set (dq_rows q)"
  shows "row_wf q r" and "py_lower (dr_hash r) \<notin> D \<Longrightarrow> row_exact q r"
  using assms by (auto simp: dq_inv_def)

lemma dq_inv_mono: "dq_inv D q \<Longrightarrow> D \<subseteq> D' \<Longrightarrow> dq_inv D' q"
  by (auto simp: dq_inv_def)

lemma part_path_of_update [simp]:
  "part_path_of (dq_parts_update g q) = part_path_of q"
  "part_path_of (dq_rows_update g' q) = part_path_of q"
  "part_path_of (dq_incoming_update g'' q) = part_path_of q"
  by (rule ext; simp add: part_path_of_def)+

lemma lower_upper_char: "lower_char (upper_char c) = lower_char c" if "lower_char c = c"
proof (cases "97 \<le> code c \<and> code c \<le> 122")
  case True
  have "code c - 32 < 256" using code_less [of c] by simp
  then have e: "code (char_of (code c - 32)) = code c - 32" by (rule code_char_of)
  have "65 \<le> code c - 32 \<and> code c - 32 \<le> 90" "code c - 32 + 32 = code c" using True by auto
  then have "lower_char (char_of (code c - 32)) = char_of (code c)"
    unfolding lower_char_def Let_def e by simp
  then show ?thesis using True that by (simp add: upper_char_def Let_def code_def)
next
  case False
  then show ?thesis by (auto simp: upper_char_def Let_def)
qed

lemma normalize_hash_lower: "normalize_hash h = Inr n \<Longrightarrow> py_lower n = n"
  by (auto simp: normalize_hash_def Let_def split: if_splits option.splits)

lemma lower_upper: "py_lower n = n \<Longrightarrow> py_lower (map upper_char n) = n"
proof -
  assume a: "py_lower n = n"
  then have "\<And>c. c \<in> set n \<Longrightarrow> lower_char c = c"
    unfolding py_lower_def by (metis map_eq_conv map_ident)
  then have "py_lower (map upper_char n) = py_lower n"
    unfolding py_lower_def by (auto simp: lower_upper_char)
  with a show ?thesis by simp
qed

lemma get_download_Some:
  assumes "py_lower n = n" and "get_download n rows = Some r"
  shows "r \<in> set rows" and "py_lower (dr_hash r) = n"
  using assms by (auto simp: get_download_def find_Some_iff row_is_def)

lemma get_download_None: "get_download n rows = None \<longleftrightarrow> (\<forall>r\<in>set rows. \<not> row_is n r)"
  by (auto simp: get_download_def find_None_iff)

lemma dq_require_Inr:
  assumes "dq_require h q = Inr (n, r)"
  shows "normalize_hash h = Inr n" "py_lower n = n" "r \<in> set (dq_rows q)" "py_lower (dr_hash r) = n"
proof -
  show n: "normalize_hash h = Inr n" using assms
    by (auto simp: dq_require_def bindE_eq_Inr_conv split: option.splits)
  then show l: "py_lower n = n" by (rule normalize_hash_lower)
  have g: "get_download n (dq_rows q) = Some r" using assms
    by (auto simp: dq_require_def bindE_eq_Inr_conv split: option.splits)
  show "r \<in> set (dq_rows q)" "py_lower (dr_hash r) = n" using get_download_Some [OF l g] by auto
qed

lemma part_path_inject: "part_path_of q n = part_path_of q m \<longleftrightarrow> n = m"
  by (simp add: part_path_of_def)

text \<open>
  Rewriting one row and its files keeps the invariant; the row may be taken from \<open>D\<close> when its
  progress is that of the new sidecar.
\<close>

lemma dq_inv_update:
  assumes inv: "dq_inv D q" and r: "r \<in> set (dq_rows q)" and n: "py_lower n = n" "py_lower (dr_hash r) = n"
    and f: "\<And>x. dr_hash (f x) = dr_hash x" "\<And>x. dr_part_path (f x) = dr_part_path x" "\<And>x. dr_size (f x) = dr_size x"
    and k: "\<And>sc. d_sidecar k = Some sc \<Longrightarrow> sc_total_size sc = dr_size r \<and> canonical (dr_size r) (sc_gaps sc)"
    and D: "D - {n} \<subseteq> D'"
    and exact: "n \<notin> D' \<Longrightarrow> \<exists>sc. d_sidecar k = Some sc \<and> dr_downloaded (f r) = dr_size r - int (card (gap_bytes (sc_gaps sc)))"
  shows "dq_inv D' (q\<lparr>dq_parts := (dq_parts q)(dr_part_path r \<mapsto> k), dq_rows := update_rows n f (dq_rows q)\<rparr>)"
proof -
  let ?q = "q\<lparr>dq_parts := (dq_parts q)(dr_part_path r \<mapsto> k), dq_rows := update_rows n f (dq_rows q)\<rparr>"
  have hs: "map (\<lambda>r. py_lower (dr_hash r)) (update_rows n f (dq_rows q)) = map (\<lambda>r. py_lower (dr_hash r)) (dq_rows q)"
    by (simp add: update_rows_def f)
  have only: "x = r" if "x \<in> set (dq_rows q)" "row_is n x" for x
  proof -
    have "inj_on (\<lambda>r. py_lower (dr_hash r)) (set (dq_rows q))"
      using inv by (simp add: dq_inv_def distinct_map)
    then show ?thesis using that r n by (auto simp: row_is_def inj_on_def)
  qed
  note rw = dq_invD(1) [OF inv r]
  have "row_wf ?q y \<and> (py_lower (dr_hash y) \<notin> D' \<longrightarrow> row_exact ?q y)" if "y \<in> set (update_rows n f (dq_rows q))" for y
  proof -
    from that obtain x where x: "x \<in> set (dq_rows q)" "y = (if row_is n x then f x else x)"
      by (auto simp: update_rows_def)
    note xw = dq_invD(1) [OF inv x(1)]
    show ?thesis
    proof (cases "row_is n x")
      case True
      then have "y = f r" using only x by auto
      then show ?thesis using rw k exact f n by (simp add: row_wf_def row_exact_def)
    next
      case False
      then have h: "py_lower (dr_hash x) \<noteq> n" using n(1) by (simp add: row_is_def)
      then have path: "dr_part_path x \<noteq> dr_part_path r"
        using rw xw n by (simp add: row_wf_def part_path_inject)
      have "row_wf ?q x" using xw path by (auto simp: row_wf_def)
      moreover have "row_exact ?q x" if "py_lower (dr_hash x) \<notin> D'"
        using dq_invD(2) [OF inv x(1)] D h that path by (auto simp: row_exact_def)
      ultimately show ?thesis using False x(2) by simp
    qed
  qed
  then show ?thesis using inv hs by (simp add: dq_inv_def)
qed

text \<open>What the part file of a row is, as \<open>resume\<close> reads it.\<close>

lemma row_resume:
  assumes "row_wf q r" and "resume (part_disk q (dr_part_path r)) = Inr p"
  obtains k sc where "dq_parts q (dr_part_path r) = Some k" "part_disk q (dr_part_path r) = k"
    "d_sidecar k = Some sc" "pf_wf p" "pf_total_size p = dr_size r" "pf_gaps p = sc_gaps sc"
proof -
  obtain k sc where k: "dq_parts q (dr_part_path r) = Some k" "d_sidecar k = Some sc"
    using assms(2) by (auto simp: part_disk_def resume_def split: option.splits)
  then have sc: "sc_total_size sc = dr_size r" "canonical (dr_size r) (sc_gaps sc)" "0 < dr_size r"
    using assms(1) by (auto simp: row_wf_def)
  have pd: "part_disk q (dr_part_path r) = k" using k(1) by (simp add: part_disk_def)
  have "pf_total_size p = dr_size r \<and> pf_gaps p = sc_gaps sc"
    using assms(2) k sc pd
    by (auto simp: resume_def Let_def bindE_eq_Inr_conv normalize_gaps_id split: if_splits dest!: mk_part_file_wf)
  then show thesis
    using k sc pd by (intro that [of k sc]) (auto simp: pf_wf_def pf_missing_def)
qed

lemma save_sidecar:
  "d_sidecar (save p k) = Some sc \<longleftrightarrow> sc = \<lparr>sc_file_hash = pf_file_hash p, sc_name = pf_name p,
     sc_total_size = pf_total_size p, sc_sparse = Some (pf_sparse p), sc_gaps = pf_gaps p,
     sc_chunk_bitmap = chunk_bitmap p\<rparr>"
  by (auto simp: save_def)

lemma dq_inv_progress:
  assumes inv: "dq_inv D q" and req: "dq_require h q = Inr (n, r)"
    and p: "pf_wf p" "pf_total_size p = dr_size r"
  shows "dq_inv (D - {n}) (q\<lparr>dq_parts := (dq_parts q)(dr_part_path r \<mapsto> save p k),
     dq_rows := update_download_progress n (downloaded_bytes p) st (dq_rows q)\<rparr>)"
  unfolding update_download_progress_def
proof (rule dq_inv_update [OF inv dq_require_Inr(3) [OF req] dq_require_Inr(2) [OF req] dq_require_Inr(4) [OF req]])
  let ?sc = "the (d_sidecar (save p k))"
  show "d_sidecar (save p k) = Some sc \<Longrightarrow> sc_total_size sc = dr_size r \<and> canonical (dr_size r) (sc_gaps sc)" for sc
    using p by (auto simp: save_def pf_wf_def)
  have "downloaded_bytes p = dr_size r - int (card (pf_missing p))"
    using p by (simp add: downloaded_bytes_def pf_remaining_card)
  then show "\<exists>sc. d_sidecar (save p k) = Some sc \<and> dr_downloaded (r\<lparr>dr_downloaded := downloaded_bytes p, dr_status := st\<rparr>) =
      dr_size r - int (card (gap_bytes (sc_gaps sc)))"
    by (simp add: save_def pf_missing_def)
qed simp_all

lemma write_block_wf:
  assumes "pf_wf p" and "write_block s d (p, k) = Inr (m, p', k')"
  shows "pf_wf p'" "pf_total_size p' = pf_total_size p" "m = remaining_bytes p'"
    "pf_missing p' = pf_missing p - {s..<s + int (length d)}"
  using assms by (auto simp: write_block_def Let_def pf.fill_ok pf.fill_len pf.fill_missing
      split: if_splits option.splits)

lemma dq_inv_record_block:
  assumes "dq_inv D q" and "dq_record_block h s d q = Inr (x, q')" and "normalize_hash h = Inr n"
  shows "dq_inv (D - {n}) q'"
proof -
  from assms(2) obtain n' r p m p' k' where
    req': "dq_require h q = Inr (n', r)" and p: "resume (part_disk q (dr_part_path r)) = Inr p" and
    w: "write_block s d (p, part_disk q (dr_part_path r)) = Inr (m, p', k')" and
    q': "q' = q\<lparr>dq_parts := (dq_parts q)(dr_part_path r \<mapsto> save p' k'),
        dq_rows := update_download_progress n' (downloaded_bytes p')
          (if is_complete p' then COMPLETE else DOWNLOADING) (dq_rows q)\<rparr>"
    by (auto simp: dq_record_block_def bindE_eq_Inr_conv Let_def)
  have n': "n' = n" using dq_require_Inr(1) [OF req'] assms(3) by simp
  note req = req' [unfolded n']
  have "row_wf q r" by (rule dq_invD(1) [OF assms(1) dq_require_Inr(3) [OF req]])
  from row_resume [OF this p] have "pf_wf p" "pf_total_size p = dr_size r" by metis+
  with w write_block_wf [OF _ w] show ?thesis
    unfolding q' n' by (intro dq_inv_progress [OF assms(1) req]) auto
qed

lemma dq_inv_punch_gaps:
  assumes "dq_inv D q" and "dq_punch_gaps h ranges q = Inr q'" and "normalize_hash h = Inr n"
  shows "dq_inv (D - {n}) q'"
proof -
  from assms(2) obtain n' r p where
    req': "dq_require h q = Inr (n', r)" and p: "resume (part_disk q (dr_part_path r)) = Inr p" and
    q': "q' = q\<lparr>dq_parts := (dq_parts q)(dr_part_path r \<mapsto> save (pf.reopens ranges p) (part_disk q (dr_part_path r))),
        dq_rows := update_download_progress n' (downloaded_bytes (pf.reopens ranges p)) DOWNLOADING (dq_rows q)\<rparr>"
    by (auto simp: dq_punch_gaps_def bindE_eq_Inr_conv Let_def pf.reopens_def)
  have n': "n' = n" using dq_require_Inr(1) [OF req'] assms(3) by simp
  note req = req' [unfolded n']
  have "row_wf q r" by (rule dq_invD(1) [OF assms(1) dq_require_Inr(3) [OF req]])
  from row_resume [OF this p] have "pf_wf p" "pf_total_size p = dr_size r" by metis+
  then show ?thesis
    unfolding q' n' using pf.reopens_missing [of p ranges] by (intro dq_inv_progress [OF assms(1) req]) auto
qed

lemma dq_inv_set_status:
  assumes "dq_inv D q" and "dq_set_status h st q = Inr (r, q')"
  shows "dq_inv D q'"
proof -
  from assms(2) obtain n where
    q': "q' = q\<lparr>dq_rows := update_rows n (\<lambda>r. r\<lparr>dr_status := st\<rparr>) (dq_rows q)\<rparr>"
    by (auto simp: dq_set_status_def set_download_status_def bindE_eq_Inr_conv Let_def
        split: if_splits option.splits)
  have "map (\<lambda>r. py_lower (dr_hash r)) (dq_rows q') = map (\<lambda>r. py_lower (dr_hash r)) (dq_rows q)"
    by (simp add: q' update_rows_def)
  then have "distinct (map (\<lambda>r. py_lower (dr_hash r)) (dq_rows q'))"
    using assms(1) unfolding dq_inv_def by (simp only:)
  moreover have "\<forall>r\<in>set (dq_rows q'). row_wf q' r \<and> (py_lower (dr_hash r) \<notin> D \<longrightarrow> row_exact q' r)"
    using assms(1) by (auto simp: dq_inv_def q' update_rows_def row_wf_def row_exact_def)
  ultimately show ?thesis by (simp add: dq_inv_def)
qed

text \<open>Dropping rows, and touching the files of paths that no row left uses.\<close>

lemma dq_inv_files:
  assumes inv: "dq_inv D q" and rows: "dq_rows q' = filter P (dq_rows q)" and dir: "dq_temp_dir q' = dq_temp_dir q"
    and same: "\<And>x. x \<in> set (dq_rows q') \<Longrightarrow> dq_parts q' (dr_part_path x) = dq_parts q (dr_part_path x)"
  shows "dq_inv D q'"
proof -
  have "part_path_of q' = part_path_of q" using dir by (simp add: part_path_of_def fun_eq_iff)
  then have "\<forall>r\<in>set (dq_rows q'). row_wf q' r \<and> (py_lower (dr_hash r) \<notin> D \<longrightarrow> row_exact q' r)"
    using inv same rows by (auto simp: dq_inv_def row_wf_def row_exact_def)
  moreover have "distinct (map (\<lambda>r. py_lower (dr_hash r)) (dq_rows q'))"
    using inv by (auto simp: rows dq_inv_def intro: distinct_map_filter)
  ultimately show ?thesis by (simp add: dq_inv_def)
qed

lemma dq_inv_cancel:
  assumes "dq_inv D q" and "dq_cancel h keep q = Inr (m, q')"
  shows "dq_inv D q'"
proof -
  from assms(2) obtain n r where req: "dq_require h q = Inr (n, r)" and
    q': "q' = q\<lparr>dq_parts := (if keep then dq_parts q else (dq_parts q)(dr_part_path r := None)),
        dq_rows := filter (\<lambda>r. \<not> row_is n r) (dq_rows q)\<rparr>"
    by (auto simp: dq_cancel_def bindE_eq_Inr_conv Let_def remove_download_def)
  have n: "py_lower n = n" "py_lower (dr_hash r) = n" "r \<in> set (dq_rows q)"
    using dq_require_Inr [OF req] by auto
  show ?thesis
  proof (rule dq_inv_files [OF assms(1)])
    show "dq_rows q' = filter (\<lambda>r. \<not> row_is n r) (dq_rows q)" by (simp add: q')
    fix x assume "x \<in> set (dq_rows q')"
    then have x: "x \<in> set (dq_rows q)" "\<not> row_is n x" by (auto simp: q')
    with dq_invD(1) [OF assms(1)] n have "row_wf q x" "row_wf q r" by auto
    then have "dr_part_path x \<noteq> dr_part_path r"
      using x n by (auto simp: row_wf_def part_path_inject row_is_def)
    then show "dq_parts q' (dr_part_path x) = dq_parts q (dr_part_path x)" by (simp add: q')
  qed (simp add: q')
qed

lemma open_new_saved: "open_new free p k = Inr k' \<Longrightarrow> \<exists>k2. k' = save p k2"
  by (auto simp: open_new_def bindE_eq_Inr_conv)

text \<open>No row has a hash that is not found.\<close>

lemma fresh_hash:
  "normalize_hash h = Inr n \<Longrightarrow> get_download n (dq_rows q) = None \<Longrightarrow> x \<in> set (dq_rows q) \<Longrightarrow> py_lower (dr_hash x) \<noteq> n"
  using normalize_hash_lower by (auto simp: get_download_None row_is_def)

lemma fresh_path:
  assumes "dq_inv D q" and "normalize_hash h = Inr n" and "get_download n (dq_rows q) = None" and "x \<in> set (dq_rows q)"
  shows "dr_part_path x \<noteq> part_path_of q n"
  using dq_invD(1) [OF assms(1,4)] fresh_hash [OF assms(2-4)] by (auto simp: row_wf_def part_path_inject)

lemma dq_inv_add:
  assumes inv: "dq_inv D q" and add: "dq_add free h name sz q = Inr (r, q')" and n: "normalize_hash h = Inr n"
  shows "dq_inv (if get_download n (dq_rows q) = None then D - {n} else D) q'"
proof (cases "get_download n (dq_rows q)")
  case (Some a)
  with add n inv show ?thesis by (simp add: dq_add_def)
next
  case None
  from add n None obtain p k where p: "mk_part_file sz n name (dq_sparse q) = Inr p"
    and k: "open_new free p (part_disk q (part_path_of q n)) = Inr k"
    and q': "q' = q\<lparr>dq_parts := (dq_parts q)(part_path_of q n \<mapsto> k),
        dq_rows := add_download n name sz (part_path_of q n) QUEUED (dq_rows q)\<rparr>"
    by (auto simp: dq_add_def bindE_eq_Inr_conv Let_def split: option.splits)
  have l: "py_lower n = n" "py_lower (map upper_char n) = n"
    using normalize_hash_lower [OF n] lower_upper by auto
  have wf: "pf_wf p" "pf_missing p = {0..<sz}" "pf_total_size p = sz"
    using mk_part_file_wf [OF p] by auto
  obtain k2 where k2: "k = save p k2" using open_new_saved [OF k] by blast
  note fresh = fresh_hash [OF n None]
  have "row_wf q' x \<and> (py_lower (dr_hash x) \<notin> D - {n} \<longrightarrow> row_exact q' x)" if "x \<in> set (dq_rows q')" for x
  proof (cases "x \<in> set (dq_rows q)")
    case True
    note ok = dq_invD [OF inv True] and path = fresh_path [OF inv n None True]
    have "row_wf q' x" using ok(1) path by (auto simp: row_wf_def q')
    moreover have "py_lower (dr_hash x) \<notin> D - {n} \<Longrightarrow> row_exact q' x"
      using ok(2) path fresh [OF True] by (auto simp: row_exact_def q')
    ultimately show ?thesis by blast
  next
    case False
    then have "x = \<lparr>dr_hash = map upper_char n, dr_name = name, dr_size = sz,
        dr_part_path = part_path_of q n, dr_status = QUEUED, dr_downloaded = 0\<rparr>"
      using that by (simp add: q' add_download_def)
    moreover have "sz = int (card (gap_bytes (pf_gaps p)))"
      using wf by (simp add: pf_missing_def [symmetric] pf_wf_def)
    ultimately show ?thesis using wf l by (auto simp: row_wf_def row_exact_def q' k2 save_def pf_wf_def)
  qed
  moreover have "distinct (map (\<lambda>r. py_lower (dr_hash r)) (dq_rows q'))"
    using inv fresh l by (auto simp: q' add_download_def dq_inv_def)
  ultimately show ?thesis using None by (simp add: dq_inv_def)
qed

lemma dq_finalize_Inr:
  assumes "dq_finalize md4 free h verify q = Inr (name, q')"
  obtains n r content where "dq_require h q = Inr (n, r)" "dr_status r = COMPLETE" "name = dr_name r"
    "d_data (part_disk q (dr_part_path r)) = Some content" "int (length content) < free"
    "verify \<Longrightarrow> \<exists>p. resume (part_disk q (dr_part_path r)) = Inr p \<and> is_complete p"
    "verify \<Longrightarrow> \<exists>a. file_hash_hex md4 content = Inr a \<and> py_lower a = n"
    "q' = q\<lparr>dq_incoming := (dq_incoming q)(dr_name r \<mapsto> content),
       dq_parts := (dq_parts q)(dr_part_path r \<mapsto> (part_disk q (dr_part_path r))\<lparr>d_data := None\<rparr>),
       dq_rows := update_rows n (\<lambda>r. r\<lparr>dr_status := COMPLETE\<rparr>) (dq_rows q)\<rparr>"
  using assms
  by (auto simp: dq_finalize_def bindE_eq_Inr_conv Let_def set_download_status_def
      split: if_splits option.splits)

lemma dq_inv_incoming: "dq_inv D (q\<lparr>dq_incoming := i\<rparr>) = dq_inv D q"
  by (simp add: dq_inv_def row_wf_def row_exact_def)

text \<open>New data under a sidecar that stays.\<close>

lemma dq_inv_data:
  assumes inv: "dq_inv D q" and req: "dq_require h q = Inr (n, r)" and k: "d_sidecar k = d_sidecar (part_disk q (dr_part_path r))"
    and f: "\<And>x. dr_hash (f x) = dr_hash x" "\<And>x. dr_part_path (f x) = dr_part_path x" "\<And>x. dr_size (f x) = dr_size x"
      "\<And>x. dr_downloaded (f x) = dr_downloaded x"
  shows "dq_inv D (q\<lparr>dq_parts := (dq_parts q)(dr_part_path r \<mapsto> k), dq_rows := update_rows n f (dq_rows q)\<rparr>)"
proof (rule dq_inv_update [OF inv dq_require_Inr(3) [OF req] dq_require_Inr(2) [OF req] dq_require_Inr(4) [OF req] f(1-3)])
  note ok = dq_invD [OF inv dq_require_Inr(3) [OF req]]
  show "sc_total_size sc = dr_size r \<and> canonical (dr_size r) (sc_gaps sc)" if "d_sidecar k = Some sc" for sc
    using ok(1) that k by (auto simp: row_wf_def part_disk_def split: option.splits)
  show "\<exists>sc. d_sidecar k = Some sc \<and> dr_downloaded (f r) = dr_size r - int (card (gap_bytes (sc_gaps sc)))" if "n \<notin> D"
    using ok(2) dq_require_Inr(4) [OF req] that k f(4) by (auto simp: row_exact_def part_disk_def)
qed auto

lemma dq_inv_finalize:
  assumes "dq_inv D q" and "dq_finalize md4 free h verify q = Inr (name, q')"
  shows "dq_inv D q'"
proof -
  from dq_finalize_Inr [OF assms(2)] obtain n r content where req: "dq_require h q = Inr (n, r)"
    and q': "q' = q\<lparr>dq_incoming := (dq_incoming q)(dr_name r \<mapsto> content),
       dq_parts := (dq_parts q)(dr_part_path r \<mapsto> (part_disk q (dr_part_path r))\<lparr>d_data := None\<rparr>),
       dq_rows := update_rows n (\<lambda>r. r\<lparr>dr_status := COMPLETE\<rparr>) (dq_rows q)\<rparr>" by metis
  let ?q = "q\<lparr>dq_parts := (dq_parts q)(dr_part_path r \<mapsto> (part_disk q (dr_part_path r))\<lparr>d_data := None\<rparr>),
       dq_rows := update_rows n (\<lambda>r. r\<lparr>dr_status := COMPLETE\<rparr>) (dq_rows q)\<rparr>"
  have "q' = ?q\<lparr>dq_incoming := (dq_incoming q)(dr_name r \<mapsto> content)\<rparr>" by (simp add: q')
  moreover have "dq_inv D ?q" by (rule dq_inv_data [OF assms(1) req]) simp_all
  ultimately show ?thesis by (simp only: dq_inv_incoming)
qed

lemma dq_inv_resume: "dq_inv D q \<Longrightarrow> dq_resume h q = Inr (r, q') \<Longrightarrow> dq_inv D q'"
  by (auto simp: dq_resume_def bindE_eq_Inr_conv intro: dq_inv_set_status split: option.splits if_splits)

section \<open>Operations that complete, and operations that raise halfway\<close>

text \<open>
  \<open>dq_broken q n q'\<close>: an operation on the download \<open>n\<close> raised after it had changed files, and left \<open>q'\<close>. The file
  system and the database may raise at any of their calls. What can be left: by \<open>add\<close>, a part file (any
  content: it may have been preallocated or not) with the old sidecar, none, or the new one, and no row;
  by \<open>record_block\<close> and \<open>punch_gaps\<close>, a part file with any part of the block written (the write is buffered until
  \<open>close\<close>), with the old sidecar, none, or the new one, and the row as it was; by \<open>cancel\<close>, the row without its data
  file, or without both; by \<open>finalize\<close>, some content under the target name, the part file moved or not. A sidecar
  that a failing \<open>json.dump\<close> cut short counts as none: no operation can resume from it. An operation that
  raises before it changes anything is no step, one that raises after its last change (reading the row back) leaves what it
  leaves when it completes, and the single statement of a status change fails as a whole.
\<close>

inductive dq_broken :: "dl_queue \<Rightarrow> string \<Rightarrow> dl_queue \<Rightarrow> bool" where
  br_add: "normalize_hash h = Inr n \<Longrightarrow> get_download n (dq_rows q) = None \<Longrightarrow> mk_part_file sz n name (dq_sparse q) = Inr p \<Longrightarrow>
    d_sidecar k' \<in> {d_sidecar (part_disk q (part_path_of q n)), None, d_sidecar (save p k')} \<Longrightarrow>
    dq_broken q n (q\<lparr>dq_parts := (dq_parts q)(part_path_of q n \<mapsto> k')\<rparr>)"
| br_record: "dq_require h q = Inr (n, r) \<Longrightarrow> resume (part_disk q (dr_part_path r)) = Inr p \<Longrightarrow>
    write_block s d (p, part_disk q (dr_part_path r)) = Inr (m, p', k) \<Longrightarrow>
    d_sidecar k' \<in> {d_sidecar (part_disk q (dr_part_path r)), None, d_sidecar (save p' k')} \<Longrightarrow>
    dq_broken q n (q\<lparr>dq_parts := (dq_parts q)(dr_part_path r \<mapsto> k')\<rparr>)"
| br_punch: "dq_require h q = Inr (n, r) \<Longrightarrow> resume (part_disk q (dr_part_path r)) = Inr p \<Longrightarrow>
    p' = fold (\<lambda>(a, b). punch a b) rs p \<Longrightarrow> d_data k' = d_data (part_disk q (dr_part_path r)) \<Longrightarrow>
    d_sidecar k' \<in> {None, d_sidecar (save p' k')} \<Longrightarrow>
    dq_broken q n (q\<lparr>dq_parts := (dq_parts q)(dr_part_path r \<mapsto> k')\<rparr>)"
| br_cancel: "dq_require h q = Inr (n, r) \<Longrightarrow> d_data k' = None \<Longrightarrow>
    d_sidecar k' \<in> {d_sidecar (part_disk q (dr_part_path r)), None} \<Longrightarrow>
    dq_broken q n (q\<lparr>dq_parts := (dq_parts q)(dr_part_path r \<mapsto> k')\<rparr>)"
| br_finalize: "dq_require h q = Inr (n, r) \<Longrightarrow> dr_status r = COMPLETE \<Longrightarrow>
    d_data k' \<in> {d_data (part_disk q (dr_part_path r)), None} \<Longrightarrow> d_sidecar k' = d_sidecar (part_disk q (dr_part_path r)) \<Longrightarrow>
    dq_broken q n (q\<lparr>dq_incoming := (dq_incoming q)(dr_name r := c), dq_parts := (dq_parts q)(dr_part_path r \<mapsto> k')\<rparr>)"

text \<open>
  A run of the queue, with the set of the downloads whose progress column may be out of date: an operation that
  broke off puts its download there; one that recomputes the column takes it out, and so does \<open>add\<close> with a new row.
\<close>

inductive dq_step :: "(bytes \<Rightarrow> bytes) \<Rightarrow> dl_queue \<times> string set \<Rightarrow> dl_queue \<times> string set \<Rightarrow> bool" for md4 where
  st_add: "dq_add free h name sz q = Inr (r, q') \<Longrightarrow> normalize_hash h = Inr n \<Longrightarrow>
    dq_step md4 (q, D) (q', if get_download n (dq_rows q) = None then D - {n} else D)"
| st_start: "dq_start h q = Inr (r, q') \<Longrightarrow> dq_step md4 (q, D) (q', D)"
| st_pause: "dq_pause h q = Inr (r, q') \<Longrightarrow> dq_step md4 (q, D) (q', D)"
| st_resume: "dq_resume h q = Inr (r, q') \<Longrightarrow> dq_step md4 (q, D) (q', D)"
| st_set_status: "dq_set_status h st q = Inr (r, q') \<Longrightarrow> dq_step md4 (q, D) (q', D)"
| st_cancel: "dq_cancel h keep q = Inr (m, q') \<Longrightarrow> dq_step md4 (q, D) (q', D)"
| st_record: "dq_record_block h s d q = Inr (x, q') \<Longrightarrow> normalize_hash h = Inr n \<Longrightarrow> dq_step md4 (q, D) (q', D - {n})"
| st_punch: "dq_punch_gaps h rs q = Inr q' \<Longrightarrow> normalize_hash h = Inr n \<Longrightarrow> dq_step md4 (q, D) (q', D - {n})"
| st_finalize: "dq_finalize md4 free h verify q = Inr (target, q') \<Longrightarrow> dq_step md4 (q, D) (q', D)"
| st_broken: "dq_broken q n q' \<Longrightarrow> dq_step md4 (q, D) (q', insert n D)"

lemmas dq_invs = dq_inv_add dq_inv_set_status dq_inv_cancel dq_inv_record_block dq_inv_punch_gaps
  dq_inv_finalize dq_inv_resume

text \<open>Files left behind under a row that stays as it is.\<close>

lemma dq_inv_left:
  assumes inv: "dq_inv D q" and req: "dq_require h q = Inr (n, r)"
    and k: "\<And>sc. d_sidecar k = Some sc \<Longrightarrow> Some sc = d_sidecar (part_disk q (dr_part_path r)) \<or>
      sc_total_size sc = dr_size r \<and> canonical (dr_size r) (sc_gaps sc)"
  shows "dq_inv (insert n D) (q\<lparr>dq_parts := (dq_parts q)(dr_part_path r \<mapsto> k)\<rparr>)"
proof -
  note ok = dq_invD(1) [OF inv dq_require_Inr(3) [OF req]]
  have "update_rows n (\<lambda>x. x) (dq_rows q) = dq_rows q" by (simp add: update_rows_def)
  then have e: "q\<lparr>dq_parts := P, dq_rows := update_rows n (\<lambda>x. x) (dq_rows q)\<rparr> = q\<lparr>dq_parts := P\<rparr>" for P
    by (simp only:) simp
  have "dq_inv (insert n D) (q\<lparr>dq_parts := (dq_parts q)(dr_part_path r \<mapsto> k), dq_rows := update_rows n (\<lambda>x. x) (dq_rows q)\<rparr>)"
  proof (rule dq_inv_update [OF inv dq_require_Inr(3) [OF req] dq_require_Inr(2) [OF req] dq_require_Inr(4) [OF req]])
    show "sc_total_size sc = dr_size r \<and> canonical (dr_size r) (sc_gaps sc)" if "d_sidecar k = Some sc" for sc
      using k [OF that] ok by (auto simp: row_wf_def part_disk_def split: option.splits)
  qed auto
  then show ?thesis by (simp only: e)
qed

lemma dq_inv_broken: "dq_broken q n q' \<Longrightarrow> dq_inv D q \<Longrightarrow> dq_inv (insert n D) q'"
proof (induction rule: dq_broken.induct)
  case (br_add h n q sz name p k')
  have "dq_inv D (q\<lparr>dq_parts := (dq_parts q)(part_path_of q n \<mapsto> k')\<rparr>)"
    by (rule dq_inv_files [OF br_add.prems, where P = "\<lambda>_. True"])
      (use fresh_path [OF br_add.prems br_add.hyps(1,2)] in auto)
  then show ?case by (rule dq_inv_mono) auto
next
  case (br_record h q n r p s d m p' k k')
  from row_resume [OF dq_invD(1) [OF br_record.prems dq_require_Inr(3) [OF br_record.hyps(1)]] br_record.hyps(2)]
  have "pf_wf p" "pf_total_size p = dr_size r" by metis+
  with write_block_wf [OF _ br_record.hyps(3)] have "pf_wf p'" "pf_total_size p' = dr_size r" by simp_all
  with br_record.hyps(4) show ?case
    by (intro dq_inv_left [OF br_record.prems br_record.hyps(1)]) (auto simp: save_def pf_wf_def)
next
  case (br_punch h q n r p p' rs k')
  from row_resume [OF dq_invD(1) [OF br_punch.prems dq_require_Inr(3) [OF br_punch.hyps(1)]] br_punch.hyps(2)]
  have "pf_wf p" "pf_total_size p = dr_size r" by metis+
  then have "pf_wf p'" "pf_total_size p' = dr_size r"
    using pf.reopens_missing [of p rs] br_punch.hyps(3) by (simp_all add: pf.reopens_def)
  with br_punch.hyps(5) show ?case
    by (intro dq_inv_left [OF br_punch.prems br_punch.hyps(1)]) (auto simp: save_def pf_wf_def)
next
  case (br_cancel h q n r k')
  then show ?case by (intro dq_inv_left [OF br_cancel.prems br_cancel.hyps(1)]) auto
next
  case (br_finalize h q n r k' c)
  have "dq_inv (insert n D) (q\<lparr>dq_parts := (dq_parts q)(dr_part_path r \<mapsto> k')\<rparr>)"
    by (rule dq_inv_left [OF br_finalize.prems br_finalize.hyps(1)]) (simp add: br_finalize.hyps(4))
  moreover have "q\<lparr>dq_incoming := I, dq_parts := P\<rparr> = (q\<lparr>dq_parts := P\<rparr>)\<lparr>dq_incoming := I\<rparr>" for I P by simp
  ultimately show ?case by (simp only: dq_inv_incoming)
qed

lemma dq_inv_step: "dq_step md4 x y \<Longrightarrow> dq_inv (snd x) (fst x) \<Longrightarrow> dq_inv (snd y) (fst y)"
proof (induction rule: dq_step.induct)
  case (st_add free h name sz q r q' n D)
  then show ?case using dq_inv_add [of D q free h name sz r q' n] by (simp split del: if_split)
qed (auto simp: dq_start_def dq_pause_def intro: dq_invs dq_inv_broken)

lemma dq_inv_run: "(dq_step md4)\<^sup>*\<^sup>* x y \<Longrightarrow> dq_inv (snd x) (fst x) \<Longrightarrow> dq_inv (snd y) (fst y)"
  by (induction rule: rtranclp_induct) (auto intro: dq_inv_step)

text \<open>
  C12. Whatever operations are run on an empty queue, those that complete and those that raise halfway, having
  written or deleted some of their files: there is one row per hash, each at a part path of its own,
  and a sidecar found there has the row's size and a canonical gap list; and the progress shown is exactly the
  size less the number of missing bytes of the sidecar, but for a download whose last operation that got as far as its files
  broke off before the database was updated (the hashes in \<open>D\<close>). A block recorded afterwards, or ranges
  reopened, make it exact again.
\<close>

theorem queue_progress_is_exact:
  assumes "(dq_step md4)\<^sup>*\<^sup>* (q, {}) (q', D)" and "dq_rows q = []"
  shows "distinct (map (\<lambda>r. py_lower (dr_hash r)) (dq_rows q')) \<and>
    distinct (map dr_part_path (dq_rows q')) \<and>
    list_all (\<lambda>r. dr_part_path r = part_path_of q' (py_lower (dr_hash r)) \<and>
      (\<forall>k sc. dq_parts q' (dr_part_path r) = Some k \<and> d_sidecar k = Some sc \<longrightarrow>
         sc_total_size sc = dr_size r \<and> canonical (dr_size r) (sc_gaps sc)) \<and>
      (py_lower (dr_hash r) \<notin> D \<longrightarrow>
         (\<exists>k sc. dq_parts q' (dr_part_path r) = Some k \<and> d_sidecar k = Some sc \<and>
            dr_downloaded r = dr_size r - int (card (gap_bytes (sc_gaps sc)))))) (dq_rows q')"
proof -
  have inv: "dq_inv D q'" using dq_inv_run [OF assms(1)] assms(2) by (simp add: dq_inv_def)
  have "map dr_part_path (dq_rows q') = map (part_path_of q') (map (\<lambda>r. py_lower (dr_hash r)) (dq_rows q'))"
    using inv by (simp add: dq_inv_def row_wf_def)
  moreover have "distinct (map (part_path_of q') hs)" if "distinct hs" for hs
    using that by (simp add: distinct_map inj_on_def part_path_inject)
  ultimately have "distinct (map dr_part_path (dq_rows q'))" using inv by (simp only: dq_inv_def)
  with inv show ?thesis unfolding dq_inv_def row_wf_def row_exact_def list_all_iff by blast
qed

definition sample_queue :: dl_queue where
  "sample_queue = \<lparr>dq_rows = [], dq_parts = Map.empty, dq_incoming = Map.empty, dq_temp_dir = ''t'', dq_sparse = False\<rparr>"

lemma lower_upper_to_hex: "py_lower (map upper_char (to_hex bs)) = to_hex bs"
proof (rule lower_upper)
  have "lower_char (hex_digit n) = hex_digit n" if "n < 16" for n
    using code_hex_digit [OF that] that by (auto simp: lower_char_def Let_def)
  then show "py_lower (to_hex bs) = to_hex bs"
    by (induction bs) (simp_all add: py_lower_def nibbles)
qed

text \<open>
  C13. A file reaches the incoming directory under verification only if it is what was asked
  for: its part file had no gap left and the ED2K hash of its bytes, in hexadecimal, is the
  requested hash.
\<close>

theorem finalize_delivers_verified_file:
  assumes "dq_finalize md4 free h True q = Inr (name, q')"
  shows "\<exists>content r p. dq_incoming q' name = Some content \<and>
    resume (part_disk q (dr_part_path r)) = Inr p \<and> is_complete p \<and>
    d_data (part_disk q (dr_part_path r)) = Some content \<and> dr_name r = name \<and> r \<in> set (dq_rows q) \<and>
    to_hex (file_hash (ed2k_spec md4 PARTSIZE content)) = py_lower (py_strip h)"
proof -
  from dq_finalize_Inr [OF assms] obtain n r content where req: "dq_require h q = Inr (n, r)"
    and nm: "name = dr_name r" and d: "d_data (part_disk q (dr_part_path r)) = Some content"
    and p: "\<exists>p. resume (part_disk q (dr_part_path r)) = Inr p \<and> is_complete p"
    and a: "\<exists>a. file_hash_hex md4 content = Inr a \<and> py_lower a = n"
    and q': "q' = q\<lparr>dq_incoming := (dq_incoming q)(dr_name r \<mapsto> content),
       dq_parts := (dq_parts q)(dr_part_path r \<mapsto> (part_disk q (dr_part_path r))\<lparr>d_data := None\<rparr>),
       dq_rows := update_rows n (\<lambda>r. r\<lparr>dr_status := COMPLETE\<rparr>) (dq_rows q)\<rparr>" by metis
  have "n = py_lower (py_strip h)"
    using dq_require_Inr(1) [OF req] by (auto simp: normalize_hash_def Let_def split: if_splits option.splits)
  moreover have "to_hex (file_hash (ed2k_spec md4 PARTSIZE content)) = n"
    using a by (auto simp: file_hash_hex_def ed2k_hash_file_spec PARTSIZE_def lower_upper_to_hex)
  ultimately show ?thesis using p d nm dq_require_Inr(3) [OF req] q' by auto
qed

text \<open>
  Recording a block in a reachable queue removes exactly the block's range from the missing
  bytes that \<open>gap_ranges\<close> reports for that hash, and the row becomes COMPLETE exactly when none
  is left.
\<close>

theorem record_block_closes_gaps:
  assumes "dq_inv D q" and "dq_record_block h s d q = Inr ((todo, fin), q')"
  shows "\<exists>gs gs'. dq_gap_ranges h q = Inr gs \<and> dq_gap_ranges h q' = Inr gs' \<and>
    pair_bytes gs' = pair_bytes gs - {s..<s + int (length d)} \<and>
    todo = int (card (pair_bytes gs')) \<and> (fin \<longleftrightarrow> pair_bytes gs' = {})"
proof -
  from assms(2) obtain n r p m p' k' where
    req: "dq_require h q = Inr (n, r)" and p: "resume (part_disk q (dr_part_path r)) = Inr p" and
    w: "write_block s d (p, part_disk q (dr_part_path r)) = Inr (m, p', k')" and
    q': "q' = q\<lparr>dq_parts := (dq_parts q)(dr_part_path r \<mapsto> save p' k'),
        dq_rows := update_download_progress n (downloaded_bytes p')
          (if is_complete p' then COMPLETE else DOWNLOADING) (dq_rows q)\<rparr>" and
    res: "todo = m" "fin = is_complete p'"
    by (auto simp: dq_record_block_def bindE_eq_Inr_conv Let_def)
  have ok: "row_wf q r" by (rule dq_invD(1) [OF assms(1) dq_require_Inr(3) [OF req]])
  have wf: "pf_wf p" by (rule row_resume [OF ok p])
  note w' = write_block_wf [OF wf w]
  have pb: "pair_bytes (map (\<lambda>g. (gap_start g, gap_end g)) gs) = gap_bytes gs" for gs
    by (induction gs) auto
  have gd: "get_download n (dq_rows q) = Some r" using req
    by (auto simp: dq_require_def bindE_eq_Inr_conv split: option.splits)
  obtain r' where req': "dq_require h q' = Inr (n, r')" "dr_part_path r' = dr_part_path r"
  proof -
    have "List.find (row_is n) (map (\<lambda>r. if row_is n r then f r else r) rows) = Some (f r)"
      if "List.find (row_is n) rows = Some r" "\<And>x. dr_hash (f x) = dr_hash x" for f rows
      using that by (induction rows) (auto simp: row_is_def split: if_splits)
    then show thesis
      using gd dq_require_Inr(1) [OF req]
      by (intro that [of "r\<lparr>dr_downloaded := downloaded_bytes p',
            dr_status := if is_complete p' then COMPLETE else DOWNLOADING\<rparr>"])
        (simp_all add: dq_require_def q' update_download_progress_def update_rows_def get_download_def)
  qed
  have dd: "d_data k' \<noteq> None" using w by (auto simp: write_block_def Let_def split: if_splits option.splits)
  have "\<exists>p''. resume (save p' k') = Inr p'' \<and> pf_gaps p'' = pf_gaps p'"
    using w'(1) dd by (auto simp: resume_def save_def mk_part_file_def pf_wf_def normalize_gaps_id)
  then obtain p'' where p'': "resume (save p' k') = Inr p''" "pf_gaps p'' = pf_gaps p'" by blast
  have pd: "part_disk q' (dr_part_path r) = save p' k'" by (simp add: q' part_disk_def)
  have "dq_gap_ranges h q = Inr (map (\<lambda>g. (gap_start g, gap_end g)) (pf_gaps p))"
    using req p by (simp add: dq_gap_ranges_def)
  moreover have "dq_gap_ranges h q' = Inr (map (\<lambda>g. (gap_start g, gap_end g)) (pf_gaps p'))"
    using req' p'' pd by (simp add: dq_gap_ranges_def)
  ultimately show ?thesis
    using w' res pf_remaining_card [OF w'(1)] pf_complete_iff [OF w'(1)]
    by (simp add: pb pf_missing_def)
qed

text \<open>A queue with one finished and one fresh download, for the concrete runs.\<close>

definition zero_hash :: string where "zero_hash = replicate 32 (CHR ''0'')"

definition sample_row :: "dl_status \<Rightarrow> int \<Rightarrow> dl_row" where
  "sample_row st n = \<lparr>dr_hash = zero_hash, dr_name = ''a'', dr_size = 2, dr_part_path = ''t/'' @ zero_hash @ ''.part'',
     dr_status = st, dr_downloaded = n\<rparr>"

definition queue_with :: "dl_row \<Rightarrow> bytes \<Rightarrow> gap list \<Rightarrow> dl_queue" where
  "queue_with r content gs = \<lparr>dq_rows = [r],
     dq_parts = [dr_part_path r \<mapsto> \<lparr>d_data = Some content, d_sidecar = Some \<lparr>sc_file_hash = zero_hash, sc_name = ''a'',
        sc_total_size = 2, sc_sparse = Some False, sc_gaps = gs, sc_chunk_bitmap = []\<rparr>\<rparr>],
     dq_incoming = Map.empty, dq_temp_dir = ''t'', dq_sparse = False\<rparr>"

lemma zero_hash_hex: "zero_hash = to_hex (replicate 16 0)"
proof -
  have d: "hex_digit 0 = CHR ''0''" by code_simp
  have "to_hex (replicate n 0) = replicate (2 * n) (CHR ''0'')" for n
    by (induction n) (simp_all add: d)
  then show ?thesis by (simp add: zero_hash_def)
qed

lemma normalize_zero_hash: "normalize_hash zero_hash = Inr zero_hash"
proof -
  have "py_strip zero_hash = zero_hash"
    by (rule py_strip_id) (simp_all add: zero_hash_def is_space_def code_def)
  moreover have "py_lower zero_hash = zero_hash"
    using lower_upper_to_hex [of "replicate 16 0"] py_lower_idem unfolding zero_hash_hex by metis
  moreover have "from_hex zero_hash = Some (replicate 16 0)"
    unfolding zero_hash_hex by (rule from_hex_to_hex)
  ultimately show ?thesis by (simp add: normalize_hash_def zero_hash_def)
qed

lemma require_sample:
  "dq_require zero_hash (queue_with (sample_row st n) content gs) = Inr (zero_hash, sample_row st n)"
  by (simp add: dq_require_def normalize_zero_hash get_download_def row_is_def queue_with_def sample_row_def)

lemma part_disk_sample:
  "part_disk (queue_with r content gs) (dr_part_path r) =
     \<lparr>d_data = Some content, d_sidecar = Some \<lparr>sc_file_hash = zero_hash, sc_name = ''a'',
        sc_total_size = 2, sc_sparse = Some False, sc_gaps = gs, sc_chunk_bitmap = []\<rparr>\<rparr>"
  by (simp add: queue_with_def part_disk_def)

definition zero_md4 :: "bytes \<Rightarrow> bytes" where
  "zero_md4 d = replicate 16 0"

lemma file_hash_sample: "file_hash_hex zero_md4 [7, 8] = Inr (map upper_char zero_hash)"
  unfolding zero_hash_hex
  by (simp add: zero_md4_def file_hash_hex_def ed2k_hash_file_spec PARTSIZE_def ed2k_spec_def ed2k_chunks_short)

theorem finalize_delivers_verified_file_witness:
  "\<exists>(q' :: dl_queue) content r p. dq_incoming q' ''a'' = Some content \<and>
    resume (part_disk (queue_with (sample_row COMPLETE 2) [7, 8] []) (dr_part_path r)) = Inr p \<and> is_complete p \<and>
    d_data (part_disk (queue_with (sample_row COMPLETE 2) [7, 8] []) (dr_part_path r)) = Some content \<and>
    dr_name r = ''a'' \<and> r \<in> set (dq_rows (queue_with (sample_row COMPLETE 2) [7, 8] [])) \<and>
    to_hex (file_hash (ed2k_spec zero_md4 PARTSIZE content)) = py_lower (py_strip zero_hash)"
proof -
  have resume_done: "\<exists>p. resume (part_disk (queue_with (sample_row COMPLETE 2) [7, 8] [])
      (dr_part_path (sample_row COMPLETE 2))) = Inr p \<and> is_complete p"
    unfolding part_disk_sample
    by (simp add: resume_def mk_part_file_def is_complete_def normalize_gaps_def clip_gaps_def)
  have l: "py_lower (map upper_char zero_hash) = zero_hash"
    unfolding zero_hash_hex by (rule lower_upper_to_hex)
  have "\<exists>q'. dq_finalize zero_md4 100 zero_hash True (queue_with (sample_row COMPLETE 2) [7, 8] [])
      = Inr (''a'', q')"
    using resume_done [unfolded part_disk_sample]
    by (auto simp: dq_finalize_def require_sample Let_def file_hash_sample l part_disk_sample
        sample_row_def [of COMPLETE, THEN arg_cong, of dr_status]
        sample_row_def [of COMPLETE, THEN arg_cong, of dr_name])
  then obtain q' where "dq_finalize zero_md4 100 zero_hash True
      (queue_with (sample_row COMPLETE 2) [7, 8] []) = Inr (''a'', q')" ..
  from finalize_delivers_verified_file [OF this] show ?thesis by (intro exI [of _ q'])
qed

lemma dq_inv_sample: "dq_inv {} (queue_with (sample_row st 0) content [Gap 0 2])"
proof -
  have "py_lower zero_hash = zero_hash" using normalize_hash_lower normalize_zero_hash by blast
  then show ?thesis
    by (simp add: dq_inv_def queue_with_def row_wf_def row_exact_def sample_row_def part_path_of_def canonical_def)
qed

theorem record_block_closes_gaps_witness:
  "\<exists>todo fin q' gs gs'. dq_gap_ranges zero_hash (queue_with (sample_row QUEUED 0) [0, 0] [Gap 0 2]) = Inr gs \<and>
    dq_gap_ranges zero_hash q' = Inr gs' \<and> pair_bytes gs' = pair_bytes gs - {0..<0 + int (length [5 :: byte])} \<and>
    todo = int (card (pair_bytes gs')) \<and> (fin \<longleftrightarrow> pair_bytes gs' = {})"
proof -
  have "\<exists>todo fin q'. dq_record_block zero_hash 0 [5] (queue_with (sample_row QUEUED 0) [0, 0] [Gap 0 2]) = Inr ((todo, fin), q')"
    using part_disk_sample [of "sample_row QUEUED 0" "[0, 0]" "[Gap 0 2]"]
    by (simp add: dq_record_block_def require_sample resume_def mk_part_file_def write_block_def Let_def)
  then obtain todo fin q' where
    "dq_record_block zero_hash 0 [5] (queue_with (sample_row QUEUED 0) [0, 0] [Gap 0 2]) = Inr ((todo, fin), q')"
    by blast
  from record_block_closes_gaps [OF dq_inv_sample this] show ?thesis by (intro exI [of _ todo] exI [of _ fin] exI [of _ q'])
qed

lemma add_sample:
  "\<exists>r q'. dq_add 100 zero_hash ''a'' 2 sample_queue = Inr (r, q') \<and> r \<in> set (dq_rows q')"
proof -
  have "py_lower (map upper_char zero_hash) = zero_hash"
    unfolding zero_hash_hex by (rule lower_upper_to_hex)
  moreover from this have "py_lower zero_hash = zero_hash" using py_lower_idem by metis
  ultimately show ?thesis
    by (simp add: dq_add_def normalize_zero_hash sample_queue_def get_download_def add_download_def row_is_def
        mk_part_file_def open_new_def part_disk_def check_free_space_def Let_def)
qed

text \<open>
  A download is added, and its row is exact; then a cancel breaks off between the two files: the row and
  its path are still there, and the progress of that download is in doubt.
\<close>

theorem queue_progress_is_exact_witness:
  "\<exists>r q' q''. dq_add 100 zero_hash ''a'' 2 sample_queue = Inr (r, q') \<and> r \<in> set (dq_rows q') \<and>
    (\<exists>k sc. dq_parts q' (dr_part_path r) = Some k \<and> d_sidecar k = Some sc \<and> canonical (dr_size r) (sc_gaps sc) \<and>
       dr_downloaded r = dr_size r - int (card (gap_bytes (sc_gaps sc)))) \<and>
    dq_broken q' zero_hash q'' \<and> (dq_step id)\<^sup>*\<^sup>* (sample_queue, {}) (q'', {zero_hash}) \<and>
    r \<in> set (dq_rows q'') \<and> dr_part_path r = part_path_of q'' (py_lower (dr_hash r)) \<and> distinct (map dr_part_path (dq_rows q''))"
proof -
  from add_sample obtain r q' where a: "dq_add 100 zero_hash ''a'' 2 sample_queue = Inr (r, q')" "r \<in> set (dq_rows q')"
    by blast
  have "dq_step id (sample_queue, {}) (q', {})" using st_add [OF a(1) normalize_zero_hash, of id "{}"] by (simp split: if_splits)
  then have one: "(dq_step id)\<^sup>*\<^sup>* (sample_queue, {}) (q', {})" by (rule r_into_rtranclp)
  have none: "dq_rows sample_queue = []" by (simp add: sample_queue_def)
  from a(1) have "get_download zero_hash (dq_rows q') = Some r"
    by (auto simp: dq_add_def normalize_zero_hash bindE_eq_Inr_conv Let_def split: option.splits)
  then have req: "dq_require zero_hash q' = Inr (zero_hash, r)" by (simp add: dq_require_def normalize_zero_hash)
  define q'' where "q'' = q'\<lparr>dq_parts := (dq_parts q')(dr_part_path r \<mapsto> (part_disk q' (dr_part_path r))\<lparr>d_data := None\<rparr>)\<rparr>"
  have b: "dq_broken q' zero_hash q''" unfolding q''_def by (rule br_cancel [OF req]) simp_all
  have two: "(dq_step id)\<^sup>*\<^sup>* (sample_queue, {}) (q'', {zero_hash})"
    using one st_broken [OF b, of id "{}"] by (rule rtranclp.rtrancl_into_rtrancl)
  have r: "r \<in> set (dq_rows q'')" using a(2) by (simp add: q''_def)
  show ?thesis
    using queue_progress_is_exact [OF one none] queue_progress_is_exact [OF two none] a b two r
    unfolding list_all_iff by blast
qed

end
