(* ===== verification/Ics.thy ===== *)
theory Ics
  imports Prelude
begin

text \<open>
  \<open>core/download/ics.py\<close>: which blocks a source is asked for. Ranges are inclusive pairs. The
  tie-breaking random choice draws from a stream of numbers that is an argument. Quotients that
  the code takes in floating point and rounds up are taken exactly, which is the same below
  \<open>2 ^ 50\<close> bytes.
\<close>

section \<open>Parts\<close>

type_synonym range = "int \<times> int"

definition PART_SIZE :: int where "PART_SIZE = 9728000"
definition EMBLOCK_SIZE :: int where "EMBLOCK_SIZE = 184320"

definition CM_RELEASE_MODE :: nat where "CM_RELEASE_MODE = 1"
definition CM_SPREAD_MODE :: nat where "CM_SPREAD_MODE = 2"
definition CM_SHARE_MODE :: nat where "CM_SHARE_MODE = 3"
definition CM_SPREAD_MINSRC :: int where "CM_SPREAD_MINSRC = 10"
definition CM_SHARE_MINSRC :: int where "CM_SHARE_MINSRC = 25"
definition CM_MAX_SRC_CHUNK :: int where "CM_MAX_SRC_CHUNK = 3"

definition ceil_div :: "int \<Rightarrow> int \<Rightarrow> int" where
  "ceil_div a b = (a + b - 1) div b"

definition part_count :: "int \<Rightarrow> int" where
  "part_count total_size = (if total_size \<le> 0 then 1 else max 1 (ceil_div total_size PART_SIZE))"

definition ics_part_bounds :: "int \<Rightarrow> int \<Rightarrow> range" where
  "ics_part_bounds part total_size =
     (let part_start = part * PART_SIZE in (part_start, min (part_start + PART_SIZE) total_size - 1))"

section \<open>Avoiding what is already requested\<close>

definition is_already_requested :: "int \<Rightarrow> int \<Rightarrow> range list \<Rightarrow> bool" where
  "is_already_requested start stop requested =
     list_ex (\<lambda>(r_start, r_end). start \<le> r_end \<and> r_start \<le> stop) requested"

text \<open>One pass of the loop over the ranges; \<open>None\<close> is its early return.\<close>

fun shrink_pass :: "range list \<Rightarrow> int \<Rightarrow> int \<Rightarrow> bool \<Rightarrow> (int \<times> int \<times> bool) option" where
  "shrink_pass [] cs ce changed = Some (cs, ce, changed)"
| "shrink_pass ((r_start, r_end) # rs) cs ce changed =
     (if ce < cs then None
      else if r_start \<le> cs \<and> r_end \<ge> ce then None
      else if cs \<ge> r_start \<and> cs \<le> r_end then shrink_pass rs (r_end + 1) ce True
      else if ce \<ge> r_start \<and> ce \<le> r_end then shrink_pass rs cs (r_start - 1) True
      else shrink_pass rs cs ce changed)"

fun shrink_loop :: "nat \<Rightarrow> range list \<Rightarrow> int \<Rightarrow> int \<Rightarrow> range option" where
  "shrink_loop 0 rs cs ce = (if ce < cs then None else Some (cs, ce))"
| "shrink_loop (Suc n) rs cs ce =
     (case shrink_pass rs cs ce False of
        None \<Rightarrow> None
      | Some (cs', ce', changed) \<Rightarrow>
          if changed then shrink_loop n rs cs' ce'
          else if ce' < cs' then None else Some (cs', ce'))"

text \<open>The guard of the code: one more pass than there are ranges.\<close>

definition shrink_to_avoid :: "int \<Rightarrow> int \<Rightarrow> range list \<Rightarrow> range option" where
  "shrink_to_avoid start stop requested =
     (if requested = [] then (if stop < start then None else Some (start, stop))
      else shrink_loop (length requested + 1) requested start stop)"

section \<open>The next block of a part\<close>

definition window_end :: "int \<Rightarrow> int \<Rightarrow> int" where
  "window_end part_start start =
     part_start + ((start - part_start) div EMBLOCK_SIZE + 1) * EMBLOCK_SIZE - 1"

lemma window_end_ge: "start \<le> window_end part_start start"
  using div_mult_mod_eq [of "start - part_start" EMBLOCK_SIZE]
    pos_mod_bound [of EMBLOCK_SIZE "start - part_start"]
  by (simp add: window_end_def EMBLOCK_SIZE_def)

function next_in_gap :: "int \<Rightarrow> int \<Rightarrow> range list \<Rightarrow> int \<Rightarrow> range option" where
  "next_in_gap part_start gap_limit req start =
     (if start \<le> gap_limit then
        let stop = min gap_limit (window_end part_start start) in
        case shrink_to_avoid start stop req of
          Some b \<Rightarrow> Some b
        | None \<Rightarrow> next_in_gap part_start gap_limit req (stop + 1)
      else None)"
  by pat_completeness auto
termination
proof (relation "measure (\<lambda>(part_start, gap_limit, req, start). nat (gap_limit + 1 - start))")
  fix ps gl req st x
  assume "st \<le> gl" and "x = min gl (window_end ps st)"
  then show "((ps, gl, req, x + 1), ps, gl, req, st)
      \<in> measure (\<lambda>(part_start, gap_limit, req, start). nat (gap_limit + 1 - start))"
    using window_end_ge [of st ps] by auto
qed simp

declare next_in_gap.simps [simp del]

fun next_in_gaps :: "int \<Rightarrow> int \<Rightarrow> range list \<Rightarrow> range list \<Rightarrow> range option" where
  "next_in_gaps part_start part_end req [] = None"
| "next_in_gaps part_start part_end req ((g_start, g_end) # gaps) =
     (if g_end < part_start \<or> g_start > part_end then next_in_gaps part_start part_end req gaps
      else case next_in_gap part_start (min g_end part_end) req (max g_start part_start) of
          Some b \<Rightarrow> Some b
        | None \<Rightarrow> next_in_gaps part_start part_end req gaps)"

definition next_block_in_part :: "int \<Rightarrow> int \<Rightarrow> range list \<Rightarrow> range list \<Rightarrow> range option" where
  "next_block_in_part part total_size gaps requested =
     (let (part_start, part_end) = ics_part_bounds part total_size in
      next_in_gaps part_start part_end requested gaps)"

section \<open>Which part\<close>

definition min_source :: "int list \<Rightarrow> int list \<Rightarrow> int option" where
  "min_source frequencies gap_parts =
     fold (\<lambda>p m. if 0 \<le> p \<and> p < int (length frequencies) then
         (case m of None \<Rightarrow> Some (frequencies ! nat p)
          | Some f \<Rightarrow> Some (if frequencies ! nat p < f then frequencies ! nat p else f)) else m)
       gap_parts None"

definition ics_mode :: "int list \<Rightarrow> int list \<Rightarrow> nat" where
  "ics_mode frequencies gap_parts =
     (if gap_parts = [] \<or> frequencies = [] then CM_SHARE_MODE
      else case min_source frequencies gap_parts of
          None \<Rightarrow> CM_SHARE_MODE
        | Some m \<Rightarrow>
            if m \<le> CM_SPREAD_MINSRC then CM_RELEASE_MODE
            else if m \<le> CM_SHARE_MINSRC then CM_SPREAD_MODE else CM_SHARE_MODE)"

definition c_pref :: "nat \<Rightarrow> int \<Rightarrow> int \<Rightarrow> int \<Rightarrow> int \<Rightarrow> int" where
  "c_pref mode p size2transfer parts_downloading gap_size =
     (let combined = size2transfer + (PART_SIZE * parts_downloading) div CM_MAX_SRC_CHUNK;
          shifted = min 0xFFFF (drop_bit 8 combined);
          first_last_mod = 0 :: int; incomplete_src = 0 :: int; complete_src = 0 :: int;
          pref =
            (if mode = CM_RELEASE_MODE then
               or (or size2transfer (push_bit 16 incomplete_src)) (push_bit 24 complete_src)
             else if mode = CM_SPREAD_MODE then
               or (or (or first_last_mod (push_bit 2 incomplete_src)) (push_bit 8 complete_src)) (push_bit 16 shifted)
             else or first_last_mod (push_bit 16 shifted)) in
      if gap_size > 0 \<and> parts_downloading \<ge> ceil_div (gap_size * 3) PART_SIZE
      then or pref 0xFF000000 else pref)"

definition get0 :: "(int \<rightharpoonup> int) \<Rightarrow> int \<Rightarrow> int" where
  "get0 m k = (case m k of None \<Rightarrow> 0 | Some v \<Rightarrow> v)"

text \<open>
  The candidates with their preference. \<open>ics_mode\<close> is given the set of gap parts; it reads it in
  some order, on which its minimum does not depend.
\<close>

definition ics_candidates ::
  "int set \<Rightarrow> int list \<Rightarrow> int list \<Rightarrow> (int \<rightharpoonup> int) \<Rightarrow> (int \<rightharpoonup> int) \<Rightarrow> range list" where
  "ics_candidates available frequencies gap_parts gap_sizes downloading_counts =
     map (\<lambda>p. (p, c_pref (ics_mode frequencies (remdups gap_parts)) p (PART_SIZE - get0 gap_sizes p)
                   (get0 downloading_counts p) (get0 gap_sizes p)))
       (filter (\<lambda>p. p \<in> available \<and> 0 < get0 gap_sizes p) gap_parts)"

text \<open>\<open>rng\<close> is the number the random generator draws for this choice.\<close>

definition choose_part ::
  "nat \<Rightarrow> int set \<Rightarrow> int list \<Rightarrow> int list \<Rightarrow> (int \<rightharpoonup> int) \<Rightarrow> (int \<rightharpoonup> int) \<Rightarrow> int option \<Rightarrow> int option" where
  "choose_part rng available frequencies gap_parts gap_sizes downloading_counts last_part =
     (let candidates = ics_candidates available frequencies gap_parts gap_sizes downloading_counts in
      if candidates = [] then None
      else case last_part of
          Some l \<Rightarrow>
            if l \<in> fst ` set candidates then Some l
            else (let min_pref = Min (snd ` set candidates);
                      tied = map fst (filter (\<lambda>c. snd c = min_pref) candidates) in
                  Some (tied ! (rng mod length tied)))
        | None \<Rightarrow>
            (let min_pref = Min (snd ` set candidates);
                 tied = map fst (filter (\<lambda>c. snd c = min_pref) candidates) in
             Some (tied ! (rng mod length tied))))"

section \<open>The selection loop\<close>

definition overlap_length :: "range \<Rightarrow> range \<Rightarrow> int" where
  "overlap_length p g =
     (let s = max (fst g) (fst p); e = min (snd g) (snd p) in if s \<le> e then e - s + 1 else 0)"

definition part_gap :: "int \<Rightarrow> range list \<Rightarrow> int \<Rightarrow> int" where
  "part_gap total_size gaps p =
     (let b = ics_part_bounds p total_size in
      if snd b < fst b then 0 else sum_list (map (overlap_length b) gaps))"

definition initial_gap_parts :: "int \<Rightarrow> range list \<Rightarrow> int list" where
  "initial_gap_parts total_size gaps =
     filter (\<lambda>p. 0 < part_gap total_size gaps p) (map int [0..<nat (part_count total_size)])"

record ics_state =
  is_gap_parts :: "int list"
  is_gap_sizes :: "int \<rightharpoonup> int"
  is_last :: "int option"
  is_issued :: "range list"
  is_req :: "range list"

fun select_loop ::
  "nat \<Rightarrow> (nat \<Rightarrow> nat) \<Rightarrow> int \<Rightarrow> range list \<Rightarrow> int set \<Rightarrow> int list \<Rightarrow> (int \<rightharpoonup> int) \<Rightarrow> ics_state \<Rightarrow> ics_state" where
  "select_loop 0 rng total_size gaps available frequencies counts s = s"
| "select_loop (Suc n) rng total_size gaps available frequencies counts s =
     (case choose_part (rng n) available frequencies (is_gap_parts s) (is_gap_sizes s) counts (is_last s) of
        None \<Rightarrow> s
      | Some chosen \<Rightarrow>
          (case next_block_in_part chosen total_size gaps (is_req s) of
             None \<Rightarrow> select_loop n rng total_size gaps available frequencies counts
               (s\<lparr>is_gap_sizes := (is_gap_sizes s)(chosen := None),
                  is_gap_parts := remove1 chosen (is_gap_parts s), is_last := Some chosen\<rparr>)
           | Some b \<Rightarrow> select_loop n rng total_size gaps available frequencies counts
               (s\<lparr>is_issued := is_issued s @ [b], is_req := is_req s @ [b], is_last := Some chosen\<rparr>)))"

definition select_blocks ::
  "nat \<Rightarrow> (nat \<Rightarrow> nat) \<Rightarrow> int \<Rightarrow> range list \<Rightarrow> int set \<Rightarrow> int list \<Rightarrow> (int \<rightharpoonup> int) \<Rightarrow> int option
     \<Rightarrow> range list \<Rightarrow> range list \<times> int option" where
  "select_blocks max_blocks rng total_size gaps available frequencies counts last_part requested =
     (let gap_parts = initial_gap_parts total_size gaps;
          s = select_loop max_blocks rng total_size gaps available frequencies counts
                \<lparr>is_gap_parts = gap_parts,
                 is_gap_sizes = map_of (map (\<lambda>p. (p, part_gap total_size gaps p)) gap_parts),
                 is_last = last_part, is_issued = [], is_req = requested\<rparr> in
      if is_issued s \<noteq> [] then (is_issued s, is_last s) else ([], None))"

section \<open>What a shrunk range is\<close>

definition range_set :: "range list \<Rightarrow> int set" where
  "range_set rs = (\<Union>(a, b)\<in>set rs. {a..b})"

definition live :: "range list \<Rightarrow> int \<Rightarrow> int \<Rightarrow> range list" where
  "live rs cs ce = filter (\<lambda>(a, b). a \<le> ce \<and> cs \<le> b) rs"

lemma range_set_simps [simp]:
  "range_set [] = {}" "range_set ((a, b) # rs) = {a..b} \<union> range_set rs"
  "range_set (xs @ ys) = range_set xs \<union> range_set ys"
  by (auto simp: range_set_def)

text \<open>A pass only drops requested offsets, and each clip retires a range for good.\<close>

lemma live_mono: "a \<le> a' \<Longrightarrow> b' \<le> b \<Longrightarrow> length (live rs a' b') \<le> length (live rs a b)"
  unfolding live_def by (induction rs) auto

lemma live_Cons:
  "live ((a, b) # rs) cs ce = (if a \<le> ce \<and> cs \<le> b then [(a, b)] else []) @ live rs cs ce"
  by (simp add: live_def)

definition pass_ok :: "range list \<Rightarrow> int \<Rightarrow> int \<Rightarrow> bool \<Rightarrow> int \<times> int \<times> bool \<Rightarrow> bool" where
  "pass_ok rs cs ce ch r \<longleftrightarrow> (case r of (cs', ce', ch') \<Rightarrow>
     cs \<le> cs' \<and> ce' \<le> ce \<and> {cs..ce} - range_set rs \<subseteq> {cs'..ce'} \<and>
     (ch' \<longrightarrow> ch \<or> length (live rs cs' ce') < length (live rs cs ce)) \<and>
     (\<not> ch' \<longrightarrow> \<not> ch \<and> cs' = cs \<and> ce' = ce \<and> (\<forall>r\<in>set rs. cs \<notin> {fst r..snd r} \<and> ce \<notin> {fst r..snd r})))"

lemma shrink_pass_Some: "shrink_pass rs cs ce ch = Some r \<Longrightarrow> pass_ok rs cs ce ch r"
proof (induction rs cs ce ch rule: shrink_pass.induct)
  case (2 a b rs cs ce ch)
  obtain cs' ce' ch' where r: "r = (cs', ce', ch')" by (cases r)
  show ?case
  proof (cases "ce < cs \<or> a \<le> cs \<and> ce \<le> b")
    case True
    with "2.prems" show ?thesis by (auto split: if_splits)
  next
    case nov: False
    show ?thesis
    proof (cases "a \<le> cs \<and> cs \<le> b")
      case True
      then have "pass_ok rs (b + 1) ce True r" using nov "2.prems" by (intro "2.IH"(1)) auto
      then have f: "b + 1 \<le> cs'" "ce' \<le> ce" "{b + 1..ce} - range_set rs \<subseteq> {cs'..ce'}" "ch'"
        by (auto simp: pass_ok_def r)
      have "length (live rs cs' ce') \<le> length (live rs cs ce)" using f True by (intro live_mono) auto
      moreover have "{cs..ce} - range_set ((a, b) # rs) \<subseteq> {b + 1..ce} - range_set rs" using True by auto
      ultimately show ?thesis using f True nov by (auto simp: pass_ok_def r live_Cons)
    next
      case st: False
      show ?thesis
      proof (cases "a \<le> ce \<and> ce \<le> b")
        case True
        then have "pass_ok rs cs (a - 1) True r" using nov st "2.prems" by (intro "2.IH"(2)) auto
        then have f: "cs \<le> cs'" "ce' \<le> a - 1" "{cs..a - 1} - range_set rs \<subseteq> {cs'..ce'}" "ch'"
          by (auto simp: pass_ok_def r)
        have "length (live rs cs' ce') \<le> length (live rs cs ce)" using f True by (intro live_mono) auto
        moreover have "{cs..ce} - range_set ((a, b) # rs) \<subseteq> {cs..a - 1} - range_set rs" using True by auto
        ultimately show ?thesis using f True nov by (auto simp: pass_ok_def r live_Cons)
      next
        case False
        then have "pass_ok rs cs ce ch r" using nov st "2.prems" by (intro "2.IH"(3)) auto
        then show ?thesis using st False by (auto simp: pass_ok_def r live_Cons)
      qed
    qed
  qed
qed (auto simp: pass_ok_def)

lemma shrink_pass_None: "shrink_pass rs cs ce ch = None \<Longrightarrow> {cs..ce} \<subseteq> range_set rs"
proof (induction rs cs ce ch rule: shrink_pass.induct)
  case (2 a b rs cs ce ch)
  show ?case
  proof (cases "ce < cs \<or> a \<le> cs \<and> ce \<le> b")
    case True
    then show ?thesis by auto
  next
    case nov: False
    then consider (s) "a \<le> cs \<and> cs \<le> b" | (e) "\<not> (a \<le> cs \<and> cs \<le> b)" "a \<le> ce \<and> ce \<le> b"
      | (n) "\<not> (a \<le> cs \<and> cs \<le> b)" "\<not> (a \<le> ce \<and> ce \<le> b)" by blast
    then show ?thesis
    proof cases
      case s
      then have "{b + 1..ce} \<subseteq> range_set rs" using nov "2.prems" by (intro "2.IH"(1)) auto
      moreover have "{cs..ce} \<subseteq> {a..b} \<union> {b + 1..ce}" using s by auto
      ultimately show ?thesis by auto
    next
      case e
      then have "{cs..a - 1} \<subseteq> range_set rs" using nov "2.prems" by (intro "2.IH"(2)) auto
      moreover have "{cs..ce} \<subseteq> {a..b} \<union> {cs..a - 1}" using e by auto
      ultimately show ?thesis by auto
    next
      case n
      then have "{cs..ce} \<subseteq> range_set rs" using nov "2.prems" by (intro "2.IH"(3)) auto
      then show ?thesis by auto
    qed
  qed
qed simp

text \<open>The result of the whole loop, with more turns left than live ranges.\<close>

definition shrunk :: "range list \<Rightarrow> int \<Rightarrow> int \<Rightarrow> range option \<Rightarrow> bool" where
  "shrunk rs cs ce r \<longleftrightarrow> (case r of
     None \<Rightarrow> {cs..ce} \<subseteq> range_set rs
   | Some (a, b) \<Rightarrow> cs \<le> a \<and> a \<le> b \<and> b \<le> ce \<and> {cs..ce} - range_set rs \<subseteq> {a..b} \<and>
       a \<notin> range_set rs \<and> b \<notin> range_set rs)"

lemma shrink_loop_shrunk: "length (live rs cs ce) < n \<Longrightarrow> shrunk rs cs ce (shrink_loop n rs cs ce)"
proof (induction n arbitrary: cs ce)
  case (Suc n)
  show ?case
  proof (cases "shrink_pass rs cs ce False")
    case None
    then show ?thesis using shrink_pass_None by (simp add: shrunk_def)
  next
    case (Some r)
    obtain cs' ce' ch' where r: "r = (cs', ce', ch')" by (cases r)
    have ok: "pass_ok rs cs ce False (cs', ce', ch')" using shrink_pass_Some [OF Some] r by simp
    show ?thesis
    proof (cases ch')
      case True
      then have "length (live rs cs' ce') < n" using ok Suc.prems by (auto simp: pass_ok_def)
      then have "shrunk rs cs' ce' (shrink_loop n rs cs' ce')" by (rule Suc.IH)
      moreover have "{cs..ce} - range_set rs \<subseteq> {cs'..ce'}" "cs \<le> cs'" "ce' \<le> ce"
        using ok by (auto simp: pass_ok_def)
      ultimately show ?thesis using Some r True
        by (auto simp: shrunk_def split: option.splits prod.splits)
    next
      case False
      then have e: "cs' = cs" "ce' = ce" "\<forall>r\<in>set rs. cs \<notin> {fst r..snd r} \<and> ce \<notin> {fst r..snd r}"
        using ok by (simp_all add: pass_ok_def)
      then have "cs \<notin> range_set rs" "ce \<notin> range_set rs" by (force simp: range_set_def)+
      then show ?thesis using Some r False e by (auto simp: shrunk_def)
    qed
  qed
qed simp

lemma shrink_to_avoid_shrunk: "shrunk rs cs ce (shrink_to_avoid cs ce rs)"
proof (cases "rs = []")
  case True
  then show ?thesis by (auto simp: shrink_to_avoid_def shrunk_def)
next
  case False
  have "length (live rs cs ce) < length rs + 1" by (simp add: live_def le_imp_less_Suc)
  from shrink_loop_shrunk [OF this] show ?thesis
    using False by (simp add: shrink_to_avoid_def del: shrink_loop.simps)
qed

text \<open>
  Trimming a range against the outstanding requests always ends at a fixpoint within the
  code's guard: what is left starts and ends on offsets nobody requested, no unrequested offset
  is lost, and nothing is left exactly when every offset was requested. A request that lies
  strictly inside the range is kept, so an overlap is possible, but only of that kind.
\<close>

theorem shrink_to_avoid_spec:
  "case shrink_to_avoid start stop requested of
     None \<Rightarrow> {start..stop} \<subseteq> range_set requested
   | Some (a, b) \<Rightarrow> start \<le> a \<and> a \<le> b \<and> b \<le> stop \<and> {start..stop} - range_set requested \<subseteq> {a..b} \<and>
       (\<forall>r\<in>set requested. is_already_requested a b [r] \<longrightarrow> a < fst r \<and> snd r < b)"
proof (cases "shrink_to_avoid start stop requested")
  case None
  then show ?thesis using shrink_to_avoid_shrunk [of requested start stop] by (simp add: shrunk_def)
next
  case (Some r)
  obtain a b where ab: "r = (a, b)" by (cases r)
  have s: "start \<le> a" "a \<le> b" "b \<le> stop" "{start..stop} - range_set requested \<subseteq> {a..b}"
    "a \<notin> range_set requested" "b \<notin> range_set requested"
    using shrink_to_avoid_shrunk [of requested start stop] Some ab by (auto simp: shrunk_def)
  have "a < fst r' \<and> snd r' < b"
    if "r' \<in> set requested" "is_already_requested a b [r']" for r'
  proof -
    have "a \<notin> {fst r'..snd r'}" "b \<notin> {fst r'..snd r'}" using s(5,6) that(1) by (force simp: range_set_def)+
    then show ?thesis using that(2) by (auto simp: is_already_requested_def)
  qed
  with s Some ab show ?thesis by auto
qed

theorem shrink_to_avoid_spec_witness:
  "case shrink_to_avoid 0 9 [(0, 2), (5, 6)] of
     None \<Rightarrow> {0..9} \<subseteq> range_set [(0, 2), (5, 6)]
   | Some (a, b) \<Rightarrow> 0 \<le> a \<and> a \<le> b \<and> b \<le> 9 \<and> {0..9} - range_set [(0, 2), (5, 6)] \<subseteq> {a..b} \<and>
       list_all (\<lambda>r. is_already_requested a b [r] \<le> (a < fst r \<and> snd r < b)) [(0, 2), (5, 6)]"
  unfolding list_all_iff le_bool_def by (rule shrink_to_avoid_spec)

section \<open>What a selection is\<close>

text \<open>A cell: the offsets of one gap, one part and one request window.\<close>

definition cell :: "int \<Rightarrow> range \<Rightarrow> int \<Rightarrow> int \<Rightarrow> int set" where
  "cell total_size g p k =
     {x. fst g \<le> x \<and> x \<le> snd g \<and> fst (ics_part_bounds p total_size) \<le> x \<and>
         x \<le> snd (ics_part_bounds p total_size) \<and> (x - p * PART_SIZE) div EMBLOCK_SIZE = k}"

lemma EMBLOCK_pos: "0 < EMBLOCK_SIZE"
  by (simp add: EMBLOCK_SIZE_def)

lemma window_iff:
  "(x - ps) div EMBLOCK_SIZE = (st - ps) div EMBLOCK_SIZE \<longleftrightarrow>
   ps + (st - ps) div EMBLOCK_SIZE * EMBLOCK_SIZE \<le> x \<and> x \<le> window_end ps st"
proof -
  define k where "k = (st - ps) div EMBLOCK_SIZE"
  have "(x - ps) div EMBLOCK_SIZE = k \<longleftrightarrow> k * EMBLOCK_SIZE \<le> x - ps \<and> x - ps < k * EMBLOCK_SIZE + EMBLOCK_SIZE"
  proof
    assume "(x - ps) div EMBLOCK_SIZE = k"
    then show "k * EMBLOCK_SIZE \<le> x - ps \<and> x - ps < k * EMBLOCK_SIZE + EMBLOCK_SIZE"
      using div_mult_mod_eq [of "x - ps" EMBLOCK_SIZE] EMBLOCK_pos
        pos_mod_bound [OF EMBLOCK_pos, of "x - ps"] pos_mod_sign [OF EMBLOCK_pos, of "x - ps"] by simp
  next
    assume a: "k * EMBLOCK_SIZE \<le> x - ps \<and> x - ps < k * EMBLOCK_SIZE + EMBLOCK_SIZE"
    show "(x - ps) div EMBLOCK_SIZE = k"
      by (rule int_div_pos_eq [of _ _ _ "x - ps - k * EMBLOCK_SIZE"]) (use a in \<open>simp_all add: mult.commute\<close>)
  qed
  then show ?thesis by (auto simp: k_def [symmetric] window_end_def algebra_simps)
qed

lemma next_in_gap_cell:
  assumes "next_in_gap ps gl req st = Some b"
    and "base \<le> st" and "st = base \<or> (st - ps) mod EMBLOCK_SIZE = 0"
  shows "\<exists>s e k. shrink_to_avoid s e req = Some b \<and>
    {s..e} = {x. base \<le> x \<and> x \<le> gl \<and> (x - ps) div EMBLOCK_SIZE = k} \<and> e - s < EMBLOCK_SIZE"
  using assms
proof (induction ps gl req st rule: next_in_gap.induct)
  case (1 ps gl req st)
  define e where "e = min gl (window_end ps st)"
  have lim: "st \<le> gl" using "1.prems"(1) by (subst (asm) next_in_gap.simps) (auto split: if_splits)
  have rem: "ps + (st - ps) div EMBLOCK_SIZE * EMBLOCK_SIZE \<le> st"
    using div_mult_mod_eq [of "st - ps" EMBLOCK_SIZE] pos_mod_sign [OF EMBLOCK_pos, of "st - ps"] by linarith
  show ?case
  proof (cases "shrink_to_avoid st e req")
    case None
    have h1: "next_in_gap ps gl req (e + 1) = Some b"
      using "1.prems"(1) lim None by (subst (asm) next_in_gap.simps) (simp add: e_def [symmetric] Let_def)
    have h2: "base \<le> e + 1" using "1.prems"(2) lim window_end_ge [of st ps] by (simp add: e_def)
    have "e + 1 \<le> gl"
      using h1 by (subst (asm) next_in_gap.simps) (auto split: if_splits)
    then have "e + 1 - ps = ((st - ps) div EMBLOCK_SIZE + 1) * EMBLOCK_SIZE"
      by (auto simp: e_def window_end_def min_def split: if_splits)
    then have h3: "(e + 1 - ps) mod EMBLOCK_SIZE = 0" by simp
    show ?thesis by (rule "1.IH" [OF lim e_def None h1 h2 disjI2 [OF h3]])
  next
    case (Some r)
    have r: "r = b" using "1.prems"(1) lim Some
      by (subst (asm) next_in_gap.simps) (simp add: e_def [symmetric] Let_def)
    have "{st..e} = {x. base \<le> x \<and> x \<le> gl \<and> (x - ps) div EMBLOCK_SIZE = (st - ps) div EMBLOCK_SIZE}"
    proof (rule set_eqI)
      fix x
      have "(st - ps) mod EMBLOCK_SIZE = 0 \<Longrightarrow> ps + (st - ps) div EMBLOCK_SIZE * EMBLOCK_SIZE = st"
        using div_mult_mod_eq [of "st - ps" EMBLOCK_SIZE] by simp
      then show "x \<in> {st..e} \<longleftrightarrow>
          x \<in> {x. base \<le> x \<and> x \<le> gl \<and> (x - ps) div EMBLOCK_SIZE = (st - ps) div EMBLOCK_SIZE}"
        using "1.prems"(2,3) rem unfolding mem_Collect_eq window_iff e_def by auto
    qed
    moreover have "e - st < EMBLOCK_SIZE"
      using rem by (simp add: e_def window_end_def algebra_simps)
    ultimately show ?thesis using Some r by blast
  qed
qed

lemma next_in_gaps_cell:
  assumes "next_in_gaps (fst (ics_part_bounds p tot)) (snd (ics_part_bounds p tot)) req gaps = Some b"
  shows "\<exists>g\<in>set gaps. \<exists>s e k. shrink_to_avoid s e req = Some b \<and> {s..e} = cell tot g p k \<and> e - s < EMBLOCK_SIZE"
  using assms
proof (induction gaps)
  case (Cons g gaps)
  let ?ps = "fst (ics_part_bounds p tot)" and ?pe = "snd (ics_part_bounds p tot)"
  obtain gs ge where g: "g = (gs, ge)" by (cases g)
  have ps: "?ps = p * PART_SIZE" by (simp add: ics_part_bounds_def Let_def)
  show ?case
  proof (cases "\<not> (ge < ?ps \<or> gs > ?pe) \<and> next_in_gap ?ps (min ge ?pe) req (max gs ?ps) \<noteq> None")
    case True
    then have "next_in_gap ?ps (min ge ?pe) req (max gs ?ps) = Some b"
      using Cons.prems g by (auto split: if_splits)
    from next_in_gap_cell [OF this order_refl disjI1 [OF refl]] obtain s e k where
      s: "shrink_to_avoid s e req = Some b" "e - s < EMBLOCK_SIZE"
      "{s..e} = {x. max gs ?ps \<le> x \<and> x \<le> min ge ?pe \<and> (x - ?ps) div EMBLOCK_SIZE = k}" by blast
    then have "{s..e} = cell tot g p k" by (auto simp: cell_def g ps)
    with s(1,2) have "\<exists>s e k. shrink_to_avoid s e req = Some b \<and> {s..e} = cell tot g p k \<and> e - s < EMBLOCK_SIZE"
      by blast
    then show ?thesis by simp
  next
    case False
    then have "next_in_gaps ?ps ?pe req gaps = Some b"
      using Cons.prems g by (auto split: if_splits option.splits)
    from Cons.IH [OF this] show ?thesis by auto
  qed
qed simp

lemma next_block_cell:
  "next_block_in_part p tot gaps req = Some b \<Longrightarrow>
   \<exists>g\<in>set gaps. \<exists>s e k. shrink_to_avoid s e req = Some b \<and> {s..e} = cell tot g p k \<and> e - s < EMBLOCK_SIZE"
  by (rule next_in_gaps_cell) (simp add: next_block_in_part_def split: prod.splits)

text \<open>Two cells are the same or disjoint, when the gaps are.\<close>

definition gaps_disjoint :: "range list \<Rightarrow> bool" where
  "gaps_disjoint gaps \<longleftrightarrow>
     (\<forall>g\<in>set gaps. \<forall>h\<in>set gaps. g \<noteq> h \<longrightarrow> {fst g..snd g} \<inter> {fst h..snd h} = {})"

lemma part_of_offset:
  "x \<in> cell tot g p k \<Longrightarrow> p = x div PART_SIZE"
proof -
  assume "x \<in> cell tot g p k"
  then have "p * PART_SIZE \<le> x" "x < p * PART_SIZE + PART_SIZE"
    by (auto simp: cell_def ics_part_bounds_def Let_def)
  then show ?thesis
    by (intro int_div_pos_eq [symmetric, of _ _ _ "x - p * PART_SIZE"]) (simp_all add: mult.commute)
qed

lemma cells_disjoint:
  assumes "gaps_disjoint gaps" "g \<in> set gaps" "h \<in> set gaps" "x \<in> cell tot g p k" "x \<in> cell tot h q l"
  shows "cell tot g p k = cell tot h q l"
proof -
  have "g = h" using assms by (force simp: gaps_disjoint_def cell_def)
  moreover have "p = q" using part_of_offset assms(4,5) by metis
  ultimately show ?thesis using assms(4,5) by (auto simp: cell_def)
qed

lemma choose_part_mem:
  assumes "choose_part rng av fr gp gsz dc lp = Some p"
  shows "p \<in> av" "p \<in> set gp" "0 < get0 gsz p"
proof -
  define cs where "cs = ics_candidates av fr gp gsz dc"
  define ts where "ts = map fst (filter (\<lambda>c. snd c = Min (snd ` set cs)) cs)"
  have ne: "ts \<noteq> []" if "cs \<noteq> []"
  proof -
    have "Min (snd ` set cs) \<in> snd ` set cs" using that by (intro Min_in) auto
    then show ?thesis by (auto simp: ts_def filter_empty_conv) (metis snd_conv)
  qed
  have sub: "set ts \<subseteq> fst ` set cs" by (auto simp: ts_def)
  have pick: "ts ! (rng mod length ts) \<in> fst ` set cs" if "cs \<noteq> []"
    using sub nth_mem [of "rng mod length ts" ts] ne [OF that] by auto
  have "cs \<noteq> [] \<and> (p = ts ! (rng mod length ts) \<or> p \<in> fst ` set cs)"
    using assms unfolding choose_part_def Let_def cs_def [symmetric] ts_def [symmetric]
    by (cases "cs = []"; cases lp) (simp_all split: if_splits)
  then have "p \<in> fst ` set cs" using pick by blast
  then show "p \<in> av" "p \<in> set gp" "0 < get0 gsz p" by (auto simp: cs_def ics_candidates_def)
qed

definition block_ok :: "int \<Rightarrow> range list \<Rightarrow> int set \<Rightarrow> range list \<Rightarrow> range \<Rightarrow> bool" where
  "block_ok tot gaps available requested b \<longleftrightarrow>
     fst b \<le> snd b \<and> snd b - fst b < EMBLOCK_SIZE \<and>
     (\<exists>g\<in>set gaps. {fst b..snd b} \<subseteq> {fst g..snd g}) \<and>
     (\<exists>p\<in>available. {fst b..snd b} \<subseteq> {fst (ics_part_bounds p tot)..snd (ics_part_bounds p tot)}) \<and>
     fst b \<notin> range_set requested \<and> snd b \<notin> range_set requested"

definition pairwise_disjoint :: "range list \<Rightarrow> bool" where
  "pairwise_disjoint bs \<longleftrightarrow>
     (\<forall>i < length bs. \<forall>j < i. {fst (bs ! i)..snd (bs ! i)} \<inter> {fst (bs ! j)..snd (bs ! j)} = {})"

definition sel_inv :: "int \<Rightarrow> range list \<Rightarrow> int set \<Rightarrow> range list \<Rightarrow> ics_state \<Rightarrow> bool" where
  "sel_inv tot gaps available requested s \<longleftrightarrow>
     is_req s = requested @ is_issued s \<and> pairwise_disjoint (is_issued s) \<and>
     (\<forall>b\<in>set (is_issued s). block_ok tot gaps available requested b \<and>
        (\<exists>g\<in>set gaps. \<exists>p k. {fst b..snd b} \<subseteq> cell tot g p k \<and> cell tot g p k \<subseteq> range_set (is_req s)))"

lemma sel_inv_issue:
  assumes inv: "sel_inv tot gaps av requested s" and dis: "gaps_disjoint gaps" and p: "p \<in> av"
    and b: "next_block_in_part p tot gaps (is_req s) = Some b"
  shows "sel_inv tot gaps av requested
     (s\<lparr>is_issued := is_issued s @ [b], is_req := is_req s @ [b], is_last := l\<rparr>)"
proof -
  obtain g st e k where g: "g \<in> set gaps" and sh: "shrink_to_avoid st e (is_req s) = Some b"
    and c: "{st..e} = cell tot g p k" and len: "e - st < EMBLOCK_SIZE" using next_block_cell [OF b] by blast
  obtain x y where xy: "b = (x, y)" by (cases b)
  have f: "st \<le> x" "x \<le> y" "y \<le> e" "{st..e} - range_set (is_req s) \<subseteq> {x..y}"
    "x \<notin> range_set (is_req s)" "y \<notin> range_set (is_req s)"
    using shrink_to_avoid_shrunk [of "is_req s" st e] sh xy by (auto simp: shrunk_def)
  have sub: "{x..y} \<subseteq> cell tot g p k" using c f by auto
  have cov: "cell tot g p k \<subseteq> range_set (is_req s @ [b])" using c f xy by auto
  have xc: "x \<in> cell tot g p k" using sub f by auto
  have sg: "{x..y} \<subseteq> {fst g..snd g}" using sub by (auto simp: cell_def)
  have sp: "{x..y} \<subseteq> {fst (ics_part_bounds p tot)..snd (ics_part_bounds p tot)}" using sub by (auto simp: cell_def)
  have ok: "block_ok tot gaps av requested b"
    using f len g p sg sp inv xy by (auto simp: block_ok_def sel_inv_def)
  have new: "{x..y} \<inter> {fst b'..snd b'} = {}" if b': "b' \<in> set (is_issued s)" for b'
  proof -
    from inv b' obtain h q l' where h: "h \<in> set gaps" "{fst b'..snd b'} \<subseteq> cell tot h q l'"
      "cell tot h q l' \<subseteq> range_set (is_req s)" by (auto simp: sel_inv_def)
    have "cell tot h q l' \<inter> cell tot g p k = {}"
      using cells_disjoint [OF dis h(1) g] h(3) f(5) xc by blast
    with sub h(2) show ?thesis by blast
  qed
  have pd: "pairwise_disjoint (is_issued s @ [b])"
    unfolding pairwise_disjoint_def
  proof (intro allI impI)
    fix i j
    assume i: "i < length (is_issued s @ [b])" and j: "j < i"
    then have jm: "is_issued s ! j \<in> set (is_issued s)" by simp
    show "{fst ((is_issued s @ [b]) ! i)..snd ((is_issued s @ [b]) ! i)} \<inter>
        {fst ((is_issued s @ [b]) ! j)..snd ((is_issued s @ [b]) ! j)} = {}"
    proof (cases "i = length (is_issued s)")
      case True
      then show ?thesis using new [OF jm] j xy by (simp add: nth_append)
    next
      case False
      then have "i < length (is_issued s)" using i by simp
      then show ?thesis using inv j by (simp add: nth_append sel_inv_def pairwise_disjoint_def)
    qed
  qed
  have grow: "range_set (is_req s) \<subseteq> range_set (is_req s @ [b])" by (simp add: Un_upper1)
  have cells: "\<exists>g\<in>set gaps. \<exists>p k. {fst b'..snd b'} \<subseteq> cell tot g p k \<and> cell tot g p k \<subseteq> range_set (is_req s @ [b])"
    if "b' \<in> set (is_issued s @ [b])" for b'
  proof (cases "b' = b")
    case True
    then show ?thesis using g sub cov xy by (metis fst_conv snd_conv)
  next
    case False
    then have "b' \<in> set (is_issued s)" using that by simp
    then obtain g' p' k' where "g' \<in> set gaps" "{fst b'..snd b'} \<subseteq> cell tot g' p' k'"
      "cell tot g' p' k' \<subseteq> range_set (is_req s)" using inv by (auto simp: sel_inv_def)
    then show ?thesis using grow by (meson order_trans)
  qed
  show ?thesis using inv ok pd cells by (simp add: sel_inv_def)
qed

lemma select_loop_inv:
  "sel_inv tot gaps av requested s \<Longrightarrow> gaps_disjoint gaps \<Longrightarrow>
   sel_inv tot gaps av requested (select_loop n rng tot gaps av fr dc s) \<and>
   length (is_issued (select_loop n rng tot gaps av fr dc s)) \<le> length (is_issued s) + n"
proof (induction n arbitrary: s)
  case (Suc n)
  show ?case
  proof (cases "choose_part (rng n) av fr (is_gap_parts s) (is_gap_sizes s) dc (is_last s)")
    case None
    then show ?thesis using Suc.prems by simp
  next
    case (Some p)
    have p: "p \<in> av" by (rule choose_part_mem(1) [OF Some])
    show ?thesis
    proof (cases "next_block_in_part p tot gaps (is_req s)")
      case None
      define s' where "s' = s\<lparr>is_gap_sizes := (is_gap_sizes s)(p := None),
          is_gap_parts := remove1 p (is_gap_parts s), is_last := Some p\<rparr>"
      have e: "is_req s' = is_req s" "is_issued s' = is_issued s" by (simp_all add: s'_def)
      have "sel_inv tot gaps av requested s'"
        using Suc.prems(1) unfolding sel_inv_def e .
      from Suc.IH [OF this Suc.prems(2)] show ?thesis using None Some e by (simp flip: s'_def)
    next
      case b: (Some b)
      from Suc.IH [OF sel_inv_issue [OF Suc.prems p b] Suc.prems(2)] show ?thesis using b Some by simp
    qed
  qed
qed simp

text \<open>
  C16. A selection: at most \<open>max_blocks\<close> blocks, each of at most one request block, inside one
  gap and inside one part the source has, starting and ending on offsets nobody requested; and
  two blocks of one selection never overlap.
\<close>

theorem select_blocks_spec:
  assumes "gaps_disjoint gaps"
    and "select_blocks max_blocks rng total_size gaps available fr dc lp requested = (bs, l)"
  shows "length bs \<le> max_blocks \<and> pairwise_disjoint bs \<and>
     (\<forall>b\<in>set bs. block_ok total_size gaps available requested b)"
proof -
  define s0 where "s0 = \<lparr>is_gap_parts = initial_gap_parts total_size gaps,
     is_gap_sizes = map_of (map (\<lambda>p. (p, part_gap total_size gaps p)) (initial_gap_parts total_size gaps)),
     is_last = lp, is_issued = [], is_req = requested\<rparr>"
  have "sel_inv total_size gaps available requested s0"
    by (simp add: sel_inv_def s0_def pairwise_disjoint_def)
  from select_loop_inv [OF this assms(1), of max_blocks rng fr dc] show ?thesis
    using assms(2) unfolding select_blocks_def Let_def s0_def [symmetric]
    by (auto simp: sel_inv_def s0_def pairwise_disjoint_def split: if_splits)
qed

theorem select_blocks_spec_witness:
  "let bs = fst (select_blocks 2 (\<lambda>_. 0) 400000 [(0, 299999)] {0} [1] Map.empty None [(0, 99)]) in
   length bs \<le> 2 \<and> pairwise_disjoint bs \<and> list_all (block_ok 400000 [(0, 299999)] {0} [(0, 99)]) bs"
  unfolding Let_def list_all_iff
  by (rule select_blocks_spec [OF _ surjective_pairing]) (simp add: gaps_disjoint_def)

end
