(* ===== verification/Upload_Queue.thy ===== *)
theory Upload_Queue
  imports Py_String "HOL-Library.Product_Lexorder"
begin

text \<open>
  \<open>core/upload/queue.py\<close>: the waiting queue and the upload slots. A client is kept under the
  key of its user and file hash; the dictionaries are lists in insertion order, on which the
  stable sorts depend. Floating-point times and bonuses are reals, the clock is an argument, and
  the optional credit callback is a function that may fail.
\<close>

section \<open>State\<close>

definition PRIO_LOW :: int where "PRIO_LOW = 0"
definition PRIO_NORMAL :: int where "PRIO_NORMAL = 1"
definition PRIO_HIGH :: int where "PRIO_HIGH = 2"

record upload_client =
  uc_user_hash :: string
  uc_client_id :: int
  uc_client_port :: int
  uc_nickname :: string
  uc_requested_hash :: string
  uc_file_priority :: int
  uc_credit_bonus :: real
  uc_enqueued_at :: real
  uc_rank :: nat

type_synonym up_key = "string \<times> string"

record upload_queue =
  uq_max_slots :: int
  uq_slot_ttl :: real
  uq_bonus :: "(string \<Rightarrow> real option) option"
  uq_waiting :: "upload_client list"
  uq_slots :: "(up_key \<times> real) list"

definition uc_key :: "upload_client \<Rightarrow> up_key" where
  "uc_key c = (uc_user_hash c, uc_requested_hash c)"

definition upload_queue_new :: "int \<Rightarrow> real \<Rightarrow> (string \<Rightarrow> real option) option \<Rightarrow> upload_queue" where
  "upload_queue_new max_slots slot_ttl credit_bonus =
     \<lparr>uq_max_slots = max_slots, uq_slot_ttl = slot_ttl, uq_bonus = credit_bonus,
      uq_waiting = [], uq_slots = []\<rparr>"

section \<open>Operations\<close>

definition uq_normalize_hash :: "string \<Rightarrow> string res" where
  "uq_normalize_hash h =
     (let n = py_lower (py_strip h) in
      if length n = 32 \<and> list_all (\<lambda>c. hex_val c \<noteq> None) n then Inr n else Inl UploadQueueError)"

definition refresh_bonus :: "(string \<Rightarrow> real option) option \<Rightarrow> upload_client \<Rightarrow> upload_client" where
  "refresh_bonus bonus c =
     (case bonus of None \<Rightarrow> c
      | Some f \<Rightarrow> (case f (uc_user_hash c) of None \<Rightarrow> c | Some b \<Rightarrow> c\<lparr>uc_credit_bonus := max 0 b\<rparr>))"

definition rank_order :: "upload_client \<Rightarrow> int \<times> real \<times> real" where
  "rank_order c = (- uc_file_priority c, - uc_credit_bonus c, uc_enqueued_at c)"

definition slot_order :: "upload_client \<Rightarrow> int \<times> real" where
  "slot_order c = (- uc_file_priority c, uc_enqueued_at c)"

definition position :: "'a \<Rightarrow> 'a list \<Rightarrow> nat" where
  "position x xs = length (takeWhile (\<lambda>y. y \<noteq> x) xs)"

definition recompute :: "upload_queue \<Rightarrow> upload_queue" where
  "recompute q =
     (let ws = map (refresh_bonus (uq_bonus q)) (uq_waiting q);
          ordered = map uc_key (sort_key rank_order ws) in
      q\<lparr>uq_waiting := map (\<lambda>c. c\<lparr>uc_rank := position (uc_key c) ordered + 1\<rparr>) ws\<rparr>)"

definition waiting_get :: "up_key \<Rightarrow> upload_queue \<Rightarrow> upload_client option" where
  "waiting_get k q = List.find (\<lambda>c. uc_key c = k) (uq_waiting q)"

definition in_slots :: "up_key \<Rightarrow> upload_queue \<Rightarrow> bool" where
  "in_slots k q \<longleftrightarrow> k \<in> set (map fst (uq_slots q))"

text \<open>Both hashes of a call, normalised in the code's order.\<close>

definition up_key_of :: "string \<Rightarrow> string \<Rightarrow> up_key res" where
  "up_key_of user_hash requested_hash =
     bindE (uq_normalize_hash user_hash) (\<lambda>u.
     bindE (uq_normalize_hash requested_hash) (\<lambda>f. Inr (u, f)))"

definition enqueue ::
  "real \<Rightarrow> string \<Rightarrow> int \<Rightarrow> int \<Rightarrow> string \<Rightarrow> string \<Rightarrow> int \<Rightarrow> upload_queue \<Rightarrow> (nat \<times> upload_queue) res" where
  "enqueue now user_hash client_id client_port nickname requested_hash file_priority q =
     bindE (up_key_of user_hash requested_hash) (\<lambda>key.
       if waiting_get key q \<noteq> None \<or> in_slots key q then
         (let q1 = recompute q in
          case waiting_get key q1 of
            Some c \<Rightarrow> Inr (uc_rank c, q1)
          | None \<Rightarrow>
              let q2 = recompute q1 in
              Inr ((case waiting_get key q2 of Some c \<Rightarrow> uc_rank c | None \<Rightarrow> 0), q2))
       else
         (let c = \<lparr>uc_user_hash = fst key, uc_client_id = client_id, uc_client_port = client_port,
                   uc_nickname = nickname, uc_requested_hash = snd key, uc_file_priority = file_priority,
                   uc_credit_bonus = 1, uc_enqueued_at = now, uc_rank = 0\<rparr>;
              q1 = recompute (q\<lparr>uq_waiting := uq_waiting q @ [c]\<rparr>) in
          Inr ((case waiting_get key q1 of Some c' \<Rightarrow> uc_rank c' | None \<Rightarrow> 0), q1)))"

definition rank_of :: "string \<Rightarrow> string \<Rightarrow> upload_queue \<Rightarrow> nat option res" where
  "rank_of user_hash requested_hash q =
     bindE (up_key_of user_hash requested_hash) (\<lambda>key. Inr (map_option uc_rank (waiting_get key q)))"

definition next_for_slot :: "upload_queue \<Rightarrow> upload_client option" where
  "next_for_slot q =
     (if int (length (uq_slots q)) \<ge> uq_max_slots q then None
      else case sort_key slot_order (uq_waiting q) of [] \<Rightarrow> None | c # _ \<Rightarrow> Some c)"

definition drop_waiting :: "up_key \<Rightarrow> upload_queue \<Rightarrow> upload_queue" where
  "drop_waiting k q = q\<lparr>uq_waiting := filter (\<lambda>c. uc_key c \<noteq> k) (uq_waiting q)\<rparr>"

definition drop_slot :: "up_key \<Rightarrow> upload_queue \<Rightarrow> upload_queue" where
  "drop_slot k q = q\<lparr>uq_slots := filter (\<lambda>s. fst s \<noteq> k) (uq_slots q)\<rparr>"

definition grant_slot :: "real \<Rightarrow> string \<Rightarrow> string \<Rightarrow> upload_queue \<Rightarrow> upload_queue res" where
  "grant_slot now user_hash requested_hash q =
     bindE (up_key_of user_hash requested_hash) (\<lambda>key.
       if in_slots key q then Inl UploadQueueError
       else if int (length (uq_slots q)) \<ge> uq_max_slots q then Inl UploadQueueError
       else case next_for_slot q of
         None \<Rightarrow> Inl UploadQueueError
       | Some c \<Rightarrow>
           if uc_key c \<noteq> key then Inl UploadQueueError
           else Inr (recompute (drop_waiting key (q\<lparr>uq_slots := uq_slots q @ [(key, now)]\<rparr>))))"

definition release_slot :: "string \<Rightarrow> string \<Rightarrow> upload_queue \<Rightarrow> (bool \<times> upload_queue) res" where
  "release_slot user_hash requested_hash q =
     bindE (up_key_of user_hash requested_hash) (\<lambda>key.
       if \<not> in_slots key q then Inr (False, q) else Inr (True, drop_slot key q))"

definition is_active :: "string \<Rightarrow> string \<Rightarrow> upload_queue \<Rightarrow> bool res" where
  "is_active user_hash requested_hash q =
     bindE (up_key_of user_hash requested_hash) (\<lambda>key. Inr (in_slots key q))"

definition expired_slots :: "real \<Rightarrow> upload_queue \<Rightarrow> up_key list" where
  "expired_slots now q = map fst (filter (\<lambda>s. now - snd s \<ge> uq_slot_ttl q) (uq_slots q))"

definition uq_cancel :: "string \<Rightarrow> string \<Rightarrow> upload_queue \<Rightarrow> (bool \<times> upload_queue) res" where
  "uq_cancel user_hash requested_hash q =
     bindE (up_key_of user_hash requested_hash) (\<lambda>key.
       if waiting_get key q \<noteq> None \<or> in_slots key q
       then Inr (True, recompute (drop_slot key (drop_waiting key q)))
       else Inr (False, q))"

definition uq_waiting_list :: "upload_queue \<Rightarrow> upload_client list" where
  "uq_waiting_list q = sort_key slot_order (uq_waiting q)"

section \<open>The invariant\<close>

text \<open>
  A key is in one place only, the slots do not exceed the maximum, and the ranks are the
  positions \<open>1..n\<close> in the rank order.
\<close>

definition ranks_ok :: "upload_client list \<Rightarrow> bool" where
  "ranks_ok ws \<longleftrightarrow> bij_betw uc_rank (set ws) {1..length ws} \<and>
     (\<forall>c\<in>set ws. \<forall>d\<in>set ws. uc_rank c < uc_rank d \<longrightarrow> rank_order c \<le> rank_order d)"

definition uq_inv :: "upload_queue \<Rightarrow> bool" where
  "uq_inv q \<longleftrightarrow> distinct (map uc_key (uq_waiting q) @ map fst (uq_slots q)) \<and>
     int (length (uq_slots q)) \<le> max 0 (uq_max_slots q) \<and> ranks_ok (uq_waiting q)"

lemma position_nth: "distinct xs \<Longrightarrow> i < length xs \<Longrightarrow> position (xs ! i) xs = i"
  by (induction xs arbitrary: i) (auto simp: position_def nth_Cons split: nat.splits)

lemma position_less: "x \<in> set xs \<Longrightarrow> position x xs < length xs"
  by (induction xs) (auto simp: position_def)

lemma nth_position: "x \<in> set xs \<Longrightarrow> xs ! position x xs = x"
  by (induction xs) (auto simp: position_def)

lemma refresh_key [simp]: "uc_key (refresh_bonus b c) = uc_key c"
  by (simp add: refresh_bonus_def uc_key_def split: option.splits)

lemma rank_update [simp]:
  "uc_key (c\<lparr>uc_rank := n\<rparr>) = uc_key c" "rank_order (c\<lparr>uc_rank := n\<rparr>) = rank_order c"
  by (simp_all add: uc_key_def rank_order_def)

lemma recompute_simps [simp]:
  "map uc_key (uq_waiting (recompute q)) = map uc_key (uq_waiting q)"
  "uq_slots (recompute q) = uq_slots q" "uq_max_slots (recompute q) = uq_max_slots q"
  by (simp_all add: recompute_def Let_def)

lemma ranks_ok_recompute:
  assumes "distinct (map uc_key (uq_waiting q))"
  shows "ranks_ok (uq_waiting (recompute q))"
proof -
  define ws where "ws = map (refresh_bonus (uq_bonus q)) (uq_waiting q)"
  define s where "s = sort_key rank_order ws"
  define ks where "ks = map uc_key s"
  define rk where "rk c = position (uc_key c) ks + 1" for c
  have w: "uq_waiting (recompute q) = map (\<lambda>c. c\<lparr>uc_rank := rk c\<rparr>) ws"
    by (simp add: recompute_def Let_def ws_def s_def ks_def rk_def)
  have dw: "distinct (map uc_key ws)" using assms by (simp add: ws_def comp_def)
  then have dk: "distinct ks" by (simp add: ks_def s_def distinct_map)
  have len: "length ks = length ws" by (simp add: ks_def s_def)
  have mem: "uc_key c \<in> set ks" if "c \<in> set ws" for c using that by (simp add: ks_def s_def)
  have inj: "inj_on uc_key (set ws)" using dw by (simp add: distinct_map)
  have pos: "s ! position (uc_key c) ks = c" if "c \<in> set ws" for c
  proof -
    have "position (uc_key c) ks < length s" using position_less [OF mem [OF that]] by (simp add: ks_def)
    then have "uc_key (s ! position (uc_key c) ks) = uc_key c" "s ! position (uc_key c) ks \<in> set ws"
      using nth_position [OF mem [OF that]] nth_mem [of _ s] by (simp_all add: ks_def s_def)
    with inj that show ?thesis by (simp add: inj_on_def)
  qed
  have bij: "bij_betw rk (set ws) {1..length ws}"
  proof (rule bij_betwI')
    fix c d assume c: "c \<in> set ws" and d: "d \<in> set ws"
    show "(rk c = rk d) = (c = d)"
    proof
      assume "rk c = rk d"
      then have "position (uc_key c) ks = position (uc_key d) ks" by (simp add: rk_def)
      then show "c = d" using pos [OF c] pos [OF d] by metis
    qed simp
  next
    fix c assume c: "c \<in> set ws"
    show "rk c \<in> {1..length ws}" using position_less [OF mem [OF c]] len by (simp add: rk_def)
  next
    fix n assume n: "n \<in> {1..length ws}"
    then have i: "n - 1 < length ks" using len by auto
    have "s ! (n - 1) \<in> set ws" using i nth_mem [of "n - 1" s] by (simp add: ks_def s_def)
    moreover have "rk (s ! (n - 1)) = n"
      using position_nth [OF dk i] i n by (simp add: rk_def ks_def)
    ultimately show "\<exists>x\<in>set ws. n = rk x" by metis
  qed
  let ?g = "\<lambda>c. c\<lparr>uc_rank := rk c\<rparr>"
  have injg: "inj_on ?g (set ws)"
    by (rule inj_onI) (metis inj inj_onD rank_update(1))
  have "bij_betw uc_rank (?g ` set ws) {1..length ws}"
  proof -
    have "bij_betw ?g (set ws) (?g ` set ws)" using injg by (simp add: bij_betw_def)
    moreover have "bij_betw (uc_rank \<circ> ?g) (set ws) {1..length ws}"
      using bij by (rule bij_betw_cong [THEN iffD1, rotated]) simp
    ultimately show ?thesis using bij_betw_comp_iff by blast
  qed
  moreover have "rank_order c \<le> rank_order d"
    if c: "c \<in> set ws" and d: "d \<in> set ws" and lt: "rk c < rk d" for c d
  proof -
    have "sorted (map rank_order s)" by (simp add: s_def)
    moreover have "position (uc_key c) ks < position (uc_key d) ks" using lt by (simp add: rk_def)
    moreover have "position (uc_key d) ks < length s" using position_less [OF mem [OF d]] by (simp add: ks_def)
    ultimately have "rank_order (s ! position (uc_key c) ks) \<le> rank_order (s ! position (uc_key d) ks)"
      by (auto simp: sorted_map sorted_wrt_iff_nth_less)
    then show ?thesis using pos c d by simp
  qed
  ultimately show ?thesis by (auto simp: ranks_ok_def w)
qed

lemma waiting_get_iff: "waiting_get k q \<noteq> None \<longleftrightarrow> k \<in> set (map uc_key (uq_waiting q))"
  by (auto simp: waiting_get_def find_None_iff)

lemma uq_inv_recompute:
  assumes "distinct (map uc_key (uq_waiting q) @ map fst (uq_slots q))"
    and "int (length (uq_slots q)) \<le> max 0 (uq_max_slots q)"
  shows "uq_inv (recompute q)"
  using assms ranks_ok_recompute [of q] unfolding uq_inv_def by simp

lemma uq_inv_new: "uq_inv (upload_queue_new m t b)"
  by (simp add: uq_inv_def upload_queue_new_def ranks_ok_def bij_betw_def)

lemma uq_inv_enqueue:
  assumes "uq_inv q" and "enqueue now u i p nick f prio q = Inr (r, q')"
  shows "uq_inv q'"
proof -
  from assms(2) obtain key where key: "up_key_of u f = Inr key"
    by (auto simp: enqueue_def bindE_eq_Inr_conv)
  show ?thesis
  proof (cases "waiting_get key q \<noteq> None \<or> in_slots key q")
    case True
    then have "q' = recompute q \<or> q' = recompute (recompute q)"
      using assms(2) key by (auto simp: enqueue_def Let_def split: option.splits)
    moreover have "uq_inv (recompute q)" using assms(1) by (intro uq_inv_recompute) (auto simp: uq_inv_def)
    moreover have "uq_inv (recompute (recompute q))"
      using calculation(2) by (intro uq_inv_recompute) (auto simp: uq_inv_def)
    ultimately show ?thesis by auto
  next
    case False
    define c where "c = \<lparr>uc_user_hash = fst key, uc_client_id = i, uc_client_port = p,
        uc_nickname = nick, uc_requested_hash = snd key, uc_file_priority = prio,
        uc_credit_bonus = 1, uc_enqueued_at = now, uc_rank = 0\<rparr>"
    have c: "uc_key c = key" and q': "q' = recompute (q\<lparr>uq_waiting := uq_waiting q @ [c]\<rparr>)"
      using False assms(2) key by (auto simp: enqueue_def Let_def uc_key_def c_def)
    have "key \<notin> set (map uc_key (uq_waiting q))" "key \<notin> set (map fst (uq_slots q))"
      using False waiting_get_iff [of key q] by (simp_all add: in_slots_def)
    then show ?thesis unfolding q' using assms(1) c by (intro uq_inv_recompute) (auto simp: uq_inv_def)
  qed
qed

lemma next_for_slot_mem: "next_for_slot q = Some c \<Longrightarrow> c \<in> set (uq_waiting q)"
  by (auto simp: next_for_slot_def split: if_splits list.splits dest: arg_cong [of _ _ set])

lemma distinct_filter_key: "distinct (map f xs) \<Longrightarrow> distinct (map f (filter P xs))"
  by (rule distinct_map_filter)

lemma uq_inv_grant:
  assumes "uq_inv q" and "grant_slot now u f q = Inr q'"
  shows "uq_inv q'"
proof -
  from assms(2) obtain key where key: "up_key_of u f = Inr key" and
    free: "\<not> in_slots key q" "int (length (uq_slots q)) < uq_max_slots q" and
    q': "q' = recompute (drop_waiting key (q\<lparr>uq_slots := uq_slots q @ [(key, now)]\<rparr>))"
    by (auto simp: grant_slot_def bindE_eq_Inr_conv not_le split: if_splits option.splits)
  have "distinct (map uc_key (filter (\<lambda>c. uc_key c \<noteq> key) (uq_waiting q)) @ map fst (uq_slots q @ [(key, now)]))"
    using assms(1) free(1) by (auto simp: uq_inv_def in_slots_def intro: distinct_filter_key)
  then show ?thesis
    unfolding q' using free(2) by (intro uq_inv_recompute) (simp_all add: drop_waiting_def)
qed

lemma slots_filter_le:
  "int (length xs) \<le> m \<Longrightarrow> int (length (filter P xs)) \<le> m"
  using length_filter_le [of P xs] by linarith

lemma uq_inv_release:
  assumes "uq_inv q" and "release_slot u f q = Inr (b, q')"
  shows "uq_inv q'"
proof -
  have "uq_inv (drop_slot k q)" for k
    using assms(1) by (auto simp: uq_inv_def drop_slot_def intro: distinct_filter_key slots_filter_le)
  then show ?thesis using assms by (auto simp: release_slot_def bindE_eq_Inr_conv split: if_splits)
qed

lemma uq_inv_cancel:
  assumes "uq_inv q" and "uq_cancel u f q = Inr (b, q')"
  shows "uq_inv q'"
proof -
  have "uq_inv (recompute (drop_slot k (drop_waiting k q)))" for k
    using assms(1)
    by (intro uq_inv_recompute)
      (auto simp: uq_inv_def drop_slot_def drop_waiting_def intro: distinct_filter_key slots_filter_le)
  then show ?thesis using assms by (auto simp: uq_cancel_def bindE_eq_Inr_conv split: if_splits)
qed

inductive uq_step :: "upload_queue \<Rightarrow> upload_queue \<Rightarrow> bool" where
  us_enqueue: "enqueue now u i p nick f prio q = Inr (r, q') \<Longrightarrow> uq_step q q'"
| us_grant: "grant_slot now u f q = Inr q' \<Longrightarrow> uq_step q q'"
| us_release: "release_slot u f q = Inr (b, q') \<Longrightarrow> uq_step q q'"
| us_cancel: "uq_cancel u f q = Inr (b, q') \<Longrightarrow> uq_step q q'"

inductive_cases uq_stepE: "uq_step q q'"

lemma uq_inv_step: "uq_step q q' \<Longrightarrow> uq_inv q \<Longrightarrow> uq_inv q'"
  by (erule uq_stepE) (auto intro: uq_inv_enqueue uq_inv_grant uq_inv_release uq_inv_cancel)

lemma uq_inv_reach: "uq_step\<^sup>*\<^sup>* (upload_queue_new m t b) q \<Longrightarrow> uq_inv q"
  by (induction rule: rtranclp_induct) (auto intro: uq_inv_step uq_inv_new)

text \<open>
  C17. In every state the upload queue can reach, no client is both waiting and served or twice
  in either, the slots in use do not exceed the maximum, and the ranks of the waiting clients are
  exactly \<open>1..n\<close>, in the order of priority, credit bonus and waiting time.
\<close>

theorem upload_queue_invariant:
  assumes "uq_step\<^sup>*\<^sup>* (upload_queue_new max_slots ttl bonus) q"
  shows "distinct (map uc_key (uq_waiting q) @ map fst (uq_slots q)) \<and>
     int (length (uq_slots q)) \<le> max 0 (uq_max_slots q) \<and>
     bij_betw uc_rank (set (uq_waiting q)) {1..length (uq_waiting q)} \<and>
     (\<forall>c\<in>set (uq_waiting q). \<forall>d\<in>set (uq_waiting q).
        uc_rank c < uc_rank d \<longrightarrow> rank_order c \<le> rank_order d)"
  using uq_inv_reach [OF assms] unfolding uq_inv_def ranks_ok_def by blast

lemma sort_key_head:
  assumes "sort_key f xs = c # cs"
  shows "c \<in> set xs" and "\<forall>d\<in>set xs. f c \<le> f d"
proof -
  show "c \<in> set xs" using assms by (metis list.set_intros(1) set_sort)
  show "\<forall>d\<in>set xs. f c \<le> f d" using sort_key_hd_le [OF assms] by blast
qed

text \<open>
  C18. A slot is granted only to a waiting client no other waiting client precedes in priority
  and waiting time, only while fewer than the maximum are in use; the client then holds a slot
  and waits no more, and nobody else is moved.
\<close>

theorem grant_slot_head_only:
  assumes "grant_slot now u f q = Inr q'"
  shows "\<exists>c\<in>set (uq_waiting q). up_key_of u f = Inr (uc_key c) \<and>
     (\<forall>d\<in>set (uq_waiting q). slot_order c \<le> slot_order d) \<and>
     int (length (uq_slots q)) < uq_max_slots q \<and> uq_slots q' = uq_slots q @ [(uc_key c, now)] \<and>
     map uc_key (uq_waiting q') = filter (\<lambda>k. k \<noteq> uc_key c) (map uc_key (uq_waiting q))"
proof -
  from assms obtain k c where k: "up_key_of u f = Inr k" "uc_key c = k" and
    free: "int (length (uq_slots q)) < uq_max_slots q" and n: "next_for_slot q = Some c" and
    q': "q' = recompute (drop_waiting k (q\<lparr>uq_slots := uq_slots q @ [(k, now)]\<rparr>))"
    unfolding grant_slot_def bindE_eq_Inr_conv by (auto simp: not_le split: if_splits option.splits)
  have key: "up_key_of u f = Inr (uc_key c)" using k by simp
  from n obtain cs where "sort_key slot_order (uq_waiting q) = c # cs"
    by (auto simp: next_for_slot_def split: if_splits list.splits)
  from sort_key_head [OF this] key free show ?thesis
    by (intro bexI [of _ c]) (simp_all add: q' drop_waiting_def filter_map comp_def k(2))
qed

definition hash_a :: string where "hash_a = replicate 32 (CHR ''a'')"
definition hash_b :: string where "hash_b = replicate 32 (CHR ''b'')"

definition bonus_b :: "string \<Rightarrow> real option" where
  "bonus_b h = Some (if h = hash_b then 2 else 1)"

definition client_of :: "string \<Rightarrow> real \<Rightarrow> real \<Rightarrow> nat \<Rightarrow> upload_client" where
  "client_of h bonus t r = \<lparr>uc_user_hash = h, uc_client_id = 1, uc_client_port = 2, uc_nickname = ''n'',
     uc_requested_hash = hash_a, uc_file_priority = 1, uc_credit_bonus = bonus, uc_enqueued_at = t, uc_rank = r\<rparr>"

text \<open>Two clients of equal priority: the later one has the larger credit bonus.\<close>

definition queue_ab :: upload_queue where
  "queue_ab = (upload_queue_new 4 600 (Some bonus_b))
     \<lparr>uq_waiting := [client_of hash_a 1 0 2, client_of hash_b 2 1 1]\<rparr>"

lemma hash_facts:
  "uq_normalize_hash hash_a = Inr hash_a" "uq_normalize_hash hash_b = Inr hash_b" "hash_a \<noteq> hash_b"
proof -
  have lower: "lower_char (CHR ''a'') = CHR ''a''" "lower_char (CHR ''b'') = CHR ''b''" by code_simp+
  have sp: "\<not> is_space (CHR ''a'')" "\<not> is_space (CHR ''b'')" by code_simp+
  have hx: "hex_val (CHR ''a'') \<noteq> None" "hex_val (CHR ''b'') \<noteq> None" by code_simp+
  have st: "py_strip hash_a = hash_a" "py_strip hash_b = hash_b"
    by (rule py_strip_id; simp add: hash_a_def hash_b_def sp)+
  show "uq_normalize_hash hash_a = Inr hash_a" "uq_normalize_hash hash_b = Inr hash_b"
    unfolding uq_normalize_hash_def Let_def st py_lower_def
    by (simp_all add: hash_a_def hash_b_def lower hx list_all_iff)
  have "hd hash_a \<noteq> hd hash_b" by (simp add: hash_a_def hash_b_def)
  then show "hash_a \<noteq> hash_b" by metis
qed

lemma queue_ab_reachable: "uq_step\<^sup>*\<^sup>* (upload_queue_new 4 600 (Some bonus_b)) queue_ab"
proof -
  let ?q0 = "upload_queue_new 4 600 (Some bonus_b)"
  let ?q1 = "?q0\<lparr>uq_waiting := [client_of hash_a 1 0 1]\<rparr>"
  have b: "bonus_b hash_a = Some 1" "bonus_b hash_b = Some 2" using hash_facts(3) by (simp_all add: bonus_b_def)
  have "\<exists>r. enqueue 0 hash_a 1 2 ''n'' hash_a 1 ?q0 = Inr (r, ?q1)"
    using hash_facts b
    by (simp add: enqueue_def up_key_of_def waiting_get_def in_slots_def upload_queue_new_def Let_def
        recompute_def client_of_def refresh_bonus_def position_def uc_key_def)
  then have s1: "uq_step ?q0 ?q1" by (auto intro: us_enqueue)
  have "\<exists>r. enqueue 1 hash_b 1 2 ''n'' hash_a 1 ?q1 = Inr (r, queue_ab)"
    using hash_facts b
    by (simp add: enqueue_def up_key_of_def waiting_get_def in_slots_def upload_queue_new_def Let_def queue_ab_def
        recompute_def client_of_def refresh_bonus_def position_def uc_key_def rank_order_def)
  then have "uq_step ?q1 queue_ab" by (auto intro: us_enqueue)
  with s1 show ?thesis by (meson rtranclp.rtrancl_into_rtrancl rtranclp.rtrancl_refl)
qed

lemma queue_ab_next: "next_for_slot queue_ab = Some (client_of hash_a 1 0 2)"
  by (simp add: next_for_slot_def queue_ab_def upload_queue_new_def slot_order_def client_of_def)

text \<open>
  The order of the ranks and the order of the grants differ: with a credit callback the
  queue reaches a state in which the client of rank 1 is refused a free slot, because the choice
  of the next client leaves the credit bonus out.
\<close>

theorem rank_one_may_be_refused:
  "\<exists>q u f. uq_step\<^sup>*\<^sup>* (upload_queue_new 4 600 (Some bonus_b)) q \<and> uq_slots q = [] \<and>
     rank_of u f q = Inr (Some 1) \<and> (\<forall>now. grant_slot now u f q = Inl UploadQueueError)"
proof (intro exI conjI allI)
  show "uq_step\<^sup>*\<^sup>* (upload_queue_new 4 600 (Some bonus_b)) queue_ab" by (rule queue_ab_reachable)
  show "uq_slots queue_ab = []" by (simp add: queue_ab_def upload_queue_new_def)
  show "rank_of hash_b hash_a queue_ab = Inr (Some 1)"
    using hash_facts by (simp add: rank_of_def up_key_of_def waiting_get_def queue_ab_def uc_key_def client_of_def)
  show "grant_slot now hash_b hash_a queue_ab = Inl UploadQueueError" for now
    using hash_facts queue_ab_next
    by (simp add: grant_slot_def up_key_of_def in_slots_def uc_key_def client_of_def queue_ab_def upload_queue_new_def)
qed

lemma key_ab: "up_key_of hash_a hash_a = Inr (uc_key (client_of hash_a 1 0 2))"
  using hash_facts by (simp add: up_key_of_def uc_key_def client_of_def)

theorem upload_queue_invariant_witness:
  "distinct (map uc_key (uq_waiting queue_ab) @ map fst (uq_slots queue_ab)) \<and>
     int (length (uq_slots queue_ab)) \<le> max 0 (uq_max_slots queue_ab) \<and>
     bij_betw uc_rank (set (uq_waiting queue_ab)) {1..length (uq_waiting queue_ab)} \<and>
     rank_order (client_of hash_b 2 1 1) \<le> rank_order (client_of hash_a 1 0 2)"
proof -
  have m: "client_of hash_b 2 1 1 \<in> set (uq_waiting queue_ab)" "client_of hash_a 1 0 2 \<in> set (uq_waiting queue_ab)"
    "uc_rank (client_of hash_b 2 1 1) < uc_rank (client_of hash_a 1 0 2)"
    by (simp_all add: queue_ab_def client_of_def)
  show ?thesis using upload_queue_invariant [OF queue_ab_reachable] m by blast
qed

theorem grant_slot_head_only_witness:
  "\<exists>(q' :: upload_queue) c. c \<in> set (uq_waiting queue_ab) \<and> up_key_of hash_a hash_a = Inr (uc_key c) \<and>
     list_all (\<lambda>d. slot_order c \<le> slot_order d) (uq_waiting queue_ab) \<and>
     int (length (uq_slots queue_ab)) < uq_max_slots queue_ab \<and> uq_slots q' = uq_slots queue_ab @ [(uc_key c, 7)] \<and>
     map uc_key (uq_waiting q') = filter (\<lambda>k. k \<noteq> uc_key c) (map uc_key (uq_waiting queue_ab))"
proof -
  have s: "uq_slots queue_ab = []" "uq_max_slots queue_ab = 4" by (simp_all add: queue_ab_def upload_queue_new_def)
  have "\<exists>q'. grant_slot 7 hash_a hash_a queue_ab = Inr q'"
    using queue_ab_next key_ab s by (simp add: grant_slot_def in_slots_def)
  then obtain q' where "grant_slot 7 hash_a hash_a queue_ab = Inr q'" ..
  from grant_slot_head_only [OF this] show ?thesis unfolding list_all_iff by (intro exI [of _ q']) blast
qed

end
