(* ===== verification/Nodes_Dat.thy ===== *)
theory Nodes_Dat
  imports Py_String
begin

text \<open>
  \<open>core/kad/nodes_dat.py\<close>: the parser of the Kad bootstrap file. The lemmas relate it to the
  layout of the versions 1 to 3, given as an encoder of raw records, and show that the legacy
  layout without a version can never be read to its end.
\<close>

section \<open>Contacts\<close>

record kad_node =
  kn_id :: bytes
  kn_ip :: string
  kn_udp_port :: nat
  kn_tcp_port :: nat
  kn_version :: nat
  kn_verified :: bool
  kn_udp_key :: nat

definition mk_kad_node :: "bytes \<Rightarrow> string \<Rightarrow> nat \<Rightarrow> nat \<Rightarrow> nat \<Rightarrow> bool \<Rightarrow> nat \<Rightarrow> kad_node res" where
  "mk_kad_node i ip udp tcp ver verified key =
     (if length i \<noteq> 16 then Inl ValueError
      else Inr \<lparr>kn_id = i, kn_ip = ip, kn_udp_port = udp, kn_tcp_port = tcp, kn_version = ver,
                kn_verified = verified, kn_udp_key = key\<rparr>)"

definition kad_node_key :: "kad_node \<Rightarrow> string \<times> nat" where
  "kad_node_key n = (kn_ip n, kn_udp_port n)"

section \<open>The parser\<close>

definition byte_at :: "bytes \<Rightarrow> nat \<Rightarrow> nat res" where
  "byte_at data off = (if off < length data then Inr (unat (data ! off)) else Inl IndexError)"

text \<open>One turn of the loop: the contact, if it is kept, and the next offset.\<close>

definition parse_record :: "nat \<Rightarrow> bytes \<Rightarrow> nat \<Rightarrow> (kad_node option \<times> nat) res" where
  "parse_record file_version data off =
     (let kad_id = py_slice off (off + 16) data in
      bindE (get_le 4 data (off + 16)) (\<lambda>ip.
      bindE (get_le 2 data (off + 20)) (\<lambda>udp.
      bindE (get_le 2 data (off + 22)) (\<lambda>tcp.
      bindE (byte_at data (off + 24)) (\<lambda>b.
      bindE (if file_version \<ge> 1 then Inr b
             else if off + 25 \<ge> length data then Inl NodesDatError else Inr 0) (\<lambda>cver.
      bindE (if file_version \<ge> 2 then
               bindE (get_le 8 data (off + 25)) (\<lambda>k.
               bindE (byte_at data (off + 33)) (\<lambda>v. Inr (k, v \<noteq> 0, off + 34)))
             else Inr (0, False, off + 25)) (\<lambda>(key, verified, off').
      if udp = 0 then Inr (None, off')
      else bindE (mk_kad_node kad_id (ipv4_str ip) udp tcp cver verified key) (\<lambda>n.
        Inr (Some n, off')))))))))"

fun parse_records :: "nat \<Rightarrow> bytes \<Rightarrow> nat \<Rightarrow> nat \<Rightarrow> kad_node list res" where
  "parse_records file_version data 0 off = Inr []"
| "parse_records file_version data (Suc n) off =
     bindE (parse_record file_version data off) (\<lambda>(c, off').
     bindE (parse_records file_version data n off') (\<lambda>cs.
       Inr (case c of None \<Rightarrow> cs | Some x \<Rightarrow> x # cs)))"

text \<open>The header: file version, number of contacts and the offset of the first.\<close>

definition parse_header :: "bytes \<Rightarrow> (nat \<times> nat \<times> nat) res" where
  "parse_header data =
     (case get_le 4 data 0 of
        Inl _ \<Rightarrow> Inl NodesDatError
      | Inr hint \<Rightarrow>
          if hint \<noteq> 0 then Inr (0, hint, 4)
          else if length data - 4 < 4 then Inr (0, 0, 4)
          else
            bindE (get_le 4 data 4) (\<lambda>ver.
              if ver \<notin> {1, 2, 3} then Inl NodesDatError
              else if length data - 8 < 4 then Inl NodesDatError
              else bindE (get_le 4 data 8) (\<lambda>n. Inr (ver, n, 12))))"

definition parse_nodes_dat :: "bytes \<Rightarrow> kad_node list res" where
  "parse_nodes_dat data =
     bindE (parse_header data) (\<lambda>(file_version, real_count, off).
       let record_size = (if file_version < 2 then 25 else 34) in
       if real_count * record_size > length data - off then Inl NodesDatError
       else parse_records file_version data real_count off)"

text \<open>Reading the file: \<open>None\<close> is a file that cannot be read.\<close>

definition load_nodes_dat :: "bytes option \<Rightarrow> kad_node list res" where
  "load_nodes_dat f = (case f of None \<Rightarrow> Inl NodesDatError | Some d \<Rightarrow> parse_nodes_dat d)"

section \<open>The layout\<close>

record raw_node =
  rn_id :: bytes
  rn_ip :: nat
  rn_udp :: nat
  rn_tcp :: nat
  rn_version :: nat
  rn_key :: nat
  rn_flag :: nat

definition raw_ok :: "raw_node \<Rightarrow> bool" where
  "raw_ok n \<longleftrightarrow> length (rn_id n) = 16 \<and> rn_ip n < 2 ^ 32 \<and> rn_udp n < 2 ^ 16 \<and> rn_tcp n < 2 ^ 16 \<and>
     rn_version n < 256 \<and> rn_key n < 2 ^ 64 \<and> rn_flag n < 256"

definition enc_node :: "nat \<Rightarrow> raw_node \<Rightarrow> bytes" where
  "enc_node ver n = rn_id n @ le_enc 4 (rn_ip n) @ le_enc 2 (rn_udp n) @ le_enc 2 (rn_tcp n) @
     le_enc 1 (rn_version n) @ (if ver \<ge> 2 then le_enc 8 (rn_key n) @ le_enc 1 (rn_flag n) else [])"

definition enc_file :: "nat \<Rightarrow> raw_node list \<Rightarrow> bytes" where
  "enc_file ver ns = le_enc 4 0 @ le_enc 4 ver @ le_enc 4 (length ns) @ concat (map (enc_node ver) ns)"

definition node_of :: "nat \<Rightarrow> raw_node \<Rightarrow> kad_node" where
  "node_of ver n = \<lparr>kn_id = rn_id n, kn_ip = ipv4_str (rn_ip n), kn_udp_port = rn_udp n,
     kn_tcp_port = rn_tcp n, kn_version = rn_version n, kn_verified = (ver \<ge> 2 \<and> rn_flag n \<noteq> 0),
     kn_udp_key = (if ver \<ge> 2 then rn_key n else 0)\<rparr>"

lemma byte_at_enc:
  assumes "drop off data = le_enc 1 v @ suf" and "v < 256"
  shows "byte_at data off = Inr v" and "drop (off + 1) data = suf"
proof -
  have l: "off + 1 \<le> length data" and r: "drop (off + 1) data = suf"
    using get_le_enc [OF assms(1)] assms(2) by simp_all
  show "drop (off + 1) data = suf" by (rule r)
  have "data ! off = word_of_nat v"
    using assms(1) l by (metis One_nat_def append_Cons le_enc.simps(2) nth_via_drop)
  then show "byte_at data off = Inr v" using l assms(2) by (simp add: byte_at_def unat_byte_of_nat)
qed

lemma parse_record_enc:
  assumes d: "drop off data = enc_node ver n @ suf" and ok: "raw_ok n" and ver: "1 \<le> ver"
  shows "\<exists>off'. parse_record ver data off = Inr (if rn_udp n = 0 then None else Some (node_of ver n), off') \<and>
     drop off' data = suf"
proof -
  define t where "t = (if ver \<ge> 2 then le_enc 8 (rn_key n) @ le_enc 1 (rn_flag n) else []) @ suf"
  have d0: "drop off data = rn_id n @ (le_enc 4 (rn_ip n) @ le_enc 2 (rn_udp n) @ le_enc 2 (rn_tcp n) @
      le_enc 1 (rn_version n) @ t)" using d by (simp add: enc_node_def t_def)
  note i = py_slice_prefix [OF d0, of 16]
  have len: "length (rn_id n) = 16" using ok by (simp add: raw_ok_def)
  note ip = get_le_enc [OF i(2) [OF len], simplified]
  have ipv: "rn_ip n < 256 ^ 4" "rn_udp n < 256 ^ 2" "rn_tcp n < 256 ^ 2" "rn_version n < 256"
    "rn_key n < 256 ^ 8" "rn_flag n < 256" using ok by (simp_all add: raw_ok_def)
  have d16: "drop (off + 16) data = le_enc 4 (rn_ip n) @ le_enc 2 (rn_udp n) @ le_enc 2 (rn_tcp n) @ le_enc 1 (rn_version n) @ t"
    using i(2) [OF len] by simp
  have r4: "get_le 4 data (off + 16) = Inr (rn_ip n)"
    and d20: "drop (off + 20) data = le_enc 2 (rn_udp n) @ le_enc 2 (rn_tcp n) @ le_enc 1 (rn_version n) @ t"
    using get_le_enc [OF d16 ipv(1)] by (simp_all add: add.commute)
  have r2: "get_le 2 data (off + 20) = Inr (rn_udp n)"
    and d22: "drop (off + 22) data = le_enc 2 (rn_tcp n) @ le_enc 1 (rn_version n) @ t"
    using get_le_enc [OF d20 ipv(2)] by (simp_all add: add.commute)
  have r3: "get_le 2 data (off + 22) = Inr (rn_tcp n)"
    and d24: "drop (off + 24) data = le_enc 1 (rn_version n) @ t"
    using get_le_enc [OF d22 ipv(3)] by (simp_all add: add.commute)
  have r1: "byte_at data (off + 24) = Inr (rn_version n)" and d25: "drop (off + 25) data = t"
    using byte_at_enc [OF d24 ipv(4)] by (simp_all add: add.commute)
  have sl: "py_slice off (off + 16) data = rn_id n" using i(1) [OF len] by simp
  show ?thesis
  proof (cases "ver \<ge> 2")
    case True
    then have d25': "drop (off + 25) data = le_enc 8 (rn_key n) @ le_enc 1 (rn_flag n) @ suf"
      using d25 by (simp add: t_def)
    have r8: "get_le 8 data (off + 25) = Inr (rn_key n)" and d33: "drop (off + 33) data = le_enc 1 (rn_flag n) @ suf"
      using get_le_enc [OF d25' ipv(5)] by (simp_all add: add.commute)
    have rf: "byte_at data (off + 33) = Inr (rn_flag n)" and d34: "drop (off + 34) data = suf"
      using byte_at_enc [OF d33 ipv(6)] by (simp_all add: add.commute)
    show ?thesis
      by (intro exI [of _ "off + 34"])
        (use True ver r4 r2 r3 r1 r8 rf d34 sl len in
          \<open>simp add: parse_record_def Let_def mk_kad_node_def node_of_def\<close>)
  next
    case False
    show ?thesis
      by (intro exI [of _ "off + 25"])
        (use False ver r4 r2 r3 r1 d25 sl len in
          \<open>simp add: parse_record_def Let_def mk_kad_node_def node_of_def t_def\<close>)
  qed
qed

lemma parse_records_enc:
  "drop off data = concat (map (enc_node ver) ns) @ suf \<Longrightarrow> \<forall>n\<in>set ns. raw_ok n \<Longrightarrow> 1 \<le> ver \<Longrightarrow>
   parse_records ver data (length ns) off = Inr (map (node_of ver) (filter (\<lambda>n. rn_udp n \<noteq> 0) ns))"
proof (induction ns arbitrary: off)
  case (Cons n ns)
  then have "drop off data = enc_node ver n @ (concat (map (enc_node ver) ns) @ suf)" "raw_ok n" by simp_all
  from parse_record_enc [OF this Cons.prems(3)] obtain off' where
    p: "parse_record ver data off = Inr (if rn_udp n = 0 then None else Some (node_of ver n), off')"
    and d: "drop off' data = concat (map (enc_node ver) ns) @ suf" by blast
  from Cons.IH [OF d] Cons.prems p show ?case by simp
qed simp

lemma length_enc_node: "raw_ok n \<Longrightarrow> length (enc_node ver n) = (if ver < 2 then 25 else 34)"
  by (simp add: enc_node_def raw_ok_def)

lemma length_enc_nodes:
  "\<forall>n\<in>set ns. raw_ok n \<Longrightarrow> length (concat (map (enc_node ver) ns)) = length ns * (if ver < 2 then 25 else 34)"
  by (induction ns) (simp_all add: length_enc_node)

text \<open>
  A nodes.dat file of version 1, 2 or 3 is read back contact by contact, in order, with the
  fields its layout holds; contacts with UDP port 0 are dropped, nothing else is, and bytes after
  the last record are ignored.
\<close>

theorem nodes_dat_layout:
  assumes "ver \<in> {1, 2, 3}" and "\<forall>n\<in>set ns. raw_ok n" and "length ns < 2 ^ 32"
  shows "parse_nodes_dat (enc_file ver ns @ extra) =
     Inr (map (node_of ver) (filter (\<lambda>n. rn_udp n \<noteq> 0) ns))"
proof -
  let ?body = "concat (map (enc_node ver) ns) @ extra" and ?data = "enc_file ver ns @ extra"
  have v: "ver < 256 ^ 4" "length ns < 256 ^ 4" "1 \<le> ver" using assms(1,3) by auto
  have d0: "drop 0 ?data = le_enc 4 0 @ (le_enc 4 ver @ le_enc 4 (length ns) @ ?body)" by (simp add: enc_file_def)
  have g0: "get_le 4 ?data 0 = Inr 0" and d4: "drop 4 ?data = le_enc 4 ver @ (le_enc 4 (length ns) @ ?body)"
    using get_le_enc [OF d0] by simp_all
  have g4: "get_le 4 ?data 4 = Inr ver" and d8: "drop 8 ?data = le_enc 4 (length ns) @ ?body"
    using get_le_enc [OF d4 v(1)] by simp_all
  have g8: "get_le 4 ?data 8 = Inr (length ns)" and d12: "drop 12 ?data = ?body"
    using get_le_enc [OF d8 v(2)] by simp_all
  have len: "length ?data = 12 + length ns * (if ver < 2 then 25 else 34) + length extra"
    using length_enc_nodes [OF assms(2), of ver] by (simp add: enc_file_def)
  have h: "parse_header ?data = Inr (ver, length ns, 12)"
    using g0 g4 g8 assms(1) len by (simp add: parse_header_def)
  show ?thesis
    using h len parse_records_enc [OF d12 assms(2) v(3)] by (simp add: parse_nodes_dat_def Let_def)
qed

definition sample_raw :: raw_node where
  "sample_raw = \<lparr>rn_id = replicate 16 1, rn_ip = 5, rn_udp = 4672, rn_tcp = 4662, rn_version = 9,
     rn_key = 77, rn_flag = 1\<rparr>"

theorem nodes_dat_layout_witness:
  "parse_nodes_dat (enc_file 2 [sample_raw, sample_raw\<lparr>rn_udp := 0\<rparr>] @ []) =
     Inr (map (node_of 2) (filter (\<lambda>n. rn_udp n \<noteq> 0) [sample_raw, sample_raw\<lparr>rn_udp := 0\<rparr>]))"
  by (rule nodes_dat_layout) (simp_all add: raw_ok_def sample_raw_def)

lemma parse_records_legacy:
  "0 < n \<Longrightarrow> off + n * 25 = length data \<Longrightarrow> parse_records 0 data n off \<noteq> Inr cs"
proof (induction n arbitrary: off cs)
  case (Suc n)
  show ?case
  proof (cases "n = 0")
    case True
    then show ?thesis using Suc.prems
      by (auto simp: parse_record_def Let_def bindE_eq_Inr_conv)
  next
    case False
    have "parse_records 0 data n (off + 25) \<noteq> Inr cs'" for cs'
      using False Suc.prems by (intro Suc.IH) simp_all
    moreover have "parse_record 0 data off = Inr (c, off') \<Longrightarrow> off' = off + 25" for c off'
      by (auto simp: parse_record_def Let_def bindE_eq_Inr_conv split: if_splits)
    ultimately show ?thesis by (auto simp: bindE_eq_Inr_conv)
  qed
qed simp

text \<open>
  A legacy file (a positive count first, no version) whose size is exactly its header and
  its 25-byte records is always rejected: after the last record the parser looks for one more byte.
\<close>

theorem legacy_nodes_dat_rejected:
  assumes "0 < n" and "n < 2 ^ 32" and "length body = n * 25"
  shows "\<exists>e. parse_nodes_dat (le_enc 4 n @ body) = Inl e"
proof -
  let ?data = "le_enc 4 n @ body"
  have "drop 0 ?data = le_enc 4 n @ body" by simp
  from get_le_enc(1) [OF this] assms(2) have g: "get_le 4 ?data 0 = Inr n" by simp
  have "parse_nodes_dat ?data = parse_records 0 ?data n 4"
    using g assms by (simp add: parse_nodes_dat_def parse_header_def Let_def)
  moreover have "parse_records 0 ?data n 4 \<noteq> Inr cs" for cs
    using assms by (intro parse_records_legacy) simp_all
  ultimately show ?thesis by (cases "parse_records 0 ?data n 4") auto
qed

theorem legacy_nodes_dat_rejected_witness:
  "\<exists>e. parse_nodes_dat (le_enc 4 2 @ replicate 50 7) = Inl e"
  by (rule legacy_nodes_dat_rejected) simp_all

end
