(* ===== verification/Kad_Packets.thy ===== *)
theory Kad_Packets
  imports Nodes_Dat
begin

text \<open>
  \<open>core/kad/packets.py\<close>: 128-bit Kad identifiers and the payloads of the Kad 2 datagrams. An
  identifier is a \<open>128 word\<close>, the range its constructor enforces. The lemmas show that the wire
  form is a bijection and that the parsers read exactly the documented layouts.
\<close>

section \<open>Identifiers\<close>

type_synonym kad_id = "128 word"

definition kad_of_int :: "int \<Rightarrow> kad_id res" where
  "kad_of_int v = (if 0 \<le> v \<and> v \<le> 2 ^ 128 - 1 then Inr (word_of_int v) else Inl KadPacketError)"

definition words_to_int :: "nat \<Rightarrow> nat \<Rightarrow> nat \<Rightarrow> nat \<Rightarrow> kad_id" where
  "words_to_int w0 w1 w2 w3 =
     or (or (or (push_bit 96 (word_of_nat w0)) (push_bit 64 (word_of_nat w1)))
       (push_bit 32 (word_of_nat w2))) (word_of_nat w3)"

definition kad_of_bytes :: "bytes \<Rightarrow> kad_id res" where
  "kad_of_bytes raw =
     (if length raw \<noteq> 16 then Inl KadPacketError
      else Inr (words_to_int (le_dec (py_slice 0 4 raw)) (le_dec (py_slice 4 8 raw))
             (le_dec (py_slice 8 12 raw)) (le_dec (py_slice 12 16 raw))))"

definition from_be_bytes :: "bytes \<Rightarrow> kad_id res" where
  "from_be_bytes raw =
     (if length raw \<noteq> 16 then Inl KadPacketError
      else Inr (words_to_int (be_dec (py_slice 0 4 raw)) (be_dec (py_slice 4 8 raw))
             (be_dec (py_slice 8 12 raw)) (be_dec (py_slice 12 16 raw))))"

definition kad_to_bytes :: "kad_id \<Rightarrow> bytes" where
  "kad_to_bytes v =
     (let w3 = and v 0xFFFFFFFF; w2 = and (drop_bit 32 v) 0xFFFFFFFF;
          w1 = and (drop_bit 64 v) 0xFFFFFFFF; w0 = and (drop_bit 96 v) 0xFFFFFFFF in
      le_enc 4 (unat w0) @ le_enc 4 (unat w1) @ le_enc 4 (unat w2) @ le_enc 4 (unat w3))"

definition kad_xor :: "kad_id \<Rightarrow> kad_id \<Rightarrow> kad_id" where
  "kad_xor a b = xor a b"

fun bit_length :: "nat \<Rightarrow> nat" where
  "bit_length n = (if n = 0 then 0 else Suc (bit_length (n div 2)))"

declare bit_length.simps [simp del]

definition distance_bits :: "kad_id \<Rightarrow> int" where
  "distance_bits v = (if v = 0 then 128 else 127 - int (bit_length (unat v)) + 1)"

section \<open>Datagrams\<close>

definition KAD_PROTOCOL :: nat where "KAD_PROTOCOL = 0xE4"
definition KADEMLIA2_BOOTSTRAP_REQ :: nat where "KADEMLIA2_BOOTSTRAP_REQ = 0x01"
definition KADEMLIA2_HELLO_REQ :: nat where "KADEMLIA2_HELLO_REQ = 0x11"
definition KADEMLIA2_PING :: nat where "KADEMLIA2_PING = 0x60"
definition KADEMLIA2_PUBLISH_RES_ACK :: nat where "KADEMLIA2_PUBLISH_RES_ACK = 0x4C"

record kad_hello =
  kh_contact_id :: kad_id
  kh_tcp_port :: nat
  kh_version :: nat
  kh_tags_raw :: bytes

definition parse_kad_packet :: "bytes \<Rightarrow> (nat \<times> nat \<times> bytes) res" where
  "parse_kad_packet raw =
     (if length raw < 2 then Inl KadPacketError
      else Inr (unat (raw ! 0), unat (raw ! 1), drop 2 raw))"

definition kad_header :: "nat \<Rightarrow> nat \<Rightarrow> bytes" where
  "kad_header protocol opcode = [word_of_nat protocol, word_of_nat opcode]"

definition build_bootstrap_req :: "kad_id \<Rightarrow> int \<Rightarrow> bytes res" where
  "build_bootstrap_req sender_id sender_version =
     (if sender_version < 0 \<or> sender_version > 0xFF then Inl KadPacketError
      else Inr (kad_header KAD_PROTOCOL KADEMLIA2_BOOTSTRAP_REQ @ []))"

definition read_uint128 :: "bytes \<Rightarrow> nat \<Rightarrow> (kad_id \<times> nat) res" where
  "read_uint128 data off =
     (if off + 16 > length data then Inl KadPacketError
      else bindE (kad_of_bytes (py_slice off (off + 16) data)) (\<lambda>v. Inr (v, off + 16)))"

fun read_contacts :: "nat \<Rightarrow> bytes \<Rightarrow> nat \<Rightarrow> kad_node list res" where
  "read_contacts 0 raw off = Inr []"
| "read_contacts (Suc n) raw off =
     bindE (read_uint128 raw off) (\<lambda>(cid, o1).
       if o1 + 8 > length raw then Inl KadPacketError
       else
         bindE (get_le 4 raw o1) (\<lambda>ip.
         bindE (get_le 2 raw (o1 + 4)) (\<lambda>udp.
         bindE (get_le 2 raw (o1 + 6)) (\<lambda>tcp.
           if o1 + 8 \<ge> length raw then Inl KadPacketError
           else
             bindE (get_le 1 raw (o1 + 8)) (\<lambda>cver.
             bindE (mk_kad_node (kad_to_bytes cid) (ipv4_str ip) udp tcp cver False 0) (\<lambda>c.
             bindE (read_contacts n raw (o1 + 9)) (\<lambda>cs. Inr (c # cs))))))))"

definition parse_bootstrap_res :: "bytes \<Rightarrow> (kad_id \<times> kad_node list) res" where
  "parse_bootstrap_res raw =
     bindE (read_uint128 raw 0) (\<lambda>(sender_id, off).
       if off + 3 > length raw then Inl KadPacketError
       else if length raw - (off + 3) < 2 then Inl KadPacketError
       else bindE (get_le 2 raw (off + 3)) (\<lambda>num.
            bindE (read_contacts num raw (off + 5)) (\<lambda>cs. Inr (sender_id, cs))))"

definition read_hello_contact :: "bytes \<Rightarrow> nat \<Rightarrow> (kad_id \<times> nat \<times> nat \<times> nat \<times> nat) res" where
  "read_hello_contact data off =
     bindE (read_uint128 data off) (\<lambda>(cid, o1).
       if o1 + 4 > length data then Inl KadPacketError
       else
         bindE (get_le 2 data o1) (\<lambda>tcp_port.
         bindE (get_le 1 data (o1 + 2)) (\<lambda>version.
           if o1 + 3 \<ge> length data then Inl KadPacketError
           else bindE (get_le 1 data (o1 + 3)) (\<lambda>tag_count.
             Inr (cid, tcp_port, version, tag_count, o1 + 4)))))"

definition build_tag_list :: "bytes \<Rightarrow> int \<Rightarrow> bytes res" where
  "build_tag_list tags cnt =
     (if tags = [] then Inr [0]
      else if length tags > 255 then Inl KadPacketError
      else if \<not> (0 \<le> cnt \<and> cnt \<le> 0xFF) then Inl KadPacketError
      else Inr (word_of_int cnt # tags))"

definition build_hello_req :: "kad_id \<Rightarrow> int \<Rightarrow> int \<Rightarrow> bytes \<Rightarrow> int \<Rightarrow> bytes res" where
  "build_hello_req sender_id tcp_port sender_version tags tag_count =
     (if sender_version < 0 \<or> sender_version > 0xFF then Inl KadPacketError
      else if \<not> (0 \<le> tcp_port \<and> tcp_port \<le> 0xFFFF) then Inl KadPacketError
      else bindE (build_tag_list tags tag_count) (\<lambda>tl.
        Inr (kad_header KAD_PROTOCOL KADEMLIA2_HELLO_REQ @ kad_to_bytes sender_id @
          le_enc 2 (nat tcp_port) @ le_enc 1 (nat sender_version) @ tl)))"

definition parse_hello_res :: "bytes \<Rightarrow> kad_hello res" where
  "parse_hello_res raw =
     bindE (read_hello_contact raw 0) (\<lambda>(cid, tcp_port, version, tag_count, off).
       let tags_raw = drop off raw in
       if length tags_raw < tag_count then Inl KadPacketError
       else Inr \<lparr>kh_contact_id = cid, kh_tcp_port = tcp_port, kh_version = version, kh_tags_raw = tags_raw\<rparr>)"

definition build_ping :: bytes where
  "build_ping = kad_header KAD_PROTOCOL KADEMLIA2_PING @ []"

fun publish_entries :: "(kad_id \<times> bytes \<times> int) list \<Rightarrow> bytes res" where
  "publish_entries [] = Inr []"
| "publish_entries ((h, tags, n) # es) =
     bindE (build_tag_list tags n) (\<lambda>tl. bindE (publish_entries es) (\<lambda>b. Inr (kad_to_bytes h @ tl @ b)))"

definition build_publish_key_req :: "kad_id \<Rightarrow> (kad_id \<times> bytes \<times> int) list \<Rightarrow> bytes res" where
  "build_publish_key_req keyword_target file_entries =
     (if length file_entries > 0xFFFF then Inl KadPacketError
      else bindE (publish_entries file_entries) (\<lambda>b.
        Inr (kad_to_bytes keyword_target @ le_enc 2 (length file_entries) @ b)))"

definition build_publish_source_req :: "kad_id \<Rightarrow> kad_id \<Rightarrow> bytes \<Rightarrow> int \<Rightarrow> bytes res" where
  "build_publish_source_req file_hash publisher_id tags tag_count =
     bindE (build_tag_list tags tag_count) (\<lambda>tl.
       Inr (kad_to_bytes file_hash @ kad_to_bytes publisher_id @ tl))"

record publish_res =
  pr_file_hash :: kad_id
  pr_load :: nat
  pr_ack_requested :: bool
  pr_ack_options :: nat

definition parse_publish_res :: "bytes \<Rightarrow> publish_res res" where
  "parse_publish_res raw =
     (if length raw < 16 + 1 then Inl KadPacketError
      else bindE (kad_of_bytes (py_slice 0 16 raw)) (\<lambda>h.
        let opts = (if length raw > 17 then unat (raw ! 17) else 0) in
        Inr \<lparr>pr_file_hash = h, pr_load = unat (raw ! 16),
             pr_ack_requested = (length raw > 17 \<and> odd opts), pr_ack_options = opts\<rparr>))"

definition build_publish_res_ack :: bytes where
  "build_publish_res_ack = kad_header KAD_PROTOCOL KADEMLIA2_PUBLISH_RES_ACK @ []"

section \<open>The wire form of an identifier\<close>

lemma mask32: "(0xFFFFFFFF :: kad_id) = mask 32"
  by (simp add: mask_eq_exp_minus_1)

lemma kad_to_bytes_alt:
  "kad_to_bytes v = le_enc 4 (unat (take_bit 32 (drop_bit 96 v))) @ le_enc 4 (unat (take_bit 32 (drop_bit 64 v))) @
     le_enc 4 (unat (take_bit 32 (drop_bit 32 v))) @ le_enc 4 (unat (take_bit 32 v))"
  unfolding kad_to_bytes_def Let_def mask32 by (simp only: take_bit_eq_mask)

lemma length_kad_to_bytes [simp]: "length (kad_to_bytes v) = 16"
  by (simp add: kad_to_bytes_alt)

lemma unat_take_bit32: "unat (take_bit 32 (w :: kad_id)) < 256 ^ 4"
proof -
  have "unat (take_bit 32 w) < 2 ^ 32"
    by (metis take_bit_nat_less_exp unsigned_take_bit_eq)
  then show ?thesis by simp
qed

lemma slice4:
  assumes "length a = 4" "length b = 4" "length c = 4" "length d = 4"
  shows "py_slice 0 4 (a @ b @ c @ d) = a" "py_slice 4 8 (a @ b @ c @ d) = b"
    "py_slice 8 12 (a @ b @ c @ d) = c" "py_slice 12 16 (a @ b @ c @ d) = d"
  using assms by (simp_all add: py_slice_def)

lemma words_to_int_bits:
  "words_to_int (unat (take_bit 32 (drop_bit 96 v))) (unat (take_bit 32 (drop_bit 64 v)))
     (unat (take_bit 32 (drop_bit 32 v))) (unat (take_bit 32 v)) = v"
proof (rule bit_word_eqI)
  fix n
  assume n: "n < LENGTH(128)"
  consider "n < 32" | "32 \<le> n" "n < 64" | "64 \<le> n" "n < 96" | "96 \<le> n" by linarith
  then show "bit (words_to_int (unat (take_bit 32 (drop_bit 96 v))) (unat (take_bit 32 (drop_bit 64 v)))
     (unat (take_bit 32 (drop_bit 32 v))) (unat (take_bit 32 v))) n = bit v n"
    by cases (use n in \<open>simp_all add: words_to_int_def bit_simps not_less less_diff_conv2\<close>)
qed

lemma kad_of_to_bytes: "kad_of_bytes (kad_to_bytes v) = Inr v"
  unfolding kad_to_bytes_alt
  by (simp only: kad_of_bytes_def slice4 length_append length_le_enc le_dec_le_enc [OF unat_take_bit32]
      words_to_int_bits) simp

lemma words_to_int_word:
  assumes "w0 < 2 ^ 32" "w1 < 2 ^ 32" "w2 < 2 ^ 32" "w3 < 2 ^ 32"
  shows "take_bit 32 (drop_bit 96 (words_to_int w0 w1 w2 w3)) = word_of_nat w0"
    "take_bit 32 (drop_bit 64 (words_to_int w0 w1 w2 w3)) = word_of_nat w1"
    "take_bit 32 (drop_bit 32 (words_to_int w0 w1 w2 w3)) = word_of_nat w2"
    "take_bit 32 (words_to_int w0 w1 w2 w3) = word_of_nat w3"
proof -
  have hi: "bit w n \<Longrightarrow> n < 32" if "w < 2 ^ 32" for w n :: nat
  proof (rule ccontr)
    assume b: "bit w n" and n: "\<not> n < 32"
    have "w < 2 ^ n" using that n power_increasing [of 32 n "2 :: nat"] by simp
    then have "w div 2 ^ n = 0" by simp
    with b show False by (simp add: bit_iff_odd)
  qed
  show "take_bit 32 (drop_bit 96 (words_to_int w0 w1 w2 w3)) = word_of_nat w0"
    "take_bit 32 (drop_bit 64 (words_to_int w0 w1 w2 w3)) = word_of_nat w1"
    "take_bit 32 (drop_bit 32 (words_to_int w0 w1 w2 w3)) = word_of_nat w2"
    "take_bit 32 (words_to_int w0 w1 w2 w3) = word_of_nat w3"
    by (rule bit_word_eqI; use assms [THEN hi] in \<open>fastforce simp: words_to_int_def bit_simps\<close>)+
qed

lemma unat_word_of_nat128: "w < 2 ^ 32 \<Longrightarrow> unat (word_of_nat w :: kad_id) = w"
  by (simp add: unsigned_of_nat take_bit_nat_eq_self)

lemma kad_to_of_bytes:
  assumes "kad_of_bytes bs = Inr v"
  shows "kad_to_bytes v = bs"
proof -
  have len: "length bs = 16" using assms by (simp add: kad_of_bytes_def split: if_splits)
  define a b c d where "a = py_slice 0 4 bs" and "b = py_slice 4 8 bs"
    and "c = py_slice 8 12 bs" and "d = py_slice 12 16 bs"
  have l: "length a = 4" "length b = 4" "length c = 4" "length d = 4"
    using len by (simp_all add: a_def b_def c_def d_def)
  have lt: "le_dec x < 2 ^ 32" if "length x = 4" for x using le_dec_bound [of x] that by simp
  have v: "v = words_to_int (le_dec a) (le_dec b) (le_dec c) (le_dec d)"
    using assms len by (simp add: kad_of_bytes_def a_def b_def c_def d_def)
  have "kad_to_bytes v = a @ b @ c @ d"
    unfolding kad_to_bytes_alt v words_to_int_word [OF lt [OF l(1)] lt [OF l(2)] lt [OF l(3)] lt [OF l(4)]]
      unat_word_of_nat128 [OF lt [OF l(1)]] unat_word_of_nat128 [OF lt [OF l(2)]]
      unat_word_of_nat128 [OF lt [OF l(3)]] unat_word_of_nat128 [OF lt [OF l(4)]]
    using l by (simp add: le_enc_le_dec_n)
  also have "\<dots> = bs"
  proof -
    have "bs = take 4 bs @ take 4 (drop 4 bs) @ take 4 (drop 8 bs) @ drop 12 bs"
      by (metis append_take_drop_id drop_drop add_numeral_left numeral_plus_numeral
          semiring_norm(2,3,6,7,8))
    then show ?thesis using len by (simp add: a_def b_def c_def d_def py_slice_def)
  qed
  finally show ?thesis .
qed

text \<open>
  The wire form of a Kad identifier is a bijection between 128-bit values and 16-byte
  strings: writing and reading are inverse to each other, and nothing else is read.
\<close>

theorem kad_id_wire_bijection:
  "kad_of_bytes (kad_to_bytes v) = Inr v \<and> length (kad_to_bytes v) = 16 \<and>
   (kad_of_bytes bs = Inr u \<longleftrightarrow> bs = kad_to_bytes u) \<and>
   ((\<exists>u. kad_of_bytes bs = Inr u) \<longleftrightarrow> length bs = 16)"
proof (intro conjI)
  show "kad_of_bytes (kad_to_bytes v) = Inr v" by (rule kad_of_to_bytes)
  show "kad_of_bytes bs = Inr u \<longleftrightarrow> bs = kad_to_bytes u"
    using kad_to_of_bytes kad_of_to_bytes by metis
  show "(\<exists>u. kad_of_bytes bs = Inr u) \<longleftrightarrow> length bs = 16"
    by (simp add: kad_of_bytes_def)
qed simp

section \<open>The layouts\<close>

lemma read_uint128_enc:
  assumes "drop off raw = kad_to_bytes v @ suf"
  shows "read_uint128 raw off = Inr (v, off + 16)" and "drop (off + 16) raw = suf"
  using py_slice_prefix [OF assms length_kad_to_bytes] by (simp_all add: read_uint128_def kad_of_to_bytes)

lemma kad_bytes_id: "length i = 16 \<Longrightarrow> \<exists>v. i = kad_to_bytes v"
proof -
  assume l: "length i = 16"
  then obtain v where "kad_of_bytes i = Inr v" by (auto simp: kad_of_bytes_def)
  then have "kad_to_bytes v = i" by (rule kad_to_of_bytes)
  then show ?thesis by metis
qed

lemma read_contacts_enc:
  "drop off raw = concat (map (enc_node 1) ns) @ suf \<Longrightarrow> \<forall>n\<in>set ns. raw_ok n \<Longrightarrow>
   read_contacts (length ns) raw off = Inr (map (node_of 1) ns)"
proof (induction ns arbitrary: off)
  case (Cons n ns)
  have ok: "raw_ok n" using Cons.prems(2) by simp
  then obtain v where v: "rn_id n = kad_to_bytes v" using kad_bytes_id by (auto simp: raw_ok_def)
  let ?s = "concat (map (enc_node 1) ns) @ suf"
  have d: "drop off raw = kad_to_bytes v @ (le_enc 4 (rn_ip n) @ le_enc 2 (rn_udp n) @ le_enc 2 (rn_tcp n) @
      le_enc 1 (rn_version n) @ ?s)"
    using Cons.prems(1) [unfolded list.map concat.simps enc_node_def [of 1 n] v] by simp
  have b: "rn_ip n < 256 ^ 4" "rn_udp n < 256 ^ 2" "rn_tcp n < 256 ^ 2" "rn_version n < 256 ^ 1"
    using ok by (simp_all add: raw_ok_def)
  note u = read_uint128_enc [OF d]
  note ip = get_le_enc [OF u(2) b(1), simplified]
  have d20: "drop (off + 20) raw = le_enc 2 (rn_udp n) @ le_enc 2 (rn_tcp n) @ le_enc 1 (rn_version n) @ ?s"
    using get_le_enc [OF u(2) b(1)] by (simp add: add.commute)
  have r20: "get_le 2 raw (off + 20) = Inr (rn_udp n)"
    and d22: "drop (off + 22) raw = le_enc 2 (rn_tcp n) @ le_enc 1 (rn_version n) @ ?s"
    using get_le_enc [OF d20 b(2)] by (simp_all add: add.commute)
  have r22: "get_le 2 raw (off + 22) = Inr (rn_tcp n)"
    and d24: "drop (off + 24) raw = le_enc 1 (rn_version n) @ ?s"
    using get_le_enc [OF d22 b(3)] by (simp_all add: add.commute)
  have r24: "get_le 1 raw (off + 24) = Inr (rn_version n)" and d25: "drop (off + 25) raw = ?s"
    and l25: "off + 25 \<le> length raw"
    using get_le_enc [OF d24 b(4)] by (simp_all add: add.commute)
  have r16: "get_le 4 raw (off + 16) = Inr (rn_ip n)" using get_le_enc [OF u(2) b(1)] by simp
  have IH: "read_contacts (length ns) raw (off + 25) = Inr (map (node_of 1) ns)"
    using Cons.prems(2) by (intro Cons.IH [OF d25]) simp
  show ?case
    using u(1) r16 r20 r22 r24 l25 IH ok v
    by (simp add: mk_kad_node_def node_of_def add.commute add.left_commute del: One_nat_def)
qed simp

definition enc_bootstrap_res :: "kad_id \<Rightarrow> nat \<Rightarrow> nat \<Rightarrow> raw_node list \<Rightarrow> bytes" where
  "enc_bootstrap_res sid tcp ver ns =
     kad_to_bytes sid @ le_enc 2 tcp @ le_enc 1 ver @ le_enc 2 (length ns) @ concat (map (enc_node 1) ns)"

text \<open>
  A bootstrap response in the documented layout is parsed to the sender's identifier and
  exactly the contacts it lists, in order; bytes after the last contact are ignored.
\<close>

theorem bootstrap_res_layout:
  assumes "\<forall>n\<in>set ns. raw_ok n" and "length ns < 2 ^ 16" and "tcp < 2 ^ 16" and "ver < 256"
  shows "parse_bootstrap_res (enc_bootstrap_res sid tcp ver ns @ extra) = Inr (sid, map (node_of 1) ns)"
proof -
  let ?raw = "enc_bootstrap_res sid tcp ver ns @ extra"
  let ?s = "concat (map (enc_node 1) ns) @ extra"
  have b: "tcp < 256 ^ 2" "ver < 256 ^ 1" "length ns < 256 ^ 2" using assms by simp_all
  have d0: "drop 0 ?raw = kad_to_bytes sid @ (le_enc 2 tcp @ le_enc 1 ver @ le_enc 2 (length ns) @ ?s)"
    by (simp add: enc_bootstrap_res_def)
  note u = read_uint128_enc [OF d0]
  have d18: "drop 18 ?raw = le_enc 1 ver @ le_enc 2 (length ns) @ ?s"
    using get_le_enc [OF u(2) b(1)] by simp
  have d19: "drop 19 ?raw = le_enc 2 (length ns) @ ?s"
    using get_le_enc [OF d18 b(2)] by simp
  have r19: "get_le 2 ?raw 19 = Inr (length ns)" and d21: "drop 21 ?raw = ?s" and l: "21 \<le> length ?raw"
    using get_le_enc [OF d19 b(3)] by simp_all
  show ?thesis
    using u(1) r19 l read_contacts_enc [OF d21 assms(1)]
    by (simp add: parse_bootstrap_res_def)
qed

theorem bootstrap_res_layout_witness:
  "parse_bootstrap_res (enc_bootstrap_res 7 4662 9 [sample_raw] @ [0]) = Inr (7, map (node_of 1) [sample_raw])"
  by (rule bootstrap_res_layout) (simp_all add: raw_ok_def sample_raw_def)

text \<open>
  A HELLO request the client builds is a Kad datagram whose payload the HELLO parser reads
  back: identifier, port, version and the tag bytes, provided the stated number of tags does not
  exceed the number of tag bytes, which is all the parser checks.
\<close>

theorem hello_roundtrip:
  assumes "build_hello_req sid port ver tags cnt = Inr dg" and "cnt \<le> int (length tags)"
  shows "\<exists>payload. parse_kad_packet dg = Inr (KAD_PROTOCOL, KADEMLIA2_HELLO_REQ, payload) \<and>
    parse_hello_res payload = Inr \<lparr>kh_contact_id = sid, kh_tcp_port = nat port, kh_version = nat ver, kh_tags_raw = tags\<rparr>"
proof -
  from assms(1) obtain tl where tl: "build_tag_list tags cnt = Inr tl" and
    port: "0 \<le> port" "port \<le> 0xFFFF" and ver: "0 \<le> ver" "ver \<le> 0xFF" and
    dg: "dg = kad_header KAD_PROTOCOL KADEMLIA2_HELLO_REQ @ kad_to_bytes sid @ le_enc 2 (nat port) @ le_enc 1 (nat ver) @ tl"
    by (auto simp: build_hello_req_def bindE_eq_Inr_conv split: if_splits)
  have "\<exists>n. tl = le_enc 1 n @ tags \<and> n < 256 \<and> n \<le> length tags"
  proof (cases "tags = []")
    case True
    then show ?thesis using tl by (intro exI [of _ 0]) (simp add: build_tag_list_def)
  next
    case False
    then have c: "0 \<le> cnt" "cnt \<le> 255" "tl = word_of_int cnt # tags"
      using tl by (auto simp: build_tag_list_def split: if_splits)
    have "(word_of_nat (nat cnt) :: byte) = word_of_int cnt" using c(1) by (metis of_int_of_nat_eq of_nat_nat)
    then show ?thesis using c assms(2) by (intro exI [of _ "nat cnt"]) auto
  qed
  then obtain n where n: "tl = le_enc 1 n @ tags" "n < 256 ^ 1" "n \<le> length tags" by auto
  let ?p = "kad_to_bytes sid @ le_enc 2 (nat port) @ le_enc 1 (nat ver) @ tl"
  have b: "nat port < 256 ^ 2" "nat ver < 256 ^ 1" using port ver by auto
  have d0: "drop 0 ?p = kad_to_bytes sid @ (le_enc 2 (nat port) @ le_enc 1 (nat ver) @ le_enc 1 n @ tags)"
    by (simp add: n)
  note u = read_uint128_enc [OF d0]
  have r16: "get_le 2 ?p 16 = Inr (nat port)" and d18: "drop 18 ?p = le_enc 1 (nat ver) @ le_enc 1 n @ tags"
    using get_le_enc [OF u(2) b(1)] by simp_all
  have r18: "get_le 1 ?p 18 = Inr (nat ver)" and d19: "drop 19 ?p = le_enc 1 n @ tags"
    using get_le_enc [OF d18 b(2)] by simp_all
  have r19: "get_le 1 ?p 19 = Inr n" and d20: "drop 20 ?p = tags" and l: "20 \<le> length ?p"
    using get_le_enc [OF d19 n(2)] by simp_all
  have "read_hello_contact ?p 0 = Inr (sid, nat port, nat ver, n, 20)"
    using u(1) r16 r18 r19 l n(1) by (auto simp: read_hello_contact_def)
  then have "parse_hello_res ?p = Inr \<lparr>kh_contact_id = sid, kh_tcp_port = nat port, kh_version = nat ver, kh_tags_raw = tags\<rparr>"
    using n(1,3) by (simp add: parse_hello_res_def Let_def)
  moreover have "parse_kad_packet dg = Inr (KAD_PROTOCOL, KADEMLIA2_HELLO_REQ, ?p)"
    by (simp add: dg parse_kad_packet_def kad_header_def KAD_PROTOCOL_def KADEMLIA2_HELLO_REQ_def)
  ultimately show ?thesis by blast
qed

theorem hello_roundtrip_witness:
  "\<exists>payload. parse_kad_packet (case build_hello_req 5 4662 9 [1, 2] 1 of Inr d \<Rightarrow> d | Inl _ \<Rightarrow> []) =
      Inr (KAD_PROTOCOL, KADEMLIA2_HELLO_REQ, payload) \<and>
    parse_hello_res payload = Inr \<lparr>kh_contact_id = 5, kh_tcp_port = nat 4662, kh_version = nat 9, kh_tags_raw = [1, 2]\<rparr>"
proof -
  have "\<exists>d. build_hello_req 5 4662 9 [1, 2] 1 = Inr d" by (simp add: build_hello_req_def build_tag_list_def)
  then obtain d where d: "build_hello_req 5 4662 9 [1, 2] 1 = Inr d" ..
  from hello_roundtrip [OF d] d show ?thesis by simp
qed

text \<open>\<open>distance_bits\<close> is the index, from the top, of the highest set bit.\<close>

lemma bit_length_bounds: "0 < n \<Longrightarrow> 2 ^ (bit_length n - 1) \<le> n \<and> n < 2 ^ bit_length n \<and> 0 < bit_length n"
proof (induction n rule: bit_length.induct)
  case (1 n)
  show ?case
  proof (cases "n = 1")
    case True
    then show ?thesis by (simp add: bit_length.simps)
  next
    case False
    with "1.prems" have h: "0 < n div 2" by auto
    with "1.IH" "1.prems" have IH: "2 ^ (bit_length (n div 2) - 1) \<le> n div 2"
      "n div 2 < 2 ^ bit_length (n div 2)" "0 < bit_length (n div 2)" by auto
    obtain k where k: "bit_length (n div 2) = Suc k" using IH(3) by (cases "bit_length (n div 2)") auto
    have e: "bit_length n = Suc (Suc k)" using "1.prems" k by (subst bit_length.simps) simp
    show ?thesis using IH(1,2) k e by (simp add: e) linarith
  qed
qed

lemma distance_bits_prefix:
  assumes "v \<noteq> 0"
  shows "0 \<le> distance_bits v" and "distance_bits v < 128" and
    "unat v < 2 ^ nat (128 - distance_bits v)" and "2 ^ nat (127 - distance_bits v) \<le> unat v"
proof -
  have p: "0 < unat v" using assms by (simp add: unat_gt_0)
  note b = bit_length_bounds [OF p]
  have "unat v < 2 ^ 128" using unsigned_less [of v, where ?'a = nat] by simp
  then have "(2 :: nat) ^ (bit_length (unat v) - 1) < 2 ^ 128" using b by linarith
  then have "bit_length (unat v) - 1 < 128" by (simp only: power_strict_increasing_iff)
  then have l: "bit_length (unat v) \<le> 128" by simp
  have e: "distance_bits v = 128 - int (bit_length (unat v))" using assms by (simp add: distance_bits_def)
  show "0 \<le> distance_bits v" "distance_bits v < 128" using l b e by auto
  show "unat v < 2 ^ nat (128 - distance_bits v)" using b e by simp
  have "nat (127 - distance_bits v) = bit_length (unat v) - 1" using l b e by auto
  then show "2 ^ nat (127 - distance_bits v) \<le> unat v" using b by simp
qed

end
