(* ===== verification/Kad_Routing.thy ===== *)
theory Kad_Routing
  imports Kad_Packets
begin

text \<open>
  \<open>core/kad/routing.py\<close>: the Kad routing table, a binary tree of zones over the XOR distance to
  the own identifier with buckets of ten contacts at its leaves. A zone is a tree; the parent
  pointers of the code are only used to count the contacts of the whole table, which is an
  argument here. The clock is an argument, times are reals.
\<close>

section \<open>Contacts and buckets\<close>

definition K_SIZE :: nat where "K_SIZE = 10"
definition KBASE :: nat where "KBASE = 4"
definition KK :: nat where "KK = 5"
definition MAX_ZONE_LEVEL :: nat where "MAX_ZONE_LEVEL = 127"
definition BOOTSTRAP_NODE_COUNT :: nat where "BOOTSTRAP_NODE_COUNT = 2000"

record routing_contact =
  rc_node :: kad_node
  rc_type :: int
  rc_fails :: int
  rc_last_seen :: real

definition bit_at_level :: "kad_id \<Rightarrow> nat \<Rightarrow> nat" where
  "bit_at_level v level = (if level \<ge> 128 then 0 else unat v div 2 ^ (127 - level) mod 2)"

text \<open>The constructor of a contact has checked the length of its identifier.\<close>

definition node_kid :: "kad_node \<Rightarrow> kad_id" where
  "node_kid n = (case kad_of_bytes (kn_id n) of Inr v \<Rightarrow> v | Inl _ \<Rightarrow> 0)"

definition new_contact :: "kad_node \<Rightarrow> routing_contact" where
  "new_contact n = \<lparr>rc_node = n, rc_type = 3, rc_fails = 0, rc_last_seen = 0\<rparr>"

definition rc_key :: "routing_contact \<Rightarrow> string \<times> nat" where
  "rc_key c = kad_node_key (rc_node c)"

definition update_type :: "real \<Rightarrow> routing_contact \<Rightarrow> routing_contact" where
  "update_type now c =
     (let age = (if rc_last_seen c > 0 then now - rc_last_seen c else 0) in
      c\<lparr>rc_type := (if age < 3600 then 2 else if age < 7200 then 1 else 0), rc_fails := 0\<rparr>)"

definition checking_type :: "routing_contact \<Rightarrow> bool \<times> routing_contact" where
  "checking_type c =
     (if rc_type c \<ge> 4 then (True, c)
      else let c' = c\<lparr>rc_type := rc_type c + 1\<rparr> in (rc_type c' \<ge> 4, c'))"

type_synonym bin = "routing_contact list"

definition push_to_bottom :: "routing_contact \<Rightarrow> bin \<Rightarrow> bin" where
  "push_to_bottom c cs = (if c \<in> set cs then remove1 c cs @ [c] else cs)"

text \<open>Index of the first contact with a property.\<close>

definition first_index :: "(routing_contact \<Rightarrow> bool) \<Rightarrow> bin \<Rightarrow> nat option" where
  "first_index P cs = (let i = length (takeWhile (\<lambda>c. \<not> P c) cs) in if i < length cs then Some i else None)"

definition bin_add :: "real \<Rightarrow> routing_contact \<Rightarrow> bin \<Rightarrow> bin option" where
  "bin_add now c cs =
     (case first_index (\<lambda>e. kn_id (rc_node e) = kn_id (rc_node c)) cs of
        Some i \<Rightarrow>
          let e = \<lparr>rc_node = rc_node c, rc_type = 0, rc_fails = 0, rc_last_seen = now\<rparr> in
          Some (push_to_bottom e (cs[i := e]))
      | None \<Rightarrow> if length cs \<ge> K_SIZE then None else Some (cs @ [c]))"

definition bin_mark_alive :: "real \<Rightarrow> string \<times> nat \<Rightarrow> bin \<Rightarrow> bool \<times> bin" where
  "bin_mark_alive now key cs =
     (case first_index (\<lambda>c. rc_key c = key) cs of
        None \<Rightarrow> (False, cs)
      | Some i \<Rightarrow>
          let e = (update_type now (cs ! i))\<lparr>rc_last_seen := now\<rparr> in
          (True, push_to_bottom e (cs[i := e])))"

definition bin_mark_failed :: "string \<times> nat \<Rightarrow> bin \<Rightarrow> bool \<times> bin" where
  "bin_mark_failed key cs =
     (case first_index (\<lambda>c. rc_key c = key) cs of
        None \<Rightarrow> (False, cs)
      | Some i \<Rightarrow>
          let (evict, e) = checking_type ((cs ! i)\<lparr>rc_fails := rc_fails (cs ! i) + 1\<rparr>) in
          (evict, cs[i := e]))"

definition bin_remove :: "string \<times> nat \<Rightarrow> bin \<Rightarrow> bool \<times> bin" where
  "bin_remove key cs =
     (case List.find (\<lambda>c. rc_key c = key) cs of
        None \<Rightarrow> (False, cs)
      | Some c \<Rightarrow> (True, remove1 c cs))"

definition bin_contacts :: "bin \<Rightarrow> bin" where
  "bin_contacts cs = rev cs"

section \<open>Zones\<close>

datatype zone = Leaf_Zone (z_level: nat) (z_index: nat) bin | Inner_Zone (z_level: nat) (z_index: nat) zone zone

fun zone_size :: "zone \<Rightarrow> nat" where
  "zone_size (Leaf_Zone lv ix cs) = length cs"
| "zone_size (Inner_Zone lv ix l r) = zone_size l + zone_size r"

definition zone_new :: zone where
  "zone_new = Leaf_Zone 0 0 []"

text \<open>\<open>tot\<close> is the number of contacts of the whole table.\<close>

definition can_split :: "nat \<Rightarrow> nat \<Rightarrow> nat \<Rightarrow> bin \<Rightarrow> bool" where
  "can_split tot lv ix cs \<longleftrightarrow>
     (if lv \<ge> MAX_ZONE_LEVEL then False
      else if length cs \<noteq> K_SIZE then False
      else if tot < BOOTSTRAP_NODE_COUNT then True
      else ix < KK \<or> lv < KBASE)"

definition side_of :: "kad_id \<Rightarrow> nat \<Rightarrow> kad_node \<Rightarrow> nat" where
  "side_of own lv n = bit_at_level (kad_xor own (node_kid n)) lv"

text \<open>The migration of a split, most recent contact first; a contact a child refuses is dropped.\<close>

fun migrate :: "real \<Rightarrow> kad_id \<Rightarrow> nat \<Rightarrow> routing_contact list \<Rightarrow> bin \<times> bin \<Rightarrow> bin \<times> bin" where
  "migrate now own lv [] b = b"
| "migrate now own lv (c # cs) (b0, b1) =
     (if side_of own lv (rc_node c) = 0
      then migrate now own lv cs ((case bin_add now c b0 of Some b \<Rightarrow> b | None \<Rightarrow> b0), b1)
      else migrate now own lv cs (b0, (case bin_add now c b1 of Some b \<Rightarrow> b | None \<Rightarrow> b1)))"

definition split_bin :: "real \<Rightarrow> kad_id \<Rightarrow> nat \<Rightarrow> bin \<Rightarrow> bin \<times> bin" where
  "split_bin now own lv cs = migrate now own lv (bin_contacts cs) ([], [])"

function leaf_add :: "real \<Rightarrow> kad_id \<Rightarrow> nat \<Rightarrow> kad_node \<Rightarrow> nat \<Rightarrow> nat \<Rightarrow> bin \<Rightarrow> bool \<times> zone" where
  "leaf_add now own tot n lv ix cs =
     (case bin_add now (new_contact n) cs of
        Some cs' \<Rightarrow> (True, Leaf_Zone lv ix cs')
      | None \<Rightarrow>
          if can_split tot lv ix cs then
            (let (b0, b1) = split_bin now own lv cs;
                 tot' = tot - length cs + (length b0 + length b1) in
             if side_of own lv n = 0 then
               (let (ok, z) = leaf_add now own tot' n (lv + 1) (2 * ix) b0 in
                (ok, Inner_Zone lv ix z (Leaf_Zone (lv + 1) (2 * ix + 1) b1)))
             else
               (let (ok, z) = leaf_add now own tot' n (lv + 1) (2 * ix + 1) b1 in
                (ok, Inner_Zone lv ix (Leaf_Zone (lv + 1) (2 * ix) b0) z)))
          else (False, Leaf_Zone lv ix cs))"
  by pat_completeness auto
termination
  by (relation "measure (\<lambda>(now, own, tot, n, lv, ix, cs). 127 - lv)")
    (auto simp: can_split_def MAX_ZONE_LEVEL_def split: if_splits)

declare leaf_add.simps [simp del]

fun zone_add_in :: "real \<Rightarrow> kad_id \<Rightarrow> nat \<Rightarrow> kad_node \<Rightarrow> zone \<Rightarrow> bool \<times> zone" where
  "zone_add_in now own tot n (Leaf_Zone lv ix cs) = leaf_add now own tot n lv ix cs"
| "zone_add_in now own tot n (Inner_Zone lv ix l r) =
     (if side_of own lv n = 0
      then let (ok, l') = zone_add_in now own tot n l in (ok, Inner_Zone lv ix l' r)
      else let (ok, r') = zone_add_in now own tot n r in (ok, Inner_Zone lv ix l r'))"

definition zone_add :: "real \<Rightarrow> kad_id \<Rightarrow> kad_node \<Rightarrow> zone \<Rightarrow> bool \<times> zone" where
  "zone_add now own n z = zone_add_in now own (zone_size z) n z"

fun zone_mark_alive :: "real \<Rightarrow> string \<times> nat \<Rightarrow> zone \<Rightarrow> bool \<times> zone" where
  "zone_mark_alive now key (Leaf_Zone lv ix cs) =
     (let (b, cs') = bin_mark_alive now key cs in (b, Leaf_Zone lv ix cs'))"
| "zone_mark_alive now key (Inner_Zone lv ix l r) =
     (let (b, l') = zone_mark_alive now key l in
      if b then (True, Inner_Zone lv ix l' r)
      else let (b', r') = zone_mark_alive now key r in (b', Inner_Zone lv ix l' r'))"

fun zone_mark_failed :: "string \<times> nat \<Rightarrow> zone \<Rightarrow> bool \<times> zone" where
  "zone_mark_failed key (Leaf_Zone lv ix cs) =
     (let (b, cs') = bin_mark_failed key cs in (b, Leaf_Zone lv ix cs'))"
| "zone_mark_failed key (Inner_Zone lv ix l r) =
     (let (b, l') = zone_mark_failed key l in
      if b then (True, Inner_Zone lv ix l' r)
      else let (b', r') = zone_mark_failed key r in (b', Inner_Zone lv ix l' r'))"

fun zone_remove :: "string \<times> nat \<Rightarrow> zone \<Rightarrow> bool \<times> zone" where
  "zone_remove key (Leaf_Zone lv ix cs) = (let (b, cs') = bin_remove key cs in (b, Leaf_Zone lv ix cs'))"
| "zone_remove key (Inner_Zone lv ix l r) =
     (let (b, l') = zone_remove key l; (b', r') = zone_remove key r in (b \<or> b', Inner_Zone lv ix l' r'))"

definition target_dist :: "kad_id \<Rightarrow> routing_contact \<Rightarrow> nat" where
  "target_dist target c = unat (kad_xor target (node_kid (rc_node c)))"

fun collect_closest :: "kad_id \<Rightarrow> kad_id \<Rightarrow> nat \<Rightarrow> zone \<Rightarrow> routing_contact list \<Rightarrow> routing_contact list" where
  "collect_closest own target cnt (Leaf_Zone lv ix cs) results =
     (if length results \<ge> cnt then results
      else results @ take (cnt - length results) (sort_key (target_dist target) (bin_contacts cs)))"
| "collect_closest own target cnt (Inner_Zone lv ix l r) results =
     (if length results \<ge> cnt then results
      else if bit_at_level (kad_xor own target) lv = 0 then
        (let results' = collect_closest own target cnt l results in
         if length results' < cnt then collect_closest own target cnt r results' else results')
      else
        (let results' = collect_closest own target cnt r results in
         if length results' < cnt then collect_closest own target cnt l results' else results'))"

definition closest :: "kad_id \<Rightarrow> kad_id \<Rightarrow> nat \<Rightarrow> zone \<Rightarrow> kad_node list" where
  "closest own target cnt z = map rc_node (collect_closest own target cnt z [])"

fun zone_contacts :: "zone \<Rightarrow> routing_contact list" where
  "zone_contacts (Leaf_Zone lv ix cs) = bin_contacts cs"
| "zone_contacts (Inner_Zone lv ix l r) = zone_contacts l @ zone_contacts r"

definition all_contacts :: "zone \<Rightarrow> kad_node list" where
  "all_contacts z = map rc_node (zone_contacts z)"

section \<open>The invariant\<close>

text \<open>The first \<open>lv\<close> bits of an identifier.\<close>

definition prefix :: "nat \<Rightarrow> kad_id \<Rightarrow> nat" where
  "prefix lv v = unat v div 2 ^ (128 - lv)"

definition bin_ok :: "kad_id \<Rightarrow> nat \<Rightarrow> nat \<Rightarrow> bin \<Rightarrow> bool" where
  "bin_ok own lv ix cs \<longleftrightarrow> length cs \<le> K_SIZE \<and> distinct (map (\<lambda>c. kn_id (rc_node c)) cs) \<and>
     (\<forall>c\<in>set cs. length (kn_id (rc_node c)) = 16 \<and> prefix lv (kad_xor own (node_kid (rc_node c))) = ix)"

fun zone_ok :: "kad_id \<Rightarrow> nat \<Rightarrow> nat \<Rightarrow> zone \<Rightarrow> bool" where
  "zone_ok own lv ix (Leaf_Zone lv' ix' cs) \<longleftrightarrow> lv' = lv \<and> ix' = ix \<and> lv \<le> 127 \<and> bin_ok own lv ix cs"
| "zone_ok own lv ix (Inner_Zone lv' ix' l r) \<longleftrightarrow> lv' = lv \<and> ix' = ix \<and> lv < 127 \<and>
     zone_ok own (lv + 1) (2 * ix) l \<and> zone_ok own (lv + 1) (2 * ix + 1) r"

lemma prefix_Suc:
  assumes "lv < 128"
  shows "prefix (lv + 1) v = 2 * prefix lv v + bit_at_level v lv"
proof -
  have e: "128 - lv = Suc (127 - lv)" "128 - (lv + 1) = 127 - lv" using assms by auto
  have "unat v div 2 ^ (127 - lv) div 2 = unat v div 2 ^ (128 - lv)"
    unfolding e by (simp only: power_Suc2 div_mult2_eq)
  then have "prefix lv v = prefix (lv + 1) v div 2" by (simp add: prefix_def e)
  moreover have "bit_at_level v lv = prefix (lv + 1) v mod 2"
    using assms by (simp add: bit_at_level_def prefix_def)
  ultimately show ?thesis by simp
qed

lemma bit_at_level_01: "bit_at_level v lv = 0 \<or> bit_at_level v lv = 1"
  by (auto simp: bit_at_level_def)

lemma prefix_0: "prefix 0 v = 0"
proof -
  have "unat v < 2 ^ 128" using unsigned_less [of v, where ?'a = nat] by simp
  then show ?thesis by (simp add: prefix_def)
qed

text \<open>Prefixes are exchanged by XOR: zones near the target hold the near contacts.\<close>

lemma prefix_xor: "prefix lv (xor a b) = xor (prefix lv a) (prefix lv b)"
  by (simp add: prefix_def unsigned_xor_eq drop_bit_xor flip: drop_bit_eq_div)

lemma xor_double: "xor (2 * a + s) (2 * b + t) = 2 * xor a b + (if s = t then 0 else 1)"
  if "s < 2" "t < 2" for a b s t :: nat
proof -
  have "s = 0 \<or> s = 1" "t = 0 \<or> t = 1" using that by auto
  then show ?thesis by (subst xor_rec) auto
qed

lemma kad_xor_target: "kad_xor target n = xor (kad_xor own n) (kad_xor own target)"
  by (simp add: kad_xor_def ac_simps)

lemma near_before_far:
  assumes lv: "lv < 128" and p: "prefix lv (kad_xor own a) = prefix lv (kad_xor own b)"
    and s: "bit_at_level (kad_xor own a) lv = bit_at_level (kad_xor own target) lv"
      "bit_at_level (kad_xor own b) lv \<noteq> bit_at_level (kad_xor own target) lv"
  shows "unat (kad_xor target a) < unat (kad_xor target b)"
proof -
  let ?q = "prefix lv (kad_xor own target)" and ?t = "bit_at_level (kad_xor own target) lv"
  have lt: "bit_at_level v lv < 2" for v using bit_at_level_01 [of v lv] by auto
  have pa: "prefix (lv + 1) (kad_xor target x) =
      2 * xor (prefix lv (kad_xor own x)) ?q + (if bit_at_level (kad_xor own x) lv = ?t then 0 else 1)" for x
    unfolding kad_xor_target [of target x own] prefix_xor prefix_Suc [OF lv]
    by (rule xor_double) (rule lt)+
  have "prefix (lv + 1) (kad_xor target a) < prefix (lv + 1) (kad_xor target b)"
    unfolding pa using p s by simp
  then have "unat (kad_xor target a) div 2 ^ (127 - lv) < unat (kad_xor target b) div 2 ^ (127 - lv)"
    using lv by (simp add: prefix_def)
  then show ?thesis by (meson div_le_mono not_less)
qed

section \<open>Closest contacts\<close>

lemma prefix_child:
  assumes "lv < 128" and "s < 2" and "prefix (lv + 1) v = 2 * ix + s"
  shows "bit_at_level v lv = s" and "prefix lv v = ix"
proof -
  have "2 * prefix lv v + bit_at_level v lv = 2 * ix + s" "bit_at_level v lv < 2"
    using prefix_Suc [OF assms(1), of v] assms(3) bit_at_level_01 [of v lv] by auto
  then show "bit_at_level v lv = s" "prefix lv v = ix" using assms(2) by presburger+
qed

lemma zone_ok_prefix:
  "zone_ok own lv ix z \<Longrightarrow> c \<in> set (zone_contacts z) \<Longrightarrow> prefix lv (kad_xor own (node_kid (rc_node c))) = ix"
proof (induction z arbitrary: lv ix)
  case (Leaf_Zone lv' ix' cs)
  then show ?case by (simp add: bin_ok_def bin_contacts_def)
next
  case (Inner_Zone lv' ix' l r)
  let ?v = "kad_xor own (node_kid (rc_node c))"
  have lv: "lv < 128" using Inner_Zone.prems by simp
  have "prefix (lv + 1) ?v = 2 * ix + 0 \<or> prefix (lv + 1) ?v = 2 * ix + 1"
    using Inner_Zone by auto
  then show ?case using prefix_child(2) [OF lv, of 0 ?v ix] prefix_child(2) [OF lv, of 1 ?v ix] by auto
qed

text \<open>The order in which leaves are visited, each sorted.\<close>

fun visit :: "kad_id \<Rightarrow> kad_id \<Rightarrow> zone \<Rightarrow> routing_contact list" where
  "visit own target (Leaf_Zone lv ix cs) = sort_key (target_dist target) (bin_contacts cs)"
| "visit own target (Inner_Zone lv ix l r) =
     (if bit_at_level (kad_xor own target) lv = 0 then visit own target l @ visit own target r
      else visit own target r @ visit own target l)"

lemma mset_visit: "mset (visit own target z) = mset (zone_contacts z)"
  by (induction z) (auto simp: bin_contacts_def)

lemma set_visit: "set (visit own target z) = set (zone_contacts z)"
  using mset_visit [of own target z] by (rule mset_eq_setD)

lemma collect_closest_visit:
  "length results \<le> cnt \<Longrightarrow>
   collect_closest own target cnt z results = results @ take (cnt - length results) (visit own target z)"
proof (induction z arbitrary: results)
  case (Leaf_Zone lv ix cs)
  then show ?case by simp
next
  case (Inner_Zone lv ix l r)
  have two: "collect_closest own target cnt y (collect_closest own target cnt x results) =
        results @ take (cnt - length results) (visit own target x @ visit own target y)"
    if "\<And>res. length res \<le> cnt \<Longrightarrow> collect_closest own target cnt x res = res @ take (cnt - length res) (visit own target x)"
      "\<And>res. length res \<le> cnt \<Longrightarrow> collect_closest own target cnt y res = res @ take (cnt - length res) (visit own target y)"
    for x y
  proof -
    let ?r = "results @ take (cnt - length results) (visit own target x)"
    have "length ?r \<le> cnt" using Inner_Zone.prems by simp
    then have "collect_closest own target cnt y ?r = ?r @ take (cnt - length ?r) (visit own target y)"
      by (rule that(2))
    moreover have "cnt - length ?r = cnt - length results - length (visit own target x)"
      using Inner_Zone.prems by (simp add: min_def)
    ultimately show ?thesis using that(1) [OF Inner_Zone.prems] by simp
  qed
  have fin: "\<not> length (collect_closest own target cnt x results) < cnt \<Longrightarrow>
        collect_closest own target cnt x results = results @ take (cnt - length results) (visit own target x @ visit own target y)"
    if "\<And>res. length res \<le> cnt \<Longrightarrow> collect_closest own target cnt x res = res @ take (cnt - length res) (visit own target x)"
    for x y
    using that [OF Inner_Zone.prems] Inner_Zone.prems by auto
  show ?case
  proof (cases "length results \<ge> cnt")
    case True
    then show ?thesis using Inner_Zone.prems by simp
  next
    case False
    then show ?thesis
      using two [OF Inner_Zone.IH] two [OF Inner_Zone.IH(2,1)] fin [OF Inner_Zone.IH(1)] fin [OF Inner_Zone.IH(2)]
      by (auto simp: Let_def)
  qed
qed

lemma visit_sorted: "zone_ok own lv ix z \<Longrightarrow> sorted (map (target_dist target) (visit own target z))"
proof (induction z arbitrary: lv ix)
  case (Leaf_Zone lv' ix' cs)
  then show ?case by simp
next
  case (Inner_Zone lv' ix' l r)
  have lv: "lv < 128" and lv': "lv' = lv" using Inner_Zone.prems by simp_all
  have sub: "zone_ok own (lv + 1) (2 * ix) l" "zone_ok own (lv + 1) (2 * ix + 1) r"
    using Inner_Zone.prems by simp_all
  have ih: "sorted (map (target_dist target) (visit own target l))" "sorted (map (target_dist target) (visit own target r))"
    using Inner_Zone.IH sub by auto
  define t where "t = bit_at_level (kad_xor own target) lv"
  have bl: "bit_at_level (kad_xor own (node_kid (rc_node c))) lv = 0"
      "prefix lv (kad_xor own (node_kid (rc_node c))) = ix" if "c \<in> set (zone_contacts l)" for c
    using prefix_child [OF lv, of 0 "kad_xor own (node_kid (rc_node c))" ix] zone_ok_prefix [OF sub(1) that] by simp_all
  have br: "bit_at_level (kad_xor own (node_kid (rc_node c))) lv = 1"
      "prefix lv (kad_xor own (node_kid (rc_node c))) = ix" if "c \<in> set (zone_contacts r)" for c
    using prefix_child [OF lv, of 1 "kad_xor own (node_kid (rc_node c))" ix] zone_ok_prefix [OF sub(2) that] by simp_all
  have t01: "t = 0 \<or> t = 1" unfolding t_def by (rule bit_at_level_01)
  have lr: "target_dist target c \<le> target_dist target d"
    if "t = 0" "c \<in> set (zone_contacts l)" "d \<in> set (zone_contacts r)" for c d
    unfolding target_dist_def
    by (rule less_imp_le, rule near_before_far [OF lv, where own = own])
      (use bl [OF that(2)] br [OF that(3)] that(1) in \<open>simp_all add: t_def\<close>)
  have rl: "target_dist target c \<le> target_dist target d"
    if "t = 1" "c \<in> set (zone_contacts r)" "d \<in> set (zone_contacts l)" for c d
    unfolding target_dist_def
    by (rule less_imp_le, rule near_before_far [OF lv, where own = own])
      (use br [OF that(2)] bl [OF that(3)] that(1) in \<open>simp_all add: t_def\<close>)
  show ?case
    using t01 ih lr rl by (auto simp: sorted_append set_visit lv' simp flip: t_def)
qed

text \<open>
  C25. The lookup of the nearest contacts is exact: in a well-formed table \<open>closest\<close> returns the
  first \<open>count\<close> contacts of the whole table in the order of their XOR distance to the target,
  although it visits the zones one after the other and stops as soon as it has enough.
\<close>

theorem closest_is_nearest:
  assumes "zone_ok own 0 0 z"
  shows "\<exists>cs. mset cs = mset (zone_contacts z) \<and> sorted (map (target_dist target) cs) \<and>
    closest own target cnt z = map rc_node (take cnt cs)"
proof (intro exI conjI)
  show "mset (visit own target z) = mset (zone_contacts z)" by (rule mset_visit)
  show "sorted (map (target_dist target) (visit own target z))" by (rule visit_sorted [OF assms])
  show "closest own target cnt z = map rc_node (take cnt (visit own target z))"
    by (simp add: closest_def collect_closest_visit)
qed

section \<open>Updates keep the invariant\<close>

lemma bin_ok_cong:
  assumes "mset (map rc_node cs') = mset (map rc_node cs)"
  shows "bin_ok own lv ix cs' = bin_ok own lv ix cs"
proof -
  have l: "length cs' = length cs" using assms by (metis length_map mset_eq_length)
  have s: "rc_node ` set cs' = rc_node ` set cs" using assms by (metis mset_eq_setD set_map)
  have d: "distinct (map (\<lambda>c. kn_id (rc_node c)) cs') = distinct (map (\<lambda>c. kn_id (rc_node c)) cs)"
  proof -
    have e: "map (\<lambda>c. kn_id (rc_node c)) ds = map kn_id (map rc_node ds)" for ds by simp
    have "mset (map kn_id (map rc_node cs')) = mset (map kn_id (map rc_node cs))"
      using assms by (metis mset_map)
    then show ?thesis unfolding e by (rule mset_eq_imp_distinct_iff)
  qed
  have q: "(\<forall>c\<in>set cs'. P (rc_node c)) = (\<forall>c\<in>set cs. P (rc_node c))" for P
    using s by (metis (no_types, lifting) image_iff)
  show ?thesis
    using q [of "\<lambda>n. length (kn_id n) = 16 \<and> prefix lv (kad_xor own (node_kid n)) = ix"]
    by (simp add: bin_ok_def l d)
qed

lemma mset_push_to_bottom [simp]: "mset (push_to_bottom c cs) = mset cs"
  by (simp add: push_to_bottom_def)

lemma first_index_Some:
  assumes "first_index P cs = Some i"
  shows "i < length cs" and "P (cs ! i)"
  using assms nth_length_takeWhile [of "\<lambda>c. \<not> P c" cs] by (auto simp: first_index_def Let_def split: if_splits)

lemma first_index_None: "first_index P cs = None \<Longrightarrow> c \<in> set cs \<Longrightarrow> \<not> P c"
proof -
  assume a: "first_index P cs = None" and c: "c \<in> set cs"
  have "length (takeWhile (\<lambda>c. \<not> P c) cs) = length cs"
    using a length_takeWhile_le [of "\<lambda>c. \<not> P c" cs] by (simp add: first_index_def Let_def split: if_splits)
  then have "takeWhile (\<lambda>c. \<not> P c) cs = cs" by (metis takeWhile_eq_take take_all order_refl)
  with c show ?thesis by (metis set_takeWhileD)
qed

lemma mset_update_node:
  "i < length cs \<Longrightarrow> rc_node e = rc_node (cs ! i) \<Longrightarrow> map rc_node (cs[i := e]) = map rc_node cs"
  by (simp add: map_update list_update_same_conv)

lemma bin_ok_alive: "bin_ok own lv ix cs \<Longrightarrow> bin_mark_alive now key cs = (b, cs') \<Longrightarrow> bin_ok own lv ix cs'"
proof -
  assume ok: "bin_ok own lv ix cs" and m: "bin_mark_alive now key cs = (b, cs')"
  have "mset (map rc_node cs') = mset (map rc_node cs)"
  proof (cases "first_index (\<lambda>c. rc_key c = key) cs")
    case (Some i)
    let ?e = "(update_type now (cs ! i))\<lparr>rc_last_seen := now\<rparr>"
    have "map rc_node (cs[i := ?e]) = map rc_node cs"
      by (rule mset_update_node [OF first_index_Some(1) [OF Some]]) (simp add: update_type_def Let_def)
    moreover have "cs' = push_to_bottom ?e (cs[i := ?e])" using m Some by (simp add: bin_mark_alive_def Let_def)
    ultimately show ?thesis by (metis mset_map mset_push_to_bottom)
  next
    case None
    then have "bin_mark_alive now key cs = (False, cs)" by (simp only: bin_mark_alive_def option.case)
    then show ?thesis using m by simp
  qed
  with ok show ?thesis using bin_ok_cong by blast
qed

lemma bin_ok_failed: "bin_ok own lv ix cs \<Longrightarrow> bin_mark_failed key cs = (b, cs') \<Longrightarrow> bin_ok own lv ix cs'"
proof -
  assume ok: "bin_ok own lv ix cs" and m: "bin_mark_failed key cs = (b, cs')"
  have "mset (map rc_node cs') = mset (map rc_node cs)"
  proof (cases "first_index (\<lambda>c. rc_key c = key) cs")
    case (Some i)
    obtain ev e where e: "checking_type ((cs ! i)\<lparr>rc_fails := rc_fails (cs ! i) + 1\<rparr>) = (ev, e)" by fastforce
    then have "rc_node e = rc_node (cs ! i)" by (auto simp: checking_type_def Let_def split: if_splits)
    then have "map rc_node (cs[i := e]) = map rc_node cs"
      by (rule mset_update_node [OF first_index_Some(1) [OF Some]])
    moreover have "cs' = cs[i := e]" using m Some e by (simp add: bin_mark_failed_def)
    ultimately show ?thesis by simp
  next
    case None
    then have "bin_mark_failed key cs = (False, cs)" by (simp only: bin_mark_failed_def option.case)
    then show ?thesis using m by simp
  qed
  with ok show ?thesis using bin_ok_cong by blast
qed

lemma bin_ok_remove: "bin_ok own lv ix cs \<Longrightarrow> bin_remove key cs = (b, cs') \<Longrightarrow> bin_ok own lv ix cs'"
proof -
  assume ok: "bin_ok own lv ix cs" and m: "bin_remove key cs = (b, cs')"
  have "bin_ok own lv ix (remove1 c cs)" for c
  proof -
    have "distinct (map f cs) \<Longrightarrow> distinct (map f (remove1 c cs))" for f :: "routing_contact \<Rightarrow> bytes"
      by (induction cs) (auto dest: notin_set_remove1 set_remove1_subset [THEN subsetD] simp: image_iff)
    moreover have "length (remove1 c cs) \<le> length cs" by (simp add: length_remove1)
    ultimately show ?thesis using ok set_remove1_subset [of c cs] by (auto simp: bin_ok_def)
  qed
  then show ?thesis using m ok by (auto simp: bin_remove_def split: option.splits)
qed


lemma bin_ok_new:
  assumes "length (kn_id n) = 16" and "prefix lv (kad_xor own (node_kid n)) = ix"
    and "bin_ok own lv ix cs" and "bin_add now c cs = Some cs'" and "rc_node c = n"
  shows "bin_ok own lv ix cs'"
proof (cases "first_index (\<lambda>e. kn_id (rc_node e) = kn_id (rc_node c)) cs")
  case (Some i)
  let ?e = "\<lparr>rc_node = rc_node c, rc_type = 0, rc_fails = 0, rc_last_seen = now\<rparr>"
  have i: "i < length cs" "kn_id (rc_node (cs ! i)) = kn_id (rc_node c)" using first_index_Some [OF Some] by simp_all
  have "map (\<lambda>c. kn_id (rc_node c)) (cs[i := ?e]) = map (\<lambda>c. kn_id (rc_node c)) cs"
    using i by (simp add: map_update list_update_same_conv)
  then have "bin_ok own lv ix (cs[i := ?e])"
    using assms(1-3,5) set_update_subset_insert [of cs i ?e] by (auto simp: bin_ok_def)
  moreover have "cs' = push_to_bottom ?e (cs[i := ?e])"
    using assms(4) Some by (simp add: bin_add_def Let_def)
  ultimately show ?thesis using bin_ok_cong [of cs' "cs[i := ?e]" own lv ix] by simp
next
  case None
  have "\<not> length cs \<ge> K_SIZE" "cs' = cs @ [c]"
    using assms(4) None by (simp_all add: bin_add_def split: if_splits)
  moreover have "kn_id (rc_node c) \<noteq> kn_id (rc_node d)" if "d \<in> set cs" for d
    using first_index_None [OF None that] by simp
  ultimately show ?thesis using assms(1-3,5) by (auto simp: bin_ok_def)
qed

lemma side_prefix:
  assumes "lv < 128"
  shows "prefix (lv + 1) (kad_xor own (node_kid n)) = 2 * prefix lv (kad_xor own (node_kid n)) + side_of own lv n"
  unfolding side_of_def by (rule prefix_Suc [OF assms])

lemma bin_ok_migrate:
  "lv < 128 \<Longrightarrow> (\<forall>c\<in>set cs. length (kn_id (rc_node c)) = 16 \<and> prefix lv (kad_xor own (node_kid (rc_node c))) = ix) \<Longrightarrow>
   bin_ok own (lv + 1) (2 * ix) b0 \<Longrightarrow> bin_ok own (lv + 1) (2 * ix + 1) b1 \<Longrightarrow>
   migrate now own lv cs (b0, b1) = (b0', b1') \<Longrightarrow>
   bin_ok own (lv + 1) (2 * ix) b0' \<and> bin_ok own (lv + 1) (2 * ix + 1) b1'"
proof (induction cs arbitrary: b0 b1)
  case (Cons c cs)
  have n: "length (kn_id (rc_node c)) = 16" "prefix lv (kad_xor own (node_kid (rc_node c))) = ix"
    using Cons.prems(2) by auto
  have sd: "side_of own lv (rc_node c) = 0 \<or> side_of own lv (rc_node c) = 1"
    unfolding side_of_def by (rule bit_at_level_01)
  have p: "prefix (lv + 1) (kad_xor own (node_kid (rc_node c))) = 2 * ix + side_of own lv (rc_node c)"
    using side_prefix [OF Cons.prems(1)] n by simp
  define x where "x b = (case bin_add now c b of Some b' \<Rightarrow> b' | None \<Rightarrow> b)" for b
  have ok: "bin_ok own (lv + 1) j (x b)" if "bin_ok own (lv + 1) j b"
      "prefix (lv + 1) (kad_xor own (node_kid (rc_node c))) = j" for j b
    using that bin_ok_new [OF n(1) that(2) that(1)] by (auto simp: x_def split: option.splits)
  show ?case
  proof (cases "side_of own lv (rc_node c) = 0")
    case True
    then show ?thesis
      using Cons.IH [of "x b0" b1] Cons.prems ok [of "2 * ix" b0] p by (simp add: x_def)
  next
    case False
    then show ?thesis
      using Cons.IH [of b0 "x b1"] Cons.prems ok [of "2 * ix + 1" b1] p sd by (simp add: x_def)
  qed
qed simp

lemma bin_ok_Nil [simp]: "bin_ok own lv ix []"
  by (simp add: bin_ok_def)

lemma bin_ok_split:
  assumes "lv < 128" and "bin_ok own lv ix cs" and "split_bin now own lv cs = (b0, b1)"
  shows "bin_ok own (lv + 1) (2 * ix) b0" and "bin_ok own (lv + 1) (2 * ix + 1) b1"
proof -
  have "\<forall>c\<in>set (bin_contacts cs). length (kn_id (rc_node c)) = 16 \<and> prefix lv (kad_xor own (node_kid (rc_node c))) = ix"
    using assms(2) by (simp add: bin_ok_def bin_contacts_def)
  then have "bin_ok own (lv + 1) (2 * ix) b0 \<and> bin_ok own (lv + 1) (2 * ix + 1) b1"
    using assms(1,3) by (intro bin_ok_migrate [where ?b0.0 = "[]" and ?b1.0 = "[]"]) (simp_all add: split_bin_def)
  then show "bin_ok own (lv + 1) (2 * ix) b0" "bin_ok own (lv + 1) (2 * ix + 1) b1" by simp_all
qed

lemma zone_ok_leaf_add:
  "lv \<le> 127 \<Longrightarrow> bin_ok own lv ix cs \<Longrightarrow> length (kn_id n) = 16 \<Longrightarrow> prefix lv (kad_xor own (node_kid n)) = ix \<Longrightarrow>
   leaf_add now own tot n lv ix cs = (ok, z) \<Longrightarrow> zone_ok own lv ix z"
proof (induction now own tot n lv ix cs arbitrary: ok z rule: leaf_add.induct)
  case (1 now own tot n lv ix cs)
  note n = 1(5) and p = 1(6) and b = 1(4) and lv = 1(3) and res = 1(7)
  have nc: "rc_node (new_contact n) = n" by (simp add: new_contact_def)
  show ?case
  proof (cases "bin_add now (new_contact n) cs")
    case (Some cs')
    then have "z = Leaf_Zone lv ix cs'" using res by (simp add: leaf_add.simps)
    then show ?thesis using bin_ok_new [OF n p b Some nc] lv by simp
  next
    case None
    show ?thesis
    proof (cases "can_split tot lv ix cs")
      case False
      then have "z = Leaf_Zone lv ix cs" using res None by (simp add: leaf_add.simps)
      then show ?thesis using b lv by simp
    next
      case True
      have lt: "lv < 127" using True by (auto simp: can_split_def MAX_ZONE_LEVEL_def split: if_splits)
      obtain b0 b1 where sp: "split_bin now own lv cs = (b0, b1)" by fastforce
      define tot' where "tot' = tot - length cs + (length b0 + length b1)"
      have cb: "bin_ok own (lv + 1) (2 * ix) b0" "bin_ok own (lv + 1) (2 * ix + 1) b1"
        using bin_ok_split [OF _ b sp] lt by simp_all
      have pn: "prefix (lv + 1) (kad_xor own (node_kid n)) = 2 * ix + side_of own lv n"
        using side_prefix [of lv own n] lt p by simp
      have sd: "side_of own lv n = 0 \<or> side_of own lv n = 1" unfolding side_of_def by (rule bit_at_level_01)
      show ?thesis
      proof (cases "side_of own lv n = 0")
        case True0: True
        obtain k z' where r: "leaf_add now own tot' n (lv + 1) (2 * ix) b0 = (k, z')" by fastforce
        have z: "z = Inner_Zone lv ix z' (Leaf_Zone (lv + 1) (2 * ix + 1) b1)"
          using res None True sp True0 r by (simp add: leaf_add.simps [of now own tot n lv ix cs] tot'_def)
        have "zone_ok own (lv + 1) (2 * ix) z'"
          using 1(1) [OF None True sp [symmetric] refl tot'_def True0, of k z'] lt cb n pn True0 r by simp
        then show ?thesis using z lt cb by simp
      next
        case False0: False
        obtain k z' where r: "leaf_add now own tot' n (lv + 1) (2 * ix + 1) b1 = (k, z')" by fastforce
        have z: "z = Inner_Zone lv ix (Leaf_Zone (lv + 1) (2 * ix) b0) z'"
          using res None True sp False0 r by (simp add: leaf_add.simps [of now own tot n lv ix cs] tot'_def)
        have "zone_ok own (lv + 1) (2 * ix + 1) z'"
          using 1(2) [OF None True sp [symmetric] refl tot'_def False0, of k z'] lt cb n pn sd False0 r by simp
        then show ?thesis using z lt cb by simp
      qed
    qed
  qed
qed

lemma zone_ok_level: "zone_ok own lv ix z \<Longrightarrow> z_level z = lv \<and> z_index z = ix"
  by (cases z) simp_all

lemma zone_ok_add_in:
  "zone_ok own lv ix z \<Longrightarrow> length (kn_id n) = 16 \<Longrightarrow> prefix lv (kad_xor own (node_kid n)) = ix \<Longrightarrow>
   zone_add_in now own tot n z = (ok, z') \<Longrightarrow> zone_ok own lv ix z'"
proof (induction z arbitrary: lv ix ok z')
  case (Leaf_Zone lv' ix' cs)
  then show ?case using zone_ok_leaf_add [of lv own ix cs n now tot ok z'] by simp
next
  case (Inner_Zone lv' ix' l r)
  have lv: "lv < 128" "lv' = lv" "ix' = ix" using Inner_Zone.prems by simp_all
  have p: "prefix (lv + 1) (kad_xor own (node_kid n)) = 2 * ix + side_of own lv n"
    using side_prefix [OF lv(1)] Inner_Zone.prems(3) by simp
  have sd: "side_of own lv n = 0 \<or> side_of own lv n = 1" unfolding side_of_def by (rule bit_at_level_01)
  obtain k1 l' where l: "zone_add_in now own tot n l = (k1, l')" by fastforce
  obtain k2 r' where r: "zone_add_in now own tot n r = (k2, r')" by fastforce
  show ?case
    using Inner_Zone.prems Inner_Zone.IH(1) [OF _ _ _ l, of "lv + 1" "2 * ix"]
      Inner_Zone.IH(2) [OF _ _ _ r, of "lv + 1" "2 * ix + 1"] p sd l r lv
    by (auto split: if_splits)
qed

lemma zone_ok_add:
  "zone_ok own 0 0 z \<Longrightarrow> length (kn_id n) = 16 \<Longrightarrow> zone_add now own n z = (ok, z') \<Longrightarrow> zone_ok own 0 0 z'"
  using zone_ok_add_in [of own 0 0 z n now "zone_size z" ok z'] by (simp add: zone_add_def prefix_0)

lemma zone_ok_mark_alive:
  "zone_ok own lv ix z \<Longrightarrow> zone_mark_alive now key z = (b, z') \<Longrightarrow> zone_ok own lv ix z'"
proof (induction z arbitrary: lv ix b z')
  case (Leaf_Zone lv' ix' cs)
  then show ?case using bin_ok_alive [of own lv ix cs now key] by (auto split: prod.splits)
next
  case (Inner_Zone lv' ix' l r)
  obtain b1 l' where l: "zone_mark_alive now key l = (b1, l')" by fastforce
  obtain b2 r' where r: "zone_mark_alive now key r = (b2, r')" by fastforce
  have "zone_ok own (lv + 1) (2 * ix) l" "zone_ok own (lv + 1) (2 * ix + 1) r" "lv < 127" "lv' = lv" "ix' = ix"
    using Inner_Zone.prems(1) by simp_all
  moreover from this have "zone_ok own (lv + 1) (2 * ix) l'" "zone_ok own (lv + 1) (2 * ix + 1) r'"
    using Inner_Zone.IH(1) [OF _ l] Inner_Zone.IH(2) [OF _ r] by blast+
  moreover have "z' = Inner_Zone lv' ix' l' r \<or> z' = Inner_Zone lv' ix' l' r'"
    using Inner_Zone.prems(2) l r by (cases b1) simp_all
  ultimately show ?case by auto
qed

lemma zone_ok_mark_failed:
  "zone_ok own lv ix z \<Longrightarrow> zone_mark_failed key z = (b, z') \<Longrightarrow> zone_ok own lv ix z'"
proof (induction z arbitrary: lv ix b z')
  case (Leaf_Zone lv' ix' cs)
  then show ?case using bin_ok_failed [of own lv ix cs key] by (auto split: prod.splits)
next
  case (Inner_Zone lv' ix' l r)
  obtain b1 l' where l: "zone_mark_failed key l = (b1, l')" by fastforce
  obtain b2 r' where r: "zone_mark_failed key r = (b2, r')" by fastforce
  have "zone_ok own (lv + 1) (2 * ix) l" "zone_ok own (lv + 1) (2 * ix + 1) r" "lv < 127" "lv' = lv" "ix' = ix"
    using Inner_Zone.prems(1) by simp_all
  moreover from this have "zone_ok own (lv + 1) (2 * ix) l'" "zone_ok own (lv + 1) (2 * ix + 1) r'"
    using Inner_Zone.IH(1) [OF _ l] Inner_Zone.IH(2) [OF _ r] by blast+
  moreover have "z' = Inner_Zone lv' ix' l' r \<or> z' = Inner_Zone lv' ix' l' r'"
    using Inner_Zone.prems(2) l r by (cases b1) simp_all
  ultimately show ?case by auto
qed

lemma zone_ok_remove:
  "zone_ok own lv ix z \<Longrightarrow> zone_remove key z = (b, z') \<Longrightarrow> zone_ok own lv ix z'"
proof (induction z arbitrary: lv ix b z')
  case (Leaf_Zone lv' ix' cs)
  then show ?case using bin_ok_remove [of own lv ix cs key] by (auto split: prod.splits)
next
  case (Inner_Zone lv' ix' l r)
  obtain b1 l' where l: "zone_remove key l = (b1, l')" by fastforce
  obtain b2 r' where r: "zone_remove key r = (b2, r')" by fastforce
  have "zone_ok own (lv + 1) (2 * ix) l" "zone_ok own (lv + 1) (2 * ix + 1) r" "lv < 127" "lv' = lv" "ix' = ix"
    using Inner_Zone.prems(1) by simp_all
  moreover from this have "zone_ok own (lv + 1) (2 * ix) l'" "zone_ok own (lv + 1) (2 * ix + 1) r'"
    using Inner_Zone.IH(1) [OF _ l] Inner_Zone.IH(2) [OF _ r] by blast+
  moreover have "z' = Inner_Zone lv' ix' l' r \<or> z' = Inner_Zone lv' ix' l' r'"
    using Inner_Zone.prems(2) l r by (cases b1) simp_all
  ultimately show ?case by auto
qed

section \<open>Reachable tables\<close>

text \<open>One call of the table's interface; the clock of each call is its own argument.\<close>

datatype zone_call = Z_Add real kad_node | Z_Alive real "string \<times> nat" | Z_Failed "string \<times> nat" | Z_Remove "string \<times> nat"

inductive zone_step :: "kad_id \<Rightarrow> zone \<Rightarrow> zone_call \<Rightarrow> bool \<Rightarrow> zone \<Rightarrow> bool" where
  add: "zone_add now own n z = (b, z') \<Longrightarrow> length (kn_id n) = 16 \<Longrightarrow> zone_step own z (Z_Add now n) b z'"
| alive: "zone_mark_alive now key z = (b, z') \<Longrightarrow> zone_step own z (Z_Alive now key) b z'"
| failed: "zone_mark_failed key z = (b, z') \<Longrightarrow> zone_step own z (Z_Failed key) b z'"
| remove: "zone_remove key z = (b, z') \<Longrightarrow> zone_step own z (Z_Remove key) b z'"

inductive zone_reach :: "kad_id \<Rightarrow> zone \<Rightarrow> bool" for own where
  init: "zone_reach own zone_new"
| step: "zone_reach own z \<Longrightarrow> zone_step own z c b z' \<Longrightarrow> zone_reach own z'"

lemma zone_step_ok: "zone_step own z c b z' \<Longrightarrow> zone_ok own 0 0 z \<Longrightarrow> zone_ok own 0 0 z'"
  by (induction rule: zone_step.induct)
    (auto intro: zone_ok_add zone_ok_mark_alive zone_ok_mark_failed zone_ok_remove)

lemma zone_reach_ok: "zone_reach own z \<Longrightarrow> zone_ok own 0 0 z"
  by (induction rule: zone_reach.induct) (auto simp: zone_new_def bin_ok_def K_SIZE_def prefix_def intro: zone_step_ok)

fun leaf_bins :: "zone \<Rightarrow> (nat \<times> nat \<times> bin) list" where
  "leaf_bins (Leaf_Zone lv ix cs) = [(lv, ix, cs)]"
| "leaf_bins (Inner_Zone lv ix l r) = leaf_bins l @ leaf_bins r"

lemma zone_ok_bins: "zone_ok own lv ix z \<Longrightarrow> (l, i, cs) \<in> set (leaf_bins z) \<Longrightarrow> l \<le> 127 \<and> bin_ok own l i cs"
  by (induction z arbitrary: lv ix) auto

lemma zone_ok_distinct:
  "zone_ok own lv ix z \<Longrightarrow> distinct (map (\<lambda>c. kn_id (rc_node c)) (zone_contacts z))"
proof (induction z arbitrary: lv ix)
  case (Leaf_Zone lv' ix' cs)
  then show ?case by (simp add: bin_ok_def bin_contacts_def rev_map [symmetric])
next
  case (Inner_Zone lv' ix' l r)
  have "kn_id (rc_node c) \<noteq> kn_id (rc_node d)" if "c \<in> set (zone_contacts l)" "d \<in> set (zone_contacts r)" for c d
  proof -
    have "prefix (lv + 1) (kad_xor own (node_kid (rc_node c))) \<noteq> prefix (lv + 1) (kad_xor own (node_kid (rc_node d)))"
      using zone_ok_prefix [of own "lv + 1" "2 * ix" l c] zone_ok_prefix [of own "lv + 1" "2 * ix + 1" r d]
        Inner_Zone.prems that by simp
    then show ?thesis by (auto simp: node_kid_def)
  qed
  then show ?case using Inner_Zone by auto
qed

text \<open>
  C26. In every routing table reachable from the empty one by adding nodes (with identifiers of 16
  bytes), confirming, failing and removing contacts, in any order and at any times: every bucket
  holds at most ten contacts, all of them with the distance prefix of the bucket's zone, no zone is
  deeper than 127, and no identifier occurs twice in the whole table.
\<close>

theorem routing_table_invariant:
  assumes "zone_reach own z"
  shows "distinct (map kn_id (all_contacts z)) \<and>
    list_all (\<lambda>(lv, ix, cs). lv \<le> 127 \<and> length cs \<le> K_SIZE \<and>
      list_all (\<lambda>c. prefix lv (kad_xor own (node_kid (rc_node c))) = ix) cs) (leaf_bins z)"
  using zone_ok_distinct [OF zone_reach_ok [OF assms]] zone_ok_bins [OF zone_reach_ok [OF assms]]
  by (auto simp: all_contacts_def comp_def list_all_iff bin_ok_def)

lemma closest_is_nearest_witness:
  "let c = (\<lambda>i. new_contact \<lparr>kn_id = replicate 15 0 @ [i], kn_ip = ''1.2.3.4'', kn_udp_port = 1, kn_tcp_port = 2,
       kn_version = 8, kn_verified = False, kn_udp_key = 0\<rparr>);
     z = Leaf_Zone 0 0 [c 1, c 2] in
   \<exists>cs. mset cs = mset (zone_contacts z) \<and> sorted (map (target_dist 7) cs) \<and>
     closest 5 7 1 z = map rc_node (take 1 cs)"
  unfolding Let_def
  by (rule closest_is_nearest) (simp add: bin_ok_def K_SIZE_def prefix_0 new_contact_def)

lemma routing_table_invariant_witness:
  "let n = \<lparr>kn_id = replicate 15 0 @ [3], kn_ip = ''1.2.3.4'', kn_udp_port = 1, kn_tcp_port = 2,
       kn_version = 8, kn_verified = False, kn_udp_key = 0\<rparr>;
     z = snd (zone_add 1 5 n zone_new) in
   distinct (map kn_id (all_contacts z)) \<and>
    list_all (\<lambda>(lv, ix, cs). lv \<le> 127 \<and> length cs \<le> K_SIZE \<and>
      list_all (\<lambda>c. prefix lv (kad_xor 5 (node_kid (rc_node c))) = ix) cs) (leaf_bins z)"
  unfolding Let_def
  by (rule routing_table_invariant, rule zone_reach.step [OF zone_reach.init], rule zone_step.add)
    (rule prod.collapse [symmetric], simp)

section \<open>Nothing is lost, and a young table refuses nobody\<close>

lemma bin_add_fresh:
  "\<forall>e\<in>set cs. kn_id (rc_node e) \<noteq> kn_id (rc_node c) \<Longrightarrow> length cs < K_SIZE \<Longrightarrow> bin_add now c cs = Some (cs @ [c])"
  by (auto simp: bin_add_def first_index_def Let_def takeWhile_eq_all_conv [THEN iffD2])

lemma migrate_mset:
  "distinct (map (\<lambda>c. kn_id (rc_node c)) (cs @ b0 @ b1)) \<Longrightarrow> length cs + length b0 + length b1 \<le> K_SIZE \<Longrightarrow>
   migrate now own lv cs (b0, b1) = (b0', b1') \<Longrightarrow> mset b0' + mset b1' = mset cs + mset b0 + mset b1"
proof (induction cs arbitrary: b0 b1)
  case (Cons c cs)
  have f0: "bin_add now c b0 = Some (b0 @ [c])" and f1: "bin_add now c b1 = Some (b1 @ [c])"
    using Cons.prems(1,2) by (auto intro!: bin_add_fresh simp: image_iff)
  show ?case
  proof (cases "side_of own lv (rc_node c) = 0")
    case True
    then have m: "migrate now own lv cs (b0 @ [c], b1) = (b0', b1')" using Cons.prems(3) f0 by simp
    show ?thesis using Cons.IH [OF _ _ m] Cons.prems(1,2) by auto
  next
    case False
    then have m: "migrate now own lv cs (b0, b1 @ [c]) = (b0', b1')" using Cons.prems(3) f1 by simp
    show ?thesis using Cons.IH [OF _ _ m] Cons.prems(1,2) by auto
  qed
qed simp

lemma split_bin_mset:
  assumes "bin_ok own lv ix cs" and "split_bin now own lv cs = (b0, b1)"
  shows "mset b0 + mset b1 = mset cs"
proof -
  have "distinct (map (\<lambda>c. kn_id (rc_node c)) (bin_contacts cs @ [] @ []))" "length (bin_contacts cs) + length ([] :: bin) + length ([] :: bin) \<le> K_SIZE"
    using assms(1) by (simp_all add: bin_ok_def bin_contacts_def rev_map [symmetric])
  from migrate_mset [OF this] assms(2) show ?thesis
    unfolding split_bin_def bin_contacts_def by fastforce
qed

text \<open>The contacts whose identifier is not \<open>i\<close>.\<close>

definition others :: "bytes \<Rightarrow> bin \<Rightarrow> routing_contact multiset" where
  "others i cs = mset (filter (\<lambda>c. kn_id (rc_node c) \<noteq> i) cs)"

lemma others_alt: "others i cs = filter_mset (\<lambda>c. kn_id (rc_node c) \<noteq> i) (mset cs)"
  by (simp add: others_def mset_filter)

lemma bin_add_others:
  assumes "bin_add now c cs = Some cs'"
  shows "others (kn_id (rc_node c)) cs' = others (kn_id (rc_node c)) cs \<and> rc_node c \<in> rc_node ` set cs'"
proof (cases "first_index (\<lambda>e. kn_id (rc_node e) = kn_id (rc_node c)) cs")
  case (Some i)
  let ?e = "\<lparr>rc_node = rc_node c, rc_type = 0, rc_fails = 0, rc_last_seen = now\<rparr>"
  have i: "i < length cs" "kn_id (rc_node (cs ! i)) = kn_id (rc_node c)" using first_index_Some [OF Some] by simp_all
  have eq: "cs' = push_to_bottom ?e (cs[i := ?e])" using assms Some by (simp add: bin_add_def Let_def)
  have m: "mset cs' = mset (cs[i := ?e])" by (simp add: eq)
  have "cs = take i cs @ cs ! i # drop (Suc i) cs" using i(1) by (rule id_take_nth_drop)
  then have "mset cs = mset (take i cs) + {#cs ! i#} + mset (drop (Suc i) cs)"
    by (metis add_mset_add_single mset.simps(2) mset_append union_mset_add_mset_left union_mset_add_mset_right)
  moreover have "mset (cs[i := ?e]) = mset (take i cs) + {#?e#} + mset (drop (Suc i) cs)"
    using upd_conv_take_nth_drop [OF i(1), of ?e] by simp
  ultimately have oth: "others (kn_id (rc_node c)) (cs[i := ?e]) = others (kn_id (rc_node c)) cs"
    unfolding others_alt by (simp only: filter_union_mset) (simp add: i(2))
  have "?e \<in> set (cs[i := ?e])" using i(1) by (simp add: set_update_memI)
  then have "?e \<in> set cs'" using mset_eq_setD [OF m] by simp
  then have "rc_node c \<in> rc_node ` set cs'" by (metis image_eqI routing_contact.select_convs(1))
  with oth show ?thesis using m by (simp add: others_alt)
next
  case None
  then have "cs' = cs @ [c]" using assms by (simp add: bin_add_def split: if_splits)
  then show ?thesis by (simp add: others_def)
qed

lemma others_app: "others i (a @ b) = others i a + others i b"
  by (simp add: others_def)

lemma others_contacts: "others i (zone_contacts (Leaf_Zone lv ix cs)) = others i cs"
  by (simp add: others_alt bin_contacts_def)

definition add_effect :: "kad_node \<Rightarrow> bool \<Rightarrow> bin \<Rightarrow> bin \<Rightarrow> bool" where
  "add_effect n ok cs cs' \<longleftrightarrow> others (kn_id n) cs' = others (kn_id n) cs \<and>
     (ok \<longrightarrow> n \<in> rc_node ` set cs') \<and> (\<not> ok \<longrightarrow> mset cs' = mset cs)"

lemma add_effect_app: "add_effect n ok a a' \<Longrightarrow> add_effect n ok (a @ b) (a' @ b) \<and> add_effect n ok (b @ a) (b @ a')"
  by (auto simp: add_effect_def others_app)

lemma add_effect_cong: "add_effect n ok a b \<Longrightarrow> mset a = mset a' \<Longrightarrow> add_effect n ok a' b"
  by (simp add: add_effect_def others_alt)

lemma leaf_add_effect:
  "lv \<le> 127 \<Longrightarrow> bin_ok own lv ix cs \<Longrightarrow> leaf_add now own tot n lv ix cs = (ok, z) \<Longrightarrow> add_effect n ok cs (zone_contacts z)"
proof (induction now own tot n lv ix cs arbitrary: ok z rule: leaf_add.induct)
  case (1 now own tot n lv ix cs)
  note b = 1(4) and lv = 1(3) and res = 1(5)
  have nc: "rc_node (new_contact n) = n" by (simp add: new_contact_def)
  show ?case
  proof (cases "bin_add now (new_contact n) cs")
    case (Some cs')
    then have "z = Leaf_Zone lv ix cs'" "ok" using res by (simp_all add: leaf_add.simps)
    then show ?thesis using bin_add_others [OF Some] by (simp add: add_effect_def others_alt bin_contacts_def nc)
  next
    case None
    show ?thesis
    proof (cases "can_split tot lv ix cs")
      case False
      then have "z = Leaf_Zone lv ix cs" "\<not> ok" using res None by (simp_all add: leaf_add.simps)
      then show ?thesis by (simp add: add_effect_def others_alt bin_contacts_def)
    next
      case True
      have lt: "lv < 127" using True by (auto simp: can_split_def MAX_ZONE_LEVEL_def split: if_splits)
      obtain b0 b1 where sp: "split_bin now own lv cs = (b0, b1)" by fastforce
      define tot' where "tot' = tot - length cs + (length b0 + length b1)"
      have cb: "bin_ok own (lv + 1) (2 * ix) b0" "bin_ok own (lv + 1) (2 * ix + 1) b1"
        using bin_ok_split [OF _ b sp] lt by simp_all
      have ms: "mset (b0 @ b1) = mset cs" using split_bin_mset [OF b sp] by simp
      show ?thesis
      proof (cases "side_of own lv n = 0")
        case True0: True
        obtain k z' where r: "leaf_add now own tot' n (lv + 1) (2 * ix) b0 = (k, z')" by fastforce
        have z: "z = Inner_Zone lv ix z' (Leaf_Zone (lv + 1) (2 * ix + 1) b1)" "ok = k"
          using res None True sp True0 r by (simp_all add: leaf_add.simps [of now own tot n lv ix cs] tot'_def)
        have "add_effect n k b0 (zone_contacts z')"
          using 1(1) [OF None True sp [symmetric] refl tot'_def True0, of k z'] lt cb True0 r by simp
        then have "add_effect n k cs (zone_contacts z' @ b1)" using add_effect_app add_effect_cong ms by blast
        then show ?thesis using z by (simp add: add_effect_def others_alt bin_contacts_def)
      next
        case False0: False
        obtain k z' where r: "leaf_add now own tot' n (lv + 1) (2 * ix + 1) b1 = (k, z')" by fastforce
        have z: "z = Inner_Zone lv ix (Leaf_Zone (lv + 1) (2 * ix) b0) z'" "ok = k"
          using res None True sp False0 r by (simp_all add: leaf_add.simps [of now own tot n lv ix cs] tot'_def)
        have "add_effect n k b1 (zone_contacts z')"
          using 1(2) [OF None True sp [symmetric] refl tot'_def False0, of k z'] lt cb False0 r by simp
        then have "add_effect n k cs (b0 @ zone_contacts z')" using add_effect_app add_effect_cong ms by blast
        then show ?thesis using z by (simp add: add_effect_def others_alt bin_contacts_def)
      qed
    qed
  qed
qed

lemma add_in_effect:
  "zone_ok own lv ix z \<Longrightarrow> zone_add_in now own tot n z = (ok, z') \<Longrightarrow> add_effect n ok (zone_contacts z) (zone_contacts z')"
proof (induction z arbitrary: lv ix ok z')
  case (Leaf_Zone lv' ix' cs)
  then have "add_effect n ok cs (zone_contacts z')" using leaf_add_effect [of lv own ix cs now tot n ok z'] by simp
  then show ?case by (simp add: add_effect_cong bin_contacts_def)
next
  case (Inner_Zone lv' ix' l r)
  have sub: "zone_ok own (lv + 1) (2 * ix) l" "zone_ok own (lv + 1) (2 * ix + 1) r" using Inner_Zone.prems by simp_all
  obtain k1 l' where l: "zone_add_in now own tot n l = (k1, l')" by fastforce
  obtain k2 r' where r: "zone_add_in now own tot n r = (k2, r')" by fastforce
  show ?case
    using Inner_Zone.prems(2) l r add_effect_app [OF Inner_Zone.IH(1) [OF sub(1) l]] add_effect_app [OF Inner_Zone.IH(2) [OF sub(2) r]]
    by (auto split: if_splits)
qed

lemma node_kid_inj:
  assumes "length (kn_id a) = 16" and "length (kn_id b) = 16" and "node_kid a = node_kid b"
  shows "kn_id a = kn_id b"
proof -
  obtain v w where v: "kn_id a = kad_to_bytes v" and w: "kn_id b = kad_to_bytes w"
    using kad_bytes_id assms(1,2) by blast
  then have "v = w" using assms(3) by (simp add: node_kid_def kad_of_to_bytes)
  then show ?thesis using v w by simp
qed

text \<open>At the deepest level a zone has room for two identifiers only.\<close>

lemma bin_127:
  assumes "bin_ok own 127 ix cs"
  shows "length cs \<le> 2"
proof -
  let ?f = "\<lambda>c. unat (kad_xor own (node_kid (rc_node c)))"
  have x: "?f c \<in> {2 * ix, 2 * ix + 1}" if "c \<in> set cs" for c
  proof -
    have "?f c div 2 = ix" using assms that by (simp add: bin_ok_def prefix_def)
    then show ?thesis by simp presburger
  qed
  have "distinct (map ?f cs)"
  proof -
    have d: "distinct (map (\<lambda>c. kn_id (rc_node c)) cs)" and l: "\<forall>c\<in>set cs. length (kn_id (rc_node c)) = 16"
      using assms by (simp_all add: bin_ok_def)
    have "kn_id (rc_node a) = kn_id (rc_node b)" if "a \<in> set cs" "b \<in> set cs" "?f a = ?f b" for a b
    proof -
      have "xor own (node_kid (rc_node a)) = xor own (node_kid (rc_node b))"
        using that(3) unfolding kad_xor_def word_unat_eq_iff .
      moreover have "xor own (xor own x) = x" for x :: kad_id by (simp flip: xor.assoc)
      ultimately have "node_kid (rc_node a) = node_kid (rc_node b)" by metis
      then show ?thesis using node_kid_inj l that(1,2) by blast
    qed
    then show ?thesis using d unfolding distinct_map inj_on_def by blast
  qed
  then have "length cs = card (set (map ?f cs))" by (metis distinct_card length_map)
  also have "\<dots> \<le> card {2 * ix, 2 * ix + 1}" using x by (intro card_mono) auto
  also have "\<dots> \<le> 2" by (simp add: card_insert_le_m1)
  finally show ?thesis .
qed

lemma bin_add_None:
  assumes "bin_ok own lv ix cs" and "bin_add now c cs = None"
  shows "length cs = K_SIZE"
  using assms by (auto simp: bin_add_def bin_ok_def Let_def split: option.splits if_splits)

lemma leaf_add_young:
  "lv \<le> 127 \<Longrightarrow> bin_ok own lv ix cs \<Longrightarrow> tot < BOOTSTRAP_NODE_COUNT \<Longrightarrow> fst (leaf_add now own tot n lv ix cs)"
proof (induction now own tot n lv ix cs rule: leaf_add.induct)
  case (1 now own tot n lv ix cs)
  note b = 1(4) and lv = 1(3) and tot = 1(5)
  show ?case
  proof (cases "bin_add now (new_contact n) cs")
    case (Some cs')
    then show ?thesis by (simp add: leaf_add.simps)
  next
    case None
    have full: "length cs = K_SIZE" by (rule bin_add_None [OF b None])
    have "lv \<noteq> 127" using bin_127 [of own ix cs] b full by (auto simp: K_SIZE_def)
    then have sp: "can_split tot lv ix cs" using lv full tot by (simp add: can_split_def MAX_ZONE_LEVEL_def)
    obtain b0 b1 where e: "split_bin now own lv cs = (b0, b1)" by fastforce
    have cb: "bin_ok own (lv + 1) (2 * ix) b0" "bin_ok own (lv + 1) (2 * ix + 1) b1"
      using bin_ok_split [OF _ b e] lv by simp_all
    have "length b0 + length b1 = length cs"
      using split_bin_mset [OF b e] by (metis size_mset size_union)
    then have t: "tot - length cs + (length b0 + length b1) < BOOTSTRAP_NODE_COUNT"
      using tot full by (simp add: K_SIZE_def BOOTSTRAP_NODE_COUNT_def)
    define tot' where "tot' = tot - length cs + (length b0 + length b1)"
    note ih = 1(1) [OF None sp e [symmetric] refl tot'_def] 1(2) [OF None sp e [symmetric] refl tot'_def]
    show ?thesis
    proof (cases "side_of own lv n = 0")
      case True
      then show ?thesis using ih(1) [OF True] cb t lv \<open>lv \<noteq> 127\<close>
        by (simp add: leaf_add.simps [of now own tot n lv ix cs] None sp e tot'_def case_prod_unfold)
    next
      case False
      then show ?thesis using ih(2) [OF False] cb t lv \<open>lv \<noteq> 127\<close>
        by (simp add: leaf_add.simps [of now own tot n lv ix cs] None sp e tot'_def case_prod_unfold)
    qed
  qed
qed

lemma add_in_young:
  "zone_ok own lv ix z \<Longrightarrow> tot < BOOTSTRAP_NODE_COUNT \<Longrightarrow> fst (zone_add_in now own tot n z)"
proof (induction z arbitrary: lv ix)
  case (Leaf_Zone lv' ix' cs)
  then show ?case using leaf_add_young [of lv own ix cs tot now n] by simp
next
  case (Inner_Zone lv' ix' l r)
  have "fst (zone_add_in now own tot n l)" "fst (zone_add_in now own tot n r)"
    using Inner_Zone by auto
  then show ?case by (cases "zone_add_in now own tot n l"; cases "zone_add_in now own tot n r") simp
qed

text \<open>
  C27. Adding a node to a reachable table loses nobody: the contacts with other identifiers are the
  same before and after, a reported success means the node is in the table, and a refusal leaves
  the contacts unchanged. While the table holds fewer than 2000 contacts no node is refused:
  whatever the identifiers are, splitting the bucket makes room before the level limit is reached.
\<close>

theorem routing_add_conserves:
  assumes "zone_reach own z" and "zone_add now own n z = (ok, z')"
  shows "others (kn_id n) (zone_contacts z') = others (kn_id n) (zone_contacts z) \<and>
    (if ok then n \<in> set (all_contacts z') else mset (zone_contacts z') = mset (zone_contacts z)) \<and>
    (ok \<or> BOOTSTRAP_NODE_COUNT \<le> zone_size z)"
proof -
  have z: "zone_ok own 0 0 z" by (rule zone_reach_ok [OF assms(1)])
  have a: "zone_add_in now own (zone_size z) n z = (ok, z')" using assms(2) by (simp add: zone_add_def)
  show ?thesis
    using add_in_effect [OF z a] add_in_young [OF z, of "zone_size z" now n] a
    by (auto simp: add_effect_def all_contacts_def not_less [symmetric])
qed

lemma routing_add_conserves_witness:
  "let n = \<lparr>kn_id = replicate 15 0 @ [3], kn_ip = ''1.2.3.4'', kn_udp_port = 1, kn_tcp_port = 2,
       kn_version = 8, kn_verified = False, kn_udp_key = 0\<rparr>;
     ok = fst (zone_add 1 5 n zone_new); z' = snd (zone_add 1 5 n zone_new) in
   others (kn_id n) (zone_contacts z') = others (kn_id n) (zone_contacts zone_new) \<and>
    (if ok then n \<in> set (all_contacts z') else mset (zone_contacts z') = mset (zone_contacts zone_new)) \<and>
    (ok \<or> BOOTSTRAP_NODE_COUNT \<le> zone_size zone_new)"
  unfolding Let_def
  by (rule routing_add_conserves [OF zone_reach.init prod.collapse [symmetric]])

end
