(* ===== verification/Packet_Codec.thy ===== *)
theory Packet_Codec
  imports Tag_Codec
begin

text \<open>
  \<open>core/codec/packet.py\<close> and \<open>core/codec/zlib_compat.py\<close>: the ED2K packet frame (protocol
  byte, length that counts the opcode, opcode, payload) and the packed packets whose
  payload is zlib-compressed. The zlib library itself is the record \<open>zlib\<close> of the three
  calls the source makes: \<open>zlib.compress\<close>, \<open>zlib.decompress\<close> and the bounded
  \<open>decompressobj\<close> run, which returns the output and whether the stream ended.
\<close>

section \<open>zlib wrappers\<close>

record zlib =
  z_compress :: "bytes \<Rightarrow> int \<Rightarrow> bytes"
  z_decompress :: "bytes \<Rightarrow> bytes res"
  z_decompressobj :: "bytes \<Rightarrow> nat \<Rightarrow> (bytes \<times> bool) res"

definition compress_payload :: "zlib \<Rightarrow> bytes \<Rightarrow> int \<Rightarrow> bytes res" where
  "compress_payload z d level =
     (if \<not> (0 \<le> level \<and> level \<le> 9) then Inl ValueError else Inr (z_compress z d level))"

definition decompress_payload :: "zlib \<Rightarrow> bytes \<Rightarrow> int option \<Rightarrow> bytes res" where
  "decompress_payload z d max_size =
     (case max_size of
        None \<Rightarrow> z_decompress z d
      | Some m \<Rightarrow>
          (if m < 0 then Inl ValueError
           else (case z_decompressobj z d (nat m + 1) of
                   Inl e \<Rightarrow> Inl (if e = ZlibError then ValueError else e)
                 | Inr (out, eof) \<Rightarrow>
                     (if int (length out) > m then Inl ValueError
                      else if \<not> eof then Inl ValueError
                      else Inr out))))"

section \<open>Packets\<close>

record packet =
  p_protocol :: int
  p_opcode :: int
  p_payload :: bytes

definition mk_packet :: "int \<Rightarrow> int \<Rightarrow> bytes \<Rightarrow> packet res" where
  "mk_packet pr oc pl =
     (if \<not> (0 \<le> pr \<and> pr \<le> 0xFF) then Inl PacketError
      else if \<not> (0 \<le> oc \<and> oc \<le> 0xFF) then Inl PacketError
      else Inr \<lparr>p_protocol = pr, p_opcode = oc, p_payload = pl\<rparr>)"

definition packet_ok :: "packet \<Rightarrow> bool" where
  "packet_ok p \<longleftrightarrow> 0 \<le> p_protocol p \<and> p_protocol p \<le> 0xFF \<and> 0 \<le> p_opcode p \<and> p_opcode p \<le> 0xFF"

definition header_size :: nat where "header_size = 6"
definition max_decompressed_size :: nat where "max_decompressed_size = 16 * 1024 * 1024"

definition header_bytes :: "int \<Rightarrow> int \<Rightarrow> nat \<Rightarrow> bytes res" where
  "header_bytes pr oc payload_size =
     (let packet_length = payload_size + 1 in
      if packet_length > 0xFFFFFFFF then Inl PacketError
      else Inr ([word_of_int pr] @ le_enc 4 packet_length @ [word_of_int oc]))"

definition encode_packet :: "packet \<Rightarrow> bytes res" where
  "encode_packet p =
     bindE (header_bytes (p_protocol p) (p_opcode p) (length (p_payload p)))
       (\<lambda>h. Inr (h @ p_payload p))"

definition decode_packet :: "bytes \<Rightarrow> (packet \<times> bytes) res" where
  "decode_packet raw =
     (if length raw < header_size then Inl PacketError
      else
        let protocol = int (unat (raw ! 0)); packet_length = le_dec (py_slice 1 5 raw) in
        if packet_length < 1 then Inl PacketError
        else
          let payload_size = packet_length - 1; opcode = int (unat (raw ! 5));
              fin = header_size + payload_size in
          if length raw < fin then Inl PacketError
          else bindE (mk_packet protocol opcode (py_slice header_size fin raw))
                 (\<lambda>p. Inr (p, drop fin raw)))"

definition packed_protocol :: "int \<Rightarrow> int" where
  "packed_protocol pr = (if pr = KAD then KADEMLIAPACKED else PACKED)"

definition unpacked_protocol :: "int \<Rightarrow> int" where
  "unpacked_protocol pr = (if pr = KADEMLIAPACKED then KAD else EDONKEY)"

definition pack_packet :: "zlib \<Rightarrow> packet \<Rightarrow> int \<Rightarrow> bytes res" where
  "pack_packet z p level =
     bindE (compress_payload z (p_payload p) level) (\<lambda>c.
       if length c \<ge> length (p_payload p) then encode_packet p
       else bindE (mk_packet (packed_protocol (p_protocol p)) (p_opcode p) c) encode_packet)"

definition unpack_packet :: "zlib \<Rightarrow> bytes \<Rightarrow> (packet \<times> bytes) res" where
  "unpack_packet z d =
     bindE (decode_packet d) (\<lambda>(p, remainder).
       if p_protocol p \<noteq> PACKED \<and> p_protocol p \<noteq> KADEMLIAPACKED then Inr (p, remainder)
       else if p_payload p = [] then Inl PacketError
       else (case decompress_payload z (p_payload p) (Some (int max_decompressed_size)) of
               Inl e \<Rightarrow> Inl (if is_value_error e then PacketError else e)
             | Inr out \<Rightarrow>
                 (if out = [] then Inl PacketError
                  else bindE (mk_packet (unpacked_protocol (p_protocol p)) (p_opcode p) out)
                         (\<lambda>q. Inr (q, remainder)))))"

section \<open>Framing\<close>

lemma encode_packet_Inr:
  "encode_packet p = Inr e \<longleftrightarrow> length (p_payload p) + 1 < 2 ^ 32 \<and>
   e = [word_of_int (p_protocol p)] @ le_enc 4 (length (p_payload p) + 1) @
       [word_of_int (p_opcode p)] @ p_payload p"
  by (auto simp: encode_packet_def header_bytes_def Let_def)

lemma encode_packet_length: "encode_packet p = Inr e \<Longrightarrow> length (p_payload p) + 1 < 2 ^ 32"
  by (simp add: encode_packet_Inr)

lemma packet_shape:
  "length lb = 4 \<Longrightarrow> raw = [a] @ lb @ [b] @ pl \<Longrightarrow>
   raw ! 0 = a \<and> py_slice 1 5 raw = lb \<and> raw ! 5 = b \<and> drop 6 raw = pl \<and> length raw = 6 + length pl"
  by (auto simp: py_slice_def nth_append)

lemma decode_encode_append:
  assumes ok: "packet_ok p" and e: "encode_packet p = Inr e"
  shows "decode_packet (e @ suf) = Inr (p, suf)"
proof -
  let ?n = "length (p_payload p)"
  from e have n: "?n + 1 < 256 ^ 4"
    and e': "e @ suf = [word_of_int (p_protocol p)] @ le_enc 4 (?n + 1) @ [word_of_int (p_opcode p)]
      @ (p_payload p @ suf)"
    by (simp_all add: encode_packet_Inr)
  note s = packet_shape [OF length_le_enc e']
  have b: "uint (word_of_int (p_protocol p) :: byte) = p_protocol p"
    "uint (word_of_int (p_opcode p) :: byte) = p_opcode p"
    using ok by (auto simp: packet_ok_def uint_byte_of_int)
  have d6: "drop 6 (e @ suf) = p_payload p @ suf" using s by blast
  have sl: "py_slice 6 (6 + ?n) (e @ suf) = p_payload p"
    by (simp only: py_slice_def d6) simp
  have dr: "drop (6 + ?n) (e @ suf) = suf"
  proof -
    have "drop (6 + ?n) (e @ suf) = drop ?n (drop 6 (e @ suf))"
      by (simp only: drop_drop add.commute)
    also have "\<dots> = suf" by (simp only: d6) simp
    finally show ?thesis .
  qed
  have le: "le_dec (py_slice 1 5 (e @ suf)) = ?n + 1"
    using s le_dec_le_enc [OF n] by simp
  have lr: "length (e @ suf) = 6 + ?n + length suf" using s by simp
  show ?thesis
    unfolding decode_packet_def Let_def header_size_def le lr
    using s b sl dr ok by (simp add: mk_packet_def packet_ok_def)
qed


interpretation pkt: wire_codec "\<lambda>p. case encode_packet p of Inr e \<Rightarrow> e | Inl _ \<Rightarrow> []" decode_packet "\<lambda>p. p"
    "\<lambda>d. d" "\<lambda>d. True" "\<lambda>p. packet_ok p \<and> length (p_payload p) + 1 < 2 ^ 32"
proof unfold_locales
  fix p :: packet and d suf :: bytes
  assume ok: "packet_ok p \<and> length (p_payload p) + 1 < 2 ^ 32"
    and d: "d = (case encode_packet p of Inr e \<Rightarrow> e | Inl _ \<Rightarrow> []) @ suf"
  from ok obtain e where e: "encode_packet p = Inr e"
    by (simp add: encode_packet_def header_bytes_def)
  show "\<exists>s'. decode_packet d = Inr (p, s') \<and> True \<and> s' = suf"
    using decode_encode_append [OF _ e, of suf] ok d e by simp
qed

text \<open>
  C3. A stream of packets written back to back is cut into exactly those packets, in order,
  and whatever follows them is left over.
\<close>

theorem packet_stream_roundtrip:
  assumes "mapE encode_packet ps = Inr es" and "list_all packet_ok ps"
  shows "read_n decode_packet (length ps) (concat es @ suf) = Inr (ps, suf)"
proof -
  have es: "es = map (\<lambda>p. case encode_packet p of Inr e \<Rightarrow> e | Inl _ \<Rightarrow> []) ps \<and>
      list_all (\<lambda>p. packet_ok p \<and> length (p_payload p) + 1 < 2 ^ 32) ps"
    using assms
  proof (induction ps arbitrary: es)
    case (Cons p ps)
    then show ?case by (auto simp: bindE_eq_Inr_conv dest: encode_packet_length)
  qed simp
  from pkt.read_n_put [of ps "concat es @ suf" suf] es show ?thesis by simp
qed

theorem packet_stream_roundtrip_witness:
  "read_n decode_packet (length [\<lparr>p_protocol = EDONKEY, p_opcode = 1, p_payload = [7, 8]\<rparr>,
      \<lparr>p_protocol = EMULE, p_opcode = 2, p_payload = []\<rparr>])
     (concat [[0xE3, 3, 0, 0, 0, 1, 7, 8], [0xC5, 1, 0, 0, 0, 2]] @ [9]) =
   Inr ([\<lparr>p_protocol = EDONKEY, p_opcode = 1, p_payload = [7, 8]\<rparr>,
      \<lparr>p_protocol = EMULE, p_opcode = 2, p_payload = []\<rparr>], [9])"
  by (rule packet_stream_roundtrip)
    (simp_all add: encode_packet_def header_bytes_def EDONKEY_def EMULE_def packet_ok_def eval_simps)

lemma le_enc_4_split: "length raw \<ge> 6 \<Longrightarrow>
   raw = [raw ! 0] @ py_slice 1 5 raw @ [raw ! 5] @ drop 6 raw"
proof -
  assume l: "length raw \<ge> 6"
  then obtain a b c d e f t where "raw = a # b # c # d # e # f # t"
    by (auto simp: numeral_eq_Suc Suc_le_length_iff)
  then show ?thesis by (simp add: py_slice_def)
qed

text \<open>
  Truncated or zero-length frames are errors, never a short packet: a decoded packet is
  byte for byte the frame at the head of the data.
\<close>

theorem decode_packet_exact:
  assumes "decode_packet raw = Inr (p, remainder)"
  shows "packet_ok p \<and> (\<exists>e. encode_packet p = Inr e \<and> raw = e @ remainder)"
proof -
  let ?n = "le_dec (py_slice 1 5 raw)"
  have h: "6 \<le> length raw" "1 \<le> ?n" "6 + (?n - 1) \<le> length raw"
    "p = \<lparr>p_protocol = int (unat (raw ! 0)), p_opcode = int (unat (raw ! 5)),
      p_payload = py_slice 6 (6 + (?n - 1)) raw\<rparr>" "remainder = drop (6 + (?n - 1)) raw"
    using assms by (auto simp: decode_packet_def header_size_def Let_def mk_packet_def
        bindE_eq_Inr_conv split: if_splits)
  have l4: "length (py_slice 1 5 raw) = 4" using h(1) by simp
  have lp: "length (p_payload p) + 1 = ?n"
    using h by simp
  have b: "?n < 2 ^ 32" using le_dec_bound [of "py_slice 1 5 raw"] l4 by simp
  have ok: "packet_ok p" by (simp add: h(4) packet_ok_def uint_le_255)
  have "remainder = drop (?n - 1) (drop 6 raw)"
    by (simp only: h(5) drop_drop add.commute)
  moreover have "p_payload p = take (?n - 1) (drop 6 raw)" by (simp add: h(4) py_slice_def)
  ultimately have "drop 6 raw = p_payload p @ remainder" by (simp only: append_take_drop_id)
  then have "raw = [raw ! 0] @ le_enc 4 ?n @ [raw ! 5] @ (p_payload p @ remainder)"
    using le_enc_4_split [OF h(1)] le_enc_le_dec_n [OF l4] by metis
  moreover have "encode_packet p = Inr ([raw ! 0] @ le_enc 4 ?n @ [raw ! 5] @ p_payload p)"
    using lp b by (simp add: encode_packet_Inr) (simp add: h(4))
  ultimately show ?thesis using ok by (metis append.assoc)
qed

theorem decode_packet_exact_witness:
  "packet_ok \<lparr>p_protocol = 0xE3, p_opcode = 1, p_payload = [7]\<rparr> \<and>
   (\<exists>e. encode_packet \<lparr>p_protocol = 0xE3, p_opcode = 1, p_payload = [7]\<rparr> = Inr e \<and>
        [0xE3, 2, 0, 0, 0, 1, 7, 5] = e @ [5])"
  by (rule decode_packet_exact)
    (simp add: decode_packet_def header_size_def mk_packet_def py_slice_def)

section \<open>Packed packets\<close>

text \<open>
  What zlib documents: a bounded run on a compressed block returns the original data and
  reaches the end of the stream when the data fit the bound, and no compressed block is empty.
\<close>

definition zlib_law :: "zlib \<Rightarrow> bool" where
  "zlib_law z \<longleftrightarrow> (\<forall>d level n. length d < n \<longrightarrow>
     z_compress z d level \<noteq> [] \<and> z_decompressobj z (z_compress z d level) n = Inr (d, True))"

lemma decompress_compress:
  "zlib_law z \<Longrightarrow> length d \<le> m \<Longrightarrow>
   z_compress z d level \<noteq> [] \<and> decompress_payload z (z_compress z d level) (Some (int m)) = Inr d"
  by (auto simp: zlib_law_def decompress_payload_def nat_add_distrib
      dest!: spec [of _ d] spec [of _ level] spec [of _ "m + 1"])

text \<open>
  C5. Packing and unpacking a packet keeps its opcode and payload and leaves the bytes behind
  it; the protocol comes back as sent unless the payload was stored compressed, and then as KAD
  for a KAD packet and EDONKEY for every other family, eMule's own 0xC5 included. This holds for a
  packet whose payload has at most 16 MiB (what \<open>unpack_packet\<close> inflates at most; a longer one that compresses
  does not come back) and whose protocol is not already a packed one, for a compression level from
  0 to 9, and for a zlib that inflates what it deflated.
\<close>

theorem unpack_pack:
  assumes law: "zlib_law z" and ok: "packet_ok p" and level: "0 \<le> level" "level \<le> 9"
    and plain: "p_protocol p \<noteq> PACKED" "p_protocol p \<noteq> KADEMLIAPACKED"
    and size: "length (p_payload p) \<le> max_decompressed_size"
  shows "\<exists>e. pack_packet z p level = Inr e \<and>
    unpack_packet z (e @ suf) = Inr (p\<lparr>p_protocol :=
      (if length (z_compress z (p_payload p) level) < length (p_payload p)
       then (if p_protocol p = KAD then KAD else EDONKEY) else p_protocol p)\<rparr>, suf)"
proof (cases "length (z_compress z (p_payload p) level) < length (p_payload p)")
  case False
  from size have "length (p_payload p) + 1 < 2 ^ 32" by (simp add: max_decompressed_size_def)
  then obtain e where e: "encode_packet p = Inr e" by (simp add: encode_packet_Inr)
  have "unpack_packet z (e @ suf) = Inr (p, suf)"
    using plain by (simp add: unpack_packet_def decode_encode_append [OF ok e])
  with False level e show ?thesis by (simp add: pack_packet_def compress_payload_def)
next
  case True
  let ?c = "z_compress z (p_payload p) level"
  define q where "q = \<lparr>p_protocol = packed_protocol (p_protocol p), p_opcode = p_opcode p, p_payload = ?c\<rparr>"
  have q_ok: "packet_ok q"
    using ok by (simp add: q_def packet_ok_def packed_protocol_def KADEMLIAPACKED_def PACKED_def)
  from size True have "length (p_payload q) + 1 < 2 ^ 32"
    by (simp add: q_def max_decompressed_size_def)
  then obtain e where e: "encode_packet q = Inr e" by (simp add: encode_packet_Inr)
  have pack: "pack_packet z p level = Inr e"
    using True level ok e by (simp add: pack_packet_def compress_payload_def mk_packet_def packet_ok_def
        q_def packed_protocol_def KADEMLIAPACKED_def PACKED_def)
  have ne: "p_payload p \<noteq> []" using True by auto
  have up: "unpacked_protocol (packed_protocol (p_protocol p)) =
      (if p_protocol p = KAD then KAD else EDONKEY)"
    by (simp add: unpacked_protocol_def packed_protocol_def KADEMLIAPACKED_def PACKED_def)
  have "unpack_packet z (e @ suf) = bindE (mk_packet (unpacked_protocol (p_protocol q)) (p_opcode q) (p_payload p))
      (\<lambda>x. Inr (x, suf))"
    unfolding unpack_packet_def decode_encode_append [OF q_ok e]
    using decompress_compress [OF law size, of level] ne
    by (simp add: q_def packed_protocol_def)
  then show ?thesis
    using pack True ok up by (auto simp: q_def mk_packet_def packet_ok_def KAD_def EDONKEY_def)
qed

text \<open>A stand-in compressor: runs of one byte are stored as the byte and the length.\<close>

definition rle_zlib :: zlib where
  "rle_zlib = \<lparr>
     z_compress = (\<lambda>d level. case d of
         [] \<Rightarrow> [0]
       | b # _ \<Rightarrow> if d = replicate (length d) b \<and> length d < 2 ^ 64 then [1, b] @ le_enc 8 (length d) else 2 # d),
     z_decompress = (\<lambda>d. case d of
         [] \<Rightarrow> Inl ZlibError
       | t # r \<Rightarrow> Inr (if t = 1 then replicate (le_dec (drop 1 r)) (hd r) else r)),
     z_decompressobj = (\<lambda>d n. case d of
         [] \<Rightarrow> Inl ZlibError
       | t # r \<Rightarrow> (let out = (if t = 1 then replicate (le_dec (drop 1 r)) (hd r) else r)
                 in Inr (take n out, length out < n)))\<rparr>"

lemma rle_zlib_law: "zlib_law rle_zlib"
  unfolding zlib_law_def
proof (intro allI impI)
  fix d :: bytes and level :: int and n :: nat
  assume "length d < n"
  then show "z_compress rle_zlib d level \<noteq> [] \<and>
      z_decompressobj rle_zlib (z_compress rle_zlib d level) n = Inr (d, True)"
    by (cases d) (auto simp: rle_zlib_def Let_def simp flip: replicate_Suc)
qed

theorem unpack_pack_witness:
  "\<exists>e. pack_packet rle_zlib \<lparr>p_protocol = EMULE, p_opcode = 1, p_payload = replicate 20 7\<rparr> 9 = Inr e \<and>
    unpack_packet rle_zlib (e @ [3]) = Inr (\<lparr>p_protocol = EMULE, p_opcode = 1, p_payload = replicate 20 7\<rparr>
      \<lparr>p_protocol :=
      (if length (z_compress rle_zlib (p_payload \<lparr>p_protocol = EMULE, p_opcode = 1, p_payload = replicate 20 7\<rparr>) 9)
          < length (p_payload \<lparr>p_protocol = EMULE, p_opcode = 1, p_payload = replicate 20 7\<rparr>)
       then (if p_protocol \<lparr>p_protocol = EMULE, p_opcode = 1, p_payload = replicate 20 (7 :: byte)\<rparr> = KAD
             then KAD else EDONKEY)
       else p_protocol \<lparr>p_protocol = EMULE, p_opcode = 1, p_payload = replicate 20 (7 :: byte)\<rparr>)\<rparr>, [3])"
  by (rule unpack_pack [OF rle_zlib_law])
    (simp_all add: packet_ok_def EMULE_def PACKED_def KADEMLIAPACKED_def max_decompressed_size_def)

text \<open>
  Whatever zlib does, a packed frame never yields more than 16 MiB and never an empty payload.
\<close>

lemma unpack_packet_bounded:
  assumes "unpack_packet z d = Inr (q, r)" and "decode_packet d = Inr (p, r')"
    and "p_protocol p = PACKED \<or> p_protocol p = KADEMLIAPACKED"
  shows "0 < length (p_payload q) \<and> length (p_payload q) \<le> max_decompressed_size"
  using assms by (auto simp: unpack_packet_def decompress_payload_def mk_packet_def bindE_eq_Inr_conv
      split: if_splits sum.splits prod.splits)

end
