(* ===== verification/Typed_Read.thy ===== *)
theory Typed_Read
  imports Tag_Codec
begin

text \<open>
  What a parser of a message promises: \<open>yields E P get\<close> says that \<open>get\<close> raises exceptions of \<open>E\<close> only,
  returns values that satisfy \<open>P\<close>, and stays inside the data. The rules follow the binds of a parser.
  \<open>reads\<close> is extended to the loops that read a counted list and to whole messages.
\<close>

definition yields :: "exn set \<Rightarrow> ('a \<Rightarrow> bool) \<Rightarrow> (reader \<Rightarrow> ('a \<times> reader) res) \<Rightarrow> bool" where
  "yields E P get \<longleftrightarrow> (\<forall>r. reader_ok r \<longrightarrow>
     (case get r of Inl e \<Rightarrow> e \<in> E | Inr (x, r') \<Rightarrow> P x \<and> reader_ok r'))"

lemma yieldsD:
  assumes "yields E P get" and "reader_ok r"
  shows "get r = Inl e \<Longrightarrow> e \<in> E" and "get r = Inr (x, r') \<Longrightarrow> P x \<and> reader_ok r'"
  using assms by (auto simp: yields_def dest!: spec [of _ r])

lemma yields_return: "P x \<Longrightarrow> yields E P (\<lambda>r. Inr (x, r))"
  by (simp add: yields_def)

lemma yields_fail: "e \<in> E \<Longrightarrow> yields E P (\<lambda>r. Inl e)"
  by (simp add: yields_def)

lemma yields_mono: "yields E P g \<Longrightarrow> E \<subseteq> F \<Longrightarrow> (\<And>x. P x \<Longrightarrow> Q x) \<Longrightarrow> yields F Q g"
  unfolding yields_def by (fastforce split: sum.splits prod.splits)

lemma yields_bind:
  assumes g: "yields E P g" and h: "\<And>x. P x \<Longrightarrow> yields E Q (h x)"
  shows "yields E Q (\<lambda>r. bindE (g r) (\<lambda>(x, r1). h x r1))"
  unfolding yields_def
proof (intro allI impI)
  fix r assume ok: "reader_ok r"
  show "case bindE (g r) (\<lambda>(x, r1). h x r1) of Inl e \<Rightarrow> e \<in> E | Inr (x, r') \<Rightarrow> Q x \<and> reader_ok r'"
  proof (cases "g r")
    case (Inl e)
    with yieldsD(1) [OF g ok] show ?thesis by simp
  next
    case (Inr p)
    obtain x r1 where p: "p = (x, r1)" by (cases p)
    from yieldsD(2) [OF g ok] Inr p have "P x" "reader_ok r1" by simp_all
    with h [of x] Inr p show ?thesis by (simp add: yields_def)
  qed
qed

lemma yields_map: "yields E P g \<Longrightarrow> (\<And>x. P x \<Longrightarrow> Q (f x)) \<Longrightarrow> yields E Q (\<lambda>r. bindE (g r) (\<lambda>(x, r1). Inr (f x, r1)))"
  by (rule yields_bind, assumption, rule yields_return) auto

lemma yields_prims:
  "yields {CodecError, TagError} (\<lambda>v. v < 256) read_u8"
  "yields {CodecError, TagError} (\<lambda>v. v < 2 ^ 16) read_u16"
  "yields {CodecError, TagError} (\<lambda>v. v < 2 ^ 32) read_u32"
  unfolding yields_def using sound_prims(1-3)
  by (auto simp: sound_read_def dest!: consumed_ok split: sum.splits prod.splits dest: read_progress)

lemma yields_bytes: "yields {CodecError, TagError} (\<lambda>d. length d = n) (read_bytes (int n))"
  unfolding yields_def
proof (intro allI impI)
  fix r assume ok: "reader_ok r"
  from sound_readD [OF sound_prims(5) [of "int n"] ok] read_bytes_progress [OF _ ok, of "int n"]
  show "case read_bytes (int n) r of Inl e \<Rightarrow> e \<in> {CodecError, TagError} | Inr (d, r') \<Rightarrow> length d = n \<and> reader_ok r'"
    by (auto split: sum.splits prod.splits dest: consumed_ok)
qed

lemma yields_hash16: "yields {CodecError, TagError} (\<lambda>d. length d = 16) read_hash16"
  using yields_bytes [of 16] by (simp add: read_hash16_def [abs_def])

lemma yields_tag: "yields {CodecError, TagError} tag_ok (read_new_tag uf)"
  unfolding yields_def
proof (intro allI impI)
  fix r assume "reader_ok r"
  from read_new_tag_case [OF this, of uf]
  show "case read_new_tag uf r of Inl e \<Rightarrow> e \<in> {CodecError, TagError} | Inr (t, r') \<Rightarrow> tag_ok t \<and> reader_ok r'"
    by (auto split: sum.splits prod.splits dest: consumed_ok)
qed

lemma yields_read_n: "yields E P get \<Longrightarrow> yields E (\<lambda>xs. length xs = n \<and> list_all P xs) (read_n get n)"
proof (induction n)
  case 0
  then show ?case by (simp add: yields_def)
next
  case (Suc n)
  show ?case unfolding read_n.simps
    by (rule yields_bind [OF Suc.prems], rule yields_map [OF Suc.IH [OF Suc.prems]]) simp
qed

text \<open>\<open>gives\<close>: the same of a result, once the reader is dropped.\<close>

definition gives :: "exn set \<Rightarrow> ('a \<Rightarrow> bool) \<Rightarrow> 'a res \<Rightarrow> bool" where
  "gives E P m \<longleftrightarrow> (case m of Inl e \<Rightarrow> e \<in> E | Inr x \<Rightarrow> P x)"

lemma gives_simps [simp]: "gives E P (Inl e) \<longleftrightarrow> e \<in> E" "gives E P (Inr x) \<longleftrightarrow> P x"
  by (simp_all add: gives_def)

lemma gives_mono: "gives E P m \<Longrightarrow> E \<subseteq> F \<Longrightarrow> (\<And>x. P x \<Longrightarrow> Q x) \<Longrightarrow> gives F Q m"
  by (cases m) auto

lemma gives_read:
  assumes "yields E P g" and "reader_ok r" and "\<And>x r1. P x \<Longrightarrow> reader_ok r1 \<Longrightarrow> gives E Q (h x r1)"
  shows "gives E Q (bindE (g r) (\<lambda>(x, r1). h x r1))"
  using yieldsD [OF assms(1,2)] assms(3) by (cases "g r") (auto split: prod.splits)

lemmas yields_codec = yields_prims yields_hash16 yields_tag

section \<open>Whole messages\<close>

lemma reads_whole: "reads get e x \<Longrightarrow> get (from_bytes e) = Inr (x, advance (length e) (from_bytes e))"
  using readsD [of get e x "from_bytes e" "[]"] by simp

lemma remaining_end [simp]: "remaining (advance (length e) (from_bytes e)) = 0"
  by (simp add: remaining_def advance_def from_bytes_def)

lemma reads_read_n_Cons:
  assumes "reads get e x" and "reads (read_n get n) es xs"
  shows "reads (read_n get (Suc n)) (e @ es) (x # xs)"
  unfolding read_n.simps by (rule reads_bind [OF assms(1)]) (rule reads_map [OF assms(2)])

lemma reads_read_n:
  "list_all2 (reads get) es xs \<Longrightarrow> reads (read_n get (length xs)) (concat es) xs"
proof (induction rule: list_all2_induct)
  case Nil
  then show ?case by (simp add: reads_return)
next
  case (Cons e es x xs)
  then show ?case using reads_read_n_Cons [of get e x "length xs" "concat es" xs] by (simp del: read_n.simps)
qed

text \<open>A loop of writes, each of which the reader reads back.\<close>

lemma foldE_writes:
  assumes "foldE put w xs = Inr w'"
    and "\<And>x v v'. x \<in> set xs \<Longrightarrow> put v x = Inr v' \<Longrightarrow> \<exists>e. v' = v @ e \<and> reads get e (f x)"
  shows "\<exists>e. w' = w @ e \<and> reads (read_n get (length xs)) e (map f xs)"
  using assms
proof (induction xs arbitrary: w)
  case Nil
  then show ?case by (simp add: reads_def)
next
  case (Cons x xs)
  from Cons.prems(1) obtain v where v: "put w x = Inr v" and r: "foldE put v xs = Inr w'"
    by (auto simp: bindE_eq_Inr_conv)
  from Cons.prems(2) [OF _ v] obtain e1 where e1: "v = w @ e1" "reads get e1 (f x)" by auto
  from Cons.IH [OF r Cons.prems(2)] obtain e2 where
    e2: "w' = v @ e2" "reads (read_n get (length xs)) e2 (map f xs)" by auto
  show ?case
    using reads_read_n_Cons [OF e1(2) e2(2)] e1(1) e2(1) by (intro exI [of _ "e1 @ e2"]) (simp del: read_n.simps)
qed

end
