(* ===== verification/Peer_Codec.thy ===== *)
theory Peer_Codec
  imports Packet_Codec Typed_Read
begin

unbundle bit_operations_syntax

text \<open>
  \<open>core/peer/codec.py\<close>: the payloads eMule clients exchange over TCP. The HELLO tags, part
  requests, part data, file status, SecureIdent, source exchange and AICH payloads, their
  builders and parsers, and what a parser makes of a payload its own builder wrote. zlib is
  the record \<open>zlib\<close> of the packet codec; Python's \<open>int(str)\<close>, which the HELLO writer applies
  to a textual tag name, is the argument \<open>int_str\<close>.
\<close>

section \<open>HELLO tags\<close>

definition hello_tag :: "int \<Rightarrow> int \<Rightarrow> 'f tag_value \<Rightarrow> 'f ed2k_tag" where
  "hello_tag nid ty v = \<lparr>t_name = None, t_name_id = Some nid, t_type = ty, t_value = v\<rparr>"

definition hello_miso1 :: int where
  "hello_miso1 =
     (let cap_compression = 1; cap_unicode = 1; cap_no_view_shared = 1; cap_aich = 1;
          cap_udp_version = 0; cap_source_exchange = 1; cap_extended_requests = 0;
          cap_accept_comment = 0; cap_multipacket = 0; cap_secident = 3 in
      push_bit 29 cap_aich OR push_bit 28 cap_unicode OR push_bit 24 cap_udp_version
      OR push_bit 20 cap_compression OR push_bit 16 cap_secident OR push_bit 12 cap_source_exchange
      OR push_bit 8 cap_extended_requests OR push_bit 4 cap_accept_comment OR push_bit 3 0
      OR push_bit 2 cap_no_view_shared OR push_bit 1 cap_multipacket OR push_bit 0 0)"

definition hello_miso2 :: int where
  "hello_miso2 =
     (let cap_large_files = 1; cap_kad2 = 9; cap_ext_multipacket = 0; cap_file_identifiers = 0;
          cap_crypt_supports = 1; cap_crypt_requests = 1; cap_crypt_requires = 0;
          cap_source_exchange_v2 = 1 in
      push_bit 13 cap_file_identifiers OR push_bit 12 0 OR push_bit 11 0
      OR push_bit 10 cap_source_exchange_v2 OR push_bit 9 cap_crypt_requires
      OR push_bit 8 cap_crypt_requests OR push_bit 7 cap_crypt_supports OR push_bit 6 0
      OR push_bit 5 cap_ext_multipacket OR push_bit 4 cap_large_files OR cap_kad2)"

definition build_hello_tags :: "ustr \<Rightarrow> int \<Rightarrow> 'f ed2k_tag list" where
  "build_hello_tags nickname version =
     (let udports = 0; emule_version_tag = push_bit 17 0 OR push_bit 10 50 OR push_bit 7 0 in
      [hello_tag 0x01 STRING (VStr nickname),
       hello_tag 0x11 UINT32 (VInt version),
       hello_tag 0xF9 UINT32 (VInt udports),
       hello_tag 0xFA UINT32 (VInt hello_miso1),
       hello_tag 0xFE UINT32 (VInt hello_miso2),
       hello_tag 0xFB UINT32 (VInt emule_version_tag)])"

text \<open>The name of the tag as a number: \<open>int(name)\<close> of the textual or the numeric name.\<close>

definition hello_tag_name :: "(ustr \<Rightarrow> int res) \<Rightarrow> 'f ed2k_tag \<Rightarrow> int res" where
  "hello_tag_name int_str t =
     (case t_name t of
        Some nm \<Rightarrow> int_str nm
      | None \<Rightarrow> (case t_name_id t of Some nid \<Rightarrow> Inr nid | None \<Rightarrow> Inl PeerCodecError))"

definition write_hello_head :: "(ustr \<Rightarrow> int res) \<Rightarrow> int \<Rightarrow> 'f ed2k_tag \<Rightarrow> writer \<Rightarrow> writer res" where
  "write_hello_head int_str ty t w =
     bindE (write_u8 ty w) (\<lambda>w1.
     bindE (write_u16 1 w1) (\<lambda>w2.
     bindE (hello_tag_name int_str t) (\<lambda>n. write_u8 n w2)))"

definition write_hello_tag :: "(ustr \<Rightarrow> int res) \<Rightarrow> 'f ed2k_tag \<Rightarrow> writer \<Rightarrow> writer res" where
  "write_hello_tag int_str t w =
     (if t_name t = None \<and> t_name_id t = None then Inl PeerCodecError
      else case t_value t of
        VStr s \<Rightarrow>
          (case utf8_encode s of
             None \<Rightarrow> Inl UnicodeError
           | Some raw \<Rightarrow>
               bindE (write_hello_head int_str 0x02 t w) (\<lambda>w1.
               bindE (write_u16 (int (length raw)) w1) (write_bytes raw)))
      | VBytes raw \<Rightarrow> bindE (write_hello_head int_str 0x01 t w) (write_bytes raw)
      | VInt v \<Rightarrow>
          if \<not> (0 \<le> v \<and> v \<le> 0xFFFFFFFF) then Inl PeerCodecError
          else bindE (write_hello_head int_str 0x03 t w) (write_u32 v)
      | _ \<Rightarrow> Inl PeerCodecError)"

definition write_hello_body ::
    "(ustr \<Rightarrow> int res) \<Rightarrow> bytes \<Rightarrow> int \<Rightarrow> int \<Rightarrow> ustr \<Rightarrow> int \<Rightarrow> int \<Rightarrow> int \<Rightarrow> 'f ed2k_tag list \<Rightarrow> writer \<Rightarrow> writer res" where
  "write_hello_body int_str user_hash client_id client_port nickname version server_ip server_port extra w =
     (if length user_hash \<noteq> 16 then Inl PeerCodecError
      else if \<not> (0 \<le> client_id \<and> client_id \<le> 0xFFFFFFFF) then Inl PeerCodecError
      else if \<not> (0 \<le> client_port \<and> client_port \<le> 0xFFFF) then Inl PeerCodecError
      else if \<not> (0 \<le> version \<and> version \<le> 0xFFFFFFFF) then Inl PeerCodecError
      else if \<not> (0 \<le> server_ip \<and> server_ip \<le> 0xFFFFFFFF) then Inl PeerCodecError
      else if \<not> (0 \<le> server_port \<and> server_port \<le> 0xFFFF) then Inl PeerCodecError
      else
        bindE (write_u8 16 w) (\<lambda>w1.
        bindE (write_hash16 user_hash w1) (\<lambda>w2.
        bindE (write_u32 client_id w2) (\<lambda>w3.
        bindE (write_u16 client_port w3) (\<lambda>w4.
        let tags = build_hello_tags nickname version @ extra in
        bindE (write_u32 (int (length tags)) w4) (\<lambda>w5.
        bindE (foldE (\<lambda>w' t. write_hello_tag int_str t w') w5 tags) (\<lambda>w6.
        bindE (write_u32 server_ip w6) (write_u16 server_port))))))))"

definition build_hello_payload ::
    "(ustr \<Rightarrow> int res) \<Rightarrow> bytes \<Rightarrow> int \<Rightarrow> int \<Rightarrow> ustr \<Rightarrow> int \<Rightarrow> 'f ed2k_tag list \<Rightarrow> bytes res" where
  "build_hello_payload int_str user_hash client_id client_port nickname version extra =
     write_hello_body int_str user_hash client_id client_port nickname version 0 0 extra []"

definition build_hello_answer_payload ::
    "(ustr \<Rightarrow> int res) \<Rightarrow> bytes \<Rightarrow> int \<Rightarrow> int \<Rightarrow> ustr \<Rightarrow> int \<Rightarrow> int \<Rightarrow> int \<Rightarrow> bytes res" where
  "build_hello_answer_payload int_str user_hash client_id client_port nickname server_ip server_port version =
     (if length user_hash \<noteq> 16 then Inl PeerCodecError
      else if \<not> (0 \<le> server_ip \<and> server_ip \<le> 0xFFFFFFFF) then Inl PeerCodecError
      else if \<not> (0 \<le> server_port \<and> server_port \<le> 0xFFFF) then Inl PeerCodecError
      else write_hello_body int_str user_hash client_id client_port nickname version server_ip server_port
        ([] :: unit ed2k_tag list) [])"

section \<open>HELLO payloads\<close>

definition peer_error :: "exn list \<Rightarrow> 'a res \<Rightarrow> 'a res" where
  "peer_error es m = (case m of Inl e \<Rightarrow> Inl (if e \<in> set es then PeerCodecError else e) | Inr x \<Rightarrow> Inr x)"

definition parse_hello_tags :: "(bytes \<Rightarrow> 'f) \<Rightarrow> reader \<Rightarrow> ('f ed2k_tag list \<times> reader) res" where
  "parse_hello_tags unpack_f r =
     bindE (read_u32 r) (\<lambda>(tag_count, r1).
       peer_error [TagError] (read_n (read_new_tag unpack_f) tag_count r1))"

record 'f hello =
  h_user_hash :: bytes
  h_client_id :: nat
  h_client_port :: nat
  h_nickname :: ustr
  h_version :: int
  h_server_ip :: nat
  h_server_port :: nat
  h_tags :: "'f ed2k_tag list"

text \<open>The hash in front: with its length byte, or in the fork's form without.\<close>

definition read_hello_hash :: "bytes \<Rightarrow> (bytes \<times> reader) res" where
  "read_hello_hash payload =
     bindE (read_u8 (from_bytes payload)) (\<lambda>(hash_len, r1).
       if hash_len = 16 then read_hash16 r1 else read_bytes 16 (from_bytes payload))"

definition read_hello_fields ::
    "(bytes \<Rightarrow> 'f) \<Rightarrow> reader \<Rightarrow> ((nat \<times> nat \<times> 'f ed2k_tag list \<times> nat \<times> nat) \<times> reader) res" where
  "read_hello_fields unpack_f r1 =
     bindE (read_u32 r1) (\<lambda>(client_id, r2).
     bindE (read_u16 r2) (\<lambda>(client_port, r3).
     bindE (parse_hello_tags unpack_f r3) (\<lambda>(tags, r4).
     bindE (read_u32 r4) (\<lambda>(server_ip, r5).
     bindE (read_u16 r5) (\<lambda>(server_port, r6).
       Inr ((client_id, client_port, tags, server_ip, server_port), r6))))))"

definition parse_hello_body :: "(bytes \<Rightarrow> 'f) \<Rightarrow> bytes \<Rightarrow> (bytes \<times> nat \<times> nat \<times> 'f ed2k_tag list \<times> nat \<times> nat) res" where
  "parse_hello_body unpack_f payload =
     bindE (read_hello_hash payload) (\<lambda>(user_hash, r1).
     bindE (read_hello_fields unpack_f r1) (\<lambda>(fields, r6).
       if remaining r6 \<noteq> 0 then Inl PeerCodecError else Inr (user_hash, fields)))"

fun hello_names :: "'f ed2k_tag list \<Rightarrow> ustr \<times> int \<Rightarrow> ustr \<times> int" where
  "hello_names [] nv = nv"
| "hello_names (t # ts) (nick, ver) =
     hello_names ts
       (case t_value t of
          VStr s \<Rightarrow> (if t_name_id t = Some 0x01 then s else nick, ver)
        | VInt v \<Rightarrow> (nick, if t_name_id t = Some 0x11 then v else ver)
        | VBool b \<Rightarrow> (nick, if t_name_id t = Some 0x11 then (if b then 1 else 0) else ver)
        | _ \<Rightarrow> (nick, ver))"

definition parse_hello_answer :: "(bytes \<Rightarrow> 'f) \<Rightarrow> bytes \<Rightarrow> 'f hello res" where
  "parse_hello_answer unpack_f payload =
     bindE (peer_error [CodecError] (parse_hello_body unpack_f payload))
       (\<lambda>(user_hash, client_id, client_port, tags, server_ip, server_port).
          let (nick, ver) = hello_names tags ([], 0) in
          Inr \<lparr>h_user_hash = user_hash, h_client_id = client_id, h_client_port = client_port,
               h_nickname = nick, h_version = ver, h_server_ip = server_ip,
               h_server_port = server_port, h_tags = tags\<rparr>)"

text \<open>\<open>Hello\<close> is \<open>HelloAnswer\<close> without the server's endpoint.\<close>

definition parse_hello :: "(bytes \<Rightarrow> 'f) \<Rightarrow> bytes \<Rightarrow> (bytes \<times> nat \<times> nat \<times> ustr \<times> int \<times> 'f ed2k_tag list) res" where
  "parse_hello unpack_f payload =
     bindE (peer_error [CodecError] (parse_hello_body unpack_f payload))
       (\<lambda>(user_hash, client_id, client_port, tags, _, _).
          let (nick, ver) = hello_names tags ([], 0) in
          Inr (user_hash, client_id, client_port, nick, ver, tags))"


section \<open>Files, hash sets and part requests\<close>

definition build_request_filename_payload :: "bytes \<Rightarrow> bytes res" where
  "build_request_filename_payload file_hash =
     (if length file_hash \<noteq> 16 then Inl PeerCodecError else write_hash16 file_hash [])"

definition parse_file_hash_payload :: "bytes \<Rightarrow> bytes res" where
  "parse_file_hash_payload payload =
     bindE (peer_error [CodecError] (read_hash16 (from_bytes payload))) (\<lambda>(file_hash, r).
       if remaining r \<noteq> 0 then Inl PeerCodecError else Inr file_hash)"

definition parse_filename_answer :: "bytes \<Rightarrow> (bytes \<times> ustr) res" where
  "parse_filename_answer payload =
     bindE (peer_error [CodecError, UnicodeError]
        (bindE (read_hash16 (from_bytes payload)) (\<lambda>(file_hash, r1).
         bindE (read_string_utf8 r1) (\<lambda>(name, r2). Inr ((file_hash, name), r2)))))
       (\<lambda>(x, r). if remaining r \<noteq> 0 then Inl PeerCodecError else Inr x)"

definition build_file_name_answer_payload :: "bytes \<Rightarrow> ustr \<Rightarrow> bytes res" where
  "build_file_name_answer_payload file_hash name =
     (if length file_hash \<noteq> 16 then Inl PeerCodecError
      else bindE (write_hash16 file_hash []) (write_string_utf8 name))"

text \<open>The hashes of an \<open>OP_HASHSETANSWER\<close>: canonical, single-part fork, multi-part fork.\<close>

definition hash_blocks :: "nat \<Rightarrow> nat \<Rightarrow> bytes \<Rightarrow> bytes list" where
  "hash_blocks off n data = map (\<lambda>i. py_slice (off + i * 16) (off + (i + 1) * 16) data) [0..<n]"

definition canonical_hashes :: "bytes \<Rightarrow> bytes list option" where
  "canonical_hashes data =
     (if length data < 2 then None
      else let cnt = le_dec (take 2 data) in
        if cnt > 0 \<and> length data = 2 + 16 * cnt then Some (hash_blocks 2 cnt data) else None)"

definition fork_hashes :: "bytes \<Rightarrow> bytes list option" where
  "fork_hashes payload =
     (let fork_count = (length payload - 16 - 2) div 16 in
      if fork_count \<ge> 1 \<and> length payload = 16 + 2 + fork_count * 16 \<and>
         le_dec (py_slice 16 18 payload) = fork_count
      then Some (take 16 payload # hash_blocks 18 fork_count payload) else None)"

definition parse_hashset_answer :: "bytes \<Rightarrow> (bytes \<times> bytes list) res" where
  "parse_hashset_answer payload =
     (let h0 = canonical_hashes payload;
          h1 = (if h0 = None \<and> length payload = 16 + 2 then Some [take 16 payload] else h0);
          h2 = (if h1 = None \<and> length payload > 16 + 2 then fork_hashes payload else h1) in
      case h2 of Some (h # hs) \<Rightarrow> Inr (h, hs) | _ \<Rightarrow> Inl PeerCodecError)"

record file_status =
  fs_hash :: bytes
  fs_chunk_count :: nat
  fs_present :: "nat list"

definition bit_set :: "bytes \<Rightarrow> nat \<Rightarrow> bool" where
  "bit_set bs i \<longleftrightarrow> i div 8 < length bs \<and> unat (bs ! (i div 8)) div 2 ^ (i mod 8) mod 2 = 1"

definition parse_file_status :: "bytes \<Rightarrow> file_status res" where
  "parse_file_status payload =
     bindE (peer_error [CodecError]
        (bindE (read_hash16 (from_bytes payload)) (\<lambda>(file_hash, r1).
         bindE (read_u16 r1) (\<lambda>(chunk_count, r2).
         bindE (read_bytes (int ((chunk_count + 7) div 8)) r2) (\<lambda>(bit_array, r3).
           Inr ((file_hash, chunk_count, bit_array), r3))))))
       (\<lambda>((file_hash, chunk_count, bit_array), r).
          if remaining r \<noteq> 0 then Inl PeerCodecError
          else Inr \<lparr>fs_hash = file_hash, fs_chunk_count = chunk_count,
                    fs_present = filter (bit_set bit_array) [0..<chunk_count]\<rparr>)"

text \<open>\<open>bit_array[index // 8] |= 1 << (index % 8)\<close>\<close>

definition set_chunk_bit :: "nat \<Rightarrow> bytes \<Rightarrow> bytes" where
  "set_chunk_bit i bs = bs[i div 8 := (bs ! (i div 8)) OR push_bit (i mod 8) 1]"

definition build_file_status_payload :: "bytes \<Rightarrow> int \<Rightarrow> int list \<Rightarrow> bytes res" where
  "build_file_status_payload file_hash chunk_count present_chunks =
     (if length file_hash \<noteq> 16 then Inl PeerCodecError
      else if \<not> (0 \<le> chunk_count \<and> chunk_count \<le> 0xFFFF) then Inl PeerCodecError
      else if list_ex (\<lambda>i. \<not> (0 \<le> i \<and> i < chunk_count)) present_chunks then Inl PeerCodecError
      else
        let bit_array = foldl (\<lambda>bs i. set_chunk_bit (nat i) bs)
              (replicate (nat ((chunk_count + 7) div 8)) 0) present_chunks in
        bindE (write_hash16 file_hash []) (\<lambda>w1.
        bindE (write_u16 chunk_count w1) (write_bytes bit_array)))"

section \<open>Part requests and part data\<close>

definition validate_three_tuple :: "int list \<Rightarrow> unit res" where
  "validate_three_tuple v =
     (if length v \<noteq> 3 then Inl PeerCodecError
      else if list_ex (\<lambda>x. x < 0) v then Inl PeerCodecError else Inr ())"

definition validate_starts_ends :: "int list \<Rightarrow> int list \<Rightarrow> unit res" where
  "validate_starts_ends starts ends =
     bindE (validate_three_tuple starts) (\<lambda>_.
     bindE (validate_three_tuple ends) (\<lambda>_.
       if list_ex (\<lambda>(s, e). s > e) (zip starts ends) then Inl PeerCodecError else Inr ()))"

text \<open>One loop over the offsets: the range check of the builder, then the write.\<close>

definition write_offset :: "int \<Rightarrow> (int \<Rightarrow> writer \<Rightarrow> writer res) \<Rightarrow> writer \<Rightarrow> int \<Rightarrow> writer res" where
  "write_offset bound put w v = (if \<not> (0 \<le> v \<and> v \<le> bound) then Inl PeerCodecError else put v w)"

definition build_request_parts_payload :: "bytes \<Rightarrow> int list \<Rightarrow> int list \<Rightarrow> bytes res" where
  "build_request_parts_payload file_hash starts ends =
     (if length file_hash \<noteq> 16 then Inl PeerCodecError
      else bindE (validate_starts_ends starts ends) (\<lambda>_.
           bindE (write_hash16 file_hash []) (\<lambda>w1.
           bindE (foldE (write_offset 0xFFFFFFFF write_u32) w1 starts) (\<lambda>w2.
           foldE (write_offset 0xFFFFFFFF write_u32) w2 ends))))"

definition build_request_parts_i64_payload :: "bytes \<Rightarrow> int list \<Rightarrow> int list \<Rightarrow> bytes res" where
  "build_request_parts_i64_payload file_hash starts ends =
     (if length file_hash \<noteq> 16 then Inl PeerCodecError
      else bindE (validate_starts_ends starts ends) (\<lambda>_.
           bindE (write_hash16 file_hash []) (\<lambda>w1.
           bindE (foldE (write_offset 0xFFFFFFFFFFFFFFFF write_u64) w1 starts) (\<lambda>w2.
           foldE (write_offset 0xFFFFFFFFFFFFFFFF write_u64) w2 ends))))"

definition finish_request_parts :: "(bytes \<times> nat list \<times> nat list) \<times> reader \<Rightarrow> (bytes \<times> nat list \<times> nat list) res" where
  "finish_request_parts = (\<lambda>((file_hash, starts, ends), r).
     if remaining r \<noteq> 0 then Inl PeerCodecError
     else if list_ex (\<lambda>(s, e). s > e) (zip starts ends) then Inl PeerCodecError
     else Inr (file_hash, starts, ends))"

definition read_request_parts :: "(reader \<Rightarrow> (nat \<times> reader) res) \<Rightarrow> reader \<Rightarrow> ((bytes \<times> nat list \<times> nat list) \<times> reader) res" where
  "read_request_parts get r =
     bindE (read_hash16 r) (\<lambda>(file_hash, r1).
     bindE (read_n get 3 r1) (\<lambda>(starts, r2).
     bindE (read_n get 3 r2) (\<lambda>(ends, r3). Inr ((file_hash, starts, ends), r3))))"

definition parse_request_parts :: "bytes \<Rightarrow> (bytes \<times> nat list \<times> nat list) res" where
  "parse_request_parts payload =
     bindE (peer_error [CodecError] (read_request_parts read_u32 (from_bytes payload))) finish_request_parts"

definition parse_request_parts_i64 :: "bytes \<Rightarrow> (bytes \<times> nat list \<times> nat list) res" where
  "parse_request_parts_i64 payload =
     bindE (peer_error [CodecError] (read_request_parts read_u64 (from_bytes payload))) finish_request_parts"

record sending_part =
  sp_hash :: bytes
  sp_start :: nat
  sp_end :: nat
  sp_data :: bytes

definition read_sending_part :: "(reader \<Rightarrow> (nat \<times> reader) res) \<Rightarrow> bytes \<Rightarrow> sending_part res" where
  "read_sending_part get payload =
     bindE (peer_error [CodecError]
        (bindE (read_hash16 (from_bytes payload)) (\<lambda>(file_hash, r1).
         bindE (get r1) (\<lambda>(start, r2).
         bindE (get r2) (\<lambda>(stop, r3).
           Inr ((file_hash, start, stop, fst (read_bytes_remaining r3)), snd (read_bytes_remaining r3)))))))
       (\<lambda>((file_hash, start, stop, data), _).
          if int (length data) \<noteq> int stop - int start then Inl PeerCodecError
          else Inr \<lparr>sp_hash = file_hash, sp_start = start, sp_end = stop, sp_data = data\<rparr>)"

definition parse_sending_part :: "bytes \<Rightarrow> sending_part res" where
  "parse_sending_part payload = read_sending_part read_u32 payload"

definition parse_sending_part_i64 :: "bytes \<Rightarrow> sending_part res" where
  "parse_sending_part_i64 payload = read_sending_part read_u64 payload"

definition build_sending_part_i64_payload :: "bytes \<Rightarrow> int \<Rightarrow> int \<Rightarrow> bytes \<Rightarrow> bytes res" where
  "build_sending_part_i64_payload file_hash start stop data =
     (if length file_hash \<noteq> 16 then Inl PeerCodecError
      else if \<not> (0 \<le> start \<and> start \<le> 0xFFFFFFFFFFFFFFFF) then Inl PeerCodecError
      else if \<not> (0 \<le> stop \<and> stop \<le> 0xFFFFFFFFFFFFFFFF) then Inl PeerCodecError
      else if start \<ge> stop then Inl PeerCodecError
      else if int (length data) \<noteq> stop - start then Inl PeerCodecError
      else bindE (write_hash16 file_hash []) (\<lambda>w1.
           bindE (write_u64 start w1) (\<lambda>w2.
           bindE (write_u64 stop w2) (write_bytes data))))"

text \<open>One sub-packet of a compressed block: hash, block start, total size, chunk.\<close>

definition read_compressed_chunk :: "(reader \<Rightarrow> (nat \<times> reader) res) \<Rightarrow> bytes \<Rightarrow> (bytes \<times> nat \<times> nat \<times> bytes) res" where
  "read_compressed_chunk get payload =
     bindE (peer_error [CodecError]
        (bindE (read_hash16 (from_bytes payload)) (\<lambda>(file_hash, r1).
         bindE (get r1) (\<lambda>(start, r2).
         bindE (read_u32 r2) (\<lambda>(total_size, r3).
         bindE (read_bytes (remaining r3) r3) (\<lambda>(chunk, r4).
           Inr ((file_hash, start, total_size, chunk), r4)))))))
       (\<lambda>((file_hash, start, total_size, chunk), _).
          if chunk = [] then Inl PeerCodecError else Inr (file_hash, start, total_size, chunk))"

definition parse_compressed_part_chunk :: "bytes \<Rightarrow> (bytes \<times> nat \<times> nat \<times> bytes) res" where
  "parse_compressed_part_chunk payload = read_compressed_chunk read_u32 payload"

definition parse_compressed_part_chunk_i64 :: "bytes \<Rightarrow> (bytes \<times> nat \<times> nat \<times> bytes) res" where
  "parse_compressed_part_chunk_i64 payload = read_compressed_chunk read_u64 payload"

definition read_compressed_part :: "zlib \<Rightarrow> (reader \<Rightarrow> (nat \<times> reader) res) \<Rightarrow> bytes \<Rightarrow> sending_part res" where
  "read_compressed_part z get payload =
     bindE (peer_error [CodecError]
        (bindE (read_hash16 (from_bytes payload)) (\<lambda>(file_hash, r1).
         bindE (get r1) (\<lambda>(start, r2).
         bindE (read_u32 r2) (\<lambda>(compressed_size, r3).
         bindE (read_bytes (int compressed_size) r3) (\<lambda>(compressed_data, r4).
           Inr ((file_hash, start, compressed_data), r4)))))))
       (\<lambda>((file_hash, start, compressed_data), r).
          if remaining r \<noteq> 0 then Inl PeerCodecError
          else bindE (peer_error [ZlibError] (z_decompress z compressed_data)) (\<lambda>d.
            if d = [] then Inl PeerCodecError
            else Inr \<lparr>sp_hash = file_hash, sp_start = start, sp_end = start + length d, sp_data = d\<rparr>))"

definition parse_compressed_part :: "zlib \<Rightarrow> bytes \<Rightarrow> sending_part res" where
  "parse_compressed_part z payload = read_compressed_part z read_u32 payload"

definition parse_compressed_part_i64 :: "zlib \<Rightarrow> bytes \<Rightarrow> sending_part res" where
  "parse_compressed_part_i64 z payload = read_compressed_part z read_u64 payload"

text \<open>\<open>zlib.compress(data)\<close> has the default level -1.\<close>

definition build_compressed_part_i64_payload :: "zlib \<Rightarrow> bytes \<Rightarrow> int \<Rightarrow> bytes \<Rightarrow> bytes res" where
  "build_compressed_part_i64_payload z file_hash start data =
     (if length file_hash \<noteq> 16 then Inl PeerCodecError
      else if \<not> (0 \<le> start \<and> start \<le> 0xFFFFFFFFFFFFFFFF) then Inl PeerCodecError
      else if data = [] then Inl PeerCodecError
      else
        let compressed_data = z_compress z data (- 1) in
        bindE (write_hash16 file_hash []) (\<lambda>w1.
        bindE (write_u64 start w1) (\<lambda>w2.
        bindE (write_u32 (int (length compressed_data)) w2) (write_bytes compressed_data))))"

definition parse_queue_rank :: "bytes \<Rightarrow> nat res" where
  "parse_queue_rank payload =
     bindE (peer_error [CodecError] (read_u32 (from_bytes payload))) (\<lambda>(rank, r).
       if remaining r \<noteq> 0 then Inl PeerCodecError else Inr rank)"

definition build_queue_rank_payload :: "int \<Rightarrow> bytes res" where
  "build_queue_rank_payload rank =
     (if \<not> (0 \<le> rank \<and> rank \<le> 0xFFFFFFFF) then Inl PeerCodecError else write_u32 rank [])"

definition build_accept_upload_req_payload :: bytes where
  "build_accept_upload_req_payload = []"

definition build_end_of_download_payload :: "bytes \<Rightarrow> bytes res" where
  "build_end_of_download_payload file_hash =
     (if length file_hash \<noteq> 16 then Inl PeerCodecError else write_hash16 file_hash [])"

section \<open>SecureIdent payloads\<close>

definition build_secident_state_payload :: "int \<Rightarrow> int \<Rightarrow> bytes" where
  "build_secident_state_payload state challenge =
     [word_of_int (state AND 0xFF)] @ le_enc 4 (nat (challenge AND 0xFFFFFFFF))"

definition parse_secident_state_payload :: "bytes \<Rightarrow> (nat \<times> nat) res" where
  "parse_secident_state_payload payload =
     (if length payload \<noteq> 5 then Inl PeerCodecError
      else Inr (unat (payload ! 0), le_dec (drop 1 payload)))"

definition build_publickey_payload :: "bytes \<Rightarrow> bytes res" where
  "build_publickey_payload blob =
     (if \<not> (1 \<le> length blob \<and> length blob \<le> 250) then Inl PeerCodecError
      else Inr ([word_of_nat (length blob)] @ blob))"

definition parse_publickey_payload :: "bytes \<Rightarrow> bytes res" where
  "parse_publickey_payload payload =
     (if length payload < 10 \<or> length payload > 250 then Inl PeerCodecError
      else if unat (payload ! 0) \<noteq> length payload - 1 then Inl PeerCodecError
      else Inr (drop 1 payload))"

definition build_signature_payload :: "bytes \<Rightarrow> int \<Rightarrow> bytes res" where
  "build_signature_payload sig ip_kind =
     (if \<not> (1 \<le> length sig \<and> length sig \<le> 250) then Inl PeerCodecError
      else Inr ([word_of_nat (length sig)] @ sig @ (if ip_kind \<noteq> 0 then [word_of_int (ip_kind AND 0xFF)] else [])))"

definition parse_signature_payload :: "bytes \<Rightarrow> (bytes \<times> nat) res" where
  "parse_signature_payload payload =
     (if length payload < 11 \<or> length payload > 251 then Inl PeerCodecError
      else let sig_len = unat (payload ! 0) in
        if sig_len \<noteq> length payload - 1 \<and> sig_len \<noteq> length payload - 2 then Inl PeerCodecError
        else Inr (py_slice 1 (1 + sig_len) payload,
          if length payload > 1 + sig_len then unat (payload ! (1 + sig_len)) else 0))"

text \<open>Capability nibbles and bits of the first MISCOPTIONS tag with an integer value.\<close>

fun int_tag :: "int \<Rightarrow> 'f ed2k_tag list \<Rightarrow> int option" where
  "int_tag nid [] = None"
| "int_tag nid (t # ts) =
     (case t_value t of
        VInt v \<Rightarrow> if t_name_id t = Some nid then Some v else int_tag nid ts
      | VBool b \<Rightarrow> if t_name_id t = Some nid then Some (if b then 1 else 0) else int_tag nid ts
      | _ \<Rightarrow> int_tag nid ts)"

definition miso1_secident_support :: "'f ed2k_tag list \<Rightarrow> int" where
  "miso1_secident_support tags = (case int_tag 0xFA tags of Some v \<Rightarrow> drop_bit 16 v AND 0x0F | None \<Rightarrow> 0)"

definition miso1_source_exchange :: "'f ed2k_tag list \<Rightarrow> int" where
  "miso1_source_exchange tags = (case int_tag 0xFA tags of Some v \<Rightarrow> drop_bit 12 v AND 0x0F | None \<Rightarrow> 0)"

definition miso2_source_exchange_v2 :: "'f ed2k_tag list \<Rightarrow> bool" where
  "miso2_source_exchange_v2 tags = (case int_tag 0xFE tags of Some v \<Rightarrow> v AND 0x0400 \<noteq> 0 | None \<Rightarrow> False)"

section \<open>Source exchange payloads\<close>

definition MAX_ANSWER_SOURCES :: nat where "MAX_ANSWER_SOURCES = 500"

record sx_source =
  sx_client_id :: int
  sx_port :: int
  sx_server_ip :: int
  sx_server_port :: int
  sx_user_hash :: "bytes option"
  sx_connect_options :: int

definition parse_request_sources2 :: "bytes \<Rightarrow> (nat \<times> nat \<times> bytes) res" where
  "parse_request_sources2 payload =
     (if length payload \<noteq> 19 then Inl PeerCodecError
      else Inr (unat (payload ! 0), le_dec (py_slice 1 3 payload), py_slice 3 19 payload))"

definition parse_request_sources :: "bytes \<Rightarrow> bytes res" where
  "parse_request_sources payload = (if length payload \<noteq> 16 then Inl PeerCodecError else Inr payload)"

definition build_request_sources2_payload :: "int \<Rightarrow> int \<Rightarrow> bytes \<Rightarrow> bytes res" where
  "build_request_sources2_payload version options file_hash =
     (if length file_hash \<noteq> 16 then Inl PeerCodecError
      else Inr ([word_of_int (version AND 0xFF)] @ le_enc 2 (nat (options AND 0xFFFF)) @ file_hash))"

definition build_request_sources_payload :: "bytes \<Rightarrow> bytes res" where
  "build_request_sources_payload file_hash =
     (if length file_hash \<noteq> 16 then Inl PeerCodecError else Inr file_hash)"

definition sx_entry :: "sx_source \<Rightarrow> int \<Rightarrow> bytes" where
  "sx_entry s version =
     (let cid = nat (sx_client_id s AND 0xFFFFFFFF) in
      (if version \<ge> 3 \<and> sx_client_id s \<ge> 16000000 then be_enc 4 cid else le_enc 4 cid)
      @ le_enc 2 (nat (sx_port s AND 0xFFFF))
      @ le_enc 4 (nat (sx_server_ip s AND 0xFFFFFFFF)) @ le_enc 2 (nat (sx_server_port s AND 0xFFFF))
      @ (if version \<ge> 2
         then (case sx_user_hash s of None \<Rightarrow> replicate 16 0 | Some [] \<Rightarrow> replicate 16 0 | Some h \<Rightarrow> h) else [])
      @ (if version \<ge> 4 then [word_of_int (sx_connect_options s AND 0xFF)] else []))"

definition clamp_version :: "int \<Rightarrow> int" where
  "clamp_version v = max 1 (min 4 v)"

definition build_answer_sources2 :: "int \<Rightarrow> bytes \<Rightarrow> sx_source list \<Rightarrow> bytes res" where
  "build_answer_sources2 version file_hash sources =
     (if length file_hash \<noteq> 16 then Inl PeerCodecError
      else bindE (pack_le 2 (length sources)) (\<lambda>cnt.
        Inr ([word_of_int (clamp_version version)] @ file_hash @ cnt
          @ concat (map (\<lambda>s. sx_entry s (clamp_version version)) (take MAX_ANSWER_SOURCES sources)))))"

definition build_answer_sources :: "bytes \<Rightarrow> sx_source list \<Rightarrow> int \<Rightarrow> bytes res" where
  "build_answer_sources file_hash sources entry_version =
     (if length file_hash \<noteq> 16 then Inl PeerCodecError
      else bindE (pack_le 2 (length sources)) (\<lambda>cnt.
        Inr (file_hash @ cnt
          @ concat (map (\<lambda>s. sx_entry s (clamp_version entry_version)) (take MAX_ANSWER_SOURCES sources)))))"

text \<open>\<open>struct.unpack\<close> of a slice fails when the slice is short; an index beyond the end raises.\<close>

definition parse_sx_entry :: "bytes \<Rightarrow> int \<Rightarrow> nat \<Rightarrow> (sx_source \<times> nat) res" where
  "parse_sx_entry payload version off =
     bindE (unpack_le 4 (if version \<ge> 3 then rev (py_slice off (off + 4) payload)
                         else py_slice off (off + 4) payload)) (\<lambda>cid.
     bindE (unpack_le 2 (py_slice (off + 4) (off + 6) payload)) (\<lambda>port.
     bindE (unpack_le 4 (py_slice (off + 6) (off + 10) payload)) (\<lambda>sip.
     bindE (unpack_le 2 (py_slice (off + 10) (off + 12) payload)) (\<lambda>sport.
     let o1 = off + 12;
         uh = (if version \<ge> 2 then Some (py_slice o1 (o1 + 16) payload) else None);
         o2 = (if version \<ge> 2 then o1 + 16 else o1) in
     bindE (if version \<ge> 4 then (if o2 < length payload then Inr (int (unat (payload ! o2)), o2 + 1) else Inl IndexError)
            else Inr (0, o2)) (\<lambda>(opts, o3).
       Inr (\<lparr>sx_client_id = int cid, sx_port = int port, sx_server_ip = int sip, sx_server_port = int sport,
             sx_user_hash = uh, sx_connect_options = opts\<rparr>, o3))))))"

definition parse_answer_sources2 :: "bytes \<Rightarrow> (int \<times> bytes \<times> sx_source list) res" where
  "parse_answer_sources2 payload =
     (if length payload < 19 then Inl PeerCodecError
      else
        let version = int (unat (payload ! 0)) in
        bindE (read_n (parse_sx_entry payload version) (le_dec (py_slice 17 19 payload)) 19) (\<lambda>(sources, _).
          Inr (version, py_slice 1 17 payload, sources)))"

definition parse_answer_sources :: "bytes \<Rightarrow> int \<Rightarrow> (int \<times> bytes \<times> sx_source list) res" where
  "parse_answer_sources payload version =
     (if length payload < 18 then Inl PeerCodecError
      else
        bindE (read_n (parse_sx_entry payload version) (le_dec (py_slice 16 18 payload)) 18) (\<lambda>(sources, _).
          Inr (version, take 16 payload, sources)))"

section \<open>AICH payloads\<close>

definition build_aich_request_payload :: "bytes \<Rightarrow> int \<Rightarrow> bytes \<Rightarrow> bytes res" where
  "build_aich_request_payload file_hash part master =
     (if length file_hash \<noteq> 16 \<or> length master \<noteq> 20 then Inl PeerCodecError
      else Inr (file_hash @ le_enc 2 (nat (part AND 0xFFFF)) @ master))"

definition parse_aich_request_payload :: "bytes \<Rightarrow> (bytes \<times> nat \<times> bytes) res" where
  "parse_aich_request_payload payload =
     (if length payload \<noteq> 38 then Inl PeerCodecError
      else Inr (take 16 payload, le_dec (py_slice 16 18 payload), py_slice 18 38 payload))"

definition build_aich_answer_payload :: "bytes \<Rightarrow> int \<Rightarrow> bytes \<Rightarrow> bytes \<Rightarrow> bytes res" where
  "build_aich_answer_payload file_hash part master recovery =
     bindE (build_aich_request_payload file_hash part master) (\<lambda>h. Inr (h @ recovery))"

definition parse_aich_answer_payload :: "bytes \<Rightarrow> (bytes \<times> nat \<times> bytes \<times> bytes) res" where
  "parse_aich_answer_payload payload =
     (if length payload < 38 then Inl PeerCodecError
      else Inr (take 16 payload, le_dec (py_slice 16 18 payload), py_slice 18 38 payload, drop 38 payload))"

section \<open>Reading back\<close>

lemma peer_error_Inr [simp]: "peer_error es (Inr x) = Inr x"
  by (simp add: peer_error_def)

lemma reads_peer_error: "reads get e x \<Longrightarrow> reads (\<lambda>r. peer_error es (get r)) e x"
  by (simp add: reads_def)

subsection \<open>HELLO\<close>

text \<open>A tag with a numeric name, a 16-byte hash if it is one: what the old format can carry.\<close>

definition hello_ok :: "'f ed2k_tag \<Rightarrow> bool" where
  "hello_ok t \<longleftrightarrow> t_name t = None \<and> (case t_value t of VBytes raw \<Rightarrow> length raw = 16 | _ \<Rightarrow> True)"

definition hello_canon :: "'f ed2k_tag \<Rightarrow> 'f ed2k_tag" where
  "hello_canon t =
     hello_tag (the (t_name_id t)) (case t_value t of VStr _ \<Rightarrow> STRING | VBytes _ \<Rightarrow> HASH16 | _ \<Rightarrow> UINT32) (t_value t)"

lemma reads_old_tag:
  assumes n: "0 \<le> n" "n < 256" and ty: "ty = 1 \<or> ty = 2 \<or> ty = 3"
    and v: "reads (\<lambda>r. read_value unpack_f r ty) e v"
  shows "reads (read_new_tag unpack_f) ([word_of_int ty] @ le_enc 2 1 @ [word_of_nat (nat n)] @ e) (hello_tag n ty v)"
proof -
  have w: "(word_of_int ty :: byte) = word_of_nat (nat ty)" using ty by auto
  have m: "mk_tag (None :: ustr option) (Some (int (nat n))) (normalized_type ty) v = Inr (hello_tag n ty v)"
    using n ty by (auto simp: mk_tag_def hello_tag_def normalized_type_def tag_consts)
  have i: "reads (\<lambda>r. read_identifier r (nat ty)) (le_enc 2 1 @ [word_of_nat (nat n)]) (None :: ustr option, Some (int (nat n)))"
  proof -
    have "reads (\<lambda>r. bindE (read_u8 r) (\<lambda>(i, r2). Inr ((None :: ustr option, Some (int i)), r2)))
        [word_of_nat (nat n)] (None, Some (int (nat n)))"
      using reads_map [OF reads_u8, of "nat n" "\<lambda>i. (None, Some (int i))"] n by (simp add: nat_less_iff)
    then show ?thesis
      using reads_bind [OF reads_u16, of 1 "\<lambda>k r1. if k = 1 then bindE (read_u8 r1)
          (\<lambda>(i, r2). Inr ((None :: ustr option, Some (int i)), r2))
        else bindE (read_bytes (int k) r1) (\<lambda>(raw, r2).
          case utf8_decode raw of None \<Rightarrow> Inl TagError | Some s \<Rightarrow> Inr ((Some s, None), r2))"] ty
      by (auto simp: read_identifier_def)
  qed
  have tb: "int (if nat ty AND 0x80 \<noteq> 0 then nat ty AND 0x7F else nat ty) = ty" using ty by auto
  have r3: "reads (\<lambda>r. bindE (read_value unpack_f r ty) (\<lambda>(v, r3).
      bindE (mk_tag None (Some (int (nat n))) (normalized_type ty) v) (\<lambda>t. Inr (t, r3)))) e (hello_tag n ty v)"
    by (rule reads_bind_nil [OF v]) (simp only: m bindE_Inr reads_return)
  have r2: "reads (\<lambda>r. bindE (read_identifier r (nat ty)) (\<lambda>(nmid, r2).
      bindE (read_value unpack_f r2 ty) (\<lambda>(v, r3).
      bindE (mk_tag (fst nmid) (snd nmid) (normalized_type ty) v) (\<lambda>t. Inr (t, r3)))))
      ((le_enc 2 1 @ [word_of_nat (nat n)]) @ e) (hello_tag n ty v)"
    by (rule reads_bind [OF i]) (use r3 in simp)
  have "reads (read_new_tag unpack_f) ([word_of_nat (nat ty)] @ ((le_enc 2 1 @ [word_of_nat (nat n)]) @ e)) (hello_tag n ty v)"
    unfolding read_new_tag_def Let_def
    by (rule reads_bind [OF reads_u8]) (use ty r2 tb in \<open>auto simp: case_prod_unfold\<close>)
  then show ?thesis by (simp add: w)
qed

lemma write_hello_head_Inr:
  assumes "write_hello_head int_str ty t w = Inr w'" and "t_name t = None"
  shows "\<exists>n. t_name_id t = Some n \<and> 0 \<le> n \<and> n < 256 \<and> 0 \<le> ty \<and>
    w' = w @ [word_of_int ty] @ le_enc 2 1 @ [word_of_nat (nat n)]"
  using assms
  by (auto simp: write_hello_head_def hello_tag_name_def bindE_eq_Inr_conv write_Inr split: option.splits)

lemma write_hello_tag_reads:
  assumes w: "write_hello_tag int_str t w = Inr w'" and ok: "hello_ok t"
  shows "\<exists>e. w' = w @ e \<and> reads (read_new_tag unpack_f) e (hello_canon t)"
proof -
  have nm: "t_name t = None" using ok by (simp add: hello_ok_def)
  have fin: "\<exists>e. w' = w @ e \<and> reads (read_new_tag unpack_f) e (hello_canon t)"
    if h: "write_hello_head int_str ty t w = Inr w1" and w': "w' = w1 @ e"
      and ty: "ty = 1 \<or> ty = 2 \<or> ty = 3" and v: "reads (\<lambda>r. read_value unpack_f r ty) e (t_value t)"
      and c: "ty = (case t_value t of VStr _ \<Rightarrow> STRING | VBytes _ \<Rightarrow> HASH16 | _ \<Rightarrow> UINT32)" for ty w1 e
  proof -
    from write_hello_head_Inr [OF h nm] obtain n where n: "t_name_id t = Some n" "0 \<le> n" "n < 256"
      "w1 = w @ [word_of_int ty] @ le_enc 2 1 @ [word_of_nat (nat n)]" by blast
    show ?thesis using reads_old_tag [OF n(2,3) ty v] n(1,4) w' c
      by (intro exI [of _ "[word_of_int ty] @ le_enc 2 1 @ [word_of_nat (nat n)] @ e"]) (simp add: hello_canon_def)
  qed
  show ?thesis
  proof (cases "t_value t")
    case (VStr s)
    from w VStr obtain raw where raw: "utf8_encode s = Some raw"
      by (cases "utf8_encode s") (simp_all add: write_hello_tag_def split: if_splits)
    from w VStr raw have "bindE (write_hello_head int_str 2 t w)
        (\<lambda>w1. bindE (write_u16 (int (length raw)) w1) (write_bytes raw)) = Inr w'"
      by (simp add: write_hello_tag_def split: if_splits)
    then obtain w1 where h: "write_hello_head int_str 2 t w = Inr w1"
      and l: "length raw < 65536" and w': "w' = w1 @ le_enc 2 (length raw) @ raw"
      unfolding bindE_eq_Inr_conv by (auto simp: write_Inr write_bytes_def)
    have "reads (\<lambda>r. bindE (read_u16 r) (\<lambda>(n, r1). read_bytes (int n) r1)) (le_enc 2 (length raw) @ raw) raw"
      by (rule reads_bind [OF reads_u16 [OF l]]) (rule reads_bytes [OF refl])
    from reads_map [OF this, of decode_text]
    have "reads (\<lambda>r. read_string_value r 2) (le_enc 2 (length raw) @ raw) s"
      by (simp add: read_string_value_def tag_consts decode_text_utf8 [OF raw])
    from reads_map [OF this, of VStr] have "reads (\<lambda>r. read_value unpack_f r 2) (le_enc 2 (length raw) @ raw) (VStr s)"
      by (simp add: read_value_def is_str_type_def tag_consts)
    then show ?thesis using VStr by (intro fin [OF h w']) (simp_all add: tag_consts)
  next
    case (VBytes raw)
    then obtain w1 where h: "write_hello_head int_str 1 t w = Inr w1" and w': "w' = w1 @ raw"
      using w nm by (auto simp: write_hello_tag_def bindE_eq_Inr_conv write_bytes_def split: if_splits)
    have "length raw = 16" using ok VBytes by (simp add: hello_ok_def)
    from reads_map [OF reads_hash16 [OF this], of VBytes]
    have "reads (\<lambda>r. read_value unpack_f r 1) raw (VBytes raw)" by (simp add: read_value_def is_str_type_def tag_consts)
    then show ?thesis using VBytes by (intro fin [OF h w']) (simp_all add: tag_consts)
  next
    case (VInt v)
    then obtain w1 where h: "write_hello_head int_str 3 t w = Inr w1" and v: "0 \<le> v" "v < 2 ^ 32"
      and w': "w' = w1 @ le_enc 4 (nat v)"
      using w nm by (auto simp: write_hello_tag_def bindE_eq_Inr_conv write_Inr split: if_splits)
    have "nat v < 2 ^ 32" using v by (simp add: nat_less_iff)
    from reads_map [OF reads_u32 [OF this], of "\<lambda>n. VInt (int n)"]
    have "reads (\<lambda>r. read_value unpack_f r 3) (le_enc 4 (nat v)) (VInt v)"
      using v by (simp add: read_value_def is_str_type_def tag_consts)
    then show ?thesis using VInt by (intro fin [OF h w']) (simp_all add: tag_consts)
  qed (use w nm in \<open>simp_all add: write_hello_tag_def split: if_splits\<close>)
qed

lemma reads_hello_tags:
  assumes "foldE (\<lambda>w' t. write_hello_tag int_str t w') w ts = Inr w'" and "list_all hello_ok ts"
    and "length ts < 2 ^ 32"
  shows "\<exists>e. w' = w @ e \<and> reads (parse_hello_tags unpack_f) (le_enc 4 (length ts) @ e) (map hello_canon ts)"
proof -
  have "\<exists>e. w' = w @ e \<and> reads (read_n (read_new_tag unpack_f) (length ts)) e (map hello_canon ts)"
    by (rule foldE_writes [OF assms(1)], rule write_hello_tag_reads) (use assms(2) in \<open>auto simp: list_all_iff\<close>)
  then obtain e where e: "w' = w @ e" "reads (read_n (read_new_tag unpack_f) (length ts)) e (map hello_canon ts)"
    by blast
  have "reads (parse_hello_tags unpack_f) (le_enc 4 (length ts) @ e) (map hello_canon ts)"
    unfolding parse_hello_tags_def
    by (rule reads_bind [OF reads_u32 [OF assms(3)]]) (rule reads_peer_error [OF e(2)])
  with e(1) show ?thesis by blast
qed

lemma reads_hello_fields:
  assumes "reads (parse_hello_tags unpack_f) e tags" and "cid < 2 ^ 32" "port < 65536" "sip < 2 ^ 32" "sport < 65536"
  shows "reads (read_hello_fields unpack_f) (le_enc 4 cid @ le_enc 2 port @ e @ le_enc 4 sip @ le_enc 2 sport)
    (cid, port, tags, sip, sport)"
  unfolding read_hello_fields_def
  by (rule reads_bind [OF reads_u32 [OF assms(2)]], rule reads_bind [OF reads_u16 [OF assms(3)]],
      rule reads_bind [OF assms(1)], rule reads_bind [OF reads_u32 [OF assms(4)]])
    (rule reads_map [OF reads_u16 [OF assms(5)]])

lemma reads_length_prefixed_hash:
  assumes "length uh = 16"
  shows "reads read_u8 [16] 16" and "read_hello_hash ([16] @ uh @ t) = Inr (uh, advance 17 (from_bytes ([16] @ uh @ t)))"
proof -
  show r: "reads read_u8 [16] 16" using reads_u8 [of 16] by simp
  let ?r = "from_bytes ([16] @ uh @ t)"
  have r1: "read_u8 ?r = Inr (16, advance 1 ?r)" using readsD [OF r, of ?r "uh @ t"] by simp
  have "rest (advance 1 ?r) = uh @ t" "reader_ok (advance 1 ?r)"
    by (simp_all add: rest_advance reader_ok_advance)
  then have "read_hash16 (advance 1 ?r) = Inr (uh, advance 16 (advance 1 ?r))"
    using readsD [OF reads_hash16 [OF assms], of "advance 1 ?r" t] assms by simp
  with r1 show "read_hello_hash ([16] @ uh @ t) = Inr (uh, advance 17 ?r)" by (simp add: read_hello_hash_def)
qed

lemma hello_body_roundtrip:
  assumes w: "write_hello_body int_str uh cid port nick ver sip sport extra [] = Inr e"
    and ok: "list_all hello_ok extra" and n: "length extra < 1000"
  shows "parse_hello_body unpack_f e = Inr (uh, nat cid, nat port,
    map hello_canon (build_hello_tags nick ver @ extra), nat sip, nat sport)"
proof -
  define ts where "ts = build_hello_tags nick ver @ extra"
  have l: "length ts < 2 ^ 32" using n by (simp add: ts_def build_hello_tags_def Let_def)
  have oks: "list_all hello_ok ts" using ok by (simp add: ts_def build_hello_tags_def Let_def hello_ok_def hello_tag_def)
  from w obtain f where uh: "length uh = 16"
    and b: "0 \<le> cid" "cid \<le> 0xFFFFFFFF" "0 \<le> port" "port \<le> 0xFFFF" "0 \<le> sip" "sip \<le> 0xFFFFFFFF" "0 \<le> sport" "sport \<le> 0xFFFF"
    and f: "foldE (\<lambda>w' t. write_hello_tag int_str t w')
        ([16] @ uh @ le_enc 4 (nat cid) @ le_enc 2 (nat port) @ le_enc 4 (length ts)) ts = Inr f"
    and e: "e = f @ le_enc 4 (nat sip) @ le_enc 2 (nat sport)"
    by (auto simp: write_hello_body_def bindE_eq_Inr_conv write_Inr Let_def simp flip: ts_def split: if_splits)
  from reads_hello_tags [OF f oks l, where unpack_f = unpack_f] obtain g where
    g: "f = ([16] @ uh @ le_enc 4 (nat cid) @ le_enc 2 (nat port) @ le_enc 4 (length ts)) @ g"
      "reads (parse_hello_tags unpack_f) (le_enc 4 (length ts) @ g) (map hello_canon ts)" by blast
  let ?t = "le_enc 4 (nat cid) @ le_enc 2 (nat port) @ (le_enc 4 (length ts) @ g) @ le_enc 4 (nat sip) @ le_enc 2 (nat sport)"
  have e': "e = [16] @ uh @ ?t" by (simp add: e g(1))
  have "rest (advance 17 (from_bytes e)) = ?t" "reader_ok (advance 17 (from_bytes e))"
    using uh by (simp_all add: e' rest_advance reader_ok_advance)
  moreover have "reads (read_hello_fields unpack_f) ?t (nat cid, nat port, map hello_canon ts, nat sip, nat sport)"
    by (rule reads_hello_fields [OF g(2)]) (use b in \<open>simp_all add: nat_less_iff\<close>)
  ultimately have "read_hello_fields unpack_f (advance 17 (from_bytes e)) =
      Inr ((nat cid, nat port, map hello_canon ts, nat sip, nat sport), advance (length ?t) (advance 17 (from_bytes e)))"
    using readsD [of "read_hello_fields unpack_f" ?t _ "advance 17 (from_bytes e)" "[]"] by simp
  moreover have "advance (length ?t) (advance 17 (from_bytes e)) = advance (length e) (from_bytes e)"
    using uh by (simp add: e')
  moreover have "read_hello_hash e = Inr (uh, advance 17 (from_bytes e))"
    unfolding e' by (rule reads_length_prefixed_hash(2) [OF uh])
  ultimately show ?thesis by (simp add: parse_hello_body_def ts_def)
qed

lemma hello_names_other:
  "list_all (\<lambda>t. t_name_id t \<noteq> Some 0x01 \<and> t_name_id t \<noteq> Some 0x11) ts \<Longrightarrow> hello_names ts nv = nv"
  by (induction ts nv rule: hello_names.induct) (auto split: tag_value.splits)

lemma hello_names_append: "hello_names (xs @ ys) nv = hello_names ys (hello_names xs nv)"
  by (induction xs nv rule: hello_names.induct) auto

lemma hello_names_built: "hello_names (map hello_canon (build_hello_tags nick ver)) ([], 0) = (nick, ver)"
  by (simp add: build_hello_tags_def hello_canon_def hello_tag_def Let_def)

lemma hello_canon_id: "t_name_id t = Some n \<Longrightarrow> t_name_id (hello_canon t) = Some n"
  by (simp add: hello_canon_def hello_tag_def)

text \<open>
  The HELLO a client writes is the HELLO its peer reads: the hash, client id, port,
  nickname and version come back, and the tags in order as their numeric names with the types of
  the old tag format, also with extra tags as long as these do not rename the nickname or the
  version. The same holds for the HELLO answer and its server endpoint.
\<close>

theorem hello_payload_roundtrip:
  fixes unpack_u :: "bytes \<Rightarrow> unit"
  assumes "build_hello_payload int_str uh cid port nick ver extra = Inr e"
    and "build_hello_answer_payload int_str uh cid port nick sip sport ver = Inr a"
    and "list_all (\<lambda>t. hello_ok t \<and> t_name_id t \<noteq> None \<and> t_name_id t \<noteq> Some 0x01 \<and> t_name_id t \<noteq> Some 0x11) extra"
    and "length extra < 1000"
  shows "parse_hello unpack_f e =
      Inr (uh, nat cid, nat port, nick, ver, map hello_canon (build_hello_tags nick ver @ extra)) \<and>
    parse_hello_answer unpack_u a = Inr \<lparr>h_user_hash = uh, h_client_id = nat cid, h_client_port = nat port,
      h_nickname = nick, h_version = ver, h_server_ip = nat sip, h_server_port = nat sport,
      h_tags = map hello_canon (build_hello_tags nick ver)\<rparr>"
proof
  have ok: "list_all hello_ok extra" using assms(3) by (simp add: list_all_iff)
  have other: "list_all (\<lambda>t. t_name_id t \<noteq> Some 0x01 \<and> t_name_id t \<noteq> Some 0x11) (map hello_canon extra)"
  proof -
    have "t_name_id (hello_canon t) \<noteq> Some 0x01 \<and> t_name_id (hello_canon t) \<noteq> Some 0x11" if "t \<in> set extra" for t
    proof -
      from assms(3) that obtain n where "t_name_id t = Some n" "n \<noteq> 1" "n \<noteq> 17" by (auto simp: list_all_iff)
      then show ?thesis using hello_canon_id [of t n] by simp
    qed
    then show ?thesis by (simp add: list_all_iff)
  qed
  have "hello_names (map hello_canon (build_hello_tags nick ver @ extra)) ([], 0) = (nick, ver)"
    by (simp only: map_append hello_names_append hello_names_built hello_names_other [OF other])
  then show "parse_hello unpack_f e =
      Inr (uh, nat cid, nat port, nick, ver, map hello_canon (build_hello_tags nick ver @ extra))"
    using hello_body_roundtrip [OF assms(1) [unfolded build_hello_payload_def] ok assms(4), of unpack_f]
    by (simp add: parse_hello_def)
  have "write_hello_body int_str uh cid port nick ver sip sport ([] :: unit ed2k_tag list) [] = Inr a"
    using assms(2) by (simp add: build_hello_answer_payload_def split: if_splits)
  from hello_body_roundtrip [OF this, of unpack_u]
  show "parse_hello_answer unpack_u a = Inr \<lparr>h_user_hash = uh, h_client_id = nat cid, h_client_port = nat port,
      h_nickname = nick, h_version = ver, h_server_ip = nat sip, h_server_port = nat sport,
      h_tags = map hello_canon (build_hello_tags nick ver)\<rparr>"
    by (simp add: parse_hello_answer_def hello_names_built)
qed

theorem hello_payload_roundtrip_witness:
  "\<exists>e a. parse_hello (\<lambda>_. ()) e =
      Inr (replicate 16 7, nat 1, nat 4662, [65], 0x3C, map hello_canon (build_hello_tags [65] 0x3C @ [hello_tag 0xFD UINT32 (VInt 9)])) \<and>
    parse_hello_answer (\<lambda>_. ()) a = Inr \<lparr>h_user_hash = replicate 16 7, h_client_id = nat 1, h_client_port = nat 4662,
      h_nickname = [65], h_version = 0x3C, h_server_ip = nat 5, h_server_port = nat 6,
      h_tags = map hello_canon (build_hello_tags [65] 0x3C)\<rparr>"
proof -
  have b: "hello_miso1 = 0x30131004" "hello_miso2 = 0x599" by (simp_all add: hello_miso1_def hello_miso2_def Let_def)
  have "\<exists>e. build_hello_payload (\<lambda>_. Inl ValueError) (replicate 16 7) 1 4662 [65] 0x3C
      [hello_tag 0xFD UINT32 (VInt 9) :: unit ed2k_tag] = Inr e"
    by (simp add: build_hello_payload_def write_hello_body_def build_hello_tags_def Let_def hello_tag_def write_hello_tag_def
        write_hello_head_def hello_tag_name_def write_u8_def write_u16_def write_u32_def write_hash16_def write_bytes_def
        utf8_cp_def b eval_simps)
  then obtain e where e: "build_hello_payload (\<lambda>_. Inl ValueError) (replicate 16 7) 1 4662 [65] 0x3C
      [hello_tag 0xFD UINT32 (VInt 9) :: unit ed2k_tag] = Inr e" ..
  have "\<exists>a. build_hello_answer_payload (\<lambda>_. Inl ValueError) (replicate 16 7) 1 4662 [65] 5 6 0x3C = Inr a"
    by (simp add: build_hello_answer_payload_def write_hello_body_def build_hello_tags_def Let_def hello_tag_def write_hello_tag_def
        write_hello_head_def hello_tag_name_def write_u8_def write_u16_def write_u32_def write_hash16_def write_bytes_def
        utf8_cp_def b eval_simps)
  then obtain a where a: "build_hello_answer_payload (\<lambda>_. Inl ValueError) (replicate 16 7) 1 4662 [65] 5 6 0x3C = Inr a" ..
  have ok: "list_all (\<lambda>t. hello_ok t \<and> t_name_id t \<noteq> None \<and> t_name_id t \<noteq> Some 0x01 \<and> t_name_id t \<noteq> Some 0x11)
      [hello_tag 0xFD UINT32 (VInt 9) :: unit ed2k_tag]" by (simp add: hello_ok_def hello_tag_def)
  from hello_payload_roundtrip [OF e a ok, of "\<lambda>_. ()" "\<lambda>_. ()"] show ?thesis by auto
qed

subsection \<open>The one error a parser raises\<close>

text \<open>
  \<open>fails_in E get\<close>: on a reader inside its data, \<open>get\<close> raises exceptions of \<open>E\<close> only and stays
  inside the data.
\<close>

definition fails_in :: "exn set \<Rightarrow> (reader \<Rightarrow> ('a \<times> reader) res) \<Rightarrow> bool" where
  "fails_in E get \<longleftrightarrow> (\<forall>r. reader_ok r \<longrightarrow> (case get r of Inl e \<Rightarrow> e \<in> E | Inr (x, r') \<Rightarrow> reader_ok r'))"

lemma fails_in_sound: "sound_read k get \<Longrightarrow> fails_in {CodecError, TagError} get"
  unfolding fails_in_def sound_read_def using consumed_ok by (auto split: sum.splits)

lemma fails_in_bind:
  assumes g: "fails_in E g" and h: "\<And>x. fails_in E (h x)"
  shows "fails_in E (\<lambda>r. bindE (g r) (\<lambda>(x, r1). h x r1))"
  unfolding fails_in_def
proof (intro allI impI)
  fix r assume r: "reader_ok r"
  show "case bindE (g r) (\<lambda>(x, r1). h x r1) of Inl e \<Rightarrow> e \<in> E | Inr (x, r') \<Rightarrow> reader_ok r'"
  proof (cases "g r")
    case (Inl e)
    then show ?thesis using g r by (auto simp: fails_in_def dest!: spec [of _ r])
  next
    case (Inr p)
    then obtain x r1 where p: "g r = Inr (x, r1)" by (cases p) auto
    then have "reader_ok r1" using g r by (auto simp: fails_in_def dest!: spec [of _ r])
    then show ?thesis using h [of x] p by (simp add: fails_in_def)
  qed
qed

lemma fails_in_return: "fails_in E (\<lambda>r. Inr (x, r))"
  by (simp add: fails_in_def)

lemma fails_in_mono: "fails_in E g \<Longrightarrow> E \<subseteq> F \<Longrightarrow> fails_in F g"
  unfolding fails_in_def by (auto split: sum.splits)

lemma fails_in_prims:
  "fails_in {CodecError} read_u8" "fails_in {CodecError} read_u16" "fails_in {CodecError} read_u32"
  "fails_in {CodecError} read_u64" "fails_in {CodecError} (read_bytes (int n))" "fails_in {CodecError} read_hash16"
proof -
  have a: "fails_in {CodecError} (\<lambda>r. bindE (require n r) (\<lambda>_. Inr (f r, advance n r)))" for n and f :: "reader \<Rightarrow> 'a"
    by (auto simp: fails_in_def require_iff intro: reader_ok_advance)
  show "fails_in {CodecError} read_u8" "fails_in {CodecError} read_u16" "fails_in {CodecError} read_u32"
    "fails_in {CodecError} read_u64" "fails_in {CodecError} (read_bytes (int n))" "fails_in {CodecError} read_hash16"
    using a by (simp_all add: read_u8_def [abs_def] read_u16_def [abs_def] read_u32_def [abs_def]
        read_u64_def [abs_def] read_bytes_def [abs_def] read_hash16_def [abs_def])
qed

lemma fails_in_read_n: "fails_in E get \<Longrightarrow> fails_in E (read_n get n)"
proof (induction n)
  case 0
  then show ?case by (simp add: fails_in_def)
next
  case (Suc n)
  show ?case unfolding read_n.simps
    by (rule fails_in_bind [OF Suc.prems], rule fails_in_bind [OF Suc.IH [OF Suc.prems]]) (rule fails_in_return)
qed

lemma fails_in_peer_error:
  "fails_in E g \<Longrightarrow> fails_in (insert PeerCodecError (E - set es)) (\<lambda>r. peer_error es (g r))"
  unfolding fails_in_def peer_error_def by (auto split: sum.splits)

lemma fails_in_utf8: "fails_in {CodecError, UnicodeError} read_string_utf8"
proof -
  have "fails_in {CodecError, UnicodeError} (\<lambda>r. case utf8_decode raw of None \<Rightarrow> Inl UnicodeError | Some s \<Rightarrow> Inr (s, r))" for raw
    by (simp add: fails_in_def split: option.splits)
  then show ?thesis unfolding read_string_utf8_def [abs_def]
    by (intro fails_in_bind fails_in_prims [THEN fails_in_mono]) auto
qed

lemma fails_in_new_tag: "fails_in {CodecError, TagError} (read_new_tag unpack_f)"
  unfolding fails_in_def using read_new_tag_case consumed_ok by (fastforce split: sum.splits)

lemma fails_in_hello_fields: "fails_in {CodecError, PeerCodecError} (read_hello_fields unpack_f)"
proof -
  have "fails_in {CodecError, PeerCodecError} (\<lambda>r. peer_error [TagError] (read_n (read_new_tag unpack_f) n r))" for n
    using fails_in_peer_error [OF fails_in_read_n [OF fails_in_new_tag], of "[TagError]"]
    by (rule fails_in_mono) auto
  then have "fails_in {CodecError, PeerCodecError} (parse_hello_tags unpack_f)"
    unfolding parse_hello_tags_def [abs_def] by (intro fails_in_bind fails_in_prims [THEN fails_in_mono]) auto
  then show ?thesis unfolding read_hello_fields_def [abs_def]
    by (intro fails_in_bind fails_in_prims [THEN fails_in_mono] fails_in_return) auto
qed

definition only_peer_error :: "'a res \<Rightarrow> bool" where
  "only_peer_error m \<longleftrightarrow> (case m of Inl e \<Rightarrow> e = PeerCodecError | Inr x \<Rightarrow> True)"

lemma only_peer_error_simps [simp]:
  "only_peer_error (Inr x)" "only_peer_error (Inl e) \<longleftrightarrow> e = PeerCodecError"
  by (simp_all add: only_peer_error_def)

lemma only_peer_error_bind:
  "only_peer_error m \<Longrightarrow> (\<And>x. m = Inr x \<Longrightarrow> only_peer_error (k x)) \<Longrightarrow> only_peer_error (bindE m k)"
  by (cases m) (auto simp: only_peer_error_def)

lemma only_peer_error_read:
  assumes "fails_in E get" and "E \<subseteq> insert PeerCodecError (set es)"
  shows "only_peer_error (peer_error es (get (from_bytes p)))"
proof -
  have "case get (from_bytes p) of Inl e \<Rightarrow> e \<in> E | Inr (x, r') \<Rightarrow> reader_ok r'"
    using assms(1) by (simp add: fails_in_def)
  then show ?thesis using assms(2) by (cases "get (from_bytes p)") (auto simp: peer_error_def)
qed

lemmas read_rules = fails_in_bind fails_in_prims [THEN fails_in_mono] fails_in_return

lemma hello_body_errors: "only_peer_error (peer_error [CodecError] (parse_hello_body unpack_f p))"
proof -
  have h: "case read_hello_hash p of Inl e \<Rightarrow> e = CodecError | Inr (u, r) \<Rightarrow> reader_ok r"
  proof (cases "read_u8 (from_bytes p)")
    case (Inl e)
    then show ?thesis using fails_in_prims(1) by (auto simp: read_hello_hash_def fails_in_def dest!: spec [of _ "from_bytes p"])
  next
    case (Inr q)
    then obtain n r1 where q: "read_u8 (from_bytes p) = Inr (n, r1)" by (cases q) auto
    then have r1: "reader_ok r1" using fails_in_prims(1) by (auto simp: fails_in_def dest!: spec [of _ "from_bytes p"])
    have b: "fails_in {CodecError} (read_bytes 16)" using fails_in_prims(5) [of 16] by simp
    show ?thesis
    proof (cases "n = 16")
      case True
      then show ?thesis using q fails_in_prims(6) r1
        by (auto simp: read_hello_hash_def fails_in_def dest!: spec [of _ r1] split: sum.splits)
    next
      case False
      then show ?thesis using q b
        by (auto simp: read_hello_hash_def fails_in_def dest!: spec [of _ "from_bytes p"] split: sum.splits)
    qed
  qed
  show ?thesis
  proof (cases "read_hello_hash p")
    case (Inl e)
    then show ?thesis using h by (simp add: parse_hello_body_def peer_error_def)
  next
    case (Inr q)
    then obtain u r1 where q: "read_hello_hash p = Inr (u, r1)" by (cases q) auto
    then have "reader_ok r1" using h by simp
    then have "case read_hello_fields unpack_f r1 of Inl e \<Rightarrow> e \<in> {CodecError, PeerCodecError} | Inr (x, r') \<Rightarrow> reader_ok r'"
      using fails_in_hello_fields [of unpack_f] unfolding fails_in_def by blast
    then show ?thesis
      by (cases "read_hello_fields unpack_f r1") (auto simp: parse_hello_body_def q peer_error_def split: if_splits)
  qed
qed

lemma fails_in_remaining:
  "fails_in {CodecError} (\<lambda>r. Inr (f r, snd (read_bytes_remaining r)))"
  "fails_in {CodecError} (\<lambda>r. read_bytes (remaining r) r)"
proof -
  show "fails_in {CodecError} (\<lambda>r. Inr (f r, snd (read_bytes_remaining r)))"
    by (simp add: fails_in_def read_bytes_remaining_def reader_ok_def)
  have "remaining r = int (length (rest r))" if "reader_ok r" for r
    using that by (simp add: remaining_def rest_def reader_ok_def)
  then show "fails_in {CodecError} (\<lambda>r. read_bytes (remaining r) r)"
    using fails_in_prims(5) by (auto simp: fails_in_def)
qed

lemma peer_read_errors:
  "fails_in {CodecError} (\<lambda>r. bindE (read_hash16 r) (\<lambda>(h, r1). bindE (get r1) (\<lambda>(s, r2). bindE (get r2)
     (\<lambda>(t, r3). Inr ((h, s, t, fst (read_bytes_remaining r3)), snd (read_bytes_remaining r3))))))"
  "fails_in {CodecError} (\<lambda>r. bindE (read_hash16 r) (\<lambda>(h, r1). bindE (get r1) (\<lambda>(s, r2). bindE (read_u32 r2)
     (\<lambda>(t, r3). bindE (read_bytes (remaining r3) r3) (\<lambda>(c, r4). Inr ((h, s, t, c), r4))))))"
  "fails_in {CodecError} (\<lambda>r. bindE (read_hash16 r) (\<lambda>(h, r1). bindE (get r1) (\<lambda>(s, r2). bindE (read_u32 r2)
     (\<lambda>(t, r3). bindE (read_bytes (int t) r3) (\<lambda>(c, r4). Inr ((h, s, c), r4))))))"
  "fails_in {CodecError} (read_request_parts get)"
  if "fails_in {CodecError} get"
  unfolding read_request_parts_def [abs_def]
  by (intro fails_in_bind fails_in_prims fails_in_read_n that fails_in_return fails_in_remaining fails_in_bind [OF fails_in_remaining(2)])+

lemma peer_part_errors:
  "only_peer_error (parse_file_hash_payload p)" "only_peer_error (parse_queue_rank p)"
  "only_peer_error (parse_request_parts p)" "only_peer_error (parse_request_parts_i64 p)"
  "only_peer_error (parse_sending_part p)" "only_peer_error (parse_sending_part_i64 p)"
  "only_peer_error (parse_compressed_part_chunk p)" "only_peer_error (parse_compressed_part_chunk_i64 p)"
proof -
  have u32: "fails_in {CodecError} read_u32" and u64: "fails_in {CodecError} read_u64" by (rule fails_in_prims)+
  note rd = only_peer_error_bind [OF only_peer_error_read [where es = "[CodecError]"]]
  show "only_peer_error (parse_file_hash_payload p)" "only_peer_error (parse_queue_rank p)"
    unfolding parse_file_hash_payload_def parse_queue_rank_def
    by (rule rd [OF fails_in_prims(6)] rd [OF u32]; simp split: prod.splits)+
  show "only_peer_error (parse_request_parts p)" "only_peer_error (parse_request_parts_i64 p)"
    unfolding parse_request_parts_def parse_request_parts_i64_def
    by (rule rd [OF peer_read_errors(4) [OF u32]] rd [OF peer_read_errors(4) [OF u64]];
        simp add: finish_request_parts_def split: prod.splits)+
  show "only_peer_error (parse_sending_part p)" "only_peer_error (parse_sending_part_i64 p)"
    unfolding parse_sending_part_def parse_sending_part_i64_def read_sending_part_def
    by (rule rd [OF peer_read_errors(1) [OF u32]] rd [OF peer_read_errors(1) [OF u64]]; simp split: prod.splits)+
  show "only_peer_error (parse_compressed_part_chunk p)" "only_peer_error (parse_compressed_part_chunk_i64 p)"
    unfolding parse_compressed_part_chunk_def parse_compressed_part_chunk_i64_def read_compressed_chunk_def
    by (rule rd [OF peer_read_errors(2) [OF u32]] rd [OF peer_read_errors(2) [OF u64]]; simp split: prod.splits)+
qed

text \<open>
  C29. Whatever a peer sends, the parsers of its HELLO, HELLO answer, file hash, file name, hash
  set, file status, part requests, part data, compressed chunks and queue rank raise
  \<open>PeerCodecError\<close> and nothing else, and so do those of compressed parts as long as zlib raises
  only its own error.
\<close>

theorem peer_parsers_raise_peer_error:
  assumes "\<And>d e. z_decompress z d = Inl e \<Longrightarrow> e = ZlibError"
  shows "list_all only_peer_error [map_sum id (\<lambda>_. ()) (parse_hello unpack_f p), map_sum id (\<lambda>_. ()) (parse_hello_answer unpack_f p),
    map_sum id (\<lambda>_. ()) (parse_file_hash_payload p), map_sum id (\<lambda>_. ()) (parse_filename_answer p),
    map_sum id (\<lambda>_. ()) (parse_hashset_answer p), map_sum id (\<lambda>_. ()) (parse_file_status p),
    map_sum id (\<lambda>_. ()) (parse_request_parts p), map_sum id (\<lambda>_. ()) (parse_request_parts_i64 p),
    map_sum id (\<lambda>_. ()) (parse_sending_part p), map_sum id (\<lambda>_. ()) (parse_sending_part_i64 p),
    map_sum id (\<lambda>_. ()) (parse_compressed_part_chunk p), map_sum id (\<lambda>_. ()) (parse_compressed_part_chunk_i64 p),
    map_sum id (\<lambda>_. ()) (parse_compressed_part z p), map_sum id (\<lambda>_. ()) (parse_compressed_part_i64 z p),
    map_sum id (\<lambda>_. ()) (parse_queue_rank p)]"
proof -
  have un: "only_peer_error (map_sum id (\<lambda>_. ()) m) = only_peer_error m" for m :: "'x res"
    by (cases m) simp_all
  have u32: "fails_in {CodecError} read_u32" and u64: "fails_in {CodecError} read_u64" by (rule fails_in_prims)+
  note rd = only_peer_error_bind [OF only_peer_error_read [where es = "[CodecError]"]]
  have "only_peer_error (parse_hello unpack_f p)" "only_peer_error (parse_hello_answer unpack_f p)"
    unfolding parse_hello_def parse_hello_answer_def
    by (rule only_peer_error_bind [OF hello_body_errors], simp add: case_prod_unfold Let_def)+
  moreover have "only_peer_error (parse_filename_answer p)"
    unfolding parse_filename_answer_def
    by (rule only_peer_error_bind [OF only_peer_error_read [where E = "{CodecError, UnicodeError}"]],
        intro fails_in_bind fails_in_prims [THEN fails_in_mono] fails_in_utf8 fails_in_return)
      (auto split: prod.splits)
  moreover have "only_peer_error (parse_hashset_answer p)"
    by (simp add: parse_hashset_answer_def Let_def split: option.splits list.splits)
  moreover have "only_peer_error (parse_file_status p)"
    unfolding parse_file_status_def
    by (rule only_peer_error_bind [OF only_peer_error_read [where E = "{CodecError}"]], intro fails_in_bind fails_in_prims fails_in_return) (auto split: prod.splits)
  moreover have zd: "only_peer_error (peer_error [ZlibError] (z_decompress z d))" for d
    using assms by (cases "z_decompress z d") (auto simp: peer_error_def)
  have "only_peer_error (parse_compressed_part z p)" "only_peer_error (parse_compressed_part_i64 z p)"
    unfolding parse_compressed_part_def parse_compressed_part_i64_def read_compressed_part_def
    by (rule rd [OF peer_read_errors(3) [OF u32]] rd [OF peer_read_errors(3) [OF u64]];
        auto split: prod.splits intro!: only_peer_error_bind zd)+
  ultimately show ?thesis using peer_part_errors by (simp add: un)
qed

definition id_zlib :: zlib where
  "id_zlib = \<lparr>z_compress = (\<lambda>d _. d), z_decompress = (\<lambda>d. Inr d), z_decompressobj = (\<lambda>d n. Inr (take n d, length d < n))\<rparr>"

theorem peer_parsers_raise_peer_error_witness:
  "list_all only_peer_error [map_sum id (\<lambda>_. ()) (parse_hello (\<lambda>_. ()) [16, 1]), map_sum id (\<lambda>_. ()) (parse_hello_answer (\<lambda>_. ()) [16, 1]),
    map_sum id (\<lambda>_. ()) (parse_file_hash_payload [16, 1]), map_sum id (\<lambda>_. ()) (parse_filename_answer [16, 1]),
    map_sum id (\<lambda>_. ()) (parse_hashset_answer [16, 1]), map_sum id (\<lambda>_. ()) (parse_file_status [16, 1]),
    map_sum id (\<lambda>_. ()) (parse_request_parts [16, 1]), map_sum id (\<lambda>_. ()) (parse_request_parts_i64 [16, 1]),
    map_sum id (\<lambda>_. ()) (parse_sending_part [16, 1]), map_sum id (\<lambda>_. ()) (parse_sending_part_i64 [16, 1]),
    map_sum id (\<lambda>_. ()) (parse_compressed_part_chunk [16, 1]), map_sum id (\<lambda>_. ()) (parse_compressed_part_chunk_i64 [16, 1]),
    map_sum id (\<lambda>_. ()) (parse_compressed_part id_zlib [16, 1]), map_sum id (\<lambda>_. ()) (parse_compressed_part_i64 id_zlib [16, 1]),
    map_sum id (\<lambda>_. ()) (parse_queue_rank [16, 1])]"
  by (rule peer_parsers_raise_peer_error) (simp add: id_zlib_def)

subsection \<open>File status\<close>

lemma bit_set_iff: "bit_set bs i \<longleftrightarrow> i div 8 < length bs \<and> bit (bs ! (i div 8)) (i mod 8)"
proof -
  have "(unat b div 2 ^ k mod 2 = 1) = bit b k" for b :: byte and k
    by (metis bit_iff_odd bit_unsigned_iff odd_iff_mod_2_eq_one possible_bit_nat)
  then show ?thesis by (simp add: bit_set_def)
qed

lemma length_set_chunk_bit [simp]: "length (set_chunk_bit j bs) = length bs"
  by (simp add: set_chunk_bit_def)

lemma bit_set_set_chunk_bit:
  assumes "j div 8 < length bs"
  shows "bit_set (set_chunk_bit j bs) i \<longleftrightarrow> bit_set bs i \<or> i = j"
proof -
  have e: "(i div 8 = j div 8 \<and> i mod 8 = j mod 8) = (i = j)"
    by (metis div_mult_mod_eq)
  have b: "bit (w OR push_bit k 1) m \<longleftrightarrow> bit w m \<or> m = k" if "k < 8" "m < 8" for w :: byte and k m
    using that by (auto simp: bit_simps)
  show ?thesis
  proof (cases "i div 8 = j div 8")
    case True
    then show ?thesis using assms b [of "j mod 8" "i mod 8"] e
      by (auto simp: bit_set_iff set_chunk_bit_def)
  next
    case False
    then show ?thesis using e by (auto simp: bit_set_iff set_chunk_bit_def)
  qed
qed

lemma bit_set_fold:
  "list_all (\<lambda>j. nat j div 8 < length bs) js \<Longrightarrow>
   bit_set (foldl (\<lambda>bs j. set_chunk_bit (nat j) bs) bs js) i \<longleftrightarrow> bit_set bs i \<or> i \<in> nat ` set js"
  by (induction js arbitrary: bs) (auto simp: bit_set_set_chunk_bit)

lemma length_bit_fold [simp]: "length (foldl (\<lambda>bs j. set_chunk_bit (nat j) bs) bs js) = length bs"
  by (induction js arbitrary: bs) auto

lemma bit_set_zero [simp]: "\<not> bit_set (replicate n 0) i"
  by (auto simp: bit_set_iff)

lemma index_bytes: "(a::nat) < b \<Longrightarrow> a div 8 < (b + 7) div 8"
proof -
  assume "a < b"
  then have "(a + 8) div 8 \<le> (b + 7) div 8" by (intro div_le_mono) simp
  moreover have "(a + 8) div 8 = a div 8 + 1" by simp
  ultimately show ?thesis by simp
qed

text \<open>
  The chunk map an uploader announces is the map its peer reads: the file hash, the number
  of chunks, and exactly the announced chunk numbers, in ascending order and without repetitions.
\<close>

theorem file_status_roundtrip:
  assumes "build_file_status_payload file_hash chunk_count present = Inr e"
  shows "parse_file_status e = Inr \<lparr>fs_hash = file_hash, fs_chunk_count = nat chunk_count,
    fs_present = filter (\<lambda>i. i \<in> nat ` set present) [0..<nat chunk_count]\<rparr> \<and>
    nat ` set present \<subseteq> {0..<nat chunk_count}"
proof -
  define m where "m = nat ((chunk_count + 7) div 8)"
  define bs where "bs = foldl (\<lambda>bs i. set_chunk_bit (nat i) bs) (replicate m 0) present"
  from assms have h: "length file_hash = 16" and n: "0 \<le> chunk_count" "chunk_count \<le> 0xFFFF"
    and p: "list_all (\<lambda>i. 0 \<le> i \<and> i < chunk_count) present"
    and e: "e = file_hash @ le_enc 2 (nat chunk_count) @ bs"
    by (auto simp: build_file_status_payload_def bindE_eq_Inr_conv write_Inr write_bytes_def Let_def
        bs_def m_def list_ex_iff list_all_iff split: if_splits)
  have lb: "length bs = m" by (simp add: bs_def)
  have m: "m = (nat chunk_count + 7) div 8" using n by (simp add: m_def nat_div_distrib nat_add_distrib)
  have idx: "list_all (\<lambda>j. nat j div 8 < length (replicate m (0 :: byte))) present"
  proof -
    have "nat j div 8 < m" if "j \<in> set present" for j
    proof -
      have "nat j < nat chunk_count" using p that by (auto simp: list_all_iff)
      then show ?thesis unfolding m using index_bytes by blast
    qed
    then show ?thesis by (simp add: list_all_iff)
  qed
  have bits: "bit_set bs = (\<lambda>i. i \<in> nat ` set present)"
    using bit_set_fold [OF idx] by (simp add: bs_def fun_eq_iff)
  have "reads (\<lambda>r. bindE (read_hash16 r) (\<lambda>(file_hash, r1).
         bindE (read_u16 r1) (\<lambda>(chunk_count, r2).
         bindE (read_bytes (int ((chunk_count + 7) div 8)) r2) (\<lambda>(bit_array, r3).
           Inr ((file_hash, chunk_count, bit_array), r3))))) e (file_hash, nat chunk_count, bs)"
    unfolding e
    by (rule reads_bind [OF reads_hash16 [OF h]], rule reads_bind [OF reads_u16], use n in simp, rule reads_map [OF reads_bytes])
      (simp add: lb m)
  from reads_whole [OF this] have "parse_file_status e = Inr \<lparr>fs_hash = file_hash, fs_chunk_count = nat chunk_count,
    fs_present = filter (bit_set bs) [0..<nat chunk_count]\<rparr>"
    by (simp add: parse_file_status_def)
  moreover have "nat ` set present \<subseteq> {0..<nat chunk_count}" using p by (auto simp: list_all_iff)
  ultimately show ?thesis by (simp add: bits)
qed

theorem file_status_roundtrip_witness:
  "\<exists>e. parse_file_status e = Inr \<lparr>fs_hash = replicate 16 7, fs_chunk_count = nat 10,
    fs_present = filter (\<lambda>i. i \<in> nat ` set [9, 1, 1]) [0..<nat 10]\<rparr> \<and> nat ` set [9, 1, 1] \<subseteq> {0..<nat 10}"
proof -
  have "\<exists>e. build_file_status_payload (replicate 16 7) 10 [9, 1, 1] = Inr e"
    by (simp add: build_file_status_payload_def write_hash16_def write_u16_def write_bytes_def Let_def)
  then obtain e where "build_file_status_payload (replicate 16 7) 10 [9, 1, 1] = Inr e" ..
  from file_status_roundtrip [OF this] show ?thesis by (rule exI)
qed

subsection \<open>Part requests and part data\<close>

lemma read_sending_part_whole:
  assumes h: "length h = 16" and s: "reads get e1 s" and t: "reads get e2 t"
  shows "read_sending_part get (h @ e1 @ e2 @ d) =
    (if int (length d) \<noteq> int t - int s then Inl PeerCodecError
     else Inr \<lparr>sp_hash = h, sp_start = s, sp_end = t, sp_data = d\<rparr>)"
proof -
  let ?r = "from_bytes (h @ e1 @ e2 @ d)"
  have 1: "read_hash16 ?r = Inr (h, advance (length h) ?r)" using readsD [OF reads_hash16 [OF h], of ?r "e1 @ e2 @ d"] by simp
  have ok1: "reader_ok (advance (length h) ?r)" by (rule reader_ok_advance) simp_all
  have r1: "rest (advance (length h) ?r) = e1 @ e2 @ d" by (simp add: rest_advance)
  have 2: "get (advance (length h) ?r) = Inr (s, advance (length e1) (advance (length h) ?r))"
    by (rule readsD [OF s ok1 r1])
  have ok2: "reader_ok (advance (length e1) (advance (length h) ?r))"
    by (rule reader_ok_advance [OF ok1]) (simp add: r1)
  have r2: "rest (advance (length e1) (advance (length h) ?r)) = e2 @ d" by (simp only: rest_advance [of "length e1"] r1) simp
  have 3: "get (advance (length e1) (advance (length h) ?r)) =
      Inr (t, advance (length e2) (advance (length e1) (advance (length h) ?r)))"
    by (rule readsD [OF t ok2 r2])
  have "rest (advance (length e2) (advance (length e1) (advance (length h) ?r))) = d"
    by (simp only: rest_advance [of "length e2"] r2) simp
  then have "fst (read_bytes_remaining (advance (length e2) (advance (length e1) (advance (length h) ?r)))) = d"
    by (simp add: read_bytes_remaining_def rest_def)
  then show ?thesis unfolding read_sending_part_def 1 bindE_Inr case_prod_conv 2 3 by (simp del: advance_advance)
qed

lemma reads_offsets:
  fixes put :: "int \<Rightarrow> writer \<Rightarrow> writer res"
  assumes "foldE (write_offset bd put) w xs = Inr w'"
    and put: "\<And>x v v'. 0 \<le> x \<Longrightarrow> x \<le> bd \<Longrightarrow> put x v = Inr v' \<Longrightarrow> \<exists>e. v' = v @ e \<and> reads get e (nat x)"
  shows "\<exists>e. w' = w @ e \<and> reads (read_n get (length xs)) e (map nat xs)"
  by (rule foldE_writes [OF assms(1)]) (auto simp: write_offset_def intro: put split: if_splits)

lemma put_u64: "0 \<le> x \<Longrightarrow> x \<le> 0xFFFFFFFFFFFFFFFF \<Longrightarrow> write_u64 x v = Inr v' \<Longrightarrow> \<exists>e. v' = v @ e \<and> reads read_u64 e (nat x)"
  using reads_u64 [of "nat x"] by (auto simp: write_Inr nat_less_iff)

lemma put_u32: "0 \<le> x \<Longrightarrow> x \<le> 0xFFFFFFFF \<Longrightarrow> write_u32 x v = Inr v' \<Longrightarrow> \<exists>e. v' = v @ e \<and> reads read_u32 e (nat x)"
  using reads_u32 [of "nat x"] by (auto simp: write_Inr nat_less_iff)

lemma request_parts_read:
  fixes put :: "int \<Rightarrow> writer \<Rightarrow> writer res"
  assumes h: "length h = 16" and v: "validate_starts_ends starts ends = Inr ()"
    and s: "foldE (write_offset bd put) h starts = Inr w2" and t: "foldE (write_offset bd put) w2 ends = Inr e"
    and put: "\<And>x v v'. 0 \<le> x \<Longrightarrow> x \<le> bd \<Longrightarrow> put x v = Inr v' \<Longrightarrow> \<exists>e. v' = v @ e \<and> reads get e (nat x)"
  shows "bindE (peer_error [CodecError] (read_request_parts get (from_bytes e))) finish_request_parts =
    Inr (h, map nat starts, map nat ends)"
proof -
  from v have l: "length starts = 3" "length ends = 3" and nn: "list_all (\<lambda>x. 0 \<le> x) starts" "list_all (\<lambda>x. 0 \<le> x) ends"
    and le: "list_all (\<lambda>(s, e). s \<le> e) (zip starts ends)"
    by (auto simp: validate_starts_ends_def validate_three_tuple_def bindE_eq_Inr_conv list_ex_iff list_all_iff not_less
        split: if_splits)
  have "\<exists>e. w2 = h @ e \<and> reads (read_n get (length starts)) e (map nat starts)"
    by (rule reads_offsets [OF s]) (rule put)
  then obtain e1 where e1: "w2 = h @ e1" "reads (read_n get 3) e1 (map nat starts)" using l by auto
  have "\<exists>e'. e = w2 @ e' \<and> reads (read_n get (length ends)) e' (map nat ends)"
    by (rule reads_offsets [OF t]) (rule put)
  then obtain e2 where e2: "e = w2 @ e2" "reads (read_n get 3) e2 (map nat ends)" using l by auto
  have "reads (read_request_parts get) (h @ (e1 @ e2)) (h, map nat starts, map nat ends)"
    unfolding read_request_parts_def [abs_def]
    by (rule reads_bind [OF reads_hash16 [OF h]], rule reads_bind [OF e1(2)], rule reads_map [OF e2(2)])
  from reads_whole [OF this] have r: "read_request_parts get (from_bytes e) =
      Inr ((h, map nat starts, map nat ends), advance (length e) (from_bytes e))" by (simp add: e1(1) e2(1))
  have "\<not> list_ex (\<lambda>(s, e). s > e) (zip (map nat starts) (map nat ends))"
    using le by (auto simp: list_ex_iff list_all_iff zip_map_map)
  then show ?thesis by (simp add: r finish_request_parts_def)
qed

lemma request_parts_i64_roundtrip:
  assumes "build_request_parts_i64_payload h starts ends = Inr e"
  shows "parse_request_parts_i64 e = Inr (h, map nat starts, map nat ends)"
proof -
  from assms obtain w2 where h: "length h = 16" and v: "validate_starts_ends starts ends = Inr ()"
    and s: "foldE (write_offset 0xFFFFFFFFFFFFFFFF write_u64) h starts = Inr w2"
    and t: "foldE (write_offset 0xFFFFFFFFFFFFFFFF write_u64) w2 ends = Inr e"
    by (auto simp: build_request_parts_i64_payload_def bindE_eq_Inr_conv write_Inr split: if_splits)
  show ?thesis unfolding parse_request_parts_i64_def by (rule request_parts_read [OF h v s t]) (rule put_u64)
qed

lemma request_parts_roundtrip:
  assumes "build_request_parts_payload h starts ends = Inr e"
  shows "parse_request_parts e = Inr (h, map nat starts, map nat ends)"
proof -
  from assms obtain w2 where h: "length h = 16" and v: "validate_starts_ends starts ends = Inr ()"
    and s: "foldE (write_offset 0xFFFFFFFF write_u32) h starts = Inr w2"
    and t: "foldE (write_offset 0xFFFFFFFF write_u32) w2 ends = Inr e"
    by (auto simp: build_request_parts_payload_def bindE_eq_Inr_conv write_Inr split: if_splits)
  show ?thesis unfolding parse_request_parts_def by (rule request_parts_read [OF h v s t]) (rule put_u32)
qed

lemma compressed_part_i64_roundtrip:
  assumes "build_compressed_part_i64_payload z h start d = Inr e"
    and z: "z_decompress z (z_compress z d (- 1)) = Inr d"
  shows "parse_compressed_part_i64 z e =
    Inr \<lparr>sp_hash = h, sp_start = nat start, sp_end = nat start + length d, sp_data = d\<rparr>"
proof -
  define c where "c = z_compress z d (- 1)"
  from assms(1) have h: "length h = 16" and s: "0 \<le> start" "start < 2 ^ 64" and d: "d \<noteq> []" and l: "length c < 2 ^ 32"
    and e: "e = h @ le_enc 8 (nat start) @ le_enc 4 (length c) @ c"
    by (auto simp: build_compressed_part_i64_payload_def bindE_eq_Inr_conv write_Inr write_bytes_def Let_def c_def
        split: if_splits)
  have "reads (\<lambda>r. bindE (read_hash16 r) (\<lambda>(file_hash, r1). bindE (read_u64 r1) (\<lambda>(start, r2).
         bindE (read_u32 r2) (\<lambda>(compressed_size, r3).
         bindE (read_bytes (int compressed_size) r3) (\<lambda>(compressed_data, r4).
           Inr ((file_hash, start, compressed_data), r4)))))) e (h, nat start, c)"
    unfolding e
    by (rule reads_bind [OF reads_hash16 [OF h]], rule reads_bind [OF reads_u64], use s in \<open>simp add: nat_less_iff\<close>,
        rule reads_bind [OF reads_u32 [OF l]], rule reads_map [OF reads_bytes [OF refl]])
  from reads_whole [OF this] show ?thesis
    using z d by (simp add: parse_compressed_part_i64_def read_compressed_part_def c_def)
qed

lemma sending_part_i64_roundtrip:
  assumes "build_sending_part_i64_payload h start stop d = Inr e"
  shows "parse_sending_part_i64 e = Inr \<lparr>sp_hash = h, sp_start = nat start, sp_end = nat stop, sp_data = d\<rparr>"
proof -
  from assms have h: "length h = 16" and s: "0 \<le> start" "start < 2 ^ 64" "0 \<le> stop" "stop < 2 ^ 64"
    and l: "int (length d) = stop - start" and e: "e = h @ le_enc 8 (nat start) @ le_enc 8 (nat stop) @ d"
    by (auto simp: build_sending_part_i64_payload_def bindE_eq_Inr_conv write_Inr write_bytes_def split: if_splits)
  have "nat start < 2 ^ 64" "nat stop < 2 ^ 64" using s by (simp_all add: nat_less_iff)
  from read_sending_part_whole [OF h reads_u64 [OF this(1)] reads_u64 [OF this(2)], of d] show ?thesis
    using l s by (simp add: parse_sending_part_i64_def e)
qed

text \<open>
  The 64-bit part messages are read as they were written: the offsets of a part request, and
  the range and bytes of a plain or compressed block, the latter as long as zlib inflates what it
  deflated. A block's range is the one its data fill.
\<close>

theorem part_messages_roundtrip:
  assumes "build_request_parts_i64_payload h starts ends = Inr rq"
    and "build_sending_part_i64_payload h start stop d = Inr sp"
    and "build_compressed_part_i64_payload z h start d = Inr cp"
    and "z_decompress z (z_compress z d (- 1)) = Inr d"
  shows "parse_request_parts_i64 rq = Inr (h, map nat starts, map nat ends) \<and>
    parse_sending_part_i64 sp = Inr \<lparr>sp_hash = h, sp_start = nat start, sp_end = nat stop, sp_data = d\<rparr> \<and>
    parse_compressed_part_i64 z cp = parse_sending_part_i64 sp"
proof -
  have "nat start + length d = nat stop"
    using assms(2) by (auto simp: build_sending_part_i64_payload_def bindE_eq_Inr_conv split: if_splits)
  then show ?thesis
    using request_parts_i64_roundtrip [OF assms(1)] sending_part_i64_roundtrip [OF assms(2)]
      compressed_part_i64_roundtrip [OF assms(3,4)] by simp
qed

theorem part_messages_roundtrip_witness:
  "\<exists>rq sp cp. parse_request_parts_i64 rq = Inr (replicate 16 7, map nat [0, 5, 0], map nat [3, 9, 0]) \<and>
    parse_sending_part_i64 sp = Inr \<lparr>sp_hash = replicate 16 7, sp_start = nat 5, sp_end = nat 7, sp_data = [1, 2]\<rparr> \<and>
    parse_compressed_part_i64 id_zlib cp = parse_sending_part_i64 sp"
proof -
  have "\<exists>rq. build_request_parts_i64_payload (replicate 16 7) [0, 5, 0] [3, 9, 0] = Inr rq"
    by (simp add: build_request_parts_i64_payload_def validate_starts_ends_def validate_three_tuple_def
        write_hash16_def write_offset_def write_u64_def)
  moreover have "\<exists>sp. build_sending_part_i64_payload (replicate 16 7) 5 7 [1, 2] = Inr sp"
    by (simp add: build_sending_part_i64_payload_def write_hash16_def write_u64_def write_bytes_def)
  moreover have "\<exists>cp. build_compressed_part_i64_payload id_zlib (replicate 16 7) 5 [1, 2] = Inr cp"
    by (simp add: build_compressed_part_i64_payload_def write_hash16_def write_u64_def write_u32_def write_bytes_def
        id_zlib_def Let_def)
  ultimately obtain rq sp cp where "build_request_parts_i64_payload (replicate 16 7) [0, 5, 0] [3, 9, 0] = Inr rq"
    "build_sending_part_i64_payload (replicate 16 7) 5 7 [1, 2] = Inr sp"
    "build_compressed_part_i64_payload id_zlib (replicate 16 7) 5 [1, 2] = Inr cp" by blast
  from part_messages_roundtrip [OF this] show ?thesis by (auto simp: id_zlib_def)
qed

subsection \<open>Source exchange\<close>

definition sx_ok :: "int \<Rightarrow> sx_source \<Rightarrow> bool" where
  "sx_ok v s \<longleftrightarrow> 0 \<le> sx_client_id s \<and> sx_client_id s < 2 ^ 32 \<and> 0 \<le> sx_port s \<and> sx_port s < 2 ^ 16 \<and>
     0 \<le> sx_server_ip s \<and> sx_server_ip s < 2 ^ 32 \<and> 0 \<le> sx_server_port s \<and> sx_server_port s < 2 ^ 16 \<and>
     0 \<le> sx_connect_options s \<and> sx_connect_options s < 2 ^ 8 \<and>
     (case sx_user_hash s of None \<Rightarrow> True | Some h \<Rightarrow> length h = 16)"

text \<open>What the receiver makes of an entry: below the high-id bound a version 3 reader swaps the id.\<close>

definition swap32 :: "int \<Rightarrow> int" where
  "swap32 x = int (be_dec (le_enc 4 (nat x)))"

definition sx_seen :: "int \<Rightarrow> sx_source \<Rightarrow> sx_source" where
  "sx_seen v s = s\<lparr>sx_client_id := (if v \<ge> 3 \<and> sx_client_id s < 16000000 then swap32 (sx_client_id s) else sx_client_id s),
     sx_user_hash := (if v \<ge> 2 then Some (case sx_user_hash s of None \<Rightarrow> replicate 16 0 | Some h \<Rightarrow> h) else None),
     sx_connect_options := (if v \<ge> 4 then sx_connect_options s else 0)\<rparr>"

lemma and_low_bits: "0 \<le> x \<Longrightarrow> x < 2 ^ n \<Longrightarrow> x AND (2 ^ n - 1) = (x :: int)"
  by (metis mask_eq_exp_minus_1 take_bit_eq_mask take_bit_int_eq_self)

lemma nat_and_32: "0 \<le> x \<Longrightarrow> x < 2 ^ 32 \<Longrightarrow> x AND 0xFFFFFFFF = (x :: int)"
  and nat_and_16: "0 \<le> x \<Longrightarrow> x < 2 ^ 16 \<Longrightarrow> x AND 0xFFFF = (x :: int)"
  and nat_and_8: "0 \<le> x \<Longrightarrow> x < 2 ^ 8 \<Longrightarrow> x AND 0xFF = (x :: int)"
  using and_low_bits [of x 32] and_low_bits [of x 16] and_low_bits [of x 8] by simp_all

lemma parse_sx_entry_enc:
  assumes ok: "sx_ok v s" and d: "drop off payload = sx_entry s v @ suf"
  shows "parse_sx_entry payload v off = Inr (sx_seen v s, off + length (sx_entry s v))"
    and "drop (off + length (sx_entry s v)) payload = suf"
proof -
  show "drop (off + length (sx_entry s v)) payload = suf" by (rule drop_add_append [OF d])
  define a where "a = (if v \<ge> 3 \<and> sx_client_id s \<ge> 16000000 then be_enc 4 (nat (sx_client_id s)) else le_enc 4 (nat (sx_client_id s)))"
  define u where "u = (if v \<ge> 2 then (case sx_user_hash s of None \<Rightarrow> replicate 16 0 | Some h \<Rightarrow> h) else ([] :: bytes))"
  define c where "c = (if v \<ge> 4 then [word_of_int (sx_connect_options s) :: byte] else [])"
  have la: "length a = 4" by (simp add: a_def)
  have lu: "length u = (if v \<ge> 2 then 16 else 0)" using ok by (simp add: u_def sx_ok_def split: option.splits)
  have e: "sx_entry s v = a @ le_enc 2 (nat (sx_port s)) @ le_enc 4 (nat (sx_server_ip s)) @ le_enc 2 (nat (sx_server_port s)) @ u @ c"
  proof -
    have "(case sx_user_hash s of None \<Rightarrow> replicate 16 (0 :: byte) | Some [] \<Rightarrow> replicate 16 0 | Some h \<Rightarrow> h) =
        (case sx_user_hash s of None \<Rightarrow> replicate 16 0 | Some h \<Rightarrow> h)"
      using ok by (auto simp: sx_ok_def split: option.splits list.splits)
    then show ?thesis using ok by (simp add: sx_entry_def Let_def a_def u_def c_def sx_ok_def nat_and_32 nat_and_16 nat_and_8)
  qed
  let ?t1 = "le_enc 2 (nat (sx_port s)) @ le_enc 4 (nat (sx_server_ip s)) @ le_enc 2 (nat (sx_server_port s)) @ u @ c @ suf"
  have d0: "drop off payload = a @ ?t1" by (simp add: d e)
  note s1 = py_slice_prefix [OF d0 la]
  have d1: "drop (off + 4) payload = ?t1" by (rule s1) simp
  note s2 = py_slice_prefix [OF d1 length_le_enc]
  have d2: "drop (off + 6) payload = le_enc 4 (nat (sx_server_ip s)) @ le_enc 2 (nat (sx_server_port s)) @ u @ c @ suf"
    using s2(2) by (simp add: add.commute)
  note s3 = py_slice_prefix [OF d2 length_le_enc]
  have d3: "drop (off + 10) payload = le_enc 2 (nat (sx_server_port s)) @ u @ c @ suf" using s3(2) by (simp add: add.commute)
  note s4 = py_slice_prefix [OF d3 length_le_enc]
  have d4: "drop (off + 12) payload = u @ c @ suf" using s4(2) by (simp add: add.commute)
  have b: "nat (sx_client_id s) < 256 ^ 4" "nat (sx_port s) < 256 ^ 2" "nat (sx_server_ip s) < 256 ^ 4" "nat (sx_server_port s) < 256 ^ 2"
    using ok by (simp_all add: sx_ok_def nat_less_iff)
  have u1: "unpack_le 4 (if v \<ge> 3 then rev (py_slice off (off + 4) payload) else py_slice off (off + 4) payload) =
      Inr (nat (sx_client_id (sx_seen v s)))"
  proof -
    have "py_slice off (off + 4) payload = a" using s1(1) by simp
    then show ?thesis using ok le_dec_le_enc [OF b(1)] be_dec_be_enc [OF b(1)]
      by (auto simp: unpack_le_def a_def sx_seen_def swap32_def be_dec_def be_enc_def la sx_ok_def)
  qed
  have u2: "unpack_le 2 (py_slice (off + 4) (off + 6) payload) = Inr (nat (sx_port s))"
    and u3: "unpack_le 4 (py_slice (off + 6) (off + 10) payload) = Inr (nat (sx_server_ip s))"
    and u4: "unpack_le 2 (py_slice (off + 10) (off + 12) payload) = Inr (nat (sx_server_port s))"
    using s2(1) s3(1) s4(1) b by (simp_all add: unpack_le_enc add.commute [of off 6] add.commute [of off 10] add.commute [of off 12])
  have uh: "py_slice (off + 12) (off + 12 + 16) payload = u" if "v \<ge> 2"
    using py_slice_prefix(1) [OF d4, of 16] lu that by simp
  have opt: "off + 12 + length u < length payload \<and> payload ! (off + 12 + length u) = word_of_int (sx_connect_options s)" if "v \<ge> 4"
  proof -
    have "drop (off + 12 + length u) payload = word_of_int (sx_connect_options s) # suf"
      using drop_add_append [OF d4] that by (simp add: c_def)
    then show ?thesis by (metis drop_eq_Nil2 hd_drop_conv_nth leI list.distinct(1) list.sel(1))
  qed
  have ub: "int (unat (word_of_int (sx_connect_options s) :: byte)) = sx_connect_options s"
    using ok by (simp add: sx_ok_def unsigned_of_int take_bit_int_eq_self)
  have len: "length (sx_entry s v) = 12 + length u + length c" by (simp add: e la)
  have sw: "0 \<le> sx_client_id (sx_seen v s)" using ok by (simp add: sx_seen_def swap32_def sx_ok_def)
  have fin: "\<lparr>sx_client_id = int (nat (sx_client_id (sx_seen v s))), sx_port = int (nat (sx_port s)),
      sx_server_ip = int (nat (sx_server_ip s)), sx_server_port = int (nat (sx_server_port s)),
      sx_user_hash = (if v \<ge> 2 then Some u else None), sx_connect_options = (if v \<ge> 4 then sx_connect_options s else 0)\<rparr> = sx_seen v s"
    using ok sw by (simp add: sx_seen_def sx_ok_def u_def)
  consider "v < 2" | "2 \<le> v" "v < 4" | "4 \<le> v" by linarith
  then show "parse_sx_entry payload v off = Inr (sx_seen v s, off + length (sx_entry s v))"
  proof cases
    case 1
    then show ?thesis unfolding parse_sx_entry_def u1 u2 u3 u4 bindE_Inr using fin lu len by (simp add: c_def)
  next
    case 2
    then show ?thesis unfolding parse_sx_entry_def u1 u2 u3 u4 bindE_Inr using fin lu len uh by (simp add: c_def Let_def)
  next
    case 3
    then show ?thesis unfolding parse_sx_entry_def u1 u2 u3 u4 bindE_Inr
      using fin lu len uh opt ub by (simp add: c_def Let_def)
  qed
qed

interpretation sx: wire_codec "\<lambda>s. sx_entry s v" "parse_sx_entry payload v" "sx_seen v"
    "\<lambda>off. drop off payload" "\<lambda>_. True" "sx_ok v" for payload v
  by unfold_locales (use parse_sx_entry_enc in blast)

lemma read_n_add:
  "read_n get (a + b) s = bindE (read_n get a s) (\<lambda>(xs, s1). bindE (read_n get b s1) (\<lambda>(ys, s2). Inr (xs @ ys, s2)))"
proof (induction a arbitrary: s)
  case 0
  show ?case by (cases "read_n get b s") auto
qed (simp add: bindE_assoc case_prod_unfold)

text \<open>
  A version 2 source answer comes back entry by entry, up to the 500 entries the builder
  writes; but the count is not capped with the entries, so a longer list cannot be parsed at all,
  and from version 3 on the reader takes the bytes of every client id in network order while the
  writer does so for high ids only, so low ids arrive with their bytes swapped.
\<close>

theorem answer_sources2_roundtrip:
  assumes "build_answer_sources2 version h sources = Inr e" and "list_all (sx_ok (clamp_version version)) sources"
  shows "parse_answer_sources2 e =
    (if length sources \<le> MAX_ANSWER_SOURCES
     then Inr (clamp_version version, h, map (sx_seen (clamp_version version)) sources) else Inl StructError)"
proof -
  define v where "v = clamp_version version"
  define ss where "ss = take MAX_ANSWER_SOURCES sources"
  define n where "n = length sources"
  have vb: "1 \<le> v" "v \<le> 4" by (simp_all add: v_def clamp_version_def)
  from assms(1) have h: "length h = 16" and n: "n < 256 ^ 2"
    and e: "e = [word_of_int v] @ h @ le_enc 2 n @ concat (map (\<lambda>s. sx_entry s v) ss)"
    by (auto simp: build_answer_sources2_def bindE_eq_Inr_conv pack_le_Inr_conv v_def ss_def n_def split: if_splits)
  have ok: "list_all (sx_ok v) ss" using assms(2) by (auto simp: ss_def v_def list_all_iff dest: in_set_takeD)
  have v0: "int (unat (e ! 0)) = v" using vb by (simp add: e unsigned_of_int take_bit_int_eq_self)
  have d1: "drop 1 e = h @ (le_enc 2 n @ concat (map (\<lambda>s. sx_entry s v) ss))" by (simp add: e)
  note s1 = py_slice_prefix [OF d1 h]
  have s1': "py_slice 1 17 e = h" using s1(1) by simp
  have d17: "drop 17 e = le_enc 2 n @ concat (map (\<lambda>s. sx_entry s v) ss)" using s1(2) by simp
  note s2 = py_slice_prefix [OF d17 length_le_enc]
  have cnt: "le_dec (py_slice 17 19 e) = n" using s2(1) le_dec_le_enc [OF n] by simp
  have d19: "drop 19 e = concat (map (\<lambda>s. sx_entry s v) ss) @ []" using s2(2) by (simp add: add.commute)
  have len: "\<not> length e < 19" using s2(3) by simp
  from sx.read_n_put [OF ok TrueI d19] obtain o' where
    r: "read_n (parse_sx_entry e v) (length ss) 19 = Inr (map (sx_seen v) ss, o')" and o: "drop o' e = []" by blast
  have p: "parse_answer_sources2 e = bindE (read_n (parse_sx_entry e v) n 19) (\<lambda>(sources, _). Inr (v, h, sources))"
    using len by (simp only: parse_answer_sources2_def Let_def v0 cnt s1' if_False)
  show ?thesis
  proof (cases "n \<le> MAX_ANSWER_SOURCES")
    case True
    then have "ss = sources" by (simp add: ss_def n_def)
    then show ?thesis using p r True by (simp add: n_def v_def)
  next
    case False
    define k where "k = n - MAX_ANSWER_SOURCES - 1"
    have nk: "n = length ss + Suc k" using False by (simp add: ss_def n_def k_def)
    have "py_slice o' (o' + 4) e = []" using o by (simp add: py_slice_def)
    then have "parse_sx_entry e v o' = Inl StructError" by (simp add: parse_sx_entry_def unpack_le_def)
    then have "read_n (parse_sx_entry e v) n 19 = Inl StructError"
      unfolding nk read_n_add r by simp
    then show ?thesis using p False by (simp add: n_def)
  qed
qed

theorem answer_sources2_roundtrip_witness:
  "\<exists>e. parse_answer_sources2 e = (if length [\<lparr>sx_client_id = 5, sx_port = 4662, sx_server_ip = 1, sx_server_port = 2,
        sx_user_hash = None, sx_connect_options = 3\<rparr>] \<le> MAX_ANSWER_SOURCES
     then Inr (clamp_version 4, replicate 16 7, map (sx_seen (clamp_version 4)) [\<lparr>sx_client_id = 5, sx_port = 4662,
        sx_server_ip = 1, sx_server_port = 2, sx_user_hash = None, sx_connect_options = 3\<rparr>]) else Inl StructError)"
proof -
  have "\<exists>e. build_answer_sources2 4 (replicate 16 7) [\<lparr>sx_client_id = 5, sx_port = 4662, sx_server_ip = 1, sx_server_port = 2,
        sx_user_hash = None, sx_connect_options = 3\<rparr>] = Inr e"
    by (simp add: build_answer_sources2_def pack_le_def)
  then obtain e where e: "build_answer_sources2 4 (replicate 16 7) [\<lparr>sx_client_id = 5, sx_port = 4662, sx_server_ip = 1,
        sx_server_port = 2, sx_user_hash = None, sx_connect_options = 3\<rparr>] = Inr e" ..
  have "parse_answer_sources2 e = (if length [\<lparr>sx_client_id = 5, sx_port = 4662, sx_server_ip = 1, sx_server_port = 2,
        sx_user_hash = None, sx_connect_options = 3\<rparr>] \<le> MAX_ANSWER_SOURCES
     then Inr (clamp_version 4, replicate 16 7, map (sx_seen (clamp_version 4)) [\<lparr>sx_client_id = 5, sx_port = 4662,
        sx_server_ip = 1, sx_server_port = 2, sx_user_hash = None, sx_connect_options = 3\<rparr>]) else Inl StructError)"
    by (rule answer_sources2_roundtrip [OF e]) (simp add: sx_ok_def)
  then show ?thesis by (rule exI)
qed

end
