(* ===== verification/Obfuscation.thy ===== *)
theory Obfuscation
  imports Prelude
begin

unbundle bit_operations_syntax

text \<open>
  \<open>core/peer/obfuscation.py\<close>: the TCP obfuscation handshakes. The dialer derives two RC4
  streams from the peer's user hash, sends a request, reads the response in whatever pieces it
  arrives and keeps the same two streams for the connection; the acceptor does the converse, and
  falls back to a Diffie-Hellman exchange. ARC4 and MD5 are libraries: \<open>arc4 key\<close> is the keystream
  of a key, \<open>None\<close> where \<open>ARC4.new\<close> refuses it, and \<open>md5\<close> the digest. The bytes of
  \<open>os.urandom\<close> are arguments; a stream reader is the bytes it still delivers.
\<close>

section \<open>Libraries and constants\<close>

type_synonym keystream = "nat \<Rightarrow> byte"
type_synonym arc4 = "bytes \<Rightarrow> keystream option"
type_synonym digest = "bytes \<Rightarrow> bytes"

text \<open>An MD5 digest has 16 bytes, and ARC4 takes keys of that length.\<close>

definition crypto_ok :: "arc4 \<Rightarrow> digest \<Rightarrow> bool" where
  "crypto_ok arc4 md5 \<longleftrightarrow> (\<forall>x. length (md5 x) = 16) \<and> (\<forall>k. length k = 16 \<longrightarrow> arc4 k \<noteq> None)"

definition prime_bytes :: bytes where
  "prime_bytes =
    [0xF2, 0xBF, 0x52, 0xC5, 0x5F, 0x58, 0x7A, 0xDD, 0x53, 0x71, 0xA9, 0x36, 0xE8, 0x86, 0xEB, 0x3C,
     0x62, 0x17, 0xA3, 0x3E, 0xC3, 0x4C, 0xB4, 0x0D, 0xC7, 0x3A, 0x41, 0xA6, 0x43, 0xAF, 0xFC, 0xE7,
     0x21, 0xFC, 0x28, 0x63, 0x66, 0x53, 0x5B, 0xDB, 0xCE, 0x25, 0x9F, 0x22, 0x86, 0xDA, 0x4A, 0x91,
     0xB2, 0x07, 0xCB, 0xAA, 0x52, 0x55, 0xD4, 0xF6, 0x1C, 0xCE, 0xAE, 0xD4, 0x5A, 0xD5, 0xE0, 0x74,
     0x7D, 0xF7, 0x78, 0x18, 0x28, 0x10, 0x5F, 0x34, 0x0F, 0x76, 0x23, 0x87, 0xF8, 0x8B, 0x28, 0x91,
     0x42, 0xFB, 0x42, 0x68, 0x8F, 0x05, 0x15, 0x0F, 0x54, 0x8B, 0x5F, 0x43, 0x6A, 0xF7, 0x0D, 0xF3]"

definition DIFFIE_HELLMAN_PRIME :: nat where "DIFFIE_HELLMAN_PRIME = be_dec prime_bytes"

definition DH_GENERATOR :: nat where "DH_GENERATOR = 2"
definition DH_PRIVATE_KEY_BITS :: nat where "DH_PRIVATE_KEY_BITS = 128"
definition DH_PUBKEY_BYTES :: nat where "DH_PUBKEY_BYTES = 96"
definition prohibited_markers :: "int list" where "prohibited_markers = [0xE3, 0xD4, 0xC5]"
definition MAGICVALUE_SYNC :: nat where "MAGICVALUE_SYNC = 0x835E6FC4"
definition MAGICVALUE_REQUESTER :: byte where "MAGICVALUE_REQUESTER = 34"
definition MAGICVALUE_SERVER :: byte where "MAGICVALUE_SERVER = 203"
definition ENM_OBFUSCATION :: byte where "ENM_OBFUSCATION = 0"
definition RC4_KEY_DROP_BYTES :: int where "RC4_KEY_DROP_BYTES = 1024"
definition MAX_PADDING_LENGTH :: nat where "MAX_PADDING_LENGTH = 16"

section \<open>The RC4 stream\<close>

primrec crypt_at :: "keystream \<Rightarrow> nat \<Rightarrow> bytes \<Rightarrow> bytes" where
  "crypt_at ks p [] = []"
| "crypt_at ks p (b # bs) = (b XOR ks p) # crypt_at ks (Suc p) bs"

record rc4_stream =
  rs_cipher :: keystream
  rs_pos :: nat
  rs_offset :: nat

text \<open>\<open>Rc4Stream(key, drop)\<close>: the drop moves the cipher, not the offset.\<close>

definition rc4_new :: "arc4 \<Rightarrow> bytes \<Rightarrow> int \<Rightarrow> rc4_stream res" where
  "rc4_new arc4 key drp =
     (if drp < 0 then Inl ObfuscationError
      else case arc4 key of
        None \<Rightarrow> Inl ValueError
      | Some ks \<Rightarrow> Inr \<lparr>rs_cipher = ks, rs_pos = nat drp, rs_offset = 0\<rparr>)"

definition rc4_crypt :: "bytes \<Rightarrow> rc4_stream \<Rightarrow> bytes \<times> rc4_stream" where
  "rc4_crypt data s =
     (crypt_at (rs_cipher s) (rs_pos s) data,
      s\<lparr>rs_pos := rs_pos s + length data, rs_offset := rs_offset s + length data\<rparr>)"

section \<open>Keys, markers and padding\<close>

record negotiation_keys =
  nk_send_key :: bytes
  nk_recv_key :: bytes
  nk_send_pad_len :: int
  nk_recv_pad_len :: int

text \<open>\<open>generate_dh_private_key\<close> on the 16 bytes of \<open>os.urandom\<close>: the top bit is set.\<close>

definition generate_dh_private_key :: "bytes \<Rightarrow> nat" where
  "generate_dh_private_key raw = be_dec (case raw of [] \<Rightarrow> [] | b # bs \<Rightarrow> (b OR 0x80) # bs)"

definition pow_mod :: "nat \<Rightarrow> nat \<Rightarrow> nat \<Rightarrow> nat" where
  "pow_mod b e m = b ^ e mod m"

text \<open>\<open>int.to_bytes(n, "big")\<close>\<close>

definition to_bytes_big :: "nat \<Rightarrow> nat \<Rightarrow> bytes res" where
  "to_bytes_big n v = (if v < 256 ^ n then Inr (be_enc n v) else Inl ValueError)"

definition compute_dh_public_key :: "int \<Rightarrow> bytes res" where
  "compute_dh_public_key private_key =
     (if private_key < 0 then Inl ObfuscationError
      else to_bytes_big DH_PUBKEY_BYTES (pow_mod DH_GENERATOR (nat private_key) DIFFIE_HELLMAN_PRIME))"

text \<open>The marker, from the integers the generator draws in turn.\<close>

definition not_protocol_marker :: "int list \<Rightarrow> int" where
  "not_protocol_marker draws =
     (case filter (\<lambda>c. c \<notin> set prohibited_markers) (take 128 draws) of c # _ \<Rightarrow> c | [] \<Rightarrow> 1)"

definition semirandom_padding_length :: "byte \<Rightarrow> nat" where
  "semirandom_padding_length b = unat b mod MAX_PADDING_LENGTH"

definition derive_basic_keys :: "digest \<Rightarrow> bytes \<Rightarrow> int \<Rightarrow> negotiation_keys res" where
  "derive_basic_keys md5 target_userhash random_key_part =
     (if length target_userhash \<noteq> 16 then Inl ObfuscationError
      else if \<not> (0 \<le> random_key_part \<and> random_key_part \<le> 0xFFFFFFFF) then Inl ObfuscationError
      else
        let random_key_bytes = le_enc 4 (nat random_key_part) in
        Inr \<lparr>nk_send_key = md5 (target_userhash @ [MAGICVALUE_REQUESTER] @ random_key_bytes),
             nk_recv_key = md5 (target_userhash @ [MAGICVALUE_SERVER] @ random_key_bytes),
             nk_send_pad_len = RC4_KEY_DROP_BYTES, nk_recv_pad_len = RC4_KEY_DROP_BYTES\<rparr>)"

section \<open>Diffie-Hellman messages\<close>

text \<open>\<open>draws\<close> and \<open>rnd\<close> are the random marker draws and, without explicit padding, the padding drawn.\<close>

definition build_dh_request :: "bytes \<Rightarrow> bytes option \<Rightarrow> int list \<Rightarrow> bytes \<Rightarrow> bytes res" where
  "build_dh_request pubkey padding draws rnd =
     (if length pubkey \<noteq> DH_PUBKEY_BYTES then Inl ObfuscationError
      else
        let marker = word_of_int (not_protocol_marker draws) in
        case padding of
          Some pad \<Rightarrow>
            if \<not> length pad < MAX_PADDING_LENGTH then Inl ObfuscationError
            else Inr ([marker] @ pubkey @ [word_of_nat (length pad)] @ pad)
        | None \<Rightarrow> Inr ([marker] @ pubkey @ [word_of_nat (length rnd)] @ rnd))"

definition parse_dh_response :: "bytes \<Rightarrow> (bytes \<times> bytes \<times> nat) res" where
  "parse_dh_response payload =
     (if length payload < DH_PUBKEY_BYTES + 4 then Inl ObfuscationError
      else
        let server_pubkey = take DH_PUBKEY_BYTES payload;
            magic_bytes = py_slice DH_PUBKEY_BYTES (DH_PUBKEY_BYTES + 4) payload in
        if le_dec magic_bytes \<noteq> MAGICVALUE_SYNC then Inl ObfuscationError
        else if length payload < DH_PUBKEY_BYTES + 7 then Inl ObfuscationError
        else
          let recv_padding_len = unat (payload ! (DH_PUBKEY_BYTES + 6)) in
          if length payload < DH_PUBKEY_BYTES + 7 + recv_padding_len then Inl ObfuscationError
          else Inr (server_pubkey, magic_bytes, recv_padding_len))"

definition derive_keys :: "digest \<Rightarrow> int \<Rightarrow> bytes \<Rightarrow> bytes \<Rightarrow> int \<Rightarrow> int \<Rightarrow> negotiation_keys res" where
  "derive_keys md5 private_key server_pubkey client_pubkey recv_pad_len send_pad_len =
     (if private_key < 0 then Inl ObfuscationError
      else if length server_pubkey \<noteq> DH_PUBKEY_BYTES then Inl ObfuscationError
      else if length client_pubkey \<noteq> DH_PUBKEY_BYTES then Inl ObfuscationError
      else if \<not> (0 \<le> send_pad_len \<and> send_pad_len \<le> 0xFFFF) then Inl ObfuscationError
      else if \<not> (0 \<le> recv_pad_len \<and> recv_pad_len \<le> 0xFFFF) then Inl ObfuscationError
      else
        bindE (to_bytes_big DH_PUBKEY_BYTES (pow_mod (be_dec server_pubkey) (nat private_key) DIFFIE_HELLMAN_PRIME))
          (\<lambda>shared_buf.
            Inr \<lparr>nk_send_key = md5 (shared_buf @ [MAGICVALUE_REQUESTER]),
                 nk_recv_key = md5 (shared_buf @ [MAGICVALUE_SERVER]),
                 nk_send_pad_len = RC4_KEY_DROP_BYTES, nk_recv_pad_len = RC4_KEY_DROP_BYTES\<rparr>))"

section \<open>The dialer's session\<close>

datatype basic_state = Pending | Negotiating | Encrypting | Failed

record basic_session =
  bs_keys :: negotiation_keys
  bs_random_key_part :: int
  bs_padding :: "bytes option"
  bs_send :: rc4_stream
  bs_recv :: rc4_stream
  bs_state :: basic_state
  bs_rx :: bytes
  bs_peer_pad_len :: "nat option"

text \<open>\<open>rnd4\<close> is the random key part drawn when the caller gives none.\<close>

definition basic_session_new :: "arc4 \<Rightarrow> digest \<Rightarrow> bytes \<Rightarrow> int option \<Rightarrow> bytes option \<Rightarrow> bytes \<Rightarrow> basic_session res" where
  "basic_session_new arc4 md5 target_userhash random_key_part padding rnd4 =
     (if length target_userhash \<noteq> 16 then Inl ObfuscationError
      else
        bindE (case random_key_part of
                 None \<Rightarrow> Inr (int (le_dec rnd4))
               | Some k \<Rightarrow> if \<not> (0 \<le> k \<and> k \<le> 0xFFFFFFFF) then Inl ObfuscationError else Inr k) (\<lambda>key_part.
        if (case padding of Some p \<Rightarrow> length p > 0xFF | None \<Rightarrow> False) then Inl ObfuscationError
        else
          bindE (derive_basic_keys md5 target_userhash key_part) (\<lambda>keys.
          bindE (rc4_new arc4 (nk_send_key keys) (nk_send_pad_len keys)) (\<lambda>send.
          bindE (rc4_new arc4 (nk_recv_key keys) (nk_recv_pad_len keys)) (\<lambda>recv.
            Inr \<lparr>bs_keys = keys, bs_random_key_part = key_part, bs_padding = padding, bs_send = send, bs_recv = recv,
                 bs_state = Pending, bs_rx = [], bs_peer_pad_len = None\<rparr>)))))"

definition is_established :: "basic_session \<Rightarrow> bool" where
  "is_established s \<longleftrightarrow> bs_state s = Encrypting"

definition send_offset :: "basic_session \<Rightarrow> nat" where "send_offset s = rs_offset (bs_send s)"
definition recv_offset :: "basic_session \<Rightarrow> nat" where "recv_offset s = rs_offset (bs_recv s)"

text \<open>\<open>bytes((a, b, n))\<close> raises \<open>ValueError\<close> for a number above 255.\<close>

definition byte_of_len :: "bytes \<Rightarrow> byte res" where
  "byte_of_len pad = (if length pad \<le> 0xFF then Inr (word_of_nat (length pad)) else Inl ValueError)"

definition build_request :: "int list \<Rightarrow> bytes \<Rightarrow> basic_session \<Rightarrow> (bytes \<times> basic_session) res" where
  "build_request draws rnd s =
     (if bs_state s \<noteq> Pending then Inl ObfuscationError
      else
        let pad = (case bs_padding s of Some p \<Rightarrow> p | None \<Rightarrow> rnd);
            plaintext = [word_of_int (not_protocol_marker draws)] @ le_enc 4 (nat (bs_random_key_part s)) in
        bindE (byte_of_len pad) (\<lambda>n.
          let (body, send) = rc4_crypt (le_enc 4 MAGICVALUE_SYNC @ [ENM_OBFUSCATION, ENM_OBFUSCATION, n] @ pad) (bs_send s) in
          Inr (plaintext @ body, s\<lparr>bs_send := send, bs_state := Negotiating\<rparr>)))"

text \<open>\<open>feed_response\<close>: the outcome and the session, which a refusal leaves failed.\<close>

definition check_response_header :: "basic_session \<Rightarrow> unit option res \<times> basic_session" where
  "check_response_header s =
     (if bs_peer_pad_len s \<noteq> None then (Inr (Some ()), s)
      else if length (bs_rx s) \<ge> 4 \<and> le_dec (take 4 (bs_rx s)) \<noteq> MAGICVALUE_SYNC
        then (Inl ObfuscationError, s\<lparr>bs_state := Failed\<rparr>)
      else if length (bs_rx s) < 6 then (Inr None, s)
      else if bs_rx s ! 4 \<noteq> ENM_OBFUSCATION then (Inl ObfuscationError, s\<lparr>bs_state := Failed\<rparr>)
      else (Inr (Some ()), s\<lparr>bs_peer_pad_len := Some (unat (bs_rx s ! 5))\<rparr>))"

definition feed_response :: "bytes \<Rightarrow> basic_session \<Rightarrow> bytes option res \<times> basic_session" where
  "feed_response data s =
     (if bs_state s \<noteq> Negotiating then (Inl ObfuscationError, s)
      else if data = [] then (Inr None, s)
      else
        let (plain, recv) = rc4_crypt data (bs_recv s);
            s1 = s\<lparr>bs_recv := recv, bs_rx := bs_rx s @ plain\<rparr> in
        case check_response_header s1 of
          (Inl e, s2) \<Rightarrow> (Inl e, s2)
        | (Inr None, s2) \<Rightarrow> (Inr None, s2)
        | (Inr (Some _), s2) \<Rightarrow>
            let n = 6 + the (bs_peer_pad_len s2) in
            if length (bs_rx s2) < n then (Inr None, s2)
            else (Inr (Some (drop n (bs_rx s2))), s2\<lparr>bs_rx := [], bs_state := Encrypting\<rparr>))"

definition session_encrypt :: "bytes \<Rightarrow> basic_session \<Rightarrow> (bytes \<times> basic_session) res" where
  "session_encrypt data s =
     (if bs_state s \<noteq> Encrypting then Inl ObfuscationError
      else let (out, st) = rc4_crypt data (bs_send s) in Inr (out, s\<lparr>bs_send := st\<rparr>))"

definition session_decrypt :: "bytes \<Rightarrow> basic_session \<Rightarrow> (bytes \<times> basic_session) res" where
  "session_decrypt data s =
     (if bs_state s \<noteq> Encrypting then Inl ObfuscationError
      else let (out, st) = rc4_crypt data (bs_recv s) in Inr (out, s\<lparr>bs_recv := st\<rparr>))"

text \<open>\<open>_read_response\<close> on the pieces the stream delivers; an empty piece is the end of the stream.\<close>

fun read_response :: "bytes list \<Rightarrow> basic_session \<Rightarrow> (bytes \<times> basic_session \<times> bytes list) res" where
  "read_response [] s = Inl ObfuscationError"
| "read_response (chunk # chunks) s =
     (if chunk = [] then Inl ObfuscationError
      else case feed_response chunk s of
        (Inl e, _) \<Rightarrow> Inl e
      | (Inr (Some leftover), s1) \<Rightarrow> Inr (leftover, s1, chunks)
      | (Inr None, s1) \<Rightarrow> read_response chunks s1)"

definition negotiate_basic_client ::
    "arc4 \<Rightarrow> digest \<Rightarrow> bytes \<Rightarrow> int option \<Rightarrow> bytes option \<Rightarrow> bytes \<Rightarrow> int list \<Rightarrow> bytes \<Rightarrow> bytes list \<Rightarrow>
       (bytes \<times> basic_session \<times> bytes) res" where
  "negotiate_basic_client arc4 md5 target_userhash random_key_part padding rnd4 draws rnd chunks =
     bindE (basic_session_new arc4 md5 target_userhash random_key_part padding rnd4) (\<lambda>s0.
     bindE (build_request draws rnd s0) (\<lambda>(request, s1).
     bindE (read_response chunks s1) (\<lambda>(leftover, s2, _). Inr (request, s2, leftover))))"

text \<open>The helpers that only build or only check a handshake.\<close>

definition build_basic_client_request ::
    "arc4 \<Rightarrow> digest \<Rightarrow> bytes \<Rightarrow> int option \<Rightarrow> bytes option \<Rightarrow> bytes \<Rightarrow> int list \<Rightarrow> bytes \<Rightarrow> (bytes \<times> negotiation_keys \<times> int) res" where
  "build_basic_client_request arc4 md5 target_userhash random_key_part padding rnd4 draws rnd =
     (if (case padding of Some p \<Rightarrow> \<not> length p < MAX_PADDING_LENGTH | None \<Rightarrow> False) then Inl ObfuscationError
      else
        bindE (basic_session_new arc4 md5 target_userhash random_key_part padding rnd4) (\<lambda>s.
        bindE (build_request draws rnd s) (\<lambda>(request, s1). Inr (request, bs_keys s1, bs_random_key_part s1))))"

definition parse_basic_client_response :: "arc4 \<Rightarrow> bytes \<Rightarrow> negotiation_keys \<Rightarrow> nat res" where
  "parse_basic_client_response arc4 payload keys =
     (if length payload < 4 then Inl ObfuscationError
      else
        bindE (rc4_new arc4 (nk_recv_key keys) (nk_recv_pad_len keys)) (\<lambda>recv_stream.
          let d = fst (rc4_crypt payload recv_stream) in
          if length d < 4 then Inl ObfuscationError
          else if le_dec (take 4 d) \<noteq> MAGICVALUE_SYNC then Inl ObfuscationError
          else if length d < 6 then Inl ObfuscationError
          else if d ! 4 \<noteq> ENM_OBFUSCATION then Inl ObfuscationError
          else let n = 6 + unat (d ! 5) in if length d < n then Inl ObfuscationError else Inr n))"

section \<open>The acceptor\<close>

record acceptor =
  as_send :: rc4_stream
  as_recv :: rc4_stream

definition acceptor_encrypt :: "bytes \<Rightarrow> acceptor \<Rightarrow> bytes \<times> acceptor" where
  "acceptor_encrypt wire a = (let (out, st) = rc4_crypt wire (as_send a) in (out, a\<lparr>as_send := st\<rparr>))"

definition acceptor_decrypt :: "bytes \<Rightarrow> acceptor \<Rightarrow> bytes \<times> acceptor" where
  "acceptor_decrypt raw a = (let (out, st) = rc4_crypt raw (as_recv a) in (out, a\<lparr>as_recv := st\<rparr>))"

text \<open>The connection: what the reader still delivers and what was written.\<close>

record conn =
  c_rx :: bytes
  c_tx :: bytes

definition read_exact :: "nat \<Rightarrow> conn \<Rightarrow> (bytes \<times> conn) res" where
  "read_exact n c =
     (if length (c_rx c) < n then Inl EOFError else Inr (take n (c_rx c), c\<lparr>c_rx := drop n (c_rx c)\<rparr>))"

definition conn_write :: "bytes \<Rightarrow> conn \<Rightarrow> conn" where
  "conn_write data c = c\<lparr>c_tx := c_tx c @ data\<rparr>"

definition derive_acceptor_keys :: "digest \<Rightarrow> bytes \<Rightarrow> nat \<Rightarrow> bytes \<times> bytes" where
  "derive_acceptor_keys md5 own_userhash keypart =
     (let part = le_enc 4 keypart in
      (md5 (own_userhash @ [MAGICVALUE_SERVER] @ part), md5 (own_userhash @ [MAGICVALUE_REQUESTER] @ part)))"

definition given_or_read :: "bytes option \<Rightarrow> nat \<Rightarrow> conn \<Rightarrow> (bytes \<times> conn) res" where
  "given_or_read raw n c = (case raw of Some r \<Rightarrow> Inr (r, c) | None \<Rightarrow> read_exact n c)"

text \<open>The tail of the request, method bytes, padding length and padding, read and dropped.\<close>

definition skip_request_tail :: "rc4_stream \<Rightarrow> conn \<Rightarrow> (rc4_stream \<times> conn) res" where
  "skip_request_tail recv1 c =
     bindE (read_exact 2 c) (\<lambda>(m, c1).
       let (_, recv2) = rc4_crypt m recv1 in
       bindE (read_exact 1 c1) (\<lambda>(p, c2).
         let (p', recv3) = rc4_crypt p recv2; padlen = unat (p' ! 0) in
         if padlen = 0 then Inr (recv3, c2)
         else bindE (read_exact padlen c2) (\<lambda>(pad, c3). Inr (snd (rc4_crypt pad recv3), c3))))"

text \<open>A refusal of the magic happens before anything more is read, so no connection is returned with an error.\<close>

definition accept_basic_client ::
    "arc4 \<Rightarrow> digest \<Rightarrow> bytes \<Rightarrow> bytes option \<Rightarrow> bytes option \<Rightarrow> bytes option \<Rightarrow> bytes \<Rightarrow> conn \<Rightarrow> (acceptor \<times> bytes \<times> conn) res" where
  "accept_basic_client arc4 md5 own_userhash keypart_raw magic_raw padding rnd c =
     (if length own_userhash \<noteq> 16 then Inl ObfuscationError
      else
        bindE (given_or_read keypart_raw 4 c) (\<lambda>(keypart, c1).
        if length keypart \<noteq> 4 then Inl ObfuscationError
        else
          let (send_key, recv_key) = derive_acceptor_keys md5 own_userhash (le_dec keypart) in
          bindE (rc4_new arc4 recv_key RC4_KEY_DROP_BYTES) (\<lambda>recv.
          bindE (rc4_new arc4 send_key RC4_KEY_DROP_BYTES) (\<lambda>send.
          bindE (given_or_read magic_raw 4 c1) (\<lambda>(raw, c2).
          let (plain, recv1) = rc4_crypt raw recv in
          bindE (unpack_le 4 plain) (\<lambda>magic.
          if magic \<noteq> MAGICVALUE_SYNC then Inl ObfuscationError
          else
            bindE (skip_request_tail recv1 c2) (\<lambda>(recv2, c3).
            let resp_pad = (case padding of Some p \<Rightarrow> p | None \<Rightarrow> rnd) in
            bindE (byte_of_len resp_pad) (\<lambda>n.
              let (out, send1) = rc4_crypt (le_enc 4 MAGICVALUE_SYNC @ [ENM_OBFUSCATION, n] @ resp_pad) send in
              Inr (\<lparr>as_send = send1, as_recv = recv2\<rparr>, [], conn_write out c3)))))))))"

definition accept_dh_client ::
    "arc4 \<Rightarrow> digest \<Rightarrow> bytes \<Rightarrow> bytes option \<Rightarrow> bytes \<Rightarrow> bytes \<Rightarrow> conn \<Rightarrow> (acceptor \<times> bytes \<times> conn) res" where
  "accept_dh_client arc4 md5 g_a padding rnd_key rnd c =
     (if length g_a \<noteq> DH_PUBKEY_BYTES then Inl ObfuscationError
      else
        bindE (read_exact 1 c) (\<lambda>(p, c1).
        let padlen = unat (p ! 0) in
        bindE (if padlen = 0 then Inr ([], c1) else read_exact padlen c1) (\<lambda>(_, c2).
        let b = generate_dh_private_key rnd_key in
        bindE (compute_dh_public_key (int b)) (\<lambda>g_b.
        bindE (to_bytes_big DH_PUBKEY_BYTES (pow_mod (be_dec g_a) b DIFFIE_HELLMAN_PRIME)) (\<lambda>shared_buf.
        bindE (rc4_new arc4 (md5 (shared_buf @ [MAGICVALUE_SERVER])) RC4_KEY_DROP_BYTES) (\<lambda>send.
        bindE (rc4_new arc4 (md5 (shared_buf @ [MAGICVALUE_REQUESTER])) RC4_KEY_DROP_BYTES) (\<lambda>recv.
        let resp_pad = (case padding of Some q \<Rightarrow> q | None \<Rightarrow> rnd) in
        bindE (byte_of_len resp_pad) (\<lambda>n.
          let (out, send1) = rc4_crypt (le_enc 4 MAGICVALUE_SYNC @ [ENM_OBFUSCATION, n] @ resp_pad) send in
          Inr (\<lparr>as_send = send1, as_recv = recv\<rparr>, [], conn_write (g_b @ out) c2)))))))))"

text \<open>The dispatcher: BASIC on the eight bytes read ahead, else the Diffie-Hellman acceptor.\<close>

definition accept_obfuscated_client ::
    "arc4 \<Rightarrow> digest \<Rightarrow> bytes \<Rightarrow> bool \<Rightarrow> bytes \<Rightarrow> bytes \<Rightarrow> bytes \<Rightarrow> conn \<Rightarrow> (acceptor \<times> bytes \<times> conn) res" where
  "accept_obfuscated_client arc4 md5 own_userhash allow_dh rnd_key rnd rnd_dh c =
     bindE (read_exact 4 c) (\<lambda>(keypart_raw, c1).
     bindE (read_exact 4 c1) (\<lambda>(magic_raw, c2).
       case accept_basic_client arc4 md5 own_userhash (Some keypart_raw) (Some magic_raw) None rnd c2 of
         Inr r \<Rightarrow> Inr r
       | Inl e \<Rightarrow>
           if e \<noteq> ObfuscationError \<or> \<not> allow_dh then Inl e
           else
             let head = keypart_raw @ magic_raw in
             bindE (if DH_PUBKEY_BYTES > length head then read_exact (DH_PUBKEY_BYTES - length head) c2 else Inr ([], c2))
               (\<lambda>(g, c3). accept_dh_client arc4 md5 (head @ g) None rnd_key rnd_dh c3)))"

section \<open>The stream cipher\<close>

lemma length_crypt_at [simp]: "length (crypt_at ks p d) = length d"
  by (induction d arbitrary: p) auto

lemma crypt_at_append: "crypt_at ks p (x @ y) = crypt_at ks p x @ crypt_at ks (p + length x) y"
  by (induction x arbitrary: p) auto

lemma crypt_at_twice [simp]: "crypt_at ks p (crypt_at ks p d) = d"
  by (induction d arbitrary: p) (auto simp: xor.assoc)

lemma crypt_at_eq_iff: "crypt_at ks p x = y \<longleftrightarrow> x = crypt_at ks p y"
  by auto

lemma take_crypt_at: "take n (crypt_at ks p d) = crypt_at ks p (take n d)"
  by (induction d arbitrary: n p) (auto simp: take_Cons split: nat.split)

lemma drop_crypt_at: "n \<le> length d \<Longrightarrow> drop n (crypt_at ks p d) = crypt_at ks (p + n) (drop n d)"
  by (induction d arbitrary: n p) (auto simp: drop_Cons split: nat.split)

lemma rc4_crypt_simps [simp]:
  "fst (rc4_crypt d s) = crypt_at (rs_cipher s) (rs_pos s) d"
  "rs_cipher (snd (rc4_crypt d s)) = rs_cipher s"
  "rs_pos (snd (rc4_crypt d s)) = rs_pos s + length d"
  "rs_offset (snd (rc4_crypt d s)) = rs_offset s + length d"
  by (simp_all add: rc4_crypt_def)

section \<open>The handshake\<close>

text \<open>The plain response, and the dialer that has seen the prefix \<open>x\<close> of it.\<close>

definition hs_response :: "bytes \<Rightarrow> bytes" where
  "hs_response pad = le_enc 4 MAGICVALUE_SYNC @ [ENM_OBFUSCATION, word_of_nat (length pad)] @ pad"

definition hs_at :: "bytes \<Rightarrow> nat \<Rightarrow> basic_session \<Rightarrow> bool" where
  "hs_at pad k s \<longleftrightarrow> bs_state s = Negotiating \<and> bs_rx s = take k (hs_response pad) \<and>
     bs_peer_pad_len s = (if k \<ge> 6 then Some (length pad) else None)"

lemma length_hs_response [simp]: "length (hs_response pad) = 6 + length pad"
  by (simp add: hs_response_def)

lemma hs_response_fields:
  "take 4 (hs_response pad) = le_enc 4 MAGICVALUE_SYNC" "hs_response pad ! 4 = ENM_OBFUSCATION"
  "hs_response pad ! 5 = word_of_nat (length pad)" "drop 6 (hs_response pad) = pad"
  by (simp_all add: hs_response_def nth_append)

lemma magic_dec: "le_dec (le_enc 4 MAGICVALUE_SYNC) = MAGICVALUE_SYNC"
  by (rule le_dec_le_enc) (simp add: MAGICVALUE_SYNC_def)

lemma unat_len: "length pad \<le> 255 \<Longrightarrow> unat (word_of_nat (length pad) :: byte) = length pad"
  by (simp add: unat_byte_of_nat)

lemma check_response_header_prefix:
  assumes p: "length pad \<le> 255" and k: "k \<le> 6 + length pad" and rx: "bs_rx s = take k (hs_response pad)"
    and pp: "bs_peer_pad_len s = None \<or> bs_peer_pad_len s = Some (length pad) \<and> k \<ge> 6"
  shows "check_response_header s =
    (if k \<ge> 6 then (Inr (Some ()), s\<lparr>bs_peer_pad_len := Some (length pad)\<rparr>) else (Inr None, s))"
proof (cases "bs_peer_pad_len s")
  case None
  have lk: "length (bs_rx s) = k" using rx k by simp
  have m: "le_dec (take 4 (bs_rx s)) = MAGICVALUE_SYNC" if "k \<ge> 4"
    using that by (simp add: rx min_absorb1 hs_response_fields(1) magic_dec)
  show ?thesis
  proof (cases "k \<ge> 6")
    case True
    then have "bs_rx s ! 4 = ENM_OBFUSCATION" "bs_rx s ! 5 = word_of_nat (length pad)"
      by (simp_all add: rx hs_response_fields)
    with True m None lk p show ?thesis by (simp add: check_response_header_def unat_len)
  next
    case False
    with m None lk show ?thesis by (simp add: check_response_header_def)
  qed
next
  case (Some q)
  with pp show ?thesis by (simp add: check_response_header_def)
qed

text \<open>One piece \<open>y\<close> of the response, from position \<open>k\<close> on.\<close>

lemma feed_response_piece:
  assumes p: "length pad \<le> 255" and h: "hs_at pad k s" and y: "y \<noteq> []"
    and k: "k + length y \<le> 6 + length pad" and pl: "py_slice k (k + length y) (hs_response pad) = y"
    and d: "data = crypt_at (rs_cipher (bs_recv s)) (rs_pos (bs_recv s)) y"
  shows "\<exists>s'. feed_response data s = (Inr (if k + length y = 6 + length pad then Some [] else None), s') \<and>
     bs_send s' = bs_send s \<and> bs_recv s' = snd (rc4_crypt y (bs_recv s)) \<and> bs_keys s' = bs_keys s \<and>
     (if k + length y = 6 + length pad then bs_state s' = Encrypting else hs_at pad (k + length y) s')"
proof -
  define s1 where "s1 = s\<lparr>bs_recv := snd (rc4_crypt data (bs_recv s)), bs_rx := bs_rx s @ y\<rparr>"
  have rx: "bs_rx s1 = take (k + length y) (hs_response pad)"
    using h k pl by (simp add: s1_def hs_at_def py_slice_def take_add)
  have ld: "length data = length y" by (simp add: d)
  have recv: "snd (rc4_crypt data (bs_recv s)) = snd (rc4_crypt y (bs_recv s))" by (simp add: rc4_crypt_def ld)
  have ne: "data \<noteq> []" using y ld by auto
  have f: "feed_response data s =
      (case check_response_header s1 of
          (Inl e, s2) \<Rightarrow> (Inl e, s2)
        | (Inr None, s2) \<Rightarrow> (Inr None, s2)
        | (Inr (Some _), s2) \<Rightarrow>
            let n = 6 + the (bs_peer_pad_len s2) in
            if length (bs_rx s2) < n then (Inr None, s2)
            else (Inr (Some (drop n (bs_rx s2))), s2\<lparr>bs_rx := [], bs_state := Encrypting\<rparr>))"
    using h ne by (simp add: feed_response_def hs_at_def s1_def d rc4_crypt_def Let_def)
  have pp: "bs_peer_pad_len s1 = None \<or> bs_peer_pad_len s1 = Some (length pad) \<and> k + length y \<ge> 6"
    using h by (auto simp: hs_at_def s1_def)
  have c: "check_response_header s1 =
      (if k + length y \<ge> 6 then (Inr (Some ()), s1\<lparr>bs_peer_pad_len := Some (length pad)\<rparr>) else (Inr None, s1))"
    by (rule check_response_header_prefix [OF p k rx pp])
  have l: "length (bs_rx s1) = k + length y" using k by (simp add: rx)
  have st: "bs_state s1 = Negotiating" "bs_send s1 = bs_send s" "bs_recv s1 = snd (rc4_crypt y (bs_recv s))" "bs_keys s1 = bs_keys s"
    using h by (simp_all add: s1_def hs_at_def recv)
  show ?thesis
  proof (cases "k + length y \<ge> 6")
    case True
    show ?thesis using True k st rx l by (simp add: f c Let_def hs_at_def)
  next
    case False
    then have "bs_peer_pad_len s1 = None" using pp by simp
    with False show ?thesis using st rx by (simp add: f c hs_at_def)
  qed
qed

lemma read_response_complete:
  assumes "length pad \<le> 255" and "hs_at pad k s" and "k < 6 + length pad" and "[] \<notin> set chunks"
    and "concat chunks = crypt_at (rs_cipher (bs_recv s)) (rs_pos (bs_recv s)) (drop k (hs_response pad))"
  shows "\<exists>s'. read_response chunks s = Inr ([], s', []) \<and> bs_state s' = Encrypting \<and> bs_send s' = bs_send s \<and>
     rs_cipher (bs_recv s') = rs_cipher (bs_recv s) \<and> rs_pos (bs_recv s') = rs_pos (bs_recv s) + (6 + length pad - k)"
  using assms
proof (induction chunks arbitrary: k s)
  case Nil
  have "length (crypt_at (rs_cipher (bs_recv s)) (rs_pos (bs_recv s)) (drop k (hs_response pad))) = 0"
    using Nil.prems(5) by (metis concat.simps(1) list.size(3))
  then show ?case using Nil.prems(3) by simp
next
  case (Cons c cs)
  let ?ks = "rs_cipher (bs_recv s)" and ?p = "rs_pos (bs_recv s)"
  let ?rest = "drop k (hs_response pad)"
  define y where "y = take (length c) ?rest"
  have len: "length c \<le> length ?rest"
    using arg_cong [OF Cons.prems(5), of length] by simp
  have ly: "length y = length c" using len by (simp add: y_def)
  have cy: "c = crypt_at ?ks ?p y"
    using arg_cong [OF Cons.prems(5), of "take (length c)"] by (simp add: y_def take_crypt_at)
  have ccs: "concat cs = crypt_at ?ks (?p + length c) (drop (length c) ?rest)"
    using arg_cong [OF Cons.prems(5), of "drop (length c)"] len by (simp add: drop_crypt_at)
  have yne: "y \<noteq> []" using Cons.prems(4) ly by auto
  have kl: "k + length y \<le> 6 + length pad" using len ly Cons.prems(3) by simp
  have sl: "py_slice k (k + length y) (hs_response pad) = y" using ly by (simp add: py_slice_def) (simp add: y_def)
  from feed_response_piece [OF Cons.prems(1,2) yne kl sl cy] obtain s' where
    f: "feed_response c s = (Inr (if k + length y = 6 + length pad then Some [] else None), s')"
      "bs_send s' = bs_send s" "bs_recv s' = snd (rc4_crypt y (bs_recv s))"
      "if k + length y = 6 + length pad then bs_state s' = Encrypting else hs_at pad (k + length y) s'" by blast
  have cne: "c \<noteq> []" using Cons.prems(4) by auto
  show ?case
  proof (cases "k + length y = 6 + length pad")
    case True
    then have "concat cs = []" using ccs ly by simp
    then have "cs = []" using Cons.prems(4) by (cases cs) auto
    then show ?thesis using True f cne ly by simp
  next
    case False
    then have h': "hs_at pad (k + length y) s'" and kl': "k + length y < 6 + length pad" using f(4) kl by simp_all
    have "concat cs = crypt_at (rs_cipher (bs_recv s')) (rs_pos (bs_recv s')) (drop (k + length y) (hs_response pad))"
      using ccs ly by (simp add: f(3) add.commute)
    from Cons.IH [OF Cons.prems(1) h' kl' _ this] Cons.prems(4)
    obtain s2 where s2: "read_response cs s' = Inr ([], s2, [])" "bs_state s2 = Encrypting" "bs_send s2 = bs_send s'"
      "rs_cipher (bs_recv s2) = rs_cipher (bs_recv s')"
      "rs_pos (bs_recv s2) = rs_pos (bs_recv s') + (6 + length pad - (k + length y))" by auto
    show ?thesis using s2 f False cne kl' by (intro exI [of _ s2]) simp
  qed
qed

section \<open>Both ends in step\<close>

text \<open>The dialer's send stream and the acceptor's receive stream stand at the same place, and conversely.\<close>

definition same_place :: "rc4_stream \<Rightarrow> rc4_stream \<Rightarrow> bool" where
  "same_place x y \<longleftrightarrow> rs_cipher x = rs_cipher y \<and> rs_pos x = rs_pos y"

definition in_step :: "basic_session \<Rightarrow> acceptor \<Rightarrow> bool" where
  "in_step s a \<longleftrightarrow> bs_state s = Encrypting \<and> same_place (bs_send s) (as_recv a) \<and> same_place (bs_recv s) (as_send a)"

lemma read_exact_append [simp]:
  "length x = n \<Longrightarrow> read_exact n \<lparr>c_rx = x @ y, c_tx = t\<rparr> = Inr (x, \<lparr>c_rx = y, c_tx = t\<rparr>)"
  by (auto simp: read_exact_def)

lemma skip_request_tail_reads:
  assumes n: "unat n = length pad"
    and rx: "w = crypt_at (rs_cipher r) (rs_pos r) ([m1, m2, n] @ pad)"
  shows "\<exists>r'. skip_request_tail r \<lparr>c_rx = w @ suf, c_tx = t\<rparr> = Inr (r', \<lparr>c_rx = suf, c_tx = t\<rparr>) \<and>
     rs_cipher r' = rs_cipher r \<and> rs_pos r' = rs_pos r + 3 + length pad"
proof -
  let ?ks = "rs_cipher r" and ?p = "rs_pos r"
  have w: "w @ suf = crypt_at ?ks ?p [m1, m2] @ crypt_at ?ks (?p + 2) [n] @ crypt_at ?ks (?p + 3) pad @ suf"
    by (simp add: rx eval_nat_numeral)
  show ?thesis
  proof (cases "pad = []")
    case True
    with n have "n = 0" by (simp add: unat_eq_zero)
    with True show ?thesis unfolding w skip_request_tail_def
      by (simp add: rc4_crypt_def Let_def eval_nat_numeral read_exact_def xor.assoc)
  next
    case False
    then have "0 < unat n" using n by simp
    with n show ?thesis unfolding w skip_request_tail_def
      by (simp add: rc4_crypt_def Let_def eval_nat_numeral read_exact_def xor.assoc)
  qed
qed

lemma basic_session_new_parts:
  assumes "crypto_ok arc4 md5" and "basic_session_new arc4 md5 h k pad rnd4 = Inr s"
  obtains part ks kr where "length h = 16" "length part = 4"
    "le_enc 4 (nat (bs_random_key_part s)) = part"
    "arc4 (md5 (h @ [MAGICVALUE_REQUESTER] @ part)) = Some ks" "arc4 (md5 (h @ [MAGICVALUE_SERVER] @ part)) = Some kr"
    "bs_send s = \<lparr>rs_cipher = ks, rs_pos = 1024, rs_offset = 0\<rparr>" "bs_recv s = \<lparr>rs_cipher = kr, rs_pos = 1024, rs_offset = 0\<rparr>"
    "bs_state s = Pending" "bs_rx s = []" "bs_peer_pad_len s = None" "bs_padding s = pad"
proof -
  from assms(2) show ?thesis
    by (intro that [of "le_enc 4 (nat (bs_random_key_part s))" "rs_cipher (bs_send s)" "rs_cipher (bs_recv s)"])
      (auto simp: basic_session_new_def derive_basic_keys_def bindE_eq_Inr_conv rc4_new_def Let_def RC4_KEY_DROP_BYTES_def
        split: if_splits option.splits)
qed

lemma accept_request:
  assumes ok: "crypto_ok arc4 md5" and new: "basic_session_new arc4 md5 h k pad rnd4 = Inr s0"
    and req: "build_request draws rnd s0 = Inr (req, s1)" and r: "length rnd2 \<le> 255"
  shows "\<exists>a. accept_obfuscated_client arc4 md5 h allow_dh rnd_key rnd2 rnd_dh \<lparr>c_rx = drop 1 req @ suf, c_tx = t\<rparr> =
      Inr (a, [], \<lparr>c_rx = suf, c_tx = t @ crypt_at (rs_cipher (bs_recv s1)) (rs_pos (bs_recv s1)) (hs_response rnd2)\<rparr>) \<and>
    hs_at rnd2 0 s1 \<and> same_place (bs_send s1) (as_recv a) \<and> rs_cipher (as_send a) = rs_cipher (bs_recv s1) \<and>
    rs_pos (as_send a) = rs_pos (bs_recv s1) + (6 + length rnd2)"
proof -
  from basic_session_new_parts [OF ok new] obtain part ks kr where
    h: "length h = 16" "length part = 4" and part: "le_enc 4 (nat (bs_random_key_part s0)) = part"
    and ks: "arc4 (md5 (h @ [MAGICVALUE_REQUESTER] @ part)) = Some ks"
    and kr: "arc4 (md5 (h @ [MAGICVALUE_SERVER] @ part)) = Some kr"
    and s: "bs_send s0 = \<lparr>rs_cipher = ks, rs_pos = 1024, rs_offset = 0\<rparr>" "bs_recv s0 = \<lparr>rs_cipher = kr, rs_pos = 1024, rs_offset = 0\<rparr>"
      "bs_state s0 = Pending" "bs_rx s0 = []" "bs_peer_pad_len s0 = None" by metis
  define p where "p = (case bs_padding s0 of Some p \<Rightarrow> p | None \<Rightarrow> rnd)"
  from req s have lp: "length p \<le> 255" and
    rq: "drop 1 req = part @ crypt_at ks 1024 (le_enc 4 MAGICVALUE_SYNC @ [ENM_OBFUSCATION, ENM_OBFUSCATION, word_of_nat (length p)] @ p)"
    and s1: "s1 = s0\<lparr>bs_send := \<lparr>rs_cipher = ks, rs_pos = 1024 + (7 + length p), rs_offset = 7 + length p\<rparr>, bs_state := Negotiating\<rparr>"
    by (auto simp: build_request_def p_def [symmetric] byte_of_len_def Let_def rc4_crypt_def part bindE_eq_Inr_conv split: if_splits)
  have rq': "drop 1 req @ suf = part @ crypt_at ks 1024 (le_enc 4 MAGICVALUE_SYNC) @
      crypt_at ks 1028 ([ENM_OBFUSCATION, ENM_OBFUSCATION, word_of_nat (length p)] @ p) @ suf"
    unfolding rq crypt_at_append by simp
  have pd: "le_enc 4 (le_dec part) = part" using h(2) by (metis le_enc_le_dec)
  define recv where "recv = \<lparr>rs_cipher = ks, rs_pos = 1024, rs_offset = 0\<rparr>"
  define recv1 where "recv1 = snd (rc4_crypt (crypt_at ks 1024 (le_enc 4 MAGICVALUE_SYNC)) recv)"
  have r1: "rs_cipher recv1 = ks" "rs_pos recv1 = 1028" by (simp_all add: recv1_def recv_def)
  have "crypt_at ks 1028 ([ENM_OBFUSCATION, ENM_OBFUSCATION, word_of_nat (length p)] @ p) =
      crypt_at (rs_cipher recv1) (rs_pos recv1) ([ENM_OBFUSCATION, ENM_OBFUSCATION, word_of_nat (length p)] @ p)"
    using r1 by simp
  from skip_request_tail_reads [OF unat_len [OF lp] this, of suf t] obtain recv2 where
    sk: "skip_request_tail recv1 \<lparr>c_rx = crypt_at ks 1028 ([ENM_OBFUSCATION, ENM_OBFUSCATION, word_of_nat (length p)] @ p) @ suf, c_tx = t\<rparr>
       = Inr (recv2, \<lparr>c_rx = suf, c_tx = t\<rparr>)" and r2: "rs_cipher recv2 = ks" "rs_pos recv2 = 1031 + length p"
    using r1 by auto
  have sp: "rc4_crypt (crypt_at ks 1024 (le_enc 4 MAGICVALUE_SYNC)) recv = (le_enc 4 MAGICVALUE_SYNC, recv1)"
    by (simp add: recv1_def rc4_crypt_def recv_def)
  have basic: "accept_basic_client arc4 md5 h (Some part) (Some (crypt_at ks 1024 (le_enc 4 MAGICVALUE_SYNC))) None rnd2
      \<lparr>c_rx = crypt_at ks 1028 ([ENM_OBFUSCATION, ENM_OBFUSCATION, word_of_nat (length p)] @ p) @ suf, c_tx = t\<rparr> =
    Inr (\<lparr>as_send = snd (rc4_crypt (hs_response rnd2) \<lparr>rs_cipher = kr, rs_pos = 1024, rs_offset = 0\<rparr>), as_recv = recv2\<rparr>, [],
      \<lparr>c_rx = suf, c_tx = t @ crypt_at kr 1024 (hs_response rnd2)\<rparr>)"
  proof -
    have rn: "rc4_new arc4 (md5 (h @ [MAGICVALUE_REQUESTER] @ part)) RC4_KEY_DROP_BYTES = Inr recv"
      "rc4_new arc4 (md5 (h @ [MAGICVALUE_SERVER] @ part)) RC4_KEY_DROP_BYTES = Inr \<lparr>rs_cipher = kr, rs_pos = 1024, rs_offset = 0\<rparr>"
      using ks kr by (simp_all add: rc4_new_def RC4_KEY_DROP_BYTES_def recv_def)
    have u: "unpack_le 4 (le_enc 4 MAGICVALUE_SYNC) = Inr MAGICVALUE_SYNC"
      by (rule unpack_le_enc) (simp add: MAGICVALUE_SYNC_def)
    have bl: "byte_of_len rnd2 = Inr (word_of_nat (length rnd2))" using r by (simp add: byte_of_len_def)
    show ?thesis using h rn u bl sk sp
      by (simp add: accept_basic_client_def given_or_read_def derive_acceptor_keys_def Let_def pd conn_write_def
        rc4_crypt_def [of "le_enc 4 MAGICVALUE_SYNC @ _"] rc4_crypt_def [of "hs_response rnd2"] hs_response_def)
  qed
  show ?thesis
    unfolding accept_obfuscated_client_def rq' using basic h(2) r2 s
    by (simp add: s1 hs_at_def same_place_def)
qed

text \<open>
  C33. The BASIC handshake completes: what the acceptor reads behind the marker of the dialer's
  request is accepted with nothing left unread, and the dialer, given the acceptor's response in
  pieces of any size, ends established with no byte left over and with both of its streams at
  the place of the acceptor's.
\<close>

theorem basic_handshake_completes:
  assumes "crypto_ok arc4 md5" and "basic_session_new arc4 md5 h k pad rnd4 = Inr s0"
    and "build_request draws rnd s0 = Inr (req, s1)" and "length rnd2 \<le> 255"
  shows "\<exists>a c. accept_obfuscated_client arc4 md5 h allow_dh rnd_key rnd2 rnd_dh \<lparr>c_rx = drop 1 req, c_tx = []\<rparr> = Inr (a, [], c) \<and>
    c_rx c = [] \<and>
    (\<forall>chunks. [] \<notin> set chunks \<and> concat chunks = c_tx c \<longrightarrow>
       (\<exists>s2. read_response chunks s1 = Inr ([], s2, []) \<and> in_step s2 a))"
proof -
  from accept_request [OF assms, of allow_dh rnd_key rnd_dh "[]" "[]"] obtain a where
    a: "accept_obfuscated_client arc4 md5 h allow_dh rnd_key rnd2 rnd_dh \<lparr>c_rx = drop 1 req, c_tx = []\<rparr> =
      Inr (a, [], \<lparr>c_rx = [], c_tx = crypt_at (rs_cipher (bs_recv s1)) (rs_pos (bs_recv s1)) (hs_response rnd2)\<rparr>)"
    and hs: "hs_at rnd2 0 s1" and pl: "same_place (bs_send s1) (as_recv a)" "rs_cipher (as_send a) = rs_cipher (bs_recv s1)"
      "rs_pos (as_send a) = rs_pos (bs_recv s1) + (6 + length rnd2)" by auto
  have "\<exists>s2. read_response chunks s1 = Inr ([], s2, []) \<and> in_step s2 a"
    if "[] \<notin> set chunks" "concat chunks = crypt_at (rs_cipher (bs_recv s1)) (rs_pos (bs_recv s1)) (hs_response rnd2)" for chunks
    using read_response_complete [OF assms(4) hs _ that(1)] that(2) pl
    by (auto simp: in_step_def same_place_def)
  with a show ?thesis by (intro exI conjI) auto
qed

section \<open>The channel after the handshake\<close>

text \<open>Both ends, the bytes in flight either way, and what was handed to and got out of each end so far.\<close>

record channel =
  ch_dialer :: basic_session
  ch_acceptor :: acceptor
  ch_to_acceptor :: bytes
  ch_to_dialer :: bytes
  ch_dialer_sent :: bytes
  ch_acceptor_got :: bytes
  ch_acceptor_sent :: bytes
  ch_dialer_got :: bytes

definition channel_start :: "basic_session \<Rightarrow> acceptor \<Rightarrow> channel" where
  "channel_start s a = \<lparr>ch_dialer = s, ch_acceptor = a, ch_to_acceptor = [], ch_to_dialer = [],
     ch_dialer_sent = [], ch_acceptor_got = [], ch_acceptor_sent = [], ch_dialer_got = []\<rparr>"

text \<open>TCP keeps the order of the bytes but not the sizes of the pieces: an end decrypts any prefix of what is in flight.\<close>

inductive channel_reach :: "basic_session \<Rightarrow> acceptor \<Rightarrow> channel \<Rightarrow> bool" for s a where
  start: "channel_reach s a (channel_start s a)"
| dialer_sends: "\<lbrakk>channel_reach s a c; session_encrypt d (ch_dialer c) = Inr (w, s')\<rbrakk> \<Longrightarrow>
    channel_reach s a (c\<lparr>ch_dialer := s', ch_to_acceptor := ch_to_acceptor c @ w, ch_dialer_sent := ch_dialer_sent c @ d\<rparr>)"
| acceptor_gets: "\<lbrakk>channel_reach s a c; ch_to_acceptor c = w @ suf; acceptor_decrypt w (ch_acceptor c) = (d, a')\<rbrakk> \<Longrightarrow>
    channel_reach s a (c\<lparr>ch_acceptor := a', ch_to_acceptor := suf, ch_acceptor_got := ch_acceptor_got c @ d\<rparr>)"
| acceptor_sends: "\<lbrakk>channel_reach s a c; acceptor_encrypt d (ch_acceptor c) = (w, a')\<rbrakk> \<Longrightarrow>
    channel_reach s a (c\<lparr>ch_acceptor := a', ch_to_dialer := ch_to_dialer c @ w, ch_acceptor_sent := ch_acceptor_sent c @ d\<rparr>)"
| dialer_gets: "\<lbrakk>channel_reach s a c; ch_to_dialer c = w @ suf; session_decrypt w (ch_dialer c) = Inr (d, s')\<rbrakk> \<Longrightarrow>
    channel_reach s a (c\<lparr>ch_dialer := s', ch_to_dialer := suf, ch_dialer_got := ch_dialer_got c @ d\<rparr>)"

text \<open>One direction: the receiver is behind the sender by the bytes in flight, which are the rest of what was sent.\<close>

definition direction_ok :: "rc4_stream \<Rightarrow> rc4_stream \<Rightarrow> bytes \<Rightarrow> bytes \<Rightarrow> bytes \<Rightarrow> bool" where
  "direction_ok snd_s rcv_s wire sent got \<longleftrightarrow>
     rs_cipher snd_s = rs_cipher rcv_s \<and> rs_pos snd_s = rs_pos rcv_s + length wire \<and>
     sent = got @ crypt_at (rs_cipher rcv_s) (rs_pos rcv_s) wire"

lemma direction_ok_start: "same_place x y \<Longrightarrow> direction_ok x y [] [] []"
  by (simp add: direction_ok_def same_place_def)

lemma direction_ok_send:
  "direction_ok x y wire sent got \<Longrightarrow>
   direction_ok (snd (rc4_crypt d x)) y (wire @ fst (rc4_crypt d x)) (sent @ d) got"
  by (simp add: direction_ok_def crypt_at_append)

lemma direction_ok_get:
  "direction_ok x y (w @ suf) sent got \<Longrightarrow>
   direction_ok x (snd (rc4_crypt w y)) suf sent (got @ fst (rc4_crypt w y))"
  by (simp add: direction_ok_def crypt_at_append)

definition channel_ok :: "channel \<Rightarrow> bool" where
  "channel_ok c \<longleftrightarrow> bs_state (ch_dialer c) = Encrypting \<and>
     direction_ok (bs_send (ch_dialer c)) (as_recv (ch_acceptor c)) (ch_to_acceptor c) (ch_dialer_sent c) (ch_acceptor_got c) \<and>
     direction_ok (as_send (ch_acceptor c)) (bs_recv (ch_dialer c)) (ch_to_dialer c) (ch_acceptor_sent c) (ch_dialer_got c)"

lemma session_crypt_Inr:
  "session_encrypt d s = Inr (w, s') \<longleftrightarrow> bs_state s = Encrypting \<and> w = fst (rc4_crypt d (bs_send s)) \<and> s' = s\<lparr>bs_send := snd (rc4_crypt d (bs_send s))\<rparr>"
  "session_decrypt d s = Inr (w, s') \<longleftrightarrow> bs_state s = Encrypting \<and> w = fst (rc4_crypt d (bs_recv s)) \<and> s' = s\<lparr>bs_recv := snd (rc4_crypt d (bs_recv s))\<rparr>"
  by (auto simp: session_encrypt_def session_decrypt_def case_prod_unfold)

lemma acceptor_crypt_eq:
  "acceptor_encrypt d a = (w, a') \<longleftrightarrow> w = fst (rc4_crypt d (as_send a)) \<and> a' = a\<lparr>as_send := snd (rc4_crypt d (as_send a))\<rparr>"
  "acceptor_decrypt d a = (w, a') \<longleftrightarrow> w = fst (rc4_crypt d (as_recv a)) \<and> a' = a\<lparr>as_recv := snd (rc4_crypt d (as_recv a))\<rparr>"
  by (auto simp: acceptor_encrypt_def acceptor_decrypt_def case_prod_unfold)

lemmas crypt_cases = session_crypt_Inr acceptor_crypt_eq

lemma channel_reach_ok:
  assumes "channel_reach s a c" and "in_step s a"
  shows "channel_ok c"
  using assms
proof (induction rule: channel_reach.induct)
  case start
  then show ?case by (simp add: channel_ok_def channel_start_def in_step_def direction_ok_start same_place_def direction_ok_def)
next
  case (dialer_sends c d w s')
  from dialer_sends.IH [OF dialer_sends.prems] dialer_sends.hyps(2) show ?case
    by (simp add: channel_ok_def crypt_cases direction_ok_send del: rc4_crypt_simps)
next
  case (acceptor_gets c w suf d a')
  from acceptor_gets.IH [OF acceptor_gets.prems] acceptor_gets.hyps(2,3) show ?case
    by (simp add: channel_ok_def crypt_cases direction_ok_get del: rc4_crypt_simps)
next
  case (acceptor_sends c d w a')
  from acceptor_sends.IH [OF acceptor_sends.prems] acceptor_sends.hyps(2) show ?case
    by (simp add: channel_ok_def crypt_cases direction_ok_send del: rc4_crypt_simps)
next
  case (dialer_gets c w suf d s')
  from dialer_gets.IH [OF dialer_gets.prems] dialer_gets.hyps(2,3) show ?case
    by (simp add: channel_ok_def crypt_cases direction_ok_get del: rc4_crypt_simps)
qed

lemma direction_ok_delivers:
  "direction_ok x y wire sent got \<Longrightarrow> sent = got @ drop (length got) sent \<and> (wire = [] \<longrightarrow> got = sent)"
  by (auto simp: direction_ok_def)

text \<open>
  C34. After the handshake the obfuscated connection is a faithful pair of byte streams. However
  the two ends interleave their sends and receives and however TCP cuts the bytes in flight into
  pieces, what an end has decrypted is a prefix of what the other has encrypted, and all of it
  once nothing is in flight; the session never refuses to encrypt or decrypt.
\<close>

theorem obfuscated_channel_delivers:
  assumes "crypto_ok arc4 md5" and "basic_session_new arc4 md5 h k pad rnd4 = Inr s0"
    and "build_request draws rnd s0 = Inr (req, s1)" and "length rnd2 \<le> 255"
    and "accept_obfuscated_client arc4 md5 h allow_dh rnd_key rnd2 rnd_dh \<lparr>c_rx = drop 1 req, c_tx = []\<rparr> = Inr (a, left, conn)"
    and "[] \<notin> set chunks" and "concat chunks = c_tx conn" and "read_response chunks s1 = Inr (leftover, s2, more_chunks)"
    and "channel_reach s2 a c"
  shows "ch_dialer_sent c = ch_acceptor_got c @ drop (length (ch_acceptor_got c)) (ch_dialer_sent c) \<and>
     (ch_to_acceptor c = [] \<longrightarrow> ch_acceptor_got c = ch_dialer_sent c) \<and>
     ch_acceptor_sent c = ch_dialer_got c @ drop (length (ch_dialer_got c)) (ch_acceptor_sent c) \<and>
     (ch_to_dialer c = [] \<longrightarrow> ch_dialer_got c = ch_acceptor_sent c) \<and>
     session_encrypt d (ch_dialer c) \<noteq> Inl e \<and> session_decrypt d (ch_dialer c) \<noteq> Inl e"
proof -
  from accept_request [OF assms(1-4), of allow_dh rnd_key rnd_dh "[]" "[]"] assms(5)
  have tx: "c_tx conn = crypt_at (rs_cipher (bs_recv s1)) (rs_pos (bs_recv s1)) (hs_response rnd2)" and hs: "hs_at rnd2 0 s1"
    and pl: "same_place (bs_send s1) (as_recv a)" "rs_cipher (as_send a) = rs_cipher (bs_recv s1)"
      "rs_pos (as_send a) = rs_pos (bs_recv s1) + (6 + length rnd2)" by auto
  have "in_step s2 a"
    using read_response_complete [OF assms(4) hs _ assms(6)] assms(7,8) tx pl
    by (auto simp: in_step_def same_place_def)
  with channel_reach_ok [OF assms(9)] have ok: "channel_ok c" by blast
  have d1: "direction_ok (bs_send (ch_dialer c)) (as_recv (ch_acceptor c)) (ch_to_acceptor c) (ch_dialer_sent c) (ch_acceptor_got c)"
    and d2: "direction_ok (as_send (ch_acceptor c)) (bs_recv (ch_dialer c)) (ch_to_dialer c) (ch_acceptor_sent c) (ch_dialer_got c)"
    and st: "bs_state (ch_dialer c) = Encrypting" using ok by (simp_all add: channel_ok_def)
  show ?thesis using direction_ok_delivers [OF d1] direction_ok_delivers [OF d2] st
    by (intro conjI) (blast, blast, blast, blast, simp_all add: session_encrypt_def session_decrypt_def case_prod_unfold)
qed

section \<open>A concrete run\<close>

text \<open>A keystream and a digest that depend on their argument, for concrete runs.\<close>

definition demo_arc4 :: arc4 where
  "demo_arc4 key = (if length key = 16 then Some (\<lambda>i. key ! (i mod 16) + word_of_nat i) else None)"

definition demo_md5 :: digest where
  "demo_md5 x = take 16 (drop (length x - 5) (x @ x @ replicate 16 9))"

lemma demo_crypto_ok: "crypto_ok demo_arc4 demo_md5"
  by (auto simp: crypto_ok_def demo_arc4_def demo_md5_def)

definition in_pieces :: "bytes \<Rightarrow> bytes list" where
  "in_pieces t = filter (\<lambda>x. x \<noteq> []) [take 3 t, drop 3 t]"

lemma in_pieces [simp]: "[] \<notin> set (in_pieces t)" "concat (in_pieces t) = t"
  by (auto simp: in_pieces_def)

lemma demo_request:
  "\<exists>s0 req s1. basic_session_new demo_arc4 demo_md5 (replicate 16 1) (Some 7) (Some [1, 2]) [] = Inr s0 \<and>
     build_request [0xE3, 5] [] s0 = Inr (req, s1)"
  by (simp add: basic_session_new_def derive_basic_keys_def rc4_new_def demo_arc4_def demo_md5_def Let_def
    RC4_KEY_DROP_BYTES_def build_request_def byte_of_len_def rc4_crypt_def)

theorem basic_handshake_completes_witness:
  "\<exists>s0 req s1 a c s2. basic_session_new demo_arc4 demo_md5 (replicate 16 1) (Some 7) (Some [1, 2]) [] = Inr s0 \<and>
     build_request [0xE3, 5] [] s0 = Inr (req, s1) \<and>
     accept_obfuscated_client demo_arc4 demo_md5 (replicate 16 1) True [] [3] [] \<lparr>c_rx = drop 1 req, c_tx = []\<rparr> = Inr (a, [], c) \<and>
     read_response (in_pieces (c_tx c)) s1 = Inr ([], s2, []) \<and> in_step s2 a"
proof -
  from demo_request obtain s0 req s1 where
    d: "basic_session_new demo_arc4 demo_md5 (replicate 16 1) (Some 7) (Some [1, 2]) [] = Inr s0"
      "build_request [0xE3, 5] [] s0 = Inr (req, s1)" by blast
  from basic_handshake_completes [OF demo_crypto_ok d, of "[3]" True "[]" "[]"] obtain a c where
    a: "accept_obfuscated_client demo_arc4 demo_md5 (replicate 16 1) True [] [3] [] \<lparr>c_rx = drop 1 req, c_tx = []\<rparr> = Inr (a, [], c)"
    and all: "\<forall>chunks. [] \<notin> set chunks \<and> concat chunks = c_tx c \<longrightarrow>
       (\<exists>s2. read_response chunks s1 = Inr ([], s2, []) \<and> in_step s2 a)" by auto
  from all [rule_format, of "in_pieces (c_tx c)"] in_pieces obtain s2 where
    "read_response (in_pieces (c_tx c)) s1 = Inr ([], s2, [])" "in_step s2 a" by blast
  with d a show ?thesis by blast
qed

theorem obfuscated_channel_delivers_witness:
  "\<exists>c :: channel. ch_dialer_sent c = [1, 2, 3] \<and> ch_to_acceptor c = [] \<and> ch_acceptor_got c = ch_dialer_sent c"
proof -
  from demo_request obtain s0 req s1 where
    d: "basic_session_new demo_arc4 demo_md5 (replicate 16 1) (Some 7) (Some [1, 2]) [] = Inr s0"
      "build_request [0xE3, 5] [] s0 = Inr (req, s1)" by blast
  have l: "length [3 :: byte] \<le> 255" by simp
  from accept_request [OF demo_crypto_ok d l, of True "[]" "[]" "[]" "[]"] obtain a conn where
    a: "accept_obfuscated_client demo_arc4 demo_md5 (replicate 16 1) True [] [3] [] \<lparr>c_rx = drop 1 req, c_tx = []\<rparr> = Inr (a, [], conn)"
    and tx: "c_tx conn = crypt_at (rs_cipher (bs_recv s1)) (rs_pos (bs_recv s1)) (hs_response [3])" and hs: "hs_at [3] 0 s1" by auto
  from read_response_complete [OF l hs, of "in_pieces (c_tx conn)"] tx obtain s2 where
    r: "read_response (in_pieces (c_tx conn)) s1 = Inr ([], s2, [])" and st: "bs_state s2 = Encrypting" by auto
  define w where "w = fst (rc4_crypt [1, 2, 3] (bs_send s2))"
  have e: "session_encrypt [1, 2, 3] (ch_dialer (channel_start s2 a)) = Inr (w, s2\<lparr>bs_send := snd (rc4_crypt [1, 2, 3] (bs_send s2))\<rparr>)"
    by (simp add: crypt_cases channel_start_def st w_def del: rc4_crypt_simps)
  note s1 = channel_reach.dialer_sends [OF channel_reach.start e]
  define c where "c = (channel_start s2 a)\<lparr>ch_dialer := s2\<lparr>bs_send := snd (rc4_crypt [1, 2, 3] (bs_send s2))\<rparr>,
      ch_to_acceptor := ch_to_acceptor (channel_start s2 a) @ w, ch_dialer_sent := ch_dialer_sent (channel_start s2 a) @ [1, 2, 3],
      ch_acceptor := snd (acceptor_decrypt w a), ch_to_acceptor := [],
      ch_acceptor_got := ch_acceptor_got (channel_start s2 a) @ fst (acceptor_decrypt w a)\<rparr>"
  have reach: "channel_reach s2 a c"
    using channel_reach.acceptor_gets [OF s1, of w "[]" "fst (acceptor_decrypt w a)" "snd (acceptor_decrypt w a)"]
    by (simp add: c_def channel_start_def)
  have f: "ch_to_acceptor c = []" "ch_dialer_sent c = [1, 2, 3]" by (simp_all add: c_def channel_start_def)
  have "ch_acceptor_got c = ch_dialer_sent c"
    using obfuscated_channel_delivers [OF demo_crypto_ok d l a in_pieces r reach, of "[]" ValueError]
    by (elim conjE) (simp only: f simp_thms)
  with f show ?thesis by (intro exI [of _ c] conjI)
qed

section \<open>Diffie-Hellman\<close>

lemma le_dec_append: "le_dec (xs @ ys) = le_dec xs + 256 ^ length xs * le_dec ys"
  by (induction xs) (simp_all add: algebra_simps)

lemma be_dec_Cons: "be_dec (b # bs) = be_dec bs + 256 ^ length bs * unat b"
  by (simp add: be_dec_def le_dec_append)

lemma prime_bounds: "0 < DIFFIE_HELLMAN_PRIME" "DIFFIE_HELLMAN_PRIME < 256 ^ DH_PUBKEY_BYTES"
proof -
  show "0 < DIFFIE_HELLMAN_PRIME" by (simp add: DIFFIE_HELLMAN_PRIME_def prime_bytes_def be_dec_Cons)
  have "length prime_bytes = DH_PUBKEY_BYTES" by (simp add: prime_bytes_def DH_PUBKEY_BYTES_def)
  then show "DIFFIE_HELLMAN_PRIME < 256 ^ DH_PUBKEY_BYTES"
    unfolding DIFFIE_HELLMAN_PRIME_def by (metis be_dec_bound)
qed

lemma pow_mod_fits: "pow_mod b e DIFFIE_HELLMAN_PRIME < 256 ^ DH_PUBKEY_BYTES"
  using prime_bounds by (simp add: pow_mod_def order_less_trans [OF mod_less_divisor])

lemma to_bytes_pow_mod [simp]:
  "to_bytes_big DH_PUBKEY_BYTES (pow_mod b e DIFFIE_HELLMAN_PRIME) = Inr (be_enc DH_PUBKEY_BYTES (pow_mod b e DIFFIE_HELLMAN_PRIME))"
  by (simp add: to_bytes_big_def pow_mod_fits)

lemma be_dec_pow_mod [simp]:
  "be_dec (be_enc DH_PUBKEY_BYTES (pow_mod b e DIFFIE_HELLMAN_PRIME)) = pow_mod b e DIFFIE_HELLMAN_PRIME"
  by (rule be_dec_be_enc) (rule pow_mod_fits)

lemma pow_mod_commutes: "pow_mod (pow_mod g x p) y p = pow_mod (pow_mod g y p) x p"
  unfolding pow_mod_def power_mod power_mult [symmetric] mult.commute [of x y] by (rule refl)

lemma crypt_at_fix_iff: "crypt_at ks p d = d \<longleftrightarrow> (\<forall>i < length d. ks (p + i) = 0)"
proof (induction d arbitrary: p)
  case (Cons b d)
  have "ks p = 0" if "b XOR ks p = b"
    using arg_cong [OF that, of "\<lambda>x. b XOR x"] by (simp flip: xor.assoc)
  then have "b XOR ks p = b \<longleftrightarrow> ks p = 0" by auto
  with Cons show ?case by (auto simp: less_Suc_eq_0_disj)
qed simp

text \<open>
  C35. In the Diffie-Hellman exchange the two ends agree: from the public value in the acceptor's
  answer the dialer derives the keys of the acceptor's two streams, swapped. But the answer is
  not the one \<open>parse_dh_response\<close> reads: its magic is encrypted, so unless the keystream happens to
  start with four zero bytes the dialer refuses it.
\<close>

theorem dh_parties_agree:
  assumes "crypto_ok arc4 md5" and "compute_dh_public_key a = Inr g_a" and "build_dh_request g_a padding draws rnd = Inr req"
    and "length rnd < MAX_PADDING_LENGTH" and "length rnd2 \<le> 255" and "0 \<le> sp" and "sp \<le> 0xFFFF" and "0 \<le> rp" and "rp \<le> 0xFFFF"
  shows "\<exists>acc c g_b keys. accept_dh_client arc4 md5 (py_slice 1 97 req) None rnd_key rnd2 \<lparr>c_rx = drop 97 req, c_tx = []\<rparr> = Inr (acc, [], c) \<and>
    c_rx c = [] \<and> g_b = take DH_PUBKEY_BYTES (c_tx c) \<and> derive_keys md5 a g_b g_a rp sp = Inr keys \<and>
    arc4 (nk_send_key keys) = Some (rs_cipher (as_recv acc)) \<and> arc4 (nk_recv_key keys) = Some (rs_cipher (as_send acc)) \<and>
    (parse_dh_response (c_tx c) = Inl ObfuscationError \<or> (\<forall>i < 4. rs_cipher (as_send acc) (1024 + i) = 0))"
proof -
  define A where "A = nat a"
  define b where "b = generate_dh_private_key rnd_key"
  have a: "0 \<le> a" and ga: "g_a = be_enc DH_PUBKEY_BYTES (pow_mod DH_GENERATOR A DIFFIE_HELLMAN_PRIME)"
    using assms(2) by (auto simp: compute_dh_public_key_def A_def split: if_splits)
  have lga: "length g_a = DH_PUBKEY_BYTES" by (simp add: ga)
  then have lga': "length g_a = 96" by (simp add: DH_PUBKEY_BYTES_def)
  define gb where "gb = be_enc DH_PUBKEY_BYTES (pow_mod DH_GENERATOR b DIFFIE_HELLMAN_PRIME)"
  have lgb: "length gb = DH_PUBKEY_BYTES" by (simp add: gb_def)
  define shared where "shared = be_enc DH_PUBKEY_BYTES (pow_mod (be_dec g_a) b DIFFIE_HELLMAN_PRIME)"
  have sh: "to_bytes_big DH_PUBKEY_BYTES (pow_mod (be_dec gb) A DIFFIE_HELLMAN_PRIME) = Inr shared"
    by (simp add: shared_def gb_def ga pow_mod_commutes [of DH_GENERATOR b])
  obtain m pad where rq: "req = [m] @ g_a @ [word_of_nat (length pad)] @ pad" and lp: "length pad < 16"
    using assms(3,4) by (auto simp: build_dh_request_def Let_def MAX_PADDING_LENGTH_def split: if_splits option.splits)
  have d97: "drop 97 req = word_of_nat (length pad) # pad" "py_slice 1 97 req = g_a"
    using lga' by (simp_all add: rq py_slice_def)
  obtain ks where ks: "arc4 (md5 (shared @ [MAGICVALUE_SERVER])) = Some ks" using assms(1) by (fastforce simp: crypto_ok_def)
  obtain kr where kr: "arc4 (md5 (shared @ [MAGICVALUE_REQUESTER])) = Some kr" using assms(1) by (fastforce simp: crypto_ok_def)
  define out where "out = crypt_at ks 1024 (hs_response rnd2)"
  define acc where "acc = \<lparr>as_send = snd (rc4_crypt (hs_response rnd2) \<lparr>rs_cipher = ks, rs_pos = 1024, rs_offset = 0\<rparr>),
      as_recv = \<lparr>rs_cipher = kr, rs_pos = 1024, rs_offset = 0\<rparr>\<rparr>"
  have skip: "bindE (read_exact 1 \<lparr>c_rx = word_of_nat (length pad) # pad, c_tx = []\<rparr>) (\<lambda>(p, c1).
      let padlen = unat (p ! 0) in bindE (if padlen = 0 then Inr ([], c1) else read_exact padlen c1) f) =
      f (pad, \<lparr>c_rx = [], c_tx = []\<rparr>)" for f :: "bytes \<times> conn \<Rightarrow> (acceptor \<times> bytes \<times> conn) res"
    using unat_len [of pad] lp by (cases "pad = []") (simp_all add: read_exact_def Let_def)
  have acc: "accept_dh_client arc4 md5 g_a None rnd_key rnd2 \<lparr>c_rx = drop 97 req, c_tx = []\<rparr> = Inr (acc, [], \<lparr>c_rx = [], c_tx = gb @ out\<rparr>)"
    unfolding accept_dh_client_def d97 skip
    using lga ks kr assms(5)
    by (simp add: b_def [symmetric] compute_dh_public_key_def gb_def [symmetric] shared_def [symmetric] rc4_new_def RC4_KEY_DROP_BYTES_def
      byte_of_len_def rc4_crypt_def Let_def conn_write_def acc_def out_def hs_response_def)
  define nk where "nk = \<lparr>nk_send_key = md5 (shared @ [MAGICVALUE_REQUESTER]),
      nk_recv_key = md5 (shared @ [MAGICVALUE_SERVER]), nk_send_pad_len = RC4_KEY_DROP_BYTES, nk_recv_pad_len = RC4_KEY_DROP_BYTES\<rparr>"
  have keys: "derive_keys md5 a gb g_a rp sp = Inr nk"
    using a lga lgb sh assms(6-9) by (simp add: derive_keys_def A_def nk_def)
  have magic: "parse_dh_response (gb @ out) = Inl ObfuscationError \<or> (\<forall>i < 4. ks (1024 + i) = 0)"
  proof (cases "le_dec (take 4 out) = MAGICVALUE_SYNC")
    case False
    then show ?thesis using lgb by (simp add: parse_dh_response_def py_slice_def)
  next
    case True
    have t: "take 4 out = crypt_at ks 1024 (le_enc 4 MAGICVALUE_SYNC)"
      by (simp add: out_def take_crypt_at hs_response_fields)
    with True have "crypt_at ks 1024 (le_enc 4 MAGICVALUE_SYNC) = le_enc 4 MAGICVALUE_SYNC"
      using le_enc_le_dec [of "take 4 out"] by simp
    then show ?thesis by (simp add: crypt_at_fix_iff)
  qed
  have ak: "arc4 (nk_send_key nk) = Some (rs_cipher (as_recv acc))" "arc4 (nk_recv_key nk) = Some (rs_cipher (as_send acc))"
    "gb = take DH_PUBKEY_BYTES (gb @ out)" "rs_cipher (as_send acc) = ks"
    using ks kr lgb by (simp_all add: nk_def acc_def)
  show ?thesis unfolding d97(2)
    by (intro exI [of _ acc] exI [of _ "\<lparr>c_rx = [], c_tx = gb @ out\<rparr>"] exI [of _ gb] exI [of _ nk] conjI)
      (use acc keys magic ak in simp_all)
qed

theorem dh_parties_agree_witness:
  "\<exists>g_a req acc c g_b keys. compute_dh_public_key 5 = Inr g_a \<and> build_dh_request g_a (Some [4, 4]) [7] [] = Inr req \<and>
    accept_dh_client demo_arc4 demo_md5 (py_slice 1 97 req) None (replicate 16 3) [1, 2] \<lparr>c_rx = drop 97 req, c_tx = []\<rparr> = Inr (acc, [], c) \<and>
    g_b = take DH_PUBKEY_BYTES (c_tx c) \<and> derive_keys demo_md5 5 g_b g_a 1024 1024 = Inr keys \<and>
    demo_arc4 (nk_send_key keys) = Some (rs_cipher (as_recv acc)) \<and> demo_arc4 (nk_recv_key keys) = Some (rs_cipher (as_send acc))"
proof -
  define g_a where "g_a = be_enc DH_PUBKEY_BYTES (pow_mod DH_GENERATOR 5 DIFFIE_HELLMAN_PRIME)"
  have c: "compute_dh_public_key 5 = Inr g_a" by (simp add: compute_dh_public_key_def g_a_def)
  obtain req where r: "build_dh_request g_a (Some [4, 4]) [7] [] = Inr req"
    by (simp add: build_dh_request_def g_a_def MAX_PADDING_LENGTH_def)
  have l: "length ([] :: bytes) < MAX_PADDING_LENGTH" "length [1 :: byte, 2] \<le> 255" by (simp_all add: MAX_PADDING_LENGTH_def)
  from dh_parties_agree [OF demo_crypto_ok c r l, of 1024 1024 "replicate 16 3"] c r show ?thesis by fastforce
qed

end
