(* ===== verification/Udp_Obfuscation.thy ===== *)
theory Udp_Obfuscation
  imports Obfuscation
begin

text \<open>
  \<open>core/kad/obfuscation.py\<close> and \<open>core/peer/udp_obfuscation.py\<close>: the two modules that encrypt and
  decrypt UDP datagrams with RC4 (no keystream is dropped). ARC4, MD5 and the bytes of
  \<open>os.urandom\<close> are arguments, as in \<open>Obfuscation\<close>; the position of a cipher is the number of bytes
  it has been given.
\<close>

section \<open>Kad datagrams\<close>

definition MAGICVALUE_UDP_SYNC_CLIENT :: nat where "MAGICVALUE_UDP_SYNC_CLIENT = 0x395F2EC1"
definition CRYPT_HEADER_WITHOUTPADDING :: nat where "CRYPT_HEADER_WITHOUTPADDING = 8"
definition plain_protocol_bytes :: "byte list" where
  "plain_protocol_bytes = [0xE3, 0xC5, 0xE4, 0xE5, 0xD4, 0xD5, 0xC0, 0xC1]"

text \<open>\<open>ARC4.new\<close>, raising \<open>ValueError\<close> on a key it refuses.\<close>

definition cipher_new :: "arc4 \<Rightarrow> bytes \<Rightarrow> keystream res" where
  "cipher_new arc4 key = (case arc4 key of None \<Rightarrow> Inl ValueError | Some ks \<Rightarrow> Inr ks)"

text \<open>\<open>verify_key_lookup\<close> for this peer: \<open>None\<close> without a lookup, else the stored key, 0 for none.\<close>

definition kad_key_materials :: "bytes \<Rightarrow> nat option \<Rightarrow> bytes \<Rightarrow> bytes list" where
  "kad_key_materials own_kad_id stored datagram =
     (take 16 own_kad_id @ py_slice 1 3 datagram) #
     (case stored of
        None \<Rightarrow> []
      | Some k \<Rightarrow> if k = 0 then [] else [le_enc 4 (k mod 2 ^ 32) @ py_slice 1 3 datagram])"

definition decode_with :: "keystream \<Rightarrow> bytes \<Rightarrow> (bytes \<times> nat \<times> nat) option" where
  "decode_with ks datagram =
     (let pad_len = unat (hd (crypt_at ks 4 (py_slice 7 8 datagram)));
          body_len = int (length datagram) - int CRYPT_HEADER_WITHOUTPADDING - int pad_len in
      if body_len \<le> 8 then None
      else
        let receiver_key = le_dec (crypt_at ks 5 (py_slice (8 + pad_len) (12 + pad_len) datagram));
            sender_key = le_dec (crypt_at ks 9 (py_slice (12 + pad_len) (16 + pad_len) datagram)) in
        Some (crypt_at ks 13 (drop (16 + pad_len) datagram), receiver_key, sender_key))"

fun decode_try :: "arc4 \<Rightarrow> digest \<Rightarrow> bytes list \<Rightarrow> bytes \<Rightarrow> (bytes \<times> nat \<times> nat) option res" where
  "decode_try arc4 md5 [] datagram = Inr None"
| "decode_try arc4 md5 (material # ms) datagram =
     bindE (cipher_new arc4 (md5 material)) (\<lambda>ks.
       if le_dec (crypt_at ks 0 (py_slice 3 7 datagram)) \<noteq> MAGICVALUE_UDP_SYNC_CLIENT then decode_try arc4 md5 ms datagram
       else Inr (decode_with ks datagram))"

definition decode_obfuscated_kad :: "arc4 \<Rightarrow> digest \<Rightarrow> bytes \<Rightarrow> bytes \<Rightarrow> nat option \<Rightarrow> (bytes \<times> nat \<times> nat) option res" where
  "decode_obfuscated_kad arc4 md5 datagram own_kad_id stored =
     (if length datagram \<le> CRYPT_HEADER_WITHOUTPADDING then Inr None
      else if hd datagram \<in> set plain_protocol_bytes then Inr None
      else decode_try arc4 md5 (kad_key_materials own_kad_id stored datagram) datagram)"

definition encode_obfuscated_kad ::
    "arc4 \<Rightarrow> digest \<Rightarrow> bytes \<Rightarrow> bytes \<Rightarrow> nat \<Rightarrow> nat \<Rightarrow> bytes \<Rightarrow> byte \<Rightarrow> bytes res" where
  "encode_obfuscated_kad arc4 md5 kad_datagram their_kad_id our_sender_key their_receiver_key key_part rnd =
     (let marker = (rnd AND 0xFC) OR 0x02; pad_len = 0 in
      bindE (cipher_new arc4 (md5 (take 16 their_kad_id @ key_part))) (\<lambda>ks.
        let plain_head = le_enc 4 MAGICVALUE_UDP_SYNC_CLIENT @ [pad_len] @
              le_enc 4 (their_receiver_key mod 2 ^ 32) @ le_enc 4 (our_sender_key mod 2 ^ 32) in
        Inr ([marker] @ key_part @ crypt_at ks 0 (plain_head @ kad_datagram))))"

section \<open>Client datagrams\<close>

definition MAGIC_VALUE_UDP :: byte where "MAGIC_VALUE_UDP = 91"
definition MAX_MARKER_RETRIES :: nat where "MAX_MARKER_RETRIES = 128"

definition derive_key_ed2k :: "digest \<Rightarrow> bytes \<Rightarrow> bytes \<Rightarrow> bytes \<Rightarrow> bytes res" where
  "derive_key_ed2k md5 user_hash public_ip random_key_part =
     (if length user_hash \<noteq> 16 then Inl UdpObfuscationError
      else if length public_ip \<noteq> 4 then Inl UdpObfuscationError
      else if length random_key_part \<noteq> 2 then Inl UdpObfuscationError
      else Inr (md5 (user_hash @ public_ip @ [MAGIC_VALUE_UDP] @ random_key_part)))"

definition derive_key_kad_node_id :: "digest \<Rightarrow> bytes \<Rightarrow> bytes \<Rightarrow> bytes res" where
  "derive_key_kad_node_id md5 kad_id random_key_part =
     (if length kad_id \<noteq> 16 then Inl UdpObfuscationError
      else if length random_key_part \<noteq> 2 then Inl UdpObfuscationError
      else Inr (md5 (take 16 kad_id @ random_key_part)))"

definition derive_key_kad_receiver :: "digest \<Rightarrow> bytes \<Rightarrow> bytes \<Rightarrow> bytes res" where
  "derive_key_kad_receiver md5 receiver_verify_key random_key_part =
     (if length receiver_verify_key \<noteq> 4 then Inl UdpObfuscationError
      else if length random_key_part \<noteq> 2 then Inl UdpObfuscationError
      else Inr (md5 (receiver_verify_key @ random_key_part)))"

definition endian_swap_u32 :: "int \<Rightarrow> int" where
  "endian_swap_u32 v =
     (((drop_bit 24 v AND 0xFF) OR (drop_bit 8 v AND 0x00FF00) OR (push_bit 8 v AND 0xFF0000) OR
       (push_bit 24 v AND 0xFF000000)) AND 0xFFFFFFFF)"

definition endian_swap_pack_u32 :: "int \<Rightarrow> bytes" where
  "endian_swap_pack_u32 v = le_enc 4 (nat (endian_swap_u32 v))"

datatype udp_mode = Ed2k | Kad_Node_Id | Kad_Receiver

text \<open>The mode argument is one of three strings; any other raises.\<close>

definition mode_of :: "string \<Rightarrow> udp_mode res" where
  "mode_of mode =
     (if mode = ''ed2k'' then Inr Ed2k else if mode = ''kad_node_id'' then Inr Kad_Node_Id
      else if mode = ''kad_receiver'' then Inr Kad_Receiver else Inl UdpObfuscationError)"

definition marker_of :: "udp_mode \<Rightarrow> byte \<Rightarrow> byte" where
  "marker_of mode raw =
     (case mode of Ed2k \<Rightarrow> raw OR 0x01 | Kad_Node_Id \<Rightarrow> raw AND 0xFC | Kad_Receiver \<Rightarrow> (raw AND 0xFE) OR 0x02)"

definition generate_marker :: "udp_mode \<Rightarrow> byte list \<Rightarrow> byte" where
  "generate_marker mode draws =
     (case filter (\<lambda>m. m \<notin> set plain_protocol_bytes) (map (marker_of mode) (take MAX_MARKER_RETRIES draws)) of
        m # _ \<Rightarrow> m | [] \<Rightarrow> 0x01)"

text \<open>\<open>padding\<close> is the padding drawn, less than \<open>MAX_PADDING_LENGTH\<close> bytes of \<open>os.urandom\<close>; \<open>rkp\<close> the drawn key part.\<close>

definition client_datagram ::
    "arc4 \<Rightarrow> bytes \<Rightarrow> udp_mode \<Rightarrow> bytes \<Rightarrow> bytes option \<Rightarrow> byte option \<Rightarrow> (bytes \<times> bytes) option \<Rightarrow>
       bytes \<Rightarrow> byte list \<Rightarrow> bytes \<Rightarrow> bytes res" where
  "client_datagram arc4 payload mode key_material random_key_part marker kad_verify_keys rkp draws padding =
     (if length key_material \<noteq> 16 then Inl UdpObfuscationError
      else if mode \<noteq> Ed2k \<and> (case kad_verify_keys of None \<Rightarrow> True | Some (r, s) \<Rightarrow> length r \<noteq> 4 \<or> length s \<noteq> 4) then Inl UdpObfuscationError
      else
        bindE (case random_key_part of
                 None \<Rightarrow> Inr rkp
               | Some k \<Rightarrow> if length k \<noteq> 2 then Inl UdpObfuscationError else Inr k) (\<lambda>key_part.
        bindE (case marker of
                 None \<Rightarrow> Inr (generate_marker mode draws)
               | Some m \<Rightarrow> if m \<in> set plain_protocol_bytes then Inl UdpObfuscationError else Inr m) (\<lambda>m.
        if mode \<noteq> Ed2k \<and> odd m then Inl UdpObfuscationError
        else if mode = Ed2k \<and> even m then Inl UdpObfuscationError
        else
          bindE (cipher_new arc4 key_material) (\<lambda>ks.
            let kad_verify =
                  (case kad_verify_keys of
                     Some (r, s) \<Rightarrow>
                       if mode = Ed2k then []
                       else endian_swap_pack_u32 (int (le_dec r)) @ endian_swap_pack_u32 (int (le_dec s))
                   | None \<Rightarrow> []) in
            Inr ([m] @ key_part @ crypt_at ks 0
              (endian_swap_pack_u32 (int MAGICVALUE_UDP_SYNC_CLIENT) @ [word_of_nat (length padding)] @ padding @
               kad_verify @ payload))))))"

definition encrypt_client_datagram ::
    "arc4 \<Rightarrow> bytes \<Rightarrow> string \<Rightarrow> bytes \<Rightarrow> bytes option \<Rightarrow> byte option \<Rightarrow> (bytes \<times> bytes) option \<Rightarrow>
       bytes \<Rightarrow> byte list \<Rightarrow> bytes \<Rightarrow> bytes res" where
  "encrypt_client_datagram arc4 payload mode key_material random_key_part marker kad_verify_keys rkp draws padding =
     bindE (mode_of mode) (\<lambda>m.
       client_datagram arc4 payload m key_material random_key_part marker kad_verify_keys rkp draws padding)"

text \<open>The candidates come with their names; a name that starts with \<open>kad_\<close> is a Kad mode.\<close>

definition starts_kad :: "string \<Rightarrow> bool" where
  "starts_kad name \<longleftrightarrow> take 4 name = ''kad_''"

fun decrypt_try :: "arc4 \<Rightarrow> bytes \<Rightarrow> (string \<times> bytes) list \<Rightarrow> (string \<times> bytes) res" where
  "decrypt_try arc4 datagram [] = Inl UdpObfuscationError"
| "decrypt_try arc4 datagram ((name, key) # cands) =
     (if length key \<noteq> 16 then Inl UdpObfuscationError
      else
        bindE (cipher_new arc4 key) (\<lambda>ks.
          let header = crypt_at ks 0 (py_slice 3 8 datagram) in
          if endian_swap_u32 (int (le_dec (take 4 header))) \<noteq> int MAGICVALUE_UDP_SYNC_CLIENT
          then decrypt_try arc4 datagram cands
          else
            let pad_len = unat (header ! 4); body_start = CRYPT_HEADER_WITHOUTPADDING + pad_len in
            if length datagram < body_start then Inl UdpObfuscationError
            else
              let decrypted = crypt_at ks (5 + pad_len) (drop body_start datagram) in
              if starts_kad name then
                (if length decrypted \<le> 8 then Inl UdpObfuscationError else Inr (name, drop 8 decrypted))
              else Inr (name, decrypted)))"

definition decrypt_client_datagram :: "arc4 \<Rightarrow> bytes \<Rightarrow> (string \<times> bytes) list \<Rightarrow> (string \<times> bytes) res" where
  "decrypt_client_datagram arc4 datagram candidate_keys =
     (if length datagram < CRYPT_HEADER_WITHOUTPADDING then Inl UdpObfuscationError
      else if hd datagram \<in> set plain_protocol_bytes then Inl UdpObfuscationError
      else decrypt_try arc4 datagram candidate_keys)"

definition is_plain_protocol_byte :: "bytes \<Rightarrow> bool res" where
  "is_plain_protocol_byte first =
     (if length first \<noteq> 1 then Inl UdpObfuscationError else Inr (hd first \<in> set plain_protocol_bytes))"

section \<open>Kad datagrams\<close>

lemma le_dec_magic [simp]: "le_dec (le_enc 4 MAGICVALUE_UDP_SYNC_CLIENT) = MAGICVALUE_UDP_SYNC_CLIENT"
  by (rule le_dec_le_enc) (simp add: MAGICVALUE_UDP_SYNC_CLIENT_def)

lemma crypt_slice:
  assumes "drop a d = crypt_at ks p (x @ y) @ suf"
  shows "crypt_at ks p (py_slice a (a + length x) d) = x" and "drop (a + length x) d = crypt_at ks (p + length x) y @ suf"
proof -
  have d: "drop a d = crypt_at ks p x @ crypt_at ks (p + length x) y @ suf" using assms by (simp add: crypt_at_append)
  show "drop (a + length x) d = crypt_at ks (p + length x) y @ suf"
    using drop_add_append [OF d] by simp
  show "crypt_at ks p (py_slice a (a + length x) d) = x" using d by (simp add: py_slice_def)
qed

text \<open>A datagram of the documented layout, with its padding.\<close>

definition padded_kad :: "keystream \<Rightarrow> byte \<Rightarrow> bytes \<Rightarrow> bytes \<Rightarrow> nat \<Rightarrow> nat \<Rightarrow> bytes \<Rightarrow> bytes" where
  "padded_kad ks marker key_part pad rkey skey body =
     [marker] @ key_part @ crypt_at ks 0
       (le_enc 4 MAGICVALUE_UDP_SYNC_CLIENT @ [word_of_nat (length pad)] @ pad @ le_enc 4 rkey @ le_enc 4 skey @ body)"

lemma decode_padded:
  assumes m: "marker \<notin> set plain_protocol_bytes" and kp: "length key_part = 2" and p: "length pad \<le> 255" and body: "body \<noteq> []"
    and key: "arc4 (md5 (take 16 own @ key_part)) = Some ks"
  shows "decode_obfuscated_kad arc4 md5 (padded_kad ks marker key_part pad rkey skey body) own stored =
    Inr (Some (crypt_at ks 13 (crypt_at ks (13 + length pad) body),
      le_dec (crypt_at ks 5 (crypt_at ks (5 + length pad) (le_enc 4 rkey))),
      le_dec (crypt_at ks 9 (crypt_at ks (9 + length pad) (le_enc 4 skey)))))"
proof -
  define d where "d = padded_kad ks marker key_part pad rkey skey body"
  let ?n = "length pad"
  have len: "length d = 16 + ?n + length body" using kp by (simp add: d_def padded_kad_def)
  have k13: "py_slice 1 3 d = key_part" using kp by (simp add: d_def padded_kad_def py_slice_def)
  have d3: "drop 3 d = crypt_at ks 0 (le_enc 4 MAGICVALUE_UDP_SYNC_CLIENT @ ([word_of_nat ?n] @ pad @ le_enc 4 rkey @ le_enc 4 skey @ body)) @ []"
    using kp by (simp add: d_def padded_kad_def)
  note m1 = crypt_slice [OF d3]
  have d7: "drop 7 d = crypt_at ks 4 ([word_of_nat ?n] @ (pad @ le_enc 4 rkey @ le_enc 4 skey @ body)) @ []" using m1(2) by simp
  note m2 = crypt_slice [OF d7]
  have d8: "drop 8 d = crypt_at ks 5 pad @ crypt_at ks (5 + ?n) (le_enc 4 rkey @ le_enc 4 skey @ body)"
    using m2(2) by (simp add: crypt_at_append)
  have dn: "drop (8 + ?n) d = crypt_at ks (5 + ?n) (le_enc 4 rkey @ (le_enc 4 skey @ body)) @ []"
    using drop_add_append [OF d8] by simp
  note m3 = crypt_slice [OF dn]
  have dk: "drop (12 + ?n) d = crypt_at ks (9 + ?n) (le_enc 4 skey @ body) @ []"
    using m3(2) by (simp add: add.commute add.left_commute)
  note m4 = crypt_slice [OF dk]
  have db: "drop (16 + ?n) d = crypt_at ks (13 + ?n) body"
    using m4(2) by (simp add: add.commute add.left_commute)
  have s1: "le_dec (crypt_at ks 0 (py_slice 3 7 d)) = MAGICVALUE_UDP_SYNC_CLIENT" using m1(1) by simp
  have s2: "unat (hd (crypt_at ks 4 (py_slice 7 8 d))) = ?n" using m2(1) p by (simp add: unat_len)
  have s3: "py_slice (8 + ?n) (12 + ?n) d = crypt_at ks (5 + ?n) (le_enc 4 rkey)"
    using dn by (simp add: py_slice_def crypt_at_append)
  have s4: "py_slice (12 + ?n) (16 + ?n) d = crypt_at ks (9 + ?n) (le_enc 4 skey)"
    using dk by (simp add: py_slice_def crypt_at_append)
  have bl: "\<not> int (length d) - int CRYPT_HEADER_WITHOUTPADDING - int ?n \<le> 8"
    using body by (cases body) (simp_all add: len CRYPT_HEADER_WITHOUTPADDING_def)
  have dw: "decode_with ks d = Some (crypt_at ks 13 (crypt_at ks (13 + ?n) body),
      le_dec (crypt_at ks 5 (crypt_at ks (5 + ?n) (le_enc 4 rkey))), le_dec (crypt_at ks 9 (crypt_at ks (9 + ?n) (le_enc 4 skey))))"
    unfolding decode_with_def s2 Let_def if_not_P [OF bl] s3 s4 db by (rule refl)
  have h: "hd d = marker" by (simp add: d_def padded_kad_def)
  show ?thesis unfolding d_def [symmetric] decode_obfuscated_kad_def kad_key_materials_def k13
    using m h len key s1 dw by (simp add: CRYPT_HEADER_WITHOUTPADDING_def cipher_new_def)
qed

lemma crypt_at_two: "crypt_at ks p (crypt_at ks q d) = d \<longleftrightarrow> (\<forall>i < length d. ks (p + i) = ks (q + i))"
proof (induction d arbitrary: p q)
  case (Cons b d)
  have "ks p = ks q" if "(b XOR ks q) XOR ks p = b"
    using arg_cong [OF that, of "\<lambda>x. (ks p XOR b) XOR x"]
    by (simp add: xor.assoc xor.left_commute xor.commute)
  then have "(b XOR ks q) XOR ks p = b \<longleftrightarrow> ks p = ks q" by (auto simp: xor.assoc)
  with Cons show ?case by (auto simp: less_Suc_eq_0_disj)
qed simp

lemma kad_marker_ok: "(rnd AND 0xFC) OR 0x02 \<notin> set plain_protocol_bytes"
proof
  assume "(rnd AND 0xFC) OR 0x02 \<in> set plain_protocol_bytes"
  then have "((rnd AND 0xFC) OR 0x02) AND 3 \<in> (\<lambda>m. m AND 3) ` set plain_protocol_bytes" by (rule imageI)
  then have "((rnd AND 0xFC) OR 0x02) AND 3 \<in> {3, 1, 0 :: byte}" by (auto simp: plain_protocol_bytes_def)
  moreover have "((rnd AND 0xFC) OR 0x02) AND 3 = (2 :: byte)"
    by (simp add: and.assoc bit.conj_disj_distrib2)
  ultimately show False by simp
qed

text \<open>
  What the Kad encoder writes comes back from the decoder with both verify keys. A datagram
  with padding, which the layout allows and other clients send, does not: the decoder skips the
  padding in the datagram but not in the keystream, so the body comes out right only where the
  keystream happens to repeat itself at the distance of the padding.
\<close>

theorem kad_datagram_decoding:
  assumes "arc4 (md5 (take 16 kad_id @ key_part)) = Some ks" and "length key_part = 2" and "body \<noteq> []"
    and "marker \<notin> set plain_protocol_bytes" and "length pad \<le> 255" and "rkey < 2 ^ 32" and "skey < 2 ^ 32"
  shows "\<exists>d d' r s. encode_obfuscated_kad arc4 md5 body kad_id skey rkey key_part rnd = Inr d \<and>
    decode_obfuscated_kad arc4 md5 d kad_id stored = Inr (Some (body, rkey, skey)) \<and>
    decode_obfuscated_kad arc4 md5 (padded_kad ks marker key_part pad rkey skey body) kad_id stored = Inr (Some (d', r, s)) \<and>
    (d' = body \<longleftrightarrow> (\<forall>i < length body. ks (13 + i) = ks (13 + length pad + i)))"
proof -
  have k: "rkey < 256 ^ 4" "skey < 256 ^ 4" using assms(6,7) by simp_all
  have z: "length ([] :: bytes) \<le> 255" by simp
  have e: "encode_obfuscated_kad arc4 md5 body kad_id skey rkey key_part rnd =
      Inr (padded_kad ks ((rnd AND 0xFC) OR 0x02) key_part [] rkey skey body)"
    using assms(1,6,7) by (simp add: encode_obfuscated_kad_def cipher_new_def padded_kad_def)
  have d: "decode_obfuscated_kad arc4 md5 (padded_kad ks ((rnd AND 0xFC) OR 0x02) key_part [] rkey skey body) kad_id stored =
      Inr (Some (body, rkey, skey))"
    using decode_padded [of "(rnd AND 0xFC) OR 0x02" key_part "[]" body arc4 md5 kad_id ks, OF kad_marker_ok assms(2) z assms(3,1)] k by simp
  show ?thesis
    using e d decode_padded [of marker key_part pad body arc4 md5 kad_id ks rkey skey stored, OF assms(4,2,5,3,1)] crypt_at_two [of ks 13 "13 + length pad" body]
    by (intro exI conjI) auto
qed

theorem kad_datagram_decoding_witness:
  "\<exists>d' r s. decode_obfuscated_kad (\<lambda>_. Some word_of_nat) demo_md5 (padded_kad word_of_nat 2 [7, 8] [1, 1] 3 5 [0xE4, 0x60])
      (replicate 16 4) None = Inr (Some (d', r, s)) \<and> d' \<noteq> [0xE4, 0x60]"
proof -
  have m: "2 \<notin> set plain_protocol_bytes" by (simp add: plain_protocol_bytes_def)
  from kad_datagram_decoding [of "\<lambda>_. Some word_of_nat" demo_md5 "replicate 16 4" "[7, 8]" word_of_nat "[0xE4, 0x60]" 2 "[1, 1]" 3 5 0 None] m
  obtain d' r s where
    d: "decode_obfuscated_kad (\<lambda>_. Some word_of_nat) demo_md5 (padded_kad word_of_nat 2 [7, 8] [1, 1] 3 5 [0xE4, 0x60])
      (replicate 16 4) None = Inr (Some (d', r, s))"
    and i: "d' = [0xE4, 0x60] \<longleftrightarrow> (\<forall>i < length [0xE4, 0x60 :: byte]. (word_of_nat (13 + i) :: byte) = word_of_nat (13 + length [1, 1 :: byte] + i))"
    by auto
  have "d' \<noteq> [0xE4, 0x60]"
    unfolding i by (auto intro!: exI [of _ 0])
  with d show ?thesis by blast
qed

section \<open>Client datagrams\<close>

definition sync_bytes :: bytes where
  "sync_bytes = endian_swap_pack_u32 (int MAGICVALUE_UDP_SYNC_CLIENT)"

lemma sync_bytes_eq: "sync_bytes = rev (le_enc 4 MAGICVALUE_UDP_SYNC_CLIENT)"
  by (simp add: sync_bytes_def endian_swap_pack_u32_def endian_swap_u32_def MAGICVALUE_UDP_SYNC_CLIENT_def eval_simps)

lemma length_swap_pack [simp]: "length (endian_swap_pack_u32 v) = 4"
  by (simp add: endian_swap_pack_u32_def)

lemma sync_probe: "endian_swap_u32 (int (le_dec sync_bytes)) = int MAGICVALUE_UDP_SYNC_CLIENT"
  by (simp add: sync_bytes_eq endian_swap_u32_def MAGICVALUE_UDP_SYNC_CLIENT_def eval_simps)

text \<open>The probe of a candidate key: RC4 is set up and the sync value does not come out.\<close>

definition probe_fails :: "arc4 \<Rightarrow> bytes \<Rightarrow> string \<times> bytes \<Rightarrow> bool" where
  "probe_fails arc4 datagram cand \<longleftrightarrow> length (snd cand) = 16 \<and>
     (case arc4 (snd cand) of
        None \<Rightarrow> False
      | Some ks \<Rightarrow> endian_swap_u32 (int (le_dec (take 4 (crypt_at ks 0 (py_slice 3 8 datagram))))) \<noteq> int MAGICVALUE_UDP_SYNC_CLIENT)"

lemma decrypt_try_skip:
  "list_all (probe_fails arc4 d) cs \<Longrightarrow> decrypt_try arc4 d (cs @ ds) = decrypt_try arc4 d ds"
  by (induction cs) (auto simp: probe_fails_def cipher_new_def Let_def split: option.splits)

definition kad_prefix :: "udp_mode \<Rightarrow> (bytes \<times> bytes) option \<Rightarrow> bytes" where
  "kad_prefix mode ks = (case ks of
     Some (r, s) \<Rightarrow> if mode = Ed2k then [] else endian_swap_pack_u32 (int (le_dec r)) @ endian_swap_pack_u32 (int (le_dec s))
   | None \<Rightarrow> [])"

lemma generate_marker_cases:
  "generate_marker mode draws \<notin> set plain_protocol_bytes"
proof (cases "filter (\<lambda>m. m \<notin> set plain_protocol_bytes) (map (marker_of mode) (take MAX_MARKER_RETRIES draws))")
  case Nil
  then show ?thesis by (simp add: generate_marker_def plain_protocol_bytes_def)
next
  case (Cons m ms)
  then have "m \<in> set (filter (\<lambda>m. m \<notin> set plain_protocol_bytes) (map (marker_of mode) (take MAX_MARKER_RETRIES draws)))"
    by (metis list.set_intros(1))
  then have "m \<notin> set plain_protocol_bytes" by simp
  with Cons show ?thesis by (simp add: generate_marker_def)
qed

lemma client_datagram_shape:
  assumes "client_datagram arc4 payload mode key rp marker vk rkp draws padding = Inr d" and "length rkp = 2"
  obtains m kp ks where "d = [m] @ kp @ crypt_at ks 0 (sync_bytes @ [word_of_nat (length padding)] @ padding @ kad_prefix mode vk @ payload)"
    and "length kp = 2" and "arc4 key = Some ks" and "length key = 16" and "even m \<longleftrightarrow> mode \<noteq> Ed2k"
    and "m \<notin> set plain_protocol_bytes"
    and "mode \<noteq> Ed2k \<Longrightarrow> length (kad_prefix mode vk) = 8" and "mode = Ed2k \<Longrightarrow> kad_prefix mode vk = []"
    and "kp = (case rp of None \<Rightarrow> rkp | Some k \<Rightarrow> k)"
  using assms
  by (intro that [of "hd d" "case rp of None \<Rightarrow> rkp | Some k \<Rightarrow> k" "the (arc4 key)"])
    (auto simp: client_datagram_def bindE_eq_Inr_conv cipher_new_def Let_def sync_bytes_def kad_prefix_def generate_marker_cases
      split: if_splits option.splits)

lemma decrypt_try_hit:
  assumes d: "d = [m] @ kp @ crypt_at ks 0 (sync_bytes @ [word_of_nat (length padding)] @ padding @ pre @ payload)"
    and "length kp = 2" and "arc4 key = Some ks" and "length key = 16" and p: "length padding \<le> 255"
    and "length pre = (if starts_kad name then 8 else 0)"
  shows "decrypt_try arc4 d ((name, key) # cands) =
    (if starts_kad name \<and> payload = [] then Inl UdpObfuscationError else Inr (name, payload))"
proof -
  have s4: "length sync_bytes = 4" by (simp add: sync_bytes_def)
  have h: "crypt_at ks 0 (py_slice 3 8 d) = sync_bytes @ [word_of_nat (length padding)]"
    using assms(2) s4 by (simp add: d py_slice_def take_crypt_at)
  have pl: "unat ((sync_bytes @ [word_of_nat (length padding)]) ! 4) = length padding"
    using s4 p by (simp add: nth_append unat_len)
  have b: "drop (8 + length padding) d = crypt_at ks (5 + length padding) (pre @ payload)"
  proof -
    have d3: "drop 3 d = crypt_at ks 0 (sync_bytes @ [word_of_nat (length padding)] @ padding @ pre @ payload)"
      using assms(2) by (simp add: d)
    have "drop (8 + length padding) d = drop (5 + length padding) (drop 3 d)" by (simp add: add.commute)
    with s4 show ?thesis unfolding d3 by (simp add: drop_crypt_at)
  qed
  have len: "\<not> length d < 8 + length padding" using assms(2) s4 by (simp add: d)
  have c8: "CRYPT_HEADER_WITHOUTPADDING = 8" by (simp add: CRYPT_HEADER_WITHOUTPADDING_def)
  have np: "pre = []" if "\<not> starts_kad name" using assms(6) that by simp
  show ?thesis
    using assms(3,4,6) len np
    by (simp add: cipher_new_def h s4 sync_probe pl [simplified] b c8 Let_def)
qed

text \<open>
  A datagram the client module encrypts, in any mode and with any padding, is decrypted by
  the first candidate with its key, whatever candidates that fail the probe stand before it; only
  an empty payload in a Kad mode is refused. The Kad module, given the same node id and key part,
  does not recognise it: the two modules write the sync value in opposite byte orders.
\<close>

theorem client_datagram_roundtrip:
  assumes "encrypt_client_datagram arc4 payload mode key rp marker vk rkp draws padding = Inr d"
    and "length rkp = 2" and "length padding < MAX_PADDING_LENGTH" and "list_all (probe_fails arc4 d) skipped"
    and "key = md5 (take 16 kad_id @ (case rp of None \<Rightarrow> rkp | Some k \<Rightarrow> k))"
  shows "decrypt_client_datagram arc4 d (skipped @ (mode, key) # cands) =
      (if mode \<noteq> ''ed2k'' \<and> payload = [] then Inl UdpObfuscationError else Inr (mode, payload)) \<and>
    decode_obfuscated_kad arc4 md5 d kad_id None = Inr None"
proof -
  from assms(1) obtain mo where mo: "mode_of mode = Inr mo"
    and c: "client_datagram arc4 payload mo key rp marker vk rkp draws padding = Inr d"
    by (auto simp: encrypt_client_datagram_def bindE_eq_Inr_conv)
  from client_datagram_shape [OF c assms(2)] obtain m kp ks where
    d: "d = [m] @ kp @ crypt_at ks 0 (sync_bytes @ [word_of_nat (length padding)] @ padding @ kad_prefix mo vk @ payload)"
    and kp: "length kp = 2" "kp = (case rp of None \<Rightarrow> rkp | Some k \<Rightarrow> k)" and key: "arc4 key = Some ks" "length key = 16"
    and m: "m \<notin> set plain_protocol_bytes"
    and pre: "mo \<noteq> Ed2k \<Longrightarrow> length (kad_prefix mo vk) = 8" "mo = Ed2k \<Longrightarrow> kad_prefix mo vk = []" by metis
  have s4: "length sync_bytes = 4" by (simp add: sync_bytes_def)
  have name: "starts_kad mode \<longleftrightarrow> mo \<noteq> Ed2k" "mode = ''ed2k'' \<longleftrightarrow> mo = Ed2k"
    using mo by (auto simp: mode_of_def starts_kad_def split: if_splits)
  have lp: "length padding \<le> 255" using assms(3) by (simp add: MAX_PADDING_LENGTH_def)
  have lpre: "length (kad_prefix mo vk) = (if starts_kad mode then 8 else 0)" using pre name by auto
  have hd: "hd d = m" "\<not> length d < 8" "\<not> length d \<le> 7" using kp s4 by (simp_all add: d)
  have dec: "decrypt_client_datagram arc4 d (skipped @ (mode, key) # cands) =
      (if mode \<noteq> ''ed2k'' \<and> payload = [] then Inl UdpObfuscationError else Inr (mode, payload))"
    using decrypt_try_hit [of d m kp ks padding "kad_prefix mo vk" payload arc4 key mode cands, OF d kp(1) key lp lpre] decrypt_try_skip [OF assms(4)] hd m name
    by (simp add: decrypt_client_datagram_def CRYPT_HEADER_WITHOUTPADDING_def)
  have k13: "py_slice 1 3 d = kp" using kp by (simp add: d py_slice_def)
  have key': "arc4 (md5 (take 16 kad_id @ kp)) = Some ks" using key(1) assms(5) kp(2) by simp
  have probe: "crypt_at ks 0 (py_slice 3 7 d) = sync_bytes" using kp s4 by (simp add: d py_slice_def take_crypt_at)
  have "le_dec sync_bytes \<noteq> MAGICVALUE_UDP_SYNC_CLIENT"
    by (simp add: sync_bytes_eq MAGICVALUE_UDP_SYNC_CLIENT_def eval_simps)
  then have "decode_obfuscated_kad arc4 md5 d kad_id None = Inr None"
    using key' probe by (simp add: decode_obfuscated_kad_def kad_key_materials_def k13 [unfolded One_nat_def] cipher_new_def)
  with dec show ?thesis by blast
qed

theorem client_datagram_roundtrip_witness:
  "\<exists>d. encrypt_client_datagram demo_arc4 [0xE4, 1] ''kad_node_id'' (demo_md5 (replicate 16 6 @ [1, 2])) (Some [1, 2]) (Some 8)
      (Some ([1, 2, 3, 4], [5, 6, 7, 8])) [0, 0] [] [9] = Inr d \<and>
    decrypt_client_datagram demo_arc4 d [(''kad_node_id'', demo_md5 (replicate 16 6 @ [1, 2]))] = Inr (''kad_node_id'', [0xE4, 1]) \<and>
    decode_obfuscated_kad demo_arc4 demo_md5 d (replicate 16 6) None = Inr None"
proof -
  have "\<exists>d. encrypt_client_datagram demo_arc4 [0xE4, 1] ''kad_node_id'' (demo_md5 (replicate 16 6 @ [1, 2])) (Some [1, 2]) (Some 8)
      (Some ([1, 2, 3, 4], [5, 6, 7, 8])) [0, 0] [] [9] = Inr d"
    by (simp add: encrypt_client_datagram_def mode_of_def client_datagram_def plain_protocol_bytes_def cipher_new_def demo_arc4_def demo_md5_def Let_def)
  then obtain d where d: "encrypt_client_datagram demo_arc4 [0xE4, 1] ''kad_node_id'' (demo_md5 (replicate 16 6 @ [1, 2])) (Some [1, 2]) (Some 8)
      (Some ([1, 2, 3, 4], [5, 6, 7, 8])) [0, 0] [] [9] = Inr d" ..
  show ?thesis
    using client_datagram_roundtrip [OF d, of "[]" demo_md5 "replicate 16 6" "[]"] d by (simp add: MAX_PADDING_LENGTH_def)
qed

end
