(* ===== verification/Utp.thy ===== *)
theory Utp
  imports Prelude "HOL-Library.AList"
begin

unbundle bit_operations_syntax

text \<open>
  \<open>core/natt/utp.py\<close>: the uTP stream that carries an eD2k session through a NAT. The state of an
  \<open>UtpStream\<close> and its operations; frames handed to \<open>send_frame\<close> are returned by the operation that
  sends them. \<open>now\<close> is \<open>time.time()\<close>, \<open>us\<close> the microseconds the header carries, and the random
  connection id an argument. Waiting (\<open>asyncio.wait_for\<close>, \<open>sleep\<close>) is not modelled: an operation is
  split where it waits.
\<close>

section \<open>Packets\<close>

definition UTP_VERSION :: nat where "UTP_VERSION = 1"
definition ST_DATA :: nat where "ST_DATA = 0"
definition ST_FIN :: nat where "ST_FIN = 1"
definition ST_STATE :: nat where "ST_STATE = 2"
definition ST_RESET :: nat where "ST_RESET = 3"
definition ST_SYN :: nat where "ST_SYN = 4"

lemmas packet_types = ST_DATA_def ST_FIN_def ST_STATE_def ST_RESET_def ST_SYN_def

definition HEADER_LEN :: nat where "HEADER_LEN = 20"
definition RETRANSMIT_INTERVAL :: real where "RETRANSMIT_INTERVAL = 0.6"
definition MAX_RETRIES :: nat where "MAX_RETRIES = 40"
definition WINDOW :: nat where "WINDOW = 2 ^ 20"

definition utp_header :: "nat \<Rightarrow> nat \<Rightarrow> nat \<Rightarrow> nat \<Rightarrow> nat \<Rightarrow> bytes" where
  "utp_header us ptype conn_id sq ack =
     [word_of_nat (16 * ptype + UTP_VERSION), 0] @ be_enc 2 (conn_id mod 2 ^ 16) @ be_enc 4 (us mod 2 ^ 32) @ be_enc 4 0 @
     be_enc 4 WINDOW @ be_enc 2 (sq mod 2 ^ 16) @ be_enc 2 (ack mod 2 ^ 16)"

section \<open>The stream\<close>

text \<open>The dictionaries \<open>_sent\<close> (in the order of insertion) and \<open>_reorder\<close> are association lists.\<close>

record utp =
  u_id_send :: nat
  u_id_recv :: nat
  u_seq :: nat
  u_ack :: nat
  u_sent :: "(nat \<times> real \<times> bytes) list"
  u_reorder :: "(nat \<times> bytes) list"
  u_fin_received :: bool
  u_closed :: bool
  u_connected :: bool
  u_incoming :: "bytes list"
  u_eof :: bool

text \<open>\<open>rnd\<close> is the number drawn from \<open>os.urandom(2)\<close>; a connection id 0 counts as none.\<close>

definition utp_new :: "nat option \<Rightarrow> bool \<Rightarrow> nat \<Rightarrow> utp" where
  "utp_new conn_id initiator rnd =
     (let c = (case conn_id of None \<Rightarrow> 0 | Some i \<Rightarrow> i);
          send = (if initiator then (if c \<noteq> 0 then c else if rnd \<noteq> 0 then rnd else 1) else (c + 1) mod 2 ^ 16);
          recv = (if initiator then (send + 1) mod 2 ^ 16 else c mod 2 ^ 16) in
      \<lparr>u_id_send = send, u_id_recv = recv, u_seq = 1, u_ack = 0, u_sent = [], u_reorder = [], u_fin_received = False,
       u_closed = False, u_connected = False, u_incoming = [], u_eof = False\<rparr>)"

definition utp_packet :: "nat \<Rightarrow> nat \<Rightarrow> nat \<Rightarrow> bytes \<Rightarrow> utp \<Rightarrow> bytes" where
  "utp_packet us ptype sq payload s = utp_header us ptype (u_id_send s) sq (u_ack s) @ payload"

definition utp_ack :: "nat \<Rightarrow> utp \<Rightarrow> bytes" where
  "utp_ack us s = utp_packet us ST_STATE (u_seq s) [] s"

definition utp_fail :: "utp \<Rightarrow> utp" where
  "utp_fail s = s\<lparr>u_closed := True, u_eof := True\<rparr>"

section \<open>Receiving\<close>

definition put_chunk :: "bytes \<Rightarrow> bytes list \<Rightarrow> bytes list" where
  "put_chunk c q = (if c = [] then q else q @ [c])"

text \<open>The loop that takes the next packets out of the reorder buffer.\<close>

function drain :: "nat \<Rightarrow> (nat \<times> bytes) list \<Rightarrow> bytes list \<Rightarrow> nat \<times> (nat \<times> bytes) list \<times> bytes list" where
  "drain ack ro q =
     (case map_of ro (ack + 1) of
        None \<Rightarrow> (ack, ro, q)
      | Some chunk \<Rightarrow> drain (ack + 1) (AList.delete (ack + 1) ro) (put_chunk chunk q))"
  by pat_completeness auto

lemma length_delete_less: "map_of ro k = Some c \<Longrightarrow> length (AList.delete k ro) < length ro"
  unfolding AList.delete_eq by (rule length_filter_less [of "(k, c)"]) (auto dest: map_of_SomeD)

termination drain
  by (relation "measure (\<lambda>(_, ro, _). length ro)") (auto simp: length_delete_less)

declare drain.simps [simp del]

definition accept_data :: "nat \<Rightarrow> nat \<Rightarrow> bytes \<Rightarrow> utp \<Rightarrow> utp" where
  "accept_data ptype sq payload s =
     (if sq = u_ack s + 1 then
        let (ack, ro, q) = drain sq (u_reorder s) (put_chunk payload (u_incoming s));
            s1 = s\<lparr>u_ack := ack, u_reorder := ro, u_incoming := q\<rparr> in
        if ptype = ST_FIN then s1\<lparr>u_fin_received := True, u_eof := True\<rparr> else s1
      else if sq > u_ack s + 1 then
        s\<lparr>u_reorder := (if map_of (u_reorder s) sq = None then u_reorder s @ [(sq, payload)] else u_reorder s)\<rparr>
      else s)"

text \<open>\<open>_on_wire_packet\<close>: the new state and whether an acknowledgement is scheduled.\<close>

definition on_wire_packet :: "bytes \<Rightarrow> utp \<Rightarrow> utp \<times> bool" where
  "on_wire_packet packet s =
     (if length packet < HEADER_LEN \<or> u_closed s then (s, False)
      else
        let ptype = unat (packet ! 0) div 16; version = unat (packet ! 0) mod 16 in
        if version \<noteq> UTP_VERSION then (s, False)
        else
          let seq_nr = be_dec (py_slice 16 18 packet); ack_nr = be_dec (py_slice 18 20 packet);
              payload = drop HEADER_LEN packet;
              s1 = (if ptype \<in> {ST_STATE, ST_DATA, ST_FIN} then s\<lparr>u_sent := filter (\<lambda>(k, _). \<not> k \<le> ack_nr) (u_sent s)\<rparr> else s) in
          if ptype = ST_RESET then (utp_fail s1, False)
          else if ptype = ST_SYN then (s1, False)
          else if ptype = ST_STATE then (s1\<lparr>u_connected := True\<rparr>, False)
          else
            let s2 = accept_data ptype seq_nr payload s1 in
            (if ptype = ST_FIN \<and> seq_nr \<le> u_ack s2 then s2\<lparr>u_fin_received := True, u_eof := True\<rparr> else s2, True))"

section \<open>Connecting, sending, closing\<close>

text \<open>\<open>connect\<close> before and after the wait for the first \<open>ST_STATE\<close>; \<open>accept\<close> of an inbound SYN.\<close>

definition utp_connect :: "real \<Rightarrow> nat \<Rightarrow> utp \<Rightarrow> bytes \<times> utp" where
  "utp_connect now us s =
     (utp_packet us ST_SYN (u_seq s) [] s, s\<lparr>u_sent := AList.update (u_seq s) (now, [0x53, 0x59, 0x4E]) (u_sent s)\<rparr>)"

definition utp_connected :: "utp \<Rightarrow> utp" where
  "utp_connected s = s\<lparr>u_seq := (u_seq s + 1) mod 2 ^ 16\<rparr>"

definition utp_accept :: "nat \<Rightarrow> bytes \<Rightarrow> (bytes \<times> utp) res" where
  "utp_accept us syn_packet =
     (if length syn_packet < HEADER_LEN then Inl UtpError
      else
        let s = utp_new (Some (be_dec (py_slice 2 4 syn_packet))) False 0;
            s1 = s\<lparr>u_ack := be_dec (py_slice 16 18 syn_packet)\<rparr> in
        Inr (utp_ack us s1, s1\<lparr>u_connected := True\<rparr>))"

definition utp_send :: "real \<Rightarrow> nat \<Rightarrow> bytes \<Rightarrow> utp \<Rightarrow> (bytes \<times> utp) res" where
  "utp_send now us data s =
     (if u_closed s then Inl UtpError
      else
        let s1 = s\<lparr>u_seq := (u_seq s + 1) mod 2 ^ 16\<rparr> in
        Inr (utp_packet us ST_DATA (u_seq s) data s1, s1\<lparr>u_sent := AList.update (u_seq s) (now, data) (u_sent s)\<rparr>))"

text \<open>\<open>recv\<close> when something can be returned: a queued chunk, or the end of the stream; \<open>None\<close> while it waits.\<close>

definition utp_recv :: "utp \<Rightarrow> (bytes \<times> utp) option" where
  "utp_recv s =
     (case u_incoming s of
        c # q \<Rightarrow> Some (c, s\<lparr>u_incoming := q\<rparr>)
      | [] \<Rightarrow> if u_eof s then Some ([], s) else None)"

definition utp_close :: "real \<Rightarrow> nat \<Rightarrow> utp \<Rightarrow> bytes option \<times> utp" where
  "utp_close now us s =
     (if u_closed s then (None, s)
      else
        let s1 = s\<lparr>u_seq := (u_seq s + 1) mod 2 ^ 16\<rparr> in
        (Some (utp_packet us ST_FIN (u_seq s) [] s1),
         utp_fail (s1\<lparr>u_sent := AList.update (u_seq s) (now, [0x46, 0x49, 0x4E]) (u_sent s1)\<rparr>)))"

section \<open>Retransmission\<close>

definition retransmit_type :: "bytes \<Rightarrow> nat" where
  "retransmit_type data =
     (if data = [0x46, 0x49, 0x4E] then ST_FIN else if data = [0x53, 0x59, 0x4E] then ST_SYN else ST_DATA)"

definition retransmit_payload :: "bytes \<Rightarrow> bytes" where
  "retransmit_payload data = (if data = [0x46, 0x49, 0x4E] \<or> data = [0x53, 0x59, 0x4E] then [] else data)"

text \<open>One pass of \<open>_retransmit_loop\<close> after its sleep: the frames sent, and the state.\<close>

fun retransmit :: "real \<Rightarrow> nat \<Rightarrow> (nat \<times> real \<times> bytes) list \<Rightarrow> utp \<Rightarrow> bytes list \<times> utp" where
  "retransmit now us [] s = ([], s)"
| "retransmit now us ((sq, sent_at, data) # pending) s =
     (if now - sent_at > real MAX_RETRIES * RETRANSMIT_INTERVAL then ([], utp_fail s)
      else if now - sent_at \<ge> RETRANSMIT_INTERVAL then
        let (frames, s1) = retransmit now us pending (s\<lparr>u_sent := AList.update sq (now, data) (u_sent s)\<rparr>) in
        (utp_packet us (retransmit_type data) sq (retransmit_payload data) s # frames, s1)
      else retransmit now us pending s)"

definition retransmit_pass :: "real \<Rightarrow> nat \<Rightarrow> utp \<Rightarrow> bytes list \<times> utp" where
  "retransmit_pass now us s = (if u_closed s then ([], s) else retransmit now us (u_sent s) s)"

section \<open>The header read back\<close>

lemma utp_header_fields:
  assumes "ptype < 16"
  shows "length (utp_header us ptype conn sq ack) = 20"
    and "unat (utp_header us ptype conn sq ack ! 0) = 16 * ptype + 1"
    and "be_dec (py_slice 16 18 (utp_header us ptype conn sq ack @ p)) = sq mod 2 ^ 16"
    and "be_dec (py_slice 18 20 (utp_header us ptype conn sq ack @ p)) = ack mod 2 ^ 16"
    and "drop 20 (utp_header us ptype conn sq ack @ p) = p"
proof -
  have "unat (word_of_nat (16 * ptype + 1) :: byte) = 16 * ptype + 1"
    using assms by (simp only: unat_byte_of_nat) simp
  then show "unat (utp_header us ptype conn sq ack ! 0) = 16 * ptype + 1"
    by (simp add: utp_header_def UTP_VERSION_def)
qed (use be_dec_be_enc [of "sq mod 2 ^ 16" 2] be_dec_be_enc [of "ack mod 2 ^ 16" 2]
  in \<open>simp_all add: utp_header_def py_slice_def\<close>)

lemma on_data_packet:
  assumes "\<not> u_closed s" and "sq < 2 ^ 16"
  shows "u_incoming (fst (on_wire_packet (utp_header us ST_DATA conn sq ack @ p) s)) = u_incoming (accept_data ST_DATA sq p s)"
    and "u_reorder (fst (on_wire_packet (utp_header us ST_DATA conn sq ack @ p) s)) = u_reorder (accept_data ST_DATA sq p s)"
    and "u_ack (fst (on_wire_packet (utp_header us ST_DATA conn sq ack @ p) s)) = u_ack (accept_data ST_DATA sq p s)"
    and "\<not> u_closed (fst (on_wire_packet (utp_header us ST_DATA conn sq ack @ p) s))"
  using assms utp_header_fields(1,2) [of ST_DATA us conn sq ack] utp_header_fields(3-5) [of ST_DATA us conn sq ack p]
  by (auto simp: on_wire_packet_def HEADER_LEN_def UTP_VERSION_def packet_types nth_append accept_data_def Let_def case_prod_unfold)

lemma on_state_packet:
  assumes "\<not> u_closed s"
  shows "u_incoming (fst (on_wire_packet (utp_header us ST_STATE conn sq ack) s)) = u_incoming s"
    and "u_reorder (fst (on_wire_packet (utp_header us ST_STATE conn sq ack) s)) = u_reorder s"
    and "u_ack (fst (on_wire_packet (utp_header us ST_STATE conn sq ack) s)) = u_ack s"
    and "\<not> u_closed (fst (on_wire_packet (utp_header us ST_STATE conn sq ack) s))"
  using assms utp_header_fields(1,2) [of ST_STATE us conn sq ack]
  by (auto simp: on_wire_packet_def HEADER_LEN_def UTP_VERSION_def packet_types Let_def)

section \<open>Reordering\<close>

text \<open>
  \<open>buffered base cs A k ro\<close>: of the chunks \<open>cs\<close>, numbered from \<open>base + 1\<close>, those in \<open>A\<close> have
  arrived, the first \<open>k\<close> have been delivered and the buffer \<open>ro\<close> holds the others that have arrived.
\<close>

definition buffered :: "nat \<Rightarrow> bytes list \<Rightarrow> nat set \<Rightarrow> nat \<Rightarrow> (nat \<times> bytes) list \<Rightarrow> bool" where
  "buffered base cs A k ro \<longleftrightarrow>
     (\<forall>j. map_of ro j = (if base + k < j \<and> j \<le> base + length cs \<and> j - base - 1 \<in> A then Some (cs ! (j - base - 1)) else None))"

definition receiving :: "nat \<Rightarrow> bytes list \<Rightarrow> nat set \<Rightarrow> nat \<Rightarrow> utp \<Rightarrow> bool" where
  "receiving base cs A k s \<longleftrightarrow> \<not> u_closed s \<and> k \<le> length cs \<and> u_ack s = base + k \<and>
     u_incoming s = filter (\<lambda>c. c \<noteq> []) (take k cs) \<and> {..<k} \<subseteq> A \<and> k \<notin> A \<and> A \<subseteq> {..<length cs} \<and> buffered base cs A k (u_reorder s)"

lemma put_chunk_take:
  "k < length cs \<Longrightarrow> put_chunk (cs ! k) (filter (\<lambda>c. c \<noteq> []) (take k cs)) = filter (\<lambda>c. c \<noteq> []) (take (Suc k) cs)"
  by (simp add: put_chunk_def take_Suc_conv_app_nth)

lemma drain_None: "map_of ro (ack + 1) = None \<Longrightarrow> drain ack ro q = (ack, ro, q)"
  by (subst drain.simps) simp

lemma drain_spec:
  assumes "buffered base cs A k ro" and "k \<le> length cs" and "{..<k} \<subseteq> A" and "A \<subseteq> {..<length cs}"
  shows "\<exists>k' ro'. drain (base + k) ro (filter (\<lambda>c. c \<noteq> []) (take k cs)) = (base + k', ro', filter (\<lambda>c. c \<noteq> []) (take k' cs)) \<and>
    k' \<le> length cs \<and> {..<k'} \<subseteq> A \<and> k' \<notin> A \<and> buffered base cs A k' ro'"
  using assms
proof (induction "length cs - k" arbitrary: k ro)
  case (0 k ro)
  then have k: "k = length cs" by simp
  then have "map_of ro (base + k + 1) = None" using 0(2) by (simp add: buffered_def)
  then show ?case using 0 k by (intro exI [of _ k] exI [of _ ro]) (auto simp: drain_None)
next
  case (Suc d k ro)
  then have k: "k < length cs" by simp
  show ?case
  proof (cases "k \<in> A")
    case True
    then have m: "map_of ro (base + k + 1) = Some (cs ! k)" using Suc.prems(1) k by (simp add: buffered_def)
    have b: "buffered base cs A (Suc k) (AList.delete (base + k + 1) ro)"
      using Suc.prems(1) by (auto simp: buffered_def delete_conv)
    have "{..<Suc k} \<subseteq> A" using Suc.prems(3) True by (auto simp: less_Suc_eq)
    moreover have "d = length cs - Suc k" using Suc.hyps(2) by simp
    ultimately obtain k' ro' where
      r: "drain (base + Suc k) (AList.delete (base + k + 1) ro) (filter (\<lambda>c. c \<noteq> []) (take (Suc k) cs)) =
         (base + k', ro', filter (\<lambda>c. c \<noteq> []) (take k' cs))"
        "k' \<le> length cs" "{..<k'} \<subseteq> A" "k' \<notin> A" "buffered base cs A k' ro'"
      using Suc.hyps(1) [of "Suc k" "AList.delete (base + k + 1) ro"] b k Suc.prems(4) by auto
    have "drain (base + k) ro (filter (\<lambda>c. c \<noteq> []) (take k cs)) =
        drain (base + Suc k) (AList.delete (base + k + 1) ro) (filter (\<lambda>c. c \<noteq> []) (take (Suc k) cs))"
      using m k by (subst drain.simps) (simp add: put_chunk_take)
    with r show ?thesis by metis
  next
    case False
    then have "map_of ro (base + k + 1) = None" using Suc.prems(1) by (simp add: buffered_def)
    then show ?thesis using Suc.prems False by (intro exI [of _ k] exI [of _ ro]) (auto simp: drain_None)
  qed
qed

lemma accept_data_receiving:
  assumes r: "receiving base cs A k s" and i: "i < length cs"
  shows "\<exists>k'. receiving base cs (insert i A) k' (accept_data ST_DATA (base + 1 + i) (cs ! i) s)"
proof -
  from r have ack: "u_ack s = base + k" and q: "u_incoming s = filter (\<lambda>c. c \<noteq> []) (take k cs)" and b: "buffered base cs A k (u_reorder s)"
    and kl: "k \<le> length cs" and A: "{..<k} \<subseteq> A" "k \<notin> A" "A \<subseteq> {..<length cs}" and nc: "\<not> u_closed s" by (simp_all add: receiving_def)
  consider "i < k" | "i = k" | "k < i" by linarith
  then show ?thesis
  proof cases
    case 1
    then have "insert i A = A" using A by auto
    with 1 r ack show ?thesis by (auto simp: accept_data_def)
  next
    case 2
    have b': "buffered base cs (insert i A) (Suc k) (u_reorder s)"
    proof -
      have "map_of (u_reorder s) j = (if base + Suc k < j \<and> j \<le> base + length cs \<and> j - base - 1 \<in> insert i A
          then Some (cs ! (j - base - 1)) else None)" for j
        using b 2 A(2) by (cases "j = base + Suc k") (auto simp: buffered_def)
      then show ?thesis by (simp add: buffered_def)
    qed
    have "{..<Suc k} \<subseteq> insert i A" "insert i A \<subseteq> {..<length cs}" using A 2 i by (auto simp: less_Suc_eq)
    from drain_spec [OF b' _ this] i 2 obtain k' ro' where
      d: "drain (base + Suc k) (u_reorder s) (filter (\<lambda>c. c \<noteq> []) (take (Suc k) cs)) = (base + k', ro', filter (\<lambda>c. c \<noteq> []) (take k' cs))"
        "k' \<le> length cs" "{..<k'} \<subseteq> insert i A" "k' \<notin> insert i A" "buffered base cs (insert i A) k' ro'" by auto
    have "accept_data ST_DATA (base + 1 + i) (cs ! i) s = s\<lparr>u_ack := base + k', u_reorder := ro', u_incoming := filter (\<lambda>c. c \<noteq> []) (take k' cs)\<rparr>"
      using d(1) 2 i by (simp add: accept_data_def ack q put_chunk_take packet_types)
    with d(2-5) nc A(3) i show ?thesis by (intro exI [of _ k']) (auto simp: receiving_def)
  next
    case 3
    define ro where "ro = (if map_of (u_reorder s) (base + 1 + i) = None then u_reorder s @ [(base + 1 + i, cs ! i)] else u_reorder s)"
    have "buffered base cs (insert i A) k ro"
      using b 3 i unfolding buffered_def ro_def by (auto simp: map_add_def split: option.splits)
    moreover have "accept_data ST_DATA (base + 1 + i) (cs ! i) s = s\<lparr>u_reorder := ro\<rparr>"
      using 3 by (simp add: accept_data_def ack ro_def)
    ultimately show ?thesis using r 3 i by (intro exI [of _ k]) (auto simp: receiving_def)
  qed
qed

section \<open>Delivery\<close>

text \<open>What the network hands over: the data packet of a chunk, any number of times and in any order, or an acknowledgement.\<close>

datatype arrival = Chunk_Arrives nat nat nat nat | State_Arrives nat nat nat nat

definition arrival_packet :: "nat \<Rightarrow> bytes list \<Rightarrow> arrival \<Rightarrow> bytes" where
  "arrival_packet base cs a =
     (case a of
        Chunk_Arrives us conn ack i \<Rightarrow> utp_header us ST_DATA conn (base + 1 + i) ack @ cs ! i
      | State_Arrives us conn sq ack \<Rightarrow> utp_header us ST_STATE conn sq ack)"

definition arrival_ok :: "nat \<Rightarrow> arrival \<Rightarrow> bool" where
  "arrival_ok n a = (case a of Chunk_Arrives _ _ _ i \<Rightarrow> i < n | State_Arrives _ _ _ _ \<Rightarrow> True)"

fun arrived :: "arrival list \<Rightarrow> nat list" where
  "arrived [] = []"
| "arrived (Chunk_Arrives us conn ack i # as) = i # arrived as"
| "arrived (State_Arrives us conn sq ack # as) = arrived as"

definition feed :: "bytes list \<Rightarrow> utp \<Rightarrow> utp" where
  "feed ps s = fold (\<lambda>p t. fst (on_wire_packet p t)) ps s"

text \<open>How many chunks have arrived without a gap.\<close>

definition gapless :: "nat \<Rightarrow> nat list \<Rightarrow> nat" where
  "gapless n is = length (takeWhile (\<lambda>i. i \<in> set is) [0..<n])"

lemma gapless_eq:
  assumes "k \<le> n" and "{..<k} \<subseteq> set is" and "k \<notin> set is"
  shows "gapless n is = k"
proof -
  have u: "[0..<n] = [0..<k] @ [k..<n]" using assms(1) upt_add_eq_append [of 0 k "n - k"] by simp
  have "takeWhile (\<lambda>i. i \<in> set is) [k..<n] = []" using assms(3) by (cases "k < n") (simp_all add: upt_conv_Cons)
  then show ?thesis using assms(2) by (auto simp: gapless_def u takeWhile_append)
qed

lemma feed_receiving:
  assumes "receiving base cs A k s" and "base + length cs < 2 ^ 16" and "list_all (arrival_ok (length cs)) as"
  shows "\<exists>k'. receiving base cs (A \<union> set (arrived as)) k' (feed (map (arrival_packet base cs) as) s)"
  using assms
proof (induction as arbitrary: A k s)
  case Nil
  then show ?case by (auto simp: feed_def)
next
  case (Cons a as)
  define t where "t = fst (on_wire_packet (arrival_packet base cs a) s)"
  have "\<exists>k' A'. receiving base cs A' k' t \<and> A' \<union> set (arrived as) = A \<union> set (arrived (a # as))"
  proof (cases a)
    case (Chunk_Arrives us conn ack i)
    then have i: "i < length cs" using Cons.prems(3) by (simp add: arrival_ok_def)
    have nc: "\<not> u_closed s" using Cons.prems(1) by (simp add: receiving_def)
    have sq: "base + 1 + i < 2 ^ 16" using i Cons.prems(2) by simp
    from accept_data_receiving [OF Cons.prems(1) i] obtain k' where
      k': "receiving base cs (insert i A) k' (accept_data ST_DATA (base + 1 + i) (cs ! i) s)" ..
    have "receiving base cs (insert i A) k' t"
      using k' on_data_packet [OF nc sq, of us conn ack "cs ! i"]
      unfolding receiving_def t_def arrival_packet_def Chunk_Arrives by simp
    then show ?thesis using Chunk_Arrives by (intro exI [of _ k'] exI [of _ "insert i A"]) simp
  next
    case (State_Arrives us conn sq ack)
    have nc: "\<not> u_closed s" using Cons.prems(1) by (simp add: receiving_def)
    have "receiving base cs A k t"
      using Cons.prems(1) on_state_packet [OF nc, of us conn sq ack]
      unfolding receiving_def t_def arrival_packet_def State_Arrives by simp
    then show ?thesis using State_Arrives by auto
  qed
  then obtain k' A' where "receiving base cs A' k' t" "A' \<union> set (arrived as) = A \<union> set (arrived (a # as))" by blast
  with Cons.IH [of A' k' t] Cons.prems(2,3) show ?case by (simp add: feed_def t_def)
qed

text \<open>Sequence numbers are compared without wrapping, so nothing follows number 65535.\<close>

lemma be_dec_2_less: "be_dec (py_slice 16 18 p) < 65536"
proof -
  have "(256 :: nat) ^ length (py_slice 16 18 p) \<le> 256 ^ 2" by (rule power_increasing) simp_all
  with be_dec_bound [of "py_slice 16 18 p"] show ?thesis by simp
qed

lemma accept_data_full: "u_ack s = 65535 \<Longrightarrow> sq < 65536 \<Longrightarrow> accept_data ty sq p s = s"
  by (simp add: accept_data_def)

lemma on_wire_packet_full:
  assumes "u_ack s = 65535"
  shows "u_incoming (fst (on_wire_packet p s)) = u_incoming s \<and> u_ack (fst (on_wire_packet p s)) = 65535"
  using assms by (simp add: on_wire_packet_def accept_data_full be_dec_2_less utp_fail_def Let_def)

lemma feed_full: "u_ack s = 65535 \<Longrightarrow> u_incoming (feed ps s) = u_incoming s"
proof (induction ps arbitrary: s)
  case (Cons p ps)
  then show ?case using on_wire_packet_full [of s p] by (simp add: feed_def)
qed (simp add: feed_def)

text \<open>
  C38. The uTP receiver delivers in order and without loss or duplication: whatever the network
  does to the order and the number of the packets, the chunks in the queue are exactly those
  before the first one missing, so all of them once all have arrived. This holds up to sequence
  number 65535; from there on the receiver delivers nothing any more, whatever it is sent,
  because it expects number 65536 and the wire carries 16 bits.
\<close>

theorem utp_delivers_in_order:
  assumes "\<not> u_closed s" and "u_reorder s = []" and "u_incoming s = []" and "u_ack s + length cs < 2 ^ 16"
    and "list_all (arrival_ok (length cs)) as"
  shows "let t = feed (map (arrival_packet (u_ack s) cs) as) s; k = gapless (length cs) (arrived as) in
    u_incoming t = filter (\<lambda>c. c \<noteq> []) (take k cs) \<and> u_ack t = u_ack s + k \<and>
    (set (arrived as) = {..<length cs} \<longrightarrow> u_incoming t = filter (\<lambda>c. c \<noteq> []) cs) \<and>
    (u_ack t = 65535 \<longrightarrow> u_incoming (feed packets t) = u_incoming t)"
proof -
  have "receiving (u_ack s) cs {} 0 s" using assms(1-3) by (simp add: receiving_def buffered_def)
  from feed_receiving [OF this assms(4,5)] obtain k where
    r: "receiving (u_ack s) cs (set (arrived as)) k (feed (map (arrival_packet (u_ack s) cs) as) s)" by auto
  then have k: "gapless (length cs) (arrived as) = k" by (intro gapless_eq) (simp_all add: receiving_def)
  have "k = length cs" if "set (arrived as) = {..<length cs}"
  proof -
    have "\<not> k < length cs" using r unfolding receiving_def that lessThan_iff by blast
    then show ?thesis using r by (simp add: receiving_def)
  qed
  then show ?thesis using r unfolding k Let_def
    by (intro conjI impI feed_full) (simp_all add: receiving_def)
qed

theorem utp_delivers_in_order_witness:
  "u_incoming (feed (map (arrival_packet 0 [[1], [2, 3], [4]])
      [Chunk_Arrives 0 7 0 1, State_Arrives 5 7 1 1, Chunk_Arrives 0 7 0 1, Chunk_Arrives 0 7 0 2, Chunk_Arrives 0 7 0 0])
      (utp_new None True 6)) = [[1], [2, 3], [4]]"
proof -
  let ?s = "utp_new None True 6" and ?cs = "[[1 :: byte], [2, 3], [4]]"
  let ?as = "[Chunk_Arrives 0 7 0 1, State_Arrives 5 7 1 1, Chunk_Arrives 0 7 0 1, Chunk_Arrives 0 7 0 2, Chunk_Arrives 0 7 0 0]"
  have s: "\<not> u_closed ?s" "u_reorder ?s = []" "u_incoming ?s = []" "u_ack ?s = 0" by (simp_all add: utp_new_def Let_def)
  have n: "u_ack ?s + length ?cs < 2 ^ 16" using s(4) by simp
  have ok: "list_all (arrival_ok (length ?cs)) ?as" by (simp add: arrival_ok_def)
  have "set (arrived ?as) = {..<length ?cs}" by auto
  then have "u_incoming (feed (map (arrival_packet (u_ack ?s) ?cs) ?as) ?s) = filter (\<lambda>c. c \<noteq> []) ?cs"
    using utp_delivers_in_order [OF s(1-3) n ok, of "[]"] unfolding Let_def by blast
  then show ?thesis by (simp add: s(4))
qed

end
