(* ===== verification/Known_Met.thy ===== *)
theory Known_Met
  imports Py_Text Py_String Binary_Codec "HOL-Library.AList"
begin

unbundle bit_operations_syntax

text \<open>
  \<open>core/sharing/known_met.py\<close>: the list of known files, eMule's \<open>known.met\<close>. The file is the bytes
  read or written; \<open>unpack_f\<close> is \<open>struct.unpack("<f", \<dots>)\<close> with the test \<open>is_zero\<close> of a float, and
  \<open>str_of\<close> is \<open>str\<close> of a tag value that is no text. \<open>data[pos]\<close> beyond the end raises \<open>IndexError\<close>,
  \<open>struct.unpack_from\<close> raises \<open>struct.error\<close>, and a slice is cut silently.
\<close>

section \<open>Tags\<close>

datatype 'f kvalue = KBytes bytes | KText ustr | KNum nat | KFloat 'f

record 'f floats =
  unpack_f :: "bytes \<Rightarrow> 'f"
  is_zero :: "'f \<Rightarrow> bool"
  str_of :: "'f kvalue \<Rightarrow> ustr"

definition byte_at :: "bytes \<Rightarrow> nat \<Rightarrow> nat res" where
  "byte_at data pos = (if pos < length data then Inr (unat (data ! pos)) else Inl IndexError)"

text \<open>The value behind the tag's name, by the raw type byte.\<close>

definition read_known_value :: "'f floats \<Rightarrow> bytes \<Rightarrow> nat \<Rightarrow> nat \<Rightarrow> ('f kvalue \<times> nat) res" where
  "read_known_value fl data ty pos =
     (if ty \<in> {0x01, 0x81} then Inr (KBytes (py_slice pos (pos + 16) data), pos + 16)
      else if ty \<in> {0x02, 0x82} then
        bindE (get_le 2 data pos) (\<lambda>ln. Inr (KText (utf8_replace (py_slice (pos + 2) (pos + 2 + ln) data)), pos + 2 + ln))
      else if 0x11 \<le> ty mod 128 \<and> ty mod 128 \<le> 0x30 then
        (let ln = ty mod 128 - 0x10 in Inr (KText (utf8_replace (py_slice pos (pos + ln) data)), pos + ln))
      else if ty \<in> {0x08, 0x88} then bindE (get_le 2 data pos) (\<lambda>v. Inr (KNum v, pos + 2))
      else if ty \<in> {0x09, 0x89} then bindE (byte_at data pos) (\<lambda>v. Inr (KNum v, pos + 1))
      else if ty \<in> {0x0A, 0x8A} then
        bindE (get_le 2 data pos) (\<lambda>ln. Inr (KBytes (py_slice (pos + 2) (pos + 2 + ln) data), pos + 2 + ln))
      else if ty \<in> {0x0B, 0x8B} then bindE (get_le 8 data pos) (\<lambda>v. Inr (KNum v, pos + 8))
      else if ty \<in> {0x03, 0x83} then bindE (get_le 4 data pos) (\<lambda>v. Inr (KNum v, pos + 4))
      else if ty \<in> {0x04, 0x84} then
        (if pos + 4 \<le> length data then Inr (KFloat (unpack_f fl (py_slice pos (pos + 4) data)), pos + 4) else Inl StructError)
      else if ty \<in> {0x07, 0x87} then
        bindE (get_le 4 data pos) (\<lambda>ln. Inr (KBytes (py_slice (pos + 4) (pos + 4 + ln) data), pos + 4 + ln))
      else Inl KnownMetError)"

text \<open>\<open>f"#{name_id:02x}"\<close>\<close>

definition compact_name :: "nat \<Rightarrow> ustr" where
  "compact_name i = 0x23 # map code [hex_digit (i div 16), hex_digit (i mod 16)]"

definition read_known_tag :: "'f floats \<Rightarrow> bytes \<Rightarrow> nat \<Rightarrow> ((ustr \<times> 'f kvalue) \<times> nat) res" where
  "read_known_tag fl data pos =
     bindE (byte_at data pos) (\<lambda>ty.
     bindE (if ty \<ge> 0x80 then bindE (byte_at data (pos + 1)) (\<lambda>i. Inr (compact_name i, pos + 2))
            else bindE (get_le 2 data (pos + 1)) (\<lambda>ln. Inr (utf8_replace (py_slice (pos + 3) (pos + 3 + ln) data), pos + 3 + ln)))
       (\<lambda>(name, p1). bindE (read_known_value fl data ty p1) (\<lambda>(v, p2). Inr ((name, v), p2))))"

text \<open>The dictionary of the tags: a later tag of the same name replaces the value.\<close>

definition read_known_tags :: "'f floats \<Rightarrow> bytes \<Rightarrow> nat \<Rightarrow> nat \<Rightarrow> ((ustr \<times> 'f kvalue) list \<times> nat) res" where
  "read_known_tags fl data pos tag_count =
     bindE (read_n (read_known_tag fl data) tag_count pos) (\<lambda>(ts, p).
       Inr (fold (\<lambda>(n, v) d. AList.update n v d) ts [], p))"

section \<open>Records\<close>

record known_entry =
  ke_hash :: string
  ke_name :: ustr
  ke_size :: int
  ke_last_modified :: int
  ke_part_hashes :: "string list"

definition hex_upper :: "bytes \<Rightarrow> string" where
  "hex_upper bs = map upper_char (to_hex bs)"

fun truthy :: "'f floats \<Rightarrow> 'f kvalue \<Rightarrow> bool" where
  "truthy fl (KBytes b) = (b \<noteq> [])"
| "truthy fl (KText t) = (t \<noteq> [])"
| "truthy fl (KNum n) = (n \<noteq> 0)"
| "truthy fl (KFloat x) = (\<not> is_zero fl x)"

text \<open>\<open>tags.get(a) or tags.get(b) or ""\<close>, as text.\<close>

definition known_name :: "'f floats \<Rightarrow> (ustr \<times> 'f kvalue) list \<Rightarrow> ustr" where
  "known_name fl tags =
     (let pick = (\<lambda>n. case map_of tags n of Some v \<Rightarrow> if truthy fl v then Some v else None | None \<Rightarrow> None) in
      case (case pick [1] of Some v \<Rightarrow> Some v | None \<Rightarrow> pick (compact_name 1)) of
        None \<Rightarrow> []
      | Some (KText t) \<Rightarrow> t
      | Some v \<Rightarrow> str_of fl v)"

definition known_size :: "(ustr \<times> 'f kvalue) list \<Rightarrow> int" where
  "known_size tags =
     (case (case map_of tags [2] of Some v \<Rightarrow> Some v | None \<Rightarrow> map_of tags (compact_name 2)) of
        Some (KNum n) \<Rightarrow> int n | _ \<Rightarrow> -1)"

definition read_part_hash :: "bytes \<Rightarrow> nat \<Rightarrow> (string \<times> nat) res" where
  "read_part_hash data pos = Inr (hex_upper (py_slice pos (pos + 16) data), pos + 16)"

definition read_known_entry :: "'f floats \<Rightarrow> bytes \<Rightarrow> nat \<Rightarrow> (known_entry \<times> nat) res" where
  "read_known_entry fl data pos =
     bindE (get_le 4 data pos) (\<lambda>date.
     let file_hash = py_slice (pos + 4) (pos + 20) data in
     bindE (get_le 2 data (pos + 20)) (\<lambda>part_count.
     bindE (read_n (read_part_hash data) part_count (pos + 22)) (\<lambda>(part_hashes, p1).
     bindE (get_le 4 data p1) (\<lambda>tag_count.
     bindE (read_known_tags fl data (p1 + 4) tag_count) (\<lambda>(tags, p2).
       Inr (\<lparr>ke_hash = hex_upper file_hash, ke_name = known_name fl tags, ke_size = known_size tags,
             ke_last_modified = int date, ke_part_hashes = part_hashes\<rparr>, p2))))))"

definition parse_known_met :: "'f floats \<Rightarrow> bytes \<Rightarrow> known_entry list res" where
  "parse_known_met fl data =
     (if data = [] \<or> hd data \<notin> {0x0E, 0x0F} then Inl KnownMetError
      else
        bindE (get_le 4 data 1) (\<lambda>cnt.
        bindE (read_n (read_known_entry fl data) cnt 5) (\<lambda>(entries, _). Inr entries)))"

section \<open>Writing\<close>

definition pack_int :: "nat \<Rightarrow> int \<Rightarrow> bytes res" where
  "pack_int n v = (if v < 0 then Inl StructError else pack_le n (nat v))"

text \<open>\<open>bytes.fromhex\<close>, raising \<open>ValueError\<close>\<close>

definition fromhex :: "string \<Rightarrow> bytes res" where
  "fromhex s = (case from_hex s of Some b \<Rightarrow> Inr b | None \<Rightarrow> Inl ValueError)"

definition known_tags_bytes :: "known_entry \<Rightarrow> bytes res" where
  "known_tags_bytes e =
     (case utf8_encode (ke_name e) of
        None \<Rightarrow> Inl UnicodeError
      | Some name_bytes \<Rightarrow>
          bindE (pack_le 2 (length name_bytes)) (\<lambda>ln.
            Inr ([0x02] @ le_enc 2 1 @ [0x01] @ ln @ name_bytes @
                 [0x03] @ le_enc 2 1 @ [0x02] @ le_enc 4 (nat (ke_size e mod 2 ^ 32)))))"

definition write_known_entry :: "int \<Rightarrow> known_entry \<Rightarrow> bytes res" where
  "write_known_entry last_modified e =
     bindE (pack_int 4 (if ke_last_modified e \<noteq> 0 then ke_last_modified e else last_modified)) (\<lambda>date.
     bindE (fromhex (ke_hash e)) (\<lambda>file_hash.
     bindE (pack_le 2 (length (ke_part_hashes e))) (\<lambda>part_count.
     bindE (mapE fromhex (ke_part_hashes e)) (\<lambda>parts.
     bindE (known_tags_bytes e) (\<lambda>tags.
       Inr (date @ file_hash @ part_count @ concat parts @ le_enc 4 2 @ tags))))))"

definition write_known_met :: "int \<Rightarrow> known_entry list \<Rightarrow> bytes res" where
  "write_known_met last_modified entries =
     bindE (pack_le 4 (length entries)) (\<lambda>cnt.
     bindE (mapE (write_known_entry last_modified) entries) (\<lambda>es. Inr ([0x0F] @ cnt @ concat es)))"

section \<open>Reading back\<close>

definition hash_text_ok :: "string \<Rightarrow> bool" where
  "hash_text_ok s \<longleftrightarrow> (case from_hex s of Some b \<Rightarrow> length b = 16 | None \<Rightarrow> False)"

definition known_ok :: "known_entry \<Rightarrow> bool" where
  "known_ok e \<longleftrightarrow> hash_text_ok (ke_hash e) \<and> list_all hash_text_ok (ke_part_hashes e)"

definition canon_hash :: "string \<Rightarrow> string" where
  "canon_hash s = hex_upper (the (from_hex s))"

definition known_seen :: "int \<Rightarrow> known_entry \<Rightarrow> known_entry" where
  "known_seen now e = e\<lparr>ke_hash := canon_hash (ke_hash e), ke_size := ke_size e mod 2 ^ 32,
     ke_last_modified := (if ke_last_modified e \<noteq> 0 then ke_last_modified e else now),
     ke_part_hashes := map canon_hash (ke_part_hashes e)\<rparr>"

lemma get_leI:
  assumes "drop off data = le_enc n v @ suf" and "v < 256 ^ n" and "0 < n"
  shows "get_le n data off = Inr v \<and> drop (off + n) data = suf"
  using get_le_enc [OF assms] by blast

lemma byte_atI: "drop pos data = b # suf \<Longrightarrow> byte_at data pos = Inr (unat b) \<and> drop (pos + 1) data = suf"
proof -
  assume d: "drop pos data = b # suf"
  then have "pos < length data" by (metis drop_all leI list.distinct(1))
  with d show ?thesis
    by (metis Suc_eq_plus1 byte_at_def drop_Suc hd_drop_conv_nth list.sel(1) list.sel(3) tl_drop)
qed

lemma fromhex_Inr: "fromhex s = Inr b \<longleftrightarrow> from_hex s = Some b"
  by (simp add: fromhex_def split: option.splits)

text \<open>The part hashes.\<close>

lemma mapE_fromhex:
  assumes "mapE fromhex hs = Inr bs" and "list_all hash_text_ok hs" and "drop pos data = concat bs @ suf"
  shows "\<exists>p. read_n (read_part_hash data) (length hs) pos = Inr (map canon_hash hs, p) \<and> drop p data = suf"
  using assms
proof (induction hs arbitrary: bs pos)
  case Nil
  then show ?case by auto
next
  case (Cons h hs)
  from Cons.prems obtain b bs' where b: "from_hex h = Some b" "length b = 16" and bs': "mapE fromhex hs = Inr bs'" "bs = b # bs'"
    by (auto simp: bindE_eq_Inr_conv fromhex_Inr hash_text_ok_def)
  have d: "drop pos data = b @ (concat bs' @ suf)" using Cons.prems(3) bs'(2) by simp
  note sl = py_slice_prefix [OF d b(2)]
  have "\<exists>p. read_n (read_part_hash data) (length hs) (pos + 16) = Inr (map canon_hash hs, p) \<and> drop p data = suf"
    by (rule Cons.IH [OF bs'(1)]) (use Cons.prems(2) sl(2) in simp_all)
  then show ?case using sl(1) b(1) by (auto simp: read_part_hash_def [of data pos] canon_hash_def [of h])
qed

text \<open>The two tags of a record.\<close>

lemma read_name_tag:
  assumes d: "drop pos data = [0x02] @ le_enc 2 1 @ [0x01] @ le_enc 2 (length nb) @ nb @ suf"
    and n: "utf8_encode name = Some nb" "length nb < 256 ^ 2"
  shows "\<exists>p. read_known_tag fl data pos = Inr (([1], KText name), p) \<and> drop p data = suf"
proof -
  have d0: "drop pos data = 0x02 # (le_enc 2 1 @ [0x01] @ le_enc 2 (length nb) @ nb @ suf)" using d by simp
  note b = byte_atI [OF d0]
  have l: "get_le 2 data (pos + 1) = Inr 1 \<and> drop (pos + 1 + 2) data = [0x01] @ le_enc 2 (length nb) @ nb @ suf"
    by (rule get_leI) (use b in simp_all)
  have d3: "drop (pos + 3) data = [0x01] @ (le_enc 2 (length nb) @ nb @ suf)" using l by (simp add: numeral_3_eq_3)
  note s1 = py_slice_prefix [OF d3, of 1, simplified]
  have v: "get_le 2 data (pos + 3 + 1) = Inr (length nb) \<and> drop (pos + 3 + 1 + 2) data = nb @ suf"
    by (rule get_leI) (use s1 n in \<open>simp_all add: add.commute\<close>)
  have nm: "utf8_replace (py_slice (pos + 3) (pos + 3 + 1) data) = [1]"
    using s1(1) by (simp add: add.commute utf8_replace.simps(2))
  have tx: "utf8_replace (py_slice (pos + 3 + 1 + 2) (pos + 3 + 1 + 2 + length nb) data) = name"
    using v utf8_replace_decode [OF utf8_decode_encode [OF n(1)]] by (simp add: py_slice_def)
  have e: "drop (pos + 3 + 1 + 2 + length nb) data = suf" using v drop_add_append by blast
  have val: "read_known_value fl data 2 (pos + 3 + 1) = Inr (KText name, pos + 3 + 1 + 2 + length nb)"
    using v tx by (simp add: read_known_value_def)
  show ?thesis
    using b l nm val e by (intro exI [of _ "pos + 3 + 1 + 2 + length nb"]) (simp add: read_known_tag_def del: add_2_eq_Suc')
qed

lemma read_size_tag:
  assumes d: "drop pos data = [0x03] @ le_enc 2 1 @ [0x02] @ le_enc 4 v @ suf" and v: "v < 256 ^ 4"
  shows "\<exists>p. read_known_tag fl data pos = Inr (([2], KNum v), p) \<and> drop p data = suf"
proof -
  have d0: "drop pos data = 0x03 # (le_enc 2 1 @ [0x02] @ le_enc 4 v @ suf)" using d by simp
  note b = byte_atI [OF d0]
  have l: "get_le 2 data (pos + 1) = Inr 1 \<and> drop (pos + 1 + 2) data = [0x02] @ le_enc 4 v @ suf"
    by (rule get_leI) (use b in simp_all)
  have d3: "drop (pos + 3) data = [0x02] @ (le_enc 4 v @ suf)" using l by (simp add: numeral_3_eq_3)
  note s1 = py_slice_prefix [OF d3, of 1, simplified]
  have g: "get_le 4 data (pos + 3 + 1) = Inr v \<and> drop (pos + 3 + 1 + 4) data = suf"
    by (rule get_leI) (use s1 v in \<open>simp_all add: add.commute\<close>)
  have nm: "utf8_replace (py_slice (pos + 3) (pos + 3 + 1) data) = [2]"
    using s1(1) by (simp add: add.commute utf8_replace.simps(2))
  have val: "read_known_value fl data 3 (pos + 3 + 1) = Inr (KNum v, pos + 3 + 1 + 4)"
    using g by (simp add: read_known_value_def)
  show ?thesis
    using b l nm val g by (intro exI [of _ "pos + 3 + 1 + 4"]) (simp add: read_known_tag_def)
qed

text \<open>A whole record.\<close>

definition known_bytes :: "int \<Rightarrow> known_entry \<Rightarrow> bytes" where
  "known_bytes now e = (case write_known_entry now e of Inr b \<Rightarrow> b | Inl _ \<Rightarrow> [])"

lemma known_tags_seen:
  "known_name fl (fold (\<lambda>(n, v) d. AList.update n v d) [([1], KText name), ([2], KNum v)] []) = name"
  "known_size (fold (\<lambda>(n, v) d. AList.update n v d) [([1], KText name), ([2], KNum v)] []) = int v"
  by (simp_all add: known_name_def known_size_def compact_name_def Let_def)

lemma read_known_entry_back:
  assumes w: "write_known_entry now e = Inr bs" and ok: "known_ok e" and d: "drop pos data = bs @ suf"
  shows "\<exists>p. read_known_entry fl data pos = Inr (known_seen now e, p) \<and> drop p data = suf"
proof -
  define dt where "dt = (if ke_last_modified e \<noteq> 0 then ke_last_modified e else now)"
  define sz where "sz = nat (ke_size e mod 2 ^ 32)"
  from w obtain fh parts nb where
    date: "0 \<le> dt" "nat dt < 256 ^ 4" and fh: "from_hex (ke_hash e) = Some fh"
    and n: "length (ke_part_hashes e) < 256 ^ 2" and parts: "mapE fromhex (ke_part_hashes e) = Inr parts"
    and nb: "utf8_encode (ke_name e) = Some nb" "length nb < 256 ^ 2"
    and bs: "bs = le_enc 4 (nat dt) @ fh @ le_enc 2 (length (ke_part_hashes e)) @ concat parts @ le_enc 4 2 @
        [0x02] @ le_enc 2 1 @ [0x01] @ le_enc 2 (length nb) @ nb @ [0x03] @ le_enc 2 1 @ [0x02] @ le_enc 4 sz"
    by (auto simp: write_known_entry_def known_tags_bytes_def bindE_eq_Inr_conv pack_int_def pack_le_Inr_conv fromhex_Inr
      dt_def [symmetric] sz_def split: if_splits option.splits)
  have lfh: "length fh = 16" using ok fh by (simp add: known_ok_def hash_text_ok_def)
  have pok: "list_all hash_text_ok (ke_part_hashes e)" using ok by (simp add: known_ok_def)
  have szb: "sz < 256 ^ 4" by (simp add: sz_def nat_less_iff)
  have r1: "get_le 4 data pos = Inr (nat dt) \<and> drop (pos + 4) data = fh @ le_enc 2 (length (ke_part_hashes e)) @ concat parts @ le_enc 4 2 @
        [0x02] @ le_enc 2 1 @ [0x01] @ le_enc 2 (length nb) @ nb @ [0x03] @ le_enc 2 1 @ [0x02] @ le_enc 4 sz @ suf"
    by (rule get_leI) (use d bs date in simp_all)
  note sl = py_slice_prefix [OF conjunct2 [OF r1] lfh]
  have f: "py_slice (pos + 4) (pos + 20) data = fh" using sl(1) by (simp add: add.commute)
  have r2: "get_le 2 data (pos + 20) = Inr (length (ke_part_hashes e)) \<and> drop (pos + 20 + 2) data = concat parts @ le_enc 4 2 @
        [0x02] @ le_enc 2 1 @ [0x01] @ le_enc 2 (length nb) @ nb @ [0x03] @ le_enc 2 1 @ [0x02] @ le_enc 4 sz @ suf"
    by (rule get_leI) (use sl(2) n in \<open>simp_all add: add.commute\<close>)
  have "drop (pos + 22) data = concat parts @ (le_enc 4 2 @
        [0x02] @ le_enc 2 1 @ [0x01] @ le_enc 2 (length nb) @ nb @ [0x03] @ le_enc 2 1 @ [0x02] @ le_enc 4 sz @ suf)"
    using r2 by (simp add: add.commute)
  from mapE_fromhex [OF parts pok this] obtain p1 where
    r3: "read_n (read_part_hash data) (length (ke_part_hashes e)) (pos + 22) = Inr (map canon_hash (ke_part_hashes e), p1)"
    and d3: "drop p1 data = le_enc 4 2 @
        [0x02] @ le_enc 2 1 @ [0x01] @ le_enc 2 (length nb) @ nb @ [0x03] @ le_enc 2 1 @ [0x02] @ le_enc 4 sz @ suf" by blast
  have r4: "get_le 4 data p1 = Inr 2 \<and> drop (p1 + 4) data =
        [0x02] @ le_enc 2 1 @ [0x01] @ le_enc 2 (length nb) @ nb @ ([0x03] @ le_enc 2 1 @ [0x02] @ le_enc 4 sz @ suf)"
    by (rule get_leI) (use d3 in simp_all)
  from read_name_tag [OF conjunct2 [OF r4] nb] obtain p2 where
    t1: "read_known_tag fl data (p1 + 4) = Inr (([1], KText (ke_name e)), p2)"
    and d4: "drop p2 data = [0x03] @ le_enc 2 1 @ [0x02] @ le_enc 4 sz @ suf" by blast
  from read_size_tag [OF d4 szb] obtain p3 where
    t2: "read_known_tag fl data p2 = Inr (([2], KNum sz), p3)" and d5: "drop p3 data = suf" by blast
  define tags :: "(ustr \<times> 'a kvalue) list" where "tags = fold (\<lambda>(n, v) d. AList.update n v d) [([1], KText (ke_name e)), ([2], KNum sz)] []"
  have rt: "read_known_tags fl data (p1 + 4) 2 = Inr (tags, p3)"
    using t1 t2 by (simp add: read_known_tags_def numeral_2_eq_2 tags_def del: fold.simps)
  have tags: "known_name fl tags = ke_name e" "known_size tags = int sz" by (simp_all only: tags_def known_tags_seen)
  have seen: "known_seen now e = \<lparr>ke_hash = hex_upper fh, ke_name = ke_name e, ke_size = int sz, ke_last_modified = int (nat dt),
      ke_part_hashes = map canon_hash (ke_part_hashes e)\<rparr>"
    using fh date(1) by (cases e) (simp add: known_seen_def canon_hash_def dt_def sz_def)
  have "read_known_entry fl data pos = Inr (known_seen now e, p3)"
    unfolding read_known_entry_def Let_def f
    using conjunct1 [OF r1] conjunct1 [OF r2] r3 conjunct1 [OF r4] rt tags seen by simp
  with d5 show ?thesis by blast
qed

interpretation known: wire_codec "known_bytes now" "read_known_entry fl data" "known_seen now"
    "\<lambda>pos. drop pos data" "\<lambda>_. True" "\<lambda>e. known_ok e \<and> (\<exists>b. write_known_entry now e = Inr b)" for now fl data
  by unfold_locales (use read_known_entry_back in \<open>fastforce simp: known_bytes_def\<close>)

lemma mapE_known_bytes:
  "mapE (write_known_entry now) es = Inr bs \<Longrightarrow> bs = map (known_bytes now) es \<and> list_all (\<lambda>e. \<exists>b. write_known_entry now e = Inr b) es"
  by (induction es arbitrary: bs) (auto simp: bindE_eq_Inr_conv known_bytes_def)

text \<open>
  C39. The list of known files survives a write and a read: every record comes back with its
  hashes in upper case, its name in UTF-8 and its time (the time of writing, where it had none).
  Its size comes back modulo \<open>2 ^ 32\<close>, since the writer knows the 32-bit size tag only: a file of
  4 GiB or more is remembered with a wrong size.
\<close>

theorem known_met_roundtrip:
  assumes "write_known_met now entries = Inr data" and "list_all known_ok entries"
  shows "parse_known_met fl data = Inr (map (known_seen now) entries)"
proof -
  from assms(1) obtain es where n: "length entries < 256 ^ 4" and es: "mapE (write_known_entry now) entries = Inr es"
    and data: "data = [0x0F] @ le_enc 4 (length entries) @ concat es"
    by (auto simp: write_known_met_def bindE_eq_Inr_conv pack_le_Inr_conv)
  have "drop 1 data = le_enc 4 (length entries) @ (concat es)" by (simp add: data)
  from get_leI [OF this n] have c: "get_le 4 data 1 = Inr (length entries) \<and> drop 5 data = concat es" by simp
  have "list_all (\<lambda>e. known_ok e \<and> (\<exists>b. write_known_entry now e = Inr b)) entries"
    using assms(2) mapE_known_bytes [OF es] by (simp add: list_all_iff)
  from known.read_n_put [OF this TrueI, of 5 data "[]" fl] c mapE_known_bytes [OF es] obtain p where
    "read_n (read_known_entry fl data) (length entries) 5 = Inr (map (known_seen now) entries, p)" by auto
  then show ?thesis using c by (simp add: parse_known_met_def data)
qed

theorem known_met_roundtrip_witness:
  "\<exists>data. write_known_met 9 [\<lparr>ke_hash = to_hex (replicate 16 0xAB), ke_name = [97, 0x20AC], ke_size = 5000000000,
       ke_last_modified = 0, ke_part_hashes = [to_hex (replicate 16 1)]\<rparr>] = Inr data \<and>
    parse_known_met \<lparr>unpack_f = (\<lambda>_. ()), is_zero = (\<lambda>_. True), str_of = (\<lambda>_. [])\<rparr> data =
      Inr [\<lparr>ke_hash = hex_upper (replicate 16 0xAB), ke_name = [97, 0x20AC], ke_size = 705032704,
       ke_last_modified = 9, ke_part_hashes = [hex_upper (replicate 16 1)]\<rparr>]"
proof -
  let ?e = "\<lparr>ke_hash = to_hex (replicate 16 0xAB), ke_name = [97, 0x20AC], ke_size = 5000000000,
       ke_last_modified = 0, ke_part_hashes = [to_hex (replicate 16 1)]\<rparr>"
  have "\<exists>data. write_known_met 9 [?e] = Inr data"
    by (simp add: write_known_met_def write_known_entry_def known_tags_bytes_def pack_int_def pack_le_def fromhex_def
      from_hex_to_hex utf8_cp_def)
  then obtain data where d: "write_known_met 9 [?e] = Inr data" ..
  have ok: "list_all known_ok [?e]" by (simp add: known_ok_def hash_text_ok_def from_hex_to_hex)
  show ?thesis
    using known_met_roundtrip [OF d ok] d
    by (simp add: known_seen_def canon_hash_def from_hex_to_hex)
qed

end
