(* ===== verification/Ip_Filter.thy ===== *)
theory Ip_Filter
  imports Py_String "HOL-Library.AList"
begin

unbundle bit_operations_syntax

text \<open>
  \<open>core/ipfilter.py\<close> and \<open>core/server_filter.py\<close>: the lines of an ipfilter list, the ordered ranges
  and their matching, and the choice of servers by filter and blacklist. \<open>ipaddress.IPv4Address\<close> and
  \<open>IPv4Network\<close> are modelled as far as the code uses them; a file is the list of its lines, the
  clock an argument. The download of a list is not modelled.
\<close>

section \<open>Addresses\<close>

definition join_octets :: "nat list \<Rightarrow> nat" where
  "join_octets vs = foldl (\<lambda>acc v. acc * 256 + v) 0 vs"

text \<open>\<open>int(ipaddress.IPv4Address(s))\<close>: four groups of at most three digits, without leading zeros.\<close>

definition octet_ok :: "string \<Rightarrow> bool" where
  "octet_ok s \<longleftrightarrow> s \<noteq> [] \<and> list_all is_digit s \<and> length s \<le> 3 \<and> \<not> (length s > 1 \<and> hd s = CHR ''0'')"

definition digits_nat :: "string \<Rightarrow> nat" where
  "digits_nat s = foldl (\<lambda>acc c. acc * 10 + digit_val c) 0 s"

definition ipv4_address :: "string \<Rightarrow> nat option" where
  "ipv4_address s =
     (let os = py_split (CHR ''.'') s in
      if length os = 4 \<and> list_all octet_ok os \<and> list_all (\<lambda>o'. digits_nat o' \<le> 255) os
      then Some (join_octets (map digits_nat os)) else None)"

text \<open>A netmask: a prefix length, or a dotted mask or host mask.\<close>

definition mask_of_prefix :: "nat \<Rightarrow> nat" where
  "mask_of_prefix n = 2 ^ 32 - 2 ^ (32 - n)"

definition netmask_prefix :: "string \<Rightarrow> nat option" where
  "netmask_prefix s =
     (if s \<noteq> [] \<and> list_all is_digit s \<and> digits_nat s \<le> 32 then Some (digits_nat s)
      else case ipv4_address s of
        None \<Rightarrow> None
      | Some m \<Rightarrow> (case find (\<lambda>n. mask_of_prefix n = m) [0..<33] of
          Some n \<Rightarrow> Some n
        | None \<Rightarrow> find (\<lambda>n. mask_of_prefix n = 2 ^ 32 - 1 - m) [0..<33]))"

text \<open>\<open>IPv4Network(s, strict=False)\<close>: network and broadcast address.\<close>

definition ipv4_network :: "string \<Rightarrow> (nat \<times> nat) option" where
  "ipv4_network s =
     (case py_split (CHR ''/'') s of
        [left, right] \<Rightarrow>
          (case (ipv4_address left, netmask_prefix right) of
             (Some a, Some n) \<Rightarrow> (let k = 2 ^ (32 - n) in Some (a div k * k, a div k * k + k - 1))
           | _ \<Rightarrow> None)
      | _ \<Rightarrow> None)"

definition ip_to_int :: "string \<Rightarrow> nat res" where
  "ip_to_int s =
     (let cleaned = py_strip s; octets = py_split (CHR ''.'') cleaned;
          quick = (if length octets = 4 \<and> list_all (\<lambda>o'. case py_int o' of Some v \<Rightarrow> 0 \<le> v \<and> v \<le> 255 | None \<Rightarrow> False) octets
                   then Some (join_octets (map (\<lambda>o'. nat (the (py_int o'))) octets)) else None) in
      case quick of
        Some v \<Rightarrow> Inr v
      | None \<Rightarrow> (case ipv4_address cleaned of Some v \<Rightarrow> Inr v | None \<Rightarrow> Inl IpFilterError))"

section \<open>Lines and files\<close>

record ip_range =
  ir_start :: nat
  ir_end :: nat
  ir_level :: int
  ir_description :: string

definition range_contains :: "ip_range \<Rightarrow> nat \<Rightarrow> bool" where
  "range_contains r ip \<longleftrightarrow> ir_start r \<le> ip \<and> ip \<le> ir_end r"

definition parse_range :: "string \<Rightarrow> (nat \<times> nat) res" where
  "parse_range range_text =
     (if CHR ''/'' \<in> set range_text then
        (case ipv4_network range_text of Some r \<Rightarrow> Inr r | None \<Rightarrow> Inl IpFilterError)
      else
        bindE (if CHR ''-'' \<in> set range_text then
                 (let (left, right) = py_partition (CHR ''-'') range_text in
                  bindE (ip_to_int left) (\<lambda>s. bindE (ip_to_int right) (\<lambda>e. Inr (s, e))))
               else bindE (ip_to_int range_text) (\<lambda>s. Inr (s, s)))
          (\<lambda>(s, e). if s > e then Inl IpFilterError else Inr (s, e)))"

definition parse_line :: "string \<Rightarrow> ip_range option res" where
  "parse_line raw =
     (let line = py_strip raw in
      if line = [] \<or> hd line = CHR ''#'' then Inr None
      else
        let parts = map py_strip (py_split (CHR '','') line) in
        if length parts < 2 then Inl IpFilterError
        else case py_int (parts ! 1) of
          None \<Rightarrow> Inl IpFilterError
        | Some level \<Rightarrow>
            let description = (if length parts > 2 then parts ! 2 else []) in
            bindE (parse_range (parts ! 0)) (\<lambda>(s, e).
              Inr (Some \<lparr>ir_start = s, ir_end = e, ir_level = level, ir_description = description\<rparr>)))"

text \<open>\<open>IpFilter(ranges)\<close>: sorted by start and end, in the order given where both agree.\<close>

definition mk_ip_filter :: "ip_range list \<Rightarrow> ip_range list" where
  "mk_ip_filter ranges = sort_key ir_start (sort_key ir_end ranges)"

definition load_ipfilter :: "string list \<Rightarrow> ip_range list" where
  "load_ipfilter file_lines =
     mk_ip_filter (List.map_filter (\<lambda>raw. case parse_line raw of Inr (Some r) \<Rightarrow> Some r | _ \<Rightarrow> None) file_lines)"

section \<open>Matching\<close>

definition match_int :: "ip_range list \<Rightarrow> nat \<Rightarrow> ip_range option" where
  "match_int ranges ip = find (\<lambda>r. range_contains r ip) ranges"

definition match_text :: "ip_range list \<Rightarrow> string \<Rightarrow> ip_range option res" where
  "match_text ranges ip = bindE (ip_to_int ip) (\<lambda>n. Inr (match_int ranges n))"

definition DEFAULT_FILTER_LEVEL :: int where "DEFAULT_FILTER_LEVEL = 127"

definition filtered_int :: "ip_range list \<Rightarrow> nat \<Rightarrow> int \<Rightarrow> bool" where
  "filtered_int ranges ip threshold =
     (case match_int ranges ip of None \<Rightarrow> False | Some r \<Rightarrow> ir_level r \<ge> threshold)"

definition is_filtered :: "ip_range list \<Rightarrow> string \<Rightarrow> int \<Rightarrow> bool res" where
  "is_filtered ranges ip threshold =
     bindE (match_text ranges ip) (\<lambda>m. Inr (case m of None \<Rightarrow> False | Some r \<Rightarrow> ir_level r \<ge> threshold))"

definition filter_statistics :: "ip_range list \<Rightarrow> nat \<times> int \<times> nat" where
  "filter_statistics ranges =
     (length ranges, (if ranges = [] then 0 else Max (ir_level ` set ranges)),
      length (filter (\<lambda>r. ir_description r \<noteq> []) ranges))"

section \<open>Servers\<close>

record server_record =
  sr_failures :: nat
  sr_blacklisted_until :: real
  sr_successes :: nat
  sr_last_error :: string
  sr_history :: "real list"

record server_filter =
  sf_ip_filter :: "ip_range list option"
  sf_threshold :: int
  sf_cooldown :: real
  sf_level :: int
  sf_records :: "((string \<times> int) \<times> server_record) list"

definition new_record :: server_record where
  "new_record = \<lparr>sr_failures = 0, sr_blacklisted_until = 0, sr_successes = 0, sr_last_error = [], sr_history = []\<rparr>"

definition server_record_of :: "string \<Rightarrow> int \<Rightarrow> server_filter \<Rightarrow> server_record" where
  "server_record_of host port f = (case map_of (sf_records f) (host, port) of Some r \<Rightarrow> r | None \<Rightarrow> new_record)"

definition put_record :: "string \<Rightarrow> int \<Rightarrow> server_record \<Rightarrow> server_filter \<Rightarrow> server_filter" where
  "put_record host port r f = f\<lparr>sf_records := AList.update (host, port) r (sf_records f)\<rparr>"

definition report_failure :: "real \<Rightarrow> string \<Rightarrow> int \<Rightarrow> string \<Rightarrow> server_filter \<Rightarrow> bool \<times> server_filter" where
  "report_failure now host port reason f =
     (let r0 = server_record_of host port f;
          r = r0\<lparr>sr_failures := sr_failures r0 + 1, sr_last_error := reason, sr_history := sr_history r0 @ [now]\<rparr> in
      if int (sr_failures r) \<ge> sf_threshold f
      then (True, put_record host port (r\<lparr>sr_blacklisted_until := now + sf_cooldown f\<rparr>) f)
      else (False, put_record host port r f))"

definition report_success :: "string \<Rightarrow> int \<Rightarrow> server_filter \<Rightarrow> server_filter" where
  "report_success host port f =
     (let r = server_record_of host port f in
      put_record host port
        (r\<lparr>sr_failures := 0, sr_successes := sr_successes r + 1, sr_blacklisted_until := 0, sr_last_error := []\<rparr>) f)"

definition is_blacklisted :: "real \<Rightarrow> string \<Rightarrow> int \<Rightarrow> server_filter \<Rightarrow> bool \<times> server_filter" where
  "is_blacklisted now host port f =
     (case map_of (sf_records f) (host, port) of
        None \<Rightarrow> (False, f)
      | Some r \<Rightarrow>
          if sr_blacklisted_until r \<noteq> 0 \<and> now \<ge> sr_blacklisted_until r
          then (False, put_record host port (r\<lparr>sr_blacklisted_until := 0, sr_failures := 0\<rparr>) f)
          else (sr_blacklisted_until r > 0, f))"

datatype verdict = Allowed | Ip_Filtered int | Blacklisted

definition evaluate :: "real \<Rightarrow> string \<Rightarrow> int \<Rightarrow> server_filter \<Rightarrow> (verdict \<times> server_filter) res" where
  "evaluate now host port f =
     bindE (case sf_ip_filter f of None \<Rightarrow> Inr None | Some rs \<Rightarrow>
              bindE (is_filtered rs host (sf_level f)) (\<lambda>hit.
                if hit then bindE (match_text rs host) (\<lambda>m. Inr (Some (case m of Some r \<Rightarrow> ir_level r | None \<Rightarrow> 0))) else Inr None))
       (\<lambda>hit. case hit of
           Some level \<Rightarrow> Inr (Ip_Filtered level, f)
         | None \<Rightarrow> (let (b, f') = is_blacklisted now host port f in Inr (if b then Blacklisted else Allowed, f')))"

fun evaluate_all :: "real \<Rightarrow> (string \<times> int) list \<Rightarrow> server_filter \<Rightarrow> (((string \<times> int) \<times> verdict) list \<times> server_filter) res" where
  "evaluate_all now [] f = Inr ([], f)"
| "evaluate_all now ((host, port) # cands) f =
     bindE (evaluate now host port f) (\<lambda>(v, f1).
     bindE (evaluate_all now cands f1) (\<lambda>(vs, f2). Inr (((host, port), v) # vs, f2)))"

definition select_servers :: "real \<Rightarrow> (string \<times> int) list \<Rightarrow> server_filter \<Rightarrow> (((string \<times> int) \<times> verdict) list \<times> server_filter) res" where
  "select_servers now candidates f =
     bindE (evaluate_all now candidates f) (\<lambda>(vs, f').
       Inr (filter (\<lambda>(_, v). v = Allowed) vs @ filter (\<lambda>(_, v). v \<noteq> Allowed) vs, f'))"

section \<open>Ranges\<close>

lemma set_mk_ip_filter [simp]: "set (mk_ip_filter rs) = set rs"
  by (simp add: mk_ip_filter_def)

lemma sorted_mk_ip_filter: "sorted (map ir_start (mk_ip_filter rs))"
  by (simp add: mk_ip_filter_def)

section \<open>Selection\<close>

text \<open>A server is blocked while its blacklisting lies ahead of the clock.\<close>

definition blocked :: "real \<Rightarrow> server_filter \<Rightarrow> string \<times> int \<Rightarrow> bool" where
  "blocked now f k = (case map_of (sf_records f) k of None \<Rightarrow> False | Some r \<Rightarrow> 0 < sr_blacklisted_until r \<and> now < sr_blacklisted_until r)"

text \<open>The verdict as a function of the filter alone.\<close>

definition verdict_of :: "real \<Rightarrow> server_filter \<Rightarrow> string \<times> int \<Rightarrow> verdict" where
  "verdict_of now f k =
     (case (case sf_ip_filter f of None \<Rightarrow> None | Some rs \<Rightarrow> find (\<lambda>r. range_contains r (projr (ip_to_int (fst k)))) rs) of
        Some r \<Rightarrow> if ir_level r \<ge> sf_level f then Ip_Filtered (ir_level r) else if blocked now f k then Blacklisted else Allowed
      | None \<Rightarrow> if blocked now f k then Blacklisted else Allowed)"

definition no_address :: "server_filter \<Rightarrow> string \<times> int \<Rightarrow> bool" where
  "no_address f k \<longleftrightarrow> sf_ip_filter f \<noteq> None \<and> isl (ip_to_int (fst k))"

definition agrees :: "real \<Rightarrow> server_filter \<Rightarrow> server_filter \<Rightarrow> bool" where
  "agrees now f g \<longleftrightarrow> sf_ip_filter g = sf_ip_filter f \<and> sf_level g = sf_level f \<and> blocked now g = blocked now f"

lemma is_blacklisted_spec:
  "\<exists>g. is_blacklisted now h p f = (blocked now f (h, p), g) \<and> agrees now f g"
proof (cases "map_of (sf_records f) (h, p)")
  case None
  then show ?thesis by (simp add: is_blacklisted_def blocked_def agrees_def)
next
  case (Some r)
  show ?thesis
  proof (cases "sr_blacklisted_until r \<noteq> 0 \<and> now \<ge> sr_blacklisted_until r")
    case True
    with Some show ?thesis
      by (auto simp: is_blacklisted_def blocked_def agrees_def put_record_def update_conv fun_eq_iff)
  next
    case False
    with Some show ?thesis by (auto simp: is_blacklisted_def blocked_def agrees_def)
  qed
qed

lemma ip_to_int_error: "ip_to_int s = Inl e \<Longrightarrow> e = IpFilterError"
  by (auto simp: ip_to_int_def Let_def split: option.splits if_splits)

lemma evaluate_spec:
  "if no_address f (h, p) then evaluate now h p f = Inl IpFilterError
   else \<exists>g. evaluate now h p f = Inr (verdict_of now f (h, p), g) \<and> agrees now f g"
proof -
  from is_blacklisted_spec [of now h p f] obtain g where g: "is_blacklisted now h p f = (blocked now f (h, p), g)" "agrees now f g" by blast
  have af: "agrees now f f" by (simp add: agrees_def)
  show ?thesis
  proof (cases "sf_ip_filter f")
    case None
    with g show ?thesis by (simp add: no_address_def evaluate_def verdict_of_def)
  next
    case (Some rs)
    show ?thesis
    proof (cases "ip_to_int h")
      case (Inl e)
      with Some ip_to_int_error [OF Inl] show ?thesis by (simp add: no_address_def evaluate_def is_filtered_def match_text_def)
    next
      case (Inr n)
      with Some g af show ?thesis
        by (auto simp: no_address_def evaluate_def is_filtered_def match_text_def match_int_def verdict_of_def split: option.splits)
    qed
  qed
qed

lemma agrees_verdict: "agrees now f g \<Longrightarrow> verdict_of now g = verdict_of now f \<and> no_address g = no_address f"
proof -
  assume "agrees now f g"
  then have e: "sf_ip_filter g = sf_ip_filter f" "sf_level g = sf_level f" "blocked now g = blocked now f"
    by (simp_all add: agrees_def)
  show ?thesis unfolding verdict_of_def [abs_def] no_address_def [abs_def] e by simp
qed

lemma agrees_trans: "agrees now f g \<Longrightarrow> agrees now g h \<Longrightarrow> agrees now f h"
  by (simp add: agrees_def)

lemma evaluate_all_spec:
  "if list_ex (no_address f) cands then evaluate_all now cands f = Inl IpFilterError
   else \<exists>g. evaluate_all now cands f = Inr (map (\<lambda>k. (k, verdict_of now f k)) cands, g) \<and> agrees now f g"
proof (induction cands arbitrary: f)
  case Nil
  then show ?case by (simp add: agrees_def)
next
  case (Cons k ks)
  obtain h p where k: "k = (h, p)" by (cases k)
  show ?case
  proof (cases "no_address f k")
    case True
    with evaluate_spec [of f h p now] show ?thesis by (simp add: k)
  next
    case False
    with evaluate_spec [of f h p now] obtain g where
      g: "evaluate now h p f = Inr (verdict_of now f k, g)" "agrees now f g" by (auto simp: k)
    note same = agrees_verdict [OF g(2)]
    show ?thesis
    proof (cases "list_ex (no_address f) ks")
      case True
      then have "evaluate_all now ks g = Inl IpFilterError" using Cons.IH [of g] same by simp
      then show ?thesis using g True by (simp add: k)
    next
      case no: False
      then obtain g2 where g2: "evaluate_all now ks g = Inr (map (\<lambda>k. (k, verdict_of now f k)) ks, g2)" "agrees now g g2"
        using Cons.IH [of g] same by auto
      then show ?thesis using g no False agrees_trans [OF g(2) g2(2)] by (simp add: k)
    qed
  qed
qed

text \<open>
  The choice of servers: the allowed candidates come first and the rejected ones after them,
  each group in the order given. A candidate is rejected where the first range, by start and end,
  that contains its address has at least the filter's level, or while its blacklisting lasts; a
  range of a lower level that comes first hides every later one. With a filter, one candidate that
  is given by name and not by address makes the whole selection fail.
\<close>

theorem server_selection_spec:
  "if list_ex (no_address f) cands then select_servers now cands f = Inl IpFilterError
   else \<exists>g. select_servers now cands f =
     Inr (filter (\<lambda>(_, v). v = Allowed) (map (\<lambda>k. (k, verdict_of now f k)) cands) @
          filter (\<lambda>(_, v). v \<noteq> Allowed) (map (\<lambda>k. (k, verdict_of now f k)) cands), g)"
  using evaluate_all_spec [of f cands now] by (auto simp: select_servers_def)

definition demo_ranges :: "ip_range list" where
  "demo_ranges = mk_ip_filter
     [\<lparr>ir_start = 16909056, ir_end = 16909311, ir_level = 200, ir_description = ''inner''\<rparr>,
      \<lparr>ir_start = 16777216, ir_end = 33554431, ir_level = 0, ir_description = ''outer''\<rparr>]"

definition demo_filter :: server_filter where
  "demo_filter = \<lparr>sf_ip_filter = Some demo_ranges, sf_threshold = 3, sf_cooldown = 1800, sf_level = 127, sf_records = []\<rparr>"

lemma demo_address: "ip_to_int ''1.2.3.4'' = Inr 16909060"
  by (simp add: ip_to_int_def py_strip_def is_space_def code_def py_int_def is_digit_def digit_val_def join_octets_def Let_def)

lemma demo_ranges_eq: "demo_ranges =
    [\<lparr>ir_start = 16777216, ir_end = 33554431, ir_level = 0, ir_description = ''outer''\<rparr>,
     \<lparr>ir_start = 16909056, ir_end = 16909311, ir_level = 200, ir_description = ''inner''\<rparr>]"
  by (simp add: demo_ranges_def mk_ip_filter_def)

theorem server_selection_spec_witness:
  "\<exists>g. select_servers 0 [(''1.2.3.4'', 4661)] demo_filter = Inr ([((''1.2.3.4'', 4661), Allowed)], g)"
proof -
  have n: "\<not> list_ex (no_address demo_filter) [(''1.2.3.4'', 4661)]" by (simp add: no_address_def demo_address)
  have "verdict_of 0 demo_filter (''1.2.3.4'', 4661) = Allowed"
    by (simp add: verdict_of_def demo_filter_def demo_ranges_eq demo_address range_contains_def blocked_def)
  then show ?thesis using server_selection_spec [of demo_filter "[(''1.2.3.4'', 4661)]" 0] n by auto
qed

end
