(* ===== verification/Upload_Engine.thy ===== *)
theory Upload_Engine
  imports Peer_Codec Ed2k_Hash
begin

text \<open>
  \<open>core/upload/engine.py\<close>: the upload session that serves one shared file to one accepted peer.
  A session is a record of the block source, the statistics and the frames sent so far; a handler
  returns the new session and the exception it ended with, so that what was sent before an error
  stays sent. The file system, MD4, zlib, the slot hook and the AICH responder are the
  environment of the session. Pacing (\<open>UploadThrottle\<close>) delays sends and changes nothing else; it
  and the time stamps of the statistics are left out.
\<close>

section \<open>Constants\<close>

definition EMBLOCKSIZE :: int where "EMBLOCKSIZE = 184320"
definition MAX_REQUEST_BLOCKS :: int where "MAX_REQUEST_BLOCKS = 3"
definition SPLIT_THRESHOLD :: nat where "SPLIT_THRESHOLD = 13000"
definition SPLIT_CHUNK_SIZE :: nat where "SPLIT_CHUNK_SIZE = 10240"

definition OP_SENDINGPART :: int where "OP_SENDINGPART = 0x46"
definition OP_COMPRESSEDPART :: int where "OP_COMPRESSEDPART = 0x40"
definition OP_SENDINGPART_I64 :: int where "OP_SENDINGPART_I64 = 0xA2"
definition OP_COMPRESSEDPART_I64 :: int where "OP_COMPRESSEDPART_I64 = 0xA1"
definition OP_REQUESTPARTS :: int where "OP_REQUESTPARTS = 0x47"
definition OP_REQUESTPARTS_I64 :: int where "OP_REQUESTPARTS_I64 = 0xA3"
definition OP_END_OF_DOWNLOAD :: int where "OP_END_OF_DOWNLOAD = 0x49"
definition OP_HASHSETREQUEST :: int where "OP_HASHSETREQUEST = 0x51"
definition OP_HASHSETANSWER :: int where "OP_HASHSETANSWER = 0x52"
definition OP_REQUESTFILENAME :: int where "OP_REQUESTFILENAME = 0x58"
definition OP_REQFILENAMEANSWER :: int where "OP_REQFILENAMEANSWER = 0x59"
definition OP_STARTUPLOADREQ :: int where "OP_STARTUPLOADREQ = 0x54"
definition OP_ACCEPTUPLOADREQ :: int where "OP_ACCEPTUPLOADREQ = 0x55"
definition OP_QUEUERANK :: int where "OP_QUEUERANK = 0x5C"
definition OP_AICHREQUEST :: int where "OP_AICHREQUEST = 0x9B"

lemmas opcode_defs = OP_SENDINGPART_def OP_COMPRESSEDPART_def OP_SENDINGPART_I64_def OP_COMPRESSEDPART_I64_def
  OP_REQUESTPARTS_def OP_REQUESTPARTS_I64_def OP_END_OF_DOWNLOAD_def OP_HASHSETREQUEST_def OP_HASHSETANSWER_def
  OP_REQUESTFILENAME_def OP_REQFILENAMEANSWER_def OP_STARTUPLOADREQ_def OP_ACCEPTUPLOADREQ_def OP_QUEUERANK_def
  OP_AICHREQUEST_def

section \<open>Payloads\<close>

definition build_sending_part_payload :: "bytes \<Rightarrow> int \<Rightarrow> int \<Rightarrow> bytes \<Rightarrow> bytes res" where
  "build_sending_part_payload fh start stop data =
     bindE (write_bytes (take 16 fh) []) (\<lambda>w1.
     bindE (write_u32 (start AND 0xFFFFFFFF) w1) (\<lambda>w2.
     bindE (write_u32 (stop AND 0xFFFFFFFF) w2) (write_bytes data)))"

definition build_compressed_part_payload :: "bytes \<Rightarrow> int \<Rightarrow> int \<Rightarrow> bytes \<Rightarrow> bytes res" where
  "build_compressed_part_payload fh start compressed_size data =
     bindE (write_bytes (take 16 fh) []) (\<lambda>w1.
     bindE (write_u32 (start AND 0xFFFFFFFF) w1) (\<lambda>w2.
     bindE (write_u32 compressed_size w2) (write_bytes data)))"

definition build_compressed_part_i64_u64_payload :: "bytes \<Rightarrow> int \<Rightarrow> int \<Rightarrow> bytes \<Rightarrow> bytes res" where
  "build_compressed_part_i64_u64_payload fh start compressed_size data =
     bindE (write_bytes (take 16 fh) []) (\<lambda>w1.
     bindE (write_u64 start w1) (\<lambda>w2.
     bindE (write_u32 compressed_size w2) (write_bytes data)))"

definition build_hashset_answer_payload :: "bytes \<Rightarrow> bytes list \<Rightarrow> bytes res" where
  "build_hashset_answer_payload fh chunks =
     bindE (write_u16 (1 + int (length chunks)) []) (\<lambda>w1.
     bindE (write_bytes (take 16 fh) w1) (\<lambda>w2.
     foldE (\<lambda>w c. write_bytes (take 16 c) w) w2 chunks))"

text \<open>Unused slots of a part request are \<open>(0, 0)\<close> and dropped.\<close>

definition used_slots :: "nat list \<Rightarrow> nat list \<Rightarrow> (nat \<times> nat) list" where
  "used_slots starts ends = filter (\<lambda>(s, e). \<not> (s = 0 \<and> e = 0)) (zip starts ends)"

text \<open>
  The codec's parser first; when it fails, the local reading of the same layout, which also takes
  a payload with bytes behind the offsets.
\<close>

definition raw_offsets :: "nat \<Rightarrow> bytes \<Rightarrow> nat \<Rightarrow> nat list" where
  "raw_offsets width payload from_slot =
     map (\<lambda>i. le_dec (py_slice (16 + width * i) (16 + width * i + width) payload)) [from_slot..<from_slot + 3]"

definition parse_request_parts_internal :: "bytes \<Rightarrow> bool \<Rightarrow> (bytes \<times> (nat \<times> nat) list) res" where
  "parse_request_parts_internal payload is_i64 =
     (case (if is_i64 then parse_request_parts_i64 payload else parse_request_parts payload) of
        Inr (fh, starts, ends) \<Rightarrow> Inr (fh, used_slots starts ends)
      | Inl e \<Rightarrow>
          if e \<noteq> PeerCodecError then Inl e
          else
            let width = (if is_i64 then 8 else 4) in
            if length payload < 16 + 6 * width then Inl PeerCodecError
            else
              let starts = raw_offsets width payload 0; ends = raw_offsets width payload 3 in
              if list_ex (\<lambda>(s, e). s > e) (used_slots starts ends) then Inl PeerCodecError
              else Inr (take 16 payload, used_slots starts ends))"

section \<open>The shared file and its block source\<close>

record shared_file =
  sf_hash :: bytes
  sf_name :: ustr
  sf_size :: int
  sf_path :: "ustr option"
  sf_priority :: int
  sf_hash_result :: "ed2k_result option"

definition mk_shared_file :: "bytes \<Rightarrow> ustr \<Rightarrow> int \<Rightarrow> ustr option \<Rightarrow> int \<Rightarrow> ed2k_result option \<Rightarrow> shared_file res" where
  "mk_shared_file fh name sz path priority result =
     (if length fh \<noteq> 16 then Inl SharingError
      else if sz < 0 then Inl SharingError
      else Inr \<lparr>sf_hash = fh, sf_name = name, sf_size = sz, sf_path = path, sf_priority = priority,
                sf_hash_result = result\<rparr>)"

record block_source =
  bs_shared :: shared_file
  bs_chunk_size :: nat
  bs_chunks :: "bytes list"
  bs_handle :: "bytes option"

type_synonym file_system = "ustr \<Rightarrow> bytes option"

definition block_source_new :: "file_system \<Rightarrow> shared_file \<Rightarrow> nat \<Rightarrow> block_source res" where
  "block_source_new fs sf cs =
     (case sf_path sf of
        None \<Rightarrow> Inl UploadEngineError
      | Some p \<Rightarrow>
          if fs p = None then Inl UploadEngineError
          else Inr \<lparr>bs_shared = sf, bs_chunk_size = cs, bs_chunks = [], bs_handle = None\<rparr>)"

definition bs_chunk_count :: "block_source \<Rightarrow> int res" where
  "bs_chunk_count b =
     (if sf_size (bs_shared b) = 0 then Inr 1
      else if bs_chunk_size b = 0 then Inl ZeroDivisionError
      else Inr ((sf_size (bs_shared b) + int (bs_chunk_size b) - 1) div int (bs_chunk_size b)))"

definition present_chunks :: "block_source \<Rightarrow> int list res" where
  "present_chunks b = bindE (bs_chunk_count b) (\<lambda>n. Inr [0..n - 1])"

text \<open>A handle on the file as it is on disk now; the path was checked when the source was made.\<close>

definition on_disk :: "file_system \<Rightarrow> block_source \<Rightarrow> bytes res" where
  "on_disk fs b =
     (case sf_path (bs_shared b) of None \<Rightarrow> Inl OSError
      | Some p \<Rightarrow> (case fs p of None \<Rightarrow> Inl OSError | Some c \<Rightarrow> Inr c))"

definition load_chunk_hashes :: "(bytes \<Rightarrow> bytes) \<Rightarrow> file_system \<Rightarrow> block_source \<Rightarrow> block_source res" where
  "load_chunk_hashes md4 fs b =
     bindE (case sf_hash_result (bs_shared b) of
              Some r \<Rightarrow> Inr r
            | None \<Rightarrow> bindE (on_disk fs b) (\<lambda>c. ed2k_hash_file md4 c (bs_chunk_size b))) (\<lambda>r.
     bindE (bs_chunk_count b) (\<lambda>n.
       Inr (b\<lparr>bs_chunks := (if int (length (chunk_hashes r)) = n + 1 then butlast (chunk_hashes r)
                             else chunk_hashes r)\<rparr>)))"

definition bs_chunk_hashes :: "(bytes \<Rightarrow> bytes) \<Rightarrow> file_system \<Rightarrow> block_source \<Rightarrow> block_source res" where
  "bs_chunk_hashes md4 fs b = (if bs_chunks b = [] then load_chunk_hashes md4 fs b else Inr b)"

definition bs_open :: "file_system \<Rightarrow> block_source \<Rightarrow> block_source res" where
  "bs_open fs b =
     (if bs_handle b \<noteq> None then Inr b
      else bindE (on_disk fs b) (\<lambda>c. Inr (b\<lparr>bs_handle := Some c\<rparr>)))"

definition bs_close :: "block_source \<Rightarrow> block_source" where
  "bs_close b = b\<lparr>bs_handle := None\<rparr>"

definition read_block :: "int \<Rightarrow> int \<Rightarrow> block_source \<Rightarrow> bytes res" where
  "read_block start len b =
     (case bs_handle b of
        None \<Rightarrow> Inl UploadEngineError
      | Some c \<Rightarrow>
          if start < 0 then Inl UploadEngineError
          else if len < 0 then Inl UploadEngineError
          else if start + len > sf_size (bs_shared b) then Inl UploadEngineError
          else
            let data = py_slice (nat start) (nat (start + len)) c in
            if int (length data) < len then Inl UploadEngineError else Inr data)"

section \<open>The session\<close>

type_synonym frame = "int \<times> int \<times> bytes"

record 'q up_session =
  us_source :: block_source
  us_allow_compression :: bool
  us_out :: "frame list"
  us_blocks_sent :: nat
  us_bytes_sent :: nat
  us_compressed_blocks :: nat
  us_requests :: nat
  us_world :: 'q

text \<open>
  What the session is given: the slot hook and the AICH responder act on the rest of the program,
  the type \<open>'q\<close>. The responder swallows its own errors and says which frames it sent.
\<close>

record 'q up_env =
  ue_md4 :: "bytes \<Rightarrow> bytes"
  ue_zlib :: zlib
  ue_fs :: file_system
  ue_hook :: "(bytes \<Rightarrow> 'q \<Rightarrow> (string \<times> int) res \<times> 'q) option"
  ue_aich :: "(bytes \<Rightarrow> 'q \<Rightarrow> frame list \<times> 'q) option"

definition up_session_new :: "block_source \<Rightarrow> bool \<Rightarrow> 'q \<Rightarrow> 'q up_session" where
  "up_session_new b allow q =
     \<lparr>us_source = b, us_allow_compression = allow, us_out = [], us_blocks_sent = 0, us_bytes_sent = 0,
      us_compressed_blocks = 0, us_requests = 0, us_world = q\<rparr>"

definition us_shared :: "'q up_session \<Rightarrow> shared_file" where
  "us_shared s = bs_shared (us_source s)"

definition us_send :: "int \<Rightarrow> bytes \<Rightarrow> 'q up_session \<Rightarrow> 'q up_session" where
  "us_send opcode payload s = s\<lparr>us_out := us_out s @ [(EDONKEY, opcode, payload)]\<rparr>"

text \<open>A statement that may raise: the state it leaves and the exception, if any.\<close>

type_synonym 's stmt = "'s \<times> exn option"

definition run_after :: "'s stmt \<Rightarrow> ('s \<Rightarrow> 's stmt) \<Rightarrow> 's stmt" where
  "run_after m f = (case m of (s, None) \<Rightarrow> f s | (s, Some e) \<Rightarrow> (s, Some e))"

definition or_raise :: "'a res \<Rightarrow> 's \<Rightarrow> ('a \<Rightarrow> 's stmt) \<Rightarrow> 's stmt" where
  "or_raise r s f = (case r of Inl e \<Rightarrow> (s, Some e) | Inr x \<Rightarrow> f x)"

definition requested_hash :: "bytes \<Rightarrow> 'q up_session \<Rightarrow> bytes" where
  "requested_hash payload s = (if length payload \<ge> 16 then take 16 payload else sf_hash (us_shared s))"

definition handle_request_filename :: "bytes \<Rightarrow> 'q up_session \<Rightarrow> 'q up_session stmt" where
  "handle_request_filename payload s =
     or_raise (build_file_name_answer_payload (requested_hash payload s) (sf_name (us_shared s))) s (\<lambda>answer.
       (us_send OP_REQFILENAMEANSWER answer s, None))"

definition handle_hashset_request :: "'q up_env \<Rightarrow> bytes \<Rightarrow> 'q up_session \<Rightarrow> 'q up_session stmt" where
  "handle_hashset_request env payload s =
     or_raise (bs_chunk_hashes (ue_md4 env) (ue_fs env) (us_source s)) s (\<lambda>b.
       let s1 = s\<lparr>us_source := b\<rparr> in
       if bs_chunks b = [] then
         or_raise (build_end_of_download_payload (sf_hash (us_shared s1))) s1 (\<lambda>e.
           (us_send OP_END_OF_DOWNLOAD e s1, None))
       else
         or_raise (build_hashset_answer_payload (sf_hash (us_shared s1)) (bs_chunks b)) s1 (\<lambda>answer.
           (us_send OP_HASHSETANSWER answer s1, None)))"

text \<open>The size of the next sub-packet when \<open>togo\<close> bytes remain.\<close>

definition chunk_len :: "nat \<Rightarrow> nat" where
  "chunk_len togo = (if togo \<le> SPLIT_THRESHOLD then togo else SPLIT_CHUNK_SIZE)"

lemma chunk_len_pos: "0 < togo \<Longrightarrow> 0 < chunk_len togo" and chunk_len_le: "chunk_len togo \<le> togo"
  by (simp_all add: chunk_len_def SPLIT_THRESHOLD_def SPLIT_CHUNK_SIZE_def)

definition send_counted :: "int \<Rightarrow> bytes \<Rightarrow> 'q up_session \<Rightarrow> 'q up_session" where
  "send_counted opcode payload s =
     (us_send opcode payload s)\<lparr>us_bytes_sent := us_bytes_sent s + length payload, us_blocks_sent := us_blocks_sent s + 1\<rparr>"

definition compressed_frame :: "bytes \<Rightarrow> int \<Rightarrow> int \<Rightarrow> nat \<Rightarrow> bytes \<Rightarrow> (int \<times> bytes) res" where
  "compressed_frame fh start stop total_comp chunk =
     (if stop > 0xFFFFFFFF
      then bindE (build_compressed_part_i64_u64_payload fh start (int total_comp) chunk) (\<lambda>p. Inr (OP_COMPRESSEDPART_I64, p))
      else bindE (build_compressed_part_payload fh start (int total_comp) chunk) (\<lambda>p. Inr (OP_COMPRESSEDPART, p)))"

function send_compressed :: "bytes \<Rightarrow> int \<Rightarrow> int \<Rightarrow> bytes \<Rightarrow> nat \<Rightarrow> 'q up_session \<Rightarrow> 'q up_session stmt" where
  "send_compressed fh start stop compressed togo s =
     (if togo = 0 then (s, None)
      else
        let n = chunk_len togo; togo' = togo - n; off = length compressed - togo' - n;
            chunk = py_slice off (off + n) compressed in
        or_raise (compressed_frame fh start stop (length compressed) chunk) s (\<lambda>(opcode, payload).
          send_compressed fh start stop compressed togo' (send_counted opcode payload s)))"
  by pat_completeness auto
termination
  by (relation "measure (\<lambda>(fh, start, stop, c, togo, s). togo)") (use chunk_len_pos in auto)

declare send_compressed.simps [simp del]

definition plain_frame :: "bytes \<Rightarrow> int \<Rightarrow> int \<Rightarrow> bytes \<Rightarrow> (int \<times> bytes) res" where
  "plain_frame fh chunk_start chunk_end chunk =
     (if chunk_end > 0xFFFFFFFF
      then bindE (build_sending_part_i64_payload fh chunk_start chunk_end chunk) (\<lambda>p. Inr (OP_SENDINGPART_I64, p))
      else bindE (build_sending_part_payload fh chunk_start chunk_end chunk) (\<lambda>p. Inr (OP_SENDINGPART, p)))"

function send_plain :: "bytes \<Rightarrow> int \<Rightarrow> int \<Rightarrow> bytes \<Rightarrow> nat \<Rightarrow> 'q up_session \<Rightarrow> 'q up_session stmt" where
  "send_plain fh start stop data togo s =
     (if togo = 0 then (s, None)
      else
        let n = chunk_len togo; togo' = togo - n; chunk_end = stop - int togo'; chunk_start = chunk_end - int n;
            chunk = py_slice (nat (chunk_start - start)) (nat (chunk_end - start)) data in
        or_raise (plain_frame fh chunk_start chunk_end chunk) s (\<lambda>(opcode, payload).
          send_plain fh start stop data togo' (send_counted opcode payload s)))"
  by pat_completeness auto
termination
  by (relation "measure (\<lambda>(fh, start, stop, d, togo, s). togo)") (use chunk_len_pos in auto)

declare send_plain.simps [simp del]

definition send_block :: "'q up_env \<Rightarrow> int \<Rightarrow> int \<Rightarrow> int \<Rightarrow> 'q up_session \<Rightarrow> 'q up_session stmt" where
  "send_block env start stop len s =
     (let fh = sf_hash (us_shared s) in
      or_raise (read_block start len (us_source s)) s (\<lambda>data.
        let compressed = z_compress (ue_zlib env) data 1 in
        if us_allow_compression s \<and> data \<noteq> [] \<and> length compressed < length data
        then send_compressed fh start stop compressed (length compressed)
               (s\<lparr>us_compressed_blocks := us_compressed_blocks s + 1\<rparr>)
        else send_plain fh start stop data (nat len) s))"

text \<open>The window of one slot after the clamps, \<open>None\<close> for a slot that is skipped.\<close>

definition clamp_slot :: "int \<Rightarrow> int \<Rightarrow> int \<Rightarrow> (int \<times> int) option" where
  "clamp_slot sz start stop =
     (if start \<ge> stop then None
      else
        let stop1 = (if stop > sz then sz else stop) in
        if start \<ge> stop1 then None
        else
          let stop2 = (if stop1 - start > EMBLOCKSIZE * MAX_REQUEST_BLOCKS then start + EMBLOCKSIZE * MAX_REQUEST_BLOCKS else stop1) in
          if stop2 - start \<le> 0 then None else Some (start, stop2))"

fun send_slots :: "'q up_env \<Rightarrow> (nat \<times> nat) list \<Rightarrow> 'q up_session \<Rightarrow> 'q up_session stmt" where
  "send_slots env [] s = (s, None)"
| "send_slots env ((a, b) # slots) s =
     (case clamp_slot (sf_size (us_shared s)) (int a) (int b) of
        None \<Rightarrow> send_slots env slots s
      | Some (start, stop) \<Rightarrow> run_after (send_block env start stop (stop - start) s) (send_slots env slots))"

definition handle_request_parts :: "'q up_env \<Rightarrow> bytes \<Rightarrow> int \<Rightarrow> 'q up_session \<Rightarrow> 'q up_session stmt" where
  "handle_request_parts env payload opcode s =
     (let s1 = s\<lparr>us_requests := us_requests s + 1\<rparr> in
      case parse_request_parts_internal payload (opcode = OP_REQUESTPARTS_I64) of
        Inl e \<Rightarrow> (s1, if e = PeerCodecError then None else Some e)
      | Inr (fh, slots) \<Rightarrow> send_slots env slots s1)"

definition handle_start_upload_request :: "'q up_env \<Rightarrow> bytes \<Rightarrow> 'q up_session \<Rightarrow> 'q up_session stmt" where
  "handle_start_upload_request env payload s =
     (if length payload < 16 then (s, None)
      else case ue_hook env of
        None \<Rightarrow> (s, None)
      | Some hook \<Rightarrow>
          (case hook (take 16 payload) (us_world s) of
             (Inl e, q) \<Rightarrow> (s\<lparr>us_world := q\<rparr>, Some e)
           | (Inr (decision, rank), q) \<Rightarrow>
               let s1 = s\<lparr>us_world := q\<rparr> in
               if decision = ''accept'' then (us_send OP_ACCEPTUPLOADREQ [] s1, None)
               else if decision = ''queue'' then
                 or_raise (write_u32 (rank AND 0xFFFFFFFF) []) s1 (\<lambda>p. (us_send OP_QUEUERANK p s1, None))
               else (s1, None)))"

definition handle_aich :: "'q up_env \<Rightarrow> bytes \<Rightarrow> 'q up_session \<Rightarrow> 'q up_session" where
  "handle_aich env payload s =
     (case ue_aich env of
        None \<Rightarrow> s
      | Some f \<Rightarrow> (case f payload (us_world s) of (frames, q) \<Rightarrow> s\<lparr>us_out := us_out s @ frames, us_world := q\<rparr>))"

section \<open>The request loop\<close>

text \<open>
  \<open>engine_packet\<close> is the body of the loop for one packet: \<open>None\<close> for the break on
  \<open>OP_END_OF_DOWNLOAD\<close>. A \<open>PeerCodecError\<close> is logged and the loop goes on.
\<close>

definition engine_packet :: "'q up_env \<Rightarrow> int \<Rightarrow> bytes \<Rightarrow> 'q up_session \<Rightarrow> 'q up_session stmt option" where
  "engine_packet env opcode payload s =
     (if opcode = OP_REQUESTFILENAME then Some (handle_request_filename payload s)
      else if opcode = OP_HASHSETREQUEST then Some (handle_hashset_request env payload s)
      else if opcode = OP_REQUESTPARTS then Some (handle_request_parts env payload OP_REQUESTPARTS s)
      else if opcode = OP_REQUESTPARTS_I64 then Some (handle_request_parts env payload OP_REQUESTPARTS_I64 s)
      else if opcode = OP_END_OF_DOWNLOAD then None
      else if opcode = OP_STARTUPLOADREQ then Some (handle_start_upload_request env payload s)
      else if opcode = OP_AICHREQUEST \<and> ue_aich env \<noteq> None then Some (handle_aich env payload s, None)
      else Some (s, None))"

datatype verdict = Going | Ended | Raised exn

definition engine_step :: "'q up_env \<Rightarrow> int \<Rightarrow> bytes \<Rightarrow> 'q up_session \<Rightarrow> 'q up_session \<times> verdict" where
  "engine_step env opcode payload s =
     (case engine_packet env opcode payload s of
        None \<Rightarrow> (s, Ended)
      | Some (s', None) \<Rightarrow> (s', Going)
      | Some (s', Some e) \<Rightarrow>
          (s', if e = PeerCodecError then Going else if e = OSError then Raised UploadEngineError else Raised e))"

text \<open>
  What \<open>recv\<close> returns, one call after the other: a packet or an exception; at the end of the list
  the peer has closed. The source is open while the loop runs and closed on every way out.
\<close>

datatype rx = Packet int bytes | Rx_raise exn

fun engine_loop :: "'q up_env \<Rightarrow> rx list \<Rightarrow> 'q up_session \<Rightarrow> 'q up_session stmt" where
  "engine_loop env [] s = (s, None)"
| "engine_loop env (Rx_raise e # rxs) s = (s, Some (if e = OSError then UploadEngineError else e))"
| "engine_loop env (Packet opcode payload # rxs) s =
     (case engine_step env opcode payload s of
        (s', Going) \<Rightarrow> engine_loop env rxs s'
      | (s', Ended) \<Rightarrow> (s', None)
      | (s', Raised e) \<Rightarrow> (s', Some e))"

definition engine_run :: "'q up_env \<Rightarrow> rx list \<Rightarrow> 'q up_session \<Rightarrow> 'q up_session stmt" where
  "engine_run env rxs s =
     (case bs_open (ue_fs env) (us_source s) of
        Inl e \<Rightarrow> (s, Some e)
      | Inr b \<Rightarrow>
          (case engine_loop env rxs (s\<lparr>us_source := b\<rparr>) of
             (s', x) \<Rightarrow> (s'\<lparr>us_source := bs_close (us_source s')\<rparr>, x)))"

section \<open>What a list of frames carries\<close>

text \<open>
  \<open>carries z a d fs n\<close>: a receiver that parses the frames \<open>fs\<close> in turn, joining the sub-packets of a
  compressed block until its announced size is reached, finds the bytes \<open>d\<close> from offset \<open>a\<close> on, in
  order and without a hole, in \<open>n\<close> parts. This is the contract between the sender and the receiver of
  file data.
\<close>

definition part_frame :: "frame \<Rightarrow> sending_part \<Rightarrow> bool" where
  "part_frame f part \<longleftrightarrow> (case f of (protocol, opcode, payload) \<Rightarrow> protocol = EDONKEY \<and>
     (opcode = OP_SENDINGPART \<and> parse_sending_part payload = Inr part \<or>
      opcode = OP_SENDINGPART_I64 \<and> parse_sending_part_i64 payload = Inr part))"

definition chunk_frame :: "bytes \<Rightarrow> nat \<Rightarrow> nat \<Rightarrow> bytes \<Rightarrow> frame \<Rightarrow> bool" where
  "chunk_frame h a total_comp c f \<longleftrightarrow> (case f of (protocol, opcode, payload) \<Rightarrow> protocol = EDONKEY \<and>
     (opcode = OP_COMPRESSEDPART \<and> parse_compressed_part_chunk payload = Inr (h, a, total_comp, c) \<or>
      opcode = OP_COMPRESSEDPART_I64 \<and> parse_compressed_part_chunk_i64 payload = Inr (h, a, total_comp, c)))"

inductive carries :: "zlib \<Rightarrow> nat \<Rightarrow> bytes \<Rightarrow> frame list \<Rightarrow> nat \<Rightarrow> bool" for z where
  carries_nil: "carries z a [] [] 0"
| carries_part: "part_frame f part \<Longrightarrow> sp_start part = a \<Longrightarrow> sp_data part \<noteq> [] \<Longrightarrow>
     carries z (a + length (sp_data part)) ds fs n \<Longrightarrow> carries z a (sp_data part @ ds) (f # fs) (Suc n)"
| carries_zip: "list_all2 (chunk_frame h a (length (concat cs))) cs gs \<Longrightarrow> cs \<noteq> [] \<Longrightarrow> [] \<notin> set cs \<Longrightarrow>
     z_decompress z (concat cs) = Inr d \<Longrightarrow> d \<noteq> [] \<Longrightarrow> carries z (a + length d) ds fs n \<Longrightarrow>
     carries z a (d @ ds) (gs @ fs) (Suc n)"

lemma carries_append:
  "carries z a d fs n \<Longrightarrow> carries z (a + length d) e gs m \<Longrightarrow> carries z a (d @ e) (fs @ gs) (n + m)"
proof (induction arbitrary: e gs m rule: carries.induct)
  case (carries_nil a)
  then show ?case by simp
next
  case (carries_part f part a ds fs n)
  from carries.carries_part [OF carries_part(1,2,3) carries_part(5)] carries_part(6) show ?case
    by (simp add: add.assoc)
next
  case (carries_zip h a cs gs' d ds fs n)
  from carries.carries_zip [OF carries_zip(1-5) carries_zip(7)] carries_zip(8) show ?case
    by (simp add: add.assoc)
qed

section \<open>The blocks the engine sends\<close>

text \<open>Documented behaviour of zlib: inflating what was deflated gives it back, and no stream is empty.\<close>

definition inflates :: "zlib \<Rightarrow> bool" where
  "inflates z \<longleftrightarrow> (\<forall>d. z_compress z d 1 \<noteq> [] \<and> z_decompress z (z_compress z d 1) = Inr d)"

definition sent :: "'q up_session \<Rightarrow> frame list \<Rightarrow> 'q up_session \<Rightarrow> bool" where
  "sent s fs s' \<longleftrightarrow> us_out s' = us_out s @ fs \<and> us_source s' = us_source s \<and>
     us_allow_compression s' = us_allow_compression s \<and> us_world s' = us_world s"

lemma sent_refl [simp]: "sent s [] s"
  by (simp add: sent_def)

lemma sent_trans: "sent s fs s' \<Longrightarrow> sent s' gs s'' \<Longrightarrow> sent s (fs @ gs) s''"
  by (simp add: sent_def)

lemma sent_counted: "sent s [(EDONKEY, opcode, payload)] (send_counted opcode payload s)"
  by (simp add: sent_def send_counted_def us_send_def)

definition small_frame :: "frame \<Rightarrow> bool" where
  "small_frame f \<longleftrightarrow> (case f of (protocol, opcode, payload) \<Rightarrow>
     protocol = EDONKEY \<and> 0 \<le> opcode \<and> opcode < 256 \<and> length payload \<le> 13032)"

lemma mask_32: "0 \<le> x \<Longrightarrow> x \<le> 0xFFFFFFFF \<Longrightarrow> x AND 0xFFFFFFFF = (x :: int)"
  by (rule nat_and_32) simp_all

lemma plain_frame_carries:
  assumes h: "length h = 16" and le: "a < b" "b < 2 ^ 64" and d: "length d = b - a"
  shows "\<exists>op p. plain_frame h (int a) (int b) d = Inr (op, p) \<and>
     part_frame (EDONKEY, op, p) \<lparr>sp_hash = h, sp_start = a, sp_end = b, sp_data = d\<rparr> \<and>
     op \<in> {OP_SENDINGPART, OP_SENDINGPART_I64} \<and> length p \<le> length d + 32"
proof (cases "int b > 0xFFFFFFFF")
  case True
  define p where "p = h @ le_enc 8 a @ le_enc 8 b @ d"
  have "build_sending_part_i64_payload h (int a) (int b) d = Inr p"
    using h le d by (simp add: build_sending_part_i64_payload_def write_hash16_def write_u64_def write_bytes_def p_def)
  moreover have "parse_sending_part_i64 p = Inr \<lparr>sp_hash = h, sp_start = a, sp_end = b, sp_data = d\<rparr>"
    using sending_part_i64_roundtrip [OF calculation] by simp
  moreover have "length p = length d + 32" using h by (simp add: p_def)
  ultimately show ?thesis using True by (simp add: plain_frame_def part_frame_def)
next
  case False
  define p where "p = h @ le_enc 4 a @ le_enc 4 b @ d"
  have b: "a < 2 ^ 32" "b < 2 ^ 32" using False le by auto
  have "build_sending_part_payload h (int a) (int b) d = Inr p"
    using h False le by (simp add: build_sending_part_payload_def write_u32_def write_bytes_def p_def mask_32)
  moreover have "parse_sending_part p = Inr \<lparr>sp_hash = h, sp_start = a, sp_end = b, sp_data = d\<rparr>"
    using read_sending_part_whole [OF h reads_u32 [OF b(1)] reads_u32 [OF b(2)], of d] d le
    by (simp add: parse_sending_part_def p_def)
  moreover have "length p = length d + 24" using h by (simp add: p_def)
  ultimately show ?thesis using False by (simp add: plain_frame_def part_frame_def)
qed

lemma read_compressed_chunk_whole:
  assumes h: "length h = 16" and s: "reads get e1 s" and t: "t < 2 ^ 32" and c: "c \<noteq> []"
  shows "read_compressed_chunk get (h @ e1 @ le_enc 4 t @ c) = Inr (h, s, t, c)"
proof -
  let ?d = "h @ e1 @ le_enc 4 t @ c"
  have 1: "read_hash16 (from_bytes ?d) = Inr (h, advance 16 (from_bytes ?d))"
    using readsD [OF reads_hash16 [OF h], of "from_bytes ?d" "e1 @ le_enc 4 t @ c"] h by simp
  have ok1: "reader_ok (advance 16 (from_bytes ?d))" by (rule reader_ok_advance) (simp_all add: h)
  have r1: "rest (advance 16 (from_bytes ?d)) = e1 @ le_enc 4 t @ c" by (simp add: rest_advance h)
  have 2: "get (advance 16 (from_bytes ?d)) = Inr (s, advance (length e1) (advance 16 (from_bytes ?d)))"
    by (rule readsD [OF s ok1 r1])
  let ?r2 = "advance (length e1) (advance 16 (from_bytes ?d))"
  have ok2: "reader_ok ?r2" by (rule reader_ok_advance [OF ok1]) (simp add: r1)
  have r2: "rest ?r2 = le_enc 4 t @ c" by (simp only: rest_advance [of "length e1"] r1) simp
  have 3: "read_u32 ?r2 = Inr (t, advance 4 ?r2)" using readsD [OF reads_u32 [OF t] ok2 r2] by simp
  have ok3: "reader_ok (advance 4 ?r2)" by (rule reader_ok_advance [OF ok2]) (simp add: r2 del: advance_advance)
  have r3: "rest (advance 4 ?r2) = c" by (simp only: rest_advance [of 4] r2) simp
  have rem: "remaining (advance 4 ?r2) = int (length c)"
    using ok3 length_rest [of "advance 4 ?r2"] r3 by (simp add: remaining_def reader_ok_def)
  have 4: "read_bytes (int (length c)) (advance 4 ?r2) = Inr (c, advance (length c) (advance 4 ?r2))"
    by (rule readsD [OF reads_bytes [OF refl] ok3, of _ "[]"]) (simp only: r3 append_Nil2)
  show ?thesis unfolding read_compressed_chunk_def 1 bindE_Inr case_prod_conv 2 3 rem 4 peer_error_Inr
    using c by simp
qed

lemma small_frameI:
  "op \<in> {OP_SENDINGPART, OP_SENDINGPART_I64, OP_COMPRESSEDPART, OP_COMPRESSEDPART_I64} \<Longrightarrow>
     length p \<le> 13032 \<Longrightarrow> small_frame (EDONKEY, op, p)"
  by (auto simp: small_frame_def opcode_defs)

lemma chunk_len_bound: "chunk_len togo \<le> 13000"
  by (simp add: chunk_len_def SPLIT_THRESHOLD_def SPLIT_CHUNK_SIZE_def)

lemma parts_step:
  "n * 10240 < togo - chunk_len togo + 10240 \<Longrightarrow> 0 < togo \<Longrightarrow> Suc n * 10240 < togo + 10240"
  by (auto simp: chunk_len_def SPLIT_THRESHOLD_def SPLIT_CHUNK_SIZE_def split: if_splits)

lemma py_slice_take_drop: "py_slice i (i + n) xs = take n (drop i xs)"
  by (simp add: py_slice_def drop_take add.commute)

lemma take_chunk_append:
  assumes "n \<le> togo" and "togo \<le> length xs"
  shows "take n (drop (length xs - togo) xs) @ drop (length xs - (togo - n)) xs = drop (length xs - togo) xs"
proof -
  have "drop (length xs - (togo - n)) xs = drop n (drop (length xs - togo) xs)" using assms by (simp add: add.commute)
  then show ?thesis by (simp only: append_take_drop_id)
qed

lemma send_plain_carries:
  assumes h: "length h = 16" and b: "a + length data = b" "b < 2 ^ 64" and togo: "togo \<le> length data"
  shows "\<exists>fs n s'. send_plain h (int a) (int b) data togo s = (s', None) \<and> sent s fs s' \<and> list_all small_frame fs \<and>
     carries z (b - togo) (drop (length data - togo) data) fs n \<and> n * 10240 < togo + 10240"
  using togo
proof (induction togo arbitrary: s rule: less_induct)
  case (less togo)
  show ?case
  proof (cases "togo = 0")
    case True
    then show ?thesis by (auto simp: send_plain.simps intro!: exI [of _ "[]"] exI [of _ 0] carries_nil)
  next
    case False
    define n where "n = chunk_len togo"
    define chunk where "chunk = take n (drop (length data - togo) data)"
    have n: "0 < n" "n \<le> togo" using False chunk_len_pos chunk_len_le by (auto simp: n_def)
    have lc: "length chunk = n" using n less.prems by (simp add: chunk_def)
    have ends: "int b - int (togo - n) = int (b - (togo - n))" "int b - int (togo - n) - int n = int (b - togo)"
      using n less.prems b by auto
    have sl: "py_slice (nat (int b - int (togo - n) - int n - int a)) (nat (int b - int (togo - n) - int a)) data = chunk"
    proof -
      have "nat (int b - int (togo - n) - int n - int a) = length data - togo"
        "nat (int b - int (togo - n) - int a) = (length data - togo) + n" using n less.prems b by auto
      then show ?thesis by (simp add: py_slice_take_drop chunk_def)
    qed
    have pre: "b - togo < b - (togo - n)" "b - (togo - n) < 2 ^ 64" "length chunk = b - (togo - n) - (b - togo)"
      using lc n less.prems b by auto
    from plain_frame_carries [OF h pre] obtain op p where
      f: "plain_frame h (int (b - togo)) (int (b - (togo - n))) chunk = Inr (op, p)"
      and pf: "part_frame (EDONKEY, op, p) \<lparr>sp_hash = h, sp_start = b - togo, sp_end = b - (togo - n), sp_data = chunk\<rparr>"
      and op: "op \<in> {OP_SENDINGPART, OP_SENDINGPART_I64}" and lp: "length p \<le> n + 32"
      unfolding lc by blast
    have "togo - n < togo" "togo - n \<le> length data" using n less.prems by auto
    from less.IH [OF this, of "send_counted op p s"] obtain fs k s' where
      r: "send_plain h (int a) (int b) data (togo - n) (send_counted op p s) = (s', None)"
      and st: "sent (send_counted op p s) fs s'" and sm: "list_all small_frame fs"
      and c: "carries z (b - (togo - n)) (drop (length data - (togo - n)) data) fs k"
      and k: "k * 10240 < togo - n + 10240" by blast
    have "send_plain h (int a) (int b) data togo s = (s', None)"
      using False r f unfolding send_plain.simps [of h _ _ _ togo] Let_def n_def [symmetric] sl
      unfolding ends(2) unfolding ends(1) by (simp add: or_raise_def)
    moreover have "sent s ((EDONKEY, op, p) # fs) s'" using sent_trans [OF sent_counted st] by simp
    moreover have "small_frame (EDONKEY, op, p)"
      using op lp chunk_len_bound [of togo] by (intro small_frameI) (auto simp: n_def)
    moreover have "carries z (b - togo) (chunk @ drop (length data - (togo - n)) data) ((EDONKEY, op, p) # fs) (Suc k)"
    proof -
      have "chunk \<noteq> []" "b - togo + length chunk = b - (togo - n)" using lc n less.prems b by auto
      then show ?thesis using carries_part [OF pf refl, of z "drop (length data - (togo - n)) data" fs k] c by simp
    qed
    moreover have "chunk @ drop (length data - (togo - n)) data = drop (length data - togo) data"
      unfolding chunk_def by (rule take_chunk_append) (use n less.prems in auto)
    moreover have "Suc k * 10240 < togo + 10240" by (rule parts_step [OF k [unfolded n_def]]) (use False in simp)
    ultimately show ?thesis using sm by (intro exI [of _ "(EDONKEY, op, p) # fs"] exI [of _ "Suc k"] exI [of _ s']) simp
  qed
qed

lemma compressed_frame_chunk:
  assumes h: "length h = 16" and a: "a < b" "b < 2 ^ 64" and t: "t < 2 ^ 32" and c: "c \<noteq> []"
  shows "\<exists>op p. compressed_frame h (int a) (int b) t c = Inr (op, p) \<and> chunk_frame h a t c (EDONKEY, op, p) \<and>
     op \<in> {OP_COMPRESSEDPART, OP_COMPRESSEDPART_I64} \<and> length p \<le> length c + 32"
proof (cases "int b > 0xFFFFFFFF")
  case True
  have "a < 2 ^ 64" using a by simp
  from read_compressed_chunk_whole [OF h reads_u64 [OF this] t c] show ?thesis
    using h a t True by (simp add: compressed_frame_def build_compressed_part_i64_u64_payload_def write_u64_def write_u32_def
        write_bytes_def chunk_frame_def parse_compressed_part_chunk_i64_def)
next
  case False
  have "a < 2 ^ 32" using a False by simp
  from read_compressed_chunk_whole [OF h reads_u32 [OF this] t c] show ?thesis
    using h a t False by (simp add: compressed_frame_def build_compressed_part_payload_def write_u32_def mask_32
        write_bytes_def chunk_frame_def parse_compressed_part_chunk_def)
qed

lemma send_compressed_chunks:
  assumes h: "length h = 16" and a: "a < b" "b < 2 ^ 64" and t: "length c < 2 ^ 32" and togo: "togo \<le> length c"
  shows "\<exists>fs cs s'. send_compressed h (int a) (int b) c togo s = (s', None) \<and> sent s fs s' \<and> list_all small_frame fs \<and>
     list_all2 (chunk_frame h a (length c)) cs fs \<and> concat cs = drop (length c - togo) c \<and> [] \<notin> set cs"
  using togo
proof (induction togo arbitrary: s rule: less_induct)
  case (less togo)
  show ?case
  proof (cases "togo = 0")
    case True
    then show ?thesis by (auto simp: send_compressed.simps intro!: exI [of _ "[]"])
  next
    case False
    define n where "n = chunk_len togo"
    define chunk where "chunk = take n (drop (length c - togo) c)"
    have n: "0 < n" "n \<le> togo" using False chunk_len_pos chunk_len_le by (auto simp: n_def)
    have lc: "length chunk = n" using n less.prems by (simp add: chunk_def)
    then have ne: "chunk \<noteq> []" using n by auto
    have off: "length c - (togo - n) - n = length c - togo" using n less.prems by simp
    from compressed_frame_chunk [OF h a t ne] obtain op p where
      f: "compressed_frame h (int a) (int b) (length c) chunk = Inr (op, p)"
      and cf: "chunk_frame h a (length c) chunk (EDONKEY, op, p)"
      and op: "op \<in> {OP_COMPRESSEDPART, OP_COMPRESSEDPART_I64}" and lp: "length p \<le> n + 32" using lc by auto
    have "togo - n < togo" "togo - n \<le> length c" using n less.prems by auto
    from less.IH [OF this, of "send_counted op p s"] obtain fs cs s' where
      r: "send_compressed h (int a) (int b) c (togo - n) (send_counted op p s) = (s', None)"
      and st: "sent (send_counted op p s) fs s'" and sm: "list_all small_frame fs"
      and l: "list_all2 (chunk_frame h a (length c)) cs fs" "concat cs = drop (length c - (togo - n)) c" "[] \<notin> set cs"
      by blast
    have "send_compressed h (int a) (int b) c togo s = (s', None)"
      using False r f unfolding send_compressed.simps [of h _ _ _ togo] Let_def n_def [symmetric] off py_slice_take_drop
        chunk_def [symmetric] by (simp add: or_raise_def)
    moreover have "sent s ((EDONKEY, op, p) # fs) s'" using sent_trans [OF sent_counted st] by simp
    moreover have "small_frame (EDONKEY, op, p)"
      using op lp chunk_len_bound [of togo] by (intro small_frameI) (auto simp: n_def)
    moreover have "chunk @ drop (length c - (togo - n)) c = drop (length c - togo) c"
      unfolding chunk_def by (rule take_chunk_append) (use n less.prems in auto)
    ultimately show ?thesis using sm l cf ne
      by (intro exI [of _ "(EDONKEY, op, p) # fs"] exI [of _ "chunk # cs"] exI [of _ s']) simp
  qed
qed

text \<open>A session whose source is open on the content \<open>c\<close> and tells its size truly.\<close>

definition serving :: "bytes \<Rightarrow> 'q up_session \<Rightarrow> bool" where
  "serving c s \<longleftrightarrow> bs_handle (us_source s) = Some c \<and> sf_size (us_shared s) = int (length c) \<and>
     length (sf_hash (us_shared s)) = 16"

lemma serving_sent: "serving c s \<Longrightarrow> sent s fs s' \<Longrightarrow> serving c s'"
  by (simp add: serving_def sent_def us_shared_def)

lemma read_block_serving:
  "serving c s \<Longrightarrow> a \<le> b \<Longrightarrow> b \<le> length c \<Longrightarrow> read_block (int a) (int b - int a) (us_source s) = Inr (py_slice a b c)"
  by (simp add: serving_def read_block_def us_shared_def Let_def)

lemma send_block_carries:
  assumes sv: "serving c s" and z: "inflates (ue_zlib env)" and len: "length c < 2 ^ 64"
    and ab: "a < b" "b \<le> length c" "b - a \<le> 552960"
  shows "\<exists>fs n s'. send_block env (int a) (int b) (int b - int a) s = (s', None) \<and> sent s fs s' \<and> list_all small_frame fs \<and>
     carries (ue_zlib env) a (py_slice a b c) fs n \<and> n * 10240 < (b - a) + 10240"
proof -
  define data where "data = py_slice a b c"
  define h where "h = sf_hash (us_shared s)"
  have h: "length h = 16" using sv by (simp add: serving_def h_def)
  have ld: "length data = b - a" using ab by (simp add: data_def)
  have r: "read_block (int a) (int b - int a) (us_source s) = Inr data"
    unfolding data_def by (rule read_block_serving [OF sv]) (use ab in auto)
  define k where "k = z_compress (ue_zlib env) data 1"
  show ?thesis
  proof (cases "us_allow_compression s \<and> data \<noteq> [] \<and> length k < length data")
    case True
    have t: "length k < 2 ^ 32" using True ld ab by simp
    define s0 where "s0 = s\<lparr>us_compressed_blocks := us_compressed_blocks s + 1\<rparr>"
    have b64: "b < 2 ^ 64" using ab len by simp
    from send_compressed_chunks [OF h ab(1) b64 t order.refl, of s0] obtain fs cs s' where
      c: "send_compressed h (int a) (int b) k (length k) s0 = (s', None)" "sent s0 fs s'" "list_all small_frame fs"
      and l: "list_all2 (chunk_frame h a (length k)) cs fs" "concat cs = k" "[] \<notin> set cs" by auto
    have k: "k \<noteq> []" "z_decompress (ue_zlib env) k = Inr data" using z by (simp_all add: inflates_def k_def)
    then have "cs \<noteq> []" using l by auto
    have "carries (ue_zlib env) a (data @ []) (fs @ []) (Suc 0)"
      by (rule carries_zip [where h = h and cs = cs]) (use l k True \<open>cs \<noteq> []\<close> in \<open>auto intro: carries_nil\<close>)
    moreover have "send_block env (int a) (int b) (int b - int a) s = (s', None)"
      using True c(1) unfolding s0_def by (simp add: send_block_def Let_def or_raise_def r flip: h_def k_def)
    moreover have "sent s fs s'" using c(2) by (simp add: sent_def s0_def)
    ultimately show ?thesis using c(3) ab(1)
      by (intro exI [of _ fs] exI [of _ "Suc 0"] exI [of _ s']) (simp flip: data_def)
  next
    case False
    have ab': "a + length data = b" "b < 2 ^ 64" using ld ab len by auto
    have n: "nat (int b - int a) = length data" using ld ab by simp
    from send_plain_carries [OF h ab' order.refl, of s "ue_zlib env"] obtain fs n s' where
      c: "send_plain h (int a) (int b) data (length data) s = (s', None)" "sent s fs s'" "list_all small_frame fs"
        "carries (ue_zlib env) a data fs n" "n * 10240 < length data + 10240" using ab' by auto
    have "send_block env (int a) (int b) (int b - int a) s = (s', None)"
      using False c(1) by (auto simp: send_block_def Let_def or_raise_def r n simp flip: h_def k_def)
    then show ?thesis using c ld by (intro exI [of _ fs] exI [of _ n] exI [of _ s']) (simp flip: data_def)
  qed
qed

text \<open>One slot: the frames that carry the bytes of its window, and how many parts they make.\<close>

definition serves_window :: "zlib \<Rightarrow> bytes \<Rightarrow> int \<times> int \<Rightarrow> frame list \<Rightarrow> bool" where
  "serves_window z c w fs \<longleftrightarrow> (case w of (a, b) \<Rightarrow>
     \<exists>n. carries z (nat a) (py_slice (nat a) (nat b) c) fs n \<and> n * 10240 < nat (b - a) + 10240)"

definition windows :: "int \<Rightarrow> (nat \<times> nat) list \<Rightarrow> (int \<times> int) list" where
  "windows sz slots = List.map_filter (\<lambda>(a, b). clamp_slot sz (int a) (int b)) slots"

lemma windows_simps [simp]:
  "windows sz [] = []"
  "windows sz ((a, b) # slots) =
     (case clamp_slot sz (int a) (int b) of None \<Rightarrow> windows sz slots | Some w \<Rightarrow> w # windows sz slots)"
  by (simp_all add: windows_def map_filter_simps split: option.splits)

lemma clamp_slot_Some:
  "clamp_slot sz start stop = Some (a, b) \<Longrightarrow> a = start \<and> a < b \<and> b \<le> sz \<and> b \<le> stop \<and> b - a \<le> 552960"
  by (auto simp: clamp_slot_def Let_def EMBLOCKSIZE_def MAX_REQUEST_BLOCKS_def split: if_splits)

lemma clamp_slot_id:
  "start < stop \<Longrightarrow> stop \<le> sz \<Longrightarrow> stop - start \<le> 552960 \<Longrightarrow> clamp_slot sz start stop = Some (start, stop)"
  by (simp add: clamp_slot_def Let_def EMBLOCKSIZE_def MAX_REQUEST_BLOCKS_def)

lemma send_slots_serves:
  assumes "serving c s" and z: "inflates (ue_zlib env)" and len: "length c < 2 ^ 64"
  shows "\<exists>gs s'. send_slots env slots s = (s', None) \<and> sent s (concat gs) s' \<and> list_all (list_all small_frame) gs \<and>
     list_all2 (serves_window (ue_zlib env) c) (windows (int (length c)) slots) gs"
  using assms(1)
proof (induction slots arbitrary: s)
  case Nil
  then show ?case by (intro exI [of _ "[]"]) simp
next
  case (Cons slot slots)
  obtain i j where slot: "slot = (i, j)" by (cases slot)
  have sz: "sf_size (us_shared s) = int (length c)" using Cons.prems by (simp add: serving_def)
  show ?case
  proof (cases "clamp_slot (int (length c)) (int i) (int j)")
    case None
    then show ?thesis using Cons.IH [OF Cons.prems] by (simp add: slot sz)
  next
    case (Some w)
    obtain a b where w: "w = (int a, int b)" and ab: "a < b" "b \<le> length c" "b - a \<le> 552960"
    proof -
      obtain x y where xy: "w = (x, y)" by (cases w)
      have "x = int i" "x < y" "y \<le> int (length c)" "y - x \<le> 552960"
        using clamp_slot_Some [OF Some [unfolded xy]] by auto
      then show ?thesis by (intro that [of i "nat y"]) (auto simp: xy)
    qed
    from send_block_carries [OF Cons.prems z len ab] obtain fs n s1 where
      b: "send_block env (int a) (int b) (int b - int a) s = (s1, None)" "sent s fs s1" "list_all small_frame fs"
        "carries (ue_zlib env) a (py_slice a b c) fs n" "n * 10240 < (b - a) + 10240" by blast
    from Cons.IH [OF serving_sent [OF Cons.prems b(2)]] obtain gs s' where
      r: "send_slots env slots s1 = (s', None)" "sent s1 (concat gs) s'" "list_all (list_all small_frame) gs"
        "list_all2 (serves_window (ue_zlib env) c) (windows (int (length c)) slots) gs" by blast
    have "serves_window (ue_zlib env) c w fs"
      using b(4,5) ab(1) unfolding serves_window_def w by (auto simp flip: of_nat_diff)
    then show ?thesis using b r sent_trans [OF b(2) r(2)] Some
      by (intro exI [of _ "fs # gs"] exI [of _ s']) (simp add: slot sz w run_after_def)
  qed
qed

lemma engine_step_parts:
  assumes "opcode \<in> {OP_REQUESTPARTS, OP_REQUESTPARTS_I64}" and "handle_request_parts env payload opcode s = (s', None)"
  shows "engine_step env opcode payload s = (s', Going)"
proof -
  have "engine_packet env opcode payload s = Some (handle_request_parts env payload opcode s)"
    using assms(1) by (auto simp: engine_packet_def opcode_defs)
  then show ?thesis by (simp add: engine_step_def assms(2))
qed

lemma engine_request_parts:
  assumes "serving c s" and "inflates (ue_zlib env)" and "length c < 2 ^ 64"
    and op: "opcode \<in> {OP_REQUESTPARTS, OP_REQUESTPARTS_I64}"
    and p: "parse_request_parts_internal payload (opcode = OP_REQUESTPARTS_I64) = Inr (h, slots)"
  shows "\<exists>gs s'. engine_step env opcode payload s = (s', Going) \<and> sent s (concat gs) s' \<and>
     list_all (list_all small_frame) gs \<and> list_all2 (serves_window (ue_zlib env) c) (windows (int (length c)) slots) gs"
proof -
  define s1 where "s1 = s\<lparr>us_requests := us_requests s + 1\<rparr>"
  have s1: "serving c s1" "sent s [] s1" using assms(1) by (simp_all add: serving_def us_shared_def s1_def sent_def)
  from send_slots_serves [OF s1(1) assms(2,3)] obtain gs s' where
    r: "send_slots env slots s1 = (s', None)" "sent s1 (concat gs) s'" "list_all (list_all small_frame) gs"
      "list_all2 (serves_window (ue_zlib env) c) (windows (int (length c)) slots) gs" by blast
  have "handle_request_parts env payload opcode s = (s', None)"
    using p r(1) by (simp add: handle_request_parts_def Let_def s1_def)
  then have "engine_step env opcode payload s = (s', Going)" by (rule engine_step_parts [OF op])
  moreover have "sent s (concat gs) s'" using sent_trans [OF s1(2) r(2)] by simp
  ultimately show ?thesis using r(3,4) by blast
qed

text \<open>
  What a request asks for, read off its bytes: three starts and three ends of \<open>w\<close> bytes each behind the hash. It
  is refused when it is too short or when a start is above its end; a range is served up to the end of the
  file and up to three blocks of 184320 bytes, and not at all when that leaves nothing.
\<close>

definition requested :: "nat \<Rightarrow> bytes \<Rightarrow> (nat \<times> nat) list" where
  "requested w p =
     map (\<lambda>i. (le_dec (take w (drop (16 + w * i) p)), le_dec (take w (drop (16 + 3 * w + w * i) p)))) [0, 1, 2]"

definition ranges_to_serve :: "nat \<Rightarrow> nat \<Rightarrow> bytes \<Rightarrow> (int \<times> int) list" where
  "ranges_to_serve size_of_file w p =
     (if length p < 16 + 6 * w \<or> list_ex (\<lambda>(a, b). b < a) (requested w p) then []
      else filter (\<lambda>(a, b). a < b)
        (map (\<lambda>(a, b). (int a, int (min b (min size_of_file (a + 3 * 184320))))) (requested w p)))"

lemma requested_raw: "zip (raw_offsets w p 0) (raw_offsets w p 3) = requested w p"
proof -
  have "[0..<3] = [0, 1, 2 :: nat]" "[3..<6] = [3, 4, 5 :: nat]" by (simp_all add: upt_rec)
  then show ?thesis by (simp add: raw_offsets_def requested_def py_slice_def numeral_eq_Suc algebra_simps)
qed

lemma codec_requests:
  assumes "list_ex (\<lambda>(a, b). b < a) (requested w p) = bad"
  shows "w = 4 \<Longrightarrow> parse_request_parts p =
      (if length p \<noteq> 40 \<or> bad then Inl PeerCodecError else Inr (take 16 p, raw_offsets w p 0, raw_offsets w p 3))"
    and "w = 8 \<Longrightarrow> parse_request_parts_i64 p =
      (if length p \<noteq> 64 \<or> bad then Inl PeerCodecError else Inr (take 16 p, raw_offsets w p 0, raw_offsets w p 3))"
  unfolding assms [symmetric] requested_raw [symmetric]
  by (auto simp: parse_request_parts_def parse_request_parts_i64_def read_request_parts_def finish_request_parts_def peer_error_def
      read_hash16_def read_bytes_def read_u32_def read_u64_def require_def advance_def from_bytes_def remaining_def
      eval_nat_numeral raw_offsets_def py_slice_def)

lemma internal_requests:
  assumes "w = (if i64 then 8 else 4)"
  shows "parse_request_parts_internal p i64 =
    (if length p < 16 + 6 * w \<or> list_ex (\<lambda>(a, b). b < a) (requested w p) then Inl PeerCodecError
     else Inr (take 16 p, used_slots (raw_offsets w p 0) (raw_offsets w p 3)))"
proof -
  have "list_ex (\<lambda>(s, e). s > e) (used_slots (raw_offsets w p 0) (raw_offsets w p 3)) = list_ex (\<lambda>(a, b). b < a) (requested w p)"
    by (auto simp: used_slots_def requested_raw list_ex_iff)
  then show ?thesis
    using codec_requests [of w p] assms by (cases i64) (auto simp: parse_request_parts_internal_def Let_def)
qed

lemma windows_requested:
  assumes "\<not> list_ex (\<lambda>(a, b). b < a) slots"
  shows "windows (int n) (filter (\<lambda>(s, e). \<not> (s = 0 \<and> e = 0)) slots) =
    filter (\<lambda>(a, b). a < b) (map (\<lambda>(a, b). (int a, int (min b (min n (a + 3 * 184320))))) slots)"
  using assms
proof (induction slots)
  case (Cons ab slots)
  obtain a b where ab: "ab = (a, b)" by (cases ab)
  have "clamp_slot (int n) (int a) (int b) =
      (if a < min b (min n (a + 3 * 184320)) then Some (int a, int (min b (min n (a + 3 * 184320)))) else None)"
    by (auto simp: clamp_slot_def Let_def EMBLOCKSIZE_def MAX_REQUEST_BLOCKS_def)
  with Cons show ?case by (simp add: ab)
qed simp

text \<open>
  C19. An upload session answers a part request, whatever the bytes of its payload and whatever file
  hash it names, without ending: a payload that is too short, or in which a start exceeds its end, is
  ignored; otherwise the frames sent carry, window by window and in the order of the slots, exactly the bytes
  of the file from each start to the least of the requested end, the end of the file and three blocks of 184320
  bytes behind the start; a slot of which that leaves nothing sends nothing. No frame exceeds the sub-packet size, and
  the session's file stays open. (The frames have the eDonkey protocol byte, those of a compressed part too, where
  the comment at \<open>engine.py:612\<close> announces 0xC5.)
\<close>

theorem request_parts_served:
  assumes "serving c s" and "inflates (ue_zlib env)" and "length c < 2 ^ 64"
    and "(opcode, w) \<in> {(OP_REQUESTPARTS, 4), (OP_REQUESTPARTS_I64, 8)}"
  shows "\<exists>gs s'. engine_step env opcode payload s = (s', Going) \<and> us_out s' = us_out s @ concat gs \<and> serving c s' \<and>
     list_all (list_all small_frame) gs \<and>
     list_all2 (serves_window (ue_zlib env) c) (ranges_to_serve (length c) w payload) gs"
proof -
  have op: "opcode \<in> {OP_REQUESTPARTS, OP_REQUESTPARTS_I64}" and w: "w = (if opcode = OP_REQUESTPARTS_I64 then 8 else 4)"
    using assms(4) by (auto simp: opcode_defs)
  note parse = internal_requests [OF w, of payload]
  show ?thesis
  proof (cases "length payload < 16 + 6 * w \<or> list_ex (\<lambda>(a, b). b < a) (requested w payload)")
    case True
    define s1 where "s1 = s\<lparr>us_requests := us_requests s + 1\<rparr>"
    have "handle_request_parts env payload opcode s = (s1, None)"
      using parse True by (simp add: handle_request_parts_def Let_def s1_def)
    then have "engine_step env opcode payload s = (s1, Going)" by (rule engine_step_parts [OF op])
    then show ?thesis using assms(1) True
      by (intro exI [of _ "[]"] exI [of _ s1]) (simp add: serving_def us_shared_def s1_def ranges_to_serve_def)
  next
    case False
    define slots where "slots = used_slots (raw_offsets w payload 0) (raw_offsets w payload 3)"
    have p: "parse_request_parts_internal payload (opcode = OP_REQUESTPARTS_I64) = Inr (take 16 payload, slots)"
      unfolding parse slots_def using False by (simp only: if_False)
    have ws: "windows (int (length c)) slots = ranges_to_serve (length c) w payload"
      using False windows_requested [of "requested w payload" "length c"]
      by (simp add: slots_def used_slots_def requested_raw ranges_to_serve_def)
    from engine_request_parts [OF assms(1-3) op p] show ?thesis
      unfolding ws using serving_sent [OF assms(1)] by (auto simp: sent_def)
  qed
qed

definition sample_env :: "unit up_env" where
  "sample_env = \<lparr>ue_md4 = (\<lambda>d. replicate 16 0), ue_zlib = rle_zlib, ue_fs = (\<lambda>p. None), ue_hook = None, ue_aich = None\<rparr>"

definition sample_session :: "bytes \<Rightarrow> unit up_session" where
  "sample_session c = up_session_new \<lparr>bs_shared = \<lparr>sf_hash = replicate 16 9, sf_name = [], sf_size = int (length c),
     sf_path = None, sf_priority = 1, sf_hash_result = None\<rparr>, bs_chunk_size = 9728000, bs_chunks = [],
     bs_handle = Some c\<rparr> True ()"

lemma rle_inflates: "inflates rle_zlib"
  unfolding inflates_def
proof
  fix d :: bytes
  show "z_compress rle_zlib d 1 \<noteq> [] \<and> z_decompress rle_zlib (z_compress rle_zlib d 1) = Inr d"
    by (cases d) (auto simp: rle_zlib_def simp flip: replicate_Suc)
qed

lemma sample_serving: "serving c (sample_session c)"
  by (simp add: serving_def sample_session_def up_session_new_def us_shared_def)

text \<open>Two bytes from 0, then from 2 a range that ends behind the file, and an empty slot.\<close>

theorem request_parts_served_witness:
  "\<exists>gs s'. engine_step sample_env OP_REQUESTPARTS (replicate 16 9 @ le_enc 4 0 @ le_enc 4 2 @ le_enc 4 0 @ le_enc 4 2 @
       le_enc 4 9 @ le_enc 4 0) (sample_session [5, 6, 7]) = (s', Going) \<and>
     us_out s' = us_out (sample_session [5, 6, 7]) @ concat gs \<and> serving [5, 6, 7] s' \<and> list_all (list_all small_frame) gs \<and>
     list_all2 (serves_window (ue_zlib sample_env) [5, 6, 7]) [(0, 2), (2, 3)] gs"
proof -
  let ?p = "replicate 16 9 @ le_enc 4 0 @ le_enc 4 2 @ le_enc 4 0 @ le_enc 4 2 @ le_enc 4 9 @ le_enc 4 0"
  have "ranges_to_serve (length [5, 6, 7 :: byte]) 4 ?p = [(0, 2), (2, 3)]"
    by (simp add: ranges_to_serve_def requested_def)
  moreover have "inflates (ue_zlib sample_env)" and "length [5, 6, 7 :: byte] < 2 ^ 64"
      and "(OP_REQUESTPARTS, 4) \<in> {(OP_REQUESTPARTS, 4), (OP_REQUESTPARTS_I64, 8)}"
    by (simp_all add: sample_env_def rle_inflates)
  ultimately show ?thesis using request_parts_served [OF sample_serving] by metis
qed

end
