(* ===== verification/Peer_Client.thy ===== *)
theory Peer_Client
  imports Upload_Engine
begin

text \<open>
  \<open>core/peer/client.py\<close>: the downloading side of a client-to-client session, and the framing it
  shares with the \<open>StreamTransport\<close> of \<open>core/peer/listener.py\<close>. A stream is what has arrived and is not
  yet consumed. What the outside does to a session (the peer, the part file, the block selector) is
  the record \<open>peer_io\<close> of the calls \<open>transfer\<close> makes, over a world of any type.
\<close>

section \<open>Frames on the wire\<close>

definition MAX_PACKET_SIZE :: nat where "MAX_PACKET_SIZE = 16 * 1024 * 1024"

definition frame_wire :: "frame \<Rightarrow> bytes res" where
  "frame_wire f = (case f of (protocol, opcode, payload) \<Rightarrow>
     if \<not> (0 \<le> protocol \<and> protocol \<le> 0xFF) then Inl ValueError
     else if length payload + 1 > 0xFFFFFFFF then Inl StructError
     else if \<not> (0 \<le> opcode \<and> opcode \<le> 0xFF) then Inl ValueError
     else Inr ([word_of_int protocol] @ le_enc 4 (length payload + 1) @ [word_of_int opcode] @ payload))"

record link =
  lk_in :: bytes
  lk_eof :: bool
  lk_connected :: bool

text \<open>
  \<open>PeerClient._receive\<close>: the bytes of \<open>lk_in\<close> arrive before the timeout, and \<open>lk_eof\<close> says that the
  peer closes behind them. A header is consumed before its payload is waited for.
\<close>

definition read_failed :: "bool \<Rightarrow> link \<Rightarrow> frame option res \<times> link" where
  "read_failed close_on_timeout l =
     (if lk_eof l then (Inl PeerSessionError, l\<lparr>lk_in := [], lk_connected := False\<rparr>)
      else if close_on_timeout then (Inl PeerSessionError, l\<lparr>lk_connected := False\<rparr>)
      else (Inr None, l))"

definition client_receive :: "bool \<Rightarrow> link \<Rightarrow> frame option res \<times> link" where
  "client_receive close_on_timeout l =
     (if \<not> lk_connected l then (Inl PeerSessionError, l)
      else if length (lk_in l) < 6 then read_failed close_on_timeout l
      else
        let header = take 6 (lk_in l); l1 = l\<lparr>lk_in := drop 6 (lk_in l)\<rparr>;
            packet_length = le_dec (py_slice 1 5 header) in
        if packet_length < 1 then (Inl PeerSessionError, l1)
        else
          let n = packet_length - 1 in
          if n > MAX_PACKET_SIZE then (Inl PeerSessionError, l1)
          else if length (lk_in l1) < n then read_failed close_on_timeout l1
          else (Inr (Some (uint (header ! 0), uint (header ! 5), take n (lk_in l1))), l1\<lparr>lk_in := drop n (lk_in l1)\<rparr>))"

text \<open>\<open>StreamTransport\<close>: the serving side; here a timeout always ends the session.\<close>

record transport =
  tr_protocol :: int
  tr_allow_emule :: bool

definition transport_send :: "transport \<Rightarrow> int option \<Rightarrow> int \<Rightarrow> bytes \<Rightarrow> bytes res" where
  "transport_send t protocol opcode payload =
     (if length payload > MAX_PACKET_SIZE - 1 then Inl ListenerError
      else frame_wire (case protocol of None \<Rightarrow> tr_protocol t | Some p \<Rightarrow> p, opcode, payload))"

definition transport_recv :: "transport \<Rightarrow> link \<Rightarrow> frame option res \<times> link" where
  "transport_recv t l =
     (if length (lk_in l) < 6 then (if lk_eof l then (Inr None, l\<lparr>lk_in := []\<rparr>) else (Inl ListenerError, l))
      else
        let header = take 6 (lk_in l); l1 = l\<lparr>lk_in := drop 6 (lk_in l)\<rparr>; protocol = uint (header ! 0) in
        if protocol \<noteq> tr_protocol t \<and> \<not> (tr_allow_emule t \<and> protocol = EMULE) then (Inl ListenerError, l1)
        else
          let packet_length = le_dec (py_slice 1 5 header) in
          if packet_length < 1 then (Inl ListenerError, l1)
          else
            let n = packet_length - 1 in
            if n > MAX_PACKET_SIZE then (Inl ListenerError, l1)
            else if length (lk_in l1) < n then (Inl ListenerError, l1)
            else (Inr (Some (protocol, uint (header ! 5), take n (lk_in l1))), l1\<lparr>lk_in := drop n (lk_in l1)\<rparr>))"

section \<open>The session's own state\<close>

definition OP_ANSWERSOURCES :: int where "OP_ANSWERSOURCES = 0x82"
definition OP_ANSWERSOURCES2 :: int where "OP_ANSWERSOURCES2 = 0x84"
definition OP_REQUESTSOURCES :: int where "OP_REQUESTSOURCES = 0x81"
definition OP_REQUESTSOURCES2 :: int where "OP_REQUESTSOURCES2 = 0x83"
definition OP_AICHANSWER :: int where "OP_AICHANSWER = 0x9C"
definition OP_SETREQFILEID :: int where "OP_SETREQFILEID = 0x4F"
definition OP_FILESTATUS :: int where "OP_FILESTATUS = 0x50"
definition OP_FILEREQANSNOFIL :: int where "OP_FILEREQANSNOFIL = 0x39"
definition OP_OUTOFPARTREQS :: int where "OP_OUTOFPARTREQS = 0x57"

lemmas client_opcode_defs = OP_ANSWERSOURCES_def OP_ANSWERSOURCES2_def OP_REQUESTSOURCES_def OP_REQUESTSOURCES2_def
  OP_AICHANSWER_def OP_SETREQFILEID_def OP_FILESTATUS_def OP_FILEREQANSNOFIL_def OP_OUTOFPARTREQS_def

record peer_client =
  pc_part_status :: "bytes \<Rightarrow> nat set option"
  pc_complete_sources :: "bytes set"
  pc_collected :: "sx_source list"

text \<open>
  Whether the packet was an \<open>OP_FILESTATUS\<close>, and the session after it; a payload that does not parse
  is dropped.
\<close>

definition capture_file_status :: "int \<Rightarrow> int \<Rightarrow> bytes \<Rightarrow> peer_client \<Rightarrow> bool \<times> peer_client" where
  "capture_file_status protocol opcode payload c =
     (if protocol \<noteq> EDONKEY \<or> opcode \<noteq> OP_FILESTATUS then (False, c)
      else case parse_file_status payload of
        Inl e \<Rightarrow> (True, c)
      | Inr st \<Rightarrow>
          (True, if fs_chunk_count st = 0
                 then c\<lparr>pc_complete_sources := insert (fs_hash st) (pc_complete_sources c),
                        pc_part_status := (pc_part_status c)(fs_hash st \<mapsto> {})\<rparr>
                 else c\<lparr>pc_part_status := (pc_part_status c)(fs_hash st \<mapsto> set (fs_present st))\<rparr>))"

text \<open>
  The legacy answer is parsed without the entry version that \<open>parse_answer_sources\<close> requires: the
  call itself raises \<open>TypeError\<close>.
\<close>

definition collect_answer_sources :: "int \<Rightarrow> int \<Rightarrow> bytes \<Rightarrow> peer_client \<Rightarrow> (bool \<times> peer_client) res" where
  "collect_answer_sources protocol opcode payload c =
     (if protocol \<noteq> EMULE then Inr (False, c)
      else if opcode = OP_ANSWERSOURCES2 then
        bindE (parse_answer_sources2 payload) (\<lambda>(v, fh, entries).
          Inr (True, c\<lparr>pc_collected := pc_collected c @ entries\<rparr>))
      else if opcode = OP_ANSWERSOURCES then Inl TypeError
      else Inr (False, c))"

section \<open>Source exchange, file request and queue\<close>

definition request_sources :: "bytes \<Rightarrow> int \<Rightarrow> 'f ed2k_tag list \<Rightarrow> frame list res" where
  "request_sources fh options peer_tags =
     (let sx1 = miso1_source_exchange peer_tags; sx2 = miso2_source_exchange_v2 peer_tags in
      if sx2 \<or> sx1 > 1 then
        bindE (build_request_sources2_payload 2 options fh) (\<lambda>p. Inr [(EMULE, OP_REQUESTSOURCES2, p)])
      else if sx1 = 1 then
        bindE (build_request_sources_payload fh) (\<lambda>p. Inr [(EMULE, OP_REQUESTSOURCES, p)])
      else Inr [])"

definition request_file_frames :: "bytes \<Rightarrow> frame list res" where
  "request_file_frames fh =
     bindE (build_request_filename_payload fh) (\<lambda>p.
       Inr [(EDONKEY, OP_REQUESTFILENAME, p), (EDONKEY, OP_SETREQFILEID, p), (EDONKEY, OP_HASHSETREQUEST, p),
            (EDONKEY, OP_STARTUPLOADREQ, p)])"

text \<open>
  The receive loops as functions of what \<open>_receive\<close> returns, call by call: a frame, nothing within
  the timeout, or an exception. At the end of the list the deadline has passed.
\<close>

type_synonym rxs = "frame option res list"

fun request_file_wait :: "rxs \<Rightarrow> peer_client \<Rightarrow> (bytes \<times> bytes list) res \<times> rxs \<times> peer_client" where
  "request_file_wait [] c = (Inl PeerSessionError, [], c)"
| "request_file_wait (Inl e # evs) c = (Inl e, evs, c)"
| "request_file_wait (Inr None # evs) c = (Inl PeerSessionError, evs, c)"
| "request_file_wait (Inr (Some (protocol, opcode, payload)) # evs) c =
     (if protocol \<noteq> EDONKEY then request_file_wait evs c
      else if opcode = OP_REQFILENAMEANSWER then
        (case parse_filename_answer payload of Inl e \<Rightarrow> (Inl e, evs, c) | Inr _ \<Rightarrow> request_file_wait evs c)
      else if opcode = OP_HASHSETANSWER then (parse_hashset_answer payload, evs, c)
      else if opcode = OP_FILEREQANSNOFIL then (Inl PeerSessionError, evs, c)
      else if opcode = OP_QUEUERANK then
        (case parse_queue_rank payload of Inl e \<Rightarrow> (Inl e, evs, c) | Inr _ \<Rightarrow> request_file_wait evs c)
      else request_file_wait evs (snd (capture_file_status protocol opcode payload c)))"

definition request_file :: "bytes \<Rightarrow> rxs \<Rightarrow> peer_client \<Rightarrow> (frame list \<times> (bytes \<times> bytes list)) res \<times> rxs \<times> peer_client" where
  "request_file fh evs c =
     (case request_file_frames fh of
        Inl e \<Rightarrow> (Inl e, evs, c)
      | Inr fs \<Rightarrow> (case request_file_wait evs c of (r, evs', c') \<Rightarrow> (bindE r (\<lambda>h. Inr (fs, h)), evs', c')))"

text \<open>The ranks reported while waiting are returned in the order the callback sees them.\<close>

fun wait_upload_slot :: "rxs \<Rightarrow> peer_client \<Rightarrow> unit res \<times> nat list \<times> rxs \<times> peer_client" where
  "wait_upload_slot [] c = (Inl PeerSessionError, [], [], c)"
| "wait_upload_slot (Inl e # evs) c = (Inl e, [], evs, c)"
| "wait_upload_slot (Inr None # evs) c = wait_upload_slot evs c"
| "wait_upload_slot (Inr (Some (protocol, opcode, payload)) # evs) c =
     (if protocol \<noteq> EDONKEY then
        (case collect_answer_sources protocol opcode payload c of
           Inl e \<Rightarrow> (Inl e, [], evs, c) | Inr (_, c') \<Rightarrow> wait_upload_slot evs c')
      else if opcode = OP_ACCEPTUPLOADREQ then (Inr (), [], evs, c)
      else if opcode = OP_QUEUERANK then
        (case parse_queue_rank payload of
           Inl e \<Rightarrow> (Inl e, [], evs, c)
         | Inr rank \<Rightarrow> (case wait_upload_slot evs c of (r, ranks, x) \<Rightarrow> (r, rank # ranks, x)))
      else if opcode = OP_FILEREQANSNOFIL then (Inl PeerSessionError, [], evs, c)
      else wait_upload_slot evs (snd (capture_file_status protocol opcode payload c)))"

fun request_aich_wait :: "rxs \<Rightarrow> (bytes \<times> nat \<times> bytes \<times> bytes) res \<times> rxs" where
  "request_aich_wait [] = (Inl PeerSessionError, [])"
| "request_aich_wait (Inl e # evs) = (Inl e, evs)"
| "request_aich_wait (Inr None # evs) = (Inl PeerSessionError, evs)"
| "request_aich_wait (Inr (Some (protocol, opcode, payload)) # evs) =
     (if protocol = EMULE \<and> opcode = OP_AICHANSWER then (parse_aich_answer_payload payload, evs)
      else request_aich_wait evs)"

definition request_aich :: "bytes \<Rightarrow> int \<Rightarrow> bytes \<Rightarrow> rxs \<Rightarrow> (frame \<times> bytes \<times> nat \<times> bytes \<times> bytes) res \<times> rxs" where
  "request_aich fh part known_master evs =
     (case build_aich_request_payload fh part known_master of
        Inl e \<Rightarrow> (Inl e, evs)
      | Inr p \<Rightarrow> (case request_aich_wait evs of
                   (r, evs') \<Rightarrow> (bindE r (\<lambda>a. Inr ((EMULE, OP_AICHREQUEST, p), a)), evs')))"

end
