(* ===== verification/Peer_Transfer.thy ===== *)
theory Peer_Transfer
  imports Peer_Client Part_File
begin

text \<open>
  \<open>PeerClient.transfer\<close> of \<open>core/peer/client.py\<close>: request rounds of up to three ranges, and the receive
  loop that counts the bytes of a round. One step of the two nested loops is \<open>transfer_step\<close>; the
  call is the iteration of steps until it returns or raises, and the value \<open>None\<close> of a call that does
  neither. The last part composes the downloader with the upload session of the same program over the
  frames they exchange.
\<close>

section \<open>State\<close>

definition EMBLOCK_SIZE :: int where "EMBLOCK_SIZE = 184320"
definition OUTOFPART_MAX_RETRIES :: nat where "OUTOFPART_MAX_RETRIES = 5"

record download_outcome =
  oc_bytes_received :: nat
  oc_blocks_received :: nat
  oc_complete :: bool
  oc_detail :: string

text \<open>What the call is given: the callbacks that may raise return a statement, the others cannot end it.\<close>

record 'w peer_io =
  io_send :: "frame \<Rightarrow> 'w \<Rightarrow> 'w stmt"
  io_receive :: "'w \<Rightarrow> frame option res \<times> 'w"
  io_write_block :: "int \<Rightarrow> bytes \<Rightarrow> 'w \<Rightarrow> 'w stmt"
  io_progress :: "nat \<Rightarrow> int \<Rightarrow> nat \<Rightarrow> 'w \<Rightarrow> 'w"
  io_rank :: "nat \<Rightarrow> 'w \<Rightarrow> 'w"
  io_credit :: "nat \<Rightarrow> 'w \<Rightarrow> 'w"
  io_selector :: "('w \<Rightarrow> (int \<times> int) list res \<times> 'w) option"
  io_release :: "(int \<times> int) list \<Rightarrow> 'w \<Rightarrow> 'w"
  io_zlib :: zlib

record xfer =
  x_hash :: bytes
  x_total_size :: int
  x_max_blocks :: nat
  x_start_offset :: int
  x_end_offset :: "int option"

record 'w transfer =
  ts_received :: nat
  ts_blocks :: nat
  ts_expected :: int
  ts_selecting :: bool
  ts_pending :: "nat \<times> nat \<Rightarrow> (bytes \<times> bytes) option"
  ts_retries :: nat
  ts_issued :: "(int \<times> int) list"
  ts_client :: peer_client
  ts_world :: 'w

definition transfer_new :: "peer_client \<Rightarrow> 'w \<Rightarrow> 'w transfer" where
  "transfer_new c w = \<lparr>ts_received = 0, ts_blocks = 0, ts_expected = 0, ts_selecting = True, ts_pending = Map.empty,
     ts_retries = 0, ts_issued = [], ts_client = c, ts_world = w\<rparr>"

definition bound :: "xfer \<Rightarrow> int" where
  "bound x = (case x_end_offset x of None \<Rightarrow> x_total_size x | Some e \<Rightarrow> e)"

definition position_of :: "xfer \<Rightarrow> 'w transfer \<Rightarrow> int" where
  "position_of x s = x_start_offset x + int (ts_received s)"

datatype 'w tstep = Next "'w transfer" | Return download_outcome "'w transfer" | Raise exn "'w transfer"

definition outcome :: "xfer \<Rightarrow> string \<Rightarrow> 'w transfer \<Rightarrow> download_outcome" where
  "outcome x detail s = \<lparr>oc_bytes_received = ts_received s, oc_blocks_received = ts_blocks s,
     oc_complete = (position_of x s \<ge> bound x), oc_detail = detail\<rparr>"

definition return_outcome :: "'w peer_io \<Rightarrow> xfer \<Rightarrow> string \<Rightarrow> 'w transfer \<Rightarrow> 'w tstep" where
  "return_outcome io x detail s =
     Return (outcome x detail s) (s\<lparr>ts_world := io_credit io (ts_received s) (ts_world s)\<rparr>)"

definition raises :: "exn \<Rightarrow> 'w transfer \<Rightarrow> 'w tstep" where
  "raises e s = Raise e s"

section \<open>Requesting a round\<close>

definition pad_slots :: "(int \<times> int) list \<Rightarrow> (int \<times> int) list" where
  "pad_slots rs = rs @ replicate (3 - length rs) (0, 0)"

definition linear_slots :: "int \<Rightarrow> int \<Rightarrow> (int \<times> int) list" where
  "linear_slots pos bnd =
     map (\<lambda>off. (off, min (off + EMBLOCK_SIZE) bnd))
       (takeWhile (\<lambda>off. off < bnd) [pos, pos + EMBLOCK_SIZE, pos + 2 * EMBLOCK_SIZE])"

text \<open>The selector's inclusive ranges, cut to the region of this session and made exclusive.\<close>

definition clip_slots :: "int \<Rightarrow> int \<Rightarrow> (int \<times> int) list \<Rightarrow> (int \<times> int) list" where
  "clip_slots base bnd raw =
     concat (map (\<lambda>(rs, re). let s = max rs base; e = min re (bnd - 1) in if s \<le> e then [(s, e + 1)] else []) raw)"

definition request_frame :: "bytes \<Rightarrow> (int \<times> int) list \<Rightarrow> frame res" where
  "request_frame fh slots =
     (if list_ex (\<lambda>v. v > 0xFFFFFFFF) (map fst slots @ map snd slots)
      then bindE (build_request_parts_i64_payload fh (map fst slots) (map snd slots)) (\<lambda>p. Inr (EDONKEY, OP_REQUESTPARTS_I64, p))
      else bindE (build_request_parts_payload fh (map fst slots) (map snd slots)) (\<lambda>p. Inr (EDONKEY, OP_REQUESTPARTS, p)))"

definition round_bytes :: "(int \<times> int) list \<Rightarrow> int" where
  "round_bytes slots = sum_list (map (\<lambda>(s, e). if s < e then e - s else 0) slots)"

definition send_round :: "'w peer_io \<Rightarrow> xfer \<Rightarrow> (int \<times> int) list \<Rightarrow> 'w transfer \<Rightarrow> 'w tstep" where
  "send_round io x slots s =
     (case request_frame (x_hash x) slots of
        Inl e \<Rightarrow> raises e s
      | Inr f \<Rightarrow>
          (case io_send io f (ts_world s) of
             (w, Some e) \<Rightarrow> raises e (s\<lparr>ts_world := w\<rparr>)
           | (w, None) \<Rightarrow> Next (s\<lparr>ts_world := w, ts_expected := round_bytes slots, ts_selecting := False\<rparr>)))"

definition select_step :: "'w peer_io \<Rightarrow> xfer \<Rightarrow> 'w transfer \<Rightarrow> 'w tstep" where
  "select_step io x s =
     (if \<not> ts_blocks s < x_max_blocks x \<or> position_of x s \<ge> bound x then return_outcome io x ''transfer finished'' s
      else case io_selector io of
        Some f \<Rightarrow>
          (case f (ts_world s) of
             (Inl e, w) \<Rightarrow> raises e (s\<lparr>ts_world := w\<rparr>)
           | (Inr raw, w) \<Rightarrow>
             let s1 = s\<lparr>ts_world := w\<rparr> in
             if raw = [] then return_outcome io x ''transfer finished'' s1
             else send_round io x (pad_slots (clip_slots (x_start_offset x) (bound x) (take 3 raw)))
                    (s1\<lparr>ts_issued := ts_issued s1 @ take 3 raw\<rparr>))
      | None \<Rightarrow>
          (let slots = linear_slots (position_of x s) (bound x) in
           if slots = [] then return_outcome io x ''transfer finished'' s
           else send_round io x (pad_slots slots)
                  (s\<lparr>ts_issued := ts_issued s @ map (\<lambda>(a, b). (a, b - 1)) (filter (\<lambda>(a, b). a < b) (pad_slots slots))\<rparr>)))"

section \<open>Receiving a round\<close>

text \<open>A part that is complete is written, whatever file hash and range it names.\<close>

definition accept_part :: "'w peer_io \<Rightarrow> xfer \<Rightarrow> sending_part \<Rightarrow> 'w transfer \<Rightarrow> 'w tstep" where
  "accept_part io x part s =
     (case io_write_block io (int (sp_start part)) (sp_data part) (ts_world s) of
        (w, Some e) \<Rightarrow> raises e (s\<lparr>ts_world := w\<rparr>)
      | (w, None) \<Rightarrow>
          let n = length (sp_data part); r = ts_received s + n; b = ts_blocks s + 1 in
          Next (s\<lparr>ts_received := r, ts_blocks := b, ts_expected := ts_expected s - int n,
                  ts_world := io_progress io r (x_total_size x) b w\<rparr>))"

definition part_or_raise :: "'w peer_io \<Rightarrow> xfer \<Rightarrow> sending_part res \<Rightarrow> 'w transfer \<Rightarrow> 'w tstep" where
  "part_or_raise io x r s = (case r of Inl e \<Rightarrow> raises e s | Inr part \<Rightarrow> accept_part io x part s)"

text \<open>The sub-packets of a compressed block are joined under the block's start and total size.\<close>

definition accept_chunk :: "'w peer_io \<Rightarrow> xfer \<Rightarrow> (bytes \<times> nat \<times> nat \<times> bytes) res \<Rightarrow> 'w transfer \<Rightarrow> 'w tstep" where
  "accept_chunk io x r s =
     (case r of
        Inl e \<Rightarrow> raises e s
      | Inr (h, start, total_comp, chunk) \<Rightarrow>
          let key = (start, total_comp);
              slot = (case ts_pending s key of None \<Rightarrow> (h, []) | Some hb \<Rightarrow> hb);
              buf = snd slot @ chunk in
          if length buf < total_comp then Next (s\<lparr>ts_pending := (ts_pending s)(key \<mapsto> (fst slot, buf))\<rparr>)
          else
            let s1 = s\<lparr>ts_pending := (ts_pending s)(key := None)\<rparr> in
            (case z_decompress (io_zlib io) buf of
               Inl e \<Rightarrow> raises (if e = ZlibError then PeerSessionError else e) s1
             | Inr data \<Rightarrow>
                 accept_part io x \<lparr>sp_hash = fst slot, sp_start = start, sp_end = start + length data, sp_data = data\<rparr> s1))"

definition accept_frame :: "'w peer_io \<Rightarrow> xfer \<Rightarrow> frame \<Rightarrow> 'w transfer \<Rightarrow> 'w tstep" where
  "accept_frame io x f s = (case f of (protocol, opcode, payload) \<Rightarrow>
     if protocol \<noteq> EDONKEY \<and> protocol \<noteq> EMULE then Next s
     else if opcode = OP_SENDINGPART then part_or_raise io x (parse_sending_part payload) s
     else if opcode = OP_SENDINGPART_I64 then part_or_raise io x (parse_sending_part_i64 payload) s
     else if opcode = OP_COMPRESSEDPART then accept_chunk io x (parse_compressed_part_chunk payload) s
     else if opcode = OP_COMPRESSEDPART_I64 then accept_chunk io x (parse_compressed_part_chunk_i64 payload) s
     else if opcode = OP_END_OF_DOWNLOAD then Next (s\<lparr>ts_expected := 0\<rparr>)
     else if opcode = OP_OUTOFPARTREQS then
       (let s1 = s\<lparr>ts_retries := ts_retries s + 1\<rparr> in
        if ts_retries s1 > OUTOFPART_MAX_RETRIES then return_outcome io x ''peer has no more parts'' s1
        else Next (s1\<lparr>ts_expected := 0\<rparr>))
     else if opcode = OP_QUEUERANK then
       (case parse_queue_rank payload of
          Inl e \<Rightarrow> raises e s
        | Inr rank \<Rightarrow> return_outcome io x ''moved back to queue'' (s\<lparr>ts_world := io_rank io rank (ts_world s)\<rparr>))
     else
       (case capture_file_status protocol opcode payload (ts_client s) of
          (True, c) \<Rightarrow> Next (s\<lparr>ts_client := c\<rparr>)
        | (False, c) \<Rightarrow>
            (case collect_answer_sources protocol opcode payload c of
               Inl e \<Rightarrow> raises e s
             | Inr (_, c') \<Rightarrow> Next (s\<lparr>ts_client := c'\<rparr>))))"

definition receive_step :: "'w peer_io \<Rightarrow> xfer \<Rightarrow> 'w transfer \<Rightarrow> 'w tstep" where
  "receive_step io x s =
     (if ts_expected s \<le> 0 then Next (s\<lparr>ts_selecting := True\<rparr>)
      else case io_receive io (ts_world s) of
        (Inl e, w) \<Rightarrow> raises e (s\<lparr>ts_world := w\<rparr>)
      | (Inr None, w) \<Rightarrow> return_outcome io x ''idle timeout while transferring'' (s\<lparr>ts_world := w\<rparr>)
      | (Inr (Some f), w) \<Rightarrow> accept_frame io x f (s\<lparr>ts_world := w\<rparr>))"

definition transfer_step :: "'w peer_io \<Rightarrow> xfer \<Rightarrow> 'w transfer \<Rightarrow> 'w tstep" where
  "transfer_step io x s = (if ts_selecting s then select_step io x s else receive_step io x s)"

text \<open>The \<open>finally\<close> block gives back every range that was issued.\<close>

definition finally_release :: "'w peer_io \<Rightarrow> 'w transfer \<Rightarrow> 'w transfer" where
  "finally_release io s =
     (if ts_issued s = [] then s else s\<lparr>ts_world := io_release io (ts_issued s) (ts_world s)\<rparr>)"

partial_function (option) transfer_loop :: "'w peer_io \<Rightarrow> xfer \<Rightarrow> 'w transfer \<Rightarrow> (download_outcome res \<times> 'w transfer) option" where
  "transfer_loop io x s =
     (case transfer_step io x s of
        Next s' \<Rightarrow> transfer_loop io x s'
      | Return out s' \<Rightarrow> Some (Inr out, finally_release io s')
      | Raise e s' \<Rightarrow> Some (Inl e, finally_release io s'))"

definition run_transfer :: "'w peer_io \<Rightarrow> xfer \<Rightarrow> peer_client \<Rightarrow> 'w \<Rightarrow> (download_outcome res \<times> 'w transfer) option" where
  "run_transfer io x c w = transfer_loop io x (transfer_new c w)"

section \<open>A transfer from a peer that answers\<close>

lemma slice_split:
  assumes "d @ e = py_slice p (p + length (d @ e)) c"
  shows "d = py_slice p (p + length d) c" and "e = py_slice (p + length d) (p + length d + length e) c"
proof -
  have "take (length d) (py_slice p (p + length (d @ e)) c) = py_slice p (p + length d) c"
    by (simp add: py_slice_take_drop)
  then show "d = py_slice p (p + length d) c" using assms by (metis append_eq_conv_conj)
  have "drop (length d) (py_slice p (p + length (d @ e)) c) = py_slice (p + length d) (p + length d + length e) c"
    unfolding py_slice_take_drop length_append by (simp add: drop_take add.commute)
  then show "e = py_slice (p + length d) (p + length d + length e) c" using assms by (metis append_eq_conv_conj)
qed

lemma loop_Next: "transfer_step io x s = Next s' \<Longrightarrow> transfer_loop io x s = transfer_loop io x s'"
  by (subst transfer_loop.simps) simp

lemma loop_Return: "transfer_step io x s = Return out s' \<Longrightarrow> transfer_loop io x s = Some (Inr out, finally_release io s')"
  by (subst transfer_loop.simps) simp

lemma linear_slots_cases:
  assumes "pos < b"
  shows "linear_slots pos b \<noteq> []" and "round_bytes (pad_slots (linear_slots pos b)) = min (pos + 552960) b - pos"
  using assms by (auto simp: linear_slots_def pad_slots_def round_bytes_def EMBLOCK_SIZE_def numeral_3_eq_3)

text \<open>
  The peer of a download, as the downloader relies on it: \<open>ready w fs m\<close> is a world in which the frames
  \<open>fs\<close> are on their way, in order, and the bytes of \<open>m\<close> are not stored yet. What arrives is received
  in order; a block of the content can be written, and is then stored; the answer to a request for
  the next ranges carries the content there.
\<close>

locale serving_peer =
  fixes io :: "'w peer_io" and c :: bytes and fh :: bytes
    and ready :: "'w \<Rightarrow> frame list \<Rightarrow> int set \<Rightarrow> bool"
  assumes receive: "ready w (f # fs) m \<Longrightarrow> \<exists>w'. io_receive io w = (Inr (Some f), w') \<and> ready w' fs m"
    and store: "ready w fs m \<Longrightarrow> d = py_slice p (p + length d) c \<Longrightarrow> p + length d \<le> length c \<Longrightarrow>
       \<exists>w'. io_write_block io (int p) d w = (w', None) \<and> ready w' fs (m - {int p..<int (p + length d)})"
    and callbacks: "ready w fs m \<Longrightarrow> ready (io_progress io i j k w) fs m"
      "ready w fs m \<Longrightarrow> ready (io_credit io i w) fs m" "ready w fs m \<Longrightarrow> ready (io_release io rs w) fs m"
    and request: "ready w [] m \<Longrightarrow> pos < b \<Longrightarrow> b \<le> length c \<Longrightarrow>
       \<exists>f w' fs n. request_frame fh (pad_slots (linear_slots (int pos) (int b))) = Inr f \<and> io_send io f w = (w', None) \<and>
         ready w' fs m \<and> carries (io_zlib io) pos (py_slice pos (min (pos + 552960) b) c) fs n \<and>
         n * 10240 < min (pos + 552960) b - pos + 10240"
    and linear: "io_selector io = None"
begin

definition receiving :: "'w transfer \<Rightarrow> nat \<Rightarrow> nat \<Rightarrow> int \<Rightarrow> frame list \<Rightarrow> int set \<Rightarrow> bool" where
  "receiving s r bl e fs m \<longleftrightarrow> \<not> ts_selecting s \<and> ts_received s = r \<and> ts_blocks s = bl \<and> ts_expected s = e \<and>
     ts_pending s = Map.empty \<and> ready (ts_world s) fs m"

lemma receive_frame:
  assumes "\<not> ts_selecting s" and "0 < ts_expected s" and "ready (ts_world s) (f # fs) m"
  shows "\<exists>w. transfer_step io x s = accept_frame io x f (s\<lparr>ts_world := w\<rparr>) \<and> ready w fs m"
  using receive [OF assms(3)] assms(1,2) by (auto simp: transfer_step_def receive_step_def)

lemma accept_part_stores:
  assumes r: "ready (ts_world s) fs m" and d: "sp_data part = py_slice p (p + length (sp_data part)) c"
    and p: "sp_start part = p" "p + length (sp_data part) \<le> length c"
  shows "\<exists>w. accept_part io x part s = Next (s\<lparr>ts_received := ts_received s + length (sp_data part), ts_blocks := ts_blocks s + 1,
      ts_expected := ts_expected s - int (length (sp_data part)), ts_world := w\<rparr>) \<and>
      ready w fs (m - {int p..<int (p + length (sp_data part))})"
  using store [OF r d p(2)] callbacks(1) by (auto simp: accept_part_def p(1) Let_def)

lemma receive_chunks:
  assumes "list_all2 (chunk_frame h a t) cs gs" and "cs \<noteq> []" and "[] \<notin> set cs" and "length buf + length (concat cs) = t"
    and "z_decompress (io_zlib io) (buf @ concat cs) = Inr d"
    and "\<not> ts_selecting s" "ts_expected s = e" "0 < e" "ts_received s = r" "ts_blocks s = bl"
    and "ts_pending s = (if buf = [] then Map.empty else [(a, t) \<mapsto> (h, buf)])"
    and "ready (ts_world s) (gs @ fs) m" and "d = py_slice a (a + length d) c" "a + length d \<le> length c"
  shows "\<exists>s'. transfer_loop io x s = transfer_loop io x s' \<and>
     receiving s' (r + length d) (bl + 1) (e - int (length d)) fs (m - {int a..<int (a + length d)})"
  using assms
proof (induction cs arbitrary: gs buf s)
  case Nil
  then show ?case by simp
next
  case (Cons k ks)
  from Cons.prems(1) obtain g gs' where gs: "gs = g # gs'" and g: "chunk_frame h a t k g"
    and l: "list_all2 (chunk_frame h a t) ks gs'" by (auto simp: list_all2_Cons1)
  obtain w where w: "transfer_step io x s = accept_frame io x g (s\<lparr>ts_world := w\<rparr>)" "ready w (gs' @ fs) m"
    using receive_frame [OF Cons.prems(6), of g "gs' @ fs" m x] Cons.prems(7,8,12) gs by auto
  have chunk: "accept_frame io x g s1 = accept_chunk io x (Inr (h, a, t, k)) s1" for s1
    using g by (cases g) (auto simp: chunk_frame_def accept_frame_def opcode_defs EDONKEY_def EMULE_def)
  have slot: "(case ts_pending s (a, t) of None \<Rightarrow> (h, []) | Some hb \<Rightarrow> hb) = (h, buf)"
    using Cons.prems(11) by simp
  show ?case
  proof (cases "ks = []")
    case False
    then have lt: "length (buf @ k) < t" using Cons.prems(3,4) by (cases ks) auto
    define s1 where "s1 = s\<lparr>ts_world := w, ts_pending := [(a, t) \<mapsto> (h, buf @ k)]\<rparr>"
    have "transfer_step io x s = Next s1"
      using w(1) lt slot Cons.prems(11) by (simp add: chunk accept_chunk_def Let_def s1_def)
    then have loop: "transfer_loop io x s = transfer_loop io x s1" by (rule loop_Next)
    have ne: "buf @ k \<noteq> []" using Cons.prems(3) by auto
    show ?thesis unfolding loop
      by (rule Cons.IH [OF l False, of "buf @ k"]) (use Cons.prems ne w(2) in \<open>auto simp: s1_def\<close>)
  next
    case True
    then have len: "length (buf @ k) = t" and dec: "z_decompress (io_zlib io) (buf @ k) = Inr d"
      using Cons.prems(4,5) by simp_all
    have gs': "gs' = []" using l True by simp
    define s1 where "s1 = s\<lparr>ts_world := w, ts_pending := Map.empty\<rparr>"
    have clr: "(ts_pending s)((a, t) := None) = Map.empty" using Cons.prems(11) by auto
    have "transfer_step io x s = accept_part io x \<lparr>sp_hash = h, sp_start = a, sp_end = a + length d, sp_data = d\<rparr> s1"
      using w(1) len dec slot clr by (simp add: chunk accept_chunk_def Let_def s1_def)
    moreover obtain w' where "accept_part io x \<lparr>sp_hash = h, sp_start = a, sp_end = a + length d, sp_data = d\<rparr> s1 =
        Next (s1\<lparr>ts_received := r + length d, ts_blocks := bl + 1, ts_expected := e - int (length d), ts_world := w'\<rparr>)"
      "ready w' fs (m - {int a..<int (a + length d)})"
      using accept_part_stores [of s1 fs m "\<lparr>sp_hash = h, sp_start = a, sp_end = a + length d, sp_data = d\<rparr>" a x]
        Cons.prems(7,9,10,13,14) w(2) gs' by (auto simp: s1_def)
    ultimately show ?thesis using loop_Next [of io x s] Cons.prems(6)
      by (intro exI [of _ "s1\<lparr>ts_received := r + length d, ts_blocks := bl + 1, ts_expected := e - int (length d), ts_world := w'\<rparr>"])
        (simp add: receiving_def s1_def)
  qed
qed

lemma receive_parts:
  assumes "carries (io_zlib io) p d fs n" and "receiving s r bl e (fs @ gs) m" and "int (length d) \<le> e"
    and "d = py_slice p (p + length d) c" and "p + length d \<le> length c"
  shows "\<exists>s'. transfer_loop io x s = transfer_loop io x s' \<and>
     receiving s' (r + length d) (bl + n) (e - int (length d)) gs (m - {int p..<int (p + length d)})"
  using assms
proof (induction arbitrary: s r bl e m rule: carries.induct)
  case (carries_nil a)
  then show ?case by (intro exI [of _ s]) simp
next
  case (carries_part f part a ds fs n)
  let ?d = "sp_data part"
  note sl = slice_split [OF carries_part.prems(3)]
  have e: "0 < e" using carries_part.prems(2) carries_part.hyps(3) by (cases ?d) auto
  obtain w where w: "transfer_step io x s = accept_frame io x f (s\<lparr>ts_world := w\<rparr>)" "ready w (fs @ gs) m"
    using receive_frame [of s f "fs @ gs" m x] carries_part.prems(1) e by (auto simp: receiving_def)
  have "accept_frame io x f s1 = accept_part io x part s1" for s1
    using carries_part.hyps(1)
    by (cases f) (auto simp: part_frame_def accept_frame_def part_or_raise_def opcode_defs EDONKEY_def EMULE_def)
  moreover obtain w' where w': "accept_part io x part (s\<lparr>ts_world := w\<rparr>) =
      Next (s\<lparr>ts_received := r + length ?d, ts_blocks := bl + 1, ts_expected := e - int (length ?d), ts_world := w'\<rparr>)"
    "ready w' (fs @ gs) (m - {int a..<int (a + length ?d)})"
    using accept_part_stores [of "s\<lparr>ts_world := w\<rparr>" "fs @ gs" m part a x] sl(1) carries_part.hyps(2)
      carries_part.prems(1,4) w(2) by (auto simp: receiving_def)
  ultimately have loop: "transfer_loop io x s = transfer_loop io x
      (s\<lparr>ts_received := r + length ?d, ts_blocks := bl + 1, ts_expected := e - int (length ?d), ts_world := w'\<rparr>)"
    using w(1) loop_Next by simp
  have st: "receiving (s\<lparr>ts_received := r + length ?d, ts_blocks := bl + 1, ts_expected := e - int (length ?d), ts_world := w'\<rparr>)
      (r + length ?d) (bl + 1) (e - int (length ?d)) (fs @ gs) (m - {int a..<int (a + length ?d)})"
    using carries_part.prems(1) w'(2) by (simp add: receiving_def)
  have le: "int (length ds) \<le> e - int (length ?d)" "a + length ?d + length ds \<le> length c"
    using carries_part.prems(2,4) by auto
  have un: "m - {int a..<int (a + length ?d)} - {int (a + length ?d)..<int (a + length ?d + length ds)} =
      m - {int a..<int (a + length (?d @ ds))}" by auto
  have ex: "e - int (length ?d) - int (length ds) = e - int (length (?d @ ds))" by simp
  from carries_part.IH [OF st le(1) sl(2) le(2)] show ?case
    unfolding loop un ex by (simp add: ac_simps)
next
  case (carries_zip h a cs gs' d ds fs n)
  note sl = slice_split [OF carries_zip.prems(3)]
  have e: "0 < e" using carries_zip.prems(2) carries_zip.hyps(5) by (cases d) auto
  have "\<exists>s1. transfer_loop io x s = transfer_loop io x s1 \<and>
     receiving s1 (r + length d) (bl + 1) (e - int (length d)) (fs @ gs) (m - {int a..<int (a + length d)})"
    by (rule receive_chunks [OF carries_zip.hyps(1-3), where buf = "[]"])
      (use carries_zip.hyps(4) carries_zip.prems(1,4) e sl(1) in \<open>auto simp: receiving_def\<close>)
  then obtain s1 where loop: "transfer_loop io x s = transfer_loop io x s1"
    and st: "receiving s1 (r + length d) (bl + 1) (e - int (length d)) (fs @ gs) (m - {int a..<int (a + length d)})" by blast
  have le: "int (length ds) \<le> e - int (length d)" "a + length d + length ds \<le> length c"
    using carries_zip.prems(2,4) by auto
  have un: "m - {int a..<int (a + length d)} - {int (a + length d)..<int (a + length d + length ds)} =
      m - {int a..<int (a + length (d @ ds))}" by auto
  have ex: "e - int (length d) - int (length ds) = e - int (length (d @ ds))" by simp
  from carries_zip.IH [OF st le(1) sl(2) le(2)] show ?case
    unfolding loop un ex by (simp add: ac_simps)
qed

definition choosing :: "'w transfer \<Rightarrow> nat \<Rightarrow> nat \<Rightarrow> int set \<Rightarrow> bool" where
  "choosing s r bl m \<longleftrightarrow> ts_selecting s \<and> ts_received s = r \<and> ts_blocks s = bl \<and> ts_pending s = Map.empty \<and>
     ready (ts_world s) [] m"

lemma transfer_round:
  assumes st: "choosing s r bl m" and x: "x_hash x = fh" "x_start_offset x = int a" "bound x = int b"
    and pos: "a + r < b" "b \<le> length c" and bl: "bl < x_max_blocks x" and e: "e = min (a + r + 552960) b"
  shows "\<exists>s' n. transfer_loop io x s = transfer_loop io x s' \<and> n * 10240 < e - (a + r) + 10240 \<and>
     choosing s' (e - a) (bl + n) (m - {int (a + r)..<int e})"
proof -
  have p: "position_of x s = int (a + r)" using st x(2) by (simp add: position_of_def choosing_def)
  obtain f w' fs n where f: "request_frame fh (pad_slots (linear_slots (int (a + r)) (int b))) = Inr f"
    and snd: "io_send io f (ts_world s) = (w', None)" and rd: "ready w' fs m"
    and car: "carries (io_zlib io) (a + r) (py_slice (a + r) e c) fs n" and n: "n * 10240 < e - (a + r) + 10240"
    using request [of "ts_world s" m "a + r" b] st pos e by (auto simp: choosing_def)
  define d where "d = py_slice (a + r) e c"
  have ld: "length d = e - (a + r)" "a + r < e" "e \<le> b" using pos e by (auto simp: d_def)
  obtain iss where step: "transfer_step io x s =
      Next (s\<lparr>ts_issued := iss, ts_world := w', ts_expected := int (length d), ts_selecting := False\<rparr>)"
  proof -
    have lt: "int (a + r) < int b" using pos by simp
    have "round_bytes (pad_slots (linear_slots (int (a + r)) (int b))) = int (length d)"
      using linear_slots_cases(2) [OF lt] ld e pos by (simp add: of_nat_diff)
    then show ?thesis using that st bl lt linear_slots_cases(1) [OF lt] f snd
      by (simp add: transfer_step_def select_step_def p x linear Let_def send_round_def choosing_def)
  qed
  define s1 where "s1 = s\<lparr>ts_issued := iss, ts_world := w', ts_expected := int (length d), ts_selecting := False\<rparr>"
  have s1: "receiving s1 r bl (int (length d)) (fs @ []) m"
    using st rd by (simp add: receiving_def s1_def choosing_def)
  have sl: "d = py_slice (a + r) (a + r + length d) c" using ld by (simp add: d_def)
  have le: "a + r + length d \<le> length c" using ld pos by simp
  obtain s2 where s2: "transfer_loop io x s1 = transfer_loop io x s2"
    "receiving s2 (r + length d) (bl + n) (int (length d) - int (length d)) [] (m - {int (a + r)..<int (a + r + length d)})"
    using receive_parts [OF car [folded d_def] s1 order.refl sl le, of x] by blast
  have step2: "transfer_step io x s2 = Next (s2\<lparr>ts_selecting := True\<rparr>)"
    using s2(2) by (simp add: receiving_def transfer_step_def receive_step_def)
  have "transfer_loop io x s = transfer_loop io x (s2\<lparr>ts_selecting := True\<rparr>)"
    using loop_Next [OF step] s2(1) loop_Next [OF step2] unfolding s1_def by (simp only:)
  moreover have "r + length d = e - a" "a + r + length d = e" using ld by auto
  ultimately show ?thesis using s2(2) n
    by (intro exI [of _ "s2\<lparr>ts_selecting := True\<rparr>"] exI [of _ n]) (simp add: receiving_def choosing_def)
qed

lemma transfer_completes:
  assumes "choosing s r bl m" and "bl * 10240 < r + 10240" and "r mod 552960 = 0 \<or> a + r = b" and "a + r \<le> b"
    and x: "x_hash x = fh" "x_start_offset x = int a" "bound x = int b"
    and b: "b \<le> length c" "b - a \<le> 10240 * x_max_blocks x"
  shows "\<exists>out s'. transfer_loop io x s = Some (Inr out, s') \<and> oc_complete out \<and> oc_bytes_received out = b - a \<and>
     ready (ts_world s') [] (m - {int (a + r)..<int b})"
  using assms(1-4)
proof (induction "b - (a + r)" arbitrary: s r bl m rule: less_induct)
  case less
  have p: "position_of x s = int (a + r)" using less.prems(1) x(2) by (simp add: position_of_def choosing_def)
  show ?case
  proof (cases "a + r = b")
    case True
    define w where "w = io_credit io (ts_received s) (ts_world s)"
    have "transfer_step io x s = Return (outcome x ''transfer finished'' s) (s\<lparr>ts_world := w\<rparr>)"
      using less.prems(1) True by (simp add: transfer_step_def select_step_def p x return_outcome_def choosing_def w_def)
    moreover have "ready w [] m" using less.prems(1) callbacks by (simp add: choosing_def w_def)
    moreover have "m - {int (a + r)..<int b} = m" using True by simp
    moreover have "r = b - a" using True by simp
    ultimately show ?thesis using loop_Return [of io x s] less.prems(1) p callbacks(3) True
      by (simp add: outcome_def x finally_release_def choosing_def)
  next
    case False
    have pos: "a + r < b" using False less.prems(4) by simp
    obtain k where k: "r = 552960 * k" using less.prems(3) False by (metis mod_0_imp_dvd dvdE)
    have "bl * 10240 < (54 * k + 1) * 10240" using less.prems(2) k by simp
    then have "bl < 54 * k + 1" by (simp only: mult_less_cancel2)
    then have blr: "bl * 10240 \<le> r" using k by simp
    have bl: "bl < x_max_blocks x"
    proof (rule ccontr)
      assume "\<not> bl < x_max_blocks x"
      then have "10240 * x_max_blocks x \<le> bl * 10240" by simp
      then show False using blr b(2) pos by linarith
    qed
    define e where "e = min (a + r + 552960) b"
    obtain s1 n where s1: "transfer_loop io x s = transfer_loop io x s1" "n * 10240 < e - (a + r) + 10240"
      "choosing s1 (e - a) (bl + n) (m - {int (a + r)..<int e})"
      using transfer_round [OF less.prems(1) x pos b(1) bl e_def] by blast
    have e: "a + r < e" "e \<le> b" using pos by (auto simp: e_def)
    have 1: "b - (a + (e - a)) < b - (a + r)" using e pos by auto
    have 2: "(bl + n) * 10240 < (e - a) + 10240" using s1(2) blr e by (simp add: distrib_right)
    have 3: "(e - a) mod 552960 = 0 \<or> a + (e - a) = b"
    proof (cases "a + r + 552960 \<le> b")
      case True
      then have "e - a = 552960 * (k + 1)" using k by (simp add: e_def)
      then have "(e - a) mod 552960 = 0" by (simp only: mod_mult_self1_is_0)
      then show ?thesis ..
    next
      case False
      then show ?thesis using pos by (simp add: e_def)
    qed
    have 4: "a + (e - a) \<le> b" using e by simp
    have un: "m - {int (a + r)..<int e} - {int (a + (e - a))..<int b} = m - {int (a + r)..<int b}" using e by auto
    from less.hyps [OF 1 s1(3) 2 3 4] show ?thesis unfolding s1(1) un .
  qed
qed

end

section \<open>The two sides of the program\<close>

text \<open>
  A downloader whose peer is an upload session of this program: every frame it sends is put on the
  wire, read by the session's transport and answered at once; the answer travels back as bytes. The
  received blocks go to the part file.
\<close>

record 'q node =
  nd_engine :: "'q up_session"
  nd_alive :: bool
  nd_down :: link
  nd_part :: "part_file \<times> disk"

definition peer_transport :: transport where
  "peer_transport = \<lparr>tr_protocol = EDONKEY, tr_allow_emule = True\<rparr>"

definition hang_up :: "'q node \<Rightarrow> 'q node" where
  "hang_up w = w\<lparr>nd_alive := False, nd_down := (nd_down w)\<lparr>lk_eof := True\<rparr>\<rparr>"

definition answer_frames :: "'q up_session \<Rightarrow> 'q up_session \<Rightarrow> bytes list res" where
  "answer_frames s s' = mapE (\<lambda>(protocol, opcode, payload). transport_send peer_transport (Some protocol) opcode payload)
     (drop (length (us_out s)) (us_out s'))"

definition node_serve :: "'q up_env \<Rightarrow> int \<Rightarrow> bytes \<Rightarrow> 'q node \<Rightarrow> 'q node" where
  "node_serve env opcode payload w =
     (case engine_step env opcode payload (nd_engine w) of
        (s', v) \<Rightarrow>
          (case answer_frames (nd_engine w) s' of
             Inl e \<Rightarrow> hang_up w
           | Inr ws \<Rightarrow>
               let w' = w\<lparr>nd_engine := s', nd_down := (nd_down w)\<lparr>lk_in := lk_in (nd_down w) @ concat ws\<rparr>\<rparr> in
               if v = Going then w' else hang_up w'))"

definition node_send :: "'q up_env \<Rightarrow> frame \<Rightarrow> 'q node \<Rightarrow> 'q node stmt" where
  "node_send env f w =
     or_raise (frame_wire f) w (\<lambda>wire.
       if \<not> nd_alive w then (w, None)
       else case transport_recv peer_transport \<lparr>lk_in = wire, lk_eof = False, lk_connected = True\<rparr> of
         (Inr (Some (protocol, opcode, payload)), l) \<Rightarrow> (node_serve env opcode payload w, None)
       | (r, l) \<Rightarrow> (hang_up w, None))"

definition node_receive :: "'q node \<Rightarrow> frame option res \<times> 'q node" where
  "node_receive w = (case client_receive False (nd_down w) of (r, l) \<Rightarrow> (r, w\<lparr>nd_down := l\<rparr>))"

definition node_write :: "int \<Rightarrow> bytes \<Rightarrow> 'q node \<Rightarrow> 'q node stmt" where
  "node_write start data w =
     (case write_block start data (nd_part w) of
        Inl e \<Rightarrow> (w, Some e) | Inr (n, p, k) \<Rightarrow> (w\<lparr>nd_part := (p, k)\<rparr>, None))"

definition node_io :: "'q up_env \<Rightarrow> 'q node peer_io" where
  "node_io env = \<lparr>io_send = node_send env, io_receive = node_receive, io_write_block = node_write,
     io_progress = (\<lambda>r t b w. w), io_rank = (\<lambda>r w. w), io_credit = (\<lambda>r w. w), io_selector = None,
     io_release = (\<lambda>rs w. w), io_zlib = ue_zlib env\<rparr>"

subsection \<open>Frames survive the wire\<close>

definition wire_of :: "frame \<Rightarrow> bytes" where
  "wire_of f = (case f of (protocol, opcode, payload) \<Rightarrow>
     [word_of_int protocol] @ le_enc 4 (length payload + 1) @ [word_of_int opcode] @ payload)"

definition wire_frame :: "frame \<Rightarrow> bool" where
  "wire_frame f \<longleftrightarrow> (case f of (protocol, opcode, payload) \<Rightarrow>
     0 \<le> protocol \<and> protocol < 256 \<and> 0 \<le> opcode \<and> opcode < 256 \<and> length payload < MAX_PACKET_SIZE)"

lemma small_wire_frame: "small_frame f \<Longrightarrow> wire_frame f"
  by (auto simp: small_frame_def wire_frame_def EDONKEY_def MAX_PACKET_SIZE_def)

lemma frame_wire_eq: "wire_frame f \<Longrightarrow> frame_wire f = Inr (wire_of f)"
  by (auto simp: frame_wire_def wire_frame_def wire_of_def MAX_PACKET_SIZE_def)

lemma wire_header:
  assumes "wire_frame (protocol, opcode, payload)"
  defines "w \<equiv> wire_of (protocol, opcode, payload)"
  shows "\<not> length (w @ r) < 6" and "uint (take 6 (w @ r) ! 0) = protocol" and "uint (take 6 (w @ r) ! 5) = opcode"
    and "le_dec (py_slice 1 5 (take 6 (w @ r))) = length payload + 1" and "drop 6 (w @ r) = payload @ r"
proof -
  define e where "e = le_enc 4 (length payload + 1)"
  have "length payload + 1 < 256 ^ 4" using assms(1) by (simp add: wire_frame_def MAX_PACKET_SIZE_def)
  then have e: "le_dec e = length payload + 1" "length e = 4" unfolding e_def by (simp_all only: le_dec_le_enc length_le_enc)
  have w: "w = word_of_int protocol # e @ word_of_int opcode # payload" by (simp add: w_def wire_of_def e_def)
  have b: "uint (word_of_int protocol :: byte) = protocol" "uint (word_of_int opcode :: byte) = opcode"
    using assms(1) uint_byte_of_int by (simp_all add: wire_frame_def)
  have t: "take 6 (w @ r) = word_of_int protocol # e @ [word_of_int opcode]" using e(2) by (simp add: w)
  show "\<not> length (w @ r) < 6" using e(2) by (simp add: w)
  show "uint (take 6 (w @ r) ! 0) = protocol" "uint (take 6 (w @ r) ! 5) = opcode"
    unfolding t using e(2) b by (simp_all add: nth_Cons' nth_append)
  show "le_dec (py_slice 1 5 (take 6 (w @ r))) = length payload + 1" unfolding t using e by (simp add: py_slice_def)
  show "drop 6 (w @ r) = payload @ r" using e(2) by (simp add: w)
qed

lemma client_receive_wire:
  assumes "wire_frame f" and "lk_in l = wire_of f @ r" and "lk_connected l"
  shows "client_receive b l = (Inr (Some f), l\<lparr>lk_in := r\<rparr>)"
proof -
  obtain protocol opcode payload where f: "f = (protocol, opcode, payload)" by (cases f)
  note h = wire_header [OF assms(1) [unfolded f], of r]
  have m: "length payload \<le> MAX_PACKET_SIZE" using assms(1) by (simp add: wire_frame_def f)
  show ?thesis unfolding client_receive_def Let_def assms(2) f h(2-5) using h(1) assms(3) m by simp
qed

lemma transport_recv_wire:
  assumes "wire_frame (protocol, opcode, payload)" and "lk_in l = wire_of (protocol, opcode, payload) @ r"
    and "protocol = tr_protocol t \<or> tr_allow_emule t \<and> protocol = EMULE"
  shows "transport_recv t l = (Inr (Some (protocol, opcode, payload)), l\<lparr>lk_in := r\<rparr>)"
proof -
  note h = wire_header [OF assms(1), of r]
  have m: "length payload \<le> MAX_PACKET_SIZE" using assms(1) by (simp add: wire_frame_def)
  show ?thesis unfolding transport_recv_def Let_def assms(2) h(2-5) using h(1) assms(3) m by auto
qed

lemma transport_send_wire:
  "wire_frame (protocol, opcode, payload) \<Longrightarrow>
     transport_send t (Some protocol) opcode payload = Inr (wire_of (protocol, opcode, payload))"
  using frame_wire_eq [of "(protocol, opcode, payload)"] by (auto simp: transport_send_def wire_frame_def)

subsection \<open>The answer to a request for the next ranges\<close>

definition pair_int :: "nat \<times> nat \<Rightarrow> int \<times> int" where
  "pair_int p = (int (fst p), int (snd p))"

definition pair_nat :: "int \<times> int \<Rightarrow> nat \<times> nat" where
  "pair_nat p = (nat (fst p), nat (snd p))"

text \<open>Ranges one behind the other from \<open>a\<close> to \<open>e\<close>, all but the last of a full block.\<close>

fun chain :: "nat \<Rightarrow> (nat \<times> nat) list \<Rightarrow> nat \<Rightarrow> bool" where
  "chain a [] e = (a = e)"
| "chain a ((s, t) # rs) e = (s = a \<and> a < t \<and> (rs = [] \<and> t - a \<le> 184320 \<or> t - a = 184320) \<and> chain t rs e)"

lemma chain_le: "chain a rs e \<Longrightarrow> a \<le> e"
  by (induction rs arbitrary: a) force+

lemma chain_carries:
  assumes "chain a rs e" and "list_all2 (serves_window z c) (map pair_int rs) gs" and "e \<le> length c"
  shows "\<exists>n. carries z a (py_slice a e c) (concat gs) n \<and> n * 10240 < e - a + 10240"
  using assms
proof (induction rs arbitrary: a gs)
  case Nil
  then show ?case by (auto simp: py_slice_def intro!: exI [of _ 0] carries_nil)
next
  case (Cons r rs)
  obtain t where r: "r = (a, t)" and at: "a < t" "rs = [] \<and> t - a \<le> 184320 \<or> t - a = 184320" and ch: "chain t rs e"
    using Cons.prems(1) by (cases r) auto
  from Cons.prems(2) obtain g gs' where gs: "gs = g # gs'" and g: "serves_window z c (pair_int r) g"
    and l: "list_all2 (serves_window z c) (map pair_int rs) gs'" by (auto simp: list_all2_Cons1)
  from g obtain n where n: "carries z a (py_slice a t c) g n" "n * 10240 < t - a + 10240"
    by (auto simp: serves_window_def r pair_int_def simp flip: of_nat_diff)
  from Cons.IH [OF ch l Cons.prems(3)] obtain k where k: "carries z t (py_slice t e c) (concat gs') k"
    "k * 10240 < e - t + 10240" by blast
  note te = chain_le [OF ch]
  have "t \<le> length c" using te Cons.prems(3) by simp
  then have len: "a + length (py_slice a t c) = t" using at by simp
  have app: "py_slice a t c @ py_slice t e c = py_slice a e c"
  proof -
    have "py_slice a e c = take ((t - a) + (e - t)) (drop a c)" using at te by (simp add: py_slice_def drop_take)
    also have "\<dots> = take (t - a) (drop a c) @ take (e - t) (drop (t - a) (drop a c))" by (rule take_add)
    finally show ?thesis using at by (simp add: py_slice_def drop_take)
  qed
  have "(n + k) * 10240 < e - a + 10240"
  proof (cases "rs = []")
    case True
    then have "e = t" using ch by simp
    then show ?thesis using n(2) k(2) by simp
  next
    case False
    then have "t - a = 184320" using at by simp
    then have "n * 10240 < 19 * 10240" using n(2) by simp
    then have "n < 19" by (simp only: mult_less_cancel2)
    then show ?thesis using k(2) \<open>t - a = 184320\<close> te by (simp add: distrib_right)
  qed
  moreover have "carries z a (py_slice a e c) (concat gs) (n + k)"
    using carries_append [OF n(1), of "py_slice t e c" "concat gs'" k] k(1) unfolding len app gs by simp
  ultimately show ?case by blast
qed

lemma linear_chain:
  assumes "pos < b"
  shows "\<exists>rs. linear_slots (int pos) (int b) = map pair_int rs \<and> chain pos rs (min (pos + 552960) b) \<and> rs \<noteq> [] \<and> length rs \<le> 3 \<and>
     list_all (\<lambda>(s, t). s < t \<and> t \<le> b \<and> t - s \<le> 184320) rs"
proof -
  consider "b \<le> pos + 184320" | "pos + 184320 < b" "b \<le> pos + 368640" | "pos + 368640 < b" by linarith
  then show ?thesis
  proof cases
    case 1
    then show ?thesis using assms
      by (intro exI [of _ "[(pos, b)]"]) (auto simp: linear_slots_def EMBLOCK_SIZE_def pair_int_def)
  next
    case 2
    then show ?thesis using assms
      by (intro exI [of _ "[(pos, pos + 184320), (pos + 184320, b)]"]) (auto simp: linear_slots_def EMBLOCK_SIZE_def pair_int_def)
  next
    case 3
    then show ?thesis using assms
      by (intro exI [of _ "[(pos, pos + 184320), (pos + 184320, pos + 368640), (pos + 368640, min (pos + 552960) b)]"])
        (auto simp: linear_slots_def EMBLOCK_SIZE_def pair_int_def)
  qed
qed

lemma write_offsets_ok:
  assumes "list_all (\<lambda>v. 0 \<le> v \<and> v \<le> bd) xs" and "\<And>v w. 0 \<le> v \<Longrightarrow> v \<le> bd \<Longrightarrow> \<exists>w'. put v w = Inr w' \<and> length w' = length w + k"
  shows "\<exists>w'. foldE (write_offset bd put) w xs = Inr w' \<and> length w' = length w + k * length xs"
  using assms(1)
proof (induction xs arbitrary: w)
  case (Cons v xs)
  obtain w1 where "put v w = Inr w1" "length w1 = length w + k" using assms(2) [of v w] Cons.prems by auto
  then show ?case using Cons.IH [of w1] Cons.prems by (auto simp: write_offset_def)
qed simp

lemma valid_slots:
  assumes "length slots = 3" and "list_all (\<lambda>(s, e). 0 \<le> s \<and> s \<le> e) slots"
  shows "validate_starts_ends (map fst slots) (map snd slots) = Inr ()"
  using assms by (auto simp: validate_starts_ends_def validate_three_tuple_def list_ex_iff list_all_iff zip_map_fst_snd)

lemma request_frame_parses:
  assumes h: "length h = 16" and l: "length slots = 3" and v: "list_all (\<lambda>(s, e). 0 \<le> s \<and> s \<le> e \<and> e < 2 ^ 64) slots"
  shows "\<exists>op p. request_frame h slots = Inr (EDONKEY, op, p) \<and> op \<in> {OP_REQUESTPARTS, OP_REQUESTPARTS_I64} \<and> length p \<le> 64 \<and>
     parse_request_parts_internal p (op = OP_REQUESTPARTS_I64) = Inr (h, filter (\<lambda>(s, e). \<not> (s = 0 \<and> e = 0)) (map pair_nat slots))"
proof -
  have val: "validate_starts_ends (map fst slots) (map snd slots) = Inr ()"
    by (rule valid_slots [OF l]) (use v in \<open>auto simp: list_all_iff\<close>)
  have used: "used_slots (map nat (map fst slots)) (map nat (map snd slots)) = filter (\<lambda>(s, e). \<not> (s = 0 \<and> e = 0)) (map pair_nat slots)"
  proof -
    have "zip (map nat (map fst slots)) (map nat (map snd slots)) = map pair_nat slots"
      by (induction slots) (simp_all add: pair_nat_def)
    then show ?thesis by (simp add: used_slots_def)
  qed
  show ?thesis
  proof (cases "list_ex (\<lambda>v. v > 0xFFFFFFFF) (map fst slots @ map snd slots)")
    case True
    have put: "\<exists>w'. write_u64 v w = Inr w' \<and> length w' = length w + 8" if "0 \<le> v" "v \<le> 0xFFFFFFFFFFFFFFFF" for v w
      using that by (simp add: write_u64_def)
    have in64: "list_all (\<lambda>v. 0 \<le> v \<and> v \<le> 0xFFFFFFFFFFFFFFFF) (map fst slots)"
      "list_all (\<lambda>v. 0 \<le> v \<and> v \<le> 0xFFFFFFFFFFFFFFFF) (map snd slots)"
      using v by (auto simp: list_all_iff)
    have "\<exists>w'. foldE (write_offset 0xFFFFFFFFFFFFFFFF write_u64) h (map fst slots) = Inr w' \<and> length w' = length h + 8 * length (map fst slots)"
      by (rule write_offsets_ok [OF in64(1)]) (rule put)
    then obtain w2 where w2: "foldE (write_offset 0xFFFFFFFFFFFFFFFF write_u64) h (map fst slots) = Inr w2" "length w2 = 40"
      using h l by auto
    have "\<exists>w'. foldE (write_offset 0xFFFFFFFFFFFFFFFF write_u64) w2 (map snd slots) = Inr w' \<and> length w' = length w2 + 8 * length (map snd slots)"
      by (rule write_offsets_ok [OF in64(2)]) (rule put)
    then obtain p where p: "foldE (write_offset 0xFFFFFFFFFFFFFFFF write_u64) w2 (map snd slots) = Inr p" "length p = 64"
      using w2(2) l by auto
    have b: "build_request_parts_i64_payload h (map fst slots) (map snd slots) = Inr p"
      by (simp add: build_request_parts_i64_payload_def h val write_hash16_def w2 p)
    show ?thesis using True p(2) request_parts_i64_roundtrip [OF b] used
      by (simp add: request_frame_def b parse_request_parts_internal_def)
  next
    case False
    have put: "\<exists>w'. write_u32 v w = Inr w' \<and> length w' = length w + 4" if "0 \<le> v" "v \<le> 0xFFFFFFFF" for v w
      using that by (simp add: write_u32_def)
    have small: "list_all (\<lambda>v. 0 \<le> v \<and> v \<le> 0xFFFFFFFF) (map fst slots)" "list_all (\<lambda>v. 0 \<le> v \<and> v \<le> 0xFFFFFFFF) (map snd slots)"
      using False v by (auto simp: list_all_iff list_ex_iff not_less)
    have "\<exists>w'. foldE (write_offset 0xFFFFFFFF write_u32) h (map fst slots) = Inr w' \<and> length w' = length h + 4 * length (map fst slots)"
      by (rule write_offsets_ok [OF small(1)]) (rule put)
    then obtain w2 where w2: "foldE (write_offset 0xFFFFFFFF write_u32) h (map fst slots) = Inr w2" "length w2 = 28"
      using h l by auto
    have "\<exists>w'. foldE (write_offset 0xFFFFFFFF write_u32) w2 (map snd slots) = Inr w' \<and> length w' = length w2 + 4 * length (map snd slots)"
      by (rule write_offsets_ok [OF small(2)]) (rule put)
    then obtain p where p: "foldE (write_offset 0xFFFFFFFF write_u32) w2 (map snd slots) = Inr p" "length p = 40"
      using w2(2) l by auto
    have b: "build_request_parts_payload h (map fst slots) (map snd slots) = Inr p"
      by (simp add: build_request_parts_payload_def h val write_hash16_def w2 p)
    show ?thesis using False p(2) request_parts_roundtrip [OF b] used
      by (simp add: request_frame_def b parse_request_parts_internal_def OP_REQUESTPARTS_def OP_REQUESTPARTS_I64_def)
  qed
qed

definition node_at :: "bytes \<Rightarrow> 'q node \<Rightarrow> frame list \<Rightarrow> int set \<Rightarrow> bool" where
  "node_at c w fs m \<longleftrightarrow> serving c (nd_engine w) \<and> nd_alive w \<and> lk_connected (nd_down w) \<and>
     lk_in (nd_down w) = concat (map wire_of fs) \<and> list_all small_frame fs \<and>
     dl_reach c (nd_part w) \<and> pf_missing (fst (nd_part w)) = m"

lemma answer_frames_sent:
  assumes "sent s fs s'" and "list_all small_frame fs"
  shows "answer_frames s s' = Inr (map wire_of fs)"
proof -
  have "mapE (\<lambda>(protocol, opcode, payload). transport_send peer_transport (Some protocol) opcode payload) fs = Inr (map wire_of fs)"
    by (rule mapE_Inr) (use assms(2) in \<open>auto simp: list_all_iff intro!: transport_send_wire dest!: bspec small_wire_frame\<close>)
  then show ?thesis using assms(1) by (simp add: answer_frames_def sent_def)
qed

lemma node_request:
  assumes r: "node_at c w [] m" and z: "inflates (ue_zlib env)" and len: "length c < 2 ^ 64" and h: "length h = 16"
    and pos: "pos < b" "b \<le> length c"
  shows "\<exists>f w' fs n. request_frame h (pad_slots (linear_slots (int pos) (int b))) = Inr f \<and> node_send env f w = (w', None) \<and>
     node_at c w' fs m \<and> carries (ue_zlib env) pos (py_slice pos (min (pos + 552960) b) c) fs n \<and>
     n * 10240 < min (pos + 552960) b - pos + 10240"
proof -
  obtain rs where rs: "linear_slots (int pos) (int b) = map pair_int rs" and ch: "chain pos rs (min (pos + 552960) b)"
    and l: "rs \<noteq> []" "length rs \<le> 3" and v: "list_all (\<lambda>(s, t). s < t \<and> t \<le> b \<and> t - s \<le> 184320) rs"
    using linear_chain [OF pos(1)] by blast
  define slots where "slots = pad_slots (map pair_int rs)"
  have l3: "length slots = 3" using l(2) by (simp add: slots_def pad_slots_def)
  have v64: "list_all (\<lambda>(s, e). 0 \<le> s \<and> s \<le> e \<and> e < 2 ^ 64) slots"
    using v pos len by (auto simp: slots_def pad_slots_def list_all_iff pair_int_def in_set_replicate)
  have used: "filter (\<lambda>(s, e). \<not> (s = 0 \<and> e = 0)) (map pair_nat slots) = rs"
  proof -
    have "filter (\<lambda>(s, e). \<not> (s = 0 \<and> e = 0)) (map pair_nat (map pair_int rs)) = rs"
      using v by (induction rs) (auto simp: pair_nat_def pair_int_def)
    then show ?thesis by (simp add: slots_def pad_slots_def pair_nat_def filter_replicate)
  qed
  obtain op p where f: "request_frame h slots = Inr (EDONKEY, op, p)" and op: "op \<in> {OP_REQUESTPARTS, OP_REQUESTPARTS_I64}"
    and lp: "length p \<le> 64" and parse: "parse_request_parts_internal p (op = OP_REQUESTPARTS_I64) = Inr (h, rs)"
    using request_frame_parses [OF h l3 v64] unfolding used by blast
  have sv: "serving c (nd_engine w)" using r by (simp add: node_at_def)
  obtain gs s' where e: "engine_step env op p (nd_engine w) = (s', Going)" and st: "sent (nd_engine w) (concat gs) s'"
    and sm: "list_all (list_all small_frame) gs"
    and ws: "list_all2 (serves_window (ue_zlib env) c) (windows (int (length c)) rs) gs"
    using engine_request_parts [OF sv z len op parse] by blast
  have "windows (int (length c)) rs = map pair_int rs"
    using v pos(2) by (induction rs) (auto simp: pair_int_def clamp_slot_id)
  with ws have ws': "list_all2 (serves_window (ue_zlib env) c) (map pair_int rs) gs" by simp
  have me: "min (pos + 552960) b \<le> length c" using pos(2) by (simp add: min_le_iff_disj)
  obtain n where n: "carries (ue_zlib env) pos (py_slice pos (min (pos + 552960) b) c) (concat gs) n"
    "n * 10240 < min (pos + 552960) b - pos + 10240" using chain_carries [OF ch ws' me] by blast
  have wf: "wire_frame (EDONKEY, op, p)"
    using op lp by (auto simp: wire_frame_def EDONKEY_def opcode_defs MAX_PACKET_SIZE_def)
  have small: "list_all small_frame (concat gs)" using sm by (auto simp: list_all_iff)
  define w' where "w' = w\<lparr>nd_engine := s', nd_down := (nd_down w)\<lparr>lk_in := lk_in (nd_down w) @ concat (map wire_of (concat gs))\<rparr>\<rparr>"
  have "node_serve env op p w = w'"
    using e answer_frames_sent [OF st small] by (simp add: node_serve_def Let_def w'_def)
  moreover have "transport_recv peer_transport \<lparr>lk_in = wire_of (EDONKEY, op, p), lk_eof = False, lk_connected = True\<rparr> =
      (Inr (Some (EDONKEY, op, p)), \<lparr>lk_in = [], lk_eof = False, lk_connected = True\<rparr>)"
    by (subst transport_recv_wire [OF wf, where r = "[]"]) (simp_all add: peer_transport_def)
  ultimately have "node_send env (EDONKEY, op, p) w = (w', None)"
    using r frame_wire_eq [OF wf] by (simp add: node_send_def or_raise_def node_at_def)
  moreover have "node_at c w' (concat gs) m"
    using r small serving_sent [OF sv st] by (simp add: node_at_def w'_def)
  ultimately show ?thesis using f n unfolding rs slots_def by blast
qed

text \<open>The program's own upload session is such a peer.\<close>

definition node_ready :: "'q up_env \<Rightarrow> bytes \<Rightarrow> bytes \<Rightarrow> 'q node \<Rightarrow> frame list \<Rightarrow> int set \<Rightarrow> bool" where
  "node_ready env c h w fs m \<longleftrightarrow> inflates (ue_zlib env) \<and> length c < 2 ^ 64 \<and> length h = 16 \<and> node_at c w fs m"

interpretation np: serving_peer "node_io env" c h "node_ready env c h" for env :: "'q up_env" and c h
proof (unfold_locales, goal_cases)
  case (1 w f fs m)
  then have "client_receive False (nd_down w) = (Inr (Some f), (nd_down w)\<lparr>lk_in := concat (map wire_of fs)\<rparr>)"
    by (intro client_receive_wire) (auto simp: node_ready_def node_at_def intro: small_wire_frame)
  then show ?case using 1 by (simp add: node_io_def node_receive_def node_ready_def node_at_def)
next
  case (2 w fs m d p)
  obtain pf k where pk: "nd_part w = (pf, k)" by (cases "nd_part w")
  from dl_reach_write [of c pf k d p] 2 pk obtain n p' k' where
    "write_block (int p) d (pf, k) = Inr (n, p', k')" "dl_reach c (p', k')"
    "pf_missing p' = pf_missing pf - {int p..<int (p + length d)}" by (auto simp: node_ready_def node_at_def)
  then show ?case using 2 pk by (simp add: node_io_def node_write_def node_ready_def node_at_def)
next
  case (6 w m pos b)
  then have "node_at c w [] m" "inflates (ue_zlib env)" "length c < 2 ^ 64" "length h = 16" by (simp_all add: node_ready_def)
  from node_request [OF this 6(2,3)] this(2-4) show ?case by (simp add: node_io_def node_ready_def)
qed (simp_all add: node_io_def)

text \<open>
  C21. A download of a region of a file from this program's own upload session, in linear rounds
  over the wire, ends: the call returns, says that the region is complete and counts exactly its
  bytes; the part file then misses just what it missed outside of the region, and when it missed
  nothing outside, the data file is the uploader's file byte for byte. This holds for every file
  below \<open>2 ^ 64\<close> bytes, whatever zlib makes of each block, as long as \<open>max_blocks\<close> allows one part
  for every 10240 bytes of the region.
\<close>

theorem transfer_completes_region:
  assumes "node_at c w [] m" and "inflates (ue_zlib env)" and "length c < 2 ^ 64" and "length h = 16"
    and "a \<le> b" and "b \<le> length c" and "b - a \<le> 10240 * blocks"
  shows "\<exists>out s. run_transfer (node_io env) \<lparr>x_hash = h, x_total_size = int (length c), x_max_blocks = blocks,
       x_start_offset = int a, x_end_offset = Some (int b)\<rparr> client w = Some (Inr out, s) \<and>
     oc_complete out \<and> oc_bytes_received out = b - a \<and>
     pf_missing (fst (nd_part (ts_world s))) = m - {int a..<int b} \<and>
     (m \<subseteq> {int a..<int b} \<longrightarrow> is_complete (fst (nd_part (ts_world s))) \<and> d_data (snd (nd_part (ts_world s))) = Some c)"
proof -
  let ?x = "\<lparr>x_hash = h, x_total_size = int (length c), x_max_blocks = blocks, x_start_offset = int a, x_end_offset = Some (int b)\<rparr>"
  have start: "np.choosing env c h (transfer_new client w) 0 0 m"
    using assms(1-4) by (simp add: np.choosing_def transfer_new_def node_ready_def)
  have "\<exists>out s. transfer_loop (node_io env) ?x (transfer_new client w) = Some (Inr out, s) \<and> oc_complete out \<and>
      oc_bytes_received out = b - a \<and> node_ready env c h (ts_world s) [] (m - {int (a + 0)..<int b})"
    by (rule np.transfer_completes [OF start]) (use assms(5-7) in \<open>simp_all add: bound_def\<close>)
  then obtain out s where r: "transfer_loop (node_io env) ?x (transfer_new client w) = Some (Inr out, s)" "oc_complete out"
    "oc_bytes_received out = b - a" and n: "node_at c (ts_world s) [] (m - {int a..<int b})"
    by (auto simp: node_ready_def)
  obtain p k where pk: "nd_part (ts_world s) = (p, k)" by (cases "nd_part (ts_world s)")
  have d: "dl_reach c (p, k)" "pf_missing p = m - {int a..<int b}" using n by (simp_all add: node_at_def pk)
  have "pf_wf p" using dl_reach_inv [OF d(1)] by (auto simp: dl_inv_def)
  then have "m \<subseteq> {int a..<int b} \<Longrightarrow> is_complete p \<and> d_data k = Some c"
    using dl_reach_complete [OF d(1)] d(2) pf_complete_iff by auto
  then show ?thesis using r d(2) by (intro exI [of _ out] exI [of _ s]) (simp add: run_transfer_def pk)
qed

definition sample_client :: peer_client where
  "sample_client = \<lparr>pc_part_status = Map.empty, pc_complete_sources = {}, pc_collected = []\<rparr>"

theorem transfer_completes_region_witness:
  "\<exists>w out s. run_transfer (node_io sample_env) \<lparr>x_hash = replicate 16 9, x_total_size = 2, x_max_blocks = 1,
       x_start_offset = 0, x_end_offset = Some 2\<rparr> sample_client w = Some (Inr out, s) \<and>
     oc_complete out \<and> oc_bytes_received out = 2 \<and> is_complete (fst (nd_part (ts_world s))) \<and>
     d_data (snd (nd_part (ts_world s))) = Some [7, 8]"
proof -
  let ?c = "[7, 8] :: bytes" and ?p = "sample_part\<lparr>pf_total_size := 2, pf_gaps := [Gap 0 2]\<rparr>"
  obtain k where k: "open_new 100 ?p sample_disk = Inr k" by (simp add: part_eval numeral_2_eq_2)
  have "mk_part_file (int (length ?c)) [] [] False = Inr ?p" by (simp add: mk_part_file_def sample_part_def)
  then have d: "dl_reach ?c (?p, k)" using k by (rule dl_init)
  define w where "w = \<lparr>nd_engine = sample_session ?c, nd_alive = True, nd_down = \<lparr>lk_in = [], lk_eof = False, lk_connected = True\<rparr>,
    nd_part = (?p, k)\<rparr>"
  have at: "node_at ?c w [] {0..<2}"
    using d sample_serving [of ?c] by (simp add: node_at_def w_def pf_missing_def gap_bytes_def)
  have z: "inflates (ue_zlib sample_env)" using rle_inflates by (simp add: sample_env_def)
  have "\<exists>out s. run_transfer (node_io sample_env) \<lparr>x_hash = replicate 16 9, x_total_size = int (length ?c), x_max_blocks = 1,
       x_start_offset = int 0, x_end_offset = Some (int 2)\<rparr> sample_client w = Some (Inr out, s) \<and>
     oc_complete out \<and> oc_bytes_received out = 2 - 0 \<and>
     pf_missing (fst (nd_part (ts_world s))) = {0..<2} - {int 0..<int 2} \<and>
     ({0..<2} \<subseteq> {int 0..<int 2} \<longrightarrow> is_complete (fst (nd_part (ts_world s))) \<and> d_data (snd (nd_part (ts_world s))) = Some ?c)"
    by (rule transfer_completes_region [OF at z]) simp_all
  then show ?thesis by (intro exI [of _ w]) auto
qed

section \<open>What a late payload does\<close>

text \<open>
  A receive that times out behind a header has consumed it, and with \<open>close_on_timeout = False\<close> the
  session goes on: when the payload arrives, its first bytes are read as the next header. A payload
  that starts with a frame is delivered as that frame.
\<close>

lemma late_payload_is_reparsed:
  assumes g: "wire_frame g" and f: "wire_frame (protocol, opcode, wire_of g @ x)"
    and l: "lk_in l = take 6 (wire_of (protocol, opcode, wire_of g @ x))" "\<not> lk_eof l" "lk_connected l"
  shows "\<exists>l'. client_receive False l = (Inr None, l') \<and>
     client_receive False (l'\<lparr>lk_in := lk_in l' @ wire_of g @ x\<rparr>) = (Inr (Some g), l'\<lparr>lk_in := x\<rparr>)"
proof -
  let ?p = "wire_of g @ x"
  note h = wire_header [OF f, of "[]"]
  have in6: "lk_in l = take 6 (wire_of (protocol, opcode, ?p) @ [])" by (simp add: l(1))
  have len: "length (lk_in l) = 6" using h(1) by (simp add: l(1))
  have t6: "take 6 (lk_in l) = take 6 (wire_of (protocol, opcode, ?p) @ [])" "drop 6 (lk_in l) = []"
    using len by (simp_all add: in6)
  have m: "length ?p \<le> MAX_PACKET_SIZE" using f by (simp add: wire_frame_def)
  have ne: "0 < length ?p" by (cases g) (simp add: wire_of_def)
  have "client_receive False l = (Inr None, l\<lparr>lk_in := []\<rparr>)"
    unfolding client_receive_def Let_def t6 h(2-5) using len l(2,3) m ne by (simp add: read_failed_def)
  moreover have "client_receive False (l\<lparr>lk_in := ?p\<rparr>) = (Inr (Some g), l\<lparr>lk_in := x\<rparr>)"
    using client_receive_wire [OF g, of "l\<lparr>lk_in := ?p\<rparr>" x False] l(3) by simp
  ultimately show ?thesis by (intro exI [of _ "l\<lparr>lk_in := []\<rparr>"]) simp
qed

text \<open>An answer to a legacy source request ends the wait for a slot with a \<open>TypeError\<close>.\<close>

lemma legacy_answer_ends_wait:
  "wait_upload_slot (Inr (Some (EMULE, OP_ANSWERSOURCES, payload)) # evs) c = (Inl TypeError, [], evs, c)"
  by (simp add: collect_answer_sources_def EMULE_def EDONKEY_def OP_ANSWERSOURCES_def OP_ANSWERSOURCES2_def)

end
