(* ===== verification/Secure_Ident.thy ===== *)
theory Secure_Ident
  imports Aich Py_String
begin

text \<open>
  \<open>core/security/secure_ident.py\<close>: the provider of the SecureIdent protocol. RSA itself (a library) is
  the record \<open>rsa\<close>: the two numbers of a public key, the signature of a digest and its verification
  with an encoded key; reading and writing a key file and generating a key are arguments. SHA-1 is that
  of the AICH component.
\<close>

section \<open>DER\<close>

fun bit_length :: "nat \<Rightarrow> nat" where
  "bit_length n = (if n = 0 then 0 else Suc (bit_length (n div 2)))"

declare bit_length.simps [simp del]

definition to_bytes_big :: "nat \<Rightarrow> bytes" where
  "to_bytes_big v = be_enc ((bit_length v + 7) div 8) v"

definition der_len :: "nat \<Rightarrow> bytes res" where
  "der_len n =
     (if n < 0x80 then Inr [word_of_nat n]
      else
        let body = to_bytes_big n in
        if 0x80 OR length body > 0xFF then Inl ValueError
        else Inr (word_of_nat (0x80 OR length body) # body))"

definition der_int :: "nat \<Rightarrow> bytes res" where
  "der_int v =
     (let body = (if v = 0 then [0]
                  else let b = to_bytes_big v in if unat (b ! 0) AND 0x80 \<noteq> 0 then 0 # b else b) in
      bindE (der_len (length body)) (\<lambda>l. Inr (0x02 # l @ body)))"

definition der_seq :: "bytes list \<Rightarrow> bytes res" where
  "der_seq parts = (let body = concat parts in bindE (der_len (length body)) (\<lambda>l. Inr (0x30 # l @ body)))"

section \<open>The provider\<close>

definition MAX_PUBKEY_SIZE :: nat where "MAX_PUBKEY_SIZE = 80"

record 'k rsa =
  rsa_n :: "'k \<Rightarrow> nat"
  rsa_e :: "'k \<Rightarrow> nat"
  rsa_sign :: "'k \<Rightarrow> bytes \<Rightarrow> bytes"
  rsa_verify :: "bytes \<Rightarrow> bytes \<Rightarrow> bytes \<Rightarrow> bool"

record 'k secure_ident =
  si_key :: "'k option"
  si_blob :: bytes
  si_verified :: "string set"

definition secure_ident_new :: "'k secure_ident" where
  "secure_ident_new = \<lparr>si_key = None, si_blob = [], si_verified = {}\<rparr>"

definition has_keys :: "'k secure_ident \<Rightarrow> bool" where
  "has_keys p \<longleftrightarrow> si_key p \<noteq> None"

definition public_blob_of :: "'k rsa \<Rightarrow> 'k \<Rightarrow> bytes res" where
  "public_blob_of rsa k = bindE (der_int (rsa_n rsa k)) (\<lambda>n. bindE (der_int (rsa_e rsa k)) (\<lambda>e. der_seq [n, e]))"

definition public_blob :: "'k secure_ident \<Rightarrow> bytes res" where
  "public_blob p = (if si_key p = None then Inl SecureIdentError else Inr (si_blob p))"

text \<open>
  \<open>ensure_keys\<close>: the provider, the content of the key file afterwards and the exception. \<open>load\<close> reads a
  key from the file, \<open>export\<close> writes one, \<open>fresh\<close> is the generated key. The provider keeps its key even
  when the encoded key turns out too long.
\<close>

definition ensure_keys ::
    "'k rsa \<Rightarrow> (bytes \<Rightarrow> 'k option) \<Rightarrow> ('k \<Rightarrow> bytes) \<Rightarrow> 'k \<Rightarrow> bytes option \<Rightarrow> 'k secure_ident \<Rightarrow>
     'k secure_ident \<times> bytes option \<times> exn option" where
  "ensure_keys rsa load export fresh file p =
     (if si_key p \<noteq> None then (p, file, None)
      else
        let (k, file1) = (case Option.bind file load of Some k \<Rightarrow> (k, file) | None \<Rightarrow> (fresh, Some (export fresh)));
            p1 = p\<lparr>si_key := Some k\<rparr> in
        case public_blob_of rsa k of
          Inl e \<Rightarrow> (p1, file1, Some e)
        | Inr blob \<Rightarrow>
            (p1\<lparr>si_blob := blob\<rparr>, file1, if length blob > MAX_PUBKEY_SIZE then Some SecureIdentError else None))"

definition build_challenge_data :: "bytes \<Rightarrow> int \<Rightarrow> int \<Rightarrow> bytes \<Rightarrow> bytes res" where
  "build_challenge_data signer_blob challenge ip_kind ip_bytes =
     (if ip_kind = 0 then Inr (signer_blob @ le_enc 4 (nat (challenge AND 0xFFFFFFFF)))
      else if \<not> (0 \<le> ip_kind \<and> ip_kind \<le> 0xFF) then Inl ValueError
      else Inr (signer_blob @ le_enc 4 (nat (challenge AND 0xFFFFFFFF)) @ ip_bytes @ [word_of_int ip_kind]))"

definition create_signature :: "'k rsa \<Rightarrow> int \<Rightarrow> int \<Rightarrow> bytes \<Rightarrow> 'k secure_ident \<Rightarrow> bytes res" where
  "create_signature rsa challenge ip_kind ip_bytes p =
     (case si_key p of
        None \<Rightarrow> Inl SecureIdentError
      | Some k \<Rightarrow> bindE (build_challenge_data (si_blob p) challenge ip_kind ip_bytes) (\<lambda>d. Inr (rsa_sign rsa k (sha1_digest d))))"

definition verify_data :: "'k rsa \<Rightarrow> bytes \<Rightarrow> bytes \<Rightarrow> bytes \<Rightarrow> bool" where
  "verify_data rsa blob signature d \<longleftrightarrow>
     10 \<le> length blob \<and> length blob \<le> MAX_PUBKEY_SIZE \<and> rsa_verify rsa blob (sha1_digest d) signature"

definition verify_signature :: "'k rsa \<Rightarrow> bytes \<Rightarrow> bytes \<Rightarrow> int \<Rightarrow> int \<Rightarrow> bytes \<Rightarrow> bool res" where
  "verify_signature rsa blob signature challenge ip_kind ip_bytes =
     (if \<not> (10 \<le> length blob \<and> length blob \<le> MAX_PUBKEY_SIZE) then Inr False
      else bindE (build_challenge_data blob challenge ip_kind ip_bytes) (\<lambda>d. Inr (verify_data rsa blob signature d)))"

definition mark_verified :: "string \<Rightarrow> 'k secure_ident \<Rightarrow> 'k secure_ident" where
  "mark_verified user_hash p = p\<lparr>si_verified := insert (py_lower (py_strip user_hash)) (si_verified p)\<rparr>"

datatype si_state = Not_available | Id_needed | Signed_id

definition si_evaluate :: "string \<Rightarrow> 'k secure_ident \<Rightarrow> string \<times> si_state \<times> bool \<times> real" where
  "si_evaluate user_hash p =
     (let uh = py_lower (py_strip user_hash); v = uh \<in> si_verified p in
      (uh, if v then Signed_id else Not_available, v, if v then 2 else 1))"

definition si_sign :: "'k rsa \<Rightarrow> bytes \<Rightarrow> 'k secure_ident \<Rightarrow> bytes res" where
  "si_sign rsa challenge p =
     (case si_key p of None \<Rightarrow> Inl SecureIdentError | Some k \<Rightarrow> Inr (rsa_sign rsa k (sha1_digest challenge)))"

definition si_verify :: "string \<Rightarrow> bytes \<Rightarrow> bytes \<Rightarrow> 'k secure_ident \<Rightarrow> bool" where
  "si_verify user_hash signature challenge p \<longleftrightarrow> py_lower (py_strip user_hash) \<in> si_verified p"

section \<open>The encoding of a key\<close>

text \<open>What a DER reader does with one element: its tag, its content and what follows.\<close>

definition der_take :: "bytes \<Rightarrow> (byte \<times> bytes \<times> bytes) option" where
  "der_take inp =
     (case inp of
        t # l # r \<Rightarrow>
          if unat l < 0x80 then Some (t, take (unat l) r, drop (unat l) r)
          else let k = unat l - 0x80; n = be_dec (take k r) in Some (t, take n (drop k r), drop (k + n) r)
      | _ \<Rightarrow> None)"

definition der_read_key :: "bytes \<Rightarrow> (nat \<times> nat) option" where
  "der_read_key blob =
     Option.bind (der_take blob) (\<lambda>(t, body, r).
     Option.bind (der_take body) (\<lambda>(t1, n, body1).
     Option.bind (der_take body1) (\<lambda>(t2, e, body2).
       if t = 0x30 \<and> t1 = 0x02 \<and> t2 = 0x02 \<and> r = [] \<and> body2 = [] then Some (be_dec n, be_dec e) else None)))"

lemma bit_length_bound: "v < 2 ^ bit_length v"
proof (induction v rule: bit_length.induct)
  case (1 n)
  then show ?case by (subst bit_length.simps) (cases "n = 0", auto)
qed

lemma to_bytes_big_dec: "be_dec (to_bytes_big v) = v"
proof -
  have "v < 2 ^ bit_length v" by (rule bit_length_bound)
  also have "\<dots> \<le> 2 ^ (8 * ((bit_length v + 7) div 8))" by (intro power_increasing) auto
  also have "\<dots> = 256 ^ ((bit_length v + 7) div 8)" by (simp add: power_mult)
  finally show ?thesis by (simp add: to_bytes_big_def)
qed

lemma length_to_bytes_big: "length (to_bytes_big v) = (bit_length v + 7) div 8"
  by (simp add: to_bytes_big_def)

lemma bit_length_mono: "v < 2 ^ k \<Longrightarrow> bit_length v \<le> k"
proof (induction v arbitrary: k rule: bit_length.induct)
  case (1 n)
  show ?case
  proof (cases "n = 0")
    case False
    then obtain j where k: "k = Suc j" using "1.prems" by (cases k) auto
    then have "n div 2 < 2 ^ j" using "1.prems" by auto
    from "1.IH" [OF False this] False k show ?thesis by (subst bit_length.simps) simp
  qed (subst bit_length.simps, simp)
qed

lemma der_take_elem:
  assumes "der_len (length body) = Inr l" and "length body < 2 ^ 32"
  shows "der_take (t # l @ body @ suf) = Some (t, body, suf)"
proof (cases "length body < 0x80")
  case True
  with assms have l: "l = [word_of_nat (length body)]" by (simp add: der_len_def)
  have "unat (word_of_nat (length body) :: byte) = length body" using True by (simp add: unat_byte_of_nat)
  with True l show ?thesis by (simp add: der_take_def)
next
  case False
  let ?b = "to_bytes_big (length body)"
  from assms False have l: "l = word_of_nat (0x80 OR length ?b) # ?b"
    by (auto simp: der_len_def Let_def split: if_splits)
  have "length ?b \<le> 4" using bit_length_mono [OF assms(2)] by (simp add: length_to_bytes_big)
  then have "length ?b = 0 \<or> length ?b = 1 \<or> length ?b = 2 \<or> length ?b = 3 \<or> length ?b = 4" by linarith
  then have "0x80 OR length ?b = 0x80 + length ?b" "0x80 + length ?b < 256" by (elim disjE; simp)+
  moreover have "unat (word_of_nat (0x80 OR length ?b) :: byte) = (0x80 OR length ?b) mod 256" by (rule unat_byte_of_nat)
  ultimately have "unat (word_of_nat (0x80 OR length ?b) :: byte) = 0x80 + length ?b" by simp
  then show ?thesis using l to_bytes_big_dec [of "length body"] by (simp add: der_take_def Let_def)
qed

lemma be_dec_zero: "be_dec (0 # bs) = be_dec bs"
proof -
  have "le_dec (xs @ [0]) = le_dec xs" for xs by (induction xs) auto
  then show ?thesis by (simp add: be_dec_def)
qed

lemma der_int_take:
  assumes "der_int v = Inr e" and "length e < 2 ^ 32"
  shows "\<exists>body. der_take (e @ suf) = Some (0x02, body, suf) \<and> be_dec body = v"
proof -
  define body where "body = (if v = 0 then [0]
    else let b = to_bytes_big v in if unat (b ! 0) AND 0x80 \<noteq> 0 then 0 # b else b)"
  from assms(1) obtain l where l: "der_len (length body) = Inr l" and e: "e = 0x02 # l @ body"
    by (auto simp: der_int_def body_def [symmetric] bindE_eq_Inr_conv)
  have "be_dec body = v"
    by (simp add: body_def Let_def be_dec_zero to_bytes_big_dec) (simp add: be_dec_def)
  moreover have "der_take (e @ suf) = Some (0x02, body, suf)"
    using der_take_elem [OF l] assms(2) e by simp
  ultimately show ?thesis by blast
qed

text \<open>A public key can be read back from its encoding: two keys with one encoding are one key.\<close>

lemma public_blob_determines_key:
  assumes "public_blob_of rsa k = Inr blob" and "length blob < 2 ^ 32"
  shows "der_read_key blob = Some (rsa_n rsa k, rsa_e rsa k)"
proof -
  from assms(1) obtain n e l where n: "der_int (rsa_n rsa k) = Inr n" and e: "der_int (rsa_e rsa k) = Inr e"
    and l: "der_len (length (n @ e)) = Inr l" and blob: "blob = 0x30 # l @ n @ e"
    by (auto simp: public_blob_of_def der_seq_def bindE_eq_Inr_conv)
  have len: "length n < 2 ^ 32" "length e < 2 ^ 32" "length (n @ e) < 2 ^ 32" using assms(2) blob by auto
  have 1: "der_take blob = Some (0x30, n @ e, [])" using der_take_elem [OF l len(3), of _ "[]"] blob by simp
  from der_int_take [OF n len(1), of e] obtain b1 where 2: "der_take (n @ e) = Some (0x02, b1, e)" "be_dec b1 = rsa_n rsa k"
    by blast
  from der_int_take [OF e len(2), of "[]"] obtain b2 where 3: "der_take e = Some (0x02, b2, [])" "be_dec b2 = rsa_e rsa k"
    by auto
  from 1 2 3 show ?thesis by (simp add: der_read_key_def)
qed

section \<open>Signing and verifying\<close>

text \<open>
  What the code relies on in the library: a signature verifies under the encoding of its own key.
\<close>

definition rsa_correct :: "'k rsa \<Rightarrow> bool" where
  "rsa_correct rsa \<longleftrightarrow> (\<forall>k blob d. public_blob_of rsa k = Inr blob \<longrightarrow> rsa_verify rsa blob d (rsa_sign rsa k d))"

text \<open>A provider that has its keys and a blob of the size a peer accepts.\<close>

definition si_ready :: "'k rsa \<Rightarrow> 'k secure_ident \<Rightarrow> bool" where
  "si_ready rsa p \<longleftrightarrow> (\<exists>k. si_key p = Some k \<and> public_blob_of rsa k = Inr (si_blob p)) \<and>
     10 \<le> length (si_blob p) \<and> length (si_blob p) \<le> MAX_PUBKEY_SIZE"

lemma signature_verifies:
  assumes "rsa_correct rsa" and "si_ready rsa p" and "create_signature rsa ch kind ip p = Inr sig"
  shows "verify_signature rsa (si_blob p) sig ch kind ip = Inr True"
  using assms
  by (auto simp: si_ready_def create_signature_def verify_signature_def verify_data_def rsa_correct_def bindE_eq_Inr_conv)

lemma ensure_keys_ready:
  assumes "ensure_keys rsa load export fresh file secure_ident_new = (p, file', None)"
    and "10 \<le> length (si_blob p)"
  shows "si_ready rsa p"
  using assms
  by (auto simp: ensure_keys_def secure_ident_new_def si_ready_def Let_def split: sum.splits option.splits prod.splits if_splits)

lemma mark_verified_evaluate:
  "si_evaluate u (mark_verified v p) =
     (if py_lower (py_strip u) = py_lower (py_strip v) then (py_lower (py_strip u), Signed_id, True, 2) else si_evaluate u p)"
  by (simp add: si_evaluate_def mark_verified_def Let_def)

end
