(* ===== verification/Kad_Buddy.thy ===== *)
theory Kad_Buddy
  imports Peer_Client Py_String "HOL-Library.AList"
begin

text \<open>
  \<open>core/kad/buddy.py\<close>, \<open>core/kad/buddy_customer.py\<close> and the payloads of \<open>core/kad/direct_callback.py\<close>:
  how a firewalled client is to be called back. It registers with a buddy over TCP; a requester asks
  the buddy by UDP; the buddy relays the request over the TCP channel, and the client dials the
  requester. A TCP writer is a number, its object identity. Which of this the spider's receiver really
  calls is in \<open>Spider_Receiver\<close>.
\<close>

section \<open>Payloads\<close>

definition OP_CALLBACK :: int where "OP_CALLBACK = 0x99"
definition SERVINGBUDDYID :: int where "SERVINGBUDDYID = 0xBF"
definition SERVINGBUDDYIP :: int where "SERVINGBUDDYIP = 0xFC"
definition SERVINGBUDDYUDP :: int where "SERVINGBUDDYUDP = 0xFD"

definition xor_mask :: "bytes \<Rightarrow> bytes" where
  "xor_mask kad_id = map (\<lambda>b. b XOR 0xFF) kad_id"

definition parse_find_serving_buddy_req :: "bytes \<Rightarrow> (bytes \<times> bytes \<times> nat \<times> nat option) res" where
  "parse_find_serving_buddy_req payload =
     (if length payload < 34 then Inl ValueError
      else bindE (get_le 2 payload 32) (\<lambda>tcp_port.
        Inr (py_slice 0 16 payload, py_slice 16 32 payload, tcp_port,
             if length payload \<ge> 35 then Some (unat (payload ! 34)) else None)))"

definition build_find_serving_buddy_res :: "bytes \<Rightarrow> bytes \<Rightarrow> int \<Rightarrow> int option \<Rightarrow> bytes" where
  "build_find_serving_buddy_res served_id_xor buddy_hash buddy_tcp_port connect_opts =
     served_id_xor @ buddy_hash @ le_enc 2 (nat (buddy_tcp_port AND 0xFFFF))
     @ (case connect_opts of None \<Rightarrow> [] | Some o' \<Rightarrow> [word_of_int (o' AND 0xFF)])"

definition parse_callback_req :: "bytes \<Rightarrow> (bytes \<times> bytes \<times> nat \<times> nat) res" where
  "parse_callback_req payload =
     (if length payload < 34 then Inl ValueError
      else bindE (get_le 2 payload 32) (\<lambda>tcp_port.
           bindE (if length payload \<ge> 38 then get_le 4 payload 34 else Inr 0) (\<lambda>ext_ip.
             Inr (py_slice 0 16 payload, py_slice 16 32 payload, tcp_port, ext_ip))))"

text \<open>The four numbers of a dotted address as one number, first octet highest.\<close>

definition quad_int :: "string \<Rightarrow> int res" where
  "quad_int ip =
     (case map py_int (py_split (CHR ''.'') ip) of
        [Some a, Some b, Some c, Some d] \<Rightarrow> Inr (push_bit 24 a OR push_bit 16 b OR push_bit 8 c OR d)
      | _ \<Rightarrow> Inl ValueError)"

definition build_op_callback_payload :: "bytes \<Rightarrow> bytes \<Rightarrow> string \<Rightarrow> int \<Rightarrow> bytes res" where
  "build_op_callback_payload kad_id_xor fh requester_ip requester_tcp_port =
     bindE (quad_int requester_ip) (\<lambda>v.
     bindE (if 0 \<le> v then pack_le 4 (nat v) else Inl StructError) (\<lambda>ip_le.
       Inr (kad_id_xor @ fh @ ip_le @ le_enc 2 (nat (requester_tcp_port AND 0xFFFF)))))"

definition build_direct_callback_payload :: "int \<Rightarrow> bytes \<Rightarrow> int \<Rightarrow> bytes res" where
  "build_direct_callback_payload tcp_port user_hash connect_options =
     (if length user_hash \<noteq> 16 then Inl ValueError
      else if \<not> (0 \<le> tcp_port \<and> tcp_port \<le> 0xFFFF) then Inl ValueError
      else Inr (le_enc 2 (nat tcp_port) @ user_hash @ [word_of_int (connect_options AND 0xFF)]))"

definition parse_direct_callback_payload :: "bytes \<Rightarrow> (nat \<times> bytes \<times> nat) res" where
  "parse_direct_callback_payload payload =
     (if length payload \<noteq> 19 then Inl ValueError
      else bindE (get_le 2 payload 0) (\<lambda>port. Inr (port, py_slice 2 18 payload, unat (payload ! 18))))"

definition build_kad_callback_req_payload :: "bytes \<Rightarrow> bytes \<Rightarrow> int \<Rightarrow> bytes res" where
  "build_kad_callback_req_payload buddy_id fh tcp_port =
     (if length buddy_id \<noteq> 16 then Inl ValueError
      else if length fh \<noteq> 16 then Inl ValueError
      else if \<not> (0 \<le> tcp_port \<and> tcp_port \<le> 0xFFFF) then Inl ValueError
      else Inr (buddy_id @ fh @ le_enc 2 (nat tcp_port)))"

definition parse_kad_callback_req_payload :: "bytes \<Rightarrow> (bytes \<times> bytes \<times> nat) res" where
  "parse_kad_callback_req_payload payload =
     (if \<not> (length payload = 34 \<or> length payload = 38) then Inl ValueError
      else bindE (get_le 2 payload 32) (\<lambda>port. Inr (take 16 payload, py_slice 16 32 payload, port)))"

definition build_rendezvous_req_payload :: "bytes \<Rightarrow> bytes \<Rightarrow> int \<Rightarrow> bytes \<Rightarrow> int \<Rightarrow> int \<Rightarrow> int \<Rightarrow> bytes res" where
  "build_rendezvous_req_payload buddy_id our_user_hash connect_options fh our_ext_ip our_ext_udp_port transport_hint =
     (if length buddy_id \<noteq> 16 \<or> length our_user_hash \<noteq> 16 \<or> length fh \<noteq> 16 then Inl ValueError
      else Inr (buddy_id @ replicate 16 0 @ [0xA0] @ our_user_hash
        @ [word_of_int ((connect_options OR 0x20) AND 0xFF)] @ fh
        @ (if our_ext_ip \<noteq> 0 \<and> our_ext_udp_port \<noteq> 0
           then be_enc 4 (nat (our_ext_ip AND 0xFFFFFFFF)) @ le_enc 2 (nat (our_ext_udp_port AND 0xFFFF))
             @ [word_of_int (transport_hint AND 0xFF)]
           else [])))"

section \<open>The registry of served clients\<close>

text \<open>
  \<open>sb_object\<close> is the identity of the entry object, \<open>br_next\<close> the next fresh one; the dictionary is a
  list in insertion order.
\<close>

record served_buddy =
  sb_kad_id :: bytes
  sb_kad_id_xor :: bytes
  sb_ip :: string
  sb_tcp_port :: nat
  sb_writer :: nat
  sb_object :: nat

record buddy_registry =
  br_served :: "(bytes \<times> served_buddy) list"
  br_max_served :: int
  br_tcp_port :: int
  br_next :: nat

definition registry_new :: "int \<Rightarrow> buddy_registry" where
  "registry_new max_served = \<lparr>br_served = [], br_max_served = max_served, br_tcp_port = 0, br_next = 0\<rparr>"

definition br_configure :: "int \<Rightarrow> int \<Rightarrow> buddy_registry \<Rightarrow> buddy_registry" where
  "br_configure tcp_port max_served r = r\<lparr>br_tcp_port := tcp_port, br_max_served := max_served\<rparr>"

definition br_register :: "bytes \<Rightarrow> string \<Rightarrow> nat \<Rightarrow> nat \<Rightarrow> buddy_registry \<Rightarrow> buddy_registry" where
  "br_register kad_id ip tcp_port w r =
     (let entry = \<lparr>sb_kad_id = kad_id, sb_kad_id_xor = xor_mask kad_id, sb_ip = ip, sb_tcp_port = tcp_port,
                   sb_writer = w, sb_object = br_next r\<rparr> in
      r\<lparr>br_served := AList.update (sb_kad_id_xor entry) entry (AList.update (sb_kad_id entry) entry (br_served r)),
        br_next := br_next r + 1\<rparr>)"

definition unregister_transport :: "nat \<Rightarrow> buddy_registry \<Rightarrow> buddy_registry" where
  "unregister_transport w r = r\<lparr>br_served := filter (\<lambda>(k, v). sb_writer v \<noteq> w) (br_served r)\<rparr>"

definition br_lookup :: "bytes \<Rightarrow> buddy_registry \<Rightarrow> served_buddy option" where
  "br_lookup ucheck r =
     (case map_of (br_served r) ucheck of
        Some e \<Rightarrow> Some e
      | None \<Rightarrow> map_of (br_served r) (xor_mask ucheck))"

definition can_serve :: "buddy_registry \<Rightarrow> bool" where
  "can_serve r \<longleftrightarrow> br_tcp_port r \<noteq> 0 \<and> int (card (sb_object ` set (map snd (br_served r)))) < br_max_served r"

text \<open>
  The answer of the relay and the bytes it wrote, with the writer it wrote them to. \<open>writable\<close> says
  whether \<open>write\<close> succeeds; an exception of the payload builder is not caught.
\<close>

definition relay_op_callback ::
    "(nat \<Rightarrow> bool) \<Rightarrow> bytes \<Rightarrow> bytes \<Rightarrow> string \<Rightarrow> int \<Rightarrow> buddy_registry \<Rightarrow> (bool \<times> (nat \<times> bytes) option) res" where
  "relay_op_callback writable ucheck fh requester_ip requester_tcp_port r =
     (case br_lookup ucheck r of
        None \<Rightarrow> Inr (False, None)
      | Some e \<Rightarrow>
          bindE (build_op_callback_payload (sb_kad_id_xor e) fh requester_ip requester_tcp_port) (\<lambda>payload.
          bindE (frame_wire (EMULE, OP_CALLBACK, payload)) (\<lambda>wire.
            Inr (if writable (sb_writer e) then (True, Some (sb_writer e, wire)) else (False, None)))))"

section \<open>The listener\<close>

text \<open>How the TCP listener recognises a registering client: the first tag of that name, if it holds bytes.\<close>

definition buddy_tag_id :: "'f ed2k_tag list \<Rightarrow> bytes option" where
  "buddy_tag_id tags =
     (case find (\<lambda>t. t_name_id t = Some SERVINGBUDDYID) tags of
        None \<Rightarrow> None
      | Some t \<Rightarrow> (case t_value t of VBytes raw \<Rightarrow> Some raw | _ \<Rightarrow> None))"

section \<open>The served client\<close>

record buddy_customer =
  bc_kad_id :: bytes
  bc_userhash :: bytes
  bc_tcp_port :: int
  bc_buddy_ip :: "string option"
  bc_buddy_port :: nat
  bc_buddy_hash :: "bytes option"

definition buddy_customer_new :: "bytes \<Rightarrow> bytes \<Rightarrow> int \<Rightarrow> buddy_customer" where
  "buddy_customer_new kad_id userhash tcp_port =
     \<lparr>bc_kad_id = kad_id, bc_userhash = userhash, bc_tcp_port = tcp_port, bc_buddy_ip = None,
      bc_buddy_port = 0, bc_buddy_hash = None\<rparr>"

definition build_find_serving_buddy_req :: "buddy_customer \<Rightarrow> bytes" where
  "build_find_serving_buddy_req c =
     [0xE4, 0x51] @ xor_mask (bc_kad_id c) @ bc_userhash c @ le_enc 2 (nat (bc_tcp_port c AND 0xFFFF)) @ [0x83]"

definition on_res :: "bytes \<Rightarrow> string \<Rightarrow> buddy_customer \<Rightarrow> (bool \<times> buddy_customer) res" where
  "on_res payload buddy_ip c =
     (if length payload < 34 then Inr (False, c)
      else if py_slice 0 16 payload \<noteq> xor_mask (bc_kad_id c) then Inr (False, c)
      else bindE (get_le 2 payload 32) (\<lambda>port.
        Inr (True, c\<lparr>bc_buddy_hash := Some (py_slice 16 32 payload), bc_buddy_port := port, bc_buddy_ip := Some buddy_ip\<rparr>)))"

definition buddy_ip_value :: "string option \<Rightarrow> int res" where
  "buddy_ip_value ip =
     (case ip of
        None \<Rightarrow> Inr 0
      | Some s \<Rightarrow>
          let octets = py_split (CHR ''.'') s in
          if length octets \<noteq> 4 then Inr 0
          else case map py_int octets of
            [Some a, Some b, Some c, Some d] \<Rightarrow>
              Inr (push_bit 24 (a AND 0xFF) OR push_bit 16 (b AND 0xFF) OR push_bit 8 (c AND 0xFF) OR (d AND 0xFF))
          | _ \<Rightarrow> Inl ValueError)"

definition hello_extra_tags :: "buddy_customer \<Rightarrow> 'f ed2k_tag list res" where
  "hello_extra_tags c =
     bindE (buddy_ip_value (bc_buddy_ip c)) (\<lambda>ip_val.
       Inr [hello_tag SERVINGBUDDYID HASH16 (VBytes (bc_kad_id c)),
            hello_tag SERVINGBUDDYIP UINT32 (VInt ip_val),
            hello_tag SERVINGBUDDYUDP UINT32 (VInt 0)])"

definition AMULED :: ustr where "AMULED = [65, 109, 117, 108, 101, 68]"

definition registration_payload :: "(ustr \<Rightarrow> int res) \<Rightarrow> buddy_customer \<Rightarrow> bytes res" where
  "registration_payload int_str c =
     bindE (hello_extra_tags c) (\<lambda>extra.
       build_hello_payload int_str (bc_userhash c) 1 (bc_tcp_port c) AMULED 0x3C (extra :: unit ed2k_tag list))"

definition build_registration_hello :: "(ustr \<Rightarrow> int res) \<Rightarrow> buddy_customer \<Rightarrow> bytes res" where
  "build_registration_hello int_str c =
     bindE (registration_payload int_str c) (\<lambda>payload. frame_wire (EDONKEY, 0x01, payload))"

text \<open>
  \<open>_read_frame\<close> on the bytes that arrive before the idle timeout: the opcode with its body, \<open>None\<close> when
  the peer is gone or silent, and the bytes left.
\<close>

definition bc_read_frame :: "bytes \<Rightarrow> bytes option \<times> bytes" where
  "bc_read_frame inp =
     (if length inp < 6 then (None, inp)
      else
        let len = le_dec (py_slice 1 5 inp); opcode = inp ! 5; inp1 = drop 6 inp in
        if len \<le> 1 then (Some [opcode], inp1)
        else if length inp1 < len - 1 then (None, inp1)
        else (Some (opcode # take (len - 1) inp1), drop (len - 1) inp1))"

text \<open>One frame of the relay: the endpoint to dial, or the exception of a body that is too short.\<close>

definition relay_frame :: "bytes \<Rightarrow> (string \<times> nat) option res" where
  "relay_frame f =
     (if int (unat (f ! 0)) \<noteq> OP_CALLBACK then Inr None
      else
        let body = drop 1 f in
        if length body < 36 then Inr None
        else bindE (get_le 4 body 32) (\<lambda>ip. bindE (get_le 2 body 36) (\<lambda>port. Inr (Some (ipv4_str ip, port)))))"

lemma bc_read_frame_shorter: "bc_read_frame inp = (Some f, inp') \<Longrightarrow> length inp' < length inp"
  by (auto simp: bc_read_frame_def Let_def split: if_splits)

text \<open>
  The relay loop: the endpoints it dials, in order, and the exception it ends with. An exception of
  the dialler is logged and swallowed.
\<close>

function relay_loop :: "bytes \<Rightarrow> (string \<times> nat) list \<times> exn option" where
  "relay_loop inp =
     (case bc_read_frame inp of
        (None, inp') \<Rightarrow> ([], None)
      | (Some f, inp') \<Rightarrow>
          (case relay_frame f of
             Inl e \<Rightarrow> ([], Some e)
           | Inr None \<Rightarrow> relay_loop inp'
           | Inr (Some d) \<Rightarrow> (case relay_loop inp' of (ds, x) \<Rightarrow> (d # ds, x))))"
  by pat_completeness auto
termination
  by (relation "measure length") (auto dest: bc_read_frame_shorter [OF sym])

declare relay_loop.simps [simp del]

text \<open>
  \<open>run_registration\<close>: what was sent, what was dialled, the customer afterwards and the exception.
  \<open>arrived\<close> holds the bytes the buddy sends back, \<open>None\<close> if the connection fails.
\<close>

definition run_registration ::
    "(ustr \<Rightarrow> int res) \<Rightarrow> bytes option \<Rightarrow> buddy_customer \<Rightarrow> bytes option \<times> (string \<times> nat) list \<times> buddy_customer \<times> exn option" where
  "run_registration int_str arrived c =
     (if bc_buddy_ip c = None \<or> bc_buddy_port c = 0 then (None, [], c, None)
      else
        let gone = c\<lparr>bc_buddy_ip := None\<rparr> in
        case arrived of
          None \<Rightarrow> (None, [], gone, None)
        | Some inp \<Rightarrow>
            (case build_registration_hello int_str c of
               Inl e \<Rightarrow> (None, [], gone, Some e)
             | Inr hello \<Rightarrow>
                 (case bc_read_frame inp of
                    (None, _) \<Rightarrow> (Some hello, [], gone, None)
                  | (Some answer, inp') \<Rightarrow>
                      if unat (answer ! 0) \<noteq> 0x4C then (Some hello, [], gone, None)
                      else (case relay_loop inp' of (ds, x) \<Rightarrow> (Some hello, ds, gone, x)))))"

section \<open>Addresses and frames\<close>

lemma xor_mask_xor_mask [simp]: "xor_mask (xor_mask u) = u"
  by (simp add: xor_mask_def comp_def xor.assoc)

lemma length_xor_mask [simp]: "length (xor_mask u) = length u"
  by (simp add: xor_mask_def)

lemma py_int_show_nat: "py_int (show_nat n) = Some (int n)"
  using py_int_show_int [of "int n"] by (simp add: show_int_def)

lemma dot_notin_show_nat: "CHR ''.'' \<notin> set (show_nat n)"
proof
  assume "CHR ''.'' \<in> set (show_nat n)"
  then have "is_digit (CHR ''.'')" using show_nat_digits [of n] by (auto simp: list_all_iff)
  moreover have "\<not> is_digit (CHR ''.'')" by code_simp
  ultimately show False by simp
qed

lemma split_ipv4_str:
  "py_split (CHR ''.'') (ipv4_str n) =
     [show_nat (n div 2 ^ 24), show_nat (n div 2 ^ 16 mod 256), show_nat (n div 2 ^ 8 mod 256), show_nat (n mod 256)]"
  by (simp add: ipv4_str_def py_split_append py_split_word dot_notin_show_nat)

lemma octets_or:
  fixes a b c d :: nat
  assumes "b < 256" "c < 256" "d < 256"
  shows "push_bit 24 (int a) OR push_bit 16 (int b) OR push_bit 8 (int c) OR int d =
    int (a * 2 ^ 24 + b * 2 ^ 16 + c * 2 ^ 8 + d)"
proof -
  have or: "push_bit k x OR y = push_bit k x + y" if "0 \<le> y" "y < 2 ^ k" for k and x y :: int
  proof -
    have "push_bit k x AND y = 0"
    proof (rule bit_eqI)
      fix i
      show "bit (push_bit k x AND y) i \<longleftrightarrow> bit (0 :: int) i"
      proof (cases "i < k")
        case False
        have "take_bit k y = y" using that by (simp add: take_bit_int_eq_self)
        then have "\<not> bit y i" using False by (metis bit_take_bit_iff)
        then show ?thesis by (simp add: bit_and_iff)
      qed (simp add: bit_and_iff bit_push_bit_iff)
    qed
    then show ?thesis by (simp add: disjunctive_add_eq_or)
  qed
  have 1: "push_bit 8 (int c) OR int d = int (c * 2 ^ 8 + d)"
    using or [of "int d" 8 "int c"] assms by (simp add: push_bit_eq_mult)
  have 2: "push_bit 16 (int b) OR int (c * 2 ^ 8 + d) = int (b * 2 ^ 16 + (c * 2 ^ 8 + d))"
    using or [of "int (c * 2 ^ 8 + d)" 16 "int b"] assms by (simp add: push_bit_eq_mult)
  have 3: "push_bit 24 (int a) OR int (b * 2 ^ 16 + (c * 2 ^ 8 + d)) = int (a * 2 ^ 24 + (b * 2 ^ 16 + (c * 2 ^ 8 + d)))"
    using or [of "int (b * 2 ^ 16 + (c * 2 ^ 8 + d))" 24 "int a"] assms by (simp add: push_bit_eq_mult)
  show ?thesis by (simp only: or.assoc 1 2 3 add.assoc)
qed

lemma quad_int_ipv4_str: "quad_int (ipv4_str n) = Inr (int n)"
proof -
  have s: "x div 256 * 256 + x mod 256 = x" for x :: nat by simp
  have o1: "n div 2 ^ 24 * 256 + n div 2 ^ 16 mod 256 = n div 2 ^ 16"
    using s [of "n div 2 ^ 16"] by (simp add: div_mult2_eq [symmetric])
  have horner: "a * 2 ^ 24 + b * 2 ^ 16 + c * 2 ^ 8 + d = n"
    if "a * 256 + b = x" "x * 256 + c = y" "y * 256 + d = n" for a b c d x y :: nat
    unfolding that(3) [symmetric] that(2) [symmetric] that(1) [symmetric] by simp
  have o2: "n div 2 ^ 16 * 256 + n div 2 ^ 8 mod 256 = n div 2 ^ 8"
    using s [of "n div 2 ^ 8"] by (simp add: div_mult2_eq [symmetric])
  have o3: "n div 2 ^ 8 * 256 + n mod 256 = n" using s [of n] by simp
  have "n div 2 ^ 24 * 2 ^ 24 + n div 2 ^ 16 mod 256 * 2 ^ 16 + n div 2 ^ 8 mod 256 * 2 ^ 8 + n mod 256 = n"
    by (rule horner [OF o1 o2 o3])
  then show ?thesis
    using octets_or [of "n div 2 ^ 16 mod 256" "n div 2 ^ 8 mod 256" "n mod 256" "n div 2 ^ 24"]
    by (simp add: quad_int_def split_ipv4_str py_int_show_nat)
qed

lemma op_callback_payload:
  assumes "n < 2 ^ 32"
  shows "build_op_callback_payload k fh (ipv4_str n) (int p) = Inr (k @ fh @ le_enc 4 n @ le_enc 2 (p mod 65536))"
proof -
  have "nat (int p AND 0xFFFF) = p mod 65536"
    using take_bit_eq_mask [of 16 "int p"]
    by (simp add: mask_eq_exp_minus_1 take_bit_eq_mod) (metis nat_int of_nat_mod of_nat_numeral)
  then show ?thesis
    using assms by (simp add: build_op_callback_payload_def quad_int_ipv4_str pack_le_def)
qed

lemma read_frame_wire:
  assumes "frame_wire (protocol, opcode, payload) = Inr wire"
  shows "bc_read_frame (wire @ inp) = (Some (word_of_int opcode # payload), inp)"
proof -
  from assms have w: "wire = word_of_int protocol # le_enc 4 (length payload + 1) @ word_of_int opcode # payload"
    and l: "length payload + 1 < 256 ^ 4"
    by (auto simp: frame_wire_def split: if_splits)
  have "py_slice 1 5 (wire @ inp) = le_enc 4 (length payload + 1)"
    by (simp add: w py_slice_def)
  moreover have "(wire @ inp) ! 5 = word_of_int opcode" "drop 6 (wire @ inp) = payload @ inp"
    by (simp_all add: w nth_append eval_simps)
  moreover have "\<not> length (wire @ inp) < 6" by (simp add: w)
  ultimately show ?thesis using l unfolding bc_read_frame_def Let_def by simp
qed

lemma relay_frame_callback:
  assumes "length k = 16" "length fh = 16" "n < 2 ^ 32" "p < 65536"
  shows "relay_frame (word_of_int OP_CALLBACK # k @ fh @ le_enc 4 n @ le_enc 2 p) = Inr (Some (ipv4_str n, p))"
proof -
  let ?b = "k @ fh @ le_enc 4 n @ le_enc 2 p"
  have "get_le 4 ?b 32 = Inr n" by (rule get_le_enc(1)) (use assms in auto)
  moreover have "get_le 2 ?b 36 = Inr p"
    by (rule get_le_enc(1) [where suf = "[]"]) (use assms in auto)
  ultimately show ?thesis using assms by (simp add: relay_frame_def OP_CALLBACK_def)
qed

section \<open>The registry\<close>

text \<open>Every entry is filed under both forms of its identifier, and under nothing else.\<close>

definition registry_ok :: "buddy_registry \<Rightarrow> bool" where
  "registry_ok r \<longleftrightarrow> distinct (map fst (br_served r)) \<and>
     (\<forall>k e. map_of (br_served r) k = Some e \<longrightarrow>
        (k = sb_kad_id e \<or> k = xor_mask (sb_kad_id e)) \<and> sb_kad_id_xor e = xor_mask (sb_kad_id e) \<and>
        map_of (br_served r) (xor_mask k) = Some e)"

lemma registry_ok_new: "registry_ok (registry_new m)"
  by (simp add: registry_ok_def registry_new_def)

lemma map_of_register:
  "map_of (br_served (br_register kid ip port w r)) k =
     (if k = kid \<or> k = xor_mask kid
      then Some \<lparr>sb_kad_id = kid, sb_kad_id_xor = xor_mask kid, sb_ip = ip, sb_tcp_port = port, sb_writer = w,
                 sb_object = br_next r\<rparr>
      else map_of (br_served r) k)"
  by (auto simp: br_register_def Let_def update_conv)

lemma registry_ok_register: "registry_ok r \<Longrightarrow> registry_ok (br_register kid ip port w r)"
  unfolding registry_ok_def map_of_register
proof (intro conjI allI impI)
  assume r: "distinct (map fst (br_served r)) \<and> (\<forall>k e. map_of (br_served r) k = Some e \<longrightarrow>
        (k = sb_kad_id e \<or> k = xor_mask (sb_kad_id e)) \<and> sb_kad_id_xor e = xor_mask (sb_kad_id e) \<and>
        map_of (br_served r) (xor_mask k) = Some e)"
  then show "distinct (map fst (br_served (br_register kid ip port w r)))"
    by (simp add: br_register_def Let_def distinct_update)
qed (auto split: if_splits, (metis xor_mask_xor_mask)+)

lemma map_of_unregister:
  assumes "distinct (map fst (br_served r))"
  shows "map_of (br_served (unregister_transport w r)) k =
     (case map_of (br_served r) k of Some e \<Rightarrow> if sb_writer e \<noteq> w then Some e else None | None \<Rightarrow> None)"
proof -
  have "map_of (filter (\<lambda>(k, v). P v) xs) k = (case map_of xs k of Some e \<Rightarrow> if P e then Some e else None | None \<Rightarrow> None)"
    if "distinct (map fst xs)" for xs :: "(bytes \<times> served_buddy) list" and P
    using that by (induction xs) (auto split: option.splits simp: map_of_eq_None_iff rev_image_eqI)
  from this [OF assms, of "\<lambda>v. sb_writer v \<noteq> w"] show ?thesis by (simp add: unregister_transport_def)
qed

lemma registry_ok_unregister: "registry_ok r \<Longrightarrow> registry_ok (unregister_transport w r)"
proof -
  assume r: "registry_ok r"
  then have d: "distinct (map fst (br_served r))" by (simp add: registry_ok_def)
  have "distinct (map fst (br_served (unregister_transport w r)))"
    using d unfolding unregister_transport_def by (simp add: distinct_map_filter)
  moreover have "(k = sb_kad_id e \<or> k = xor_mask (sb_kad_id e)) \<and> sb_kad_id_xor e = xor_mask (sb_kad_id e) \<and>
      map_of (br_served (unregister_transport w r)) (xor_mask k) = Some e"
    if "map_of (br_served (unregister_transport w r)) k = Some e" for k e
  proof -
    from that have "map_of (br_served r) k = Some e" "sb_writer e \<noteq> w"
      by (auto simp: map_of_unregister [OF d] split: option.splits if_splits)
    with r show ?thesis by (simp add: registry_ok_def map_of_unregister [OF d])
  qed
  ultimately show ?thesis by (simp add: registry_ok_def)
qed

text \<open>What happens to the registry on behalf of other clients and channels.\<close>

inductive other_client :: "bytes \<Rightarrow> nat \<Rightarrow> buddy_registry \<Rightarrow> buddy_registry \<Rightarrow> bool" for kid w where
  oc_register: "kid' \<noteq> kid \<Longrightarrow> kid' \<noteq> xor_mask kid \<Longrightarrow> other_client kid w r (br_register kid' ip port w' r)"
| oc_unregister: "w' \<noteq> w \<Longrightarrow> other_client kid w r (unregister_transport w' r)"
| oc_configure: "other_client kid w r (br_configure port m r)"

inductive_cases other_clientE: "other_client kid w r r'"

definition served_at :: "bytes \<Rightarrow> nat \<Rightarrow> buddy_registry \<Rightarrow> bool" where
  "served_at kid w r \<longleftrightarrow> distinct (map fst (br_served r)) \<and>
     (\<exists>e. sb_kad_id_xor e = xor_mask kid \<and> sb_writer e = w \<and>
       map_of (br_served r) kid = Some e \<and> map_of (br_served r) (xor_mask kid) = Some e)"

lemma served_at_register: "registry_ok r \<Longrightarrow> served_at kid w (br_register kid ip port w r)"
  using registry_ok_register [of r kid ip port w] by (simp add: served_at_def map_of_register registry_ok_def)

lemma served_at_other: "other_client kid w r r' \<Longrightarrow> served_at kid w r \<Longrightarrow> served_at kid w r'"
proof (erule other_clientE)
  fix kid' ip port w'
  assume s: "served_at kid w r" and r': "r' = br_register kid' ip port w' r" and ne: "kid' \<noteq> kid" "kid' \<noteq> xor_mask kid"
  have "kid \<noteq> xor_mask kid'" using ne(2) xor_mask_xor_mask by metis
  moreover have "xor_mask kid \<noteq> xor_mask kid'" using ne(1) xor_mask_xor_mask by metis
  moreover have "distinct (map fst (br_served r'))"
    using s by (simp add: r' served_at_def br_register_def Let_def distinct_update)
  ultimately show "served_at kid w r'" using s ne unfolding r' served_at_def map_of_register by auto
next
  fix w' assume s: "served_at kid w r" and r': "r' = unregister_transport w' r" and ne: "w' \<noteq> w"
  have d: "distinct (map fst (br_served r))" using s by (simp add: served_at_def)
  then have "distinct (map fst (br_served r'))" unfolding r' unregister_transport_def by (simp add: distinct_map_filter)
  then show "served_at kid w r'" using s ne by (auto simp: r' served_at_def map_of_unregister [OF d])
next
  fix port m assume "served_at kid w r" "r' = br_configure port m r"
  then have "br_served r' = br_served r" "served_at kid w r" by (simp_all add: br_configure_def)
  then show "served_at kid w r'" by (simp only: served_at_def)
qed

lemma served_at_others: "(other_client kid w)\<^sup>*\<^sup>* r r' \<Longrightarrow> served_at kid w r \<Longrightarrow> served_at kid w r'"
  by (induction rule: rtranclp_induct) (auto intro: served_at_other)

lemma served_at_lookup:
  assumes "served_at kid w r" and "u = kid \<or> u = xor_mask kid"
  shows "\<exists>e. br_lookup u r = Some e \<and> sb_kad_id_xor e = xor_mask kid \<and> sb_writer e = w"
  using assms by (auto simp: served_at_def br_lookup_def)

section \<open>The callback\<close>

lemma registration_parsed:
  fixes unpack_u :: "bytes \<Rightarrow> unit"
  assumes "registration_payload int_str c = Inr p" and "length (bc_kad_id c) = 16"
  shows "\<exists>tags. parse_hello unpack_u p = Inr (bc_userhash c, 1, nat (bc_tcp_port c), AMULED, 0x3C, tags) \<and>
    buddy_tag_id tags = Some (bc_kad_id c)"
proof -
  from assms(1) obtain v where p: "build_hello_payload int_str (bc_userhash c) 1 (bc_tcp_port c) AMULED 0x3C
      [hello_tag SERVINGBUDDYID HASH16 (VBytes (bc_kad_id c)), hello_tag SERVINGBUDDYIP UINT32 (VInt v),
       hello_tag SERVINGBUDDYUDP UINT32 (VInt 0) :: unit ed2k_tag] = Inr p"
    by (auto simp: registration_payload_def hello_extra_tags_def bindE_eq_Inr_conv)
  have "parse_hello_body unpack_u p = Inr (bc_userhash c, nat 1, nat (bc_tcp_port c), map hello_canon (build_hello_tags AMULED 0x3C @
      [hello_tag SERVINGBUDDYID HASH16 (VBytes (bc_kad_id c)), hello_tag SERVINGBUDDYIP UINT32 (VInt v),
       hello_tag SERVINGBUDDYUDP UINT32 (VInt 0)]), nat 0, nat 0)"
    by (rule hello_body_roundtrip [OF p [unfolded build_hello_payload_def]])
      (use assms(2) in \<open>simp_all add: hello_ok_def hello_tag_def\<close>)
  moreover have "hello_names (map hello_canon (build_hello_tags AMULED 0x3C @
      [hello_tag SERVINGBUDDYID HASH16 (VBytes (bc_kad_id c)), hello_tag SERVINGBUDDYIP UINT32 (VInt v),
       hello_tag SERVINGBUDDYUDP UINT32 (VInt 0)])) ([], 0) = (AMULED, 0x3C)"
    by (simp add: hello_names_append hello_names_built hello_canon_def hello_tag_def SERVINGBUDDYID_def
        SERVINGBUDDYIP_def SERVINGBUDDYUDP_def)
  ultimately show ?thesis
    by (simp add: parse_hello_def buddy_tag_id_def build_hello_tags_def Let_def hello_canon_def hello_tag_def
        SERVINGBUDDYID_def SERVINGBUDDYIP_def SERVINGBUDDYUDP_def)
qed

lemma callback_relayed:
  assumes "served_at kid w r" and "length kid = 16" and "u = kid \<or> u = xor_mask kid"
    and "build_kad_callback_req_payload u fh port = Inr req" and "n < 2 ^ 32" and "writable w"
  shows "\<exists>wire. parse_callback_req req = Inr (u, fh, nat port, 0) \<and>
    relay_op_callback writable u fh (ipv4_str n) (int (nat port)) r = Inr (True, Some (w, wire)) \<and>
    (\<forall>inp. bc_read_frame (wire @ inp) = (Some (word_of_int OP_CALLBACK # xor_mask kid @ fh @ le_enc 4 n @ le_enc 2 (nat port)), inp)) \<and>
    length fh = 16 \<and> port \<le> 0xFFFF"
proof -
  from assms(4) have l: "length u = 16" "length fh = 16" "0 \<le> port" "port \<le> 0xFFFF"
    and req: "req = u @ fh @ le_enc 2 (nat port)"
    by (auto simp: build_kad_callback_req_payload_def split: if_splits)
  then have p: "nat port < 65536" by linarith
  have "get_le 2 req 32 = Inr (nat port)"
    by (rule get_le_enc(1) [where suf = "[]"]) (use l p req in auto)
  then have parsed: "parse_callback_req req = Inr (u, fh, nat port, 0)"
    using l by (simp add: parse_callback_req_def req py_slice_def)
  from served_at_lookup [OF assms(1,3)] obtain e where
    e: "br_lookup u r = Some e" "sb_kad_id_xor e = xor_mask kid" "sb_writer e = w" by blast
  let ?pl = "xor_mask kid @ fh @ le_enc 4 n @ le_enc 2 (nat port)"
  have pl: "build_op_callback_payload (sb_kad_id_xor e) fh (ipv4_str n) (int (nat port)) = Inr ?pl"
    using op_callback_payload [OF assms(5), of "xor_mask kid" fh "nat port"] e(2) p by (simp del: of_nat_nat int_nat_eq)
  have "\<exists>wire. frame_wire (EMULE, OP_CALLBACK, ?pl) = Inr wire"
    using l assms(2) by (simp add: frame_wire_def OP_CALLBACK_def EMULE_def)
  then obtain wire where wire: "frame_wire (EMULE, OP_CALLBACK, ?pl) = Inr wire" ..
  have "relay_op_callback writable u fh (ipv4_str n) (int (nat port)) r = Inr (True, Some (w, wire))"
    using e pl wire assms(6) by (simp add: relay_op_callback_def del: of_nat_nat int_nat_eq)
  with parsed read_frame_wire [OF wire] l show ?thesis by blast
qed

lemma relay_loop_callback:
  assumes "\<forall>inp. bc_read_frame (wire @ inp) = (Some (word_of_int OP_CALLBACK # k @ fh @ le_enc 4 n @ le_enc 2 p), inp)"
    and "length k = 16" "length fh = 16" "n < 2 ^ 32" "p < 65536"
  shows "relay_loop (wire @ inp) = ((ipv4_str n, p) # fst (relay_loop inp), snd (relay_loop inp))"
  using assms relay_frame_callback [OF assms(2-5)] by (subst relay_loop.simps) (simp add: case_prod_unfold)

text \<open>
  A relay of 36 or 37 bytes passes the length check and raises \<open>struct.error\<close>, which ends the whole
  registration.
\<close>

lemma short_relay_raises:
  assumes "length body = 36 \<or> length body = 37"
  shows "relay_frame (word_of_int OP_CALLBACK # body) = Inl StructError"
  using assms by (auto simp: relay_frame_def get_le_def OP_CALLBACK_def bindE_def)

text \<open>The registry admits clients beyond the capacity that \<open>can_serve\<close> announces.\<close>

lemma registration_beyond_capacity:
  "\<exists>r r'. br_max_served r = 1 \<and> \<not> can_serve r \<and> r' = br_register (replicate 16 2) '''' 0 1 r \<and>
     br_lookup (replicate 16 2) r' \<noteq> None"
proof -
  let ?r = "br_configure 4662 1 (br_register (replicate 16 1) '''' 0 0 (registry_new 1))"
  have "card (sb_object ` set (map snd (br_served ?r))) = 1"
    by (simp add: br_register_def registry_new_def Let_def br_configure_def xor_mask_def replicate_eq_replicate)
  then have "\<not> can_serve ?r" "br_max_served ?r = 1" by (simp_all add: can_serve_def br_configure_def)
  moreover have "br_lookup (replicate 16 2) (br_register (replicate 16 2) '''' 0 1 ?r) \<noteq> None"
    by (simp add: br_lookup_def map_of_register)
  ultimately show ?thesis by blast
qed

end
