(* ===== verification/Peer_Listener.thy ===== *)
theory Peer_Listener
  imports Secure_Ident Kad_Buddy Upload_Queue
begin

text \<open>
  \<open>core/peer/listener.py\<close>: an incoming connection from its first packet to its end, as a step relation
  on a phase, the session's own state and the state it shares with the other sessions (upload queue,
  SecureIdent provider, buddy registry, credit ledger). An event is what one \<open>recv\<close> brings; between two
  events of a session the shared state may have been changed by others. Logging, the pacing of uploads
  and the elapsed time of the report are left out.
\<close>

section \<open>Identity and shared files\<close>

record local_identity =
  li_user_hash :: bytes
  li_client_id :: int
  li_tcp_port :: int
  li_nickname :: ustr

definition mk_local_identity :: "bytes \<Rightarrow> int \<Rightarrow> int \<Rightarrow> ustr \<Rightarrow> local_identity res" where
  "mk_local_identity user_hash client_id tcp_port nickname =
     (if length user_hash \<noteq> 16 then Inl ListenerError
      else if \<not> (0 \<le> client_id \<and> client_id \<le> 0xFFFFFFFF) then Inl ListenerError
      else if \<not> (0 \<le> tcp_port \<and> tcp_port \<le> 0xFFFF) then Inl ListenerError
      else if nickname = [] then Inl ListenerError
      else Inr \<lparr>li_user_hash = user_hash, li_client_id = client_id, li_tcp_port = tcp_port, li_nickname = nickname\<rparr>)"

record shared_row =
  row_hash :: string
  row_name :: ustr
  row_size :: int
  row_path :: "ustr option"
  row_priority :: int

text \<open>\<open>state\<close> is the lookup of the state store by hexadecimal hash; whatever it raises becomes a \<open>ListenerError\<close>.\<close>

definition resolver_resolve :: "(string \<Rightarrow> shared_row option res) \<Rightarrow> bytes \<Rightarrow> shared_file option res" where
  "resolver_resolve state fh =
     (if length fh \<noteq> 16 then Inr None
      else case state (to_hex fh) of
        Inl e \<Rightarrow> Inl ListenerError
      | Inr None \<Rightarrow> Inr None
      | Inr (Some row) \<Rightarrow>
          if row_path row = None then Inr None
          else (case from_hex (row_hash row) of
            None \<Rightarrow> Inl ListenerError
          | Some h \<Rightarrow>
              (case mk_shared_file h (row_name row) (row_size row) (row_path row) (row_priority row) None of
                 Inl e \<Rightarrow> Inl ListenerError | Inr sf \<Rightarrow> Inr (Some sf))))"

section \<open>State\<close>

definition OP_HELLO :: int where "OP_HELLO = 0x01"
definition OP_HELLOANSWER :: int where "OP_HELLOANSWER = 0x4C"
definition OP_EMULEINFO :: int where "OP_EMULEINFO = 0x01"
definition OP_EMULEINFOANSWER :: int where "OP_EMULEINFOANSWER = 0x02"
definition OP_PUBLICKEY :: int where "OP_PUBLICKEY = 0x85"
definition OP_SIGNATURE :: int where "OP_SIGNATURE = 0x86"
definition OP_SECIDENTSTATE :: int where "OP_SECIDENTSTATE = 0x87"

text \<open>
  \<open>ls_peer_sx1\<close> is the local variable \<open>peer_sx1\<close>, unbound until the first source request of version 2;
  \<open>ls_sx\<close> is what it would be bound to.
\<close>

record lsession =
  ls_peer_ip :: string
  ls_writer :: nat
  ls_user :: bytes
  ls_client_id :: nat
  ls_client_port :: nat
  ls_nick :: ustr
  ls_sx :: int
  ls_challenge_in :: "nat option"
  ls_challenge_out :: "int option"
  ls_peer_blob :: bytes
  ls_peer_sx1 :: "int option"
  ls_out :: "frame list"

record 'k lworld =
  lw_now :: real
  lw_queue :: upload_queue
  lw_ident :: "'k secure_ident option"
  lw_registry :: buddy_registry
  lw_credits :: "(string \<times> nat) list"

type_synonym 'k lstate = "lsession \<times> 'k lworld"

text \<open>\<open>le_nick\<close> is the form in which the queue keeps a nickname; \<open>le_random\<close> are the four random bytes of a challenge.\<close>

record 'k li_env =
  le_identity :: local_identity
  le_int_str :: "ustr \<Rightarrow> int res"
  le_nick :: "ustr \<Rightarrow> string"
  le_rsa :: "'k rsa"
  le_random :: nat
  le_resolve :: "bytes \<Rightarrow> shared_file option res"
  le_sources :: "(bytes \<Rightarrow> sx_source list res) option"
  le_md4 :: "bytes \<Rightarrow> bytes"
  le_zlib :: zlib
  le_fs :: file_system
  le_allow_compression :: bool
  le_records_credit :: bool

definition lsession_new :: "string \<Rightarrow> nat \<Rightarrow> lsession" where
  "lsession_new peer_ip w =
     \<lparr>ls_peer_ip = peer_ip, ls_writer = w, ls_user = [], ls_client_id = 0, ls_client_port = 0, ls_nick = [], ls_sx = 0,
      ls_challenge_in = None, ls_challenge_out = None, ls_peer_blob = [], ls_peer_sx1 = None, ls_out = []\<rparr>"

definition ls_key :: "lsession \<Rightarrow> string" where
  "ls_key s = to_hex (ls_user s)"

section \<open>The first packet\<close>

definition listener_transport :: transport where
  "listener_transport = \<lparr>tr_protocol = EDONKEY, tr_allow_emule = True\<rparr>"

text \<open>
  \<open>_expect_first_packet\<close> over the bytes that arrive: a first byte of a known protocol stays in the stream,
  any other one is handed to the obfuscation acceptor, which answers with the decrypted stream.
\<close>

definition expect_first_packet :: "(byte \<Rightarrow> link \<Rightarrow> link res) \<Rightarrow> link \<Rightarrow> (int \<times> bytes) res \<times> link" where
  "expect_first_packet accept l =
     (case lk_in l of
        [] \<Rightarrow> (Inl ListenerError, l)
      | b # bs \<Rightarrow>
          let opened = (if uint b \<in> {EDONKEY, EMULE, 0xD4} then Inr l else accept b (l\<lparr>lk_in := bs\<rparr>)) in
          case opened of
            Inl e \<Rightarrow> (Inl ListenerError, l)
          | Inr l1 \<Rightarrow>
              (case transport_recv listener_transport l1 of
                 (Inl e, l2) \<Rightarrow> (Inl e, l2)
               | (Inr None, l2) \<Rightarrow> (Inl ListenerError, l2)
               | (Inr (Some (protocol, opcode, payload)), l2) \<Rightarrow>
                   if protocol \<noteq> EDONKEY \<and> protocol \<noteq> EMULE then (Inl ListenerError, l2) else (Inr (opcode, payload), l2)))"

section \<open>Requests before the transfer\<close>

definition l_append :: "frame \<Rightarrow> lsession \<Rightarrow> lsession" where
  "l_append f s = s\<lparr>ls_out := ls_out s @ [f]\<rparr>"

definition l_send :: "int option \<Rightarrow> int \<Rightarrow> bytes \<Rightarrow> 'k lstate \<Rightarrow> 'k lstate stmt" where
  "l_send protocol opcode payload x =
     or_raise (transport_send listener_transport protocol opcode payload) x (\<lambda>_.
       ((l_append (case protocol of None \<Rightarrow> EDONKEY | Some p \<Rightarrow> p, opcode, payload) (fst x), snd x), None))"

text \<open>SecureIdent: the answer to a challenge, the key of the peer, its signature.\<close>

definition on_secident_state :: "'k li_env \<Rightarrow> bytes \<Rightarrow> 'k lstate \<Rightarrow> 'k lstate stmt" where
  "on_secident_state env payload x =
     or_raise (parse_secident_state_payload payload) x (\<lambda>(state, challenge).
       let x1 = ((fst x)\<lparr>ls_challenge_in := Some challenge\<rparr>, snd x) in
       case lw_ident (snd x1) of
         None \<Rightarrow> (x1, Some AttributeError)
       | Some p \<Rightarrow>
           or_raise (bindE (public_blob p) build_publickey_payload) x1 (\<lambda>key.
             run_after (l_send (Some EMULE) OP_PUBLICKEY key x1) (\<lambda>x2.
               or_raise (bindE (create_signature (le_rsa env) (int challenge) 0 [] p) (\<lambda>sig. build_signature_payload sig 0)) x2
                 (\<lambda>sig. l_send (Some EMULE) OP_SIGNATURE sig x2))))"

definition on_publickey :: "bytes \<Rightarrow> 'k lstate \<Rightarrow> 'k lstate stmt" where
  "on_publickey payload x =
     or_raise (parse_publickey_payload payload) x (\<lambda>blob. (((fst x)\<lparr>ls_peer_blob := blob\<rparr>, snd x), None))"

definition on_signature :: "'k li_env \<Rightarrow> bytes \<Rightarrow> 'k lstate \<Rightarrow> 'k lstate stmt" where
  "on_signature env payload x =
     or_raise (parse_signature_payload payload) x (\<lambda>(sig, ip_kind).
       case ls_challenge_out (fst x) of
         None \<Rightarrow> (x, None)
       | Some challenge \<Rightarrow>
           if ls_peer_blob (fst x) = [] then (x, None)
           else or_raise (verify_signature (le_rsa env) (ls_peer_blob (fst x)) sig challenge 0 []) x (\<lambda>verified.
             if \<not> verified then (x, None)
             else case lw_ident (snd x) of
               None \<Rightarrow> (x, Some AttributeError)
             | Some p \<Rightarrow> ((fst x, (snd x)\<lparr>lw_ident := Some (mark_verified (ls_key (fst x)) p)\<rparr>), None)))"

text \<open>Source exchange. A source provider that raises counts as one without sources.\<close>

definition on_request_sources2 :: "'k li_env \<Rightarrow> bytes \<Rightarrow> 'k lstate \<Rightarrow> 'k lstate stmt" where
  "on_request_sources2 env payload x =
     (case le_sources env of
        None \<Rightarrow> (x, None)
      | Some provider \<Rightarrow>
          (case parse_request_sources2 payload of
             Inl e \<Rightarrow> (x, None)
           | Inr (version, options, fh) \<Rightarrow>
               let sx = ls_sx (fst x); x1 = ((fst x)\<lparr>ls_peer_sx1 := Some sx\<rparr>, snd x) in
               if \<not> (version > 0 \<or> sx > 1) then (x1, None)
               else case provider fh of
                 Inl e \<Rightarrow> (x1, None)
               | Inr [] \<Rightarrow> (x1, None)
               | Inr sources \<Rightarrow>
                   or_raise (build_answer_sources2 (clamp_version (int version)) fh sources) x1 (\<lambda>p.
                     l_send (Some EMULE) OP_ANSWERSOURCES2 p x1)))"

definition on_request_sources :: "'k li_env \<Rightarrow> bytes \<Rightarrow> 'k lstate \<Rightarrow> 'k lstate stmt" where
  "on_request_sources env payload x =
     (case le_sources env of
        None \<Rightarrow> (x, None)
      | Some provider \<Rightarrow>
          (case parse_request_sources payload of
             Inl e \<Rightarrow> (x, None)
           | Inr fh \<Rightarrow>
               if ls_sx (fst x) \<le> 1 then (x, None)
               else case provider fh of
                 Inl e \<Rightarrow> (x, None)
               | Inr [] \<Rightarrow> (x, None)
               | Inr sources \<Rightarrow>
                   or_raise (case ls_peer_sx1 (fst x) of None \<Rightarrow> Inl NameError
                             | Some v \<Rightarrow> build_answer_sources fh sources v) x (\<lambda>p.
                     l_send (Some EMULE) OP_ANSWERSOURCES p x)))"

text \<open>
  The AICH responder: the recovery data of one part if the file is here and its master hash is the one
  asked for. Only \<open>AichError\<close> and a malformed request are caught.
\<close>

definition aich_recovery_for :: "'k li_env \<Rightarrow> bytes \<Rightarrow> (bytes \<times> nat \<times> bytes \<times> bytes) option res" where
  "aich_recovery_for env payload =
     (case parse_aich_request_payload payload of
        Inl e \<Rightarrow> Inr None
      | Inr (fh, part, master) \<Rightarrow>
          bindE (le_resolve env fh) (\<lambda>shared.
            case shared of
              None \<Rightarrow> Inr None
            | Some sf \<Rightarrow>
                if sf_path sf = None \<or> sf_path sf = Some [] then Inr None
                else
                  case bindE (case le_fs env (the (sf_path sf)) of None \<Rightarrow> Inl OSError | Some c \<Rightarrow> aich_hash_file c) (\<lambda>r.
                         if ar_master_hash r \<noteq> master then Inr None
                         else if int part \<ge> (sf_size sf + int PARTSIZE - 1) div int PARTSIZE then Inr None
                         else bindE (aich_part_recovery_data r (int part)) (\<lambda>d. Inr (Some (fh, part, master, d)))) of
                    Inl AichError \<Rightarrow> Inr None
                  | y \<Rightarrow> y))"

definition handle_aich_request :: "'k li_env \<Rightarrow> bytes \<Rightarrow> 'k lstate \<Rightarrow> 'k lstate stmt" where
  "handle_aich_request env payload x =
     or_raise (aich_recovery_for env payload) x (\<lambda>answer.
       case answer of
         None \<Rightarrow> (x, None)
       | Some (fh, part, master, recovery) \<Rightarrow>
           or_raise (build_aich_answer_payload fh (int part) master recovery) x (\<lambda>p.
             l_send (Some EMULE) OP_AICHANSWER p x))"

definition on_request_filename :: "'k li_env \<Rightarrow> bytes \<Rightarrow> 'k lstate \<Rightarrow> 'k lstate stmt" where
  "on_request_filename env payload x =
     (case parse_file_hash_payload payload of
        Inl e \<Rightarrow> (x, None)
      | Inr fh \<Rightarrow>
          or_raise (le_resolve env fh) x (\<lambda>shared.
            case shared of
              None \<Rightarrow> (x, None)
            | Some sf \<Rightarrow> or_raise (build_file_name_answer_payload fh (sf_name sf)) x (\<lambda>p. l_send None OP_REQFILENAMEANSWER p x)))"

text \<open>A file that is gone from the disk raises in the constructor of the block source, which is not caught.\<close>

definition on_hashset_request :: "'k li_env \<Rightarrow> bytes \<Rightarrow> 'k lstate \<Rightarrow> 'k lstate stmt" where
  "on_hashset_request env payload x =
     (case parse_file_hash_payload payload of
        Inl e \<Rightarrow> (x, None)
      | Inr fh \<Rightarrow>
          or_raise (le_resolve env fh) x (\<lambda>shared.
            case shared of
              None \<Rightarrow> (x, None)
            | Some sf \<Rightarrow>
                or_raise (block_source_new (le_fs env) sf PARTSIZE) x (\<lambda>b.
                or_raise (case bs_chunk_hashes (le_md4 env) (le_fs env) b of
                            Inl UploadEngineError \<Rightarrow> Inr [] | Inl e \<Rightarrow> Inl e | Inr b' \<Rightarrow> Inr (bs_chunks b')) x (\<lambda>hashes.
                  if hashes = [] then (x, None)
                  else or_raise (build_hashset_answer_payload (sf_hash sf) hashes) x (\<lambda>p. l_send None OP_HASHSETANSWER p x)))))"

definition emuleinfo_tags :: "unit ed2k_tag list" where
  "emuleinfo_tags = map (\<lambda>(n, v). hello_tag n UINT32 (VInt v))
     [(0x20, 1), (0x22, 0), (0x21, 0), (0x23, 4), (0x24, 0), (0x25, 0), (0x27, 3)]"

definition build_emuleinfo_payload :: "int \<Rightarrow> bytes res" where
  "build_emuleinfo_payload emule_version =
     bindE (write_u8 emule_version []) (\<lambda>w1.
     bindE (write_u8 EMULE w1) (\<lambda>w2.
     bindE (write_u32 (int (length emuleinfo_tags)) w2) (\<lambda>w3.
       foldE (\<lambda>w t. write_new_tag (\<lambda>_. None) t w) w3 emuleinfo_tags)))"

definition on_emuleinfo :: "'k lstate \<Rightarrow> 'k lstate stmt" where
  "on_emuleinfo x = or_raise (build_emuleinfo_payload 0x3C) x (\<lambda>p. l_send (Some EMULE) OP_EMULEINFOANSWER p x)"

text \<open>
  One packet before \<open>OP_STARTUPLOADREQ\<close>. The protocol byte plays no part in the dispatch.
\<close>

definition pre_packet :: "'k li_env \<Rightarrow> int \<Rightarrow> bytes \<Rightarrow> 'k lstate \<Rightarrow> 'k lstate stmt" where
  "pre_packet env opcode payload x =
     (if opcode = OP_SECIDENTSTATE then on_secident_state env payload x
      else if opcode = OP_PUBLICKEY then on_publickey payload x
      else if opcode = OP_SIGNATURE then on_signature env payload x
      else if opcode = OP_REQUESTSOURCES2 then on_request_sources2 env payload x
      else if opcode = OP_REQUESTSOURCES then on_request_sources env payload x
      else if opcode = OP_AICHREQUEST then handle_aich_request env payload x
      else if opcode = OP_REQUESTFILENAME then on_request_filename env payload x
      else if opcode = OP_HASHSETREQUEST then on_hashset_request env payload x
      else if opcode = OP_SETREQFILEID then (x, None)
      else if opcode = OP_EMULEINFO then on_emuleinfo x
      else (x, None))"

section \<open>The upload queue as a session uses it\<close>

definition enqueue_peer :: "'k li_env \<Rightarrow> lsession \<Rightarrow> string \<Rightarrow> int \<Rightarrow> 'k lworld \<Rightarrow> (nat \<times> 'k lworld) res" where
  "enqueue_peer env s key priority w =
     bindE (enqueue (lw_now w) (ls_key s) (int (ls_client_id s)) (int (ls_client_port s)) (le_nick env (ls_nick s)) key priority (lw_queue w))
       (\<lambda>(rank, q). Inr (rank, w\<lparr>lw_queue := q\<rparr>))"

text \<open>A slot for the head of the queue, if that is this client with this file; a refusal is logged.\<close>

definition try_grant :: "lsession \<Rightarrow> string \<Rightarrow> 'k lworld \<Rightarrow> 'k lworld option" where
  "try_grant s key w =
     (case next_for_slot (lw_queue w) of
        None \<Rightarrow> None
      | Some head \<Rightarrow>
          if uc_user_hash head = ls_key s \<and> uc_requested_hash head = key then
            (case grant_slot (lw_now w) (ls_key s) key (lw_queue w) of Inl e \<Rightarrow> None | Inr q \<Rightarrow> Some (w\<lparr>lw_queue := q\<rparr>))
          else None)"

text \<open>
  The decision on a request: to serve with a slot that is already active, to serve with a slot granted
  now, or to wait at a rank.
\<close>

datatype decision = Active | Granted | Wait nat

definition ask_slot :: "'k li_env \<Rightarrow> lsession \<Rightarrow> string \<Rightarrow> int \<Rightarrow> 'k lworld \<Rightarrow> (decision \<times> 'k lworld) res" where
  "ask_slot env s key priority w =
     bindE (is_active (ls_key s) key (lw_queue w)) (\<lambda>active.
       if active then Inr (Active, w)
       else bindE (enqueue_peer env s key priority w) (\<lambda>(rank, w1).
         case try_grant s key w1 of None \<Rightarrow> Inr (Wait rank, w1) | Some w2 \<Rightarrow> Inr (Granted, w2)))"

text \<open>The hook of the upload engine takes the same decision; the slot it grants is not remembered for release.\<close>

definition start_upload_hook :: "'k li_env \<Rightarrow> lsession \<Rightarrow> int \<Rightarrow> bytes \<Rightarrow> 'k lworld \<Rightarrow> (string \<times> int) res \<times> 'k lworld" where
  "start_upload_hook env s priority fh w =
     (case ask_slot env s (to_hex fh) priority w of
        Inl e \<Rightarrow> (Inl e, w)
      | Inr (Wait rank, w1) \<Rightarrow> (Inr (''queue'', int rank), w1)
      | Inr (_, w1) \<Rightarrow> (Inr (''accept'', 0), w1))"

section \<open>The phases of a session\<close>

text \<open>
  \<open>Queued\<close>: the file, the key of the request, the rank last reported and the request itself.
  \<open>Serving\<close>: the upload session and the slot to release. \<open>Closed\<close> is the report's detail or the exception
  the session ended with.
\<close>

datatype 'k phase =
    Greeting
  | Requests
  | Queued shared_file string nat bytes
  | Serving "'k lworld up_session" "up_key option"
  | Draining nat
  | Buddy_channel
  | Closed "string res"

type_synonym 'k lconf = "'k phase \<times> 'k lstate"

datatype levent = Got int bytes | Eof | Quiet | Broke exn

definition up_env_of :: "'k li_env \<Rightarrow> lsession \<Rightarrow> int \<Rightarrow> 'k lworld up_env" where
  "up_env_of env s priority =
     \<lparr>ue_md4 = le_md4 env, ue_zlib = le_zlib env, ue_fs = le_fs env, ue_hook = Some (start_upload_hook env s priority),
      ue_aich = Some (\<lambda>payload w. case handle_aich_request env payload (s\<lparr>ls_out := []\<rparr>, w) of ((s', w'), _) \<Rightarrow> (ls_out s', w'))\<rparr>"

definition raise_in :: "'k lstate \<Rightarrow> exn \<Rightarrow> 'k lconf" where
  "raise_in x e = (Closed (Inl e), x)"

definition then_phase :: "'k lstate stmt \<Rightarrow> ('k lstate \<Rightarrow> 'k lconf) \<Rightarrow> 'k lconf" where
  "then_phase m f = (case m of (x, None) \<Rightarrow> f x | (x, Some e) \<Rightarrow> raise_in x e)"

definition credit_uploaded :: "'k li_env \<Rightarrow> nat \<Rightarrow> 'k lstate \<Rightarrow> 'k lstate" where
  "credit_uploaded env n x =
     (if le_records_credit env \<and> n > 0
      then (fst x, (snd x)\<lparr>lw_credits := lw_credits (snd x) @ [(ls_key (fst x), n)]\<rparr>) else x)"

definition finish_transfer :: "'k li_env \<Rightarrow> nat \<Rightarrow> 'k lstate \<Rightarrow> 'k lconf" where
  "finish_transfer env n x = (Closed (Inr ''transfer_complete''), credit_uploaded env n x)"

text \<open>The end of the engine's loop: the granted slot is released, then the session drains.\<close>

definition finish_engine :: "'k lworld up_session \<Rightarrow> up_key option \<Rightarrow> 'k lstate \<Rightarrow> 'k lconf" where
  "finish_engine us granted x =
     (case granted of
        None \<Rightarrow> (Draining (us_bytes_sent us), x)
      | Some (u, k) \<Rightarrow>
          (case release_slot u k (lw_queue (snd x)) of
             Inl e \<Rightarrow> raise_in x e
           | Inr (released, q) \<Rightarrow> (Draining (us_bytes_sent us), (fst x, (snd x)\<lparr>lw_queue := q\<rparr>))))"

text \<open>\<open>_run_upload_engine\<close> turns an engine error into a \<open>ListenerError\<close>; only that one is credited.\<close>

definition fail_engine :: "'k li_env \<Rightarrow> 'k lworld up_session \<Rightarrow> exn \<Rightarrow> 'k lstate \<Rightarrow> 'k lconf" where
  "fail_engine env us e x =
     (if e = UploadEngineError \<or> e = ListenerError then raise_in (credit_uploaded env (us_bytes_sent us) x) ListenerError
      else raise_in x e)"

text \<open>The frames and the shared state of an engine step become those of the session.\<close>

definition engine_done :: "'k lworld up_session \<Rightarrow> lsession \<Rightarrow> 'k lstate" where
  "engine_done us s = (s\<lparr>ls_out := ls_out s @ us_out us\<rparr>, us_world us)"

definition serve_packet :: "'k li_env \<Rightarrow> 'k lworld up_session \<Rightarrow> up_key option \<Rightarrow> int \<Rightarrow> bytes \<Rightarrow> 'k lstate \<Rightarrow> 'k lconf" where
  "serve_packet env us granted opcode payload x =
     (case engine_step (up_env_of env (fst x) (sf_priority (us_shared us))) opcode payload (us\<lparr>us_world := snd x, us_out := []\<rparr>) of
        (us', Going) \<Rightarrow> (Serving us' granted, engine_done us' (fst x))
      | (us', Ended) \<Rightarrow> finish_engine us' granted (engine_done us' (fst x))
      | (us', Raised e) \<Rightarrow> fail_engine env us' e (engine_done us' (fst x)))"

text \<open>
  The hand-over to the engine: the request that started it is replayed as the engine's first packet.
\<close>

definition start_engine :: "'k li_env \<Rightarrow> shared_file \<Rightarrow> bytes \<Rightarrow> up_key option \<Rightarrow> 'k lstate \<Rightarrow> 'k lconf" where
  "start_engine env sf payload granted x =
     (case block_source_new (le_fs env) sf PARTSIZE of
        Inl e \<Rightarrow> raise_in x e
      | Inr b \<Rightarrow>
          (case bs_open (le_fs env) b of
             Inl e \<Rightarrow> fail_engine env (up_session_new b (le_allow_compression env) (snd x)) e x
           | Inr b1 \<Rightarrow>
               serve_packet env (up_session_new b1 (le_allow_compression env) (snd x)) granted OP_STARTUPLOADREQ payload x))"

definition send_rank :: "shared_file \<Rightarrow> string \<Rightarrow> nat \<Rightarrow> bytes \<Rightarrow> 'k lstate \<Rightarrow> 'k lconf" where
  "send_rank sf key rank payload x =
     then_phase (l_send None OP_QUEUERANK (le_enc 4 (rank mod 2 ^ 32)) x) (\<lambda>x1. (Queued sf key rank payload, x1))"

text \<open>\<open>OP_STARTUPLOADREQ\<close>: an unknown file ends the session, a known one asks for a slot.\<close>

definition on_start_upload :: "'k li_env \<Rightarrow> bytes \<Rightarrow> 'k lstate \<Rightarrow> 'k lconf" where
  "on_start_upload env payload x =
     (case bindE (parse_file_hash_payload payload) (\<lambda>fh. bindE (le_resolve env fh) (\<lambda>shared. Inr (fh, shared))) of
        Inl e \<Rightarrow> raise_in x e
      | Inr (fh, None) \<Rightarrow>
          then_phase (or_raise (build_end_of_download_payload fh) x (\<lambda>p. l_send None OP_END_OF_DOWNLOAD p x))
            (\<lambda>x1. (Closed (Inr ''file_not_found''), x1))
      | Inr (fh, Some sf) \<Rightarrow>
          (case ask_slot env (fst x) (to_hex fh) (sf_priority sf) (snd x) of
             Inl e \<Rightarrow> raise_in x e
           | Inr (Active, w) \<Rightarrow> start_engine env sf payload None (fst x, w)
           | Inr (Granted, w) \<Rightarrow> start_engine env sf payload (Some (ls_key (fst x), to_hex fh)) (fst x, w)
           | Inr (Wait rank, w) \<Rightarrow> send_rank sf (to_hex fh) rank payload (fst x, w)))"

section \<open>One event in each phase\<close>

text \<open>
  The HELLO: answered, followed by a challenge if both sides know SecureIdent; a client that names a
  serving buddy is registered and gets no upload.
\<close>

definition on_hello :: "'k li_env \<Rightarrow> bytes \<Rightarrow> 'k lstate \<Rightarrow> 'k lconf" where
  "on_hello env payload x =
     (case parse_hello (\<lambda>_. ()) payload of
        Inl e \<Rightarrow> raise_in x ListenerError
      | Inr (user_hash, client_id, client_port, nick, ver, tags) \<Rightarrow>
          let x0 = ((fst x)\<lparr>ls_user := user_hash, ls_client_id := client_id, ls_client_port := client_port, ls_nick := nick,
                            ls_sx := miso1_source_exchange tags\<rparr>, snd x);
              me = le_identity env in
          then_phase
            (or_raise (build_hello_answer_payload (le_int_str env) (li_user_hash me) (li_client_id me) (li_tcp_port me)
                         (li_nickname me) 0 0 0x3C) x0 (\<lambda>answer.
             run_after (l_send None OP_HELLOANSWER answer x0) (\<lambda>x1.
               if (case lw_ident (snd x1) of None \<Rightarrow> False | Some p \<Rightarrow> has_keys p) \<and> miso1_secident_support tags \<noteq> 0 then
                 let challenge = (if le_random env = 0 then 1 else int (le_random env));
                     x2 = ((fst x1)\<lparr>ls_challenge_out := Some challenge\<rparr>, snd x1) in
                 l_send (Some EMULE) OP_SECIDENTSTATE (build_secident_state_payload 2 challenge) x2
               else (x1, None))))
            (\<lambda>x3. case buddy_tag_id tags of
               None \<Rightarrow> (Requests, x3)
             | Some kad_id \<Rightarrow>
                 (Buddy_channel, (fst x3, (snd x3)\<lparr>lw_registry :=
                    br_register kad_id (ls_peer_ip (fst x3)) client_port (ls_writer (fst x3)) (lw_registry (snd x3))\<rparr>))))"

fun greeting_step :: "'k li_env \<Rightarrow> levent \<Rightarrow> 'k lstate \<Rightarrow> 'k lconf" where
  "greeting_step env (Got opcode payload) x = (if opcode \<noteq> OP_HELLO then raise_in x ListenerError else on_hello env payload x)"
| "greeting_step env Eof x = raise_in x ListenerError"
| "greeting_step env Quiet x = (Greeting, x)"
| "greeting_step env (Broke e) x = raise_in x e"

fun requests_step :: "'k li_env \<Rightarrow> levent \<Rightarrow> 'k lstate \<Rightarrow> 'k lconf" where
  "requests_step env (Got opcode payload) x =
     (if opcode = OP_STARTUPLOADREQ then on_start_upload env payload x
      else then_phase (pre_packet env opcode payload x) (\<lambda>x1. (Requests, x1)))"
| "requests_step env Eof x = raise_in x ListenerError"
| "requests_step env Quiet x = (Requests, x)"
| "requests_step env (Broke e) x = raise_in x e"

text \<open>
  Waiting: the rank is sent again after every packet. A client that hangs up or ends the download is
  reported as queued; its entry stays in the queue.
\<close>

fun queued_step :: "'k li_env \<Rightarrow> shared_file \<Rightarrow> string \<Rightarrow> nat \<Rightarrow> bytes \<Rightarrow> levent \<Rightarrow> 'k lstate \<Rightarrow> 'k lconf" where
  "queued_step env sf key rank request Quiet x =
     (case try_grant (fst x) key (snd x) of
        Some w \<Rightarrow> start_engine env sf request (Some (ls_key (fst x), key)) (fst x, w)
      | None \<Rightarrow>
          (case rank_of (ls_key (fst x)) key (lw_queue (snd x)) of
             Inl e \<Rightarrow> raise_in x e
           | Inr fresh \<Rightarrow> send_rank sf key (case fresh of Some r \<Rightarrow> r | None \<Rightarrow> rank) request x))"
| "queued_step env sf key rank request Eof x = (Closed (Inr ''queued''), x)"
| "queued_step env sf key rank request (Broke e) x = raise_in x e"
| "queued_step env sf key rank request (Got opcode payload) x =
     (if opcode = OP_STARTUPLOADREQ then
        (case bindE (parse_file_hash_payload payload) (\<lambda>fh.
                bindE (enqueue_peer env (fst x) (to_hex fh) (sf_priority sf) (snd x)) (\<lambda>(r, w). Inr (to_hex fh, r, w))) of
           Inl e \<Rightarrow> raise_in x e
         | Inr (key', r, w) \<Rightarrow>
             (case try_grant (fst x) key' w of
                Some w1 \<Rightarrow> start_engine env sf request (Some (ls_key (fst x), key')) (fst x, w1)
              | None \<Rightarrow> send_rank sf key r request (fst x, w)))
      else if opcode = OP_END_OF_DOWNLOAD then (Closed (Inr ''queued''), x)
      else send_rank sf key rank request x)"

fun serving_step :: "'k li_env \<Rightarrow> 'k lworld up_session \<Rightarrow> up_key option \<Rightarrow> levent \<Rightarrow> 'k lstate \<Rightarrow> 'k lconf" where
  "serving_step env us granted (Got opcode payload) x = serve_packet env us granted opcode payload x"
| "serving_step env us granted Eof x = finish_engine us granted x"
| "serving_step env us granted Quiet x = (Serving us granted, x)"
| "serving_step env us granted (Broke e) x = fail_engine env us (if e = OSError then UploadEngineError else e) x"

fun draining_step :: "'k li_env \<Rightarrow> nat \<Rightarrow> levent \<Rightarrow> 'k lstate \<Rightarrow> 'k lconf" where
  "draining_step env n (Got opcode payload) x =
     (if opcode = OP_AICHREQUEST then then_phase (handle_aich_request env payload x) (\<lambda>x1. (Draining n, x1)) else (Draining n, x))"
| "draining_step env n Eof x = finish_transfer env n x"
| "draining_step env n Quiet x = (Draining n, x)"
| "draining_step env n (Broke e) x = (if e = ListenerError then finish_transfer env n x else raise_in x e)"

definition leave_registry :: "'k lstate \<Rightarrow> 'k lstate" where
  "leave_registry x = (fst x, (snd x)\<lparr>lw_registry := unregister_transport (ls_writer (fst x)) (lw_registry (snd x))\<rparr>)"

fun buddy_step :: "levent \<Rightarrow> 'k lstate \<Rightarrow> 'k lconf" where
  "buddy_step (Got opcode payload) x = (Buddy_channel, x)"
| "buddy_step Eof x = (Closed (Inr ''buddy_session_closed''), leave_registry x)"
| "buddy_step Quiet x = (Buddy_channel, x)"
| "buddy_step (Broke e) x =
     (if e = ListenerError then (Closed (Inr ''buddy_session_closed''), leave_registry x) else raise_in (leave_registry x) e)"

fun listener_step :: "'k li_env \<Rightarrow> levent \<Rightarrow> 'k lconf \<Rightarrow> 'k lconf" where
  "listener_step env ev (Greeting, x) = greeting_step env ev x"
| "listener_step env ev (Requests, x) = requests_step env ev x"
| "listener_step env ev (Queued sf key rank request, x) = queued_step env sf key rank request ev x"
| "listener_step env ev (Serving us granted, x) = serving_step env us granted ev x"
| "listener_step env ev (Draining n, x) = draining_step env n ev x"
| "listener_step env ev (Buddy_channel, x) = buddy_step ev x"
| "listener_step env ev (Closed r, x) = (Closed r, x)"

end
