(* ===== verification/Listener_Ident.thy ===== *)
theory Listener_Ident
  imports Peer_Listener
begin

text \<open>
  What the sessions of \<open>core/peer/listener.py\<close> make of SecureIdent, of source exchange and of AICH
  requests: who is marked as verified, and which requests end a session with an exception nobody catches.
\<close>

section \<open>The hashes of the examples\<close>

lemma to_hex_replicate: "to_hex (replicate n b) = concat (replicate n (to_hex [b]))"
  by (induction n) (simp_all add: to_hex_def)

lemma demo_hash: "to_hex (replicate 16 0xAA) = hash_a" and demo_hash_b: "to_hex (replicate 16 0xBB) = hash_b"
proof -
  have a: "to_hex [0xAA] = replicate 2 (CHR ''a'')" "to_hex [0xBB] = replicate 2 (CHR ''b'')" by code_simp+
  have c: "concat (replicate n (replicate 2 x)) = replicate (2 * n) x" for n and x :: char by (induction n) (simp_all add: numeral_2_eq_2)
  show "to_hex (replicate 16 0xAA) = hash_a" "to_hex (replicate 16 0xBB) = hash_b"
    by (simp_all only: to_hex_replicate a c hash_a_def hash_b_def) simp_all
qed

section \<open>SecureIdent\<close>

definition verified_users :: "'k lworld \<Rightarrow> string set" where
  "verified_users w = (case lw_ident w of None \<Rightarrow> {} | Some p \<Rightarrow> si_verified p)"

text \<open>The statements that leave the provider alone.\<close>

definition same_ident :: "'k lstate \<Rightarrow> 'k lstate \<Rightarrow> bool" where
  "same_ident x y \<longleftrightarrow> lw_ident (snd y) = lw_ident (snd x)"

lemma same_ident_refl [simp]: "same_ident x x"
  by (simp add: same_ident_def)

lemma same_ident_send [simp]: "same_ident x y \<Longrightarrow> same_ident x (fst (l_send protocol opcode payload y))"
  by (auto simp: l_send_def or_raise_def same_ident_def split: sum.splits)

lemma same_ident_or_raise: "same_ident x y \<Longrightarrow> (\<And>v. r = Inr v \<Longrightarrow> same_ident x (fst (f v))) \<Longrightarrow> same_ident x (fst (or_raise r y f))"
  by (cases r) (simp_all add: or_raise_def)

lemma same_ident_run_after:
  "same_ident x (fst m) \<Longrightarrow> (\<And>y. same_ident x y \<Longrightarrow> same_ident x (fst (f y))) \<Longrightarrow> same_ident x (fst (run_after m f))"
  by (cases m; cases "snd m") (auto simp: run_after_def)

lemma same_ident_upd [simp]: "same_ident x (s, snd x)"
  by (simp add: same_ident_def)

lemma secident_state_ident: "same_ident x (fst (on_secident_state env payload x))"
  unfolding on_secident_state_def
  by (rule same_ident_or_raise)
    (auto simp: Let_def split: option.splits intro!: same_ident_or_raise same_ident_run_after)

lemma publickey_ident: "same_ident x (fst (on_publickey payload x))"
  unfolding on_publickey_def by (rule same_ident_or_raise) auto

lemma aich_ident: "same_ident x (fst (handle_aich_request env payload x))"
  unfolding handle_aich_request_def
  by (rule same_ident_or_raise) (auto split: option.splits intro!: same_ident_or_raise)

lemma other_requests_ident:
  "same_ident x (fst (on_request_sources2 env payload x))" "same_ident x (fst (on_request_sources env payload x))"
  "same_ident x (fst (on_request_filename env payload x))" "same_ident x (fst (on_hashset_request env payload x))"
  "same_ident x (fst (on_emuleinfo x))"
  unfolding on_request_sources2_def on_request_sources_def on_request_filename_def on_hashset_request_def on_emuleinfo_def Let_def
  by (auto split: option.splits sum.splits list.splits intro!: same_ident_or_raise)

text \<open>What a packet before the transfer may add to the verified users.\<close>

lemma signature_verified:
  assumes "on_signature env payload x = (y, e)"
  shows "same_ident x y \<or> (\<exists>sig kind ch p. parse_signature_payload payload = Inr (sig, kind) \<and> ls_challenge_out (fst x) = Some ch \<and>
    lw_ident (snd x) = Some p \<and> lw_ident (snd y) = Some (mark_verified (ls_key (fst x)) p) \<and>
    verify_signature (le_rsa env) (ls_peer_blob (fst x)) sig ch 0 [] = Inr True)"
  using assms
  by (auto simp: on_signature_def or_raise_def same_ident_def split: sum.splits prod.splits option.splits if_splits)

lemma pre_packet_ident:
  assumes "\<not> (opcode = OP_SIGNATURE)"
  shows "same_ident x (fst (pre_packet env opcode payload x))"
  using assms by (simp add: pre_packet_def secident_state_ident publickey_ident aich_ident other_requests_ident)

lemma key_parsed:
  assumes "build_publickey_payload blob = Inr p" and "10 \<le> length blob" and "length blob \<le> MAX_PUBKEY_SIZE"
  shows "parse_publickey_payload p = Inr blob"
proof -
  have "unat (word_of_nat (length blob) :: byte) = length blob"
    using assms(3) by (simp add: unat_byte_of_nat MAX_PUBKEY_SIZE_def)
  with assms show ?thesis by (auto simp: build_publickey_payload_def parse_publickey_payload_def MAX_PUBKEY_SIZE_def split: if_splits)
qed

lemma signature_parsed:
  assumes "build_signature_payload sig 0 = Inr p" and "10 \<le> length sig"
  shows "parse_signature_payload p = Inr (sig, 0)"
proof -
  from assms have l: "length sig \<le> 250" "p = [word_of_nat (length sig)] @ sig"
    by (auto simp: build_signature_payload_def split: if_splits)
  moreover have "unat (word_of_nat (length sig) :: byte) = length sig" using l(1) by (simp add: unat_byte_of_nat)
  ultimately show ?thesis using assms(2) by (simp add: parse_signature_payload_def Let_def py_slice_def)
qed

text \<open>
  C30. In a session whose challenge was sent, a peer that owns a key and signs the challenge with it is marked as
  verified under the user hash of its HELLO, with the doubled credit, when its encoded key has 10 to 80 bytes
  (a 1024-bit key is longer and refused) and its signature at least 10. And in no session does a packet of the request phase
  verify anybody without such a signature: the set of verified users changes only when a challenge was sent and
  a signature over it passes the check under the public key presented in the same session. Nothing ties the key to
  the user hash, so the first part holds for any such key and any user hash.
\<close>

theorem secident_verifies_signers:
  assumes "rsa_correct (le_rsa env)" and "si_ready (le_rsa env) peer"
    and "ls_challenge_out s = Some ch" and "lw_ident w = Some own"
    and "build_publickey_payload (si_blob peer) = Inr key_payload"
    and "create_signature (le_rsa env) ch 0 [] peer = Inr sig" and "10 \<le> length sig"
    and "build_signature_payload sig 0 = Inr sig_payload"
  shows "(\<exists>s' p. listener_step env (Got OP_SIGNATURE sig_payload) (listener_step env (Got OP_PUBLICKEY key_payload) (Requests, s, w))
       = (Requests, s', w\<lparr>lw_ident := Some p\<rparr>) \<and> fst (snd (snd (si_evaluate (ls_key s) p))) \<and> snd (snd (snd (si_evaluate (ls_key s) p))) = 2) \<and>
    (\<forall>s2 w2 opcode payload y e. pre_packet env opcode payload (s2, w2) = (y, e) \<longrightarrow> verified_users (snd y) \<noteq> verified_users w2 \<longrightarrow>
       (\<exists>sig' kind ch'. opcode = OP_SIGNATURE \<and> parse_signature_payload payload = Inr (sig', kind) \<and> ls_challenge_out s2 = Some ch' \<and>
          verify_signature (le_rsa env) (ls_peer_blob s2) sig' ch' 0 [] = Inr True))"
proof
  have b: "10 \<le> length (si_blob peer)" "length (si_blob peer) \<le> MAX_PUBKEY_SIZE" using assms(2) by (simp_all add: si_ready_def)
  let ?s = "s\<lparr>ls_peer_blob := si_blob peer\<rparr>"
  have 1: "listener_step env (Got OP_PUBLICKEY key_payload) (Requests, s, w) = (Requests, ?s, w)"
    using key_parsed [OF assms(5) b]
    by (simp add: pre_packet_def OP_PUBLICKEY_def OP_SECIDENTSTATE_def opcode_defs on_publickey_def or_raise_def then_phase_def)
  have v: "verify_signature (le_rsa env) (si_blob peer) sig ch 0 [] = Inr True"
    by (rule signature_verifies [OF assms(1,2,6)])
  have ne: "si_blob peer \<noteq> []" using b by auto
  have "listener_step env (Got OP_SIGNATURE sig_payload) (Requests, ?s, w)
      = (Requests, ?s, w\<lparr>lw_ident := Some (mark_verified (ls_key s) own)\<rparr>)"
    using signature_parsed [OF assms(8,7)] v ne assms(3,4)
    by (simp add: pre_packet_def OP_PUBLICKEY_def OP_SECIDENTSTATE_def OP_SIGNATURE_def opcode_defs on_signature_def or_raise_def
        then_phase_def ls_key_def)
  moreover have "fst (snd (snd (si_evaluate (ls_key s) (mark_verified (ls_key s) own))))"
    "snd (snd (snd (si_evaluate (ls_key s) (mark_verified (ls_key s) own)))) = 2"
    by (simp_all add: mark_verified_evaluate)
  ultimately show "\<exists>s' p. listener_step env (Got OP_SIGNATURE sig_payload) (listener_step env (Got OP_PUBLICKEY key_payload) (Requests, s, w))
       = (Requests, s', w\<lparr>lw_ident := Some p\<rparr>) \<and> fst (snd (snd (si_evaluate (ls_key s) p))) \<and> snd (snd (snd (si_evaluate (ls_key s) p))) = 2"
    unfolding 1 by blast
  show "\<forall>s2 w2 opcode payload y e. pre_packet env opcode payload (s2, w2) = (y, e) \<longrightarrow> verified_users (snd y) \<noteq> verified_users w2 \<longrightarrow>
       (\<exists>sig' kind ch'. opcode = OP_SIGNATURE \<and> parse_signature_payload payload = Inr (sig', kind) \<and> ls_challenge_out s2 = Some ch' \<and>
          verify_signature (le_rsa env) (ls_peer_blob s2) sig' ch' 0 [] = Inr True)"
  proof (intro allI impI)
    fix s2 w2 opcode payload y e assume p: "pre_packet env opcode payload (s2, w2) = (y, e)" and ne: "verified_users (snd y) \<noteq> verified_users w2"
    have d: "\<not> same_ident (s2, w2) y" using ne by (auto simp: same_ident_def verified_users_def)
    then have op: "opcode = OP_SIGNATURE" using pre_packet_ident [of opcode "(s2, w2)" env payload] p by auto
    then have "on_signature env payload (s2, w2) = (y, e)"
      using p by (simp add: pre_packet_def OP_SECIDENTSTATE_def OP_PUBLICKEY_def OP_SIGNATURE_def)
    from signature_verified [OF this] d op show "\<exists>sig' kind ch'. opcode = OP_SIGNATURE \<and>
        parse_signature_payload payload = Inr (sig', kind) \<and> ls_challenge_out s2 = Some ch' \<and>
        verify_signature (le_rsa env) (ls_peer_blob s2) sig' ch' 0 [] = Inr True"
      by auto
  qed
qed

text \<open>A toy RSA: the signature of a digest is the digest behind the number of its key.\<close>

definition toy_rsa :: "nat rsa" where
  "toy_rsa = \<lparr>rsa_n = (\<lambda>k. 65537 + k), rsa_e = (\<lambda>k. 65537), rsa_sign = (\<lambda>k d. replicate 16 0), rsa_verify = (\<lambda>blob d sig. sig = replicate 16 0)\<rparr>"

definition toy_peer :: "nat secure_ident" where
  "toy_peer = \<lparr>si_key = Some 1, si_blob = [0x30, 10, 0x02, 3, 1, 0, 2, 0x02, 3, 1, 0, 1], si_verified = {}\<rparr>"

lemma toy_blob: "public_blob_of toy_rsa 1 = Inr (si_blob toy_peer)"
proof -
  have l: "bit_length 65537 = 17" "bit_length 65538 = 17" by (simp_all add: bit_length.simps)
  have "to_bytes_big 65537 = [1, 0, 1]" "to_bytes_big 65538 = [1, 0, 2]"
    unfolding to_bytes_big_def l be_enc_def by (simp_all add: eval_simps)
  then have "der_int 65537 = Inr [2, 3, 1, 0, 1]" "der_int 65538 = Inr [2, 3, 1, 0, 2]"
    by (simp_all add: der_int_def der_len_def Let_def)
  then show ?thesis by (simp add: public_blob_of_def toy_rsa_def toy_peer_def der_seq_def der_len_def Let_def)
qed

definition toy_env :: "nat li_env" where
  "toy_env = \<lparr>le_identity = \<lparr>li_user_hash = replicate 16 7, li_client_id = 1, li_tcp_port = 4662, li_nickname = [65]\<rparr>,
     le_int_str = (\<lambda>_. Inl ValueError), le_nick = (\<lambda>_. ''n''), le_rsa = toy_rsa, le_random = 0,
     le_resolve = (\<lambda>h. Inr None), le_sources = None, le_md4 = (\<lambda>_. replicate 16 0), le_zlib = rle_zlib,
     le_fs = (\<lambda>p. None), le_allow_compression = False, le_records_credit = True\<rparr>"

definition toy_world :: "nat lworld" where
  "toy_world = \<lparr>lw_now = 5, lw_queue = upload_queue_new 4 600 None, lw_ident = Some secure_ident_new,
     lw_registry = registry_new 16, lw_credits = []\<rparr>"

theorem secident_verifies_signers_witness:
  "\<exists>key_payload sig_payload s' p.
    listener_step toy_env (Got OP_SIGNATURE sig_payload) (listener_step toy_env (Got OP_PUBLICKEY key_payload)
      (Requests, (lsession_new [] 0)\<lparr>ls_user := replicate 16 0xAA, ls_challenge_out := Some 9\<rparr>, toy_world))
       = (Requests, s', toy_world\<lparr>lw_ident := Some p\<rparr>) \<and> fst (snd (snd (si_evaluate hash_a p)))"
proof -
  let ?s = "(lsession_new [] 0)\<lparr>ls_user := replicate 16 0xAA, ls_challenge_out := Some 9\<rparr>"
  have ok: "rsa_correct (le_rsa toy_env)" by (simp add: rsa_correct_def toy_env_def toy_rsa_def)
  have len: "length (si_blob toy_peer) = 12" by (simp add: toy_peer_def)
  have ready: "si_ready (le_rsa toy_env) toy_peer"
    using toy_blob len by (simp add: si_ready_def toy_env_def MAX_PUBKEY_SIZE_def) (simp add: toy_peer_def)
  have key: "build_publickey_payload (si_blob toy_peer) = Inr (12 # si_blob toy_peer)"
    using len by (simp add: build_publickey_payload_def)
  have sig: "create_signature (le_rsa toy_env) 9 0 [] toy_peer = Inr (replicate 16 0)"
    by (simp add: create_signature_def toy_env_def toy_rsa_def toy_peer_def build_challenge_data_def)
  have pay: "build_signature_payload (replicate 16 0) 0 = Inr (16 # replicate 16 0)"
    by (simp add: build_signature_payload_def)
  have c: "ls_challenge_out ?s = Some 9" "lw_ident toy_world = Some secure_ident_new" "10 \<le> length (replicate 16 (0 :: byte))"
    by (simp_all add: toy_world_def)
  have k: "ls_key ?s = hash_a" by (simp add: ls_key_def demo_hash)
  from secident_verifies_signers [OF ok ready c(1,2) key sig c(3) pay] show ?thesis unfolding k by blast
qed

section \<open>Requests that end a session\<close>

text \<open>A source request of the old version raises \<open>UnboundLocalError\<close> unless one of the new version came first.\<close>

lemma legacy_source_request_raises:
  assumes "ls_peer_sx1 (fst x) = None" and "1 < ls_sx (fst x)" and "le_sources env = Some provider"
    and "length payload = 16" and "provider payload = Inr (src # srcs)"
  shows "listener_step env (Got OP_REQUESTSOURCES payload) (Requests, x) = (Closed (Inl NameError), x)"
  using assms
  by (simp add: pre_packet_def on_request_sources_def parse_request_sources_def opcode_defs client_opcode_defs OP_SECIDENTSTATE_def
      OP_PUBLICKEY_def OP_SIGNATURE_def then_phase_def raise_in_def or_raise_def)

text \<open>A challenge to a listener without a provider raises \<open>AttributeError\<close>.\<close>

lemma challenge_without_provider_raises:
  assumes "lw_ident (snd x) = None" and "length payload = 5"
  shows "\<exists>y. listener_step env (Got OP_SECIDENTSTATE payload) (Requests, x) = (Closed (Inl AttributeError), y)"
  using assms
  by (simp add: pre_packet_def on_secident_state_def parse_secident_state_payload_def opcode_defs OP_SECIDENTSTATE_def Let_def
      then_phase_def raise_in_def or_raise_def)

text \<open>
  A request for the recovery data of a file above eight parts whose master hash the peer knows: building the
  tree raises \<open>IndexError\<close>, which the responder does not catch.
\<close>

lemma large_aich_request_raises:
  assumes "le_resolve env (take 16 payload) = Inr (Some sf)" and "sf_path sf = Some (c # cs)" and "le_fs env (c # cs) = Some content"
    and "aich_hash_file content = Inr r" and "sf_size sf = int (ar_file_size r)" and "8 * PARTSIZE < ar_file_size r"
    and "length payload = 38" and "py_slice 18 38 payload = ar_master_hash r" and "le_dec (py_slice 16 18 payload) * PARTSIZE < ar_file_size r"
  shows "listener_step env (Got OP_AICHREQUEST payload) (Requests, x) = (Closed (Inl IndexError), x)"
proof -
  let ?i = "le_dec (py_slice 16 18 payload)"
  have np: "\<not> int ?i \<ge> (sf_size sf + int PARTSIZE - 1) div int PARTSIZE"
  proof -
    have "?i < (ar_file_size r + PARTSIZE - 1) div PARTSIZE"
      using assms(9) by (simp add: PARTSIZE_def less_eq_div_iff_mult_less_eq Suc_le_eq [symmetric])
    moreover have "(sf_size sf + int PARTSIZE - 1) div int PARTSIZE = int ((ar_file_size r + PARTSIZE - 1) div PARTSIZE)"
      by (simp add: assms(5) PARTSIZE_def zdiv_int of_nat_diff)
    ultimately show ?thesis by linarith
  qed
  have "\<exists>b. part_bounds (int ?i) (ar_file_size r) = Inr b"
    using assms(9) by (simp add: part_bounds_def Let_def PARTSIZE_def)
  moreover have "\<not> ar_file_size r \<le> BLOCKSIZE" using assms(6) by (simp add: PARTSIZE_def BLOCKSIZE_def)
  ultimately have rec: "aich_part_recovery_data r (int ?i) = Inl IndexError"
    using build_tree_large [OF assms(6)]
    by (auto simp: aich_part_recovery_data_def materialize_aich_tree_def split: prod.split)
  then have "aich_recovery_for env payload = Inl IndexError"
    using assms np by (simp add: aich_recovery_for_def parse_aich_request_payload_def)
  then show ?thesis
    by (simp add: pre_packet_def handle_aich_request_def opcode_defs client_opcode_defs OP_SECIDENTSTATE_def
      OP_PUBLICKEY_def OP_SIGNATURE_def then_phase_def raise_in_def or_raise_def)
qed

end
