(* ===== verification/Listener_Slots.thy ===== *)
theory Listener_Slots
  imports Listener_Ident
begin

text \<open>
  What the sessions of \<open>core/peer/listener.py\<close> do to the upload queue they share: each moves only its own
  client, none sends \<open>OP_ACCEPTUPLOADREQ\<close> or starts serving without a slot, and what is left behind when
  a waiting client hangs up.
\<close>

section \<open>Steps of one client\<close>

inductive user_step :: "string \<Rightarrow> upload_queue \<Rightarrow> upload_queue \<Rightarrow> bool" for u where
  user_enqueue: "enqueue now u i p nick f prio q = Inr (r, q') \<Longrightarrow> user_step u q q'"
| user_grant: "grant_slot now u f q = Inr q' \<Longrightarrow> user_step u q q'"
| user_release: "release_slot u f q = Inr (b, q') \<Longrightarrow> user_step u q q'"

inductive_cases user_stepE: "user_step u q q'"

lemma user_step_uq_step: "user_step u q q' \<Longrightarrow> uq_step q q'"
  by (erule user_stepE) (auto intro: uq_step.intros)

lemma user_steps_inv: "(user_step u)\<^sup>*\<^sup>* q q' \<Longrightarrow> uq_inv q \<Longrightarrow> uq_inv q'"
  by (induction rule: rtranclp_induct) (auto intro: uq_inv_step user_step_uq_step)

definition holds_slot :: "string \<Rightarrow> upload_queue \<Rightarrow> bool" where
  "holds_slot u q \<longleftrightarrow> (\<exists>f k. up_key_of u f = Inr k \<and> in_slots k q)"

definition slots_kept :: "upload_queue \<Rightarrow> upload_queue \<Rightarrow> bool" where
  "slots_kept q q' \<longleftrightarrow> (\<forall>k. in_slots k q \<longrightarrow> in_slots k q')"

lemma slots_kept_refl [simp]: "slots_kept q q"
  by (simp add: slots_kept_def)

lemma slots_kept_trans: "slots_kept q q' \<Longrightarrow> slots_kept q' q'' \<Longrightarrow> slots_kept q q''"
  by (simp add: slots_kept_def)

lemma slots_kept_holds: "slots_kept q q' \<Longrightarrow> holds_slot u q \<Longrightarrow> holds_slot u q'"
  unfolding slots_kept_def holds_slot_def by blast

lemma enqueue_slots:
  assumes "enqueue now u i p nick f prio q = Inr (r, q')"
  shows "uq_slots q' = uq_slots q"
proof -
  from assms obtain key where key: "up_key_of u f = Inr key"
    by (auto simp: enqueue_def bindE_eq_Inr_conv)
  show ?thesis
  proof (cases "waiting_get key q \<noteq> None \<or> in_slots key q")
    case True
    then have "q' = recompute q \<or> q' = recompute (recompute q)"
      using assms key by (auto simp: enqueue_def Let_def split: option.splits)
    then show ?thesis by auto
  next
    case False
    then show ?thesis using assms key by (auto simp: enqueue_def Let_def)
  qed
qed

lemma slots_kept_enqueue: "enqueue now u i p nick f prio q = Inr (r, q') \<Longrightarrow> slots_kept q q'"
  by (drule enqueue_slots) (simp add: slots_kept_def in_slots_def)

lemma grant_slot_holds:
  assumes "grant_slot now u f q = Inr q'"
  shows "slots_kept q q' \<and> holds_slot u q'"
proof -
  from assms obtain k where k: "up_key_of u f = Inr k"
    and q': "q' = recompute (drop_waiting k (q\<lparr>uq_slots := uq_slots q @ [(k, now)]\<rparr>))"
    by (auto simp: grant_slot_def bindE_eq_Inr_conv split: if_splits option.splits)
  have s: "uq_slots q' = uq_slots q @ [(k, now)]" by (simp add: q' drop_waiting_def)
  then have "in_slots k q'" by (simp add: in_slots_def)
  with k have "holds_slot u q'" unfolding holds_slot_def by blast
  moreover have "slots_kept q q'" by (auto simp: slots_kept_def in_slots_def s)
  ultimately show ?thesis by blast
qed

section \<open>Asking for a slot\<close>

definition moves :: "string \<Rightarrow> 'k lworld \<Rightarrow> 'k lworld \<Rightarrow> bool" where
  "moves u w w' \<longleftrightarrow> (user_step u)\<^sup>*\<^sup>* (lw_queue w) (lw_queue w')"

lemma moves_refl [simp]: "moves u w w"
  by (simp add: moves_def)

lemma moves_trans: "moves u w w' \<Longrightarrow> moves u w' w'' \<Longrightarrow> moves u w w''"
  by (simp add: moves_def)

lemma moves_queue: "lw_queue w' = lw_queue w \<Longrightarrow> moves u w w'"
  by (simp add: moves_def)

lemma enqueue_peer_moves:
  assumes "enqueue_peer env s key prio w = Inr (r, w')"
  shows "moves (ls_key s) w w' \<and> slots_kept (lw_queue w) (lw_queue w')"
proof -
  from assms obtain q where e: "enqueue (lw_now w) (ls_key s) (int (ls_client_id s)) (int (ls_client_port s))
      (le_nick env (ls_nick s)) key prio (lw_queue w) = Inr (r, q)" and w': "w' = w\<lparr>lw_queue := q\<rparr>"
    by (auto simp: enqueue_peer_def bindE_eq_Inr_conv)
  have "user_step (ls_key s) (lw_queue w) q" using e by (rule user_enqueue)
  with slots_kept_enqueue [OF e] show ?thesis by (simp add: moves_def w' r_into_rtranclp)
qed

lemma try_grant_moves:
  assumes "try_grant s key w = Some w'"
  shows "moves (ls_key s) w w' \<and> slots_kept (lw_queue w) (lw_queue w') \<and> holds_slot (ls_key s) (lw_queue w')"
proof -
  from assms obtain q where g: "grant_slot (lw_now w) (ls_key s) key (lw_queue w) = Inr q" and w': "w' = w\<lparr>lw_queue := q\<rparr>"
    by (auto simp: try_grant_def split: option.splits if_splits sum.splits)
  have "user_step (ls_key s) (lw_queue w) q" using g by (rule user_grant)
  with grant_slot_holds [OF g] show ?thesis by (simp add: moves_def w' r_into_rtranclp)
qed

lemma ask_slot_moves:
  assumes "ask_slot env s key prio w = Inr (d, w')"
  shows "moves (ls_key s) w w' \<and> slots_kept (lw_queue w) (lw_queue w') \<and>
    (d = Active \<or> d = Granted \<longrightarrow> holds_slot (ls_key s) (lw_queue w'))"
proof -
  from assms obtain active where a: "is_active (ls_key s) key (lw_queue w) = Inr active"
    by (auto simp: ask_slot_def bindE_eq_Inr_conv)
  show ?thesis
  proof (cases active)
    case True
    with a have "holds_slot (ls_key s) (lw_queue w)" unfolding is_active_def bindE_eq_Inr_conv holds_slot_def by blast
    with True a assms show ?thesis by (simp add: ask_slot_def)
  next
    case False
    with a assms obtain r w1 where e: "enqueue_peer env s key prio w = Inr (r, w1)"
      and d: "(case try_grant s key w1 of None \<Rightarrow> Inr (Wait r, w1) | Some w2 \<Rightarrow> Inr (Granted, w2)) = (Inr (d, w') :: (decision \<times> 'a lworld) res)"
      by (auto simp: ask_slot_def bindE_eq_Inr_conv)
    show ?thesis
    proof (cases "try_grant s key w1")
      case None
      with d enqueue_peer_moves [OF e] show ?thesis by auto
    next
      case (Some w2)
      with d enqueue_peer_moves [OF e] try_grant_moves [OF Some] show ?thesis
        by (auto intro: moves_trans slots_kept_trans)
    qed
  qed
qed

section \<open>The frames a session sends\<close>

definition no_accept :: "frame list \<Rightarrow> bool" where
  "no_accept fs \<longleftrightarrow> list_all (\<lambda>f. fst (snd f) \<noteq> OP_ACCEPTUPLOADREQ) fs"

lemma no_accept_simps [simp]:
  "no_accept []" "no_accept (f # fs) \<longleftrightarrow> fst (snd f) \<noteq> OP_ACCEPTUPLOADREQ \<and> no_accept fs"
  "no_accept (fs @ gs) \<longleftrightarrow> no_accept fs \<and> no_accept gs"
  by (simp_all add: no_accept_def)

text \<open>A statement of the session that leaves the queue alone and accepts nobody.\<close>

definition calm :: "'k lstate \<Rightarrow> 'k lstate \<Rightarrow> bool" where
  "calm x x' \<longleftrightarrow> (\<exists>fs. ls_out (fst x') = ls_out (fst x) @ fs \<and> no_accept fs) \<and>
     lw_queue (snd x') = lw_queue (snd x) \<and> ls_user (fst x') = ls_user (fst x)"

lemma calmI: "ls_out (fst x') = ls_out (fst x) \<Longrightarrow> lw_queue (snd x') = lw_queue (snd x) \<Longrightarrow>
  ls_user (fst x') = ls_user (fst x) \<Longrightarrow> calm x x'"
  by (simp add: calm_def)

lemma calm_refl [simp]: "calm x x"
  by (simp add: calm_def)

lemma calm_trans: "calm x y \<Longrightarrow> calm y z \<Longrightarrow> calm x z"
  by (auto simp: calm_def)

lemma calm_send: "opcode \<noteq> OP_ACCEPTUPLOADREQ \<Longrightarrow> calm x (fst (l_send protocol opcode payload x))"
  by (auto simp: l_send_def or_raise_def calm_def l_append_def split: sum.splits)

lemma calm_or_raise: "(\<And>v. r = Inr v \<Longrightarrow> calm x (fst (f v))) \<Longrightarrow> calm x (fst (or_raise r x f))"
  by (cases r) (simp_all add: or_raise_def)

lemma calm_run_after: "calm x (fst m) \<Longrightarrow> (\<And>y. calm x y \<Longrightarrow> calm x (fst (f y))) \<Longrightarrow> calm x (fst (run_after m f))"
  by (cases m; cases "snd m") (auto simp: run_after_def split: option.splits)

lemma calm_send_after: "calm x y \<Longrightarrow> opcode \<noteq> OP_ACCEPTUPLOADREQ \<Longrightarrow> calm x (fst (l_send protocol opcode payload y))"
  using calm_trans calm_send by blast

lemmas listener_opcodes = opcode_defs client_opcode_defs OP_PUBLICKEY_def OP_SIGNATURE_def OP_SECIDENTSTATE_def OP_HELLO_def
  OP_HELLOANSWER_def OP_EMULEINFO_def OP_EMULEINFOANSWER_def

lemma calm_aich: "calm x (fst (handle_aich_request env payload x))"
  unfolding handle_aich_request_def
  by (rule calm_or_raise) (auto simp: listener_opcodes split: option.splits intro!: calm_or_raise calm_send)

lemma calm_secident_state: "calm x (fst (on_secident_state env payload x))"
proof -
  have c: "calm x ((fst x)\<lparr>ls_challenge_in := Some n\<rparr>, snd x)" for n by (rule calmI) simp_all
  have or: "calm x (fst (or_raise r y f))" if "calm x y" "\<And>v. calm x (fst (f v))" for r and y :: "'a lstate" and f :: "bytes \<Rightarrow> 'a lstate stmt"
    using that by (cases r) (simp_all add: or_raise_def)
  show ?thesis
    unfolding on_secident_state_def
    by (rule calm_or_raise)
      (auto simp: Let_def listener_opcodes c split: option.splits intro!: or calm_run_after calm_send_after)
qed

lemma calm_pre_packet: "calm x (fst (pre_packet env opcode payload x))"
proof -
  have 1: "calm x (fst (on_publickey payload x))"
    unfolding on_publickey_def by (rule calm_or_raise) (auto intro: calmI)
  have 2: "calm x (fst (on_signature env payload x))"
  proof -
    have c: "calm x (fst x, (snd x)\<lparr>lw_ident := p\<rparr>)" for p by (rule calmI) simp_all
    show ?thesis
      unfolding on_signature_def
      by (rule calm_or_raise) (auto simp: c split: option.splits intro!: calm_or_raise)
  qed
  have or: "calm x (fst (or_raise r y f))" if "calm x y" "\<And>v. calm x (fst (f v))" for r and y :: "'a lstate" and f :: "bytes \<Rightarrow> 'a lstate stmt"
    using that by (cases r) (simp_all add: or_raise_def)
  have c: "calm x ((fst x)\<lparr>ls_peer_sx1 := Some n\<rparr>, snd x)" for n by (rule calmI) simp_all
  have 3: "calm x (fst (on_request_sources2 env payload x))"
    unfolding on_request_sources2_def Let_def
    by (auto simp: c listener_opcodes split: option.splits sum.splits list.splits intro!: or calm_send_after)
  have 4: "calm x (fst (on_request_sources env payload x))"
    unfolding on_request_sources_def
    by (auto simp: listener_opcodes split: option.splits sum.splits list.splits intro!: or calm_send_after)
  have 5: "calm x (fst (on_request_filename env payload x))"
    unfolding on_request_filename_def
    by (auto simp: listener_opcodes split: option.splits sum.splits intro!: calm_or_raise calm_send)
  have 6: "calm x (fst (on_hashset_request env payload x))"
    unfolding on_hashset_request_def
    by (auto simp: listener_opcodes split: option.splits sum.splits intro!: calm_or_raise calm_send)
  have 7: "calm x (fst (on_emuleinfo x))"
    unfolding on_emuleinfo_def by (rule calm_or_raise) (auto simp: listener_opcodes intro!: calm_send)
  show ?thesis
    unfolding pre_packet_def by (simp add: 1 2 3 4 5 6 7 calm_aich calm_secident_state)
qed

section \<open>The engine inside a session\<close>

definition still :: "'q up_session \<Rightarrow> 'q up_session \<Rightarrow> bool" where
  "still s s' \<longleftrightarrow> (\<exists>fs. us_out s' = us_out s @ fs \<and> no_accept fs) \<and> us_world s' = us_world s"

lemma still_refl [simp]: "still s s"
  by (simp add: still_def)

lemma still_trans: "still s s' \<Longrightarrow> still s' s'' \<Longrightarrow> still s s''"
  by (auto simp: still_def)

lemma still_send: "opcode \<noteq> OP_ACCEPTUPLOADREQ \<Longrightarrow> still s (us_send opcode payload s)"
  by (simp add: still_def us_send_def)

lemma still_counted: "opcode \<noteq> OP_ACCEPTUPLOADREQ \<Longrightarrow> still s (send_counted opcode payload s)"
  by (simp add: still_def send_counted_def us_send_def)

lemma still_or_raise: "(\<And>v. r = Inr v \<Longrightarrow> still s (fst (f v))) \<Longrightarrow> still s (fst (or_raise r s f))"
  by (cases r) (simp_all add: or_raise_def)

lemma still_send_compressed: "still s (fst (send_compressed fh start stop c togo s))"
proof (induction fh start stop c togo s rule: send_compressed.induct)
  case (1 fh start stop c togo s)
  have op: "opcode \<noteq> OP_ACCEPTUPLOADREQ" if "compressed_frame fh start stop n chunk = Inr (opcode, payload)" for n chunk opcode payload
    using that by (auto simp: compressed_frame_def bindE_eq_Inr_conv opcode_defs split: if_splits)
  show ?case
    by (subst send_compressed.simps)
      (auto simp: Let_def intro!: still_or_raise still_trans [OF still_counted [OF op] "1.IH"])
qed

lemma still_send_plain: "still s (fst (send_plain fh start stop d togo s))"
proof (induction fh start stop d togo s rule: send_plain.induct)
  case (1 fh start stop d togo s)
  have op: "opcode \<noteq> OP_ACCEPTUPLOADREQ" if "plain_frame fh a b chunk = Inr (opcode, payload)" for a b chunk opcode payload
    using that by (auto simp: plain_frame_def bindE_eq_Inr_conv opcode_defs split: if_splits)
  show ?case
    by (subst send_plain.simps)
      (auto simp: Let_def intro!: still_or_raise still_trans [OF still_counted [OF op] "1.IH"])
qed

lemma still_send_block: "still s (fst (send_block env start stop len s))"
proof -
  have "still s (fst (send_compressed fh start stop c togo (s\<lparr>us_compressed_blocks := n\<rparr>)))" for fh c togo n
    using still_send_compressed [of "s\<lparr>us_compressed_blocks := n\<rparr>"] by (simp add: still_def)
  then show ?thesis
    unfolding send_block_def Let_def by (intro still_or_raise) (simp add: still_send_plain)
qed

lemma still_send_slots: "still s (fst (send_slots env slots s))"
proof (induction slots arbitrary: s)
  case (Cons ab slots)
  obtain a b where ab: "ab = (a, b)" by (cases ab)
  show ?case
  proof (cases "clamp_slot (sf_size (us_shared s)) (int a) (int b)")
    case None
    then show ?thesis using Cons.IH by (simp add: ab)
  next
    case (Some w)
    obtain start stop where w: "w = (start, stop)" by (cases w)
    have b: "still s (fst (send_block env start stop (stop - start) s))" by (rule still_send_block)
    show ?thesis
      using b still_trans [OF b Cons.IH] Some
      by (cases "send_block env start stop (stop - start) s") (auto simp: ab w run_after_def split: option.splits)
  qed
qed simp

text \<open>A step of the engine that serves the client \<open>u\<close>.\<close>

definition engine_moves :: "string \<Rightarrow> 'k lworld up_session \<Rightarrow> 'k lworld up_session \<Rightarrow> bool" where
  "engine_moves u s s' \<longleftrightarrow> moves u (us_world s) (us_world s') \<and>
     slots_kept (lw_queue (us_world s)) (lw_queue (us_world s')) \<and>
     (\<exists>fs. us_out s' = us_out s @ fs \<and> (no_accept fs \<or> holds_slot u (lw_queue (us_world s'))))"

lemma still_engine_moves: "still s s' \<Longrightarrow> engine_moves u s s'"
  by (auto simp: still_def engine_moves_def)

lemma hook_moves:
  assumes "start_upload_hook env s prio fh w = (r, w')"
  shows "moves (ls_key s) w w' \<and> slots_kept (lw_queue w) (lw_queue w') \<and>
    (r = Inr (''accept'', 0) \<or> isl r \<or> (\<exists>n. r = Inr (''queue'', n))) \<and>
    (r = Inr (''accept'', 0) \<longrightarrow> holds_slot (ls_key s) (lw_queue w'))"
proof (cases "ask_slot env s (to_hex fh) prio w")
  case (Inl e)
  then show ?thesis using assms by (auto simp: start_upload_hook_def)
next
  case (Inr dw)
  obtain d v where dw: "dw = (d, v)" by (cases dw)
  from ask_slot_moves [OF Inr [unfolded dw]] Inr assms show ?thesis
    by (cases d) (auto simp: start_upload_hook_def dw)
qed

lemma engine_packet_moves:
  assumes "engine_packet (up_env_of env s prio) opcode payload us = Some (us', e)"
  shows "engine_moves (ls_key s) us us'"
proof -
  let ?env = "up_env_of env s prio"
  have m: "engine_moves (ls_key s) us (fst m)" if "still us (fst m)" for m :: "'a lworld up_session stmt"
    using that by (rule still_engine_moves)
  have 1: "still us (fst (handle_request_filename payload us))"
    unfolding handle_request_filename_def by (rule still_or_raise) (simp add: still_send opcode_defs)
  have 2: "still us (fst (handle_hashset_request ?env payload us))"
  proof -
    have "still us (fst (or_raise r (us\<lparr>us_source := b\<rparr>) (\<lambda>p. (us_send op p (us\<lparr>us_source := b\<rparr>), None))))"
      if "op \<noteq> OP_ACCEPTUPLOADREQ" for op b and r :: "bytes res"
      using that by (cases r) (simp_all add: or_raise_def still_def us_send_def)
    then show ?thesis
      unfolding handle_hashset_request_def Let_def by (intro still_or_raise) (simp add: opcode_defs)
  qed
  have 3: "still us (fst (handle_request_parts ?env payload op us))" for op
  proof -
    have "still us (fst (send_slots ?env slots (us\<lparr>us_requests := n\<rparr>)))" for slots n
      using still_send_slots [of "us\<lparr>us_requests := n\<rparr>" ?env slots] by (simp add: still_def)
    then show ?thesis
      by (auto simp: handle_request_parts_def Let_def still_def split: sum.splits prod.splits)
  qed
  have 4: "engine_moves (ls_key s) us (fst (handle_start_upload_request ?env payload us))"
  proof (cases "length payload < 16")
    case True
    then show ?thesis by (simp add: handle_start_upload_request_def still_engine_moves)
  next
    case False
    obtain r w' where h: "start_upload_hook env s prio (take 16 payload) (us_world us) = (r, w')" by fastforce
    note hm = hook_moves [OF h]
    have hk: "ue_hook ?env = Some (start_upload_hook env s prio)" by (simp add: up_env_of_def)
    consider (accept) "r = Inr (''accept'', 0)" | (left) e where "r = Inl e" | (queue) n where "r = Inr (''queue'', n)"
      using hm by (cases r) auto
    then show ?thesis
    proof cases
      case accept
      then show ?thesis using False h hm hk
        by (simp add: handle_start_upload_request_def engine_moves_def us_send_def)
    next
      case left
      then show ?thesis using False h hm hk
        by (simp add: handle_start_upload_request_def engine_moves_def)
    next
      case queue
      then show ?thesis using False h hm hk
        by (cases "write_u32 (n AND 0xFFFFFFFF) []")
          (auto simp: handle_start_upload_request_def engine_moves_def us_send_def or_raise_def opcode_defs)
    qed
  qed
  have 5: "engine_moves (ls_key s) us (handle_aich ?env payload us)"
  proof -
    have c: "calm (s\<lparr>ls_out := []\<rparr>, us_world us) (fst (handle_aich_request env payload (s\<lparr>ls_out := []\<rparr>, us_world us)))"
      by (rule calm_aich)
    obtain s' w' e' where h: "handle_aich_request env payload (s\<lparr>ls_out := []\<rparr>, us_world us) = ((s', w'), e')"
      by (metis surj_pair)
    from c h have "lw_queue w' = lw_queue (us_world us)" "no_accept (ls_out s')" by (auto simp: calm_def)
    then show ?thesis using h
      by (simp add: handle_aich_def up_env_of_def engine_moves_def moves_queue)
  qed
  from assms show ?thesis
    unfolding engine_packet_def
    using m [OF 1] m [OF 2] m [OF 3, of OP_REQUESTPARTS] m [OF 3, of OP_REQUESTPARTS_I64] 4 5
    by (auto split: if_splits simp: still_engine_moves)
qed

lemma engine_step_moves:
  assumes "engine_step (up_env_of env s prio) opcode payload us = (us', v)"
  shows "engine_moves (ls_key s) us us'" and "v = Ended \<Longrightarrow> us' = us"
proof -
  show "engine_moves (ls_key s) us us'"
    using assms engine_packet_moves [of env s prio opcode payload us]
    by (auto simp: engine_step_def still_engine_moves split: option.splits prod.splits)
  show "v = Ended \<Longrightarrow> us' = us"
    using assms by (auto simp: engine_step_def split: option.splits prod.splits if_splits)
qed

section \<open>One event of a session\<close>

text \<open>
  \<open>conducted x c\<close>: the configuration \<open>c\<close> is reached from the state \<open>x\<close> by queue steps of the session's own
  client only, and if a frame sent on the way is an accept, the client holds a slot.
\<close>

definition conducted :: "'k lstate \<Rightarrow> 'k lconf \<Rightarrow> bool" where
  "conducted x c \<longleftrightarrow> moves (ls_key (fst x)) (snd x) (snd (snd c)) \<and>
     (\<exists>fs. ls_out (fst (snd c)) = ls_out (fst x) @ fs \<and> (no_accept fs \<or> holds_slot (ls_key (fst x)) (lw_queue (snd (snd c)))))"

definition serving_phase :: "'k phase \<Rightarrow> bool" where
  "serving_phase ph \<longleftrightarrow> (\<exists>us g. ph = Serving us g)"

lemma calm_conducted: "calm x x' \<Longrightarrow> conducted x (ph, x')"
  by (auto simp: calm_def conducted_def moves_queue)

lemma conducted_raise: "conducted x (ph, y) \<Longrightarrow> conducted x (raise_in y e)"
  by (simp add: conducted_def raise_in_def)

lemma conducted_raise_refl [simp]: "conducted x (raise_in x e)"
  using calm_conducted [OF calm_refl] by (simp add: raise_in_def)

lemma conducted_then_phase:
  assumes "calm x (fst m)" and "\<And>y. calm x y \<Longrightarrow> conducted x (f y)"
  shows "conducted x (then_phase m f)"
  using assms by (cases m; cases "snd m") (auto simp: then_phase_def raise_in_def calm_conducted)

text \<open>Moves of the queue before the rest of a step.\<close>

lemma conducted_after:
  assumes "moves (ls_key (fst x)) (snd x) w" and "conducted (fst x, w) c"
  shows "conducted x c"
  using assms unfolding conducted_def by (auto intro: moves_trans)

lemma conducted_credit: "conducted x (ph, y) \<Longrightarrow> conducted x (ph', credit_uploaded env n y)"
  by (simp add: conducted_def credit_uploaded_def moves_def)

lemma conducted_fail: "conducted x (ph, y) \<Longrightarrow> conducted x (fail_engine env us e y)"
  using conducted_raise conducted_credit unfolding fail_engine_def by (metis (full_types))

lemma release_moves:
  assumes "release_slot (ls_key (fst x)) k (lw_queue w) = Inr (b, q)"
  shows "moves (ls_key (fst x)) w (w\<lparr>lw_queue := q\<rparr>)"
  using user_release [OF assms] by (simp add: moves_def r_into_rtranclp)

text \<open>The slot a session releases is one of its own client.\<close>

definition own_slot :: "lsession \<Rightarrow> up_key option \<Rightarrow> bool" where
  "own_slot s g \<longleftrightarrow> (case g of None \<Rightarrow> True | Some k \<Rightarrow> fst k = ls_key s)"

lemma conducted_finish_engine:
  assumes "own_slot (fst x) granted"
  shows "conducted x (finish_engine us granted x)"
proof (cases granted)
  case None
  then show ?thesis using calm_conducted [OF calm_refl] by (simp add: finish_engine_def)
next
  case (Some uk)
  with assms obtain k where g: "granted = Some (ls_key (fst x), k)" by (cases uk) (auto simp: own_slot_def)
  show ?thesis
  proof (cases "release_slot (ls_key (fst x)) k (lw_queue (snd x))")
    case (Inl e)
    then show ?thesis by (simp add: finish_engine_def g)
  next
    case (Inr bq)
    obtain b q where bq: "bq = (b, q)" by (cases bq)
    from release_moves [OF Inr [unfolded bq]] Inr bq show ?thesis
      by (auto simp: finish_engine_def g conducted_def)
  qed
qed

lemma conducted_serve_packet:
  assumes "own_slot (fst x) granted"
  shows "conducted x (serve_packet env us granted opcode payload x)"
    and "\<exists>us' x'. serve_packet env us granted opcode payload x = (Serving us' granted, x') \<Longrightarrow>
      slots_kept (lw_queue (snd x)) (lw_queue (snd (snd (serve_packet env us granted opcode payload x))))"
proof -
  let ?us = "us\<lparr>us_world := snd x, us_out := []\<rparr>"
  obtain us' v where st: "engine_step (up_env_of env (fst x) (sf_priority (us_shared us))) opcode payload ?us = (us', v)"
    by fastforce
  note mv = engine_step_moves [OF st]
  have c: "conducted x (ph, engine_done us' (fst x))" for ph
    using mv(1) by (auto simp: engine_moves_def conducted_def engine_done_def)
  show "conducted x (serve_packet env us granted opcode payload x)"
  proof (cases v)
    case Going
    then show ?thesis using c st by (simp add: serve_packet_def)
  next
    case Ended
    then have "us' = ?us" by (rule mv(2))
    then have "engine_done us' (fst x) = x" by (simp add: engine_done_def)
    then show ?thesis using Ended st conducted_finish_engine [OF assms] by (simp add: serve_packet_def)
  next
    case (Raised e)
    then show ?thesis using conducted_fail [OF c] st by (simp add: serve_packet_def)
  qed
  assume "\<exists>us' x'. serve_packet env us granted opcode payload x = (Serving us' granted, x')"
  then have "v = Going"
    using st by (cases v) (auto simp: serve_packet_def finish_engine_def fail_engine_def raise_in_def split: option.splits sum.splits if_splits)
  then show "slots_kept (lw_queue (snd x)) (lw_queue (snd (snd (serve_packet env us granted opcode payload x))))"
    using mv(1) st by (simp add: serve_packet_def engine_moves_def engine_done_def)
qed

lemma start_engine_starts:
  assumes "own_slot (fst x) granted"
  shows "conducted x (start_engine env sf payload granted x)"
    and "serving_phase (fst (start_engine env sf payload granted x)) \<Longrightarrow>
      slots_kept (lw_queue (snd x)) (lw_queue (snd (snd (start_engine env sf payload granted x)))) \<and>
      (\<exists>us x'. start_engine env sf payload granted x = (Serving us granted, x'))"
proof -
  let ?c = "start_engine env sf payload granted x"
  have "conducted x ?c \<and> (serving_phase (fst ?c) \<longrightarrow>
      slots_kept (lw_queue (snd x)) (lw_queue (snd (snd ?c))) \<and> (\<exists>us x'. ?c = (Serving us granted, x')))"
  proof (cases "block_source_new (le_fs env) sf PARTSIZE")
    case (Inl e)
    then show ?thesis by (simp add: start_engine_def serving_phase_def) (simp add: raise_in_def)
  next
    case b: (Inr b)
    show ?thesis
    proof (cases "bs_open (le_fs env) b")
      case (Inl e)
      have "conducted x (fail_engine env us e x)" for us by (rule conducted_fail [OF calm_conducted [OF calm_refl]])
      then show ?thesis using b Inl by (simp add: start_engine_def serving_phase_def fail_engine_def raise_in_def)
    next
      case (Inr b1)
      let ?us = "up_session_new b1 (le_allow_compression env) (snd x)"
      let ?p = "serve_packet env ?us granted OP_STARTUPLOADREQ payload x"
      have e: "?c = ?p" using b Inr by (simp add: start_engine_def)
      have s: "serving_phase (fst ?p) \<Longrightarrow> \<exists>us x'. ?p = (Serving us granted, x')"
        by (auto simp: serve_packet_def serving_phase_def finish_engine_def fail_engine_def raise_in_def
            split: prod.splits verdict.splits option.splits sum.splits if_splits)
      show ?thesis using conducted_serve_packet [OF assms, of env ?us OP_STARTUPLOADREQ payload] s unfolding e by blast
    qed
  qed
  then show "conducted x ?c" and "serving_phase (fst ?c) \<Longrightarrow>
      slots_kept (lw_queue (snd x)) (lw_queue (snd (snd ?c))) \<and> (\<exists>us x'. ?c = (Serving us granted, x'))" by blast+
qed

text \<open>Serving starts with a slot, and the slot to release is the client's.\<close>

definition begun :: "'k lstate \<Rightarrow> 'k lconf \<Rightarrow> bool" where
  "begun x c \<longleftrightarrow> conducted x c \<and> (\<forall>us g. fst c = Serving us g \<longrightarrow>
     holds_slot (ls_key (fst x)) (lw_queue (snd (snd c))) \<and> own_slot (fst (snd c)) g)"

lemma begunI: "conducted x c \<Longrightarrow> \<not> serving_phase (fst c) \<Longrightarrow> begun x c"
  by (simp add: begun_def serving_phase_def)

lemma raise_not_serving [simp]: "\<not> serving_phase (fst (raise_in x e))"
  by (simp add: raise_in_def serving_phase_def)

lemma start_engine_user: "start_engine env sf payload g x = (Serving us h, y) \<Longrightarrow> ls_user (fst y) = ls_user (fst x)"
  by (auto simp: start_engine_def serve_packet_def finish_engine_def fail_engine_def raise_in_def engine_done_def
      split: sum.splits prod.splits verdict.splits option.splits if_splits)

lemma begun_start:
  assumes "moves (ls_key (fst x)) (snd x) w" and "holds_slot (ls_key (fst x)) (lw_queue w)" and "own_slot (fst x) g"
  shows "begun x (start_engine env sf payload g (fst x, w))"
proof -
  have o: "own_slot (fst (fst x, w)) g" using assms(3) by simp
  have "conducted x (start_engine env sf payload g (fst x, w))"
    by (rule conducted_after [OF assms(1)]) (rule start_engine_starts(1) [OF o])
  moreover have "holds_slot (ls_key (fst x)) (lw_queue (snd y)) \<and> own_slot (fst y) h"
    if "start_engine env sf payload g (fst x, w) = (Serving us h, y)" for us h y
  proof -
    have sp: "serving_phase (fst (start_engine env sf payload g (fst x, w)))" using that by (simp add: serving_phase_def)
    from start_engine_starts(2) [OF o sp] that have k: "slots_kept (lw_queue w) (lw_queue (snd y))" "h = g" by auto
    from start_engine_user [OF that] have "ls_key (fst y) = ls_key (fst x)" by (simp add: ls_key_def)
    with k slots_kept_holds [OF k(1) assms(2)] assms(3) show ?thesis by (cases g) (simp_all add: own_slot_def)
  qed
  ultimately show ?thesis unfolding begun_def by (metis prod.collapse)
qed

lemma calm_with_queue: "calm (s, w) (s', w') \<Longrightarrow> lw_queue w' = lw_queue w"
  by (simp add: calm_def)

lemma begun_rank:
  assumes "moves (ls_key (fst x)) (snd x) w"
  shows "begun x (send_rank sf key rank payload (fst x, w))"
proof (rule begunI)
  show "conducted x (send_rank sf key rank payload (fst x, w))"
    by (rule conducted_after [OF assms], unfold send_rank_def)
      (rule conducted_then_phase, simp add: calm_send opcode_defs, rule calm_conducted)
  show "\<not> serving_phase (fst (send_rank sf key rank payload (fst x, w)))"
    by (auto simp: send_rank_def then_phase_def serving_phase_def raise_in_def split: prod.splits option.splits)
qed

lemma begun_start_upload: "begun x (on_start_upload env payload x)"
proof -
  let ?p = "bindE (parse_file_hash_payload payload) (\<lambda>fh. bindE (le_resolve env fh) (\<lambda>shared. Inr (fh, shared)))"
  show ?thesis
  proof (cases ?p)
    case (Inl e)
    then show ?thesis by (simp add: on_start_upload_def begunI)
  next
    case (Inr y)
    obtain fh shared where y: "y = (fh, shared)" by (cases y)
    show ?thesis
    proof (cases shared)
      case None
      have "conducted x (then_phase (or_raise (build_end_of_download_payload fh) x (\<lambda>p. l_send None OP_END_OF_DOWNLOAD p x))
            (\<lambda>x1. (Closed (Inr ''file_not_found''), x1)))"
        by (rule conducted_then_phase, rule calm_or_raise, simp add: calm_send opcode_defs, rule calm_conducted)
      then show ?thesis using Inr y None
        by (auto simp: on_start_upload_def then_phase_def serving_phase_def raise_in_def split: prod.splits option.splits intro!: begunI)
    next
      case (Some sf)
      show ?thesis
      proof (cases "ask_slot env (fst x) (to_hex fh) (sf_priority sf) (snd x)")
        case (Inl e)
        then show ?thesis using Inr y Some by (simp add: on_start_upload_def begunI)
      next
        case r: (Inr dw)
        obtain d w where dw: "dw = (d, w)" by (cases dw)
        note m = ask_slot_moves [OF r [unfolded dw]]
        show ?thesis
        proof (cases d)
          case Active
          then show ?thesis using Inr y Some r dw m begun_start [of x w None] by (simp add: on_start_upload_def own_slot_def)
        next
          case Granted
          then show ?thesis using Inr y Some r dw m begun_start [of x w "Some (ls_key (fst x), to_hex fh)"]
            by (simp add: on_start_upload_def own_slot_def)
        next
          case (Wait n)
          then show ?thesis using Inr y Some r dw m begun_rank [of x w] by (simp add: on_start_upload_def)
        qed
      qed
    qed
  qed
qed

lemma begun_queued: "begun x (queued_step env sf key rank request ev x)"
proof (cases ev)
  case (Got opcode payload)
  consider (restart) "opcode = OP_STARTUPLOADREQ" | (stop) "opcode = OP_END_OF_DOWNLOAD" "opcode \<noteq> OP_STARTUPLOADREQ"
    | (other) "opcode \<noteq> OP_STARTUPLOADREQ" "opcode \<noteq> OP_END_OF_DOWNLOAD" by blast
  then show ?thesis
  proof cases
    case restart
    let ?p = "bindE (parse_file_hash_payload payload) (\<lambda>fh.
       bindE (enqueue_peer env (fst x) (to_hex fh) (sf_priority sf) (snd x)) (\<lambda>(r, w). Inr (to_hex fh, r, w)))"
    show ?thesis
    proof (cases ?p)
      case (Inl e)
      then show ?thesis using Got restart by (simp add: begunI)
    next
      case (Inr y)
      then obtain fh r w where e: "enqueue_peer env (fst x) (to_hex fh) (sf_priority sf) (snd x) = Inr (r, w)"
        and y: "y = (to_hex fh, r, w)" by (auto simp: bindE_eq_Inr_conv)
      note em = enqueue_peer_moves [OF e]
      show ?thesis
      proof (cases "try_grant (fst x) (to_hex fh) w")
        case None
        then show ?thesis using Got restart Inr y em begun_rank [of x w] by simp
      next
        case (Some w1)
        note tg = try_grant_moves [OF Some]
        have "moves (ls_key (fst x)) (snd x) w1" using em tg moves_trans by blast
        from begun_start [OF this, of "Some (ls_key (fst x), to_hex fh)"] tg show ?thesis
          using Got restart Inr y Some by (simp add: own_slot_def)
      qed
    qed
  next
    case stop
    then show ?thesis using Got by (simp add: begunI calm_conducted serving_phase_def)
  next
    case other
    then show ?thesis using Got begun_rank [of x "snd x"] by simp
  qed
next
  case Eof
  then show ?thesis by (simp add: begunI calm_conducted serving_phase_def)
next
  case Quiet
  show ?thesis
  proof (cases "try_grant (fst x) key (snd x)")
    case None
    then show ?thesis using Quiet begun_rank [of x "snd x"] by (auto simp: begunI split: sum.splits)
  next
    case (Some w)
    then show ?thesis using Quiet begun_start [of x w "Some (ls_key (fst x), key)"] try_grant_moves [OF Some]
      by (simp add: own_slot_def)
  qed
next
  case (Broke e)
  then show ?thesis by (simp add: begunI)
qed

definition session_ok :: "'k lconf \<Rightarrow> bool" where
  "session_ok c \<longleftrightarrow> (\<forall>us g. fst c = Serving us g \<longrightarrow> own_slot (fst (snd c)) g)"

lemma conducted_hello: "conducted x (on_hello env payload x)" and hello_not_serving: "\<not> serving_phase (fst (on_hello env payload x))"
proof -
  show "\<not> serving_phase (fst (on_hello env payload x))"
    by (auto simp: on_hello_def then_phase_def raise_in_def serving_phase_def Let_def split: sum.splits prod.splits option.splits)
  have quiet: "lw_queue (snd (fst m)) = lw_queue (snd x) \<and> (\<exists>fs. ls_out (fst (fst m)) = ls_out (fst x) @ fs \<and> no_accept fs)"
    if "calm x0 (fst m)" "lw_queue (snd x0) = lw_queue (snd x)" "ls_out (fst x0) = ls_out (fst x)" for x0 and m :: "'a lstate stmt"
    using that by (simp add: calm_def)
  have cond: "conducted x (then_phase m f)"
    if "calm x0 (fst m)" "lw_queue (snd x0) = lw_queue (snd x)" "ls_out (fst x0) = ls_out (fst x)"
      "\<And>y. lw_queue (snd (snd (f y))) = lw_queue (snd y) \<and> ls_out (fst (snd (f y))) = ls_out (fst y)" for x0 and m :: "'a lstate stmt" and f
    using quiet [OF that(1-3)] that(4) [of "fst m"]
    by (cases m; cases "snd m") (auto simp: then_phase_def raise_in_def conducted_def moves_queue)
  show "conducted x (on_hello env payload x)"
  proof (cases "parse_hello (\<lambda>_. ()) payload")
    case (Inl e)
    then show ?thesis by (simp add: on_hello_def)
  next
    case (Inr h)
    obtain user_hash client_id client_port nick ver tags where h: "h = (user_hash, client_id, client_port, nick, ver, tags)"
      by (metis prod.collapse)
    have c: "calm y ((fst y)\<lparr>ls_challenge_out := c\<rparr>, snd y)" for y :: "'a lstate" and c by (rule calmI) simp_all
    have s: "calm x0 (fst (l_send (Some EMULE) OP_SECIDENTSTATE p ((fst y)\<lparr>ls_challenge_out := c\<rparr>, snd y)))" if "calm x0 y"
      for x0 y :: "'a lstate" and p c
      by (rule calm_send_after [OF calm_trans [OF that c]]) (simp add: listener_opcodes)
    show ?thesis
      using Inr h unfolding on_hello_def Let_def
      by (simp only: sum.case prod.case)
        (rule cond, rule calm_or_raise, rule calm_run_after, rule calm_send, simp add: listener_opcodes,
          auto simp: s split: option.splits)
  qed
qed

lemma serving_step_ok:
  assumes "own_slot (fst x) granted"
  shows "conducted x (serving_step env us granted ev x) \<and> session_ok (serving_step env us granted ev x)"
proof -
  have u: "fst (serve_packet env us granted opcode payload x) = Serving us' g \<Longrightarrow>
      g = granted \<and> ls_user (fst (snd (serve_packet env us granted opcode payload x))) = ls_user (fst x)" for opcode payload us' g
    by (auto simp: serve_packet_def finish_engine_def fail_engine_def raise_in_def engine_done_def
        split: prod.splits verdict.splits option.splits sum.splits if_splits)
  have k: "own_slot s granted" if "ls_user s = ls_user (fst x)" for s
    using assms that by (cases granted) (simp_all add: own_slot_def ls_key_def)
  have f: "session_ok (finish_engine us granted x)"
    by (auto simp: session_ok_def finish_engine_def raise_in_def split: option.splits sum.splits)
  have g: "session_ok (fail_engine env us e x)" for e by (simp add: session_ok_def fail_engine_def raise_in_def)
  show ?thesis
  proof (cases ev)
    case (Got opcode payload)
    then show ?thesis using conducted_serve_packet(1) [OF assms] u k unfolding session_ok_def by (metis serving_step.simps(1))
  next
    case Eof
    then show ?thesis using conducted_finish_engine [OF assms] f by simp
  next
    case Quiet
    then show ?thesis using assms by (simp add: session_ok_def calm_conducted)
  next
    case (Broke e)
    moreover have "conducted x (fail_engine env us e x)" for e by (rule conducted_fail [OF calm_conducted [OF calm_refl]])
    ultimately show ?thesis using g by simp
  qed
qed

lemma draining_step_ok: "conducted x (draining_step env n ev x)" "\<not> serving_phase (fst (draining_step env n ev x))"
proof -
  have c: "conducted x (then_phase (handle_aich_request env payload x) (\<lambda>x1. (Draining n, x1)))" for payload
    by (rule conducted_then_phase [OF calm_aich]) (rule calm_conducted)
  have f: "conducted x (finish_transfer env n x)"
    unfolding finish_transfer_def by (rule conducted_credit [OF calm_conducted [OF calm_refl]])
  show "conducted x (draining_step env n ev x)" using c f by (cases ev) (simp_all add: calm_conducted)
  show "\<not> serving_phase (fst (draining_step env n ev x))"
    by (cases ev) (auto simp: then_phase_def serving_phase_def raise_in_def finish_transfer_def split: prod.splits option.splits)
qed

lemma listener_step_ok:
  assumes "session_ok (ph, x)"
  shows "conducted x (listener_step env ev (ph, x)) \<and> session_ok (listener_step env ev (ph, x)) \<and>
    (serving_phase (fst (listener_step env ev (ph, x))) \<longrightarrow> serving_phase ph \<or>
      holds_slot (ls_key (fst x)) (lw_queue (snd (snd (listener_step env ev (ph, x))))))"
proof -
  have b: ?thesis if "begun x (listener_step env ev (ph, x))"
    using that unfolding begun_def serving_phase_def session_ok_def by blast
  have n: ?thesis if "conducted x (listener_step env ev (ph, x))" "\<not> serving_phase (fst (listener_step env ev (ph, x)))"
    using that unfolding serving_phase_def session_ok_def by blast
  have refl: "conducted x (ph', x)" for ph' by (rule calm_conducted [OF calm_refl])
  show ?thesis
  proof (cases ph)
    case Greeting
    have "conducted x (greeting_step env ev x) \<and> \<not> serving_phase (fst (greeting_step env ev x))"
      using conducted_hello [of x env] hello_not_serving [of env _ x]
      by (cases ev) (simp_all add: refl, simp_all add: serving_phase_def)
    then show ?thesis using Greeting by (intro n) simp_all
  next
    case Requests
    have "begun x (then_phase (pre_packet env opcode payload x) (\<lambda>x1. (Requests, x1)))" for opcode payload
    proof (rule begunI)
      show "conducted x (then_phase (pre_packet env opcode payload x) (\<lambda>x1. (Requests, x1)))"
        by (rule conducted_then_phase [OF calm_pre_packet]) (rule calm_conducted)
      show "\<not> serving_phase (fst (then_phase (pre_packet env opcode payload x) (\<lambda>x1. (Requests, x1))))"
        by (auto simp: then_phase_def serving_phase_def raise_in_def split: prod.splits option.splits)
    qed
    moreover have "begun x (Requests, x)" by (rule begunI [OF refl]) (simp add: serving_phase_def)
    ultimately have "begun x (requests_step env ev x)"
      using begun_start_upload [of x env] by (cases ev) (simp_all add: begunI)
    then show ?thesis using Requests by (intro b) simp
  next
    case (Queued sf key rank request)
    then show ?thesis using begun_queued by (intro b) simp
  next
    case (Serving us g)
    then show ?thesis using serving_step_ok [of x g env us ev] assms by (auto simp: session_ok_def serving_phase_def)
  next
    case (Draining k)
    then show ?thesis using draining_step_ok by (intro n) simp_all
  next
    case Buddy_channel
    have l: "conducted x (ph', leave_registry x)" for ph' by (rule calm_conducted, rule calmI) (simp_all add: leave_registry_def)
    have "conducted x (buddy_step ev x) \<and> \<not> serving_phase (fst (buddy_step ev x))"
      by (cases ev) (simp_all add: refl l conducted_raise [OF l] serving_phase_def raise_in_def)
    then show ?thesis using Buddy_channel by (intro n) simp_all
  next
    case (Closed r)
    then show ?thesis by (intro n) (simp_all add: refl serving_phase_def)
  qed
qed

section \<open>The sessions of the listener\<close>

text \<open>
  The configurations of one session: it takes its events one by one, and between two of them the other
  sessions may do anything to the shared state.
\<close>

inductive session_reach :: "'k li_env \<Rightarrow> 'k lconf \<Rightarrow> bool" for env where
  sr_start: "session_reach env (Greeting, lsession_new peer_ip w, world)"
| sr_event: "session_reach env c \<Longrightarrow> session_reach env (listener_step env ev c)"
| sr_others: "session_reach env (ph, s, world) \<Longrightarrow> session_reach env (ph, s, world')"

lemma session_reach_ok: "session_reach env c \<Longrightarrow> session_ok c"
proof (induction rule: session_reach.induct)
  case (sr_event c ev)
  then show ?case using listener_step_ok [of "fst c" "snd c" env ev] by simp
qed (simp_all add: session_ok_def)

text \<open>
  C22. Uploads are only given in turn. Whatever a peer sends and whatever the other sessions do to the
  queue in between, an event of a session moves the queue only by requests, grants and releases
  of the client of that session, so that the invariant of the queue is kept; a session that begins to serve,
  and one that sends \<open>OP_ACCEPTUPLOADREQ\<close>, does so while its client holds one of the slots.
\<close>

theorem listener_serves_slot_holders:
  assumes "session_reach env (ph, s, w)" and "listener_step env ev (ph, s, w) = (ph', s', w')"
  shows "(user_step (ls_key s))\<^sup>*\<^sup>* (lw_queue w) (lw_queue w') \<and> (uq_inv (lw_queue w) \<longrightarrow> uq_inv (lw_queue w')) \<and>
    (serving_phase ph' \<longrightarrow> serving_phase ph \<or> holds_slot (ls_key s) (lw_queue w')) \<and>
    (\<exists>fs. ls_out s' = ls_out s @ fs \<and> (no_accept fs \<or> holds_slot (ls_key s) (lw_queue w')))"
  using listener_step_ok [OF session_reach_ok [OF assms(1)], of env ev] assms(2)
  by (auto simp: conducted_def moves_def intro: user_steps_inv)

subsection \<open>A concrete session\<close>

definition demo_file :: shared_file where
  "demo_file = \<lparr>sf_hash = replicate 16 0xAA, sf_name = [97], sf_size = 3, sf_path = Some [98], sf_priority = 1, sf_hash_result = None\<rparr>"

definition demo_env :: "unit li_env" where
  "demo_env = \<lparr>le_identity = \<lparr>li_user_hash = replicate 16 7, li_client_id = 1, li_tcp_port = 4662, li_nickname = [65]\<rparr>,
     le_int_str = (\<lambda>_. Inl ValueError), le_nick = (\<lambda>_. ''n''),
     le_rsa = \<lparr>rsa_n = (\<lambda>_. 0), rsa_e = (\<lambda>_. 0), rsa_sign = (\<lambda>_ _. []), rsa_verify = (\<lambda>_ _ _. False)\<rparr>, le_random = 0,
     le_resolve = (\<lambda>h. Inr (Some demo_file)), le_sources = None, le_md4 = (\<lambda>_. replicate 16 0), le_zlib = rle_zlib,
     le_fs = (\<lambda>p. Some [1, 2, 3]), le_allow_compression = False, le_records_credit = True\<rparr>"

definition demo_world :: "unit lworld" where
  "demo_world = \<lparr>lw_now = 5, lw_queue = upload_queue_new 4 600 None, lw_ident = None, lw_registry = registry_new 16, lw_credits = []\<rparr>"

lemma demo_requests:
  "\<exists>s. session_reach demo_env (Requests, s, demo_world) \<and> ls_user s = replicate 16 0xAA"
proof -
  have b: "hello_miso1 = 0x30131004" "hello_miso2 = 0x599" by (simp_all add: hello_miso1_def hello_miso2_def Let_def)
  have "\<exists>p. build_hello_payload (\<lambda>_. Inl ValueError) (replicate 16 0xAA) 1 4662 [65] 0x3C ([] :: unit ed2k_tag list) = Inr p"
    by (simp add: build_hello_payload_def write_hello_body_def build_hello_tags_def Let_def hello_tag_def write_hello_tag_def
        write_hello_head_def hello_tag_name_def write_u8_def write_u16_def write_u32_def write_hash16_def write_bytes_def
        utf8_cp_def b eval_simps)
  then obtain p where p: "build_hello_payload (\<lambda>_. Inl ValueError) (replicate 16 0xAA) 1 4662 [65] 0x3C ([] :: unit ed2k_tag list) = Inr p" ..
  have "\<exists>a. build_hello_answer_payload (\<lambda>_. Inl ValueError) (replicate 16 7) 1 4662 [65] 0 0 0x3C = Inr a \<and> length a < 1000"
    by (simp add: build_hello_answer_payload_def write_hello_body_def build_hello_tags_def Let_def hello_tag_def write_hello_tag_def
        write_hello_head_def hello_tag_name_def write_u8_def write_u16_def write_u32_def write_hash16_def write_bytes_def
        utf8_cp_def b eval_simps)
  then obtain a where a: "build_hello_answer_payload (\<lambda>_. Inl ValueError) (replicate 16 7) 1 4662 [65] 0 0 0x3C = Inr a" "length a < 1000"
    by blast
  let ?tags = "map hello_canon (build_hello_tags [65] 0x3C) :: unit ed2k_tag list"
  have "parse_hello_body (\<lambda>_. ()) p = Inr (replicate 16 0xAA, nat 1, nat 4662, ?tags, nat 0, nat 0)"
    using hello_body_roundtrip [OF p [unfolded build_hello_payload_def], of "\<lambda>_. ()"] by simp
  then have "parse_hello (\<lambda>_. ()) p = Inr (replicate 16 0xAA, 1, 4662, [65], 0x3C, ?tags)"
    by (simp add: parse_hello_def hello_names_built)
  moreover have "buddy_tag_id ?tags = None"
    by (simp add: buddy_tag_id_def build_hello_tags_def hello_canon_def hello_tag_def SERVINGBUDDYID_def Let_def)
  ultimately have "\<exists>s. listener_step demo_env (Got OP_HELLO p) (Greeting, lsession_new '''' 0, demo_world) = (Requests, s, demo_world)
      \<and> ls_user s = replicate 16 0xAA"
    using a by (simp add: on_hello_def Let_def demo_env_def demo_world_def or_raise_def run_after_def l_send_def transport_send_def
        listener_transport_def MAX_PACKET_SIZE_def frame_wire_def EDONKEY_def OP_HELLOANSWER_def then_phase_def l_append_def)
  then obtain s where s: "listener_step demo_env (Got OP_HELLO p) (Greeting, lsession_new '''' 0, demo_world) = (Requests, s, demo_world)"
    "ls_user s = replicate 16 0xAA" by blast
  have "session_reach demo_env (listener_step demo_env (Got OP_HELLO p) (Greeting, lsession_new '''' 0, demo_world))"
    by (intro sr_event sr_start)
  with s show ?thesis by auto
qed

lemma demo_ask:
  assumes "ls_user s = replicate 16 0xAA"
  shows "\<exists>w. ask_slot demo_env s hash_a 1 demo_world = Inr (Granted, w) \<and> in_slots (hash_a, hash_a) (lw_queue w)"
proof -
  have k: "ls_key s = hash_a" using assms demo_hash by (simp add: ls_key_def)
  have n: "uq_normalize_hash hash_a = Inr hash_a" by (rule hash_facts(1))
  let ?c = "\<lparr>uc_user_hash = hash_a, uc_client_id = int (ls_client_id s), uc_client_port = int (ls_client_port s), uc_nickname = ''n'',
     uc_requested_hash = hash_a, uc_file_priority = 1, uc_credit_bonus = 1, uc_enqueued_at = 5, uc_rank = 1\<rparr>"
  let ?q = "(upload_queue_new 4 600 None)\<lparr>uq_waiting := [?c]\<rparr>"
  have e: "enqueue_peer demo_env s hash_a 1 demo_world = Inr (1, demo_world\<lparr>lw_queue := ?q\<rparr>)"
    using n k
    by (simp add: enqueue_peer_def demo_env_def demo_world_def enqueue_def up_key_of_def waiting_get_def in_slots_def
        upload_queue_new_def Let_def recompute_def refresh_bonus_def position_def uc_key_def)
  have nx: "next_for_slot ?q = Some ?c" by (simp add: next_for_slot_def upload_queue_new_def)
  have g: "\<exists>q. grant_slot 5 hash_a hash_a ?q = Inr q \<and> in_slots (hash_a, hash_a) q"
    using n nx by (simp add: grant_slot_def up_key_of_def in_slots_def upload_queue_new_def uc_key_def drop_waiting_def)
  then have "\<exists>w. try_grant s hash_a (demo_world\<lparr>lw_queue := ?q\<rparr>) = Some w \<and> in_slots (hash_a, hash_a) (lw_queue w)"
    using nx k by (auto simp: try_grant_def demo_world_def)
  moreover have "is_active hash_a hash_a (lw_queue demo_world) = Inr False"
    using n by (simp add: is_active_def up_key_of_def in_slots_def demo_world_def upload_queue_new_def)
  ultimately show ?thesis using e k by (auto simp: ask_slot_def)
qed

lemma demo_serves:
  assumes "ls_user s = replicate 16 0xAA"
  shows "\<exists>us g s' w'. listener_step demo_env (Got OP_STARTUPLOADREQ (replicate 16 0xAA)) (Requests, s, demo_world) = (Serving us g, s', w')"
proof -
  from demo_ask [OF assms] obtain w where w: "ask_slot demo_env s hash_a 1 demo_world = Inr (Granted, w)"
    "in_slots (hash_a, hash_a) (lw_queue w)" by blast
  have k: "ls_key s = hash_a" using assms demo_hash by (simp add: ls_key_def)
  have ac: "is_active hash_a hash_a (lw_queue w) = Inr True"
    using w(2) hash_facts(1) by (simp add: is_active_def up_key_of_def)
  have h: "start_upload_hook demo_env s 1 (replicate 16 0xAA) w = (Inr (''accept'', 0), w)"
    using ac k demo_hash by (simp add: start_upload_hook_def ask_slot_def)
  have b: "block_source_new (le_fs demo_env) demo_file PARTSIZE = Inr \<lparr>bs_shared = demo_file, bs_chunk_size = PARTSIZE, bs_chunks = [], bs_handle = None\<rparr>"
    by (simp add: block_source_new_def demo_file_def demo_env_def)
  have o: "bs_open (le_fs demo_env) \<lparr>bs_shared = demo_file, bs_chunk_size = PARTSIZE, bs_chunks = [], bs_handle = None\<rparr> =
      Inr \<lparr>bs_shared = demo_file, bs_chunk_size = PARTSIZE, bs_chunks = [], bs_handle = Some [1, 2, 3]\<rparr>"
    by (simp add: bs_open_def on_disk_def demo_file_def demo_env_def)
  have "\<exists>us. engine_step (up_env_of demo_env s 1) OP_STARTUPLOADREQ (replicate 16 0xAA) (us0\<lparr>us_world := w, us_out := []\<rparr>) = (us, Going)" for us0
    using h by (simp add: engine_step_def engine_packet_def opcode_defs handle_start_upload_request_def up_env_of_def)
  then have "\<exists>us s' w'. start_engine demo_env demo_file (replicate 16 0xAA) g (s, w) = (Serving us g, s', w')" for g
  proof -
    let ?us0 = "up_session_new \<lparr>bs_shared = demo_file, bs_chunk_size = PARTSIZE, bs_chunks = [], bs_handle = Some [1, 2, 3]\<rparr>
      (le_allow_compression demo_env) w"
    have "sf_priority (us_shared ?us0) = 1" by (simp add: us_shared_def up_session_new_def demo_file_def)
    moreover obtain us where "engine_step (up_env_of demo_env s 1) OP_STARTUPLOADREQ (replicate 16 0xAA)
        (?us0\<lparr>us_world := w, us_out := []\<rparr>) = (us, Going)"
      using \<open>\<And>us0. \<exists>us. engine_step (up_env_of demo_env s 1) OP_STARTUPLOADREQ (replicate 16 0xAA) (us0\<lparr>us_world := w, us_out := []\<rparr>) = (us, Going)\<close>
      by blast
    ultimately show ?thesis using b o by (simp add: start_engine_def serve_packet_def engine_done_def)
  qed
  moreover have "on_start_upload demo_env (replicate 16 0xAA) (s, demo_world) =
      start_engine demo_env demo_file (replicate 16 0xAA) (Some (hash_a, hash_a)) (s, w)"
  proof -
    have l: "length (replicate 16 0xAA :: bytes) = 16" by simp
    from reads_whole [OF reads_hash16 [OF l]] have "parse_file_hash_payload (replicate 16 0xAA) = Inr (replicate 16 0xAA)"
      using remaining_end [of "replicate 16 0xAA"] unfolding parse_file_hash_payload_def by simp
    moreover have "le_resolve demo_env h = Inr (Some demo_file)" "sf_priority demo_file = 1" for h
      by (simp_all add: demo_env_def demo_file_def)
    ultimately show ?thesis using w(1) k demo_hash by (simp add: on_start_upload_def)
  qed
  ultimately show ?thesis by (metis listener_step.simps(2) requests_step.simps(1))
qed

theorem listener_serves_slot_holders_witness:
  "\<exists>s us g s' w'. ls_user s = replicate 16 0xAA \<and>
    listener_step demo_env (Got OP_STARTUPLOADREQ (replicate 16 0xAA)) (Requests, s, demo_world) = (Serving us g, s', w') \<and>
    (user_step hash_a)\<^sup>*\<^sup>* (upload_queue_new 4 600 None) (lw_queue w') \<and> uq_inv (lw_queue w') \<and> holds_slot hash_a (lw_queue w')"
proof -
  from demo_requests obtain s where s: "session_reach demo_env (Requests, s, demo_world)" "ls_user s = replicate 16 0xAA" by blast
  from demo_serves [OF s(2)] obtain us g s' w' where
    st: "listener_step demo_env (Got OP_STARTUPLOADREQ (replicate 16 0xAA)) (Requests, s, demo_world) = (Serving us g, s', w')" by blast
  have k: "ls_key s = hash_a" using s(2) demo_hash by (simp add: ls_key_def)
  have q: "lw_queue demo_world = upload_queue_new 4 600 None" by (simp add: demo_world_def)
  have "uq_inv (upload_queue_new 4 600 None)" by (rule uq_inv_new)
  with listener_serves_slot_holders [OF s(1) st] k q s(2) st show ?thesis
    unfolding serving_phase_def by (metis phase.distinct)
qed

section \<open>A client that hangs up while it waits\<close>

text \<open>What the sessions of other users and the reaper of expired slots do to the queue.\<close>

inductive others_step :: "string \<Rightarrow> upload_queue \<Rightarrow> upload_queue \<Rightarrow> bool" for u where
  os_user: "uq_normalize_hash v \<noteq> Inr u \<Longrightarrow> user_step v q q' \<Longrightarrow> others_step u q q'"
| os_reap: "release_slot v f q = Inr (b, q') \<Longrightarrow> others_step u q q'"

inductive_cases others_stepE: "others_step u q q'"

definition waits_at :: "up_key \<Rightarrow> int \<times> real \<Rightarrow> upload_queue \<Rightarrow> bool" where
  "waits_at k so q \<longleftrightarrow> (\<exists>c\<in>set (uq_waiting q). uc_key c = k \<and> slot_order c = so)"

lemma refresh_slot_order [simp]: "slot_order (refresh_bonus b c) = slot_order c"
  by (simp add: refresh_bonus_def slot_order_def split: option.splits)

lemma rank_slot_order [simp]: "slot_order (c\<lparr>uc_rank := n\<rparr>) = slot_order c"
  by (simp add: slot_order_def)

lemma waits_at_recompute [simp]: "waits_at k so (recompute q) = waits_at k so q"
  by (auto simp: waits_at_def recompute_def Let_def)

lemma waits_at_enqueue:
  assumes "enqueue now v i p nick f prio q = Inr (r, q')" and "waits_at k so q"
  shows "waits_at k so q'"
proof -
  from assms(1) obtain key where key: "up_key_of v f = Inr key"
    by (auto simp: enqueue_def bindE_eq_Inr_conv)
  show ?thesis
  proof (cases "waiting_get key q \<noteq> None \<or> in_slots key q")
    case True
    then have "q' = recompute q \<or> q' = recompute (recompute q)"
      using assms(1) key by (auto simp: enqueue_def Let_def split: option.splits)
    then show ?thesis using assms(2) by auto
  next
    case False
    then obtain c where "q' = recompute (q\<lparr>uq_waiting := uq_waiting q @ [c]\<rparr>)"
      using assms(1) key by (auto simp: enqueue_def Let_def)
    then show ?thesis using assms(2) by simp (auto simp: waits_at_def)
  qed
qed

lemma waits_at_grant:
  assumes "grant_slot now v f q = Inr q'" and "waits_at k so q" and "uq_normalize_hash v \<noteq> Inr (fst k)"
  shows "waits_at k so q'"
proof -
  from assms(1) obtain key where key: "up_key_of v f = Inr key"
    and q': "q' = recompute (drop_waiting key (q\<lparr>uq_slots := uq_slots q @ [(key, now)]\<rparr>))"
    by (auto simp: grant_slot_def bindE_eq_Inr_conv split: if_splits option.splits)
  from key assms(3) have "key \<noteq> k" by (auto simp: up_key_of_def bindE_eq_Inr_conv)
  then show ?thesis using assms(2) unfolding q' waits_at_recompute by (auto simp: waits_at_def drop_waiting_def)
qed

lemma waits_at_release: "release_slot v f q = Inr (b, q') \<Longrightarrow> waits_at k so q \<Longrightarrow> waits_at k so q'"
  by (auto simp: release_slot_def bindE_eq_Inr_conv waits_at_def drop_slot_def split: if_splits)

lemma waits_at_others: "others_step (fst k) q q' \<Longrightarrow> waits_at k so q \<Longrightarrow> waits_at k so q'"
  by (erule others_stepE) (auto elim!: user_stepE intro: waits_at_enqueue waits_at_grant waits_at_release)

lemma waits_at_others_steps: "(others_step (fst k))\<^sup>*\<^sup>* q q' \<Longrightarrow> waits_at k so q \<Longrightarrow> waits_at k so q'"
  by (induction rule: rtranclp_induct) (auto intro: waits_at_others)

lemma grant_slot_order:
  assumes "grant_slot now v f q = Inr q'"
  shows "\<exists>d\<in>set (uq_waiting q). up_key_of v f = Inr (uc_key d) \<and> (\<forall>c\<in>set (uq_waiting q). slot_order d \<le> slot_order c)"
proof -
  from assms obtain k d where k: "up_key_of v f = Inr k" "uc_key d = k" and n: "next_for_slot q = Some d"
    unfolding grant_slot_def bindE_eq_Inr_conv by (auto simp: not_le split: if_splits option.splits)
  from n obtain cs where "sort_key slot_order (uq_waiting q) = d # cs"
    by (auto simp: next_for_slot_def split: if_splits list.splits)
  from sort_key_head [OF this] k show ?thesis by auto
qed

text \<open>
  C20. A waiting client that hangs up stays in the queue: the listener reports it as queued and
  cancels nothing. From then on, whatever the sessions of all other users and the reaper do, it keeps its
  place, and a slot is only ever granted to a client whose pair of priority and waiting time is at most its
  own: no client of lower priority, and none of its own priority with a later time stamp, gets a slot any more.
\<close>

theorem hung_up_client_blocks:
  assumes "listener_step env Eof (Queued sf key rank request, s, w) = (ph', s', w')"
    and "waits_at (ls_key s, key) so (lw_queue w)" and "(others_step (ls_key s))\<^sup>*\<^sup>* (lw_queue w') q"
    and "grant_slot now v f q = Inr q'"
  shows "ph' = Closed (Inr ''queued'') \<and> waits_at (ls_key s, key) so q \<and>
    (\<exists>d\<in>set (uq_waiting q). up_key_of v f = Inr (uc_key d) \<and> slot_order d \<le> so)"
proof -
  have e: "ph' = Closed (Inr ''queued'')" "w' = w" using assms(1) by simp_all
  then have wq: "waits_at (ls_key s, key) so q"
    using waits_at_others_steps [of "(ls_key s, key)"] assms(2,3) by simp
  then have "\<exists>c\<in>set (uq_waiting q). slot_order c = so" by (auto simp: waits_at_def)
  with grant_slot_order [OF assms(4)] e(1) wq show ?thesis by blast
qed

text \<open>The client \<open>hash_b\<close> of the queue with two clients hangs up; the grant goes to the other one.\<close>

theorem hung_up_client_blocks_witness:
  "\<exists>s (q' :: upload_queue). ls_user s = replicate 16 0xBB \<and> grant_slot 7 hash_a hash_a queue_ab = Inr q' \<and>
    fst (listener_step demo_env Eof (Queued demo_file hash_a 1 (replicate 16 0xAA), s, demo_world\<lparr>lw_queue := queue_ab\<rparr>))
      = Closed (Inr ''queued'') \<and>
    waits_at (hash_b, hash_a) (-1, 1) queue_ab \<and>
    (\<exists>d. d \<in> set (uq_waiting queue_ab) \<and> up_key_of hash_a hash_a = Inr (uc_key d) \<and> slot_order d \<le> (-1, 1))"
proof -
  let ?s = "(lsession_new [] 0)\<lparr>ls_user := replicate 16 0xBB\<rparr>"
  let ?w = "demo_world\<lparr>lw_queue := queue_ab\<rparr>"
  have k: "ls_key ?s = hash_b" by (simp add: ls_key_def demo_hash_b)
  have st: "listener_step demo_env Eof (Queued demo_file hash_a 1 (replicate 16 0xAA), ?s, ?w) = (Closed (Inr ''queued''), ?s, ?w)"
    by simp
  have wa: "waits_at (ls_key ?s, hash_a) (-1, 1) (lw_queue ?w)"
    by (simp add: k waits_at_def queue_ab_def client_of_def uc_key_def slot_order_def)
  have "uq_slots queue_ab = []" "uq_max_slots queue_ab = 4" by (simp_all add: queue_ab_def upload_queue_new_def)
  then have "\<exists>q'. grant_slot 7 hash_a hash_a queue_ab = Inr q'"
    using queue_ab_next key_ab by (simp add: grant_slot_def in_slots_def)
  then obtain q' where g: "grant_slot 7 hash_a hash_a queue_ab = Inr q'" ..
  have r: "(others_step (ls_key ?s))\<^sup>*\<^sup>* (lw_queue ?w) queue_ab" by simp
  from hung_up_client_blocks [OF st wa r g] st g k show ?thesis
    by (intro exI [of _ ?s] exI [of _ q']) auto
qed

end
