(* ===== verification/Listener_Server.thy ===== *)
theory Listener_Server
  imports Peer_Listener
begin

text \<open>
  \<open>IncomingPeerServer\<close> of \<open>core/peer/listener.py\<close>: which of the accepted sockets become sessions, which are
  refused, and which are handed to a downloader that waits for a call back from that address.
\<close>

section \<open>State and operations\<close>

text \<open>
  A waiter is the number of its future and whether the future is already done (cancelled by its timeout).
\<close>

record peer_server =
  sv_max_connections :: int
  sv_max_per_5s :: int
  sv_timestamps :: "real list"
  sv_connections :: "nat set"
  sv_expected :: "(string \<times> (nat \<times> bool) list) list"

definition mk_peer_server :: "int \<Rightarrow> int \<Rightarrow> peer_server res" where
  "mk_peer_server max_connections max_per_5s =
     (if max_connections < 1 then Inl ListenerError
      else Inr \<lparr>sv_max_connections = max_connections, sv_max_per_5s = max_per_5s, sv_timestamps = [],
                sv_connections = {}, sv_expected = []\<rparr>)"

definition expect_connection :: "string \<Rightarrow> nat \<Rightarrow> peer_server \<Rightarrow> peer_server" where
  "expect_connection ip future sv =
     (let ws = (case map_of (sv_expected sv) ip of None \<Rightarrow> [] | Some ws \<Rightarrow> ws) in
      sv\<lparr>sv_expected := AList.update ip (ws @ [(future, False)]) (sv_expected sv)\<rparr>)"

text \<open>The timeout cancels the future; the waiting call then takes it out of the queue.\<close>

definition expire_future :: "nat \<Rightarrow> peer_server \<Rightarrow> peer_server" where
  "expire_future future sv =
     sv\<lparr>sv_expected := map (\<lambda>(ip, ws). (ip, map (\<lambda>(f, d). (f, d \<or> f = future)) ws)) (sv_expected sv)\<rparr>"

definition forget_future :: "string \<Rightarrow> nat \<Rightarrow> peer_server \<Rightarrow> peer_server" where
  "forget_future ip future sv =
     (case map_of (sv_expected sv) ip of
        None \<Rightarrow> sv
      | Some ws \<Rightarrow>
          let ws' = (case dropWhile (\<lambda>w. fst w \<noteq> future) ws of [] \<Rightarrow> ws | _ # r \<Rightarrow> takeWhile (\<lambda>w. fst w \<noteq> future) ws @ r) in
          sv\<lparr>sv_expected := (if ws' = [] then AList.delete ip (sv_expected sv) else AList.update ip ws' (sv_expected sv))\<rparr>)"

datatype admission = Rate_limited | Full | Handed nat | Session

definition pop_waiter :: "string \<Rightarrow> peer_server \<Rightarrow> (nat \<times> bool) option \<times> peer_server" where
  "pop_waiter ip sv =
     (case map_of (sv_expected sv) ip of
        Some (w # x # ws) \<Rightarrow> (Some w, sv\<lparr>sv_expected := AList.update ip (x # ws) (sv_expected sv)\<rparr>)
      | Some [w] \<Rightarrow> (Some w, sv\<lparr>sv_expected := AList.delete ip (sv_expected sv)\<rparr>)
      | _ \<Rightarrow> (None, sv\<lparr>sv_expected := AList.delete ip (sv_expected sv)\<rparr>))"

text \<open>The first half of \<open>_on_client\<close>: the sliding window of five seconds.\<close>

definition rate_check :: "real \<Rightarrow> peer_server \<Rightarrow> bool \<times> peer_server" where
  "rate_check now sv =
     (if sv_max_per_5s sv \<le> 0 then (True, sv)
      else
        let ts = dropWhile (\<lambda>t. t < now - 5) (sv_timestamps sv) in
        if int (length ts) \<ge> sv_max_per_5s sv then (False, sv\<lparr>sv_timestamps := ts\<rparr>)
        else (True, sv\<lparr>sv_timestamps := ts @ [now]\<rparr>))"

definition on_client :: "real \<Rightarrow> string \<Rightarrow> nat \<Rightarrow> peer_server \<Rightarrow> admission \<times> peer_server" where
  "on_client now ip session sv =
     (case rate_check now sv of (passed, sv1) \<Rightarrow>
        if \<not> passed then (Rate_limited, sv1)
        else if int (card (sv_connections sv1)) \<ge> sv_max_connections sv1 then (Full, sv1)
        else
          (case pop_waiter ip sv1 of (w, sv2) \<Rightarrow>
             if w \<noteq> None \<and> \<not> snd (the w) then (Handed (fst (the w)), sv2)
             else (Session, sv2\<lparr>sv_connections := insert session (sv_connections sv2)\<rparr>)))"

definition session_ended :: "nat \<Rightarrow> peer_server \<Rightarrow> peer_server" where
  "session_ended session sv = sv\<lparr>sv_connections := sv_connections sv - {session}\<rparr>"

definition server_closed :: "peer_server \<Rightarrow> peer_server" where
  "server_closed sv = sv\<lparr>sv_connections := {}\<rparr>"

section \<open>The limits\<close>

text \<open>
  \<open>accepted\<close> are the times, in order, of all connections that passed the rate check so far. The
  window holds exactly those of the last five seconds before the last check, the sessions never exceed the
  maximum.
\<close>

definition server_ok :: "real list \<Rightarrow> peer_server \<Rightarrow> bool" where
  "server_ok accepted sv \<longleftrightarrow> finite (sv_connections sv) \<and> int (card (sv_connections sv)) \<le> sv_max_connections sv \<and>
     sorted accepted \<and> (0 < sv_max_per_5s sv \<longrightarrow> int (length (sv_timestamps sv)) \<le> sv_max_per_5s sv \<and>
       (\<exists>old. accepted = old @ sv_timestamps sv))"

inductive server_step :: "real list \<times> peer_server \<Rightarrow> real list \<times> peer_server \<Rightarrow> bool" where
  ss_refused: "on_client now ip session sv = (Rate_limited, sv') \<Longrightarrow> server_step (accepted, sv) (accepted, sv')"
| ss_client: "on_client now ip session sv = (a, sv') \<Longrightarrow> a \<noteq> Rate_limited \<Longrightarrow> \<forall>t\<in>set accepted. t \<le> now \<Longrightarrow>
     server_step (accepted, sv) (accepted @ [now], sv')"
| ss_ended: "server_step (accepted, sv) (accepted, session_ended session sv)"
| ss_expect: "server_step (accepted, sv) (accepted, expect_connection ip future sv)"
| ss_expire: "server_step (accepted, sv) (accepted, expire_future future sv)"
| ss_forget: "server_step (accepted, sv) (accepted, forget_future ip future sv)"

inductive_cases server_stepE: "server_step x y"

lemma dropWhile_suffix: "\<exists>old. xs = old @ dropWhile P xs"
  by (metis takeWhile_dropWhile_id)

lemma rate_check_frame:
  "rate_check now sv = (b, sv') \<Longrightarrow> sv_connections sv' = sv_connections sv \<and> sv_max_connections sv' = sv_max_connections sv \<and>
     sv_max_per_5s sv' = sv_max_per_5s sv"
  by (auto simp: rate_check_def Let_def split: if_splits)

lemma pop_waiter_frame:
  "pop_waiter ip sv = (w, sv') \<Longrightarrow> sv_connections sv' = sv_connections sv \<and> sv_max_connections sv' = sv_max_connections sv \<and>
     sv_max_per_5s sv' = sv_max_per_5s sv \<and> sv_timestamps sv' = sv_timestamps sv"
  by (auto simp: pop_waiter_def split: option.splits list.splits)

lemma rate_check_ok:
  assumes "server_ok accepted sv" and "rate_check now sv = (b, sv')"
  shows "if b then (\<forall>t\<in>set accepted. t \<le> now) \<longrightarrow> server_ok (accepted @ [now]) sv' else server_ok accepted sv'"
proof (cases "sv_max_per_5s sv \<le> 0")
  case True
  with assms show ?thesis by (auto simp: rate_check_def server_ok_def sorted_append)
next
  case False
  let ?ts = "dropWhile (\<lambda>t. t < now - 5) (sv_timestamps sv)"
  from False assms(1) obtain old where old: "accepted = old @ sv_timestamps sv" and l: "int (length (sv_timestamps sv)) \<le> sv_max_per_5s sv"
    by (auto simp: server_ok_def)
  obtain old2 where "sv_timestamps sv = old2 @ ?ts" using dropWhile_suffix by blast
  then have acc: "accepted = (old @ old2) @ ?ts" using old by simp
  have le: "length ?ts \<le> length (sv_timestamps sv)" by (rule length_dropWhile_le)
  show ?thesis
  proof (cases "int (length ?ts) \<ge> sv_max_per_5s sv")
    case True
    then have "sv' = sv\<lparr>sv_timestamps := ?ts\<rparr>" "\<not> b" using False assms(2) by (simp_all add: rate_check_def Let_def)
    moreover have "int (length ?ts) \<le> sv_max_per_5s sv" using l le by linarith
    ultimately show ?thesis using assms(1) acc by (auto simp: server_ok_def)
  next
    case f: False
    then have "sv' = sv\<lparr>sv_timestamps := ?ts @ [now]\<rparr>" "b" using False assms(2) by (simp_all add: rate_check_def Let_def)
    then show ?thesis using assms(1) acc f by (auto simp: server_ok_def sorted_append)
  qed
qed

lemma server_ok_cong:
  assumes "server_ok accepted sv" and "sv_max_connections sv' = sv_max_connections sv" "sv_max_per_5s sv' = sv_max_per_5s sv"
    "sv_timestamps sv' = sv_timestamps sv" "finite (sv_connections sv')" "int (card (sv_connections sv')) \<le> sv_max_connections sv"
  shows "server_ok accepted sv'"
  using assms by (simp add: server_ok_def)

lemma server_ok_step: "server_step (accepted, sv) (accepted', sv') \<Longrightarrow> server_ok accepted sv \<Longrightarrow> server_ok accepted' sv'"
proof (erule server_stepE)
  fix now ip session svx svx' acc
  assume ok: "server_ok accepted sv" and e: "(accepted, sv) = (acc, svx)" "(accepted', sv') = (acc, svx')"
    and c: "on_client now ip session svx = (Rate_limited, svx')"
  obtain b sv1 where rc: "rate_check now svx = (b, sv1)" by fastforce
  have "\<not> b \<and> svx' = sv1" using c rc by (cases b; auto simp: on_client_def split: if_splits prod.splits)
  then have "\<not> b" "svx' = sv1" by simp_all
  with rate_check_ok [OF _ rc] ok e show "server_ok accepted' sv'" by auto
next
  fix now ip session svx a svx' acc
  assume ok: "server_ok accepted sv" and e: "(accepted, sv) = (acc, svx)" "(accepted', sv') = (acc @ [now], svx')"
    and c: "on_client now ip session svx = (a, svx')" "a \<noteq> Rate_limited" and le: "\<forall>t\<in>set acc. t \<le> now"
  obtain b sv1 where rc: "rate_check now svx = (b, sv1)" by fastforce
  have b: b using c rc by (cases b) (auto simp: on_client_def)
  have ok1: "server_ok (acc @ [now]) sv1" using rate_check_ok [OF _ rc, of acc] ok e b le by simp
  obtain w sv2 where pw: "pop_waiter ip sv1 = (w, sv2)" by fastforce
  note fr = pop_waiter_frame [OF pw]
  show "server_ok accepted' sv'"
  proof (cases "int (card (sv_connections sv1)) \<ge> sv_max_connections sv1")
    case True
    then have "svx' = sv1" using c rc b by (simp add: on_client_def)
    then show ?thesis using ok1 e by simp
  next
    case False
    then have "svx' = sv2 \<or> svx' = sv2\<lparr>sv_connections := insert session (sv_connections sv2)\<rparr>"
      using c rc b pw by (auto simp: on_client_def split: if_splits)
    moreover have "server_ok (acc @ [now]) sv2"
      by (rule server_ok_cong [OF ok1]) (use fr ok1 in \<open>simp_all add: server_ok_def\<close>)
    moreover have "server_ok (acc @ [now]) (sv2\<lparr>sv_connections := insert session (sv_connections sv2)\<rparr>)"
      by (rule server_ok_cong [OF ok1])
        (use fr ok1 False in \<open>auto simp: server_ok_def card_insert_if\<close>)
    ultimately show ?thesis using e by auto
  qed
next
  fix acc svx session
  assume a: "server_ok accepted sv" "(accepted, sv) = (acc, svx)" "(accepted', sv') = (acc, session_ended session svx)"
  then have "card (sv_connections sv - {session}) \<le> card (sv_connections sv)" by (intro card_Diff1_le)
  with a show "server_ok accepted' sv'" by (auto simp: server_ok_def session_ended_def)
next
  fix acc svx ip future
  assume "server_ok accepted sv" "(accepted, sv) = (acc, svx)" "(accepted', sv') = (acc, expect_connection ip future svx)"
  then show "server_ok accepted' sv'" by (simp add: server_ok_def expect_connection_def Let_def)
next
  fix acc svx future
  assume "server_ok accepted sv" "(accepted, sv) = (acc, svx)" "(accepted', sv') = (acc, expire_future future svx)"
  then show "server_ok accepted' sv'" by (simp add: server_ok_def expire_future_def)
next
  fix acc svx ip future
  assume "server_ok accepted sv" "(accepted, sv) = (acc, svx)" "(accepted', sv') = (acc, forget_future ip future svx)"
  then show "server_ok accepted' sv'"
    by (simp add: server_ok_def forget_future_def Let_def split: option.splits)
qed

lemma server_ok_new: "mk_peer_server m n = Inr sv \<Longrightarrow> server_ok [] sv"
  by (auto simp: mk_peer_server_def server_ok_def split: if_splits)

text \<open>
  Whatever arrives, the sessions of a server never exceed the maximum, and its window never holds more
  connections than the limit for five seconds.
\<close>

theorem server_limits:
  assumes "mk_peer_server m n = Inr sv0" and "server_step\<^sup>*\<^sup>* ([], sv0) (accepted, sv)"
  shows "int (card (sv_connections sv)) \<le> sv_max_connections sv \<and>
    (0 < sv_max_per_5s sv \<longrightarrow> int (length (sv_timestamps sv)) \<le> sv_max_per_5s sv)"
proof -
  have "server_ok accepted sv"
    using assms(2) by (induction "(accepted, sv)" arbitrary: accepted sv rule: rtranclp_induct)
      (auto simp: server_ok_new [OF assms(1)] intro: server_ok_step)
  then show ?thesis by (simp add: server_ok_def)
qed

text \<open>A call back is handed to the waiter that has waited longest, and to no other afterwards.\<close>

lemma handed_is_first:
  assumes "on_client now ip session sv = (Handed f, sv')"
  shows "\<exists>ws. map_of (sv_expected sv) ip = Some ((f, False) # ws) \<and>
    map_of (sv_expected sv') ip = (if ws = [] then None else Some ws)"
proof -
  obtain b sv1 where rc: "rate_check now sv = (b, sv1)" by fastforce
  have x: "sv_expected sv1 = sv_expected sv" using rc by (auto simp: rate_check_def Let_def split: if_splits)
  have b: b using assms rc by (cases b) (auto simp: on_client_def)
  obtain w sv2 where pw: "pop_waiter ip sv1 = (w, sv2)" by fastforce
  have "w = Some (f, False)" "sv' = sv2"
    using assms rc b pw by (auto simp: on_client_def split: if_splits)
  with pw x consider y ys where "map_of (sv_expected sv) ip = Some ((f, False) # y # ys)"
      "sv' = sv1\<lparr>sv_expected := AList.update ip (y # ys) (sv_expected sv)\<rparr>"
    | "map_of (sv_expected sv) ip = Some [(f, False)]" "sv' = sv1\<lparr>sv_expected := AList.delete ip (sv_expected sv)\<rparr>"
    by (auto simp: pop_waiter_def split: option.splits list.splits)
  then show ?thesis
  proof cases
    case 1
    then show ?thesis by (simp add: update_conv')
  next
    case 2
    then show ?thesis by (simp add: delete_conv')
  qed
qed

end
