(* ===== verification/Py_Dict.thy ===== *)
theory Py_Dict
  imports Prelude
begin

text \<open>
  Dictionaries that are filled in a loop and then read in insertion order: association lists with
  distinct keys. \<open>keep_first\<close> is the loop of \<open>setdefault\<close> calls, by which the first of several records
  with one key is kept; \<open>dict_set\<close> is \<open>d[k] = v\<close>, which keeps the place of a key it replaces.
\<close>

definition setdefault :: "'k \<Rightarrow> 'v \<Rightarrow> ('k \<times> 'v) list \<Rightarrow> ('k \<times> 'v) list" where
  "setdefault k v d = (if map_of d k = None then d @ [(k, v)] else d)"

definition dict_set :: "'k \<Rightarrow> 'v \<Rightarrow> ('k \<times> 'v) list \<Rightarrow> ('k \<times> 'v) list" where
  "dict_set k v d = (if map_of d k = None then d @ [(k, v)] else map (\<lambda>(a, b). (a, if a = k then v else b)) d)"

definition keep_first :: "('a \<Rightarrow> 'k) \<Rightarrow> ('a \<Rightarrow> 'v) \<Rightarrow> 'a list \<Rightarrow> ('k \<times> 'v) list \<Rightarrow> ('k \<times> 'v) list" where
  "keep_first key val xs d = foldl (\<lambda>d x. setdefault (key x) (val x) d) d xs"

lemma keep_first_simps [simp]:
  "keep_first key val [] d = d"
  "keep_first key val (x # xs) d = keep_first key val xs (setdefault (key x) (val x) d)"
  by (simp_all add: keep_first_def)

lemma keep_first_append:
  "keep_first key val (xs @ ys) d = keep_first key val ys (keep_first key val xs d)"
  by (simp add: keep_first_def)

lemma dom_setdefault: "fst ` set (setdefault k v d) = insert k (fst ` set d)"
  by (auto simp: setdefault_def map_of_eq_None_iff)

lemma dom_keep_first: "fst ` set (keep_first key val xs d) = fst ` set d \<union> key ` set xs"
  by (induction xs arbitrary: d) (auto simp: dom_setdefault)

lemma distinct_setdefault: "distinct (map fst d) \<Longrightarrow> distinct (map fst (setdefault k v d))"
  by (auto simp: setdefault_def map_of_eq_None_iff)

lemma distinct_keep_first: "distinct (map fst d) \<Longrightarrow> distinct (map fst (keep_first key val xs d))"
  by (induction xs arbitrary: d) (simp_all add: distinct_setdefault)

lemma map_of_setdefault:
  "map_of (setdefault k v d) k' = (case map_of d k' of Some w \<Rightarrow> Some w | None \<Rightarrow> if k' = k then Some v else None)"
  by (auto simp: setdefault_def map_add_def split: option.splits)

text \<open>The value of a key is that of its first record.\<close>

lemma map_of_keep_first:
  "map_of (keep_first key val xs d) k =
     (case map_of d k of Some w \<Rightarrow> Some w | None \<Rightarrow> map_option val (find (\<lambda>x. key x = k) xs))"
  by (induction xs arbitrary: d) (auto simp: map_of_setdefault split: option.splits)

text \<open>The records that are the first with their key, in the order of the list.\<close>

fun first_of_each :: "('a \<Rightarrow> 'k) \<Rightarrow> 'a list \<Rightarrow> 'a list" where
  "first_of_each key [] = []"
| "first_of_each key (x # xs) = x # filter (\<lambda>y. key y \<noteq> key x) (first_of_each key xs)"

lemma keep_first_order:
  "map snd (keep_first key (\<lambda>x. x) xs d) = map snd d @ filter (\<lambda>y. map_of d (key y) = None) (first_of_each key xs)"
proof (induction xs arbitrary: d)
  case (Cons x xs)
  have "filter (\<lambda>y. map_of (d @ [(key x, x)]) (key y) = None) ys =
      filter (\<lambda>y. map_of d (key y) = None) (filter (\<lambda>y. key y \<noteq> key x) ys)" for ys
    by (induction ys) (auto simp: map_add_def)
  moreover have "filter (\<lambda>y. map_of d (key y) = None) (filter (\<lambda>y. key y \<noteq> key x) ys) = filter (\<lambda>y. map_of d (key y) = None) ys"
    if "map_of d (key x) \<noteq> None" for ys
    using that by (induction ys) auto
  ultimately show ?case using Cons.IH by (auto simp: setdefault_def)
qed simp

lemma set_setdefault: "snd ` set (setdefault k v d) \<subseteq> insert v (snd ` set d)"
  by (auto simp: setdefault_def)

lemma set_keep_first: "snd ` set (keep_first key val xs d) \<subseteq> snd ` set d \<union> val ` set xs"
proof (induction xs arbitrary: d)
  case Nil
  then show ?case by simp
next
  case (Cons x xs)
  have "snd ` set (keep_first key val (x # xs) d) \<subseteq> snd ` set (setdefault (key x) (val x) d) \<union> val ` set xs"
    using Cons.IH by simp
  also have "\<dots> \<subseteq> insert (val x) (snd ` set d) \<union> val ` set xs"
    using set_setdefault [of "key x" "val x" d] by blast
  finally show ?case by auto
qed

lemma keys_of_keep_first:
  "list_all (\<lambda>(k, v). k = f v) d \<Longrightarrow> (\<And>x. x \<in> set xs \<Longrightarrow> key x = f (val x)) \<Longrightarrow>
   list_all (\<lambda>(k, v). k = f v) (keep_first key val xs d)"
  by (induction xs arbitrary: d) (simp_all add: setdefault_def)

text \<open>The records kept of a list: one for every key, the first with that key.\<close>

lemma keep_first_records:
  fixes key :: "'a \<Rightarrow> 'k" and xs :: "'a list"
  defines "rs \<equiv> map snd (keep_first key (\<lambda>x. x) xs [])"
  shows "distinct (map key rs)" and "key ` set rs = key ` set xs"
    and "list_all (\<lambda>r. find (\<lambda>x. key x = key r) xs = Some r) rs"
proof -
  let ?d = "keep_first key (\<lambda>x. x) xs []"
  have keys: "list_all (\<lambda>(k, v). k = key v) ?d"
    by (rule keys_of_keep_first) simp_all
  have dist: "distinct (map fst ?d)" by (rule distinct_keep_first) simp
  have fs: "map key rs = map fst ?d"
    using keys unfolding rs_def by (auto simp: list_all_iff)
  show "distinct (map key rs)" using dist fs by simp
  have "key ` set rs = fst ` set ?d" using fs by (metis set_map)
  then show "key ` set rs = key ` set xs"
    using dom_keep_first [of key "\<lambda>x. x" xs "[]"] by simp
  show "list_all (\<lambda>r. find (\<lambda>x. key x = key r) xs = Some r) rs"
    unfolding list_all_iff
  proof
    fix v assume "v \<in> set rs"
    then obtain k where k: "(k, v) \<in> set ?d" by (auto simp: rs_def)
    have "k = key v" using keys k by (auto simp: list_all_iff)
    moreover have "map_of ?d k = Some v" using dist k by simp
    ultimately show "find (\<lambda>x. key x = key v) xs = Some v" by (simp add: map_of_keep_first)
  qed
qed

lemma map_of_dict_set: "map_of (dict_set k v d) k' = (if k' = k then Some v else map_of d k')"
proof (cases "map_of d k")
  case None
  then show ?thesis by (auto simp: dict_set_def map_add_def split: option.splits)
next
  case (Some w)
  have "map_of (map (\<lambda>(a, b). (a, if a = k then v else b)) e) k' =
      (if k' = k \<and> map_of e k \<noteq> None then Some v else map_of e k')" for e
    by (induction e) auto
  with Some show ?thesis by (simp add: dict_set_def)
qed

lemma keys_dict_set:
  "map fst (dict_set k v d) = (if k \<in> fst ` set d then map fst d else map fst d @ [k])"
  by (auto simp: dict_set_def map_of_eq_None_iff)

lemma distinct_dict_set: "distinct (map fst d) \<Longrightarrow> distinct (map fst (dict_set k v d))"
  by (auto simp: keys_dict_set)

end
