(* ===== verification/Server_Met.thy ===== *)
theory Server_Met
  imports Typed_Read Py_String Py_Dict
begin

text \<open>
  \<open>core/ed2k/server_met.py\<close>: the records of \<open>server.met\<close> and of the text file of static servers, and the
  merge of two lists. Text lines are strings of code points below 256.
\<close>

section \<open>Records\<close>

definition SERVER_MET_VERSION :: nat where "SERVER_MET_VERSION = 0xE0"

record 'f server_record =
  sr_ip :: int
  sr_port :: int
  sr_tags :: "'f ed2k_tag list"
  sr_static :: bool

definition mk_server_record :: "int \<Rightarrow> int \<Rightarrow> 'f ed2k_tag list \<Rightarrow> bool \<Rightarrow> 'f server_record res" where
  "mk_server_record ip port tags st =
     (if \<not> (0 \<le> ip \<and> ip \<le> 0xFFFFFFFF) then Inl ServerMetError
      else if \<not> (0 \<le> port \<and> port \<le> 0xFFFF) then Inl ServerMetError
      else Inr \<lparr>sr_ip = ip, sr_port = port, sr_tags = tags, sr_static = st\<rparr>)"

definition tag_text :: "'f ed2k_tag \<Rightarrow> ustr" where
  "tag_text t = (case t_value t of VStr s \<Rightarrow> s | _ \<Rightarrow> [])"

definition tag_int :: "'f ed2k_tag \<Rightarrow> int" where
  "tag_int t = (case t_value t of VInt i \<Rightarrow> i | _ \<Rightarrow> 0)"

definition by_id :: "int \<Rightarrow> 'f ed2k_tag list \<Rightarrow> 'f ed2k_tag option" where
  "by_id i ts = find (\<lambda>t. t_name_id t = Some i) ts"

definition by_name :: "string \<Rightarrow> 'f ed2k_tag list \<Rightarrow> 'f ed2k_tag option" where
  "by_name n ts = find (\<lambda>t. t_name t = Some (map code n)) ts"

definition server_address :: "'f server_record \<Rightarrow> string" where
  "server_address s = ipv4_str (nat (sr_ip s))"

definition server_endpoint :: "'f server_record \<Rightarrow> string" where
  "server_endpoint s = server_address s @ '':'' @ show_int (sr_port s)"

definition server_name :: "'f server_record \<Rightarrow> ustr" where
  "server_name s =
     (case by_id 0x01 (sr_tags s) of Some t \<Rightarrow> tag_text t | None \<Rightarrow> map code (''Server '' @ server_endpoint s))"

definition server_description :: "'f server_record \<Rightarrow> ustr" where
  "server_description s = (case by_id 0x0B (sr_tags s) of Some t \<Rightarrow> tag_text t | None \<Rightarrow> [])"

definition server_priority :: "'f server_record \<Rightarrow> int" where
  "server_priority s =
     (case by_id 0x0E (sr_tags s) of
        Some t \<Rightarrow> (let v = tag_int t in if 0 \<le> v \<and> v \<le> 2 then v else 0)
      | None \<Rightarrow> 0)"

definition server_version :: "'f server_record \<Rightarrow> ustr" where
  "server_version s = (case by_id 0x91 (sr_tags s) of Some t \<Rightarrow> tag_text t | None \<Rightarrow> [])"

definition server_users :: "'f server_record \<Rightarrow> int" where
  "server_users s = (case by_name ''users'' (sr_tags s) of Some t \<Rightarrow> tag_int t | None \<Rightarrow> 0)"

definition server_files :: "'f server_record \<Rightarrow> int" where
  "server_files s = (case by_name ''files'' (sr_tags s) of Some t \<Rightarrow> tag_int t | None \<Rightarrow> 0)"

definition server_aux_ports :: "'f server_record \<Rightarrow> ustr" where
  "server_aux_ports s = (case by_id 0x93 (sr_tags s) of Some t \<Rightarrow> tag_text t | None \<Rightarrow> [])"

definition server_key :: "'f server_record \<Rightarrow> int \<times> int" where
  "server_key s = (sr_ip s, sr_port s)"

section \<open>Parsing\<close>

text \<open>
  \<open>read_tags\<close> is the loop over a count of tags that every list of records in this package uses.
  The checks of \<open>ServerRecord\<close> raise \<open>ServerMetError\<close> inside the parser's \<open>try\<close>, which does not catch it.
\<close>

definition read_tags :: "(bytes \<Rightarrow> 'f) \<Rightarrow> reader \<Rightarrow> ('f ed2k_tag list \<times> reader) res" where
  "read_tags uf r = bindE (read_u32 r) (\<lambda>(n, r1). read_n (read_new_tag uf) n r1)"

definition read_server_record :: "(bytes \<Rightarrow> 'f) \<Rightarrow> reader \<Rightarrow> ('f server_record \<times> reader) res" where
  "read_server_record uf r =
     bindE (read_u32 r) (\<lambda>(ip, r1).
     bindE (read_u16 r1) (\<lambda>(port, r2).
     bindE (read_tags uf r2) (\<lambda>(tags, r3).
     bindE (mk_server_record (int ip) (int port) tags False) (\<lambda>s. Inr (s, r3)))))"

definition parse_server_met_body :: "(bytes \<Rightarrow> 'f) \<Rightarrow> bytes \<Rightarrow> 'f server_record list res" where
  "parse_server_met_body uf data =
     bindE (read_u8 (from_bytes data)) (\<lambda>(version, r1).
     if version \<noteq> SERVER_MET_VERSION then Inl ServerMetError
     else
       bindE (read_u32 r1) (\<lambda>(cnt, r2).
       bindE (read_n (read_server_record uf) cnt r2) (\<lambda>(records, r3).
         if remaining r3 \<noteq> 0 then Inl ServerMetError else Inr records)))"

definition parse_server_met :: "(bytes \<Rightarrow> 'f) \<Rightarrow> bytes \<Rightarrow> 'f server_record list res" where
  "parse_server_met uf data =
     (case parse_server_met_body uf data of
        Inl e \<Rightarrow> Inl (if e = CodecError \<or> e = TagError then ServerMetError else e)
      | Inr rs \<Rightarrow> Inr rs)"

text \<open>\<open>load_server_met\<close>: the bytes of the file, or \<open>None\<close> when reading it raises \<open>OSError\<close>.\<close>

definition load_server_met :: "(bytes \<Rightarrow> 'f) \<Rightarrow> bytes option \<Rightarrow> 'f server_record list res" where
  "load_server_met uf file = (case file of None \<Rightarrow> Inl ServerMetError | Some data \<Rightarrow> parse_server_met uf data)"

section \<open>Static servers\<close>

record static_server =
  ss_host :: string
  ss_port :: int
  ss_name :: string
  ss_priority :: int
  ss_static :: bool

definition parse_static_line :: "string \<Rightarrow> static_server option" where
  "parse_static_line raw =
     (let line = py_strip raw in
      if line = [] \<or> starts_with ''#'' line \<or> starts_with ''/'' line then None
      else case map py_strip (py_split (CHR '','') line) of
        [endpoint, priority_raw, name] \<Rightarrow>
          if CHR '':'' \<notin> set endpoint then None
          else (case py_partition (CHR '':'') endpoint of (host, port_raw) \<Rightarrow>
            (case (py_int port_raw, py_int priority_raw) of
               (Some port, Some priority) \<Rightarrow>
                 if \<not> (0 \<le> port \<and> port \<le> 0xFFFF) then None
                 else Some \<lparr>ss_host = host, ss_port = port, ss_name = (if name = [] then endpoint else name),
                            ss_priority = (if \<not> (0 \<le> priority \<and> priority \<le> 2) then 0 else priority),
                            ss_static = True\<rparr>
             | _ \<Rightarrow> None))
      | _ \<Rightarrow> None)"

definition load_static_servers :: "string list option \<Rightarrow> static_server list res" where
  "load_static_servers lines =
     (case lines of
        None \<Rightarrow> Inl ServerMetError
      | Some ls \<Rightarrow> Inr (List.map_filter parse_static_line ls))"

section \<open>Merging\<close>

definition merge_server_lists :: "'f server_record list \<Rightarrow> 'f server_record list \<Rightarrow> 'f server_record list" where
  "merge_server_lists primary secondary =
     map snd (keep_first server_key (\<lambda>s. s) secondary (keep_first server_key (\<lambda>s. s) primary []))"

section \<open>What the parser accepts\<close>

definition server_record_ok :: "'f server_record \<Rightarrow> bool" where
  "server_record_ok s \<longleftrightarrow> 0 \<le> sr_ip s \<and> sr_ip s < 2 ^ 32 \<and> 0 \<le> sr_port s \<and> sr_port s < 2 ^ 16 \<and>
     list_all tag_ok (sr_tags s) \<and> \<not> sr_static s"

lemma yields_tags: "yields {CodecError, TagError} (list_all tag_ok) (read_tags uf)"
  unfolding read_tags_def
  by (rule yields_bind [OF yields_prims(3)], rule yields_mono [OF yields_read_n [OF yields_tag]]) auto

lemma yields_server_record: "yields {CodecError, TagError} server_record_ok (read_server_record uf)"
  unfolding read_server_record_def
proof (rule yields_bind [OF yields_prims(3)], rule yields_bind [OF yields_prims(2)], rule yields_bind [OF yields_tags])
  fix ip port :: nat and tags assume "ip < 2 ^ 32" "port < 2 ^ 16" "list_all tag_ok (tags :: 'a ed2k_tag list)"
  then have "mk_server_record (int ip) (int port) tags False =
      Inr \<lparr>sr_ip = int ip, sr_port = int port, sr_tags = tags, sr_static = False\<rparr>"
    and "server_record_ok \<lparr>sr_ip = int ip, sr_port = int port, sr_tags = tags, sr_static = False\<rparr>"
    by (simp_all add: mk_server_record_def server_record_ok_def)
  then show "yields {CodecError, TagError} server_record_ok
      (\<lambda>r3. bindE (mk_server_record (int ip) (int port) tags False) (\<lambda>s. Inr (s, r3)))"
    by (simp add: yields_return)
qed

lemma gives_server_met_body:
  "gives {CodecError, TagError, ServerMetError} (list_all server_record_ok) (parse_server_met_body uf data)"
proof -
  let ?E = "{CodecError, TagError, ServerMetError}"
  note mono = yields_mono [where E = "{CodecError, TagError}" and F = ?E]
  have u8: "yields ?E (\<lambda>_. True) read_u8" and u32: "yields ?E (\<lambda>_. True) read_u32"
    by (rule mono [OF yields_prims(1)], simp_all) (rule mono [OF yields_prims(3)], simp_all)
  have rs: "yields ?E (list_all server_record_ok) (read_n (read_server_record uf) n)" for n
    by (rule mono [OF yields_read_n [OF yields_server_record]]) auto
  have tail: "gives ?E (list_all server_record_ok) (bindE (read_u32 r) (\<lambda>(cnt, r2).
      bindE (read_n (read_server_record uf) cnt r2) (\<lambda>(records, r3).
        if remaining r3 \<noteq> 0 then Inl ServerMetError else Inr records)))" if "reader_ok r" for r
    by (rule gives_read [OF u32 that], rule gives_read [OF rs], assumption) simp
  show ?thesis
    unfolding parse_server_met_body_def
    by (rule gives_read [OF u8 reader_ok_from_bytes]) (use tail in simp)
qed

theorem server_list_well_typed:
  "case parse_server_met uf data of Inl e \<Rightarrow> e = ServerMetError | Inr rs \<Rightarrow> list_all server_record_ok rs"
  using gives_server_met_body [of uf data] by (auto simp: parse_server_met_def gives_def split: sum.splits)

section \<open>The layout\<close>

text \<open>The file a list of records stands for: the layout of the module's documentation.\<close>

definition server_record_image ::
    "('f tag_value \<Rightarrow> bytes option) \<Rightarrow> 'f server_record \<Rightarrow> writer \<Rightarrow> writer res" where
  "server_record_image pf s w =
     bindE (write_u32 (sr_ip s) w) (\<lambda>w1. bindE (write_u16 (sr_port s) w1) (\<lambda>w2.
     bindE (write_u32 (int (length (sr_tags s))) w2) (\<lambda>w3. foldE (\<lambda>w t. write_new_tag pf t w) w3 (sr_tags s))))"

definition server_met_image :: "('f tag_value \<Rightarrow> bytes option) \<Rightarrow> 'f server_record list \<Rightarrow> bytes res" where
  "server_met_image pf rs =
     bindE (write_u32 (int (length rs)) [0xE0]) (\<lambda>w. foldE (\<lambda>w s. server_record_image pf s w) w rs)"

definition server_record_canon ::
    "('f tag_value \<Rightarrow> bytes option) \<Rightarrow> (bytes \<Rightarrow> 'f) \<Rightarrow> 'f server_record \<Rightarrow> 'f server_record" where
  "server_record_canon pf uf s =
     \<lparr>sr_ip = sr_ip s, sr_port = sr_port s, sr_tags = map (canon_tag pf uf) (sr_tags s), sr_static = False\<rparr>"

lemma write_tags_reads:
  assumes "foldE (\<lambda>w t. write_new_tag pf t w) w ts = Inr w'" and "list_all tag_ok ts" and "float_law pf"
    and "length ts < 2 ^ 32"
  shows "\<exists>e. w' = w @ e \<and> reads (read_tags uf) (le_enc 4 (length ts) @ e) (map (canon_tag pf uf) ts)"
proof -
  have "\<exists>e. w' = w @ e \<and> reads (read_n (read_new_tag uf) (length ts)) e (map (canon_tag pf uf) ts)"
    by (rule foldE_writes [OF assms(1)])
      (use assms(2,3) write_new_tag_reads in \<open>fastforce simp: list_all_iff\<close>)
  then obtain e where e: "w' = w @ e" "reads (read_n (read_new_tag uf) (length ts)) e (map (canon_tag pf uf) ts)"
    by blast
  have "reads (read_tags uf) (le_enc 4 (length ts) @ e) (map (canon_tag pf uf) ts)"
    unfolding read_tags_def by (rule reads_bind [OF reads_u32 [OF assms(4)]]) (rule e(2))
  with e(1) show ?thesis by blast
qed

lemma server_record_image_reads:
  assumes "server_record_image pf s w = Inr w'" and "list_all tag_ok (sr_tags s)" and "float_law pf"
  shows "\<exists>e. w' = w @ e \<and> reads (read_server_record uf) e (server_record_canon pf uf s)"
proof -
  from assms(1) obtain w3 where
    b: "0 \<le> sr_ip s" "sr_ip s < 2 ^ 32" "0 \<le> sr_port s" "sr_port s < 65536" "length (sr_tags s) < 2 ^ 32"
    and w3: "w3 = w @ le_enc 4 (nat (sr_ip s)) @ le_enc 2 (nat (sr_port s)) @ le_enc 4 (length (sr_tags s))"
    and f: "foldE (\<lambda>w t. write_new_tag pf t w) w3 (sr_tags s) = Inr w'"
    by (auto simp: server_record_image_def bindE_eq_Inr_conv write_Inr)
  from write_tags_reads [OF f assms(2,3) b(5), of uf] obtain e where
    e: "w' = w3 @ e" "reads (read_tags uf) (le_enc 4 (length (sr_tags s)) @ e) (map (canon_tag pf uf) (sr_tags s))"
    by blast
  have n: "nat (sr_ip s) < 2 ^ 32" "nat (sr_port s) < 65536" using b by (simp_all add: nat_less_iff)
  have "reads (read_server_record uf)
      (le_enc 4 (nat (sr_ip s)) @ le_enc 2 (nat (sr_port s)) @ (le_enc 4 (length (sr_tags s)) @ e))
      (server_record_canon pf uf s)"
    unfolding read_server_record_def
    by (rule reads_bind [OF reads_u32 [OF n(1)]], rule reads_bind [OF reads_u16 [OF n(2)]],
        rule reads_bind_nil [OF e(2)])
      (use b in \<open>simp add: mk_server_record_def server_record_canon_def reads_return\<close>)
  with e(1) w3 show ?thesis by simp
qed

theorem server_met_layout:
  assumes "server_met_image pf rs = Inr data" and "list_all (\<lambda>s. list_all tag_ok (sr_tags s)) rs"
    and "float_law pf"
  shows "parse_server_met uf data = Inr (map (server_record_canon pf uf) rs)"
proof -
  let ?canon = "map (server_record_canon pf uf) rs"
  from assms(1) obtain w where l: "length rs < 2 ^ 32" and w: "w = [0xE0] @ le_enc 4 (length rs)"
    and f: "foldE (\<lambda>w s. server_record_image pf s w) w rs = Inr data"
    by (auto simp: server_met_image_def bindE_eq_Inr_conv write_Inr)
  have "\<exists>e. data = w @ e \<and> reads (read_n (read_server_record uf) (length rs)) e ?canon"
    by (rule foldE_writes [OF f])
      (use assms(2,3) server_record_image_reads in \<open>fastforce simp: list_all_iff\<close>)
  then obtain e where e: "data = w @ e" "reads (read_n (read_server_record uf) (length rs)) e ?canon"
    by blast
  let ?get = "\<lambda>r. bindE (read_u32 r) (\<lambda>(cnt, r2). read_n (read_server_record uf) cnt r2)"
  have body: "reads ?get (le_enc 4 (length rs) @ e) ?canon"
    by (rule reads_bind [OF reads_u32 [OF l]]) (rule e(2))
  have "reads (\<lambda>r. bindE (read_u8 r) (\<lambda>(v, r1). bindE (?get r1) (\<lambda>(x, r2). Inr ((v, x), r2))))
      ([word_of_nat 0xE0] @ le_enc 4 (length rs) @ e) (0xE0, ?canon)"
    by (rule reads_bind [OF reads_u8], simp, rule reads_map [OF body])
  from reads_whole [OF this] have "bindE (read_u8 (from_bytes data)) (\<lambda>(v, r1). bindE (?get r1) (\<lambda>(x, r2). Inr ((v, x), r2))) =
      Inr ((0xE0, ?canon), advance (length data) (from_bytes data))"
    by (simp add: e(1) w)
  then obtain r1 r2 cnt where "read_u8 (from_bytes data) = Inr (0xE0, r1)" "read_u32 r1 = Inr (cnt, r2)"
    "read_n (read_server_record uf) cnt r2 = Inr (?canon, advance (length data) (from_bytes data))"
    by (auto simp: bindE_eq_Inr_conv simp del: read_n.simps)
  then have "parse_server_met_body uf data = Inr ?canon"
    by (simp add: parse_server_met_body_def SERVER_MET_VERSION_def del: read_n.simps)
  then show ?thesis by (simp add: parse_server_met_def)
qed

section \<open>Merging and addresses\<close>

theorem merge_keeps_primary:
  "distinct (map server_key (merge_server_lists p q)) \<and>
   server_key ` set (merge_server_lists p q) = server_key ` (set p \<union> set q) \<and>
   list_all (\<lambda>s. find (\<lambda>x. server_key x = server_key s) (p @ q) = Some s) (merge_server_lists p q)"
proof -
  have "merge_server_lists p q = map snd (keep_first server_key (\<lambda>s. s) (p @ q) [])"
    by (simp add: merge_server_lists_def keep_first_append)
  with keep_first_records [of server_key "p @ q"] show ?thesis by simp
qed

lemma octets_little: "le_dec [a, b, c, d] = unat a + 2 ^ 8 * unat b + 2 ^ 16 * unat c + 2 ^ 24 * unat d"
  by simp

text \<open>The dotted text of four bytes in the order given.\<close>

definition dotted :: "byte \<Rightarrow> byte \<Rightarrow> byte \<Rightarrow> byte \<Rightarrow> string" where
  "dotted a b c d = show_nat (unat a) @ ''.'' @ show_nat (unat b) @ ''.'' @ show_nat (unat c) @ ''.'' @ show_nat (unat d)"

lemma ipv4_str_octets: "ipv4_str (le_dec [a, b, c, d]) = dotted d c b a"
proof -
  have l: "unat x < 256" for x :: byte using unsigned_less [of x, where ?'a = nat] by simp
  define n where "n = unat a + 256 * (unat b + 256 * (unat c + 256 * unat d))"
  have d1: "n div 256 = unat b + 256 * (unat c + 256 * unat d)" using l [of a] by (simp add: n_def)
  have d2: "n div 65536 = unat c + 256 * unat d"
    using d1 l [of b] div_mult2_eq [of n 256 256] by simp
  have d3: "n div 16777216 = unat d"
    using d2 l [of c] div_mult2_eq [of n 65536 256] by simp
  have "n mod 256 = unat a" using l [of a] by (simp only: n_def mod_mult_self2 mod_less)
  moreover have "n div 256 mod 256 = unat b" using d1 l [of b] by (simp only: mod_mult_self2 mod_less)
  ultimately have "ipv4_str n = dotted d c b a"
    using d2 d3 l [of c] by (simp add: ipv4_str_def dotted_def)
  moreover have "le_dec [a, b, c, d] = n" by (simp add: n_def)
  ultimately show ?thesis by simp
qed

text \<open>
  The first record of a file with the address bytes \<open>a\<close>, \<open>b\<close>, \<open>c\<close>, \<open>d\<close>: the address comes out backwards. The
  bundled \<open>assets/v1/server.met\<close> starts with 45, 82, 80, 155, the server 45.82.80.155 of
  \<open>assets/v1/staticservers.dat\<close>.
\<close>

theorem server_octets_reversed:
  assumes "port < 65536"
  shows "\<exists>s. parse_server_met uf ([0xE0] @ le_enc 4 1 @ [a, b, c, d] @ le_enc 2 port @ le_enc 4 0) = Inr [s] \<and>
     server_address s = dotted d c b a"
proof -
  let ?n = "le_dec [a, b, c, d]"
  let ?r = "\<lparr>sr_ip = int ?n, sr_port = int port, sr_tags = [], sr_static = False\<rparr>"
  have n: "?n < 2 ^ 32" using le_dec_bound [of "[a, b, c, d]"] by simp
  have e: "le_enc 4 ?n = [a, b, c, d]" by (rule le_enc_le_dec_n) simp
  have "server_met_image (\<lambda>_. None) [?r] = Inr ([0xE0] @ le_enc 4 1 @ [a, b, c, d] @ le_enc 2 port @ le_enc 4 0)"
    using n assms e by (simp add: server_met_image_def server_record_image_def write_u32_def write_u16_def del: le_dec.simps)
  from server_met_layout [OF this, of uf] have
    "parse_server_met uf ([0xE0] @ le_enc 4 1 @ [a, b, c, d] @ le_enc 2 port @ le_enc 4 0) =
     Inr [server_record_canon (\<lambda>_. None) uf ?r]"
    by (simp add: float_law_def)
  moreover have "server_address (server_record_canon (\<lambda>_. None) uf ?r) = dotted d c b a"
    using ipv4_str_octets [of a b c d] by (simp add: server_address_def server_record_canon_def del: le_dec.simps)
  ultimately show ?thesis by blast
qed

end
