(* ===== verification/Server_Client.thy ===== *)
theory Server_Client
  imports Packet_Codec Server_Met
begin

unbundle bit_operations_syntax

text \<open>
  \<open>core/ed2k/constants.py\<close> and \<open>core/ed2k/server_client.py\<close>: the login message, the server's messages and
  the session with one server. What the network does to a session is a value: the packets as
  \<open>_receive_packet\<close> returns them, and whether connecting and sending succeed.
\<close>

section \<open>Login message\<close>

definition LOGINREQUEST :: int where "LOGINREQUEST = 0x01"
definition REJECT :: int where "REJECT = 0x05"
definition OFFERFILES :: int where "OFFERFILES = 0x15"
definition SEARCHREQUEST :: int where "SEARCHREQUEST = 0x16"
definition GETSOURCES :: int where "GETSOURCES = 0x19"
definition SEARCHRESULT :: int where "SEARCHRESULT = 0x33"
definition SERVERSTATUS :: int where "SERVERSTATUS = 0x34"
definition SERVERMESSAGE :: int where "SERVERMESSAGE = 0x38"
definition IDCHANGE :: int where "IDCHANGE = 0x40"
definition SERVERIDENT :: int where "SERVERIDENT = 0x41"
definition FOUNDSOURCES :: int where "FOUNDSOURCES = 0x42"
definition FOUNDSOURCES_OBFU :: int where "FOUNDSOURCES_OBFU = 0x44"

lemmas c2s_defs = LOGINREQUEST_def REJECT_def OFFERFILES_def SEARCHREQUEST_def GETSOURCES_def SEARCHRESULT_def
  SERVERSTATUS_def SERVERMESSAGE_def IDCHANGE_def SERVERIDENT_def FOUNDSOURCES_def FOUNDSOURCES_OBFU_def

definition CAP_ZLIB :: int where "CAP_ZLIB = 0x0001"
definition CAP_AUXPORT :: int where "CAP_AUXPORT = 0x0004"
definition CAP_NEWTAGS :: int where "CAP_NEWTAGS = 0x0008"
definition CAP_UNICODE :: int where "CAP_UNICODE = 0x0010"
definition CAP_LARGEFILES :: int where "CAP_LARGEFILES = 0x0100"
definition CAP_SUPPORTCRYPT :: int where "CAP_SUPPORTCRYPT = 0x0200"
definition CAP_REQUESTCRYPT :: int where "CAP_REQUESTCRYPT = 0x0400"

definition EDONKEY_PROTOCOL_VERSION :: int where "EDONKEY_PROTOCOL_VERSION = 0x3C"

definition A_MULE_VERSION :: int where
  "A_MULE_VERSION = push_bit 24 3 OR push_bit 17 2 OR push_bit 10 3 OR push_bit 7 3"

record login_request =
  lr_user_hash :: bytes
  lr_client_id :: int
  lr_client_port :: int
  lr_nickname :: ustr
  lr_edonkey_version :: int
  lr_emule_version :: int
  lr_capabilities :: int

text \<open>The dataclass constructor with the checks of \<open>__post_init__\<close>.\<close>

definition mk_login_request :: "login_request \<Rightarrow> login_request res" where
  "mk_login_request lr =
     (if length (lr_user_hash lr) \<noteq> 16 then Inl ProtocolError
      else if \<not> (0 \<le> lr_client_id lr \<and> lr_client_id lr \<le> 0xFFFFFFFF) then Inl ProtocolError
      else if \<not> (0 \<le> lr_client_port lr \<and> lr_client_port lr \<le> 0xFFFF) then Inl ProtocolError
      else if lr_nickname lr = [] then Inl ProtocolError
      else case utf8_encode (lr_nickname lr) of
        None \<Rightarrow> Inl UnicodeError
      | Some raw \<Rightarrow>
          (if length raw > 0xFFFF then Inl ProtocolError
           else if \<not> (0 \<le> lr_edonkey_version lr \<and> lr_edonkey_version lr \<le> 0xFFFFFFFF) then Inl ProtocolError
           else if \<not> (0 \<le> lr_emule_version lr \<and> lr_emule_version lr \<le> 0xFFFFFFFF) then Inl ProtocolError
           else if \<not> (0 \<le> lr_capabilities lr \<and> lr_capabilities lr \<le> 0xFFFFFFFF) then Inl ProtocolError
           else Inr lr))"

text \<open>\<open>LoginRequest.create\<close>; \<open>random16\<close> is what \<open>os.urandom(16)\<close> returns.\<close>

definition login_request_create ::
    "bytes \<Rightarrow> ustr \<Rightarrow> int \<Rightarrow> int \<Rightarrow> bytes option \<Rightarrow> bool \<Rightarrow> login_request res" where
  "login_request_create random16 nickname client_id client_port user_hash enable_security =
     (let base = CAP_ZLIB OR CAP_AUXPORT OR CAP_NEWTAGS OR CAP_UNICODE OR CAP_LARGEFILES in
      mk_login_request
        \<lparr>lr_user_hash = (case user_hash of None \<Rightarrow> random16 | Some h \<Rightarrow> h), lr_client_id = client_id,
         lr_client_port = client_port, lr_nickname = nickname,
         lr_edonkey_version = EDONKEY_PROTOCOL_VERSION, lr_emule_version = A_MULE_VERSION,
         lr_capabilities = (if enable_security then base OR CAP_SUPPORTCRYPT OR CAP_REQUESTCRYPT else base)\<rparr>)"

definition login_server_flags :: int where
  "login_server_flags = 0x0001 OR 0x0008 OR 0x0010 OR 0x0100 OR 0x0200 OR 0x0400"

definition numeric_tag :: "int \<Rightarrow> int \<Rightarrow> 'f tag_value \<Rightarrow> 'f ed2k_tag" where
  "numeric_tag nid ty v = \<lparr>t_name = None, t_name_id = Some nid, t_type = ty, t_value = v\<rparr>"

text \<open>The capabilities of the request are not used: the flags of \<open>CT_SERVER_FLAGS\<close> are fixed.\<close>

definition login_tags :: "login_request \<Rightarrow> 'f ed2k_tag list" where
  "login_tags lr =
     [numeric_tag 0x01 STRING (VStr (lr_nickname lr)), numeric_tag 0x11 UINT32 (VInt (lr_edonkey_version lr)),
      numeric_tag 0x20 UINT32 (VInt login_server_flags), numeric_tag 0xFB UINT32 (VInt (lr_emule_version lr))]"

text \<open>\<open>int_str\<close> is \<open>int(name)\<close> of a textual tag name.\<close>

definition write_old_tag :: "(ustr \<Rightarrow> int res) \<Rightarrow> 'f ed2k_tag \<Rightarrow> writer \<Rightarrow> writer res" where
  "write_old_tag int_str t w =
     (case (case t_name t of Some nm \<Rightarrow> Some (int_str nm) | None \<Rightarrow> map_option Inr (t_name_id t)) of
        None \<Rightarrow> Inl TagError
      | Some name \<Rightarrow>
          (case t_value t of
             VStr s \<Rightarrow>
               (case utf8_encode s of
                  None \<Rightarrow> Inl UnicodeError
                | Some raw \<Rightarrow>
                    bindE (write_u8 0x02 w) (\<lambda>w1. bindE (write_u16 1 w1) (\<lambda>w2. bindE name (\<lambda>n.
                    bindE (write_u8 n w2) (\<lambda>w3. bindE (write_u16 (int (length raw)) w3) (\<lambda>w4. write_bytes raw w4))))))
           | VInt v \<Rightarrow>
               if \<not> (0 \<le> v \<and> v \<le> 0xFFFFFFFF) then Inl TagError
               else bindE (write_u8 0x03 w) (\<lambda>w1. bindE (write_u16 1 w1) (\<lambda>w2. bindE name (\<lambda>n.
                    bindE (write_u8 n w2) (\<lambda>w3. write_u32 v w3))))
           | _ \<Rightarrow> Inl TagError))"

definition build_login_payload :: "(ustr \<Rightarrow> int res) \<Rightarrow> login_request \<Rightarrow> bytes res" where
  "build_login_payload int_str lr =
     bindE (write_hash16 (lr_user_hash lr) []) (\<lambda>w1.
     bindE (write_u32 (lr_client_id lr) w1) (\<lambda>w2.
     bindE (write_u16 (lr_client_port lr) w2) (\<lambda>w3.
     let tags = (login_tags lr :: unit ed2k_tag list) in
     bindE (write_u32 (int (length tags)) w3) (\<lambda>w4.
       case foldE (\<lambda>w t. write_old_tag int_str t w) w4 tags of
         Inl e \<Rightarrow> Inl (if e = TagError then ProtocolError else e)
       | Inr w \<Rightarrow> Inr w))))"

definition build_login_packet :: "(ustr \<Rightarrow> int res) \<Rightarrow> login_request \<Rightarrow> bytes res" where
  "build_login_packet int_str lr =
     bindE (build_login_payload int_str lr) (\<lambda>p. bindE (mk_packet EDONKEY LOGINREQUEST p) encode_packet)"

section \<open>Messages of the server\<close>

record 'f server_identity =
  si_hash :: bytes
  si_ip :: nat
  si_port :: nat
  si_tags :: "'f ed2k_tag list"

text \<open>The first tag with the id that also holds text.\<close>

definition ident_text :: "int \<Rightarrow> 'f server_identity \<Rightarrow> ustr" where
  "ident_text i s =
     (case find (\<lambda>t. t_name_id t = Some i \<and> (case t_value t of VStr _ \<Rightarrow> True | _ \<Rightarrow> False)) (si_tags s) of
        Some t \<Rightarrow> tag_text t | None \<Rightarrow> [])"

definition ident_name :: "'f server_identity \<Rightarrow> ustr" where "ident_name s = ident_text 0x01 s"
definition ident_description :: "'f server_identity \<Rightarrow> ustr" where "ident_description s = ident_text 0x0B s"

record server_id_change =
  ic_client_id :: nat
  ic_server_flags :: nat
  ic_primary_tcp_port :: nat
  ic_reported_ip :: "nat option"
  ic_obfuscation_tcp_port :: "nat option"

record 'f search_result =
  se_hash :: bytes
  se_client_id :: nat
  se_client_port :: nat
  se_tags :: "'f ed2k_tag list"

text \<open>The fields that only Kad lookups fill are left out.\<close>

record found_source =
  so_client_id :: nat
  so_client_port :: nat
  so_crypt_options :: nat
  so_user_hash :: "bytes option"

definition HIGH_ID_THRESHOLD :: nat where "HIGH_ID_THRESHOLD = 16000000"

definition source_low_id :: "found_source \<Rightarrow> bool" where
  "source_low_id s \<longleftrightarrow> so_client_id s < HIGH_ID_THRESHOLD"

text \<open>\<open>IPv4Address(n)\<close> raises \<open>ValueError\<close> above 32 bits, which the property turns into \<open>None\<close>.\<close>

definition source_address :: "found_source \<Rightarrow> string option" where
  "source_address s =
     (if source_low_id s then None
      else if so_client_id s < 2 ^ 32 then Some (ipv4_str (so_client_id s)) else None)"

text \<open>\<open>isinstance(value, int)\<close> holds of \<open>True\<close> and \<open>False\<close> too.\<close>

definition int_value :: "'f tag_value \<Rightarrow> int option" where
  "int_value v = (case v of VInt i \<Rightarrow> Some i | VBool b \<Rightarrow> Some (of_bool b) | _ \<Rightarrow> None)"

definition result_tag :: "int \<Rightarrow> 'f search_result \<Rightarrow> 'f tag_value option" where
  "result_tag i s = map_option t_value (by_id i (se_tags s))"

definition result_int :: "int \<Rightarrow> 'f search_result \<Rightarrow> int option" where
  "result_int i s = Option.bind (result_tag i s) int_value"

definition result_name :: "'f search_result \<Rightarrow> ustr" where
  "result_name s = (case result_tag 0x01 s of Some (VStr n) \<Rightarrow> n | _ \<Rightarrow> [])"

definition result_size :: "'f search_result \<Rightarrow> int" where
  "result_size s =
     (case result_int 0x02 s of
        None \<Rightarrow> 0
      | Some low \<Rightarrow>
          (case result_int 0x3A s of
             Some high \<Rightarrow> push_bit 32 (high AND 0xFFFFFFFF) + (low AND 0xFFFFFFFF)
           | None \<Rightarrow> low))"

definition result_sources :: "'f search_result \<Rightarrow> int" where
  "result_sources s = (case result_int 0x15 s of Some n \<Rightarrow> n | None \<Rightarrow> 0)"

definition result_complete_sources :: "'f search_result \<Rightarrow> int" where
  "result_complete_sources s = (case result_int 0x30 s of Some n \<Rightarrow> n | None \<Rightarrow> 0)"

text \<open>\<open>strip\<close> is \<open>str.strip\<close>.\<close>

definition build_global_search_payload :: "(ustr \<Rightarrow> ustr) \<Rightarrow> ustr \<Rightarrow> bytes res" where
  "build_global_search_payload strip query =
     (if query = [] \<or> strip query = [] then Inl ProtocolError
      else bindE (write_u8 1 []) (\<lambda>w. write_string_utf8 (strip query) w))"

definition build_get_sources_payload :: "bytes \<Rightarrow> int \<Rightarrow> bytes res" where
  "build_get_sources_payload fh file_size =
     (if length fh \<noteq> 16 then Inl ProtocolError
      else if file_size < 0 then Inl ProtocolError
      else bindE (write_hash16 fh []) (\<lambda>w.
        if file_size \<le> 0xFFFFFFFF then write_u32 file_size w
        else bindE (write_u32 0 w) (\<lambda>w1. write_u64 file_size w1)))"

definition protocol_error :: "exn set \<Rightarrow> 'a res \<Rightarrow> 'a res" where
  "protocol_error es m = (case m of Inl e \<Rightarrow> Inl (if e \<in> es then ProtocolError else e) | Inr x \<Rightarrow> Inr x)"

definition read_search_result :: "(bytes \<Rightarrow> 'f) \<Rightarrow> reader \<Rightarrow> ('f search_result \<times> reader) res" where
  "read_search_result uf r =
     bindE (read_hash16 r) (\<lambda>(fh, r1).
     bindE (read_u32 r1) (\<lambda>(cid, r2).
     bindE (read_u16 r2) (\<lambda>(port, r3).
     bindE (read_tags uf r3) (\<lambda>(tags, r4).
       Inr (\<lparr>se_hash = fh, se_client_id = cid, se_client_port = port, se_tags = tags\<rparr>, r4)))))"

definition read_search_results :: "(bytes \<Rightarrow> 'f) \<Rightarrow> reader \<Rightarrow> ('f search_result list \<times> reader) res" where
  "read_search_results uf r = bindE (read_u32 r) (\<lambda>(n, r1). read_n (read_search_result uf) n r1)"

text \<open>\<open>ProtocolError\<close> of trailing bytes is raised inside the \<open>try\<close>, which does not catch it.\<close>

definition parse_search_results :: "(bytes \<Rightarrow> 'f) \<Rightarrow> bytes \<Rightarrow> ('f search_result list \<times> bool) res" where
  "parse_search_results uf payload =
     protocol_error {CodecError, TagError}
       (bindE (read_search_results uf (from_bytes payload)) (\<lambda>(results, r).
         if remaining r = 1 then bindE (read_u8 r) (\<lambda>(b, _). Inr (results, b = 1))
         else if remaining r \<noteq> 0 then Inl ProtocolError
         else Inr (results, False)))"

definition read_found_source :: "bool \<Rightarrow> reader \<Rightarrow> (found_source \<times> reader) res" where
  "read_found_source obfuscated r =
     bindE (read_u32 r) (\<lambda>(cid, r1).
     bindE (read_u16 r1) (\<lambda>(port, r2).
     if \<not> obfuscated then
       Inr (\<lparr>so_client_id = cid, so_client_port = port, so_crypt_options = 0, so_user_hash = None\<rparr>, r2)
     else
       bindE (read_u8 r2) (\<lambda>(opts, r3).
       if opts AND 0x80 \<noteq> 0 then
         bindE (read_hash16 r3) (\<lambda>(h, r4).
           Inr (\<lparr>so_client_id = cid, so_client_port = port, so_crypt_options = opts, so_user_hash = Some h\<rparr>, r4))
       else
         Inr (\<lparr>so_client_id = cid, so_client_port = port, so_crypt_options = opts, so_user_hash = None\<rparr>, r3))))"

definition parse_found_sources :: "bytes \<Rightarrow> bool \<Rightarrow> (bytes \<times> found_source list) res" where
  "parse_found_sources payload obfuscated =
     bindE (protocol_error {CodecError, TagError}
       (bindE (read_hash16 (from_bytes payload)) (\<lambda>(fh, r1).
        bindE (read_u8 r1) (\<lambda>(n, r2).
        bindE (read_n (read_found_source obfuscated) n r2) (\<lambda>(sources, r3). Inr ((fh, sources), r3))))))
       (\<lambda>(x, r). if remaining r \<noteq> 0 then Inl ProtocolError else Inr x)"

definition parse_server_ident :: "(bytes \<Rightarrow> 'f) \<Rightarrow> bytes \<Rightarrow> 'f server_identity res" where
  "parse_server_ident uf payload =
     bindE (protocol_error {CodecError, TagError}
       (bindE (read_hash16 (from_bytes payload)) (\<lambda>(h, r1).
        bindE (read_u32 r1) (\<lambda>(ip, r2).
        bindE (read_u16 r2) (\<lambda>(port, r3).
        bindE (read_tags uf r3) (\<lambda>(tags, r4).
          Inr (\<lparr>si_hash = h, si_ip = ip, si_port = port, si_tags = tags\<rparr>, r4)))))))
       (\<lambda>(x, r). if remaining r \<noteq> 0 then Inl ProtocolError else Inr x)"

definition parse_server_status :: "bytes \<Rightarrow> (nat \<times> nat) res" where
  "parse_server_status payload =
     bindE (protocol_error {CodecError}
       (bindE (read_u32 (from_bytes payload)) (\<lambda>(users, r1).
        bindE (read_u32 r1) (\<lambda>(files, r2). Inr ((users, files), r2)))))
       (\<lambda>(x, r). if remaining r \<noteq> 0 then Inl ProtocolError else Inr x)"

definition parse_server_message :: "bytes \<Rightarrow> ustr res" where
  "parse_server_message payload =
     bindE (protocol_error {CodecError, UnicodeError} (read_string_utf8 (from_bytes payload)))
       (\<lambda>(x, r). if remaining r \<noteq> 0 then Inl ProtocolError else Inr x)"

definition parse_server_id_change :: "bytes \<Rightarrow> server_id_change res" where
  "parse_server_id_change p =
     (if length p < 4 then Inl ProtocolError
      else Inr \<lparr>ic_client_id = le_dec (py_slice 0 4 p),
        ic_server_flags = (if 8 \<le> length p then le_dec (py_slice 4 8 p) else 0),
        ic_primary_tcp_port = (if 12 \<le> length p then le_dec (py_slice 8 12 p) else 0),
        ic_reported_ip = (if 16 \<le> length p then Some (le_dec (py_slice 12 16 p)) else None),
        ic_obfuscation_tcp_port = (if 20 \<le> length p then Some (le_dec (py_slice 16 20 p)) else None)\<rparr>)"

section \<open>What the parsers promise\<close>

lemma gives_bind: "gives E P m \<Longrightarrow> (\<And>x. P x \<Longrightarrow> gives E Q (f x)) \<Longrightarrow> gives E Q (bindE m f)"
  by (cases m) auto

lemma gives_protocol_error:
  "gives F P m \<Longrightarrow> F - es \<subseteq> E \<Longrightarrow> ProtocolError \<in> E \<Longrightarrow> gives E P (protocol_error es m)"
  by (cases m) (auto simp: protocol_error_def)

definition search_result_ok :: "'f search_result \<Rightarrow> bool" where
  "search_result_ok s \<longleftrightarrow> length (se_hash s) = 16 \<and> se_client_id s < 2 ^ 32 \<and> se_client_port s < 2 ^ 16 \<and>
     list_all tag_ok (se_tags s)"

definition found_source_ok :: "found_source \<Rightarrow> bool" where
  "found_source_ok s \<longleftrightarrow> so_client_id s < 2 ^ 32 \<and> so_client_port s < 2 ^ 16 \<and> so_crypt_options s < 256 \<and>
     (case so_user_hash s of None \<Rightarrow> True | Some h \<Rightarrow> length h = 16)"

definition identity_ok :: "'f server_identity \<Rightarrow> bool" where
  "identity_ok s \<longleftrightarrow> length (si_hash s) = 16 \<and> si_ip s < 2 ^ 32 \<and> si_port s < 2 ^ 16 \<and> list_all tag_ok (si_tags s)"

lemma yields_search_result: "yields {CodecError, TagError} search_result_ok (read_search_result uf)"
  unfolding read_search_result_def
  by (rule yields_bind [OF yields_hash16], rule yields_bind [OF yields_prims(3)], rule yields_bind [OF yields_prims(2)],
      rule yields_map [OF yields_tags]) (simp add: search_result_ok_def)

lemma yields_search_results: "yields {CodecError, TagError} (list_all search_result_ok) (read_search_results uf)"
  unfolding read_search_results_def
  by (rule yields_bind [OF yields_prims(3)], rule yields_mono [OF yields_read_n [OF yields_search_result]]) auto

lemma yields_found_source: "yields {CodecError, TagError} found_source_ok (read_found_source ob)"
proof -
  have "yields {CodecError, TagError} found_source_ok (\<lambda>r2. bindE (read_u8 r2) (\<lambda>(opts, r3).
       if opts AND 0x80 \<noteq> 0 then
         bindE (read_hash16 r3) (\<lambda>(h, r4).
           Inr (\<lparr>so_client_id = cid, so_client_port = port, so_crypt_options = opts, so_user_hash = Some h\<rparr>, r4))
       else
         Inr (\<lparr>so_client_id = cid, so_client_port = port, so_crypt_options = opts, so_user_hash = None\<rparr>, r3)))"
    if "cid < 2 ^ 32" "port < 2 ^ 16" for cid port
  proof (rule yields_bind [OF yields_prims(1)])
    fix opts :: nat assume "opts < 256"
    with that show "yields {CodecError, TagError} found_source_ok (\<lambda>r3. if opts AND 0x80 \<noteq> 0 then
         bindE (read_hash16 r3) (\<lambda>(h, r4).
           Inr (\<lparr>so_client_id = cid, so_client_port = port, so_crypt_options = opts, so_user_hash = Some h\<rparr>, r4))
       else Inr (\<lparr>so_client_id = cid, so_client_port = port, so_crypt_options = opts, so_user_hash = None\<rparr>, r3))"
      by (cases "opts AND 0x80 \<noteq> 0")
        (simp_all add: yields_return found_source_ok_def yields_map [OF yields_hash16])
  qed
  then show ?thesis
    unfolding read_found_source_def
    by (cases ob) (auto intro!: yields_bind [OF yields_prims(3)] yields_bind [OF yields_prims(2)] yields_return
        simp: found_source_ok_def)
qed

lemma gives_whole:
  assumes "gives {ProtocolError} (\<lambda>(x, r). P x) m"
  shows "gives {ProtocolError} P (bindE m (\<lambda>(x, r). if remaining r \<noteq> 0 then Inl ProtocolError else Inr x))"
  by (rule gives_bind [OF assms]) auto

lemma gives_yields: "yields E P g \<Longrightarrow> gives E (\<lambda>(x, r). P x) (g (from_bytes p))"
  using yieldsD [of E P g "from_bytes p"] by (cases "g (from_bytes p)") auto

text \<open>The common shape: read inside the \<open>try\<close>, then reject trailing bytes.\<close>

lemma gives_message:
  assumes "yields {CodecError, TagError} P g"
  shows "gives {ProtocolError} P (bindE (protocol_error {CodecError, TagError} (g (from_bytes p)))
    (\<lambda>(x, r). if remaining r \<noteq> 0 then Inl ProtocolError else Inr x))"
  by (rule gives_whole, rule gives_protocol_error [OF gives_yields [OF assms]]) auto

lemma gives_search_results:
  "gives {ProtocolError} (\<lambda>(rs, more_results). list_all search_result_ok rs) (parse_search_results uf payload)"
proof -
  let ?E = "{CodecError, TagError, ProtocolError}"
  note mono = yields_mono [where E = "{CodecError, TagError}" and F = ?E]
  have u8: "yields ?E (\<lambda>_. True) read_u8" by (rule mono [OF yields_prims(1)]) simp_all
  have rs: "yields ?E (list_all search_result_ok) (read_search_results uf)"
    by (rule mono [OF yields_search_results]) simp_all
  have tail: "gives ?E (\<lambda>(rs, m). list_all search_result_ok rs)
      (if remaining r = 1 then bindE (read_u8 r) (\<lambda>(b, _). Inr (results, b = 1))
       else if remaining r \<noteq> 0 then Inl ProtocolError else Inr (results, False))"
    if "list_all search_result_ok results" "reader_ok r" for results r
    using that by (auto intro!: gives_read [OF u8])
  show ?thesis
    unfolding parse_search_results_def
    by (rule gives_protocol_error [OF gives_read [OF rs reader_ok_from_bytes tail]]) auto
qed

lemma gives_found_sources:
  "gives {ProtocolError} (\<lambda>(fh, ss). length fh = 16 \<and> list_all found_source_ok ss) (parse_found_sources payload ob)"
  unfolding parse_found_sources_def
  by (rule gives_message, rule yields_bind [OF yields_hash16], rule yields_bind [OF yields_prims(1)],
      rule yields_map [OF yields_read_n [OF yields_found_source]]) simp

lemma gives_server_ident: "gives {ProtocolError} identity_ok (parse_server_ident uf payload)"
  unfolding parse_server_ident_def
  by (rule gives_message, rule yields_bind [OF yields_hash16], rule yields_bind [OF yields_prims(3)],
      rule yields_bind [OF yields_prims(2)], rule yields_map [OF yields_tags]) (simp add: identity_ok_def)

lemma gives_server_status:
  "gives {ProtocolError} (\<lambda>(users, files). users < 2 ^ 32 \<and> files < 2 ^ 32) (parse_server_status payload)"
proof -
  have u: "yields {CodecError} (\<lambda>v. v < 2 ^ 32) read_u32"
    unfolding yields_def
  proof (intro allI impI)
    fix r assume ok: "reader_ok r"
    show "case read_u32 r of Inl e \<Rightarrow> e \<in> {CodecError} | Inr (x, r') \<Rightarrow> x < 2 ^ 32 \<and> reader_ok r'"
    proof (cases "read_u32 r")
      case (Inl e)
      then show ?thesis by (auto simp: read_u32_def require_def split: if_splits)
    next
      case (Inr q)
      then obtain v r' where "read_u32 r = Inr (v, r')" by (cases q) auto
      with read_u32_progress [OF this] reader_ok_advance [OF ok, of 4] show ?thesis by simp
    qed
  qed
  show ?thesis
    unfolding parse_server_status_def
    by (rule gives_whole, rule gives_protocol_error [OF gives_yields], rule yields_bind [OF u],
        rule yields_map [OF u]) auto
qed

text \<open>Every field of an id change is read as four bytes, the ports too.\<close>

definition id_change_ok :: "server_id_change \<Rightarrow> bool" where
  "id_change_ok ic \<longleftrightarrow> ic_client_id ic < 2 ^ 32 \<and> ic_server_flags ic < 2 ^ 32 \<and> ic_primary_tcp_port ic < 2 ^ 32 \<and>
     (\<forall>v \<in> set_option (ic_reported_ip ic) \<union> set_option (ic_obfuscation_tcp_port ic). v < 2 ^ 32)"

lemma gives_server_id_change: "gives {ProtocolError} id_change_ok (parse_server_id_change payload)"
proof -
  have four: "le_dec (py_slice a (a + 4) payload) < 2 ^ 32" for a
    using le_dec_bound [of "py_slice a (a + 4) payload"] power_increasing [of "length (py_slice a (a + 4) payload)" 4 "256 :: nat"]
    by (simp add: py_slice_def)
  show ?thesis
    using four [of 0] four [of 4] four [of 8] four [of 12] four [of 16]
    by (auto simp: parse_server_id_change_def id_change_ok_def)
qed

text \<open>
  C2. Whatever bytes a server sends as search results, sources, identity, status or id change, the parser either
  raises \<open>ProtocolError\<close> or returns a well-typed message: 16-byte hashes, ids and addresses below 2^32, well-formed
  tags; the ports of results, sources and identities below 2^16; the fields of an id change, whose ports are
  read as four bytes, below 2^32. The one exception its callers know is the only one.
\<close>

theorem server_parsers_well_typed:
  "gives {ProtocolError} (\<lambda>(rs, more_results). list_all search_result_ok rs) (parse_search_results uf payload) \<and>
   gives {ProtocolError} (\<lambda>(fh, ss). length fh = 16 \<and> list_all found_source_ok ss) (parse_found_sources payload ob) \<and>
   gives {ProtocolError} identity_ok (parse_server_ident uf payload) \<and>
   gives {ProtocolError} (\<lambda>(users, files). users < 2 ^ 32 \<and> files < 2 ^ 32) (parse_server_status payload) \<and>
   gives {ProtocolError} id_change_ok (parse_server_id_change payload)"
  using gives_search_results gives_found_sources gives_server_ident gives_server_status gives_server_id_change
  by blast

section \<open>The layout of a batch\<close>

definition search_result_bytes :: "'f search_result \<Rightarrow> bytes \<Rightarrow> bytes" where
  "search_result_bytes s tag_bytes = se_hash s @ le_enc 4 (se_client_id s) @ le_enc 2 (se_client_port s) @ tag_bytes"

lemma reads_search_result:
  assumes "search_result_ok s" and "reads (read_tags uf) e (se_tags s)"
  shows "reads (read_search_result uf) (search_result_bytes s e) s"
proof -
  have b: "length (se_hash s) = 16" "se_client_id s < 2 ^ 32" "se_client_port s < 65536"
    using assms(1) by (simp_all add: search_result_ok_def)
  show ?thesis
    unfolding read_search_result_def search_result_bytes_def
    by (rule reads_bind [OF reads_hash16 [OF b(1)]], rule reads_bind [OF reads_u32 [OF b(2)]],
        rule reads_bind [OF reads_u16 [OF b(3)]], rule reads_bind_nil [OF assms(2)]) (cases s, simp add: reads_return)
qed

lemma reads_no_tags: "reads (read_tags uf) (le_enc 4 0) []"
  unfolding read_tags_def by (rule reads_bind_nil [OF reads_u32]) (simp_all add: reads_return)

theorem search_results_layout:
  assumes "list_all2 (reads (read_search_result uf)) es rs" and "length rs < 2 ^ 32"
  shows "parse_search_results uf (le_enc 4 (length rs) @ concat es @ [b]) = Inr (rs, b = 1)"
proof -
  let ?d = "le_enc 4 (length rs) @ concat es" and ?r = "from_bytes (le_enc 4 (length rs) @ concat es @ [b])"
  have "reads (read_search_results uf) ?d rs"
    unfolding read_search_results_def
    by (rule reads_bind [OF reads_u32 [OF assms(2)]]) (rule reads_read_n [OF assms(1)])
  from readsD [OF this, of ?r "[b]"] have rd: "read_search_results uf ?r = Inr (rs, advance (length ?d) ?r)" by simp
  have u: "rest (advance (length ?d) ?r) = [b]" by (simp add: rest_advance)
  have "remaining (advance (length ?d) ?r) = 1" by (simp add: remaining_def advance_def from_bytes_def)
  moreover have "(unat b = 1) = (b = 1)" by (metis unat_1 word_unat_eq_iff)
  ultimately show ?thesis
    using rd read_u8_rest [OF u] by (simp add: parse_search_results_def protocol_error_def)
qed

section \<open>Addresses\<close>

text \<open>
  The four address bytes of a source stand on the wire in their dotted order; read as a little-endian
  number and printed by \<open>IPv4Address\<close> they come out backwards.
\<close>

theorem source_octets_reversed:
  assumes "length fh = 16" and "port < 65536" and "d \<noteq> 0"
  shows "\<exists>s. parse_found_sources (fh @ [1] @ [a, b, c, d] @ le_enc 2 port) False = Inr (fh, [s]) \<and>
     so_client_port s = port \<and> source_address s = Some (dotted d c b a)"
proof -
  let ?s = "\<lparr>so_client_id = le_dec [a, b, c, d], so_client_port = port, so_crypt_options = 0, so_user_hash = None\<rparr>"
  have id: "le_dec [a, b, c, d] < 2 ^ 32" using le_dec_bound [of "[a, b, c, d]"] by simp
  have e: "[a, b, c, d] = le_enc 4 (le_dec [a, b, c, d])" by (subst le_enc_le_dec_n) simp_all
  have rs: "reads (read_found_source False) ([a, b, c, d] @ le_enc 2 port) ?s"
    unfolding read_found_source_def
    by (subst e, rule reads_bind [OF reads_u32 [OF id]], rule reads_bind_nil [OF reads_u16 [OF assms(2)]])
      (simp add: reads_return)
  have "reads (read_n (read_found_source False) 0) [] []" by (simp add: reads_def)
  from reads_read_n_Cons [OF rs this] have n1: "reads (read_n (read_found_source False) 1) ([a, b, c, d] @ le_enc 2 port) [?s]"
    by (simp del: le_dec.simps read_n.simps)
  have "reads (\<lambda>r. bindE (read_hash16 r) (\<lambda>(fh, r1). bindE (read_u8 r1) (\<lambda>(n, r2).
      bindE (read_n (read_found_source False) n r2) (\<lambda>(sources, r3). Inr ((fh, sources), r3)))))
      (fh @ [word_of_nat 1] @ [a, b, c, d] @ le_enc 2 port) (fh, [?s])"
    by (rule reads_bind [OF reads_hash16 [OF assms(1)]], rule reads_bind [OF reads_u8], simp, rule reads_map [OF n1])
  note w = reads_whole [OF this]
  have p: "parse_found_sources (fh @ [1] @ [a, b, c, d] @ le_enc 2 port) False = Inr (fh, [?s])"
    unfolding parse_found_sources_def
    by (simp only: w [unfolded of_nat_1] protocol_error_def sum.case bindE_Inr prod.case remaining_end) simp
  have "unat d \<noteq> 0" using assms(3) by (simp add: unat_eq_0)
  then have "HIGH_ID_THRESHOLD \<le> le_dec [a, b, c, d]" by (simp add: HIGH_ID_THRESHOLD_def)
  then have "source_address ?s = Some (dotted d c b a)"
    using id ipv4_str_octets [of a b c d] by (simp add: source_address_def source_low_id_def del: le_dec.simps)
  with p show ?thesis by auto
qed

end
