(* ===== verification/Server_Login.thy ===== *)
theory Server_Login
  imports Server_Client
begin

text \<open>
  The class \<open>Ed2kServerClient\<close> of \<open>core/ed2k/server_client.py\<close>: receiving, the login handshake, the search
  window, source lookup and publishing.
\<close>

section \<open>Receiving\<close>

definition HEADER_SIZE :: nat where "HEADER_SIZE = 6"
definition MAX_SERVER_PACKET_SIZE :: nat where "MAX_SERVER_PACKET_SIZE = 16 * 1024 * 1024"

record stream =
  st_in :: bytes
  st_eof :: bool

text \<open>
  What one call of \<open>_receive_packet\<close> ends in: a packet, silence for the timeout, the server hanging up,
  or another exception with the flag that the session was closed.
\<close>

datatype rx = Got packet | Silent | Hung_up | Broken exn bool

definition starved :: "bool \<Rightarrow> stream \<Rightarrow> rx \<times> stream" where
  "starved close_on_timeout s =
     (if st_eof s then (Hung_up, s\<lparr>st_in := []\<rparr>)
      else if close_on_timeout then (Broken ServerSessionError True, s)
      else (Silent, s))"

definition receive_packet :: "zlib \<Rightarrow> bool \<Rightarrow> stream \<Rightarrow> rx \<times> stream" where
  "receive_packet z close_on_timeout s =
     (if length (st_in s) < HEADER_SIZE then starved close_on_timeout s
      else
        let header = take HEADER_SIZE (st_in s); s1 = s\<lparr>st_in := drop HEADER_SIZE (st_in s)\<rparr>;
            packet_length = le_dec (py_slice 1 5 header) in
        if packet_length < 1 then (Broken ServerSessionError False, s1)
        else
          let n = packet_length - 1 in
          if n > MAX_SERVER_PACKET_SIZE then (Broken ServerSessionError False, s1)
          else if length (st_in s1) < n then starved close_on_timeout s1
          else
            (case unpack_packet z (header @ take n (st_in s1)) of
               Inl e \<Rightarrow> (if e = PacketError then Broken ServerSessionError True else Broken e False)
             | Inr (p, _) \<Rightarrow> Got p, s1\<lparr>st_in := drop n (st_in s1)\<rparr>))"

section \<open>The session\<close>

record 'f server_client =
  sc_login :: login_request
  sc_identity :: "'f server_identity option"
  sc_status :: "(nat \<times> nat) option"
  sc_messages :: "ustr list"
  sc_connected :: bool
  sc_logged_in :: bool
  sc_last_search_more :: bool
  sc_last_search_batches :: nat

definition mk_server_client :: "int \<Rightarrow> login_request \<Rightarrow> 'f server_client res" where
  "mk_server_client port lr =
     (if \<not> (0 \<le> port \<and> port \<le> 0xFFFF) then Inl ProtocolError
      else Inr \<lparr>sc_login = lr, sc_identity = None, sc_status = None, sc_messages = [], sc_connected = False,
                sc_logged_in = False, sc_last_search_more = False, sc_last_search_batches = 0\<rparr>)"

definition server_connect :: "bool \<Rightarrow> 'f server_client \<Rightarrow> unit res \<times> 'f server_client" where
  "server_connect reachable c =
     (if sc_connected c then (Inr (), c)
      else if reachable then (Inr (), c\<lparr>sc_connected := True\<rparr>)
      else (Inl ServerSessionError, c\<lparr>sc_connected := False\<rparr>))"

definition server_close :: "'f server_client \<Rightarrow> 'f server_client" where
  "server_close c = (if sc_connected c then c\<lparr>sc_connected := False, sc_logged_in := False\<rparr> else c)"

text \<open>\<open>_send_packet\<close> with what goes on the wire; \<open>drains\<close> says whether the connection takes it.\<close>

definition server_send :: "zlib \<Rightarrow> bool \<Rightarrow> bool \<Rightarrow> packet res \<Rightarrow> 'f server_client \<Rightarrow> bytes res \<times> 'f server_client" where
  "server_send z drains packed packet c =
     (case packet of
        Inl e \<Rightarrow> (Inl e, c)
      | Inr p \<Rightarrow>
          if \<not> sc_connected c then (Inl ServerSessionError, c)
          else (case (if packed then pack_packet z p 9 else encode_packet p) of
              Inl e \<Rightarrow> (Inl e, c)
            | Inr wire \<Rightarrow> if drains then (Inr wire, c) else (Inl ServerSessionError, server_close c)))"

text \<open>\<open>_consume_auxiliary_packet\<close>: whether the packet was one of those, and the session after it.\<close>

definition consume_auxiliary :: "packet \<Rightarrow> 'f server_client \<Rightarrow> (bool \<times> 'f server_client) res" where
  "consume_auxiliary p c =
     (if p_opcode p = SERVERMESSAGE then
        bindE (parse_server_message (p_payload p)) (\<lambda>m. Inr (True, c\<lparr>sc_messages := sc_messages c @ [m]\<rparr>))
      else if p_opcode p = SERVERSTATUS then
        bindE (parse_server_status (p_payload p)) (\<lambda>st. Inr (True, c\<lparr>sc_status := Some st\<rparr>))
      else Inr (False, c))"

definition next_push :: "rx \<Rightarrow> 'f server_client \<Rightarrow> bool res \<times> 'f server_client" where
  "next_push ev c =
     (if \<not> sc_connected c then (Inl ServerSessionError, c)
      else case ev of
        Silent \<Rightarrow> (Inr False, c)
      | Hung_up \<Rightarrow> (Inl ServerSessionError, server_close c)
      | Broken e shut \<Rightarrow> (Inl e, if shut then server_close c else c)
      | Got p \<Rightarrow> (case consume_auxiliary p c of Inl e \<Rightarrow> (Inl e, c) | Inr (_, c') \<Rightarrow> (Inr True, c')))"

section \<open>Login\<close>

record 'f login_result =
  lg_client_id :: nat
  lg_low_id :: bool
  lg_identity :: "'f server_identity option"
  lg_status :: "(nat \<times> nat) option"
  lg_id_change :: server_id_change
  lg_messages :: "ustr list"

text \<open>One packet of the login loop: the loop's result when it ends there, and the session after it.\<close>

definition login_step :: "(bytes \<Rightarrow> 'f) \<Rightarrow> packet \<Rightarrow> 'f server_client \<Rightarrow> 'f login_result res option \<times> 'f server_client" where
  "login_step uf p c =
     (if p_protocol p \<noteq> EDONKEY then (Some (Inl ServerSessionError), c)
      else if p_opcode p = SERVERMESSAGE then
        (case parse_server_message (p_payload p) of
           Inl e \<Rightarrow> (Some (Inl e), c) | Inr m \<Rightarrow> (None, c\<lparr>sc_messages := sc_messages c @ [m]\<rparr>))
      else if p_opcode p = SERVERIDENT then
        (case parse_server_ident uf (p_payload p) of
           Inl e \<Rightarrow> (Some (Inl e), c) | Inr i \<Rightarrow> (None, c\<lparr>sc_identity := Some i\<rparr>))
      else if p_opcode p = SERVERSTATUS then
        (case parse_server_status (p_payload p) of
           Inl e \<Rightarrow> (Some (Inl e), c) | Inr st \<Rightarrow> (None, c\<lparr>sc_status := Some st\<rparr>))
      else if p_opcode p = IDCHANGE then
        (case parse_server_id_change (p_payload p) of
           Inl e \<Rightarrow> (Some (Inl e), c)
         | Inr ic \<Rightarrow>
             (case mk_login_request ((sc_login c)\<lparr>lr_client_id := int (ic_client_id ic)\<rparr>) of
                Inl e \<Rightarrow> (Some (Inl e), c)
              | Inr lr \<Rightarrow>
                  (Some (Inr \<lparr>lg_client_id = ic_client_id ic, lg_low_id = (ic_client_id ic < HIGH_ID_THRESHOLD),
                              lg_identity = sc_identity c, lg_status = sc_status c, lg_id_change = ic,
                              lg_messages = sc_messages c\<rparr>),
                   c\<lparr>sc_login := lr, sc_logged_in := True\<rparr>)))
      else if p_opcode p = REJECT then (Some (Inl ServerSessionError), server_close c)
      else (None, c))"

text \<open>
  The receive loops as functions of what \<open>_receive_packet\<close> returns, call by call; at the end of the list
  the server stays silent.
\<close>

fun login_wait :: "(bytes \<Rightarrow> 'f) \<Rightarrow> rx list \<Rightarrow> 'f server_client \<Rightarrow> 'f login_result res \<times> rx list \<times> 'f server_client" where
  "login_wait uf [] c = (Inl ServerSessionError, [], server_close c)"
| "login_wait uf (Silent # evs) c = (Inl AttributeError, evs, c)"
| "login_wait uf (Hung_up # evs) c = (Inl ServerSessionError, evs, server_close c)"
| "login_wait uf (Broken e shut # evs) c = (Inl e, evs, if shut then server_close c else c)"
| "login_wait uf (Got p # evs) c =
     (case login_step uf p c of (Some r, c') \<Rightarrow> (r, evs, c') | (None, c') \<Rightarrow> login_wait uf evs c')"

record server_io =
  io_reachable :: bool
  io_drains :: bool
  io_rx :: "rx list"

definition server_login ::
    "(bytes \<Rightarrow> 'f) \<Rightarrow> (ustr \<Rightarrow> int res) \<Rightarrow> zlib \<Rightarrow> server_io \<Rightarrow> 'f server_client \<Rightarrow> 'f login_result res \<times> rx list \<times> 'f server_client" where
  "server_login uf int_str z io c =
     (if sc_logged_in c then (Inl ServerSessionError, io_rx io, c)
      else case server_connect (io_reachable io) c of
        (Inl e, c1) \<Rightarrow> (Inl e, io_rx io, c1)
      | (Inr _, c1) \<Rightarrow>
          (case server_send z (io_drains io) False
                (bindE (build_login_payload int_str (sc_login c1)) (mk_packet EDONKEY LOGINREQUEST)) c1 of
             (Inl e, c2) \<Rightarrow> (Inl e, io_rx io, c2)
           | (Inr _, c2) \<Rightarrow> login_wait uf (io_rx io) c2))"

section \<open>Search\<close>

text \<open>
  Every turn of the loop reads the clock first: an event is the reading and what the tick of at most a
  quarter of a second brings. The state of the loop is the dictionary of results by file hash, the
  flag \<open>more_results\<close> and the number of batches.
\<close>

type_synonym 'f search_acc = "(bytes \<times> 'f search_result) list \<times> bool \<times> nat"

definition add_batch :: "'f search_result list \<times> bool \<Rightarrow> 'f search_acc \<Rightarrow> 'f search_acc" where
  "add_batch batch acc =
     (case (batch, acc) of ((rs, more_available), (d, more_results, n)) \<Rightarrow>
        (keep_first se_hash (\<lambda>r. r) rs d, more_results \<or> more_available, n + 1))"

definition search_finish :: "'f search_acc \<Rightarrow> 'f server_client \<Rightarrow> 'f search_result list res \<times> 'f server_client" where
  "search_finish acc c =
     (Inr (map snd (fst acc)), c\<lparr>sc_last_search_more := fst (snd acc), sc_last_search_batches := snd (snd acc)\<rparr>)"

fun search_wait ::
    "(bytes \<Rightarrow> 'f) \<Rightarrow> int \<Rightarrow> (int \<times> rx) list \<Rightarrow> 'f search_acc \<Rightarrow> 'f server_client \<Rightarrow> 'f search_result list res \<times> 'f server_client" where
  "search_wait uf deadline [] acc c = search_finish acc c"
| "search_wait uf deadline ((now, ev) # evs) acc c =
     (if deadline - now \<le> 0 then search_finish acc c
      else if \<not> sc_connected c then (Inl ServerSessionError, c)
      else case ev of
        Silent \<Rightarrow> search_wait uf deadline evs acc c
      | Hung_up \<Rightarrow> search_finish acc (server_close c)
      | Broken e shut \<Rightarrow> (Inl e, if shut then server_close c else c)
      | Got p \<Rightarrow>
          if p_protocol p \<noteq> EDONKEY then (Inl ServerSessionError, c)
          else (case consume_auxiliary p c of
            Inl e \<Rightarrow> (Inl e, c)
          | Inr (True, c') \<Rightarrow> search_wait uf deadline evs acc c'
          | Inr (False, c') \<Rightarrow>
              if p_opcode p = SEARCHRESULT then
                (case parse_search_results uf (p_payload p) of
                   Inl e \<Rightarrow> (Inl e, c')
                 | Inr batch \<Rightarrow> search_wait uf deadline evs (add_batch batch acc) c')
              else if p_opcode p = REJECT then (Inl ServerSessionError, server_close c')
              else search_wait uf deadline evs acc c'))"

definition server_search ::
    "(bytes \<Rightarrow> 'f) \<Rightarrow> (ustr \<Rightarrow> ustr) \<Rightarrow> zlib \<Rightarrow> bool \<Rightarrow> ustr \<Rightarrow> int \<Rightarrow> int \<Rightarrow> (int \<times> rx) list \<Rightarrow> 'f server_client
     \<Rightarrow> 'f search_result list res \<times> 'f server_client" where
  "server_search uf strip z drains query started duration evs c =
     (if \<not> sc_logged_in c then (Inl ServerSessionError, c)
      else if duration \<le> 0 then (Inl ServerSessionError, c)
      else case server_send z drains False
             (bindE (build_global_search_payload strip query) (mk_packet EDONKEY SEARCHREQUEST)) c of
        (Inl e, c1) \<Rightarrow> (Inl e, c1)
      | (Inr _, c1) \<Rightarrow> search_wait uf (started + duration) evs ([], False, 0) c1)"

section \<open>Sources and publishing\<close>

fun sources_wait :: "bytes \<Rightarrow> rx list \<Rightarrow> 'f server_client \<Rightarrow> (bytes \<times> found_source list) res \<times> 'f server_client" where
  "sources_wait fh [] c = (Inr (fh, []), c)"
| "sources_wait fh (Silent # evs) c = (Inr (fh, []), c)"
| "sources_wait fh (Hung_up # evs) c = (Inl ServerSessionError, server_close c)"
| "sources_wait fh (Broken e shut # evs) c = (Inl e, if shut then server_close c else c)"
| "sources_wait fh (Got p # evs) c =
     (if p_protocol p \<noteq> EDONKEY then (Inl ServerSessionError, c)
      else case consume_auxiliary p c of
        Inl e \<Rightarrow> (Inl e, c)
      | Inr (True, c') \<Rightarrow> sources_wait fh evs c'
      | Inr (False, c') \<Rightarrow>
          if p_opcode p = FOUNDSOURCES \<or> p_opcode p = FOUNDSOURCES_OBFU then
            (parse_found_sources (p_payload p) (p_opcode p = FOUNDSOURCES_OBFU), c')
          else if p_opcode p = REJECT then (Inl ServerSessionError, server_close c')
          else sources_wait fh evs c')"

definition get_sources ::
    "zlib \<Rightarrow> bool \<Rightarrow> bytes \<Rightarrow> int \<Rightarrow> rx list \<Rightarrow> 'f server_client \<Rightarrow> (bytes \<times> found_source list) res \<times> 'f server_client" where
  "get_sources z drains fh file_size evs c =
     (if \<not> sc_logged_in c then (Inl ServerSessionError, c)
      else case server_send z drains False
             (bindE (build_get_sources_payload fh file_size) (mk_packet EDONKEY GETSOURCES)) c of
        (Inl e, c1) \<Rightarrow> (Inl e, c1)
      | (Inr _, c1) \<Rightarrow> sources_wait fh evs c1)"

text \<open>The tag of the size is a bare \<open>Ed2kTag(name_id, value)\<close>, of the type the dataclass defaults to.\<close>

definition publish_tags :: "ustr \<Rightarrow> int \<Rightarrow> 'f ed2k_tag list" where
  "publish_tags name sz = [numeric_tag 0x01 STRING (VStr name), numeric_tag 0x02 UINT32 (VInt sz)]"

definition write_published_file :: "bool \<Rightarrow> bytes \<times> ustr \<times> int \<Rightarrow> writer \<Rightarrow> writer res" where
  "write_published_file complete_marker f w =
     (case f of (fh, name, sz) \<Rightarrow>
        if length fh \<noteq> 16 then Inl ServerSessionError
        else
          bindE (write_hash16 fh w) (\<lambda>w1.
          bindE (write_u32 (if complete_marker then 0xFBFBFBFB else 0) w1) (\<lambda>w2.
          bindE (write_u16 (if complete_marker then 0xFBFB else 0) w2) (\<lambda>w3.
          let tags = (publish_tags name sz :: unit ed2k_tag list) in
          bindE (write_u32 (int (length tags)) w3) (\<lambda>w4.
            foldE (\<lambda>w t. write_new_tag (\<lambda>_. None) t w) w4 tags)))))"

definition publish_payload :: "bool \<Rightarrow> (bytes \<times> ustr \<times> int) list \<Rightarrow> bytes res" where
  "publish_payload complete_marker files =
     bindE (write_u32 (int (length files)) []) (\<lambda>w. foldE (\<lambda>w f. write_published_file complete_marker f w) w files)"

definition publish_shared_files ::
    "zlib \<Rightarrow> bool \<Rightarrow> bool \<Rightarrow> (bytes \<times> ustr \<times> int) list \<Rightarrow> 'f server_client \<Rightarrow> (nat \<times> bytes) res \<times> 'f server_client" where
  "publish_shared_files z drains complete_marker files c =
     (if \<not> sc_logged_in c then (Inl ServerSessionError, c)
      else case server_send z drains True
             (bindE (publish_payload complete_marker files) (mk_packet EDONKEY OFFERFILES)) c of
        (Inl e, c1) \<Rightarrow> (Inl e, c1)
      | (Inr wire, c1) \<Rightarrow> (Inr (length files, wire), c1))"

section \<open>The handshake\<close>

text \<open>A packet the login loop reads on over: of the right protocol, neither the answer nor a rejection, and well formed.\<close>

definition login_chatter :: "(bytes \<Rightarrow> 'f) \<Rightarrow> packet \<Rightarrow> bool" where
  "login_chatter uf p \<longleftrightarrow> p_protocol p = EDONKEY \<and> p_opcode p \<noteq> IDCHANGE \<and> p_opcode p \<noteq> REJECT \<and>
     (if p_opcode p = SERVERMESSAGE then \<not> isl (parse_server_message (p_payload p))
      else if p_opcode p = SERVERIDENT then \<not> isl (parse_server_ident uf (p_payload p))
      else if p_opcode p = SERVERSTATUS then \<not> isl (parse_server_status (p_payload p))
      else True)"

definition payloads_of :: "int \<Rightarrow> packet list \<Rightarrow> bytes list" where
  "payloads_of oc ps = map p_payload (filter (\<lambda>p. p_opcode p = oc) ps)"

definition last_of :: "'a option \<Rightarrow> 'a list \<Rightarrow> 'a option" where
  "last_of d xs = (if xs = [] then d else Some (last xs))"

definition said :: "packet list \<Rightarrow> ustr list" where
  "said ps = map (\<lambda>b. projr (parse_server_message b)) (payloads_of SERVERMESSAGE ps)"

definition heard :: "(bytes \<Rightarrow> 'f) \<Rightarrow> packet list \<Rightarrow> 'f server_client \<Rightarrow> 'f server_client" where
  "heard uf ps c = c\<lparr>sc_messages := sc_messages c @ said ps,
     sc_identity := last_of (sc_identity c) (map (\<lambda>b. projr (parse_server_ident uf b)) (payloads_of SERVERIDENT ps)),
     sc_status := last_of (sc_status c) (map (\<lambda>b. projr (parse_server_status b)) (payloads_of SERVERSTATUS ps))\<rparr>"

lemma isrE: "\<not> isl m \<Longrightarrow> \<exists>x. m = Inr x \<and> projr m = x"
  by (cases m) auto

lemma heard_simps:
  "heard uf [] c = c"
  "heard uf (p # ps) c = heard uf ps (heard uf [p] c)"
  by (auto simp: heard_def said_def payloads_of_def last_of_def)

lemma login_step_chatter: "login_chatter uf p \<Longrightarrow> login_step uf p c = (None, heard uf [p] c)"
  unfolding login_chatter_def login_step_def heard_def said_def payloads_of_def last_of_def
  by (auto simp: c2s_defs split: sum.splits if_splits)

lemma login_wait_chatter:
  "list_all (login_chatter uf) ps \<Longrightarrow> login_wait uf (map Got ps @ evs) c = login_wait uf evs (heard uf ps c)"
proof (induction ps arbitrary: c)
  case Nil
  then show ?case by (simp add: heard_simps)
next
  case (Cons p ps)
  then show ?case by (subst heard_simps) (simp add: login_step_chatter)
qed

definition login_payload_bytes :: "login_request \<Rightarrow> bytes \<Rightarrow> bytes" where
  "login_payload_bytes lr raw =
     lr_user_hash lr @ le_enc 4 (nat (lr_client_id lr)) @ le_enc 2 (nat (lr_client_port lr)) @ le_enc 4 4 @
     [2] @ le_enc 2 1 @ [0x01] @ le_enc 2 (length raw) @ raw @
     [3] @ le_enc 2 1 @ [0x11] @ le_enc 4 (nat (lr_edonkey_version lr)) @
     [3] @ le_enc 2 1 @ [0x20] @ le_enc 4 (nat login_server_flags) @
     [3] @ le_enc 2 1 @ [0xFB] @ le_enc 4 (nat (lr_emule_version lr))"

lemma login_payload_layout:
  assumes "mk_login_request lr = Inr lr'"
  shows "\<exists>raw. utf8_encode (lr_nickname lr) = Some raw \<and> length raw \<le> 0xFFFF \<and>
    build_login_payload int_str lr = Inr (login_payload_bytes lr raw)"
proof -
  from assms obtain raw where raw: "utf8_encode (lr_nickname lr) = Some raw" "length raw \<le> 0xFFFF"
    and b: "length (lr_user_hash lr) = 16" "0 \<le> lr_client_id lr" "lr_client_id lr \<le> 0xFFFFFFFF"
      "0 \<le> lr_client_port lr" "lr_client_port lr \<le> 0xFFFF" "0 \<le> lr_edonkey_version lr"
      "lr_edonkey_version lr \<le> 0xFFFFFFFF" "0 \<le> lr_emule_version lr" "lr_emule_version lr \<le> 0xFFFFFFFF"
    by (auto simp: mk_login_request_def split: if_splits option.splits)
  have "login_server_flags = 0x719" by (simp add: login_server_flags_def)
  with raw b have "build_login_payload int_str lr = Inr (login_payload_bytes lr raw)"
    by (simp add: build_login_payload_def login_tags_def numeric_tag_def write_old_tag_def login_payload_bytes_def
        write_hash16_def write_u32_def write_u16_def write_u8_def write_bytes_def)
  with raw show ?thesis by blast
qed

lemma handshake_completes:
  assumes "\<not> sc_logged_in c" and "mk_login_request (sc_login c) = Inr (sc_login c)"
    and "io_reachable io" and "io_drains io"
    and "list_all (login_chatter uf) ps" and "p_protocol q = EDONKEY" and "p_opcode q = IDCHANGE"
    and "4 \<le> length (p_payload q)"
    and "io_rx io = map Got ps @ Got q # evs"
  shows "\<exists>r c'. server_login uf int_str z io c = (Inr r, evs, c') \<and> sc_logged_in c' \<and> sc_connected c' \<and>
     lg_client_id r = le_dec (take 4 (p_payload q)) \<and> lr_client_id (sc_login c') = int (lg_client_id r) \<and>
     lg_low_id r = (lg_client_id r < HIGH_ID_THRESHOLD) \<and>
     lg_messages r = sc_messages c @ said ps \<and>
     lg_identity r = sc_identity (heard uf ps c) \<and> lg_status r = sc_status (heard uf ps c)"
proof -
  let ?c1 = "c\<lparr>sc_connected := True\<rparr>" and ?id = "le_dec (take 4 (p_payload q))"
  from login_payload_layout [OF assms(2)] obtain raw where raw: "length raw \<le> 0xFFFF"
    "build_login_payload int_str (sc_login c) = Inr (login_payload_bytes (sc_login c) raw)" by blast
  have h: "length (lr_user_hash (sc_login c)) = 16"
    using assms(2) by (auto simp: mk_login_request_def split: if_splits)
  have sent: "\<exists>wire. server_send z True False
      (bindE (build_login_payload int_str (sc_login c)) (mk_packet EDONKEY LOGINREQUEST)) ?c1 = (Inr wire, ?c1)"
    using raw h by (simp add: server_send_def mk_packet_def encode_packet_def header_bytes_def EDONKEY_def
        LOGINREQUEST_def login_payload_bytes_def)
  have cn: "server_connect True c = (Inr (), ?c1)"
    by (cases c) (auto simp: server_connect_def)
  have "?id < 2 ^ 32"
    using le_dec_bound [of "take 4 (p_payload q)"] assms(8) by (simp add: min_absorb2)
  then have lr: "mk_login_request ((sc_login c)\<lparr>lr_client_id := int ?id\<rparr>) = Inr ((sc_login c)\<lparr>lr_client_id := int ?id\<rparr>)"
    using assms(2) by (auto simp: mk_login_request_def split: if_splits option.splits)
  have k: "sc_login (heard uf ps ?c1) = sc_login c" "sc_connected (heard uf ps ?c1)"
    "sc_messages (heard uf ps ?c1) = sc_messages c @ said ps"
    "sc_identity (heard uf ps ?c1) = sc_identity (heard uf ps c)"
    "sc_status (heard uf ps ?c1) = sc_status (heard uf ps c)"
    by (simp_all add: heard_def)
  from sent have "server_login uf int_str z io c = login_wait uf (Got q # evs) (heard uf ps ?c1)"
    using assms(1,3,4,9) cn by (auto simp: server_login_def login_wait_chatter [OF assms(5)])
  with assms(6-8) lr k show ?thesis
    by (auto simp: login_step_def parse_server_id_change_def py_slice_def c2s_defs)
qed

text \<open>
  C4. The handshake with a server completes: on a session that can connect and send, after any well-formed messages,
  identities, status reports and unknown packets in any order, the first \<open>OP_IDCHANGE\<close> of at least four bytes ends
  \<open>login\<close> with the client id of those bytes, the low-id flag by the threshold, every server message in the order it
  arrived, the last identity and the last status; the session is logged in and the packets behind are unread.
\<close>

theorem login_completes:
  assumes "\<not> sc_logged_in c" and "mk_login_request (sc_login c) = Inr (sc_login c)"
    and "io_reachable io" and "io_drains io"
    and "list_all (login_chatter uf) ps" and "p_protocol q = EDONKEY" and "p_opcode q = IDCHANGE"
    and "4 \<le> length (p_payload q)"
    and "io_rx io = map Got ps @ Got q # evs"
  shows "\<exists>r c'. server_login uf int_str z io c = (Inr r, evs, c') \<and> sc_logged_in c' \<and> sc_connected c' \<and>
     lg_client_id r = le_dec (take 4 (p_payload q)) \<and> lr_client_id (sc_login c') = int (lg_client_id r) \<and>
     lg_low_id r = (lg_client_id r < HIGH_ID_THRESHOLD) \<and>
     lg_messages r = sc_messages c @ said ps \<and>
     lg_identity r = sc_identity (heard uf ps c) \<and> lg_status r = sc_status (heard uf ps c)"
  by (rule handshake_completes [OF assms])

section \<open>Nothing but an \<open>OP_IDCHANGE\<close> logs in\<close>

lemma server_close_logged_in: "\<not> sc_logged_in c \<Longrightarrow> \<not> sc_logged_in (server_close c)"
  by (simp add: server_close_def)

definition id_change_of :: "packet \<Rightarrow> 'f login_result res \<Rightarrow> bool" where
  "id_change_of p r \<longleftrightarrow> p_protocol p = EDONKEY \<and> p_opcode p = IDCHANGE \<and>
     (case r of Inl e \<Rightarrow> False | Inr res \<Rightarrow> lg_client_id res = le_dec (take 4 (p_payload p)))"

lemma login_step_ends:
  assumes "login_step uf p c = (Some r, c')" and "\<not> sc_logged_in c"
  shows "sc_logged_in c' \<longleftrightarrow> \<not> isl r" and "\<not> isl r \<Longrightarrow> id_change_of p r"
  using assms
  by (auto simp: login_step_def id_change_of_def parse_server_id_change_def py_slice_def server_close_logged_in
      split: if_splits sum.splits)

lemma login_step_goes_on: "login_step uf p c = (None, c') \<Longrightarrow> sc_logged_in c' = sc_logged_in c"
  by (auto simp: login_step_def split: if_splits sum.splits)

lemma login_wait_ends:
  assumes "login_wait uf evs c = (r, evs', c')" and "\<not> sc_logged_in c"
  shows "(sc_logged_in c' \<longleftrightarrow> \<not> isl r) \<and> (isl r \<or> (\<exists>pre p. evs = pre @ Got p # evs' \<and> id_change_of p r))"
  using assms
proof (induction uf evs c rule: login_wait.induct)
  case (5 uf p evs c)
  obtain o1 c1 where st: "login_step uf p c = (o1, c1)" by (cases "login_step uf p c")
  show ?case
  proof (cases o1)
    case None
    with 5 st login_step_goes_on [of uf p c c1]
    have "(sc_logged_in c' \<longleftrightarrow> \<not> isl r) \<and> (isl r \<or> (\<exists>pre q. evs = pre @ Got q # evs' \<and> id_change_of q r))"
      by auto
    then show ?thesis by (metis append_Cons)
  next
    case (Some r1)
    with 5 st login_step_ends [of uf p c r1 c1] show ?thesis by (auto intro: exI [of _ "[]"])
  qed
qed (auto simp: server_close_logged_in split: if_splits)

theorem login_only_by_id_change:
  assumes "login_wait uf evs c = (r, evs', c')" and "\<not> sc_logged_in c"
  shows "(sc_logged_in c' \<longleftrightarrow> \<not> isl r) \<and> (isl r \<or> (\<exists>pre p. evs = pre @ Got p # evs' \<and> id_change_of p r))"
  by (rule login_wait_ends [OF assms])

section \<open>What a search returns\<close>

definition search_good :: "(bytes \<Rightarrow> 'f) \<Rightarrow> int \<Rightarrow> int \<times> rx \<Rightarrow> bool" where
  "search_good uf deadline e \<longleftrightarrow> fst e < deadline \<and>
     (case snd e of
        Silent \<Rightarrow> True
      | Got p \<Rightarrow> p_protocol p = EDONKEY \<and> p_opcode p \<noteq> REJECT \<and>
          (if p_opcode p = SERVERMESSAGE then \<not> isl (parse_server_message (p_payload p))
           else if p_opcode p = SERVERSTATUS then \<not> isl (parse_server_status (p_payload p))
           else if p_opcode p = SEARCHRESULT then \<not> isl (parse_search_results uf (p_payload p))
           else True)
      | _ \<Rightarrow> False)"

text \<open>The loop ends with the window, or when the server hangs up inside it.\<close>

definition search_over :: "int \<Rightarrow> (int \<times> rx) list \<Rightarrow> bool" where
  "search_over deadline evs \<longleftrightarrow> (case evs of [] \<Rightarrow> True | (now, ev) # _ \<Rightarrow> deadline \<le> now \<or> ev = Hung_up)"

definition batches :: "(bytes \<Rightarrow> 'f) \<Rightarrow> (int \<times> rx) list \<Rightarrow> ('f search_result list \<times> bool) list" where
  "batches uf evs = concat (map (\<lambda>e. case snd e of
     Got p \<Rightarrow> if p_opcode p = SEARCHRESULT then [projr (parse_search_results uf (p_payload p))] else [] | _ \<Rightarrow> []) evs)"

definition search_total :: "('f search_result list \<times> bool) list \<Rightarrow> 'f search_acc \<Rightarrow> 'f search_acc" where
  "search_total bs acc = foldl (\<lambda>a b. add_batch b a) acc bs"

lemma search_total_fields:
  "fst (search_total bs acc) = keep_first se_hash (\<lambda>r. r) (concat (map fst bs)) (fst acc)"
  "fst (snd (search_total bs acc)) \<longleftrightarrow> fst (snd acc) \<or> list_ex snd bs"
  "snd (snd (search_total bs acc)) = snd (snd acc) + length bs"
  unfolding search_total_def
  by (induction bs arbitrary: acc)
    (auto simp: add_batch_def keep_first_append case_prod_unfold)

lemma consume_auxiliary_total:
  assumes "p_opcode p = SERVERMESSAGE \<longrightarrow> \<not> isl (parse_server_message (p_payload p))"
    and "p_opcode p = SERVERSTATUS \<longrightarrow> \<not> isl (parse_server_status (p_payload p))"
  shows "\<exists>b c1. consume_auxiliary p c = Inr (b, c1) \<and> sc_connected c1 = sc_connected c"
proof (cases "p_opcode p = SERVERMESSAGE")
  case True
  with assms(1) obtain m where "parse_server_message (p_payload p) = Inr m"
    by (cases "parse_server_message (p_payload p)") auto
  with True show ?thesis by (auto simp: consume_auxiliary_def)
next
  case False
  show ?thesis
  proof (cases "p_opcode p = SERVERSTATUS")
    case True
    with assms(2) obtain st where "parse_server_status (p_payload p) = Inr st"
      by (cases "parse_server_status (p_payload p)") auto
    with False True show ?thesis by (auto simp: consume_auxiliary_def)
  qed (use False in \<open>auto simp: consume_auxiliary_def\<close>)
qed

lemma search_wait_good:
  "list_all (search_good uf deadline) evs \<Longrightarrow> search_over deadline rem \<Longrightarrow> sc_connected c \<Longrightarrow>
   \<exists>c'. search_wait uf deadline (evs @ rem) acc c = search_finish (search_total (batches uf evs) acc) c'"
proof (induction evs arbitrary: acc c)
  case Nil
  then show ?case
    by (auto simp: search_over_def batches_def search_total_def search_finish_def split: list.splits)
next
  case (Cons e evs)
  obtain now ev where e: "e = (now, ev)" by (cases e)
  have good: "list_all (search_good uf deadline) evs" and g: "search_good uf deadline e"
    using Cons.prems by simp_all
  note IH = Cons.IH [OF good Cons.prems(2)]
  show ?case
  proof (cases ev)
    case Silent
    with g e Cons.prems(3) IH [of c acc] show ?thesis by (auto simp: search_good_def batches_def)
  next
    case (Got p)
    show ?thesis
    proof (cases "p_opcode p = SEARCHRESULT")
      case True
      then obtain b where b: "parse_search_results uf (p_payload p) = Inr b"
        using g e Got by (cases "parse_search_results uf (p_payload p)") (auto simp: search_good_def c2s_defs)
      from True b g e Got Cons.prems(3) IH [of c "add_batch b acc"] show ?thesis
        by (auto simp: search_good_def consume_auxiliary_def batches_def search_total_def c2s_defs)
    next
      case False
      then have nb: "batches uf (e # evs) = batches uf evs" using Got e by (simp add: batches_def)
      have a: "p_opcode p = SERVERMESSAGE \<longrightarrow> \<not> isl (parse_server_message (p_payload p))"
        "p_opcode p = SERVERSTATUS \<longrightarrow> \<not> isl (parse_server_status (p_payload p))"
        using g e Got by (auto simp: search_good_def c2s_defs)
      from consume_auxiliary_total [OF a] obtain b c1 where
        c1: "consume_auxiliary p c = Inr (b, c1)" "sc_connected c1 = sc_connected c" by blast
      have "search_wait uf deadline (e # evs @ rem) acc c = search_wait uf deadline (evs @ rem) acc c1"
        using False g e Got Cons.prems(3) c1 by (cases b) (simp_all add: search_good_def)
      with IH [of c1 acc] nb c1 Cons.prems(3) show ?thesis by simp
    qed
  qed (use g e in \<open>simp_all add: search_good_def\<close>)
qed

text \<open>
  C31. A search returns exactly one result for every file hash that any batch of its window names, namely the first that
  arrived, and these in the order of arrival; it counts the batches and reports more results if any batch did. This holds
  whether the window ends by its deadline or the server hangs up inside it, when every packet of the window is well-formed
  (of the eDonkey protocol, no rejection, a readable payload where the search reads one; another packet ends the search with an error).
\<close>

theorem search_collects:
  assumes "sc_logged_in c" and "sc_connected c" and "0 < duration"
    and "server_send z drains False
           (bindE (build_global_search_payload strip query) (mk_packet EDONKEY SEARCHREQUEST)) c = (Inr wire, c)"
    and "list_all (search_good uf (started + duration)) evs" and "search_over (started + duration) rem"
  shows "\<exists>rs c'. server_search uf strip z drains query started duration (evs @ rem) c = (Inr rs, c') \<and>
     rs = first_of_each se_hash (concat (map fst (batches uf evs))) \<and> distinct (map se_hash rs) \<and>
     se_hash ` set rs = se_hash ` set (concat (map fst (batches uf evs))) \<and>
     list_all (\<lambda>r. find (\<lambda>x. se_hash x = se_hash r) (concat (map fst (batches uf evs))) = Some r) rs \<and>
     sc_last_search_batches c' = length (batches uf evs) \<and>
     (sc_last_search_more c' \<longleftrightarrow> list_ex snd (batches uf evs))"
proof -
  let ?all = "concat (map fst (batches uf evs))" and ?acc = "search_total (batches uf evs) ([], False, 0)"
  let ?d = "keep_first se_hash (\<lambda>r. r) ?all []"
  let ?rs = "map snd ?d"
  from search_wait_good [OF assms(5,6,2), of "([], False, 0)"] obtain c' where
    w: "search_wait uf (started + duration) (evs @ rem) ([], False, 0) c = search_finish ?acc c'" by blast
  have "server_search uf strip z drains query started duration (evs @ rem) c = search_finish ?acc c'"
    using assms(1,3,4) w by (simp add: server_search_def)
  also have "\<dots> = (Inr ?rs, c'\<lparr>sc_last_search_more := list_ex snd (batches uf evs),
      sc_last_search_batches := length (batches uf evs)\<rparr>)"
    by (simp add: search_finish_def search_total_fields)
  finally have "server_search uf strip z drains query started duration (evs @ rem) c =
      (Inr ?rs, c'\<lparr>sc_last_search_more := list_ex snd (batches uf evs), sc_last_search_batches := length (batches uf evs)\<rparr>)" .
  then show ?thesis
    using keep_first_records [of se_hash ?all] keep_first_order [of se_hash ?all "[]"]
    by (intro exI [of _ ?rs] exI conjI) (assumption | simp)+
qed

section \<open>Guards and errors\<close>

theorem session_requires_login:
  assumes "\<not> sc_logged_in c"
  shows "server_search uf strip z drains query started duration timed c = (Inl ServerSessionError, c)"
    and "get_sources z drains fh file_size evs c = (Inl ServerSessionError, c)"
    and "publish_shared_files z drains complete_marker files c = (Inl ServerSessionError, c)"
  using assms by (simp_all add: server_search_def get_sources_def publish_shared_files_def)

text \<open>
  A tick that ends between the header and the payload of a packet drops the header: the next call takes
  the payload for a header.
\<close>

theorem idle_tick_loses_header:
  assumes "length header = 6" and "n = le_dec (py_slice 1 5 header) - 1" and "0 < n" and "n \<le> MAX_SERVER_PACKET_SIZE"
    and "length got < n"
  shows "receive_packet z False \<lparr>st_in = header @ got, st_eof = False\<rparr> = (Silent, \<lparr>st_in = got, st_eof = False\<rparr>)"
  using assms by (simp add: receive_packet_def starved_def HEADER_SIZE_def Let_def)

section \<open>A session to run\<close>

definition demo_request :: login_request where
  "demo_request = \<lparr>lr_user_hash = replicate 16 7, lr_client_id = 0, lr_client_port = 4662, lr_nickname = [110],
     lr_edonkey_version = 0x3C, lr_emule_version = 0, lr_capabilities = 0\<rparr>"

definition demo_session :: "unit server_client" where
  "demo_session = \<lparr>sc_login = demo_request, sc_identity = None, sc_status = None, sc_messages = [],
     sc_connected = False, sc_logged_in = False, sc_last_search_more = False, sc_last_search_batches = 0\<rparr>"

definition server_packet :: "int \<Rightarrow> bytes \<Rightarrow> packet" where
  "server_packet oc p = \<lparr>p_protocol = EDONKEY, p_opcode = oc, p_payload = p\<rparr>"

definition demo_greeting :: "packet list" where
  "demo_greeting = [server_packet SERVERMESSAGE [2, 0, 104, 105], server_packet SERVERSTATUS [9, 0, 0, 0, 5, 0, 0, 0]]"

definition demo_id :: packet where "demo_id = server_packet IDCHANGE [1, 2, 3, 4, 0]"

definition demo_io :: server_io where
  "demo_io = \<lparr>io_reachable = True, io_drains = True, io_rx = map Got demo_greeting @ Got demo_id # [Hung_up]\<rparr>"

lemma demo_request_ok: "mk_login_request demo_request = Inr demo_request"
  by (simp add: mk_login_request_def demo_request_def utf8_cp_def)

lemma demo_greeting_ok: "list_all (login_chatter (\<lambda>_. ())) demo_greeting"
  by code_simp

theorem login_completes_witness:
  "\<exists>r c'. server_login (\<lambda>_. ()) (\<lambda>_. Inl ValueError) rle_zlib demo_io demo_session = (Inr r, [Hung_up], c') \<and>
     sc_logged_in c' \<and> sc_connected c' \<and>
     lg_client_id r = le_dec (take 4 (p_payload demo_id)) \<and> lr_client_id (sc_login c') = int (lg_client_id r) \<and>
     lg_low_id r = (lg_client_id r < HIGH_ID_THRESHOLD) \<and>
     lg_messages r = sc_messages demo_session @ said demo_greeting \<and>
     lg_identity r = sc_identity (heard (\<lambda>_. ()) demo_greeting demo_session) \<and>
     lg_status r = sc_status (heard (\<lambda>_. ()) demo_greeting demo_session)"
  by (rule login_completes [where ps = demo_greeting and q = demo_id and evs = "[Hung_up]"])
    (simp_all add: demo_session_def demo_request_ok demo_io_def demo_greeting_ok demo_id_def server_packet_def)

theorem login_only_by_id_change_witness:
  "(sc_logged_in (snd (snd (login_wait (\<lambda>_. ()) [Got demo_id] demo_session))) \<longleftrightarrow>
      \<not> isl (fst (login_wait (\<lambda>_. ()) [Got demo_id] demo_session))) \<and>
   (isl (fst (login_wait (\<lambda>_. ()) [Got demo_id] demo_session)) \<or>
    (\<exists>pre p. [Got demo_id] = pre @ Got p # fst (snd (login_wait (\<lambda>_. ()) [Got demo_id] demo_session)) \<and>
       id_change_of p (fst (login_wait (\<lambda>_. ()) [Got demo_id] demo_session))))"
  by (rule login_only_by_id_change [of "\<lambda>_. ()" _ demo_session]) (simp_all add: demo_session_def)

definition demo_result :: "unit search_result" where
  "demo_result = \<lparr>se_hash = replicate 16 1, se_client_id = 7, se_client_port = 5, se_tags = []\<rparr>"

definition demo_batch :: packet where
  "demo_batch = server_packet SEARCHRESULT (le_enc 4 1 @ (search_result_bytes demo_result (le_enc 4 0)) @ [1])"

definition demo_online :: "unit server_client" where
  "demo_online = demo_session\<lparr>sc_connected := True, sc_logged_in := True\<rparr>"

definition demo_events :: "(int \<times> rx) list" where
  "demo_events = [(0, Silent), (1, Got demo_batch), (2, Got demo_batch)]"

lemma demo_search_sent:
  "server_send rle_zlib True False
     (bindE (build_global_search_payload (\<lambda>s. s) [97]) (mk_packet EDONKEY SEARCHREQUEST)) demo_online =
   (Inr [227, 5, 0, 0, 0, 22, 1, 1, 0, 97], demo_online)"
  by (simp add: server_send_def build_global_search_payload_def write_u8_def write_string_utf8_def write_u16_def
      write_bytes_def utf8_cp_def mk_packet_def encode_packet_def header_bytes_def EDONKEY_def SEARCHREQUEST_def
      demo_online_def eval_simps)

lemma demo_batch_parses: "parse_search_results (\<lambda>_. ()) (p_payload demo_batch) = Inr ([demo_result], True)"
proof -
  have "reads (read_search_result (\<lambda>_. ())) (search_result_bytes demo_result (le_enc 4 0)) demo_result"
    by (rule reads_search_result) (simp_all add: search_result_ok_def demo_result_def reads_no_tags)
  then have "list_all2 (reads (read_search_result (\<lambda>_. ()))) [search_result_bytes demo_result (le_enc 4 0)] [demo_result]" by simp
  from search_results_layout [OF this, of 1] show ?thesis by (simp add: demo_batch_def server_packet_def)
qed

lemma demo_events_good: "list_all (search_good (\<lambda>_. ()) (0 + 10)) demo_events"
  using demo_batch_parses by (simp add: demo_events_def search_good_def demo_batch_def server_packet_def c2s_defs EDONKEY_def)

theorem search_collects_witness:
  "\<exists>rs c'. server_search (\<lambda>_. ()) (\<lambda>s. s) rle_zlib True [97] 0 10 (demo_events @ [(3, Hung_up)]) demo_online = (Inr rs, c') \<and>
     rs = first_of_each se_hash (concat (map fst (batches (\<lambda>_. ()) demo_events))) \<and> distinct (map se_hash rs) \<and>
     se_hash ` set rs = se_hash ` set (concat (map fst (batches (\<lambda>_. ()) demo_events))) \<and>
     list_all (\<lambda>r. find (\<lambda>x. se_hash x = se_hash r) (concat (map fst (batches (\<lambda>_. ()) demo_events))) = Some r) rs \<and>
     sc_last_search_batches c' = length (batches (\<lambda>_. ()) demo_events) \<and>
     (sc_last_search_more c' \<longleftrightarrow> list_ex snd (batches (\<lambda>_. ()) demo_events))"
  by (rule search_collects [OF _ _ _ demo_search_sent demo_events_good])
    (simp_all add: demo_online_def search_over_def)

end
