(* ===== verification/Server_Session.thy ===== *)
theory Server_Session
  imports Server_Login "HOL-Library.Product_Lexorder"
begin

text \<open>
  \<open>core/ed2k/server_session.py\<close>: the manager that keeps one server session alive. One round of its loop
  is a function of what it reads (configuration, the two server lists, the blacklist) and of what the
  network does to the attempt at each position.
\<close>

section \<open>Candidates\<close>

type_synonym candidate = "string \<times> int \<times> bool \<times> int"

definition cand_key :: "candidate \<Rightarrow> string \<times> int" where
  "cand_key c = (case c of (ip, port, st, prio) \<Rightarrow> (ip, port))"

definition cand_static :: "candidate \<Rightarrow> bool" where
  "cand_static c = (case c of (ip, port, st, prio) \<Rightarrow> st)"

definition cand_priority :: "candidate \<Rightarrow> int" where
  "cand_priority c = (case c of (ip, port, st, prio) \<Rightarrow> prio)"

text \<open>\<open>_record_to_candidate\<close> on the two shapes of record it is given.\<close>

definition static_to_candidate :: "static_server \<Rightarrow> candidate option" where
  "static_to_candidate s =
     (let ip = py_strip (ss_host s) in
      if ip = [] then None else Some (ip, ss_port s, True, ss_priority s))"

definition met_to_candidate :: "'f server_record \<Rightarrow> candidate option" where
  "met_to_candidate s =
     (let ip = py_strip (server_address s) in
      if ip = [] then None else Some (ip, sr_port s, True, server_priority s))"

text \<open>
  \<open>_blacklist_set\<close>: the entries of the state store, \<open>None\<close> for one that does not parse; no set at all when
  reading them raises.
\<close>

definition blacklist_set :: "(string \<times> int) option list option \<Rightarrow> (string \<times> int) list option" where
  "blacklist_set entries = map_option (List.map_filter (\<lambda>e. e)) entries"

definition unsorted_candidates ::
    "static_server list \<Rightarrow> 'f server_record list \<Rightarrow> (string \<times> int) list option \<Rightarrow> candidate list" where
  "unsorted_candidates statics mets blacklist =
     (let seen = keep_first cand_key (\<lambda>c. c) (List.map_filter static_to_candidate statics) [];
          seen' = keep_first cand_key (\<lambda>(ip, port, _, prio). (ip, port, False, prio))
                    (List.map_filter met_to_candidate mets) seen in
      filter (\<lambda>c. case blacklist of None \<Rightarrow> True | Some b \<Rightarrow> cand_key c \<notin> set b) (map snd seen'))"

definition rank_key :: "candidate \<Rightarrow> bool \<times> int" where
  "rank_key c = (\<not> cand_static c, - cand_priority c)"

definition build_candidates ::
    "static_server list \<Rightarrow> 'f server_record list \<Rightarrow> (string \<times> int) list option \<Rightarrow> candidate list" where
  "build_candidates statics mets blacklist = sort_key rank_key (unsorted_candidates statics mets blacklist)"

section \<open>One attempt\<close>

record session_conf =
  cf_tcp_port :: int
  cf_user_hash :: bytes
  cf_nickname :: ustr

datatype session_error = No_candidates | Failed exn

record session_manager =
  sm_pos :: nat
  sm_attempts :: nat
  sm_logins :: nat
  sm_last_error :: "session_error option"
  sm_connected :: bool
  sm_server :: "(string \<times> int) option"
  sm_autoconnect :: bool
  sm_failures :: "(string \<times> int) list"
  sm_successes :: "(string \<times> int) list"

text \<open>
  \<open>sm_failures\<close> and \<open>sm_successes\<close> are the calls of \<open>record_server_failure\<close> and \<open>record_server_success\<close>.
  A login cut off by \<open>wait_for\<close> is one whose packets end. An attempt's part of the network: the session's, and at each turn of the keepalive loop whether the
  stop event is set and what \<open>next_push\<close> receives.
\<close>

record attempt_io =
  at_session :: server_io
  at_pushes :: "(bool \<times> rx) list"

text \<open>
  \<open>_try_candidate\<close>. The login request is created outside the \<open>try\<close>, so its error leaves the manager; a
  port the client refuses ends the attempt without a record of failure.
\<close>

definition try_candidate ::
    "(bytes \<Rightarrow> 'f) \<Rightarrow> (ustr \<Rightarrow> int res) \<Rightarrow> zlib \<Rightarrow> session_conf \<Rightarrow> candidate \<Rightarrow> attempt_io \<Rightarrow> session_manager
     \<Rightarrow> ('f server_client option res \<times> session_manager)" where
  "try_candidate uf int_str z cf cand io m =
     (case cand of (ip, port, _, _) \<Rightarrow>
        (case login_request_create [] (cf_nickname cf) 0 (cf_tcp_port cf) (Some (cf_user_hash cf)) True of
           Inl e \<Rightarrow> (Inl e, m)
         | Inr lr \<Rightarrow>
             (case mk_server_client port lr of
                Inl e \<Rightarrow> (Inr None, m)
              | Inr c \<Rightarrow>
                  (case server_connect (io_reachable (at_session io)) c of
                     (Inl e, c1) \<Rightarrow> (Inr None, m\<lparr>sm_last_error := Some (Failed e), sm_failures := sm_failures m @ [(ip, port)]\<rparr>)
                   | (Inr _, c1) \<Rightarrow>
                       (case server_login uf int_str z (at_session io) c1 of
                          (Inl e, _, c2) \<Rightarrow>
                            (Inr None, m\<lparr>sm_last_error := Some (Failed e), sm_failures := sm_failures m @ [(ip, port)]\<rparr>)
                        | (Inr _, _, c2) \<Rightarrow> (Inr (Some c2), m\<lparr>sm_successes := sm_successes m @ [(ip, port)]\<rparr>))))))"

text \<open>
  \<open>_hold_session\<close>: the number of packets and idle ticks survived; at the end of the list the loop is
  still waiting and the stop event ends it.
\<close>

fun hold_pushes :: "(bool \<times> rx) list \<Rightarrow> 'f server_client \<Rightarrow> nat \<times> 'f server_client" where
  "hold_pushes [] c = (0, c)"
| "hold_pushes ((stop, ev) # evs) c =
     (if stop then (0, c)
      else case next_push ev c of
        (Inl e, c') \<Rightarrow> (0, c')
      | (Inr _, c') \<Rightarrow> (case hold_pushes evs c' of (n, c2) \<Rightarrow> (Suc n, c2)))"

definition hold_session :: "candidate \<Rightarrow> attempt_io \<Rightarrow> 'f server_client \<Rightarrow> session_manager \<Rightarrow> nat \<times> 'f server_client \<times> session_manager" where
  "hold_session cand io c m =
     (let held = m\<lparr>sm_connected := True, sm_server := Some (cand_key cand)\<rparr> in
      case hold_pushes (at_pushes io) c of
        (n, c') \<Rightarrow> (n, server_close c', held\<lparr>sm_connected := False, sm_server := None\<rparr>))"

section \<open>A round of the loop\<close>

text \<open>\<open>ios i\<close> is the network of the attempt at index \<open>i\<close> of the rotated list.\<close>

fun sweep ::
    "(bytes \<Rightarrow> 'f) \<Rightarrow> (ustr \<Rightarrow> int res) \<Rightarrow> zlib \<Rightarrow> session_conf \<Rightarrow> (nat \<Rightarrow> attempt_io) \<Rightarrow> nat \<Rightarrow> nat \<Rightarrow> nat \<Rightarrow> candidate list
     \<Rightarrow> session_manager \<Rightarrow> unit res \<times> session_manager" where
  "sweep uf int_str z cf ios start num idx [] m = (Inr (), m)"
| "sweep uf int_str z cf ios start num idx (cand # cands) m =
     (case try_candidate uf int_str z cf cand (ios idx)
             (m\<lparr>sm_pos := (start + idx) mod num, sm_attempts := sm_attempts m + 1\<rparr>) of
        (Inl e, m') \<Rightarrow> (Inl e, m')
      | (Inr (Some c), m') \<Rightarrow>
          if sc_logged_in c
          then (case hold_session cand (ios idx) c (m'\<lparr>sm_logins := sm_logins m' + 1\<rparr>) of (_, _, m2) \<Rightarrow> (Inr (), m2))
          else sweep uf int_str z cf ios start num (idx + 1) cands m'
      | (Inr None, m') \<Rightarrow> sweep uf int_str z cf ios start num (idx + 1) cands m')"

record 'f round_io =
  ro_autoconnect :: bool
  ro_statics :: "static_server list"
  ro_mets :: "'f server_record list"
  ro_blacklist :: "(string \<times> int) option list option"
  ro_attempts :: "nat \<Rightarrow> attempt_io"

definition rotate_from :: "nat \<Rightarrow> 'a list \<Rightarrow> 'a list" where
  "rotate_from start xs = drop start xs @ take start xs"

definition session_round ::
    "(bytes \<Rightarrow> 'f) \<Rightarrow> (ustr \<Rightarrow> int res) \<Rightarrow> zlib \<Rightarrow> session_conf \<Rightarrow> session_manager \<Rightarrow> 'f round_io \<Rightarrow> unit res \<times> session_manager" where
  "session_round uf int_str z cf m ro =
     (if \<not> ro_autoconnect ro then (Inr (), m\<lparr>sm_autoconnect := False\<rparr>)
      else
        let m1 = m\<lparr>sm_autoconnect := True\<rparr>;
            candidates = build_candidates (ro_statics ro) (ro_mets ro) (blacklist_set (ro_blacklist ro)) in
        if candidates = [] then (Inr (), m1\<lparr>sm_last_error := Some No_candidates\<rparr>)
        else
          let num = length candidates; start = sm_pos m mod num in
          sweep uf int_str z cf (ro_attempts ro) start num 0 (rotate_from start candidates) m1)"

text \<open>\<open>run\<close>, up to the stop event at the end of the list.\<close>

definition session_run ::
    "(bytes \<Rightarrow> 'f) \<Rightarrow> (ustr \<Rightarrow> int res) \<Rightarrow> zlib \<Rightarrow> session_conf \<Rightarrow> 'f round_io list \<Rightarrow> session_manager \<Rightarrow> session_manager res" where
  "session_run uf int_str z cf ros m =
     foldE (\<lambda>m ro. case session_round uf int_str z cf m ro of (Inl e, _) \<Rightarrow> Inl e | (Inr _, m') \<Rightarrow> Inr m') m ros"

section \<open>The candidates\<close>

abbreviation static_cands :: "static_server list \<Rightarrow> candidate list" where
  "static_cands ss \<equiv> List.map_filter static_to_candidate ss"

abbreviation met_cands :: "'f server_record list \<Rightarrow> candidate list" where
  "met_cands ms \<equiv> List.map_filter met_to_candidate ms"

lemma static_cands_static: "c \<in> set (static_cands ss) \<Longrightarrow> cand_static c"
  by (auto simp: List.map_filter_def static_to_candidate_def cand_static_def Let_def split: if_splits)

lemma seen_records:
  fixes statics :: "static_server list" and mets :: "'f server_record list"
  defines "d \<equiv> keep_first cand_key (\<lambda>(ip, port, _, prio). (ip, port, False, prio)) (met_cands mets)
                 (keep_first cand_key (\<lambda>c. c) (static_cands statics) [])"
  shows "distinct (map cand_key (map snd d))"
    and "cand_key ` set (map snd d) = cand_key ` set (static_cands statics) \<union> cand_key ` set (met_cands mets)"
    and "list_all (\<lambda>c. cand_static c \<longleftrightarrow> cand_key c \<in> cand_key ` set (static_cands statics)) (map snd d)"
proof -
  let ?s = "keep_first cand_key (\<lambda>c. c) (static_cands statics) []"
  have keys: "list_all (\<lambda>(k, v). k = cand_key v) d"
    unfolding d_def by (intro keys_of_keep_first) (auto simp: cand_key_def)
  have dist: "distinct (map fst d)"
    unfolding d_def by (intro distinct_keep_first) simp
  have fs: "map cand_key (map snd d) = map fst d"
    using keys by (auto simp: list_all_iff)
  show "distinct (map cand_key (map snd d))" unfolding fs by (rule dist)
  have dom: "fst ` set d = cand_key ` set (static_cands statics) \<union> cand_key ` set (met_cands mets)"
    by (simp add: d_def dom_keep_first)
  then show "cand_key ` set (map snd d) = cand_key ` set (static_cands statics) \<union> cand_key ` set (met_cands mets)"
    using fs by (metis set_map)
  show "list_all (\<lambda>c. cand_static c \<longleftrightarrow> cand_key c \<in> cand_key ` set (static_cands statics)) (map snd d)"
    unfolding list_all_iff
  proof
    fix v assume "v \<in> set (map snd d)"
    then obtain k where k: "(k, v) \<in> set d" by auto
    have kv: "k = cand_key v" using keys k by (auto simp: list_all_iff)
    have m: "map_of d k = Some v" using dist k by simp
    show "cand_static v \<longleftrightarrow> cand_key v \<in> cand_key ` set (static_cands statics)"
    proof (cases "find (\<lambda>x. cand_key x = k) (static_cands statics)")
      case None
      then have "k \<notin> cand_key ` set (static_cands statics)" by (auto simp: find_None_iff)
      moreover have "\<not> cand_static v"
        using m None by (auto simp: d_def map_of_keep_first cand_static_def split: prod.splits)
      ultimately show ?thesis using kv by simp
    next
      case (Some c)
      then have "c \<in> set (static_cands statics)" "cand_key c = k" by (auto simp: find_Some_iff)
      moreover have "v = c" using m Some by (simp add: d_def map_of_keep_first)
      ultimately show ?thesis using static_cands_static by auto
    qed
  qed
qed

theorem candidates_spec:
  "sorted (map rank_key (build_candidates statics mets blacklist)) \<and>
   distinct (map cand_key (build_candidates statics mets blacklist)) \<and>
   cand_key ` set (build_candidates statics mets blacklist) =
     (cand_key ` set (static_cands statics) \<union> cand_key ` set (met_cands mets)) -
     (case blacklist of None \<Rightarrow> {} | Some b \<Rightarrow> set b) \<and>
   list_all (\<lambda>c. cand_static c = (cand_key c \<in> cand_key ` set (static_cands statics))) (build_candidates statics mets blacklist)"
proof -
  let ?cs = "build_candidates statics mets blacklist" and ?us = "unsorted_candidates statics mets blacklist"
  let ?d = "map snd (keep_first cand_key (\<lambda>(ip, port, _, prio). (ip, port, False, prio)) (met_cands mets)
                 (keep_first cand_key (\<lambda>c. c) (static_cands statics) []))"
  let ?P = "\<lambda>c. case blacklist of None \<Rightarrow> True | Some b \<Rightarrow> cand_key c \<notin> set b"
  note seen = seen_records [where statics = statics and mets = mets]
  have us: "?us = filter ?P ?d" by (simp add: unsorted_candidates_def)
  have set: "set ?cs = set ?us" by (simp add: build_candidates_def)
  have "distinct (map cand_key ?us)" unfolding us by (rule distinct_map_filter [OF seen(1)])
  moreover have "mset (map cand_key ?cs) = mset (map cand_key ?us)" by (simp add: build_candidates_def)
  ultimately have "distinct (map cand_key ?cs)" using mset_eq_imp_distinct_iff by blast
  moreover have "cand_key ` set ?us = cand_key ` set ?d - (case blacklist of None \<Rightarrow> {} | Some b \<Rightarrow> set b)"
    unfolding us by (cases blacklist) auto
  moreover have "list_all (\<lambda>c. cand_static c = (cand_key c \<in> cand_key ` set (static_cands statics))) ?cs"
  proof -
    have "set ?cs \<subseteq> set ?d" using set unfolding us by auto
    with seen(3) show ?thesis unfolding list_all_iff by blast
  qed
  ultimately show ?thesis
    using seen(2) set by (simp add: build_candidates_def)
qed

section \<open>The sweep\<close>

definition new_manager :: session_manager where
  "new_manager = \<lparr>sm_pos = 0, sm_attempts = 0, sm_logins = 0, sm_last_error = None, sm_connected = False,
     sm_server = None, sm_autoconnect = True, sm_failures = [], sm_successes = []\<rparr>"

definition logs_in ::
    "(bytes \<Rightarrow> 'f) \<Rightarrow> (ustr \<Rightarrow> int res) \<Rightarrow> zlib \<Rightarrow> session_conf \<Rightarrow> candidate \<Rightarrow> attempt_io \<Rightarrow> bool" where
  "logs_in uf int_str z cf cand io \<longleftrightarrow>
     (case fst (try_candidate uf int_str z cf cand io new_manager) of Inr (Some c) \<Rightarrow> True | _ \<Rightarrow> False)"

definition conf_ok :: "session_conf \<Rightarrow> bool" where
  "conf_ok cf \<longleftrightarrow> length (cf_user_hash cf) = 16 \<and> 0 \<le> cf_tcp_port cf \<and> cf_tcp_port cf \<le> 0xFFFF \<and> cf_nickname cf \<noteq> [] \<and>
     (case utf8_encode (cf_nickname cf) of None \<Rightarrow> False | Some raw \<Rightarrow> length raw \<le> 0xFFFF)"

lemma conf_ok_login: "conf_ok cf \<Longrightarrow>
   \<exists>lr. login_request_create r (cf_nickname cf) 0 (cf_tcp_port cf) (Some (cf_user_hash cf)) True = Inr lr"
  by (auto simp: conf_ok_def login_request_create_def mk_login_request_def Let_def A_MULE_VERSION_def
      EDONKEY_PROTOCOL_VERSION_def CAP_ZLIB_def CAP_AUXPORT_def CAP_NEWTAGS_def CAP_UNICODE_def CAP_LARGEFILES_def
      CAP_SUPPORTCRYPT_def CAP_REQUESTCRYPT_def split: option.splits)

text \<open>
  Under a valid configuration an attempt either yields a logged-in client and a recorded success, or
  nothing and at most a recorded failure; which, depends on the candidate and the network alone.
\<close>

lemma login_result_logged_in:
  "server_login uf int_str z io c = (Inr r, evs, c') \<Longrightarrow> sc_logged_in c'"
proof -
  assume a: "server_login uf int_str z io c = (Inr r, evs, c')"
  then have n: "\<not> sc_logged_in c" by (auto simp: server_login_def split: if_splits)
  from a obtain c2 where "login_wait uf (io_rx io) c2 = (Inr r, evs, c')" "\<not> sc_logged_in c2"
    using n by (auto simp: server_login_def server_connect_def server_send_def split: if_splits prod.splits sum.splits)
  from login_wait_ends [OF this] show ?thesis by simp
qed

lemma try_candidate_cases:
  assumes "conf_ok cf"
  shows "if logs_in uf int_str z cf cand io
    then \<exists>c. try_candidate uf int_str z cf cand io m = (Inr (Some c), m\<lparr>sm_successes := sm_successes m @ [cand_key cand]\<rparr>) \<and> sc_logged_in c
    else \<exists>m'. try_candidate uf int_str z cf cand io m = (Inr None, m') \<and>
           (m' = m \<or> (\<exists>e. m' = m\<lparr>sm_last_error := Some e, sm_failures := sm_failures m @ [cand_key cand]\<rparr>))"
proof -
  obtain ip port st prio where cand: "cand = (ip, port, st, prio)" by (cases cand)
  obtain lr where lr: "login_request_create [] (cf_nickname cf) 0 (cf_tcp_port cf) (Some (cf_user_hash cf)) True = Inr lr"
    using conf_ok_login [OF assms] by blast
  show ?thesis
  proof (cases "mk_server_client port lr :: 'a server_client res")
    case (Inl e)
    then show ?thesis by (simp add: try_candidate_def logs_in_def cand lr)
  next
    case (Inr c)
    obtain r1 c1 where r1: "server_connect (io_reachable (at_session io)) c = (r1, c1)" by fastforce
    obtain r2 evs c2 where r2: "server_login uf int_str z (at_session io) c1 = (r2, evs, c2)" by (metis prod_cases3)
    show ?thesis
    proof (cases r1)
      case (Inl e)
      then show ?thesis using Inr r1 by (auto simp: try_candidate_def logs_in_def cand lr cand_key_def)
    next
      case r1': (Inr u)
      show ?thesis
        using Inr r1 r1' r2 login_result_logged_in [of uf int_str z "at_session io" c1 _ evs c2]
        by (cases r2) (auto simp: try_candidate_def logs_in_def cand lr cand_key_def)
    qed
  qed
qed

lemma sweep_from:
  assumes "conf_ok cf" and "num \<noteq> 0"
  shows "\<exists>m'. sweep uf int_str z cf ios start num idx cands m = (Inr (), m') \<and>
    (let t = length (takeWhile (\<lambda>(i, c). \<not> logs_in uf int_str z cf c (ios i)) (enumerate idx cands)) in
     sm_attempts m' = sm_attempts m + min (t + 1) (length cands) \<and>
     (cands \<noteq> [] \<longrightarrow> sm_pos m' = (start + idx + min t (length cands - 1)) mod num) \<and>
     sm_successes m' = sm_successes m @ (if t < length cands then [cand_key (cands ! t)] else []) \<and>
     sm_logins m' = sm_logins m + (if t < length cands then 1 else 0) \<and>
     set (sm_failures m') \<subseteq> set (sm_failures m) \<union> cand_key ` set (take t cands))"
  using assms
proof (induction cands arbitrary: idx m)
  case Nil
  then show ?case by simp
next
  case (Cons cand cands)
  let ?m = "m\<lparr>sm_pos := (start + idx) mod num, sm_attempts := sm_attempts m + 1\<rparr>"
  note tc = try_candidate_cases [OF Cons.prems(1), of uf int_str z cand "ios idx" ?m]
  show ?case
  proof (cases "logs_in uf int_str z cf cand (ios idx)")
    case True
    with tc obtain c where "try_candidate uf int_str z cf cand (ios idx) ?m =
      (Inr (Some c), ?m\<lparr>sm_successes := sm_successes ?m @ [cand_key cand]\<rparr>)" "sc_logged_in c" by auto
    with True show ?thesis
      by (auto simp: hold_session_def Let_def split: prod.splits)
  next
    case False
    with tc obtain m1 where m1: "try_candidate uf int_str z cf cand (ios idx) ?m = (Inr None, m1)"
      "m1 = ?m \<or> (\<exists>e. m1 = ?m\<lparr>sm_last_error := Some e, sm_failures := sm_failures ?m @ [cand_key cand]\<rparr>)" by auto
    from Cons.IH [OF Cons.prems, of "Suc idx" m1] m1 False show ?thesis
      by (cases cands) (auto simp: Let_def)
  qed
qed

lemma length_rotate_from [simp]: "length (rotate_from k xs) = length xs"
  by (simp add: rotate_from_def)

lemma set_rotate_from [simp]: "set (rotate_from k xs) = set xs"
  by (metis append_take_drop_id rotate_from_def set_append sup_commute)

lemma rotate_from_Nil_iff [simp]: "rotate_from k xs = [] \<longleftrightarrow> xs = []"
  by (metis length_0_conv length_rotate_from)

text \<open>How many candidates of the rotated list fail before the first that logs in.\<close>

definition failing_prefix ::
    "(bytes \<Rightarrow> 'f) \<Rightarrow> (ustr \<Rightarrow> int res) \<Rightarrow> zlib \<Rightarrow> session_conf \<Rightarrow> (nat \<Rightarrow> attempt_io) \<Rightarrow> nat \<Rightarrow> candidate list \<Rightarrow> nat" where
  "failing_prefix uf int_str z cf ios idx cands =
     length (takeWhile (\<lambda>(i, c). \<not> logs_in uf int_str z cf c (ios i)) (enumerate idx cands))"

lemma failing_prefix_le: "failing_prefix uf int_str z cf ios idx cands \<le> length cands"
  unfolding failing_prefix_def by (metis length_enumerate length_takeWhile_le)

definition round_candidates :: "'f round_io \<Rightarrow> candidate list" where
  "round_candidates ro = build_candidates (ro_statics ro) (ro_mets ro) (blacklist_set (ro_blacklist ro))"

lemma session_round_sweeps:
  fixes m :: session_manager and ro :: "'f round_io" and uf :: "bytes \<Rightarrow> 'f" and int_str :: "ustr \<Rightarrow> int res" and z :: zlib
  assumes "conf_ok cf" and "ro_autoconnect ro" and "round_candidates ro \<noteq> []"
  defines "n \<equiv> length (round_candidates ro)" and "start \<equiv> sm_pos m mod length (round_candidates ro)"
  defines "r \<equiv> rotate_from start (round_candidates ro)"
  defines "t \<equiv> failing_prefix uf int_str z cf (ro_attempts ro) 0 r"
  shows "\<exists>m'. session_round uf int_str z cf m ro = (Inr (), m') \<and>
     sm_attempts m' = sm_attempts m + min (t + 1) n \<and> sm_pos m' = (start + min t (n - 1)) mod n \<and>
     sm_successes m' = sm_successes m @ (if t < n then [cand_key (r ! t)] else []) \<and>
     sm_logins m' = sm_logins m + (if t < n then 1 else 0) \<and>
     set (sm_failures m') \<subseteq> set (sm_failures m) \<union> cand_key ` set (take t r)"
proof -
  have n: "n \<noteq> 0" using assms(3) by (simp add: n_def)
  from sweep_from [OF assms(1) n, of uf int_str z "ro_attempts ro" start 0 r "m\<lparr>sm_autoconnect := True\<rparr>"]
  obtain m' where m': "sweep uf int_str z cf (ro_attempts ro) start n 0 r (m\<lparr>sm_autoconnect := True\<rparr>) = (Inr (), m')"
    "sm_attempts m' = sm_attempts m + min (t + 1) (length r)"
    "sm_pos m' = (start + 0 + min t (length r - 1)) mod n"
    "sm_successes m' = sm_successes m @ (if t < length r then [cand_key (r ! t)] else [])"
    "sm_logins m' = sm_logins m + (if t < length r then 1 else 0)"
    "set (sm_failures m') \<subseteq> set (sm_failures m) \<union> cand_key ` set (take t r)"
    using assms(3) unfolding Let_def t_def failing_prefix_def by (auto simp: r_def)
  have "session_round uf int_str z cf m ro = (Inr (), m')"
    using m'(1) assms(2,3) by (simp add: session_round_def round_candidates_def Let_def n_def r_def start_def)
  moreover have "length r = n" by (simp add: r_def n_def)
  ultimately show ?thesis using m'(2-) by auto
qed

text \<open>
  C24. A round of the manager tries the candidates in cyclic order from its position and stops at the first that logs in:
  with \<open>t\<close> failing candidates in front of it, it makes \<open>t + 1\<close> attempts (all of them when none logs in), moves the position to the
  one tried last, and records exactly the one login.
\<close>

theorem round_connects_first_reachable:
  assumes "conf_ok cf" and "ro_autoconnect ro" and "round_candidates ro \<noteq> []"
    and "n = length (round_candidates ro)" and "start = sm_pos m mod n" and "r = rotate_from start (round_candidates ro)"
    and "t = failing_prefix uf int_str z cf (ro_attempts ro) 0 r"
  shows "\<exists>m'. session_round uf int_str z cf m ro = (Inr (), m') \<and>
     sm_attempts m' = sm_attempts m + min (t + 1) n \<and> sm_pos m' = (start + min t (n - 1)) mod n \<and>
     sm_successes m' = sm_successes m @ (if t < n then [cand_key (r ! t)] else []) \<and>
     sm_logins m' = sm_logins m + (if t < n then 1 else 0)"
  using session_round_sweeps [OF assms(1-3), of uf int_str z m] unfolding assms(4-7) by blast

text \<open>
  When every attempt fails, the next round starts at the server tried last: the start moves back by one
  place instead of advancing.
\<close>

theorem rotation_steps_back:
  assumes "conf_ok cf" and "ro_autoconnect ro" and "n = length (round_candidates ro)" and "0 < n"
    and "failing_prefix uf int_str z cf (ro_attempts ro) 0 (rotate_from (sm_pos m mod n) (round_candidates ro)) = n"
  shows "\<exists>m'. session_round uf int_str z cf m ro = (Inr (), m') \<and> sm_pos m' = (sm_pos m + n - 1) mod n"
proof -
  have ne: "round_candidates ro \<noteq> []" using assms(3,4) by auto
  obtain m' where m': "session_round uf int_str z cf m ro = (Inr (), m')"
    "sm_pos m' = (sm_pos m mod n + min n (n - 1)) mod n"
    using session_round_sweeps [OF assms(1,2) ne, of uf int_str z m]
    unfolding assms(3) [symmetric] assms(5) by blast
  have "min n (n - 1) = n - 1" by simp
  moreover have "(sm_pos m mod n + (n - 1)) mod n = (sm_pos m + n - 1) mod n"
    using assms(4) mod_add_left_eq [of "sm_pos m" n "n - 1"] by simp
  ultimately show ?thesis using m' by metis
qed

lemma mk_login_request_Inr: "mk_login_request lr = Inr lr' \<Longrightarrow> lr' = lr"
  by (simp add: mk_login_request_def split: if_splits option.splits)

text \<open>A server that is reached and answers the login at once is logged in to.\<close>

lemma prompt_server_logs_in:
  assumes "conf_ok cf" and "0 \<le> port" and "port \<le> 0xFFFF" and "io_reachable (at_session io)" and "io_drains (at_session io)"
    and "io_rx (at_session io) = Got q # evs" and "p_protocol q = EDONKEY" and "p_opcode q = IDCHANGE" and "4 \<le> length (p_payload q)"
  shows "logs_in uf int_str z cf (ip, port, st, prio) io"
proof -
  obtain lr where lr: "login_request_create [] (cf_nickname cf) 0 (cf_tcp_port cf) (Some (cf_user_hash cf)) True = Inr lr"
    using conf_ok_login [OF assms(1)] by blast
  have ok: "mk_login_request lr = Inr lr"
    using lr mk_login_request_Inr unfolding login_request_create_def Let_def by metis
  obtain c :: "'a server_client" where c: "mk_server_client port lr = Inr c" "sc_login c = lr" "\<not> sc_logged_in c" "\<not> sc_connected c"
    using assms(2,3) by (simp add: mk_server_client_def)
  have "\<exists>r c'. server_login uf int_str z (at_session io) (c\<lparr>sc_connected := True\<rparr>) = (Inr r, evs, c')"
    using handshake_completes [of "c\<lparr>sc_connected := True\<rparr>" "at_session io" uf "[]" q evs int_str z] c ok assms(4-9)
    by auto
  then show ?thesis
    using lr c assms(4) by (auto simp: logs_in_def try_candidate_def server_connect_def)
qed

lemma unreachable_fails: "\<not> io_reachable (at_session io) \<Longrightarrow> \<not> logs_in uf int_str z cf cand io"
  by (auto simp: logs_in_def try_candidate_def mk_server_client_def server_connect_def split: prod.splits sum.splits if_splits)

text \<open>Under a valid configuration nothing leaves the loop.\<close>

lemma session_round_total: "conf_ok cf \<Longrightarrow> \<exists>m'. session_round uf int_str z cf m ro = (Inr (), m')"
proof (cases "ro_autoconnect ro \<and> round_candidates ro \<noteq> []")
  case True
  assume "conf_ok cf"
  with True session_round_sweeps [of cf ro uf int_str z m] show ?thesis by auto
next
  case False
  then show ?thesis by (auto simp: session_round_def round_candidates_def Let_def)
qed

theorem session_run_total: "conf_ok cf \<Longrightarrow> \<exists>m'. session_run uf int_str z cf ros m = Inr m'"
proof (induction ros arbitrary: m)
  case Nil
  then show ?case by (simp add: session_run_def)
next
  case (Cons ro ros)
  from session_round_total [OF Cons.prems, of uf int_str z m ro] obtain m1 where
    "session_round uf int_str z cf m ro = (Inr (), m1)" by blast
  with Cons.IH [OF Cons.prems, of m1] show ?case by (simp add: session_run_def)
qed

text \<open>An invalid one ends it at the first attempt: the login request is built outside the \<open>try\<close>.\<close>

theorem empty_nickname_ends_run:
  assumes "cf_nickname cf = []" and "ro_autoconnect ro" and "round_candidates ro \<noteq> []"
  shows "session_run uf int_str z cf (ro # ros) m = Inl ProtocolError"
proof -
  let ?r = "rotate_from (sm_pos m mod length (round_candidates ro)) (round_candidates ro)"
  have "login_request_create [] [] 0 (cf_tcp_port cf) (Some (cf_user_hash cf)) True = Inl ProtocolError"
    by (simp add: login_request_create_def mk_login_request_def Let_def)
  then have tc: "try_candidate uf int_str z cf c io m1 = (Inl ProtocolError, m1)" for c io m1
    using assms(1) by (cases c) (simp add: try_candidate_def)
  obtain c cs where r: "?r = c # cs" using assms(3) by (cases ?r) auto
  have "session_round uf int_str z cf m ro =
      sweep uf int_str z cf (ro_attempts ro) (sm_pos m mod length (round_candidates ro)) (length (round_candidates ro)) 0 ?r
        (m\<lparr>sm_autoconnect := True\<rparr>)"
    using assms(2,3) by (simp add: session_round_def round_candidates_def Let_def)
  then have "\<exists>m'. session_round uf int_str z cf m ro = (Inl ProtocolError, m')"
    unfolding r by (simp add: tc)
  then show ?thesis by (auto simp: session_run_def)
qed

section \<open>The blacklist\<close>

definition contacted :: "session_manager \<Rightarrow> (string \<times> int) set" where
  "contacted m = set (sm_failures m) \<union> set (sm_successes m)"

definition round_bans :: "string \<times> int \<Rightarrow> 'f round_io \<Rightarrow> bool" where
  "round_bans e ro \<longleftrightarrow> (case blacklist_set (ro_blacklist ro) of None \<Rightarrow> False | Some b \<Rightarrow> e \<in> set b)"

lemma session_round_contacts:
  assumes "conf_ok cf" and "session_round uf int_str z cf m ro = (r, m')"
  shows "contacted m' \<subseteq> contacted m \<union> cand_key ` set (round_candidates ro)"
proof (cases "ro_autoconnect ro \<and> round_candidates ro \<noteq> []")
  case True
  let ?r = "rotate_from (sm_pos m mod length (round_candidates ro)) (round_candidates ro)"
  let ?t = "failing_prefix uf int_str z cf (ro_attempts ro) 0 ?r"
  from session_round_sweeps [OF assms(1), of ro uf int_str z m] True assms(2)
  have s: "sm_successes m' = sm_successes m @ (if ?t < length (round_candidates ro) then [cand_key (?r ! ?t)] else [])"
    and f: "set (sm_failures m') \<subseteq> set (sm_failures m) \<union> cand_key ` set (take ?t ?r)" by auto
  have "set (take ?t ?r) \<subseteq> set (round_candidates ro)" by (metis set_rotate_from set_take_subset)
  moreover have "?t < length (round_candidates ro) \<Longrightarrow> ?r ! ?t \<in> set (round_candidates ro)"
    by (metis length_rotate_from nth_mem set_rotate_from)
  ultimately show ?thesis using s f unfolding contacted_def by (auto split: if_splits)
next
  case False
  with assms(2) show ?thesis
    by (auto simp: session_round_def round_candidates_def contacted_def Let_def split: if_splits)
qed

text \<open>
  C14. However many rounds the manager runs, and whatever the lists, the configuration and the network are in each, a
  server that is on the blacklist in every round is never recorded as tried, neither as failed nor as logged in to.
\<close>

theorem session_avoids_blacklist:
  assumes "conf_ok cf" and "session_run uf int_str z cf ros m = Inr m'" and "list_all (round_bans e) ros"
    and "e \<notin> contacted m"
  shows "e \<notin> contacted m'"
  using assms(2) unfolding session_run_def
proof (rule foldE_invariant)
  show "e \<notin> contacted m" by (rule assms(4))
  fix s ro t assume ro: "ro \<in> set ros" and s: "e \<notin> contacted s"
    and step: "(case session_round uf int_str z cf s ro of (Inl err, _) \<Rightarrow> Inl err | (Inr _, m') \<Rightarrow> Inr m') = Inr t"
  then obtain u where "session_round uf int_str z cf s ro = (Inr u, t)"
    by (auto split: prod.splits sum.splits)
  from session_round_contacts [OF assms(1) this] have c: "contacted t \<subseteq> contacted s \<union> cand_key ` set (round_candidates ro)" .
  have "round_bans e ro" using assms(3) ro by (simp add: list_all_iff)
  then have "e \<notin> cand_key ` set (round_candidates ro)"
    by (auto simp: round_bans_def round_candidates_def build_candidates_def unsorted_candidates_def Let_def split: option.splits)
  with c s show "e \<notin> contacted t" by blast
qed

section \<open>Two servers to try\<close>

definition demo_conf :: session_conf where
  "demo_conf = \<lparr>cf_tcp_port = 4662, cf_user_hash = replicate 16 7, cf_nickname = [110]\<rparr>"

definition demo_round :: "unit round_io" where
  "demo_round = \<lparr>ro_autoconnect = True,
     ro_statics = [\<lparr>ss_host = ''1.2.3.4'', ss_port = 4661, ss_name = ''a'', ss_priority = 0, ss_static = True\<rparr>,
                   \<lparr>ss_host = ''5.6.7.8'', ss_port = 4661, ss_name = ''b'', ss_priority = 2, ss_static = True\<rparr>],
     ro_mets = [], ro_blacklist = Some [Some (''9.9.9.9'', 1)],
     ro_attempts = (\<lambda>i. \<lparr>at_session = \<lparr>io_reachable = (i = 1), io_drains = True, io_rx = [Got demo_id]\<rparr>, at_pushes = []\<rparr>)\<rparr>"

lemma demo_conf_ok: "conf_ok demo_conf"
  by (simp add: conf_ok_def demo_conf_def utf8_cp_def)

lemma demo_round_candidates:
  "round_candidates demo_round = [(''5.6.7.8'', 4661, True, 2), (''1.2.3.4'', 4661, True, 0)]"
  by code_simp

lemma demo_failing:
  "failing_prefix (\<lambda>_. ()) (\<lambda>_. Inl ValueError) rle_zlib demo_conf (ro_attempts demo_round) 0
      (rotate_from 0 [(''5.6.7.8'', 4661, True, 2), (''1.2.3.4'', 4661, True, 0)]) = 1"
proof -
  let ?in = "logs_in (\<lambda>_. ()) (\<lambda>_. Inl ValueError) rle_zlib demo_conf"
  have "\<not> ?in (''5.6.7.8'', 4661, True, 2) (ro_attempts demo_round 0)"
    by (rule unreachable_fails) (simp add: demo_round_def)
  moreover have "?in (''1.2.3.4'', 4661, True, 0) (ro_attempts demo_round 1)"
    by (rule prompt_server_logs_in [OF demo_conf_ok, where q = demo_id and evs = "[]"])
      (simp_all add: demo_round_def demo_id_def server_packet_def)
  ultimately show ?thesis by (simp add: failing_prefix_def rotate_from_def)
qed

lemma demo_round_auto: "ro_autoconnect demo_round"
  by (simp add: demo_round_def)

theorem round_connects_first_reachable_witness:
  "\<exists>m'. session_round (\<lambda>_. ()) (\<lambda>_. Inl ValueError) rle_zlib demo_conf new_manager demo_round = (Inr (), m') \<and>
     sm_attempts m' = sm_attempts new_manager + min (1 + 1) 2 \<and> sm_pos m' = (0 + min 1 (2 - 1)) mod 2 \<and>
     sm_successes m' = sm_successes new_manager @
       (if 1 < (2 :: nat) then [cand_key (rotate_from 0 (round_candidates demo_round) ! 1)] else []) \<and>
     sm_logins m' = sm_logins new_manager + (if 1 < (2 :: nat) then 1 else 0)"
  by (rule round_connects_first_reachable [OF demo_conf_ok demo_round_auto])
    (simp_all only: demo_round_candidates demo_failing, simp_all add: new_manager_def)

theorem session_avoids_blacklist_witness:
  "(''9.9.9.9'', 1) \<notin> contacted (projr (session_run (\<lambda>_. ()) (\<lambda>_. Inl ValueError) rle_zlib demo_conf [demo_round, demo_round] new_manager))"
proof -
  obtain m' where m': "session_run (\<lambda>_. ()) (\<lambda>_. Inl ValueError) rle_zlib demo_conf [demo_round, demo_round] new_manager = Inr m'"
    using session_run_total [OF demo_conf_ok] by blast
  have "(''9.9.9.9'', 1) \<notin> contacted m'"
    by (rule session_avoids_blacklist [OF demo_conf_ok m'])
      (simp_all add: round_bans_def demo_round_def blacklist_set_def List.map_filter_def contacted_def new_manager_def)
  with m' show ?thesis by simp
qed

end
