(* ===== verification/Udp_Global.thy ===== *)
theory Udp_Global
  imports Server_Client Ip_Filter
begin

text \<open>
  \<open>core/ed2k/udp_global.py\<close>: the search over the UDP ports of a list of servers. The network is the
  sequence of datagrams every tick of the receive loops brings; the clock is the number of ticks.
\<close>

section \<open>Datagrams\<close>

definition GLOBSEARCHREQ3 :: int where "GLOBSEARCHREQ3 = 0x90"
definition GLOBSEARCHREQ2 :: int where "GLOBSEARCHREQ2 = 0x92"
definition GLOBSERVSTATREQ :: int where "GLOBSERVSTATREQ = 0x96"
definition GLOBSERVSTATRES :: int where "GLOBSERVSTATRES = 0x97"
definition GLOBSEARCHREQ :: int where "GLOBSEARCHREQ = 0x98"
definition GLOBSEARCHRES :: int where "GLOBSEARCHRES = 0x99"
definition SERVER_UDPSEARCH_FLAGS :: int where "SERVER_UDPSEARCH_FLAGS = 0x0E"
definition SRVCAP_UDP_NEWTAGS_LARGEFILES :: int where "SRVCAP_UDP_NEWTAGS_LARGEFILES = 0x01"

type_synonym endpoint = "string \<times> int"

definition mk_endpoint :: "string \<Rightarrow> int \<Rightarrow> endpoint res" where
  "mk_endpoint host port =
     (if \<not> (0 \<le> port \<and> port \<le> 0xFFFF) then Inl GlobalUdpSearchError
      else case ipv4_address host of None \<Rightarrow> Inl GlobalUdpSearchError | Some _ \<Rightarrow> Inr (host, port))"

definition build_udp_search_payload :: "(ustr \<Rightarrow> ustr) \<Rightarrow> ustr \<Rightarrow> bytes res" where
  "build_udp_search_payload strip query =
     (if query = [] \<or> strip query = [] then Inl GlobalUdpSearchError
      else bindE (write_u8 1 []) (\<lambda>w. write_string_utf8 (strip query) w))"

definition build_udp_search_req3_prefix :: "bytes res" where
  "build_udp_search_req3_prefix =
     bindE (write_u32 1 []) (\<lambda>w1. bindE (write_u8 0x83 w1) (\<lambda>w2. bindE (write_u8 SERVER_UDPSEARCH_FLAGS w2) (\<lambda>w3.
       write_u32 SRVCAP_UDP_NEWTAGS_LARGEFILES w3)))"

text \<open>\<open>bytes([opcode])\<close> raises \<open>ValueError\<close> and \<open>to_bytes(4)\<close> \<open>OverflowError\<close>.\<close>

definition encode_udp_packet :: "int \<Rightarrow> bytes \<Rightarrow> bytes res" where
  "encode_udp_packet opcode payload =
     (if length payload + 1 \<ge> 2 ^ 32 then Inl OverflowError
      else if \<not> (0 \<le> opcode \<and> opcode \<le> 0xFF) then Inl ValueError
      else Inr ([0xE3] @ le_enc 4 (length payload + 1) @ [word_of_int opcode] @ payload))"

definition parse_udp_packet :: "zlib \<Rightarrow> bytes \<Rightarrow> packet res" where
  "parse_udp_packet z d =
     (if length d < 6 then Inl GlobalUdpSearchError
      else
        let protocol = uint (d ! 0); packet_length = le_dec (py_slice 1 5 d); opcode = uint (d ! 5); payload = drop 6 d in
        if packet_length < 1 then Inl GlobalUdpSearchError
        else if length payload < packet_length - 1 then Inl GlobalUdpSearchError
        else
          let payload1 = take (packet_length - 1) payload in
          if protocol = PACKED then
            (case z_decompress z payload1 of
               Inl e \<Rightarrow> Inl (if e = ZlibError then GlobalUdpSearchError else e)
             | Inr out \<Rightarrow> Inr \<lparr>p_protocol = EDONKEY, p_opcode = opcode, p_payload = out\<rparr>)
          else Inr \<lparr>p_protocol = protocol, p_opcode = opcode, p_payload = payload1\<rparr>)"

section \<open>Results\<close>

text \<open>
  The test \<open>"unexpected trailing bytes" in str(exc)\<close>: the strict parser read the whole list and stopped
  at what stands behind it.
\<close>

definition trailing_only :: "(bytes \<Rightarrow> 'f) \<Rightarrow> bytes \<Rightarrow> bool" where
  "trailing_only uf payload \<longleftrightarrow>
     (case read_search_results uf (from_bytes payload) of Inl _ \<Rightarrow> False | Inr (_, r) \<Rightarrow> remaining r \<noteq> 0 \<and> remaining r \<noteq> 1)"

definition parse_global_search_result_lenient :: "(bytes \<Rightarrow> 'f) \<Rightarrow> bytes \<Rightarrow> 'f search_result list res" where
  "parse_global_search_result_lenient uf payload =
     bindE (read_search_results uf (from_bytes payload)) (\<lambda>(rs, _). Inr rs)"

definition parse_global_search_result :: "(bytes \<Rightarrow> 'f) \<Rightarrow> bytes \<Rightarrow> 'f search_result list res" where
  "parse_global_search_result uf payload =
     (case parse_search_results uf payload of
        Inr (rs, _) \<Rightarrow> Inr rs
      | Inl e \<Rightarrow>
          if e \<noteq> ProtocolError then Inl e
          else if \<not> trailing_only uf payload then Inl GlobalUdpSearchError
          else parse_global_search_result_lenient uf payload)"

text \<open>Trailing bytes are tolerated, and nothing but a malformed list is refused.\<close>

theorem global_result_is_prefix:
  "parse_global_search_result uf payload =
     (case read_search_results uf (from_bytes payload) of Inl _ \<Rightarrow> Inl GlobalUdpSearchError | Inr (rs, _) \<Rightarrow> Inr rs)"
proof (cases "read_search_results uf (from_bytes payload)")
  case (Inl e)
  with yieldsD(1) [OF yields_search_results reader_ok_from_bytes Inl] show ?thesis
    by (simp add: parse_global_search_result_def parse_search_results_def protocol_error_def trailing_only_def)
next
  case (Inr q)
  then obtain rs r where q: "read_search_results uf (from_bytes payload) = Inr (rs, r)" by (cases q) auto
  show ?thesis
  proof (cases "remaining r = 1")
    case True
    then have "rd_pos r < length (rd_data r)" by (simp add: remaining_def)
    with q True show ?thesis
      by (simp add: parse_global_search_result_def parse_search_results_def protocol_error_def read_u8_def require_def)
  next
    case False
    with q show ?thesis
      by (simp add: parse_global_search_result_def parse_search_results_def protocol_error_def trailing_only_def
          parse_global_search_result_lenient_def)
  qed
qed

section \<open>Receiving\<close>

text \<open>
  The protocol object of \<open>_open_socket\<close> is an instance of the inner class, which has no attribute
  \<open>_pending\<close>; \<open>self_outer = self\<close> names that object, not the search. So a datagram that parses ends in
  \<open>AttributeError\<close>, which the event loop logs; one that does not is dropped.
\<close>

type_synonym pending = "endpoint \<Rightarrow> packet list"

definition datagram_received :: "zlib \<Rightarrow> endpoint \<Rightarrow> bytes \<Rightarrow> pending \<Rightarrow> unit res \<times> pending" where
  "datagram_received z key d pend =
     (case parse_udp_packet z d of
        Inl e \<Rightarrow> (if e = GlobalUdpSearchError then Inr () else Inl e, pend)
      | Inr p \<Rightarrow> (Inl AttributeError, pend))"

text \<open>What happens while the loop sleeps: the callbacks run, their exceptions stay in the event loop.\<close>

definition sleep_tick :: "zlib \<Rightarrow> (endpoint \<times> bytes) list \<Rightarrow> pending \<Rightarrow> pending" where
  "sleep_tick z arrived pend = foldl (\<lambda>q (key, d). snd (datagram_received z key d q)) pend arrived"

definition drain_responses :: "endpoint \<Rightarrow> pending \<Rightarrow> packet list \<times> pending" where
  "drain_responses e pend = (pend e, pend(e := []))"

fun probe_status :: "zlib \<Rightarrow> endpoint \<Rightarrow> (endpoint \<times> bytes) list list \<Rightarrow> pending \<Rightarrow> bool \<times> pending" where
  "probe_status z e [] pend = (False, pend)"
| "probe_status z e (arrived # ticks) pend =
     (case drain_responses e (sleep_tick z arrived pend) of
        (bucket, pend') \<Rightarrow>
          if list_ex (\<lambda>p. p_opcode p = GLOBSERVSTATRES) bucket then (True, pend') else probe_status z e ticks pend')"

section \<open>One server\<close>

record attempt_state =
  as_dead_retries :: nat
  as_working_variant :: "int option"
  as_answered :: bool

definition DEAD_SERVER_RETRIES :: nat where "DEAD_SERVER_RETRIES = 2"

definition is_dead :: "attempt_state \<Rightarrow> bool" where
  "is_dead s \<longleftrightarrow> as_dead_retries s \<ge> DEAD_SERVER_RETRIES"

definition variant_ladder :: "attempt_state \<Rightarrow> int list" where
  "variant_ladder s =
     (let ladder = [GLOBSEARCHREQ3, GLOBSEARCHREQ2, GLOBSEARCHREQ] in
      case as_working_variant s of None \<Rightarrow> ladder | Some v \<Rightarrow> v # filter (\<lambda>c. c \<noteq> v) ladder)"

text \<open>The results of one drained bucket; a malformed one is logged.\<close>

definition collect_bucket :: "(bytes \<Rightarrow> 'f) \<Rightarrow> packet list \<Rightarrow> 'f search_result list \<Rightarrow> 'f search_result list res" where
  "collect_bucket uf bucket acc =
     foldE (\<lambda>a p. if p_opcode p \<noteq> GLOBSEARCHRES then Inr a
                  else case parse_global_search_result uf (p_payload p) of
                    Inr rs \<Rightarrow> Inr (a @ rs)
                  | Inl e \<Rightarrow> if e = GlobalUdpSearchError then Inr a else Inl e) acc bucket"

fun collect_ticks ::
    "(bytes \<Rightarrow> 'f) \<Rightarrow> zlib \<Rightarrow> endpoint \<Rightarrow> (endpoint \<times> bytes) list list \<Rightarrow> 'f search_result list \<Rightarrow> pending
     \<Rightarrow> ('f search_result list \<times> pending) res" where
  "collect_ticks uf z e [] acc pend = Inr ([], pend)"
| "collect_ticks uf z e (arrived # ticks) acc pend =
     (case drain_responses e (sleep_tick z arrived pend) of
        (bucket, pend') \<Rightarrow> bindE (collect_bucket uf bucket acc) (\<lambda>acc'.
          if acc' \<noteq> [] then Inr (acc', pend') else collect_ticks uf z e ticks acc' pend'))"

text \<open>The ladder: \<open>net i\<close> is what the window of the \<open>i\<close>-th request brings. The requests sent are returned too.\<close>

fun climb ::
    "(bytes \<Rightarrow> 'f) \<Rightarrow> zlib \<Rightarrow> endpoint \<Rightarrow> bytes \<Rightarrow> (nat \<Rightarrow> (endpoint \<times> bytes) list list) \<Rightarrow> nat \<Rightarrow> int list
     \<Rightarrow> attempt_state \<Rightarrow> pending \<Rightarrow> ('f search_result list \<times> bytes list \<times> attempt_state \<times> pending) res" where
  "climb uf z e body net i [] s pend =
     Inr ([], [], if as_answered s then s else s\<lparr>as_dead_retries := as_dead_retries s + 1\<rparr>, pend)"
| "climb uf z e body net i (v # vs) s pend =
     bindE (if v = GLOBSEARCHREQ3 then bindE build_udp_search_req3_prefix (\<lambda>p. Inr (p @ body)) else Inr body) (\<lambda>wire_body.
     bindE (encode_udp_packet v wire_body) (\<lambda>wire.
     bindE (collect_ticks uf z e (net i) [] pend) (\<lambda>(found, pend').
       if found \<noteq> [] then
         Inr (found, [wire], s\<lparr>as_working_variant := Some v, as_answered := True, as_dead_retries := 0\<rparr>, pend')
       else bindE (climb uf z e body net (i + 1) vs s pend') (\<lambda>(rs, sent, s', p'). Inr (rs, wire # sent, s', p')))))"

definition collect_for_server ::
    "(bytes \<Rightarrow> 'f) \<Rightarrow> zlib \<Rightarrow> endpoint \<Rightarrow> bytes \<Rightarrow> (nat \<Rightarrow> (endpoint \<times> bytes) list list) \<Rightarrow> attempt_state \<Rightarrow> pending
     \<Rightarrow> ('f search_result list \<times> bytes list \<times> attempt_state \<times> pending) res" where
  "collect_for_server uf z e body net s pend =
     (let ladder = variant_ladder s in
      climb uf z e body net 0 (if as_working_variant s = None then take 2 ladder else ladder) s pend)"

section \<open>The search\<close>

record global_search =
  gs_servers :: "endpoint list"
  gs_dead_retries :: nat
  gs_state :: "endpoint \<Rightarrow> attempt_state"
  gs_pending :: pending

definition fresh_attempts :: attempt_state where
  "fresh_attempts = \<lparr>as_dead_retries = 0, as_working_variant = None, as_answered = False\<rparr>"

definition mk_global_search :: "endpoint list \<Rightarrow> nat \<Rightarrow> global_search res" where
  "mk_global_search servers dead_retries =
     (if servers = [] then Inl GlobalUdpSearchError
      else Inr \<lparr>gs_servers = servers, gs_dead_retries = dead_retries, gs_state = (\<lambda>_. fresh_attempts),
                gs_pending = (\<lambda>_. [])\<rparr>)"

text \<open>A file's entry is replaced only by one with more sources.\<close>

definition merge_found :: "'f search_result list \<Rightarrow> (bytes \<times> 'f search_result) list \<Rightarrow> (bytes \<times> 'f search_result) list" where
  "merge_found found d =
     foldl (\<lambda>d r. case map_of d (se_hash r) of
        None \<Rightarrow> dict_set (se_hash r) r d
      | Some old \<Rightarrow> if result_sources r > result_sources old then dict_set (se_hash r) r d else d) d found"

record 'f aggregate =
  ag_results :: "(bytes \<times> 'f search_result) list"
  ag_per_server :: "(endpoint \<times> nat) list"
  ag_dead :: "endpoint list"

text \<open>One turn of the loop over the servers; \<open>net e i\<close> is what server \<open>e\<close> sends in its \<open>i\<close>-th window.\<close>

definition search_server ::
    "(bytes \<Rightarrow> 'f) \<Rightarrow> zlib \<Rightarrow> bytes \<Rightarrow> (endpoint \<Rightarrow> nat \<Rightarrow> (endpoint \<times> bytes) list list) \<Rightarrow> endpoint
     \<Rightarrow> global_search \<times> 'f aggregate \<Rightarrow> (global_search \<times> 'f aggregate) res" where
  "search_server uf z body net e st =
     (case st of (g, a) \<Rightarrow>
        if as_dead_retries (gs_state g e) \<ge> gs_dead_retries g then Inr (g, a\<lparr>ag_dead := ag_dead a @ [e]\<rparr>)
        else
          bindE (collect_for_server uf z e body (net e) (gs_state g e) (gs_pending g)) (\<lambda>(found, sent, s', pend').
            Inr (g\<lparr>gs_state := (gs_state g)(e := s'), gs_pending := pend'\<rparr>,
                 a\<lparr>ag_per_server := dict_set e (length found) (ag_per_server a),
                   ag_results := merge_found found (ag_results a)\<rparr>)))"

definition global_udp_search ::
    "(bytes \<Rightarrow> 'f) \<Rightarrow> (ustr \<Rightarrow> ustr) \<Rightarrow> zlib \<Rightarrow> ustr \<Rightarrow> (endpoint \<Rightarrow> nat \<Rightarrow> (endpoint \<times> bytes) list list)
     \<Rightarrow> global_search \<Rightarrow> (global_search \<times> 'f aggregate) res" where
  "global_udp_search uf strip z query net g =
     bindE (build_udp_search_payload strip query) (\<lambda>body.
       foldE (\<lambda>st e. search_server uf z body net e st) (g, \<lparr>ag_results = [], ag_per_server = [], ag_dead = []\<rparr>) (gs_servers g))"

section \<open>Which result of a file is kept\<close>

definition best_kept :: "(bytes \<times> 'f search_result) list \<Rightarrow> 'f search_result \<Rightarrow> bool" where
  "best_kept d r \<longleftrightarrow> (case map_of d (se_hash r) of None \<Rightarrow> False | Some b \<Rightarrow> result_sources r \<le> result_sources b)"

lemma merge_found_mono: "best_kept d r \<Longrightarrow> best_kept (merge_found found d) r"
proof (induction found arbitrary: d)
  case Nil
  then show ?case by (simp add: merge_found_def)
next
  case (Cons x found)
  let ?d = "merge_found [x] d"
  have "best_kept ?d r"
    using Cons.prems by (auto simp: merge_found_def best_kept_def map_of_dict_set split: option.splits if_splits)
  from Cons.IH [OF this] show ?case by (simp add: merge_found_def)
qed

theorem merge_found_keeps_best: "list_all (best_kept (merge_found found d)) found"
proof (induction found arbitrary: d)
  case Nil
  then show ?case by simp
next
  case (Cons x found)
  have s: "merge_found (x # found) d = merge_found found (merge_found [x] d)" by (simp add: merge_found_def)
  have "best_kept (merge_found [x] d) x"
    by (auto simp: merge_found_def best_kept_def map_of_dict_set split: option.splits)
  then have "best_kept (merge_found (x # found) d) x" unfolding s by (rule merge_found_mono)
  then show ?case using Cons.IH [of "merge_found [x] d"] s by simp
qed

section \<open>No response ever reaches the search\<close>

lemma datagram_received_pending: "snd (datagram_received z key d pend) = pend"
  by (simp add: datagram_received_def split: sum.splits)

lemma sleep_tick_id: "sleep_tick z arrived pend = pend"
  unfolding sleep_tick_def by (induction arrived) (auto simp: datagram_received_pending)

definition nothing :: pending where "nothing = (\<lambda>_. [])"

lemma drain_nothing: "drain_responses e nothing = ([], nothing)"
  by (auto simp: drain_responses_def nothing_def)

lemma collect_ticks_nothing: "collect_ticks uf z e ticks [] nothing = Inr ([], nothing)"
  by (induction ticks) (simp_all add: sleep_tick_id drain_nothing collect_bucket_def)

theorem probe_never_answered: "probe_status z e ticks nothing = (False, nothing)"
  by (induction ticks) (simp_all add: sleep_tick_id drain_nothing)

lemma body_small:
  "build_udp_search_payload strip query = Inr body \<Longrightarrow> length body < 2 ^ 17"
  by (auto simp: build_udp_search_payload_def bindE_eq_Inr_conv write_u8_def write_string_utf8_def write_u16_def
      write_bytes_def split: if_splits option.splits)

lemma climb_nothing:
  assumes "length body < 2 ^ 17" and "list_all (\<lambda>v. 0 \<le> v \<and> v \<le> 0xFF) vs" and "\<not> as_answered s"
  shows "\<exists>sent. climb uf z e body net i vs s nothing =
    Inr ([], sent, s\<lparr>as_dead_retries := as_dead_retries s + 1\<rparr>, nothing) \<and> length sent = length vs"
  using assms(2)
proof (induction vs arbitrary: i)
  case Nil
  then show ?case using assms(3) by simp
next
  case (Cons v vs)
  from Cons.IH [of "i + 1"] Cons.prems obtain sent where
    "climb uf z e body net (i + 1) vs s nothing = Inr ([], sent, s\<lparr>as_dead_retries := as_dead_retries s + 1\<rparr>, nothing)"
    "length sent = length vs" by auto
  moreover obtain w where w: "build_udp_search_req3_prefix = Inr w" "length w = 10"
    by (simp add: build_udp_search_req3_prefix_def write_u32_def write_u8_def SERVER_UDPSEARCH_FLAGS_def
        SRVCAP_UDP_NEWTAGS_LARGEFILES_def)
  ultimately show ?case
    using Cons.prems assms(1) by (simp add: encode_udp_packet_def collect_ticks_nothing w)
qed

lemma ladder_bytes:
  "as_working_variant s = None \<Longrightarrow> list_all (\<lambda>v. 0 \<le> v \<and> v \<le> 0xFF) (take 2 (variant_ladder s))"
  by (simp add: variant_ladder_def GLOBSEARCHREQ3_def GLOBSEARCHREQ2_def GLOBSEARCHREQ_def numeral_2_eq_2)

text \<open>A search state no server has answered yet.\<close>

definition unanswered :: "global_search \<Rightarrow> bool" where
  "unanswered g \<longleftrightarrow> gs_pending g = nothing \<and> (\<forall>e. \<not> as_answered (gs_state g e) \<and> as_working_variant (gs_state g e) = None)"

definition one_more_failure :: "global_search \<Rightarrow> endpoint \<Rightarrow> attempt_state \<Rightarrow> attempt_state" where
  "one_more_failure g e s = (if as_dead_retries s < gs_dead_retries g then s\<lparr>as_dead_retries := as_dead_retries s + 1\<rparr> else s)"

lemma search_server_silent:
  assumes "unanswered g" and "length body < 2 ^ 17" and "ag_results a = []" and "list_all (\<lambda>(e, n). n = 0) (ag_per_server a)"
  shows "\<exists>g' a'. search_server uf z body net e (g, a) = Inr (g', a') \<and> unanswered g' \<and> ag_results a' = [] \<and>
    list_all (\<lambda>(e, n). n = 0) (ag_per_server a') \<and> gs_servers g' = gs_servers g \<and> gs_dead_retries g' = gs_dead_retries g \<and>
    gs_state g' = (gs_state g)(e := one_more_failure g e (gs_state g e))"
proof (cases "as_dead_retries (gs_state g e) \<ge> gs_dead_retries g")
  case True
  with assms show ?thesis by (simp add: search_server_def one_more_failure_def)
next
  case False
  have s: "\<not> as_answered (gs_state g e)" "as_working_variant (gs_state g e) = None" "gs_pending g = nothing"
    using assms(1) unfolding unanswered_def by blast+
  from climb_nothing [OF assms(2) ladder_bytes [OF s(2)] s(1), of uf z e "net e" 0] obtain sent where
    c: "collect_for_server uf z e body (net e) (gs_state g e) (gs_pending g) =
      Inr ([], sent, (gs_state g e)\<lparr>as_dead_retries := as_dead_retries (gs_state g e) + 1\<rparr>, nothing)"
    using s by (auto simp: collect_for_server_def Let_def)
  have "list_all (\<lambda>(e, n). n = 0) (dict_set e 0 (ag_per_server a))"
    using assms(4) by (auto simp: dict_set_def list_all_iff)
  with False c assms s show ?thesis
    by (simp add: search_server_def one_more_failure_def unanswered_def merge_found_def)
qed

text \<open>
  C32. The global UDP search never returns a result: whatever datagrams the servers answer with, the protocol object has no
  \<open>_pending\<close>, every well-formed datagram ends in \<open>AttributeError\<close>, and the search ends with no results, no server answered, and one
  more failure counted for each server it tried.
\<close>

theorem global_search_never_collects:
  assumes "build_udp_search_payload strip query = Inr body" and "unanswered g" and "distinct (gs_servers g)"
  shows "\<exists>g' a. global_udp_search uf strip z query net g = Inr (g', a) \<and> ag_results a = [] \<and>
     list_all (\<lambda>(e, n). n = 0) (ag_per_server a) \<and> unanswered g' \<and>
     gs_state g' = (\<lambda>e. if e \<in> set (gs_servers g) then one_more_failure g e (gs_state g e) else gs_state g e)"
proof -
  have b: "length body < 2 ^ 17" by (rule body_small [OF assms(1)])
  have "\<exists>g' a'. foldE (\<lambda>st e. search_server uf z body net e st) (g, a) es = Inr (g', a') \<and> ag_results a' = [] \<and>
     list_all (\<lambda>(e, n). n = 0) (ag_per_server a') \<and> unanswered g' \<and>
     gs_state g' = (\<lambda>e. if e \<in> set es then one_more_failure g e (gs_state g e) else gs_state g e)"
    if "distinct es" "unanswered g" "ag_results a = []" "list_all (\<lambda>(e, n). n = 0) (ag_per_server a)"
    for es g and a :: "'a aggregate"
    using that
  proof (induction es arbitrary: g a)
    case Nil
    then show ?case by simp
  next
    case (Cons e es)
    from search_server_silent [OF Cons.prems(2) b Cons.prems(3,4)] obtain g1 a1 where
      s: "search_server uf z body net e (g, a) = Inr (g1, a1)" "unanswered g1" "ag_results a1 = []"
      "list_all (\<lambda>(e, n). n = 0) (ag_per_server a1)" "gs_dead_retries g1 = gs_dead_retries g"
      "gs_state g1 = (gs_state g)(e := one_more_failure g e (gs_state g e))" by blast
    from Cons.IH [of g1 a1] s Cons.prems(1) obtain g2 a2 where
      t: "foldE (\<lambda>st e. search_server uf z body net e st) (g1, a1) es = Inr (g2, a2)" "ag_results a2 = []"
      "list_all (\<lambda>(e, n). n = 0) (ag_per_server a2)" "unanswered g2"
      "gs_state g2 = (\<lambda>e. if e \<in> set es then one_more_failure g1 e (gs_state g1 e) else gs_state g1 e)" by auto
    have "gs_state g2 = (\<lambda>x. if x \<in> set (e # es) then one_more_failure g x (gs_state g x) else gs_state g x)"
      using Cons.prems(1) unfolding t(5) s(6) by (auto simp: one_more_failure_def s(5))
    with s(1) t show ?case by simp
  qed
  from this [OF assms(3,2), of "\<lparr>ag_results = [], ag_per_server = [], ag_dead = []\<rparr>"] assms(1)
  show ?thesis by (simp add: global_udp_search_def)
qed

section \<open>Two servers that answer\<close>

definition demo_global :: global_search where
  "demo_global = \<lparr>gs_servers = [(''1.2.3.4'', 4665), (''5.6.7.8'', 4665)], gs_dead_retries = 2,
     gs_state = (\<lambda>_. fresh_attempts), gs_pending = nothing\<rparr>"

theorem global_search_never_collects_witness:
  "\<exists>g' a. global_udp_search (\<lambda>_. ()) (\<lambda>s. s) rle_zlib [104]
       (\<lambda>e i. [[(e, [0xE3, 5, 0, 0, 0, 0x99, 0, 0, 0, 0])]]) demo_global = (Inr (g', a) :: (global_search \<times> unit aggregate) res) \<and>
     ag_results a = [] \<and> list_all (\<lambda>(e, n). n = 0) (ag_per_server a) \<and> unanswered g' \<and>
     gs_state g' = (\<lambda>e. if e \<in> set (gs_servers demo_global) then one_more_failure demo_global e (gs_state demo_global e)
                        else gs_state demo_global e)"
  by (rule global_search_never_collects [where body = "[1, 1, 0, 104]"])
    (simp_all add: build_udp_search_payload_def write_u8_def write_string_utf8_def write_u16_def write_bytes_def
      utf8_cp_def demo_global_def unanswered_def fresh_attempts_def eval_simps)

end
