(* ===== verification/Ed2k_Links.thy ===== *)
theory Ed2k_Links
  imports Py_Text Py_String
begin

text \<open>
  \<open>core/ed2k/links.py\<close>: \<open>ed2k://|file|\<dots>\<close> links. A link is a string of code points below 256; the name
  that comes out of percent decoding may hold any code point.
\<close>

section \<open>Percent decoding\<close>

text \<open>
  \<open>unquote_to_bytes\<close> on an ASCII text, and \<open>unquote\<close>: every maximal run of ASCII characters is decoded
  to bytes and these as UTF-8 with replacement; other characters stay.
\<close>

fun unquote_to_bytes :: "string \<Rightarrow> bytes" where
  "unquote_to_bytes [] = []"
| "unquote_to_bytes (c # s) =
     (if c = CHR ''%'' then
        (case s of
           a # b # s' \<Rightarrow>
             (case (hex_val a, hex_val b) of
                (Some h, Some l) \<Rightarrow> word_of_nat (16 * h + l) # unquote_to_bytes s'
              | _ \<Rightarrow> word_of_nat (code c) # unquote_to_bytes s)
         | _ \<Rightarrow> word_of_nat (code c) # unquote_to_bytes s)
      else word_of_nat (code c) # unquote_to_bytes s)"

definition is_ascii :: "char \<Rightarrow> bool" where
  "is_ascii c \<longleftrightarrow> code c < 128"

function unquote_parts :: "string \<Rightarrow> ustr" where
  "unquote_parts [] = []"
| "unquote_parts (c # s) =
     (if is_ascii c
      then utf8_replace (unquote_to_bytes (takeWhile is_ascii (c # s))) @ unquote_parts (dropWhile is_ascii (c # s))
      else code c # unquote_parts s)"
  by pat_completeness auto
termination
  by (relation "measure length") (auto simp: less_Suc_eq_le length_dropWhile_le)

definition unquote :: "string \<Rightarrow> ustr" where
  "unquote s = (if CHR ''%'' \<notin> set s then map code s else unquote_parts s)"

section \<open>Links\<close>

record ed2k_file_link =
  fl_name :: ustr
  fl_size :: int
  fl_hash :: bytes

definition link_prefix :: string where "link_prefix = ''ed2k://|file|''"

definition build_ed2k_file_link :: "string \<Rightarrow> int \<Rightarrow> bytes \<Rightarrow> string res" where
  "build_ed2k_file_link name sz fh =
     (if name = [] then Inl Ed2kLinkError
      else if sz < 0 then Inl Ed2kLinkError
      else if length fh \<noteq> 16 then Inl Ed2kLinkError
      else Inr (link_prefix @ py_replace (CHR ''|'') ''%7C'' name @ ''|'' @ show_int sz @ ''|'' @
                map upper_char (to_hex fh) @ ''|/''))"

definition parse_ed2k_file_link :: "string \<Rightarrow> ed2k_file_link res" where
  "parse_ed2k_file_link link =
     (let v = py_strip link in
      if \<not> starts_with link_prefix (py_lower v) then Inl Ed2kLinkError
      else case py_split (CHR ''|'') (drop (length link_prefix) v) of
        encoded_name # size_text # hash_text # _ \<Rightarrow>
          if encoded_name = [] \<or> size_text = [] \<or> hash_text = [] then Inl Ed2kLinkError
          else (case py_int size_text of
            None \<Rightarrow> Inl Ed2kLinkError
          | Some sz \<Rightarrow>
              if sz < 0 then Inl Ed2kLinkError
              else if length hash_text \<noteq> 32 then Inl Ed2kLinkError
              else (case from_hex hash_text of
                None \<Rightarrow> Inl Ed2kLinkError
              | Some fh \<Rightarrow>
                  let name = unquote encoded_name in
                  if name = [] then Inl Ed2kLinkError
                  else Inr \<lparr>fl_name = name, fl_size = sz, fl_hash = fh\<rparr>))
      | _ \<Rightarrow> Inl Ed2kLinkError)"

section \<open>Round trip\<close>

lemma py_replace_append: "py_replace c t (xs @ ys) = py_replace c t xs @ py_replace c t ys"
  by (simp add: py_replace_def)

lemma py_replace_Cons: "py_replace c t (x # xs) = (if x = c then t else [x]) @ py_replace c t xs"
  by (simp add: py_replace_def)

lemma py_replace_Nil [simp]: "py_replace c t [] = []"
  by (simp add: py_replace_def)

lemma py_replace_id: "c \<notin> set xs \<Longrightarrow> py_replace c t xs = xs"
  by (induction xs) (auto simp: py_replace_Cons)

lemma py_replace_gone: "c \<notin> set t \<Longrightarrow> c \<notin> set (py_replace c t xs)"
  by (auto simp: py_replace_def split: if_splits)

abbreviation escape :: "string \<Rightarrow> string" where
  "escape \<equiv> py_replace (CHR ''|'') ''%7C''"

lemma escape_Nil_iff: "escape s = [] \<longleftrightarrow> s = []"
  by (cases s) (auto simp: py_replace_Cons)

lemma unquote_to_bytes_escape:
  "CHR ''%'' \<notin> set s \<Longrightarrow> unquote_to_bytes (escape s) = map (\<lambda>c. word_of_nat (code c)) s"
proof (induction s)
  case Nil
  then show ?case by simp
next
  case (Cons c s)
  have v: "hex_val (CHR ''7'') = Some 7" "hex_val (CHR ''C'') = Some 12" "code (CHR ''|'') = 124"
    by (simp_all add: hex_val_def code_def Let_def)
  from Cons.prems have "c \<noteq> CHR ''%''" by auto
  with Cons show ?case
    by (cases "c = CHR ''|''") (simp_all add: py_replace_Cons v)
qed

lemma utf8_replace_ascii: "list_all (\<lambda>n. n < 128) ns \<Longrightarrow> utf8_replace (map word_of_nat ns) = ns"
  by (induction ns) (simp_all add: utf8_replace.simps(2) unat_small Let_def)

lemma unquote_parts_run:
  "list_all is_ascii xs \<Longrightarrow> ys = [] \<or> \<not> is_ascii (hd ys) \<Longrightarrow>
   unquote_parts (xs @ ys) = utf8_replace (unquote_to_bytes xs) @ unquote_parts ys"
proof (cases xs)
  case (Cons x xs')
  assume a: "list_all is_ascii xs" and y: "ys = [] \<or> \<not> is_ascii (hd ys)"
  have "takeWhile is_ascii (xs @ ys) = xs" "dropWhile is_ascii (xs @ ys) = ys"
    using a y by (cases ys; simp add: list_all_iff)+
  with Cons a show ?thesis by simp
qed simp

lemma escape_ascii: "list_all is_ascii s \<Longrightarrow> list_all is_ascii (escape s)"
  by (induction s) (auto simp: py_replace_Cons is_ascii_def code_def)

lemma unquote_parts_escape: "CHR ''%'' \<notin> set s \<Longrightarrow> unquote_parts (escape s) = map code s"
proof (induction "length s" arbitrary: s rule: less_induct)
  case less
  let ?xs = "takeWhile is_ascii s" and ?ys = "dropWhile is_ascii s"
  have s: "s = ?xs @ ?ys" by simp
  have xs: "list_all is_ascii ?xs" by (auto simp: list_all_iff dest: set_takeWhileD)
  have px: "CHR ''%'' \<notin> set ?xs" using less.prems by (auto dest: set_takeWhileD)
  have "list_all (\<lambda>n. n < 128) (map code ?xs)" using xs by (simp add: list_all_iff is_ascii_def)
  then have bx: "utf8_replace (unquote_to_bytes (escape ?xs)) = map code ?xs"
    unfolding unquote_to_bytes_escape [OF px] using utf8_replace_ascii [of "map code ?xs"] by (simp add: comp_def)
  have h: "escape ?ys = [] \<or> \<not> is_ascii (hd (escape ?ys))"
  proof (cases ?ys)
    case (Cons y ys)
    then have "\<not> is_ascii y" by (metis hd_dropWhile list.distinct(1) list.sel(1))
    moreover have "is_ascii (CHR ''|'')" by (simp add: is_ascii_def code_def)
    ultimately show ?thesis using Cons by (auto simp: py_replace_Cons)
  qed (simp only: py_replace_Nil, simp)
  have tail: "unquote_parts (escape ?ys) = map code ?ys"
  proof (cases ?ys)
    case (Cons y ys)
    then have y: "\<not> is_ascii y" by (metis hd_dropWhile list.distinct(1) list.sel(1))
    have n: "y \<noteq> CHR ''|''" using y by (auto simp: is_ascii_def code_def)
    have "length ?ys \<le> length s" by (rule length_dropWhile_le)
    moreover have "set ?ys \<subseteq> set s" by (meson set_dropWhileD subsetI)
    ultimately have "unquote_parts (escape ys) = map code ys"
      using Cons less.prems by (intro less.hyps) auto
    with Cons y n show ?thesis by (simp add: py_replace_Cons)
  qed (simp only: py_replace_Nil, simp)
  have "unquote_parts (escape s) = unquote_parts (escape ?xs @ escape ?ys)"
    by (subst s) (simp only: py_replace_append)
  also have "\<dots> = map code ?xs @ map code ?ys"
    using unquote_parts_run [OF escape_ascii [OF xs] h] bx tail by simp
  finally show ?case by (simp only: map_append [symmetric] takeWhile_dropWhile_id)
qed

lemma unquote_escape: "CHR ''%'' \<notin> set s \<Longrightarrow> unquote (escape s) = map code s"
proof (cases "CHR ''|'' \<in> set s")
  case True
  assume p: "CHR ''%'' \<notin> set s"
  from True have "CHR ''%'' \<in> set (escape s)" by (auto simp: py_replace_def)
  with unquote_parts_escape [OF p] show ?thesis by (simp add: unquote_def)
qed (simp add: py_replace_id unquote_def)

lemma digit_not_bar: "list_all is_digit s \<Longrightarrow> CHR ''|'' \<notin> set s"
  by (auto simp: list_all_iff is_digit_def code_def)

lemma hex_upper_not_bar: "CHR ''|'' \<notin> set (map upper_char (to_hex bs))"
proof -
  have n: "upper_char (hex_digit n) \<noteq> CHR ''|''" if "n < 16" for n
    using hex_val_upper [OF that] by (auto simp: hex_val_def code_def Let_def)
  show ?thesis
  proof (induction bs)
    case (Cons b bs)
    with n [OF nibbles(1) [of b]] n [OF nibbles(2) [of b]] show ?case by auto
  qed simp
qed

theorem file_link_roundtrip:
  assumes "name \<noteq> []" and "CHR ''%'' \<notin> set name" and "0 \<le> sz" and "length fh = 16"
  shows "\<exists>link. build_ed2k_file_link name sz fh = Inr link \<and>
    parse_ed2k_file_link link = Inr \<lparr>fl_name = map code name, fl_size = sz, fl_hash = fh\<rparr>"
proof -
  let ?h = "map upper_char (to_hex fh)" and ?n = "show_int sz"
  let ?link = "link_prefix @ escape name @ ''|'' @ ?n @ ''|'' @ ?h @ ''|/''"
  have b: "build_ed2k_file_link name sz fh = Inr ?link"
    using assms by (simp add: build_ed2k_file_link_def)
  have "py_strip ?link = ?link"
    by (rule py_strip_id) (simp_all add: link_prefix_def is_space_def code_def Let_def)
  moreover have "starts_with link_prefix (py_lower ?link)"
    by (simp add: starts_with_def py_lower_def link_prefix_def lower_char_def code_def Let_def)
  moreover have n: "CHR ''|'' \<notin> set ?n" "?n \<noteq> []"
    using assms(3) show_nat_digits [of "nat sz"] by (simp_all add: show_int_def digit_not_bar)
  have "py_split (CHR ''|'') (drop (length link_prefix) ?link) = [escape name, ?n, ?h, ''/'']"
    using n hex_upper_not_bar [of fh] py_replace_gone [of "CHR ''|''" "''%7C''" name]
    by (simp add: py_split_append)
  moreover have "?h \<noteq> []" "length ?h = 32" using assms(4) by (auto simp flip: length_0_conv)
  moreover have "map code name \<noteq> []" using assms(1) by simp
  ultimately have "parse_ed2k_file_link ?link = Inr \<lparr>fl_name = map code name, fl_size = sz, fl_hash = fh\<rparr>"
    using assms n from_hex_to_hex_upper [of fh] py_int_show_int [of sz]
    by (simp add: parse_ed2k_file_link_def Let_def escape_Nil_iff unquote_escape)
  with b show ?thesis by blast
qed

text \<open>A percent sign is not escaped: the file \<open>a%41\<close> comes back as \<open>aA\<close>.\<close>

theorem file_link_percent:
  "bindE (build_ed2k_file_link ''a%41'' 1 (replicate 16 0)) parse_ed2k_file_link =
   Inr \<lparr>fl_name = map code ''aA'', fl_size = 1, fl_hash = replicate 16 0\<rparr>"
  by code_simp

end
