(* ===== verification/Spider_Receiver.thy ===== *)
theory Spider_Receiver
  imports Kad_Buddy Kad_Packets Udp_Obfuscation
begin

text \<open>
  The receiver task of \<open>SpiderEngine.run\<close> in \<open>core/kad/spider.py\<close>: how it opens a datagram, which
  opcodes it tests and what it answers. It raises at its second test, before the callback relay of
  \<open>Kad_Buddy\<close>; the theorem puts the relay and the receiver side by side.
\<close>

section \<open>The receiver of the spider\<close>

definition KADEMLIA_FINDSERVINGBUDDY_REQ :: nat where "KADEMLIA_FINDSERVINGBUDDY_REQ = 0x51"
definition KADEMLIA_CALLBACK_REQ :: nat where "KADEMLIA_CALLBACK_REQ = 0x52"

text \<open>\<open>KADEMLIA_FINDSERVINGBUDDY_REQ\<close>: the datagram that answers it, if any.\<close>

definition on_find_serving_buddy_req :: "bytes \<Rightarrow> bytes \<Rightarrow> buddy_registry \<Rightarrow> bytes option" where
  "on_find_serving_buddy_req own_id payload r =
     (case parse_find_serving_buddy_req payload of
        Inl e \<Rightarrow> None
      | Inr (served_id, user_hash, tcp, opts) \<Rightarrow>
          if can_serve r then Some ([0xE4, 0x5A] @ build_find_serving_buddy_res served_id own_id (br_tcp_port r) (Some 0x83))
          else None)"

text \<open>
  The configuration of the receiver, and the pool of known nodes, of which it touches \<open>udp_key\<close>
  only.
\<close>

record spider_conf =
  sc_zlib :: zlib
  sc_arc4 :: arc4
  sc_md5 :: digest
  sc_own_id :: bytes

type_synonym node_keys = "(string \<times> nat) \<rightharpoonup> nat option"

definition spider_parse :: "zlib \<Rightarrow> bytes \<Rightarrow> (nat \<times> nat \<times> bytes) res" where
  "spider_parse z data =
     bindE (parse_kad_packet data) (\<lambda>(proto, op, payload).
       if proto = 0xE5 then bindE (z_decompress z payload) (\<lambda>out. Inr (proto, op, out)) else Inr (proto, op, payload))"

text \<open>\<open>rec["udp_key"] = send_key & 0xFFFFFFFF\<close>, for a known node and a key that is not 0.\<close>

definition note_udp_key :: "string \<times> nat \<Rightarrow> nat \<Rightarrow> node_keys \<Rightarrow> node_keys" where
  "note_udp_key a send_key nodes =
     (if a \<in> dom nodes \<and> send_key \<noteq> 0 then nodes(a \<mapsto> Some (send_key mod 2 ^ 32)) else nodes)"

text \<open>The opcode and payload of a datagram, \<open>None\<close> for one that is skipped, and the pool.\<close>

definition spider_packet ::
    "spider_conf \<Rightarrow> string \<times> nat \<Rightarrow> bytes \<Rightarrow> node_keys \<Rightarrow> (nat \<times> bytes) option res \<times> node_keys" where
  "spider_packet cf a data nodes =
     (case spider_parse (sc_zlib cf) data of
        Inl e \<Rightarrow> (Inr None, nodes)
      | Inr (proto, op, payload) \<Rightarrow>
          if proto = 0xE4 \<or> proto = 0xE5 then (Inr (Some (op, payload)), nodes)
          else case decode_obfuscated_kad (sc_arc4 cf) (sc_md5 cf) data (sc_own_id cf) None of
            Inl e \<Rightarrow> (Inl e, nodes)
          | Inr None \<Rightarrow> (Inr None, nodes)
          | Inr (Some (pkt, receiver_key, send_key)) \<Rightarrow>
              (case spider_parse (sc_zlib cf) pkt of
                 Inl e \<Rightarrow> (Inr None, nodes)
               | Inr (proto', op', payload') \<Rightarrow> (Inr (Some (op', payload')), note_udp_key a send_key nodes)))"

text \<open>
  The tests of the opcode. The branch behind the second test, \<open>op == KADEMLIA_CALLBACK_REQ\<close>, imports
  that name again, so that in the whole of \<open>receiver\<close> it is a local variable, unbound when the test
  reads it: every datagram that comes so far raises \<open>UnboundLocalError\<close>, a \<open>NameError\<close>. No branch
  behind it is ever entered: not the relay, not the answer of a buddy, not the answer to a HELLO.
\<close>

definition spider_dispatch :: "bytes \<Rightarrow> buddy_registry \<Rightarrow> nat \<Rightarrow> bytes \<Rightarrow> bytes option res" where
  "spider_dispatch own_id r op payload =
     (if op = KADEMLIA_FINDSERVINGBUDDY_REQ then Inr (on_find_serving_buddy_req own_id payload r) else Inl NameError)"

text \<open>One datagram: the datagram that answers it, if any, or the exception, and the pool.\<close>

definition spider_datagram ::
    "spider_conf \<Rightarrow> buddy_registry \<Rightarrow> string \<times> nat \<Rightarrow> bytes \<Rightarrow> node_keys \<Rightarrow> bytes option res \<times> node_keys" where
  "spider_datagram cf r a data nodes =
     (case spider_packet cf a data nodes of
        (Inl e, nodes') \<Rightarrow> (Inl e, nodes')
      | (Inr None, nodes') \<Rightarrow> (Inr None, nodes')
      | (Inr (Some (op, payload)), nodes') \<Rightarrow> (spider_dispatch (sc_own_id cf) r op payload, nodes'))"

text \<open>
  The receiver on the datagrams that arrive, each with its sender and the registry of that moment:
  the answers it sends, in order, and the exception its task ends with. An error of the socket is
  swallowed, on receiving as on sending.
\<close>

fun spider_receiver ::
    "spider_conf \<Rightarrow> (buddy_registry \<times> (string \<times> nat) \<times> bytes) list \<Rightarrow> node_keys \<Rightarrow> ((string \<times> nat) \<times> bytes) list \<times> exn option" where
  "spider_receiver cf [] nodes = ([], None)"
| "spider_receiver cf ((r, a, data) # ds) nodes =
     (case spider_datagram cf r a data nodes of
        (Inl e, nodes') \<Rightarrow> ([], Some e)
      | (Inr answer, nodes') \<Rightarrow>
          (case spider_receiver cf ds nodes' of
             (out, x) \<Rightarrow> (case answer of None \<Rightarrow> (out, x) | Some d \<Rightarrow> ((a, d) # out, x))))"

section \<open>The callback\<close>

text \<open>
  A datagram with another opcode than the buddy request ends the receiver, whatever it received
  before; a node that answers a HELLO sends one.
\<close>

lemma spider_plain:
  assumes "op \<noteq> KADEMLIA_FINDSERVINGBUDDY_REQ" "op < 256"
  shows "spider_datagram cf r a (0xE4 # of_nat op # payload) nodes = (Inl NameError, nodes)"
  using assms by (simp add: spider_datagram_def spider_packet_def spider_parse_def parse_kad_packet_def
      spider_dispatch_def unsigned_of_nat take_bit_nat_eq_self)

lemma spider_receiver_ends:
  assumes "op \<noteq> KADEMLIA_FINDSERVINGBUDDY_REQ" "op < 256"
  shows "spider_receiver cf (before @ (r, a, 0xE4 # of_nat op # payload) # ds) nodes =
    (fst (spider_receiver cf before nodes),
     Some (case snd (spider_receiver cf before nodes) of None \<Rightarrow> NameError | Some e \<Rightarrow> e))"
proof (induction before arbitrary: nodes)
  case Nil
  then show ?case by (simp add: spider_plain [OF assms])
next
  case (Cons d before)
  then show ?case by (cases d) (auto split: prod.splits sum.splits option.splits)
qed

text \<open>
  C23. The parts of a callback, called one after the other, fit together. The HELLO a firewalled client registers with is one in
  which the listener finds its Kad identifier; once registered on a channel it stays reachable
  whatever other clients register or disconnect; a callback request that names it, in either form of
  its identifier, parses back to that identifier, the file and the port; the relay, given those and
  the address of the requester, writes to the channel of the client; and the relay loop of the client
  dials exactly that address and port, then goes on with the bytes behind it. But the receiver of the
  spider never calls the relay: the datagram that carries the request raises \<open>UnboundLocalError\<close> in
  it, whatever the configuration, the pool and the sender; after any datagrams before it, the task has
  sent what it sent for those and is dead, and the datagrams that follow are not read.
\<close>

theorem callback_relay_unreached:
  fixes unpack_u :: "bytes \<Rightarrow> unit"
  assumes "registration_payload int_str c = Inr p" and "length (bc_kad_id c) = 16" and "registry_ok r0"
    and "(other_client (bc_kad_id c) w)\<^sup>*\<^sup>* (br_register (bc_kad_id c) ip tcp w r0) r"
    and "u = bc_kad_id c \<or> u = xor_mask (bc_kad_id c)"
    and "build_kad_callback_req_payload u fh port = Inr req" and "n < 2 ^ 32" and "writable w"
  shows "\<exists>tags wire. parse_hello unpack_u p = Inr (bc_userhash c, 1, nat (bc_tcp_port c), AMULED, 0x3C, tags) \<and>
    buddy_tag_id tags = Some (bc_kad_id c) \<and>
    parse_callback_req req = Inr (u, fh, nat port, 0) \<and>
    relay_op_callback writable u fh (ipv4_str n) (int (nat port)) r = Inr (True, Some (w, wire)) \<and>
    (\<forall>inp. relay_loop (wire @ inp) = ((ipv4_str n, nat port) # fst (relay_loop inp), snd (relay_loop inp))) \<and>
    (\<forall>cf before a ds nodes.
      spider_receiver cf (before @ (r, a, 0xE4 # of_nat KADEMLIA_CALLBACK_REQ # req) # ds) nodes =
        (fst (spider_receiver cf before nodes),
         Some (case snd (spider_receiver cf before nodes) of None \<Rightarrow> NameError | Some e \<Rightarrow> e)))"
proof -
  have "served_at (bc_kad_id c) w r"
    using served_at_others [OF assms(4)] served_at_register [OF assms(3)] by blast
  from callback_relayed [where writable = writable, OF this assms(2,5,6,7,8)] obtain wire where
    wire: "parse_callback_req req = Inr (u, fh, nat port, 0)"
      "relay_op_callback writable u fh (ipv4_str n) (int (nat port)) r = Inr (True, Some (w, wire))"
      "\<forall>inp. bc_read_frame (wire @ inp) = (Some (word_of_int OP_CALLBACK # xor_mask (bc_kad_id c) @ fh @ le_enc 4 n @ le_enc 2 (nat port)), inp)"
      "length fh = 16" "port \<le> 0xFFFF" by blast
  have k: "length (xor_mask (bc_kad_id c)) = 16" and np: "nat port < 65536" using assms(2) wire(5) by simp_all
  have "\<forall>inp. relay_loop (wire @ inp) = ((ipv4_str n, nat port) # fst (relay_loop inp), snd (relay_loop inp))"
    using relay_loop_callback [OF wire(3) k wire(4) assms(7) np] by blast
  moreover have "spider_receiver cf (before @ (r, a, 0xE4 # of_nat KADEMLIA_CALLBACK_REQ # req) # ds) nodes =
      (fst (spider_receiver cf before nodes),
       Some (case snd (spider_receiver cf before nodes) of None \<Rightarrow> NameError | Some e \<Rightarrow> e))"
    for cf before a ds nodes
    by (rule spider_receiver_ends) (simp_all add: KADEMLIA_CALLBACK_REQ_def KADEMLIA_FINDSERVINGBUDDY_REQ_def)
  ultimately show ?thesis using registration_parsed [OF assms(1,2)] wire(1,2) by blast
qed

definition demo_customer :: buddy_customer where
  "demo_customer = (buddy_customer_new (replicate 16 5) (replicate 16 7) 4662)\<lparr>bc_buddy_ip := Some ''1.2.3.4''\<rparr>"

lemma demo_registration: "\<exists>p. registration_payload (\<lambda>_. Inl ValueError) demo_customer = Inr p"
proof -
  have b: "hello_miso1 = 0x30131004" "hello_miso2 = 0x599" by (simp_all add: hello_miso1_def hello_miso2_def Let_def)
  have "buddy_ip_value (Some ''1.2.3.4'') = Inr 16909060" by code_simp
  then show ?thesis
    by (simp add: registration_payload_def hello_extra_tags_def demo_customer_def buddy_customer_new_def
        build_hello_payload_def write_hello_body_def build_hello_tags_def Let_def hello_tag_def write_hello_tag_def
        write_hello_head_def hello_tag_name_def write_u8_def write_u16_def write_u32_def write_hash16_def write_bytes_def
        utf8_cp_def b eval_simps AMULED_def SERVINGBUDDYID_def SERVINGBUDDYIP_def SERVINGBUDDYUDP_def)
qed

text \<open>Another client registers and leaves between the registration and the request.\<close>

theorem callback_relay_unreached_witness:
  "\<exists>p tags wire. parse_hello (\<lambda>_. ()) p = Inr (replicate 16 7, 1, nat 4662, AMULED, 0x3C, tags) \<and>
    buddy_tag_id tags = Some (replicate 16 5) \<and>
    relay_op_callback (\<lambda>_. True) (replicate 16 0xFA) (replicate 16 9) (ipv4_str 16909060) (int (nat 4711))
      (unregister_transport 2 (br_register (replicate 16 6) ''9.9.9.9'' 1 2 (br_register (replicate 16 5) ''5.6.7.8'' 4662 1
        (registry_new 16)))) = Inr (True, Some (1, wire)) \<and>
    relay_loop wire = ([(ipv4_str 16909060, nat 4711)], None) \<and>
    (\<forall>cf a. spider_receiver cf [(unregister_transport 2 (br_register (replicate 16 6) ''9.9.9.9'' 1 2 (br_register (replicate 16 5) ''5.6.7.8'' 4662 1
        (registry_new 16))), a,
        0xE4 # of_nat KADEMLIA_CALLBACK_REQ # replicate 16 0xFA @ replicate 16 9 @ le_enc 2 4711)] Map.empty = ([], Some NameError))"
proof -
  let ?kid = "replicate 16 5 :: bytes"
  let ?r = "br_register ?kid ''5.6.7.8'' 4662 1 (registry_new 16)"
  let ?r1 = "br_register (replicate 16 6) ''9.9.9.9'' 1 2 ?r"
  from demo_registration obtain p where p: "registration_payload (\<lambda>_. Inl ValueError) demo_customer = Inr p" ..
  have c: "bc_kad_id demo_customer = ?kid" "bc_userhash demo_customer = replicate 16 7" "bc_tcp_port demo_customer = 4662"
    by (simp_all add: demo_customer_def buddy_customer_new_def)
  have x: "xor_mask ?kid = replicate 16 0xFA" by (simp add: xor_mask_def)
  have ne: "(replicate 16 6 :: bytes) \<noteq> ?kid" "(replicate 16 6 :: bytes) \<noteq> xor_mask ?kid"
    by (simp_all add: x replicate_eq_replicate)
  have "other_client ?kid 1 ?r ?r1" by (rule oc_register [OF ne])
  moreover have "other_client ?kid 1 ?r1 (unregister_transport 2 ?r1)" by (rule oc_unregister) simp
  ultimately have steps: "(other_client ?kid 1)\<^sup>*\<^sup>* ?r (unregister_transport 2 ?r1)"
    by (meson rtranclp.rtrancl_into_rtrancl rtranclp.rtrancl_refl)
  have req: "build_kad_callback_req_payload (replicate 16 0xFA) (replicate 16 9) 4711 = Inr (replicate 16 0xFA @ replicate 16 9 @ le_enc 2 4711)"
    by (simp add: build_kad_callback_req_payload_def)
  have e: "relay_loop [] = ([], None)" by (subst relay_loop.simps) (simp add: bc_read_frame_def)
  from callback_relay_unreached [OF p, where r = "unregister_transport 2 ?r1" and u = "replicate 16 0xFA" and w = 1
      and writable = "\<lambda>_. True" and n = 16909060 and unpack_u = "\<lambda>_. ()", unfolded c, OF _ registry_ok_new steps _ req]
  obtain tags wire where "parse_hello (\<lambda>_. ()) p = Inr (replicate 16 7, 1, nat 4662, AMULED, 0x3C, tags)"
    "buddy_tag_id tags = Some ?kid"
    "relay_op_callback (\<lambda>_. True) (replicate 16 0xFA) (replicate 16 9) (ipv4_str 16909060) (int (nat 4711))
       (unregister_transport 2 ?r1) = Inr (True, Some (1, wire))"
    "\<forall>inp. relay_loop (wire @ inp) = ((ipv4_str 16909060, nat 4711) # fst (relay_loop inp), snd (relay_loop inp))"
    "\<forall>cf before a ds nodes. spider_receiver cf (before @ (unregister_transport 2 ?r1, a,
        0xE4 # of_nat KADEMLIA_CALLBACK_REQ # replicate 16 0xFA @ replicate 16 9 @ le_enc 2 4711) # ds) nodes =
        (fst (spider_receiver cf before nodes),
         Some (case snd (spider_receiver cf before nodes) of None \<Rightarrow> NameError | Some e \<Rightarrow> e))"
    using x by auto
  moreover from this(5) have "spider_receiver cf [(unregister_transport 2 ?r1, a,
        0xE4 # of_nat KADEMLIA_CALLBACK_REQ # replicate 16 0xFA @ replicate 16 9 @ le_enc 2 4711)] Map.empty = ([], Some NameError)"
    for cf a
    by (metis append_Nil fst_conv option.case(1) snd_conv spider_receiver.simps(1))
  moreover from calculation(4) have "relay_loop wire = ([(ipv4_str 16909060, nat 4711)], None)"
    using e by (metis append_Nil2 fst_conv snd_conv)
  ultimately show ?thesis by blast
qed

end
