(* ===== verification/Kad_Tags.thy ===== *)
theory Kad_Tags
  imports Typed_Read Kad_Packets Ed2k_Hash
begin

text \<open>
  The wire side of \<open>core/kad/search.py\<close>: the payloads a keyword search sends, the forward-only tag
  reader, and the parsers of \<open>KADEMLIA2_SEARCH_RES\<close> and \<open>KADEMLIA2_RES\<close>. A tag's value is one of the
  Python types of \<^theory_text>\<open>Tag_Codec\<close>; the binary32 conversions are arguments (\<open>unpack_f\<close>, \<open>pack_f\<close>).
\<close>

section \<open>Requests\<close>

definition KADEMLIA2_REQ :: nat where "KADEMLIA2_REQ = 0x21"
definition KADEMLIA2_RES :: nat where "KADEMLIA2_RES = 0x29"
definition KADEMLIA2_SEARCH_KEY_REQ :: nat where "KADEMLIA2_SEARCH_KEY_REQ = 0x33"
definition KADEMLIA2_SEARCH_SOURCE_REQ :: nat where "KADEMLIA2_SEARCH_SOURCE_REQ = 0x34"
definition KADEMLIA2_SEARCH_RES :: nat where "KADEMLIA2_SEARCH_RES = 0x3B"

definition keyword_target :: "(bytes \<Rightarrow> bytes) \<Rightarrow> ustr \<Rightarrow> kad_id res" where
  "keyword_target md4 query =
     (case utf8_encode query of None \<Rightarrow> Inl UnicodeError | Some e \<Rightarrow> from_be_bytes (md4_digest md4 e))"

definition build_search_key_req :: "kad_id \<Rightarrow> bytes" where
  "build_search_key_req target = kad_to_bytes target @ le_enc 2 0"

definition build_kad2_req :: "kad_id \<Rightarrow> int \<Rightarrow> kad_id \<Rightarrow> bytes" where
  "build_kad2_req target max_contacts receiver_id =
     (let by_type = max 1 (min max_contacts 0x1F) in
      [word_of_int by_type] @ kad_to_bytes target @ kad_to_bytes receiver_id)"

section \<open>The tag reader\<close>

record tag_reader =
  tr_data :: bytes
  tr_off :: nat
  tr_end :: nat

definition tr_new :: "bytes \<Rightarrow> nat \<Rightarrow> tag_reader" where
  "tr_new data off = \<lparr>tr_data = data, tr_off = off, tr_end = length data\<rparr>"

definition tr_at_end :: "tag_reader \<Rightarrow> bool" where
  "tr_at_end r \<longleftrightarrow> tr_off r \<ge> tr_end r"

definition tr_read :: "nat \<Rightarrow> tag_reader \<Rightarrow> (bytes \<times> tag_reader) res" where
  "tr_read n r =
     (if tr_off r + n > tr_end r then Inl KadSearchError
      else Inr (py_slice (tr_off r) (tr_off r + n) (tr_data r), r\<lparr>tr_off := tr_off r + n\<rparr>))"

text \<open>\<open>struct.unpack_from(fmt, self._read(n))\<close>, and the unpacking \<open>(b,) = self._read(1)\<close>.\<close>

definition tr_uint :: "nat \<Rightarrow> tag_reader \<Rightarrow> (nat \<times> tag_reader) res" where
  "tr_uint n r = bindE (tr_read n r) (\<lambda>(b, r1). bindE (unpack_le n b) (\<lambda>v. Inr (v, r1)))"

definition tr_byte :: "tag_reader \<Rightarrow> (nat \<times> tag_reader) res" where
  "tr_byte r = bindE (tr_read 1 r) (\<lambda>(b, r1). case b of [x] \<Rightarrow> Inr (unat x, r1) | _ \<Rightarrow> Inl ValueError)"

type_synonym 'f kad_tag = "bytes \<times> int \<times> 'f tag_value"

definition tr_value :: "(bytes \<Rightarrow> 'f) \<Rightarrow> int \<Rightarrow> tag_reader \<Rightarrow> ('f tag_value \<times> tag_reader) res" where
  "tr_value unpack_f by_type r =
     (if by_type = HASH16 then bindE (tr_read 16 r) (\<lambda>(b, r1). Inr (VBytes b, r1))
      else if by_type = STRING then
        bindE (tr_uint 2 r) (\<lambda>(slen, r1). bindE (tr_read slen r1) (\<lambda>(b, r2). Inr (VStr (utf8_replace b), r2)))
      else if by_type = UINT64 then bindE (tr_uint 8 r) (\<lambda>(v, r1). Inr (VInt (int v), r1))
      else if by_type = UINT32 then bindE (tr_uint 4 r) (\<lambda>(v, r1). Inr (VInt (int v), r1))
      else if by_type = UINT16 then bindE (tr_uint 2 r) (\<lambda>(v, r1). Inr (VInt (int v), r1))
      else if by_type = UINT8 then bindE (tr_byte r) (\<lambda>(v, r1). Inr (VInt (int v), r1))
      else if by_type = FLOAT32 then bindE (tr_read 4 r) (\<lambda>(b, r1). Inr (VFloat (unpack_f b), r1))
      else if by_type = BSOB then
        bindE (tr_uint 1 r) (\<lambda>(n, r1). bindE (tr_read n r1) (\<lambda>(b, r2). Inr (VBytes b, r2)))
      else if by_type = BOOL then bindE (tr_read 1 r) (\<lambda>(b, r1). Inr (VBytes b, r1))
      else Inl KadSearchError)"

definition decode_kad_tag :: "(bytes \<Rightarrow> 'f) \<Rightarrow> tag_reader \<Rightarrow> ('f kad_tag \<times> tag_reader) res" where
  "decode_kad_tag unpack_f r =
     bindE (tr_byte r) (\<lambda>(by_type, r1).
     bindE (tr_uint 2 r1) (\<lambda>(name_len, r2).
     bindE (tr_read name_len r2) (\<lambda>(name, r3).
     bindE (tr_value unpack_f (int by_type) r3) (\<lambda>(v, r4). Inr ((name, int by_type, v), r4)))))"

fun decode_kad_tags :: "(bytes \<Rightarrow> 'f) \<Rightarrow> nat \<Rightarrow> tag_reader \<Rightarrow> ('f kad_tag list \<times> tag_reader) res" where
  "decode_kad_tags unpack_f 0 r = Inr ([], r)"
| "decode_kad_tags unpack_f (Suc n) r =
     (if tr_at_end r then Inl KadSearchError
      else bindE (decode_kad_tag unpack_f r) (\<lambda>(t, r1).
           bindE (decode_kad_tags unpack_f n r1) (\<lambda>(ts, r2). Inr (t # ts, r2))))"

definition read_kad_tag_list :: "(bytes \<Rightarrow> 'f) \<Rightarrow> bytes \<Rightarrow> nat \<Rightarrow> ('f kad_tag list \<times> nat) res" where
  "read_kad_tag_list unpack_f data off =
     (if off \<ge> length data then Inl KadSearchError
      else bindE (unpack_le 1 (py_slice off (off + 1) data)) (\<lambda>n.
           bindE (decode_kad_tags unpack_f n (tr_new data (off + 1))) (\<lambda>(tags, r). Inr (tags, tr_off r))))"

section \<open>The answers of a search\<close>

text \<open>
  The re-encoding for \<open>raw_tags\<close>. A decoded value has the Python type that belongs to its tag type
  (\<open>decoded_typed\<close> below), so the other combinations of the last branches do not occur.
\<close>

definition encode_tag_for_raw :: "('f \<Rightarrow> bytes res) \<Rightarrow> 'f kad_tag \<Rightarrow> bytes res" where
  "encode_tag_for_raw pack_f t =
     (case t of (name, ty, v) \<Rightarrow>
        bindE (pack_le 2 (length name)) (\<lambda>nl.
        bindE (if ty = STRING then
                 (case v of
                    VStr s \<Rightarrow> (case utf8_encode s of
                        None \<Rightarrow> Inl UnicodeError
                      | Some enc \<Rightarrow> bindE (pack_le 2 (length enc)) (\<lambda>el. Inr (el @ enc)))
                  | _ \<Rightarrow> Inl TypeError)
               else if ty = UINT64 \<or> ty = UINT32 \<or> ty = UINT16 \<or> ty = UINT8 then
                 (case v of
                    VInt i \<Rightarrow> if i < 0 then Inl StructError
                              else pack_le (if ty = UINT64 then 8 else if ty = UINT32 then 4 else if ty = UINT16 then 2 else 1) (nat i)
                  | _ \<Rightarrow> Inl TypeError)
               else if ty = FLOAT32 then (case v of VFloat x \<Rightarrow> pack_f x | _ \<Rightarrow> Inl TypeError)
               else if ty = BSOB then bindE (py_bytes v) (\<lambda>b. if length b > 0xFF then Inl ValueError else Inr (le_enc 1 (length b) @ b))
               else if ty = HASH16 \<or> ty = BOOL then py_bytes v
               else Inr []) (\<lambda>body.
          Inr (word_of_int ty # nl @ name @ body))))"

record search_item =
  ki_file_hash :: bytes
  ki_name :: ustr
  ki_size :: int
  ki_sources :: int
  ki_raw_tags :: bytes

definition TAGNAME_FILENAME :: bytes where "TAGNAME_FILENAME = [0x01]"
definition TAGNAME_FILESIZE :: bytes where "TAGNAME_FILESIZE = [0x02]"
definition TAGNAME_SOURCES :: bytes where "TAGNAME_SOURCES = [0x15]"

text \<open>One turn of the loop over the tags; the three variables it assigns.\<close>

definition note_tag :: "ustr \<times> int \<times> int \<Rightarrow> 'f kad_tag \<Rightarrow> ustr \<times> int \<times> int" where
  "note_tag acc t =
     (case acc of (name, sz, sources) \<Rightarrow> case t of (tname, _, tvalue) \<Rightarrow>
        case tvalue of
          VStr s \<Rightarrow> if tname = TAGNAME_FILENAME then (s, sz, sources) else acc
        | VInt v \<Rightarrow> if tname = TAGNAME_FILESIZE then (name, v, sources)
                    else if tname = TAGNAME_SOURCES then (name, sz, v) else acc
        | _ \<Rightarrow> acc)"

definition search_item_of :: "('f \<Rightarrow> bytes res) \<Rightarrow> bytes \<Rightarrow> 'f kad_tag list \<Rightarrow> search_item res" where
  "search_item_of pack_f h tags =
     (case foldl note_tag ([], 0, 0) tags of (name, sz, sources) \<Rightarrow>
        bindE (mapE (encode_tag_for_raw pack_f) tags) (\<lambda>raws.
          Inr \<lparr>ki_file_hash = h, ki_name = name, ki_size = sz, ki_sources = sources, ki_raw_tags = concat raws\<rparr>))"

text \<open>
  A list of answers: 16 bytes of key and a tag list each. What is made of an answer is an argument,
  since the source search reads the same list.
\<close>

fun kad_answers :: "(bytes \<Rightarrow> 'f) \<Rightarrow> (bytes \<Rightarrow> 'f kad_tag list \<Rightarrow> 'a res) \<Rightarrow> nat \<Rightarrow> bytes \<Rightarrow> nat \<Rightarrow> 'a list res" where
  "kad_answers unpack_f mk 0 raw off = Inr []"
| "kad_answers unpack_f mk (Suc n) raw off =
     (if off + 16 > length raw then Inl KadSearchError
      else bindE (read_kad_tag_list unpack_f raw (off + 16)) (\<lambda>(tags, off').
           bindE (mk (py_slice off (off + 16) raw) tags) (\<lambda>x.
           bindE (kad_answers unpack_f mk n raw off') (\<lambda>xs. Inr (x # xs)))))"

definition parse_search_res :: "(bytes \<Rightarrow> 'f) \<Rightarrow> (bytes \<Rightarrow> 'f kad_tag list \<Rightarrow> 'a res) \<Rightarrow> bytes \<Rightarrow> 'a list res" where
  "parse_search_res unpack_f mk raw =
     (if length raw < 16 + 16 + 2 then Inl KadSearchError
      else bindE (get_le 2 raw 32) (\<lambda>n. kad_answers unpack_f mk n raw 34))"

definition parse_search_res_answers :: "(bytes \<Rightarrow> 'f) \<Rightarrow> ('f \<Rightarrow> bytes res) \<Rightarrow> bytes \<Rightarrow> search_item list res" where
  "parse_search_res_answers unpack_f pack_f payload = parse_search_res unpack_f (search_item_of pack_f) payload"

section \<open>The contacts of a routing answer\<close>

type_synonym res_contact = "bytes \<times> string \<times> nat \<times> nat \<times> nat"

fun kad2_contacts :: "nat \<Rightarrow> bytes \<Rightarrow> nat \<Rightarrow> res_contact list res" where
  "kad2_contacts 0 raw off = Inr []"
| "kad2_contacts (Suc n) raw off =
     (if off + 16 + 4 + 2 + 2 + 1 > length raw then Inl KadSearchError
      else
        bindE (get_le 4 raw (off + 16)) (\<lambda>ip.
        bindE (get_le 2 raw (off + 20)) (\<lambda>udp_port.
        bindE (get_le 2 raw (off + 22)) (\<lambda>tcp_port.
        bindE (byte_at raw (off + 24)) (\<lambda>version.
        bindE (kad2_contacts n raw (off + 25)) (\<lambda>cs.
          Inr ((py_slice off (off + 16) raw, ipv4_str ip, udp_port, tcp_port, version) # cs)))))))"

definition parse_kad2_res :: "bytes \<Rightarrow> res_contact list res" where
  "parse_kad2_res raw =
     (if length raw < 16 + 1 then Inl KadSearchError
      else bindE (get_le 1 raw 16) (\<lambda>n. kad2_contacts n raw 17))"

section \<open>Reading what was written\<close>

text \<open>\<open>tr_gives g b x\<close>: wherever the bytes \<open>b\<close> stand in the data, \<open>g\<close> reads just them and returns \<open>x\<close>.\<close>

definition tr_at :: "bytes \<Rightarrow> bytes \<Rightarrow> tag_reader" where
  "tr_at pre post = \<lparr>tr_data = pre @ post, tr_off = length pre, tr_end = length pre + length post\<rparr>"

definition tr_gives :: "(tag_reader \<Rightarrow> ('a \<times> tag_reader) res) \<Rightarrow> bytes \<Rightarrow> 'a \<Rightarrow> bool" where
  "tr_gives g b x \<longleftrightarrow> (\<forall>pre post. g (tr_at pre (b @ post)) = Inr (x, tr_at (pre @ b) post))"

lemma tr_givesD: "tr_gives g b x \<Longrightarrow> g (tr_at pre (b @ post)) = Inr (x, tr_at (pre @ b) post)"
  by (simp add: tr_gives_def)

lemma tr_gives_bind:
  "tr_gives g a x \<Longrightarrow> tr_gives (h x) b y \<Longrightarrow> tr_gives (\<lambda>r. bindE (g r) (\<lambda>(x, r1). h x r1)) (a @ b) y"
  by (simp add: tr_gives_def)

lemma tr_gives_map: "tr_gives g a x \<Longrightarrow> tr_gives (\<lambda>r. bindE (g r) (\<lambda>(x, r1). Inr (f x, r1))) a (f x)"
  by (simp add: tr_gives_def)

lemma tr_gives_read: "length b = n \<Longrightarrow> tr_gives (tr_read n) b b"
  by (auto simp: tr_gives_def tr_read_def tr_at_def py_slice_def)

lemma tr_gives_uint: "v < 256 ^ n \<Longrightarrow> tr_gives (tr_uint n) (le_enc n v) v"
  unfolding tr_gives_def tr_uint_def by (simp add: tr_givesD [OF tr_gives_read] unpack_le_enc)

lemma tr_gives_byte: "v < 256 \<Longrightarrow> tr_gives tr_byte [word_of_nat v] v"
  unfolding tr_gives_def tr_byte_def
  using tr_givesD [OF tr_gives_read [of "[word_of_nat v]" 1]] by (simp add: unat_small)


text \<open>A tag as the reader can return it: the value has the Python type of the tag type.\<close>

definition kad_tag_ok :: "(bytes \<Rightarrow> 'f) \<Rightarrow> ('f \<Rightarrow> bytes res) \<Rightarrow> 'f kad_tag \<Rightarrow> bool" where
  "kad_tag_ok uf pf t \<longleftrightarrow>
     (case t of (name, ty, v) \<Rightarrow> length name < 2 ^ 16 \<and>
        (case v of
           VStr s \<Rightarrow> ty = STRING \<and> (case utf8_encode s of None \<Rightarrow> False | Some e \<Rightarrow> length e < 2 ^ 16)
         | VInt i \<Rightarrow> 0 \<le> i \<and> (ty = UINT8 \<and> i < 2 ^ 8 \<or> ty = UINT16 \<and> i < 2 ^ 16 \<or> ty = UINT32 \<and> i < 2 ^ 32 \<or> ty = UINT64 \<and> i < 2 ^ 64)
         | VBytes b \<Rightarrow> ty = HASH16 \<and> length b = 16 \<or> ty = BSOB \<and> length b < 256 \<or> ty = BOOL \<and> length b = 1
         | VFloat x \<Rightarrow> ty = FLOAT32 \<and> (case pf x of Inl _ \<Rightarrow> False | Inr b \<Rightarrow> length b = 4 \<and> uf b = x)
         | _ \<Rightarrow> False))"

lemma tr_gives_value:
  assumes "kad_tag_ok uf pf (name, ty, v)" and "encode_tag_for_raw pf (name, ty, v) = Inr b"
  shows "\<exists>body. b = word_of_int ty # le_enc 2 (length name) @ name @ body \<and> 0 \<le> ty \<and> ty < 256 \<and> tr_gives (tr_value uf ty) body v"
proof (cases v)
  case (VInt i)
  define n :: nat where "n = (if ty = UINT64 then 8 else if ty = UINT32 then 4 else if ty = UINT16 then 2 else 1)"
  have ok: "0 \<le> i" "nat i < 256 ^ n" and ty: "ty = UINT8 \<or> ty = UINT16 \<or> ty = UINT32 \<or> ty = UINT64"
    using assms(1) VInt by (auto simp: kad_tag_ok_def n_def tag_consts nat_less_iff)
  have b: "b = word_of_int ty # le_enc 2 (length name) @ name @ le_enc n (nat i)"
    using assms VInt ok ty by (auto simp: encode_tag_for_raw_def pack_le_def n_def kad_tag_ok_def tag_consts split: if_splits)
  have "tr_gives (tr_value uf ty) (le_enc n (nat i)) (VInt i)"
  proof (cases "ty = UINT8")
    case True
    then have n: "n = 1" and s: "nat i < 256" using ok by (simp_all add: n_def tag_consts)
    have e: "le_enc n (nat i) = [word_of_nat (nat i)]" using s by (simp add: n)
    show ?thesis unfolding e using tr_gives_map [OF tr_gives_byte [OF s], of "\<lambda>v. VInt (int v)"] True ok(1)
      by (simp add: tr_value_def [abs_def] tag_consts)
  next
    case False
    with ty have "tr_value uf ty = (\<lambda>r. bindE (tr_uint n r) (\<lambda>(v, r1). Inr (VInt (int v), r1)))"
      by (auto simp: tr_value_def n_def tag_consts fun_eq_iff)
    with tr_gives_map [OF tr_gives_uint [OF ok(2)], of "\<lambda>v. VInt (int v)"] ok(1) show ?thesis by simp
  qed
  with b ty VInt show ?thesis by (auto simp: tag_consts)
next
  case (VStr s)
  then obtain e where e: "utf8_encode s = Some e" "length e < 256 ^ 2" and ty: "ty = STRING"
    using assms(1) by (auto simp: kad_tag_ok_def split: option.splits)
  have r: "utf8_replace e = s" by (rule utf8_replace_decode, rule utf8_decode_encode, rule e)
  have b: "b = word_of_int ty # le_enc 2 (length name) @ name @ le_enc 2 (length e) @ e"
    using assms VStr e ty by (auto simp: encode_tag_for_raw_def pack_le_def kad_tag_ok_def tag_consts split: if_splits)
  have "tr_gives (tr_value uf ty) (le_enc 2 (length e) @ e) (VStr s)"
    using tr_gives_bind [OF tr_gives_uint [OF e(2)], of "\<lambda>n r1. bindE (tr_read n r1) (\<lambda>(b, r2). Inr (VStr (utf8_replace b), r2))", OF tr_gives_map [OF tr_gives_read [OF refl]]] ty r
    by (simp add: tr_value_def [abs_def] tag_consts)
  with b ty VStr show ?thesis by (auto simp: tag_consts)
next
  case (VBytes d)
  then consider "ty = HASH16" "length d = 16" | "ty = BSOB" "length d < 256 ^ 1" | "ty = BOOL" "length d = 1"
    using assms(1) by (auto simp: kad_tag_ok_def)
  then show ?thesis
  proof cases
    case 1
    moreover have "tr_gives (tr_value uf ty) d (VBytes d)"
      using tr_gives_map [OF tr_gives_read [OF 1(2)], of VBytes] 1 by (simp add: tr_value_def [abs_def] tag_consts)
    ultimately show ?thesis
      using assms VBytes by (auto simp: encode_tag_for_raw_def pack_le_def kad_tag_ok_def tag_consts split: if_splits)
  next
    case 2
    moreover have "tr_gives (tr_value uf ty) (le_enc 1 (length d) @ d) (VBytes d)"
      using tr_gives_bind [OF tr_gives_uint [OF 2(2)], of "\<lambda>n r1. bindE (tr_read n r1) (\<lambda>(b, r2). Inr (VBytes b, r2))", OF tr_gives_map [OF tr_gives_read [OF refl]]] 2
      by (simp add: tr_value_def [abs_def] tag_consts)
    ultimately show ?thesis
      using assms VBytes by (auto simp: encode_tag_for_raw_def pack_le_def kad_tag_ok_def tag_consts split: if_splits)
  next
    case 3
    moreover have "tr_gives (tr_value uf ty) d (VBytes d)"
      using tr_gives_map [OF tr_gives_read [OF 3(2)], of VBytes] 3 by (simp add: tr_value_def [abs_def] tag_consts)
    ultimately show ?thesis
      using assms VBytes by (auto simp: encode_tag_for_raw_def pack_le_def kad_tag_ok_def tag_consts split: if_splits)
  qed
next
  case (VFloat x)
  then obtain d where d: "pf x = Inr d" "length d = 4" "uf d = x" and ty: "ty = FLOAT32"
    using assms(1) by (auto simp: kad_tag_ok_def split: sum.splits)
  have "tr_gives (tr_value uf ty) d (VFloat x)"
    using tr_gives_map [OF tr_gives_read [OF d(2)], of "\<lambda>b. VFloat (uf b)"] ty d by (simp add: tr_value_def [abs_def] tag_consts)
  with assms VFloat d ty show ?thesis
    by (auto simp: encode_tag_for_raw_def pack_le_def kad_tag_ok_def tag_consts split: if_splits)
qed (use assms(1) in \<open>auto simp: kad_tag_ok_def\<close>)

lemma tr_gives_tag:
  assumes "kad_tag_ok uf pf t" and "encode_tag_for_raw pf t = Inr b"
  shows "tr_gives (decode_kad_tag uf) b t" and "b \<noteq> []"
proof -
  obtain name ty v where t: "t = (name, ty, v)" by (cases t)
  from tr_gives_value [OF assms [unfolded t]] obtain body where
    b: "b = [word_of_nat (nat ty)] @ le_enc 2 (length name) @ name @ body" and ty: "0 \<le> ty" "nat ty < 256"
    and body: "tr_gives (tr_value uf ty) body v"
    by auto
  have nl: "length name < 256 ^ 2" using assms(1) t by (simp add: kad_tag_ok_def)
  have body': "tr_gives (tr_value uf (int (nat ty))) body v" using body ty(1) by simp
  have "tr_gives (decode_kad_tag uf) b (name, int (nat ty), v)"
    unfolding b decode_kad_tag_def [abs_def]
    apply (rule tr_gives_bind [OF tr_gives_byte [OF ty(2)]])
    apply (rule tr_gives_bind [OF tr_gives_uint [OF nl]])
    apply (rule tr_gives_bind [OF tr_gives_read [OF refl]])
    apply (rule tr_gives_map [OF body'])
    done
  then show "tr_gives (decode_kad_tag uf) b t" using t ty(1) by simp
  show "b \<noteq> []" by (simp add: b)
qed


lemma tr_at_end_at [simp]: "tr_at_end (tr_at pre post) \<longleftrightarrow> post = []"
  by (simp add: tr_at_end_def tr_at_def)

lemma tr_gives_tags:
  "list_all (kad_tag_ok uf pf) tags \<Longrightarrow> mapE (encode_tag_for_raw pf) tags = Inr raws \<Longrightarrow>
   tr_gives (decode_kad_tags uf (length tags)) (concat raws) tags"
proof (induction tags arbitrary: raws)
  case Nil
  then show ?case by (simp add: tr_gives_def)
next
  case (Cons t tags)
  from Cons.prems(2) obtain b bs where b: "encode_tag_for_raw pf t = Inr b" and bs: "mapE (encode_tag_for_raw pf) tags = Inr bs"
    and raws: "raws = b # bs"
    by (auto simp: bindE_eq_Inr_conv)
  have tok: "kad_tag_ok uf pf t" using Cons.prems(1) by simp
  have ih: "tr_gives (decode_kad_tags uf (length tags)) (concat bs) tags" using Cons.IH Cons.prems(1) bs by simp
  show ?case unfolding tr_gives_def
  proof (intro allI)
    fix pre post
    show "decode_kad_tags uf (length (t # tags)) (tr_at pre (concat raws @ post)) = Inr (t # tags, tr_at (pre @ concat raws) post)"
      using tr_givesD [OF tr_gives_tag(1) [OF tok b], of pre "concat bs @ post"] tr_givesD [OF ih, of "pre @ b" post]
        tr_gives_tag(2) [OF tok b]
      by (simp add: raws)
  qed
qed

text \<open>The wire form of an answer, and of the whole payload; \<open>raws\<close> are the encoded tags.\<close>

definition answer_bytes :: "bytes \<Rightarrow> bytes list \<Rightarrow> bytes" where
  "answer_bytes h raws = h @ [word_of_nat (length raws)] @ concat raws"

definition answer_ok :: "(bytes \<Rightarrow> 'f) \<Rightarrow> ('f \<Rightarrow> bytes res) \<Rightarrow> bytes \<times> 'f kad_tag list \<times> bytes list \<Rightarrow> bool" where
  "answer_ok uf pf a \<longleftrightarrow>
     (case a of (h, tags, raws) \<Rightarrow> length h = 16 \<and> length tags < 256 \<and> list_all (kad_tag_ok uf pf) tags \<and>
        mapE (encode_tag_for_raw pf) tags = Inr raws)"

lemma mapE_length: "mapE f xs = Inr ys \<Longrightarrow> length ys = length xs"
  by (induction xs arbitrary: ys) (auto simp: bindE_eq_Inr_conv)

lemma read_tag_list_gives:
  assumes "tr_gives (decode_kad_tags uf n) enc tags" and "n < 256" and "drop off data = word_of_nat n # enc @ post"
  shows "read_kad_tag_list uf data off = Inr (tags, off + 1 + length enc)"
    and "drop (off + 1 + length enc) data = post"
proof -
  let ?n = "word_of_nat n :: byte"
  have off: "off < length data" using assms(3) by (metis drop_all leI list.distinct(1))
  have sl: "py_slice off (off + 1) data = [?n]" using assms(3) by (simp add: py_slice_def)
  have d1: "drop (off + 1) data = enc @ post" using arg_cong [OF assms(3), of "drop 1"] by (simp add: add.commute)
  have e1: "data = take (off + 1) data @ enc @ post" by (metis append_take_drop_id d1)
  have at: "tr_new data (off + 1) = tr_at (take (off + 1) data) (enc @ post)"
  proof -
    have l: "length (take (off + 1) data) = off + 1" using off by simp
    have "length data = (off + 1) + length (enc @ post)" using arg_cong [OF e1, of length] l by simp
    then show ?thesis using e1 l by (simp add: tr_new_def tr_at_def)
  qed
  have "unpack_le 1 [?n] = Inr n" using assms(2) by (simp add: unpack_le_def unat_small)
  then show "read_kad_tag_list uf data off = Inr (tags, off + 1 + length enc)"
    using off by (simp add: read_kad_tag_list_def sl [simplified] at [simplified] tr_givesD [OF assms(1)])
      (simp add: tr_at_def off Suc_leI)
  show "drop (off + 1 + length enc) data = post" using d1 by (metis add.commute append_eq_conv_conj drop_drop)
qed

lemma read_tag_list_at:
  assumes "list_all (kad_tag_ok uf pf) tags" and "length tags < 256" and "mapE (encode_tag_for_raw pf) tags = Inr raws"
    and "drop off data = word_of_nat (length raws) # concat raws @ post"
  shows "read_kad_tag_list uf data off = Inr (tags, off + 1 + length (concat raws))"
    and "drop (off + 1 + length (concat raws)) data = post"
proof -
  have "length raws = length tags" by (rule mapE_length [OF assms(3)])
  note g = read_tag_list_gives [OF tr_gives_tags [OF assms(1,3)] assms(2) assms(4) [unfolded this]]
  from g show "read_kad_tag_list uf data off = Inr (tags, off + 1 + length (concat raws))"
    and "drop (off + 1 + length (concat raws)) data = post" .
qed

lemma kad_answers_at:
  assumes "list_all (answer_ok uf pf) es" and "drop off raw = concat (map (\<lambda>(h, tags, raws). answer_bytes h raws) es) @ post"
  shows "kad_answers uf mk (length es) raw off = mapE (\<lambda>(h, tags, raws). mk h tags) es"
  using assms
proof (induction es arbitrary: off)
  case Nil
  then show ?case by simp
next
  case (Cons e es)
  obtain h tags raws where e: "e = (h, tags, raws)" by (cases e)
  have ok: "length h = 16" "list_all (kad_tag_ok uf pf) tags" "length tags < 256" "mapE (encode_tag_for_raw pf) tags = Inr raws"
    using Cons.prems(1) e by (simp_all add: answer_ok_def)
  let ?more = "concat (map (\<lambda>(h, tags, raws). answer_bytes h raws) es) @ post"
  have d: "drop off raw = h @ word_of_nat (length raws) # concat raws @ ?more"
    using Cons.prems(2) by (simp add: e answer_bytes_def)
  note sl = py_slice_prefix [OF d ok(1), simplified]
  note tl' = read_tag_list_at [OF ok(2,3,4) sl(2)]
  have ih: "kad_answers uf mk (length es) raw (17 + off + length (concat raws)) = mapE (\<lambda>(h, tags, raws). mk h tags) es"
    using Cons.IH [of "off + 16 + 1 + length (concat raws)"] Cons.prems(1) tl'(2) by (simp add: ac_simps)
  show ?case using sl(3) by (simp add: e sl(1) tl'(1) ih)
qed

text \<open>A payload whose answers are encoded tag lists is read back answer by answer.\<close>

lemma search_res_layout:
  assumes "length source = 16" and "length target = 16" and "length es < 2 ^ 16" and "list_all (answer_ok uf pf) es"
  shows "parse_search_res uf mk (source @ target @ le_enc 2 (length es) @ concat (map (\<lambda>(h, tags, raws). answer_bytes h raws) es) @ post)
    = mapE (\<lambda>(h, tags, raws). mk h tags) es"
    (is "parse_search_res uf mk ?raw = _")
proof -
  have d: "drop 32 ?raw = le_enc 2 (length es) @ (concat (map (\<lambda>(h, tags, raws). answer_bytes h raws) es) @ post)"
    using assms(1,2) by simp
  have n: "length es < 256 ^ 2" using assms(3) by simp
  note g = get_le_enc [OF d n]
  show ?thesis
    using g kad_answers_at [OF assms(4), of 34 ?raw post mk] by (simp add: parse_search_res_def assms(1,2))
qed

lemma answers_with_raws:
  "list_all (answer_ok uf pf) es \<Longrightarrow>
   mapE (\<lambda>(h, tags, raws). search_item_of pf h tags) es =
   Inr (map (\<lambda>(h, tags, raws). case foldl note_tag ([], 0, 0) tags of (name, sz, sources) \<Rightarrow>
     \<lparr>ki_file_hash = h, ki_name = name, ki_size = sz, ki_sources = sources, ki_raw_tags = concat raws\<rparr>) es)"
  by (induction es) (auto simp: search_item_of_def answer_ok_def split: prod.splits)

lemma parse_answers_layout:
  assumes "length source = 16" and "length target = 16" and "length es < 2 ^ 16" and "list_all (answer_ok uf pf) es"
  shows "parse_search_res_answers uf pf (source @ target @ le_enc 2 (length es) @ concat (map (\<lambda>(h, tags, raws). answer_bytes h raws) es) @ post)
    = Inr (map (\<lambda>(h, tags, raws). case foldl note_tag ([], 0, 0) tags of (name, sz, sources) \<Rightarrow>
        \<lparr>ki_file_hash = h, ki_name = name, ki_size = sz, ki_sources = sources, ki_raw_tags = concat raws\<rparr>) es)"
  unfolding parse_search_res_answers_def
  by (rule trans [OF search_res_layout [OF assms] answers_with_raws [OF assms(4)]])


section \<open>What the parsers raise\<close>

lemma gives_bindE: "gives E P m \<Longrightarrow> (\<And>x. P x \<Longrightarrow> gives E Q (f x)) \<Longrightarrow> gives E Q (bindE m f)"
  by (cases m) auto

lemma gives_bindE2: "gives E P m \<Longrightarrow> (\<And>x y. P (x, y) \<Longrightarrow> gives E Q (f x y)) \<Longrightarrow> gives E Q (bindE m (\<lambda>(x, y). f x y))"
  by (cases m) auto

definition tr_in :: "nat \<Rightarrow> tag_reader \<Rightarrow> bool" where
  "tr_in n r \<longleftrightarrow> tr_end r = length (tr_data r) \<and> length (tr_data r) = n"

text \<open>The data of a reader stays the same, whatever is read.\<close>

lemma gives_tr_read: "tr_in k r \<Longrightarrow> gives {KadSearchError} (\<lambda>(b, r'). length b = n \<and> tr_in k r') (tr_read n r)"
  by (auto simp: tr_read_def tr_in_def)

lemma gives_tr_uint: "tr_in k r \<Longrightarrow> gives {KadSearchError} (\<lambda>(v, r'). v < 256 ^ n \<and> tr_in k r') (tr_uint n r)"
  unfolding tr_uint_def
  by (rule gives_bindE2 [OF gives_tr_read]) (auto simp: unpack_le_def le_dec_bound)

lemma unat_byte: "unat (b :: byte) < 256"
  using unsigned_less [of b, where ?'a = nat] by simp

lemma gives_tr_byte: "tr_in k r \<Longrightarrow> gives {KadSearchError} (\<lambda>(v, r'). v < 256 \<and> tr_in k r') (tr_byte r)"
  unfolding tr_byte_def
  by (rule gives_bindE2 [OF gives_tr_read, of _ _ 1]) (auto split: list.splits simp: unat_byte)

text \<open>The value belongs to its tag type, and can be encoded again up to the length of a string.\<close>

definition value_fits :: "(bytes \<Rightarrow> 'f) \<Rightarrow> int \<Rightarrow> 'f tag_value \<Rightarrow> bool" where
  "value_fits uf ty v \<longleftrightarrow>
     (case v of
        VStr s \<Rightarrow> ty = STRING \<and> (\<exists>b. length b < 2 ^ 16 \<and> s = utf8_replace b)
      | VInt i \<Rightarrow> 0 \<le> i \<and> (ty = UINT8 \<and> i < 2 ^ 8 \<or> ty = UINT16 \<and> i < 2 ^ 16 \<or> ty = UINT32 \<and> i < 2 ^ 32 \<or> ty = UINT64 \<and> i < 2 ^ 64)
      | VBytes b \<Rightarrow> ty = HASH16 \<and> length b = 16 \<or> ty = BSOB \<and> length b < 256 \<or> ty = BOOL \<and> length b = 1
      | VFloat x \<Rightarrow> ty = FLOAT32 \<and> (\<exists>b. length b = 4 \<and> x = uf b)
      | _ \<Rightarrow> False)"

lemma gives_tr_value:
  assumes "tr_in k r"
  shows "gives {KadSearchError} (\<lambda>(v, r'). value_fits uf ty v \<and> tr_in k r') (tr_value uf ty r)"
proof -
  note rd = gives_tr_read [OF assms] and ui = gives_tr_uint [OF assms] and by' = gives_tr_byte [OF assms]
  have "gives {KadSearchError} (\<lambda>(v, r'). value_fits uf ty v \<and> tr_in k r')
      (bindE (tr_uint 2 r) (\<lambda>(slen, r1). bindE (tr_read slen r1) (\<lambda>(b, r2). Inr (VStr (utf8_replace b), r2))))" if "ty = STRING"
    by (rule gives_bindE2 [OF ui], rule gives_bindE2 [OF gives_tr_read]) (use that in \<open>auto simp: value_fits_def\<close>)
  moreover have "gives {KadSearchError} (\<lambda>(v, r'). value_fits uf ty v \<and> tr_in k r')
      (bindE (tr_uint 1 r) (\<lambda>(n, r1). bindE (tr_read n r1) (\<lambda>(b, r2). Inr (VBytes b, r2))))" if "ty = BSOB"
    by (rule gives_bindE2 [OF ui], rule gives_bindE2 [OF gives_tr_read]) (use that in \<open>auto simp: value_fits_def\<close>)
  moreover have "gives {KadSearchError} (\<lambda>(v, r'). value_fits uf ty v \<and> tr_in k r')
      (bindE (tr_uint n r) (\<lambda>(v, r1). Inr (VInt (int v), r1)))" if "ty = UINT64 \<and> n = 8 \<or> ty = UINT32 \<and> n = 4 \<or> ty = UINT16 \<and> n = 2" for n
    by (rule gives_bindE2 [OF ui]) (use that in \<open>auto simp: value_fits_def\<close>)
  moreover have "gives {KadSearchError} (\<lambda>(v, r'). value_fits uf ty v \<and> tr_in k r')
      (bindE (tr_byte r) (\<lambda>(v, r1). Inr (VInt (int v), r1)))" if "ty = UINT8"
    by (rule gives_bindE2 [OF by']) (use that in \<open>auto simp: value_fits_def\<close>)
  moreover have "gives {KadSearchError} (\<lambda>(v, r'). value_fits uf ty v \<and> tr_in k r')
      (bindE (tr_read n r) (\<lambda>(b, r1). Inr (VBytes b, r1)))" if "ty = HASH16 \<and> n = 16 \<or> ty = BOOL \<and> n = 1" for n
    by (rule gives_bindE2 [OF rd]) (use that in \<open>auto simp: value_fits_def\<close>)
  moreover have "gives {KadSearchError} (\<lambda>(v, r'). value_fits uf ty v \<and> tr_in k r')
      (bindE (tr_read 4 r) (\<lambda>(b, r1). Inr (VFloat (uf b), r1)))" if "ty = FLOAT32"
    by (rule gives_bindE2 [OF rd]) (use that in \<open>auto simp: value_fits_def\<close>)
  ultimately show ?thesis by (auto simp: tr_value_def tag_consts)
qed

definition kad_tag_decoded :: "(bytes \<Rightarrow> 'f) \<Rightarrow> 'f kad_tag \<Rightarrow> bool" where
  "kad_tag_decoded uf t \<longleftrightarrow> (case t of (name, ty, v) \<Rightarrow> length name < 2 ^ 16 \<and> value_fits uf ty v)"

lemma gives_kad_tag:
  assumes "tr_in k r"
  shows "gives {KadSearchError} (\<lambda>(t, r'). kad_tag_decoded uf t \<and> tr_in k r') (decode_kad_tag uf r)"
  unfolding decode_kad_tag_def
  by (rule gives_bindE2 [OF gives_tr_byte [OF assms]], rule gives_bindE2 [OF gives_tr_uint [of k]], simp,
      rule gives_bindE2 [OF gives_tr_read [of k]], simp, rule gives_bindE2 [OF gives_tr_value [of k]])
    (auto simp: kad_tag_decoded_def)

lemma gives_kad_tags:
  "tr_in k r \<Longrightarrow> gives {KadSearchError} (\<lambda>(ts, r'). list_all (kad_tag_decoded uf) ts \<and> tr_in k r') (decode_kad_tags uf n r)"
proof (induction n arbitrary: r)
  case 0
  then show ?case by simp
next
  case (Suc n)
  have "gives {KadSearchError} (\<lambda>(ts, r'). list_all (kad_tag_decoded uf) ts \<and> tr_in k r')
      (bindE (decode_kad_tag uf r) (\<lambda>(t, r1). bindE (decode_kad_tags uf n r1) (\<lambda>(ts, r2). Inr (t # ts, r2))))"
    by (rule gives_bindE2 [OF gives_kad_tag [OF Suc.prems]], rule gives_bindE2 [OF Suc.IH]) auto
  then show ?case by simp
qed

lemma gives_tag_list: "gives {KadSearchError} (\<lambda>(ts, _). list_all (kad_tag_decoded uf) ts) (read_kad_tag_list uf data off)"
proof (cases "off < length data")
  case True
  have t: "tr_in (length data) (tr_new data (off + 1))" by (simp add: tr_in_def tr_new_def)
  have "gives {KadSearchError} (\<lambda>(ts, _). list_all (kad_tag_decoded uf) ts)
      (bindE (decode_kad_tags uf n (tr_new data (off + 1))) (\<lambda>(tags, r). Inr (tags, tr_off r)))" for n
    by (rule gives_bindE2 [OF gives_kad_tags [OF t]]) auto
  moreover have "length (py_slice off (off + 1) data) = 1" using True by simp
  ultimately show ?thesis using True unfolding read_kad_tag_list_def unpack_le_def by simp
qed (simp add: read_kad_tag_list_def)


text \<open>Encoding a decoded tag again fails for one reason: a text that grew beyond 65535 bytes.\<close>

definition scalar :: "nat \<Rightarrow> bool" where
  "scalar c \<longleftrightarrow> c < 0xD800 \<or> (0xE000 \<le> c \<and> c < 0x110000)"

lemma scalar_encodes: "list_all scalar s \<Longrightarrow> \<exists>e. utf8_encode s = Some e"
proof (induction s)
  case Nil
  then show ?case by simp
next
  case (Cons c s)
  then obtain e where e: "utf8_encode s = Some e" by auto
  have "utf8_cp c \<noteq> None" using Cons.prems by (auto simp: scalar_def utf8_cp_def)
  with e show ?case by auto
qed

lemma scalar_2: "n < 0xE0 \<Longrightarrow> is_cont b \<Longrightarrow> scalar ((n - 0xC0) * 64 + cont_val b)"
  using cont_val_bounds [of b] by (auto simp: scalar_def)

lemma scalar_3:
  assumes "n < 0xF0" and "0xE0 \<le> n" and "utf8_second_ok n b1" and "is_cont b2"
  shows "scalar ((n - 0xE0) * 4096 + cont_val b1 * 64 + cont_val b2)"
proof -
  have c1: "is_cont b1" using assms(3) by (simp add: utf8_second_ok_def)
  note b = cont_val_bounds [OF c1] cont_val_bounds [OF assms(4)]
  consider "n < 0xED" | "n = 0xED" | "n = 0xEE" | "n = 0xEF" using assms(1) by linarith
  then show ?thesis
  proof cases
    case 2
    with assms(3) b have "cont_val b1 < 0x20" by (auto simp: utf8_second_ok_def)
    with 2 b show ?thesis by (simp add: scalar_def)
  qed (use b in \<open>auto simp: scalar_def\<close>)
qed

lemma scalar_4:
  assumes "n < 0xF5" and "0xF0 \<le> n" and "utf8_second_ok n b1" and "is_cont b2" and "is_cont b3"
  shows "scalar ((n - 0xF0) * 262144 + cont_val b1 * 4096 + cont_val b2 * 64 + cont_val b3)"
proof -
  have c1: "is_cont b1" using assms(3) by (simp add: utf8_second_ok_def)
  note b = cont_val_bounds [OF c1] cont_val_bounds [OF assms(4)] cont_val_bounds [OF assms(5)]
  consider "n = 0xF0" | "n = 0xF1" | "n = 0xF2" | "n = 0xF3" | "n = 0xF4" using assms(1,2) by linarith
  then show ?thesis
  proof cases
    case 1
    with assms(3) b have "0x10 \<le> cont_val b1" by (auto simp: utf8_second_ok_def)
    with 1 b show ?thesis by (simp add: scalar_def)
  next
    case 5
    with assms(3) b have "cont_val b1 < 0x10" by (auto simp: utf8_second_ok_def)
    with 5 b show ?thesis by (simp add: scalar_def)
  qed (use b in \<open>auto simp: scalar_def\<close>)
qed

lemma scalar_replacement [simp]: "scalar 0xFFFD"
  by (simp add: scalar_def)

lemma replace_scalar: "list_all scalar (utf8_replace b)"
proof (induction b rule: length_induct)
  case (1 b0)
  show ?case
  proof (cases b0)
    case Nil
    then show ?thesis by simp
  next
    case (Cons b bs)
    have IH: "length r \<le> length bs \<Longrightarrow> list_all scalar (utf8_replace r)" for r
      using "1.IH" Cons by auto
    show ?thesis unfolding Cons utf8_replace.simps(2) Let_def
      by (auto split: list.split simp: IH scalar_2 scalar_3 scalar_4 scalar_def [of "unat b"])
  qed
qed

lemma utf8_encode_replace: "\<exists>e. utf8_encode (utf8_replace b) = Some e"
  by (rule scalar_encodes [OF replace_scalar])

lemma gives_encode_raw:
  assumes "kad_tag_decoded uf t" and pf: "\<And>b. length b = 4 \<Longrightarrow> \<exists>c. pf (uf b) = Inr c"
  shows "gives {StructError} (\<lambda>_. True) (encode_tag_for_raw pf t)"
proof -
  obtain name ty v where t: "t = (name, ty, v)" by (cases t)
  have nl: "pack_le 2 (length name) = Inr (le_enc 2 (length name))" and v: "value_fits uf ty v"
    using assms(1) by (simp_all add: t kad_tag_decoded_def pack_le_def)
  show ?thesis
  proof (cases v)
    case (VInt i)
    with v show ?thesis
      by (auto simp: t encode_tag_for_raw_def nl value_fits_def pack_le_def tag_consts nat_less_iff)
  next
    case (VStr s)
    with v obtain b where s: "s = utf8_replace b" and ty: "ty = STRING" by (auto simp: value_fits_def)
    from utf8_encode_replace [of b] obtain e where "utf8_encode s = Some e" by (auto simp: s)
    with VStr ty show ?thesis by (simp add: t encode_tag_for_raw_def nl pack_le_def)
  next
    case (VBytes b)
    with v show ?thesis by (auto simp: t encode_tag_for_raw_def nl value_fits_def tag_consts)
  next
    case (VFloat x)
    with v obtain b where "length b = 4" "x = uf b" and ty: "ty = FLOAT32" by (auto simp: value_fits_def)
    with pf obtain c where "pf x = Inr c" by auto
    with VFloat ty show ?thesis by (simp add: t encode_tag_for_raw_def nl tag_consts)
  qed (use v in \<open>auto simp: value_fits_def\<close>)
qed

lemma gives_mapE:
  "list_all (\<lambda>x. gives E (\<lambda>_. True) (f x)) xs \<Longrightarrow> gives E (\<lambda>_. True) (mapE f xs)"
proof (induction xs)
  case Nil
  then show ?case by simp
next
  case (Cons x xs)
  then show ?case by (cases "f x"; cases "mapE f xs") auto
qed

lemma gives_search_item:
  assumes "list_all (kad_tag_decoded uf) tags" and "\<And>b. length b = 4 \<Longrightarrow> \<exists>c. pf (uf b) = Inr c"
  shows "gives {StructError} (\<lambda>_. True) (search_item_of pf h tags)"
proof -
  have "gives {StructError} (\<lambda>_. True) (mapE (encode_tag_for_raw pf) tags)"
    by (rule gives_mapE, rule list.pred_mono_strong [OF assms(1)], rule gives_encode_raw, assumption, rule assms(2))
  then show ?thesis unfolding search_item_of_def by (cases "mapE (encode_tag_for_raw pf) tags") (auto split: prod.splits)
qed

lemma gives_kad_answers:
  assumes mk: "\<And>h tags. list_all (kad_tag_decoded uf) tags \<Longrightarrow> gives E P (mk h tags)"
  shows "gives (insert KadSearchError E) (list_all P) (kad_answers uf mk n raw off)"
proof (induction n arbitrary: off)
  case 0
  then show ?case by simp
next
  case (Suc n)
  let ?E = "insert KadSearchError E"
  have tl: "gives ?E (\<lambda>(ts, _). list_all (kad_tag_decoded uf) ts) (read_kad_tag_list uf raw (off + 16))"
    by (rule gives_mono [OF gives_tag_list]) auto
  have "gives ?E (list_all P) (bindE (read_kad_tag_list uf raw (off + 16)) (\<lambda>(tags, off').
           bindE (mk (py_slice off (off + 16) raw) tags) (\<lambda>x.
           bindE (kad_answers uf mk n raw off') (\<lambda>xs. Inr (x # xs)))))"
    by (rule gives_bindE2 [OF tl], rule gives_bindE [OF gives_mono [OF mk]], simp, blast, assumption, rule gives_bindE [OF Suc.IH]) auto
  then show ?case by simp
qed

lemma gives_parse_search_res:
  assumes mk: "\<And>h tags. list_all (kad_tag_decoded uf) tags \<Longrightarrow> gives E P (mk h tags)"
  shows "gives (insert KadSearchError E) (list_all P) (parse_search_res uf mk raw)"
  using gives_kad_answers [OF mk, of uf] by (auto simp: parse_search_res_def get_le_def)

lemma gives_search_answers:
  assumes "\<And>b. length b = 4 \<Longrightarrow> \<exists>c. pf (uf b) = Inr c"
  shows "gives {KadSearchError, StructError} (\<lambda>_. True) (parse_search_res_answers uf pf payload)"
proof -
  have "gives {StructError} (\<lambda>_. True) (search_item_of pf h tags)" if "list_all (kad_tag_decoded uf) tags" for h tags
    by (rule gives_search_item [OF that]) (rule assms)
  from gives_parse_search_res [OF this] show ?thesis
    unfolding parse_search_res_answers_def by (rule gives_mono) auto
qed

lemma gives_kad2_contacts:
  "gives {KadSearchError} (list_all (\<lambda>(i, ip, udp, tcp, ver). length i = 16 \<and> udp < 2 ^ 16 \<and> tcp < 2 ^ 16 \<and> ver < 256)) (kad2_contacts n raw off)"
  (is "gives _ ?P _")
proof (induction n arbitrary: off)
  case 0
  then show ?case by simp
next
  case (Suc n)
  have lt: "le_dec (py_slice a b raw) < 65536" if "b \<le> a + 2" for a b
  proof -
    have "le_dec (py_slice a b raw) < 256 ^ length (py_slice a b raw)" by (rule le_dec_bound)
    also have "\<dots> \<le> 256 ^ 2" by (rule power_increasing) (use that in simp_all)
    finally show ?thesis by simp
  qed
  have step: "gives {KadSearchError} ?P (bindE (kad2_contacts n raw o') (\<lambda>cs. Inr (c # cs)))" if "?P [c]" for c o'
    by (rule gives_bindE [OF Suc.IH]) (use that in auto)
  show ?case
  proof (cases "off + 16 + 4 + 2 + 2 + 1 > length raw")
    case False
    have r: "gives {KadSearchError} ?P (bindE (kad2_contacts n raw (off + 25)) (\<lambda>cs.
        Inr ((py_slice off (off + 16) raw, ipv4_str (le_dec (py_slice (off + 16) (20 + off) raw)),
              le_dec (py_slice (off + 20) (22 + off) raw), le_dec (py_slice (off + 22) (24 + off) raw), unat (raw ! (off + 24))) # cs)))"
      by (rule step) (use False in \<open>simp add: lt unat_byte\<close>)
    then show ?thesis using False by (simp add: get_le_def byte_at_def)
  qed simp
qed

lemma gives_kad2_res:
  "gives {KadSearchError} (list_all (\<lambda>(i, ip, udp, tcp, ver). length i = 16 \<and> udp < 2 ^ 16 \<and> tcp < 2 ^ 16 \<and> ver < 256)) (parse_kad2_res raw)"
  using gives_kad2_contacts by (auto simp: parse_kad2_res_def get_le_def)


section \<open>A text that grows\<close>

lemma tr_gives_text_tag:
  assumes "length name < 2 ^ 16" and "length b < 2 ^ 16"
  shows "tr_gives (decode_kad_tag uf) ([0x02] @ le_enc 2 (length name) @ name @ le_enc 2 (length b) @ b) (name, STRING, VStr (utf8_replace b))"
proof -
  have n: "length name < 256 ^ 2" "length b < 256 ^ 2" using assms by simp_all
  have "tr_gives (tr_value uf (int 2)) (le_enc 2 (length b) @ b) (VStr (utf8_replace b))"
    using tr_gives_bind [OF tr_gives_uint [OF n(2)], of "\<lambda>n r1. bindE (tr_read n r1) (\<lambda>(b, r2). Inr (VStr (utf8_replace b), r2))", OF tr_gives_map [OF tr_gives_read [OF refl]]]
    by (simp add: tr_value_def [abs_def] tag_consts)
  note v = tr_gives_map [OF this, of "\<lambda>v. (name, int 2, v)"]
  have "tr_gives (decode_kad_tag uf) ([word_of_nat 2] @ le_enc 2 (length name) @ name @ le_enc 2 (length b) @ b) (name, int 2, VStr (utf8_replace b))"
    unfolding decode_kad_tag_def [abs_def]
    apply (rule tr_gives_bind [OF tr_gives_byte], simp)
    apply (rule tr_gives_bind [OF tr_gives_uint [OF n(1)]])
    apply (rule tr_gives_bind [OF tr_gives_read [OF refl]])
    apply (rule v)
    done
  then show ?thesis by (simp add: STRING_def)
qed

lemma utf8_replace_invalid: "utf8_replace (replicate n 0xFF) = replicate n 0xFFFD"
proof (induction n)
  case (Suc n)
  have "unat (0xFF :: byte) = 255" by simp
  with Suc show ?case by (simp add: utf8_replace.simps(2))
qed simp

lemma utf8_encode_replacements: "\<exists>e. utf8_encode (replicate n 0xFFFD) = Some e \<and> length e = 3 * n"
proof (induction n)
  case (Suc n)
  then obtain e where "utf8_encode (replicate n 0xFFFD) = Some e" "length e = 3 * n" by blast
  then show ?case by (simp add: utf8_cp_def)
qed simp

lemma long_text_not_encoded:
  assumes "21846 \<le> n" and "length name < 2 ^ 16"
  shows "encode_tag_for_raw pf (name, STRING, VStr (replicate n 0xFFFD)) = Inl StructError"
proof -
  from utf8_encode_replacements [of n] obtain e where e: "utf8_encode (replicate n 0xFFFD) = Some e" "length e = 3 * n" by blast
  then have "\<not> length e < 256 ^ 2" using assms(1) by simp
  with e assms(2) show ?thesis by (simp add: encode_tag_for_raw_def pack_le_def)
qed

text \<open>
  An answer with one text tag of at least 21846 bytes that are not UTF-8: the re-encoding for
  \<open>raw_tags\<close> raises \<open>struct.error\<close>, which is not the error the search catches.
\<close>

definition bad_text_answer :: "bytes \<Rightarrow> bytes \<Rightarrow> bytes \<Rightarrow> nat \<Rightarrow> bytes" where
  "bad_text_answer source target h n =
     source @ target @ le_enc 2 1 @ h @ [1] @ ([0x02] @ le_enc 2 1 @ [0x01] @ le_enc 2 n @ replicate n 0xFF)"

lemma bad_text_struct_error:
  assumes "length source = 16" and "length target = 16" and "length h = 16" and "21846 \<le> n" and "n < 2 ^ 16"
  shows "parse_search_res_answers uf pf (bad_text_answer source target h n) = Inl StructError"
proof -
  let ?raw = "bad_text_answer source target h n"
  let ?b = "replicate n (0xFF :: byte)"
  let ?t = "[0x02] @ le_enc 2 (length [0x01 :: byte]) @ [0x01] @ le_enc 2 (length ?b) @ ?b"
  have d: "drop 32 ?raw = le_enc 2 1 @ (h @ [1] @ ?t)"
    using assms(1,2) by (simp add: bad_text_answer_def)
  have one: "(1 :: nat) < 256 ^ 2" by simp
  note g = get_le_enc [OF d one]
  have d2: "drop 34 ?raw = h @ ([1] @ ?t)" using g(2) by simp
  note sl = py_slice_prefix [OF d2 assms(3)]
  have t1: "tr_gives (decode_kad_tag uf) ?t ([0x01], STRING, VStr (utf8_replace ?b))"
    by (rule tr_gives_text_tag) (use assms(5) in simp_all)
  have ts: "tr_gives (decode_kad_tags uf 1) ?t [([0x01], STRING, VStr (utf8_replace ?b))]"
    using tr_givesD [OF t1] unfolding tr_gives_def by simp
  have "drop (34 + 16) ?raw = word_of_nat 1 # ?t @ []" using sl(2) by simp
  note tl' = read_tag_list_gives(1) [OF ts _ this]
  have enc: "search_item_of pf h [([0x01], STRING, VStr (replicate n 0xFFFD))] = Inl StructError" for h
    by (simp add: search_item_of_def long_text_not_encoded [OF assms(4)] split: prod.splits)
  have len: "34 \<le> length ?raw" "\<not> length ?raw < 50" using sl(3) by simp_all
  show ?thesis
    using g(1) tl' len by (simp add: parse_search_res_answers_def parse_search_res_def utf8_replace_invalid enc)
qed

end
