(* ===== verification/Kad_Lookup.thy ===== *)
theory Kad_Lookup
  imports Kad_Tags Kad_Routing Py_Dict Packet_Codec
begin

text \<open>
  The iterative lookup that \<open>kad_keyword_search\<close>, \<open>kad_file_source_search\<close> and \<open>_lookup_closest\<close> of
  \<open>publish.py\<close> spell out with the same local variables: candidates keyed by distance, three requests
  a turn, strictly closer contacts followed. The local variables of a search are a record that the
  searches extend; a turn of the loop gets what the clock and the socket give it as a record. Sends
  are recorded in \<open>lk_sent\<close>. No search catches the \<open>OSError\<close> of \<open>sock_sendto\<close> (no route, port 0, a broadcast
  address) or of \<open>sock_recvfrom\<close>: \<open>lc_send n a\<close> says whether the \<open>n\<close>-th datagram of a search leaves when it goes to
  \<open>a\<close>, \<open>ti_recv_fails\<close> whether the receive of a turn raises.
\<close>

section \<open>State\<close>

type_synonym node_addr = "string \<times> nat"

text \<open>\<open>RoutingZone\<close> hands out raw identifiers, the pool of the spider \<open>KadUInt128\<close> objects.\<close>

datatype pool_id = Raw_Id bytes | Kad_Id kad_id

definition id_distance :: "kad_id \<Rightarrow> pool_id \<Rightarrow> kad_id" where
  "id_distance target i = xor (case i of Kad_Id k \<Rightarrow> k | Raw_Id b \<Rightarrow> word_of_nat (be_dec b)) target"

text \<open>Identifiers that reach the constructor have 16 bytes: the records they come from have checked it.\<close>

definition as_kad_id :: "pool_id \<Rightarrow> kad_id" where
  "as_kad_id i = (case i of Kad_Id k \<Rightarrow> k | Raw_Id b \<Rightarrow> (case kad_of_bytes b of Inr v \<Rightarrow> v | Inl _ \<Rightarrow> 0))"

record cand =
  cd_id :: kad_id
  cd_ip :: string
  cd_udp :: nat
  cd_tcp :: nat
  cd_version :: nat

record pool_node =
  pn_id :: pool_id
  pn_ip :: string
  pn_udp :: nat
  pn_tcp :: nat
  pn_version :: nat

text \<open>
  \<open>tried\<close> and \<open>tried_entry\<close> of the searches get their entries together and are one dictionary here;
  \<open>lk_pool\<close> is the seed pool from the seed position on.
\<close>

record lookup =
  lk_tried :: "(kad_id \<times> cand) list"
  lk_responded :: "(kad_id \<times> bool) list"
  lk_possible :: "(kad_id \<times> cand) list"
  lk_addr :: "(node_addr \<times> kad_id) list"
  lk_reasked :: bool
  lk_strikes :: nat
  lk_pool :: "pool_node list"
  lk_progress :: real
  lk_zone :: zone
  lk_sent :: "(bytes \<times> node_addr) list"

record lookup_conf =
  lc_target :: kad_id
  lc_own :: kad_id
  lc_hard :: real
  lc_idle :: real
  lc_zlib :: zlib
  lc_send :: "nat \<Rightarrow> node_addr \<Rightarrow> bool"

record turn_in =
  ti_now :: real
  ti_datagram :: "(bytes \<times> node_addr) option"
  ti_recv_fails :: bool
  ti_progress :: real
  ti_after :: real
  ti_wall :: real

datatype 's turn = Go 's | Stop 's

fun turn_state :: "'s turn \<Rightarrow> 's" where
  "turn_state (Go s) = s"
| "turn_state (Stop s) = s"

definition ALPHA :: nat where "ALPHA = 3"
definition FIND_VALUE :: nat where "FIND_VALUE = 2"
definition FIND_VALUE_MORE :: nat where "FIND_VALUE_MORE = 11"

definition keys :: "('k \<times> 'v) list \<Rightarrow> 'k set" where
  "keys d = fst ` set d"

definition dict_del :: "'k \<Rightarrow> ('k \<times> 'v) list \<Rightarrow> ('k \<times> 'v) list" where
  "dict_del k d = filter (\<lambda>(a, _). a \<noteq> k) d"

section \<open>Asking\<close>

definition sent :: "bytes \<Rightarrow> node_addr \<Rightarrow> 'a lookup_scheme \<Rightarrow> 'a lookup_scheme" where
  "sent d a s = s\<lparr>lk_sent := lk_sent s @ [(d, a)]\<rparr>"

definition send_dgram :: "(nat \<Rightarrow> node_addr \<Rightarrow> bool) \<Rightarrow> bytes \<Rightarrow> node_addr \<Rightarrow> 'a lookup_scheme \<Rightarrow> 'a lookup_scheme res" where
  "send_dgram ok d a s = (if ok (length (lk_sent s)) a then Inr (sent d a s) else Inl OSError)"

definition recv_dgram :: "turn_in \<Rightarrow> (bytes \<times> node_addr) option res" where
  "recv_dgram ti = (if ti_recv_fails ti then Inl OSError else Inr (ti_datagram ti))"

definition find_value_req :: "kad_id \<Rightarrow> kad_id \<Rightarrow> nat \<Rightarrow> bytes" where
  "find_value_req target kid cnt =
     kad_header KAD_PROTOCOL KADEMLIA2_REQ @ [word_of_nat cnt] @ kad_to_bytes target @ kad_to_bytes kid"

fun seed_walk :: "kad_id \<Rightarrow> nat \<Rightarrow> nat \<Rightarrow> pool_node list \<Rightarrow> 'a lookup_scheme \<Rightarrow> nat \<times> 'a lookup_scheme" where
  "seed_walk target cnt added [] s = (added, s\<lparr>lk_pool := []\<rparr>)"
| "seed_walk target cnt added (n # ns) s =
     (if added \<ge> cnt then (added, s\<lparr>lk_pool := n # ns\<rparr>)
      else
        let d = id_distance target (pn_id n) in
        if d \<in> keys (lk_tried s) \<or> d \<in> keys (lk_possible s) then seed_walk target cnt added ns s
        else seed_walk target cnt (added + 1) ns
          (s\<lparr>lk_possible := dict_set d \<lparr>cd_id = as_kad_id (pn_id n), cd_ip = pn_ip n, cd_udp = pn_udp n,
                                          cd_tcp = pn_tcp n, cd_version = pn_version n\<rparr> (lk_possible s)\<rparr>))"

definition seed_more :: "kad_id \<Rightarrow> nat \<Rightarrow> 'a lookup_scheme \<Rightarrow> nat \<times> 'a lookup_scheme" where
  "seed_more target cnt s = seed_walk target cnt 0 (lk_pool s) s"

text \<open>
  The loop over the ranked distances. A candidate below \<open>min_version\<close> is dropped without being
  tried; the keyword search has no such check, that is \<open>min_version = 0\<close>.
\<close>

fun ask_loop ::
    "(nat \<Rightarrow> node_addr \<Rightarrow> bool) \<Rightarrow> nat \<Rightarrow> kad_id \<Rightarrow> kad_id list \<Rightarrow> nat \<Rightarrow> 'a lookup_scheme \<Rightarrow> 'a lookup_scheme res" where
  "ask_loop ok min_version target [] asked s = Inr s"
| "ask_loop ok min_version target (d # ds) asked s =
     (if asked \<ge> ALPHA then Inr s
      else if d \<in> keys (lk_tried s) then ask_loop ok min_version target ds asked s
      else case map_of (lk_possible s) d of
        None \<Rightarrow> Inl KeyError
      | Some c \<Rightarrow>
          let s1 = s\<lparr>lk_possible := dict_del d (lk_possible s)\<rparr> in
          if cd_version c < min_version then ask_loop ok min_version target ds asked s1
          else bindE
            (send_dgram ok (find_value_req target (cd_id c) FIND_VALUE) (cd_ip c, cd_udp c)
              (s1\<lparr>lk_tried := dict_set d c (lk_tried s1), lk_addr := dict_set (cd_ip c, cd_udp c) d (lk_addr s1)\<rparr>))
            (ask_loop ok min_version target ds (asked + 1)))"

definition ask_round :: "(nat \<Rightarrow> node_addr \<Rightarrow> bool) \<Rightarrow> nat \<Rightarrow> kad_id \<Rightarrow> 'a lookup_scheme \<Rightarrow> 'a lookup_scheme res" where
  "ask_round ok min_version target s = ask_loop ok min_version target (sort (map fst (lk_possible s))) 0 s"

section \<open>A quiet window\<close>

definition reask :: "(nat \<Rightarrow> node_addr \<Rightarrow> bool) \<Rightarrow> kad_id \<Rightarrow> 'a lookup_scheme \<Rightarrow> 'a lookup_scheme res" where
  "reask ok target s =
     (if \<not> lk_reasked s \<and> length (lk_tried s) \<ge> 3 * FIND_VALUE then
        let s1 = s\<lparr>lk_reasked := True\<rparr> in
        case map_of (lk_tried s) (Min (keys (lk_tried s))) of
          None \<Rightarrow> Inr s1
        | Some c \<Rightarrow> send_dgram ok (find_value_req target (cd_id c) FIND_VALUE_MORE) (cd_ip c, cd_udp c) s1
      else Inr s)"

definition strike :: "kad_id \<Rightarrow> 'a lookup_scheme \<Rightarrow> 'a lookup_scheme turn" where
  "strike target s =
     (let s1 = s\<lparr>lk_strikes := lk_strikes s + 1\<rparr> in
      if lk_strikes s1 \<ge> 2 then
        case seed_more target ALPHA s1 of (added, s2) \<Rightarrow>
          if added = 0 \<and> lk_possible s2 = [] then Stop s2 else Go (s2\<lparr>lk_strikes := 0\<rparr>)
      else Go s1)"

section \<open>An answer\<close>

text \<open>The opcode and the payload of a datagram, inflated when it is packed.\<close>

definition kad_payload :: "zlib \<Rightarrow> bytes \<Rightarrow> (nat \<times> bytes) res" where
  "kad_payload z data =
     bindE (parse_kad_packet data) (\<lambda>(protocol, opcode, payload).
       if protocol = 0xE5 then bindE (z_decompress z payload) (\<lambda>out. Inr (opcode, out)) else Inr (opcode, payload))"

definition node_from_contact :: "res_contact \<Rightarrow> kad_node" where
  "node_from_contact c =
     (case c of (i, ip, udp, tcp, ver) \<Rightarrow>
        \<lparr>kn_id = i, kn_ip = ip, kn_udp_port = udp, kn_tcp_port = tcp, kn_version = ver, kn_verified = False, kn_udp_key = 0\<rparr>)"

definition follow :: "lookup_conf \<Rightarrow> real \<Rightarrow> res_contact \<Rightarrow> kad_id \<Rightarrow> 'a lookup_scheme \<Rightarrow> 'a lookup_scheme" where
  "follow cf wall c d s =
     (case c of (i, ip, udp, tcp, ver) \<Rightarrow>
        s\<lparr>lk_possible := dict_set d \<lparr>cd_id = as_kad_id (Raw_Id i), cd_ip = ip, cd_udp = udp, cd_tcp = tcp, cd_version = ver\<rparr> (lk_possible s),
          lk_zone := snd (zone_add wall (lc_own cf) (node_from_contact c) (lk_zone s))\<rparr>)"

fun fold_contacts ::
    "lookup_conf \<Rightarrow> real \<Rightarrow> kad_id \<Rightarrow> res_contact list \<Rightarrow> string list \<Rightarrow> bool \<Rightarrow> 'a lookup_scheme \<Rightarrow> bool \<times> 'a lookup_scheme" where
  "fold_contacts cf wall rdist [] seen closer s = (closer, s)"
| "fold_contacts cf wall rdist (c # cs) seen closer s =
     (let d = id_distance (lc_target cf) (Raw_Id (fst c)); ip = fst (snd c); closer' = (closer \<or> d < rdist) in
      if d \<in> keys (lk_tried s) \<or> d \<in> keys (lk_possible s) then fold_contacts cf wall rdist cs seen closer' s
      else if ip \<in> set seen then fold_contacts cf wall rdist cs seen closer' s
      else if d \<ge> rdist then fold_contacts cf wall rdist cs (ip # seen) closer' s
      else fold_contacts cf wall rdist cs (ip # seen) closer' (follow cf wall c d s))"

definition heard :: "turn_in \<Rightarrow> node_addr \<Rightarrow> 'a lookup_scheme \<Rightarrow> 'a lookup_scheme" where
  "heard ti a s = s\<lparr>lk_zone := snd (zone_mark_alive (ti_wall ti) a (lk_zone s)), lk_progress := ti_progress ti\<rparr>"

definition effective_deadline :: "lookup_conf \<Rightarrow> 'a lookup_scheme \<Rightarrow> real" where
  "effective_deadline cf s = min (lc_hard cf) (lk_progress s + lc_idle cf)"

section \<open>The loop\<close>

text \<open>The turns for a list of inputs; \<open>Go\<close> at the end: the loop is still running.\<close>

fun run_turns :: "('i \<Rightarrow> 's \<Rightarrow> 's turn res) \<Rightarrow> 'i list \<Rightarrow> 's \<Rightarrow> 's turn res" where
  "run_turns f [] s = Inr (Go s)"
| "run_turns f (i # is) s = bindE (f i s) (\<lambda>t. case t of Stop s' \<Rightarrow> Inr (Stop s') | Go s' \<Rightarrow> run_turns f is s')"

definition raw_pool_node :: "kad_node \<Rightarrow> pool_node" where
  "raw_pool_node n = \<lparr>pn_id = Raw_Id (kn_id n), pn_ip = kn_ip n, pn_udp = kn_udp_port n, pn_tcp = kn_tcp_port n, pn_version = kn_version n\<rparr>"

definition lookup_start :: "kad_id \<Rightarrow> pool_node list \<Rightarrow> zone \<Rightarrow> real \<Rightarrow> lookup" where
  "lookup_start target pool zn start =
     snd (seed_more target ALPHA
       \<lparr>lk_tried = [], lk_responded = [], lk_possible = [], lk_addr = [], lk_reasked = False, lk_strikes = 0,
        lk_pool = pool, lk_progress = start, lk_zone = zn, lk_sent = []\<rparr>)"


section \<open>The invariant\<close>

lemma keys_Nil [simp]: "keys [] = {}"
  by (simp add: keys_def)

lemma keys_dict_set' [simp]: "keys (dict_set k v d) = insert k (keys d)"
proof -
  have "keys (dict_set k v d) = set (map fst (dict_set k v d))" by (simp add: keys_def)
  then show ?thesis by (auto simp: keys_dict_set keys_def)
qed

lemma keys_dict_del [simp]: "keys (dict_del k d) = keys d - {k}"
  by (force simp: keys_def dict_del_def)

lemma distinct_dict_del: "distinct (map fst d) \<Longrightarrow> distinct (map fst (dict_del k d))"
  by (simp add: dict_del_def distinct_map_filter)

lemma map_of_keys: "map_of d k = None \<longleftrightarrow> k \<notin> keys d"
  by (simp add: keys_def map_of_eq_None_iff)

lemma length_dict_set_new: "k \<notin> keys d \<Longrightarrow> length (dict_set k v d) = length d + 1"
  by (simp add: dict_set_def map_of_keys)

lemma vals_dict_set: "snd ` set (dict_set k v d) \<subseteq> insert v (snd ` set d)"
proof -
  have "snd ` set (map (\<lambda>(a, b). (a, if a = k then v else b)) d) \<subseteq> insert v (snd ` set d)"
    by (induction d) auto
  then show ?thesis unfolding dict_set_def by (simp only: set_append image_Un split: if_split) auto
qed

text \<open>A datagram asking for contacts, and one asking for \<open>n\<close> of them.\<close>

definition is_request :: "bytes \<times> node_addr \<Rightarrow> bool" where
  "is_request m \<longleftrightarrow> take 2 (fst m) = kad_header KAD_PROTOCOL KADEMLIA2_REQ"

definition is_find :: "nat \<Rightarrow> bytes \<times> node_addr \<Rightarrow> bool" where
  "is_find n m \<longleftrightarrow> take 3 (fst m) = kad_header KAD_PROTOCOL KADEMLIA2_REQ @ [word_of_nat n]"

definition find_request :: "kad_id \<Rightarrow> nat \<Rightarrow> cand \<Rightarrow> bytes \<times> node_addr" where
  "find_request target n c = (find_value_req target (cd_id c) n, (cd_ip c, cd_udp c))"

definition requests :: "'a lookup_scheme \<Rightarrow> nat" where
  "requests s = length (filter is_request (lk_sent s))"

text \<open>
  The requests sent: those for two contacts are, in order, one to each node tried, at its address and
  with its identifier; the one for eleven goes once, to a node tried; there are no others.
\<close>

definition asked_log :: "kad_id \<Rightarrow> 'a lookup_scheme \<Rightarrow> bool" where
  "asked_log target s \<longleftrightarrow>
     filter (is_find FIND_VALUE) (lk_sent s) = map (\<lambda>(d, c). find_request target FIND_VALUE c) (lk_tried s) \<and>
     set (filter (is_find FIND_VALUE_MORE) (lk_sent s)) \<subseteq> (\<lambda>(d, c). find_request target FIND_VALUE_MORE c) ` set (lk_tried s) \<and>
     length (filter (is_find FIND_VALUE_MORE) (lk_sent s)) = (if lk_reasked s then 1 else 0) \<and>
     requests s = length (lk_tried s) + (if lk_reasked s then 1 else 0)"

text \<open>No distance is both tried and a candidate, every answer is one of a tried node, and the log of the requests holds.\<close>

definition lookup_inv :: "kad_id \<Rightarrow> 'a lookup_scheme \<Rightarrow> bool" where
  "lookup_inv target s \<longleftrightarrow>
     distinct (map fst (lk_tried s)) \<and> distinct (map fst (lk_possible s)) \<and>
     keys (lk_tried s) \<inter> keys (lk_possible s) = {} \<and>
     keys (lk_responded s) \<subseteq> keys (lk_tried s) \<and> snd ` set (lk_addr s) \<subseteq> keys (lk_tried s) \<and>
     asked_log target s"

lemma lookup_invI [wf_intros]:
  assumes "distinct (map fst (lk_tried s))" and "distinct (map fst (lk_possible s))"
    and "keys (lk_tried s) \<inter> keys (lk_possible s) = {}" and "keys (lk_responded s) \<subseteq> keys (lk_tried s)"
    and "snd ` set (lk_addr s) \<subseteq> keys (lk_tried s)" and "asked_log target s"
  shows "lookup_inv target s"
  using assms by (simp add: lookup_inv_def)

lemma lookup_invD:
  assumes "lookup_inv target s"
  shows "distinct (map fst (lk_tried s))" and "distinct (map fst (lk_possible s))"
    and "keys (lk_tried s) \<inter> keys (lk_possible s) = {}" and "keys (lk_responded s) \<subseteq> keys (lk_tried s)"
    and "snd ` set (lk_addr s) \<subseteq> keys (lk_tried s)" and "asked_log target s"
  using assms by (simp_all add: lookup_inv_def)

lemma is_request_find_value [simp]: "is_request (find_value_req target kid n, a)"
  by (simp add: is_request_def find_value_req_def kad_header_def)

lemma is_find_value [simp]: "is_find m (find_value_req target kid n, a) \<longleftrightarrow> (word_of_nat n :: byte) = word_of_nat m"
  by (simp add: is_find_def find_value_req_def kad_header_def)

lemma find_no_request: "\<not> is_request m \<Longrightarrow> \<not> is_find n m"
proof -
  have "take 3 b = x @ [y] \<Longrightarrow> length x = 2 \<Longrightarrow> take 2 b = x" for b x and y :: byte
    by (drule arg_cong [of _ _ "take 2"]) simp
  then show "\<not> is_request m \<Longrightarrow> \<not> is_find n m" by (auto simp: is_find_def is_request_def kad_header_def)
qed

lemma asked_log_sent: "\<not> is_request (d, a) \<Longrightarrow> asked_log target (sent d a s) = asked_log target s"
  by (simp add: asked_log_def requests_def sent_def find_no_request)

lemma asked_log_fields [simp]:
  "asked_log target (s\<lparr>lk_possible := x2\<rparr>) = asked_log target s"
  "asked_log target (s\<lparr>lk_responded := x3\<rparr>) = asked_log target s" "asked_log target (s\<lparr>lk_addr := x4\<rparr>) = asked_log target s"
  "asked_log target (s\<lparr>lk_strikes := x6\<rparr>) = asked_log target s" "asked_log target (s\<lparr>lk_pool := x7\<rparr>) = asked_log target s"
  "asked_log target (s\<lparr>lk_progress := x8\<rparr>) = asked_log target s" "asked_log target (s\<lparr>lk_zone := x9\<rparr>) = asked_log target s"
  by (simp_all add: asked_log_def requests_def)

lemma sent_fields [simp]:
  "lk_tried (sent d a s) = lk_tried s" "lk_possible (sent d a s) = lk_possible s"
  "lk_responded (sent d a s) = lk_responded s" "lk_addr (sent d a s) = lk_addr s"
  "lk_reasked (sent d a s) = lk_reasked s" "lk_strikes (sent d a s) = lk_strikes s"
  "lk_pool (sent d a s) = lk_pool s" "lk_progress (sent d a s) = lk_progress s" "lk_zone (sent d a s) = lk_zone s"
  by (simp_all add: sent_def)

lemma send_dgram_Inr: "send_dgram ok d a s = Inr s' \<longleftrightarrow> ok (length (lk_sent s)) a \<and> s' = sent d a s"
  by (auto simp: send_dgram_def)

text \<open>The exceptions of the socket: none when every send leaves and no receive fails.\<close>

definition net_errs :: "(nat \<Rightarrow> node_addr \<Rightarrow> bool) \<Rightarrow> turn_in list \<Rightarrow> exn set" where
  "net_errs ok tis = (if (\<forall>n a. ok n a) \<and> (\<forall>ti \<in> set tis. \<not> ti_recv_fails ti) then {} else {OSError})"

lemma net_errs_sends: "net_errs ok [] \<subseteq> net_errs ok tis"
  by (simp add: net_errs_def)

lemma gives_send: "gives (net_errs ok tis) (\<lambda>s'. s' = sent d a s) (send_dgram ok d a s)"
  by (cases a) (simp add: send_dgram_def net_errs_def)

lemma gives_recv: "ti \<in> set tis \<Longrightarrow> gives (net_errs ok tis) (\<lambda>dg. dg = ti_datagram ti) (recv_dgram ti)"
  by (auto simp: recv_dgram_def net_errs_def)

lemma inv_send: "lookup_inv target s \<Longrightarrow> \<not> is_request (d, a) \<Longrightarrow> lookup_inv target (sent d a s)"
  by (simp add: lookup_inv_def asked_log_sent)

lemma inv_add_possible:
  assumes "lookup_inv tg s" and "d \<notin> keys (lk_tried s)"
  shows "lookup_inv tg (s\<lparr>lk_possible := dict_set d c (lk_possible s)\<rparr>)"
  using assms distinct_dict_set [of "lk_possible s" d c] by (auto simp: lookup_inv_def)

lemma inv_fields:
  assumes "lookup_inv tg s"
  shows "lookup_inv tg (s\<lparr>lk_pool := p\<rparr>)" and "lookup_inv tg (s\<lparr>lk_strikes := n\<rparr>)" and "lookup_inv tg (s\<lparr>lk_zone := z\<rparr>)"
    and "lookup_inv tg (s\<lparr>lk_progress := t\<rparr>)"
  using assms by (simp_all add: lookup_inv_def)

lemma inv_seed_walk: "lookup_inv tg s \<Longrightarrow> lookup_inv tg (snd (seed_walk target cnt added ns s))"
  by (induction target cnt added ns s rule: seed_walk.induct) (auto simp: Let_def inv_fields intro: inv_add_possible)

lemma inv_seed_more: "lookup_inv tg s \<Longrightarrow> seed_more target cnt s = (n, s') \<Longrightarrow> lookup_inv tg s'"
  using inv_seed_walk [of tg s target cnt 0 "lk_pool s"] by (simp add: seed_more_def)

lemma inv_ask_pop:
  assumes "lookup_inv tg s" and "d \<notin> keys (lk_tried s)"
  shows "lookup_inv tg (s\<lparr>lk_possible := dict_del d (lk_possible s)\<rparr>)"
  using assms distinct_dict_del [of "lk_possible s" d] by (auto simp: lookup_inv_def)

lemma inv_ask_one:
  assumes "lookup_inv target s" and "d \<notin> keys (lk_tried s)" and "d \<notin> keys (lk_possible s)"
  shows "lookup_inv target (sent (find_value_req target (cd_id c) FIND_VALUE) (cd_ip c, cd_udp c)
    (s\<lparr>lk_tried := dict_set d c (lk_tried s), lk_addr := dict_set (cd_ip c, cd_udp c) d (lk_addr s)\<rparr>))"
    (is "lookup_inv target (sent ?q ?a ?s)")
proof -
  have "snd ` set (dict_set ?a d (lk_addr s)) \<subseteq> insert d (keys (lk_tried s))"
    by (rule order_trans [OF vals_dict_set insert_mono [OF lookup_invD(5) [OF assms(1)]]])
  moreover have "dict_set d c (lk_tried s) = lk_tried s @ [(d, c)]" using assms(2) by (simp add: dict_set_def map_of_keys)
  moreover have "asked_log target (sent ?q ?a ?s)"
    using lookup_invD(6) [OF assms(1)] calculation(2)
    by (auto simp: asked_log_def requests_def sent_def find_request_def FIND_VALUE_def FIND_VALUE_MORE_def)
  moreover have "keys (lk_tried s @ [(d, c)]) = insert d (keys (lk_tried s))" by (auto simp: keys_def)
  ultimately show ?thesis
    using assms distinct_dict_set [of "lk_tried s" d c] by (auto simp: lookup_inv_def)
qed

lemma gives_ask_loop:
  "lookup_inv target s \<Longrightarrow> distinct ds \<Longrightarrow> set ds \<subseteq> keys (lk_possible s) \<Longrightarrow>
   gives (net_errs ok tis) (lookup_inv target) (ask_loop ok min_version target ds asked s)"
proof (induction ds arbitrary: asked s)
  case Nil
  then show ?case by simp
next
  case (Cons d ds)
  have d: "d \<in> keys (lk_possible s)" and nt: "d \<notin> keys (lk_tried s)"
    using Cons.prems lookup_invD(3) [OF Cons.prems(1)] by auto
  then obtain c where c: "map_of (lk_possible s) d = Some c" using map_of_keys [of "lk_possible s" d] by auto
  let ?s1 = "s\<lparr>lk_possible := dict_del d (lk_possible s)\<rparr>"
  let ?s2 = "?s1\<lparr>lk_tried := dict_set d c (lk_tried ?s1), lk_addr := dict_set (cd_ip c, cd_udp c) d (lk_addr ?s1)\<rparr>"
  let ?q = "find_value_req target (cd_id c) FIND_VALUE"
  have s1: "lookup_inv target ?s1" by (rule inv_ask_pop [OF Cons.prems(1) nt])
  have ds: "distinct ds" "set ds \<subseteq> keys (lk_possible ?s1)" using Cons.prems(2,3) by auto
  have one: "lookup_inv target (sent ?q (cd_ip c, cd_udp c) ?s2)"
    by (rule inv_ask_one [OF s1]) (use nt in simp_all)
  have "gives (net_errs ok tis) (lookup_inv target)
      (bindE (send_dgram ok ?q (cd_ip c, cd_udp c) ?s2) (ask_loop ok min_version target ds (asked + 1)))"
    by (rule gives_bindE [OF gives_send]) (use Cons.IH [OF one] ds in simp)
  then show ?case using Cons.IH [OF s1 ds, of asked] Cons.prems(1) nt c by (auto simp: Let_def)
qed

lemma gives_ask_round:
  assumes "lookup_inv target s"
  shows "gives (net_errs ok tis) (lookup_inv target) (ask_round ok min_version target s)"
  unfolding ask_round_def
  by (rule gives_ask_loop [OF assms]) (use lookup_invD(2) [OF assms] in \<open>auto simp: keys_def\<close>)

lemma gives_reask:
  assumes inv: "lookup_inv target s"
  shows "gives (net_errs ok tis) (lookup_inv target) (reask ok target s)"
proof (cases "\<not> lk_reasked s \<and> length (lk_tried s) \<ge> 3 * FIND_VALUE")
  case True
  then have ne: "keys (lk_tried s) \<noteq> {}" and fin: "finite (keys (lk_tried s))"
    by (auto simp: keys_def FIND_VALUE_def)
  from Min_in [OF fin ne] obtain c where c: "map_of (lk_tried s) (Min (keys (lk_tried s))) = Some c"
    using map_of_keys [of "lk_tried s"] by (metis not_None_eq)
  let ?q = "find_value_req target (cd_id c) FIND_VALUE_MORE" and ?s = "s\<lparr>lk_reasked := True\<rparr>"
  have "(Min (keys (lk_tried s)), c) \<in> set (lk_tried s)" using c by (rule map_of_SomeD)
  then have "(?q, (cd_ip c, cd_udp c)) \<in> (\<lambda>(d, c). find_request target FIND_VALUE_MORE c) ` set (lk_tried s)"
    by (force simp: find_request_def)
  then have "lookup_inv target (sent ?q (cd_ip c, cd_udp c) ?s)"
    using inv True by (auto simp: lookup_inv_def asked_log_def requests_def sent_def FIND_VALUE_def FIND_VALUE_MORE_def)
  then have "gives (net_errs ok tis) (lookup_inv target) (send_dgram ok ?q (cd_ip c, cd_udp c) ?s)"
    by (intro gives_mono [OF gives_send]) auto
  with True c show ?thesis by (simp add: reask_def Let_def)
qed (use inv in \<open>auto simp: reask_def\<close>)

lemma inv_strike:
  assumes "lookup_inv tg s"
  shows "lookup_inv tg (turn_state (strike target s))"
proof -
  obtain n s2 where sm: "seed_more target ALPHA (s\<lparr>lk_strikes := lk_strikes s + 1\<rparr>) = (n, s2)" by fastforce
  have "lookup_inv tg s2" by (rule inv_seed_more [OF inv_fields(2) [OF assms] sm])
  then show ?thesis using assms sm by (simp add: strike_def Let_def inv_fields)
qed

lemma inv_follow: "lookup_inv tg s \<Longrightarrow> d \<notin> keys (lk_tried s) \<Longrightarrow> lookup_inv tg (follow cf wall c d s)"
  using inv_fields(3) [OF inv_add_possible] by (auto simp: follow_def split: prod.splits)

lemma inv_fold_contacts: "lookup_inv tg s \<Longrightarrow> lookup_inv tg (snd (fold_contacts cf wall rdist cs seen closer s))"
  by (induction cf wall rdist cs seen closer s rule: fold_contacts.induct) (auto simp: Let_def inv_follow)

lemma inv_heard: "lookup_inv tg s \<Longrightarrow> lookup_inv tg (heard ti a s)"
  by (simp add: heard_def lookup_inv_def)

lemma inv_responded: "lookup_inv tg s \<Longrightarrow> d \<in> keys (lk_tried s) \<Longrightarrow> lookup_inv tg (s\<lparr>lk_responded := dict_set d b (lk_responded s)\<rparr>)"
  by (simp add: lookup_inv_def)

lemma inv_start: "lookup_inv tg (lookup_start target pool zn start)"
proof -
  have "lookup_inv tg \<lparr>lk_tried = [], lk_responded = [], lk_possible = [], lk_addr = [], lk_reasked = False, lk_strikes = 0,
        lk_pool = pool, lk_progress = start, lk_zone = zn, lk_sent = []\<rparr>" (is "lookup_inv tg ?s")
    by (simp add: lookup_inv_def asked_log_def requests_def)
  then show ?thesis
    using inv_seed_more [of tg ?s target ALPHA] by (cases "seed_more target ALPHA ?s") (simp add: lookup_start_def)
qed

lemma gives_run_turns:
  assumes "\<And>i s. i \<in> set is \<Longrightarrow> P s \<Longrightarrow> gives E (\<lambda>t. P (turn_state t)) (f i s)"
  shows "P s \<Longrightarrow> gives E (\<lambda>t. P (turn_state t)) (run_turns f is s)"
  using assms
proof (induction "is" arbitrary: s)
  case Nil
  then show ?case by simp
next
  case (Cons i "is")
  have "gives E (\<lambda>t. P (turn_state t)) (bindE (f i s) (\<lambda>t. case t of Stop s' \<Rightarrow> Inr (Stop s') | Go s' \<Rightarrow> run_turns f is s'))"
    by (rule gives_bindE [OF Cons.prems(2) [OF _ Cons.prems(1)]]) (auto split: turn.split intro!: Cons.IH Cons.prems(2))
  then show ?case by simp
qed


section \<open>A silent network\<close>

text \<open>
  What a turn without a datagram uses up: a node of the seed pool counts four, a candidate two, and
  a strike is one step towards the next seeding.
\<close>

definition silence :: "'a lookup_scheme \<Rightarrow> nat" where
  "silence s = 4 * length (lk_pool s) + 2 * length (lk_possible s) + (2 - lk_strikes s)"

lemma length_dict_del: "length (dict_del k d) \<le> length d" "k \<in> keys d \<Longrightarrow> length (dict_del k d) < length d"
  by (simp add: dict_del_def) (auto simp: dict_del_def keys_def intro!: length_filter_less)

lemma ask_loop_fields:
  "ask_loop ok mv target ds asked s = Inr s1 \<Longrightarrow>
   lk_pool s1 = lk_pool s \<and> lk_strikes s1 = lk_strikes s \<and> length (lk_possible s1) \<le> length (lk_possible s)"
proof (induction ds arbitrary: asked s)
  case Nil
  then show ?case by simp
next
  case (Cons d ds)
  show ?case
  proof (cases "asked \<ge> ALPHA \<or> d \<in> keys (lk_tried s)")
    case True
    with Cons show ?thesis by (auto split: if_splits)
  next
    case False
    with Cons.prems obtain c where c: "map_of (lk_possible s) d = Some c" by (auto split: option.splits)
    from False c Cons.prems length_dict_del(1) [of d "lk_possible s"] show ?thesis
      by (auto simp: Let_def send_dgram_Inr bindE_eq_Inr_conv split: if_splits dest!: Cons.IH)
  qed
qed

lemma ask_round_fields:
  assumes "lookup_inv tg s" and "ask_round ok mv target s = Inr s1"
  shows "lk_pool s1 = lk_pool s" and "lk_strikes s1 = lk_strikes s" and "length (lk_possible s1) \<le> length (lk_possible s)"
    and "lk_possible s \<noteq> [] \<Longrightarrow> length (lk_possible s1) < length (lk_possible s)"
proof -
  show "lk_pool s1 = lk_pool s" "lk_strikes s1 = lk_strikes s" "length (lk_possible s1) \<le> length (lk_possible s)"
    using ask_loop_fields [OF assms(2) [unfolded ask_round_def]] by simp_all
  assume ne: "lk_possible s \<noteq> []"
  then obtain d ds where ds: "sort (map fst (lk_possible s)) = d # ds"
    by (metis length_0_conv length_map length_sort neq_Nil_conv)
  have "d \<in> set (sort (map fst (lk_possible s)))" by (simp only: ds) simp
  then have d: "d \<in> keys (lk_possible s)" by (simp add: keys_def)
  then have nt: "d \<notin> keys (lk_tried s)" using lookup_invD(3) [OF assms(1)] by auto
  obtain c where c: "map_of (lk_possible s) d = Some c" using d map_of_keys [of "lk_possible s" d] by auto
  note less = length_dict_del(2) [OF d]
  from assms(2) show "length (lk_possible s1) < length (lk_possible s)"
    using less by (auto simp: ask_round_def ds nt c Let_def ALPHA_def send_dgram_Inr bindE_eq_Inr_conv split: if_splits dest!: ask_loop_fields)
qed

lemma reask_fields:
  "reask ok target s = Inr s1 \<Longrightarrow> lk_pool s1 = lk_pool s \<and> lk_possible s1 = lk_possible s \<and> lk_strikes s1 = lk_strikes s \<and> lk_tried s1 = lk_tried s"
  by (auto simp: reask_def Let_def send_dgram_Inr split: if_splits option.splits)

lemma seed_walk_count:
  "seed_walk target cnt added ns s = (n, s') \<Longrightarrow>
   added \<le> n \<and> length (lk_pool s') + n \<le> length ns + added \<and> length (lk_possible s') + added = length (lk_possible s) + n \<and>
   lk_strikes s' = lk_strikes s"
proof (induction target cnt added ns s rule: seed_walk.induct)
  case (1 target cnt added s)
  then show ?case by auto
next
  case (2 target cnt added m ns s)
  show ?case
  proof (cases "added \<ge> cnt")
    case True
    with "2.prems" show ?thesis by auto
  next
    case False
    define d where "d = id_distance target (pn_id m)"
    show ?thesis
    proof (cases "d \<in> keys (lk_tried s) \<or> d \<in> keys (lk_possible s)")
      case True
      with "2.IH"(1) [OF False d_def True] "2.prems" False show ?thesis by (auto simp: d_def Let_def)
    next
      case nd: False
      with "2.IH"(2) [OF False d_def nd] "2.prems" False show ?thesis
        by (auto simp: d_def Let_def length_dict_set_new)
    qed
  qed
qed

lemma strike_progress:
  assumes "strike target s = Go s'" and "lk_strikes s \<le> 1"
  shows "lk_strikes s' \<le> 1 \<and> silence s' < silence s + (if lk_possible s = [] then 0 else 2)"
proof -
  obtain n s2 where sm: "seed_more target ALPHA (s\<lparr>lk_strikes := lk_strikes s + 1\<rparr>) = (n, s2)" by fastforce
  from seed_walk_count [OF sm [unfolded seed_more_def]]
  have c: "length (lk_pool s2) + n \<le> length (lk_pool s)" "length (lk_possible s2) = length (lk_possible s) + n"
    by simp_all
  show ?thesis
  proof (cases "lk_strikes s = 1")
    case True
    with assms(1) sm have s': "s' = s2\<lparr>lk_strikes := 0\<rparr>" and more: "\<not> (n = 0 \<and> lk_possible s2 = [])"
      by (auto simp: strike_def Let_def split: if_splits)
    have "n = 0 \<Longrightarrow> lk_possible s \<noteq> []" using more c(2) by auto
    with c True s' show ?thesis by (cases "n = 0") (auto simp: silence_def)
  next
    case False
    with assms have "lk_strikes s = 0" and "s' = s\<lparr>lk_strikes := 1\<rparr>" by (auto simp: strike_def Let_def)
    then show ?thesis by (simp add: silence_def)
  qed
qed

text \<open>Every turn without a datagram that does not leave the loop uses something up.\<close>

lemma quiet_turn_progress:
  assumes "lookup_inv tg s" and "lk_strikes s \<le> 1" and "ask_round ok mv target s = Inr s1"
    and "lk_pool s2 = lk_pool s1" and "lk_possible s2 = lk_possible s1" and "lk_strikes s2 = lk_strikes s1"
    and "strike target s2 = Go s'"
  shows "lk_strikes s' \<le> 1 \<and> silence s' < silence s"
proof -
  note f = ask_round_fields [OF assms(1,3)]
  have "lk_strikes s2 \<le> 1" using assms(2,6) f(2) by simp
  note p = strike_progress [OF assms(7) this]
  have "silence s2 + (if lk_possible s2 = [] then 0 else 2) \<le> silence s"
    using f assms(4-6) by (cases "lk_possible s = []") (auto simp: silence_def)
  with p show ?thesis by linarith
qed

lemma run_turns_stops:
  assumes step: "\<And>i s. i \<in> set is \<Longrightarrow> P s \<Longrightarrow>
      gives E (\<lambda>t. Q (turn_state t) \<and> (\<forall>s'. t = Go s' \<longrightarrow> P s' \<and> m s' < (m s :: nat))) (f i s)"
  shows "P s \<Longrightarrow> m s < length is \<Longrightarrow> gives E (\<lambda>t. \<exists>s'. t = Stop s' \<and> Q s') (run_turns f is s)"
  using step
proof (induction "is" arbitrary: s)
  case Nil
  then show ?case by simp
next
  case (Cons i "is")
  note one = Cons.prems(3) [of i s, OF _ Cons.prems(1)]
  have "gives E (\<lambda>t. \<exists>s'. t = Stop s' \<and> Q s')
      (bindE (f i s) (\<lambda>t. case t of Stop s' \<Rightarrow> Inr (Stop s') | Go s' \<Rightarrow> run_turns f is s'))"
  proof (rule gives_bindE [OF one])
    fix t assume t: "Q (turn_state t) \<and> (\<forall>s'. t = Go s' \<longrightarrow> P s' \<and> m s' < m s)"
    show "gives E (\<lambda>t. \<exists>s'. t = Stop s' \<and> Q s') (case t of Stop s' \<Rightarrow> Inr (Stop s') | Go s' \<Rightarrow> run_turns f is s')"
      using t Cons.prems(2) Cons.IH Cons.prems(3) by (cases t) auto
  qed simp
  then show ?case by simp
qed

lemma start_fields:
  "lk_strikes (lookup_start target pool zn start) = 0"
  "silence (lookup_start target pool zn start) \<le> 4 * length pool + 2"
proof -
  let ?s = "\<lparr>lk_tried = [], lk_responded = [], lk_possible = [], lk_addr = [], lk_reasked = False, lk_strikes = 0,
        lk_pool = pool, lk_progress = start, lk_zone = zn, lk_sent = []\<rparr>"
  obtain n s' where sm: "seed_more target ALPHA ?s = (n, s')" by fastforce
  from seed_walk_count [OF sm [unfolded seed_more_def]]
  show "lk_strikes (lookup_start target pool zn start) = 0" "silence (lookup_start target pool zn start) \<le> 4 * length pool + 2"
    by (auto simp: lookup_start_def sm silence_def)
qed


section \<open>The distance of a raw identifier\<close>

text \<open>
  A raw identifier is read as one big-endian number, while the value of a target has the four
  little-endian words of the wire form. So the contact that carries the target's own identifier is
  not at distance 0, and another one is.
\<close>

lemma xor_eq_zero: "xor a b = (0 :: kad_id) \<longleftrightarrow> a = b"
proof
  assume "xor a b = 0"
  then have "xor (xor a b) b = b" by simp
  then show "a = b" by (simp add: xor.assoc)
qed simp

lemma raw_distance_zero:
  assumes "length b = 16"
  shows "id_distance target (Raw_Id b) = 0 \<longleftrightarrow> b = be_enc 16 (unat target)"
proof -
  have lt: "be_dec b < 2 ^ 128" using be_dec_bound [of b] assms by simp
  have u: "unat (word_of_nat (be_dec b) :: kad_id) = be_dec b"
    using lt by (simp add: unsigned_of_nat take_bit_nat_eq_self)
  have t: "unat target < 256 ^ 16" using unsigned_less [of target, where ?'a = nat] by simp
  have "id_distance target (Raw_Id b) = 0 \<longleftrightarrow> word_of_nat (be_dec b) = target"
    by (simp add: id_distance_def xor_eq_zero)
  also have "\<dots> \<longleftrightarrow> be_dec b = unat target" using u by (auto simp: word_unat_eq_iff)
  also have "\<dots> \<longleftrightarrow> b = be_enc 16 (unat target)"
  proof
    assume "be_dec b = unat target"
    then have "le_dec (rev b) = unat target" by (simp add: be_dec_def)
    then have "le_enc 16 (unat target) = rev b" using le_enc_le_dec_n [of "rev b" 16] assms by simp
    then show "b = be_enc 16 (unat target)" by (simp add: be_enc_def)
  qed (use t in simp)
  finally show ?thesis .
qed

lemma kad_distance_zero:
  assumes "length b = 16"
  shows "id_distance target (Kad_Id (as_kad_id (Raw_Id b))) = 0 \<longleftrightarrow> b = kad_to_bytes target"
proof -
  obtain v where b: "b = kad_to_bytes v" using kad_bytes_id [OF assms] by blast
  have "kad_to_bytes v = kad_to_bytes target \<longleftrightarrow> v = target" using kad_of_to_bytes by (metis sum.inject(2))
  then show ?thesis by (simp add: b id_distance_def as_kad_id_def kad_of_to_bytes xor_eq_zero)
qed

lemma fold_contacts_at_zero:
  "lk_possible (snd (fold_contacts cf wall 0 cs seen closer s)) = lk_possible s"
  by (induction cs arbitrary: seen closer) (auto simp: Let_def)

text \<open>The contacts that are followed are new, and strictly closer than the node that named them.\<close>

lemma followed_closer:
  "d \<in> keys (lk_possible (snd (fold_contacts cf wall rdist cs seen closer s))) \<Longrightarrow>
   d \<in> keys (lk_possible s) \<or>
   d < rdist \<and> d \<notin> keys (lk_tried s) \<and> (\<exists>c \<in> set cs. d = id_distance (lc_target cf) (Raw_Id (fst c)) \<and> fst (snd c) \<notin> set seen)"
proof (induction cf wall rdist cs seen closer s rule: fold_contacts.induct)
  case (1 cf wall rdist seen closer s)
  then show ?case by simp
next
  case (2 cf wall rdist c cs seen closer s)
  define e where "e = id_distance (lc_target cf) (Raw_Id (fst c))"
  define closer' where "closer' = (closer \<or> e < rdist)"
  have f: "lk_tried (follow cf wall c e s) = lk_tried s" "keys (lk_possible (follow cf wall c e s)) = insert e (keys (lk_possible s))"
    by (auto simp: follow_def split: prod.splits)
  consider "e \<in> keys (lk_tried s) \<or> e \<in> keys (lk_possible s)"
    | "\<not> (e \<in> keys (lk_tried s) \<or> e \<in> keys (lk_possible s))" "fst (snd c) \<in> set seen"
    | "\<not> (e \<in> keys (lk_tried s) \<or> e \<in> keys (lk_possible s))" "fst (snd c) \<notin> set seen" "rdist \<le> e"
    | "\<not> (e \<in> keys (lk_tried s) \<or> e \<in> keys (lk_possible s))" "fst (snd c) \<notin> set seen" "\<not> rdist \<le> e" by blast
  then show ?case
  proof cases
    case 1
    with "2.IH"(1) [OF e_def refl closer'_def 1] "2.prems" show ?thesis by (auto simp: Let_def e_def closer'_def)
  next
    case 2
    with "2.IH"(2) [OF e_def refl closer'_def 2(1,2)] "2.prems" show ?thesis by (auto simp: Let_def e_def closer'_def)
  next
    case 3
    with "2.IH"(3) [OF e_def refl closer'_def 3] "2.prems" show ?thesis by (auto simp: Let_def e_def closer'_def)
  next
    case 4
    with "2.IH"(4) [OF e_def refl closer'_def 4] "2.prems" f show ?thesis by (auto simp: Let_def e_def [symmetric] closer'_def)
  qed
qed


text \<open>
  C36. The distance of a raw identifier is not the one of the network. For every target whose words are not
  byte palindromes: a node with the identifier that the target's number has in big-endian form is
  taken to be at distance 0, though it is not the target in the metric of the network; the node with the
  target's own identifier is not at distance 0, though it is in that metric; and an answer of that
  first node adds no candidate, whatever contacts it names, the target's node included (the contacts
  that other nodes name are still followed).
\<close>

theorem raw_metric_misses_target:
  assumes "be_enc 16 (unat target) \<noteq> kad_to_bytes target" and "lc_target cf = target"
  shows "id_distance target (Raw_Id (be_enc 16 (unat target))) = 0 \<and>
    id_distance target (Kad_Id (as_kad_id (Raw_Id (be_enc 16 (unat target))))) \<noteq> 0 \<and>
    id_distance target (Raw_Id (kad_to_bytes target)) \<noteq> 0 \<and>
    id_distance target (Kad_Id (as_kad_id (Raw_Id (kad_to_bytes target)))) = 0 \<and>
    lk_possible (snd (fold_contacts cf wall (id_distance target (Raw_Id (be_enc 16 (unat target)))) cs seen closer s)) = lk_possible s"
proof -
  have z: "id_distance target (Raw_Id (be_enc 16 (unat target))) = 0" by (simp add: raw_distance_zero)
  then show ?thesis
    using assms(1) by (simp add: z raw_distance_zero kad_distance_zero fold_contacts_at_zero)
qed

lemma raw_metric_misses_target_witness:
  "id_distance 1 (Raw_Id (be_enc 16 (unat (1 :: kad_id)))) = 0 \<and>
    id_distance 1 (Kad_Id (as_kad_id (Raw_Id (be_enc 16 (unat (1 :: kad_id)))))) \<noteq> 0 \<and>
    id_distance 1 (Raw_Id (kad_to_bytes 1)) \<noteq> 0 \<and>
    id_distance 1 (Kad_Id (as_kad_id (Raw_Id (kad_to_bytes 1)))) = 0 \<and>
    lk_possible (snd (fold_contacts \<lparr>lc_target = 1, lc_own = 0, lc_hard = 30, lc_idle = 10, lc_zlib = rle_zlib, lc_send = (\<lambda>_ _. True)\<rparr> 0
      (id_distance 1 (Raw_Id (be_enc 16 (unat (1 :: kad_id))))) [(kad_to_bytes 1, ''10.0.0.1'', 4672, 4662, 8)] [] False
      (lookup_start 1 [] zone_new 0))) = lk_possible (lookup_start 1 [] zone_new 0)"
  by (rule raw_metric_misses_target) (simp_all add: be_enc_def kad_to_bytes_def le_enc_numeral)

end
