(* ===== verification/Kad_Search.thy ===== *)
theory Kad_Search
  imports Kad_Lookup
begin

text \<open>
  \<open>kad_keyword_search\<close> of \<open>core/kad/search.py\<close>. The inputs are the turns of the receive loop and of the
  collecting loop at the end; a run whose inputs end before it leaves a loop has no report yet.
\<close>

section \<open>State\<close>

record asking = lookup +
  as_asked :: "node_addr list"
  as_rewards :: "(node_addr \<times> real) list"
  as_hook :: "(node_addr \<times> real) list"

record keyword_search = asking +
  ks_results :: "(bytes \<times> search_item) list"

record keyword_conf = lookup_conf +
  kc_max_results :: int

text \<open>\<open>as_hook\<close> are the calls of \<open>reward_hook\<close>, when there is one.\<close>

definition award :: "node_addr \<Rightarrow> real \<Rightarrow> 'a asking_scheme \<Rightarrow> 'a asking_scheme" where
  "award a x s =
     s\<lparr>as_rewards := dict_set a ((case map_of (as_rewards s) a of None \<Rightarrow> 0 | Some r \<Rightarrow> r) + x) (as_rewards s),
       as_hook := as_hook s @ [(a, x)]\<rparr>"

definition asked_of :: "bytes \<Rightarrow> node_addr \<Rightarrow> 'a asking_scheme \<Rightarrow> 'a asking_scheme" where
  "asked_of req a s = (sent req a s)\<lparr>as_asked := List.insert a (as_asked s)\<rparr>"

definition ask_search :: "(nat \<Rightarrow> node_addr \<Rightarrow> bool) \<Rightarrow> bytes \<Rightarrow> node_addr \<Rightarrow> 'a asking_scheme \<Rightarrow> 'a asking_scheme res" where
  "ask_search ok req a s = bindE (send_dgram ok req a s) (\<lambda>s1. Inr (s1\<lparr>as_asked := List.insert a (as_asked s1)\<rparr>))"

definition tried_addr :: "'a lookup_scheme \<Rightarrow> kad_id \<Rightarrow> node_addr res" where
  "tried_addr s d = (case map_of (lk_tried s) d of None \<Rightarrow> Inl KeyError | Some c \<Rightarrow> Inr (cd_ip c, cd_udp c))"

text \<open>The responders not asked yet, and the requests of a quiet window.\<close>

definition pending_search :: "'a asking_scheme \<Rightarrow> node_addr list res" where
  "pending_search s =
     bindE (mapE (tried_addr s) (map fst (lk_responded s))) (\<lambda>as. Inr (filter (\<lambda>a. a \<notin> set (as_asked s)) as))"

definition ask_searches :: "(nat \<Rightarrow> node_addr \<Rightarrow> bool) \<Rightarrow> bytes \<Rightarrow> node_addr list \<Rightarrow> 'a asking_scheme \<Rightarrow> 'a asking_scheme res" where
  "ask_searches ok req as s = foldE (\<lambda>s a. ask_search ok req a s) s as"

definition push_searches :: "(nat \<Rightarrow> node_addr \<Rightarrow> bool) \<Rightarrow> bytes \<Rightarrow> 'a asking_scheme \<Rightarrow> 'a asking_scheme res" where
  "push_searches ok req s = bindE (pending_search s) (\<lambda>as. ask_searches ok req (take ALPHA as) s)"

section \<open>Answers\<close>

definition search_key_req :: "kad_id \<Rightarrow> bytes" where
  "search_key_req target = kad_header KAD_PROTOCOL KADEMLIA2_SEARCH_KEY_REQ @ build_search_key_req target"

fun add_items :: "int \<Rightarrow> search_item list \<Rightarrow> (bytes \<times> search_item) list \<Rightarrow> (bytes \<times> search_item) list" where
  "add_items max_results [] rs = rs"
| "add_items max_results (i # is) rs =
     (if ki_file_hash i \<notin> keys rs then
        let rs' = dict_set (ki_file_hash i) i rs in
        if int (length rs') \<ge> max_results then rs' else add_items max_results is rs'
      else add_items max_results is rs)"

definition on_answers :: "keyword_conf \<Rightarrow> turn_in \<Rightarrow> node_addr \<Rightarrow> kad_id \<Rightarrow> search_item list \<Rightarrow> keyword_search \<Rightarrow> keyword_search turn" where
  "on_answers cf ti a rdist items s =
     (let s1 = award a 2 ((heard ti a s)\<lparr>lk_responded := dict_set rdist True (lk_responded s)\<rparr>);
          s2 = s1\<lparr>ks_results := add_items (kc_max_results cf) items (ks_results s1)\<rparr> in
      if int (length (ks_results s2)) \<ge> kc_max_results cf then Stop s2 else Go s2)"

text \<open>The contacts of a \<open>KADEMLIA2_RES\<close>, up to the request to the responder; \<open>req\<close> is that request.\<close>

definition on_contacts ::
    "lookup_conf \<Rightarrow> bytes \<Rightarrow> turn_in \<Rightarrow> node_addr \<Rightarrow> kad_id \<Rightarrow> res_contact list \<Rightarrow> 'a asking_scheme
     \<Rightarrow> 'a asking_scheme res" where
  "on_contacts cf req ti a rdist contacts s =
     (case fold_contacts cf (ti_wall ti) rdist contacts [fst a] False (heard ti a s) of (closer, s1) \<Rightarrow>
        let s2 = (award a (if closer then 1 else 1 / 5) s1)\<lparr>lk_responded := dict_set rdist closer (lk_responded s1)\<rparr> in
        if a \<in> set (as_asked s2) then Inr s2 else ask_search (lc_send cf) req a s2)"

definition on_datagram ::
    "(bytes \<Rightarrow> 'f) \<Rightarrow> ('f \<Rightarrow> bytes res) \<Rightarrow> keyword_conf \<Rightarrow> turn_in \<Rightarrow> real \<Rightarrow> bytes \<Rightarrow> node_addr \<Rightarrow> keyword_search
     \<Rightarrow> keyword_search turn res" where
  "on_datagram uf pf cf ti deadline data a s0 =
     (let s = s0\<lparr>lk_strikes := 0\<rparr>; c = lookup_conf.truncate cf in
      case map_of (lk_addr s) a of
        None \<Rightarrow> Inr (Go s)
      | Some rdist \<Rightarrow>
          (case kad_payload (lc_zlib cf) data of
             Inl e \<Rightarrow> if e = KadPacketError \<or> e = ZlibError then Inr (Go s) else Inl e
           | Inr (opcode, payload) \<Rightarrow>
               if opcode = KADEMLIA2_SEARCH_RES then
                 (case parse_search_res_answers uf pf payload of
                    Inl e \<Rightarrow> if e = KadSearchError then Inr (Go s) else Inl e
                  | Inr items \<Rightarrow> Inr (on_answers cf ti a rdist items s))
               else if opcode \<noteq> KADEMLIA2_RES then Inr (Go s)
               else
                 (case parse_kad2_res payload of
                    Inl e \<Rightarrow> if e = KadSearchError then Inr (Go s) else Inl e
                  | Inr contacts \<Rightarrow>
                      bindE (on_contacts c (search_key_req (lc_target cf)) ti a rdist contacts s) (\<lambda>s'.
                      Inr (if ti_after ti \<ge> deadline then Stop s' else Go s')))))"

section \<open>The search\<close>

definition keyword_turn :: "(bytes \<Rightarrow> 'f) \<Rightarrow> ('f \<Rightarrow> bytes res) \<Rightarrow> keyword_conf \<Rightarrow> turn_in \<Rightarrow> keyword_search \<Rightarrow> keyword_search turn res" where
  "keyword_turn uf pf cf ti s =
     (let deadline = effective_deadline (lookup_conf.truncate cf) s; target = lc_target cf in
      if ti_now ti \<ge> deadline then Inr (Stop s)
      else
        bindE (ask_round (lc_send cf) 0 target s) (\<lambda>s1.
        bindE (recv_dgram ti) (\<lambda>dg.
          case dg of
            None \<Rightarrow>
              bindE (push_searches (lc_send cf) (search_key_req target) s1) (\<lambda>s2.
              bindE (reask (lc_send cf) target s2) (\<lambda>s3. Inr (strike target s3)))
          | Some (data, a) \<Rightarrow> on_datagram uf pf cf ti deadline data a s1)))"

text \<open>The three best rewarded nodes, in the order of the rewards.\<close>

definition best_rewarded :: "'a asking_scheme \<Rightarrow> node_addr list" where
  "best_rewarded s = map fst (take 3 (sort_key (\<lambda>(a, r). - r) (as_rewards s)))"

text \<open>A turn of the loop that collects late answers until \<open>deadline\<close>.\<close>

definition collect_turn :: "(bytes \<Rightarrow> 'f) \<Rightarrow> ('f \<Rightarrow> bytes res) \<Rightarrow> keyword_conf \<Rightarrow> real \<Rightarrow> turn_in \<Rightarrow> keyword_search \<Rightarrow> keyword_search turn res" where
  "collect_turn uf pf cf deadline ti s =
     (if \<not> (ti_now ti < deadline \<and> int (length (ks_results s)) < kc_max_results cf) then Inr (Stop s)
      else
        bindE (recv_dgram ti) (\<lambda>dg. case dg of
          None \<Rightarrow> Inr (Go s)
        | Some (data, a) \<Rightarrow>
            if map_of (lk_addr s) a = None then Inr (Go s)
            else
              (case kad_payload (lc_zlib cf) data of
                 Inl e \<Rightarrow> if e = KadPacketError \<or> e = ZlibError then Inr (Go s) else Inl e
               | Inr (opcode, payload) \<Rightarrow>
                   if opcode \<noteq> KADEMLIA2_SEARCH_RES then Inr (Go s)
                   else
                     (case parse_search_res_answers uf pf payload of
                        Inl e \<Rightarrow> if e = KadSearchError then Inr (Go s) else Inl e
                      | Inr items \<Rightarrow>
                          let s1 = heard ti a s in
                          Inr (Go (s1\<lparr>ks_results := add_items (kc_max_results cf) items (ks_results s1)\<rparr>))))))"

record search_report =
  sr_query :: ustr
  sr_target :: kad_id
  sr_results :: "search_item list"
  sr_queried :: nat
  sr_responded :: nat

definition report_of :: "ustr \<Rightarrow> kad_id \<Rightarrow> keyword_search \<Rightarrow> search_report" where
  "report_of query target s =
     \<lparr>sr_query = query, sr_target = target, sr_results = map snd (ks_results s),
      sr_queried = length (lk_tried s), sr_responded = length (lk_responded s)\<rparr>"

text \<open>After the loop: \<open>t0\<close> is the clock when the collecting begins.\<close>

definition delayed_reask ::
    "(bytes \<Rightarrow> 'f) \<Rightarrow> ('f \<Rightarrow> bytes res) \<Rightarrow> keyword_conf \<Rightarrow> real \<Rightarrow> turn_in list \<Rightarrow> keyword_search \<Rightarrow> keyword_search turn res" where
  "delayed_reask uf pf cf t0 late s =
     (if best_rewarded s \<noteq> [] \<and> int (length (ks_results s)) < kc_max_results cf then
        bindE (foldE (\<lambda>s a. send_dgram (lc_send cf) (search_key_req (lc_target cf)) a s) s (best_rewarded s))
          (run_turns (collect_turn uf pf cf (t0 + 5)) late)
      else Inr (Stop s))"

definition keyword_start :: "keyword_conf \<Rightarrow> pool_node list \<Rightarrow> zone \<Rightarrow> real \<Rightarrow> keyword_search" where
  "keyword_start cf pool zn start =
     lookup.extend (lookup_start (lc_target cf) pool zn start)
       \<lparr>as_asked = [], as_rewards = [], as_hook = [], ks_results = []\<rparr>"

definition kad_keyword_search ::
    "(bytes \<Rightarrow> bytes) \<Rightarrow> (bytes \<Rightarrow> 'f) \<Rightarrow> ('f \<Rightarrow> bytes res) \<Rightarrow> zlib \<Rightarrow> (nat \<Rightarrow> node_addr \<Rightarrow> bool) \<Rightarrow> bool \<Rightarrow> ustr \<Rightarrow> kad_id \<Rightarrow> zone \<Rightarrow> real \<Rightarrow> real \<Rightarrow> int
     \<Rightarrow> real \<Rightarrow> turn_in list \<Rightarrow> real \<Rightarrow> turn_in list \<Rightarrow> search_report option res" where
  "kad_keyword_search md4 uf pf z ok bound query own zn timeout idle_extend max_results start turns t0 late =
     bindE (keyword_target md4 query) (\<lambda>target.
       if \<not> bound then Inl KadSearchError
       else
         let cf = \<lparr>lc_target = target, lc_own = own, lc_hard = start + timeout, lc_idle = idle_extend, lc_zlib = z, lc_send = ok,
                   kc_max_results = max_results\<rparr>;
             pool = map raw_pool_node (closest own target 120 zn) in
         bindE (run_turns (keyword_turn uf pf cf) turns (keyword_start cf pool zn start)) (\<lambda>t.
           case t of
             Go _ \<Rightarrow> Inr None
           | Stop s \<Rightarrow>
               bindE (delayed_reask uf pf cf t0 late s) (\<lambda>u.
                 case u of Go _ \<Rightarrow> Inr None | Stop s' \<Rightarrow> Inr (Some (report_of query target s')))))"


section \<open>The invariant is kept\<close>

lemma asking_fields [simp]:
  "lk_tried (award a x s) = lk_tried s" "lk_possible (award a x s) = lk_possible s" "lk_responded (award a x s) = lk_responded s"
  "lk_strikes (award a x s) = lk_strikes s" "lk_pool (award a x s) = lk_pool s" "lookup_inv tg (award a x s) = lookup_inv tg s"
  "lk_tried (asked_of q a s) = lk_tried s" "lk_possible (asked_of q a s) = lk_possible s"
  "lk_responded (asked_of q a s) = lk_responded s" "lk_strikes (asked_of q a s) = lk_strikes s" "lk_pool (asked_of q a s) = lk_pool s"
  by (simp_all add: award_def asked_of_def lookup_inv_def asked_log_def requests_def)

lemma inv_asked_of: "lookup_inv tg s \<Longrightarrow> \<not> is_request (req, a) \<Longrightarrow> lookup_inv tg (asked_of req a s)"
  using inv_send [of tg s req a] by (simp add: asked_of_def lookup_inv_def asked_log_def requests_def)

lemma gives_ask_search: "gives (net_errs ok tis) (\<lambda>s'. s' = asked_of req a s) (ask_search ok req a s)"
  unfolding ask_search_def by (rule gives_bindE [OF gives_send]) (simp_all add: asked_of_def sent_def)

lemma search_key_no_request [simp]: "\<not> is_request (search_key_req target, a)"
  by (simp add: is_request_def search_key_req_def kad_header_def KADEMLIA2_REQ_def KADEMLIA2_SEARCH_KEY_REQ_def)

text \<open>Whatever holds of the state and survives one request survives them all.\<close>

lemma gives_foldE:
  assumes "\<And>s a. P s \<Longrightarrow> gives E P (f s a)"
  shows "P s \<Longrightarrow> gives E P (foldE f s as)"
proof (induction as arbitrary: s)
  case (Cons a as)
  from gives_bindE [OF assms [OF Cons.prems] Cons.IH] show ?case by simp
qed simp

lemma gives_ask_searches:
  assumes "\<And>s a. P s \<Longrightarrow> P (asked_of req a s)" and "P s"
  shows "gives (net_errs ok tis) P (ask_searches ok req as s)"
  unfolding ask_searches_def
  by (rule gives_foldE [where P = P, OF _ assms(2)], rule gives_mono [OF gives_ask_search]) (use assms(1) in auto)

lemma gives_sends:
  assumes "\<And>s a. P s \<Longrightarrow> P (sent req a s)" and "P s"
  shows "gives (net_errs ok tis) P (foldE (\<lambda>s a. send_dgram ok req a s) s as)"
  by (rule gives_foldE [where P = P, OF _ assms(2)], rule gives_mono [OF gives_send]) (use assms(1) in auto)

text \<open>\<open>tried[d]\<close> is defined for every responder.\<close>

lemma pending_defined:
  assumes "lookup_inv tg s"
  shows "\<exists>as. pending_search s = Inr as"
proof -
  have "gives {} (\<lambda>_. True) (mapE (tried_addr s) (map fst (lk_responded s)))"
  proof (rule gives_mapE, unfold list_all_iff, intro ballI)
    fix d assume "d \<in> set (map fst (lk_responded s))"
    then have "d \<in> keys (lk_tried s)" using lookup_invD(4) [OF assms] by (auto simp: keys_def)
    then show "gives {} (\<lambda>_. True) (tried_addr s d)"
      using map_of_keys [of "lk_tried s" d] by (auto simp: tried_addr_def split: option.splits)
  qed
  then show ?thesis by (cases "mapE (tried_addr s) (map fst (lk_responded s))") (auto simp: pending_search_def)
qed

lemma gives_push_searches:
  assumes "lookup_inv tg s" and "\<And>a. \<not> is_request (req, a)"
  shows "gives (net_errs ok tis) (lookup_inv tg) (push_searches ok req s)"
proof -
  obtain as where as: "pending_search s = Inr as" using pending_defined [OF assms(1)] by blast
  show ?thesis
    by (simp add: push_searches_def as) (rule gives_ask_searches [where P = "lookup_inv tg", OF inv_asked_of], simp_all add: assms)
qed

lemma inv_results [simp]: "lookup_inv tg (s\<lparr>ks_results := r\<rparr>) = lookup_inv tg s"
  by (simp add: lookup_inv_def asked_log_def requests_def)

lemma heard_fields [simp]:
  "lk_tried (heard ti a s) = lk_tried s" "lk_responded (heard ti a s) = lk_responded s" "lk_possible (heard ti a s) = lk_possible s"
  by (simp_all add: heard_def)

lemma inv_on_answers:
  assumes "lookup_inv tg s" and "rdist \<in> keys (lk_tried s)"
  shows "lookup_inv tg (turn_state (on_answers cf ti a rdist items s))"
  using inv_responded [OF inv_heard [OF assms(1)], of rdist ti a True] assms(2) by (simp add: on_answers_def Let_def)

lemma fold_contacts_tried: "lk_tried (snd (fold_contacts cf wall rdist cs seen closer s)) = lk_tried s"
  by (induction cf wall rdist cs seen closer s rule: fold_contacts.induct) (auto simp: Let_def follow_def split: prod.splits)

lemma gives_on_contacts:
  assumes "lookup_inv tg s" and "rdist \<in> keys (lk_tried s)" and "\<And>a. \<not> is_request (req, a)"
  shows "gives (net_errs (lc_send cf) tis) (lookup_inv tg) (on_contacts cf req ti a rdist contacts s)"
proof -
  obtain closer s1 where f: "fold_contacts cf (ti_wall ti) rdist contacts [fst a] False (heard ti a s) = (closer, s1)" by fastforce
  have s1: "lookup_inv tg s1" "lk_tried s1 = lk_tried s"
    using inv_fold_contacts [OF inv_heard [OF assms(1)], of cf "ti_wall ti" rdist contacts "[fst a]" False ti a]
      fold_contacts_tried [of cf "ti_wall ti" rdist contacts "[fst a]" False "heard ti a s"] f by simp_all
  define s2 where "s2 = (award a (if closer then 1 else 1 / 5) s1)\<lparr>lk_responded := dict_set rdist closer (lk_responded s1)\<rparr>"
  have s2: "lookup_inv tg s2"
    using inv_responded [of tg "award a (if closer then 1 else 1 / 5) s1" rdist closer] s1 assms(2) by (simp add: s2_def)
  have "gives (net_errs (lc_send cf) tis) (lookup_inv tg) (ask_search (lc_send cf) req a s2)"
    by (rule gives_mono [OF gives_ask_search]) (use inv_asked_of [OF s2 assms(3)] in auto)
  with s2 show ?thesis by (simp add: on_contacts_def f s2_def Let_def)
qed

lemma gives_kad_payload:
  assumes "\<And>d. gives {ZlibError} (\<lambda>_. True) (z_decompress z d)"
  shows "gives {KadPacketError, ZlibError} (\<lambda>_. True) (kad_payload z data)"
proof -
  have "gives {KadPacketError, ZlibError} (\<lambda>_. True) (bindE (z_decompress z p) (\<lambda>out. Inr (op, out)))" for p and op :: nat
    by (rule gives_bindE [OF gives_mono [OF assms]]) auto
  note p = this [of "drop 2 data"]
  then show ?thesis by (cases "unat (data ! 0) = 229") (simp_all add: kad_payload_def parse_kad_packet_def)
qed

lemma inv_addr:
  assumes "lookup_inv tg s" and "map_of (lk_addr s) a = Some d"
  shows "d \<in> keys (lk_tried s)"
proof -
  have "d \<in> snd ` set (lk_addr s)" using map_of_SomeD [OF assms(2)] by force
  with lookup_invD(5) [OF assms(1)] show ?thesis by blast
qed

lemma gives_on_datagram:
  assumes inv: "lookup_inv tg s" and z: "\<And>d. gives {ZlibError} (\<lambda>_. True) (z_decompress (lc_zlib cf) d)"
    and pf: "\<And>b. length b = 4 \<Longrightarrow> \<exists>c. pf (uf b) = Inr c"
  shows "gives ({StructError} \<union> net_errs (lc_send cf) tis) (\<lambda>t. lookup_inv tg (turn_state t)) (on_datagram uf pf cf ti deadline data a s)"
    (is "gives ?E ?P _")
proof -
  let ?s = "s\<lparr>lk_strikes := 0\<rparr>"
  have s: "lookup_inv tg ?s" by (rule inv_fields(2) [OF inv])
  show ?thesis
  proof (cases "map_of (lk_addr ?s) a")
    case None
    then show ?thesis using s by (simp add: on_datagram_def Let_def)
  next
    case (Some rdist)
    have rd: "rdist \<in> keys (lk_tried ?s)" by (rule inv_addr [OF s Some])
    show ?thesis
    proof (cases "kad_payload (lc_zlib cf) data")
      case (Inl e)
      with gives_kad_payload [OF z, of data] have "e = KadPacketError \<or> e = ZlibError" by simp
      with Inl Some s show ?thesis by (simp add: on_datagram_def Let_def)
    next
      case (Inr q)
      obtain opcode payload where q: "q = (opcode, payload)" by (cases q)
      note d = on_datagram_def Let_def Some [simplified] Inr q
      consider "opcode = KADEMLIA2_SEARCH_RES" | "opcode \<noteq> KADEMLIA2_SEARCH_RES" "opcode \<noteq> KADEMLIA2_RES"
        | "opcode \<noteq> KADEMLIA2_SEARCH_RES" "opcode = KADEMLIA2_RES" by blast
      then show ?thesis
      proof cases
        case 1
        with gives_search_answers [where uf = uf and pf = pf, OF pf, of payload] s inv_on_answers [OF s rd] show ?thesis
          by (cases "parse_search_res_answers uf pf payload") (auto simp: d)
      next
        case 2
        with s show ?thesis by (simp add: d)
      next
        case 3
        have "gives ?E ?P (bindE (on_contacts (lookup_conf.truncate cf) (search_key_req (lc_target cf)) ti a rdist contacts ?s)
            (\<lambda>s'. Inr (if ti_after ti \<ge> deadline then Stop s' else Go s')))" for contacts
          by (rule gives_bindE [OF gives_mono [OF gives_on_contacts [where tis = tis, OF s rd search_key_no_request]]]) (auto simp: lookup_conf.defs)
        with 3 show ?thesis
          using gives_kad2_res [of payload] s by (cases "parse_kad2_res payload") (auto simp: d)
      qed
    qed
  qed
qed

text \<open>What a turn raises that does not come from the socket is \<open>struct.error\<close>.\<close>

lemma gives_keyword_turn:
  assumes ti: "ti \<in> set tis" and inv: "lookup_inv (lc_target cf) s" and z: "\<And>d. gives {ZlibError} (\<lambda>_. True) (z_decompress (lc_zlib cf) d)"
    and pf: "\<And>b. length b = 4 \<Longrightarrow> \<exists>c. pf (uf b) = Inr c"
  shows "gives ({StructError} \<union> net_errs (lc_send cf) tis) (\<lambda>t. lookup_inv (lc_target cf) (turn_state t)) (keyword_turn uf pf cf ti s)"
    (is "gives ?E ?P _")
proof -
  let ?tg = "lc_target cf" and ?ok = "lc_send cf"
  have quiet: "gives ?E ?P (bindE (push_searches ?ok (search_key_req ?tg) s1) (\<lambda>s2. bindE (reask ?ok ?tg s2) (\<lambda>s3. Inr (strike ?tg s3))))"
    if s1: "lookup_inv ?tg s1" for s1 :: keyword_search
  proof (rule gives_bindE [OF gives_mono [OF gives_push_searches [where tis = tis, OF s1 search_key_no_request]]])
    show "lookup_inv ?tg s2 \<Longrightarrow> gives ?E ?P (bindE (reask ?ok ?tg s2) (\<lambda>s3. Inr (strike ?tg s3)))" for s2
      by (rule gives_bindE [OF gives_mono [OF gives_reask [where tis = tis]]]) (auto simp: inv_strike)
  qed auto
  have got: "gives ?E ?P (bindE (recv_dgram ti) (\<lambda>dg. case dg of
            None \<Rightarrow> bindE (push_searches ?ok (search_key_req ?tg) s1) (\<lambda>s2. bindE (reask ?ok ?tg s2) (\<lambda>s3. Inr (strike ?tg s3)))
          | Some (data, a) \<Rightarrow> on_datagram uf pf cf ti dl data a s1))" if "lookup_inv ?tg s1" for s1 :: keyword_search and dl
    by (rule gives_bindE [OF gives_mono [OF gives_recv [OF ti, of ?ok]]])
      (use quiet [OF that] gives_on_datagram [where uf = uf and pf = pf and cf = cf and tis = tis, OF that z pf] in \<open>auto split: option.split prod.split\<close>)
  have "gives ?E ?P (bindE (ask_round ?ok 0 ?tg s) (\<lambda>s1. bindE (recv_dgram ti) (\<lambda>dg. case dg of
            None \<Rightarrow> bindE (push_searches ?ok (search_key_req ?tg) s1) (\<lambda>s2. bindE (reask ?ok ?tg s2) (\<lambda>s3. Inr (strike ?tg s3)))
          | Some (data, a) \<Rightarrow> on_datagram uf pf cf ti dl data a s1)))" for dl
    by (rule gives_bindE [OF gives_mono [OF gives_ask_round [where tis = tis, OF inv]]]) (use got in auto)
  with inv show ?thesis by (simp add: keyword_turn_def Let_def)
qed

lemma inv_keyword_start: "lookup_inv tg (keyword_start cf pool zn start)"
  using inv_start [of tg "lc_target cf" pool zn start]
  by (simp add: keyword_start_def lookup_inv_def asked_log_def requests_def lookup.defs)


section \<open>What a search can count on\<close>

lemma keyword_loop_safe:
  assumes "\<And>d. gives {ZlibError} (\<lambda>_. True) (z_decompress (lc_zlib cf) d)" and "\<And>b. length b = 4 \<Longrightarrow> \<exists>c. pf (uf b) = Inr c"
  shows "gives ({StructError} \<union> net_errs (lc_send cf) turns) (\<lambda>t. lookup_inv (lc_target cf) (turn_state t))
    (run_turns (keyword_turn uf pf cf) turns (keyword_start cf pool zn start))"
  by (rule gives_run_turns [where P = "lookup_inv (lc_target cf)"], rule gives_keyword_turn, assumption, assumption,
      rule assms(1), rule assms(2), assumption, rule inv_keyword_start)

text \<open>A send that the loop of a quiet window makes changes no other field.\<close>

lemma ask_loop_more:
  fixes s :: "'a asking_scheme"
  shows "ask_loop ok mv target ds asked s = Inr s1 \<Longrightarrow>
    lk_responded s1 = lk_responded s \<and> as_rewards s1 = as_rewards s \<and> as_asked s1 = as_asked s \<and> asking.more s1 = asking.more s"
proof (induction ds arbitrary: asked s)
  case Nil
  then show ?case by simp
next
  case (Cons d ds)
  show ?case
  proof (cases "asked \<ge> ALPHA \<or> d \<in> keys (lk_tried s)")
    case True
    with Cons.IH [of asked s] Cons.prems show ?thesis by (auto split: if_splits)
  next
    case False
    with Cons.prems obtain c where c: "map_of (lk_possible s) d = Some c" by (auto split: option.splits)
    show ?thesis
    proof (cases "cd_version c < mv")
      case True
      with False c Cons.prems Cons.IH [of asked "s\<lparr>lk_possible := dict_del d (lk_possible s)\<rparr>"] show ?thesis by (auto simp: Let_def)
    next
      case v: False
      define s2 where "s2 = sent (find_value_req target (cd_id c) FIND_VALUE) (cd_ip c, cd_udp c)
          (s\<lparr>lk_possible := dict_del d (lk_possible s), lk_tried := dict_set d c (lk_tried s), lk_addr := dict_set (cd_ip c, cd_udp c) d (lk_addr s)\<rparr>)"
      have "ask_loop ok mv target ds (asked + 1) s2 = Inr s1"
        using False v c Cons.prems by (auto simp: Let_def s2_def send_dgram_Inr bindE_eq_Inr_conv)
      from Cons.IH [OF this] show ?thesis by (simp add: s2_def sent_def)
    qed
  qed
qed

lemma seed_walk_more:
  fixes s :: "'a asking_scheme"
  shows "lk_responded (snd (seed_walk target cnt added ns s)) = lk_responded s \<and> as_rewards (snd (seed_walk target cnt added ns s)) = as_rewards s \<and>
    asking.more (snd (seed_walk target cnt added ns s)) = asking.more s"
  by (induction ns arbitrary: added s) (auto simp: Let_def)

lemma reask_more:
  fixes s :: "'a asking_scheme"
  shows "reask ok target s = Inr s1 \<Longrightarrow>
    lk_responded s1 = lk_responded s \<and> as_rewards s1 = as_rewards s \<and> asking.more s1 = asking.more s"
  by (auto simp: reask_def Let_def send_dgram_Inr sent_def split: if_splits option.splits)

lemma strike_more:
  fixes s :: "'a asking_scheme"
  shows "lk_responded (turn_state (strike target s)) = lk_responded s \<and> as_rewards (turn_state (strike target s)) = as_rewards s \<and>
    asking.more (turn_state (strike target s)) = asking.more s"
proof -
  let ?s = "s\<lparr>lk_strikes := lk_strikes s + 1\<rparr>"
  obtain n s2 where sm: "seed_more target ALPHA ?s = (n, s2)" by fastforce
  from seed_walk_more [of target ALPHA 0 "lk_pool ?s" ?s] sm show ?thesis
    by (auto simp: strike_def Let_def seed_more_def)
qed

text \<open>Nothing has been heard.\<close>

definition unheard :: "'a asking_scheme \<Rightarrow> bool" where
  "unheard s \<longleftrightarrow> lk_responded s = [] \<and> as_rewards s = []"

lemma keyword_start_fields:
  "unheard (keyword_start cf pool zn start)" "ks_results (keyword_start cf pool zn start) = []"
  "lk_strikes (keyword_start cf pool zn start) = 0" "silence (keyword_start cf pool zn start) \<le> 4 * length pool + 2"
proof -
  let ?s = "\<lparr>lk_tried = [], lk_responded = [], lk_possible = [], lk_addr = [], lk_reasked = False, lk_strikes = 0,
        lk_pool = pool, lk_progress = start, lk_zone = zn, lk_sent = []\<rparr>"
  have "lk_responded (snd (seed_walk target cnt added ns s)) = lk_responded s" for target cnt added ns and s :: "lookup"
    by (induction ns arbitrary: added s) (auto simp: Let_def)
  then have "lk_responded (lookup_start (lc_target cf) pool zn start) = []" by (simp add: lookup_start_def seed_more_def)
  then show "unheard (keyword_start cf pool zn start)" "ks_results (keyword_start cf pool zn start) = []"
    by (simp_all add: unheard_def keyword_start_def lookup.defs)
  show "lk_strikes (keyword_start cf pool zn start) = 0" "silence (keyword_start cf pool zn start) \<le> 4 * length pool + 2"
    using start_fields [of "lc_target cf" pool zn start] by (simp_all add: keyword_start_def lookup.defs silence_def)
qed

definition quiet_state :: "kad_id \<Rightarrow> keyword_search \<Rightarrow> bool" where
  "quiet_state tg s \<longleftrightarrow> lookup_inv tg s \<and> lk_strikes s \<le> 1 \<and> unheard s \<and> ks_results s = []"

lemma quiet_rest:
  fixes s :: keyword_search
  assumes q: "quiet_state tg s" and s1: "ask_round ok mv tg s = Inr s1" "lookup_inv tg s1"
    and s2: "reask ok tg s1 = Inr s2" "lookup_inv tg s2"
  defines "t \<equiv> strike tg s2"
  shows "unheard (turn_state t) \<and> ks_results (turn_state t) = []"
    and "t = Go s' \<Longrightarrow> quiet_state tg s' \<and> silence s' < silence s"
proof -
  note u = q [unfolded quiet_state_def unheard_def]
  have m1: "lk_responded s1 = []" "as_rewards s1 = []" "asking.more s1 = asking.more s"
    using ask_loop_more [OF s1(1) [unfolded ask_round_def]] u by simp_all
  have more: "unheard (turn_state t)" "asking.more (turn_state t) = asking.more s"
    using strike_more [of tg s2] reask_more [OF s2(1)] m1 by (simp_all add: unheard_def t_def)
  have res: "ks_results (turn_state t) = []" using more(2) u by (cases "turn_state t"; cases s) auto
  show "unheard (turn_state t) \<and> ks_results (turn_state t) = []" using more(1) res by simp
  assume t: "t = Go s'"
  have "lk_strikes s' \<le> 1 \<and> silence s' < silence s"
    by (rule quiet_turn_progress [where tg = tg, OF _ _ s1(1) _ _ _ t [unfolded t_def]]) (use u reask_fields [OF s2(1)] in simp_all)
  moreover have "lookup_inv tg s'" using inv_strike [OF s2(2), of tg] t by (simp add: t_def)
  ultimately show "quiet_state tg s' \<and> silence s' < silence s" using more(1) res t by (simp add: quiet_state_def)
qed

lemma quiet_keyword_turn:
  assumes ti: "ti \<in> set tis" and q: "quiet_state (lc_target cf) s" and none: "ti_datagram ti = None"
  shows "gives (net_errs (lc_send cf) tis)
    (\<lambda>t. (unheard (turn_state t) \<and> ks_results (turn_state t) = []) \<and> (\<forall>s'. t = Go s' \<longrightarrow> quiet_state (lc_target cf) s' \<and> silence s' < silence s))
    (keyword_turn uf pf cf ti s)" (is "gives ?E ?P _")
proof (cases "ti_now ti \<ge> effective_deadline (lookup_conf.truncate cf) s")
  case True
  with q show ?thesis by (simp add: keyword_turn_def quiet_state_def)
next
  case False
  let ?tg = "lc_target cf" and ?ok = "lc_send cf"
  have inv: "lookup_inv ?tg s" using q by (simp add: quiet_state_def)
  show ?thesis
  proof (cases "ask_round ?ok 0 ?tg s")
    case (Inl e)
    with gives_ask_round [OF inv, of ?ok tis 0] False show ?thesis by (simp add: keyword_turn_def Let_def)
  next
    case (Inr s1)
    with gives_ask_round [OF inv, of ?ok tis 0] have i1: "lookup_inv ?tg s1" by simp
    have "lk_responded s1 = []"
      using ask_loop_more [OF Inr [unfolded ask_round_def]] q by (simp add: quiet_state_def unheard_def)
    then have push: "push_searches ?ok (search_key_req ?tg) s1 = Inr s1"
      by (simp add: push_searches_def pending_search_def ask_searches_def)
    have strike: "gives ?E ?P (bindE (reask ?ok ?tg s1) (\<lambda>s2. Inr (strike ?tg s2)))"
      using gives_reask [OF i1, of ?ok tis] quiet_rest [OF q Inr i1] by (cases "reask ?ok ?tg s1") auto
    have "gives ?E ?P (bindE (recv_dgram ti) (\<lambda>dg. case dg of
            None \<Rightarrow> bindE (push_searches ?ok (search_key_req ?tg) s1) (\<lambda>s2. bindE (reask ?ok ?tg s2) (\<lambda>s3. Inr (strike ?tg s3)))
          | Some (data, a) \<Rightarrow> on_datagram uf pf cf ti dl data a s1))" for dl
      by (rule gives_bindE [OF gives_recv [OF ti, of ?ok]]) (use none push strike in simp)
    with False Inr show ?thesis by (simp add: keyword_turn_def Let_def)
  qed
qed

lemma silent_run_stops:
  assumes "quiet_state (lc_target cf) s" and "\<forall>ti \<in> set turns. ti_datagram ti = None" and "silence s < length turns"
  shows "gives (net_errs (lc_send cf) turns) (\<lambda>t. \<exists>s'. t = Stop s' \<and> unheard s' \<and> ks_results s' = [])
    (run_turns (keyword_turn uf pf cf) turns s)"
  by (rule run_turns_stops [where P = "quiet_state (lc_target cf)" and m = silence, OF quiet_keyword_turn assms(1,3)])
    (use assms(2) in auto)

lemma length_closest: "length (closest own target n z) \<le> n"
proof -
  have "length rs \<le> n \<Longrightarrow> length (collect_closest own target n z rs) \<le> n" for rs
    by (induction own target n z rs rule: collect_closest.induct) (auto simp: Let_def)
  then show ?thesis by (simp add: closest_def)
qed

text \<open>A search in which nothing is heard ends after at most 483 turns, whatever the clock says.\<close>

lemma silent_search_empty:
  assumes "utf8_encode query = Some e" and "length (md4 e) = 16"
    and silent: "\<forall>ti \<in> set turns. ti_datagram ti = None" and "483 \<le> length turns"
  shows "gives (net_errs ok turns) (\<lambda>r. \<exists>rep. r = Some rep \<and> sr_results rep = [] \<and> sr_responded rep = 0)
    (kad_keyword_search md4 uf pf z ok True query own zn timeout idle_extend max_results start turns t0 late)" (is "gives ?E ?P _")
proof -
  obtain target where target: "keyword_target md4 query = Inr target" using assms(1,2) by (auto simp: keyword_target_def from_be_bytes_def)
  define cf where "cf = \<lparr>lc_target = target, lc_own = own, lc_hard = start + timeout, lc_idle = idle_extend, lc_zlib = z, lc_send = ok,
                   kc_max_results = max_results\<rparr>"
  define pool where "pool = map raw_pool_node (closest own target 120 zn)"
  have ok: "lc_send cf = ok" by (simp add: cf_def)
  let ?s = "keyword_start cf pool zn start"
  have "length pool \<le> 120" using length_closest by (simp add: pool_def)
  then have few: "silence ?s < length turns" using keyword_start_fields(4) [of cf pool zn start] assms(4) by simp
  have q: "quiet_state (lc_target cf) ?s" using keyword_start_fields [of cf pool zn start] inv_keyword_start by (simp add: quiet_state_def)
  have "gives ?E ?P (bindE (run_turns (keyword_turn uf pf cf) turns ?s) (\<lambda>t. case t of Go _ \<Rightarrow> Inr None
           | Stop s \<Rightarrow> bindE (delayed_reask uf pf cf t0 late s) (\<lambda>u.
                 case u of Go _ \<Rightarrow> Inr None | Stop s' \<Rightarrow> Inr (Some (report_of query target s')))))"
    by (rule gives_bindE [OF silent_run_stops [OF q silent few, unfolded ok]])
      (auto simp: delayed_reask_def best_rewarded_def unheard_def report_of_def)
  with target show ?thesis
    by (simp add: kad_keyword_search_def Let_def cf_def [symmetric] pool_def [symmetric])
qed

lemma run_turns_append:
  "run_turns f (is @ js) s = bindE (run_turns f is s) (\<lambda>t. case t of Stop s' \<Rightarrow> Inr (Stop s') | Go s' \<Rightarrow> run_turns f js s')"
proof (induction "is" arbitrary: s)
  case (Cons i "is")
  show ?case by (cases "f i s") (auto simp: Cons split: turn.split)
qed simp

text \<open>The datagram of \<open>bad_text_answer\<close>, from a node that was asked, ends the search.\<close>

lemma bad_answer_raises:
  assumes "length source = 16" and "length target = 16" and "length h = 16" and "21846 \<le> n" and "n < 2 ^ 16"
    and "ti_now ti < effective_deadline (lookup_conf.truncate cf) s" and "ask_round (lc_send cf) 0 (lc_target cf) s = Inr s1"
    and "a \<in> keys (lk_addr s1)" and "\<not> ti_recv_fails ti"
    and "ti_datagram ti = Some (kad_header KAD_PROTOCOL KADEMLIA2_SEARCH_RES @ bad_text_answer source target h n, a)"
  shows "keyword_turn uf pf cf ti s = Inl StructError"
proof -
  let ?p = "bad_text_answer source target h n"
  have pay: "kad_payload z (kad_header KAD_PROTOCOL KADEMLIA2_SEARCH_RES @ ?p) = Inr (KADEMLIA2_SEARCH_RES, ?p)" for z
    by (simp add: kad_payload_def parse_kad_packet_def kad_header_def KAD_PROTOCOL_def KADEMLIA2_SEARCH_RES_def)
  obtain d where d: "map_of (lk_addr s1) a = Some d" using assms(8) map_of_keys [of "lk_addr s1" a] by auto
  show ?thesis
    using assms(6,7,9,10) d by (simp add: keyword_turn_def recv_dgram_def Let_def on_datagram_def pay bad_text_struct_error [OF assms(1-5)])
qed


section \<open>Properties\<close>

text \<open>
  C28. The keyword lookup keeps its books. Whatever datagrams arrive, no exception leaves the loop but
  \<open>struct.error\<close> and the \<open>OSError\<close> of a send or receive that failed (in particular no \<open>KeyError\<close> from
  \<open>tried[d]\<close> or \<open>possible.pop(d)\<close>); no distance is tried and a candidate at once; every answer counted is one of a
  node that was asked; and the log of the requests for contacts is exact: those for two contacts are one
  for each node tried, with its identifier, to its address, in the order in which they were tried, and at most
  one more, for eleven contacts, went to a node tried.
\<close>

theorem keyword_lookup_safe:
  assumes "\<And>d. gives {ZlibError} (\<lambda>_. True) (z_decompress (lc_zlib cf) d)" and "\<And>b. length b = 4 \<Longrightarrow> \<exists>c. pf (uf b) = Inr c"
  shows "gives {e. e = StructError \<or> e = OSError \<and> ((\<exists>n a. \<not> lc_send cf n a) \<or> (\<exists>ti \<in> set turns. ti_recv_fails ti))}
    (\<lambda>t. lookup_inv (lc_target cf) (turn_state t))
    (run_turns (keyword_turn uf pf cf) turns (keyword_start cf pool zn start))"
  by (rule gives_mono [OF keyword_loop_safe [where uf = uf and pf = pf, OF assms]]) (auto simp: net_errs_def split: if_splits)

definition quiet_zlib :: zlib where
  "quiet_zlib = \<lparr>z_compress = (\<lambda>d n. d), z_decompress = (\<lambda>d. Inl ZlibError), z_decompressobj = (\<lambda>d n. Inl ZlibError)\<rparr>"

definition sample_conf :: keyword_conf where
  "sample_conf = \<lparr>lc_target = 5, lc_own = 1, lc_hard = 30, lc_idle = 10, lc_zlib = quiet_zlib, lc_send = (\<lambda>n a. snd a \<noteq> 0), kc_max_results = 200\<rparr>"

definition sample_pool :: "pool_node list" where
  "sample_pool = [\<lparr>pn_id = Kad_Id 7, pn_ip = ''10.0.0.9'', pn_udp = 4672, pn_tcp = 4662, pn_version = 8\<rparr>]"

definition sample_turn :: "(bytes \<times> node_addr) option \<Rightarrow> turn_in" where
  "sample_turn d = \<lparr>ti_now = 1, ti_datagram = d, ti_recv_fails = False, ti_progress = 1, ti_after = 1, ti_wall = 1\<rparr>"

lemma keyword_lookup_safe_witness:
  "gives {e. e = StructError \<or> e = OSError \<and> ((\<exists>n a. \<not> lc_send sample_conf n a) \<or>
        (\<exists>ti \<in> set [sample_turn (Some ([0xE5, 0x29, 1], (''10.0.0.9'', 4672)))]. ti_recv_fails ti))}
     (\<lambda>t. lookup_inv (lc_target sample_conf) (turn_state t))
     (run_turns (keyword_turn (\<lambda>b. b) Inr sample_conf) [sample_turn (Some ([0xE5, 0x29, 1], (''10.0.0.9'', 4672)))]
        (keyword_start sample_conf sample_pool zone_new 0))"
  by (rule keyword_lookup_safe) (simp_all add: sample_conf_def quiet_zlib_def)

text \<open>
  C15. A search that hears nothing returns: at the latest after 483 turns of the loop, whatever the clock
  says, it has a report with no results and no responders, unless the socket raises: then the search ends
  with that \<open>OSError\<close>, which nothing in it catches. So it returns its report whenever every datagram can be
  sent and no receive fails. (Each seed and each candidate is asked once, and two quiet turns without either
  end the loop.)
\<close>

theorem silent_search_returns:
  assumes "utf8_encode query = Some e" and "length (md4 e) = 16"
    and "\<forall>ti \<in> set turns. ti_datagram ti = None" and "483 \<le> length turns"
  shows "(\<exists>r. kad_keyword_search md4 uf pf z ok True query own zn timeout idle_extend max_results start turns t0 late = Inr (Some r) \<and>
      sr_results r = [] \<and> sr_responded r = 0) \<or>
    kad_keyword_search md4 uf pf z ok True query own zn timeout idle_extend max_results start turns t0 late = Inl OSError \<and>
      ((\<exists>n a. \<not> ok n a) \<or> (\<exists>ti \<in> set turns. ti_recv_fails ti))"
  using silent_search_empty [where query = query and ?md4.0 = md4 and e = e and uf = uf and pf = pf and z = z and ok = ok and own = own and zn = zn
      and timeout = timeout and idle_extend = idle_extend and max_results = max_results and start = start and ?t0.0 = t0 and late = late, OF assms]
  by (cases "kad_keyword_search md4 uf pf z ok True query own zn timeout idle_extend max_results start turns t0 late")
    (auto simp: net_errs_def split: if_splits)

text \<open>All sends leave: the search of a routing table with one node, which does not answer, has its report.\<close>

definition sample_zone :: zone where
  "sample_zone = snd (zone_add 0 1 (node_from_contact (replicate 16 2, ''10.0.0.1'', 4672, 4662, 8)) zone_new)"

lemma silent_search_returns_witness:
  "\<exists>r. kad_keyword_search (\<lambda>_. replicate 16 0) (\<lambda>b. b) Inr quiet_zlib (\<lambda>_ _. True) True [0x61] 1 sample_zone 30 10 200 0
     (replicate 483 (sample_turn None)) 0 [] = Inr (Some r) \<and> sr_results r = [] \<and> sr_responded r = 0"
  using silent_search_returns [of "[0x61]" "[0x61]" "\<lambda>_. replicate 16 0" "replicate 483 (sample_turn None)" "\<lambda>b. b" Inr quiet_zlib "\<lambda>_ _. True"
      1 sample_zone 30 10 200 0 0 "[]"]
  by (simp add: utf8_cp_def sample_turn_def)

text \<open>One send that fails, and the search raises: here the only seed has the UDP port 0.\<close>

lemma port_zero_ends_search:
  assumes "ti_now ti < effective_deadline (lookup_conf.truncate cf) s" and "lk_possible s = [(d, c)]" and "d \<notin> keys (lk_tried s)"
    and "\<And>n. \<not> lc_send cf n (cd_ip c, cd_udp c)"
  shows "keyword_turn uf pf cf ti s = Inl OSError"
  using assms by (simp add: keyword_turn_def ask_round_def ALPHA_def Let_def send_dgram_def)

text \<open>
  C40. One datagram of a node that was asked ends a keyword search with \<open>struct.error\<close>, and what was found is lost: a
  \<open>KADEMLIA2_SEARCH_RES\<close> with a text of at least 21846 bytes that are not UTF-8, since the text is
  three times as long when it is encoded again for \<open>raw_tags\<close>.
\<close>

theorem hostile_answer_ends_search:
  assumes "run_turns (keyword_turn uf pf cf) turns (keyword_start cf pool zn start) = Inr (Go s)"
    and "length source = 16" and "length target = 16" and "length h = 16" and "21846 \<le> n" and "n < 2 ^ 16"
    and "ti_now ti < effective_deadline (lookup_conf.truncate cf) s" and "ask_round (lc_send cf) 0 (lc_target cf) s = Inr s1"
    and "a \<in> keys (lk_addr s1)" and "\<not> ti_recv_fails ti"
    and "ti_datagram ti = Some (kad_header KAD_PROTOCOL KADEMLIA2_SEARCH_RES @ bad_text_answer source target h n, a)"
  shows "run_turns (keyword_turn uf pf cf) (turns @ ti # later) (keyword_start cf pool zn start) = Inl StructError"
  using assms(1) bad_answer_raises [where uf = uf and pf = pf, OF assms(2-11)] by (simp add: run_turns_append)

lemma hostile_answer_ends_search_witness:
  "run_turns (keyword_turn (\<lambda>b. b) Inr sample_conf)
     ([] @ sample_turn (Some (kad_header KAD_PROTOCOL KADEMLIA2_SEARCH_RES @
        bad_text_answer (replicate 16 1) (replicate 16 2) (replicate 16 3) 21846, (''10.0.0.9'', 4672))) # [])
     (keyword_start sample_conf sample_pool zone_new 0) = Inl StructError"
proof -
  let ?s = "keyword_start sample_conf sample_pool zone_new 0"
  obtain s1 where s1: "ask_round (lc_send sample_conf) 0 (lc_target sample_conf) ?s = Inr s1" "(''10.0.0.9'', 4672) \<in> keys (lk_addr s1)"
    by (simp add: ask_round_def keyword_start_def lookup_start_def seed_more_def sample_conf_def sample_pool_def lookup.defs
        Let_def ALPHA_def dict_set_def send_dgram_def sent_def keys_def)
  show ?thesis
    by (rule hostile_answer_ends_search [where s = ?s and ?s1.0 = s1 and a = "(''10.0.0.9'', 4672)", OF _ _ _ _ _ _ _ s1])
      (simp_all add: sample_turn_def effective_deadline_def keyword_start_def lookup_start_def seed_more_def sample_conf_def
        sample_pool_def lookup.defs lookup_conf.defs Let_def ALPHA_def)
qed

end
