(* ===== verification/Kad_Sources.thy ===== *)
theory Kad_Sources
  imports Kad_Search
begin

text \<open>
  \<open>core/kad/source_search.py\<close>: who has a file. The lookup and the answer list are those of the keyword
  search; what is read of a tag list, the version a candidate needs, the request and the end of the
  loop are its own. IPv6 addresses are kept as their sixteen bytes, of which the code keeps the
  canonical text.
\<close>

section \<open>Requests and entries\<close>

definition build_search_source_req :: "kad_id \<Rightarrow> int \<Rightarrow> bytes res" where
  "build_search_source_req target file_size =
     (if file_size < 0 then Inl ValueError
      else bindE (pack_le 8 (nat file_size)) (\<lambda>sz. Inr (kad_to_bytes target @ le_enc 2 0 @ sz)))"

definition ascii_string :: "ustr \<Rightarrow> string option" where
  "ascii_string s = (if list_all (\<lambda>c. c < 128) s then Some (map char_of s) else None)"

text \<open>\<open>bytes.fromhex\<close> skips white space, so a text of 32 characters may have fewer bytes; \<open>IPv6Address\<close> refuses those.\<close>

definition parse_ipv6_hex :: "ustr \<Rightarrow> bytes option" where
  "parse_ipv6_hex hexs =
     (if length hexs \<noteq> 32 then None
      else case ascii_string hexs of
        None \<Rightarrow> None
      | Some t \<Rightarrow> (case from_hex t of None \<Rightarrow> None | Some raw \<Rightarrow> if length raw = 16 then Some raw else None))"

record source_fields =
  sf_source_type :: int
  sf_ip :: "string option"
  sf_tcp_port :: int
  sf_udp_port :: int
  sf_buddy_ip :: "string option"
  sf_buddy_port :: int
  sf_buddy_hash :: "ustr option"
  sf_crypt_options :: int
  sf_ipv6 :: "bytes option"
  sf_buddy_ipv6 :: "bytes option"

definition no_fields :: source_fields where
  "no_fields = \<lparr>sf_source_type = 0, sf_ip = None, sf_tcp_port = 0, sf_udp_port = 0, sf_buddy_ip = None, sf_buddy_port = 0,
     sf_buddy_hash = None, sf_crypt_options = 0, sf_ipv6 = None, sf_buddy_ipv6 = None\<rparr>"

definition TAGNAME_SOURCETYPE :: bytes where "TAGNAME_SOURCETYPE = [0xFF]"
definition TAGNAME_SOURCEIP :: bytes where "TAGNAME_SOURCEIP = [0xFE]"
definition TAGNAME_SOURCEPORT :: bytes where "TAGNAME_SOURCEPORT = [0xFD]"
definition TAGNAME_SOURCEUPORT :: bytes where "TAGNAME_SOURCEUPORT = [0xFC]"
definition TAGNAME_SERVERIP :: bytes where "TAGNAME_SERVERIP = [0xFB]"
definition TAGNAME_SERVERPORT :: bytes where "TAGNAME_SERVERPORT = [0xFA]"
definition TAGNAME_BUDDYHASH :: bytes where "TAGNAME_BUDDYHASH = [0xF8]"
definition TAGNAME_ENCRYPTION :: bytes where "TAGNAME_ENCRYPTION = [0xF3]"
definition TAGNAME_IPV6 :: bytes where "TAGNAME_IPV6 = [0x69, 0x70, 0x36]"
definition TAGNAME_BUDDYIPV6 :: bytes where "TAGNAME_BUDDYIPV6 = [0x62, 0x69, 0x36]"

lemmas source_names = TAGNAME_SOURCETYPE_def TAGNAME_SOURCEIP_def TAGNAME_SOURCEPORT_def TAGNAME_SOURCEUPORT_def
  TAGNAME_SERVERIP_def TAGNAME_SERVERPORT_def TAGNAME_BUDDYHASH_def TAGNAME_ENCRYPTION_def TAGNAME_IPV6_def TAGNAME_BUDDYIPV6_def

text \<open>\<open>ipaddress.IPv4Address(struct.pack("<I", v))\<close>: its text and its first number.\<close>

definition packed_ip :: "int \<Rightarrow> (string \<times> nat) res" where
  "packed_ip v =
     (if v < 0 then Inl StructError
      else bindE (pack_le 4 (nat v)) (\<lambda>b. Inr (ipv4_str (be_dec b), be_dec b div 2 ^ 24)))"

definition is_port :: "int \<Rightarrow> bool" where
  "is_port v \<longleftrightarrow> 0 < v \<and> v \<le> 0xFFFF"

text \<open>One turn of the loop over the tags, for the values that are integers and for texts.\<close>

definition note_source_int :: "bytes \<Rightarrow> int \<Rightarrow> source_fields \<Rightarrow> source_fields res" where
  "note_source_int name v f =
     (if name = TAGNAME_SOURCETYPE then Inr (f\<lparr>sf_source_type := v\<rparr>)
      else if name = TAGNAME_SOURCEIP then
        (if v = 0 then Inr f
         else bindE (packed_ip v) (\<lambda>(ip, first). Inr (if 0 < first \<and> first < 224 then f\<lparr>sf_ip := Some ip\<rparr> else f)))
      else if name = TAGNAME_SOURCEPORT then Inr (if is_port v then f\<lparr>sf_tcp_port := v\<rparr> else f)
      else if name = TAGNAME_SOURCEUPORT then Inr (if is_port v then f\<lparr>sf_udp_port := v\<rparr> else f)
      else if name = TAGNAME_SERVERIP then
        (if v = 0 then Inr f else bindE (packed_ip v) (\<lambda>(ip, _). Inr (f\<lparr>sf_buddy_ip := Some ip\<rparr>)))
      else if name = TAGNAME_SERVERPORT then Inr (if is_port v then f\<lparr>sf_buddy_port := v\<rparr> else f)
      else if name = TAGNAME_ENCRYPTION then Inr (f\<lparr>sf_crypt_options := v\<rparr>)
      else Inr f)"

definition note_source_text :: "bytes \<Rightarrow> ustr \<Rightarrow> source_fields \<Rightarrow> source_fields" where
  "note_source_text name s f =
     (if name = TAGNAME_BUDDYHASH then f\<lparr>sf_buddy_hash := Some s\<rparr>
      else if name = TAGNAME_IPV6 then f\<lparr>sf_ipv6 := parse_ipv6_hex s\<rparr>
      else if name = TAGNAME_BUDDYIPV6 then f\<lparr>sf_buddy_ipv6 := parse_ipv6_hex s\<rparr>
      else f)"

definition note_source_tag :: "source_fields \<Rightarrow> 'f kad_tag \<Rightarrow> source_fields res" where
  "note_source_tag f t =
     (case t of (name, _, v) \<Rightarrow>
        case v of VInt i \<Rightarrow> note_source_int name i f | VStr s \<Rightarrow> Inr (note_source_text name s f) | _ \<Rightarrow> Inr f)"

definition source_entry :: "bytes \<Rightarrow> 'f kad_tag list \<Rightarrow> (bytes \<times> source_fields) res" where
  "source_entry source_id tags = bindE (foldE note_source_tag no_fields tags) (\<lambda>f. Inr (source_id, f))"

definition parse_search_res_source_entries :: "(bytes \<Rightarrow> 'f) \<Rightarrow> bytes \<Rightarrow> (bytes \<times> source_fields) list res" where
  "parse_search_res_source_entries unpack_f payload = parse_search_res unpack_f source_entry payload"

section \<open>State\<close>

record file_source = source_fields +
  fs_file_hash :: bytes
  fs_source_id :: bytes

record source_search = asking +
  ss_sources :: "(bytes \<times> file_source) list"
  ss_seen :: "(bytes \<times> string option \<times> int) list"

record source_conf = lookup_conf +
  oc_file_hash :: bytes
  oc_file_size :: int
  oc_max_sources :: int

definition file_source_of :: "bytes \<Rightarrow> bytes \<Rightarrow> source_fields \<Rightarrow> file_source" where
  "file_source_of fh sid f = source_fields.extend f \<lparr>fs_file_hash = fh, fs_source_id = sid\<rparr>"

definition dialable :: "'a source_fields_scheme \<Rightarrow> bool" where
  "dialable f \<longleftrightarrow> sf_ip f \<noteq> None \<and> sf_tcp_port f > 0"

fun add_entries :: "source_conf \<Rightarrow> (bytes \<times> source_fields) list \<Rightarrow> source_search \<Rightarrow> source_search" where
  "add_entries cf [] s = s"
| "add_entries cf ((sid, f) # es) s =
     (let key = (sid, sf_ip f, sf_tcp_port f) in
      if key \<in> set (ss_seen s) then add_entries cf es s
      else
        let s1 = s\<lparr>ss_seen := key # ss_seen s, ss_sources := dict_set sid (file_source_of (oc_file_hash cf) sid f) (ss_sources s)\<rparr> in
        if int (length (ss_sources s1)) \<ge> oc_max_sources cf then s1 else add_entries cf es s1)"

section \<open>The search\<close>

definition search_source_req :: "source_conf \<Rightarrow> bytes res" where
  "search_source_req cf =
     bindE (build_search_source_req (lc_target cf) (oc_file_size cf)) (\<lambda>p.
       Inr (kad_header KAD_PROTOCOL KADEMLIA2_SEARCH_SOURCE_REQ @ p))"

text \<open>The request is built only when there is somebody to send it to.\<close>

definition push_source_reqs :: "source_conf \<Rightarrow> source_search \<Rightarrow> source_search res" where
  "push_source_reqs cf s =
     bindE (pending_search s) (\<lambda>as.
       if as = [] then Inr s
       else bindE (search_source_req cf) (\<lambda>req. ask_searches (lc_send cf) req (take ALPHA as) s))"

definition on_source_answers :: "source_conf \<Rightarrow> turn_in \<Rightarrow> node_addr \<Rightarrow> kad_id \<Rightarrow> (bytes \<times> source_fields) list \<Rightarrow> source_search \<Rightarrow> source_search turn" where
  "on_source_answers cf ti a rdist entries s =
     (let s1 = add_entries cf entries (award a 2 ((heard ti a s)\<lparr>lk_responded := dict_set rdist True (lk_responded s)\<rparr>)) in
      if int (length (ss_sources s1)) \<ge> oc_max_sources cf then Stop s1 else Go s1)"

definition on_source_contacts :: "source_conf \<Rightarrow> turn_in \<Rightarrow> node_addr \<Rightarrow> kad_id \<Rightarrow> res_contact list \<Rightarrow> source_search \<Rightarrow> source_search turn res" where
  "on_source_contacts cf ti a rdist contacts s =
     bindE (if a \<in> set (as_asked s) then Inr [] else search_source_req cf) (\<lambda>req.
       bindE (on_contacts (lookup_conf.truncate cf) req ti a rdist contacts s) (\<lambda>s1.
       Inr (if int (length (ss_sources s1)) \<ge> oc_max_sources cf then Stop s1 else Go s1)))"

definition on_source_datagram :: "(bytes \<Rightarrow> 'f) \<Rightarrow> source_conf \<Rightarrow> turn_in \<Rightarrow> bytes \<Rightarrow> node_addr \<Rightarrow> source_search \<Rightarrow> source_search turn res" where
  "on_source_datagram uf cf ti data a s0 =
     (let s = s0\<lparr>lk_strikes := 0\<rparr> in
      case map_of (lk_addr s) a of
        None \<Rightarrow> Inr (Go s)
      | Some rdist \<Rightarrow>
          (case kad_payload (lc_zlib cf) data of
             Inl e \<Rightarrow> if e = KadPacketError \<or> e = ZlibError then Inr (Go s) else Inl e
           | Inr (opcode, payload) \<Rightarrow>
               if opcode = KADEMLIA2_SEARCH_RES then
                 (case parse_search_res_source_entries uf payload of
                    Inl e \<Rightarrow> if e = KadSearchError then Inr (Go s) else Inl e
                  | Inr entries \<Rightarrow> Inr (on_source_answers cf ti a rdist entries s))
               else if opcode \<noteq> KADEMLIA2_RES then Inr (Go s)
               else
                 (case parse_kad2_res payload of
                    Inl e \<Rightarrow> if e = KadSearchError then Inr (Go s) else Inl e
                  | Inr contacts \<Rightarrow> on_source_contacts cf ti a rdist contacts s)))"

definition SOURCE_MIN_VERSION :: nat where "SOURCE_MIN_VERSION = 3"

definition source_turn :: "(bytes \<Rightarrow> 'f) \<Rightarrow> source_conf \<Rightarrow> turn_in \<Rightarrow> source_search \<Rightarrow> source_search turn res" where
  "source_turn uf cf ti s =
     (let target = lc_target cf in
      if ti_now ti \<ge> effective_deadline (lookup_conf.truncate cf) s then Inr (Stop s)
      else
        bindE (ask_round (lc_send cf) SOURCE_MIN_VERSION target s) (\<lambda>s1.
        bindE (recv_dgram ti) (\<lambda>dg.
          case dg of
            None \<Rightarrow>
              bindE (push_source_reqs cf s1) (\<lambda>s2.
              bindE (reask (lc_send cf) target s2) (\<lambda>s3. Inr (strike target s3)))
          | Some (data, a) \<Rightarrow> on_source_datagram uf cf ti data a s1)))"

definition source_collect_turn :: "(bytes \<Rightarrow> 'f) \<Rightarrow> source_conf \<Rightarrow> real \<Rightarrow> turn_in \<Rightarrow> source_search \<Rightarrow> source_search turn res" where
  "source_collect_turn uf cf deadline ti s =
     (if \<not> (ti_now ti < deadline \<and> int (length (ss_sources s)) < oc_max_sources cf) then Inr (Stop s)
      else
        bindE (recv_dgram ti) (\<lambda>dg. case dg of
          None \<Rightarrow> Inr (Go s)
        | Some (data, a) \<Rightarrow>
            if map_of (lk_addr s) a = None then Inr (Go s)
            else
              (case kad_payload (lc_zlib cf) data of
                 Inl e \<Rightarrow> if e = KadPacketError \<or> e = ZlibError then Inr (Go s) else Inl e
               | Inr (opcode, payload) \<Rightarrow>
                   if opcode \<noteq> KADEMLIA2_SEARCH_RES then Inr (Go s)
                   else
                     (case parse_search_res_source_entries uf payload of
                        Inl e \<Rightarrow> if e = KadSearchError then Inr (Go s) else Inl e
                      | Inr entries \<Rightarrow> Inr (Go (add_entries cf entries (heard ti a s)))))))"

definition source_reask :: "(bytes \<Rightarrow> 'f) \<Rightarrow> source_conf \<Rightarrow> real \<Rightarrow> turn_in list \<Rightarrow> source_search \<Rightarrow> source_search turn res" where
  "source_reask uf cf t0 late s =
     (if best_rewarded s \<noteq> [] \<and> int (length (ss_sources s)) < oc_max_sources cf then
        bindE (search_source_req cf) (\<lambda>req.
          bindE (foldE (\<lambda>s a. send_dgram (lc_send cf) req a s) s (best_rewarded s))
            (run_turns (source_collect_turn uf cf (t0 + 5)) late))
      else Inr (Stop s))"

record source_report =
  so_file_hash :: bytes
  so_queried :: nat
  so_responded :: nat
  so_sources :: "file_source list"

definition source_start :: "source_conf \<Rightarrow> pool_node list \<Rightarrow> zone \<Rightarrow> real \<Rightarrow> source_search" where
  "source_start cf pool zn start =
     lookup.extend (lookup_start (lc_target cf) pool zn start)
       \<lparr>as_asked = [], as_rewards = [], as_hook = [], ss_sources = [], ss_seen = []\<rparr>"

definition kad_file_source_search ::
    "(bytes \<Rightarrow> 'f) \<Rightarrow> zlib \<Rightarrow> (nat \<Rightarrow> node_addr \<Rightarrow> bool) \<Rightarrow> bool \<Rightarrow> bytes \<Rightarrow> int \<Rightarrow> kad_id \<Rightarrow> zone \<Rightarrow> real \<Rightarrow> real \<Rightarrow> int
     \<Rightarrow> real \<Rightarrow> turn_in list \<Rightarrow> real \<Rightarrow> turn_in list \<Rightarrow> source_report option res" where
  "kad_file_source_search uf z ok bound fh file_size own zn timeout idle_extend max_sources start turns t0 late =
     bindE (kad_of_bytes fh) (\<lambda>target.
       if \<not> bound then Inl KadSearchError
       else
         let cf = \<lparr>lc_target = target, lc_own = own, lc_hard = start + timeout, lc_idle = idle_extend, lc_zlib = z, lc_send = ok,
                   oc_file_hash = fh, oc_file_size = file_size, oc_max_sources = max_sources\<rparr>;
             pool = map raw_pool_node (closest own target 120 zn) in
         bindE (run_turns (source_turn uf cf) turns (source_start cf pool zn start)) (\<lambda>t.
           case t of
             Go _ \<Rightarrow> Inr None
           | Stop s \<Rightarrow>
               bindE (source_reask uf cf t0 late s) (\<lambda>u.
                 case u of
                   Go _ \<Rightarrow> Inr None
                 | Stop s' \<Rightarrow> Inr (Some \<lparr>so_file_hash = fh, so_queried = length (lk_tried s'), so_responded = length (lk_responded s'),
                                       so_sources = map snd (ss_sources s')\<rparr>))))"


section \<open>The invariant and the exceptions\<close>

lemma gives_packed_ip: "0 \<le> v \<Longrightarrow> gives {StructError} (\<lambda>_. True) (packed_ip v)"
  by (simp add: packed_ip_def pack_le_def)

lemma gives_note_source_int: "0 \<le> v \<Longrightarrow> gives {StructError} (\<lambda>_. True) (note_source_int name v f)"
  unfolding note_source_int_def
  by (simp split: if_split) (auto simp: packed_ip_def pack_le_def)

lemma gives_foldE_all:
  "list_all (\<lambda>x. \<forall>s. gives E (\<lambda>_. True) (f s x)) xs \<Longrightarrow> gives E (\<lambda>_. True) (foldE f s xs)"
proof (induction xs arbitrary: s)
  case Nil
  then show ?case by simp
next
  case (Cons x xs)
  from Cons.prems have "gives E (\<lambda>_. True) (f s x)" by simp
  with Cons show ?case by (cases "f s x") auto
qed

lemma gives_source_entry:
  assumes "list_all (kad_tag_decoded uf) tags"
  shows "gives {StructError} (\<lambda>_. True) (source_entry h tags)"
proof -
  have "gives {StructError} (\<lambda>_. True) (note_source_tag f t)" if "kad_tag_decoded uf t" for f t
    using that gives_note_source_int
    by (auto simp: note_source_tag_def kad_tag_decoded_def value_fits_def split: prod.splits tag_value.splits)
  then have "gives {StructError} (\<lambda>_. True) (foldE note_source_tag no_fields tags)"
    by (intro gives_foldE_all list.pred_mono_strong [OF assms]) auto
  then show ?thesis by (cases "foldE note_source_tag no_fields tags") (auto simp: source_entry_def)
qed

lemma gives_source_entries: "gives {KadSearchError, StructError} (\<lambda>_. True) (parse_search_res_source_entries uf payload)"
proof -
  have "gives {StructError} (\<lambda>_. True) (source_entry h tags :: (bytes \<times> source_fields) res)" if "list_all (kad_tag_decoded uf) tags" for h tags
    by (rule gives_source_entry [OF that])
  from gives_parse_search_res [OF this] show ?thesis
    unfolding parse_search_res_source_entries_def by (rule gives_mono) auto
qed

lemma search_source_no_request: "search_source_req cf = Inr req \<Longrightarrow> \<not> is_request (req, a)"
  by (auto simp: search_source_req_def is_request_def kad_header_def KADEMLIA2_REQ_def KADEMLIA2_SEARCH_SOURCE_REQ_def bindE_eq_Inr_conv)

lemma gives_source_req: "gives {StructError, ValueError} (\<lambda>req. \<forall>a. \<not> is_request (req, a)) (search_source_req cf)"
proof (cases "search_source_req cf")
  case (Inl e)
  then show ?thesis by (auto simp: search_source_req_def build_search_source_req_def pack_le_def split: if_splits)
qed (use search_source_no_request in simp)

lemma inv_sources [simp]: "lookup_inv tg (s\<lparr>ss_sources := r\<rparr>) = lookup_inv tg s" "lookup_inv tg (s\<lparr>ss_seen := q\<rparr>) = lookup_inv tg s"
  by (simp_all add: lookup_inv_def asked_log_def requests_def)

lemma inv_add_entries: "lookup_inv tg (add_entries cf es s) = lookup_inv tg s"
  by (induction cf es s rule: add_entries.induct) (auto simp: Let_def)

lemma gives_on_source_contacts:
  assumes "lookup_inv tg s" and "rdist \<in> keys (lk_tried s)"
  shows "gives ({StructError, ValueError} \<union> net_errs (lc_send cf) tis) (\<lambda>t. lookup_inv tg (turn_state t)) (on_source_contacts cf ti a rdist contacts s)" (is "gives ?E ?P _")
proof -
  have r: "gives ?E (\<lambda>req. \<forall>a. \<not> is_request (req, a)) (if a \<in> set (as_asked s) then Inr [] else search_source_req cf)"
    using gives_mono [OF gives_source_req [of cf]] by (simp add: is_request_def kad_header_def)
  show ?thesis unfolding on_source_contacts_def Let_def
  proof (rule gives_bindE [OF r])
    fix req assume req: "\<forall>a. \<not> is_request (req, a)"
    show "gives ?E ?P (bindE (on_contacts (lookup_conf.truncate cf) req ti a rdist contacts s)
        (\<lambda>s1. Inr (if int (length (ss_sources s1)) \<ge> oc_max_sources cf then Stop s1 else Go s1)))"
      by (rule gives_bindE [OF gives_mono [OF gives_on_contacts [where tis = tis, OF assms]]])
        (use req in \<open>auto simp: lookup_conf.defs\<close>)
  qed
qed

lemma gives_on_source_datagram:
  assumes inv: "lookup_inv tg s" and z: "\<And>d. gives {ZlibError} (\<lambda>_. True) (z_decompress (lc_zlib cf) d)"
  shows "gives ({StructError, ValueError} \<union> net_errs (lc_send cf) tis) (\<lambda>t. lookup_inv tg (turn_state t)) (on_source_datagram uf cf ti data a s)"
proof -
  let ?s = "s\<lparr>lk_strikes := 0\<rparr>"
  have s: "lookup_inv tg ?s" by (rule inv_fields(2) [OF inv])
  show ?thesis
  proof (cases "map_of (lk_addr ?s) a")
    case None
    then show ?thesis using s by (simp add: on_source_datagram_def Let_def)
  next
    case (Some rdist)
    have rd: "rdist \<in> keys (lk_tried ?s)" by (rule inv_addr [OF s Some])
    show ?thesis
    proof (cases "kad_payload (lc_zlib cf) data")
      case (Inl e)
      with gives_kad_payload [OF z, of data] have "e = KadPacketError \<or> e = ZlibError" by simp
      with Inl Some s show ?thesis by (simp add: on_source_datagram_def Let_def)
    next
      case (Inr q)
      obtain opcode payload where q: "q = (opcode, payload)" by (cases q)
      note d = on_source_datagram_def Let_def Some [simplified] Inr q
      have ans: "lookup_inv tg (turn_state (on_source_answers cf ti a rdist entries ?s))" for entries
        using inv_responded [OF inv_heard [OF s], of rdist ti a True] rd by (simp add: on_source_answers_def Let_def inv_add_entries)
      consider "opcode = KADEMLIA2_SEARCH_RES" | "opcode \<noteq> KADEMLIA2_SEARCH_RES" "opcode \<noteq> KADEMLIA2_RES"
        | "opcode \<noteq> KADEMLIA2_SEARCH_RES" "opcode = KADEMLIA2_RES" by blast
      then show ?thesis
      proof cases
        case 1
        with gives_source_entries [of uf payload] s ans show ?thesis
          by (cases "parse_search_res_source_entries uf payload") (auto simp: d)
      next
        case 2
        with s show ?thesis by (simp add: d)
      next
        case 3
        then show ?thesis
          using gives_kad2_res [of payload] s gives_on_source_contacts [OF s rd, of cf tis ti a]
          by (cases "parse_kad2_res payload") (auto simp: d)
      qed
    qed
  qed
qed

lemma gives_push_source:
  assumes "lookup_inv tg s"
  shows "gives ({StructError, ValueError} \<union> net_errs (lc_send cf) tis) (lookup_inv tg) (push_source_reqs cf s)" (is "gives ?E ?P _")
proof -
  obtain as where as: "pending_search s = Inr as" using pending_defined [OF assms] by blast
  have "gives ?E ?P (bindE (search_source_req cf) (\<lambda>req. ask_searches (lc_send cf) req (take ALPHA as) s))"
  proof (rule gives_bindE [OF gives_mono [OF gives_source_req]])
    fix req assume "\<forall>a. \<not> is_request (req, a)"
    then show "gives ?E ?P (ask_searches (lc_send cf) req (take ALPHA as) s)"
      by (intro gives_mono [OF gives_ask_searches [where tis = tis and P = ?P, OF inv_asked_of assms]]) auto
  qed auto
  then show ?thesis using assms by (simp add: push_source_reqs_def as)
qed

lemma gives_source_turn:
  assumes ti: "ti \<in> set tis" and inv: "lookup_inv (lc_target cf) s" and z: "\<And>d. gives {ZlibError} (\<lambda>_. True) (z_decompress (lc_zlib cf) d)"
  shows "gives ({StructError, ValueError} \<union> net_errs (lc_send cf) tis) (\<lambda>t. lookup_inv (lc_target cf) (turn_state t)) (source_turn uf cf ti s)" (is "gives ?E ?P _")
proof -
  let ?tg = "lc_target cf" and ?ok = "lc_send cf"
  have quiet: "gives ?E ?P (bindE (push_source_reqs cf s1) (\<lambda>s2. bindE (reask ?ok ?tg s2) (\<lambda>s3. Inr (strike ?tg s3))))"
    if s1: "lookup_inv ?tg s1" for s1 :: source_search
  proof (rule gives_bindE [OF gives_push_source [OF s1]])
    show "lookup_inv ?tg s2 \<Longrightarrow> gives ?E ?P (bindE (reask ?ok ?tg s2) (\<lambda>s3. Inr (strike ?tg s3)))" for s2
      by (rule gives_bindE [OF gives_mono [OF gives_reask [where tis = tis]]]) (auto simp: inv_strike)
  qed
  have got: "gives ?E ?P (bindE (recv_dgram ti) (\<lambda>dg. case dg of
            None \<Rightarrow> bindE (push_source_reqs cf s1) (\<lambda>s2. bindE (reask ?ok ?tg s2) (\<lambda>s3. Inr (strike ?tg s3)))
          | Some (data, a) \<Rightarrow> on_source_datagram uf cf ti data a s1))" if "lookup_inv ?tg s1" for s1 :: source_search
    by (rule gives_bindE [OF gives_mono [OF gives_recv [OF ti, of ?ok]]])
      (use quiet [OF that] gives_on_source_datagram [where uf = uf and cf = cf and tis = tis, OF that z] in \<open>auto split: option.split prod.split\<close>)
  have "gives ?E ?P (bindE (ask_round ?ok SOURCE_MIN_VERSION ?tg s) (\<lambda>s1. bindE (recv_dgram ti) (\<lambda>dg. case dg of
            None \<Rightarrow> bindE (push_source_reqs cf s1) (\<lambda>s2. bindE (reask ?ok ?tg s2) (\<lambda>s3. Inr (strike ?tg s3)))
          | Some (data, a) \<Rightarrow> on_source_datagram uf cf ti data a s1)))"
    by (rule gives_bindE [OF gives_mono [OF gives_ask_round [where tis = tis, OF inv]]]) (use got in auto)
  with inv show ?thesis by (simp add: source_turn_def Let_def)
qed

lemma inv_source_start: "lookup_inv tg (source_start cf pool zn start)"
  using inv_start [of tg "lc_target cf" pool zn start]
  by (simp add: source_start_def lookup_inv_def asked_log_def requests_def lookup.defs)

text \<open>
  The source lookup keeps the same books as the keyword lookup; what leaves it is \<open>struct.error\<close>,
  the \<open>ValueError\<close> of a negative file size, or the \<open>OSError\<close> of the socket.
\<close>

theorem source_lookup_safe:
  assumes "\<And>d. gives {ZlibError} (\<lambda>_. True) (z_decompress (lc_zlib cf) d)"
  shows "gives ({StructError, ValueError} \<union> net_errs (lc_send cf) turns) (\<lambda>t. lookup_inv (lc_target cf) (turn_state t))
    (run_turns (source_turn uf cf) turns (source_start cf pool zn start))"
  by (rule gives_run_turns [where P = "lookup_inv (lc_target cf)"], rule gives_source_turn, assumption, assumption, rule assms, rule inv_source_start)

section \<open>Sources reported\<close>

text \<open>What the report holds: one source for an identifier, each with an address the filter lets through or none.\<close>

definition good_ip :: "string option \<Rightarrow> bool" where
  "good_ip ip \<longleftrightarrow> (case ip of None \<Rightarrow> True | Some t \<Rightarrow> (\<exists>n < 2 ^ 32. t = ipv4_str n \<and> 0 < n div 2 ^ 24 \<and> n div 2 ^ 24 < 224))"

definition fields_ok :: "'a source_fields_scheme \<Rightarrow> bool" where
  "fields_ok f \<longleftrightarrow> good_ip (sf_ip f) \<and> (\<forall>p \<in> {sf_tcp_port f, sf_udp_port f, sf_buddy_port f}. 0 \<le> p \<and> p \<le> 0xFFFF) \<and>
     (\<forall>b. sf_ipv6 f = Some b \<or> sf_buddy_ipv6 f = Some b \<longrightarrow> length b = 16)"

lemma packed_ip_text:
  "packed_ip v = Inr (t, first) \<Longrightarrow> \<exists>n < 2 ^ 32. t = ipv4_str n \<and> first = n div 2 ^ 24"
proof -
  assume "packed_ip v = Inr (t, first)"
  then obtain b where b: "pack_le 4 (nat v) = Inr b" "t = ipv4_str (be_dec b)" "first = be_dec b div 2 ^ 24"
    by (auto simp: packed_ip_def bindE_eq_Inr_conv split: if_splits)
  have "length b = 4" using b(1) by (auto simp: pack_le_Inr_conv)
  then have "be_dec b < 2 ^ 32" using be_dec_bound [of b] by simp
  with b show ?thesis by blast
qed

lemma fields_ok_int:
  assumes "fields_ok f" and "note_source_int name v f = Inr f'"
  shows "fields_ok f'"
proof -
  have ip: "fields_ok (f\<lparr>sf_ip := Some t\<rparr>)" if "packed_ip v = Inr (t, first)" "0 < first" "first < 224" for t first
    using packed_ip_text [OF that(1)] that(2,3) assms(1) by (auto simp: fields_ok_def good_ip_def)
  show ?thesis
    using assms ip by (auto simp: note_source_int_def fields_ok_def is_port_def bindE_eq_Inr_conv split: if_splits)
qed

lemma parse_ipv6_length: "parse_ipv6_hex s = Some b \<Longrightarrow> length b = 16"
  by (auto simp: parse_ipv6_hex_def split: if_splits option.splits)

lemma fields_ok_text: "fields_ok f \<Longrightarrow> fields_ok (note_source_text name s f)"
  by (auto simp: note_source_text_def fields_ok_def parse_ipv6_length)

lemma fields_ok_fold: "fields_ok f \<Longrightarrow> foldE note_source_tag f tags = Inr f' \<Longrightarrow> fields_ok f'"
proof (induction tags arbitrary: f)
  case Nil
  then show ?case by simp
next
  case (Cons t tags)
  then obtain g where g: "note_source_tag f t = Inr g" "foldE note_source_tag g tags = Inr f'" by (auto simp: bindE_eq_Inr_conv)
  have "fields_ok g"
    using g(1) Cons.prems(1) fields_ok_int [OF Cons.prems(1)] fields_ok_text
    by (auto simp: note_source_tag_def split: prod.splits tag_value.splits)
  with Cons.IH g(2) show ?case by blast
qed


lemma gives_entries_ok: "gives UNIV (list_all (\<lambda>(sid, f). fields_ok f)) (parse_search_res_source_entries uf payload)"
proof -
  have n: "fields_ok no_fields" by (simp add: fields_ok_def no_fields_def good_ip_def)
  have "gives UNIV (\<lambda>(sid, f). fields_ok f) (source_entry h tags :: (bytes \<times> source_fields) res)" for h and tags :: "'a kad_tag list"
    using fields_ok_fold [OF n, of tags] by (cases "foldE note_source_tag no_fields tags") (auto simp: source_entry_def)
  from gives_parse_search_res [OF this] show ?thesis
    unfolding parse_search_res_source_entries_def by (rule gives_mono) auto
qed

lemma entries_ok: "parse_search_res_source_entries uf payload = Inr es \<Longrightarrow> list_all (\<lambda>(sid, f). fields_ok f) es"
  using gives_entries_ok [of uf payload] by simp

definition sources_inv :: "bytes \<Rightarrow> source_search \<Rightarrow> bool" where
  "sources_inv fh s \<longleftrightarrow> distinct (map fst (ss_sources s)) \<and>
     list_all (\<lambda>(k, v). fs_source_id v = k \<and> fs_file_hash v = fh \<and> fields_ok v) (ss_sources s)"

lemma same_more: "asking.more s = asking.more s' \<Longrightarrow> sources_inv fh s' \<Longrightarrow> sources_inv fh s"
  by (cases s; cases s') (simp add: sources_inv_def)

lemma dict_set_all: "list_all P d \<Longrightarrow> P (k, v) \<Longrightarrow> list_all P (dict_set k v d)"
  by (auto simp: dict_set_def list_all_iff)

lemma sources_inv_add:
  "sources_inv (oc_file_hash cf) s \<Longrightarrow> list_all (\<lambda>(sid, f). fields_ok f) es \<Longrightarrow> sources_inv (oc_file_hash cf) (add_entries cf es s)"
proof (induction cf es s rule: add_entries.induct)
  case (1 cf s)
  then show ?case by simp
next
  case (2 cf sid f es s)
  define key where "key = (sid, sf_ip f, sf_tcp_port f)"
  define s1 where "s1 = s\<lparr>ss_seen := key # ss_seen s, ss_sources := dict_set sid (file_source_of (oc_file_hash cf) sid f) (ss_sources s)\<rparr>"
  have v: "fs_source_id (file_source_of (oc_file_hash cf) sid f) = sid" "fs_file_hash (file_source_of (oc_file_hash cf) sid f) = oc_file_hash cf"
    "fields_ok (file_source_of (oc_file_hash cf) sid f)"
    using "2.prems"(2) by (simp_all add: file_source_of_def source_fields.defs fields_ok_def)
  have s1: "sources_inv (oc_file_hash cf) s1"
    using "2.prems"(1) v by (auto simp: s1_def sources_inv_def distinct_dict_set intro!: dict_set_all)
  have es: "list_all (\<lambda>(sid, f). fields_ok f) es" using "2.prems"(2) by simp
  show ?case
  proof (cases "key \<in> set (ss_seen s)")
    case True
    with "2.IH"(1) [OF key_def True "2.prems"(1) es] show ?thesis by (simp add: key_def)
  next
    case False
    show ?thesis
    proof (cases "int (length (ss_sources s1)) \<ge> oc_max_sources cf")
      case True
      with False s1 show ?thesis by (simp add: key_def s1_def Let_def)
    next
      case more: False
      with "2.IH"(2) [OF key_def False s1_def more s1 es] False show ?thesis by (simp add: key_def s1_def Let_def)
    qed
  qed
qed

lemma asking_more [simp]:
  "asking.more (award a x s) = asking.more s" "asking.more (asked_of q a s) = asking.more s"
  "asking.more (heard ti a s) = asking.more s" "asking.more (s\<lparr>lk_responded := r\<rparr>) = asking.more s"
  "asking.more (sent d a s) = asking.more s"
  by (simp_all add: award_def asked_of_def sent_def heard_def)

lemma ask_search_Inr: "ask_search ok q a s = Inr s' \<Longrightarrow> s' = asked_of q a s"
  by (auto simp: ask_search_def send_dgram_Inr bindE_eq_Inr_conv asked_of_def sent_def)

lemma fold_contacts_more:
  fixes s :: "'a asking_scheme"
  shows "asking.more (snd (fold_contacts cf wall rdist cs seen closer s)) = asking.more s"
  by (induction cs arbitrary: seen closer s) (auto simp: Let_def follow_def split: prod.splits)

lemma on_contacts_more:
  assumes "on_contacts cf req ti a rdist contacts s = Inr s'"
  shows "asking.more s' = asking.more s"
proof -
  obtain closer s1 where f: "fold_contacts cf (ti_wall ti) rdist contacts [fst a] False (heard ti a s) = (closer, s1)" by fastforce
  with fold_contacts_more [of cf "ti_wall ti" rdist contacts "[fst a]" False "heard ti a s"] assms show ?thesis
    by (auto simp: on_contacts_def Let_def split: if_splits dest: ask_search_Inr)
qed

lemma asks_more: "ask_searches ok req as s = Inr s' \<Longrightarrow> asking.more s' = asking.more s"
proof (induction as arbitrary: s)
  case (Cons a as)
  from Cons.prems obtain s1 where "ask_search ok req a s = Inr s1" "ask_searches ok req as s1 = Inr s'"
    by (auto simp: ask_searches_def bindE_eq_Inr_conv)
  with Cons.IH [of s1] ask_search_Inr [of ok req a s s1] show ?case by simp
qed (simp add: ask_searches_def)

lemma push_source_more: "push_source_reqs cf s = Inr s' \<Longrightarrow> asking.more s' = asking.more s"
  by (auto simp: push_source_reqs_def bindE_eq_Inr_conv dest: asks_more split: if_splits)

lemma sources_inv_datagram:
  assumes inv: "sources_inv (oc_file_hash cf) s" and r: "on_source_datagram uf cf ti data a s = Inr t"
  shows "sources_inv (oc_file_hash cf) (turn_state t)"
proof -
  let ?fh = "oc_file_hash cf"
  let ?s = "s\<lparr>lk_strikes := 0\<rparr>"
  have s: "sources_inv ?fh ?s" using inv by (simp add: sources_inv_def)
  have ans: "sources_inv ?fh (turn_state (on_source_answers cf ti a rdist entries ?s))" if "list_all (\<lambda>(sid, f). fields_ok f) entries" for rdist entries
  proof -
    have "sources_inv ?fh (award a 2 ((heard ti a ?s)\<lparr>lk_responded := dict_set rdist True (lk_responded ?s)\<rparr>))"
      by (rule same_more [OF _ s]) simp
    from sources_inv_add [OF this that] show ?thesis by (simp add: on_source_answers_def Let_def)
  qed
  have con: "sources_inv ?fh (turn_state t')" if "on_source_contacts cf ti a rdist contacts ?s = Inr t'" for rdist contacts t'
  proof -
    have "on_contacts (lookup_conf.truncate cf) req ti a rdist contacts ?s = Inr s1 \<Longrightarrow> sources_inv ?fh s1" for req s1
      by (rule same_more [OF on_contacts_more s])
    with that show ?thesis by (fastforce simp: on_source_contacts_def bindE_eq_Inr_conv split: if_splits)
  qed
  show ?thesis
    using r s con
    by (auto simp: on_source_datagram_def Let_def split: option.splits sum.splits prod.splits if_splits intro!: ans dest: entries_ok)
qed

lemma sources_inv_turn:
  assumes inv: "sources_inv (oc_file_hash cf) s" and r: "source_turn uf cf ti s = Inr t"
  shows "sources_inv (oc_file_hash cf) (turn_state t)"
proof (cases "ti_now ti \<ge> effective_deadline (lookup_conf.truncate cf) s")
  case True
  with r inv show ?thesis by (auto simp: source_turn_def Let_def)
next
  case False
  let ?tg = "lc_target cf"
  from False r obtain s1 dg where s1: "ask_round (lc_send cf) SOURCE_MIN_VERSION ?tg s = Inr s1"
    and t: "(case dg of None \<Rightarrow> bindE (push_source_reqs cf s1) (\<lambda>s2. bindE (reask (lc_send cf) ?tg s2) (\<lambda>s3. Inr (strike ?tg s3)))
          | Some (data, a) \<Rightarrow> on_source_datagram uf cf ti data a s1) = Inr t"
    by (auto simp: source_turn_def Let_def bindE_eq_Inr_conv)
  have i1: "sources_inv (oc_file_hash cf) s1"
    using same_more [OF _ inv] ask_loop_more [OF s1 [unfolded ask_round_def]] by blast
  show ?thesis
  proof (cases dg)
    case None
    with t obtain s2 s3 where s2: "push_source_reqs cf s1 = Inr s2" and s3: "reask (lc_send cf) ?tg s2 = Inr s3" and t': "t = strike ?tg s3"
      by (auto simp: bindE_eq_Inr_conv)
    have "asking.more (turn_state t) = asking.more s1"
      using strike_more [of ?tg s3] reask_more [OF s3] push_source_more [OF s2] by (simp add: t')
    from same_more [OF this i1] show ?thesis .
  next
    case (Some m)
    obtain data a where "m = (data, a)" by (cases m)
    with Some t sources_inv_datagram [OF i1, of uf ti data a t] show ?thesis by simp
  qed
qed

lemma sources_inv_collect:
  assumes "sources_inv (oc_file_hash cf) s" and "source_collect_turn uf cf dl ti s = Inr t"
  shows "sources_inv (oc_file_hash cf) (turn_state t)"
proof -
  have "sources_inv (oc_file_hash cf) (heard ti a s)" for a by (rule same_more [OF _ assms(1)]) simp
  note add = sources_inv_add [OF this]
  show ?thesis using assms
    by (cases "recv_dgram ti") (auto simp: source_collect_turn_def Let_def split: option.splits sum.splits prod.splits if_splits intro!: add dest: entries_ok)
qed

lemma run_turns_inv:
  assumes "\<And>i s t. P s \<Longrightarrow> f i s = Inr t \<Longrightarrow> P (turn_state t)" and "P s" and "run_turns f is s = Inr t"
  shows "P (turn_state t)"
proof -
  have "gives UNIV (\<lambda>t. P (turn_state t)) (run_turns f is s)"
    by (rule gives_run_turns [where P = P, OF _ assms(2)]) (use assms(1) in \<open>auto simp: gives_def split: sum.split\<close>)
  with assms(3) show ?thesis by simp
qed

lemma source_report_sound:
  assumes "kad_file_source_search uf z ok bound fh file_size own zn timeout idle_extend max_sources start turns t0 late = Inr (Some r)"
  shows "so_file_hash r = fh" and "distinct (map fs_source_id (so_sources r))"
    and "list_all (\<lambda>v. fs_file_hash v = fh \<and> fields_ok v) (so_sources r)"
proof -
  obtain target where target: "kad_of_bytes fh = Inr target" and bound
    using assms by (auto simp: kad_file_source_search_def bindE_eq_Inr_conv split: if_splits)
  define cf where "cf = \<lparr>lc_target = target, lc_own = own, lc_hard = start + timeout, lc_idle = idle_extend, lc_zlib = z, lc_send = ok,
                   oc_file_hash = fh, oc_file_size = file_size, oc_max_sources = max_sources\<rparr>"
  define pool where "pool = map raw_pool_node (closest own target 120 zn)"
  have fh: "oc_file_hash cf = fh" by (simp add: cf_def)
  let ?run = "\<lambda>t. case t of Go _ \<Rightarrow> Inr None
           | Stop s \<Rightarrow>
               bindE (source_reask uf cf t0 late s) (\<lambda>u.
                 case u of
                   Go _ \<Rightarrow> Inr None
                 | Stop s' \<Rightarrow> Inr (Some \<lparr>so_file_hash = fh, so_queried = length (lk_tried s'), so_responded = length (lk_responded s'),
                                       so_sources = map snd (ss_sources s')\<rparr>))"
  have "bindE (run_turns (source_turn uf cf) turns (source_start cf pool zn start)) ?run = Inr (Some r)"
    using assms target \<open>bound\<close> by (simp add: kad_file_source_search_def Let_def cf_def [symmetric] pool_def [symmetric])
  then obtain t where t: "run_turns (source_turn uf cf) turns (source_start cf pool zn start) = Inr t" and rt: "?run t = Inr (Some r)"
    by (auto simp only: bindE_eq_Inr_conv)
  from rt obtain s where ts: "t = Stop s" by (cases t) simp_all
  from rt ts obtain u where u: "source_reask uf cf t0 late s = Inr u"
    and ru: "(case u of Go _ \<Rightarrow> Inr None | Stop s' \<Rightarrow> Inr (Some \<lparr>so_file_hash = fh, so_queried = length (lk_tried s'),
      so_responded = length (lk_responded s'), so_sources = map snd (ss_sources s')\<rparr>)) = (Inr (Some r) :: source_report option res)"
    by (auto simp: bindE_eq_Inr_conv)
  from ru obtain s' where us: "u = Stop s'" by (cases u) simp_all
  have s: "run_turns (source_turn uf cf) turns (source_start cf pool zn start) = Inr (Stop s)"
    and s': "source_reask uf cf t0 late s = Inr (Stop s')"
    and r: "r = \<lparr>so_file_hash = fh, so_queried = length (lk_tried s'), so_responded = length (lk_responded s'), so_sources = map snd (ss_sources s')\<rparr>"
    using t ts u us ru by simp_all
  have "sources_inv fh (source_start cf pool zn start)" by (simp add: sources_inv_def source_start_def lookup.defs)
  from run_turns_inv [where P = "sources_inv fh", OF _ this s] sources_inv_turn [where cf = cf, unfolded fh]
  have inv: "sources_inv fh s" by simp blast
  have sends: "foldE (\<lambda>s a. send_dgram (lc_send cf) req a s) s as = Inr s1 \<Longrightarrow> sources_inv fh s1" for req as s1
    using gives_sends [where P = "sources_inv fh" and ok = "lc_send cf" and tis = "[]", OF _ inv, of req as]
    by (simp add: sources_inv_def sent_def)
  have "sources_inv fh s'"
  proof (cases "best_rewarded s \<noteq> [] \<and> int (length (ss_sources s)) < oc_max_sources cf")
    case True
    with s' obtain req s1 where s1: "foldE (\<lambda>s a. send_dgram (lc_send cf) req a s) s (best_rewarded s) = Inr s1"
      and run: "run_turns (source_collect_turn uf cf (t0 + 5)) late s1 = Inr (Stop s')"
      by (auto simp: source_reask_def bindE_eq_Inr_conv)
    from run_turns_inv [where P = "sources_inv fh", OF _ sends [OF s1] run] sources_inv_collect [where cf = cf, unfolded fh]
    show ?thesis by simp blast
  qed (use s' inv in \<open>auto simp: source_reask_def\<close>)
  then have d: "distinct (map fst (ss_sources s'))"
    and all: "list_all (\<lambda>(k, v). fs_source_id v = k \<and> fs_file_hash v = fh \<and> fields_ok v) (ss_sources s')"
    by (simp_all add: sources_inv_def)
  have eq: "map fs_source_id (map snd (ss_sources s')) = map fst (ss_sources s')" using all by (auto simp: list_all_iff)
  have "so_sources r = map snd (ss_sources s')" by (simp add: r)
  then show "distinct (map fs_source_id (so_sources r))" using d by (simp only: eq)
  show "so_file_hash r = fh" by (simp add: r)
  show "list_all (\<lambda>v. fs_file_hash v = fh \<and> fields_ok v) (so_sources r)" using all r by (auto simp: list_all_iff)
qed


section \<open>Properties\<close>

text \<open>
  A reported source is usable as it is: one source for each identifier, of the file searched for,
  with an address outside 0/8 and 224/3 or none, ports in range, and IPv6 addresses of sixteen bytes.
\<close>

theorem reported_sources_ok:
  assumes "kad_file_source_search uf z ok bound fh file_size own zn timeout idle_extend max_sources start turns t0 late = Inr (Some r)"
  shows "distinct (map fs_source_id (so_sources r)) \<and> list_all (\<lambda>v. fs_file_hash v = fh \<and> fields_ok v) (so_sources r)"
  using source_report_sound(2,3) [OF assms] by simp

text \<open>
  One small datagram ends a source search: an answer whose address tag is a 64-bit integer of more
  than 32 bits. \<open>struct.pack("<I", v)\<close> raises \<open>struct.error\<close>, which is not caught.
\<close>

definition wide_ip_answer :: "bytes \<Rightarrow> bytes \<Rightarrow> bytes \<Rightarrow> nat \<Rightarrow> bytes" where
  "wide_ip_answer source target h v =
     source @ target @ le_enc 2 1 @ answer_bytes h [[0x0B] @ le_enc 2 1 @ [0xFE] @ le_enc 8 v]"

theorem wide_ip_struct_error:
  assumes "length source = 16" and "length target = 16" and "length h = 16" and "2 ^ 32 \<le> v" and "v < 2 ^ 64"
  shows "parse_search_res_source_entries uf (wide_ip_answer source target h v) = Inl StructError"
proof -
  let ?t = "([0xFE], UINT64, VInt (int v)) :: 'a kad_tag"
  let ?raw = "[0x0B] @ le_enc 2 1 @ [0xFE] @ le_enc 8 v"
  have enc: "encode_tag_for_raw (\<lambda>_. Inl StructError) ?t = Inr ?raw"
    using assms(5) by (simp add: encode_tag_for_raw_def pack_le_def tag_consts)
  have ok: "answer_ok uf (\<lambda>_. Inl StructError) (h, [?t], [?raw])"
    using assms(3,5) enc by (simp add: answer_ok_def kad_tag_ok_def tag_consts)
  have "parse_search_res uf source_entry (source @ target @ le_enc 2 (length [(h, [?t], [?raw])]) @
      concat (map (\<lambda>(h, tags, raws). answer_bytes h raws) [(h, [?t], [?raw])]) @ []) =
    mapE (\<lambda>(h, tags, raws). source_entry h tags) [(h, [?t], [?raw])]"
    by (rule search_res_layout [OF assms(1,2)]) (use ok in simp_all)
  moreover have "source_entry h [?t] = Inl StructError"
    using assms(4) by (simp add: source_entry_def note_source_tag_def note_source_int_def packed_ip_def pack_le_def source_names)
  ultimately show ?thesis by (simp add: parse_search_res_source_entries_def wide_ip_answer_def)
qed

end
