(* ===== verification/Kad_Publish.thy ===== *)
theory Kad_Publish
  imports Kad_Sources
begin

text \<open>
  \<open>core/kad/publish.py\<close>: the tag lists a publisher writes, the lookup of the nodes to publish at, and
  the two publishers with their collecting loops. A shared file is its name, hash and size.
\<close>

section \<open>Tags\<close>

definition KADEMLIA2_PUBLISH_KEY_REQ :: nat where "KADEMLIA2_PUBLISH_KEY_REQ = 0x43"
definition KADEMLIA2_PUBLISH_SOURCE_REQ :: nat where "KADEMLIA2_PUBLISH_SOURCE_REQ = 0x44"
definition KADEMLIA2_PUBLISH_RES :: nat where "KADEMLIA2_PUBLISH_RES = 0x4B"
definition STOREKEYWORD_TOTAL :: nat where "STOREKEYWORD_TOTAL = 10"
definition STOREFILE_TOTAL :: nat where "STOREFILE_TOTAL = 10"
definition KAD2_MIN_VERSION :: nat where "KAD2_MIN_VERSION = 3"

text \<open>\<open>bytes((n,))\<close>, and \<open>struct.pack\<close> of an integer that may be negative.\<close>

definition one_byte :: "int \<Rightarrow> bytes res" where
  "one_byte n = (if 0 \<le> n \<and> n \<le> 0xFF then Inr [word_of_int n] else Inl ValueError)"

definition pack_int :: "nat \<Rightarrow> int \<Rightarrow> bytes res" where
  "pack_int n v = (if v < 0 then Inl StructError else pack_le n (nat v))"

text \<open>
  The publishers pass texts for \<open>STRING\<close>, integers for the integer types and bytes for \<open>BSOB\<close>; other
  values of these types, that \<open>str\<close> and \<open>int\<close> would convert, do not occur.
\<close>

definition encode_kad_tag :: "('f \<Rightarrow> bytes res) \<Rightarrow> 'f kad_tag \<Rightarrow> bytes res" where
  "encode_kad_tag pack_f t =
     (case t of (name, ty, v) \<Rightarrow>
        bindE (pack_le 2 (length name)) (\<lambda>nl.
        bindE (if ty = HASH16 then py_bytes v
               else if ty = STRING then
                 (case v of
                    VStr s \<Rightarrow> (case utf8_encode s of
                        None \<Rightarrow> Inl UnicodeError
                      | Some enc \<Rightarrow> bindE (pack_le 2 (length enc)) (\<lambda>el. Inr (el @ enc)))
                  | _ \<Rightarrow> Inl TypeError)
               else if ty = UINT64 \<or> ty = UINT32 \<or> ty = UINT16 then
                 (case v of VInt i \<Rightarrow> pack_int (if ty = UINT64 then 8 else if ty = UINT32 then 4 else 2) i | _ \<Rightarrow> Inl TypeError)
               else if ty = UINT8 then (case v of VInt i \<Rightarrow> one_byte i | _ \<Rightarrow> Inl TypeError)
               else if ty = FLOAT32 then (case v of VFloat x \<Rightarrow> pack_f x | _ \<Rightarrow> Inl TypeError)
               else if ty = BSOB then
                 bindE (py_bytes v) (\<lambda>b. bindE (one_byte (int (length b))) (\<lambda>l. Inr (l @ b)))
               else if ty = BOOL then
                 (case v of VBool b \<Rightarrow> Inr [if b then 1 else 0] | VInt i \<Rightarrow> Inr [if i \<noteq> 0 then 1 else 0] | _ \<Rightarrow> Inl TypeError)
               else Inl PublishError) (\<lambda>body.
          Inr ([word_of_int ty] @ nl @ name @ body))))"

definition build_tag_list_raw :: "('f \<Rightarrow> bytes res) \<Rightarrow> 'f kad_tag list \<Rightarrow> bytes res" where
  "build_tag_list_raw pack_f tags =
     bindE (mapE (encode_kad_tag pack_f) tags) (\<lambda>raws.
       if length (concat raws) > 255 then Inl PublishError else Inr (concat raws))"

text \<open>None of the lists below has a floating point value, so the conversion is never reached.\<close>

definition file_size_tag :: "int \<Rightarrow> unit kad_tag res" where
  "file_size_tag sz =
     (if sz \<le> 0xFFFFFFFF then Inr (TAGNAME_FILESIZE, UINT32, VInt sz)
      else bindE (pack_int 8 sz) (\<lambda>b. Inr (TAGNAME_FILESIZE, BSOB, VBytes b)))"

definition keyword_file_tags :: "ustr \<Rightarrow> int \<Rightarrow> (bytes \<times> int) res" where
  "keyword_file_tags name sz =
     bindE (file_size_tag sz) (\<lambda>st.
       let tags = [(TAGNAME_FILENAME, STRING, VStr name), st] in
       bindE (build_tag_list_raw (\<lambda>_. Inr []) tags) (\<lambda>b. Inr (b, int (length tags))))"

definition source_tag_values :: "int \<Rightarrow> int option \<Rightarrow> int \<Rightarrow> int \<Rightarrow> int \<Rightarrow> unit kad_tag list res" where
  "source_tag_values tcp_port udp_port file_size encryption source_type =
     bindE (if file_size > 0 then bindE (file_size_tag file_size) (\<lambda>t. Inr [t]) else Inr []) (\<lambda>st.
       Inr ([(TAGNAME_SOURCETYPE, UINT8, VInt source_type), (TAGNAME_SOURCEPORT, UINT32, VInt tcp_port)] @
            (case udp_port of Some p \<Rightarrow> if p > 0 then [(TAGNAME_SOURCEUPORT, UINT16, VInt p)] else [] | None \<Rightarrow> []) @
            st @ (if encryption \<noteq> 0 then [(TAGNAME_ENCRYPTION, UINT8, VInt encryption)] else [])))"

definition source_tags :: "int \<Rightarrow> int option \<Rightarrow> int \<Rightarrow> int \<Rightarrow> int \<Rightarrow> (bytes \<times> int) res" where
  "source_tags tcp_port udp_port file_size encryption source_type =
     bindE (source_tag_values tcp_port udp_port file_size encryption source_type) (\<lambda>tags.
     bindE (build_tag_list_raw (\<lambda>_. Inr []) tags) (\<lambda>b. Inr (b, int (length tags))))"

section \<open>The lookup of the nodes to publish at\<close>

record publish_target =
  pt_kad_id :: kad_id
  pt_ip :: string
  pt_udp :: nat
  pt_tcp :: nat
  pt_version :: nat

text \<open>Unlike the searches, a publisher does not remember the addresses named within one answer.\<close>

fun fold_publish_contacts :: "lookup_conf \<Rightarrow> real \<Rightarrow> string \<Rightarrow> kad_id \<Rightarrow> res_contact list \<Rightarrow> lookup \<Rightarrow> lookup" where
  "fold_publish_contacts cf wall src_ip rdist [] s = s"
| "fold_publish_contacts cf wall src_ip rdist (c # cs) s =
     (let d = id_distance (lc_target cf) (Raw_Id (fst c)) in
      if d \<in> keys (lk_tried s) \<or> d \<in> keys (lk_possible s) then fold_publish_contacts cf wall src_ip rdist cs s
      else if fst (snd c) = src_ip \<or> d \<ge> rdist then fold_publish_contacts cf wall src_ip rdist cs s
      else fold_publish_contacts cf wall src_ip rdist cs (follow cf wall c d s))"

definition on_publish_contacts :: "lookup_conf \<Rightarrow> turn_in \<Rightarrow> node_addr \<Rightarrow> kad_id \<Rightarrow> res_contact list \<Rightarrow> lookup \<Rightarrow> lookup" where
  "on_publish_contacts cf ti a rdist contacts s =
     (let s1 = fold_publish_contacts cf (ti_wall ti) (fst a) rdist contacts (heard ti a s) in
      s1\<lparr>lk_responded := dict_set rdist True (lk_responded s1)\<rparr>)"

definition on_lookup_datagram :: "lookup_conf \<Rightarrow> turn_in \<Rightarrow> bytes \<Rightarrow> node_addr \<Rightarrow> lookup \<Rightarrow> lookup turn res" where
  "on_lookup_datagram cf ti data a s0 =
     (let s = s0\<lparr>lk_strikes := 0\<rparr> in
      case map_of (lk_addr s) a of
        None \<Rightarrow> Inr (Go s)
      | Some rdist \<Rightarrow>
          (case kad_payload (lc_zlib cf) data of
             Inl e \<Rightarrow> if e = KadPacketError \<or> e = ZlibError then Inr (Go s) else Inl e
           | Inr (opcode, payload) \<Rightarrow>
               if opcode \<noteq> KADEMLIA2_RES then Inr (Go s)
               else
                 (case parse_kad2_res payload of
                    Inl e \<Rightarrow> if e = KadSearchError then Inr (Go s) else Inl e
                  | Inr contacts \<Rightarrow> Inr (Go (on_publish_contacts cf ti a rdist contacts s)))))"

definition lookup_turn :: "nat \<Rightarrow> lookup_conf \<Rightarrow> turn_in \<Rightarrow> lookup \<Rightarrow> lookup turn res" where
  "lookup_turn min_version cf ti s =
     (let target = lc_target cf in
      if ti_now ti \<ge> effective_deadline cf s then Inr (Stop s)
      else
        bindE (ask_round (lc_send cf) min_version target s) (\<lambda>s1.
        bindE (recv_dgram ti) (\<lambda>dg.
          case dg of
            None \<Rightarrow> bindE (reask (lc_send cf) target s1) (\<lambda>s2. Inr (strike target s2))
          | Some (data, a) \<Rightarrow> on_lookup_datagram cf ti data a s1)))"

definition tried_target :: "'a lookup_scheme \<Rightarrow> kad_id \<Rightarrow> publish_target res" where
  "tried_target s d =
     (case map_of (lk_tried s) d of
        None \<Rightarrow> Inl KeyError
      | Some c \<Rightarrow> Inr \<lparr>pt_kad_id = cd_id c, pt_ip = cd_ip c, pt_udp = cd_udp c, pt_tcp = cd_tcp c, pt_version = cd_version c\<rparr>)"

definition responders :: "'a lookup_scheme \<Rightarrow> publish_target list res" where
  "responders s = mapE (tried_target s) (map fst (lk_responded s))"

text \<open>\<open>None\<close>: the turns ended before the loop did. The last state goes on with the routing table.\<close>

definition lookup_closest ::
    "zlib \<Rightarrow> (nat \<Rightarrow> node_addr \<Rightarrow> bool) \<Rightarrow> kad_id \<Rightarrow> kad_id \<Rightarrow> zone \<Rightarrow> real \<Rightarrow> real \<Rightarrow> nat \<Rightarrow> real \<Rightarrow> turn_in list \<Rightarrow> (publish_target list \<times> lookup) option res" where
  "lookup_closest z ok target own zn timeout idle_extend min_version start turns =
     (let cf = \<lparr>lc_target = target, lc_own = own, lc_hard = start + timeout, lc_idle = idle_extend, lc_zlib = z, lc_send = ok\<rparr>;
          pool = map raw_pool_node (closest own target 120 zn) in
      bindE (run_turns (lookup_turn min_version cf) turns (lookup_start target pool zn start)) (\<lambda>t.
        case t of Go _ \<Rightarrow> Inr None | Stop s \<Rightarrow> bindE (responders s) (\<lambda>rs. Inr (Some (rs, s)))))"

section \<open>Publishing\<close>

record publishing =
  pb_accepts :: "publish_target list"
  pb_loads :: "nat list"
  pb_acks :: "node_addr list"
  pb_zone :: zone
  pb_sent :: "(bytes \<times> node_addr) list"

text \<open>The loop that collects \<open>PUBLISH_RES\<close>; a node may answer more than once.\<close>

definition send_publishing :: "(nat \<Rightarrow> node_addr \<Rightarrow> bool) \<Rightarrow> bytes \<Rightarrow> node_addr \<Rightarrow> publishing \<Rightarrow> publishing res" where
  "send_publishing ok d a p =
     (if ok (length (pb_sent p)) a then Inr (p\<lparr>pb_sent := pb_sent p @ [(d, a)]\<rparr>) else Inl OSError)"

definition publish_turn :: "zlib \<Rightarrow> (nat \<Rightarrow> node_addr \<Rightarrow> bool) \<Rightarrow> (node_addr \<times> publish_target) list \<Rightarrow> nat \<Rightarrow> real \<Rightarrow> turn_in \<Rightarrow> publishing \<Rightarrow> publishing turn res" where
  "publish_turn z ok addr_to_tgt node_count deadline ti p =
     (if \<not> (ti_now ti < deadline \<and> length (pb_accepts p) < node_count) then Inr (Stop p)
      else
        bindE (recv_dgram ti) (\<lambda>dg. case dg of
          None \<Rightarrow> Inr (Go p)
        | Some (data, a) \<Rightarrow>
            (case map_of addr_to_tgt a of
               None \<Rightarrow> Inr (Go p)
             | Some tgt \<Rightarrow>
                 (case kad_payload z data of
                    Inl e \<Rightarrow> if e = KadPacketError \<or> e = ZlibError then Inr (Go p) else Inl e
                  | Inr (opcode, payload) \<Rightarrow>
                      if opcode \<noteq> KADEMLIA2_PUBLISH_RES then Inr (Go p)
                      else
                        (case parse_publish_res payload of
                           Inl e \<Rightarrow> if e = KadPacketError then Inr (Go p) else Inl e
                         | Inr pres \<Rightarrow>
                             let p1 = p\<lparr>pb_zone := snd (zone_mark_alive (ti_wall ti) a (pb_zone p)),
                                        pb_accepts := pb_accepts p @ [tgt], pb_loads := pb_loads p @ [pr_load pres]\<rparr> in
                             if pr_ack_requested pres
                             then bindE (send_publishing ok build_publish_res_ack a p1) (\<lambda>p2. Inr (Go (p2\<lparr>pb_acks := pb_acks p2 @ [a]\<rparr>)))
                             else Inr (Go p1))))))"

record publish_report =
  pp_target :: kad_id
  pp_targets :: "publish_target list"
  pp_accepts :: "publish_target list"
  pp_acks :: "node_addr list"
  pp_avg_load :: real
  pp_published :: nat

definition avg_load :: "nat list \<Rightarrow> real" where
  "avg_load loads = (if loads = [] then 0 else real (sum_list loads) / real (length loads))"

text \<open>
  What both publishers do once they have the datagram to send: the lookup, the sends to the first
  \<open>node_count\<close> responders, the collecting loop from \<open>t0\<close> on.
\<close>

definition publish_at ::
    "zlib \<Rightarrow> (nat \<Rightarrow> node_addr \<Rightarrow> bool) \<Rightarrow> kad_id \<Rightarrow> kad_id \<Rightarrow> zone \<Rightarrow> real \<Rightarrow> real \<Rightarrow> nat \<Rightarrow> bytes option \<Rightarrow> real \<Rightarrow> turn_in list \<Rightarrow> real \<Rightarrow> turn_in list
     \<Rightarrow> (publish_report \<times> publishing) option res" where
  "publish_at z ok target own zn timeout idle_extend node_count req start turns t0 late =
     bindE (lookup_closest z ok target own zn timeout idle_extend KAD2_MIN_VERSION start turns) (\<lambda>found.
       case found of
         None \<Rightarrow> Inr None
       | Some (rs, s) \<Rightarrow>
           let targets = take node_count rs;
               p0 = \<lparr>pb_accepts = [], pb_loads = [], pb_acks = [], pb_zone = lk_zone s, pb_sent = lk_sent s\<rparr>;
               report = (\<lambda>p. (\<lparr>pp_target = target, pp_targets = targets, pp_accepts = pb_accepts p, pp_acks = pb_acks p,
                               pp_avg_load = avg_load (pb_loads p), pp_published = length (pb_accepts p)\<rparr>, p)) in
           (case req of
              Some d \<Rightarrow>
                if targets = [] then Inr (Some (report p0))
                else
                  let addr_to_tgt = foldl (\<lambda>m t. dict_set (pt_ip t, pt_udp t) t m) [] targets;
                      deadline = t0 + min 8 (max 3 (idle_extend / 3)) in
                  bindE (foldE (\<lambda>p t. send_publishing ok d (pt_ip t, pt_udp t) p) p0 targets) (\<lambda>p1.
                  bindE (run_turns (publish_turn z ok addr_to_tgt node_count deadline) late p1) (\<lambda>t.
                    case t of Go _ \<Rightarrow> Inr None | Stop p \<Rightarrow> Inr (Some (report p))))
            | None \<Rightarrow> Inr (Some (report p0))))"

record shared_file =
  sh_name :: ustr
  sh_hash :: bytes
  sh_size :: int

definition keyword_publish_req :: "(bytes \<Rightarrow> bytes) \<Rightarrow> shared_file \<Rightarrow> (kad_id \<times> bytes) res" where
  "keyword_publish_req md4 f =
     bindE (keyword_target md4 (sh_name f)) (\<lambda>target.
     bindE (kad_of_bytes (sh_hash f)) (\<lambda>h.
     bindE (keyword_file_tags (sh_name f) (sh_size f)) (\<lambda>(tags, n).
     bindE (build_publish_key_req target [(h, tags, n)]) (\<lambda>p.
       Inr (target, kad_header KAD_PROTOCOL KADEMLIA2_PUBLISH_KEY_REQ @ p)))))"

definition publish_file ::
    "(bytes \<Rightarrow> bytes) \<Rightarrow> zlib \<Rightarrow> (nat \<Rightarrow> node_addr \<Rightarrow> bool) \<Rightarrow> kad_id \<Rightarrow> shared_file option \<Rightarrow> zone \<Rightarrow> nat \<Rightarrow> real \<Rightarrow> real \<Rightarrow> real \<Rightarrow> turn_in list \<Rightarrow> real \<Rightarrow> turn_in list
     \<Rightarrow> (publish_report \<times> publishing) option res" where
  "publish_file md4 z ok own f zn node_count timeout idle_extend start turns t0 late =
     (case f of
        None \<Rightarrow> Inl PublishError
      | Some sf \<Rightarrow> bindE (keyword_publish_req md4 sf) (\<lambda>(target, req).
          publish_at z ok target own zn timeout idle_extend node_count (Some req) start turns t0 late))"

record source_publisher =
  sp_own_id :: kad_id
  sp_own_udp_port :: "int option"
  sp_user_hash :: bytes

definition mk_source_publisher :: "kad_id \<Rightarrow> int option \<Rightarrow> bytes option \<Rightarrow> source_publisher" where
  "mk_source_publisher own udp user_hash =
     \<lparr>sp_own_id = own, sp_own_udp_port = udp,
      sp_user_hash = (case user_hash of None \<Rightarrow> kad_to_bytes own | Some h \<Rightarrow> if h = [] then kad_to_bytes own else h)\<rparr>"

text \<open>The requests of all sources are built; only the first is sent.\<close>

definition source_publish_reqs :: "source_publisher \<Rightarrow> kad_id \<Rightarrow> int \<Rightarrow> int list \<Rightarrow> bytes list res" where
  "source_publish_reqs sp target file_size tcp_ports =
     bindE (mapE (\<lambda>tcp. source_tags tcp (sp_own_udp_port sp) file_size 0 1) tcp_ports) (\<lambda>lists.
     bindE (kad_of_bytes (sp_user_hash sp)) (\<lambda>publisher_id.
       mapE (\<lambda>(tags, n). bindE (build_publish_source_req target publisher_id tags n) (\<lambda>p.
         Inr (kad_header KAD_PROTOCOL KADEMLIA2_PUBLISH_SOURCE_REQ @ p))) lists))"

definition publish_sources ::
    "zlib \<Rightarrow> (nat \<Rightarrow> node_addr \<Rightarrow> bool) \<Rightarrow> source_publisher \<Rightarrow> bytes \<Rightarrow> int list \<Rightarrow> zone \<Rightarrow> int \<Rightarrow> nat \<Rightarrow> real \<Rightarrow> real \<Rightarrow> real \<Rightarrow> turn_in list \<Rightarrow> real \<Rightarrow> turn_in list
     \<Rightarrow> (publish_report \<times> publishing) option res" where
  "publish_sources z ok sp fh tcp_ports zn file_size node_count timeout idle_extend start turns t0 late =
     (if length fh \<noteq> 16 then Inl PublishError
      else bindE (kad_of_bytes fh) (\<lambda>target.
           bindE (source_publish_reqs sp target file_size tcp_ports) (\<lambda>reqs.
             publish_at z ok target (sp_own_id sp) zn timeout idle_extend node_count
               (case reqs of [] \<Rightarrow> None | r # _ \<Rightarrow> Some r) start turns t0 late)))"

text \<open>What the clock and the network give the two passes for one file.\<close>

record pass_in =
  pi_send :: "nat \<Rightarrow> node_addr \<Rightarrow> bool"
  pi_start :: real
  pi_turns :: "turn_in list"
  pi_t0 :: real
  pi_late :: "turn_in list"

record batch_conf =
  bc_own_id :: kad_id
  bc_tcp_port :: int
  bc_udp_port :: "int option"
  bc_user_hash :: "bytes option"
  bc_node_count :: nat
  bc_timeout :: real
  bc_idle_extend :: real

definition publish_both ::
    "(bytes \<Rightarrow> bytes) \<Rightarrow> zlib \<Rightarrow> batch_conf \<Rightarrow> shared_file \<Rightarrow> pass_in \<Rightarrow> pass_in \<Rightarrow> zone \<Rightarrow> (publish_report list \<times> zone) option res" where
  "publish_both md4 z bc f ka sa zn =
     bindE (publish_file md4 z (pi_send ka) (bc_own_id bc) (Some f) zn (bc_node_count bc) (bc_timeout bc) (bc_idle_extend bc)
              (pi_start ka) (pi_turns ka) (pi_t0 ka) (pi_late ka)) (\<lambda>k.
       case k of
         None \<Rightarrow> Inr None
       | Some (kr, kp) \<Rightarrow>
           bindE (publish_sources z (pi_send sa) (mk_source_publisher (bc_own_id bc) (bc_udp_port bc) (bc_user_hash bc)) (sh_hash f) [bc_tcp_port bc]
                    (pb_zone kp) (sh_size f) STOREFILE_TOTAL (bc_timeout bc) (bc_idle_extend bc)
                    (pi_start sa) (pi_turns sa) (pi_t0 sa) (pi_late sa)) (\<lambda>s.
             case s of None \<Rightarrow> Inr None | Some (sr, sp) \<Rightarrow> Inr (Some ([kr, sr], pb_zone sp))))"

fun publish_shared_files_to_kad ::
    "(bytes \<Rightarrow> bytes) \<Rightarrow> zlib \<Rightarrow> batch_conf \<Rightarrow> (shared_file \<times> pass_in \<times> pass_in) list \<Rightarrow> zone \<Rightarrow> publish_report list option res" where
  "publish_shared_files_to_kad md4 z bc [] zn = Inr (Some [])"
| "publish_shared_files_to_kad md4 z bc ((f, ka, sa) # fs) zn =
     bindE (publish_both md4 z bc f ka sa zn) (\<lambda>r.
       case r of
         None \<Rightarrow> Inr None
       | Some (rs, zn') \<Rightarrow>
           bindE (publish_shared_files_to_kad md4 z bc fs zn') (\<lambda>more_reports. Inr (map_option ((@) rs) more_reports)))"


definition publish_shared_files ::
    "(bytes \<Rightarrow> bytes) \<Rightarrow> zlib \<Rightarrow> batch_conf \<Rightarrow> bool \<Rightarrow> (shared_file \<times> pass_in \<times> pass_in) list \<Rightarrow> zone \<Rightarrow> publish_report list option res" where
  "publish_shared_files md4 z bc bound files zn =
     (if files = [] then Inr (Some [])
      else if \<not> bound then Inl PublishError
      else publish_shared_files_to_kad md4 z bc files zn)"

section \<open>What is published can be found\<close>

definition text_tag_bytes :: "bytes \<Rightarrow> bytes \<Rightarrow> bytes" where
  "text_tag_bytes name e = [0x02] @ le_enc 2 (length name) @ name @ le_enc 2 (length e) @ e"

definition size_tag_bytes :: "int \<Rightarrow> bytes" where
  "size_tag_bytes sz =
     (if sz \<le> 0xFFFFFFFF then [0x03] @ le_enc 2 1 @ [0x02] @ le_enc 4 (nat sz)
      else [0x0A] @ le_enc 2 1 @ [0x02] @ [8] @ le_enc 8 (nat sz))"

lemma file_size_tag_bytes:
  assumes "file_size_tag sz = Inr t" and "encode_kad_tag pf t = Inr b"
  shows "b = size_tag_bytes sz" and "0 \<le> sz \<and> sz < 2 ^ 64"
proof -
  have "b = size_tag_bytes sz \<and> 0 \<le> sz \<and> sz < 2 ^ 64"
  proof (cases "sz \<le> 0xFFFFFFFF")
    case True
    then have "t = (TAGNAME_FILESIZE, UINT32, VInt sz)" using assms(1) by (simp add: file_size_tag_def)
    with assms(2) True show ?thesis
      by (auto simp: encode_kad_tag_def pack_int_def pack_le_def size_tag_bytes_def TAGNAME_FILESIZE_def tag_consts split: if_splits)
  next
    case False
    then have "t = (TAGNAME_FILESIZE, BSOB, VBytes (le_enc 8 (nat sz)))" and "nat sz < 256 ^ 8"
      using assms(1) by (auto simp: file_size_tag_def pack_int_def pack_le_def bindE_eq_Inr_conv split: if_splits)
    with assms(2) False show ?thesis
      by (auto simp: encode_kad_tag_def pack_le_def size_tag_bytes_def TAGNAME_FILESIZE_def tag_consts one_byte_def nat_less_iff split: if_splits)
  qed
  then show "b = size_tag_bytes sz" "0 \<le> sz \<and> sz < 2 ^ 64" by simp_all
qed

lemma keyword_file_tags_bytes:
  assumes "keyword_file_tags name sz = Inr (b, n)"
  obtains e where "utf8_encode name = Some e" and "length e < 2 ^ 16" and "b = text_tag_bytes TAGNAME_FILENAME e @ size_tag_bytes sz"
    and "n = 2" and "0 \<le> sz" and "sz < 2 ^ 64" and "length b \<le> 255"
proof -
  from assms obtain st where st: "file_size_tag sz = Inr st"
    and bt: "build_tag_list_raw (\<lambda>_. Inr []) [(TAGNAME_FILENAME, STRING, VStr name), st] = Inr b" and n: "n = 2"
    by (auto simp: keyword_file_tags_def Let_def bindE_eq_Inr_conv)
  let ?t = "(TAGNAME_FILENAME, STRING, VStr name) :: unit kad_tag"
  from bt obtain b1 b2 where b1: "encode_kad_tag (\<lambda>_. Inr []) ?t = Inr b1"
    and b2: "encode_kad_tag (\<lambda>_. Inr []) st = Inr b2" and b: "b = b1 @ b2" "length b \<le> 255"
    by (auto simp: build_tag_list_raw_def bindE_eq_Inr_conv split: if_splits)
  from b1 obtain e where "utf8_encode name = Some e" "length e < 2 ^ 16" "b1 = text_tag_bytes TAGNAME_FILENAME e"
    by (auto simp: encode_kad_tag_def text_tag_bytes_def TAGNAME_FILENAME_def tag_consts pack_le_def bindE_eq_Inr_conv split: if_splits option.splits)
  with file_size_tag_bytes [OF st b2] b n that show thesis by blast
qed

text \<open>The tags as a reader returns them; a size above 32 bits is a byte string.\<close>

definition published_tags :: "ustr \<Rightarrow> int \<Rightarrow> 'f kad_tag list" where
  "published_tags name sz =
     [(TAGNAME_FILENAME, STRING, VStr name),
      (if sz \<le> 0xFFFFFFFF then (TAGNAME_FILESIZE, UINT32, VInt sz) else (TAGNAME_FILESIZE, BSOB, VBytes (le_enc 8 (nat sz))))]"

lemma published_answer_ok:
  assumes "utf8_encode name = Some e" and "length e < 2 ^ 16" and "0 \<le> sz" and "sz < 2 ^ 64" and "length h = 16"
  shows "answer_ok uf pf (h, published_tags name sz, [text_tag_bytes TAGNAME_FILENAME e, size_tag_bytes sz])"
  using assms
  by (auto simp: answer_ok_def published_tags_def kad_tag_ok_def encode_tag_for_raw_def text_tag_bytes_def size_tag_bytes_def
      TAGNAME_FILENAME_def TAGNAME_FILESIZE_def tag_consts pack_le_def nat_less_iff)

lemma published_item:
  "foldl note_tag ([], 0, 0) (published_tags name sz) = (name, if sz \<le> 0xFFFFFFFF then sz else 0, 0)"
  by (simp add: published_tags_def note_tag_def TAGNAME_FILENAME_def TAGNAME_FILESIZE_def)

lemma keyword_request_layout:
  assumes "keyword_publish_req md4 f = Inr (target, d)"
  obtains e where "keyword_target md4 (sh_name f) = Inr target" and "length (sh_hash f) = 16" and "utf8_encode (sh_name f) = Some e"
    and "length e < 2 ^ 16" and "0 \<le> sh_size f" and "sh_size f < 2 ^ 64"
    and "d = kad_header KAD_PROTOCOL KADEMLIA2_PUBLISH_KEY_REQ @ kad_to_bytes target @ le_enc 2 1 @
           answer_bytes (sh_hash f) [text_tag_bytes TAGNAME_FILENAME e, size_tag_bytes (sh_size f)]"
proof -
  from assms obtain h tags n p where t: "keyword_target md4 (sh_name f) = Inr target" and h: "kad_of_bytes (sh_hash f) = Inr h"
    and kt: "keyword_file_tags (sh_name f) (sh_size f) = Inr (tags, n)"
    and p: "build_publish_key_req target [(h, tags, n)] = Inr p" and d: "d = kad_header KAD_PROTOCOL KADEMLIA2_PUBLISH_KEY_REQ @ p"
    by (auto simp: keyword_publish_req_def bindE_eq_Inr_conv)
  from keyword_file_tags_bytes [OF kt] obtain e where e: "utf8_encode (sh_name f) = Some e" "length e < 2 ^ 16"
    "tags = text_tag_bytes TAGNAME_FILENAME e @ size_tag_bytes (sh_size f)" "n = 2" "0 \<le> sh_size f" "sh_size f < 2 ^ 64" "length tags \<le> 255" .
  have ne: "tags \<noteq> []" by (simp add: e(3) text_tag_bytes_def)
  have p': "p = kad_to_bytes target @ le_enc 2 1 @ sh_hash f @ [2] @ tags"
    using p ne e(4,7) kad_to_of_bytes [OF h] by (auto simp: build_publish_key_req_def build_tag_list_def)
  show thesis
    by (rule that [OF t _ e(1,2,5,6)]) (use h d p' e(3) in \<open>auto simp: kad_of_bytes_def answer_bytes_def split: if_splits\<close>)
qed

lemma published_file_answer:
  assumes "keyword_publish_req md4 f = Inr (target, d)" and "length source = 16"
  shows "\<exists>raw. parse_search_res_answers uf pf (source @ kad_to_bytes target @ drop 18 d) =
    Inr [\<lparr>ki_file_hash = sh_hash f, ki_name = sh_name f, ki_size = (if sh_size f \<le> 0xFFFFFFFF then sh_size f else 0),
          ki_sources = 0, ki_raw_tags = raw\<rparr>]"
proof -
  from keyword_request_layout [OF assms(1)] obtain e where h: "length (sh_hash f) = 16" and e: "utf8_encode (sh_name f) = Some e"
    "length e < 2 ^ 16" "0 \<le> sh_size f" "sh_size f < 2 ^ 64"
    and d: "d = kad_header KAD_PROTOCOL KADEMLIA2_PUBLISH_KEY_REQ @ kad_to_bytes target @ le_enc 2 1 @
           answer_bytes (sh_hash f) [text_tag_bytes TAGNAME_FILENAME e, size_tag_bytes (sh_size f)]" by metis
  let ?es = "[(sh_hash f, published_tags (sh_name f) (sh_size f) :: 'a kad_tag list, [text_tag_bytes TAGNAME_FILENAME e, size_tag_bytes (sh_size f)])]"
  have "drop 18 d = le_enc 2 (length ?es) @ concat (map (\<lambda>(h, tags, raws). answer_bytes h raws) ?es) @ []"
    by (simp add: d kad_header_def)
  then show ?thesis
    using parse_answers_layout [of source "kad_to_bytes target" ?es uf pf "[]"] assms(2) published_answer_ok [OF e h, of uf pf]
    by (simp add: published_item)
qed


text \<open>What a reader makes of a list of tags without floating point values: the same tags.\<close>

definition plain_tag :: "'f kad_tag \<Rightarrow> bool" where
  "plain_tag t \<longleftrightarrow>
     (case t of (name, ty, v) \<Rightarrow>
        case v of VStr s \<Rightarrow> ty = STRING | VInt i \<Rightarrow> ty = UINT8 \<or> ty = UINT16 \<or> ty = UINT32 | VBytes b \<Rightarrow> ty = BSOB | _ \<Rightarrow> False)"

definition retag :: "('f \<Rightarrow> 'g) \<Rightarrow> 'f kad_tag \<Rightarrow> 'g kad_tag" where
  "retag g t = (case t of (name, ty, v) \<Rightarrow> (name, ty, map_tag_value g v))"

lemma plain_tag_reads:
  assumes "plain_tag t" and "encode_kad_tag pf t = Inr b"
  shows "kad_tag_ok uf pf' (retag g t) \<and> encode_tag_for_raw pf' (retag g t) = Inr b"
proof -
  obtain name ty v where t: "t = (name, ty, v)" by (cases t)
  from assms have nl: "length name < 2 ^ 16"
    by (auto simp: t encode_kad_tag_def pack_le_def bindE_eq_Inr_conv split: if_splits)
  show ?thesis
  proof (cases v)
    case (VInt i)
    with assms nl show ?thesis
      by (auto simp: t retag_def plain_tag_def kad_tag_ok_def encode_kad_tag_def encode_tag_for_raw_def pack_int_def one_byte_def
          pack_le_def tag_consts nat_less_iff unsigned_of_int of_nat_nat split: if_splits)
  next
    case (VStr s)
    with assms nl show ?thesis
      by (auto simp: t retag_def plain_tag_def kad_tag_ok_def encode_kad_tag_def encode_tag_for_raw_def pack_le_def tag_consts
          bindE_eq_Inr_conv split: option.splits if_splits)
  next
    case (VBytes d)
    with assms nl show ?thesis
      by (auto simp: t retag_def plain_tag_def kad_tag_ok_def encode_kad_tag_def encode_tag_for_raw_def pack_le_def one_byte_def tag_consts
          split: if_splits)
  qed (use assms(1) in \<open>auto simp: t plain_tag_def\<close>)
qed

lemma plain_tags_read:
  "list_all plain_tag ts \<Longrightarrow> mapE (encode_kad_tag pf) ts = Inr raws \<Longrightarrow>
   list_all (kad_tag_ok uf pf') (map (retag g) ts) \<and> mapE (encode_tag_for_raw pf') (map (retag g) ts) = Inr raws"
proof (induction ts arbitrary: raws)
  case Nil
  then show ?case by simp
next
  case (Cons t ts)
  from Cons.prems(2) obtain b bs where b: "encode_kad_tag pf t = Inr b" "mapE (encode_kad_tag pf) ts = Inr bs" "raws = b # bs"
    by (auto simp: bindE_eq_Inr_conv)
  with Cons.IH [OF _ b(2)] Cons.prems(1) plain_tag_reads [OF _ b(1), of uf pf' g] show ?case by simp
qed

text \<open>The address tag an index node adds, for the address \<open>v\<close>.\<close>

definition ip_tag :: "nat \<Rightarrow> 'f kad_tag" where
  "ip_tag v = (TAGNAME_SOURCEIP, UINT32, VInt (int v))"

definition ip_tag_bytes :: "nat \<Rightarrow> bytes" where
  "ip_tag_bytes v = [0x03] @ le_enc 2 1 @ [0xFE] @ le_enc 4 v"

lemma ip_tag_ok:
  "v < 2 ^ 32 \<Longrightarrow> kad_tag_ok uf pf (ip_tag v) \<and> encode_tag_for_raw pf (ip_tag v) = Inr (ip_tag_bytes v)"
  by (simp add: ip_tag_def ip_tag_bytes_def kad_tag_ok_def encode_tag_for_raw_def pack_le_def source_names tag_consts)

definition published_source :: "nat \<Rightarrow> int \<Rightarrow> int option \<Rightarrow> source_fields" where
  "published_source v tcp udp =
     no_fields\<lparr>sf_ip := Some (ipv4_str (be_dec (le_enc 4 v))), sf_source_type := 1, sf_tcp_port := tcp,
               sf_udp_port := (case udp of Some p \<Rightarrow> if p > 0 then p else 0 | None \<Rightarrow> 0)\<rparr>"

lemma file_size_tag_plain: "file_size_tag sz = Inr t \<Longrightarrow> plain_tag t \<and> fst t = TAGNAME_FILESIZE \<and> (\<forall>f. note_source_tag f (retag g t) = Inr f)"
  by (auto simp: file_size_tag_def plain_tag_def note_source_tag_def note_source_int_def retag_def source_names TAGNAME_FILESIZE_def
      bindE_eq_Inr_conv split: if_splits)

lemma note_source_values:
  "note_source_tag f (TAGNAME_SOURCETYPE, ty, VInt i) = Inr (f\<lparr>sf_source_type := i\<rparr>)"
  "is_port i \<Longrightarrow> note_source_tag f (TAGNAME_SOURCEPORT, ty, VInt i) = Inr (f\<lparr>sf_tcp_port := i\<rparr>)"
  "is_port i \<Longrightarrow> note_source_tag f (TAGNAME_SOURCEUPORT, ty, VInt i) = Inr (f\<lparr>sf_udp_port := i\<rparr>)"
  by (simp_all add: note_source_tag_def note_source_int_def source_names)

lemma source_values_read:
  assumes "source_tag_values tcp udp sz 0 1 = Inr ts" and "is_port tcp" and "\<forall>p. udp = Some p \<and> 0 < p \<longrightarrow> is_port p"
    and "v < 2 ^ 32" and "0 < be_dec (le_enc 4 v) div 2 ^ 24" and "be_dec (le_enc 4 v) div 2 ^ 24 < 224"
  shows "list_all plain_tag ts" and "foldE note_source_tag no_fields (ip_tag v # map (retag g) ts) = Inr (published_source v tcp udp)"
    and "length ts \<le> 4"
proof -
  obtain st where st: "(if sz > 0 then bindE (file_size_tag sz) (\<lambda>t. Inr [t]) else Inr []) = Inr st"
    and ts: "ts = [(TAGNAME_SOURCETYPE, UINT8, VInt 1), (TAGNAME_SOURCEPORT, UINT32, VInt tcp)] @
            (case udp of Some p \<Rightarrow> if p > 0 then [(TAGNAME_SOURCEUPORT, UINT16, VInt p)] else [] | None \<Rightarrow> []) @ st"
    using assms(1) by (auto simp: source_tag_values_def bindE_eq_Inr_conv)
  have pst: "list_all plain_tag st" and nst: "foldE note_source_tag f (map (retag g) st) = Inr f" and lst: "length st \<le> 1" for f
    using st file_size_tag_plain [of sz _ g] by (auto simp: bindE_eq_Inr_conv split: if_splits)
  show "list_all plain_tag ts" "length ts \<le> 4"
    using pst lst by (auto simp: ts plain_tag_def split: option.splits)
  have v0: "v \<noteq> 0"
  proof
    assume "v = 0"
    then have "be_dec (le_enc 4 v) = 0" by (simp add: be_dec_def le_enc_numeral)
    with assms(5) show False by simp
  qed
  have ip: "note_source_tag f (ip_tag v) = Inr (f\<lparr>sf_ip := Some (ipv4_str (be_dec (le_enc 4 v)))\<rparr>)" for f
    using v0 assms(4-6) by (simp add: note_source_tag_def ip_tag_def note_source_int_def packed_ip_def pack_le_def source_names)
  show "foldE note_source_tag no_fields (ip_tag v # map (retag g) ts) = Inr (published_source v tcp udp)"
    using assms(2,3) nst
    by (cases udp) (auto simp: ts ip retag_def note_source_values published_source_def no_fields_def)
qed


lemma source_request_layout:
  assumes "source_publish_reqs sp target sz [tcp] = Inr [d]"
  obtains ts raws where "source_tag_values tcp (sp_own_udp_port sp) sz 0 1 = Inr ts" and "mapE (encode_kad_tag (\<lambda>_. Inr [])) ts = Inr raws"
    and "length (sp_user_hash sp) = 16"
    and "d = kad_header KAD_PROTOCOL KADEMLIA2_PUBLISH_SOURCE_REQ @ kad_to_bytes target @ answer_bytes (sp_user_hash sp) raws"
proof -
  from assms obtain tags n pid p where t: "source_tags tcp (sp_own_udp_port sp) sz 0 1 = Inr (tags, n)"
    and pid: "kad_of_bytes (sp_user_hash sp) = Inr pid" and p: "build_publish_source_req target pid tags n = Inr p"
    and d: "d = kad_header KAD_PROTOCOL KADEMLIA2_PUBLISH_SOURCE_REQ @ p"
    by (auto simp: source_publish_reqs_def bindE_eq_Inr_conv)
  from t obtain ts raws where ts: "source_tag_values tcp (sp_own_udp_port sp) sz 0 1 = Inr ts"
    and raws: "mapE (encode_kad_tag (\<lambda>_. Inr [])) ts = Inr raws" and tags: "tags = concat raws" "length tags \<le> 255" "n = int (length ts)"
    by (auto simp: source_tags_def build_tag_list_raw_def bindE_eq_Inr_conv split: if_splits)
  from ts obtain t0 ts' where t0: "ts = (TAGNAME_SOURCETYPE, UINT8, VInt 1) # ts'" by (auto simp: source_tag_values_def bindE_eq_Inr_conv)
  have ne: "tags \<noteq> []" using raws by (auto simp: t0 tags(1) encode_kad_tag_def bindE_eq_Inr_conv)
  have "length raws = length ts" by (rule mapE_length [OF raws])
  moreover from p ne tags have "n \<le> 0xFF" and "p = kad_to_bytes target @ kad_to_bytes pid @ word_of_int n # tags"
    by (auto simp: build_publish_source_req_def build_tag_list_def split: if_splits)
  ultimately have "p = kad_to_bytes target @ answer_bytes (sp_user_hash sp) raws"
    using kad_to_of_bytes [OF pid] tags by (simp add: answer_bytes_def)
  with d ts raws pid show thesis by (intro that) (auto simp: kad_of_bytes_def split: if_splits)
qed

text \<open>
  The entry of a source request, with the address tag in front that the index node adds: \<open>uh\<close> is the
  publisher's hash, \<open>n\<close> the number of its tags.
\<close>

definition with_address :: "nat \<Rightarrow> bytes \<Rightarrow> bytes" where
  "with_address v entry = take 16 entry @ [entry ! 16 + 1] @ ip_tag_bytes v @ drop 17 entry"

lemma published_source_answer:
  assumes "source_publish_reqs sp target sz [tcp] = Inr [d]" and "length source = 16" and "is_port tcp"
    and "\<forall>p. sp_own_udp_port sp = Some p \<and> 0 < p \<longrightarrow> is_port p"
    and v: "v < 2 ^ 32" "0 < be_dec (le_enc 4 v) div 2 ^ 24" "be_dec (le_enc 4 v) div 2 ^ 24 < 224"
  shows "parse_search_res_source_entries uf (source @ kad_to_bytes target @ le_enc 2 1 @ with_address v (drop 18 d)) =
    Inr [(sp_user_hash sp, published_source v tcp (sp_own_udp_port sp))]"
proof -
  from source_request_layout [OF assms(1)] obtain ts raws where ts: "source_tag_values tcp (sp_own_udp_port sp) sz 0 1 = Inr ts"
    and raws: "mapE (encode_kad_tag (\<lambda>_. Inr [])) ts = Inr raws" and uh: "length (sp_user_hash sp) = 16"
    and d: "d = kad_header KAD_PROTOCOL KADEMLIA2_PUBLISH_SOURCE_REQ @ kad_to_bytes target @ answer_bytes (sp_user_hash sp) raws" .
  let ?g = "\<lambda>_ :: unit. undefined :: 'a"
  note vals = source_values_read(1) [OF ts assms(3,4) v] source_values_read(2) [where g = ?g, OF ts assms(3,4) v]
    source_values_read(3) [OF ts assms(3,4) v]
  let ?tags = "ip_tag v # map (retag ?g) ts" and ?raws = "ip_tag_bytes v # raws"
  have len: "length raws = length ts" by (rule mapE_length [OF raws])
  have u: "word_of_nat (length raws) + 1 = (word_of_nat (length ?raws) :: byte)" by simp
  have e: "with_address v (drop 18 d) = answer_bytes (sp_user_hash sp) ?raws"
    using uh u by (simp add: d kad_header_def with_address_def answer_bytes_def nth_append)
  have ok: "answer_ok uf (\<lambda>_. Inr []) (sp_user_hash sp, ?tags, ?raws)"
    using plain_tags_read [OF vals(1) raws, of uf "\<lambda>_. Inr []" ?g] ip_tag_ok [OF v(1), of uf "\<lambda>_. Inr []"] uh vals(3)
    by (simp add: answer_ok_def)
  have "parse_search_res uf source_entry (source @ kad_to_bytes target @ le_enc 2 (length [(sp_user_hash sp, ?tags, ?raws)]) @
      concat (map (\<lambda>(h, tags, raws). answer_bytes h raws) [(sp_user_hash sp, ?tags, ?raws)]) @ []) =
    mapE (\<lambda>(h, tags, raws). source_entry h tags) [(sp_user_hash sp, ?tags, ?raws)]"
    by (rule search_res_layout) (use ok assms(2) in simp_all)
  moreover have "source_entry (sp_user_hash sp) ?tags = Inr (sp_user_hash sp, published_source v tcp (sp_own_udp_port sp))"
    using vals(2) by (simp only: source_entry_def bindE_Inr)
  ultimately show ?thesis by (simp add: parse_search_res_source_entries_def e)
qed

section \<open>A name that is too long\<close>

lemma long_name_tags:
  assumes "utf8_encode name = Some e" and "242 \<le> length e" and "length e < 2 ^ 16" and "0 \<le> sz" and "sz \<le> 0xFFFFFFFF"
  shows "keyword_file_tags name sz = Inl PublishError"
  using assms
  by (simp add: keyword_file_tags_def file_size_tag_def build_tag_list_raw_def encode_kad_tag_def pack_le_def pack_int_def
      TAGNAME_FILENAME_def TAGNAME_FILESIZE_def tag_consts nat_less_iff)

lemma long_name_req:
  assumes "utf8_encode (sh_name f) = Some e" and "242 \<le> length e" and "length e < 2 ^ 16" and "0 \<le> sh_size f" and "sh_size f \<le> 0xFFFFFFFF"
    and "length (md4 e) = 16" and "length (sh_hash f) = 16"
  shows "keyword_publish_req md4 f = Inl PublishError"
  using long_name_tags [OF assms(1-5)] assms
  by (simp add: keyword_publish_req_def keyword_target_def from_be_bytes_def kad_of_bytes_def)

section \<open>Acceptances\<close>

lemma publish_turn_counts:
  assumes "run_turns (publish_turn z ok m n dl) turns p = Inr t"
  shows "length (pb_accepts (turn_state t)) \<le> max n (length (pb_accepts p)) \<and> length (pb_loads (turn_state t)) + length (pb_accepts p) = length (pb_loads p) + length (pb_accepts (turn_state t))"
  using assms
proof (induction turns arbitrary: p)
  case Nil
  then show ?case by auto
next
  case (Cons i turns)
  from Cons.prems obtain u where u: "publish_turn z ok m n dl i p = Inr u"
    and r: "(case u of Stop s' \<Rightarrow> Inr (Stop s') | Go s' \<Rightarrow> run_turns (publish_turn z ok m n dl) turns s') = Inr t"
    by (auto simp: bindE_eq_Inr_conv)
  show ?case
  proof (cases u)
    case (Stop s')
    with u r show ?thesis
      by (cases "recv_dgram i") (auto simp: publish_turn_def Let_def send_publishing_def split: if_splits option.splits sum.splits prod.splits)
  next
    case (Go s')
    have "length (pb_accepts s') \<le> max n (length (pb_accepts p)) \<and> length (pb_loads s') + length (pb_accepts p) = length (pb_loads p) + length (pb_accepts s')"
      using u Go by (cases "recv_dgram i") (auto simp: publish_turn_def Let_def send_publishing_def split: if_splits option.splits sum.splits prod.splits)
    with Cons.IH [of s'] r Go show ?thesis by auto
  qed
qed

text \<open>An answer of a target, as a turn of the collecting loop.\<close>

lemma one_node_accepts:
  assumes "map_of m a = Some tgt" and "ti_datagram ti = Some (kad_header KAD_PROTOCOL KADEMLIA2_PUBLISH_RES @ h @ [load], a)"
    and "length h = 16" and "ti_now ti < dl" and "\<not> ti_recv_fails ti"
  shows "length (pb_accepts p) + k \<le> n \<Longrightarrow> \<exists>p'. run_turns (publish_turn z ok m n dl) (replicate k ti) p = Inr (Go p') \<and>
    pb_accepts p' = pb_accepts p @ replicate k tgt"
proof (induction k arbitrary: p)
  case 0
  then show ?case by simp
next
  case (Suc k)
  have pay: "kad_payload z (kad_header KAD_PROTOCOL KADEMLIA2_PUBLISH_RES @ h @ [load]) = Inr (KADEMLIA2_PUBLISH_RES, h @ [load])"
    by (simp add: kad_payload_def parse_kad_packet_def kad_header_def KAD_PROTOCOL_def KADEMLIA2_PUBLISH_RES_def)
  obtain w where w: "kad_of_bytes h = Inr w" using assms(3) by (simp add: kad_of_bytes_def)
  have "py_slice 0 16 (h @ [load]) = h" using assms(3) by (simp add: py_slice_def)
  then have pres: "\<exists>r. parse_publish_res (h @ [load]) = Inr r \<and> \<not> pr_ack_requested r"
    using assms(3) w by (simp add: parse_publish_res_def)
  then obtain r where r: "parse_publish_res (h @ [load]) = Inr r" "\<not> pr_ack_requested r" by blast
  let ?p = "p\<lparr>pb_zone := snd (zone_mark_alive (ti_wall ti) a (pb_zone p)), pb_accepts := pb_accepts p @ [tgt], pb_loads := pb_loads p @ [pr_load r]\<rparr>"
  have step: "publish_turn z ok m n dl ti p = Inr (Go ?p)"
    using assms(1,2,4,5) Suc.prems r by (simp add: publish_turn_def recv_dgram_def pay Let_def)
  from Suc.IH [of ?p] Suc.prems obtain p' where
    "run_turns (publish_turn z ok m n dl) (replicate k ti) ?p = Inr (Go p') \<and> pb_accepts p' = pb_accepts ?p @ replicate k tgt" by auto
  with step show ?case by simp
qed


section \<open>The lookup of a publisher\<close>

definition versions_ok :: "nat \<Rightarrow> 'a lookup_scheme \<Rightarrow> bool" where
  "versions_ok mv s \<longleftrightarrow> (\<forall>c \<in> snd ` set (lk_tried s). mv \<le> cd_version c)"

lemma versions_ask_loop: "versions_ok mv s \<Longrightarrow> ask_loop ok mv target ds asked s = Inr s1 \<Longrightarrow> versions_ok mv s1"
proof (induction ds arbitrary: asked s)
  case Nil
  then show ?case by simp
next
  case (Cons d ds)
  show ?case
  proof (cases "asked \<ge> ALPHA \<or> d \<in> keys (lk_tried s)")
    case True
    with Cons show ?thesis by (auto split: if_splits)
  next
    case False
    with Cons.prems obtain c where c: "map_of (lk_possible s) d = Some c" by (auto split: option.splits)
    let ?s1 = "s\<lparr>lk_possible := dict_del d (lk_possible s)\<rparr>"
    let ?s2 = "sent (find_value_req target (cd_id c) FIND_VALUE) (cd_ip c, cd_udp c)
      (?s1\<lparr>lk_tried := dict_set d c (lk_tried ?s1), lk_addr := dict_set (cd_ip c, cd_udp c) d (lk_addr ?s1)\<rparr>)"
    show ?thesis
    proof (cases "cd_version c < mv")
      case True
      have "versions_ok mv ?s1" using Cons.prems(1) by (simp add: versions_ok_def)
      with Cons.IH [of ?s1 asked] True False c Cons.prems(2) show ?thesis by (auto simp: Let_def)
    next
      case v: False
      have "versions_ok mv ?s2" using Cons.prems(1) v vals_dict_set [of d c "lk_tried s"] by (fastforce simp: versions_ok_def)
      with Cons.IH [of ?s2 "asked + 1"] v False c Cons.prems(2) show ?thesis
        by (auto simp: Let_def send_dgram_Inr bindE_eq_Inr_conv)
    qed
  qed
qed

lemma tried_strike: "lk_tried (turn_state (strike target s)) = lk_tried s"
proof -
  have w: "lk_tried (snd (seed_walk target cnt added ns s)) = lk_tried s" for cnt added ns and s :: "'a lookup_scheme"
    by (induction ns arbitrary: added s) (auto simp: Let_def)
  let ?s = "s\<lparr>lk_strikes := lk_strikes s + 1\<rparr>"
  obtain n s2 where "seed_more target ALPHA ?s = (n, s2)" by fastforce
  with w [of ALPHA 0 "lk_pool ?s" ?s] show ?thesis by (auto simp: strike_def Let_def seed_more_def)
qed

lemma fold_publish_keeps:
  "lookup_inv tg s \<Longrightarrow> lookup_inv tg (fold_publish_contacts cf wall src rdist cs s) \<and>
    lk_tried (fold_publish_contacts cf wall src rdist cs s) = lk_tried s"
proof (induction cs arbitrary: s)
  case Nil
  then show ?case by simp
next
  case (Cons c cs)
  have f: "lk_tried (follow cf wall c d s) = lk_tried s" for d by (auto simp: follow_def split: prod.splits)
  from Cons f inv_follow [OF Cons.prems, of _ cf wall c] show ?case by (auto simp: Let_def)
qed

lemma on_publish_keeps:
  assumes "lookup_inv tg s" and "rdist \<in> keys (lk_tried s)"
  shows "lookup_inv tg (on_publish_contacts cf ti a rdist cs s) \<and> lk_tried (on_publish_contacts cf ti a rdist cs s) = lk_tried s"
  using fold_publish_keeps [OF inv_heard [OF assms(1)], of cf "ti_wall ti" "fst a" rdist cs ti a] assms(2)
  by (auto simp: on_publish_contacts_def Let_def intro!: inv_responded)

definition publish_inv :: "kad_id \<Rightarrow> nat \<Rightarrow> lookup \<Rightarrow> bool" where
  "publish_inv tg mv s \<longleftrightarrow> lookup_inv tg s \<and> versions_ok mv s"

lemma gives_lookup_datagram:
  assumes inv: "publish_inv tg mv s" and z: "\<And>d. gives {ZlibError} (\<lambda>_. True) (z_decompress (lc_zlib cf) d)"
  shows "gives {} (\<lambda>t. publish_inv tg mv (turn_state t)) (on_lookup_datagram cf ti data a s)"
proof -
  let ?s = "s\<lparr>lk_strikes := 0\<rparr>"
  have s: "lookup_inv tg ?s" and v: "publish_inv tg mv ?s" using inv inv_fields(2) by (auto simp: publish_inv_def versions_ok_def)
  show ?thesis
  proof (cases "map_of (lk_addr ?s) a")
    case None
    then show ?thesis using v by (simp add: on_lookup_datagram_def Let_def)
  next
    case (Some rdist)
    have rd: "rdist \<in> keys (lk_tried ?s)" by (rule inv_addr [OF s Some])
    have con: "publish_inv tg mv (on_publish_contacts cf ti a rdist cs ?s)" for cs
      using on_publish_keeps [OF s rd, of cf ti a cs] v by (simp add: publish_inv_def versions_ok_def)
    show ?thesis
    proof (cases "kad_payload (lc_zlib cf) data")
      case (Inl e)
      with gives_kad_payload [OF z, of data] have "e = KadPacketError \<or> e = ZlibError" by simp
      with Inl Some v show ?thesis by (simp add: on_lookup_datagram_def Let_def)
    next
      case (Inr q)
      obtain opcode payload where "q = (opcode, payload)" by (cases q)
      with Inr Some v con gives_kad2_res [of payload] show ?thesis
        by (cases "parse_kad2_res payload") (auto simp: on_lookup_datagram_def Let_def)
    qed
  qed
qed

lemma gives_lookup_turn:
  assumes ti: "ti \<in> set tis" and inv: "publish_inv (lc_target cf) mv s" and z: "\<And>d. gives {ZlibError} (\<lambda>_. True) (z_decompress (lc_zlib cf) d)"
  shows "gives (net_errs (lc_send cf) tis) (\<lambda>t. publish_inv (lc_target cf) mv (turn_state t)) (lookup_turn mv cf ti s)" (is "gives ?E ?P _")
proof (cases "ask_round (lc_send cf) mv (lc_target cf) s")
  case (Inl e)
  with gives_ask_round [of "lc_target cf" s "lc_send cf" tis mv] inv show ?thesis by (simp add: publish_inv_def lookup_turn_def Let_def)
next
  case (Inr s1)
  let ?tg = "lc_target cf" and ?ok = "lc_send cf"
  have i1: "lookup_inv ?tg s1" using gives_ask_round [of ?tg s ?ok tis mv] inv Inr by (simp add: publish_inv_def)
  have p1: "publish_inv ?tg mv s1"
    using versions_ask_loop [OF _ Inr [unfolded ask_round_def]] inv i1 by (simp add: publish_inv_def)
  have "gives ?E ?P (bindE (reask ?ok ?tg s1) (\<lambda>s2. Inr (strike ?tg s2)))"
  proof (cases "reask ?ok ?tg s1")
    case (Inr s2)
    then have "lookup_inv ?tg s2" and "lk_tried s2 = lk_tried s1"
      using gives_reask [OF i1, of ?ok tis] reask_fields [OF Inr] by simp_all
    with p1 inv_strike [of ?tg s2 ?tg] Inr show ?thesis by (simp add: publish_inv_def versions_ok_def tried_strike)
  qed (use gives_reask [OF i1, of ?ok tis] in simp)
  then have "gives ?E ?P (bindE (recv_dgram ti) (\<lambda>dg. case dg of
      None \<Rightarrow> bindE (reask ?ok ?tg s1) (\<lambda>s2. Inr (strike ?tg s2)) | Some (data, a) \<Rightarrow> on_lookup_datagram cf ti data a s1))"
    by (intro gives_bindE [OF gives_recv [OF ti, of ?ok]])
      (auto split: option.split prod.split intro!: gives_mono [OF gives_lookup_datagram [where cf = cf, OF p1 z]])
  with inv Inr show ?thesis by (simp add: lookup_turn_def Let_def)
qed

lemma responders_sound:
  assumes "publish_inv tg mv s"
  shows "gives {} (\<lambda>rs. list_all (\<lambda>t. mv \<le> pt_version t) rs \<and> length rs = length (lk_responded s)) (responders s)"
proof -
  have one: "\<exists>t. tried_target s d = Inr t \<and> mv \<le> pt_version t" if d: "d \<in> set (map fst (lk_responded s))" for d
  proof -
    have "d \<in> keys (lk_tried s)" using d assms lookup_invD(4) [of tg s] by (auto simp: publish_inv_def keys_def)
    then obtain c where c: "map_of (lk_tried s) d = Some c" using map_of_keys [of "lk_tried s" d] by auto
    then have "c \<in> snd ` set (lk_tried s)" using map_of_SomeD by force
    with assms have "mv \<le> cd_version c" unfolding publish_inv_def versions_ok_def by blast
    with c show ?thesis by (simp add: tried_target_def)
  qed
  have "\<exists>rs. mapE (tried_target s) ds = Inr rs \<and> list_all (\<lambda>t. mv \<le> pt_version t) rs \<and> length rs = length ds"
    if "set ds \<subseteq> set (map fst (lk_responded s))" for ds
    using that
  proof (induction ds)
    case (Cons d ds)
    with one [of d] show ?case by auto
  qed simp
  from this [of "map fst (lk_responded s)"] show ?thesis by (auto simp: responders_def)
qed

text \<open>
  The lookup of a publisher raises nothing but the \<open>OSError\<close> of the socket, and every node it returns is one that answered a request and
  has the version asked for.
\<close>

theorem publish_lookup_sound:
  assumes "\<And>d. gives {ZlibError} (\<lambda>_. True) (z_decompress z d)"
  shows "gives (net_errs ok turns) (\<lambda>r. case r of None \<Rightarrow> True | Some (rs, s) \<Rightarrow>
      lookup_inv target s \<and> list_all (\<lambda>t. min_version \<le> pt_version t) rs \<and> length rs = length (lk_responded s))
    (lookup_closest z ok target own zn timeout idle_extend min_version start turns)"
proof -
  define cf where "cf = \<lparr>lc_target = target, lc_own = own, lc_hard = start + timeout, lc_idle = idle_extend, lc_zlib = z, lc_send = ok\<rparr>"
  have cf: "lc_target cf = target" "lc_send cf = ok" "lc_zlib cf = z" by (simp_all add: cf_def)
  let ?s = "lookup_start target (map raw_pool_node (closest own target 120 zn)) zn start"
  have "lk_tried (snd (seed_walk target cnt added ns s)) = lk_tried s" for cnt added ns and s :: lookup
    by (induction ns arbitrary: added s) (auto simp: Let_def)
  then have i: "publish_inv target min_version ?s"
    using inv_start by (simp add: publish_inv_def versions_ok_def lookup_start_def seed_more_def)
  have run: "gives (net_errs ok turns) (\<lambda>t. publish_inv target min_version (turn_state t)) (run_turns (lookup_turn min_version cf) turns ?s)"
    by (rule gives_run_turns [where P = "publish_inv target min_version", OF gives_lookup_turn [where cf = cf, unfolded cf] i]) (simp_all add: assms)
  show ?thesis unfolding lookup_closest_def Let_def cf_def [symmetric]
  proof (rule gives_bindE [OF run])
    fix t :: "lookup turn" assume t: "publish_inv target min_version (turn_state t)"
    show "gives (net_errs ok turns) (\<lambda>r. case r of None \<Rightarrow> True | Some (rs, s) \<Rightarrow>
        lookup_inv target s \<and> list_all (\<lambda>t. min_version \<le> pt_version t) rs \<and> length rs = length (lk_responded s))
      (case t of Go _ \<Rightarrow> Inr None | Stop s \<Rightarrow> bindE (responders s) (\<lambda>rs. Inr (Some (rs, s))))"
    proof (cases t)
      case (Stop s)
      with responders_sound [of target min_version s] t show ?thesis
        by (cases "responders s") (auto simp: publish_inv_def)
    qed simp
  qed
qed

section \<open>Properties\<close>

text \<open>
  C37. What a node of this program publishes, a node of this program can find: the entry that the keyword
  request carries for a file is read back by the keyword search as the file's hash, name and size (0
  for a file of 4 GiB and more, whose size the search does not read); and the entry of a source
  request, with the address tag that the index node adds, is read back by the source search as a source
  with the publisher's hash, address, TCP port and UDP port.
\<close>

theorem published_entries_found:
  assumes "length source = 16" and "keyword_publish_req md4 f = Inr (target, d)"
    and "source_publish_reqs sp ft sz [tcp] = Inr [d']" and "is_port tcp"
    and "\<forall>p. sp_own_udp_port sp = Some p \<and> 0 < p \<longrightarrow> is_port p"
    and "v < 2 ^ 32" and "0 < be_dec (le_enc 4 v) div 2 ^ 24" and "be_dec (le_enc 4 v) div 2 ^ 24 < 224"
  shows "(\<exists>raw. parse_search_res_answers uf pf (source @ kad_to_bytes target @ drop 18 d) =
      Inr [\<lparr>ki_file_hash = sh_hash f, ki_name = sh_name f, ki_size = (if sh_size f \<le> 0xFFFFFFFF then sh_size f else 0),
            ki_sources = 0, ki_raw_tags = raw\<rparr>]) \<and>
    parse_search_res_source_entries uf (source @ kad_to_bytes ft @ le_enc 2 1 @ with_address v (drop 18 d')) =
      Inr [(sp_user_hash sp, published_source v tcp (sp_own_udp_port sp))]"
  using published_file_answer [OF assms(2,1)] published_source_answer [OF assms(3,1,4-8)] by blast

text \<open>
  A shared file whose name has more than 241 bytes ends the whole batch: the tags of the keyword
  entry do not fit in 255 bytes, and the files after it are not published.
\<close>

theorem long_name_ends_batch:
  assumes "utf8_encode (sh_name f) = Some e" and "242 \<le> length e" and "length e < 2 ^ 16" and "0 \<le> sh_size f"
    and "sh_size f \<le> 0xFFFFFFFF" and "length (md4 e) = 16" and "length (sh_hash f) = 16"
  shows "publish_shared_files md4 z bc True ((f, ka, sa) # fs) zn = Inl PublishError"
  by (simp add: publish_shared_files_def publish_both_def publish_file_def long_name_req [where f = f and e = e and ?md4.0 = md4, OF assms])

text \<open>
  \<open>published\<close> counts answers, not nodes: one target that answers \<open>k\<close> times is accepted \<open>k\<close> times, up to the
  number of nodes wanted.
\<close>

theorem one_node_counts_often:
  assumes "map_of m a = Some tgt" and "ti_datagram ti = Some (kad_header KAD_PROTOCOL KADEMLIA2_PUBLISH_RES @ h @ [load], a)"
    and "length h = 16" and "ti_now ti < dl" and "\<not> ti_recv_fails ti" and "pb_accepts p = []"
  shows "\<exists>p'. run_turns (publish_turn z ok m n dl) (replicate n ti) p = Inr (Go p') \<and> pb_accepts p' = replicate n tgt"
  using one_node_accepts [OF assms(1-5), of p n n z ok] assms(6) by simp


definition sample_file :: shared_file where
  "sample_file = \<lparr>sh_name = [0x61, 0x62], sh_hash = replicate 16 3, sh_size = 1000\<rparr>"

definition sample_publisher :: source_publisher where
  "sample_publisher = mk_source_publisher 7 (Some 4672) None"

lemma published_entries_found_witness:
  "\<exists>target d d'. keyword_publish_req (\<lambda>_. replicate 16 1) sample_file = Inr (target, d) \<and>
    source_publish_reqs sample_publisher 9 1000 [4662] = Inr [d'] \<and>
    (\<exists>raw. parse_search_res_answers (\<lambda>b. b) Inr (replicate 16 0 @ kad_to_bytes target @ drop 18 d) =
      Inr [\<lparr>ki_file_hash = sh_hash sample_file, ki_name = sh_name sample_file,
            ki_size = (if sh_size sample_file \<le> 0xFFFFFFFF then sh_size sample_file else 0), ki_sources = 0, ki_raw_tags = raw\<rparr>]) \<and>
    parse_search_res_source_entries (\<lambda>b. b) (replicate 16 0 @ kad_to_bytes 9 @ le_enc 2 1 @ with_address 0x0100000A (drop 18 d')) =
      Inr [(sp_user_hash sample_publisher, published_source 0x0100000A 4662 (sp_own_udp_port sample_publisher))]"
proof -
  have "\<exists>b. keyword_file_tags [0x61, 0x62] 1000 = Inr (b, 2) \<and> length b \<le> 255 \<and> b \<noteq> []"
    by (simp add: keyword_file_tags_def file_size_tag_def build_tag_list_raw_def encode_kad_tag_def pack_le_def pack_int_def utf8_cp_def
        TAGNAME_FILENAME_def TAGNAME_FILESIZE_def tag_consts)
  then obtain target d where k: "keyword_publish_req (\<lambda>_. replicate 16 1) sample_file = Inr (target, d)"
    by (auto simp: keyword_publish_req_def sample_file_def keyword_target_def from_be_bytes_def utf8_cp_def kad_of_bytes_def
        build_publish_key_req_def build_tag_list_def)
  have "\<exists>b. source_tags 4662 (Some 4672) 1000 0 1 = Inr (b, 4) \<and> length b \<le> 255 \<and> b \<noteq> []"
    by (simp add: source_tags_def source_tag_values_def file_size_tag_def build_tag_list_raw_def encode_kad_tag_def pack_le_def pack_int_def
        one_byte_def source_names TAGNAME_FILESIZE_def tag_consts)
  then obtain d' where s: "source_publish_reqs sample_publisher 9 1000 [4662] = Inr [d']"
    by (auto simp: source_publish_reqs_def sample_publisher_def mk_source_publisher_def kad_of_to_bytes build_publish_source_req_def build_tag_list_def)
  have v: "be_dec (le_enc 4 0x0100000A) = 0x0A000001" by (simp add: be_dec_def le_enc_numeral)
  have p: "\<forall>p. sp_own_udp_port sample_publisher = Some p \<and> 0 < p \<longrightarrow> is_port p"
    by (simp add: sample_publisher_def mk_source_publisher_def is_port_def)
  have t: "is_port 4662" by (simp add: is_port_def)
  from published_entries_found [OF _ k s t p, of "replicate 16 0" "0x0100000A" "\<lambda>b. b" Inr] k s v show ?thesis by auto
qed

lemma publish_lookup_sound_witness:
  "gives (net_errs (\<lambda>_ _. True) (replicate 3 (sample_turn None))) (\<lambda>r. case r of None \<Rightarrow> True | Some (rs, s) \<Rightarrow>
      lookup_inv 5 s \<and> list_all (\<lambda>t. KAD2_MIN_VERSION \<le> pt_version t) rs \<and> length rs = length (lk_responded s))
    (lookup_closest quiet_zlib (\<lambda>_ _. True) 5 1 zone_new 30 10 KAD2_MIN_VERSION 0 (replicate 3 (sample_turn None)))"
  by (rule publish_lookup_sound) (simp add: quiet_zlib_def)

end
