(* ===== verification/Spec2Isabelle.thy ===== *)
theory Spec2Isabelle
  imports Aich Download_Queue Ics Upload_Queue Kad_Routing Packet_Codec Peer_Codec
    Udp_Obfuscation Utp Known_Met Ip_Filter Peer_Transfer Listener_Slots Listener_Server
    Server_Session Udp_Global Ed2k_Links Spider_Receiver
    Kad_Publish
begin

text \<open>
  AmuleD is a console client for the eD2k and Kademlia file-sharing networks. This development
  models the deciding parts of the package \<open>src/src/amuled_v2\<close>: what it reads and writes on the
  wire and on disk, how it hashes and verifies files, how it keeps track of downloads and uploads,
  and how it organises the Kad contacts it knows.

  Conventions. Bytes are \<open>8 word\<close>, Kad identifiers \<open>128 word\<close>; Python's integers are \<open>int\<close>, or \<open>nat\<close>
  where the code has already checked the sign. A Python string is a list of code points or, where
  only ASCII and Latin-1 are handled, a \<open>string\<close>. An exception is a constructor of \<open>exn\<close>, and an
  operation that can raise returns \<open>exn + 'a\<close> (\<open>res\<close>). Objects with mutable fields are records, and
  their methods return the new record. Clocks, random numbers, the zlib and MD4 libraries and
  callbacks are arguments; what is assumed of them is a premise of the theorem that uses it.

  \<^item> \<^verbatim>\<open>Prelude\<close>, \<^verbatim>\<open>Py_Text\<close>, \<^verbatim>\<open>Py_String\<close>: exceptions, byte slices, little-endian numbers, UTF-8 and
    Latin-1, and the string methods of Python the code calls.
  \<^item> \<^verbatim>\<open>Binary_Codec\<close>, \<^verbatim>\<open>Tag_Codec\<close>, \<^verbatim>\<open>Packet_Codec\<close>: \<open>core/codec\<close>. The locale \<open>wire_codec\<close> states what a
    field codec owes its users, and is interpreted on the code's readers and writers. Round trips of
    tags and packet streams, and what the readers do on arbitrary bytes.
  \<^item> \<^verbatim>\<open>Ed2k_Hash\<close>, \<^verbatim>\<open>Aich\<close>: \<open>core/hashes\<close>. The incremental ED2K hasher equals the specification by
    blocks; the AICH leaves, tree and recovery data.
  \<^item> \<^verbatim>\<open>Part_File\<close>, \<^verbatim>\<open>Download_Queue\<close>, \<^verbatim>\<open>Ics\<close>: \<open>core/download\<close>. The gap list of a part file refines the
    set of missing bytes (locale \<open>gap_store\<close>); the queue's reachable states, also after operations that
    raise half way (\<open>dq_broken\<close>); the choice of blocks.
  \<^item> \<^verbatim>\<open>Upload_Queue\<close>: \<open>core/upload/queue.py\<close>. Ranks, slots and grants.
  \<^item> \<^verbatim>\<open>Nodes_Dat\<close>, \<^verbatim>\<open>Kad_Packets\<close>, \<^verbatim>\<open>Kad_Routing\<close>: \<open>core/kad\<close>. The bootstrap file, identifiers and
    datagrams, and the routing table with its reachable states.
  \<^item> \<^verbatim>\<open>Kad_Tags\<close>, \<^verbatim>\<open>Kad_Lookup\<close>, \<^verbatim>\<open>Kad_Search\<close>, \<^verbatim>\<open>Kad_Sources\<close>, \<^verbatim>\<open>Kad_Publish\<close>: \<open>core/kad/search.py\<close>,
    \<open>source_search.py\<close>, \<open>publish.py\<close>. One turn of a lookup as a function of what the clock and the socket give
    it; the invariant \<open>lookup_inv\<close> with the exact log of the requests, which exceptions leave a search
    (those of a failing send or receive among them), and what of a published file is found again.

  \<^item> \<^verbatim>\<open>Peer_Codec\<close>: \<open>core/peer/codec.py\<close>. The payloads clients exchange over TCP: HELLO with its tags, part
    requests and part data, file status, source exchange; round trips and the errors of the parsers.

  \<^item> \<^verbatim>\<open>Obfuscation\<close>, \<^verbatim>\<open>Udp_Obfuscation\<close>: \<open>core/peer/obfuscation.py\<close>, \<open>core/kad/obfuscation.py\<close> and
    \<open>core/peer/udp_obfuscation.py\<close>. The handshakes end with both ends in step, the channel behind them
    delivers (rule induction over \<open>channel_reach\<close>), and what the datagram modules read of each other.
  \<^item> \<^verbatim>\<open>Utp\<close>: \<open>core/natt/utp.py\<close>. The receiver against a network that reorders, repeats and drops.
  \<^item> \<^verbatim>\<open>Known_Met\<close>: \<open>core/sharing/known_met.py\<close>, written and read back.
  \<^item> \<^verbatim>\<open>Ip_Filter\<close>: \<open>core/ipfilter.py\<close> and \<open>core/server_filter.py\<close>. Filter lines, ranges and the choice
    of servers.

  \<^item> \<^verbatim>\<open>Upload_Engine\<close>: \<open>core/upload/engine.py\<close>. The upload session; its answers to part requests carry
    exactly the requested bytes (\<open>carries\<close>, the contract of sender and receiver).
  \<^item> \<^verbatim>\<open>Peer_Client\<close>, \<^verbatim>\<open>Peer_Transfer\<close>: \<open>core/peer/client.py\<close> and the transport of \<open>core/peer/listener.py\<close>.
    The locale \<open>serving_peer\<close> is what a download relies on; it is interpreted on the upload session of
    the program behind the wire format, and gives the end-to-end theorem on a transfer.

  \<^item> \<^verbatim>\<open>Secure_Ident\<close>: \<open>core/security/secure_ident.py\<close>. The DER encoding of a key determines the key, and a
    signature of a provider verifies under its own encoding, if RSA does so (\<open>rsa_correct\<close>).
  \<^item> \<^verbatim>\<open>Kad_Buddy\<close>: \<open>core/kad/buddy.py\<close>, \<open>buddy_customer.py\<close>, \<open>direct_callback.py\<close>. The registry,
    the relay and the served client; an entry survives whatever others do to the registry.
    \<^verbatim>\<open>Spider_Receiver\<close>: the receiver task of \<open>spider.py\<close>. The parts of a callback fit together, and the receiver,
    which should call the relay, raises before it does.
  \<^item> \<^verbatim>\<open>Peer_Listener\<close>, \<^verbatim>\<open>Listener_Server\<close>: \<open>core/peer/listener.py\<close>. An incoming session as a step function over
    its phases (\<open>listener_step\<close>), with what it shares with the other sessions; the admission of sockets.
    \<^verbatim>\<open>Listener_Slots\<close> shows that each session moves only its own client in the upload queue and serves and
    accepts only with a slot, against sessions that change the queue in between (\<open>session_reach\<close>), and what a
    client that hangs up leaves behind; \<^verbatim>\<open>Listener_Ident\<close> who is verified, and which requests end a session.

  \<^item> \<^verbatim>\<open>Typed_Read\<close>, \<^verbatim>\<open>Py_Dict\<close>: what a parser promises on arbitrary bytes (\<open>yields\<close>, \<open>gives\<close>), and dictionaries
    filled in a loop.
  \<^item> \<^verbatim>\<open>Server_Met\<close>, \<^verbatim>\<open>Ed2k_Links\<close>: \<open>core/ed2k/server_met.py\<close>, \<open>links.py\<close>. The server lists and file links, parsed
    from the layout they are written in; what the parser accepts; the order of address octets.
  \<^item> \<^verbatim>\<open>Server_Client\<close>, \<^verbatim>\<open>Server_Login\<close>: \<open>core/ed2k/constants.py\<close> and \<open>server_client.py\<close>. The messages of a server and
    the session with one: the handshake ends in a login, nothing but an id change does, a search keeps the
    first result of every file.
  \<^item> \<^verbatim>\<open>Server_Session\<close>: \<open>core/ed2k/server_session.py\<close>. Candidates, rounds of attempts and the blacklist.
  \<^item> \<^verbatim>\<open>Udp_Global\<close>: \<open>core/ed2k/udp_global.py\<close>. The search over UDP, and why no answer reaches it.

  Bounds and fuel. The transfer loop is a partial function whose value \<open>None\<close> is a call that never
  returns; the theorem on it shows a value. The trimming loop of \<open>Ics\<close> carries fuel of the number of requests plus one; the
  theorem on it shows that the loop has reached its fixpoint by then. A turn of a Kad lookup stands for one
  receive window; with no datagram at all the lookup ends after 483 turns, four for each of the 120
  nodes of the seed pool and three more. All other recursions end by
  their structure or by a measure on the data that is left. A routing zone splits at most down to
  level 127, the measure of \<open>leaf_add\<close>.

  Not modelled. Sockets, threads, the asyncio supervision of the kernel, the SQL of the state store
  other than the download rows, logging, the command line and the console scripts, and RSA itself: glue
  around the operations above. The spider but for its receiver and the Kad bootstrap, with their floating
  point rankings, and the runner that dials the sources of a download and feeds \<open>Peer_Client\<close>. The ciphers and digests of the
  obfuscation (ARC4, MD5) are arguments.
\<close>

end
